(* ===== verification/Prelude.thy ===== *)
theory Prelude
  imports Main "HOL-Library.Monad_Syntax"
begin

text \<open>
  What every component shares: the return codes of \<^verbatim>\<open>incl_pub/pub_type.h\<close>, the
  two's-complement narrowing of C's fixed-width integers, C strings and the few
  routines of the C library the sources call on them (\<^verbatim>\<open>strncpy\<close>, \<^verbatim>\<open>atoll\<close>,
  \<^verbatim>\<open>sprintf\<close> with \<^verbatim>\<open>%0*lld\<close>), and generic lemmas on lists and options.

  A function of the program that reads or writes the shared state takes the
  world and returns an option: \<open>None\<close> means that the C code does not return in a
  defined way (it dereferences a null pointer, leaves an array, or blocks in a
  system call for ever), \<open>Some (r, w)\<close> is its return value and the new world.
\<close>

section \<open>Collections\<close>

named_theorems model_defs \<open>definitions of the model unfolded to evaluate an operation\<close>
named_theorems frame_simps \<open>fields of the world an operation does not change\<close>

section \<open>Return codes and integer widths\<close>

abbreviation (input) SW_OK :: int where "SW_OK \<equiv> 0"
abbreviation (input) SW_ERROR :: int where "SW_ERROR \<equiv> - 1"
abbreviation (input) SW_ERR :: int where "SW_ERR \<equiv> - 1"

abbreviation (input) SW_NAME_LEN :: nat where "SW_NAME_LEN \<equiv> 32"
abbreviation (input) SW_TRACE_LEN :: int where "SW_TRACE_LEN \<equiv> 12"
abbreviation (input) SQN_LEN :: nat where "SQN_LEN \<equiv> 32"
abbreviation (input) DATE_MAX_LEN :: nat where "DATE_MAX_LEN \<equiv> 16"

text \<open>Narrowing to a signed 16, 32 or 64 bit integer.\<close>

definition s16 :: "int \<Rightarrow> int" where "s16 x = signed_take_bit 15 x"
definition s32 :: "int \<Rightarrow> int" where "s32 x = signed_take_bit 31 x"
definition s64 :: "int \<Rightarrow> int" where "s64 x = signed_take_bit 63 x"

lemma s16_wrap:
  assumes "32768 \<le> x" and "x \<le> 65535"
  shows "s16 x = x - 65536"
proof -
  have "(x + 32768) mod 65536 = (x - 32768 + 65536) mod 65536" by (rule arg_cong2 [where f = modulo]) simp_all
  also have "\<dots> = (x - 32768) mod 65536" by (rule mod_add_self2)
  also have "\<dots> = x - 32768" using assms by simp
  finally have "(x + 2 ^ 15) mod 2 ^ Suc 15 = x - 32768" by simp
  then show ?thesis
    unfolding s16_def signed_take_bit_eq_take_bit_shift take_bit_eq_mod by simp
qed

text \<open>C's division truncates towards zero.\<close>

definition c_div :: "int \<Rightarrow> int \<Rightarrow> int" where
  "c_div a b = sgn a * sgn b * (\<bar>a\<bar> div \<bar>b\<bar>)"

lemma c_div_pos [simp]: "0 \<le> a \<Longrightarrow> 0 < b \<Longrightarrow> c_div a b = a div b"
  by (cases "a = 0") (simp_all add: c_div_def)

lemma s16_id [simp]: "- 32768 \<le> x \<Longrightarrow> x < 32768 \<Longrightarrow> s16 x = x"
  by (simp add: s16_def signed_take_bit_int_eq_self)

lemma s32_id [simp]: "- 2147483648 \<le> x \<Longrightarrow> x < 2147483648 \<Longrightarrow> s32 x = x"
  by (simp add: s32_def signed_take_bit_int_eq_self)

lemma s64_id [simp]:
  "- 9223372036854775808 \<le> x \<Longrightarrow> x < 9223372036854775808 \<Longrightarrow> s64 x = x"
  by (simp add: s64_def signed_take_bit_int_eq_self)

lemma s16_range: "- 32768 \<le> s16 x \<and> s16 x < 32768"
  using signed_take_bit_int_greater_eq_minus_exp [of 15 x] signed_take_bit_int_less_exp [of 15 x]
  by (simp add: s16_def)

lemma s32_range: "- 2147483648 \<le> s32 x \<and> s32 x < 2147483648"
  using signed_take_bit_int_greater_eq_minus_exp [of 31 x] signed_take_bit_int_less_exp [of 31 x]
  by (simp add: s32_def)

lemma s32_add [simp]: "s32 (s32 x + y) = s32 (x + y)"
  by (simp add: s32_def signed_take_bit_eq_take_bit_shift take_bit_eq_mod mod_simps ac_simps)

lemma s32_add2 [simp]: "s32 (x + s32 y) = s32 (x + y)"
  using s32_add [of y x] by (simp add: add.commute)

lemma s32_diff [simp]: "s32 (s32 x - y) = s32 (x - y)"
  using s32_add [of x "- y"] by simp

lemma s16_wraps: "s16 32768 = - 32768"
  by (simp add: s16_def signed_take_bit_eq_take_bit_minus)

text \<open>An int as \<^verbatim>\<open>size_t\<close>.\<close>

definition to_size :: "int \<Rightarrow> nat" where
  "to_size x = nat (x mod 18446744073709551616)"

lemma to_size_id [simp]: "0 \<le> x \<Longrightarrow> x < 18446744073709551616 \<Longrightarrow> to_size x = nat x"
  by (simp add: to_size_def)

section \<open>C strings\<close>

text \<open>
  A C string is the list of its characters before the terminating NUL.
  \<open>cstr_cut n s\<close> is what \<^verbatim>\<open>strncpy(dst, s, n)\<close> leaves as a C string in a
  buffer whose byte \<open>n\<close> is NUL.
\<close>

type_synonym cstr = string

definition cstr_cut :: "nat \<Rightarrow> cstr \<Rightarrow> cstr" where
  "cstr_cut n s = take n s"

lemma cstr_cut_length: "length (cstr_cut n s) \<le> n"
  by (simp add: cstr_cut_def)

lemma cstr_cut_id [simp]: "length s \<le> n \<Longrightarrow> cstr_cut n s = s"
  by (simp add: cstr_cut_def)

lemma cstr_cut_empty [simp]: "0 < n \<Longrightarrow> cstr_cut n s = [] \<longleftrightarrow> s = []"
  by (simp add: cstr_cut_def)

definition c_digit :: "char \<Rightarrow> nat" where
  "c_digit c = of_char c - 48"

definition c_isdigit :: "char \<Rightarrow> bool" where
  "c_isdigit c \<longleftrightarrow> 48 \<le> (of_char c :: nat) \<and> (of_char c :: nat) \<le> 57"

definition c_isspace :: "char \<Rightarrow> bool" where
  "c_isspace c \<longleftrightarrow> (of_char c :: nat) = 32 \<or> (9 \<le> (of_char c :: nat) \<and> (of_char c :: nat) \<le> 13)"

text \<open>The digits of a number, most significant first, as \<^verbatim>\<open>%lld\<close> prints them.\<close>

definition digit_char :: "nat \<Rightarrow> char" where
  "digit_char d = char_of (48 + d)"

fun nat_digits :: "nat \<Rightarrow> cstr" where
  "nat_digits n = (if n < 10 then [digit_char n] else nat_digits (n div 10) @ [digit_char (n mod 10)])"

declare nat_digits.simps [simp del]

definition fmt_lld :: "int \<Rightarrow> cstr" where
  "fmt_lld x = (if x < 0 then CHR ''-'' # nat_digits (nat (- x)) else nat_digits (nat x))"

text \<open>
  \<^verbatim>\<open>%0*lld\<close>: a non-negative width pads with zeros after the sign, a negative
  one is the flag \<^verbatim>\<open>-\<close> with the width's absolute value, which pads with blanks
  on the right.
\<close>

definition fmt_0lld :: "int \<Rightarrow> int \<Rightarrow> cstr" where
  "fmt_0lld width x =
     (let ds = nat_digits (nat \<bar>x\<bar>); sg = (if x < 0 then [CHR ''-''] else []);
          len = length sg + length ds in
      if 0 \<le> width then sg @ replicate (nat width - len) (CHR ''0'') @ ds
      else sg @ ds @ replicate (nat (- width) - len) (CHR '' ''))"

text \<open>\<^verbatim>\<open>atoll\<close>: blanks, a sign, digits up to the first other character; the value
  saturates at the ends of the 64 bit range, as \<^verbatim>\<open>strtoll\<close> does.\<close>

definition digits_val :: "cstr \<Rightarrow> nat" where
  "digits_val ds = foldl (\<lambda>acc c. 10 * acc + c_digit c) 0 ds"

definition sat64 :: "int \<Rightarrow> int" where
  "sat64 x = max (- 9223372036854775808) (min 9223372036854775807 x)"

definition atoll :: "cstr \<Rightarrow> int" where
  "atoll s =
     (case dropWhile c_isspace s of
        [] \<Rightarrow> 0
      | c # cs \<Rightarrow>
          if c = CHR ''-'' then sat64 (- int (digits_val (takeWhile c_isdigit cs)))
          else if c = CHR ''+'' then sat64 (int (digits_val (takeWhile c_isdigit cs)))
          else sat64 (int (digits_val (takeWhile c_isdigit (c # cs)))))"

definition atoi :: "cstr \<Rightarrow> int" where
  "atoi s = s32 (atoll s)"

subsection \<open>Printing and reading numbers\<close>

lemma of_char_digit_char [simp]: "d < 10 \<Longrightarrow> of_char (digit_char d) = 48 + d"
  by (simp add: digit_char_def)

lemma c_digit_digit_char [simp]: "d < 10 \<Longrightarrow> c_digit (digit_char d) = d"
  by (simp add: c_digit_def)

lemma c_isdigit_digit_char [simp]: "d < 10 \<Longrightarrow> c_isdigit (digit_char d)"
  by (simp add: c_isdigit_def)

lemma digits_val_snoc [simp]: "digits_val (ds @ [c]) = 10 * digits_val ds + c_digit c"
  by (simp add: digits_val_def)

lemma digits_val_nil [simp]: "digits_val [] = 0"
  by (simp add: digits_val_def)

lemma digits_val_nat_digits [simp]: "digits_val (nat_digits n) = n"
proof (induction n rule: nat_digits.induct)
  case (1 n)
  show ?case
  proof (cases "n < 10")
    case True
    then show ?thesis by (subst nat_digits.simps) (simp add: digits_val_def)
  next
    case False
    with 1 show ?thesis by (subst nat_digits.simps) simp
  qed
qed

lemma nat_digits_isdigit: "\<forall>c \<in> set (nat_digits n). c_isdigit c"
proof (induction n rule: nat_digits.induct)
  case (1 n)
  then show ?case by (subst nat_digits.simps) auto
qed

lemma nat_digits_nonempty [simp]: "nat_digits n \<noteq> []"
  by (subst nat_digits.simps) simp

lemma nat_digits_length_ge: "10 ^ k \<le> n \<Longrightarrow> Suc k \<le> length (nat_digits n)"
proof (induction k arbitrary: n)
  case 0
  then show ?case by (cases "nat_digits n") simp_all
next
  case (Suc k)
  have "(1 :: nat) \<le> 10 ^ k" by simp
  then have "(10 :: nat) \<le> 10 ^ Suc k" unfolding power_Suc by linarith
  then have "\<not> n < 10" using Suc.prems by linarith
  moreover have "10 ^ k \<le> n div 10" using Suc.prems by (simp add: less_eq_div_iff_mult_less_eq mult.commute)
  ultimately show ?case using Suc.IH by (subst nat_digits.simps) simp
qed

lemma nat_digits_length: "0 < k \<Longrightarrow> n < 10 ^ k \<Longrightarrow> length (nat_digits n) \<le> k"
proof (induction n arbitrary: k rule: nat_digits.induct)
  case (1 n)
  show ?case
  proof (cases "n < 10")
    case True
    with "1.prems" show ?thesis by (subst nat_digits.simps) simp
  next
    case False
    with "1.prems" obtain j where k: "k = Suc j" and j: "0 < j"
      by (cases k; cases "k - 1") auto
    with "1.prems" have "n div 10 < 10 ^ j" by (simp add: less_mult_imp_div_less mult.commute)
    with "1.IH" False j have "length (nat_digits (n div 10)) \<le> j" by simp
    with False k show ?thesis by (subst nat_digits.simps) simp
  qed
qed

lemma digits_val_zeros: "digits_val (replicate n (CHR ''0'') @ ds) = digits_val ds"
proof -
  have "c_digit (CHR ''0'') = 0" by (simp add: c_digit_def)
  then have "foldl (\<lambda>acc c. 10 * acc + c_digit c) 0 (replicate n (CHR ''0'')) = 0"
    by (induction n) simp_all
  then show ?thesis by (simp add: digits_val_def)
qed

lemma c_isdigit_zero [simp]: "c_isdigit (CHR ''0'')"
  by (simp add: c_isdigit_def)

lemma isdigit_not_space: "c_isdigit c \<Longrightarrow> \<not> c_isspace c"
  by (auto simp: c_isdigit_def c_isspace_def)

lemma isdigit_not_sign: "c_isdigit c \<Longrightarrow> c \<noteq> CHR ''-'' \<and> c \<noteq> CHR ''+''"
  by (auto simp: c_isdigit_def)

lemma atoll_digits:
  assumes "\<forall>c \<in> set ds. c_isdigit c" and "ds \<noteq> []"
  shows "atoll ds = sat64 (int (digits_val ds))"
proof -
  from assms obtain c cs where ds: "ds = c # cs" by (cases ds) auto
  with assms have c: "c_isdigit c" by simp
  have "takeWhile c_isdigit cs = cs"
    using assms ds by simp
  note cs = this
  show ?thesis
    using c by (simp add: ds cs atoll_def isdigit_not_space isdigit_not_sign)
qed

lemma fmt_0lld_pos:
  "0 \<le> x \<Longrightarrow> 0 \<le> w \<Longrightarrow>
   fmt_0lld w x = replicate (nat w - length (nat_digits (nat x))) (CHR ''0'') @ nat_digits (nat x)"
  by (simp add: fmt_0lld_def Let_def)

lemma fmt_0lld_length:
  "0 \<le> x \<Longrightarrow> x < 10 ^ k \<Longrightarrow> 0 < k \<Longrightarrow> length (fmt_0lld (int k) x) = k"
proof -
  assume x: "0 \<le> x" "x < 10 ^ k" and k: "0 < k"
  then have "nat x < 10 ^ k" by (simp add: nat_less_iff)
  with k have "length (nat_digits (nat x)) \<le> k" by (intro nat_digits_length)
  with x show ?thesis by (simp add: fmt_0lld_pos)
qed

lemma fmt_0lld_digits: "0 \<le> x \<Longrightarrow> 0 \<le> w \<Longrightarrow> \<forall>c \<in> set (fmt_0lld w x). c_isdigit c"
  using nat_digits_isdigit by (auto simp: fmt_0lld_pos)

lemma fmt_0lld_val: "0 \<le> x \<Longrightarrow> 0 \<le> w \<Longrightarrow> digits_val (fmt_0lld w x) = nat x"
  by (simp add: fmt_0lld_pos digits_val_zeros)

lemma fmt_0lld_inj:
  "0 \<le> x \<Longrightarrow> 0 \<le> y \<Longrightarrow> 0 \<le> w \<Longrightarrow> fmt_0lld w x = fmt_0lld w y \<Longrightarrow> x = y"
  by (metis fmt_0lld_val nat_eq_iff nat_int)

text \<open>A negative width fills with blanks behind the digits.\<close>

lemma fmt_0lld_neg: "0 \<le> x \<Longrightarrow> w < 0 \<Longrightarrow> \<exists>n. fmt_0lld w x = nat_digits (nat x) @ replicate n (CHR '' '')"
  by (auto simp: fmt_0lld_def Let_def)

lemma fmt_0lld_inj_any:
  assumes "0 \<le> x" "0 \<le> y" "fmt_0lld w x = fmt_0lld w y"
  shows "x = y"
proof (cases "0 \<le> w")
  case True
  with assms show ?thesis by (rule_tac fmt_0lld_inj [of x y w])
next
  case False
  then obtain m n where "fmt_0lld w x = nat_digits (nat x) @ replicate m (CHR '' '')"
      "fmt_0lld w y = nat_digits (nat y) @ replicate n (CHR '' '')"
    using fmt_0lld_neg [of x w] fmt_0lld_neg [of y w] assms by (meson not_le)
  with assms(3) have t: "nat_digits (nat x) @ replicate m (CHR '' '') = nat_digits (nat y) @ replicate n (CHR '' '')" by simp
  have digits: "takeWhile c_isdigit (nat_digits k @ replicate l (CHR '' '')) = nat_digits k" for k l
    using nat_digits_isdigit [of k] by (cases l) (auto simp: takeWhile_append c_isdigit_def)
  have "nat_digits (nat x) = nat_digits (nat y)" using arg_cong [OF t, of "takeWhile c_isdigit"] by (simp add: digits)
  with assms(1,2) show ?thesis by (intro fmt_0lld_inj [of x y 0]) (simp_all add: fmt_0lld_pos)
qed

section \<open>Configuration\<close>

text \<open>The fields of \<^verbatim>\<open>sw_syscfg_t\<close> the modelled components read, and one element
  of a configuration file: its tag and the text of its children, \<open>None\<close> for a child
  that is missing or empty (\<^verbatim>\<open>pub_xml_locnode\<close> and the check of \<^verbatim>\<open>value\<close>).\<close>

record sw_syscfg =
  cfg_session_max :: int
  cfg_prdt_max :: int
  cfg_lsn_max :: int
  cfg_seq_max :: int

record xml_item =
  xi_tag :: cstr
  xi_child :: "cstr \<Rightarrow> cstr option"

section \<open>Lists\<close>

text \<open>The first index from \<open>i\<close> on whose element satisfies \<open>p\<close>: the scan loops of
  the tables.\<close>

fun find_idx :: "('a \<Rightarrow> bool) \<Rightarrow> 'a list \<Rightarrow> nat option" where
  "find_idx p [] = None"
| "find_idx p (x # xs) = (if p x then Some 0 else map_option Suc (find_idx p xs))"

lemma find_idx_Some:
  "find_idx p xs = Some i \<Longrightarrow> i < length xs \<and> p (xs ! i) \<and> (\<forall>j < i. \<not> p (xs ! j))"
proof (induction xs arbitrary: i)
  case Nil
  then show ?case by simp
next
  case (Cons x xs)
  then show ?case by (auto split: if_splits simp: less_Suc_eq_0_disj)
qed

lemma find_idx_None: "find_idx p xs = None \<longleftrightarrow> (\<forall>x \<in> set xs. \<not> p x)"
  by (induction xs) auto

lemma find_idx_eqI:
  "i < length xs \<Longrightarrow> p (xs ! i) \<Longrightarrow> (\<And>j. j < i \<Longrightarrow> \<not> p (xs ! j)) \<Longrightarrow> find_idx p xs = Some i"
proof (induction xs arbitrary: i)
  case Nil
  then show ?case by simp
next
  case (Cons x xs)
  show ?case
  proof (cases i)
    case 0
    with Cons.prems show ?thesis by simp
  next
    case (Suc k)
    have "\<not> p x" using Cons.prems(3) [of 0] Suc by simp
    moreover have "find_idx p xs = Some k"
    proof (rule Cons.IH)
      show "\<not> p (xs ! j)" if "j < k" for j
        using Cons.prems(3) [of "Suc j"] Suc that by simp
    qed (use Cons.prems Suc in auto)
    ultimately show ?thesis using Suc by simp
  qed
qed

lemma length_filter_update:
  "i < length xs \<Longrightarrow>
   int (length (filter p (xs[i := y]))) =
     int (length (filter p xs)) - (if p (xs ! i) then 1 else 0) + (if p y then 1 else 0)"
proof (induction xs arbitrary: i)
  case Nil
  then show ?case by simp
next
  case (Cons x xs)
  show ?case
  proof (cases i)
    case 0
    then show ?thesis by simp
  next
    case (Suc k)
    with Cons.prems Cons.IH [of k] show ?thesis by (auto split: if_splits)
  qed
qed

section \<open>Handing out ids\<close>

text \<open>
  The interface of a component that hands out ids: \<open>alloc\<close> answers \<open>fail\<close> or an id that
  is not in use.  \<open>id_pool\<close> can also take one back.
\<close>

fun alloc_many :: "('w \<Rightarrow> (int \<times> 'w) option) \<Rightarrow> nat \<Rightarrow> 'w \<Rightarrow> (int list \<times> 'w) option" where
  "alloc_many alloc 0 w = Some ([], w)"
| "alloc_many alloc (Suc k) w = do {
     (r, w1) \<leftarrow> alloc w;
     (rs, w2) \<leftarrow> alloc_many alloc k w1;
     Some (r # rs, w2)
   }"

locale id_source =
  fixes alloc :: "'w \<Rightarrow> (int \<times> 'w) option"
    and ids :: "'w \<Rightarrow> int set"
    and inv :: "'w \<Rightarrow> bool"
    and fail :: int
  assumes alloc_law: "inv w \<Longrightarrow> \<exists>r w'. alloc w = Some (r, w') \<and> inv w' \<and>
      (r = fail \<and> ids w' = ids w \<or> r \<noteq> fail \<and> r \<notin> ids w \<and> ids w' = insert r (ids w))"
begin

lemma alloc_many_distinct:
  "inv w \<Longrightarrow> \<exists>rs w'. alloc_many alloc k w = Some (rs, w') \<and> inv w' \<and> length rs = k \<and>
     distinct (filter (\<lambda>r. r \<noteq> fail) rs) \<and>
     set (filter (\<lambda>r. r \<noteq> fail) rs) \<inter> ids w = {} \<and>
     ids w' = ids w \<union> set (filter (\<lambda>r. r \<noteq> fail) rs)"
proof (induction k arbitrary: w)
  case 0
  then show ?case by simp
next
  case (Suc k)
  obtain r w1 where r: "alloc w = Some (r, w1)" "inv w1"
      "r = fail \<and> ids w1 = ids w \<or> r \<noteq> fail \<and> r \<notin> ids w \<and> ids w1 = insert r (ids w)"
    using alloc_law [OF Suc.prems] by blast
  obtain rs w2 where "alloc_many alloc k w1 = Some (rs, w2)" "inv w2" "length rs = k"
      "distinct (filter (\<lambda>r. r \<noteq> fail) rs)" "set (filter (\<lambda>r. r \<noteq> fail) rs) \<inter> ids w1 = {}"
      "ids w2 = ids w1 \<union> set (filter (\<lambda>r. r \<noteq> fail) rs)"
    using Suc.IH [OF r(2)] by blast
  with r show ?case by (intro exI [of _ "r # rs"] exI [of _ w2]) auto
qed

end

locale id_pool = id_source +
  fixes release :: "int \<Rightarrow> 'a \<Rightarrow> (int \<times> 'a) option"
  assumes release_law: "inv w \<Longrightarrow> m \<in> ids w \<Longrightarrow>
      \<exists>w'. release m w = Some (SW_OK, w') \<and> inv w' \<and> ids w' = ids w - {m}"
begin

lemma alloc_release:
  assumes "inv w"
  shows "\<exists>r w1. alloc w = Some (r, w1) \<and>
    (r \<noteq> fail \<longrightarrow> (\<exists>w2. release r w1 = Some (SW_OK, w2) \<and> inv w2 \<and> ids w2 = ids w))"
proof -
  obtain r w1 where r: "alloc w = Some (r, w1)" "inv w1"
      "r = fail \<and> ids w1 = ids w \<or> r \<noteq> fail \<and> r \<notin> ids w \<and> ids w1 = insert r (ids w)"
    using alloc_law [OF assms] by blast
  then have "\<exists>w2. release r w1 = Some (SW_OK, w2) \<and> inv w2 \<and> ids w2 = ids w" if "r \<noteq> fail"
    using release_law [of w1 r] that by auto
  with r(1) show ?thesis by blast
qed

end

section \<open>Counters\<close>

text \<open>
  The interface of a counter: \<open>draw\<close> answers \<open>shown v\<close> for the current value \<open>v\<close> and moves on to
  \<open>next v\<close>.
\<close>

fun draw_many :: "('w \<Rightarrow> ('n \<times> 'w) option) \<Rightarrow> nat \<Rightarrow> 'w \<Rightarrow> ('n list \<times> 'w) option" where
  "draw_many draw 0 w = Some ([], w)"
| "draw_many draw (Suc k) w = do {
     (n, w1) \<leftarrow> draw w;
     (ns, w2) \<leftarrow> draw_many draw k w1;
     Some (n # ns, w2)
   }"

locale counter =
  fixes draw :: "'w \<Rightarrow> ('n \<times> 'w) option"
    and inv :: "'w \<Rightarrow> bool"
    and cur :: "'w \<Rightarrow> int"
    and next_val :: "int \<Rightarrow> int"
    and shown :: "int \<Rightarrow> 'n"
  assumes draw_law: "inv w \<Longrightarrow> \<exists>w'. draw w = Some (shown (cur w), w') \<and> inv w' \<and> cur w' = next_val (cur w)"
begin

lemma draw_many_values:
  "inv w \<Longrightarrow> \<exists>w'. draw_many draw k w = Some (map (\<lambda>i. shown ((next_val ^^ i) (cur w))) [0..<k], w') \<and>
     inv w' \<and> cur w' = (next_val ^^ k) (cur w)"
proof (induction k arbitrary: w)
  case 0
  then show ?case by simp
next
  case (Suc k)
  obtain w1 where w1: "draw w = Some (shown (cur w), w1)" "inv w1" "cur w1 = next_val (cur w)"
    using draw_law [OF Suc.prems] by blast
  obtain w2 where w2: "draw_many draw k w1 = Some (map (\<lambda>i. shown ((next_val ^^ i) (cur w1))) [0..<k], w2)"
      "inv w2" "cur w2 = (next_val ^^ k) (cur w1)"
    using Suc.IH [OF w1(2)] by blast
  have "map (\<lambda>i. shown ((next_val ^^ i) (cur w))) [0..<Suc k] =
      shown (cur w) # map (\<lambda>i. shown ((next_val ^^ i) (next_val (cur w)))) [0..<k]"
    unfolding upt_conv_Cons [OF zero_less_Suc] map_Suc_upt [symmetric] by (simp add: funpow_swap1)
  with w1 w2 show ?case by (simp add: funpow_swap1)
qed

end

section \<open>Key-value stores\<close>

text \<open>A table of values under names: \<open>same\<close> says which names the table does not tell apart, \<open>overwrites\<close> whether a
  second value under a name replaces the first or is refused.\<close>

fun put_all :: "('k \<Rightarrow> 'v \<Rightarrow> 's \<Rightarrow> (int \<times> 's) option) \<Rightarrow> ('k \<times> 'v) list \<Rightarrow> 's \<Rightarrow> 's option" where
  "put_all put [] s = Some s"
| "put_all put ((k, v) # kvs) s = do {
     (_, s1) \<leftarrow> put k v s;
     put_all put kvs s1
   }"

locale kv_store =
  fixes put :: "'k \<Rightarrow> 'v \<Rightarrow> 's \<Rightarrow> (int \<times> 's) option"
    and get :: "'k \<Rightarrow> 's \<Rightarrow> 'v option"
    and inv :: "'s \<Rightarrow> bool"
    and key_ok :: "'k \<Rightarrow> bool"
    and val_ok :: "'v \<Rightarrow> bool"
    and same :: "'k \<Rightarrow> 'k \<Rightarrow> bool"
    and overwrites :: bool
  assumes put_law: "inv s \<Longrightarrow> key_ok k \<Longrightarrow> val_ok v \<Longrightarrow> \<exists>r s'. put k v s = Some (r, s') \<and> inv s' \<and>
      (r = SW_OK \<longleftrightarrow> overwrites \<or> get k s = None) \<and>
      (\<forall>j. key_ok j \<longrightarrow> get j s' = (if r = SW_OK \<and> same k j then Some v else get j s))"
    and same_refl: "same k k" and same_sym: "same k j \<Longrightarrow> same j k"
begin

lemma put_get:
  assumes "inv s" and "key_ok k" and "val_ok v" and "overwrites \<or> get k s = None"
  shows "\<exists>s'. put k v s = Some (SW_OK, s') \<and> inv s' \<and> get k s' = Some v"
  using put_law [OF assms(1-3)] assms(2,4) same_refl by auto

lemma put_refused:
  assumes "inv s" and "key_ok k" and "val_ok v" and "\<not> overwrites" and "get k s \<noteq> None"
  shows "\<exists>r s'. put k v s = Some (r, s') \<and> r \<noteq> SW_OK \<and> (\<forall>j. key_ok j \<longrightarrow> get j s' = get j s)"
  using put_law [OF assms(1-3)] assms(4,5) by auto

text \<open>Values put under names the store tells apart are all there afterwards, and nothing else changed.\<close>

lemma put_all_get:
  assumes "inv s" and "\<forall>(k, v) \<in> set kvs. key_ok k \<and> val_ok v \<and> (overwrites \<or> get k s = None)"
    and "sorted_wrt (\<lambda>(k, _) (j, _). \<not> same k j) kvs"
  shows "\<exists>s'. put_all put kvs s = Some s' \<and> inv s' \<and> (\<forall>(k, v) \<in> set kvs. get k s' = Some v) \<and>
    (\<forall>j. key_ok j \<and> (\<forall>(k, _) \<in> set kvs. \<not> same k j) \<longrightarrow> get j s' = get j s)"
  using assms
proof (induction kvs arbitrary: s)
  case Nil
  then show ?case by simp
next
  case (Cons kv kvs)
  obtain k v where kv: "kv = (k, v)" by (cases kv)
  with Cons.prems have ok: "key_ok k" "val_ok v" "overwrites \<or> get k s = None" by auto
  obtain s1 where s1: "put k v s = Some (SW_OK, s1)" "inv s1"
      and get1: "\<And>j. key_ok j \<Longrightarrow> get j s1 = (if same k j then Some v else get j s)"
    using put_law [OF Cons.prems(1) ok(1,2)] ok(3) by auto
  have apart: "\<not> same k j" if "(j, u) \<in> set kvs" for j u using Cons.prems(3) kv that by auto
  then have "\<forall>(j, u) \<in> set kvs. key_ok j \<and> val_ok u \<and> (overwrites \<or> get j s1 = None)"
    using Cons.prems(2) get1 by fastforce
  moreover have "sorted_wrt (\<lambda>(k, _) (j, _). \<not> same k j) kvs" using Cons.prems(3) by simp
  ultimately obtain s' where s': "put_all put kvs s1 = Some s'" "inv s'" "\<forall>(k, v) \<in> set kvs. get k s' = Some v"
      and rest: "\<And>j. key_ok j \<Longrightarrow> \<forall>(k, _) \<in> set kvs. \<not> same k j \<Longrightarrow> get j s' = get j s1"
    using Cons.IH [OF s1(2)] by blast
  have "get k s' = Some v" using rest [OF ok(1)] get1 [OF ok(1)] apart same_sym same_refl by fastforce
  moreover have "get j s' = get j s" if "key_ok j" "\<forall>(k, _) \<in> set (kv # kvs). \<not> same k j" for j
    using that rest [of j] get1 [of j] kv by auto
  ultimately show ?case using s1(1) s' kv by auto
qed

end

lemma distinct_keys_apart: "distinct (map fst kvs) \<Longrightarrow> sorted_wrt (\<lambda>(k, _) (j, _). \<not> k = j) kvs"
  by (induction kvs) force+

text \<open>A counter that goes from \<open>lo\<close> to \<open>hi\<close> in steps and starts again.  In steps of 1 it visits the values modulo the
  length of the range; in any steps it comes back to a value only after it has started again.\<close>

definition wrap_next :: "int \<Rightarrow> int \<Rightarrow> int \<Rightarrow> int \<Rightarrow> int" where
  "wrap_next s lo hi v = (if v + s \<le> hi then v + s else lo)"

lemma wrap_next_range:
  assumes "0 \<le> s" "lo \<le> v" "v \<le> hi"
  shows "lo \<le> (wrap_next s lo hi ^^ i) v \<and> (wrap_next s lo hi ^^ i) v \<le> hi"
  using assms by (induction i) (auto simp: wrap_next_def)

lemma wrap_next_repeats:
  assumes "1 \<le> s" and "i < j" and "(wrap_next s lo hi ^^ j) v = (wrap_next s lo hi ^^ i) v"
  shows "\<exists>m. i < m \<and> m \<le> j \<and> (wrap_next s lo hi ^^ m) v = lo"
proof (rule ccontr)
  let ?f = "\<lambda>m. (wrap_next s lo hi ^^ m) v"
  assume "\<not> ?thesis"
  then have no: "?f m \<noteq> lo" if "i < m" "m \<le> j" for m using that by blast
  have step: "x < wrap_next s lo hi x" if "wrap_next s lo hi x \<noteq> lo" for x
    using that assms(1) by (simp add: wrap_next_def split: if_splits)
  have "?f i < ?f (Suc (i + d))" if "i + d < j" for d
    using that
  proof (induction d)
    case 0
    then have "?f (Suc i) \<noteq> lo" by (intro no) auto
    then show ?case by (simp add: step)
  next
    case (Suc d)
    then have "?f (Suc (i + Suc d)) \<noteq> lo" by (intro no) auto
    then have "?f (i + Suc d) < ?f (Suc (i + Suc d))" by (simp add: step)
    with Suc show ?case by simp
  qed
  from this [of "j - Suc i"] assms(2,3) show False by simp
qed

lemma wrap_next_power:
  assumes "lo \<le> v" and "v \<le> hi"
  shows "(wrap_next 1 lo hi ^^ i) v = lo + (v - lo + int i) mod (hi - lo + 1)"
proof (induction i)
  case 0
  then show ?case using assms by simp
next
  case (Suc i)
  let ?n = "hi - lo + 1" and ?x = "v - lo + int i"
  have n: "0 < ?n" using assms by simp
  have r: "0 \<le> ?x mod ?n" "?x mod ?n < ?n"
    using n pos_mod_sign [OF n, of ?x] pos_mod_bound [OF n, of ?x] by blast+
  have "(v - lo + int (Suc i)) mod ?n = (?x mod ?n + 1) mod ?n" by (simp add: mod_simps algebra_simps)
  also have "\<dots> = (if ?x mod ?n < hi - lo then ?x mod ?n + 1 else 0)"
  proof (cases "?x mod ?n < hi - lo")
    case True
    with r show ?thesis by simp
  next
    case False
    with r have "?x mod ?n + 1 = ?n" by simp
    with False show ?thesis by simp
  qed
  finally have m: "(v - lo + int (Suc i)) mod ?n = (if ?x mod ?n < hi - lo then ?x mod ?n + 1 else 0)" .
  have "(wrap_next 1 lo hi ^^ Suc i) v = wrap_next 1 lo hi (lo + ?x mod ?n)" by (simp add: Suc)
  also have "\<dots> = lo + (if ?x mod ?n < hi - lo then ?x mod ?n + 1 else 0)" by (auto simp: wrap_next_def)
  finally show ?case unfolding m .
qed

end
