(* ===== verification/Sem_Lock.thy ===== *)
theory Sem_Lock
  imports Prelude
begin

text \<open>
  The inter-process locks: \<^verbatim>\<open>os/unix/pub_sem.c\<close> (System V semaphores) and
  \<^verbatim>\<open>core/sem_lock.c\<close> (lock ids inside one semaphore set, mutexes and
  readers/writer locks of value \<^verbatim>\<open>SEM_VALUE\<close>).  The kernel's semaphore sets are a
  map from set ids to the values; \<^verbatim>\<open>semop\<close> is modelled as the manual page
  documents it, with \<open>None\<close> for a call that blocks.  The lock object in shared
  memory is \<open>g_sem_lock\<close>, \<open>None\<close> for a null pointer.
\<close>

section \<open>State\<close>

abbreviation (input) SEM_VALUE :: int where "SEM_VALUE \<equiv> 500"
abbreviation (input) SEMVMX :: int where "SEMVMX \<equiv> 32767"

record sem_lock_t =
  sl_sem_id :: int
  sl_sem_num :: int
  sl_lock_cnt :: int
  sl_lock_id :: int

record sem_world =
  kernel_sems :: "int \<Rightarrow> int list option"
  g_sem_lock :: "sem_lock_t option"

section \<open>Semaphores of the operating system\<close>

text \<open>One operation on one semaphore (\<^verbatim>\<open>semop\<close> with a single \<^verbatim>\<open>sembuf\<close> whose
  \<^verbatim>\<open>sem_op\<close> is not zero): it waits while the value would become negative, fails with
  \<^verbatim>\<open>EINVAL\<close>, \<^verbatim>\<open>EFBIG\<close> or \<^verbatim>\<open>ERANGE\<close>, and otherwise adds.\<close>

definition semop :: "int \<Rightarrow> int \<Rightarrow> int \<Rightarrow> 'a sem_world_scheme \<Rightarrow> (int \<times> 'a sem_world_scheme) option" where
  "semop semid num v w =
     (case kernel_sems w semid of
        None \<Rightarrow> Some (- 1, w)
      | Some vs \<Rightarrow>
          if num < 0 \<or> int (length vs) \<le> num then Some (- 1, w)
          else if vs ! nat num + v < 0 then None
          else if SEMVMX < vs ! nat num + v then Some (- 1, w)
          else Some (0, w\<lparr>kernel_sems := (kernel_sems w)(semid \<mapsto> vs[nat num := vs ! nat num + v])\<rparr>))"

text \<open>\<open>newid\<close> is the answer of \<^verbatim>\<open>semget\<close>: the id of the (new or existing) set,
  negative when it fails.\<close>

definition pub_sem_create :: "int \<Rightarrow> int \<Rightarrow> int \<Rightarrow> 'a sem_world_scheme \<Rightarrow> int \<times> 'a sem_world_scheme" where
  "pub_sem_create newid sz v w =
     (if newid = - 1 then (SW_ERR, w)
      else
        let vs = (case kernel_sems w newid of None \<Rightarrow> [] | Some vs \<Rightarrow> drop (nat sz) vs) in
        (newid, w\<lparr>kernel_sems := (kernel_sems w)(newid \<mapsto> replicate (nat sz) v @ vs)\<rparr>))"

definition pub_sem_open :: "int \<Rightarrow> int \<Rightarrow> int" where
  "pub_sem_open newid sz =
     (if sz \<le> 0 then SW_ERR else if newid < 0 then SW_ERR else newid)"

definition pub_sem_lock :: "int \<Rightarrow> int \<Rightarrow> int \<Rightarrow> 'a sem_world_scheme \<Rightarrow> (int \<times> 'a sem_world_scheme) option" where
  "pub_sem_lock semid num v w =
     (if semid < 0 then Some (SW_ERR, w) else semop semid num v w)"

definition pub_sem_unlock :: "int \<Rightarrow> int \<Rightarrow> int \<Rightarrow> 'a sem_world_scheme \<Rightarrow> (int \<times> 'a sem_world_scheme) option" where
  "pub_sem_unlock semid num v w =
     (if semid < 0 then Some (SW_ERR, w) else semop semid num v w)"

definition pub_sem_rm :: "int \<Rightarrow> 'a sem_world_scheme \<Rightarrow> int \<times> 'a sem_world_scheme" where
  "pub_sem_rm semid w =
     (if kernel_sems w semid = None then (- 1, w)
      else (0, w\<lparr>kernel_sems := (kernel_sems w)(semid := None)\<rparr>))"

definition pub_sem_check :: "int \<Rightarrow> 'a sem_world_scheme \<Rightarrow> int" where
  "pub_sem_check semid w = (if kernel_sems w semid = None then SW_ERROR else SW_OK)"

section \<open>The lock object\<close>

definition sem_loc_mutex_lock :: "sem_lock_t option \<Rightarrow> int \<Rightarrow> 'a sem_world_scheme \<Rightarrow> (int \<times> 'a sem_world_scheme) option" where
  "sem_loc_mutex_lock sem_lock lock_id w =
     (case sem_lock of
        None \<Rightarrow> Some (SW_ERROR, w)
      | Some s \<Rightarrow>
          if lock_id < 0 \<or> sl_sem_num s \<le> lock_id then Some (SW_ERROR, w)
          else pub_sem_lock (sl_sem_id s) lock_id (- SEM_VALUE) w)"

definition sem_loc_mutex_unlock :: "sem_lock_t option \<Rightarrow> int \<Rightarrow> 'a sem_world_scheme \<Rightarrow> (int \<times> 'a sem_world_scheme) option" where
  "sem_loc_mutex_unlock sem_lock lock_id w =
     (case sem_lock of
        None \<Rightarrow> Some (SW_ERROR, w)
      | Some s \<Rightarrow>
          if lock_id < 0 \<or> sl_sem_num s \<le> lock_id then Some (SW_ERROR, w)
          else pub_sem_unlock (sl_sem_id s) lock_id SEM_VALUE w)"

definition sem_loc_read_lock :: "sem_lock_t option \<Rightarrow> int \<Rightarrow> 'a sem_world_scheme \<Rightarrow> (int \<times> 'a sem_world_scheme) option" where
  "sem_loc_read_lock sem_lock lock_id w =
     (case sem_lock of
        None \<Rightarrow> Some (SW_ERROR, w)
      | Some s \<Rightarrow>
          if lock_id < 0 \<or> sl_sem_num s \<le> lock_id then Some (SW_ERROR, w)
          else pub_sem_lock (sl_sem_id s) lock_id (- 1) w)"

definition sem_loc_read_unlock :: "sem_lock_t option \<Rightarrow> int \<Rightarrow> 'a sem_world_scheme \<Rightarrow> (int \<times> 'a sem_world_scheme) option" where
  "sem_loc_read_unlock sem_lock lock_id w =
     (case sem_lock of
        None \<Rightarrow> Some (SW_ERROR, w)
      | Some s \<Rightarrow>
          if lock_id < 0 \<or> sl_sem_num s \<le> lock_id then Some (SW_ERROR, w)
          else pub_sem_unlock (sl_sem_id s) lock_id 1 w)"

definition sem_loc_write_lock :: "sem_lock_t option \<Rightarrow> int \<Rightarrow> 'a sem_world_scheme \<Rightarrow> (int \<times> 'a sem_world_scheme) option" where
  "sem_loc_write_lock sem_lock lock_id w =
     (case sem_lock of
        None \<Rightarrow> Some (SW_ERROR, w)
      | Some s \<Rightarrow>
          if lock_id < 0 \<or> sl_sem_num s \<le> lock_id then Some (SW_ERROR, w)
          else pub_sem_lock (sl_sem_id s) lock_id (- SEM_VALUE) w)"

definition sem_loc_write_unlock :: "sem_lock_t option \<Rightarrow> int \<Rightarrow> 'a sem_world_scheme \<Rightarrow> (int \<times> 'a sem_world_scheme) option" where
  "sem_loc_write_unlock sem_lock lock_id w =
     (case sem_lock of
        None \<Rightarrow> Some (SW_ERROR, w)
      | Some s \<Rightarrow>
          if lock_id < 0 \<or> sl_sem_num s \<le> lock_id then Some (SW_ERROR, w)
          else pub_sem_unlock (sl_sem_id s) lock_id SEM_VALUE w)"

text \<open>The calls on the process's global lock object.\<close>

definition sem_mutex_lock :: "int \<Rightarrow> 'a sem_world_scheme \<Rightarrow> (int \<times> 'a sem_world_scheme) option" where
  "sem_mutex_lock lock_id w =
     (if g_sem_lock w = None then Some (SW_ERROR, w)
      else sem_loc_mutex_lock (g_sem_lock w) lock_id w)"

definition sem_mutex_unlock :: "int \<Rightarrow> 'a sem_world_scheme \<Rightarrow> (int \<times> 'a sem_world_scheme) option" where
  "sem_mutex_unlock lock_id w =
     (if g_sem_lock w = None then Some (SW_ERROR, w)
      else sem_loc_mutex_unlock (g_sem_lock w) lock_id w)"

definition sem_read_lock :: "int \<Rightarrow> 'a sem_world_scheme \<Rightarrow> (int \<times> 'a sem_world_scheme) option" where
  "sem_read_lock lock_id w =
     (if g_sem_lock w = None then Some (SW_ERROR, w)
      else sem_loc_read_lock (g_sem_lock w) lock_id w)"

definition sem_read_unlock :: "int \<Rightarrow> 'a sem_world_scheme \<Rightarrow> (int \<times> 'a sem_world_scheme) option" where
  "sem_read_unlock lock_id w =
     (if g_sem_lock w = None then Some (SW_ERROR, w)
      else sem_loc_read_unlock (g_sem_lock w) lock_id w)"

definition sem_write_lock :: "int \<Rightarrow> 'a sem_world_scheme \<Rightarrow> (int \<times> 'a sem_world_scheme) option" where
  "sem_write_lock lock_id w =
     (if g_sem_lock w = None then Some (SW_ERROR, w)
      else sem_loc_write_lock (g_sem_lock w) lock_id w)"

definition sem_write_unlock :: "int \<Rightarrow> 'a sem_world_scheme \<Rightarrow> (int \<times> 'a sem_world_scheme) option" where
  "sem_write_unlock lock_id w =
     (if g_sem_lock w = None then Some (SW_ERROR, w)
      else sem_loc_write_unlock (g_sem_lock w) lock_id w)"

text \<open>Creation, linking, removal and the allocation of lock ids.  A function that writes
  through its \<open>sem_lock\<close> pointer returns the object it points to afterwards.\<close>

definition sem_loc_lock_creat ::
    "int \<Rightarrow> sem_lock_t option \<Rightarrow> int \<Rightarrow> 'a sem_world_scheme \<Rightarrow> int \<times> sem_lock_t option \<times> 'a sem_world_scheme" where
  "sem_loc_lock_creat newid sem_lock semsize w =
     (if semsize \<le> 0 \<or> sem_lock = None then (SW_ERROR, sem_lock, w)
      else
        let (sem_id, w1) = pub_sem_create newid semsize SEM_VALUE w in
        if sem_id < 0 then (SW_ERROR, sem_lock, w1)
        else (sem_id,
              Some \<lparr>sl_sem_id = sem_id, sl_sem_num = semsize, sl_lock_cnt = 1, sl_lock_id = 1\<rparr>, w1))"

definition sem_lock_creat ::
    "int \<Rightarrow> sem_lock_t option \<Rightarrow> int \<Rightarrow> 'a sem_world_scheme \<Rightarrow> int \<times> 'a sem_world_scheme" where
  "sem_lock_creat newid sem_lock semsize w =
     (let (semid, sl, w1) = sem_loc_lock_creat newid sem_lock semsize w in
      if semid = SW_ERROR then (SW_ERROR, w1)
      else (semid, w1\<lparr>g_sem_lock := sl\<rparr>))"

definition sem_loc_lock_link :: "sem_lock_t option \<Rightarrow> 'a sem_world_scheme \<Rightarrow> int" where
  "sem_loc_lock_link sem_lock w =
     (case sem_lock of
        None \<Rightarrow> SW_ERROR
      | Some s \<Rightarrow> if pub_sem_check (sl_sem_id s) w = SW_ERROR then SW_ERROR else SW_OK)"

definition sem_lock_link :: "'a sem_world_scheme \<Rightarrow> int" where
  "sem_lock_link w =
     (if g_sem_lock w = None then SW_ERROR else sem_loc_lock_link (g_sem_lock w) w)"

definition sem_lock_set_addr :: "sem_lock_t option \<Rightarrow> 'a sem_world_scheme \<Rightarrow> int \<times> 'a sem_world_scheme" where
  "sem_lock_set_addr addr w =
     (if addr = None then (SW_ERROR, w) else (SW_OK, w\<lparr>g_sem_lock := addr\<rparr>))"

definition sem_loc_new_lock_id ::
    "sem_lock_t option \<Rightarrow> 'a sem_world_scheme \<Rightarrow> (int \<times> sem_lock_t option \<times> 'a sem_world_scheme) option" where
  "sem_loc_new_lock_id sem_lock w =
     (case sem_lock of
        None \<Rightarrow> Some (SW_ERROR, None, w)
      | Some s \<Rightarrow> do {
          (_, w1) \<leftarrow> sem_loc_mutex_lock (Some s) 1 w;
          let (lid, s1) =
            (if sl_lock_cnt s < sl_sem_num s
             then (sl_lock_cnt s + 1, s\<lparr>sl_lock_cnt := sl_lock_cnt s + 1\<rparr>)
             else (- 1, s));
          (_, w2) \<leftarrow> sem_loc_mutex_unlock (Some s1) 1 w1;
          Some (lid, Some s1, w2)
        })"

definition sem_new_lock_id :: "'a sem_world_scheme \<Rightarrow> (int \<times> 'a sem_world_scheme) option" where
  "sem_new_lock_id w =
     (if g_sem_lock w = None then Some (SW_ERROR, w)
      else do {
        (lid, sl, w1) \<leftarrow> sem_loc_new_lock_id (g_sem_lock w) w;
        Some (lid, w1\<lparr>g_sem_lock := sl\<rparr>)
      })"

definition sem_loc_lock_remove :: "sem_lock_t option \<Rightarrow> 'a sem_world_scheme \<Rightarrow> int \<times> 'a sem_world_scheme" where
  "sem_loc_lock_remove sem_lock w =
     (case sem_lock of
        None \<Rightarrow> (SW_ERROR, w)
      | Some s \<Rightarrow> pub_sem_rm (sl_sem_id s) w)"

definition sem_lock_remove :: "'a sem_world_scheme \<Rightarrow> int \<times> 'a sem_world_scheme" where
  "sem_lock_remove w =
     (if g_sem_lock w = None then (SW_ERROR, w) else sem_loc_lock_remove (g_sem_lock w) w)"

lemmas sem_call_defs =
  sem_mutex_lock_def sem_mutex_unlock_def sem_read_lock_def sem_read_unlock_def
  sem_write_lock_def sem_write_unlock_def
  sem_loc_mutex_lock_def sem_loc_mutex_unlock_def sem_loc_read_lock_def sem_loc_read_unlock_def
  sem_loc_write_lock_def sem_loc_write_unlock_def
  pub_sem_lock_def pub_sem_unlock_def

section \<open>The interface the other components use\<close>

text \<open>
  A lock service: an operation that acquires a lock and one that releases it.  \<open>took\<close> is
  the world while the lock is held, \<open>usable\<close> says that the lock exists and is
  free, and a \<open>frame\<close> is a change of the world that does not touch the locks.
\<close>

locale lock_service =
  fixes acquire :: "int \<Rightarrow> 'w \<Rightarrow> (int \<times> 'w) option"
    and release :: "int \<Rightarrow> 'w \<Rightarrow> (int \<times> 'w) option"
    and took :: "int \<Rightarrow> 'w \<Rightarrow> 'w"
    and usable :: "int \<Rightarrow> 'w \<Rightarrow> bool"
    and frame :: "('w \<Rightarrow> 'w) \<Rightarrow> bool"
  assumes acquire_usable: "usable l w \<Longrightarrow> acquire l w = Some (0, took l w)"
    and release_took: "usable l w \<Longrightarrow> frame f \<Longrightarrow> release l (f (took l w)) = Some (0, f w)"
    and frame_usable: "frame f \<Longrightarrow> usable l (f w) = usable l w"
    and usable_took: "usable l w \<Longrightarrow> l \<noteq> l' \<Longrightarrow> usable l' (took l w) = usable l' w"
    and frame_id: "frame (\<lambda>w. w)"
begin

lemma critical_section:
  "usable l w \<Longrightarrow> frame f \<Longrightarrow>
     Option.bind (acquire l w) (\<lambda>(_, w1). release l (f w1)) = Some (0, f w)"
  by (simp add: acquire_usable release_took)

lemma nested_section:
  "usable l w \<Longrightarrow> usable l' w \<Longrightarrow> l \<noteq> l' \<Longrightarrow> frame f \<Longrightarrow>
     Option.bind (acquire l w) (\<lambda>(_, w1).
       Option.bind (acquire l' w1) (\<lambda>(_, w2).
         Option.bind (release l' (f w2)) (\<lambda>(_, w3). release l w3))) = Some (0, f w)"
  by (simp add: acquire_usable release_took usable_took)

lemma held_then_freed: "usable l w \<Longrightarrow> release l (took l w) = Some (0, w)"
  using release_took [OF _ frame_id] by simp

end

definition sem_free :: "int \<Rightarrow> 'a sem_world_scheme \<Rightarrow> bool" where
  "sem_free lid w \<longleftrightarrow>
     (case g_sem_lock w of
        None \<Rightarrow> False
      | Some s \<Rightarrow> 0 \<le> sl_sem_id s \<and> 0 \<le> lid \<and> lid < sl_sem_num s \<and>
          (case kernel_sems w (sl_sem_id s) of
             None \<Rightarrow> False
           | Some vs \<Rightarrow> int (length vs) = sl_sem_num s \<and> vs ! nat lid = SEM_VALUE))"

definition sem_took :: "int \<Rightarrow> int \<Rightarrow> 'a sem_world_scheme \<Rightarrow> 'a sem_world_scheme" where
  "sem_took n lid w =
     (case g_sem_lock w of
        None \<Rightarrow> w
      | Some s \<Rightarrow>
          (case kernel_sems w (sl_sem_id s) of
             None \<Rightarrow> w
           | Some vs \<Rightarrow> w\<lparr>kernel_sems := (kernel_sems w)(sl_sem_id s \<mapsto> vs[nat lid := vs ! nat lid - n])\<rparr>))"

definition sem_frame :: "('a sem_world_scheme \<Rightarrow> 'a sem_world_scheme) \<Rightarrow> bool" where
  "sem_frame f \<longleftrightarrow>
     (\<forall>w k. f (w\<lparr>kernel_sems := k\<rparr>) = (f w)\<lparr>kernel_sems := k\<rparr> \<and>
            g_sem_lock (f w) = g_sem_lock w \<and> kernel_sems (f w) = kernel_sems w)"

lemma sem_frameI [intro]:
  assumes "\<And>w k. f (w\<lparr>kernel_sems := k\<rparr>) = (f w)\<lparr>kernel_sems := k\<rparr>"
    and "\<And>w. g_sem_lock (f w) = g_sem_lock w" and "\<And>w. kernel_sems (f w) = kernel_sems w"
  shows "sem_frame f"
  using assms by (simp add: sem_frame_def)

lemma sem_free_frame: "sem_frame f \<Longrightarrow> sem_free lid (f w) = sem_free lid w"
  by (auto simp: sem_frame_def sem_free_def split: option.splits)

lemma sem_free_cong:
  "g_sem_lock w' = g_sem_lock w \<Longrightarrow> kernel_sems w' = kernel_sems w \<Longrightarrow> sem_free lid w' = sem_free lid w"
  by (simp add: sem_free_def split: option.split)

lemma sem_free_took:
  "sem_free l w \<Longrightarrow> l \<noteq> l' \<Longrightarrow> sem_free l' (sem_took n l w) = sem_free l' w"
  by (auto simp: sem_free_def sem_took_def nth_list_update split: option.splits)

lemma sem_acquire_free:
  assumes "sem_free lid w"
  shows "sem_mutex_lock lid w = Some (0, sem_took SEM_VALUE lid w)"
    and "sem_read_lock lid w = Some (0, sem_took 1 lid w)"
    and "sem_write_lock lid w = Some (0, sem_took SEM_VALUE lid w)"
  using assms
  by (auto simp: sem_call_defs semop_def sem_free_def sem_took_def split: option.splits)

lemma sem_release_took:
  assumes free: "sem_free lid w" and f: "sem_frame f"
  shows "sem_mutex_unlock lid (f (sem_took SEM_VALUE lid w)) = Some (0, f w)"
    and "sem_read_unlock lid (f (sem_took 1 lid w)) = Some (0, f w)"
    and "sem_write_unlock lid (f (sem_took SEM_VALUE lid w)) = Some (0, f w)"
proof -
  from free obtain s vs where s: "g_sem_lock w = Some s" "0 \<le> sl_sem_id s" "0 \<le> lid"
      "lid < sl_sem_num s" "kernel_sems w (sl_sem_id s) = Some vs"
      "int (length vs) = sl_sem_num s" "vs ! nat lid = SEM_VALUE"
    by (auto simp: sem_free_def split: option.splits)
  have ks: "kernel_sems (f w) = kernel_sems w"
    using f by (simp add: sem_frame_def)
  have "(f w)\<lparr>kernel_sems := kernel_sems (f w)\<rparr> = f w" by simp
  then have triv: "(f w)\<lparr>kernel_sems := kernel_sems w\<rparr> = f w" by (simp only: ks)
  have upd: "(kernel_sems w)(sl_sem_id s \<mapsto> vs) = kernel_sems w"
    using s by (simp add: fun_upd_idem)
  have fk: "f (w\<lparr>kernel_sems := k\<rparr>) = (f w)\<lparr>kernel_sems := k\<rparr>"
      "g_sem_lock (f w) = g_sem_lock w" for k
    using f by (simp_all add: sem_frame_def)
  have len: "\<not> int (length vs) \<le> lid" and guards: "\<not> sl_sem_id s < 0" "\<not> lid < 0" "\<not> sl_sem_num s \<le> lid"
    using s by simp_all
  have same: "vs[nat lid := SEM_VALUE] = vs" using s(7) by (metis list_update_id)
  have rd: "vs[nat lid := SEM_VALUE - 1, nat lid := SEM_VALUE] = vs" by (simp add: same)
  have bnd: "nat lid < length vs" using s by simp
  note simps = s(1,5,7) bnd upd fk len guards triv same rd sem_call_defs semop_def sem_took_def
  show "sem_mutex_unlock lid (f (sem_took SEM_VALUE lid w)) = Some (0, f w)"
    by (simp add: simps)
  show "sem_read_unlock lid (f (sem_took 1 lid w)) = Some (0, f w)"
    by (simp add: simps)
  show "sem_write_unlock lid (f (sem_took SEM_VALUE lid w)) = Some (0, f w)"
    by (simp add: simps)
qed

lemma sem_frame_id: "sem_frame (\<lambda>w. w)"
  by (simp add: sem_frame_def)

interpretation mutex: lock_service sem_mutex_lock sem_mutex_unlock "sem_took SEM_VALUE" sem_free sem_frame
  by unfold_locales
    (simp_all add: sem_acquire_free sem_release_took sem_free_frame sem_free_took sem_frame_id)

interpretation rdlock: lock_service sem_read_lock sem_read_unlock "sem_took 1" sem_free sem_frame
  by unfold_locales
    (simp_all add: sem_acquire_free sem_release_took sem_free_frame sem_free_took sem_frame_id)

interpretation wrlock: lock_service sem_write_lock sem_write_unlock "sem_took SEM_VALUE" sem_free sem_frame
  by unfold_locales
    (simp_all add: sem_acquire_free sem_release_took sem_free_frame sem_free_took sem_frame_id)

section \<open>Lock ids\<close>

text \<open>\<open>sem_all_free w\<close>: the set exists, has \<^verbatim>\<open>sem_num\<close> semaphores and nobody holds one.\<close>

definition sem_all_free :: "'a sem_world_scheme \<Rightarrow> bool" where
  "sem_all_free w \<longleftrightarrow>
     (case g_sem_lock w of
        None \<Rightarrow> False
      | Some s \<Rightarrow> 0 \<le> sl_sem_id s \<and> 0 < sl_sem_num s \<and>
          kernel_sems w (sl_sem_id s) = Some (replicate (nat (sl_sem_num s)) SEM_VALUE))"

lemma sem_all_free_free:
  "sem_all_free w \<Longrightarrow> g_sem_lock w = Some s \<Longrightarrow> 0 \<le> lid \<Longrightarrow> lid < sl_sem_num s \<Longrightarrow> sem_free lid w"
  by (auto simp: sem_all_free_def sem_free_def)

lemma sem_loc_bracket_free:
  assumes free: "sem_free lid w" and "g_sem_lock w = Some s"
    and "sl_sem_id s' = sl_sem_id s" and "sl_sem_num s' = sl_sem_num s"
  shows "sem_loc_mutex_lock (Some s) lid w = Some (0, sem_took SEM_VALUE lid w)"
    and "sem_loc_mutex_unlock (Some s') lid (sem_took SEM_VALUE lid w) = Some (0, w)"
proof -
  let ?w1 = "sem_took SEM_VALUE lid w"
  have g: "g_sem_lock ?w1 = g_sem_lock w"
    by (auto simp: sem_took_def split: option.splits)
  have "sem_loc_mutex_lock (Some s) lid w = sem_mutex_lock lid w"
    using assms by (simp add: sem_call_defs)
  moreover have "sem_loc_mutex_unlock (Some s') lid ?w1 = sem_mutex_unlock lid ?w1"
    using assms g by (simp add: sem_call_defs)
  ultimately show "sem_loc_mutex_lock (Some s) lid w = Some (0, sem_took SEM_VALUE lid w)"
    and "sem_loc_mutex_unlock (Some s') lid ?w1 = Some (0, w)"
    using sem_acquire_free(1) [OF free] mutex.held_then_freed [OF free] by auto
qed

lemma sem_loc_bracket:
  assumes "sem_all_free w" and "g_sem_lock w = Some s"
    and "sl_sem_id s' = sl_sem_id s" and "sl_sem_num s' = sl_sem_num s"
  shows "\<exists>r w1. sem_loc_mutex_lock (Some s) lid w = Some (r, w1) \<and>
           sem_loc_mutex_unlock (Some s') lid w1 = Some (r, w)"
proof (cases "0 \<le> lid \<and> lid < sl_sem_num s")
  case True
  with assms have free: "sem_free lid w" by (blast intro: sem_all_free_free)
  from sem_loc_bracket_free [OF this assms(2-4)] show ?thesis by blast
next
  case False
  with assms show ?thesis by (auto simp: sem_call_defs)
qed

lemma sem_new_lock_id_free:
  assumes free: "sem_free 1 w" and s: "g_sem_lock w = Some s" and cnt: "sl_lock_cnt s < sl_sem_num s"
  shows "sem_new_lock_id w =
    Some (sl_lock_cnt s + 1, w\<lparr>g_sem_lock := Some (s\<lparr>sl_lock_cnt := sl_lock_cnt s + 1\<rparr>)\<rparr>)"
  using sem_loc_bracket_free(1) [OF free s refl refl]
    sem_loc_bracket_free(2) [OF free s, of "s\<lparr>sl_lock_cnt := sl_lock_cnt s + 1\<rparr>"] s cnt
  by (simp add: sem_new_lock_id_def sem_loc_new_lock_id_def)

lemma sem_new_lock_id_simp:
  assumes "sem_all_free w" and s: "g_sem_lock w = Some s"
  shows "sem_new_lock_id w =
    Some (if sl_lock_cnt s < sl_sem_num s
          then (sl_lock_cnt s + 1, w\<lparr>g_sem_lock := Some (s\<lparr>sl_lock_cnt := sl_lock_cnt s + 1\<rparr>)\<rparr>)
          else (- 1, w))"
proof (cases "sl_lock_cnt s < sl_sem_num s")
  case True
  obtain r w1 where "sem_loc_mutex_lock (Some s) 1 w = Some (r, w1)"
      "sem_loc_mutex_unlock (Some (s\<lparr>sl_lock_cnt := sl_lock_cnt s + 1\<rparr>)) 1 w1 = Some (r, w)"
    using sem_loc_bracket [OF assms, of "s\<lparr>sl_lock_cnt := sl_lock_cnt s + 1\<rparr>" 1] by auto
  with True s show ?thesis by (simp add: sem_new_lock_id_def sem_loc_new_lock_id_def)
next
  case False
  obtain r w1 where "sem_loc_mutex_lock (Some s) 1 w = Some (r, w1)"
      "sem_loc_mutex_unlock (Some s) 1 w1 = Some (r, w)"
    using sem_loc_bracket [OF assms, of s 1] by auto
  moreover have "w\<lparr>g_sem_lock := Some s\<rparr> = w"
    using s by (metis (no_types, lifting) sem_world.surjective sem_world.update_convs(2) sem_world.select_convs(2))
  ultimately show ?thesis using False s by (simp add: sem_new_lock_id_def sem_loc_new_lock_id_def)
qed

text \<open>The ids a sequence of \<open>k\<close> requests receives.\<close>

fun new_lock_ids :: "nat \<Rightarrow> 'a sem_world_scheme \<Rightarrow> (int list \<times> 'a sem_world_scheme) option" where
  "new_lock_ids 0 w = Some ([], w)"
| "new_lock_ids (Suc k) w = do {
     (lid, w1) \<leftarrow> sem_new_lock_id w;
     (lids, w2) \<leftarrow> new_lock_ids k w1;
     Some (lid # lids, w2)
   }"

lemma sem_lock_creat_free:
  assumes "sem_lock_creat newid (Some sl) semsize w = (newid, w1)" and "0 \<le> newid" "0 < semsize"
    and "kernel_sems w newid = None"
  shows "sem_all_free w1 \<and>
    g_sem_lock w1 = Some \<lparr>sl_sem_id = newid, sl_sem_num = semsize, sl_lock_cnt = 1, sl_lock_id = 1\<rparr>"
  using assms
  by (auto simp: sem_lock_creat_def sem_loc_lock_creat_def pub_sem_create_def sem_all_free_def Let_def
      split: if_splits)

lemma sem_all_free_cnt:
  "sem_all_free w \<Longrightarrow> g_sem_lock w = Some s \<Longrightarrow>
   sem_all_free (w\<lparr>g_sem_lock := Some (s\<lparr>sl_lock_cnt := c\<rparr>)\<rparr>)"
  by (simp add: sem_all_free_def)

lemma new_lock_ids_from:
  assumes "sem_all_free w" and "g_sem_lock w = Some s" and "sl_lock_cnt s + int k \<le> sl_sem_num s"
  shows "new_lock_ids k w =
    Some (map (\<lambda>i. sl_lock_cnt s + 1 + int i) [0..<k],
          w\<lparr>g_sem_lock := Some (s\<lparr>sl_lock_cnt := sl_lock_cnt s + int k\<rparr>)\<rparr>)"
  using assms
proof (induction k arbitrary: w s)
  case 0
  then have "w\<lparr>g_sem_lock := Some s\<rparr> = w"
    by (metis (no_types, lifting) sem_world.surjective sem_world.update_convs(2) sem_world.select_convs(2))
  with 0 show ?case by simp
next
  case (Suc k)
  let ?s1 = "s\<lparr>sl_lock_cnt := sl_lock_cnt s + 1\<rparr>"
  let ?w1 = "w\<lparr>g_sem_lock := Some ?s1\<rparr>"
  have "sem_new_lock_id w = Some (sl_lock_cnt s + 1, ?w1)"
    using Suc.prems by (simp add: sem_new_lock_id_simp)
  moreover have "new_lock_ids k ?w1 =
      Some (map (\<lambda>i. sl_lock_cnt s + 1 + 1 + int i) [0..<k],
            w\<lparr>g_sem_lock := Some (s\<lparr>sl_lock_cnt := sl_lock_cnt s + (1 + int k)\<rparr>)\<rparr>)"
    using Suc.IH [of ?w1 ?s1] Suc.prems by (simp add: sem_all_free_cnt ac_simps)
  moreover have "map (\<lambda>i. sl_lock_cnt s + 1 + int i) [0..<Suc k] =
      (sl_lock_cnt s + 1) # map (\<lambda>i. sl_lock_cnt s + 1 + 1 + int i) [0..<k]"
    by (simp add: upt_conv_Cons map_Suc_upt [symmetric] del: upt_Suc)
  ultimately show ?case by (simp add: ac_simps)
qed

text \<open>Every lock id handed out after the lock object is created is a new one: a set of
  \<open>n\<close> semaphores gives the ids 2, 3, \<open>\<dots>\<close>, n, in this order, and each id below n is
  then a free lock that can be taken.\<close>

theorem lock_ids_fresh_and_usable:
  assumes "sem_lock_creat newid (Some sl) n w = (newid, w1)" and "0 \<le> newid" and "0 < n"
    and "kernel_sems w newid = None" and "1 + int k \<le> n"
  shows "\<exists>w2. new_lock_ids k w1 = Some (map (\<lambda>i. int i + 2) [0..<k], w2) \<and>
    distinct (map (\<lambda>i. int i + 2) [0..<k]) \<and>
    (\<forall>lid. 0 \<le> lid \<and> lid < n \<longrightarrow> sem_free lid w2)"
proof -
  let ?s = "\<lparr>sl_sem_id = newid, sl_sem_num = n, sl_lock_cnt = 1, sl_lock_id = 1\<rparr>"
  let ?w2 = "w1\<lparr>g_sem_lock := Some (?s\<lparr>sl_lock_cnt := 1 + int k\<rparr>)\<rparr>"
  have w1: "sem_all_free w1" "g_sem_lock w1 = Some ?s"
    using sem_lock_creat_free [OF assms(1-4)] by simp_all
  have "new_lock_ids k w1 = Some (map (\<lambda>i. int i + 2) [0..<k], ?w2)"
    using new_lock_ids_from [OF w1, of k] assms(5) by (simp add: ac_simps)
  moreover have "sem_all_free ?w2" using w1 by (rule sem_all_free_cnt)
  ultimately show ?thesis
    by (auto simp: distinct_map inj_on_def intro: sem_all_free_free)
qed

text \<open>The last id of the set is handed out but is not a lock: \<^verbatim>\<open>sem_new_lock_id\<close>
  counts up to and including \<^verbatim>\<open>sem_num\<close>, while every lock call refuses an id that is
  not below \<^verbatim>\<open>sem_num\<close>, with no effect; the caller of the last id runs unprotected.\<close>

theorem last_lock_id_locks_nothing:
  assumes "sem_all_free w" and "g_sem_lock w = Some s" and "sl_lock_cnt s + 1 = sl_sem_num s"
  shows "\<exists>w1. sem_new_lock_id w = Some (sl_sem_num s, w1) \<and>
    sem_mutex_lock (sl_sem_num s) w1 = Some (SW_ERROR, w1) \<and>
    sem_write_lock (sl_sem_num s) w1 = Some (SW_ERROR, w1) \<and>
    sem_read_lock (sl_sem_num s) w1 = Some (SW_ERROR, w1)"
  using sem_new_lock_id_simp [OF assms(1,2)] assms by (simp add: sem_call_defs)

section \<open>Readers and writers over one lock\<close>

text \<open>
  Any number of processes enter and leave sections protected by the lock \<open>lid\<close>, in any
  order; the callers ignore the return code, so a process is inside as soon as the
  call returns.  Other locks of the set are taken and released freely.
\<close>

datatype hold = Outside | Reading | Writing

record rw_world = sem_world +
  holds :: "nat \<Rightarrow> hold"

inductive rw_step :: "int \<Rightarrow> rw_world \<Rightarrow> rw_world \<Rightarrow> bool" for lid where
  read_enter: "holds w p = Outside \<Longrightarrow> sem_read_lock lid w = Some (r, w') \<Longrightarrow>
    rw_step lid w (w'\<lparr>holds := (holds w')(p := Reading)\<rparr>)"
| read_leave: "holds w p = Reading \<Longrightarrow> sem_read_unlock lid w = Some (r, w') \<Longrightarrow>
    rw_step lid w (w'\<lparr>holds := (holds w')(p := Outside)\<rparr>)"
| write_enter: "holds w p = Outside \<Longrightarrow> sem_write_lock lid w = Some (r, w') \<Longrightarrow>
    rw_step lid w (w'\<lparr>holds := (holds w')(p := Writing)\<rparr>)"
| write_leave: "holds w p = Writing \<Longrightarrow> sem_write_unlock lid w = Some (r, w') \<Longrightarrow>
    rw_step lid w (w'\<lparr>holds := (holds w')(p := Outside)\<rparr>)"
| other_lock: "l \<noteq> lid \<Longrightarrow> sem_mutex_lock l w = Some (r, w') \<Longrightarrow> rw_step lid w w'"
| other_unlock: "l \<noteq> lid \<Longrightarrow> sem_mutex_unlock l w = Some (r, w') \<Longrightarrow> rw_step lid w w'"

inductive rw_reachable :: "int \<Rightarrow> rw_world \<Rightarrow> bool" for lid where
  start: "sem_free lid w \<Longrightarrow> (\<And>p. holds w p = Outside) \<Longrightarrow> rw_reachable lid w"
| step: "rw_reachable lid w \<Longrightarrow> rw_step lid w w' \<Longrightarrow> rw_reachable lid w'"

definition readers :: "rw_world \<Rightarrow> nat set" where "readers w = {p. holds w p = Reading}"
definition writers :: "rw_world \<Rightarrow> nat set" where "writers w = {p. holds w p = Writing}"

text \<open>\<open>sem_has lid w v\<close>: the semaphore of \<open>lid\<close> exists and has the value \<open>v\<close>.\<close>

definition sem_has :: "int \<Rightarrow> 'a sem_world_scheme \<Rightarrow> int \<Rightarrow> bool" where
  "sem_has lid w v \<longleftrightarrow>
     (\<exists>s vs. g_sem_lock w = Some s \<and> 0 \<le> sl_sem_id s \<and> 0 \<le> lid \<and> lid < sl_sem_num s \<and>
       kernel_sems w (sl_sem_id s) = Some vs \<and> int (length vs) = sl_sem_num s \<and> vs ! nat lid = v)"

definition rw_inv :: "int \<Rightarrow> rw_world \<Rightarrow> bool" where
  "rw_inv lid w \<longleftrightarrow>
     (\<exists>v. sem_has lid w v \<and> 0 \<le> v \<and> finite (readers w) \<and> finite (writers w) \<and>
       v + int (card (readers w)) + SEM_VALUE * int (card (writers w)) = SEM_VALUE)"

lemma sem_has_free: "sem_free lid w \<longleftrightarrow> sem_has lid w SEM_VALUE"
  by (auto simp: sem_free_def sem_has_def split: option.splits)

lemma sem_has_holds [simp]: "sem_has lid (w\<lparr>holds := h\<rparr>) v = sem_has lid w v"
  by (simp add: sem_has_def)

lemma semop_has:
  assumes "sem_has lid w v" and "g_sem_lock w = Some s" and "semop (sl_sem_id s) lid d w = Some (r, w')"
    and "v + d \<le> SEMVMX"
  shows "r = 0 \<and> 0 \<le> v + d \<and> sem_has lid w' (v + d) \<and> sem_world.more w' = sem_world.more w"
  using assms by (auto simp: sem_has_def semop_def split: if_splits)

lemma semop_other:
  assumes "sem_has lid w v" and "semop k l d w = Some (r, w')" and "l \<noteq> lid"
  shows "sem_has lid w' v \<and> sem_world.more w' = sem_world.more w"
  using assms by (auto simp: sem_has_def semop_def nth_list_update split: if_splits option.splits)

lemma sem_call_has:
  assumes "sem_has lid w v" and "0 \<le> v" "v \<le> SEM_VALUE"
  shows "sem_read_lock lid w = Some (r, w') \<Longrightarrow>
      0 \<le> v - 1 \<and> sem_has lid w' (v - 1) \<and> sem_world.more w' = sem_world.more w"
    and "sem_read_unlock lid w = Some (r, w') \<Longrightarrow>
      sem_has lid w' (v + 1) \<and> sem_world.more w' = sem_world.more w"
    and "sem_write_lock lid w = Some (r, w') \<Longrightarrow>
      0 \<le> v - SEM_VALUE \<and> sem_has lid w' (v - SEM_VALUE) \<and> sem_world.more w' = sem_world.more w"
    and "sem_write_unlock lid w = Some (r, w') \<Longrightarrow>
      sem_has lid w' (v + SEM_VALUE) \<and> sem_world.more w' = sem_world.more w"
proof -
  obtain s where s: "g_sem_lock w = Some s" "\<not> sl_sem_id s < 0" "\<not> lid < 0" "\<not> sl_sem_num s \<le> lid"
    using assms(1) by (auto simp: sem_has_def)
  note semop_has [OF assms(1) s(1)]
  then show "sem_read_lock lid w = Some (r, w') \<Longrightarrow>
      0 \<le> v - 1 \<and> sem_has lid w' (v - 1) \<and> sem_world.more w' = sem_world.more w"
    and "sem_read_unlock lid w = Some (r, w') \<Longrightarrow>
      sem_has lid w' (v + 1) \<and> sem_world.more w' = sem_world.more w"
    and "sem_write_lock lid w = Some (r, w') \<Longrightarrow>
      0 \<le> v - SEM_VALUE \<and> sem_has lid w' (v - SEM_VALUE) \<and> sem_world.more w' = sem_world.more w"
    and "sem_write_unlock lid w = Some (r, w') \<Longrightarrow>
      sem_has lid w' (v + SEM_VALUE) \<and> sem_world.more w' = sem_world.more w"
    using assms(2,3) s by (force simp: sem_call_defs)+
qed

lemma readers_upd [simp]:
  "readers (w\<lparr>holds := (holds w')(p := h)\<rparr>) =
     (if h = Reading then insert p (readers w') else readers w' - {p})"
  by (auto simp: readers_def)

lemma writers_upd [simp]:
  "writers (w\<lparr>holds := (holds w')(p := h)\<rparr>) =
     (if h = Writing then insert p (writers w') else writers w' - {p})"
  by (auto simp: writers_def)

lemma same_more_holds:
  "sem_world.more w' = sem_world.more w \<Longrightarrow>
     holds w' = holds w \<and> readers w' = readers w \<and> writers w' = writers w"
  by (cases w; cases w') (simp add: readers_def writers_def rw_world.defs)

lemma rw_step_inv: "rw_step lid w w' \<Longrightarrow> rw_inv lid w \<Longrightarrow> rw_inv lid w'"
proof (induction rule: rw_step.induct)
  case (read_enter w p r w')
  then obtain v where v: "sem_has lid w v" "0 \<le> v" "v \<le> SEM_VALUE"
      and rest: "finite (readers w)" "finite (writers w)"
        "v + int (card (readers w)) + SEM_VALUE * int (card (writers w)) = SEM_VALUE"
    by (auto simp: rw_inv_def)
  have p: "p \<notin> readers w" "p \<notin> writers w" using read_enter(1) by (simp_all add: readers_def writers_def)
  from sem_call_has(1) [OF v read_enter(2)] same_more_holds [of w' w] p rest v(2)
  show ?case by (auto simp: rw_inv_def intro!: exI [of _ "v - 1"])
next
  case (read_leave w p r w')
  then obtain v where v: "sem_has lid w v" "0 \<le> v" "v \<le> SEM_VALUE"
      and rest: "finite (readers w)" "finite (writers w)"
        "v + int (card (readers w)) + SEM_VALUE * int (card (writers w)) = SEM_VALUE"
    by (auto simp: rw_inv_def)
  have p: "p \<in> readers w" "p \<notin> writers w" using read_leave(1) by (simp_all add: readers_def writers_def)
  then have "0 < card (readers w)" using rest card_gt_0_iff by blast
  with sem_call_has(2) [OF v read_leave(2)] same_more_holds [of w' w] p rest v(2)
  show ?case by (auto simp: rw_inv_def card_Diff_singleton of_nat_diff intro!: exI [of _ "v + 1"])
next
  case (write_enter w p r w')
  then obtain v where v: "sem_has lid w v" "0 \<le> v" "v \<le> SEM_VALUE"
      and rest: "finite (readers w)" "finite (writers w)"
        "v + int (card (readers w)) + SEM_VALUE * int (card (writers w)) = SEM_VALUE"
    by (auto simp: rw_inv_def)
  have p: "p \<notin> readers w" "p \<notin> writers w" using write_enter(1) by (simp_all add: readers_def writers_def)
  from sem_call_has(3) [OF v write_enter(2)] same_more_holds [of w' w] p rest v(2)
  show ?case by (auto simp: rw_inv_def intro!: exI [of _ "v - SEM_VALUE"])
next
  case (write_leave w p r w')
  then obtain v where v: "sem_has lid w v" "0 \<le> v" "v \<le> SEM_VALUE"
      and rest: "finite (readers w)" "finite (writers w)"
        "v + int (card (readers w)) + SEM_VALUE * int (card (writers w)) = SEM_VALUE"
    by (auto simp: rw_inv_def)
  have p: "p \<notin> readers w" "p \<in> writers w" using write_leave(1) by (simp_all add: readers_def writers_def)
  then have "0 < card (writers w)" using rest card_gt_0_iff by blast
  with sem_call_has(4) [OF v write_leave(2)] same_more_holds [of w' w] p rest v(2)
  show ?case by (auto simp: rw_inv_def card_Diff_singleton of_nat_diff intro!: exI [of _ "v + SEM_VALUE"])
next
  case (other_lock l w r w')
  then obtain v where "sem_has lid w v" by (auto simp: rw_inv_def)
  with other_lock have has: "sem_has lid w' u = sem_has lid w u"
    and more: "sem_world.more w' = sem_world.more w" for u
    by (auto simp: sem_call_defs semop_def sem_has_def nth_list_update split: if_splits option.splits)
  from other_lock.prems has same_more_holds [OF more] show ?case by (simp add: rw_inv_def)
next
  case (other_unlock l w r w')
  then obtain v where "sem_has lid w v" by (auto simp: rw_inv_def)
  with other_unlock have has: "sem_has lid w' u = sem_has lid w u"
    and more: "sem_world.more w' = sem_world.more w" for u
    by (auto simp: sem_call_defs semop_def sem_has_def nth_list_update split: if_splits option.splits)
  from other_unlock.prems has same_more_holds [OF more] show ?case by (simp add: rw_inv_def)
qed

lemma rw_reachable_inv: "rw_reachable lid w \<Longrightarrow> rw_inv lid w"
proof (induction rule: rw_reachable.induct)
  case (start w)
  then have "readers w = {}" "writers w = {}" by (simp_all add: readers_def writers_def)
  with start show ?case by (simp add: rw_inv_def sem_has_free)
next
  case (step w w')
  then show ?case by (blast intro: rw_step_inv)
qed

text \<open>C1: A writer excludes everybody: in every state the processes can reach by entering and
  leaving through one lock below \<^verbatim>\<open>sem_num\<close>, a process inside a write section is
  the only one inside any section, and at most \<^verbatim>\<open>SEM_VALUE\<close> readers are inside.\<close>

theorem writer_excludes_all:
  assumes "rw_reachable lid w"
  shows "(\<forall>p q. holds w p = Writing \<and> holds w q \<noteq> Outside \<longrightarrow> q = p) \<and> card (readers w) \<le> 500"
proof -
  from rw_reachable_inv [OF assms] obtain v where v: "0 \<le> v"
      and fin: "finite (readers w)" "finite (writers w)"
      and sum: "v + int (card (readers w)) + SEM_VALUE * int (card (writers w)) = SEM_VALUE"
    by (auto simp: rw_inv_def)
  have "q = p" if p: "holds w p = Writing" and q: "holds w q \<noteq> Outside" for p q
  proof -
    from p have "p \<in> writers w" by (simp add: writers_def)
    with fin(2) have pos: "0 < card (writers w)" using card_gt_0_iff by blast
    with v sum have one: "card (writers w) = 1" and none: "card (readers w) = 0" by linarith+
    from none fin(1) have "readers w = {}" by simp
    with q have "q \<in> writers w" by (cases "holds w q") (auto simp: readers_def writers_def)
    with \<open>p \<in> writers w\<close> one show "q = p" by (metis card_1_singletonE singletonD)
  qed
  moreover from v sum have "card (readers w) \<le> 500" by linarith
  ultimately show ?thesis by blast
qed

section \<open>Progress\<close>

lemma leave_step:
  assumes "rw_inv lid w" and "holds w p \<noteq> Outside"
  shows "\<exists>w'. rw_step lid w w' \<and> holds w' = (holds w)(p := Outside)"
proof -
  from assms(1) obtain v where has: "sem_has lid w v" and v: "0 \<le> v" "v \<le> SEM_VALUE" by (auto simp: rw_inv_def)
  from has obtain s vs where
      s: "g_sem_lock w = Some s" "0 \<le> sl_sem_id s" "0 \<le> lid" "lid < sl_sem_num s"
      "kernel_sems w (sl_sem_id s) = Some vs" "int (length vs) = sl_sem_num s" "vs ! nat lid = v"
    by (auto simp: sem_has_def)
  let ?w = "\<lambda>d. w\<lparr>kernel_sems := (kernel_sems w)(sl_sem_id s \<mapsto> vs[nat lid := v + d])\<rparr>"
  have unlock: "sem_read_unlock lid w = Some (0, ?w 1)" "sem_write_unlock lid w = Some (0, ?w SEM_VALUE)"
    using v s by (simp_all add: sem_call_defs semop_def)
  have same: "holds (?w d) = holds w" for d by simp
  show ?thesis
  proof (cases "holds w p")
    case Reading
    with rw_step.read_leave [OF Reading unlock(1)] same [of 1] show ?thesis by (intro exI conjI) (assumption, simp)
  next
    case Writing
    with rw_step.write_leave [OF Writing unlock(2)] same [of SEM_VALUE] show ?thesis by (intro exI conjI) (assumption, simp)
  qed (use assms(2) in simp)
qed

lemma everybody_leaves:
  assumes "rw_inv lid w"
  shows "\<exists>w'. (rw_step lid)\<^sup>*\<^sup>* w w' \<and> rw_inv lid w' \<and> (\<forall>p. holds w' p = Outside)"
  using assms
proof (induction "card {p. holds w p \<noteq> Outside}" arbitrary: w)
  case 0
  have "{p. holds w p \<noteq> Outside} = readers w \<union> writers w"
    by (auto simp: readers_def writers_def) (metis hold.exhaust)
  with 0 have "{p. holds w p \<noteq> Outside} = {}" by (auto simp: rw_inv_def)
  with 0(2) show ?case by blast
next
  case (Suc n)
  have "{p. holds w p \<noteq> Outside} = readers w \<union> writers w"
    by (auto simp: readers_def writers_def) (metis hold.exhaust)
  with Suc.prems have fin: "finite {p. holds w p \<noteq> Outside}" by (auto simp: rw_inv_def)
  from Suc.hyps(2) obtain p where p: "holds w p \<noteq> Outside" by fastforce
  from leave_step [OF Suc.prems p] obtain w1 where w1: "rw_step lid w w1" "holds w1 = (holds w)(p := Outside)" by blast
  then have "{q. holds w1 q \<noteq> Outside} = {q. holds w q \<noteq> Outside} - {p}" by auto
  with p fin Suc.hyps(2) have "n = card {q. holds w1 q \<noteq> Outside}" by simp
  from Suc.hyps(1) [OF this rw_step_inv [OF w1(1) Suc.prems]] w1(1) show ?case
    by (meson converse_rtranclp_into_rtranclp)
qed

lemma holds_took: "holds (sem_took n lid w) = holds w"
  by (simp add: sem_took_def split: option.split)

text \<open>C32: No deadlock: in every state the processes can reach by entering and leaving through one lock below
  sem_num, whoever is inside can leave in one step of its own, without waiting, which changes nobody else's
  section; and from there a state is reachable in which everybody is outside, in which any process can enter for
  writing, or for reading, in one step.\<close>

theorem lock_stays_available:
  assumes "rw_reachable lid w"
  shows "(\<forall>p. holds w p \<noteq> Outside \<longrightarrow> (\<exists>w'. rw_step lid w w' \<and> holds w' = (holds w)(p := Outside))) \<and>
    (\<exists>w0. (rw_step lid)\<^sup>*\<^sup>* w w0 \<and> (\<forall>q. holds w0 q = Outside) \<and>
      (\<forall>p. \<exists>w1 w2. rw_step lid w0 w1 \<and> holds w1 = (holds w0)(p := Writing) \<and>
        rw_step lid w0 w2 \<and> holds w2 = (holds w0)(p := Reading)))"
proof -
  note inv = rw_reachable_inv [OF assms]
  from everybody_leaves [OF inv] obtain w0
    where w0: "(rw_step lid)\<^sup>*\<^sup>* w w0" "rw_inv lid w0" "\<And>q. holds w0 q = Outside" by blast
  then have "readers w0 = {}" "writers w0 = {}" by (simp_all add: readers_def writers_def)
  with w0(2) have free: "sem_free lid w0" by (auto simp: rw_inv_def sem_has_free)
  note acquire = sem_acquire_free(2,3) [OF free]
  have enter: "\<exists>w1 w2. rw_step lid w0 w1 \<and> holds w1 = (holds w0)(p := Writing) \<and>
      rw_step lid w0 w2 \<and> holds w2 = (holds w0)(p := Reading)" for p
  proof -
    let ?w1 = "(sem_took SEM_VALUE lid w0)\<lparr>holds := (holds (sem_took SEM_VALUE lid w0))(p := Writing)\<rparr>"
    let ?w2 = "(sem_took 1 lid w0)\<lparr>holds := (holds (sem_took 1 lid w0))(p := Reading)\<rparr>"
    have "rw_step lid w0 ?w1" "rw_step lid w0 ?w2"
      using rw_step.write_enter [OF w0(3) acquire(2)] rw_step.read_enter [OF w0(3) acquire(1)] by simp_all
    moreover have "holds ?w1 = (holds w0)(p := Writing)" "holds ?w2 = (holds w0)(p := Reading)"
      by (simp_all add: holds_took)
    ultimately show ?thesis by blast
  qed
  from leave_step [OF inv] w0 enter show ?thesis by blast
qed

text \<open>Witnesses.\<close>

definition sem_world0 :: "rw_world" where
  "sem_world0 =
     \<lparr>kernel_sems = [7 \<mapsto> [500, 500, 500]],
      g_sem_lock = Some \<lparr>sl_sem_id = 7, sl_sem_num = 3, sl_lock_cnt = 2, sl_lock_id = 1\<rparr>,
      holds = (\<lambda>_. Outside)\<rparr>"

theorem writer_excludes_all_witness:
  "\<exists>w. rw_reachable 1 w \<and> holds w 4 = Writing \<and>
     (\<forall>p q. holds w p = Writing \<and> holds w q \<noteq> Outside \<longrightarrow> q = p)"
proof -
  let ?w1 = "sem_world0\<lparr>kernel_sems := [7 \<mapsto> [500, 0, 500]]\<rparr>"
  let ?w2 = "?w1\<lparr>holds := (holds ?w1)(4 := Writing)\<rparr>"
  have "rw_reachable 1 sem_world0"
    by (rule rw_reachable.start) (simp_all add: sem_world0_def sem_free_def)
  moreover have "rw_step 1 sem_world0 ?w2"
    by (rule rw_step.write_enter [where r = 0])
      (simp_all add: sem_world0_def sem_call_defs semop_def)
  ultimately have r: "rw_reachable 1 ?w2" by (rule rw_reachable.step)
  have "holds ?w2 4 = Writing" by simp
  with r writer_excludes_all [OF r] show ?thesis by blast
qed

theorem lock_ids_fresh_and_usable_witness:
  "\<exists>w1 w2. new_lock_ids 2 w1 = Some ([2, 3], w2) \<and> sem_free 2 (w2 :: rw_world)"
proof -
  let ?w0 = "\<lparr>kernel_sems = Map.empty, g_sem_lock = None, holds = (\<lambda>_. Outside)\<rparr> :: rw_world"
  let ?sl = "\<lparr>sl_sem_id = 0, sl_sem_num = 0, sl_lock_cnt = 0, sl_lock_id = 0\<rparr>"
  obtain w1 where w1: "sem_lock_creat 5 (Some ?sl) 4 ?w0 = (5, w1)"
    by (simp add: sem_lock_creat_def sem_loc_lock_creat_def pub_sem_create_def Let_def)
  show ?thesis
    using lock_ids_fresh_and_usable [OF w1, of 2] by (fastforce simp: upt_rec numeral_2_eq_2)
qed

theorem last_lock_id_locks_nothing_witness:
  "\<exists>w1. sem_new_lock_id sem_world0 = Some (3, w1) \<and> sem_mutex_lock 3 w1 = Some (SW_ERROR, w1)"
  using last_lock_id_locks_nothing [of sem_world0
    "\<lparr>sl_sem_id = 7, sl_sem_num = 3, sl_lock_cnt = 2, sl_lock_id = 1\<rparr>"]
  by (fastforce simp: sem_world0_def sem_all_free_def numeral_3_eq_3 eval_nat_numeral)

theorem lock_stays_available_witness:
  "\<exists>w w1. rw_reachable 1 w \<and> holds w 4 = Writing \<and> rw_step 1 w w1 \<and> holds w1 = (holds w)(4 := Outside)"
proof -
  let ?w1 = "sem_world0\<lparr>kernel_sems := [7 \<mapsto> [500, 0, 500]]\<rparr>"
  let ?w2 = "?w1\<lparr>holds := (holds ?w1)(4 := Writing)\<rparr>"
  have "rw_reachable 1 sem_world0"
    by (rule rw_reachable.start) (simp_all add: sem_world0_def sem_free_def)
  moreover have "rw_step 1 sem_world0 ?w2"
    by (rule rw_step.write_enter [where r = 0]) (simp_all add: sem_world0_def sem_call_defs semop_def)
  ultimately have r: "rw_reachable 1 ?w2" by (rule rw_reachable.step)
  have w: "holds ?w2 4 = Writing" by simp
  with lock_stays_available [OF r] obtain w' where "rw_step 1 ?w2 w'" "holds w' = (holds ?w2)(4 := Outside)"
    by (metis hold.distinct(3))
  with r w show ?thesis by blast
qed

end
