(* ===== verification/Mtype_Limit.thy ===== *)
theory Mtype_Limit
  imports Prelude Sem_Lock
begin

text \<open>
  Admission control, \<^verbatim>\<open>core/mtype_limit.c\<close>: one table of limits per product and one
  per listener in shared memory.  A session is admitted by \<open>mtype_limit_check\<close>
  when both its product and its listener are below their limits, and given back by
  \<open>mtype_limit_free\<close>.  \<open>ml_nodes\<close> is the array that starts at \<^verbatim>\<open>first\<close>, as long
  as the memory behind the table.
\<close>

section \<open>State\<close>

record mtype_limit_node =
  ml_limit :: int
  ml_use :: int
  ml_success :: int
  ml_fail :: int
  ml_name :: cstr

record mtype_limit_t =
  mlh_lock_id :: int
  mlh_size :: int
  mlh_use :: int
  mlh_warn :: int
  ml_nodes :: "mtype_limit_node list"

record limit_world = sem_world +
  g_shm_prdt_limit :: "mtype_limit_t option"
  g_shm_lsn_limit :: "mtype_limit_t option"

definition zero_limit_node :: mtype_limit_node where
  "zero_limit_node = \<lparr>ml_limit = 0, ml_use = 0, ml_success = 0, ml_fail = 0, ml_name = []\<rparr>"

abbreviation (input) PRDT_MAX_DEFAULT :: int where "PRDT_MAX_DEFAULT \<equiv> 16"
abbreviation (input) LSN_MAX_DEFAULT :: int where "LSN_MAX_DEFAULT \<equiv> 6"

text \<open>The sizes of the structures in bytes: a header of four and a node of four 32 bit
  integers and a name of 64 bytes.\<close>

abbreviation (input) LIMIT_HEAD_SIZE :: int where "LIMIT_HEAD_SIZE \<equiv> 16"
abbreviation (input) LIMIT_NODE_SIZE :: int where "LIMIT_NODE_SIZE \<equiv> 80"

section \<open>Sizes and creation\<close>

definition prdt_limit_get_size :: "sw_syscfg option \<Rightarrow> int" where
  "prdt_limit_get_size sys_cfg =
     (case sys_cfg of
        None \<Rightarrow> SW_ERROR
      | Some c \<Rightarrow>
          let prdt_max = (if cfg_prdt_max c \<le> 0 then PRDT_MAX_DEFAULT else cfg_prdt_max c) in
          s32 (LIMIT_HEAD_SIZE + LIMIT_NODE_SIZE + (prdt_max - 1) * LIMIT_NODE_SIZE))"

definition lsn_limit_get_size :: "sw_syscfg option \<Rightarrow> int" where
  "lsn_limit_get_size sys_cfg =
     (case sys_cfg of
        None \<Rightarrow> SW_ERROR
      | Some c \<Rightarrow>
          let lsn_max = (if cfg_prdt_max c \<le> 0 then LSN_MAX_DEFAULT else cfg_lsn_max c) in
          s32 (LIMIT_HEAD_SIZE + LIMIT_NODE_SIZE + (lsn_max + 1) * LIMIT_NODE_SIZE))"

text \<open>\<^verbatim>\<open>memzero\<close> of the header and the first \<open>n\<close> nodes; past the end of the memory it
  is an out-of-bounds write.\<close>

definition limit_memzero :: "nat \<Rightarrow> mtype_limit_t \<Rightarrow> mtype_limit_t option" where
  "limit_memzero n t =
     (if n \<le> length (ml_nodes t)
      then Some \<lparr>mlh_lock_id = 0, mlh_size = 0, mlh_use = 0, mlh_warn = 0,
                 ml_nodes = replicate n zero_limit_node @ drop n (ml_nodes t)\<rparr>
      else None)"

text \<open>The initialisers take the table their pointer refers to (\<open>None\<close> for null) and return
  it as they leave it.\<close>

definition prdt_limit_loc_init ::
    "mtype_limit_t option \<Rightarrow> sw_syscfg option \<Rightarrow> 'a sem_world_scheme
     \<Rightarrow> (int \<times> mtype_limit_t option \<times> 'a sem_world_scheme) option" where
  "prdt_limit_loc_init shm_prdt_limit sys_cfg w =
     (case (sys_cfg, shm_prdt_limit) of
        (Some c, Some t0) \<Rightarrow> do {
          let prdt_max = (if cfg_prdt_max c \<le> 0 then PRDT_MAX_DEFAULT else cfg_prdt_max c);
          t1 \<leftarrow> limit_memzero (nat (prdt_max - 1)) t0;
          (lid, w1) \<leftarrow> sem_new_lock_id w;
          if lid = - 1 then Some (SW_ERROR, Some t1, w1)
          else do {
            (_, w2) \<leftarrow> sem_mutex_lock lid w1;
            let t2 = t1\<lparr>mlh_lock_id := lid, mlh_size := prdt_max, mlh_use := 0,
                         mlh_warn := c_div (cfg_session_max c * 2) 10\<rparr>;
            (_, w3) \<leftarrow> sem_mutex_unlock lid w2;
            Some (SW_OK, Some t2, w3)
          }
        }
      | _ \<Rightarrow> Some (SW_ERROR, shm_prdt_limit, w))"

definition lsn_limit_loc_init ::
    "mtype_limit_t option \<Rightarrow> sw_syscfg option \<Rightarrow> 'a sem_world_scheme
     \<Rightarrow> (int \<times> mtype_limit_t option \<times> 'a sem_world_scheme) option" where
  "lsn_limit_loc_init shm_lsn_limit sys_cfg w =
     (case (sys_cfg, shm_lsn_limit) of
        (Some c, Some t0) \<Rightarrow> do {
          let lsn_max = (if cfg_lsn_max c \<le> 0 then LSN_MAX_DEFAULT else cfg_lsn_max c);
          t1 \<leftarrow> limit_memzero (nat (lsn_max - 1)) t0;
          (lid, w1) \<leftarrow> sem_new_lock_id w;
          if lid = - 1 then Some (SW_ERROR, Some t1, w1)
          else do {
            (_, w2) \<leftarrow> sem_mutex_lock lid w1;
            let t2 = t1\<lparr>mlh_lock_id := lid, mlh_size := lsn_max, mlh_use := 0,
                         mlh_warn := c_div (cfg_session_max c * 2) 10\<rparr>;
            (_, w3) \<leftarrow> sem_mutex_unlock lid w2;
            Some (SW_OK, Some t2, w3)
          }
        }
      | _ \<Rightarrow> Some (SW_ERROR, shm_lsn_limit, w))"

definition prdt_limit_set_addr :: "mtype_limit_t option \<Rightarrow> 'a limit_world_scheme \<Rightarrow> int \<times> 'a limit_world_scheme" where
  "prdt_limit_set_addr addr w =
     (if addr = None then (SW_ERROR, w) else (SW_OK, w\<lparr>g_shm_prdt_limit := addr\<rparr>))"

definition prdt_limit_get_addr :: "'a limit_world_scheme \<Rightarrow> mtype_limit_t option" where
  "prdt_limit_get_addr w = g_shm_prdt_limit w"

definition lsn_limit_set_addr :: "mtype_limit_t option \<Rightarrow> 'a limit_world_scheme \<Rightarrow> int \<times> 'a limit_world_scheme" where
  "lsn_limit_set_addr addr w =
     (if addr = None then (SW_ERROR, w) else (SW_OK, w\<lparr>g_shm_lsn_limit := addr\<rparr>))"

definition lsn_limit_get_addr :: "'a limit_world_scheme \<Rightarrow> mtype_limit_t option" where
  "lsn_limit_get_addr w = g_shm_lsn_limit w"

section \<open>Registration\<close>

definition loc_prdt_limit_register ::
    "cstr option \<Rightarrow> int \<Rightarrow> 'a limit_world_scheme \<Rightarrow> (int \<times> 'a limit_world_scheme) option" where
  "loc_prdt_limit_register prdt limit w =
     (case (g_shm_prdt_limit w, prdt) of
        (Some t, Some p) \<Rightarrow>
          if p = [] then Some (SW_ERROR, w)
          else do {
            (_, w1) \<leftarrow> sem_mutex_lock (mlh_lock_id t) w;
            if mlh_size t \<le> mlh_use t then do {
              (_, w2) \<leftarrow> sem_mutex_unlock (mlh_lock_id t) w1;
              Some (SW_ERROR, w2)
            } else do {
              let i = nat (mlh_use t);
              if i < length (ml_nodes t) then do {
                let node = (ml_nodes t ! i)\<lparr>ml_limit := limit, ml_name := cstr_cut 63 p\<rparr>;
                let t1 = t\<lparr>ml_nodes := (ml_nodes t)[i := node], mlh_use := s32 (mlh_use t + 1)\<rparr>;
                (_, w2) \<leftarrow> sem_mutex_unlock (mlh_lock_id t) (w1\<lparr>g_shm_prdt_limit := Some t1\<rparr>);
                Some (SW_OK, w2)
              } else None
            }
          }
      | _ \<Rightarrow> Some (SW_ERROR, w))"

definition loc_lsn_limit_register ::
    "cstr option \<Rightarrow> int \<Rightarrow> 'a limit_world_scheme \<Rightarrow> (int \<times> 'a limit_world_scheme) option" where
  "loc_lsn_limit_register lsn limit w =
     (case (g_shm_lsn_limit w, lsn) of
        (Some t, Some l) \<Rightarrow>
          if l = [] then Some (SW_ERROR, w)
          else do {
            (_, w1) \<leftarrow> sem_mutex_lock (mlh_lock_id t) w;
            if mlh_size t \<le> mlh_use t then do {
              (_, w2) \<leftarrow> sem_mutex_unlock (mlh_lock_id t) w1;
              Some (SW_ERROR, w2)
            } else do {
              let i = nat (mlh_use t);
              if i < length (ml_nodes t) then do {
                let node = (ml_nodes t ! i)\<lparr>ml_limit := limit, ml_name := cstr_cut 63 l\<rparr>;
                let t1 = t\<lparr>ml_nodes := (ml_nodes t)[i := node], mlh_use := s32 (mlh_use t + 1)\<rparr>;
                (_, w2) \<leftarrow> sem_mutex_unlock (mlh_lock_id t) (w1\<lparr>g_shm_lsn_limit := Some t1\<rparr>);
                Some (SW_OK, w2)
              } else None
            }
          }
      | _ \<Rightarrow> Some (SW_ERROR, w))"

text \<open>The elements of the configuration file in file order; the results of the single
  registrations are ignored.  \<open>None\<close> as the list stands for a file that cannot be read.\<close>

fun prdt_limit_register_items ::
    "xml_item list \<Rightarrow> 'a limit_world_scheme \<Rightarrow> (int \<times> 'a limit_world_scheme) option" where
  "prdt_limit_register_items [] w = Some (SW_OK, w)"
| "prdt_limit_register_items (node # nodes) w =
     (case xi_child node ''NAME'' of
        None \<Rightarrow> Some (SW_ERROR, w)
      | Some name \<Rightarrow>
          (case xi_child node ''STATUS'' of
             None \<Rightarrow> Some (SW_ERROR, w)
           | Some status \<Rightarrow>
               if take 1 status \<noteq> ''1'' then prdt_limit_register_items nodes w
               else do {
                 let limit = (case xi_child node ''MTYPE_MAX'' of None \<Rightarrow> 0 | Some v \<Rightarrow> atoi v);
                 (_, w1) \<leftarrow> loc_prdt_limit_register (Some (cstr_cut 63 name)) limit w;
                 prdt_limit_register_items nodes w1
               }))"

definition prdt_limit_register ::
    "xml_item list option \<Rightarrow> 'a limit_world_scheme \<Rightarrow> (int \<times> 'a limit_world_scheme) option" where
  "prdt_limit_register xml w =
     (case xml of None \<Rightarrow> Some (SW_ERROR, w) | Some nodes \<Rightarrow> prdt_limit_register_items nodes w)"

fun lsn_limit_register_items ::
    "xml_item list \<Rightarrow> 'a limit_world_scheme \<Rightarrow> (int \<times> 'a limit_world_scheme) option" where
  "lsn_limit_register_items [] w = Some (SW_OK, w)"
| "lsn_limit_register_items (node # nodes) w =
     (if xi_tag node \<noteq> ''CHANNEL'' then lsn_limit_register_items nodes w
      else
        (case xi_child node ''LISTEN'' of
           None \<Rightarrow> Some (SW_ERROR, w)
         | Some name \<Rightarrow>
             (case xi_child node ''STATUS'' of
                None \<Rightarrow> Some (SW_ERROR, w)
              | Some status \<Rightarrow>
                  if take 1 status \<noteq> ''1'' then lsn_limit_register_items nodes w
                  else do {
                    let limit = (case xi_child node ''MTYPE_MAX'' of None \<Rightarrow> 0 | Some v \<Rightarrow> atoi v);
                    (_, w1) \<leftarrow> loc_lsn_limit_register (Some (cstr_cut 63 name)) limit w;
                    lsn_limit_register_items nodes w1
                  })))"

definition lsn_limit_register ::
    "xml_item list option \<Rightarrow> 'a limit_world_scheme \<Rightarrow> (int \<times> 'a limit_world_scheme) option" where
  "lsn_limit_register xml w =
     (case xml of None \<Rightarrow> Some (SW_ERROR, w) | Some nodes \<Rightarrow> lsn_limit_register_items nodes w)"

definition prdt_limit_init ::
    "xml_item list option \<Rightarrow> mtype_limit_t option \<Rightarrow> sw_syscfg option \<Rightarrow> 'a limit_world_scheme
     \<Rightarrow> (int \<times> 'a limit_world_scheme) option" where
  "prdt_limit_init xml shm_prdt_limit sys_cfg w = do {
     (result, t, w1) \<leftarrow> prdt_limit_loc_init shm_prdt_limit sys_cfg w;
     if result \<noteq> SW_OK then Some (SW_ERROR, w1)
     else do {
       (result, w2) \<leftarrow> prdt_limit_register xml (w1\<lparr>g_shm_prdt_limit := t\<rparr>);
       if result \<noteq> SW_OK then Some (SW_ERROR, w2) else Some (SW_OK, w2)
     }
   }"

definition lsn_limit_init ::
    "xml_item list option \<Rightarrow> mtype_limit_t option \<Rightarrow> sw_syscfg option \<Rightarrow> 'a limit_world_scheme
     \<Rightarrow> (int \<times> 'a limit_world_scheme) option" where
  "lsn_limit_init xml shm_lsn_limit sys_cfg w = do {
     (result, t, w1) \<leftarrow> lsn_limit_loc_init shm_lsn_limit sys_cfg w;
     if result \<noteq> SW_OK then Some (SW_ERROR, w1)
     else do {
       (result, w2) \<leftarrow> lsn_limit_register xml (w1\<lparr>g_shm_lsn_limit := t\<rparr>);
       if result \<noteq> SW_OK then Some (SW_ERROR, w2) else Some (SW_OK, w2)
     }
   }"

section \<open>Admission\<close>

text \<open>The scan of the first \<^verbatim>\<open>head.use\<close> nodes for a name: \<open>Some (Some i)\<close> is the first
  match, \<open>Some None\<close> no match, \<open>None\<close> a scan that leaves the array.\<close>

definition limit_scan :: "mtype_limit_t \<Rightarrow> cstr \<Rightarrow> nat option option" where
  "limit_scan t nm =
     (case find_idx (\<lambda>n. ml_name n = nm) (take (nat (mlh_use t)) (ml_nodes t)) of
        Some i \<Rightarrow> Some (Some i)
      | None \<Rightarrow> if mlh_use t \<le> int (length (ml_nodes t)) then Some None else None)"

definition limit_upd :: "nat \<Rightarrow> (mtype_limit_node \<Rightarrow> mtype_limit_node) \<Rightarrow> mtype_limit_t \<Rightarrow> mtype_limit_t" where
  "limit_upd i f t = t\<lparr>ml_nodes := (ml_nodes t)[i := f (ml_nodes t ! i)]\<rparr>"

text \<open>One half of \<open>mtype_limit_check\<close> in the two steps it has in the code, which takes no lock: the test, which
  answers whether the name is admitted and the node that counts it, and the increment of that node.\<close>

definition limit_test :: "cstr option \<Rightarrow> mtype_limit_t \<Rightarrow> (bool \<times> nat option) option" where
  "limit_test nm t =
     (case nm of
        None \<Rightarrow> Some (True, None)
      | Some n \<Rightarrow>
          if n = [] then Some (True, None)
          else do {
            found \<leftarrow> limit_scan t n;
            (case found of
               None \<Rightarrow> Some (True, None)
             | Some i \<Rightarrow>
                 let node = ml_nodes t ! i in
                 Some (\<not> (0 < ml_limit node \<and> ml_limit node \<le> ml_use node), Some i))
          })"

definition limit_take :: "nat option \<Rightarrow> mtype_limit_t \<Rightarrow> mtype_limit_t" where
  "limit_take i t = (case i of None \<Rightarrow> t | Some i \<Rightarrow> limit_upd i (\<lambda>n. n\<lparr>ml_use := s32 (ml_use n + 1)\<rparr>) t)"

definition limit_enter :: "cstr option \<Rightarrow> mtype_limit_t \<Rightarrow> (bool \<times> mtype_limit_t) option" where
  "limit_enter nm t = do {
     (ok, i) \<leftarrow> limit_test nm t;
     Some (ok, if ok then limit_take i t else t)
   }"

lemma limit_enter_eq:
  "limit_enter nm t =
     (case nm of
        None \<Rightarrow> Some (True, t)
      | Some n \<Rightarrow>
          if n = [] then Some (True, t)
          else do {
            found \<leftarrow> limit_scan t n;
            (case found of
               None \<Rightarrow> Some (True, t)
             | Some i \<Rightarrow>
                 let node = ml_nodes t ! i in
                 if 0 < ml_limit node \<and> ml_limit node \<le> ml_use node then Some (False, t)
                 else Some (True, limit_upd i (\<lambda>n. n\<lparr>ml_use := s32 (ml_use n + 1)\<rparr>) t))
          })"
  by (cases nm; cases "limit_scan t (the nm)")
    (auto simp: limit_enter_def limit_test_def limit_take_def Let_def split: option.splits)

text \<open>
  The code's \<^verbatim>\<open>prdt_limit\<close> is null when the listener is checked (it is reset after the
  product's scan), so the statement \<^verbatim>\<open>prdt_limit->use --\<close> of the listener's
  refusal dereferences a null pointer.
\<close>

definition mtype_limit_check ::
    "cstr option \<Rightarrow> cstr option \<Rightarrow> 'a limit_world_scheme \<Rightarrow> (int \<times> 'a limit_world_scheme) option" where
  "mtype_limit_check prdt lsn w =
     (case (g_shm_prdt_limit w, g_shm_lsn_limit w) of
        (Some pt, Some lt) \<Rightarrow> do {
          (ok, pt1) \<leftarrow> limit_enter prdt pt;
          if \<not> ok then Some (SW_ERROR, w)
          else do {
            (ok, lt1) \<leftarrow> limit_enter lsn lt;
            if \<not> ok then None
            else Some (SW_OK, w\<lparr>g_shm_prdt_limit := Some pt1, g_shm_lsn_limit := Some lt1\<rparr>)
          }
        }
      | _ \<Rightarrow> Some (SW_ERROR, w))"

definition limit_leave :: "cstr option \<Rightarrow> int \<Rightarrow> mtype_limit_t \<Rightarrow> mtype_limit_t option" where
  "limit_leave nm success t =
     (case nm of
        None \<Rightarrow> Some t
      | Some n \<Rightarrow>
          if n = [] then Some t
          else do {
            found \<leftarrow> limit_scan t n;
            (case found of
               None \<Rightarrow> Some t
             | Some i \<Rightarrow> Some (limit_upd i (\<lambda>n.
                   if success \<noteq> 0 then n\<lparr>ml_use := s32 (ml_use n - 1), ml_success := s32 (ml_success n + 1)\<rparr>
                   else n\<lparr>ml_use := s32 (ml_use n - 1), ml_fail := s32 (ml_fail n + 1)\<rparr>) t))
          })"

definition mtype_limit_free ::
    "cstr option \<Rightarrow> cstr option \<Rightarrow> int \<Rightarrow> 'a limit_world_scheme \<Rightarrow> (int \<times> 'a limit_world_scheme) option" where
  "mtype_limit_free prdt lsn success w =
     (case (g_shm_prdt_limit w, g_shm_lsn_limit w) of
        (Some pt, Some lt) \<Rightarrow> do {
          pt1 \<leftarrow> limit_leave prdt success pt;
          lt1 \<leftarrow> limit_leave lsn success lt;
          Some (SW_OK, w\<lparr>g_shm_prdt_limit := Some pt1, g_shm_lsn_limit := Some lt1\<rparr>)
        }
      | _ \<Rightarrow> Some (SW_ERROR, w))"

section \<open>The table as a map from names\<close>

definition limit_wf :: "mtype_limit_t \<Rightarrow> bool" where
  "limit_wf t \<longleftrightarrow> 0 \<le> mlh_use t \<and> mlh_use t \<le> mlh_size t \<and> mlh_size t \<le> int (length (ml_nodes t)) \<and>
     mlh_size t < 2147483648"

definition limit_used :: "mtype_limit_t \<Rightarrow> mtype_limit_node list" where
  "limit_used t = take (nat (mlh_use t)) (ml_nodes t)"

definition limit_lookup :: "mtype_limit_t \<Rightarrow> cstr \<Rightarrow> mtype_limit_node option" where
  "limit_lookup t nm =
     (case find_idx (\<lambda>n. ml_name n = nm) (limit_used t) of
        Some i \<Rightarrow> Some (limit_used t ! i) | None \<Rightarrow> None)"

lemma limit_scan_lookup:
  assumes "limit_wf t"
  shows "limit_scan t nm = Some (find_idx (\<lambda>n. ml_name n = nm) (limit_used t))"
  using assms by (auto simp: limit_scan_def limit_used_def limit_wf_def split: option.splits)

lemma find_idx_update:
  assumes "find_idx p xs = Some i" and "p y = p (xs ! i)"
  shows "find_idx p (xs[i := y]) = Some i"
  using assms by (auto intro!: find_idx_eqI simp: nth_list_update dest: find_idx_Some)

lemma find_idx_update_other:
  assumes "i < length xs" and "\<not> p y" and "\<not> p (xs ! i)"
  shows "find_idx p (xs[i := y]) = find_idx p xs"
  using assms
proof (induction xs arbitrary: i)
  case Nil
  then show ?case by simp
next
  case (Cons x xs)
  then show ?case by (cases i) auto
qed

lemma limit_upd_wf [simp]: "limit_wf (limit_upd i f t) = limit_wf t"
  by (simp add: limit_wf_def limit_upd_def)

lemma limit_upd_used: "limit_used (limit_upd i f t) = (limit_used t)[i := f (ml_nodes t ! i)]"
  by (simp add: limit_used_def limit_upd_def take_update_swap)

lemma limit_lookup_upd:
  assumes "find_idx (\<lambda>n. ml_name n = nm) (limit_used t) = Some i" and "\<And>n. ml_name (f n) = ml_name n"
  shows "limit_lookup (limit_upd i f t) = (limit_lookup t)(nm \<mapsto> f (ml_nodes t ! i))"
proof
  fix m
  from find_idx_Some [OF assms(1)] have i: "i < length (limit_used t)"
      and nm: "ml_name (limit_used t ! i) = nm" by auto
  have nth: "limit_used t ! i = ml_nodes t ! i" using i by (simp add: limit_used_def)
  show "limit_lookup (limit_upd i f t) m = ((limit_lookup t)(nm \<mapsto> f (ml_nodes t ! i))) m"
  proof (cases "m = nm")
    case True
    have "find_idx (\<lambda>n. ml_name n = nm) ((limit_used t)[i := f (ml_nodes t ! i)]) = Some i"
      using assms(1) by (rule find_idx_update) (simp add: assms(2) nth)
    with True i show ?thesis by (simp add: limit_lookup_def limit_upd_used)
  next
    case False
    have "find_idx (\<lambda>n. ml_name n = m) ((limit_used t)[i := f (ml_nodes t ! i)]) =
        find_idx (\<lambda>n. ml_name n = m) (limit_used t)"
      using i False nm nth by (intro find_idx_update_other) (simp_all add: assms(2))
    moreover have "(limit_used t)[i := f (ml_nodes t ! i)] ! j = limit_used t ! j"
      if "find_idx (\<lambda>n. ml_name n = m) (limit_used t) = Some j" for j
    proof -
      from find_idx_Some [OF that] False nm have "j \<noteq> i" by auto
      then show ?thesis by simp
    qed
    ultimately show ?thesis
      using False by (auto simp: limit_lookup_def limit_upd_used split: option.splits)
  qed
qed

lemma limit_lookup_nth:
  "find_idx (\<lambda>n. ml_name n = nm) (limit_used t) = Some i \<Longrightarrow> limit_lookup t nm = Some (ml_nodes t ! i)"
  by (auto simp: limit_lookup_def limit_used_def dest: find_idx_Some)

lemma limit_lookup_none:
  "find_idx (\<lambda>n. ml_name n = nm) (limit_used t) = None \<Longrightarrow> limit_lookup t nm = None"
  by (simp add: limit_lookup_def)

text \<open>What the two halves do to the map.\<close>

lemma limit_enter_lookup:
  assumes wf: "limit_wf t" and n: "n \<noteq> []"
  shows "\<exists>ok t'. limit_enter (Some n) t = Some (ok, t') \<and> limit_wf t' \<and>
    (case limit_lookup t n of
       None \<Rightarrow> ok \<and> t' = t
     | Some nd \<Rightarrow>
         if 0 < ml_limit nd \<and> ml_limit nd \<le> ml_use nd then \<not> ok \<and> t' = t
         else ok \<and> limit_lookup t' = (limit_lookup t)(n \<mapsto> nd\<lparr>ml_use := s32 (ml_use nd + 1)\<rparr>))"
proof (cases "find_idx (\<lambda>x. ml_name x = n) (limit_used t)")
  case None
  with wf n show ?thesis
    by (auto simp: limit_enter_eq limit_scan_lookup limit_lookup_none)
next
  case (Some i)
  with wf n limit_lookup_upd [OF Some, of "\<lambda>n. n\<lparr>ml_use := s32 (ml_use n + 1)\<rparr>"]
  show ?thesis
    by (auto simp: limit_enter_eq limit_scan_lookup limit_lookup_nth [OF Some] Let_def)
qed

lemma limit_leave_lookup:
  assumes wf: "limit_wf t" and n: "n \<noteq> []"
  shows "\<exists>t'. limit_leave (Some n) success t = Some t' \<and> limit_wf t' \<and>
    (case limit_lookup t n of
       None \<Rightarrow> t' = t
     | Some nd \<Rightarrow> limit_lookup t' = (limit_lookup t)(n \<mapsto>
         (if success \<noteq> 0
          then nd\<lparr>ml_use := s32 (ml_use nd - 1), ml_success := s32 (ml_success nd + 1)\<rparr>
          else nd\<lparr>ml_use := s32 (ml_use nd - 1), ml_fail := s32 (ml_fail nd + 1)\<rparr>)))"
proof (cases "find_idx (\<lambda>x. ml_name x = n) (limit_used t)")
  case None
  with wf n show ?thesis
    by (simp add: limit_leave_def limit_scan_lookup limit_lookup_none)
next
  case (Some i)
  let ?f = "\<lambda>n. if success \<noteq> 0
    then n\<lparr>ml_use := s32 (ml_use n - 1), ml_success := s32 (ml_success n + 1)\<rparr>
    else n\<lparr>ml_use := s32 (ml_use n - 1), ml_fail := s32 (ml_fail n + 1)\<rparr>"
  from wf n limit_lookup_upd [OF Some, of ?f] show ?thesis
    by (simp add: limit_leave_def limit_scan_lookup Some limit_lookup_nth [OF Some])
qed

section \<open>Sessions come and go\<close>

text \<open>
  A history of the admission control: sessions, given by their product and listener, are
  checked, refused, and given back, in any order, a session being given back only while
  it is live.
\<close>

inductive admission :: "limit_world \<Rightarrow> (cstr \<times> cstr) list \<Rightarrow> limit_world \<Rightarrow> bool" for w0 where
  start: "admission w0 [] w0"
| enter: "admission w0 live w \<Longrightarrow> mtype_limit_check (Some p) (Some l) w = Some (SW_OK, w') \<Longrightarrow>
    admission w0 ((p, l) # live) w'"
| refuse: "admission w0 live w \<Longrightarrow> mtype_limit_check (Some p) (Some l) w = Some (SW_ERROR, w') \<Longrightarrow>
    admission w0 live w'"
| leave: "admission w0 live w \<Longrightarrow> (p, l) \<in> set live \<Longrightarrow>
    mtype_limit_free (Some p) (Some l) success w = Some (SW_OK, w') \<Longrightarrow>
    admission w0 (remove1 (p, l) live) w'"

text \<open>\<open>counted t f\<close>: every registered name has the use count \<open>f\<close> gives it (modulo the 32 bits
  of the counter), within its limit.\<close>

definition counted :: "mtype_limit_t \<Rightarrow> (cstr \<Rightarrow> nat) \<Rightarrow> bool" where
  "counted t f \<longleftrightarrow> limit_wf t \<and>
     (\<forall>n nd. n \<noteq> [] \<longrightarrow> limit_lookup t n = Some nd \<longrightarrow>
        ml_use nd = s32 (int (f n)) \<and>
        (0 < ml_limit nd \<longrightarrow> int (f n) \<le> ml_limit nd \<and> ml_limit nd < 2147483648))"

lemma counted_upd:
  assumes "counted t f" and "limit_wf t'" and "limit_lookup t' = (limit_lookup t)(n \<mapsto> nd)"
    and "ml_use nd = s32 (int k)"
    and "0 < ml_limit nd \<Longrightarrow> int k \<le> ml_limit nd \<and> ml_limit nd < 2147483648"
  shows "counted t' (f(n := k))"
  using assms by (auto simp: counted_def)

lemma counted_enter:
  assumes "counted t f" and "limit_enter (Some n) t = Some (True, t')"
  shows "counted t' (f(n := Suc (f n)))"
proof (cases "n = []")
  case True
  with assms show ?thesis by (auto simp: limit_enter_eq counted_def)
next
  case False
  show ?thesis
  proof (cases "limit_lookup t n")
    case None
    with limit_enter_lookup [of t n] False assms show ?thesis by (auto simp: counted_def)
  next
    case (Some nd)
    with assms False have use: "ml_use nd = s32 (int (f n))"
        and le: "0 < ml_limit nd \<longrightarrow> int (f n) \<le> ml_limit nd \<and> ml_limit nd < 2147483648"
      by (auto simp: counted_def)
    from limit_enter_lookup [of t n] False assms Some
    have wf: "limit_wf t'" and not: "\<not> (0 < ml_limit nd \<and> ml_limit nd \<le> ml_use nd)"
      and look: "limit_lookup t' = (limit_lookup t)(n \<mapsto> nd\<lparr>ml_use := s32 (ml_use nd + 1)\<rparr>)"
      by (auto simp: counted_def split: if_splits)
    from not use le have "0 < ml_limit nd \<Longrightarrow> int (f n) < ml_limit nd" by auto
    with le use show ?thesis
      by (intro counted_upd [OF assms(1) wf look]) (auto simp: ac_simps)
  qed
qed

lemma counted_refused:
  "counted t f \<Longrightarrow> limit_enter (Some n) t = Some (False, t') \<Longrightarrow> t' = t"
  using limit_enter_lookup [of t n]
  by (cases "n = []") (auto simp: counted_def limit_enter_eq split: option.splits if_splits)

lemma counted_leave:
  assumes "counted t f" and "limit_leave (Some n) success t = Some t'" and "0 < f n"
  shows "counted t' (f(n := f n - 1))"
proof (cases "n = []")
  case True
  with assms show ?thesis by (auto simp: limit_leave_def counted_def)
next
  case False
  show ?thesis
  proof (cases "limit_lookup t n")
    case None
    with limit_leave_lookup [of t n success] False assms show ?thesis by (auto simp: counted_def)
  next
    case (Some nd)
    with assms False have use: "ml_use nd = s32 (int (f n))"
        and le: "0 < ml_limit nd \<longrightarrow> int (f n) \<le> ml_limit nd \<and> ml_limit nd < 2147483648"
      by (auto simp: counted_def)
    have wft: "limit_wf t" using assms(1) by (simp add: counted_def)
    let ?nd = "if success \<noteq> 0
      then nd\<lparr>ml_use := s32 (ml_use nd - 1), ml_success := s32 (ml_success nd + 1)\<rparr>
      else nd\<lparr>ml_use := s32 (ml_use nd - 1), ml_fail := s32 (ml_fail nd + 1)\<rparr>"
    from limit_leave_lookup [OF wft False, of success] assms(2) Some
    have wf: "limit_wf t'" and look: "limit_lookup t' = (limit_lookup t)(n \<mapsto> ?nd)"
      by simp_all
    have nd': "ml_use ?nd = s32 (ml_use nd - 1)" "ml_limit ?nd = ml_limit nd" by simp_all
    show ?thesis
    proof (rule counted_upd [OF assms(1) wf look])
      show "ml_use ?nd = s32 (int (f n - 1))"
        unfolding nd' use using assms(3) by (simp add: of_nat_diff)
      show "int (f n - 1) \<le> ml_limit ?nd \<and> ml_limit ?nd < 2147483648" if "0 < ml_limit ?nd"
        using that le unfolding nd'(2) by (auto simp: of_nat_diff)
    qed
  qed
qed

definition live_count :: "('a \<Rightarrow> cstr) \<Rightarrow> 'a list \<Rightarrow> cstr \<Rightarrow> nat" where
  "live_count g live n = length (filter (\<lambda>s. g s = n) live)"

lemma live_count_cons [simp]:
  "live_count g (s # live) = (live_count g live)(g s := Suc (live_count g live (g s)))"
  by (auto simp: live_count_def)

lemma live_count_remove1:
  "s \<in> set live \<Longrightarrow> 0 < live_count g live (g s) \<and>
     live_count g (remove1 s live) = (live_count g live)(g s := live_count g live (g s) - 1)"
proof (induction live)
  case Nil
  then show ?case by simp
next
  case (Cons x live)
  show ?case
  proof (cases "x = s")
    case True
    then show ?thesis by (auto simp: live_count_def)
  next
    case False
    with Cons show ?thesis by (auto simp: fun_eq_iff)
  qed
qed

definition admission_inv :: "(cstr \<times> cstr) list \<Rightarrow> limit_world \<Rightarrow> bool" where
  "admission_inv live w \<longleftrightarrow>
     (\<exists>pt lt. g_shm_prdt_limit w = Some pt \<and> g_shm_lsn_limit w = Some lt \<and>
        counted pt (live_count fst live) \<and> counted lt (live_count snd live))"

lemma admission_inv:
  assumes "admission w0 live w" and "admission_inv [] w0"
  shows "admission_inv live w"
  using assms
proof (induction rule: admission.induct)
  case start
  then show ?case .
next
  case (enter live w p l w')
  then obtain pt lt where t: "g_shm_prdt_limit w = Some pt" "g_shm_lsn_limit w = Some lt"
      "counted pt (live_count fst live)" "counted lt (live_count snd live)"
    by (auto simp: admission_inv_def)
  with enter obtain pt1 lt1 where t1: "limit_enter (Some p) pt = Some (True, pt1)"
      "limit_enter (Some l) lt = Some (True, lt1)"
      "w' = w\<lparr>g_shm_prdt_limit := Some pt1, g_shm_lsn_limit := Some lt1\<rparr>"
    by (auto simp: mtype_limit_check_def split: bind_splits if_splits)
  with counted_enter [OF t(3) t1(1)] counted_enter [OF t(4) t1(2)]
  show ?case by (simp add: admission_inv_def)
next
  case (refuse live w p l w')
  then show ?case
    by (auto simp: admission_inv_def mtype_limit_check_def split: if_splits bind_splits)
next
  case (leave live w p l success w')
  then obtain pt lt where t: "g_shm_prdt_limit w = Some pt" "g_shm_lsn_limit w = Some lt"
      "counted pt (live_count fst live)" "counted lt (live_count snd live)"
    by (auto simp: admission_inv_def)
  with leave obtain pt1 lt1 where t1: "limit_leave (Some p) success pt = Some pt1"
      "limit_leave (Some l) success lt = Some lt1"
      "w' = w\<lparr>g_shm_prdt_limit := Some pt1, g_shm_lsn_limit := Some lt1\<rparr>"
    by (auto simp: mtype_limit_free_def split: bind_splits)
  from live_count_remove1 [OF leave.hyps(2), of fst] live_count_remove1 [OF leave.hyps(2), of snd]
    counted_leave [OF t(3) t1(1)] counted_leave [OF t(4) t1(2)] t1(3)
  show ?case by (auto simp: admission_inv_def)
qed

section \<open>Properties\<close>

text \<open>A table nobody has used: as registration leaves it.\<close>

definition limit_fresh :: "mtype_limit_t \<Rightarrow> bool" where
  "limit_fresh t \<longleftrightarrow> limit_wf t \<and> (\<forall>nd \<in> set (limit_used t). ml_use nd = 0 \<and> ml_limit nd < 2147483648)"

lemma limit_lookup_in: "limit_lookup t n = Some nd \<Longrightarrow> nd \<in> set (limit_used t)"
  by (auto simp: limit_lookup_def dest: find_idx_Some split: option.splits)

lemma limit_fresh_counted: "limit_fresh t \<Longrightarrow> counted t (\<lambda>_. 0)"
  by (auto simp: limit_fresh_def counted_def dest: limit_lookup_in)

text \<open>C5: Admission one at a time: when the calls of mtype_limit_check and mtype_limit_free follow one another, each
  finished before the next begins, then in every history of admissions, refusals and returns of live sessions that
  starts from fresh tables no product and no listener whose configured limit is above 0 has more live
  sessions than its limit, and its use counter is the number of its live sessions.  (Calls that overlap do exceed
  the limit: concurrent_checks_exceed.  A check that meets a full listener crashes and is no step of a history:
  full_listener_crashes.)\<close>

theorem admission_within_limits:
  assumes "admission w0 live w"
    and "g_shm_prdt_limit w0 = Some pt0" and "limit_fresh pt0"
    and "g_shm_lsn_limit w0 = Some lt0" and "limit_fresh lt0"
  shows "\<exists>pt lt. g_shm_prdt_limit w = Some pt \<and> g_shm_lsn_limit w = Some lt \<and>
    (\<forall>p nd. p \<noteq> [] \<and> limit_lookup pt p = Some nd \<and> 0 < ml_limit nd \<longrightarrow>
       int (live_count fst live p) \<le> ml_limit nd \<and> ml_use nd = int (live_count fst live p)) \<and>
    (\<forall>l nd. l \<noteq> [] \<and> limit_lookup lt l = Some nd \<and> 0 < ml_limit nd \<longrightarrow>
       int (live_count snd live l) \<le> ml_limit nd \<and> ml_use nd = int (live_count snd live l))"
proof -
  have nil: "live_count g [] = (\<lambda>_. 0)" for g :: "cstr \<times> cstr \<Rightarrow> cstr" by (simp add: live_count_def fun_eq_iff)
  have "admission_inv [] w0"
    using assms(2-5) by (simp add: admission_inv_def nil limit_fresh_counted)
  from admission_inv [OF assms(1) this] show ?thesis
    by (fastforce simp: admission_inv_def counted_def)
qed

text \<open>The check takes no lock.  Two processes that both test a product with one session left before either of
  them counts its session are both admitted, and the counter stands above the limit.\<close>

theorem concurrent_checks_exceed:
  assumes wf: "limit_wf t" and n: "n \<noteq> []" and look: "limit_lookup t n = Some nd"
    and last: "0 < ml_limit nd" "ml_use nd = ml_limit nd - 1" "ml_limit nd < 2147483647"
  shows "\<exists>i. limit_test (Some n) t = Some (True, Some i) \<and>
    limit_lookup (limit_take (Some i) (limit_take (Some i) t)) n = Some (nd\<lparr>ml_use := ml_limit nd + 1\<rparr>)"
proof -
  obtain i where i: "find_idx (\<lambda>m. ml_name m = n) (limit_used t) = Some i" "limit_used t ! i = nd"
    using look by (auto simp: limit_lookup_def split: option.splits)
  let ?f = "\<lambda>m. m\<lparr>ml_use := s32 (ml_use m + 1)\<rparr>"
  note once = limit_lookup_upd [OF i(1), of ?f]
  have test: "limit_test (Some n) t = Some (True, Some i)"
    using wf n i(1) last limit_lookup_nth [OF i(1)] look by (simp add: limit_test_def limit_scan_lookup)
  have len: "i < length (ml_nodes t)" and nth: "ml_nodes t ! i = nd"
    using find_idx_Some [OF i(1)] i(2) by (simp_all add: limit_used_def)
  have "find_idx (\<lambda>m. ml_name m = n) (limit_used (limit_upd i ?f t)) = Some i"
    unfolding limit_upd_used using find_idx_update [OF i(1), of "?f (ml_nodes t ! i)"] nth i(2) by simp
  from limit_lookup_upd [OF this, of ?f] len nth last
  have "limit_lookup (limit_upd i ?f (limit_upd i ?f t)) n = Some (nd\<lparr>ml_use := ml_limit nd + 1\<rparr>)"
    by (simp add: limit_upd_def s32_id)
  with test show ?thesis by (intro exI [of _ i]) (simp add: limit_take_def)
qed

text \<open>A listener at its limit crashes the process that asks: when the product admits the
  session but the listener is full, \<open>mtype_limit_check\<close> does not return an error, it
  dereferences the product pointer it has just set to null.\<close>

theorem full_listener_crashes:
  assumes "g_shm_prdt_limit w = Some pt" and "limit_enter prdt pt = Some (True, pt1)"
    and "g_shm_lsn_limit w = Some lt" and "limit_wf lt" and "l \<noteq> []"
    and "limit_lookup lt l = Some nd" and "0 < ml_limit nd" and "ml_limit nd \<le> ml_use nd"
  shows "mtype_limit_check prdt (Some l) w = None"
  using limit_enter_lookup [OF assms(4,5)] assms by (auto simp: mtype_limit_check_def)

text \<open>A product at its limit is refused with \<^verbatim>\<open>SW_ERROR\<close> and nothing changes.\<close>

theorem full_product_refused:
  assumes "g_shm_prdt_limit w = Some pt" and "g_shm_lsn_limit w = Some lt" and "limit_wf pt"
    and "p \<noteq> []" and "limit_lookup pt p = Some nd" and "0 < ml_limit nd" and "ml_limit nd \<le> ml_use nd"
  shows "mtype_limit_check (Some p) lsn w = Some (SW_ERROR, w)"
  using limit_enter_lookup [OF assms(3,4)] assms by (auto simp: mtype_limit_check_def)

lemma limit_frames:
  "sem_frame (\<lambda>w. w\<lparr>g_shm_prdt_limit := x\<rparr>)" "sem_frame (\<lambda>w. w\<lparr>g_shm_lsn_limit := x\<rparr>)"
  by (auto simp: sem_frame_def)

lemma limit_lookup_register:
  assumes "limit_wf t" and "mlh_use t < mlh_size t" and "p \<noteq> []" and "length p \<le> 63"
    and "t' = t\<lparr>ml_nodes := (ml_nodes t)[nat (mlh_use t) := (ml_nodes t ! nat (mlh_use t))
           \<lparr>ml_limit := limit, ml_name := cstr_cut 63 p\<rparr>], mlh_use := s32 (mlh_use t + 1)\<rparr>"
  shows "limit_wf t' \<and> limit_used t' =
    limit_used t @ [(ml_nodes t ! nat (mlh_use t))\<lparr>ml_limit := limit, ml_name := p\<rparr>]"
proof -
  have "nat (mlh_use t + 1) = Suc (nat (mlh_use t))" and "nat (mlh_use t) < length (ml_nodes t)"
    using assms(1,2) by (auto simp: limit_wf_def)
  with assms show ?thesis
    by (auto simp: limit_wf_def limit_used_def take_Suc_conv_app_nth)
qed

lemma find_idx_append:
  "find_idx p (xs @ ys) =
     (case find_idx p xs of Some i \<Rightarrow> Some i
      | None \<Rightarrow> map_option (\<lambda>i. i + length xs) (find_idx p ys))"
  by (induction xs) (auto split: option.splits simp: option.map_comp o_def option.map_ident)

text \<open>Registering a product in a table with room succeeds, gives the lock back, and the
  name then finds its limit, unless an earlier registration of the same name stands
  before it; all other names keep their entries.\<close>

theorem register_then_lookup:
  assumes "g_shm_prdt_limit w = Some t" and "limit_wf t" and "mlh_use t < mlh_size t"
    and "p \<noteq> []" and "length p \<le> 63" and "sem_free (mlh_lock_id t) w"
  shows "\<exists>t'. loc_prdt_limit_register (Some p) limit w = Some (SW_OK, w\<lparr>g_shm_prdt_limit := Some t'\<rparr>) \<and>
    limit_wf t' \<and>
    limit_lookup t' = (case limit_lookup t p of
        None \<Rightarrow> (limit_lookup t)(p \<mapsto> (ml_nodes t ! nat (mlh_use t))\<lparr>ml_limit := limit, ml_name := p\<rparr>)
      | Some _ \<Rightarrow> limit_lookup t)"
proof -
  let ?t' = "t\<lparr>ml_nodes := (ml_nodes t)[nat (mlh_use t) := (ml_nodes t ! nat (mlh_use t))
           \<lparr>ml_limit := limit, ml_name := cstr_cut 63 p\<rparr>], mlh_use := s32 (mlh_use t + 1)\<rparr>"
  note reg = limit_lookup_register [OF assms(2-5) refl, of limit]
  have idx: "nat (mlh_use t) < length (ml_nodes t)"
    using assms(2,3) by (auto simp: limit_wf_def)
  have "loc_prdt_limit_register (Some p) limit w = Some (SW_OK, w\<lparr>g_shm_prdt_limit := Some ?t'\<rparr>)"
    using assms idx by (simp add: loc_prdt_limit_register_def sem_acquire_free Let_def
        sem_release_took [where f = "\<lambda>w. w\<lparr>g_shm_prdt_limit := _\<rparr>", OF _ limit_frames(1)])
  moreover have "limit_lookup ?t' m = (case limit_lookup t p of
        None \<Rightarrow> (limit_lookup t)(p \<mapsto> (ml_nodes t ! nat (mlh_use t))\<lparr>ml_limit := limit, ml_name := p\<rparr>)
      | Some _ \<Rightarrow> limit_lookup t) m" for m
    using reg by (auto simp: limit_lookup_def find_idx_append nth_append
        dest: find_idx_Some split: option.splits)
  ultimately show ?thesis using reg by blast
qed

text \<open>The memory reserved for the product table is exactly what its initialiser uses, but
  the one for the listener table is decided by the wrong field: with \<^verbatim>\<open>prdt_max\<close>
  unset the table is sized for the default six listeners whatever \<^verbatim>\<open>lsn_max\<close> says,
  so from nine listeners on the initialiser writes past its end.\<close>

theorem listener_table_overrun:
  assumes "cfg_prdt_max c \<le> 0" and "9 \<le> cfg_lsn_max c"
    and "lsn_limit_loc_init (Some t0) (Some c) w = Some (SW_OK, Some t, w1)"
  shows "lsn_limit_get_size (Some c) < LIMIT_HEAD_SIZE + mlh_size t * LIMIT_NODE_SIZE \<and>
    prdt_limit_get_size (Some c) = LIMIT_HEAD_SIZE + PRDT_MAX_DEFAULT * LIMIT_NODE_SIZE"
  using assms
  by (auto simp: lsn_limit_get_size_def prdt_limit_get_size_def lsn_limit_loc_init_def Let_def
      split: bind_splits if_splits)

section \<open>Witnesses\<close>

definition limit_demo :: "cstr \<Rightarrow> int \<Rightarrow> mtype_limit_t" where
  "limit_demo nm u =
     \<lparr>mlh_lock_id = 1, mlh_size = 2, mlh_use = 1, mlh_warn = 10,
      ml_nodes = [\<lparr>ml_limit = 1, ml_use = u, ml_success = 0, ml_fail = 0, ml_name = nm\<rparr>, zero_limit_node]\<rparr>"

definition limit_world0 :: "int \<Rightarrow> int \<Rightarrow> limit_world" where
  "limit_world0 up ul =
     \<lparr>kernel_sems = [7 \<mapsto> [500, 500, 500]],
      g_sem_lock = Some \<lparr>sl_sem_id = 7, sl_sem_num = 3, sl_lock_cnt = 2, sl_lock_id = 1\<rparr>,
      g_shm_prdt_limit = Some (limit_demo ''PRD'' up), g_shm_lsn_limit = Some (limit_demo ''LSN'' ul)\<rparr>"

lemmas limit_demo_eval = limit_world0_def limit_demo_def limit_wf_def limit_used_def
  limit_lookup_def limit_enter_eq limit_scan_def limit_upd_def

lemma limit_demo_fresh: "limit_fresh (limit_demo nm 0)"
  by (simp add: limit_demo_def limit_fresh_def limit_wf_def limit_used_def)

theorem admission_within_limits_witness:
  "\<exists>w pt nd. admission (limit_world0 0 0) [(''PRD'', ''LSN'')] w \<and> g_shm_prdt_limit w = Some pt \<and>
     limit_lookup pt ''PRD'' = Some nd \<and> ml_use nd = 1"
proof -
  let ?w = "limit_world0 1 1"
  have "mtype_limit_check (Some ''PRD'') (Some ''LSN'') (limit_world0 0 0) = Some (SW_OK, ?w)"
    by (simp add: mtype_limit_check_def limit_demo_eval)
  from admission.enter [OF admission.start this]
  have adm: "admission (limit_world0 0 0) [(''PRD'', ''LSN'')] ?w" .
  have "g_shm_prdt_limit (limit_world0 0 0) = Some (limit_demo ''PRD'' 0)"
    and "g_shm_lsn_limit (limit_world0 0 0) = Some (limit_demo ''LSN'' 0)"
    by (simp_all add: limit_world0_def)
  from admission_within_limits [OF adm this(1) limit_demo_fresh this(2) limit_demo_fresh]
  have "\<exists>nd. limit_lookup (limit_demo ''PRD'' 1) ''PRD'' = Some nd \<and> ml_use nd = 1"
    by (simp add: limit_demo_eval live_count_def)
  with adm show ?thesis by (auto simp: limit_world0_def)
qed

theorem full_listener_crashes_witness:
  "mtype_limit_check (Some ''PRD'') (Some ''LSN'') (limit_world0 0 1) = None"
  by (rule full_listener_crashes [where nd = "\<lparr>ml_limit = 1, ml_use = 1, ml_success = 0, ml_fail = 0, ml_name = ''LSN''\<rparr>"
        and pt = "limit_demo ''PRD'' 0" and ?pt1.0 = "limit_demo ''PRD'' 1" and lt = "limit_demo ''LSN'' 1"])
    (simp_all add: limit_demo_eval)

theorem full_product_refused_witness:
  "mtype_limit_check (Some ''PRD'') (Some ''LSN'') (limit_world0 1 0) = Some (SW_ERROR, limit_world0 1 0)"
  by (rule full_product_refused [where nd = "\<lparr>ml_limit = 1, ml_use = 1, ml_success = 0, ml_fail = 0, ml_name = ''PRD''\<rparr>"
        and pt = "limit_demo ''PRD'' 1" and lt = "limit_demo ''LSN'' 0"])
    (simp_all add: limit_demo_eval)

theorem register_then_lookup_witness:
  "\<exists>t'. loc_prdt_limit_register (Some ''NEW'') 9 (limit_world0 0 0) =
      Some (SW_OK, (limit_world0 0 0)\<lparr>g_shm_prdt_limit := Some t'\<rparr>) \<and>
     map_option ml_limit (limit_lookup t' ''NEW'') = Some 9"
proof -
  have no: "limit_lookup (limit_demo ''PRD'' 0) ''NEW'' = None" by (simp add: limit_demo_eval)
  have "g_shm_prdt_limit (limit_world0 0 0) = Some (limit_demo ''PRD'' 0)"
      "limit_wf (limit_demo ''PRD'' 0)" "mlh_use (limit_demo ''PRD'' 0) < mlh_size (limit_demo ''PRD'' 0)"
      "sem_free (mlh_lock_id (limit_demo ''PRD'' 0)) (limit_world0 0 0)"
    by (simp_all add: limit_demo_eval sem_free_def)
  from register_then_lookup [OF this(1-3) _ _ this(4), of "''NEW''" 9] no show ?thesis by fastforce
qed

definition limit_cfg0 :: sw_syscfg where
  "limit_cfg0 = \<lparr>cfg_session_max = 100, cfg_prdt_max = 0, cfg_lsn_max = 10, cfg_seq_max = 0\<rparr>"

definition limit_mem0 :: mtype_limit_t where
  "limit_mem0 = \<lparr>mlh_lock_id = 0, mlh_size = 0, mlh_use = 0, mlh_warn = 0,
     ml_nodes = replicate 9 zero_limit_node\<rparr>"

theorem listener_table_overrun_witness:
  "\<exists>t w1. lsn_limit_loc_init (Some limit_mem0) (Some limit_cfg0) (limit_world0 0 0) = Some (SW_OK, Some t, w1) \<and>
     lsn_limit_get_size (Some limit_cfg0) < LIMIT_HEAD_SIZE + mlh_size t * LIMIT_NODE_SIZE"
proof -
  obtain t w1 where "lsn_limit_loc_init (Some limit_mem0) (Some limit_cfg0) (limit_world0 0 0) = Some (SW_OK, Some t, w1)"
    by (simp add: lsn_limit_loc_init_def limit_mem0_def limit_cfg0_def limit_world0_def limit_memzero_def
        sem_new_lock_id_def sem_loc_new_lock_id_def sem_call_defs semop_def Let_def)
  with listener_table_overrun [OF _ _ this] show ?thesis by (auto simp: limit_cfg0_def)
qed

end
