(* ===== verification/Pub_Time.thy ===== *)
theory Pub_Time
  imports Prelude
begin

text \<open>
  The time stamps of the run time, \<^verbatim>\<open>core/pub_time.c\<close>: microseconds since the
  epoch, their distance in seconds and their printed forms.  \<^verbatim>\<open>localtime\<close> is an
  argument: it answers the broken-down time, \<open>None\<close> for a null pointer.
\<close>

record c_tm =
  tm_year :: int
  tm_mon :: int
  tm_mday :: int
  tm_hour :: int
  tm_min :: int
  tm_sec :: int

text \<open>\<^verbatim>\<open>pub_time_get_space\<close>: the distance of two time stamps (microseconds) in seconds.\<close>

definition pub_time_get_space :: "int \<Rightarrow> int \<Rightarrow> int" where
  "pub_time_get_space t1 t2 =
     (if t2 < t1 then c_div (t1 - t2) 1000000 else c_div (t2 - t1) 1000000)"

abbreviation (input) pad2 :: "int \<Rightarrow> cstr" where "pad2 x \<equiv> fmt_0lld 2 x"
abbreviation (input) pad4 :: "int \<Rightarrow> cstr" where "pad4 x \<equiv> fmt_0lld 4 x"

text \<open>The bytes of the Chinese words of format 4, as the source file encodes them.\<close>

definition gbk :: "nat \<Rightarrow> nat \<Rightarrow> cstr" where
  "gbk hi lo = [char_of hi, char_of lo]"

text \<open>\<open>out\<close> is the content of the output buffer before the call; the third component of the
  result is its content afterwards.\<close>

definition pub_time_change_time ::
    "(int \<Rightarrow> c_tm option) \<Rightarrow> int option \<Rightarrow> cstr \<Rightarrow> int \<Rightarrow> int \<times> cstr" where
  "pub_time_change_time localtime tp out format_flag =
     (case tp of
        None \<Rightarrow> (- 1, out)
      | Some sec \<Rightarrow>
          (0, case localtime sec of
                None \<Rightarrow> out
              | Some tm \<Rightarrow>
                  let date = pad4 (tm_year tm + 1900) @ pad2 (tm_mon tm + 1) @ pad2 (tm_mday tm);
                      clock = pad2 (tm_hour tm) @ '':'' @ pad2 (tm_min tm) @ '':'' @ pad2 (tm_sec tm) in
                  if format_flag = 1 then date @ clock
                  else if format_flag = 0 then clock
                  else if format_flag = 2
                  then date @ pad2 (tm_hour tm) @ pad2 (tm_min tm) @ pad2 (tm_sec tm)
                  else if format_flag = 3 then date
                  else if format_flag = 4
                  then pad4 (tm_year tm + 1900) @ gbk 0xC4 0xEA @ pad2 (tm_mon tm + 1) @ gbk 0xD4 0xC2 @
                       pad2 (tm_mday tm) @ gbk 0xC8 0xD5 @ '' '' @ pad2 (tm_hour tm) @ gbk 0xCA 0xB1 @
                       pad2 (tm_min tm) @ gbk 0xB7 0xD6 @ pad2 (tm_sec tm) @ gbk 0xC3 0xEB
                  else if format_flag = 5 then date @ '' '' @ clock
                  else out))"

definition pub_change_time2 ::
    "(int \<Rightarrow> c_tm option) \<Rightarrow> int \<Rightarrow> cstr \<Rightarrow> int \<Rightarrow> int \<times> cstr" where
  "pub_change_time2 localtime time_value time_buf flag =
     (if time_value < 0 then (1, time_buf)
      else
        let (_, buf) = pub_time_change_time localtime (Some (c_div time_value 1000000)) time_buf flag in
        (0, buf @ ''.'' @ fmt_0lld 3 (c_div (time_value mod 1000000) 1000)))"

definition pub_change_time ::
    "(int \<Rightarrow> c_tm option) \<Rightarrow> int \<Rightarrow> cstr \<Rightarrow> int \<Rightarrow> int \<times> cstr" where
  "pub_change_time localtime time_value time_buf flag =
     (if time_value < 0 then (1, time_buf)
      else
        let (_, buf) = pub_time_change_time localtime (Some (c_div time_value 1000000)) time_buf flag in
        (0, buf))"

end
