(* ===== verification/Mtype.thy ===== *)
theory Mtype
  imports Prelude Sem_Lock Mtype_Limit Pub_Time
begin

text \<open>
  The session table, \<^verbatim>\<open>core/mtype.c\<close>: a fixed array of nodes in shared memory, one
  per session (\<^verbatim>\<open>mtype\<close>), allocated by a rotating scan that also reclaims sessions
  older than three hours.  This theory holds the life cycle of a node (initialise, new,
  delete); \<open>Mtype_Info\<close> holds the accessors of a node's fields.

  The table a \<^verbatim>\<open>_loc_\<close> function works on is the process's \<^verbatim>\<open>g_shm_mtype\<close>; the clock is
  an argument.  The variable component is called with a session id to drop the
  session's variables: \<open>vars_destroyed\<close> records these calls in order.
\<close>

section \<open>State\<close>

abbreviation (input) MTYPE_IDLE :: int where "MTYPE_IDLE \<equiv> 1"
abbreviation (input) MTYPE_TAIL :: int where "MTYPE_TAIL \<equiv> - 1"
abbreviation (input) MTYPE_USED :: int where "MTYPE_USED \<equiv> - 2"
abbreviation (input) MAX_MTYPE_CNT :: int where "MAX_MTYPE_CNT \<equiv> 1000"
abbreviation (input) MTYPE_TIMEOUT :: int where "MTYPE_TIMEOUT \<equiv> 3 * 60 * 60"

record mtype_err =
  me_err_code1 :: int
  me_err_code2 :: int
  me_mode_type :: int
  me_mode_num :: int
  me_err_msg :: cstr

record task_info =
  ti_trace_no :: int
  ti_status :: int
  ti_err_info :: mtype_err

record mtype_node =
  mn_flag :: int
  mn_mtype :: int
  mn_task_status :: int
  mn_timeout :: int
  mn_calllsn_timeout :: int
  mn_start_time :: int
  mn_link_time :: int
  mn_trace_no :: int
  mn_bi_no :: int
  mn_msg_id :: int
  mn_mq_time :: int
  mn_sys_date :: cstr
  mn_key :: cstr
  mn_prdt_name :: cstr
  mn_server :: cstr
  mn_service :: cstr
  mn_lsn_name :: cstr
  mn_saf_flow :: cstr
  mn_pkg_response :: cstr
  mn_sys_response :: cstr
  mn_task_type :: int
  mn_log_flag :: int
  mn_task_info :: task_info

record mtype_head =
  mh_lock_id :: int
  mh_size :: int
  mh_mtype_max :: int
  mh_msg_cnt :: int
  mh_cur_cnt :: int
  mh_cur_use :: int
  mh_succ_cnt :: int
  mh_fail_cnt :: int
  mh_trc_cnt :: int
  mh_trc_fail_cnt :: int
  mh_start_time :: int

record mtype_t = mtype_head +
  mt_items :: "mtype_node list"

record mtype_world = limit_world +
  g_shm_mtype :: "mtype_t option"
  vars_destroyed :: "int list"

definition zero_task_info :: task_info where
  "zero_task_info = \<lparr>ti_trace_no = 0, ti_status = 0,
     ti_err_info = \<lparr>me_err_code1 = 0, me_err_code2 = 0, me_mode_type = 0, me_mode_num = 0, me_err_msg = []\<rparr>\<rparr>"

definition zero_mtype_node :: mtype_node where
  "zero_mtype_node =
     \<lparr>mn_flag = 0, mn_mtype = 0, mn_task_status = 0, mn_timeout = 0, mn_calllsn_timeout = 0,
      mn_start_time = 0, mn_link_time = 0, mn_trace_no = 0, mn_bi_no = 0, mn_msg_id = 0, mn_mq_time = 0,
      mn_sys_date = [], mn_key = [], mn_prdt_name = [], mn_server = [], mn_service = [], mn_lsn_name = [],
      mn_saf_flow = [], mn_pkg_response = [], mn_sys_response = [], mn_task_type = 0, mn_log_flag = 0,
      mn_task_info = zero_task_info\<rparr>"

section \<open>Creation of the table\<close>

text \<open>Sizes in bytes: a header of 40 bytes, a node of 504 (on an LP64 machine).\<close>

abbreviation (input) MTYPE_HEAD_SIZE :: int where "MTYPE_HEAD_SIZE \<equiv> 40"
abbreviation (input) MTYPE_NODE_SIZE :: int where "MTYPE_NODE_SIZE \<equiv> 504"

definition mtype_get_size :: "sw_syscfg option \<Rightarrow> int" where
  "mtype_get_size sys_cfg =
     (case sys_cfg of
        None \<Rightarrow> SW_ERROR
      | Some c \<Rightarrow>
          let mtype_max = (if cfg_session_max c \<le> 0 then MAX_MTYPE_CNT else cfg_session_max c) in
          s32 (MTYPE_HEAD_SIZE + MTYPE_NODE_SIZE + (mtype_max - 1) * MTYPE_NODE_SIZE))"

text \<open>The loop that sets the flags: the node at \<^verbatim>\<open>head.mtype_max - 1\<close> is the tail.\<close>

definition mtype_set_flags :: "int \<Rightarrow> mtype_node list \<Rightarrow> mtype_node list" where
  "mtype_set_flags mx items =
     map (\<lambda>(i, nd). if int i < mx
                     then nd\<lparr>mn_flag := if int i = mx - 1 then MTYPE_TAIL else MTYPE_IDLE\<rparr> else nd)
       (zip [0..<length items] items)"

text \<open>\<open>cells\<close> is the number of nodes the shared memory holds.\<close>

definition mtype_loc_init ::
    "nat option \<Rightarrow> sw_syscfg option \<Rightarrow> 'a sem_world_scheme \<Rightarrow> (int \<times> mtype_t option \<times> 'a sem_world_scheme) option" where
  "mtype_loc_init cells sys_cfg w =
     (case (sys_cfg, cells) of
        (Some c, Some n) \<Rightarrow> do {
          let mtype_max = (if cfg_session_max c \<le> 0 then MAX_MTYPE_CNT else cfg_session_max c);
          let mtype_size = s32 (MTYPE_HEAD_SIZE + MTYPE_NODE_SIZE + (mtype_max - 1) * MTYPE_NODE_SIZE);
          if int n < mtype_max then None
          else do {
            (lid, w1) \<leftarrow> sem_new_lock_id w;
            if lid = - 1 then Some (SW_ERROR, None, w1)
            else do {
              (_, w2) \<leftarrow> sem_mutex_lock lid w1;
              let mx = s16 mtype_max;
              let t = \<lparr>mh_lock_id = lid, mh_size = mtype_size, mh_mtype_max = mx, mh_msg_cnt = 0,
                       mh_cur_cnt = 0, mh_cur_use = 0, mh_succ_cnt = 0, mh_fail_cnt = 0, mh_trc_cnt = 0,
                       mh_trc_fail_cnt = 0, mh_start_time = 0,
                       mt_items = mtype_set_flags mx (replicate (nat mtype_max) zero_mtype_node)\<rparr>;
              (_, w3) \<leftarrow> sem_mutex_unlock lid w2;
              Some (SW_OK, Some t, w3)
            }
          }
        }
      | _ \<Rightarrow> Some (SW_ERROR, None, w))"

definition mtype_init ::
    "nat option \<Rightarrow> sw_syscfg option \<Rightarrow> 'a mtype_world_scheme \<Rightarrow> (int \<times> 'a mtype_world_scheme) option" where
  "mtype_init cells sys_cfg w = do {
     (result, t, w1) \<leftarrow> mtype_loc_init cells sys_cfg w;
     if result \<noteq> SW_OK then Some (SW_ERROR, w1)
     else Some (SW_OK, w1\<lparr>g_shm_mtype := t\<rparr>)
   }"

definition mtype_set_addr :: "mtype_t option \<Rightarrow> 'a mtype_world_scheme \<Rightarrow> int \<times> 'a mtype_world_scheme" where
  "mtype_set_addr addr w =
     (if addr = None then (SW_ERROR, w) else (SW_OK, w\<lparr>g_shm_mtype := addr\<rparr>))"

definition mtype_get_addr :: "'a mtype_world_scheme \<Rightarrow> mtype_t option" where
  "mtype_get_addr w = g_shm_mtype w"

section \<open>Allocation\<close>

text \<open>How the scan loop of \<open>mtype_loc_new\<close> ends, with the value of \<^verbatim>\<open>i\<close>.\<close>

datatype scan_end = Found_idle nat | Timed_out nat | Hit_tail nat | Ran_out nat | Bad_flag nat

fun scan_index :: "scan_end \<Rightarrow> nat" where
  "scan_index (Found_idle i) = i"
| "scan_index (Timed_out i) = i"
| "scan_index (Hit_tail i) = i"
| "scan_index (Ran_out i) = i"
| "scan_index (Bad_flag i) = i"

fun is_bad_flag :: "scan_end \<Rightarrow> bool" where
  "is_bad_flag (Bad_flag _) = True"
| "is_bad_flag _ = False"

text \<open>The loop from \<open>i\<close> over \<open>n\<close> nodes.\<close>

fun mtype_scan :: "mtype_node list \<Rightarrow> int \<Rightarrow> nat \<Rightarrow> nat \<Rightarrow> scan_end option" where
  "mtype_scan items now i 0 = Some (Ran_out i)"
| "mtype_scan items now i (Suc n) =
     (if length items \<le> i then None
      else if mn_flag (items ! i) = MTYPE_IDLE then Some (Found_idle i)
      else if mn_flag (items ! i) = MTYPE_USED then
        (if MTYPE_TIMEOUT < pub_time_get_space now (mn_start_time (items ! i))
         then Some (Timed_out i) else mtype_scan items now (Suc i) n)
      else if mn_flag (items ! i) = MTYPE_TAIL then Some (Hit_tail i)
      else Some (Bad_flag i))"

text \<open>The body of the loop for a session past its time: its quota is given back as a failure.\<close>

definition mtype_reclaim ::
    "scan_end \<Rightarrow> mtype_t \<Rightarrow> 'a limit_world_scheme \<Rightarrow> (mtype_t \<times> 'a limit_world_scheme) option" where
  "mtype_reclaim r t w =
     (case r of
        Timed_out i \<Rightarrow> do {
          let nd = mt_items t ! i;
          (_, w1) \<leftarrow> mtype_limit_free (Some (mn_prdt_name nd)) (Some (mn_lsn_name nd)) 0 w;
          Some (t\<lparr>mt_items := (mt_items t)[i := nd\<lparr>mn_flag := MTYPE_IDLE\<rparr>],
                  mh_fail_cnt := s32 (mh_fail_cnt t + 1), mh_cur_cnt := s16 (mh_cur_cnt t - 1)\<rparr>, w1)
        }
      | _ \<Rightarrow> Some (t, w))"

text \<open>The tail of the function: the node \<open>i\<close> becomes the new session.\<close>

definition mtype_take :: "nat \<Rightarrow> int \<Rightarrow> mtype_t \<Rightarrow> 'a mtype_world_scheme \<Rightarrow> (int \<times> 'a mtype_world_scheme) option" where
  "mtype_take i stamp t w = do {
     let nd = zero_mtype_node\<lparr>mn_flag := MTYPE_USED, mn_mtype := int i + 1, mn_start_time := stamp\<rparr>;
     let t1 = t\<lparr>mt_items := (mt_items t)[i := nd], mh_cur_cnt := s16 (mh_cur_cnt t + 1),
                mh_cur_use := s16 (int i + 1), mh_msg_cnt := s16 (mh_msg_cnt t + 1)\<rparr>;
     (_, w1) \<leftarrow> sem_mutex_unlock (mh_lock_id t) (w\<lparr>g_shm_mtype := Some t1\<rparr>);
     Some (int i + 1, w1\<lparr>vars_destroyed := vars_destroyed w1 @ [int i + 1]\<rparr>)
   }"

definition mtype_give_up :: "mtype_t \<Rightarrow> 'a mtype_world_scheme \<Rightarrow> (int \<times> 'a mtype_world_scheme) option" where
  "mtype_give_up t w = do {
     (_, w1) \<leftarrow> sem_mutex_unlock (mh_lock_id t) (w\<lparr>g_shm_mtype := Some t\<rparr>);
     Some (SW_ERROR, w1)
   }"

text \<open>\<open>now\<close> is the clock before the scan, \<open>stamp\<close> the clock when the node is filled.  The test
  of \<^verbatim>\<open>curr_index\<close> before it is assigned compares 0 with \<^verbatim>\<open>mtype_max\<close>.\<close>

definition mtype_loc_new :: "int \<Rightarrow> int \<Rightarrow> 'a mtype_world_scheme \<Rightarrow> (int \<times> 'a mtype_world_scheme) option" where
  "mtype_loc_new now stamp w =
     (case g_shm_mtype w of
        None \<Rightarrow> Some (SW_ERROR, w)
      | Some t \<Rightarrow> do {
          let mtype_max = mh_mtype_max t;
          let t0 = (if mh_cur_use t < 0 \<or> mtype_max \<le> 0 then t\<lparr>mh_cur_use := 0\<rparr> else t);
          let curr = nat (mh_cur_use t0);
          (_, w0) \<leftarrow> sem_mutex_lock (mh_lock_id t) w;
          r1 \<leftarrow> mtype_scan (mt_items t0) now curr (nat (mtype_max - int curr));
          if is_bad_flag r1 then mtype_give_up t0 w0
          else do {
            (t1, w1) \<leftarrow> mtype_reclaim r1 t0 w0;
            let i = scan_index r1;
            again \<leftarrow> (if int i = mtype_max then Some True
                      else if i < length (mt_items t1) then Some (mn_flag (mt_items t1 ! i) < 0) else None);
            if \<not> again then mtype_take i stamp t1 w1
            else do {
              r2 \<leftarrow> mtype_scan (mt_items t1) now 0 curr;
              if is_bad_flag r2 then mtype_give_up t1 w1
              else do {
                (t2, w2) \<leftarrow> mtype_reclaim r2 t1 w1;
                let j = scan_index r2;
                if length (mt_items t2) \<le> j then None
                else if mn_flag (mt_items t2 ! j) \<noteq> MTYPE_IDLE then mtype_give_up t2 w2
                else mtype_take j stamp t2 w2
              }
            }
          }
        })"

definition mtype_new :: "int \<Rightarrow> int \<Rightarrow> 'a mtype_world_scheme \<Rightarrow> (int \<times> 'a mtype_world_scheme) option" where
  "mtype_new now stamp w =
     (if g_shm_mtype w = None then Some (SW_ERROR, w)
      else do {
        (mtype, w1) \<leftarrow> mtype_loc_new now stamp w;
        if mtype \<le> 0 then Some (SW_ERROR, w1) else Some (mtype, w1)
      })"

definition mtype_loc_cur_cnt :: "'a mtype_world_scheme \<Rightarrow> int" where
  "mtype_loc_cur_cnt w = (case g_shm_mtype w of None \<Rightarrow> SW_ERROR | Some t \<Rightarrow> mh_cur_cnt t)"

definition mtype_cur_cnt :: "'a mtype_world_scheme \<Rightarrow> int" where
  "mtype_cur_cnt w = (if g_shm_mtype w = None then SW_ERROR else mtype_loc_cur_cnt w)"

definition mtype_loc_get_max :: "'a mtype_world_scheme \<Rightarrow> int" where
  "mtype_loc_get_max w =
     (case g_shm_mtype w of
        None \<Rightarrow> SW_ERROR
      | Some t \<Rightarrow> if 0 < mh_mtype_max t then mh_mtype_max t else SW_ERROR)"

definition mtype_get_max :: "'a mtype_world_scheme \<Rightarrow> int" where
  "mtype_get_max w = (if g_shm_mtype w = None then SW_ERROR else mtype_loc_get_max w)"

section \<open>Deletion\<close>

text \<open>\<open>mtype_at t m\<close>: the node \<^verbatim>\<open>first + m - 1\<close>, \<open>None\<close> outside the array.\<close>

definition mtype_at :: "mtype_t \<Rightarrow> int \<Rightarrow> mtype_node option" where
  "mtype_at t m =
     (if 1 \<le> m \<and> m \<le> int (length (mt_items t)) then Some (mt_items t ! nat (m - 1)) else None)"

definition mtype_put :: "int \<Rightarrow> mtype_node \<Rightarrow> mtype_t \<Rightarrow> mtype_t" where
  "mtype_put m nd t = t\<lparr>mt_items := (mt_items t)[nat (m - 1) := nd]\<rparr>"

text \<open>The quota is given back before the lock is taken and before the node is checked.\<close>

definition mtype_loc_delete ::
    "int \<Rightarrow> int \<Rightarrow> 'a mtype_world_scheme \<Rightarrow> (int \<times> 'a mtype_world_scheme) option" where
  "mtype_loc_delete mtype flag w =
     (case g_shm_mtype w of
        None \<Rightarrow> Some (SW_ERROR, w)
      | Some t \<Rightarrow>
          if mtype \<le> 0 then Some (SW_ERROR, w)
          else do {
            nd \<leftarrow> mtype_at t mtype;
            (_, w1) \<leftarrow> mtype_limit_free (Some (mn_prdt_name nd)) (Some (mn_lsn_name nd)) 1 w;
            (_, w2) \<leftarrow> sem_mutex_lock (mh_lock_id t) w1;
            if mn_mtype nd \<noteq> mtype \<or> mn_flag nd \<noteq> MTYPE_USED then do {
              (_, w3) \<leftarrow> sem_mutex_unlock (mh_lock_id t) w2;
              Some (SW_ERROR, w3)
            } else do {
              let t1 = mtype_put mtype (nd\<lparr>mn_flag := MTYPE_IDLE\<rparr>) t;
              let t2 = (if flag = 1 then t1\<lparr>mh_fail_cnt := s32 (mh_fail_cnt t1 + 1)\<rparr>
                        else if flag = 0 then t1\<lparr>mh_succ_cnt := s32 (mh_succ_cnt t1 + 1)\<rparr> else t1);
              let t3 = t2\<lparr>mh_cur_cnt := s16 (mh_cur_cnt t2 - 1)\<rparr>;
              (_, w3) \<leftarrow> sem_mutex_unlock (mh_lock_id t)
                 (w2\<lparr>g_shm_mtype := Some t3, vars_destroyed := vars_destroyed w2 @ [mtype]\<rparr>);
              Some (SW_OK, w3)
            }
          })"

definition mtype_delete :: "int \<Rightarrow> int \<Rightarrow> 'a mtype_world_scheme \<Rightarrow> (int \<times> 'a mtype_world_scheme) option" where
  "mtype_delete mtype flag w =
     (if g_shm_mtype w = None then Some (SW_ERROR, w) else mtype_loc_delete mtype flag w)"

text \<open>The third component of the result is what is copied to the caller: the server and the
  service of the session.\<close>

definition mtype_loc_delete_info ::
    "int \<Rightarrow> int \<Rightarrow> 'a mtype_world_scheme \<Rightarrow> (int \<times> 'a mtype_world_scheme \<times> (cstr \<times> cstr) option) option" where
  "mtype_loc_delete_info mtype flag w =
     (case g_shm_mtype w of
        None \<Rightarrow> Some (SW_ERROR, w, None)
      | Some t \<Rightarrow> do {
          (_, w1) \<leftarrow> sem_mutex_lock (mh_lock_id t) w;
          nd \<leftarrow> mtype_at t mtype;
          if mn_mtype nd \<noteq> mtype \<or> mn_flag nd \<noteq> MTYPE_USED then do {
            (_, w2) \<leftarrow> sem_mutex_unlock (mh_lock_id t) w1;
            Some (SW_ERROR, w2, None)
          } else do {
            let t1 = mtype_put mtype (zero_mtype_node\<lparr>mn_flag := MTYPE_IDLE\<rparr>) t;
            let t2 = (if flag \<noteq> 0 then t1\<lparr>mh_fail_cnt := s32 (mh_fail_cnt t1 + 1)\<rparr>
                      else t1\<lparr>mh_succ_cnt := s32 (mh_succ_cnt t1 + 1)\<rparr>);
            let t3 = t2\<lparr>mh_cur_cnt := s16 (mh_cur_cnt t2 - 1)\<rparr>;
            (_, w2) \<leftarrow> sem_mutex_unlock (mh_lock_id t) (w1\<lparr>g_shm_mtype := Some t3\<rparr>);
            Some (SW_OK, w2, Some (mn_server nd, mn_service nd))
          }
        })"

definition mtype_delete_info ::
    "int \<Rightarrow> int \<Rightarrow> 'a mtype_world_scheme \<Rightarrow> (int \<times> 'a mtype_world_scheme \<times> (cstr \<times> cstr) option) option" where
  "mtype_delete_info mtype flag w =
     (if g_shm_mtype w = None then Some (SW_ERROR, w, None) else mtype_loc_delete_info mtype flag w)"

section \<open>The invariant\<close>

text \<open>A session is \<open>busy\<close> when it is in use and not past its time.\<close>

definition stale :: "int \<Rightarrow> mtype_node \<Rightarrow> bool" where
  "stale now nd \<longleftrightarrow> MTYPE_TIMEOUT < pub_time_get_space now (mn_start_time nd)"

abbreviation (input) is_used :: "mtype_node \<Rightarrow> bool" where
  "is_used nd \<equiv> mn_flag nd = MTYPE_USED"

definition mtype_wf :: "mtype_t \<Rightarrow> bool" where
  "mtype_wf t \<longleftrightarrow>
     (let items = mt_items t; n = length items in
      1 \<le> n \<and> n \<le> 32767 \<and> mh_mtype_max t = int n \<and>
      mn_flag (items ! (n - 1)) = MTYPE_TAIL \<and>
      (\<forall>i < n - 1. mn_flag (items ! i) = MTYPE_IDLE \<or> is_used (items ! i)) \<and>
      (\<forall>i < n. is_used (items ! i) \<longrightarrow> mn_mtype (items ! i) = int i + 1) \<and>
      0 \<le> mh_cur_use t \<and> mh_cur_use t \<le> int n - 1 \<and>
      mh_cur_cnt t = int (length (filter is_used items)))"

definition limits_ok :: "'a limit_world_scheme \<Rightarrow> bool" where
  "limits_ok w \<longleftrightarrow>
     (\<forall>t. g_shm_prdt_limit w = Some t \<longrightarrow> limit_wf t) \<and> (\<forall>t. g_shm_lsn_limit w = Some t \<longrightarrow> limit_wf t)"

definition mtype_inv :: "'a mtype_world_scheme \<Rightarrow> bool" where
  "mtype_inv w \<longleftrightarrow>
     (\<exists>t. g_shm_mtype w = Some t \<and> mtype_wf t \<and> sem_free (mh_lock_id t) w) \<and> limits_ok w"

text \<open>The ids of the sessions in use.\<close>

definition mtype_live :: "mtype_t \<Rightarrow> int set" where
  "mtype_live t = {int i + 1 | i. i < length (mt_items t) \<and> is_used (mt_items t ! i)}"

lemma mtype_live_iff:
  "m \<in> mtype_live t \<longleftrightarrow>
     1 \<le> m \<and> m \<le> int (length (mt_items t)) \<and> is_used (mt_items t ! nat (m - 1))"
proof
  assume "1 \<le> m \<and> m \<le> int (length (mt_items t)) \<and> is_used (mt_items t ! nat (m - 1))"
  then show "m \<in> mtype_live t"
    unfolding mtype_live_def by (intro CollectI exI [of _ "nat (m - 1)"]) auto
qed (auto simp: mtype_live_def)

lemma mtype_wfD:
  assumes "mtype_wf t"
  shows "1 \<le> length (mt_items t)" "length (mt_items t) \<le> 32767"
    "mh_mtype_max t = int (length (mt_items t))"
    "mn_flag (mt_items t ! (length (mt_items t) - 1)) = MTYPE_TAIL"
    "i < length (mt_items t) - 1 \<Longrightarrow> mn_flag (mt_items t ! i) = MTYPE_IDLE \<or> is_used (mt_items t ! i)"
    "i < length (mt_items t) \<Longrightarrow> is_used (mt_items t ! i) \<Longrightarrow> mn_mtype (mt_items t ! i) = int i + 1"
    "0 \<le> mh_cur_use t" "mh_cur_use t \<le> int (length (mt_items t)) - 1"
    "mh_cur_cnt t = int (length (filter is_used (mt_items t)))"
  using assms by (simp_all add: mtype_wf_def Let_def)

lemma mtype_flag_cases:
  assumes "mtype_wf t" and "i < length (mt_items t)"
  shows "mn_flag (mt_items t ! i) = MTYPE_IDLE \<or> is_used (mt_items t ! i) \<or>
    (mn_flag (mt_items t ! i) = MTYPE_TAIL \<and> i = length (mt_items t) - 1)"
  using mtype_wfD(4,5) [OF assms(1)] assms(2) by (cases "i = length (mt_items t) - 1") auto

text \<open>How the scan of the nodes \<open>i..<i+n\<close> ends on a well-formed table.\<close>

fun scan_ok :: "mtype_node list \<Rightarrow> int \<Rightarrow> nat \<Rightarrow> nat \<Rightarrow> scan_end \<Rightarrow> bool" where
  "scan_ok items now i n (Found_idle j) \<longleftrightarrow> j \<in> {i..<i + n} \<and> mn_flag (items ! j) = MTYPE_IDLE"
| "scan_ok items now i n (Timed_out j) \<longleftrightarrow> j \<in> {i..<i + n} \<and> is_used (items ! j) \<and> stale now (items ! j)"
| "scan_ok items now i n (Hit_tail j) \<longleftrightarrow> j \<in> {i..<i + n} \<and> mn_flag (items ! j) = MTYPE_TAIL \<and>
     (\<forall>k \<in> {i..<j}. is_used (items ! k) \<and> \<not> stale now (items ! k))"
| "scan_ok items now i n (Ran_out j) \<longleftrightarrow> j = i + n \<and>
     (\<forall>k \<in> {i..<j}. is_used (items ! k) \<and> \<not> stale now (items ! k))"
| "scan_ok items now i n (Bad_flag j) \<longleftrightarrow> False"

lemma scan_ok_step:
  assumes "is_used (items ! i) \<and> \<not> stale now (items ! i)" and "scan_ok items now (Suc i) n r"
  shows "scan_ok items now i (Suc n) r"
proof -
  have "{i..<j} = insert i {Suc i..<j}" if "i < j" for j
    using that by auto
  then show ?thesis
    using assms by (cases r) (auto simp del: atLeastLessThan_iff simp: atLeastLessThan_iff [of _ _ "Suc (i + n)"] atLeastLessThan_iff [of _ _ "i + Suc n"])
qed

lemma mtype_scan_spec:
  assumes "\<And>k. k \<in> {i..<i + n} \<Longrightarrow> k < length items \<and>
      (mn_flag (items ! k) = MTYPE_IDLE \<or> is_used (items ! k) \<or> mn_flag (items ! k) = MTYPE_TAIL)"
  shows "\<exists>r. mtype_scan items now i n = Some r \<and> scan_ok items now i n r"
  using assms
proof (induction n arbitrary: i)
  case 0
  then show ?case by simp
next
  case (Suc n)
  from Suc.prems [of i] have i: "i < length items"
    "mn_flag (items ! i) = MTYPE_IDLE \<or> is_used (items ! i) \<or> mn_flag (items ! i) = MTYPE_TAIL" by auto
  show ?case
  proof (cases "is_used (items ! i) \<and> \<not> stale now (items ! i)")
    case True
    obtain r where "mtype_scan items now (Suc i) n = Some r" "scan_ok items now (Suc i) n r"
      using Suc.IH [of "Suc i"] Suc.prems by auto
    moreover have "mtype_scan items now i (Suc n) = mtype_scan items now (Suc i) n"
      using True i by (simp add: stale_def)
    ultimately show ?thesis
      using scan_ok_step [OF True] by auto
  next
    case False
    with i have "mtype_scan items now i (Suc n) =
        Some (if mn_flag (items ! i) = MTYPE_IDLE then Found_idle i
              else if is_used (items ! i) then Timed_out i else Hit_tail i)"
      by (auto simp: stale_def)
    with False i show ?thesis by auto
  qed
qed

lemma limit_leave_total:
  "limit_wf t \<Longrightarrow> \<exists>t'. limit_leave nm success t = Some t' \<and> limit_wf t'"
  using limit_leave_lookup [of t "the nm" success]
  by (cases nm) (auto simp: limit_leave_def)

lemma limit_free_ok:
  assumes "limits_ok w"
  shows "\<exists>r a b. (\<forall>K. mtype_limit_free p l success (w\<lparr>kernel_sems := K\<rparr>) =
      Some (r, w\<lparr>kernel_sems := K, g_shm_prdt_limit := a, g_shm_lsn_limit := b\<rparr>)) \<and>
    (\<forall>t. a = Some t \<longrightarrow> limit_wf t) \<and> (\<forall>t. b = Some t \<longrightarrow> limit_wf t)"
proof (cases "g_shm_prdt_limit w")
  case None
  with assms show ?thesis
    by (intro exI [of _ SW_ERROR] exI [of _ None] exI [of _ "g_shm_lsn_limit w"])
      (cases w; auto simp: mtype_limit_free_def limits_ok_def limit_world.defs)
next
  case (Some pt)
  show ?thesis
  proof (cases "g_shm_lsn_limit w")
    case None
    with Some assms show ?thesis
      by (intro exI [of _ SW_ERROR] exI [of _ "Some pt"] exI [of _ None])
        (cases w; auto simp: mtype_limit_free_def limits_ok_def limit_world.defs)
  next
    case (Some lt)
    with \<open>g_shm_prdt_limit w = Some pt\<close> assms obtain pt' lt'
      where "limit_leave p success pt = Some pt'" "limit_wf pt'"
        "limit_leave l success lt = Some lt'" "limit_wf lt'"
      using limit_leave_total [of pt p success] limit_leave_total [of lt l success]
      by (auto simp: limits_ok_def)
    with Some \<open>g_shm_prdt_limit w = Some pt\<close> show ?thesis
      by (intro exI [of _ SW_OK] exI [of _ "Some pt'"] exI [of _ "Some lt'"])
        (simp add: mtype_limit_free_def)
  qed
qed

section \<open>Allocation under the invariant\<close>

abbreviation (input) with_tables ::
    "mtype_limit_t option \<Rightarrow> mtype_limit_t option \<Rightarrow> mtype_t option \<Rightarrow> 'a mtype_world_scheme \<Rightarrow> 'a mtype_world_scheme" where
  "with_tables a b x w \<equiv> w\<lparr>g_shm_prdt_limit := a, g_shm_lsn_limit := b, g_shm_mtype := x\<rparr>"

lemma sem_took_kernel: "\<exists>K. sem_took n lid w = w\<lparr>kernel_sems := K\<rparr>"
proof (cases "sem_took n lid w = w")
  case True
  then show ?thesis by (intro exI [of _ "kernel_sems w"]) simp
next
  case False
  then show ?thesis by (auto simp: sem_took_def split: option.splits)
qed

lemma mtype_release:
  assumes "sem_free lid w"
  shows "sem_mutex_unlock lid (with_tables a b x (sem_took SEM_VALUE lid w)) = Some (0, with_tables a b x w)"
  by (rule sem_release_took(1) [OF assms, of "with_tables a b x"]) (simp add: sem_frame_def)

fun reclaimed :: "scan_end \<Rightarrow> mtype_t \<Rightarrow> mtype_t" where
  "reclaimed (Timed_out i) t =
     t\<lparr>mt_items := (mt_items t)[i := (mt_items t ! i)\<lparr>mn_flag := MTYPE_IDLE\<rparr>],
       mh_fail_cnt := s32 (mh_fail_cnt t + 1), mh_cur_cnt := s16 (mh_cur_cnt t - 1)\<rparr>"
| "reclaimed (Found_idle i) t = t"
| "reclaimed (Hit_tail i) t = t"
| "reclaimed (Ran_out i) t = t"
| "reclaimed (Bad_flag i) t = t"

lemma mtype_reclaim_ok:
  assumes "limits_ok w"
  shows "\<exists>a b. mtype_reclaim r t (sem_took n lid w) =
      Some (reclaimed r t, (sem_took n lid w)\<lparr>g_shm_prdt_limit := a, g_shm_lsn_limit := b\<rparr>) \<and>
    limits_ok (w\<lparr>g_shm_prdt_limit := a, g_shm_lsn_limit := b\<rparr>)"
proof (cases "\<exists>i. r = Timed_out i")
  case True
  then obtain i where r: "r = Timed_out i" by blast
  obtain K where K: "sem_took n lid w = w\<lparr>kernel_sems := K\<rparr>" using sem_took_kernel by blast
  obtain rc a b where "mtype_limit_free (Some (mn_prdt_name (mt_items t ! i)))
        (Some (mn_lsn_name (mt_items t ! i))) 0 (w\<lparr>kernel_sems := K\<rparr>) =
      Some (rc, w\<lparr>kernel_sems := K, g_shm_prdt_limit := a, g_shm_lsn_limit := b\<rparr>)"
    "\<forall>t. a = Some t \<longrightarrow> limit_wf t" "\<forall>t. b = Some t \<longrightarrow> limit_wf t"
    using limit_free_ok [OF assms, of "Some (mn_prdt_name (mt_items t ! i))"
        "Some (mn_lsn_name (mt_items t ! i))" 0] by blast
  then show ?thesis
    by (intro exI [of _ a] exI [of _ b]) (simp add: mtype_reclaim_def r K limits_ok_def)
next
  case False
  obtain K where K: "sem_took n lid w = w\<lparr>kernel_sems := K\<rparr>" using sem_took_kernel by blast
  from False have "mtype_reclaim r t (sem_took n lid w) = Some (reclaimed r t, sem_took n lid w)"
    by (cases r) (auto simp: mtype_reclaim_def)
  then show ?thesis
    using assms by (intro exI [of _ "g_shm_prdt_limit w"] exI [of _ "g_shm_lsn_limit w"]) (simp add: K)
qed

lemma mtype_wf_put:
  assumes wf: "mtype_wf t" and i: "i < length (mt_items t) - 1"
    and nd: "is_used nd \<and> mn_mtype nd = int i + 1 \<or> mn_flag nd = MTYPE_IDLE"
    and t': "mt_items t' = (mt_items t)[i := nd]" "mh_mtype_max t' = mh_mtype_max t"
      "0 \<le> mh_cur_use t'" "mh_cur_use t' \<le> int (length (mt_items t)) - 1"
      "mh_cur_cnt t' = mh_cur_cnt t + of_bool (is_used nd) - of_bool (is_used (mt_items t ! i))"
  shows "mtype_wf t'"
    and "mtype_live t' = (if is_used nd then insert (int i + 1) (mtype_live t) else mtype_live t - {int i + 1})"
proof -
  have len: "length (mt_items t') = length (mt_items t)" by (simp add: t')
  have cnt: "int (length (filter is_used (mt_items t'))) =
      int (length (filter is_used (mt_items t))) + of_bool (is_used nd) - of_bool (is_used (mt_items t ! i))"
    using length_filter_update [of i "mt_items t" is_used nd] i by (auto simp: t')
  show "mtype_wf t'"
    using mtype_wfD [OF wf] i nd t' cnt
    by (auto simp: mtype_wf_def Let_def nth_list_update)
  have "m \<in> mtype_live t' \<longleftrightarrow> (if m = int i + 1 then is_used nd else m \<in> mtype_live t)" for m
  proof (cases "m = int i + 1")
    case True
    then show ?thesis using i by (auto simp: mtype_live_iff t')
  next
    case False
    then have "1 \<le> m \<Longrightarrow> i \<noteq> nat (m - 1)" by linarith
    with False show ?thesis by (auto simp: mtype_live_iff t')
  qed
  then show "mtype_live t' = (if is_used nd then insert (int i + 1) (mtype_live t) else mtype_live t - {int i + 1})"
    by (cases "is_used nd") (simp_all add: set_eq_iff)
qed

lemma used_count_pos:
  assumes "i < length xs" "p (xs ! i)"
  shows "0 < length (filter p xs)"
  using assms by (metis filter_empty_conv length_greater_0_conv nth_mem)

lemma mtype_count_room:
  assumes "mtype_wf t"
  shows "0 \<le> mh_cur_cnt t" "mh_cur_cnt t < int (length (mt_items t))"
proof -
  let ?n = "length (mt_items t)"
  have "\<not> is_used (mt_items t ! (?n - 1))" "?n - 1 < ?n"
    using mtype_wfD(1,4) [OF assms] by auto
  then have "0 < length (filter (\<lambda>x. \<not> is_used x) (mt_items t))"
    by (rule used_count_pos [rotated])
  then have "length (filter is_used (mt_items t)) < ?n"
    using sum_length_filter_compl [of is_used "mt_items t"] by linarith
  then show "0 \<le> mh_cur_cnt t" "mh_cur_cnt t < int ?n"
    using mtype_wfD(9) [OF assms] by auto
qed

lemma used_below_tail:
  assumes "mtype_wf t" "i < length (mt_items t)" "is_used (mt_items t ! i) \<or> mn_flag (mt_items t ! i) = MTYPE_IDLE"
  shows "i < length (mt_items t) - 1"
  using mtype_wfD(4) [OF assms(1)] assms(2,3) by (cases "i = length (mt_items t) - 1") auto

lemma reclaimed_wf:
  assumes wf: "mtype_wf t" and i: "i < length (mt_items t)" "is_used (mt_items t ! i)"
  shows "mtype_wf (reclaimed (Timed_out i) t)"
    and "mtype_live (reclaimed (Timed_out i) t) = mtype_live t - {int i + 1}"
proof -
  have "0 < mh_cur_cnt t" using used_count_pos [of i "mt_items t" is_used] i mtype_wfD(9) [OF wf] by simp
  then have "s16 (mh_cur_cnt t - 1) = mh_cur_cnt t - 1"
    using mtype_count_room [OF wf] mtype_wfD(2) [OF wf] by (intro s16_id) auto
  then show "mtype_wf (reclaimed (Timed_out i) t)"
    and "mtype_live (reclaimed (Timed_out i) t) = mtype_live t - {int i + 1}"
    using mtype_wf_put [OF wf used_below_tail [OF wf i(1)], of "(mt_items t ! i)\<lparr>mn_flag := MTYPE_IDLE\<rparr>"
        "reclaimed (Timed_out i) t"] i mtype_wfD(7,8) [OF wf] by simp_all
qed

text \<open>The table after \<open>mtype_take\<close>, and what the fresh session looks like.\<close>

definition fresh_node :: "nat \<Rightarrow> int \<Rightarrow> mtype_node" where
  "fresh_node i stamp = zero_mtype_node\<lparr>mn_flag := MTYPE_USED, mn_mtype := int i + 1, mn_start_time := stamp\<rparr>"

definition filled :: "nat \<Rightarrow> int \<Rightarrow> mtype_t \<Rightarrow> mtype_t" where
  "filled i stamp t =
     t\<lparr>mt_items := (mt_items t)[i := fresh_node i stamp], mh_cur_cnt := s16 (mh_cur_cnt t + 1),
       mh_cur_use := s16 (int i + 1), mh_msg_cnt := s16 (mh_msg_cnt t + 1)\<rparr>"

lemma filled_wf:
  assumes wf: "mtype_wf t" and i: "i < length (mt_items t)" "mn_flag (mt_items t ! i) = MTYPE_IDLE"
  shows "mtype_wf (filled i stamp t)"
    and "mtype_live (filled i stamp t) = insert (int i + 1) (mtype_live t)"
proof -
  have i': "i < length (mt_items t) - 1" using used_below_tail [OF wf i(1)] i(2) by simp
  have "s16 (mh_cur_cnt t + 1) = mh_cur_cnt t + 1" "s16 (int i + 1) = int i + 1"
    using mtype_count_room [OF wf] mtype_wfD(2) [OF wf] i' by (auto intro: s16_id)
  then show "mtype_wf (filled i stamp t)"
    and "mtype_live (filled i stamp t) = insert (int i + 1) (mtype_live t)"
    using mtype_wf_put [OF wf i', of "fresh_node i stamp" "filled i stamp t"] i i'
    by (simp_all add: filled_def fresh_node_def)
qed

lemma mtype_take_ok:
  assumes "sem_free (mh_lock_id t) w"
  shows "mtype_take i stamp t ((sem_took SEM_VALUE (mh_lock_id t) w)\<lparr>g_shm_prdt_limit := a, g_shm_lsn_limit := b\<rparr>) =
    Some (int i + 1, (with_tables a b (Some (filled i stamp t)) w)\<lparr>vars_destroyed := vars_destroyed w @ [int i + 1]\<rparr>)"
  using mtype_release [OF assms, of "Some (filled i stamp t)" b a]
  by (simp add: mtype_take_def filled_def fresh_node_def)

lemma mtype_give_up_ok:
  assumes "sem_free (mh_lock_id t) w" "g_shm_mtype w = Some t"
  shows "mtype_give_up t (sem_took SEM_VALUE (mh_lock_id t) w) = Some (SW_ERROR, w)"
proof -
  let ?w = "sem_took SEM_VALUE (mh_lock_id t) w"
  obtain K where K: "?w = w\<lparr>kernel_sems := K\<rparr>" using sem_took_kernel by blast
  have "?w\<lparr>g_shm_mtype := Some t\<rparr> = ?w" using assms(2) unfolding K by (cases w) simp
  then show ?thesis
    using mutex.held_then_freed [OF assms(1)] by (simp add: mtype_give_up_def)
qed

text \<open>The two possible outcomes of an allocation.\<close>

definition table_full :: "int \<Rightarrow> mtype_t \<Rightarrow> bool" where
  "table_full now t \<longleftrightarrow>
     (\<forall>k < length (mt_items t) - 1. is_used (mt_items t ! k) \<and> \<not> stale now (mt_items t ! k))"

definition allocated ::
    "int \<Rightarrow> int \<Rightarrow> mtype_t \<Rightarrow> 'a mtype_world_scheme \<Rightarrow> int \<times> 'a mtype_world_scheme \<Rightarrow> bool" where
  "allocated now stamp t w rw \<longleftrightarrow>
     (\<exists>i a b t1. i < length (mt_items t) \<and>
        (mn_flag (mt_items t ! i) = MTYPE_IDLE \<and> t1 = t \<or>
         is_used (mt_items t ! i) \<and> stale now (mt_items t ! i) \<and> t1 = reclaimed (Timed_out i) t) \<and>
        limits_ok (w\<lparr>g_shm_prdt_limit := a, g_shm_lsn_limit := b\<rparr>) \<and>
        rw = (int i + 1, (with_tables a b (Some (filled i stamp t1)) w)
                           \<lparr>vars_destroyed := vars_destroyed w @ [int i + 1]\<rparr>))"

lemma scan_then_take:
  assumes free: "sem_free (mh_lock_id t) w" and lim: "limits_ok w" and r: "scan_ok (mt_items t) now s n r"
    and len: "s + n \<le> length (mt_items t)" and hit: "(\<exists>i. r = Found_idle i) \<or> (\<exists>i. r = Timed_out i)"
  shows "\<exists>t1 w1 i rw. mtype_reclaim r t (sem_took SEM_VALUE (mh_lock_id t) w) = Some (t1, w1) \<and>
    i = scan_index r \<and> i < length (mt_items t1) \<and> i < s + n \<and> mn_flag (mt_items t1 ! i) = MTYPE_IDLE \<and>
    mtype_take i stamp t1 w1 = Some rw \<and> allocated now stamp t w rw"
proof -
  let ?i = "scan_index r"
  have i: "?i < s + n" "?i < length (mt_items t)" using r len hit by auto
  obtain a b where rec: "mtype_reclaim r t (sem_took SEM_VALUE (mh_lock_id t) w) =
      Some (reclaimed r t, (sem_took SEM_VALUE (mh_lock_id t) w)\<lparr>g_shm_prdt_limit := a, g_shm_lsn_limit := b\<rparr>)"
    and ok: "limits_ok (w\<lparr>g_shm_prdt_limit := a, g_shm_lsn_limit := b\<rparr>)"
    using mtype_reclaim_ok [OF lim] by blast
  have lid: "mh_lock_id (reclaimed r t) = mh_lock_id t" by (cases r) simp_all
  have idle: "?i < length (mt_items (reclaimed r t))" "mn_flag (mt_items (reclaimed r t) ! ?i) = MTYPE_IDLE"
    using r i hit by auto
  have take: "mtype_take ?i stamp (reclaimed r t)
      ((sem_took SEM_VALUE (mh_lock_id t) w)\<lparr>g_shm_prdt_limit := a, g_shm_lsn_limit := b\<rparr>) =
    Some (int ?i + 1, (with_tables a b (Some (filled ?i stamp (reclaimed r t))) w)
        \<lparr>vars_destroyed := vars_destroyed w @ [int ?i + 1]\<rparr>)"
    using mtype_take_ok [of "reclaimed r t" w] free by (simp add: lid)
  have "allocated now stamp t w (int ?i + 1, (with_tables a b (Some (filled ?i stamp (reclaimed r t))) w)
        \<lparr>vars_destroyed := vars_destroyed w @ [int ?i + 1]\<rparr>)"
    unfolding allocated_def using r hit i ok
    by (intro exI [of _ ?i] exI [of _ a] exI [of _ b] exI [of _ "reclaimed r t"]) auto
  with rec idle i take show ?thesis by blast
qed

lemma mtype_loc_new_outcome:
  assumes inv: "mtype_inv w" and t: "g_shm_mtype w = Some t"
  shows "table_full now t \<and> mtype_loc_new now stamp w = Some (SW_ERROR, w) \<or>
    (\<exists>rw. mtype_loc_new now stamp w = Some rw \<and> allocated now stamp t w rw)"
proof -
  let ?n = "length (mt_items t)"
  let ?w = "sem_took SEM_VALUE (mh_lock_id t) w"
  from inv t have wf: "mtype_wf t" and free: "sem_free (mh_lock_id t) w" and lim: "limits_ok w"
    by (auto simp: mtype_inv_def)
  note wfD = mtype_wfD [OF wf]
  obtain c where c: "mh_cur_use t = int c" "c < ?n"
    using wfD(1,7,8) by (metis zero_le_imp_eq_int of_nat_less_iff zle_diff1_eq)
  then have c3: "nat (int ?n - int c) = ?n - c" and ne: "mt_items t \<noteq> []" by auto
  have t0: "(if mh_cur_use t < 0 \<or> mh_mtype_max t \<le> 0 then t\<lparr>mh_cur_use := 0\<rparr> else t) = t"
    using wfD(1,3,7) by auto
  then have t0: "(if int c < 0 \<or> int ?n \<le> 0 then t\<lparr>mh_cur_use := 0\<rparr> else t) = t"
    by (simp only: c(1) wfD(3))
  have flags: "k < ?n \<and> (mn_flag (mt_items t ! k) = MTYPE_IDLE \<or> is_used (mt_items t ! k) \<or>
      mn_flag (mt_items t ! k) = MTYPE_TAIL)" if "k < ?n" for k
    using mtype_flag_cases [OF wf that] that by blast
  obtain r1 where r1: "mtype_scan (mt_items t) now c (?n - c) = Some r1"
      "scan_ok (mt_items t) now c (?n - c) r1"
    using mtype_scan_spec [of c "?n - c" "mt_items t" now] flags c(2) by auto
  obtain r2 where r2: "mtype_scan (mt_items t) now 0 c = Some r2" "scan_ok (mt_items t) now 0 c r2"
    using mtype_scan_spec [of 0 c "mt_items t" now] flags c(2) by auto
  note unf = mtype_loc_new_def t Let_def t0 c(1) c3 ne wfD(3) nat_int sem_acquire_free(1) [OF free] r1(1)
  show ?thesis
  proof (cases "(\<exists>i. r1 = Found_idle i) \<or> (\<exists>i. r1 = Timed_out i)")
    case True
    from scan_then_take [OF free lim r1(2) _ True, of stamp] obtain t1 w1 rw where
      "mtype_reclaim r1 t ?w = Some (t1, w1)" "scan_index r1 < length (mt_items t1)"
      "scan_index r1 < ?n" "mn_flag (mt_items t1 ! scan_index r1) = MTYPE_IDLE"
      "mtype_take (scan_index r1) stamp t1 w1 = Some rw" and al: "allocated now stamp t w rw"
      using c(2) by auto
    moreover have "\<not> is_bad_flag r1" using True by auto
    ultimately have "mtype_loc_new now stamp w = Some rw" by (simp add: unf)
    with al show ?thesis by blast
  next
    case False
    have tail: "mn_flag (mt_items t ! (?n - 1)) = MTYPE_TAIL" "?n - 1 < ?n" "c \<le> ?n - 1"
      using wfD(1,4) c(2) by auto
    have r1t: "r1 = Hit_tail (?n - 1)"
    proof (cases r1)
      case (Hit_tail j)
      with r1(2) c(2) have j: "j < ?n" "mn_flag (mt_items t ! j) = MTYPE_TAIL" by auto
      then have "\<not> j < ?n - 1" using wfD(5) [of j] by auto
      with j(1) Hit_tail show ?thesis by auto
    next
      case (Ran_out j)
      with r1(2) c(2) tail have "is_used (mt_items t ! (?n - 1))" by auto
      with tail show ?thesis by simp
    qed (use False r1(2) in auto)
    have first: "mtype_reclaim r1 t ?w = Some (t, ?w)" "\<not> is_bad_flag r1" "scan_index r1 = ?n - 1"
        "int (?n - 1) \<noteq> mh_mtype_max t" "mn_flag (mt_items t ! (?n - 1)) < 0"
      using tail wfD(1,3) by (auto simp: r1t mtype_reclaim_def)
    have nbad: "\<not> is_bad_flag r2" using r2(2) by (cases r2) auto
    show ?thesis
    proof (cases "(\<exists>i. r2 = Found_idle i) \<or> (\<exists>i. r2 = Timed_out i)")
      case True
      from scan_then_take [OF free lim r2(2) _ True, of stamp] obtain t1 w1 rw where
        "mtype_reclaim r2 t ?w = Some (t1, w1)" "scan_index r2 < length (mt_items t1)"
        "mn_flag (mt_items t1 ! scan_index r2) = MTYPE_IDLE"
        "mtype_take (scan_index r2) stamp t1 w1 = Some rw" and al: "allocated now stamp t w rw"
        using c(2) by auto
      then have "mtype_loc_new now stamp w = Some rw" using first nbad tail(2) r2(1) by (simp add: unf)
      with al show ?thesis by blast
    next
      case False
      have r2r: "r2 = Ran_out c"
      proof (cases r2)
        case (Hit_tail j)
        with r2(2) tail(3) have "j < ?n - 1" "mn_flag (mt_items t ! j) = MTYPE_TAIL" by auto
        with wfD(5) [of j] show ?thesis by auto
      qed (use False r2(2) in auto)
      have "mn_flag (mt_items t ! c) \<noteq> MTYPE_IDLE"
        using r1(2) tail by (cases "c = ?n - 1") (auto simp: r1t)
      moreover have "mtype_reclaim r2 t ?w = Some (t, ?w)" by (simp add: r2r mtype_reclaim_def)
      moreover have "table_full now t"
        unfolding table_full_def
      proof (intro allI impI)
        fix k assume "k < ?n - 1"
        then show "is_used (mt_items t ! k) \<and> \<not> stale now (mt_items t ! k)"
          using r1(2) r2(2) by (cases "k < c") (auto simp: r1t r2r)
      qed
      ultimately show ?thesis
        using first nbad tail(2) r2(1) c(2) mtype_give_up_ok [OF free t] by (simp add: unf r2r)
    qed
  qed
qed

lemma mtype_new_summary:
  assumes "mtype_inv w" and "g_shm_mtype w = Some t"
  shows "\<exists>r w'. mtype_new now stamp w = Some (r, w') \<and> mtype_inv w' \<and>
    (if table_full now t then r = SW_ERROR \<and> w' = w
     else \<exists>t'. g_shm_mtype w' = Some t' \<and> 1 \<le> r \<and> r < int (length (mt_items t)) \<and>
       (r \<in> mtype_live t \<longrightarrow> stale now (mt_items t ! nat (r - 1))) \<and>
       mtype_live t' = insert r (mtype_live t) \<and>
       (\<forall>k. int k + 1 \<noteq> r \<longrightarrow> mt_items t' ! k = mt_items t ! k) \<and>
       mt_items t' ! nat (r - 1) = fresh_node (nat (r - 1)) stamp)"
proof (cases "table_full now t")
  case True
  have "\<not> allocated now stamp t w rw" for rw
  proof
    assume "allocated now stamp t w rw"
    then obtain i where i: "i < length (mt_items t)" "mn_flag (mt_items t ! i) = MTYPE_IDLE \<or>
        is_used (mt_items t ! i) \<and> stale now (mt_items t ! i)"
      by (auto simp: allocated_def)
    with assms have "i < length (mt_items t) - 1"
      by (intro used_below_tail) (auto simp: mtype_inv_def)
    with True i show False by (auto simp: table_full_def)
  qed
  with mtype_loc_new_outcome [OF assms, of now stamp] assms True show ?thesis
    by (auto simp: mtype_new_def)
next
  case False
  with mtype_loc_new_outcome [OF assms, of now stamp]
  obtain rw where new: "mtype_loc_new now stamp w = Some rw" and al: "allocated now stamp t w rw" by blast
  from assms have wf: "mtype_wf t" and free: "sem_free (mh_lock_id t) w" by (auto simp: mtype_inv_def)
  from al obtain i a b t1 where i: "i < length (mt_items t)"
    and t1: "mn_flag (mt_items t ! i) = MTYPE_IDLE \<and> t1 = t \<or>
       is_used (mt_items t ! i) \<and> stale now (mt_items t ! i) \<and> t1 = reclaimed (Timed_out i) t"
    and lim: "limits_ok (w\<lparr>g_shm_prdt_limit := a, g_shm_lsn_limit := b\<rparr>)"
    and rw: "rw = (int i + 1, (with_tables a b (Some (filled i stamp t1)) w)
                           \<lparr>vars_destroyed := vars_destroyed w @ [int i + 1]\<rparr>)"
    by (auto simp: allocated_def)
  have i': "i < length (mt_items t) - 1" using t1 by (intro used_below_tail [OF wf i]) auto
  have "mtype_wf t1 \<and> insert (int i + 1) (mtype_live t1) = insert (int i + 1) (mtype_live t) \<and>
      i < length (mt_items t1) \<and> mn_flag (mt_items t1 ! i) = MTYPE_IDLE \<and> mh_lock_id t1 = mh_lock_id t \<and>
      (\<forall>k. k \<noteq> i \<longrightarrow> mt_items t1 ! k = mt_items t ! k)"
    using t1
  proof (elim disjE conjE)
    assume "mn_flag (mt_items t ! i) = MTYPE_IDLE" "t1 = t"
    then show ?thesis using wf i by simp
  next
    assume "is_used (mt_items t ! i)" "t1 = reclaimed (Timed_out i) t"
    then show ?thesis using i reclaimed_wf [OF wf i] by simp
  qed
  then have t1': "mtype_wf t1" "insert (int i + 1) (mtype_live t1) = insert (int i + 1) (mtype_live t)"
      "i < length (mt_items t1)" "mn_flag (mt_items t1 ! i) = MTYPE_IDLE" "mh_lock_id t1 = mh_lock_id t"
      "\<And>k. k \<noteq> i \<Longrightarrow> mt_items t1 ! k = mt_items t ! k"
    by simp_all
  have lid: "mh_lock_id (filled i stamp t1) = mh_lock_id t" by (simp add: filled_def t1')
  have frame: "sem_free lid (snd rw) = sem_free lid w" for lid
    by (rule sem_free_cong) (simp_all add: rw)
  have "mtype_inv (snd rw)"
    using filled_wf(1) [OF t1'(1,3,4), of stamp] lim free frame lid by (simp add: mtype_inv_def limits_ok_def rw)
  moreover have "mtype_new now stamp w = Some rw"
    using new assms(2) by (simp add: mtype_new_def rw)
  moreover have "g_shm_mtype (snd rw) = Some (filled i stamp t1)" by (simp add: rw)
  moreover have "int i + 1 \<in> mtype_live t \<longrightarrow> stale now (mt_items t ! i)"
    using t1 by (auto simp: mtype_live_iff)
  moreover have "mtype_live (filled i stamp t1) = insert (int i + 1) (mtype_live t)"
    using filled_wf(2) [OF t1'(1,3,4)] t1'(2) by simp
  moreover have "\<forall>k. int k + 1 \<noteq> int i + 1 \<longrightarrow> mt_items (filled i stamp t1) ! k = mt_items t ! k"
      "mt_items (filled i stamp t1) ! i = fresh_node i stamp"
    using t1'(3,6) by (simp_all add: filled_def)
  ultimately show ?thesis
    using False i' by (intro exI [of _ "int i + 1"] exI [of _ "snd rw"]) (simp add: rw)
qed

text \<open>C2: Allocation of a session.  On a well-formed table with its lock free, \<open>mtype_new\<close> returns.
  It fails exactly when every allocatable node holds a session that is not past its time, and then it
  changes nothing.  Otherwise it returns the id of a node that was idle, or whose session was past its time; the
  live sessions are the old ones plus this one, every other node keeps its contents, the node is
  cleared, and the table, its counters and both quota tables are well formed again with the lock free.\<close>

theorem session_allocation:
  assumes "mtype_inv w" and "g_shm_mtype w = Some t"
  shows "\<exists>r w'. mtype_new now stamp w = Some (r, w') \<and> mtype_inv w' \<and>
    (if table_full now t then r = SW_ERROR \<and> w' = w
     else \<exists>t'. g_shm_mtype w' = Some t' \<and> 1 \<le> r \<and> r < int (length (mt_items t)) \<and>
       (r \<in> mtype_live t \<longrightarrow> stale now (mt_items t ! nat (r - 1))) \<and>
       mtype_live t' = insert r (mtype_live t) \<and>
       (\<forall>k. int k + 1 \<noteq> r \<longrightarrow> mt_items t' ! k = mt_items t ! k) \<and>
       mt_items t' ! nat (r - 1) = fresh_node (nat (r - 1)) stamp)"
  by (rule mtype_new_summary [OF assms])

section \<open>Deletion under the invariant\<close>

lemma mtype_release_destroy:
  assumes "sem_free lid w"
  shows "sem_mutex_unlock lid ((sem_took SEM_VALUE lid w)\<lparr>g_shm_mtype := x, vars_destroyed := ds\<rparr>) =
    Some (0, w\<lparr>g_shm_mtype := x, vars_destroyed := ds\<rparr>)"
  by (rule sem_release_took(1) [OF assms, of "\<lambda>w. w\<lparr>g_shm_mtype := x, vars_destroyed := ds\<rparr>"])
    (simp add: sem_frame_def)

definition removed :: "int \<Rightarrow> int \<Rightarrow> mtype_t \<Rightarrow> mtype_t" where
  "removed m flag t =
     t\<lparr>mt_items := (mt_items t)[nat (m - 1) := (mt_items t ! nat (m - 1))\<lparr>mn_flag := MTYPE_IDLE\<rparr>],
       mh_fail_cnt := (if flag = 1 then s32 (mh_fail_cnt t + 1) else mh_fail_cnt t),
       mh_succ_cnt := (if flag = 0 then s32 (mh_succ_cnt t + 1) else mh_succ_cnt t),
       mh_cur_cnt := s16 (mh_cur_cnt t - 1)\<rparr>"

lemma removed_wf:
  assumes wf: "mtype_wf t" and m: "m \<in> mtype_live t"
  shows "mtype_wf (removed m flag t)" and "mtype_live (removed m flag t) = mtype_live t - {m}"
proof -
  let ?i = "nat (m - 1)"
  from m have i: "?i < length (mt_items t)" "is_used (mt_items t ! ?i)" "int ?i + 1 = m"
    by (auto simp: mtype_live_iff)
  have "0 < mh_cur_cnt t" using used_count_pos [of ?i "mt_items t" is_used] i mtype_wfD(9) [OF wf] by simp
  then have "s16 (mh_cur_cnt t - 1) = mh_cur_cnt t - 1"
    using mtype_count_room [OF wf] mtype_wfD(2) [OF wf] by (intro s16_id) auto
  then show "mtype_wf (removed m flag t)" and "mtype_live (removed m flag t) = mtype_live t - {m}"
    using mtype_wf_put [OF wf used_below_tail [OF wf i(1)], of "(mt_items t ! ?i)\<lparr>mn_flag := MTYPE_IDLE\<rparr>"
        "removed m flag t"] i mtype_wfD(7,8) [OF wf] by (simp_all add: removed_def)
qed

lemma mtype_loc_delete_outcome:
  assumes inv: "mtype_inv w" and t: "g_shm_mtype w = Some t" and m: "1 \<le> m" "m \<le> int (length (mt_items t))"
  shows "\<exists>rc a b. mtype_limit_free (Some (mn_prdt_name (mt_items t ! nat (m - 1))))
        (Some (mn_lsn_name (mt_items t ! nat (m - 1)))) 1 w = Some (rc, w\<lparr>g_shm_prdt_limit := a, g_shm_lsn_limit := b\<rparr>) \<and>
      limits_ok (w\<lparr>g_shm_prdt_limit := a, g_shm_lsn_limit := b\<rparr>) \<and>
      mtype_loc_delete m flag w =
        (if m \<in> mtype_live t
         then Some (SW_OK, w\<lparr>g_shm_prdt_limit := a, g_shm_lsn_limit := b, g_shm_mtype := Some (removed m flag t),
                vars_destroyed := vars_destroyed w @ [m]\<rparr>)
         else Some (SW_ERROR, w\<lparr>g_shm_prdt_limit := a, g_shm_lsn_limit := b\<rparr>))"
proof -
  let ?nd = "mt_items t ! nat (m - 1)"
  from inv t have wf: "mtype_wf t" and free: "sem_free (mh_lock_id t) w" and lim: "limits_ok w"
    by (auto simp: mtype_inv_def)
  obtain rc a b where lf: "mtype_limit_free (Some (mn_prdt_name ?nd)) (Some (mn_lsn_name ?nd)) 1
        (w\<lparr>kernel_sems := kernel_sems w\<rparr>) =
      Some (rc, w\<lparr>kernel_sems := kernel_sems w, g_shm_prdt_limit := a, g_shm_lsn_limit := b\<rparr>)"
    "\<forall>t. a = Some t \<longrightarrow> limit_wf t" "\<forall>t. b = Some t \<longrightarrow> limit_wf t"
    using limit_free_ok [OF lim, of "Some (mn_prdt_name ?nd)" "Some (mn_lsn_name ?nd)" 1] by blast
  let ?w = "w\<lparr>g_shm_prdt_limit := a, g_shm_lsn_limit := b\<rparr>"
  have free': "sem_free (mh_lock_id t) ?w"
    using free by (subst sem_free_cong) simp_all
  obtain K where K: "sem_took SEM_VALUE (mh_lock_id t) ?w = ?w\<lparr>kernel_sems := K\<rparr>" using sem_took_kernel by blast
  have at: "mtype_at t m = Some ?nd" using m by (simp add: mtype_at_def)
  have used: "mn_mtype ?nd \<noteq> m \<or> mn_flag ?nd \<noteq> MTYPE_USED \<longleftrightarrow> m \<notin> mtype_live t"
  proof -
    from m have "nat (m - 1) < length (mt_items t)" "int (nat (m - 1)) + 1 = m" by linarith+
    with m mtype_wfD(6) [OF wf, of "nat (m - 1)"] show ?thesis by (auto simp: mtype_live_iff)
  qed
  have lf1: "mtype_limit_free (Some (mn_prdt_name ?nd)) (Some (mn_lsn_name ?nd)) 1 w = Some (rc, ?w)"
    using lf(1) by simp
  note unf = mtype_loc_delete_def t at lf1 sem_acquire_free(1) [OF free'] mtype_put_def Let_def K
  have "mtype_loc_delete m flag w =
        (if m \<in> mtype_live t
         then Some (SW_OK, ?w\<lparr>g_shm_mtype := Some (removed m flag t), vars_destroyed := vars_destroyed w @ [m]\<rparr>)
         else Some (SW_ERROR, ?w))"
  proof (cases "m \<in> mtype_live t")
    case True
    have tab: "(let t1 = mtype_put m (?nd\<lparr>mn_flag := MTYPE_IDLE\<rparr>) t;
        t2 = if flag = 1 then t1\<lparr>mh_fail_cnt := s32 (mh_fail_cnt t1 + 1)\<rparr>
             else if flag = 0 then t1\<lparr>mh_succ_cnt := s32 (mh_succ_cnt t1 + 1)\<rparr> else t1
      in t2\<lparr>mh_cur_cnt := s16 (mh_cur_cnt t2 - 1)\<rparr>) = removed m flag t"
      by (simp add: removed_def mtype_put_def)
    have "sem_mutex_unlock (mh_lock_id t) ((?w\<lparr>kernel_sems := K\<rparr>)\<lparr>g_shm_mtype := Some (removed m flag t),
        vars_destroyed := vars_destroyed w @ [m]\<rparr>) =
      Some (0, ?w\<lparr>g_shm_mtype := Some (removed m flag t), vars_destroyed := vars_destroyed w @ [m]\<rparr>)"
      using mtype_release_destroy [OF free', of "vars_destroyed w @ [m]" "Some (removed m flag t)"] by (simp add: K)
    moreover have "mn_mtype ?nd = m" "mn_flag ?nd = MTYPE_USED" "\<not> m \<le> 0" using True used m by auto
    ultimately show ?thesis using True tab [unfolded mtype_put_def Let_def] by (simp add: unf)
  next
    case False
    with used m mutex.held_then_freed [OF free'] show ?thesis by (simp add: unf)
  qed
  with lf show ?thesis by (intro exI [of _ rc] exI [of _ a] exI [of _ b]) (simp add: limits_ok_def)
qed

lemma mtype_delete_summary:
  assumes "mtype_inv w" and "g_shm_mtype w = Some t" and "1 \<le> m" and "m \<le> int (length (mt_items t))"
  shows "\<exists>rc w' t'. mtype_delete m flag w = Some (rc, w') \<and> g_shm_mtype w' = Some t' \<and> mtype_inv w' \<and>
    (if m \<in> mtype_live t
     then rc = SW_OK \<and> mtype_live t' = mtype_live t - {m} \<and> vars_destroyed w' = vars_destroyed w @ [m] \<and>
       (\<forall>k. int k + 1 \<noteq> m \<longrightarrow> mt_items t' ! k = mt_items t ! k)
     else rc = SW_ERROR \<and> t' = t \<and> vars_destroyed w' = vars_destroyed w)"
proof -
  from assms have wf: "mtype_wf t" and free: "sem_free (mh_lock_id t) w" by (auto simp: mtype_inv_def)
  from mtype_loc_delete_outcome [OF assms, of flag] obtain a b where
    lim: "limits_ok (w\<lparr>g_shm_prdt_limit := a, g_shm_lsn_limit := b\<rparr>)" and
    del: "mtype_loc_delete m flag w =
        (if m \<in> mtype_live t
         then Some (SW_OK, w\<lparr>g_shm_prdt_limit := a, g_shm_lsn_limit := b, g_shm_mtype := Some (removed m flag t),
                vars_destroyed := vars_destroyed w @ [m]\<rparr>)
         else Some (SW_ERROR, w\<lparr>g_shm_prdt_limit := a, g_shm_lsn_limit := b\<rparr>))"
    by blast
  show ?thesis
  proof (cases "m \<in> mtype_live t")
    case True
    let ?w = "w\<lparr>g_shm_prdt_limit := a, g_shm_lsn_limit := b, g_shm_mtype := Some (removed m flag t),
                vars_destroyed := vars_destroyed w @ [m]\<rparr>"
    have "sem_free (mh_lock_id t) ?w = sem_free (mh_lock_id t) w" by (rule sem_free_cong) simp_all
    then have "mtype_inv ?w"
      using removed_wf(1) [OF wf True] lim free by (simp add: mtype_inv_def limits_ok_def removed_def)
    moreover have "\<forall>k. int k + 1 \<noteq> m \<longrightarrow> mt_items (removed m flag t) ! k = mt_items t ! k"
      using assms(3) by (auto simp: removed_def nth_list_update)
    ultimately show ?thesis
      using True del removed_wf(2) [OF wf True] assms(2) by (simp add: mtype_delete_def)
  next
    case False
    let ?w = "w\<lparr>g_shm_prdt_limit := a, g_shm_lsn_limit := b\<rparr>"
    have "sem_free (mh_lock_id t) ?w = sem_free (mh_lock_id t) w" by (rule sem_free_cong) simp_all
    then have "mtype_inv ?w"
      using wf lim free assms(2) by (simp add: mtype_inv_def limits_ok_def)
    with False del assms(2) show ?thesis by (simp add: mtype_delete_def)
  qed
qed

text \<open>Deletion of a session.  For an id inside the table \<open>mtype_delete\<close> returns; on a live session it
  succeeds, exactly this session stops being live, every other node is untouched and the session's variables
  are dropped; on any other id it answers \<^verbatim>\<open>SW_ERROR\<close> and leaves the table alone.  The
  invariant holds again with the lock free.\<close>

theorem session_deletion:
  assumes "mtype_inv w" and "g_shm_mtype w = Some t" and "1 \<le> m" and "m \<le> int (length (mt_items t))"
  shows "\<exists>rc w' t'. mtype_delete m flag w = Some (rc, w') \<and> g_shm_mtype w' = Some t' \<and> mtype_inv w' \<and>
    (if m \<in> mtype_live t
     then rc = SW_OK \<and> mtype_live t' = mtype_live t - {m} \<and> vars_destroyed w' = vars_destroyed w @ [m] \<and>
       (\<forall>k. int k + 1 \<noteq> m \<longrightarrow> mt_items t' ! k = mt_items t ! k)
     else rc = SW_ERROR \<and> t' = t \<and> vars_destroyed w' = vars_destroyed w)"
  by (rule mtype_delete_summary [OF assms])

text \<open>The quota of a product is given back once per call, not once per session: \<open>mtype_delete\<close> for a node
  that holds no live session is refused with \<^verbatim>\<open>SW_ERROR\<close>, yet it takes one more
  session off the use counter of the product the dead node still names.\<close>

theorem refused_delete_returns_quota:
  assumes "mtype_inv w" and "g_shm_mtype w = Some t" and "1 \<le> m" and "m \<le> int (length (mt_items t))"
    and "m \<notin> mtype_live t" and "g_shm_prdt_limit w = Some pt" and "g_shm_lsn_limit w = Some lt"
    and "p \<noteq> []" and "mn_prdt_name (mt_items t ! nat (m - 1)) = p" and "limit_lookup pt p = Some nd"
  shows "\<exists>w' pt'. mtype_delete m flag w = Some (SW_ERROR, w') \<and> g_shm_prdt_limit w' = Some pt' \<and>
    limit_lookup pt' p = Some (nd\<lparr>ml_use := s32 (ml_use nd - 1), ml_success := s32 (ml_success nd + 1)\<rparr>)"
proof -
  let ?nd = "mt_items t ! nat (m - 1)"
  from mtype_loc_delete_outcome [OF assms(1-4), of flag] assms(5) obtain rc a b where
    lf: "mtype_limit_free (Some (mn_prdt_name ?nd)) (Some (mn_lsn_name ?nd)) 1 w =
        Some (rc, w\<lparr>g_shm_prdt_limit := a, g_shm_lsn_limit := b\<rparr>)"
    and del: "mtype_loc_delete m flag w = Some (SW_ERROR, w\<lparr>g_shm_prdt_limit := a, g_shm_lsn_limit := b\<rparr>)"
    by auto
  have wf: "limit_wf pt" using assms(1,6) by (simp add: mtype_inv_def limits_ok_def)
  obtain pt' where pt': "limit_leave (Some p) 1 pt = Some pt'" "limit_lookup pt' p =
      Some (nd\<lparr>ml_use := s32 (ml_use nd - 1), ml_success := s32 (ml_success nd + 1)\<rparr>)"
    using limit_leave_lookup [OF wf assms(8), of 1] assms(10) by auto
  from lf pt'(1) assms(6,7,9) have "g_shm_prdt_limit (w\<lparr>g_shm_prdt_limit := a, g_shm_lsn_limit := b\<rparr>) = Some pt'"
    by (auto simp: mtype_limit_free_def dest: arg_cong [where f = g_shm_prdt_limit] split: bind_splits)
  with del pt'(2) assms(2) show ?thesis by (auto simp: mtype_delete_def)
qed

section \<open>The table as a pool of session ids\<close>

text \<open>The sessions that cannot be taken away: live and not past their time at \<open>now\<close>.\<close>

definition session_ids :: "int \<Rightarrow> 'a mtype_world_scheme \<Rightarrow> int set" where
  "session_ids now w =
     (case g_shm_mtype w of
        None \<Rightarrow> {}
      | Some t \<Rightarrow> {m \<in> mtype_live t. \<not> stale now (mt_items t ! nat (m - 1))})"

lemma fresh_not_stale: "\<not> stale now (fresh_node i now)"
  by (simp add: stale_def fresh_node_def pub_time_get_space_def c_div_def)

interpretation sessions: id_pool "mtype_new now now" "session_ids now" mtype_inv SW_ERROR "\<lambda>m. mtype_delete m flag"
  for now flag :: int
proof unfold_locales
  fix w :: "'a mtype_world_scheme"
  assume inv: "mtype_inv w"
  then obtain t where t: "g_shm_mtype w = Some t" by (auto simp: mtype_inv_def)
  obtain r w' where r: "mtype_new now now w = Some (r, w')" "mtype_inv w'"
    "if table_full now t then r = SW_ERROR \<and> w' = w
     else \<exists>t'. g_shm_mtype w' = Some t' \<and> 1 \<le> r \<and> r < int (length (mt_items t)) \<and>
       (r \<in> mtype_live t \<longrightarrow> stale now (mt_items t ! nat (r - 1))) \<and>
       mtype_live t' = insert r (mtype_live t) \<and>
       (\<forall>k. int k + 1 \<noteq> r \<longrightarrow> mt_items t' ! k = mt_items t ! k) \<and>
       mt_items t' ! nat (r - 1) = fresh_node (nat (r - 1)) now"
    using mtype_new_summary [OF inv t, of now now] by blast
  show "\<exists>r w'. mtype_new now now w = Some (r, w') \<and> mtype_inv w' \<and>
      (r = SW_ERROR \<and> session_ids now w' = session_ids now w \<or>
       r \<noteq> SW_ERROR \<and> r \<notin> session_ids now w \<and> session_ids now w' = insert r (session_ids now w))"
  proof (cases "table_full now t")
    case True
    with r show ?thesis by auto
  next
    case False
    with r(3) obtain t' where t': "g_shm_mtype w' = Some t'" "1 \<le> r"
       "r \<in> mtype_live t \<longrightarrow> stale now (mt_items t ! nat (r - 1))"
       "mtype_live t' = insert r (mtype_live t)" "\<forall>k. int k + 1 \<noteq> r \<longrightarrow> mt_items t' ! k = mt_items t ! k"
       "mt_items t' ! nat (r - 1) = fresh_node (nat (r - 1)) now" by auto
    have same: "mt_items t' ! nat (m - 1) = mt_items t ! nat (m - 1)" if "m \<in> mtype_live t" "m \<noteq> r" for m
      using that t'(5) [rule_format, of "nat (m - 1)"] by (auto simp: mtype_live_iff)
    have "m \<in> session_ids now w' \<longleftrightarrow> m \<in> insert r (session_ids now w)" for m
      using t' t fresh_not_stale same [of m] by (cases "m = r") (auto simp: session_ids_def)
    moreover have "r \<notin> session_ids now w" using t t'(3) by (auto simp: session_ids_def)
    ultimately show ?thesis using r(1,2) t'(2) by (intro exI [of _ r] exI [of _ w']) auto
  qed
next
  fix w :: "'a mtype_world_scheme" and m
  assume inv: "mtype_inv w" and m: "m \<in> session_ids now w"
  then obtain t where t: "g_shm_mtype w = Some t" "m \<in> mtype_live t" by (auto simp: session_ids_def split: option.splits)
  then have rng: "1 \<le> m" "m \<le> int (length (mt_items t))" by (auto simp: mtype_live_iff)
  obtain w' t' where w': "mtype_delete m flag w = Some (SW_OK, w')" "g_shm_mtype w' = Some t'" "mtype_inv w'"
      "mtype_live t' = mtype_live t - {m}" "\<forall>k. int k + 1 \<noteq> m \<longrightarrow> mt_items t' ! k = mt_items t ! k"
    using mtype_delete_summary [OF inv t(1) rng, of flag] t(2) by auto
  have same: "mt_items t' ! nat (k - 1) = mt_items t ! nat (k - 1)" if "k \<in> mtype_live t" "k \<noteq> m" for k
    using that w'(5) [rule_format, of "nat (k - 1)"] by (auto simp: mtype_live_iff)
  have "k \<in> session_ids now w' \<longleftrightarrow> k \<in> session_ids now w - {m}" for k
    using w' t same [of k] by (auto simp: session_ids_def)
  with w' show "\<exists>w'. mtype_delete m flag w = Some (SW_OK, w') \<and> mtype_inv w' \<and>
      session_ids now w' = session_ids now w - {m}" by blast
qed

text \<open>Requests at one clock value, so that no session's time runs out in between: the ids handed out are pairwise
  distinct and new, and the sessions in use afterwards are the old ones and exactly these.\<close>

theorem requests_at_once_distinct:
  assumes "mtype_inv w"
  shows "\<exists>rs w'. alloc_many (mtype_new now now) k w = Some (rs, w') \<and> mtype_inv w' \<and> length rs = k \<and>
    distinct (filter (\<lambda>r. r \<noteq> SW_ERROR) rs) \<and>
    set (filter (\<lambda>r. r \<noteq> SW_ERROR) rs) \<inter> session_ids now w = {} \<and>
    session_ids now w' = session_ids now w \<union> set (filter (\<lambda>r. r \<noteq> SW_ERROR) rs)"
  by (rule sessions.alloc_many_distinct [OF assms])

text \<open>Runs of requests and deletions.  \<open>New now stamp\<close> is a request in which the clock reads \<open>now\<close> in
  the scan and \<open>stamp\<close> when the node is filled; the answers are collected in order.\<close>

datatype session_call = New int int | Del int int

fun session_call_run :: "session_call \<Rightarrow> 'a mtype_world_scheme \<Rightarrow> (int \<times> 'a mtype_world_scheme) option" where
  "session_call_run (New now stamp) w = mtype_new now stamp w"
| "session_call_run (Del m flag) w = mtype_delete m flag w"

fun session_run :: "session_call list \<Rightarrow> 'a mtype_world_scheme \<Rightarrow> (int list \<times> 'a mtype_world_scheme) option" where
  "session_run [] w = Some ([], w)"
| "session_run (c # cs) w = do {
     (r, w1) \<leftarrow> session_call_run c w;
     (rs, w2) \<leftarrow> session_run cs w1;
     Some (r # rs, w2)
   }"

text \<open>What takes the session \<open>r\<close> off its holder: a deletion, or a request that is answered by the same id
  when the time of the session is up, which is measured from its start time.\<close>

fun takes_away :: "int \<Rightarrow> int \<Rightarrow> session_call \<times> int \<Rightarrow> bool" where
  "takes_away r start (New now stamp, a) \<longleftrightarrow> a = r \<and> MTYPE_TIMEOUT < pub_time_get_space now start"
| "takes_away r start (Del m flag, a) \<longleftrightarrow> m = r"

text \<open>The ids that are deleted are ids of the table (behind it \<open>mtype_delete\<close> reads outside).\<close>

fun id_within :: "mtype_t \<Rightarrow> session_call \<Rightarrow> bool" where
  "id_within t (New now stamp) \<longleftrightarrow> True"
| "id_within t (Del m flag) \<longleftrightarrow> m \<le> int (length (mt_items t))"

lemma id_within_cong: "length (mt_items t') = length (mt_items t) \<Longrightarrow> id_within t' c = id_within t c"
  by (cases c) simp_all

lemma mtype_new_length:
  assumes inv: "mtype_inv w" and t: "g_shm_mtype w = Some t" and new: "mtype_new now stamp w = Some (r, w')"
    and t': "g_shm_mtype w' = Some t'"
  shows "length (mt_items t') = length (mt_items t)"
  using mtype_loc_new_outcome [OF inv t, of now stamp]
proof (elim disjE conjE exE)
  assume "mtype_loc_new now stamp w = Some (SW_ERROR, w)"
  with new t t' show ?thesis by (simp add: mtype_new_def)
next
  fix rw assume rw: "mtype_loc_new now stamp w = Some rw" "allocated now stamp t w rw"
  then obtain i a b t1 where al: "t1 = t \<or> t1 = reclaimed (Timed_out i) t"
    "rw = (int i + 1, (with_tables a b (Some (filled i stamp t1)) w)\<lparr>vars_destroyed := vars_destroyed w @ [int i + 1]\<rparr>)"
    by (auto simp: allocated_def)
  with new rw(1) t t' have "t' = filled i stamp t1" by (auto simp: mtype_new_def)
  with al(1) show ?thesis by (auto simp: filled_def)
qed

lemma mtype_delete_length:
  assumes "mtype_inv w" and "g_shm_mtype w = Some t" and "1 \<le> m" and "m \<le> int (length (mt_items t))"
    and "mtype_delete m flag w = Some (r, w')" and "g_shm_mtype w' = Some t'"
  shows "length (mt_items t') = length (mt_items t)"
proof (cases "m \<in> mtype_live t")
  case True
  with mtype_loc_delete_outcome [OF assms(1-4), of flag] assms(2,5,6) have "t' = removed m flag t"
    by (auto simp: mtype_delete_def)
  then show ?thesis by (simp add: removed_def)
next
  case False
  with mtype_loc_delete_outcome [OF assms(1-4), of flag] assms(2,5,6) show ?thesis
    by (auto simp: mtype_delete_def)
qed

text \<open>One call of a run: it answers, and a session stays as it is unless the call takes it away.\<close>

lemma session_call_step:
  assumes inv: "mtype_inv w" and t: "g_shm_mtype w = Some t"
    and dom: "id_within t c"
  obtains a w' t' where "session_call_run c w = Some (a, w')" "mtype_inv w'" "g_shm_mtype w' = Some t'"
    "length (mt_items t') = length (mt_items t)"
    "\<And>m. m \<in> mtype_live t \<Longrightarrow> \<not> takes_away m (mn_start_time (mt_items t ! nat (m - 1))) (c, a) \<Longrightarrow>
       m \<in> mtype_live t' \<and> mt_items t' ! nat (m - 1) = mt_items t ! nat (m - 1)"
    "\<And>now stamp. c = New now stamp \<Longrightarrow> a \<noteq> SW_ERROR \<Longrightarrow>
       a \<in> mtype_live t' \<and> mn_start_time (mt_items t' ! nat (a - 1)) = stamp \<and>
       (a \<in> mtype_live t \<longrightarrow> takes_away a (mn_start_time (mt_items t ! nat (a - 1))) (c, a))"
proof (cases c)
  case (New now stamp)
  obtain r w' where r: "mtype_new now stamp w = Some (r, w')" "mtype_inv w'"
    "if table_full now t then r = SW_ERROR \<and> w' = w
     else \<exists>t'. g_shm_mtype w' = Some t' \<and> 1 \<le> r \<and> r < int (length (mt_items t)) \<and>
       (r \<in> mtype_live t \<longrightarrow> stale now (mt_items t ! nat (r - 1))) \<and>
       mtype_live t' = insert r (mtype_live t) \<and>
       (\<forall>k. int k + 1 \<noteq> r \<longrightarrow> mt_items t' ! k = mt_items t ! k) \<and>
       mt_items t' ! nat (r - 1) = fresh_node (nat (r - 1)) stamp"
    using mtype_new_summary [OF inv t, of now stamp] by blast
  show ?thesis
  proof (cases "table_full now t")
    case True
    with r t New show ?thesis by (intro that [of r w' t]) auto
  next
    case False
    with r(3) obtain t' where t': "g_shm_mtype w' = Some t'"
       "r \<in> mtype_live t \<longrightarrow> stale now (mt_items t ! nat (r - 1))"
       "mtype_live t' = insert r (mtype_live t)" "\<forall>k. int k + 1 \<noteq> r \<longrightarrow> mt_items t' ! k = mt_items t ! k"
       "mt_items t' ! nat (r - 1) = fresh_node (nat (r - 1)) stamp" by auto
    have same: "mt_items t' ! nat (m - 1) = mt_items t ! nat (m - 1)" if "m \<in> mtype_live t" "m \<noteq> r" for m
      using that t'(4) [rule_format, of "nat (m - 1)"] by (auto simp: mtype_live_iff)
    show ?thesis
      by (rule that [of r w' t'])
        (use r t' New same mtype_new_length [OF inv t r(1) t'(1)] in \<open>auto simp: stale_def fresh_node_def\<close>)
  qed
next
  case (Del m flag)
  show ?thesis
  proof (cases "m \<le> 0")
    case True
    then have "mtype_delete m flag w = Some (SW_ERROR, w)" using t by (simp add: mtype_delete_def mtype_loc_delete_def)
    with inv t Del True show ?thesis by (intro that [of SW_ERROR w t]) auto
  next
    case False
    then have m: "1 \<le> m" "m \<le> int (length (mt_items t))" using dom Del by auto
    obtain rc w' t' where w': "mtype_delete m flag w = Some (rc, w')" "g_shm_mtype w' = Some t'" "mtype_inv w'"
      "if m \<in> mtype_live t then mtype_live t' = mtype_live t - {m} \<and>
         (\<forall>k. int k + 1 \<noteq> m \<longrightarrow> mt_items t' ! k = mt_items t ! k) else t' = t"
      using mtype_delete_summary [OF inv t m, of flag] by (cases "m \<in> mtype_live t") auto
    have "k \<in> mtype_live t' \<and> mt_items t' ! nat (k - 1) = mt_items t ! nat (k - 1)"
      if k: "k \<in> mtype_live t" "k \<noteq> m" for k
    proof (cases "m \<in> mtype_live t")
      case True
      have "int (nat (k - 1)) + 1 \<noteq> m" using k by (auto simp: mtype_live_iff)
      with w'(4) k True show ?thesis by simp
    qed (use w'(4) k in simp)
    with w' Del mtype_delete_length [OF inv t m w'(1,2)] show ?thesis
      by (intro that [of rc w' t']) auto
  qed
qed

text \<open>A live session is handed out again only behind what takes it away.\<close>

lemma session_kept:
  assumes "mtype_inv w" and "g_shm_mtype w = Some t"
    and "list_all (id_within t) cs"
  shows "\<exists>rs w'. session_run cs w = Some (rs, w') \<and> mtype_inv w' \<and> length rs = length cs \<and>
    (\<forall>j r now stamp. j < length cs \<and> cs ! j = New now stamp \<and> rs ! j = r \<and> r \<in> mtype_live t \<longrightarrow>
      (\<exists>k\<le>j. takes_away r (mn_start_time (mt_items t ! nat (r - 1))) (cs ! k, rs ! k)))"
  using assms
proof (induction cs arbitrary: w t)
  case Nil
  then show ?case by simp
next
  case (Cons c cs)
  obtain a w1 t1 where st: "session_call_run c w = Some (a, w1)" "mtype_inv w1" "g_shm_mtype w1 = Some t1"
    "length (mt_items t1) = length (mt_items t)"
    and keep: "\<And>m. m \<in> mtype_live t \<Longrightarrow> \<not> takes_away m (mn_start_time (mt_items t ! nat (m - 1))) (c, a) \<Longrightarrow>
       m \<in> mtype_live t1 \<and> mt_items t1 ! nat (m - 1) = mt_items t ! nat (m - 1)"
    and new: "\<And>now stamp. c = New now stamp \<Longrightarrow> a \<noteq> SW_ERROR \<Longrightarrow>
       a \<in> mtype_live t1 \<and> mn_start_time (mt_items t1 ! nat (a - 1)) = stamp \<and>
       (a \<in> mtype_live t \<longrightarrow> takes_away a (mn_start_time (mt_items t ! nat (a - 1))) (c, a))"
    by (rule session_call_step [OF Cons.prems(1,2), of c]) (use Cons.prems(3) in \<open>simp\<close>, blast)
  have dom: "list_all (id_within t1) cs"
    using Cons.prems(3) by (simp add: id_within_cong [OF st(4)] list_all_iff)
  obtain rs w2 where rs: "session_run cs w1 = Some (rs, w2)" "mtype_inv w2" "length rs = length cs"
    "\<And>j now stamp. j < length cs \<Longrightarrow> cs ! j = New now stamp \<Longrightarrow> rs ! j \<in> mtype_live t1 \<Longrightarrow>
      \<exists>k\<le>j. takes_away (rs ! j) (mn_start_time (mt_items t1 ! nat (rs ! j - 1))) (cs ! k, rs ! k)"
    using Cons.IH [OF st(2,3) dom] by blast
  have "\<exists>k\<le>j. takes_away r (mn_start_time (mt_items t ! nat (r - 1))) ((c # cs) ! k, (a # rs) ! k)"
    if j: "j < length (c # cs)" "(c # cs) ! j = New now stamp" "(a # rs) ! j = r" "r \<in> mtype_live t" for j r now stamp
  proof (cases "takes_away r (mn_start_time (mt_items t ! nat (r - 1))) (c, a)")
    case True
    then show ?thesis by (intro exI [of _ 0]) simp
  next
    case False
    from j(4) have "r \<noteq> SW_ERROR" by (auto simp: mtype_live_iff)
    with False new j obtain i where i: "j = Suc i" by (cases j) auto
    from keep [OF j(4) False] rs(4) [of i now stamp] j i
    obtain k where "k \<le> i" "takes_away r (mn_start_time (mt_items t ! nat (r - 1))) (cs ! k, rs ! k)" by auto
    with i show ?thesis by (intro exI [of _ "Suc k"]) simp
  qed
  with rs st show ?case by (intro exI [of _ "a # rs"] exI [of _ w2]) auto
qed

lemma session_pairs:
  assumes "mtype_inv w" and "g_shm_mtype w = Some t"
    and "list_all (id_within t) cs"
    and "session_run cs w = Some (rs, w')"
    and "i < j" "j < length cs" "cs ! i = New now stamp" "cs ! j = New now' stamp'"
    and "rs ! i \<noteq> SW_ERROR" "rs ! j = rs ! i"
  shows "\<exists>k. i < k \<and> k \<le> j \<and> takes_away (rs ! i) stamp (cs ! k, rs ! k)"
  using assms
proof (induction cs arbitrary: w t rs i j)
  case Nil
  then show ?case by simp
next
  case (Cons c cs)
  obtain a w1 t1 where st: "session_call_run c w = Some (a, w1)" "mtype_inv w1" "g_shm_mtype w1 = Some t1"
    "length (mt_items t1) = length (mt_items t)"
    and new: "\<And>now stamp. c = New now stamp \<Longrightarrow> a \<noteq> SW_ERROR \<Longrightarrow>
       a \<in> mtype_live t1 \<and> mn_start_time (mt_items t1 ! nat (a - 1)) = stamp"
    by (rule session_call_step [OF Cons.prems(1,2), of c]) (use Cons.prems(3) in \<open>simp\<close>, blast)
  from Cons.prems(4) st(1) obtain rs1 where rs1: "rs = a # rs1" "session_run cs w1 = Some (rs1, w')"
    by (auto split: bind_splits prod.splits)
  have dom: "list_all (id_within t1) cs"
    using Cons.prems(3) by (simp add: id_within_cong [OF st(4)] list_all_iff)
  from Cons.prems(5) obtain j1 where j1: "j = Suc j1" by (cases j) auto
  show ?case
  proof (cases i)
    case 0
    obtain rs2 w2 where kept: "session_run cs w1 = Some (rs2, w2)"
      "\<forall>j r now stamp. j < length cs \<and> cs ! j = New now stamp \<and> rs2 ! j = r \<and> r \<in> mtype_live t1 \<longrightarrow>
        (\<exists>k\<le>j. takes_away r (mn_start_time (mt_items t1 ! nat (r - 1))) (cs ! k, rs2 ! k))"
      using session_kept [OF st(2,3) dom] by blast
    from kept(1) rs1(2) have eq: "rs2 = rs1" by simp
    have a: "a \<in> mtype_live t1" "mn_start_time (mt_items t1 ! nat (a - 1)) = stamp"
      using new Cons.prems(7,9) 0 rs1(1) by auto
    from kept(2) [rule_format, of j1 now' stamp' a] a Cons.prems(6,8,10) 0 j1 rs1(1) eq
    obtain k where "k \<le> j1" "takes_away a stamp (cs ! k, rs1 ! k)" by auto
    with 0 j1 rs1(1) show ?thesis by (intro exI [of _ "Suc k"]) simp
  next
    case (Suc i1)
    with Cons.prems(5-10) j1 rs1(1)
    have "i1 < j1" "j1 < length cs" "cs ! i1 = New now stamp" "cs ! j1 = New now' stamp'"
      "rs1 ! i1 \<noteq> SW_ERROR" "rs1 ! j1 = rs1 ! i1" by simp_all
    from Cons.IH [OF st(2,3) dom rs1(2) this] obtain k
      where "i1 < k" "k \<le> j1" "takes_away (rs1 ! i1) stamp (cs ! k, rs1 ! k)" by blast
    with Suc j1 rs1(1) show ?thesis by (intro exI [of _ "Suc k"]) simp
  qed
qed

text \<open>C3: A session id is never handed out to two holders.  In every run of requests and deletions on a
  well-formed table, with any clock readings, each call answers, and when two requests get the same id, then behind
  the first of them, at the second at the latest, there is a deletion of this id, or a request that is answered
  by it at a time more than the three hours away from the start time of the first; the same holds for a request that
  gets the id of a session that was live before the run.  The ids that are deleted lie within the table.\<close>

theorem sessions_distinct:
  assumes "mtype_inv w" and "g_shm_mtype w = Some t"
    and "list_all (id_within t) cs"
  shows "\<exists>rs w'. session_run cs w = Some (rs, w') \<and> mtype_inv w' \<and> length rs = length cs \<and>
    (\<forall>i j now stamp now' stamp'. i < j \<and> j < length cs \<and> cs ! i = New now stamp \<and> cs ! j = New now' stamp' \<and>
        rs ! i \<noteq> SW_ERROR \<and> rs ! j = rs ! i \<longrightarrow>
      (\<exists>k. i < k \<and> k \<le> j \<and> takes_away (rs ! i) stamp (cs ! k, rs ! k))) \<and>
    (\<forall>j now stamp. j < length cs \<and> cs ! j = New now stamp \<and> rs ! j \<in> mtype_live t \<longrightarrow>
      (\<exists>k\<le>j. takes_away (rs ! j) (mn_start_time (mt_items t ! nat (rs ! j - 1))) (cs ! k, rs ! k)))"
proof -
  obtain rs w' where run: "session_run cs w = Some (rs, w')" "mtype_inv w'" "length rs = length cs"
    "\<And>j now stamp. j < length cs \<Longrightarrow> cs ! j = New now stamp \<Longrightarrow> rs ! j \<in> mtype_live t \<Longrightarrow>
      \<exists>k\<le>j. takes_away (rs ! j) (mn_start_time (mt_items t ! nat (rs ! j - 1))) (cs ! k, rs ! k)"
    using session_kept [OF assms] by blast
  have "\<exists>k. i < k \<and> k \<le> j \<and> takes_away (rs ! i) stamp (cs ! k, rs ! k)"
    if "i < j" "j < length cs" "cs ! i = New now stamp" "cs ! j = New now' stamp'"
      "rs ! i \<noteq> SW_ERROR" "rs ! j = rs ! i" for i j now stamp now' stamp'
    using session_pairs [OF assms run(1) that] .
  with run show ?thesis by (intro exI [of _ rs] exI [of _ w']) blast
qed

text \<open>A session that is requested and deleted again leaves the sessions in use as they were.\<close>

theorem new_then_delete:
  assumes "mtype_inv w"
  shows "\<exists>r w1. mtype_new now now w = Some (r, w1) \<and>
    (r \<noteq> SW_ERROR \<longrightarrow> (\<exists>w2. mtype_delete r flag w1 = Some (SW_OK, w2) \<and> mtype_inv w2 \<and>
       session_ids now w2 = session_ids now w))"
  by (rule sessions.alloc_release [OF assms])

section \<open>Creation\<close>

definition init_table :: "int \<Rightarrow> int \<Rightarrow> mtype_t" where
  "init_table lid mx =
     \<lparr>mh_lock_id = lid, mh_size = s32 (MTYPE_HEAD_SIZE + MTYPE_NODE_SIZE + (mx - 1) * MTYPE_NODE_SIZE),
      mh_mtype_max = s16 mx, mh_msg_cnt = 0, mh_cur_cnt = 0, mh_cur_use = 0, mh_succ_cnt = 0, mh_fail_cnt = 0,
      mh_trc_cnt = 0, mh_trc_fail_cnt = 0, mh_start_time = 0,
      mt_items = mtype_set_flags (s16 mx) (replicate (nat mx) zero_mtype_node)\<rparr>"

lemma mtype_init_simp:
  assumes "sem_all_free w" and s: "g_sem_lock w = Some s"
    and cnt: "0 \<le> sl_lock_cnt s" "sl_lock_cnt s + 1 < sl_sem_num s"
    and c: "1 \<le> cfg_session_max c" "cfg_session_max c \<le> int cells"
  defines "w' \<equiv> w\<lparr>g_sem_lock := Some (s\<lparr>sl_lock_cnt := sl_lock_cnt s + 1\<rparr>),
      g_shm_mtype := Some (init_table (sl_lock_cnt s + 1) (cfg_session_max c))\<rparr>"
  shows "mtype_init (Some cells) (Some c) w = Some (SW_OK, w')"
    and "sem_free (sl_lock_cnt s + 1) w'"
proof -
  let ?w1 = "w\<lparr>g_sem_lock := Some (s\<lparr>sl_lock_cnt := sl_lock_cnt s + 1\<rparr>)\<rparr>"
  have new: "sem_new_lock_id w = Some (sl_lock_cnt s + 1, ?w1)"
    using sem_new_lock_id_simp [OF assms(1,2)] cnt by simp
  have free: "sem_free (sl_lock_cnt s + 1) ?w1"
    using assms(1) s cnt by (auto simp: sem_free_def sem_all_free_def split: option.splits)
  show "mtype_init (Some cells) (Some c) w = Some (SW_OK, w')"
    using c cnt sem_acquire_free(1) [OF free] mutex.held_then_freed [OF free]
    by (simp add: mtype_init_def mtype_loc_init_def new Let_def w'_def init_table_def)
  have "sem_free (sl_lock_cnt s + 1) w' = sem_free (sl_lock_cnt s + 1) ?w1"
    unfolding w'_def by (rule sem_free_cong) simp_all
  with free show "sem_free (sl_lock_cnt s + 1) w'" by simp
qed

lemma init_table_wf:
  assumes "1 \<le> mx" and "mx \<le> 32767"
  shows "mtype_wf (init_table lid mx)" and "mtype_live (init_table lid mx) = {}"
proof -
  have items: "mt_items (init_table lid mx) =
      map (\<lambda>i. zero_mtype_node\<lparr>mn_flag := if int i = mx - 1 then MTYPE_TAIL else MTYPE_IDLE\<rparr>) [0..<nat mx]"
    using assms by (intro nth_equalityI) (auto simp: init_table_def mtype_set_flags_def s16_id)
  have none: "filter is_used (mt_items (init_table lid mx)) = []"
    by (auto simp: items filter_empty_conv)
  have i: "s16 mx = mx" using assms by (intro s16_id) auto
  show "mtype_wf (init_table lid mx)"
    unfolding mtype_wf_def Let_def none using assms
    by (auto simp: items) (auto simp: init_table_def i)
  show "mtype_live (init_table lid mx) = {}"
  proof (rule equals0I)
    fix x assume "x \<in> mtype_live (init_table lid mx)"
    then obtain i where "i < length (mt_items (init_table lid mx))" "is_used (mt_items (init_table lid mx) ! i)"
      by (auto simp: mtype_live_def)
    with none nth_mem show False by (fastforce simp: filter_empty_conv)
  qed
qed

text \<open>Initialisation establishes the invariant for every table of up to 32767 nodes: no
  session is live, and one node less than configured can ever be allocated.\<close>

theorem init_establishes:
  assumes "sem_all_free w" and "g_sem_lock w = Some s" and "0 \<le> sl_lock_cnt s" and "sl_lock_cnt s + 1 < sl_sem_num s"
    and "1 \<le> cfg_session_max c" and "cfg_session_max c \<le> int cells" and "cfg_session_max c \<le> 32767"
    and "limits_ok w"
  shows "\<exists>w' t. mtype_init (Some cells) (Some c) w = Some (SW_OK, w') \<and> mtype_inv w' \<and>
    g_shm_mtype w' = Some t \<and> mtype_live t = {} \<and> int (length (mt_items t)) = cfg_session_max c"
proof -
  from init_table_wf [OF assms(5,7)] mtype_init_simp [OF assms(1-6)] assms(5,8) show ?thesis
    by (auto simp: mtype_inv_def limits_ok_def init_table_def mtype_set_flags_def)
qed

text \<open>What happens when \<^verbatim>\<open>mtype_max\<close> is negative: both scans are empty.\<close>

lemma mtype_new_negative_max:
  assumes t: "g_shm_mtype w = Some t" and free: "sem_free (mh_lock_id t) w"
    and neg: "mh_mtype_max t < 0" and items: "mt_items t \<noteq> []"
  shows "0 \<le> mn_flag (mt_items t ! 0) \<Longrightarrow> mtype_new now stamp w =
      Some (1, w\<lparr>g_shm_mtype := Some (filled 0 stamp (t\<lparr>mh_cur_use := 0\<rparr>)), vars_destroyed := vars_destroyed w @ [1]\<rparr>)"
    and "mn_flag (mt_items t ! 0) < 0 \<Longrightarrow> \<exists>w'. mtype_new now stamp w = Some (SW_ERROR, w')"
proof -
  let ?t = "t\<lparr>mh_cur_use := 0\<rparr>"
  let ?w = "sem_took SEM_VALUE (mh_lock_id t) w"
  obtain K where K: "?w = w\<lparr>kernel_sems := K\<rparr>" using sem_took_kernel by blast
  have "?w\<lparr>g_shm_prdt_limit := g_shm_prdt_limit w, g_shm_lsn_limit := g_shm_lsn_limit w\<rparr> = ?w"
    by (simp add: K)
  then have "mtype_take 0 stamp ?t ?w = Some (1, (with_tables (g_shm_prdt_limit w) (g_shm_lsn_limit w)
      (Some (filled 0 stamp ?t)) w)\<lparr>vars_destroyed := vars_destroyed w @ [1]\<rparr>)"
    using mtype_take_ok [of ?t w 0 stamp "g_shm_lsn_limit w" "g_shm_prdt_limit w"] free by simp
  then show "0 \<le> mn_flag (mt_items t ! 0) \<Longrightarrow> mtype_new now stamp w =
      Some (1, w\<lparr>g_shm_mtype := Some (filled 0 stamp ?t), vars_destroyed := vars_destroyed w @ [1]\<rparr>)"
    using neg items
    by (simp add: mtype_new_def mtype_loc_new_def t sem_acquire_free(1) [OF free] mtype_reclaim_def Let_def)
  have "\<exists>w'. mtype_give_up ?t ?w = Some (SW_ERROR, w')"
    using sem_release_took(1) [OF free, of "\<lambda>w. w\<lparr>g_shm_mtype := Some ?t\<rparr>"]
    by (simp add: mtype_give_up_def sem_frame_def)
  then show "mn_flag (mt_items t ! 0) < 0 \<Longrightarrow> \<exists>w'. mtype_new now stamp w = Some (SW_ERROR, w')"
    using neg items
    by (auto simp: mtype_new_def mtype_loc_new_def t sem_acquire_free(1) [OF free] mtype_reclaim_def Let_def)
qed

text \<open>A configuration of 32768 to 65535 sessions is accepted, but the size is kept in 16
  bits: \<^verbatim>\<open>mtype_max\<close> is negative, the first request gets the node 1 and every later
  one is refused, although all other nodes are free.\<close>

theorem oversized_table_one_session:
  assumes "sem_all_free w" and "g_sem_lock w = Some s" and "0 \<le> sl_lock_cnt s" and "sl_lock_cnt s + 1 < sl_sem_num s"
    and "32768 \<le> cfg_session_max c" and "cfg_session_max c \<le> int cells" and "cfg_session_max c \<le> 65535"
  shows "\<exists>w0 w1 w2. mtype_init (Some cells) (Some c) w = Some (SW_OK, w0) \<and>
    mtype_new now stamp w0 = Some (1, w1) \<and> mtype_new now' stamp' w1 = Some (SW_ERROR, w2)"
proof -
  have "1 \<le> cfg_session_max c" using assms(5) by simp
  note init = mtype_init_simp [OF assms(1-4) this assms(6)]
  let ?t = "init_table (sl_lock_cnt s + 1) (cfg_session_max c)"
  let ?w0 = "w\<lparr>g_sem_lock := Some (s\<lparr>sl_lock_cnt := sl_lock_cnt s + 1\<rparr>), g_shm_mtype := Some ?t\<rparr>"
  have "s16 (cfg_session_max c) = cfg_session_max c - 65536" using assms(5,7) by (rule s16_wrap)
  then have neg: "mh_mtype_max ?t < 0" using assms(7) by (simp add: init_table_def)
  then have ne: "mt_items ?t \<noteq> []" and fl: "mn_flag (mt_items ?t ! 0) = 0"
    using assms(5) by (auto simp: init_table_def mtype_set_flags_def zero_mtype_node_def)
  have free: "sem_free (mh_lock_id ?t) ?w0" using init(2) by (simp add: init_table_def)
  have w1: "mtype_new now stamp ?w0 = Some (1, ?w0\<lparr>g_shm_mtype := Some (filled 0 stamp (?t\<lparr>mh_cur_use := 0\<rparr>)),
        vars_destroyed := vars_destroyed ?w0 @ [1]\<rparr>)"
    using mtype_new_negative_max(1) [OF _ free neg ne, of now stamp] fl by auto
  let ?t1 = "filled 0 stamp (?t\<lparr>mh_cur_use := 0\<rparr>)"
  let ?w1 = "?w0\<lparr>g_shm_mtype := Some ?t1, vars_destroyed := vars_destroyed ?w0 @ [1]\<rparr>"
  have "sem_free (mh_lock_id ?t1) ?w1 = sem_free (mh_lock_id ?t1) ?w0" by (rule sem_free_cong) simp_all
  moreover have "mh_lock_id ?t1 = mh_lock_id ?t" by (simp add: filled_def)
  ultimately have free1: "sem_free (mh_lock_id ?t1) ?w1" using free by simp
  have t1: "mh_mtype_max ?t1 < 0" "mt_items ?t1 \<noteq> []" "mn_flag (mt_items ?t1 ! 0) < 0"
    using neg ne by (simp_all add: filled_def fresh_node_def)
  have "\<exists>w2. mtype_new now' stamp' ?w1 = Some (SW_ERROR, w2)"
    by (rule mtype_new_negative_max(2) [OF _ free1 t1]) simp
  with init(1) w1 show ?thesis by blast
qed

section \<open>Witnesses\<close>

text \<open>Three nodes: a live session, a dead one that still names its product, and the tail.\<close>

definition demo_node :: "int \<Rightarrow> int \<Rightarrow> mtype_node" where
  "demo_node fl m = zero_mtype_node\<lparr>mn_flag := fl, mn_mtype := m, mn_prdt_name := ''PRD'', mn_lsn_name := ''LSN''\<rparr>"

definition demo_table :: mtype_t where
  "demo_table = \<lparr>mh_lock_id = 2, mh_size = 1552, mh_mtype_max = 3, mh_msg_cnt = 2, mh_cur_cnt = 1, mh_cur_use = 1,
     mh_succ_cnt = 1, mh_fail_cnt = 0, mh_trc_cnt = 0, mh_trc_fail_cnt = 0, mh_start_time = 0,
     mt_items = [demo_node MTYPE_USED 1, demo_node MTYPE_IDLE 2, zero_mtype_node\<lparr>mn_flag := MTYPE_TAIL\<rparr>]\<rparr>"

definition mtype_world0 :: mtype_world where
  "mtype_world0 =
     \<lparr>kernel_sems = [7 \<mapsto> [500, 500, 500, 500]],
      g_sem_lock = Some \<lparr>sl_sem_id = 7, sl_sem_num = 4, sl_lock_cnt = 2, sl_lock_id = 1\<rparr>,
      g_shm_prdt_limit = Some (limit_demo ''PRD'' 1), g_shm_lsn_limit = Some (limit_demo ''LSN'' 1),
      g_shm_mtype = Some demo_table, vars_destroyed = []\<rparr>"

lemma demo_nodes:
  "mn_flag (demo_node fl m) = fl" "mn_mtype (demo_node fl m) = m" "mn_prdt_name (demo_node fl m) = ''PRD''"
  "mn_start_time (demo_node fl m) = 0"
  by (simp_all add: demo_node_def zero_mtype_node_def)

lemma demo_wf: "mtype_wf demo_table"
  by (simp add: mtype_wf_def demo_table_def demo_nodes All_less_Suc)

lemma demo_live: "mtype_live demo_table = {1}"
  by (auto simp: mtype_live_def demo_table_def demo_nodes less_Suc_eq)

lemma demo_world:
  "g_shm_mtype mtype_world0 = Some demo_table" "length (mt_items demo_table) = 3"
  "vars_destroyed mtype_world0 = []"
  "g_shm_prdt_limit mtype_world0 = Some (limit_demo ''PRD'' 1)"
  "g_shm_lsn_limit mtype_world0 = Some (limit_demo ''LSN'' 1)"
  by (simp_all add: mtype_world0_def demo_table_def)

lemma demo_inv: "mtype_inv mtype_world0"
  by (simp add: mtype_inv_def demo_wf limits_ok_def mtype_world0_def sem_free_def limit_demo_def limit_wf_def)
    (simp add: demo_table_def)

lemma demo_sems: "sem_all_free mtype_world0"
  by (simp add: mtype_world0_def sem_all_free_def eval_nat_numeral)

theorem session_allocation_witness:
  "\<exists>r w' t'. mtype_new 5 5 mtype_world0 = Some (r, w') \<and> mtype_inv w' \<and> r \<in> {1..<3} \<and>
     g_shm_mtype w' = Some t' \<and> mtype_live t' = {r, 1}"
proof -
  have "\<not> table_full 5 demo_table"
    by (auto simp: table_full_def demo_table_def demo_nodes intro!: exI [of _ "1 :: nat"])
  with session_allocation [OF demo_inv demo_world(1), of 5 5] show ?thesis
    by (auto simp: demo_live demo_world)
qed

theorem session_deletion_witness:
  "\<exists>w' t'. mtype_delete 1 0 mtype_world0 = Some (SW_OK, w') \<and> g_shm_mtype w' = Some t' \<and>
     mtype_live t' = {} \<and> vars_destroyed w' = [1]"
  using session_deletion [OF demo_inv demo_world(1), of 1 0] by (auto simp: demo_live demo_world)

theorem refused_delete_returns_quota_witness:
  "\<exists>w' pt'. mtype_delete 2 0 mtype_world0 = Some (SW_ERROR, w') \<and> g_shm_prdt_limit w' = Some pt' \<and>
     map_option ml_use (limit_lookup pt' ''PRD'') = Some 0"
proof -
  have nd: "mn_prdt_name (mt_items demo_table ! nat (2 - 1)) = ''PRD''"
    by (simp add: demo_table_def demo_nodes)
  have look: "limit_lookup (limit_demo ''PRD'' 1) ''PRD'' =
      Some \<lparr>ml_limit = 1, ml_use = 1, ml_success = 0, ml_fail = 0, ml_name = ''PRD''\<rparr>"
    by (simp add: limit_demo_eval)
  from refused_delete_returns_quota [OF demo_inv demo_world(1) _ _ _ demo_world(4,5) _ nd look, of 0]
  show ?thesis by (auto simp: demo_world demo_live)
qed

theorem sessions_distinct_witness:
  "\<exists>rs w'. session_run [New 5 5, New 5 5, Del 1 0, New 6 6] mtype_world0 = Some (rs, w') \<and> length rs = 4 \<and>
     (rs ! 0 = SW_ERROR \<or> rs ! 1 \<noteq> rs ! 0)"
proof -
  let ?cs = "[New 5 5, New 5 5, Del 1 0, New 6 6]"
  obtain rs w' where rs: "session_run ?cs mtype_world0 = Some (rs, w')" "length rs = 4"
    and pairs: "\<forall>i j now stamp now' stamp'. i < j \<and> j < length ?cs \<and> ?cs ! i = New now stamp \<and> ?cs ! j = New now' stamp' \<and>
        rs ! i \<noteq> SW_ERROR \<and> rs ! j = rs ! i \<longrightarrow>
      (\<exists>k. i < k \<and> k \<le> j \<and> takes_away (rs ! i) stamp (?cs ! k, rs ! k))"
    using sessions_distinct [OF demo_inv demo_world(1), of ?cs] by (auto simp: demo_world(2))
  have "rs ! 1 \<noteq> rs ! 0" if "rs ! 0 \<noteq> SW_ERROR"
  proof
    assume "rs ! 1 = rs ! 0"
    with that pairs [rule_format, of 0 1 5 5 5 5] obtain k where "0 < k" "k \<le> 1" "takes_away (rs ! 0) 5 (?cs ! k, rs ! k)"
      by auto
    then have "k = 1" by simp
    with \<open>takes_away (rs ! 0) 5 (?cs ! k, rs ! k)\<close> show False by (simp add: pub_time_get_space_def c_div_def)
  qed
  with rs show ?thesis by blast
qed

theorem new_then_delete_witness:
  "\<exists>r w1. mtype_new 5 5 mtype_world0 = Some (r, w1) \<and>
     (r = SW_ERROR \<or> (\<exists>w2. mtype_delete r 0 w1 = Some (SW_OK, w2)))"
  using new_then_delete [OF demo_inv, of 5 0] by blast

definition mtype_cfg :: "int \<Rightarrow> sw_syscfg" where
  "mtype_cfg n = \<lparr>cfg_session_max = n, cfg_prdt_max = 0, cfg_lsn_max = 0, cfg_seq_max = 0\<rparr>"

theorem init_establishes_witness:
  "\<exists>w'. mtype_init (Some 20) (Some (mtype_cfg 20)) mtype_world0 = Some (SW_OK, w') \<and> mtype_inv w'"
proof -
  have "limits_ok mtype_world0" using demo_inv by (simp add: mtype_inv_def)
  with init_establishes [OF demo_sems, of _ "mtype_cfg 20" 20] show ?thesis
    by (auto simp: mtype_cfg_def mtype_world0_def)
qed

theorem oversized_table_one_session_witness:
  "\<exists>w0 w1 w2. mtype_init (Some 40000) (Some (mtype_cfg 40000)) mtype_world0 = Some (SW_OK, w0) \<and>
     mtype_new 0 0 w0 = Some (1, w1) \<and> mtype_new 0 0 w1 = Some (SW_ERROR, w2)"
  by (rule oversized_table_one_session
      [OF demo_sems, of "\<lparr>sl_sem_id = 7, sl_sem_num = 4, sl_lock_cnt = 2, sl_lock_id = 1\<rparr>"])
    (simp_all add: mtype_world0_def mtype_cfg_def)

end
