(* ===== verification/Msg_Trans.thy ===== *)
theory Msg_Trans
  imports Prelude
begin

text \<open>
  The message queues between the processes: \<^verbatim>\<open>os/unix/pub_msq.c\<close>, \<^verbatim>\<open>os/unix/pub_fifo.c\<close> and
  \<^verbatim>\<open>core/msg_trans.c\<close>.  A message goes into a System V queue, and one byte into a FIFO beside it on which the
  receiver can wait.  The calls of the system follow their manual pages; \<open>ipc_world\<close> is what all processes share,
  \<open>msg_proc\<close> the descriptors and the table \<^verbatim>\<open>arrFdKeys\<close> of one process.  The properties: a queue is one mailbox
  for every session, every message has its byte, and the errors that break this.
\<close>

section \<open>Commands\<close>

text \<open>A message of the switch; the names are arrays of 32 bytes and hold C strings.\<close>

record sw_cmd =
  cm_trace_no :: int
  cm_mtype :: int
  cm_timeout :: int
  cm_start_line :: int
  cm_dst_type :: int
  cm_ori_type :: int
  cm_msg_type :: int
  cm_task_flg :: int
  cm_type :: int
  cm_level :: int
  cm_status :: int
  cm_ori_def :: cstr
  cm_lsn_name :: cstr
  cm_def_name :: cstr
  cm_dst_prdt :: cstr
  cm_dst_svr :: cstr
  cm_dst_svc :: cstr
  cm_ori_prdt :: cstr
  cm_ori_svr :: cstr
  cm_ori_svc :: cstr
  cm_sys_date :: cstr
  cm_udp_name :: cstr

section \<open>Queues and pipes\<close>

record mqueue =
  mq_msgs :: "(int \<times> cstr) list"
  mq_qbytes :: int

datatype fs_file = Fifo nat | Regular

record ipc_world =
  ip_keys :: "int \<Rightarrow> int option"
  ip_queues :: "int \<Rightarrow> mqueue option"
  ip_files :: "cstr \<Rightarrow> fs_file option"
  ip_pipes :: "nat \<Rightarrow> nat"
  ip_next :: nat
  ip_pipe_max :: nat
  ip_mkfifo :: "cstr \<Rightarrow> bool"
  ip_msgmnb :: int
  ip_msgmax :: int

datatype fd_entry = Fd_fifo nat | Fd_other

record msg_proc =
  mp_fds :: "fd_entry option list"
  mp_fd_max :: nat
  mp_keys :: "int list"

abbreviation (input) QMSG_MAX_LEN :: int where "QMSG_MAX_LEN \<equiv> 131072"
abbreviation (input) IPC_QU_THRESHOLD :: int where "IPC_QU_THRESHOLD \<equiv> 80"
abbreviation (input) SW_FD_MAX :: nat where "SW_FD_MAX \<equiv> 2048"
abbreviation (input) FD_SETSIZE :: int where "FD_SETSIZE \<equiv> 1024"

definition mq_cbytes :: "mqueue \<Rightarrow> int" where
  "mq_cbytes q = int (sum_list (map (\<lambda>(_, d). length d) (mq_msgs q)))"

text \<open>Which message \<^verbatim>\<open>msgrcv\<close> takes: the first one, the first of a type, or the first of the lowest type up to a
  bound.\<close>

definition msg_pick :: "int \<Rightarrow> (int \<times> cstr) list \<Rightarrow> nat option" where
  "msg_pick t ms =
     (if t = 0 then (if ms = [] then None else Some 0)
      else if 0 < t then find_idx (\<lambda>m. fst m = t) ms
      else
        (case filter (\<lambda>ty. ty \<le> - t) (map fst ms) of
           [] \<Rightarrow> None
         | ty # tys \<Rightarrow> find_idx (\<lambda>m. fst m = fold min tys ty) ms))"

definition drop_nth :: "nat \<Rightarrow> 'a list \<Rightarrow> 'a list" where "drop_nth i xs = take i xs @ drop (Suc i) xs"

datatype msq_result = Msq_error | Msq_none | Msq_msg int cstr

definition msgrcv :: "int \<Rightarrow> int \<Rightarrow> (int \<times> cstr) list \<Rightarrow> msq_result \<times> (int \<times> cstr) list" where
  "msgrcv maxlen t ms =
     (case msg_pick t ms of
        None \<Rightarrow> (Msq_none, ms)
      | Some i \<Rightarrow>
          if maxlen < int (length (snd (ms ! i))) then (Msq_error, ms)
          else (Msq_msg (fst (ms ! i)) (snd (ms ! i)), drop_nth i ms))"

definition set_queue :: "int \<Rightarrow> mqueue \<Rightarrow> ipc_world \<Rightarrow> ipc_world" where
  "set_queue mqid q w = w\<lparr>ip_queues := (ip_queues w)(mqid \<mapsto> q)\<rparr>"

text \<open>\<^verbatim>\<open>pub_msq.c\<close>.  The buffer a message is copied to has \<open>cap\<close> bytes; the terminator goes behind the message.  The
  empty message that stands for an empty queue is \<open>Msq_none\<close>.\<close>

definition pub_msq_check_size :: "int \<Rightarrow> int \<Rightarrow> ipc_world \<Rightarrow> int" where
  "pub_msq_check_size mqid qsize w =
     (case ip_queues w mqid of
        None \<Rightarrow> SW_ERR
      | Some q \<Rightarrow>
          if IPC_QU_THRESHOLD \<le> ((mq_cbytes q + qsize) * 1000 div mq_qbytes q + 5) div 10 then SW_ERR else SW_OK)"

definition pub_msq_open :: "int \<Rightarrow> ipc_world \<Rightarrow> int" where
  "pub_msq_open key w = (case ip_keys w key of None \<Rightarrow> SW_ERR | Some mqid \<Rightarrow> mqid)"

definition pub_msq_creat :: "int \<Rightarrow> int \<Rightarrow> int \<Rightarrow> ipc_world \<Rightarrow> int \<times> ipc_world" where
  "pub_msq_creat newid key qsize w =
     (let (mqid, w1) =
        (case ip_keys w key of
           Some mqid \<Rightarrow> (mqid, w)
         | None \<Rightarrow>
             if newid < 0 then (- 1, w)
             else (newid, (set_queue newid \<lparr>mq_msgs = [], mq_qbytes = ip_msgmnb w\<rparr> w)
               \<lparr>ip_keys := if key = 0 then ip_keys w else (ip_keys w)(key \<mapsto> newid)\<rparr>)) in
      if mqid < 0 then (SW_ERR, w1)
      else if 0 < qsize then
        (if ip_msgmnb w < qsize then (SW_ERR, w1)
         else
           (case ip_queues w1 mqid of
              None \<Rightarrow> (SW_ERR, w1)
            | Some q \<Rightarrow> (mqid, set_queue mqid (q\<lparr>mq_qbytes := qsize\<rparr>) w1)))
      else (mqid, w1))"

definition pub_msq_rm :: "int \<Rightarrow> ipc_world \<Rightarrow> int \<times> ipc_world" where
  "pub_msq_rm mqid w =
     (if ip_queues w mqid = None then (- 1, w)
      else (0, w\<lparr>ip_queues := (ip_queues w)(mqid := None),
                 ip_keys := (\<lambda>k. if ip_keys w k = Some mqid then None else ip_keys w k)\<rparr>))"

definition pub_msq_get :: "int \<Rightarrow> nat \<Rightarrow> int \<Rightarrow> ipc_world \<Rightarrow> (msq_result \<times> ipc_world) option" where
  "pub_msq_get mqid cap t w =
     (case ip_queues w mqid of
        None \<Rightarrow> Some (Msq_error, w)
      | Some q \<Rightarrow>
          let (r, ms) = msgrcv QMSG_MAX_LEN t (mq_msgs q) in
          (case r of
             Msq_msg ty d \<Rightarrow>
               if cap < length d + 1 then None else Some (r, set_queue mqid (q\<lparr>mq_msgs := ms\<rparr>) w)
           | Msq_none \<Rightarrow> if cap < 1 then None else Some (r, w)
           | Msq_error \<Rightarrow> Some (r, w)))"

definition pub_msq_put :: "int \<Rightarrow> cstr option \<Rightarrow> int \<Rightarrow> int \<Rightarrow> ipc_world \<Rightarrow> (int \<times> ipc_world) option" where
  "pub_msq_put mqid buf len mtype w =
     (case buf of
        None \<Rightarrow> Some (SW_ERR, w)
      | Some b \<Rightarrow>
          let t = s32 mtype in
          if mqid < 0 \<or> len < 0 \<or> t < 0 then Some (SW_ERR, w)
          else if QMSG_MAX_LEN < len then Some (SW_ERR, w)
          else if length b < nat len then None
          else
            (case ip_queues w mqid of
               None \<Rightarrow> Some (SW_ERR, w)
             | Some q \<Rightarrow>
                 if t < 1 \<or> ip_msgmax w < len \<or> mq_qbytes q < mq_cbytes q + len \<or> mq_qbytes q < int (length (mq_msgs q)) + 1 then Some (SW_ERR, w)
                 else Some (SW_OK, set_queue mqid (q\<lparr>mq_msgs := mq_msgs q @ [(t, take (nat len) b)]\<rparr>) w)))"

text \<open>The loop that empties the queue of one type; the messages go to a file.  The type is the one of the message taken
  last.  A message without data ends it.\<close>

lemma msg_pick_less: "msg_pick t ms = Some i \<Longrightarrow> i < length ms"
  by (auto simp: msg_pick_def dest: find_idx_Some split: if_splits list.splits)

lemma drop_nth_length: "i < length ms \<Longrightarrow> length (drop_nth i ms) < length ms"
  by (auto simp: drop_nth_def)

lemma msgrcv_shorter: "msgrcv n t ms = (Msq_msg ty d, ms') \<Longrightarrow> length ms' < length ms"
  by (auto simp: msgrcv_def drop_nth_length dest: msg_pick_less split: option.splits if_splits)

function clear_loop :: "int \<Rightarrow> (int \<times> cstr) list \<Rightarrow> (int \<times> cstr) list" where
  "clear_loop t ms =
     (case msgrcv QMSG_MAX_LEN t ms of
        (Msq_msg ty d, ms1) \<Rightarrow> if d = [] then ms1 else clear_loop ty ms1
      | _ \<Rightarrow> ms)"
  by pat_completeness auto

termination
  by (relation "measure (\<lambda>(_, ms). length ms)") (auto dest!: msgrcv_shorter [OF sym])

declare clear_loop.simps [simp del]

definition pub_msq_clear :: "int \<Rightarrow> int \<Rightarrow> bool \<Rightarrow> ipc_world \<Rightarrow> int \<times> ipc_world" where
  "pub_msq_clear mqid t file_ok w =
     (if \<not> file_ok then (SW_ERR, w)
      else
        (case ip_queues w mqid of
           None \<Rightarrow> (SW_OK, w)
         | Some q \<Rightarrow> (SW_OK, set_queue mqid (q\<lparr>mq_msgs := clear_loop t (mq_msgs q)\<rparr>) w)))"

section \<open>Pipes\<close>

text \<open>Descriptors: \<^verbatim>\<open>open\<close> gives out the lowest one that is free.\<close>

definition free_fd :: "msg_proc \<Rightarrow> nat" where
  "free_fd p = (case find_idx (\<lambda>e. e = None) (mp_fds p) of Some i \<Rightarrow> i | None \<Rightarrow> length (mp_fds p))"

definition put_fd :: "nat \<Rightarrow> fd_entry option \<Rightarrow> msg_proc \<Rightarrow> msg_proc" where
  "put_fd i e p = p\<lparr>mp_fds := (if i < length (mp_fds p) then (mp_fds p)[i := e] else mp_fds p @ [e])\<rparr>"

definition fd_at :: "int \<Rightarrow> msg_proc \<Rightarrow> fd_entry option" where
  "fd_at fd p = (if 0 \<le> fd \<and> nat fd < length (mp_fds p) then mp_fds p ! nat fd else None)"

definition fs_open :: "fs_file \<Rightarrow> msg_proc \<Rightarrow> int \<times> msg_proc" where
  "fs_open f p =
     (if mp_fd_max p \<le> free_fd p then (- 1, p)
      else (int (free_fd p), put_fd (free_fd p) (Some (case f of Fifo n \<Rightarrow> Fd_fifo n | Regular \<Rightarrow> Fd_other)) p))"

definition pub_fifo_open :: "cstr \<Rightarrow> msg_proc \<Rightarrow> ipc_world \<Rightarrow> int \<times> msg_proc \<times> ipc_world" where
  "pub_fifo_open path p w =
     (if mp_fd_max p \<le> free_fd p then (SW_ERROR, p, w)
      else
        (case ip_files w path of
           Some f \<Rightarrow>
             let (fd, p1) = fs_open f p in
             (if f = Regular then SW_ERROR else fd, p1, w)
         | None \<Rightarrow>
             if \<not> ip_mkfifo w path then (SW_ERROR, p, w)
             else
               let n = ip_next w;
                   w1 = w\<lparr>ip_files := (ip_files w)(path \<mapsto> Fifo n), ip_pipes := (ip_pipes w)(n := 0), ip_next := Suc n\<rparr>;
                   (fd, p1) = fs_open (Fifo n) p in
               (fd, p1, w1)))"

text \<open>The tests with \<^verbatim>\<open>select\<close> answer at once; a descriptor that does not fit into a descriptor set, or that is no FIFO,
  is not followed.\<close>

definition check_fd :: "int \<Rightarrow> msg_proc \<Rightarrow> int option" where
  "check_fd fd p = (if fd < 0 \<or> FD_SETSIZE \<le> fd then None else Some (if fd_at fd p = None then - 1 else 0))"

definition pub_fifo_put :: "int \<Rightarrow> msg_proc \<Rightarrow> ipc_world \<Rightarrow> (int \<times> ipc_world) option" where
  "pub_fifo_put fd p w =
     do {
       r \<leftarrow> check_fd fd p;
       (if r < 0 then Some (- 1, w)
        else
          (case fd_at fd p of
             Some (Fd_fifo n) \<Rightarrow>
               if ip_pipe_max w \<le> ip_pipes w n then Some (- 1, w)
               else Some (0, w\<lparr>ip_pipes := (ip_pipes w)(n := ip_pipes w n + 1)\<rparr>)
           | _ \<Rightarrow> None))
     }"

definition pub_fifo_get :: "int \<Rightarrow> msg_proc \<Rightarrow> ipc_world \<Rightarrow> (int \<times> ipc_world) option" where
  "pub_fifo_get fd p w =
     do {
       r \<leftarrow> check_fd fd p;
       (if r < 0 then Some (- 1, w)
        else
          (case fd_at fd p of
             Some (Fd_fifo n) \<Rightarrow>
               if ip_pipes w n = 0 then Some (- 1, w)
               else Some (0, w\<lparr>ip_pipes := (ip_pipes w)(n := ip_pipes w n - 1)\<rparr>)
           | _ \<Rightarrow> None))
     }"

definition pub_fifo_close :: "int \<Rightarrow> msg_proc \<Rightarrow> int \<times> msg_proc" where
  "pub_fifo_close fd p = (if fd_at fd p = None then (- 1, p) else (0, put_fd (nat fd) None p))"

definition pub_fifo_del :: "cstr \<Rightarrow> ipc_world \<Rightarrow> int \<times> ipc_world" where
  "pub_fifo_del path w =
     (if ip_files w path = None then (- 1, w) else (0, w\<lparr>ip_files := (ip_files w)(path := None)\<rparr>))"

section \<open>Messages\<close>

fun fmt_x :: "nat \<Rightarrow> cstr" where
  "fmt_x n = (if n < 16 then [''0123456789abcdef'' ! n] else fmt_x (n div 16) @ [''0123456789abcdef'' ! (n mod 16)])"

declare fmt_x.simps [simp del]

definition fifo_name :: "cstr \<Rightarrow> int \<Rightarrow> cstr" where
  "fifo_name datapath mqid = datapath @ ''/.x'' @ fmt_x (nat (mqid mod 2 ^ 32)) @ ''.fifo''"

text \<open>\<^verbatim>\<open>arrFdKeys\<close>: which queue belongs to a descriptor.\<close>

definition key_at :: "int \<Rightarrow> msg_proc \<Rightarrow> int option" where
  "key_at fd p = (if 0 \<le> fd \<and> nat fd < length (mp_keys p) then Some (mp_keys p ! nat fd) else None)"

definition put_key :: "int \<Rightarrow> int \<Rightarrow> msg_proc \<Rightarrow> msg_proc option" where
  "put_key fd mqid p =
     (if 0 \<le> fd \<and> nat fd < length (mp_keys p) then Some (p\<lparr>mp_keys := (mp_keys p)[nat fd := mqid]\<rparr>) else None)"

definition msg_trans_open :: "cstr option \<Rightarrow> int \<Rightarrow> msg_proc \<Rightarrow> ipc_world \<Rightarrow> (int \<times> msg_proc \<times> ipc_world) option" where
  "msg_trans_open path mqid p w =
     (case path of
        None \<Rightarrow> Some (- 1, p, w)
      | Some dir \<Rightarrow>
          if mqid < 0 then Some (- 1, p, w)
          else if 256 \<le> length (fifo_name dir mqid) then None
          else
            let (fd, p1, w1) = pub_fifo_open (fifo_name dir mqid) p w in
            if fd < 0 \<or> int SW_FD_MAX < fd then Some (SW_ERR, p1, w1)
            else do {
              p2 \<leftarrow> put_key fd mqid p1;
              Some (fd, p2, w1)
            })"

definition msg_load_fd_by_mqid :: "int \<Rightarrow> msg_proc \<Rightarrow> int" where
  "msg_load_fd_by_mqid mqid p =
     (case find_idx (\<lambda>k. k = mqid) (mp_keys p) of Some fd \<Rightarrow> int fd | None \<Rightarrow> SW_ERR)"

definition msg_trans_create ::
    "int \<Rightarrow> cstr option \<Rightarrow> int \<Rightarrow> int \<Rightarrow> msg_proc \<Rightarrow> ipc_world \<Rightarrow> (int \<times> int option \<times> msg_proc \<times> ipc_world) option" where
  "msg_trans_create newid path key qsize p w =
     (case path of
        None \<Rightarrow> Some (SW_ERR, None, p, w)
      | Some dir \<Rightarrow>
          let (mqid, w1) = pub_msq_creat newid key qsize w in
          if mqid < 0 then Some (SW_ERR, None, p, w1)
          else if 256 \<le> length (fifo_name dir mqid) then None
          else
            let (fd, p1, w2) = pub_fifo_open (fifo_name dir mqid) p w1 in
            if fd < 0 then Some (SW_ERR, None, p1, snd (pub_msq_rm mqid w2))
            else if int SW_FD_MAX < fd then
              Some (SW_ERR, None, snd (pub_fifo_close fd p1), snd (pub_fifo_del (fifo_name dir mqid) (snd (pub_msq_rm mqid w2))))
            else do {
              p2 \<leftarrow> put_key fd mqid p1;
              Some (fd, Some mqid, p2, w2)
            })"

text \<open>The descriptor is reused for the answer of \<^verbatim>\<open>unlink\<close> before the table is cleared.\<close>

definition msg_trans_rm :: "cstr option \<Rightarrow> int \<Rightarrow> msg_proc \<Rightarrow> ipc_world \<Rightarrow> (int \<times> msg_proc \<times> ipc_world) option" where
  "msg_trans_rm path fd p w =
     (case path of
        None \<Rightarrow> Some (- 1, p, w)
      | Some dir \<Rightarrow>
          if fd \<le> 0 then Some (- 1, p, w)
          else do {
            mqid \<leftarrow> key_at fd p;
            (if mqid < 0 then Some (SW_ERR, p, w)
             else
               let (r, w1) = pub_msq_rm mqid w in
               if r < 0 then Some (SW_ERR, p, w1)
               else if 256 \<le> length (fifo_name dir mqid) then None
               else
                 let (_, p1) = pub_fifo_close fd p;
                     (fd, w2) = pub_fifo_del (fifo_name dir mqid) w1 in
                 if fd < 0 then Some (SW_ERR, p1, w2)
                 else if int SW_FD_MAX < fd then Some (SW_ERR, p1, w2)
                 else do {
                   p2 \<leftarrow> put_key fd (- 1) p1;
                   Some (SW_OK, p2, w2)
                 })
          })"

definition msg_trans_rcv :: "int \<Rightarrow> nat \<Rightarrow> int \<Rightarrow> msg_proc \<Rightarrow> ipc_world \<Rightarrow> (int \<times> (int \<times> cstr) option \<times> ipc_world) option" where
  "msg_trans_rcv fd cap t p w =
     do {
       mqid \<leftarrow> key_at fd p;
       (if mqid < 0 then Some (SW_ERR, None, w)
        else do {
          (r, w1) \<leftarrow> pub_fifo_get fd p w;
          (if r \<noteq> SW_OK then Some (SW_ERR, None, w1)
           else do {
             (m, w2) \<leftarrow> pub_msq_get mqid cap t w1;
             Some (case m of Msq_error \<Rightarrow> (SW_ERR, None, w2) | Msq_none \<Rightarrow> (SW_OK, None, w2)
                   | Msq_msg ty d \<Rightarrow> (SW_OK, Some (ty, d), w2))
           })
        })
     }"

definition msg_trans_send :: "bool \<Rightarrow> int \<Rightarrow> cstr option \<Rightarrow> int \<Rightarrow> int \<Rightarrow> msg_proc \<Rightarrow> ipc_world \<Rightarrow> (int \<times> ipc_world) option" where
  "msg_trans_send file_ok fd buf t len p w =
     do {
       mqid \<leftarrow> key_at fd p;
       (if mqid < 0 then Some (SW_ERR, w)
        else
          let (r, w1) = pub_msq_clear mqid t file_ok w in
          if r \<noteq> SW_OK then Some (SW_ERR, w1)
          else do {
            (r2, w2) \<leftarrow> pub_msq_put mqid buf len t w1;
            (if r2 \<noteq> SW_OK then Some (SW_ERR, w2)
             else do {
               (r3, w3) \<leftarrow> pub_fifo_put fd p w2;
               Some (if r3 \<noteq> SW_OK then SW_ERR else SW_OK, w3)
             })
          })
     }"

definition close_keys :: "msg_proc \<Rightarrow> msg_proc" where
  "close_keys p =
     p\<lparr>mp_fds := map (\<lambda>(i, e). if i < length (mp_keys p) \<and> 0 < mp_keys p ! i then None else e) (zip [0..<length (mp_fds p)] (mp_fds p))\<rparr>"

definition msg_trans_close_all :: "msg_proc \<Rightarrow> int \<times> msg_proc" where
  "msg_trans_close_all p = (SW_OK, close_keys p)"

section \<open>Mailboxes\<close>

text \<open>The messages of the switch are commands of a fixed size, so they are not empty and not too long.\<close>

definition queue_of :: "int \<Rightarrow> ipc_world \<Rightarrow> (int \<times> cstr) list" where
  "queue_of mqid w = (case ip_queues w mqid of Some q \<Rightarrow> mq_msgs q | None \<Rightarrow> [])"

definition msgs_ok :: "(int \<times> cstr) list \<Rightarrow> bool" where
  "msgs_ok ms \<longleftrightarrow> (\<forall>(t, d) \<in> set ms. 1 \<le> t \<and> d \<noteq> [] \<and> int (length d) \<le> QMSG_MAX_LEN)"

definition box :: "ipc_world \<Rightarrow> int \<Rightarrow> int \<Rightarrow> cstr option" where
  "box w mqid = map_of (queue_of mqid w)"

definition boxes_ok :: "ipc_world \<Rightarrow> bool" where
  "boxes_ok w \<longleftrightarrow> (\<forall>mqid. msgs_ok (queue_of mqid w) \<and> distinct (map fst (queue_of mqid w)))"

lemma boxes_okD: "boxes_ok w \<Longrightarrow> msgs_ok (queue_of k w)" "boxes_ok w \<Longrightarrow> distinct (map fst (queue_of k w))"
  by (simp_all add: boxes_ok_def)

lemma queue_of_set [simp]: "queue_of k (set_queue mqid q w) = (if k = mqid then mq_msgs q else queue_of k w)"
  by (simp add: queue_of_def set_queue_def)

lemma queue_of_pipes [simp]: "queue_of k (w\<lparr>ip_pipes := f\<rparr>) = queue_of k w"
  by (simp add: queue_of_def)

lemma pipes_set_queue [simp]: "ip_pipes (set_queue mqid q w) = ip_pipes w"
  by (simp add: set_queue_def)

lemma drop_nth_set: "set (drop_nth i ms) \<subseteq> set ms"
  by (auto simp: drop_nth_def dest: in_set_takeD in_set_dropD)

lemma msgs_ok_subset: "msgs_ok ms \<Longrightarrow> set ms' \<subseteq> set ms \<Longrightarrow> msgs_ok ms'"
  unfolding msgs_ok_def by blast

lemma filter_drop_nth: "i < length ms \<Longrightarrow> \<not> P (ms ! i) \<Longrightarrow> filter P (drop_nth i ms) = filter P ms"
proof -
  assume i: "i < length ms" "\<not> P (ms ! i)"
  have "filter P ms = filter P (take i ms @ ms ! i # drop (Suc i) ms)" using i(1) id_take_nth_drop by metis
  then show ?thesis using i(2) by (simp add: drop_nth_def)
qed

lemma msgrcv_typed:
  assumes "msgs_ok ms" and "0 < t"
  shows "msgrcv QMSG_MAX_LEN t ms =
    (case find_idx (\<lambda>m. fst m = t) ms of None \<Rightarrow> (Msq_none, ms) | Some i \<Rightarrow> (Msq_msg t (snd (ms ! i)), drop_nth i ms))"
proof (cases "find_idx (\<lambda>m. fst m = t) ms")
  case (Some i)
  from find_idx_Some [OF Some] have "i < length ms" "fst (ms ! i) = t" by auto
  moreover from this have "int (length (snd (ms ! i))) \<le> QMSG_MAX_LEN" using assms(1) nth_mem unfolding msgs_ok_def by fastforce
  ultimately show ?thesis using Some assms(2) by (simp add: msgrcv_def msg_pick_def)
qed (use assms(2) in \<open>simp add: msgrcv_def msg_pick_def\<close>)

lemma clear_typed:
  "msgs_ok ms \<Longrightarrow> 0 < t \<Longrightarrow> clear_loop t ms = filter (\<lambda>m. fst m \<noteq> t) ms"
proof (induction "length ms" arbitrary: ms rule: less_induct)
  case less
  show ?case
  proof (cases "find_idx (\<lambda>m. fst m = t) ms")
    case None
    then have "filter (\<lambda>m. fst m \<noteq> t) ms = ms" by (auto simp: find_idx_None)
    then show ?thesis by (subst clear_loop.simps) (simp add: msgrcv_typed [OF less.prems] None)
  next
    case (Some i)
    from find_idx_Some [OF Some] have i: "i < length ms" "fst (ms ! i) = t" by auto
    have "snd (ms ! i) \<noteq> []" using less.prems(1) i nth_mem unfolding msgs_ok_def by fastforce
    then have "clear_loop t ms = clear_loop t (drop_nth i ms)"
      by (subst clear_loop.simps) (simp add: msgrcv_typed [OF less.prems] Some)
    also have "\<dots> = filter (\<lambda>m. fst m \<noteq> t) (drop_nth i ms)"
      using less.hyps [OF drop_nth_length [OF i(1)] msgs_ok_subset [OF less.prems(1) drop_nth_set] less.prems(2)] .
    also have "\<dots> = filter (\<lambda>m. fst m \<noteq> t) ms" using i by (simp add: filter_drop_nth)
    finally show ?thesis .
  qed
qed

lemma map_of_filter_fst: "map_of (filter (\<lambda>m. fst m \<noteq> t) ms) = (map_of ms)(t := None)"
  by (induction ms) auto

lemma map_of_append_one: "map_of ms t = None \<Longrightarrow> map_of (ms @ [(t, d)]) = (map_of ms)(t \<mapsto> d)"
  by (rule ext) (auto simp: map_add_def split: option.splits)

lemma distinct_filter_fst: "distinct (map fst ms) \<Longrightarrow> distinct (map fst (filter P ms))"
  by (induction ms) auto

lemma msgs_ok_filter: "msgs_ok ms \<Longrightarrow> msgs_ok (filter P ms)"
  by (auto simp: msgs_ok_def)

text \<open>A send that succeeds: what it does to its queue and to the pipe.\<close>

definition linked :: "msg_proc \<Rightarrow> int \<Rightarrow> int \<Rightarrow> nat \<Rightarrow> bool" where
  "linked p fd mqid n \<longleftrightarrow> key_at fd p = Some mqid \<and> fd_at fd p = Some (Fd_fifo n)"

definition msg_ok :: "int \<Rightarrow> cstr \<Rightarrow> bool" where
  "msg_ok t d \<longleftrightarrow> 1 \<le> t \<and> t < 2 ^ 31 \<and> d \<noteq> [] \<and> int (length d) \<le> QMSG_MAX_LEN"

lemma send_ok:
  assumes s: "msg_trans_send fo fd (Some d) t (int (length d)) p w = Some (SW_OK, w')" and d: "msg_ok t d"
    and l: "linked p fd mqid n"
  obtains q where "ip_queues w mqid = Some q" "0 \<le> mqid"
    "w' = (set_queue mqid (q\<lparr>mq_msgs := clear_loop t (mq_msgs q) @ [(t, d)]\<rparr>) w)\<lparr>ip_pipes := (ip_pipes w)(n := ip_pipes w n + 1)\<rparr>"
proof -
  have t: "s32 t = t" "1 \<le> t" using d by (auto simp: msg_ok_def s32_id)
  have m: "0 \<le> mqid" "fo" using s l by (auto simp: msg_trans_send_def linked_def pub_msq_clear_def split: if_splits)
  show ?thesis
  proof (cases "ip_queues w mqid")
    case None
    then show ?thesis using s l m t by (auto simp: msg_trans_send_def linked_def pub_msq_clear_def pub_msq_put_def split: if_splits)
  next
    case (Some q)
    have "w' = (set_queue mqid (q\<lparr>mq_msgs := clear_loop t (mq_msgs q) @ [(t, d)]\<rparr>) w)\<lparr>ip_pipes := (ip_pipes w)(n := ip_pipes w n + 1)\<rparr>"
      using s l m t Some
      by (auto simp: msg_trans_send_def linked_def pub_msq_clear_def pub_msq_put_def pub_fifo_put_def set_queue_def
          split: if_splits bind_splits)
    then show ?thesis using that Some m by blast
  qed
qed

text \<open>A receive that does not fail: one byte less, and the message \<^verbatim>\<open>msgrcv\<close> picks.\<close>

lemma rcv_ok:
  assumes r: "msg_trans_rcv fd cap t p w = Some (SW_OK, m, w')" and l: "linked p fd mqid n"
  obtains q r ms where "ip_queues w mqid = Some q" "0 < ip_pipes w n" "msgrcv QMSG_MAX_LEN t (mq_msgs q) = (r, ms)"
    "r = (case m of None \<Rightarrow> Msq_none | Some (ty, d) \<Rightarrow> Msq_msg ty d)"
    "\<And>k. queue_of k w' = (if k = mqid then ms else queue_of k w)"
    "ip_pipes w' = (ip_pipes w)(n := ip_pipes w n - 1)"
proof -
  let ?w1 = "w\<lparr>ip_pipes := (ip_pipes w)(n := ip_pipes w n - 1)\<rparr>"
  have m: "0 \<le> mqid" "0 < ip_pipes w n" "pub_fifo_get fd p w = Some (0, ?w1)"
    using r l by (auto simp: msg_trans_rcv_def linked_def pub_fifo_get_def check_fd_def split: if_splits bind_splits)
  then obtain x where x: "pub_msq_get mqid cap t ?w1 = Some (x, w')" "x \<noteq> Msq_error"
      "m = (case x of Msq_msg ty d \<Rightarrow> Some (ty, d) | _ \<Rightarrow> None)"
    using r l by (auto simp: msg_trans_rcv_def linked_def split: bind_splits msq_result.splits)
  show ?thesis
  proof (cases "ip_queues w mqid")
    case None
    then show ?thesis using x by (simp add: pub_msq_get_def)
  next
    case (Some q)
    obtain r ms where rm: "msgrcv QMSG_MAX_LEN t (mq_msgs q) = (r, ms)" by fastforce
    have none: "r = Msq_none \<Longrightarrow> ms = mq_msgs q" using rm by (auto simp: msgrcv_def split: option.splits if_splits)
    have xr: "x = r" using x rm Some by (auto simp: pub_msq_get_def split: msq_result.splits if_splits)
    have "queue_of k w' = (if k = mqid then ms else queue_of k w)" for k
      using x rm Some none by (auto simp: pub_msq_get_def queue_of_def set_queue_def split: msq_result.splits if_splits)
    moreover have "ip_pipes w' = ip_pipes ?w1"
      using x rm Some by (auto simp: pub_msq_get_def split: msq_result.splits if_splits)
    moreover have "r = (case m of None \<Rightarrow> Msq_none | Some (ty, d) \<Rightarrow> Msq_msg ty d)"
      using x xr by (auto split: msq_result.splits)
    ultimately show ?thesis using that [OF Some m(2) rm] by simp
  qed
qed

lemma drop_nth_filter:
  assumes "distinct (map f ms)" and "i < length ms"
  shows "drop_nth i ms = filter (\<lambda>m. f m \<noteq> f (ms ! i)) ms"
proof -
  have ms: "ms = take i ms @ ms ! i # drop (Suc i) ms" using assms(2) id_take_nth_drop by metis
  then have "distinct (map f (take i ms @ ms ! i # drop (Suc i) ms))" using assms(1) by metis
  then have "f (ms ! i) \<notin> f ` set (take i ms)" "f (ms ! i) \<notin> f ` set (drop (Suc i) ms)" by auto
  then have n: "\<forall>m \<in> set (take i ms). f m \<noteq> f (ms ! i)" "\<forall>m \<in> set (drop (Suc i) ms). f m \<noteq> f (ms ! i)"
    by (metis imageI)+
  have "filter (\<lambda>m. f m \<noteq> f (ms ! i)) ms = filter (\<lambda>m. f m \<noteq> f (ms ! i)) (take i ms @ ms ! i # drop (Suc i) ms)"
    using ms by metis
  also have "\<dots> = take i ms @ drop (Suc i) ms" using n by (simp add: filter_id_conv)
  finally show ?thesis by (simp add: drop_nth_def)
qed

lemma take_box:
  assumes ok: "msgs_ok ms" "distinct (map fst ms)" and t: "0 < t"
    and r: "msgrcv QMSG_MAX_LEN t ms = (r, ms')"
  shows "r = (case map_of ms t of None \<Rightarrow> Msq_none | Some d \<Rightarrow> Msq_msg t d)" and "ms' = filter (\<lambda>m. fst m \<noteq> t) ms"
proof -
  have "r = (case map_of ms t of None \<Rightarrow> Msq_none | Some d \<Rightarrow> Msq_msg t d) \<and> ms' = filter (\<lambda>m. fst m \<noteq> t) ms"
  proof (cases "find_idx (\<lambda>m. fst m = t) ms")
    case None
    then have "\<forall>m \<in> set ms. fst m \<noteq> t" by (simp add: find_idx_None)
    moreover from this have "map_of ms t = None" by (auto simp: map_of_eq_None_iff)
    ultimately show ?thesis using r by (simp add: msgrcv_typed [OF ok(1) t] None filter_id_conv)
  next
    case (Some i)
    from find_idx_Some [OF Some] have i: "i < length ms" "fst (ms ! i) = t" by auto
    then have "map_of ms t = Some (snd (ms ! i))"
      using ok(2) map_of_eq_Some_iff [OF ok(2)] nth_mem [OF i(1)] by (metis prod.collapse)
    moreover have "drop_nth i ms = filter (\<lambda>m. fst m \<noteq> t) ms" using drop_nth_filter [OF ok(2) i(1)] i(2) by simp
    ultimately show ?thesis using r by (simp add: msgrcv_typed [OF ok(1) t] Some)
  qed
  then show "r = (case map_of ms t of None \<Rightarrow> Msq_none | Some d \<Rightarrow> Msq_msg t d)" and "ms' = filter (\<lambda>m. fst m \<noteq> t) ms" by simp_all
qed

lemma send_boxes:
  assumes s: "msg_trans_send fo fd (Some d) t (int (length d)) p w = Some (SW_OK, w')" and d: "msg_ok t d"
    and l: "linked p fd mqid n" and ok: "boxes_ok w"
  shows "boxes_ok w' \<and> box w' = (box w)(mqid := (box w mqid)(t \<mapsto> d))"
proof -
  obtain q where q: "ip_queues w mqid = Some q"
    "w' = (set_queue mqid (q\<lparr>mq_msgs := clear_loop t (mq_msgs q) @ [(t, d)]\<rparr>) w)\<lparr>ip_pipes := (ip_pipes w)(n := ip_pipes w n + 1)\<rparr>"
    using send_ok [OF s d l] by metis
  have qo: "queue_of mqid w = mq_msgs q" using q(1) by (simp add: queue_of_def)
  have qok: "msgs_ok (mq_msgs q)" "distinct (map fst (mq_msgs q))" using boxes_okD [OF ok, of mqid] qo by simp_all
  have t: "0 < t" using d by (simp add: msg_ok_def)
  let ?f = "filter (\<lambda>m. fst m \<noteq> t) (mq_msgs q)"
  have qs: "queue_of k w' = (if k = mqid then ?f @ [(t, d)] else queue_of k w)" for k
    using q(2) by (simp add: clear_typed [OF qok(1) t])
  have "msgs_ok (?f @ [(t, d)])" using msgs_ok_filter [OF qok(1)] d by (auto simp: msgs_ok_def msg_ok_def)
  moreover have "distinct (map fst (?f @ [(t, d)]))" using distinct_filter_fst [OF qok(2)] by auto
  ultimately have "boxes_ok w'" using ok qs by (simp add: boxes_ok_def)
  moreover have "map_of (?f @ [(t, d)]) = (map_of (mq_msgs q))(t \<mapsto> d)"
    by (subst map_of_append_one) (simp_all add: map_of_filter_fst)
  ultimately show ?thesis using qs qo by (auto simp: box_def fun_eq_iff)
qed

lemma rcv_boxes:
  assumes r: "msg_trans_rcv fd cap t p w = Some (SW_OK, m, w')" and t: "0 < t"
    and l: "linked p fd mqid n" and ok: "boxes_ok w"
  shows "boxes_ok w' \<and> m = map_option (Pair t) (box w mqid t) \<and> box w' = (box w)(mqid := (box w mqid)(t := None))"
proof -
  obtain q r ms where q: "ip_queues w mqid = Some q" "msgrcv QMSG_MAX_LEN t (mq_msgs q) = (r, ms)"
    "r = (case m of None \<Rightarrow> Msq_none | Some (ty, d) \<Rightarrow> Msq_msg ty d)"
    "\<And>k. queue_of k w' = (if k = mqid then ms else queue_of k w)"
    using rcv_ok [OF r l] by metis
  have qo: "queue_of mqid w = mq_msgs q" using q(1) by (simp add: queue_of_def)
  have qok: "msgs_ok (mq_msgs q)" "distinct (map fst (mq_msgs q))" using boxes_okD [OF ok, of mqid] qo by simp_all
  note tb = take_box [OF qok t q(2)]
  have "boxes_ok w'"
    using ok q(4) tb(2) msgs_ok_filter [OF qok(1)] distinct_filter_fst [OF qok(2)] by (simp add: boxes_ok_def)
  moreover have "m = map_option (Pair t) (box w mqid t)"
    using tb(1) q(3) qo by (auto simp: box_def split: option.splits)
  ultimately show ?thesis using q(4) tb(2) qo by (auto simp: box_def map_of_filter_fst fun_eq_iff)
qed

section \<open>Runs\<close>

text \<open>Sends and receives of any processes, in any order; calls that fail are part of a run.  The answer of a call
  is its return code and, for a receive, the message.\<close>

datatype msg_event = Put msg_proc bool int int cstr | Take msg_proc int nat int

type_synonym msg_answer = "int \<times> (int \<times> cstr) option"

fun msg_call :: "msg_event \<Rightarrow> ipc_world \<Rightarrow> (msg_answer \<times> ipc_world) option" where
  "msg_call (Put p fo fd t d) w = do {
     (r, w1) \<leftarrow> msg_trans_send fo fd (Some d) t (int (length d)) p w;
     Some ((r, None), w1)
   }"
| "msg_call (Take p fd cap t) w = do {
     (r, m, w1) \<leftarrow> msg_trans_rcv fd cap t p w;
     Some ((r, m), w1)
   }"

fun msg_run :: "msg_event list \<Rightarrow> ipc_world \<Rightarrow> (msg_answer list \<times> ipc_world) option" where
  "msg_run [] w = Some ([], w)"
| "msg_run (e # es) w = do {
     (a, w1) \<leftarrow> msg_call e w;
     (as, w2) \<leftarrow> msg_run es w1;
     Some (a # as, w2)
   }"

text \<open>The queues as lists of messages, at most one for each session.  A send that succeeds puts its message last,
  in the place of the one its session had; a send that fails leaves the queue, or takes the old message out, or puts
  the new one in.  A receive of type 0 takes the first message, one of a positive type the message of that session.\<close>

definition others :: "int \<Rightarrow> (int \<times> cstr) list \<Rightarrow> (int \<times> cstr) list" where
  "others t ms = filter (\<lambda>m. fst m \<noteq> t) ms"

definition wanted :: "int \<Rightarrow> (int \<times> cstr) list \<Rightarrow> (int \<times> cstr) option" where
  "wanted t ms = (if t = 0 then (case ms of [] \<Rightarrow> None | m # _ \<Rightarrow> Some m) else map_option (Pair t) (map_of ms t))"

definition taken_out :: "(int \<times> cstr) option \<Rightarrow> (int \<times> cstr) list \<Rightarrow> (int \<times> cstr) list" where
  "taken_out m ms = (case m of None \<Rightarrow> ms | Some (t, _) \<Rightarrow> others t ms)"

fun box_step :: "msg_event \<Rightarrow> msg_answer \<Rightarrow> (int \<Rightarrow> (int \<times> cstr) list) \<Rightarrow> (int \<Rightarrow> (int \<times> cstr) list) \<Rightarrow> bool" where
  "box_step (Put p fo fd t d) (r, m) qs qs' \<longleftrightarrow>
     (let q = the (key_at fd p); sent = qs(q := others t (qs q) @ [(t, d)]) in
      m = None \<and> (if r = SW_OK then qs' = sent else qs' = qs \<or> qs' = qs(q := others t (qs q)) \<or> qs' = sent))"
| "box_step (Take p fd cap t) (r, m) qs qs' \<longleftrightarrow>
     (let q = the (key_at fd p) in
      if r = SW_OK then m = wanted t (qs q) \<and> qs' = qs(q := taken_out m (qs q)) else m = None \<and> qs' = qs)"

fun box_run :: "msg_event list \<Rightarrow> msg_answer list \<Rightarrow> (int \<Rightarrow> (int \<times> cstr) list) \<Rightarrow> (int \<Rightarrow> (int \<times> cstr) list) \<Rightarrow> bool" where
  "box_run [] [] qs qs' \<longleftrightarrow> qs' = qs"
| "box_run (e # es) (a # as) qs qs' \<longleftrightarrow> (\<exists>qs1. box_step e a qs qs1 \<and> box_run es as qs1 qs')"
| "box_run _ _ _ _ \<longleftrightarrow> False"

fun event_ok :: "msg_event \<Rightarrow> bool" where
  "event_ok (Put p fo fd t d) \<longleftrightarrow> msg_ok t d"
| "event_ok (Take p fd cap t) \<longleftrightarrow> 0 \<le> t"

abbreviation queues :: "ipc_world \<Rightarrow> int \<Rightarrow> (int \<times> cstr) list" where
  "queues w \<equiv> (\<lambda>q. queue_of q w)"

lemma queues_pipes: "ip_queues w' = ip_queues w \<Longrightarrow> queues w' = queues w"
  by (simp add: queue_of_def fun_eq_iff)

lemma queues_set: "queues (set_queue q x w) = (queues w)(q := mq_msgs x)"
  by (simp add: fun_eq_iff)

lemma boxes_ok_upd:
  "boxes_ok w \<Longrightarrow> queues w' = (queues w)(q := ms) \<Longrightarrow> msgs_ok ms \<Longrightarrow> distinct (map fst ms) \<Longrightarrow> boxes_ok w'"
  unfolding boxes_ok_def by (metis fun_upd_apply)

lemma others_ok: "msgs_ok ms \<Longrightarrow> distinct (map fst ms) \<Longrightarrow> msgs_ok (others t ms) \<and> distinct (map fst (others t ms))"
  by (simp add: others_def msgs_ok_filter distinct_filter_fst)

lemma sent_ok:
  "msgs_ok ms \<Longrightarrow> distinct (map fst ms) \<Longrightarrow> msg_ok t d \<Longrightarrow>
   msgs_ok (others t ms @ [(t, d)]) \<and> distinct (map fst (others t ms @ [(t, d)]))"
  using others_ok [of ms t] by (auto simp: others_def msgs_ok_def msg_ok_def)

lemma fifo_put_queues: "pub_fifo_put fd p w = Some (r, w') \<Longrightarrow> ip_queues w' = ip_queues w"
  by (auto simp: pub_fifo_put_def split: bind_splits if_splits option.splits fd_entry.splits)

lemma fifo_get_queues: "pub_fifo_get fd p w = Some (r, w') \<Longrightarrow> ip_queues w' = ip_queues w"
  by (auto simp: pub_fifo_get_def split: bind_splits if_splits option.splits fd_entry.splits)

lemma clear_queues:
  assumes "boxes_ok w" and "0 < t" and "pub_msq_clear q t fo w = (r, w')"
  shows "queues w' = queues w \<or> queues w' = (queues w)(q := others t (queue_of q w))"
    and "r = SW_OK \<Longrightarrow> queues w' = (queues w)(q := others t (queue_of q w))"
proof -
  have "queues w' = queues w \<and> r \<noteq> SW_OK \<or> queues w' = (queues w)(q := others t (queue_of q w))"
  proof (cases "ip_queues w q")
    case None
    then have "queue_of q w = []" by (simp add: queue_of_def)
    with None assms(3) show ?thesis by (auto simp: pub_msq_clear_def others_def split: if_splits)
  next
    case (Some x)
    then have x: "queue_of q w = mq_msgs x" by (simp add: queue_of_def)
    then have "msgs_ok (mq_msgs x)" using boxes_okD(1) [OF assms(1), of q] by simp
    from clear_typed [OF this assms(2)] Some assms(3) x show ?thesis
      by (auto simp: pub_msq_clear_def others_def queues_set split: if_splits)
  qed
  then show "queues w' = queues w \<or> queues w' = (queues w)(q := others t (queue_of q w))"
    and "r = SW_OK \<Longrightarrow> queues w' = (queues w)(q := others t (queue_of q w))" by auto
qed

lemma put_queues:
  assumes "pub_msq_put q (Some d) (int (length d)) t w = Some (r, w')" and "msg_ok t d"
  shows "if r = SW_OK then queues w' = (queues w)(q := queue_of q w @ [(t, d)]) else w' = w"
proof -
  have "s32 t = t" using assms(2) by (auto simp: msg_ok_def s32_id)
  moreover have "queue_of q w = mq_msgs x" if "ip_queues w q = Some x" for x using that by (simp add: queue_of_def)
  ultimately show ?thesis
    using assms(1) by (auto simp: pub_msq_put_def queues_set Let_def split: if_splits option.splits)
qed

lemma boxes_ok_same: "boxes_ok w \<Longrightarrow> queues w' = queues w \<Longrightarrow> boxes_ok w'"
  unfolding boxes_ok_def by metis

lemma send_step:
  assumes call: "msg_trans_send fo fd (Some d) t (int (length d)) p w = Some (r, w')"
    and ok: "boxes_ok w" and d: "msg_ok t d"
  shows "boxes_ok w' \<and> box_step (Put p fo fd t d) (r, None) (queues w) (queues w')"
proof -
  from call obtain q where q: "key_at fd p = Some q" by (auto simp: msg_trans_send_def split: bind_splits)
  let ?old = "queue_of q w"
  have t: "0 < t" using d by (simp add: msg_ok_def)
  note oldok = boxes_okD [OF ok, of q]
  obtain r1 w1 where c: "pub_msq_clear q t fo w = (r1, w1)" by fastforce
  note w1 = clear_queues [OF ok t c]
  have step: "boxes_ok w' \<and> box_step (Put p fo fd t d) (r, None) (queues w) (queues w')"
    if "if r = SW_OK then queues w' = (queues w)(q := others t ?old @ [(t, d)])
        else queues w' = queues w \<or> queues w' = (queues w)(q := others t ?old) \<or>
          queues w' = (queues w)(q := others t ?old @ [(t, d)])"
  proof
    from that consider "queues w' = queues w" | "queues w' = (queues w)(q := others t ?old)"
      | "queues w' = (queues w)(q := others t ?old @ [(t, d)])" by (auto split: if_splits)
    then show "boxes_ok w'"
    proof cases
      case 1
      then show ?thesis by (rule boxes_ok_same [OF ok])
    next
      case 2
      then show ?thesis by (rule boxes_ok_upd [OF ok]) (use others_ok [OF oldok, of t] in simp_all)
    next
      case 3
      then show ?thesis by (rule boxes_ok_upd [OF ok]) (use sent_ok [OF oldok d] in simp_all)
    qed
  qed (use that q in \<open>simp add: Let_def\<close>)
  show ?thesis
  proof (cases "q < 0 \<or> r1 \<noteq> SW_OK")
    case True
    then have "r = SW_ERR" "w' = w \<or> w' = w1" using call q c by (auto simp: msg_trans_send_def split: if_splits)
    with w1(1) show ?thesis by (intro step) auto
  next
    case False
    with w1(2) have q1: "queues w1 = (queues w)(q := others t ?old)" by simp
    from call q c False obtain r2 w2 where put: "pub_msq_put q (Some d) (int (length d)) t w1 = Some (r2, w2)"
      and rest: "if r2 \<noteq> SW_OK then r = SW_ERR \<and> w' = w2
         else \<exists>r3. pub_fifo_put fd p w2 = Some (r3, w') \<and> r = (if r3 \<noteq> SW_OK then SW_ERR else SW_OK)"
      by (auto simp: msg_trans_send_def split: bind_splits if_splits)
    note q2 = put_queues [OF put d]
    show ?thesis
    proof (cases "r2 = SW_OK")
      case True
      with rest obtain r3 where f: "pub_fifo_put fd p w2 = Some (r3, w')" by auto
      have "queues w' = (queues w)(q := others t ?old @ [(t, d)])"
        using queues_pipes [OF fifo_put_queues [OF f]] q2 True q1 by (simp add: fun_eq_iff)
      then show ?thesis by (intro step) simp
    next
      case False
      with rest q2 q1 show ?thesis by (intro step) auto
    qed
  qed
qed

lemma msgrcv_wanted:
  assumes ok: "msgs_ok ms" "distinct (map fst ms)" and t: "0 \<le> t" and r: "msgrcv QMSG_MAX_LEN t ms = (x, ms')"
  shows "x = (case wanted t ms of None \<Rightarrow> Msq_none | Some (ty, d) \<Rightarrow> Msq_msg ty d) \<and> ms' = taken_out (wanted t ms) ms"
proof (cases "t = 0")
  case True
  show ?thesis
  proof (cases ms)
    case Nil
    with True r show ?thesis by (simp add: msgrcv_def msg_pick_def wanted_def taken_out_def)
  next
    case (Cons m ms1)
    then have "int (length (snd m)) \<le> QMSG_MAX_LEN" "fst m \<notin> set (map fst ms1)" using ok by (auto simp: msgs_ok_def)
    moreover from this(2) have "\<forall>x \<in> set ms1. fst x \<noteq> fst m" by (metis image_eqI list.set_map)
    then have "others (fst m) ms = ms1" using Cons by (simp add: others_def filter_id_conv)
    ultimately show ?thesis
      using True r Cons by (cases m) (auto simp: msgrcv_def msg_pick_def drop_nth_def wanted_def taken_out_def)
  qed
next
  case False
  then have w: "wanted t ms = map_option (Pair t) (map_of ms t)" by (simp add: wanted_def)
  show ?thesis
  proof (cases "map_of ms t")
    case None
    then have "filter (\<lambda>m. fst m \<noteq> t) ms = ms" by (auto simp: filter_id_conv map_of_eq_None_iff)
    with None w take_box [OF ok _ r] t False show ?thesis by (simp add: taken_out_def)
  next
    case (Some d)
    with w take_box [OF ok _ r] t False show ?thesis by (simp add: taken_out_def others_def)
  qed
qed

lemma rcv_step:
  assumes call: "msg_trans_rcv fd cap t p w = Some (r, m, w')" and ok: "boxes_ok w" and t: "0 \<le> t"
  shows "boxes_ok w' \<and> box_step (Take p fd cap t) (r, m) (queues w) (queues w')"
proof -
  from call obtain q where q: "key_at fd p = Some q" by (auto simp: msg_trans_rcv_def split: bind_splits)
  let ?old = "queue_of q w"
  note oldok = boxes_okD [OF ok, of q]
  have step: "boxes_ok w' \<and> box_step (Take p fd cap t) (r, m) (queues w) (queues w')"
    if "if r = SW_OK then m = wanted t ?old \<and> queues w' = (queues w)(q := taken_out m ?old) else m = None \<and> queues w' = queues w"
  proof
    have "msgs_ok (taken_out m ?old) \<and> distinct (map fst (taken_out m ?old))"
      using others_ok [OF oldok] oldok by (cases m) (auto simp: taken_out_def)
    with that show "boxes_ok w'" using boxes_ok_same [OF ok] boxes_ok_upd [OF ok] by (cases "r = SW_OK") auto
  qed (use that q in \<open>simp add: Let_def\<close>)
  show ?thesis
  proof (cases "q < 0")
    case True
    with call q show ?thesis by (intro step) (auto simp: msg_trans_rcv_def)
  next
    case False
    with call q obtain r1 w1 where f: "pub_fifo_get fd p w = Some (r1, w1)"
      by (auto simp: msg_trans_rcv_def split: bind_splits)
    note w1 = fifo_get_queues [OF f] and q1 = queues_pipes [OF fifo_get_queues [OF f]]
    show ?thesis
    proof (cases "r1 = SW_OK")
      case False
      with call q f \<open>\<not> q < 0\<close> q1 show ?thesis by (intro step) (auto simp: msg_trans_rcv_def)
    next
      case True
      with call q f \<open>\<not> q < 0\<close> obtain x where x: "pub_msq_get q cap t w1 = Some (x, w')"
        and rm: "(r, m) = (case x of Msq_error \<Rightarrow> (SW_ERR, None) | Msq_none \<Rightarrow> (SW_OK, None) | Msq_msg ty d \<Rightarrow> (SW_OK, Some (ty, d)))"
        by (auto simp: msg_trans_rcv_def split: bind_splits msq_result.splits)
      show ?thesis
      proof (cases "ip_queues w q")
        case None
        with x w1 rm q1 show ?thesis by (intro step) (auto simp: pub_msq_get_def)
      next
        case (Some y)
        then have y: "?old = mq_msgs y" by (simp add: queue_of_def)
        obtain x' ms where g: "msgrcv QMSG_MAX_LEN t (mq_msgs y) = (x', ms)" by fastforce
        from msgrcv_wanted [OF oldok [unfolded y] t g]
        have w: "x' = (case wanted t ?old of None \<Rightarrow> Msq_none | Some (ty, d) \<Rightarrow> Msq_msg ty d)"
          "ms = taken_out (wanted t ?old) ?old" using y by simp_all
        have x': "x = x'" using x g Some w1 by (auto simp: pub_msq_get_def split: msq_result.splits if_splits)
        have same: "(queues w)(q := ?old) = queues w" by (simp add: fun_eq_iff)
        have "queues w' = (queues w)(q := ms)"
        proof (cases x')
          case Msq_none
          with w have "ms = ?old" by (auto simp: taken_out_def split: option.splits)
          with Msq_none x x' g Some w1 q1 same show ?thesis by (auto simp: pub_msq_get_def split: if_splits)
        next
          case Msq_msg
          with x x' g Some w1 have "w' = set_queue q (y\<lparr>mq_msgs := ms\<rparr>) w1" by (auto simp: pub_msq_get_def split: if_splits)
          then show ?thesis using fun_cong [OF q1] by (simp add: fun_eq_iff)
        qed (use w in \<open>auto split: option.splits\<close>)
        with w x' rm show ?thesis by (intro step) (auto split: option.splits)
      qed
    qed
  qed
qed

text \<open>C6: A message queue is one mailbox for every session: in every run of sends and receives of any processes, one
  call after another, a send that succeeds replaces the message its session has in the queue, also one that was never
  fetched, and puts it last; a send that fails leaves the queue alone, or has taken out the old message, or has put the
  new one in its place; a receive that succeeds takes out the message of the session it asks for, or, asked with type
  0 as the processes do, the oldest one, and answers no message exactly when there is none; a receive that fails changes
  no queue.  At every moment a queue holds at most one message of a session.  (Messages are commands of 1 to 131072
  bytes with a session id above 0; overlapping sends do leave two: overlapping_sends_keep_both.)\<close>

theorem queue_is_mailboxes:
  assumes "list_all event_ok es" and "boxes_ok w" and "msg_run es w = Some (as, w')"
  shows "box_run es as (\<lambda>q. queue_of q w) (\<lambda>q. queue_of q w') \<and> boxes_ok w'"
  using assms
proof (induction es arbitrary: w as)
  case Nil
  then show ?case by simp
next
  case (Cons e es)
  from Cons.prems(3) obtain a w1 as1 where run: "msg_call e w = Some (a, w1)" "msg_run es w1 = Some (as1, w')" "as = a # as1"
    by (auto split: bind_splits)
  have "boxes_ok w1 \<and> box_step e a (queues w) (queues w1)"
  proof (cases e)
    case (Put p fo fd t d)
    with run(1) send_step [OF _ Cons.prems(2), of fo fd d t p] Cons.prems(1) show ?thesis by (auto split: bind_splits)
  next
    case (Take p fd cap t)
    with run(1) rcv_step [OF _ Cons.prems(2), of fd cap t p] Cons.prems(1) show ?thesis by (auto split: bind_splits)
  qed
  with Cons.IH [OF _ _ run(2)] Cons.prems(1) run(3) show ?case by auto
qed

text \<open>The send takes no lock.  When two processes have both emptied the queue of a session before either puts its
  message, the queue holds two messages of the session.\<close>

theorem overlapping_sends_keep_both:
  assumes "ip_queues w q = Some x" and "0 \<le> q" and "boxes_ok w" and "msg_ok t d" and "msg_ok t d'"
    and "int (length d) \<le> ip_msgmax w" and "int (length d') \<le> ip_msgmax w"
    and room: "mq_cbytes x + int (length d) + int (length d') \<le> mq_qbytes x" "int (length (mq_msgs x)) + 2 \<le> mq_qbytes x"
  shows "\<exists>w1 w2 w3 w4. pub_msq_clear q t True w = (SW_OK, w1) \<and> pub_msq_clear q t True w1 = (SW_OK, w2) \<and>
    pub_msq_put q (Some d) (int (length d)) t w2 = Some (SW_OK, w3) \<and>
    pub_msq_put q (Some d') (int (length d')) t w3 = Some (SW_OK, w4) \<and>
    queue_of q w4 = others t (queue_of q w) @ [(t, d), (t, d')]"
proof -
  have ms: "msgs_ok (mq_msgs x)" using boxes_okD(1) [OF assms(3), of q] assms(1) by (simp add: queue_of_def)
  have t: "0 < t" "s32 t = t" using assms(4) by (auto simp: msg_ok_def s32_id)
  let ?o = "others t (mq_msgs x)"
  have c1: "clear_loop t (mq_msgs x) = ?o" using clear_typed [OF ms t(1)] by (simp add: others_def)
  have c2: "clear_loop t ?o = ?o" using clear_typed [OF msgs_ok_filter [OF ms] t(1)] by (simp add: others_def)
  have len: "length ?o \<le> length (mq_msgs x)" by (simp add: others_def)
  have bytes: "int (sum_list (map (\<lambda>(_, d). length d) ?o)) \<le> mq_cbytes x"
    unfolding mq_cbytes_def others_def by (induction "mq_msgs x") (auto simp: sum_list_filter_le_nat)
  let ?w = "\<lambda>ms v. set_queue q (x\<lparr>mq_msgs := ms\<rparr>) v"
  show ?thesis
    using assms t c1 c2 len bytes
    by (intro exI [of _ "?w ?o w"] exI [of _ "?w ?o (?w ?o w)"] exI [of _ "?w (?o @ [(t, d)]) (?w ?o (?w ?o w))"]
        exI [of _ "?w (?o @ [(t, d)] @ [(t, d')]) (?w (?o @ [(t, d)]) (?w ?o (?w ?o w)))"])
      (simp add: pub_msq_clear_def pub_msq_put_def set_queue_def queue_of_def msg_ok_def mq_cbytes_def)
qed

definition msg_sender :: msg_proc where
  "msg_sender = \<lparr>mp_fds = [Some Fd_other, Some Fd_other, Some Fd_other, Some (Fd_fifo 130)], mp_fd_max = 1024, mp_keys = [0, 0, 0, 65, 0]\<rparr>"

definition msg_receiver :: msg_proc where
  "msg_receiver = \<lparr>mp_fds = [Some Fd_other, Some Fd_other, Some Fd_other, None, Some (Fd_fifo 130)], mp_fd_max = 1024, mp_keys = [0, 0, 0, 0, 65]\<rparr>"

definition ipc_demo :: ipc_world where
  "ipc_demo = \<lparr>ip_keys = (\<lambda>_. None), ip_queues = [65 \<mapsto> \<lparr>mq_msgs = [], mq_qbytes = 16384\<rparr>],
     ip_files = [''/sw/.x41.fifo'' \<mapsto> Fifo 130], ip_pipes = (\<lambda>_. 0), ip_next = 131, ip_pipe_max = 64,
     ip_mkfifo = (\<lambda>_. True), ip_msgmnb = 16384, ip_msgmax = 8192\<rparr>"

definition msg_events :: "msg_event list" where
  "msg_events = [Put msg_sender True 3 7 ''old'', Put msg_sender True 3 9 ''other'', Put msg_sender True 3 7 ''new'',
     Put msg_sender False 3 8 ''lost'', Take msg_receiver 4 100 0, Take msg_receiver 4 100 7, Take msg_receiver 4 100 0]"

lemma events_ok: "list_all event_ok msg_events"
  by (simp add: msg_events_def msg_ok_def)

lemma demo_boxes: "boxes_ok ipc_demo" "box ipc_demo = (\<lambda>_ _. None)"
  by (auto simp: boxes_ok_def msgs_ok_def box_def queue_of_def ipc_demo_def fun_eq_iff)

definition msg_answers :: "msg_answer list" where
  "msg_answers = [(SW_OK, None), (SW_OK, None), (SW_OK, None), (SW_ERR, None), (SW_OK, Some (9, ''other'')),
     (SW_OK, Some (7, ''new'')), (SW_OK, None)]"

lemma demo_run: "map_option fst (msg_run msg_events ipc_demo) = Some msg_answers"
  by code_simp

theorem queue_is_mailboxes_witness:
  "\<exists>w'. msg_run msg_events ipc_demo = Some (msg_answers, w') \<and> box_run msg_events msg_answers (\<lambda>_. []) (\<lambda>q. queue_of q w')"
proof -
  obtain w' where run: "msg_run msg_events ipc_demo = Some (msg_answers, w')" using demo_run by auto
  have "queues ipc_demo = (\<lambda>_. [])" by (simp add: queue_of_def ipc_demo_def fun_eq_iff)
  with queue_is_mailboxes [OF events_ok demo_boxes(1) run] run show ?thesis by simp
qed

section \<open>Every message has its byte\<close>

text \<open>Sends while the pipe has room, and receives that take any message or find the one they look for.\<close>

inductive msg_step :: "(int \<Rightarrow> nat) \<Rightarrow> ipc_world \<Rightarrow> ipc_world \<Rightarrow> bool" for pipe where
  step_send: "linked p fd q (pipe q) \<Longrightarrow> ip_pipes w (pipe q) < ip_pipe_max w \<Longrightarrow>
    msg_trans_send fo fd buf t len p w = Some (r, w') \<Longrightarrow> msg_step pipe w w'"
| step_rcv: "linked p fd q (pipe q) \<Longrightarrow> t = 0 \<or> m \<noteq> None \<Longrightarrow>
    msg_trans_rcv fd cap t p w = Some (SW_OK, m, w') \<Longrightarrow> msg_step pipe w w'"

inductive msg_reachable :: "(int \<Rightarrow> nat) \<Rightarrow> ipc_world \<Rightarrow> ipc_world \<Rightarrow> bool" for pipe where
  msg_start: "msg_reachable pipe w w"
| msg_next: "msg_reachable pipe w0 w \<Longrightarrow> msg_step pipe w w' \<Longrightarrow> msg_reachable pipe w0 w'"

definition covered :: "(int \<Rightarrow> nat) \<Rightarrow> ipc_world \<Rightarrow> bool" where
  "covered pipe w \<longleftrightarrow> (\<forall>q. length (queue_of q w) \<le> ip_pipes w (pipe q))"

lemma clear_shorter: "length (clear_loop t ms) \<le> length ms"
proof (induction t ms rule: clear_loop.induct)
  case (1 t ms)
  show ?case
  proof (cases "msgrcv QMSG_MAX_LEN t ms")
    case (Pair r ms1)
    show ?thesis
    proof (cases r)
      case (Msq_msg ty d)
      then have "length ms1 < length ms" using Pair msgrcv_shorter by auto
      then show ?thesis using 1 [OF Pair [symmetric] Msq_msg] Pair Msq_msg by (subst clear_loop.simps) auto
    qed (use Pair in \<open>(subst clear_loop.simps, simp)+\<close>)
  qed
qed

lemma cleared_queue: "length (queue_of k (snd (pub_msq_clear q t fo w))) \<le> length (queue_of k w)"
  by (auto simp: pub_msq_clear_def clear_shorter queue_of_def set_queue_def split: option.splits)

lemma put_queue:
  "pub_msq_put q buf len t w = Some (r, w') \<Longrightarrow>
   ip_pipes w' = ip_pipes w \<and> (\<forall>k. length (queue_of k w') = length (queue_of k w) + (if k = q \<and> r = SW_OK then 1 else 0))"
  by (auto simp: pub_msq_put_def queue_of_def set_queue_def Let_def split: option.splits if_splits)

lemma send_covered:
  assumes s: "msg_trans_send fo fd buf t len p w = Some (r, w')" and l: "linked p fd q (pipe q)"
    and room: "ip_pipes w (pipe q) < ip_pipe_max w" and c: "covered pipe w"
  shows "covered pipe w'"
proof -
  let ?w1 = "snd (pub_msq_clear q t fo w)"
  have w1: "length (queue_of k ?w1) \<le> length (queue_of k w)" "ip_pipes ?w1 = ip_pipes w" "ip_pipe_max ?w1 = ip_pipe_max w" for k
    by (auto simp: cleared_queue) (auto simp: pub_msq_clear_def set_queue_def split: option.splits)
  have c1: "covered pipe ?w1" using c w1 le_trans unfolding covered_def by metis
  consider "w' = w" | "w' = ?w1" | r2 w2 where "pub_msq_put q buf len t ?w1 = Some (r2, w2)" "r2 \<noteq> SW_OK" "w' = w2"
    | w2 r3 where "pub_msq_put q buf len t ?w1 = Some (SW_OK, w2)" "pub_fifo_put fd p w2 = Some (r3, w')"
    using s l by (auto simp: msg_trans_send_def linked_def split_beta split: if_splits bind_splits)
  then show ?thesis
  proof cases
    case 3
    then show ?thesis using put_queue [OF 3(1)] c1 by (simp add: covered_def)
  next
    case 4
    have m: "ip_pipe_max w2 = ip_pipe_max w"
      using 4(1) w1 by (auto simp: pub_msq_put_def set_queue_def Let_def split: option.splits if_splits)
    have "ip_pipes w2 (pipe q) < ip_pipe_max w2" using put_queue [OF 4(1)] w1 m room by simp
    then have "w' = w2\<lparr>ip_pipes := (ip_pipes w2)(pipe q := ip_pipes w2 (pipe q) + 1)\<rparr>"
      using 4(2) l by (auto simp: pub_fifo_put_def linked_def check_fd_def split: if_splits)
    then show ?thesis using put_queue [OF 4(1)] c1 by (auto simp: covered_def) (metis le_SucI)
  qed (use c c1 in auto)
qed

lemma rcv_covered:
  assumes r: "msg_trans_rcv fd cap t p w = Some (SW_OK, m, w')" and l: "linked p fd q (pipe q)" and t: "t = 0 \<or> m \<noteq> None"
    and c: "covered pipe w" and inj: "inj pipe"
  shows "covered pipe w'"
proof -
  obtain qu x ms where x: "ip_queues w q = Some qu" "msgrcv QMSG_MAX_LEN t (mq_msgs qu) = (x, ms)"
    "x = (case m of None \<Rightarrow> Msq_none | Some (ty, d) \<Rightarrow> Msq_msg ty d)"
    "\<And>k. queue_of k w' = (if k = q then ms else queue_of k w)" "ip_pipes w' = (ip_pipes w)(pipe q := ip_pipes w (pipe q) - 1)"
    using rcv_ok [OF r l] by metis
  have q: "queue_of q w = mq_msgs qu" using x(1) by (simp add: queue_of_def)
  have "length ms \<le> length (mq_msgs qu) - 1"
  proof (cases m)
    case None
    then have "ms = []" using t x(2,3) by (auto simp: msgrcv_def msg_pick_def split: option.splits if_splits)
    then show ?thesis by simp
  next
    case (Some a)
    then show ?thesis using x(2,3) msgrcv_shorter by (cases a) fastforce
  qed
  moreover have "length (mq_msgs qu) \<le> ip_pipes w (pipe q)" using c q by (metis covered_def)
  ultimately have "length ms \<le> ip_pipes w (pipe q) - 1" by linarith
  then show ?thesis using x(4,5) c inj by (auto simp: covered_def dest: injD)
qed

lemma msg_step_covered: "msg_step pipe w w' \<Longrightarrow> inj pipe \<Longrightarrow> covered pipe w \<Longrightarrow> covered pipe w'"
  by (induction rule: msg_step.induct) (auto intro: send_covered rcv_covered)

lemma msg_reachable_covered: "msg_reachable pipe w0 w \<Longrightarrow> inj pipe \<Longrightarrow> covered pipe w0 \<Longrightarrow> covered pipe w"
  by (induction rule: msg_reachable.induct) (auto intro: msg_step_covered)

text \<open>C7: No message waits unseen while the pipes have room: after any sequence of sends, also of ones that fail, each
  of which finds the pipe of its queue not full, and of receives that get a message or ask for any type, one call after
  another, a process that finds its queue not empty gets the oldest message, because the pipe still has a byte for it.
  (Every queue has a pipe of its own, at the start none has more messages than bytes, the descriptor is one
  select can take, and the message, at most 131072 bytes long, fits into the buffer with its terminator.  A send that
  finds the pipe full does leave a message without a byte: full_pipe_loses_byte.)\<close>

theorem waiting_message_is_received:
  assumes "msg_reachable pipe w0 w" and "inj pipe" and "covered pipe w0"
    and "linked p fd q (pipe q)" and "0 \<le> q" and "fd < FD_SETSIZE"
    and "queue_of q w = (t, d) # ms" and "int (length d) \<le> QMSG_MAX_LEN" and "length d < cap"
  shows "\<exists>w'. msg_trans_rcv fd cap 0 p w = Some (SW_OK, Some (t, d), w') \<and> queue_of q w' = ms"
proof -
  have "length (queue_of q w) \<le> ip_pipes w (pipe q)" using msg_reachable_covered [OF assms(1-3)] by (simp add: covered_def)
  then have b: "0 < ip_pipes w (pipe q)" using assms(7) by simp
  obtain qu where qu: "ip_queues w q = Some qu" "mq_msgs qu = (t, d) # ms" using assms(7) by (auto simp: queue_of_def split: option.splits)
  have fd: "0 \<le> fd" "fd_at fd p = Some (Fd_fifo (pipe q))" "key_at fd p = Some q"
    using assms(4) by (auto simp: linked_def key_at_def split: if_splits)
  show ?thesis using b qu fd assms(5,6,8,9)
    by (simp add: msg_trans_rcv_def pub_fifo_get_def check_fd_def pub_msq_get_def msgrcv_def msg_pick_def drop_nth_def)
qed

definition pipe_no :: "int \<Rightarrow> nat" where
  "pipe_no q = nat (if 0 \<le> q then 2 * q else - 2 * q - 1)"

lemma pipe_no_inj: "inj pipe_no"
  unfolding inj_def pipe_no_def by (auto simp: eq_nat_nat_iff split: if_splits) presburger+

lemma demo_linked: "linked msg_sender 3 65 (pipe_no 65)" "linked msg_receiver 4 65 (pipe_no 65)"
  by (simp_all add: linked_def msg_sender_def msg_receiver_def key_at_def fd_at_def pipe_no_def)

definition demo_sent :: "(int \<times> ipc_world) option" where
  "demo_sent = msg_trans_send True 3 (Some ''hello'') 7 5 msg_sender ipc_demo"

lemma demo_sent_queue: "map_option (\<lambda>(r, w). (r, queue_of 65 w)) demo_sent = Some (SW_OK, [(7, ''hello'')])"
  by code_simp

theorem waiting_message_is_received_witness:
  "\<exists>w w'. demo_sent = Some (SW_OK, w) \<and> msg_trans_rcv 4 100 0 msg_receiver w = Some (SW_OK, Some (7, ''hello''), w')
    \<and> queue_of 65 w' = []"
proof -
  obtain w where w: "demo_sent = Some (SW_OK, w)" "queue_of 65 w = [(7, ''hello'')]"
    using demo_sent_queue by (cases demo_sent) auto
  have "msg_reachable pipe_no ipc_demo w"
    using msg_next [OF msg_start step_send [where pipe = pipe_no, OF demo_linked(1) _ w(1) [unfolded demo_sent_def]]]
    by (simp add: ipc_demo_def)
  moreover have "covered pipe_no ipc_demo" by (auto simp: covered_def queue_of_def ipc_demo_def)
  ultimately show ?thesis
    using waiting_message_is_received [OF _ pipe_no_inj _ demo_linked(2), of ipc_demo w 7 "''hello''" "[]" 100] w by force
qed

section \<open>What breaks\<close>

text \<open>A send that finds the pipe full answers an error, but its message is in the queue, and no byte announces it.\<close>

theorem full_pipe_loses_byte:
  assumes "linked p fd q n" and "0 \<le> q" and "fd < FD_SETSIZE" and "ip_queues w q = Some qu" and "mq_msgs qu = []"
    and "msg_ok t d" and "int (length d) \<le> ip_msgmax w" and "int (length d) \<le> mq_qbytes qu" and "1 \<le> mq_qbytes qu"
    and "ip_pipe_max w \<le> ip_pipes w n"
  shows "\<exists>w'. msg_trans_send True fd (Some d) t (int (length d)) p w = Some (SW_ERR, w') \<and>
    queue_of q w' = [(t, d)] \<and> ip_pipes w' = ip_pipes w"
proof -
  have fd: "0 \<le> fd" "fd_at fd p = Some (Fd_fifo n)" "key_at fd p = Some q"
    using assms(1) by (auto simp: linked_def key_at_def split: if_splits)
  have t: "0 < t" "s32 t = t" using assms(6) by (auto simp: msg_ok_def s32_id)
  have c: "clear_loop t [] = []" by (subst clear_loop.simps) (use t in \<open>simp add: msgrcv_def msg_pick_def\<close>)
  show ?thesis
    using assms fd t c
    by (simp add: msg_trans_send_def pub_msq_clear_def pub_msq_put_def pub_fifo_put_def check_fd_def msg_ok_def
        mq_cbytes_def set_queue_def queue_of_def)
qed

text \<open>A send without a type (\<^verbatim>\<open>mtype\<close> 0) is refused, but only after it has thrown away the oldest message of the queue and
  all others of its session.\<close>

theorem untyped_send_discards:
  assumes "linked p fd q n" and "0 \<le> q" and "ip_queues w q = Some qu" and "msgs_ok (mq_msgs qu)"
    and "mq_msgs qu = (t, d) # ms"
  shows "\<exists>w'. msg_trans_send True fd (Some buf) 0 (int (length buf)) p w = Some (SW_ERR, w') \<and> queue_of q w' = filter (\<lambda>m. fst m \<noteq> t) ms"
proof -
  have h: "1 \<le> t" "d \<noteq> []" "int (length d) \<le> QMSG_MAX_LEN" "msgs_ok ms" using assms(4,5) by (auto simp: msgs_ok_def)
  have "clear_loop 0 (mq_msgs qu) = clear_loop t ms"
    using assms(5) h by (subst clear_loop.simps) (simp add: msgrcv_def msg_pick_def drop_nth_def)
  also have "\<dots> = filter (\<lambda>m. fst m \<noteq> t) ms" using clear_typed [OF h(4), of t] h(1) by simp
  finally have c: "clear_loop 0 (mq_msgs qu) = filter (\<lambda>m. fst m \<noteq> t) ms" .
  have "pub_msq_put q (Some buf) (int (length buf)) 0 v = Some (SW_ERR, v)" for v
    by (auto simp: pub_msq_put_def s32_def Let_def split: option.splits)
  then show ?thesis using assms(1-3) c by (simp add: msg_trans_send_def linked_def pub_msq_clear_def)
qed

text \<open>\<^verbatim>\<open>msg_trans_rm\<close> clears the entry of the descriptor 0: the table still names the closed descriptor for the queue,
  so a process that creates the queue again under the same id sends into nothing.\<close>

theorem removed_queue_keeps_descriptor:
  assumes "msg_trans_rm (Some dir) fd p w = Some (SW_OK, p', w')" and "key_at fd p = Some q" and "fd_at fd p \<noteq> None"
    and "msg_load_fd_by_mqid q p = fd" and "q \<noteq> - 1"
  shows "msg_load_fd_by_mqid q p' = fd \<and> fd_at fd p' = None"
proof -
  have fd: "0 < fd" "nat fd < length (mp_keys p)" "nat fd < length (mp_fds p)" "mp_keys p ! nat fd = q"
    using assms(1-3) by (auto simp: msg_trans_rm_def key_at_def fd_at_def split: if_splits)
  have p': "p' = (snd (pub_fifo_close fd p))\<lparr>mp_keys := (mp_keys p)[0 := - 1]\<rparr>"
    using assms(1,2,3) fd
    by (auto simp: msg_trans_rm_def pub_fifo_del_def pub_fifo_close_def put_key_def put_fd_def pub_msq_rm_def split: if_splits bind_splits)
  have "find_idx (\<lambda>k. k = q) (mp_keys p) = Some (nat fd)"
    using assms(4) fd(1) by (auto simp: msg_load_fd_by_mqid_def split: option.splits)
  moreover have "(mp_keys p)[0 := - 1] ! j = (if j = 0 then - 1 else mp_keys p ! j)" for j
    using fd(2) by (cases "mp_keys p"; cases j) auto
  ultimately have "find_idx (\<lambda>k. k = q) ((mp_keys p)[0 := - 1]) = Some (nat fd)"
    using find_idx_Some [of "\<lambda>k. k = q" "mp_keys p" "nat fd"] fd assms(5) by (intro find_idx_eqI) auto
  then show ?thesis
    using p' fd assms(3) by (auto simp: msg_load_fd_by_mqid_def fd_at_def pub_fifo_close_def put_fd_def)
qed

text \<open>A message is copied with a terminator behind it: receiving a command into a command writes one byte behind it.\<close>

lemma receive_needs_one_more:
  "ip_queues w q = Some qu \<Longrightarrow> mq_msgs qu = (t, d) # ms \<Longrightarrow> int (length d) \<le> QMSG_MAX_LEN \<Longrightarrow> pub_msq_get q (length d) 0 w = None"
  by (simp add: pub_msq_get_def msgrcv_def msg_pick_def)

text \<open>A byte stays in the pipe for every message a send has replaced: a later receive of any type gets a byte, then no
  message, and answers success.\<close>

lemma receive_nothing:
  "linked p fd q n \<Longrightarrow> 0 \<le> q \<Longrightarrow> fd < FD_SETSIZE \<Longrightarrow> 0 < ip_pipes w n \<Longrightarrow> ip_queues w q = Some qu \<Longrightarrow> mq_msgs qu = [] \<Longrightarrow> 0 < cap \<Longrightarrow>
   \<exists>w'. msg_trans_rcv fd cap 0 p w = Some (SW_OK, None, w')"
  by (auto simp: msg_trans_rcv_def linked_def pub_fifo_get_def check_fd_def pub_msq_get_def msgrcv_def msg_pick_def key_at_def
      split: if_splits)

end
