(* ===== verification/Mtype_Info.thy ===== *)
theory Mtype_Info
  imports Prelude Sem_Lock Mtype_Limit Pub_Time Mtype Msg_Trans
begin

text \<open>
  The data of a session, the second half of \<^verbatim>\<open>core/mtype.c\<close>: the functions that
  store and read a node's fields between its allocation and its deletion.  A field of
  \<open>n\<close> bytes is the list of its characters before the first NUL; a list of length \<open>n\<close> has
  no NUL, and reading it as a string leaves the field.  What a function copies to its caller
  is part of its result.
\<close>

section \<open>Copies into fields\<close>

text \<open>\<^verbatim>\<open>strcpy\<close> into a field of \<open>n\<close> bytes, and \<^verbatim>\<open>strcpy\<close> out of one.\<close>

definition str_into :: "nat \<Rightarrow> cstr \<Rightarrow> cstr option" where
  "str_into n s = (if length s < n then Some s else None)"

definition str_from :: "nat \<Rightarrow> cstr \<Rightarrow> cstr option" where
  "str_from n s = (if length s < n then Some s else None)"

text \<open>\<^verbatim>\<open>pub_str_zipspace\<close> removes the blanks of a string.\<close>

definition pub_str_zipspace :: "cstr \<Rightarrow> cstr" where
  "pub_str_zipspace s = filter (\<lambda>c. c \<noteq> CHR '' '') s"

definition given :: "cstr option \<Rightarrow> bool" where
  "given s \<longleftrightarrow> (case s of None \<Rightarrow> False | Some x \<Rightarrow> x \<noteq> [])"

section \<open>The shape of the accessors\<close>

definition mtype_in_range :: "int \<Rightarrow> mtype_t \<Rightarrow> bool" where
  "mtype_in_range m t \<longleftrightarrow> 0 < m \<and> m \<le> mh_mtype_max t"

text \<open>A function that stores into the node of a session, after its checks \<open>ok\<close>.\<close>

definition mtype_store ::
    "(mtype_t \<Rightarrow> bool) \<Rightarrow> int \<Rightarrow> (mtype_node \<Rightarrow> mtype_node option) \<Rightarrow> 'a mtype_world_scheme \<Rightarrow>
     (int \<times> 'a mtype_world_scheme) option" where
  "mtype_store ok m f w =
     (case g_shm_mtype w of
        None \<Rightarrow> Some (SW_ERROR, w)
      | Some t \<Rightarrow>
          if \<not> ok t then Some (SW_ERROR, w)
          else do {
            nd \<leftarrow> mtype_at t m;
            nd' \<leftarrow> f nd;
            Some (SW_OK, w\<lparr>g_shm_mtype := Some (mtype_put m nd' t)\<rparr>)
          })"

text \<open>A function that reads it: \<open>Some None\<close> is \<^verbatim>\<open>SW_ERROR\<close>.\<close>

definition mtype_fetch ::
    "(mtype_t \<Rightarrow> bool) \<Rightarrow> int \<Rightarrow> (mtype_node \<Rightarrow> 'r option) \<Rightarrow> 'a mtype_world_scheme \<Rightarrow> 'r option option" where
  "mtype_fetch ok m f w =
     (case g_shm_mtype w of
        None \<Rightarrow> Some None
      | Some t \<Rightarrow>
          if \<not> ok t then Some None
          else do {
            nd \<leftarrow> mtype_at t m;
            r \<leftarrow> f nd;
            Some (Some r)
          })"

section \<open>Link information\<close>

text \<open>\<open>now\<close> is \<^verbatim>\<open>pub_time_get_current()\<close>, \<open>secs\<close> is \<^verbatim>\<open>time(NULL)\<close>.  There is no check
  that \<open>m\<close> is positive.\<close>

definition mtype_loc_save_link_info ::
    "int \<Rightarrow> int \<Rightarrow> int \<Rightarrow> int \<Rightarrow> int \<Rightarrow> cstr option \<Rightarrow> cstr option \<Rightarrow> cstr option \<Rightarrow> int \<Rightarrow>
     'a mtype_world_scheme \<Rightarrow> (int \<times> 'a mtype_world_scheme) option" where
  "mtype_loc_save_link_info now secs mtype bi_no trace_no key sys_date lsn_name timeout =
     mtype_store (\<lambda>t. mtype \<le> mh_mtype_max t) mtype (\<lambda>nd. do {
       let nd1 = (if bi_no = 0 then nd\<lparr>mn_start_time := now\<rparr>
                  else nd\<lparr>mn_link_time := s32 secs, mn_bi_no := bi_no\<rparr>);
       let nd2 = (if 0 < trace_no then nd1\<lparr>mn_trace_no := trace_no\<rparr> else nd1);
       nd3 \<leftarrow> (if given key
               then map_option (\<lambda>s. nd2\<lparr>mn_key := pub_str_zipspace s\<rparr>) (str_into 128 (the key))
               else Some nd2);
       nd4 \<leftarrow> (if given sys_date
               then map_option (\<lambda>s. nd3\<lparr>mn_sys_date := pub_str_zipspace s\<rparr>) (str_into 32 (the sys_date))
               else Some nd3);
       nd5 \<leftarrow> (if given lsn_name
               then map_option (\<lambda>s. nd4\<lparr>mn_lsn_name := s\<rparr>) (str_into SW_NAME_LEN (the lsn_name))
               else Some nd4);
       Some (if 0 < timeout then nd5\<lparr>mn_timeout := timeout\<rparr> else nd5)
     })"

definition mtype_save_link_info ::
    "int \<Rightarrow> int \<Rightarrow> int \<Rightarrow> int \<Rightarrow> int \<Rightarrow> cstr option \<Rightarrow> cstr option \<Rightarrow> cstr option \<Rightarrow> int \<Rightarrow>
     'a mtype_world_scheme \<Rightarrow> (int \<times> 'a mtype_world_scheme) option" where
  "mtype_save_link_info now secs mtype bi_no trace_no key sys_date lsn_name timeout w =
     (if g_shm_mtype w = None then Some (SW_ERROR, w)
      else mtype_loc_save_link_info now secs mtype bi_no trace_no key sys_date lsn_name timeout w)"

text \<open>What \<open>mtype_load_by_key\<close> stores through its pointers; a field that is \<open>None\<close> is not written.\<close>

record link_info =
  li_bi_no :: "int option"
  li_trace_no :: "int option"
  li_mtype :: int
  li_sys_date :: "cstr option"

text \<open>The search loop over \<open>n\<close> nodes from \<open>i\<close>: the first session in use with this key.\<close>

fun key_scan :: "mtype_node list \<Rightarrow> cstr \<Rightarrow> nat \<Rightarrow> nat \<Rightarrow> nat option option" where
  "key_scan items key i 0 = Some None"
| "key_scan items key i (Suc n) =
     (if length items \<le> i then None
      else if mn_flag (items ! i) \<noteq> MTYPE_USED then key_scan items key (Suc i) n
      else if mn_key (items ! i) = key then Some (Some i)
      else key_scan items key (Suc i) n)"

definition mtype_loc_load_by_key :: "cstr option \<Rightarrow> 'a mtype_world_scheme \<Rightarrow> link_info option option" where
  "mtype_loc_load_by_key key w =
     (case key of
        None \<Rightarrow> None
      | Some k \<Rightarrow> do {
          buf \<leftarrow> str_into 128 k;
          let key_buf = pub_str_zipspace buf;
          (case g_shm_mtype w of
             None \<Rightarrow> Some None
           | Some t \<Rightarrow> do {
               found \<leftarrow> key_scan (mt_items t) key_buf 0 (nat (mh_mtype_max t));
               (case found of
                  None \<Rightarrow> Some None
                | Some i \<Rightarrow>
                    let nd = mt_items t ! i in
                    Some (Some \<lparr>li_bi_no = (if 0 < mn_bi_no nd then Some (mn_bi_no nd) else None),
                                li_trace_no = (if 0 < mn_trace_no nd then Some (mn_trace_no nd) else None),
                                li_mtype = mn_mtype nd,
                                li_sys_date = (if mn_sys_date nd \<noteq> [] then Some (cstr_cut 31 (mn_sys_date nd))
                                               else None)\<rparr>))
             })
        })"

definition mtype_load_by_key :: "cstr option \<Rightarrow> 'a mtype_world_scheme \<Rightarrow> link_info option option" where
  "mtype_load_by_key key w =
     (if g_shm_mtype w = None then Some None else mtype_loc_load_by_key key w)"

section \<open>Task information\<close>

definition mtype_loc_set_task_info ::
    "int \<Rightarrow> task_info option \<Rightarrow> 'a mtype_world_scheme \<Rightarrow> (int \<times> 'a mtype_world_scheme) option" where
  "mtype_loc_set_task_info mtype ti =
     mtype_store (\<lambda>t. mtype_in_range mtype t \<and> ti \<noteq> None) mtype (\<lambda>nd. Some (nd\<lparr>mn_task_info := the ti\<rparr>))"

definition mtype_set_task_info ::
    "int \<Rightarrow> task_info option \<Rightarrow> 'a mtype_world_scheme \<Rightarrow> (int \<times> 'a mtype_world_scheme) option" where
  "mtype_set_task_info mtype ti w =
     (if g_shm_mtype w = None then Some (SW_ERROR, w) else mtype_loc_set_task_info mtype ti w)"

text \<open>\<open>dst\<close>: whether the caller passed a buffer.\<close>

definition mtype_loc_get_task_info ::
    "int \<Rightarrow> bool \<Rightarrow> 'a mtype_world_scheme \<Rightarrow> task_info option option" where
  "mtype_loc_get_task_info mtype dst =
     mtype_fetch (\<lambda>t. mtype_in_range mtype t \<and> dst) mtype (\<lambda>nd. Some (mn_task_info nd))"

definition mtype_get_task_info ::
    "int \<Rightarrow> bool \<Rightarrow> 'a mtype_world_scheme \<Rightarrow> task_info option option" where
  "mtype_get_task_info mtype dst w =
     (if g_shm_mtype w = None then Some None else mtype_loc_get_task_info mtype dst w)"

text \<open>The address of the task information is the session whose node it lies in.\<close>

definition mtype_loc_get_task_addr :: "int \<Rightarrow> 'a mtype_world_scheme \<Rightarrow> int option option" where
  "mtype_loc_get_task_addr mtype = mtype_fetch (mtype_in_range mtype) mtype (\<lambda>nd. Some mtype)"

definition mtype_get_task_addr :: "int \<Rightarrow> 'a mtype_world_scheme \<Rightarrow> int option option" where
  "mtype_get_task_addr mtype w =
     (if g_shm_mtype w = None then Some None else mtype_loc_get_task_addr mtype w)"

text \<open>The transaction line of the monitor: elapsed milliseconds in 8 bytes.\<close>

record trace_list =
  tx_trace_no :: int
  tx_start_time :: cstr
  tx_server :: cstr
  tx_service :: cstr
  tx_d_time :: cstr
  tx_resp :: cstr
  tx_pkg_resp :: cstr

definition mtype_loc_get_tx_info ::
    "(int \<Rightarrow> c_tm option) \<Rightarrow> int \<Rightarrow> int \<Rightarrow> bool \<Rightarrow> 'a mtype_world_scheme \<Rightarrow> trace_list option option" where
  "mtype_loc_get_tx_info localtime now mtype dst =
     mtype_fetch (\<lambda>t. 1 \<le> mtype \<and> dst) mtype (\<lambda>nd. do {
       server \<leftarrow> str_from SW_NAME_LEN (mn_server nd);
       service \<leftarrow> str_from SW_NAME_LEN (mn_service nd);
       pkg_resp \<leftarrow> str_from 8 (mn_pkg_response nd);
       resp \<leftarrow> str_from 8 (mn_sys_response nd);
       d_time \<leftarrow> str_into 8 (fmt_lld (c_div (now - mn_start_time nd) 1000));
       let (_, tmp) = pub_change_time2 localtime (mn_start_time nd) [] 0;
       start_time \<leftarrow> str_into 16 tmp;
       Some \<lparr>tx_trace_no = mn_trace_no nd, tx_start_time = start_time, tx_server = server,
             tx_service = service, tx_d_time = d_time, tx_resp = resp, tx_pkg_resp = pkg_resp\<rparr>
     })"

definition mtype_get_tx_info ::
    "(int \<Rightarrow> c_tm option) \<Rightarrow> int \<Rightarrow> int \<Rightarrow> bool \<Rightarrow> 'a mtype_world_scheme \<Rightarrow> trace_list option option" where
  "mtype_get_tx_info localtime now mtype dst w =
     (if g_shm_mtype w = None then Some None else mtype_loc_get_tx_info localtime now mtype dst w)"

section \<open>Product, server and service\<close>

definition mtype_loc_set_prdt ::
    "int \<Rightarrow> cstr option \<Rightarrow> 'a mtype_world_scheme \<Rightarrow> (int \<times> 'a mtype_world_scheme) option" where
  "mtype_loc_set_prdt mtype prdt =
     mtype_store (\<lambda>t. prdt \<noteq> None \<and> mtype_in_range mtype t) mtype
       (\<lambda>nd. Some (nd\<lparr>mn_prdt_name := cstr_cut (SW_NAME_LEN - 1) (the prdt)\<rparr>))"

definition mtype_set_prdt ::
    "int \<Rightarrow> cstr option \<Rightarrow> 'a mtype_world_scheme \<Rightarrow> (int \<times> 'a mtype_world_scheme) option" where
  "mtype_set_prdt mtype prdt w =
     (if g_shm_mtype w = None then Some (SW_ERROR, w) else mtype_loc_set_prdt mtype prdt w)"

definition mtype_loc_get_prdt :: "int \<Rightarrow> bool \<Rightarrow> 'a mtype_world_scheme \<Rightarrow> cstr option option" where
  "mtype_loc_get_prdt mtype dst =
     mtype_fetch (\<lambda>t. dst \<and> mtype_in_range mtype t) mtype
       (\<lambda>nd. Some (cstr_cut (SW_NAME_LEN - 1) (mn_prdt_name nd)))"

definition mtype_get_prdt :: "int \<Rightarrow> bool \<Rightarrow> 'a mtype_world_scheme \<Rightarrow> cstr option option" where
  "mtype_get_prdt mtype dst w =
     (if g_shm_mtype w = None then Some None else mtype_loc_get_prdt mtype dst w)"

text \<open>The result is the task type with what is copied for the server and the service.\<close>

definition mtype_loc_get_svr_svc ::
    "int \<Rightarrow> bool \<Rightarrow> bool \<Rightarrow> 'a mtype_world_scheme \<Rightarrow> (int \<times> cstr option \<times> cstr option) option option" where
  "mtype_loc_get_svr_svc mtype server service =
     mtype_fetch (mtype_in_range mtype) mtype (\<lambda>nd.
       Some (mn_task_type nd,
             if server then Some (cstr_cut (SW_NAME_LEN - 1) (mn_server nd)) else None,
             if service then Some (cstr_cut (SW_NAME_LEN - 1) (mn_service nd)) else None))"

definition mtype_get_svr_svc ::
    "int \<Rightarrow> bool \<Rightarrow> bool \<Rightarrow> 'a mtype_world_scheme \<Rightarrow> (int \<times> cstr option \<times> cstr option) option option" where
  "mtype_get_svr_svc mtype server service w =
     (if g_shm_mtype w = None then Some None else mtype_loc_get_svr_svc mtype server service w)"

definition mtype_loc_set_svr_svc ::
    "int \<Rightarrow> int \<Rightarrow> cstr option \<Rightarrow> cstr option \<Rightarrow> 'a mtype_world_scheme \<Rightarrow> (int \<times> 'a mtype_world_scheme) option" where
  "mtype_loc_set_svr_svc mtype type server service =
     mtype_store (\<lambda>t. mtype_in_range mtype t \<and> 0 \<le> type) mtype (\<lambda>nd.
       let nd1 = (if 0 < type then nd\<lparr>mn_task_type := type\<rparr> else nd);
           nd2 = (case server of None \<Rightarrow> nd1 | Some s \<Rightarrow> nd1\<lparr>mn_server := cstr_cut (SW_NAME_LEN - 1) s\<rparr>) in
       Some (case service of None \<Rightarrow> nd2 | Some s \<Rightarrow> nd2\<lparr>mn_service := cstr_cut (SW_NAME_LEN - 1) s\<rparr>))"

definition mtype_set_svr_svc ::
    "int \<Rightarrow> int \<Rightarrow> cstr option \<Rightarrow> cstr option \<Rightarrow> 'a mtype_world_scheme \<Rightarrow> (int \<times> 'a mtype_world_scheme) option" where
  "mtype_set_svr_svc mtype type server service w =
     (if g_shm_mtype w = None then Some (SW_ERROR, w) else mtype_loc_set_svr_svc mtype type server service w)"

section \<open>Status, time limits and errors\<close>

text \<open>No check of the session id here.\<close>

definition mtype_loc_get_status ::
    "int \<Rightarrow> bool \<Rightarrow> bool \<Rightarrow> 'a mtype_world_scheme \<Rightarrow> (int option \<times> int option) option option" where
  "mtype_loc_get_status mtype status task_status w =
     (if status \<or> task_status
      then mtype_fetch (\<lambda>t. True) mtype (\<lambda>nd.
        Some (if status then Some (ti_status (mn_task_info nd)) else None,
              if task_status then Some (mn_task_status nd) else None)) w
      else Some (if g_shm_mtype w = None then None else Some (None, None)))"

definition mtype_get_status ::
    "int \<Rightarrow> bool \<Rightarrow> bool \<Rightarrow> 'a mtype_world_scheme \<Rightarrow> (int option \<times> int option) option option" where
  "mtype_get_status mtype status task_status w =
     (if g_shm_mtype w = None then Some None else mtype_loc_get_status mtype status task_status w)"

definition mtype_loc_set_status ::
    "int \<Rightarrow> int \<Rightarrow> int \<Rightarrow> 'a mtype_world_scheme \<Rightarrow> (int \<times> 'a mtype_world_scheme) option" where
  "mtype_loc_set_status mtype status task_status =
     mtype_store (\<lambda>t. mtype_in_range mtype t \<and> 0 \<le> status) mtype (\<lambda>nd.
       Some (nd\<lparr>mn_task_info := (mn_task_info nd)\<lparr>ti_status := status\<rparr>, mn_task_status := task_status\<rparr>))"

definition mtype_set_status ::
    "int \<Rightarrow> int \<Rightarrow> int \<Rightarrow> 'a mtype_world_scheme \<Rightarrow> (int \<times> 'a mtype_world_scheme) option" where
  "mtype_set_status mtype status task_status w =
     (if g_shm_mtype w = None then Some (SW_ERROR, w) else mtype_loc_set_status mtype status task_status w)"

abbreviation (input) TASK_TIMEOUT :: int where "TASK_TIMEOUT \<equiv> 4"

definition mtype_loc_check_timeout ::
    "int \<Rightarrow> int \<Rightarrow> int \<Rightarrow> 'a mtype_world_scheme \<Rightarrow> (int \<times> 'a mtype_world_scheme) option" where
  "mtype_loc_check_timeout now mtype timeout w =
     (case g_shm_mtype w of
        None \<Rightarrow> Some (SW_ERROR, w)
      | Some t \<Rightarrow>
          if \<not> mtype_in_range mtype t \<or> timeout < 0 then Some (SW_ERROR, w)
          else do {
            nd \<leftarrow> mtype_at t mtype;
            if timeout \<le> c_div (now - mn_start_time nd) 1000000
            then Some (TASK_TIMEOUT,
                   w\<lparr>g_shm_mtype := Some (mtype_put mtype (nd\<lparr>mn_task_status := TASK_TIMEOUT\<rparr>) t)\<rparr>)
            else Some (0, w)
          })"

definition mtype_check_timeout ::
    "int \<Rightarrow> int \<Rightarrow> int \<Rightarrow> 'a mtype_world_scheme \<Rightarrow> (int \<times> 'a mtype_world_scheme) option" where
  "mtype_check_timeout now mtype timeout w =
     (if g_shm_mtype w = None then Some (SW_ERROR, w) else mtype_loc_check_timeout now mtype timeout w)"

definition mtype_loc_get_timeout :: "int \<Rightarrow> 'a mtype_world_scheme \<Rightarrow> int option" where
  "mtype_loc_get_timeout mtype w =
     map_option (\<lambda>r. case r of None \<Rightarrow> SW_ERROR | Some v \<Rightarrow> v)
       (mtype_fetch (mtype_in_range mtype) mtype (\<lambda>nd. Some (mn_timeout nd)) w)"

definition mtype_get_timeout :: "int \<Rightarrow> 'a mtype_world_scheme \<Rightarrow> int option" where
  "mtype_get_timeout mtype w =
     (if g_shm_mtype w = None then Some SW_ERROR else mtype_loc_get_timeout mtype w)"

text \<open>The error codes are bit fields of 8 bits, the module type and number have 16.  The
  message is copied with the full size of the field, so 64 characters leave no NUL.\<close>

definition s8 :: "int \<Rightarrow> int" where "s8 x = signed_take_bit 7 x"

definition mtype_loc_set_err ::
    "int \<Rightarrow> int \<Rightarrow> int \<Rightarrow> int \<Rightarrow> int \<Rightarrow> int \<Rightarrow> cstr option \<Rightarrow> 'a mtype_world_scheme \<Rightarrow>
     (int \<times> 'a mtype_world_scheme) option" where
  "mtype_loc_set_err force_flag mtype mode_type mode_num err_code1 err_code2 err_msg =
     mtype_store (\<lambda>t. mtype_in_range mtype t \<and> 0 < mode_type \<and> 0 < err_code1 \<and> 0 < err_code2 \<and> err_msg \<noteq> None)
       mtype (\<lambda>nd.
         let ti = mn_task_info nd; e = ti_err_info ti in
         Some (if force_flag = 1 \<or> (me_err_code1 e = 0 \<and> me_err_code2 e = 0)
               then nd\<lparr>mn_task_info := ti\<lparr>ti_err_info :=
                      \<lparr>me_err_code1 = s8 err_code1, me_err_code2 = s8 err_code2, me_mode_type = s16 mode_type,
                       me_mode_num = s16 mode_num, me_err_msg = cstr_cut 64 (the err_msg)\<rparr>\<rparr>\<rparr>
               else nd))"

definition mtype_set_err ::
    "int \<Rightarrow> int \<Rightarrow> int \<Rightarrow> int \<Rightarrow> int \<Rightarrow> int \<Rightarrow> cstr option \<Rightarrow> 'a mtype_world_scheme \<Rightarrow>
     (int \<times> 'a mtype_world_scheme) option" where
  "mtype_set_err force_flag mtype mode_type mode_num err_code1 err_code2 err_msg w =
     (if g_shm_mtype w = None then Some (SW_ERROR, w)
      else mtype_loc_set_err force_flag mtype mode_type mode_num err_code1 err_code2 err_msg w)"

section \<open>Store-and-forward flow and responses\<close>

text \<open>The flow name too is copied with the full size of its field.\<close>

definition mtype_loc_set_saf_flow ::
    "int \<Rightarrow> cstr option \<Rightarrow> int \<Rightarrow> 'a mtype_world_scheme \<Rightarrow> (int \<times> 'a mtype_world_scheme) option" where
  "mtype_loc_set_saf_flow mtype saf_flow timeout =
     mtype_store (mtype_in_range mtype) mtype (\<lambda>nd.
       let nd1 = (case saf_flow of None \<Rightarrow> nd | Some s \<Rightarrow> nd\<lparr>mn_saf_flow := cstr_cut SW_NAME_LEN s\<rparr>) in
       Some (if 0 < timeout then nd1\<lparr>mn_calllsn_timeout := timeout\<rparr> else nd1))"

definition mtype_set_saf_flow ::
    "int \<Rightarrow> cstr option \<Rightarrow> int \<Rightarrow> 'a mtype_world_scheme \<Rightarrow> (int \<times> 'a mtype_world_scheme) option" where
  "mtype_set_saf_flow mtype saf_flow timeout w =
     (if g_shm_mtype w = None then Some (SW_ERROR, w) else mtype_loc_set_saf_flow mtype saf_flow timeout w)"

definition mtype_loc_get_saf_flow ::
    "int \<Rightarrow> bool \<Rightarrow> bool \<Rightarrow> 'a mtype_world_scheme \<Rightarrow> (cstr option \<times> int option) option option" where
  "mtype_loc_get_saf_flow mtype saf_flow time_value =
     mtype_fetch (mtype_in_range mtype) mtype (\<lambda>nd. do {
       flow \<leftarrow> (if saf_flow then map_option Some (str_from SW_NAME_LEN (mn_saf_flow nd)) else Some None);
       Some (flow, if time_value then Some (mn_calllsn_timeout nd) else None)
     })"

definition mtype_get_saf_flow ::
    "int \<Rightarrow> bool \<Rightarrow> bool \<Rightarrow> 'a mtype_world_scheme \<Rightarrow> (cstr option \<times> int option) option option" where
  "mtype_get_saf_flow mtype saf_flow time_value w =
     (if g_shm_mtype w = None then Some None else mtype_loc_get_saf_flow mtype saf_flow time_value w)"

definition mtype_loc_set_resp ::
    "int \<Rightarrow> cstr option \<Rightarrow> cstr option \<Rightarrow> 'a mtype_world_scheme \<Rightarrow> (int \<times> 'a mtype_world_scheme) option" where
  "mtype_loc_set_resp mtype resp sys_resp =
     mtype_store (\<lambda>t. mtype_in_range mtype t \<and> given resp \<and> given sys_resp) mtype (\<lambda>nd. do {
       r \<leftarrow> str_into 8 (the resp);
       s \<leftarrow> str_into 8 (the sys_resp);
       Some (nd\<lparr>mn_pkg_response := r, mn_sys_response := s\<rparr>)
     })"

definition mtype_set_resp ::
    "int \<Rightarrow> cstr option \<Rightarrow> cstr option \<Rightarrow> 'a mtype_world_scheme \<Rightarrow> (int \<times> 'a mtype_world_scheme) option" where
  "mtype_set_resp mtype resp sys_resp w =
     (if g_shm_mtype w = None then Some (SW_ERROR, w) else mtype_loc_set_resp mtype resp sys_resp w)"

definition mtype_loc_get_resp ::
    "int \<Rightarrow> bool \<Rightarrow> bool \<Rightarrow> 'a mtype_world_scheme \<Rightarrow> (cstr \<times> cstr) option option" where
  "mtype_loc_get_resp mtype resp sys_resp =
     mtype_fetch (\<lambda>t. mtype_in_range mtype t \<and> sys_resp \<and> resp) mtype (\<lambda>nd. do {
       r \<leftarrow> str_from 8 (mn_pkg_response nd);
       s \<leftarrow> str_from 8 (mn_sys_response nd);
       Some (r, s)
     })"

definition mtype_get_resp ::
    "int \<Rightarrow> bool \<Rightarrow> bool \<Rightarrow> 'a mtype_world_scheme \<Rightarrow> (cstr \<times> cstr) option option" where
  "mtype_get_resp mtype resp sys_resp w =
     (if g_shm_mtype w = None then Some None else mtype_loc_get_resp mtype resp sys_resp w)"

section \<open>Listener, head, date and the rest\<close>

definition mtype_loc_get_lsn :: "int \<Rightarrow> bool \<Rightarrow> 'a mtype_world_scheme \<Rightarrow> cstr option option" where
  "mtype_loc_get_lsn mtype dst =
     mtype_fetch (\<lambda>t. mtype_in_range mtype t \<and> dst) mtype (\<lambda>nd. str_from SW_NAME_LEN (mn_lsn_name nd))"

definition mtype_get_lsn :: "int \<Rightarrow> bool \<Rightarrow> 'a mtype_world_scheme \<Rightarrow> cstr option option" where
  "mtype_get_lsn mtype dst w =
     (if g_shm_mtype w = None then Some None else mtype_loc_get_lsn mtype dst w)"

definition mtype_loc_get_head ::
    "bool \<Rightarrow> 'a mtype_world_scheme \<Rightarrow> (mtype_head option \<times> 'a mtype_world_scheme) option" where
  "mtype_loc_get_head dst w =
     (case g_shm_mtype w of
        None \<Rightarrow> Some (None, w)
      | Some t \<Rightarrow>
          if \<not> dst then Some (None, w)
          else do {
            (_, w1) \<leftarrow> sem_mutex_lock (mh_lock_id t) w;
            (_, w2) \<leftarrow> sem_mutex_unlock (mh_lock_id t) w1;
            Some (Some (mtype_head.truncate t), w2)
          })"

definition mtype_get_head ::
    "bool \<Rightarrow> 'a mtype_world_scheme \<Rightarrow> (mtype_head option \<times> 'a mtype_world_scheme) option" where
  "mtype_get_head dst w = (if g_shm_mtype w = None then Some (None, w) else mtype_loc_get_head dst w)"

definition mtype_loc_set_date ::
    "int \<Rightarrow> int \<Rightarrow> cstr option \<Rightarrow> 'a mtype_world_scheme \<Rightarrow> (int \<times> 'a mtype_world_scheme) option" where
  "mtype_loc_set_date mtype trace_no sys_date =
     mtype_store (mtype_in_range mtype) mtype (\<lambda>nd.
       map_option (\<lambda>d. nd\<lparr>mn_trace_no := trace_no, mn_sys_date := cstr_cut 31 d\<rparr>) sys_date)"

definition mtype_set_date ::
    "int \<Rightarrow> int \<Rightarrow> cstr option \<Rightarrow> 'a mtype_world_scheme \<Rightarrow> (int \<times> 'a mtype_world_scheme) option" where
  "mtype_set_date mtype trace_no sys_date w =
     (if g_shm_mtype w = None then Some (SW_ERROR, w) else mtype_loc_set_date mtype trace_no sys_date w)"

definition mtype_loc_get_date ::
    "int \<Rightarrow> bool \<Rightarrow> bool \<Rightarrow> 'a mtype_world_scheme \<Rightarrow> (int option \<times> cstr option) option option" where
  "mtype_loc_get_date mtype trace_no sys_date =
     mtype_fetch (mtype_in_range mtype) mtype (\<lambda>nd.
       Some (if trace_no then Some (mn_trace_no nd) else None,
             if sys_date then Some (cstr_cut 31 (mn_sys_date nd)) else None))"

definition mtype_get_date ::
    "int \<Rightarrow> bool \<Rightarrow> bool \<Rightarrow> 'a mtype_world_scheme \<Rightarrow> (int option \<times> cstr option) option option" where
  "mtype_get_date mtype trace_no sys_date w =
     (if g_shm_mtype w = None then Some None else mtype_loc_get_date mtype trace_no sys_date w)"

definition g_mtype_flag_desc :: "(int \<times> cstr) list" where
  "g_mtype_flag_desc = [(MTYPE_IDLE, ''IDLE''), (MTYPE_TAIL, ''TAIL''), (MTYPE_USED, ''USED'')]"

definition mtype_get_flag_desc :: "int \<Rightarrow> cstr" where
  "mtype_get_flag_desc flag =
     (case map_of g_mtype_flag_desc flag of Some d \<Rightarrow> d | None \<Rightarrow> ''UNKN'')"

definition mtype_loc_set_time :: "int \<Rightarrow> 'a mtype_world_scheme \<Rightarrow> int \<times> 'a mtype_world_scheme" where
  "mtype_loc_set_time now w =
     (case g_shm_mtype w of
        None \<Rightarrow> (SW_ERROR, w)
      | Some t \<Rightarrow> (SW_OK, w\<lparr>g_shm_mtype := Some (t\<lparr>mh_start_time := now\<rparr>)\<rparr>))"

definition mtype_set_time :: "int \<Rightarrow> 'a mtype_world_scheme \<Rightarrow> int \<times> 'a mtype_world_scheme" where
  "mtype_set_time now w = (if g_shm_mtype w = None then (SW_ERROR, w) else mtype_loc_set_time now w)"

definition mtype_loc_get_time :: "'a mtype_world_scheme \<Rightarrow> int" where
  "mtype_loc_get_time w = (case g_shm_mtype w of None \<Rightarrow> SW_ERROR | Some t \<Rightarrow> mh_start_time t)"

definition mtype_get_time :: "'a mtype_world_scheme \<Rightarrow> int" where
  "mtype_get_time w = (if g_shm_mtype w = None then SW_ERROR else mtype_loc_get_time w)"

definition mtype_loc_set_info ::
    "int \<Rightarrow> sw_cmd \<Rightarrow> 'a mtype_world_scheme \<Rightarrow> (int \<times> 'a mtype_world_scheme) option" where
  "mtype_loc_set_info mtype cmd =
     mtype_store (mtype_in_range mtype) mtype (\<lambda>nd.
       let nd1 = (if cm_dst_prdt cmd \<noteq> [] then nd\<lparr>mn_prdt_name := cstr_cut 31 (cm_dst_prdt cmd)\<rparr> else nd);
           nd2 = (if cm_dst_svr cmd \<noteq> [] then nd1\<lparr>mn_server := cstr_cut 31 (cm_dst_svr cmd)\<rparr> else nd1);
           nd3 = (if cm_def_name cmd \<noteq> [] then nd2\<lparr>mn_service := cstr_cut 31 (cm_def_name cmd)\<rparr> else nd2);
           nd4 = (if cm_sys_date cmd \<noteq> [] then nd3\<lparr>mn_sys_date := cstr_cut 31 (cm_sys_date cmd)\<rparr> else nd3);
           nd5 = (if 0 < cm_trace_no cmd then nd4\<lparr>mn_trace_no := cm_trace_no cmd\<rparr> else nd4) in
       Some (if cm_lsn_name cmd \<noteq> [] then nd5\<lparr>mn_lsn_name := cstr_cut 31 (cm_lsn_name cmd)\<rparr> else nd5))"

definition mtype_set_info ::
    "int \<Rightarrow> sw_cmd \<Rightarrow> 'a mtype_world_scheme \<Rightarrow> (int \<times> 'a mtype_world_scheme) option" where
  "mtype_set_info mtype cmd w =
     (if g_shm_mtype w = None then Some (SW_ERROR, w) else mtype_loc_set_info mtype cmd w)"

section \<open>Stores and fetches\<close>

lemma mtype_at_put:
  "1 \<le> m \<Longrightarrow> mtype_at t m = Some nd0 \<Longrightarrow>
     mtype_at (mtype_put m nd t) k = (if k = m then Some nd else mtype_at t k)"
  by (auto simp: mtype_at_def mtype_put_def nth_list_update)

lemma mtype_at_range:
  "mtype_wf t \<Longrightarrow> mtype_in_range m t \<Longrightarrow> mtype_at t m = Some (mt_items t ! nat (m - 1))"
  using mtype_wfD(3) [of t] by (simp add: mtype_in_range_def mtype_at_def)

lemma mtype_put_range [simp]: "mtype_in_range k (mtype_put m nd t) = mtype_in_range k t"
  by (simp add: mtype_in_range_def mtype_put_def)

lemma mtype_store_some:
  "g_shm_mtype w = Some t \<Longrightarrow> ok t \<Longrightarrow> mtype_at t m = Some nd \<Longrightarrow> f nd = Some nd' \<Longrightarrow>
     mtype_store ok m f w = Some (SW_OK, w\<lparr>g_shm_mtype := Some (mtype_put m nd' t)\<rparr>)"
  by (simp add: mtype_store_def)

lemma mtype_store_cases:
  assumes "mtype_store ok m f w = Some (r, w')"
  obtains "w' = w" "r = SW_ERROR"
  | t nd nd' where "g_shm_mtype w = Some t" "ok t" "mtype_at t m = Some nd" "f nd = Some nd'" "r = SW_OK"
      "w' = w\<lparr>g_shm_mtype := Some (mtype_put m nd' t)\<rparr>"
  using assms by (auto simp: mtype_store_def split: option.splits if_splits bind_splits)

text \<open>A change of a node that keeps its flag and its id keeps the invariant.\<close>

definition keeps_id :: "mtype_node \<Rightarrow> mtype_node \<Rightarrow> bool" where
  "keeps_id nd nd' \<longleftrightarrow> mn_flag nd' = mn_flag nd \<and> mn_mtype nd' = mn_mtype nd"

lemma mtype_put_keeps:
  assumes wf: "mtype_wf t" and nd: "mtype_at t m = Some nd" and k: "keeps_id nd nd'"
  shows "mtype_wf (mtype_put m nd' t)" and "mtype_live (mtype_put m nd' t) = mtype_live t"
proof -
  let ?i = "nat (m - 1)"
  from nd have i: "?i < length (mt_items t)" "nd = mt_items t ! ?i" "int ?i + 1 = m"
    by (auto simp: mtype_at_def split: if_splits)
  have flags: "mn_flag (mt_items (mtype_put m nd' t) ! j) = mn_flag (mt_items t ! j)"
      "mn_mtype (mt_items (mtype_put m nd' t) ! j) = mn_mtype (mt_items t ! j)" for j
    using k i by (cases "j = ?i"; simp add: mtype_put_def keeps_id_def)+
  have cnt: "length (filter is_used (mt_items (mtype_put m nd' t))) = length (filter is_used (mt_items t))"
    using length_filter_update [OF i(1), of is_used nd'] k i(2) by (simp add: mtype_put_def keeps_id_def)
  have len: "length (mt_items (mtype_put m nd' t)) = length (mt_items t)"
      "mh_mtype_max (mtype_put m nd' t) = mh_mtype_max t" "mh_cur_use (mtype_put m nd' t) = mh_cur_use t"
      "mh_cur_cnt (mtype_put m nd' t) = mh_cur_cnt t"
    by (simp_all add: mtype_put_def)
  show "mtype_wf (mtype_put m nd' t)"
    using wf by (simp add: mtype_wf_def Let_def flags len cnt)
  show "mtype_live (mtype_put m nd' t) = mtype_live t"
    by (simp add: mtype_live_def flags len)
qed

text \<open>What every store leaves alone.\<close>

definition sessions_kept :: "int \<Rightarrow> 'a mtype_world_scheme \<Rightarrow> 'a mtype_world_scheme \<Rightarrow> bool" where
  "sessions_kept m w w' \<longleftrightarrow> mtype_inv w' \<and>
     (\<exists>t t'. g_shm_mtype w = Some t \<and> g_shm_mtype w' = Some t' \<and> mtype_live t' = mtype_live t \<and>
        mtype_head.truncate t' = mtype_head.truncate t \<and>
        (\<forall>k. int k + 1 \<noteq> m \<longrightarrow> mt_items t' ! k = mt_items t ! k)) \<and>
     g_shm_prdt_limit w' = g_shm_prdt_limit w \<and> g_shm_lsn_limit w' = g_shm_lsn_limit w \<and>
     vars_destroyed w' = vars_destroyed w"

lemma sessions_kept_refl: "mtype_inv w \<Longrightarrow> sessions_kept m w w"
  by (auto simp: sessions_kept_def mtype_inv_def)

lemma sessions_kept_put:
  assumes inv: "mtype_inv w" and t: "g_shm_mtype w = Some t"
    and nd: "mtype_at t m = Some nd" and k: "keeps_id nd nd'"
  shows "sessions_kept m w (w\<lparr>g_shm_mtype := Some (mtype_put m nd' t)\<rparr>)"
proof -
  let ?w = "w\<lparr>g_shm_mtype := Some (mtype_put m nd' t)\<rparr>"
  have "sem_free l ?w = sem_free l w" for l by (rule sem_free_cong) simp_all
  moreover have "mh_lock_id (mtype_put m nd' t) = mh_lock_id t" by (simp add: mtype_put_def)
  ultimately have "mtype_inv ?w"
    using inv t mtype_put_keeps(1) [OF _ nd k] by (auto simp: mtype_inv_def limits_ok_def)
  moreover have "\<forall>j. int j + 1 \<noteq> m \<longrightarrow> mt_items (mtype_put m nd' t) ! j = mt_items t ! j"
    using nd by (auto simp: mtype_put_def mtype_at_def nth_list_update split: if_splits)
  moreover have "mtype_head.truncate (mtype_put m nd' t) = mtype_head.truncate t"
    by (simp add: mtype_put_def mtype_head.defs)
  moreover have "mtype_live (mtype_put m nd' t) = mtype_live t"
    using inv t mtype_put_keeps(2) [OF _ nd k] by (auto simp: mtype_inv_def)
  ultimately show ?thesis using t by (simp add: sessions_kept_def)
qed

lemma mtype_store_kept:
  assumes "mtype_inv w" and "mtype_store ok m f w = Some (r, w')"
    and "\<And>nd nd'. f nd = Some nd' \<Longrightarrow> keeps_id nd nd'"
  shows "sessions_kept m w w'"
  using assms(2)
proof (cases rule: mtype_store_cases)
  case 1
  with assms(1) show ?thesis by (simp add: sessions_kept_refl)
next
  case (2 t nd nd')
  with assms sessions_kept_put show ?thesis by blast
qed

section \<open>The operations of a session's life\<close>

text \<open>Every call that stores into a node, with its arguments.\<close>

datatype info_op =
    Save_link int int int int int "cstr option" "cstr option" "cstr option" int
  | Set_task_info int "task_info option"
  | Set_prdt int "cstr option"
  | Set_svr_svc int int "cstr option" "cstr option"
  | Set_status int int int
  | Check_timeout int int int
  | Set_err int int int int int int "cstr option"
  | Set_saf_flow int "cstr option" int
  | Set_resp int "cstr option" "cstr option"
  | Set_date int int "cstr option"
  | Set_info int sw_cmd
  | Set_time int

fun info_exec :: "info_op \<Rightarrow> 'a mtype_world_scheme \<Rightarrow> (int \<times> 'a mtype_world_scheme) option" where
  "info_exec (Save_link m now secs bi tr key dt lsn tmo) = mtype_save_link_info now secs m bi tr key dt lsn tmo"
| "info_exec (Set_task_info m ti) = mtype_set_task_info m ti"
| "info_exec (Set_prdt m p) = mtype_set_prdt m p"
| "info_exec (Set_svr_svc m ty sv sc) = mtype_set_svr_svc m ty sv sc"
| "info_exec (Set_status m st ts) = mtype_set_status m st ts"
| "info_exec (Check_timeout m now tmo) = mtype_check_timeout now m tmo"
| "info_exec (Set_err m fl mt mn e1 e2 msg) = mtype_set_err fl m mt mn e1 e2 msg"
| "info_exec (Set_saf_flow m fl tmo) = mtype_set_saf_flow m fl tmo"
| "info_exec (Set_resp m a b) = mtype_set_resp m a b"
| "info_exec (Set_date m tr dt) = mtype_set_date m tr dt"
| "info_exec (Set_info m cmd) = mtype_set_info m cmd"
| "info_exec (Set_time now) = (\<lambda>w. Some (mtype_set_time now w))"

fun info_target :: "info_op \<Rightarrow> int" where
  "info_target (Save_link m _ _ _ _ _ _ _ _) = m"
| "info_target (Set_task_info m _) = m"
| "info_target (Set_prdt m _) = m"
| "info_target (Set_svr_svc m _ _ _) = m"
| "info_target (Set_status m _ _) = m"
| "info_target (Check_timeout m _ _) = m"
| "info_target (Set_err m _ _ _ _ _ _) = m"
| "info_target (Set_saf_flow m _ _) = m"
| "info_target (Set_resp m _ _) = m"
| "info_target (Set_date m _ _) = m"
| "info_target (Set_info m _) = m"
| "info_target (Set_time _) = 0"

text \<open>The head a call leaves: only \<^verbatim>\<open>mtype_set_time\<close> writes it, the start time of the table.\<close>

fun info_head :: "info_op \<Rightarrow> mtype_t \<Rightarrow> mtype_t" where
  "info_head (Set_time now) t = t\<lparr>mh_start_time := now\<rparr>"
| "info_head _ t = t"

lemmas info_set_defs =
  mtype_save_link_info_def mtype_loc_save_link_info_def mtype_set_task_info_def mtype_loc_set_task_info_def
  mtype_set_prdt_def mtype_loc_set_prdt_def mtype_set_svr_svc_def mtype_loc_set_svr_svc_def
  mtype_set_status_def mtype_loc_set_status_def mtype_set_err_def mtype_loc_set_err_def
  mtype_set_saf_flow_def mtype_loc_set_saf_flow_def mtype_set_resp_def mtype_loc_set_resp_def
  mtype_set_date_def mtype_loc_set_date_def mtype_set_info_def mtype_loc_set_info_def

lemmas info_get_defs =
  mtype_get_task_info_def mtype_loc_get_task_info_def mtype_get_prdt_def mtype_loc_get_prdt_def
  mtype_get_svr_svc_def mtype_loc_get_svr_svc_def mtype_get_status_def mtype_loc_get_status_def
  mtype_get_saf_flow_def mtype_loc_get_saf_flow_def mtype_get_resp_def mtype_loc_get_resp_def
  mtype_get_date_def mtype_loc_get_date_def

lemma check_timeout_kept:
  assumes "mtype_inv w" and "mtype_check_timeout now m tmo w = Some (r, w')"
  shows "sessions_kept m w w'"
proof (cases "w' = w")
  case True
  with assms(1) show ?thesis by (simp add: sessions_kept_refl)
next
  case False
  with assms(2) obtain t nd where "g_shm_mtype w = Some t" "mtype_at t m = Some nd"
      "w' = w\<lparr>g_shm_mtype := Some (mtype_put m (nd\<lparr>mn_task_status := TASK_TIMEOUT\<rparr>) t)\<rparr>"
    by (auto simp: mtype_check_timeout_def mtype_loc_check_timeout_def split: option.splits if_splits bind_splits)
  with sessions_kept_put [OF assms(1)] show ?thesis by (simp add: keeps_id_def)
qed

lemma info_exec_kept:
  assumes inv: "mtype_inv w" and ex: "info_exec op w = Some (r, w')" and op: "\<And>now. op \<noteq> Set_time now"
  shows "sessions_kept (info_target op) w w'"
proof -
  from inv have g: "g_shm_mtype w \<noteq> None" by (auto simp: mtype_inv_def)
  show ?thesis
    using ex op
    apply (cases op)
               apply (simp_all add: g info_set_defs check_timeout_kept [OF inv])
             apply (erule mtype_store_kept [OF inv], auto simp: keeps_id_def Let_def split: if_splits bind_splits option.splits)+
    done
qed

lemma set_time_kept:
  assumes inv: "mtype_inv w" and t: "g_shm_mtype w = Some t"
  shows "mtype_set_time now w = (SW_OK, w\<lparr>g_shm_mtype := Some (t\<lparr>mh_start_time := now\<rparr>)\<rparr>)"
    and "mtype_inv (w\<lparr>g_shm_mtype := Some (t\<lparr>mh_start_time := now\<rparr>)\<rparr>)"
proof -
  let ?w = "w\<lparr>g_shm_mtype := Some (t\<lparr>mh_start_time := now\<rparr>)\<rparr>"
  have "sem_free (mh_lock_id t) ?w = sem_free (mh_lock_id t) w" by (rule sem_free_cong) simp_all
  then show "mtype_inv ?w" using inv t by (simp add: mtype_inv_def mtype_wf_def limits_ok_def Let_def)
qed (simp add: t mtype_set_time_def mtype_loc_set_time_def)

section \<open>Properties\<close>

text \<open>C4: Storing data neither starts nor ends a session.  Whichever of the calls of mtype.c that write into the
  table besides mtype_init, mtype_new, mtype_delete and mtype_delete_info runs, with whatever arguments, if it
  returns then the table's invariant holds, the same sessions are live, the quota tables and every node but the
  addressed one are unchanged, no session's variables were dropped, and the head is unchanged but for the start time of
  the table that mtype_set_time writes.  (What a call writes into the addressed node is not said here; linking a
  session without a business number restarts its time.)\<close>

theorem stores_keep_sessions:
  assumes "mtype_inv w" and "g_shm_mtype w = Some t" and "info_exec op w = Some (r, w')"
  shows "mtype_inv w' \<and> (\<exists>t'. g_shm_mtype w' = Some t' \<and> mtype_live t' = mtype_live t \<and>
      mtype_head.truncate t' = mtype_head.truncate (info_head op t) \<and>
      (\<forall>k. int k + 1 \<noteq> info_target op \<longrightarrow> mt_items t' ! k = mt_items t ! k)) \<and>
    g_shm_prdt_limit w' = g_shm_prdt_limit w \<and> g_shm_lsn_limit w' = g_shm_lsn_limit w \<and>
    vars_destroyed w' = vars_destroyed w"
proof (cases "\<exists>now. op = Set_time now")
  case True
  then obtain now where "op = Set_time now" by blast
  moreover from this set_time_kept(1) [OF assms(1,2), of now] assms(3)
  have "w' = w\<lparr>g_shm_mtype := Some (t\<lparr>mh_start_time := now\<rparr>)\<rparr>" by simp
  ultimately show ?thesis using set_time_kept(2) [OF assms(1,2), of now] by (simp add: mtype_live_def)
next
  case False
  then have "info_head op t = t" by (cases op) simp_all
  with info_exec_kept [OF assms(1,3)] False assms(2) show ?thesis by (auto simp: sessions_kept_def)
qed

text \<open>What is stored in a session is read back: for an id in the range of the table the response codes, the product
  (cut to 31 characters), the type with server and service, the store-and-forward flow, the status and the
  business date come back as they were stored.\<close>

theorem session_data_roundtrip:
  assumes inv: "mtype_inv w" and t: "g_shm_mtype w = Some t" and m: "1 \<le> m" "m \<le> int (length (mt_items t))"
  shows "(a \<noteq> [] \<and> b \<noteq> [] \<and> length a < 8 \<and> length b < 8 \<longrightarrow>
      (\<exists>w'. mtype_set_resp m (Some a) (Some b) w = Some (SW_OK, w') \<and>
        mtype_get_resp m True True w' = Some (Some (a, b)))) \<and>
    (\<exists>w'. mtype_set_prdt m (Some p) w = Some (SW_OK, w') \<and>
        mtype_get_prdt m True w' = Some (Some (cstr_cut 31 p))) \<and>
    (0 < ty \<and> length sv < 32 \<and> length sc < 32 \<longrightarrow>
      (\<exists>w'. mtype_set_svr_svc m ty (Some sv) (Some sc) w = Some (SW_OK, w') \<and>
        mtype_get_svr_svc m True True w' = Some (Some (ty, Some sv, Some sc)))) \<and>
    (length fl < 32 \<and> 0 < tmo \<longrightarrow>
      (\<exists>w'. mtype_set_saf_flow m (Some fl) tmo w = Some (SW_OK, w') \<and>
        mtype_get_saf_flow m True True w' = Some (Some (Some fl, Some tmo)))) \<and>
    (0 \<le> st \<longrightarrow>
      (\<exists>w'. mtype_set_status m st ts w = Some (SW_OK, w') \<and>
        mtype_get_status m True True w' = Some (Some (Some st, Some ts)))) \<and>
    (length d < 32 \<longrightarrow>
      (\<exists>w'. mtype_set_date m tr (Some d) w = Some (SW_OK, w') \<and>
        mtype_get_date m True True w' = Some (Some (Some tr, Some d))))"
proof -
  from inv t have wf: "mtype_wf t" by (auto simp: mtype_inv_def)
  have r: "mtype_in_range m t" using mtype_wfD(3) [OF wf] m by (simp add: mtype_in_range_def)
  note at = mtype_at_range [OF wf r]
  note reread = mtype_at_put [OF m(1) at, of _ m]
  note unf = info_set_defs info_get_defs mtype_store_def mtype_fetch_def t r at reread given_def
    str_into_def str_from_def Let_def
  show ?thesis using cstr_cut_length [of 31 p] by (simp add: unf)
qed

lemma key_scan_first:
  assumes "i \<le> j" "j < i + n" "i + n \<le> length items"
    and "is_used (items ! j) \<and> mn_key (items ! j) = key"
    and "\<And>k. i \<le> k \<Longrightarrow> k < j \<Longrightarrow> \<not> (is_used (items ! k) \<and> mn_key (items ! k) = key)"
  shows "key_scan items key i n = Some (Some j)"
  using assms
proof (induction n arbitrary: i)
  case 0
  then show ?case by simp
next
  case (Suc n)
  show ?case
  proof (cases "i = j")
    case True
    with Suc.prems show ?thesis by simp
  next
    case False
    then have "key_scan items key (Suc i) n = Some (Some j)"
      using Suc.prems by (intro Suc.IH) auto
    with False Suc.prems show ?thesis by (auto simp: less_eq_Suc_le)
  qed
qed

text \<open>A session is found by the business key it was linked with: after \<open>mtype_save_link_info\<close> on a live session,
  \<open>mtype_load_by_key\<close> with the same key, whatever blanks either spelling has, answers this session with its
  business and trace number, provided no live session with a smaller id carries the same key.\<close>

theorem link_found_by_key:
  assumes inv: "mtype_inv w" and t: "g_shm_mtype w = Some t" and m: "m \<in> mtype_live t"
    and key: "key \<noteq> []" "length key < 128" "length key' < 128" "pub_str_zipspace key' = pub_str_zipspace key"
    and bi: "0 < bi" "0 < tr"
    and first: "\<forall>k \<in> mtype_live t. k < m \<longrightarrow> mn_key (mt_items t ! nat (k - 1)) \<noteq> pub_str_zipspace key"
  shows "\<exists>w' r. mtype_save_link_info now secs m bi tr (Some key) None None tmo w = Some (SW_OK, w') \<and>
    mtype_load_by_key (Some key') w' = Some (Some r) \<and>
    li_mtype r = m \<and> li_bi_no r = Some bi \<and> li_trace_no r = Some tr"
proof -
  let ?i = "nat (m - 1)" and ?n = "length (mt_items t)"
  from inv t have wf: "mtype_wf t" by (auto simp: mtype_inv_def)
  from m have i: "1 \<le> m" "m \<le> int ?n" "?i < ?n" "is_used (mt_items t ! ?i)" "int ?i + 1 = m"
    by (auto simp: mtype_live_iff)
  have r: "mtype_in_range m t" using mtype_wfD(3) [OF wf] i(1,2) by (simp add: mtype_in_range_def)
  note at = mtype_at_range [OF wf r]
  have id: "mn_mtype (mt_items t ! ?i) = m" using mtype_wfD(6) [OF wf i(3,4)] i(5) by simp
  obtain nd' where nd': "mn_flag nd' = MTYPE_USED" "mn_mtype nd' = m" "mn_bi_no nd' = bi" "mn_trace_no nd' = tr"
      "mn_key nd' = pub_str_zipspace key"
    and save: "mtype_save_link_info now secs m bi tr (Some key) None None tmo w =
      Some (SW_OK, w\<lparr>g_shm_mtype := Some (mtype_put m nd' t)\<rparr>)"
  proof (rule that)
    let ?nd = "(mt_items t ! ?i)\<lparr>mn_link_time := s32 secs, mn_bi_no := bi, mn_trace_no := tr,
        mn_key := pub_str_zipspace key\<rparr>"
    let ?nd' = "if 0 < tmo then ?nd\<lparr>mn_timeout := tmo\<rparr> else ?nd"
    show "mn_flag ?nd' = MTYPE_USED" "mn_mtype ?nd' = m" "mn_bi_no ?nd' = bi" "mn_trace_no ?nd' = tr"
        "mn_key ?nd' = pub_str_zipspace key"
      using i(4) id by simp_all
    show "mtype_save_link_info now secs m bi tr (Some key) None None tmo w =
        Some (SW_OK, w\<lparr>g_shm_mtype := Some (mtype_put m ?nd' t)\<rparr>)"
      using key(1,2) bi mtype_wfD(3) [OF wf] i(2)
      by (simp add: mtype_save_link_info_def mtype_loc_save_link_info_def mtype_store_def t at
          given_def str_into_def Let_def)
  qed
  let ?items = "mt_items (mtype_put m nd' t)"
  have items: "?items = (mt_items t)[?i := nd']" by (simp add: mtype_put_def)
  have other: "\<not> (is_used (?items ! k) \<and> mn_key (?items ! k) = pub_str_zipspace key)" if "k < ?i" for k
  proof -
    have "int k + 1 \<in> mtype_live t" if "is_used (mt_items t ! k)"
      using that \<open>k < ?i\<close> i(3) by (auto simp: mtype_live_def)
    moreover have "int k + 1 < m" using that i(1) by linarith
    moreover have "nat (int k + 1 - 1) = k" by simp
    ultimately show ?thesis using first that by (fastforce simp: items)
  qed
  have "key_scan ?items (pub_str_zipspace key) 0 ?n = Some (Some ?i)"
    by (rule key_scan_first) (use i(3) nd' other in \<open>auto simp: items\<close>)
  moreover have "mh_mtype_max (mtype_put m nd' t) = int ?n" using mtype_wfD(3) [OF wf] by (simp add: mtype_put_def)
  ultimately have "\<exists>r. mtype_load_by_key (Some key') (w\<lparr>g_shm_mtype := Some (mtype_put m nd' t)\<rparr>) = Some (Some r) \<and>
      li_mtype r = m \<and> li_bi_no r = Some bi \<and> li_trace_no r = Some tr"
    using key(3,4) nd' i(3) bi by (simp add: mtype_load_by_key_def mtype_loc_load_by_key_def str_into_def items)
  with save show ?thesis by blast
qed

text \<open>The first error of a task is kept: without the force flag, \<open>mtype_set_err\<close> on a session that already has an
  error code changes nothing; with it, or on a session without an error, the new error is recorded.\<close>

theorem first_error_kept:
  assumes "mtype_inv w" and "g_shm_mtype w = Some t" and "1 \<le> m" and "m \<le> int (length (mt_items t))"
    and "0 < mt" and "0 < e1" and "0 < e2"
  shows "\<exists>w' t'. mtype_set_err fl m mt mn e1 e2 (Some msg) w = Some (SW_OK, w') \<and> g_shm_mtype w' = Some t' \<and>
    (let old = ti_err_info (mn_task_info (mt_items t ! nat (m - 1)));
         new = ti_err_info (mn_task_info (mt_items t' ! nat (m - 1))) in
     if fl \<noteq> 1 \<and> (me_err_code1 old \<noteq> 0 \<or> me_err_code2 old \<noteq> 0) then new = old
     else me_err_code1 new = s8 e1 \<and> me_err_code2 new = s8 e2 \<and> me_err_msg new = cstr_cut 64 msg)"
proof -
  from assms(1,2) have wf: "mtype_wf t" by (auto simp: mtype_inv_def)
  have r: "mtype_in_range m t" using mtype_wfD(3) [OF wf] assms(3,4) by (simp add: mtype_in_range_def)
  have "nat (m - 1) < length (mt_items t)" using assms(3,4) by linarith
  with assms(2,5-7) r mtype_at_range [OF wf r] show ?thesis
    by (simp add: mtype_set_err_def mtype_loc_set_err_def mtype_store_def mtype_put_def Let_def)
qed

text \<open>An error can be recorded and lost in the same call: the codes are kept in 8 bits, so multiples of 256 are stored
  as 0, which means no error; the next error then overwrites it without force.\<close>

theorem error_codes_lost:
  assumes "mtype_inv w" and "g_shm_mtype w = Some t" and "1 \<le> m" and "m \<le> int (length (mt_items t))"
    and "0 < mt" and "0 < e1" and "e1 mod 256 = 0" and "0 < e2" and "e2 mod 256 = 0"
  shows "\<exists>w' t'. mtype_set_err 1 m mt mn e1 e2 (Some msg) w = Some (SW_OK, w') \<and> g_shm_mtype w' = Some t' \<and>
    me_err_code1 (ti_err_info (mn_task_info (mt_items t' ! nat (m - 1)))) = 0 \<and>
    me_err_code2 (ti_err_info (mn_task_info (mt_items t' ! nat (m - 1)))) = 0"
proof -
  have "s8 e = 0" if "e mod 256 = 0" for e
  proof -
    have "(e + 128) mod 256 = (e mod 256 + 128) mod 256" by (simp only: mod_add_left_eq)
    also have "\<dots> = 128" using that by simp
    finally show ?thesis
      unfolding s8_def signed_take_bit_eq_take_bit_shift take_bit_eq_mod by simp
  qed
  moreover from assms(1,2) have wf: "mtype_wf t" by (auto simp: mtype_inv_def)
  have r: "mtype_in_range m t" using mtype_wfD(3) [OF wf] assms(3,4) by (simp add: mtype_in_range_def)
  moreover have "nat (m - 1) < length (mt_items t)" using assms(3,4) by linarith
  ultimately show ?thesis
    using assms(2,5-9) mtype_at_range [OF wf r]
    by (simp add: mtype_set_err_def mtype_loc_set_err_def mtype_store_def mtype_put_def Let_def)
qed

text \<open>A flow name of 32 characters or more is accepted, but the copy fills its field without a NUL: reading
  it back runs past the end of the field.\<close>

theorem long_flow_unterminated:
  assumes "mtype_inv w" and "g_shm_mtype w = Some t" and "1 \<le> m" and "m \<le> int (length (mt_items t))"
    and "32 \<le> length fl"
  shows "\<exists>w'. mtype_set_saf_flow m (Some fl) tmo w = Some (SW_OK, w') \<and> mtype_get_saf_flow m True dst w' = None"
proof -
  from assms(1,2) have wf: "mtype_wf t" by (auto simp: mtype_inv_def)
  have r: "mtype_in_range m t" using mtype_wfD(3) [OF wf] assms(3,4) by (simp add: mtype_in_range_def)
  note reread = mtype_at_put [OF assms(3) mtype_at_range [OF wf r], of _ m]
  from r assms(2,5) mtype_at_range [OF wf r] show ?thesis
    by (simp add: mtype_set_saf_flow_def mtype_loc_set_saf_flow_def mtype_get_saf_flow_def
        mtype_loc_get_saf_flow_def mtype_store_def mtype_fetch_def reread str_from_def cstr_cut_def Let_def)
qed

text \<open>Deleting a session with \<open>mtype_delete_info\<close> never gives its quota back: the call ends the
  session, but product and listener keep counting it.\<close>

theorem delete_info_keeps_quota:
  assumes "mtype_inv w" and "g_shm_mtype w = Some t" and "m \<in> mtype_live t"
  shows "\<exists>w' t'. mtype_delete_info m flag w =
      Some (SW_OK, w', Some (mn_server (mt_items t ! nat (m - 1)), mn_service (mt_items t ! nat (m - 1)))) \<and>
    g_shm_mtype w' = Some t' \<and> mtype_live t' = mtype_live t - {m} \<and>
    g_shm_prdt_limit w' = g_shm_prdt_limit w \<and> g_shm_lsn_limit w' = g_shm_lsn_limit w"
proof -
  let ?i = "nat (m - 1)"
  from assms(1,2) have wf: "mtype_wf t" and free: "sem_free (mh_lock_id t) w" by (auto simp: mtype_inv_def)
  from assms(3) have i: "1 \<le> m" "m \<le> int (length (mt_items t))" "?i < length (mt_items t)"
      "is_used (mt_items t ! ?i)" "int ?i + 1 = m"
    by (auto simp: mtype_live_iff)
  have id: "mn_mtype (mt_items t ! ?i) = m" using mtype_wfD(6) [OF wf i(3,4)] i(5) by simp
  have at: "mtype_at t m = Some (mt_items t ! ?i)" using i(1,2) by (simp add: mtype_at_def)
  let ?t0 = "t\<lparr>mt_items := (mt_items t)[?i := zero_mtype_node\<lparr>mn_flag := MTYPE_IDLE\<rparr>],
      mh_cur_cnt := s16 (mh_cur_cnt t - 1)\<rparr>"
  let ?t' = "if flag \<noteq> 0 then ?t0\<lparr>mh_fail_cnt := s32 (mh_fail_cnt t + 1)\<rparr>
             else ?t0\<lparr>mh_succ_cnt := s32 (mh_succ_cnt t + 1)\<rparr>"
  have "sem_mutex_unlock (mh_lock_id t) ((sem_took SEM_VALUE (mh_lock_id t) w)\<lparr>g_shm_mtype := x\<rparr>) =
      Some (0, w\<lparr>g_shm_mtype := x\<rparr>)" for x
    by (rule sem_release_took(1) [OF free, of "\<lambda>w. w\<lparr>g_shm_mtype := x\<rparr>"]) (simp add: sem_frame_def)
  then have del: "mtype_delete_info m flag w = Some (SW_OK, w\<lparr>g_shm_mtype := Some ?t'\<rparr>,
       Some (mn_server (mt_items t ! ?i), mn_service (mt_items t ! ?i)))"
    using i(4) id assms(2)
    by (simp add: mtype_delete_info_def mtype_loc_delete_info_def at sem_acquire_free(1) [OF free]
        mtype_put_def Let_def)
  have items: "mt_items ?t' = (mt_items t)[?i := zero_mtype_node\<lparr>mn_flag := MTYPE_IDLE\<rparr>]" by simp
  have "k \<in> mtype_live ?t' \<longleftrightarrow> k \<in> mtype_live t - {m}" for k
  proof (cases "k = m")
    case True
    then show ?thesis using i(1,3) by (simp add: mtype_live_iff items)
  next
    case False
    then have "1 \<le> k \<Longrightarrow> ?i \<noteq> nat (k - 1)" using i(1) by linarith
    with False show ?thesis by (auto simp: mtype_live_iff items)
  qed
  then have live: "mtype_live ?t' = mtype_live t - {m}" by blast
  show ?thesis
    by (rule exI [of _ "w\<lparr>g_shm_mtype := Some ?t'\<rparr>"], rule exI [of _ ?t'], intro conjI del live) simp_all
qed

text \<open>The monitor overruns its elapsed-time field: the milliseconds of a session are printed into 8 bytes, so
  for one that has run for ten million milliseconds (two hours and 47 minutes, less than the three hours a session
  may live) the copy leaves the field.\<close>

theorem elapsed_time_overrun:
  assumes "mtype_inv w" and "g_shm_mtype w = Some t" and "1 \<le> m" and "m \<le> int (length (mt_items t))"
    and "10000000000 \<le> now - mn_start_time (mt_items t ! nat (m - 1))"
  shows "mtype_get_tx_info localtime now m True w = None"
proof -
  let ?ms = "c_div (now - mn_start_time (mt_items t ! nat (m - 1))) 1000"
  from assms(1,2) have wf: "mtype_wf t" by (auto simp: mtype_inv_def)
  have at: "mtype_at t m = Some (mt_items t ! nat (m - 1))" using assms(3,4) by (simp add: mtype_at_def)
  have "10000000 \<le> ?ms" using assms(5) by (simp add: c_div_def)
  then have "8 \<le> length (nat_digits (nat ?ms))" using nat_digits_length_ge [of 7 "nat ?ms"] by simp
  then have "8 \<le> length (fmt_lld ?ms)" using \<open>10000000 \<le> ?ms\<close> by (simp add: fmt_lld_def)
  then show ?thesis
    using assms(2,3) at
    by (auto simp: mtype_get_tx_info_def mtype_loc_get_tx_info_def mtype_fetch_def str_into_def split: bind_splits)
qed

section \<open>Witnesses\<close>

lemma demo_range: "(1 :: int) \<le> 1" "1 \<le> int (length (mt_items demo_table))"
  by (simp_all add: demo_world)

theorem stores_keep_sessions_witness:
  "\<exists>w' t'. info_exec (Set_status 1 5 6) mtype_world0 = Some (SW_OK, w') \<and> g_shm_mtype w' = Some t' \<and>
     mtype_inv w' \<and> mtype_live t' = {1}"
proof -
  have "\<exists>w'. mtype_set_status 1 5 6 mtype_world0 = Some (SW_OK, w')"
    using session_data_roundtrip [OF demo_inv demo_world(1) demo_range, of "''a''" "''a''" "''a''" 1 "''a''" "''a''" "''a''" 1 5 6 "''a''" 1]
    by auto
  then obtain w' where w': "info_exec (Set_status 1 5 6) mtype_world0 = Some (SW_OK, w')" by auto
  from stores_keep_sessions [OF demo_inv demo_world(1) w'] w' show ?thesis by (auto simp: demo_live)
qed

theorem session_data_roundtrip_witness:
  "\<exists>w'. mtype_set_resp 1 (Some ''0000'') (Some ''1111'') mtype_world0 = Some (SW_OK, w') \<and>
     mtype_get_resp 1 True True w' = Some (Some (''0000'', ''1111''))"
  using session_data_roundtrip [OF demo_inv demo_world(1) demo_range, of "''0000''" "''1111''"] by simp

theorem link_found_by_key_witness:
  "\<exists>w' r. mtype_save_link_info 5 5 1 9527 9526 (Some ''pkg key'') None None 120 mtype_world0 = Some (SW_OK, w') \<and>
     mtype_load_by_key (Some ''pkgkey'') w' = Some (Some r) \<and> li_mtype r = 1 \<and> li_bi_no r = Some 9527"
  using link_found_by_key [OF demo_inv demo_world(1), of 1 "''pkg key''" "''pkgkey''" 9527 9526 5 5 120]
  by (auto simp: demo_live pub_str_zipspace_def)

theorem first_error_kept_witness:
  "\<exists>w'. mtype_set_err 0 1 9 10 11 12 (Some ''another error message!'') mtype_world0 = Some (SW_OK, w')"
  using first_error_kept [OF demo_inv demo_world(1) demo_range, of 9 11 12 0 10 "''another error message!''"] by auto

theorem error_codes_lost_witness:
  "\<exists>w' t'. mtype_set_err 1 1 9 10 256 512 (Some ''x'') mtype_world0 = Some (SW_OK, w') \<and> g_shm_mtype w' = Some t' \<and>
     me_err_code1 (ti_err_info (mn_task_info (mt_items t' ! 0))) = 0"
  using error_codes_lost [OF demo_inv demo_world(1) demo_range, of 9 256 512 10 "''x''"] by auto

theorem long_flow_unterminated_witness:
  "\<exists>w'. mtype_set_saf_flow 1 (Some (replicate 32 CHR ''f'')) 0 mtype_world0 = Some (SW_OK, w') \<and>
     mtype_get_saf_flow 1 True False w' = None"
  by (rule long_flow_unterminated [OF demo_inv demo_world(1) demo_range]) simp

theorem delete_info_keeps_quota_witness:
  "\<exists>w'. mtype_delete_info 1 0 mtype_world0 = Some (SW_OK, w', Some ([], [])) \<and>
     g_shm_prdt_limit w' = Some (limit_demo ''PRD'' 1)"
proof -
  have "mn_server (mt_items demo_table ! nat (1 - 1)) = []" "mn_service (mt_items demo_table ! nat (1 - 1)) = []"
    by (simp_all add: demo_table_def demo_node_def zero_mtype_node_def)
  moreover have "1 \<in> mtype_live demo_table" by (simp add: demo_live)
  ultimately show ?thesis
    using delete_info_keeps_quota [OF demo_inv demo_world(1), of 1 0] demo_world(4) by fastforce
qed

theorem elapsed_time_overrun_witness:
  "mtype_get_tx_info (\<lambda>_. None) 10000000000 1 True mtype_world0 = None"
  by (rule elapsed_time_overrun [OF demo_inv demo_world(1) demo_range])
    (simp add: demo_table_def demo_nodes)

end
