(* ===== verification/Seqs.thy ===== *)
theory Seqs
  imports Prelude Sem_Lock
begin

text \<open>
  Sequence numbers and the business date, \<^verbatim>\<open>core/seqs.c\<close>: a head with the date, its
  lock flag and the system status, an array of 20 platform units (\<^verbatim>\<open>bp_trc_array\<close>) and one of
  \<^verbatim>\<open>max_seq\<close> business units (\<^verbatim>\<open>busi_trc_array\<close>), each with a lock of its own.

  \<open>seqs_ares\<close> is \<open>None\<close> when the process works on its own memory (\<^verbatim>\<open>g_seqs_in_ares\<close> is 0);
  otherwise it is the remote resource server: its answer to a request with its text, the
  return code of \<^verbatim>\<open>ares_comm\<close> and what it leaves in the buffer.
\<close>

section \<open>State\<close>

abbreviation (input) MAX_SEQS_CNT :: nat where "MAX_SEQS_CNT \<equiv> 20"
abbreviation (input) TRACE_INC :: int where "TRACE_INC \<equiv> 1000"
abbreviation (input) SEQS_DATE_UNLOCK :: int where "SEQS_DATE_UNLOCK \<equiv> 0"
abbreviation (input) SEQS_DATE_LOCK :: int where "SEQS_DATE_LOCK \<equiv> 1"
abbreviation (input) SEQ_CYCLE_DISABLE :: int where "SEQ_CYCLE_DISABLE \<equiv> 0"
abbreviation (input) SEQ_CYCLE_ENABLE :: int where "SEQ_CYCLE_ENABLE \<equiv> 1"
abbreviation (input) SEQ_CYCLE_DB_GET :: int where "SEQ_CYCLE_DB_GET \<equiv> 2"
abbreviation (input) SEQS_SYS_STAT_RUN :: int where "SEQS_SYS_STAT_RUN \<equiv> 1"
abbreviation (input) SEQS_SYS_STAT_STOP :: int where "SEQS_SYS_STAT_STOP \<equiv> 2"
abbreviation (input) SEQS_SAVE_STAT_FIXED :: int where "SEQS_SAVE_STAT_FIXED \<equiv> 1"
abbreviation (input) SEQS_SAVE_STAT_TOTAL :: int where "SEQS_SAVE_STAT_TOTAL \<equiv> 3"

record sw_seqcfg =
  sq_cycle :: int
  sq_name :: cstr
  sq_start :: cstr
  sq_step :: cstr
  sq_max :: cstr
  sq_prefix :: cstr

record seqs_unit =
  su_name :: cstr
  su_lock_id :: int
  su_prefix :: cstr
  su_trn_prefix :: cstr
  su_base :: int
  su_trn_base :: int
  su_ejfno_max :: int
  su_base_increment :: int
  su_cycle :: int

record seqs_head =
  sh_date_lock_flag :: int
  sh_lock_id :: int
  sh_sys_status :: int
  sh_status :: int
  sh_busi_trc_cnt :: int
  sh_bp_trc_cnt :: int
  sh_max_seq :: int
  sh_sys_date :: cstr
  sh_vfs_date :: cstr

record seqs_t = seqs_head +
  bp_trc_array :: "seqs_unit list"
  busi_trc_array :: "seqs_unit list"

record seq_world = sem_world +
  g_shm_seqs :: "seqs_t option"
  seqs_ares :: "(cstr \<Rightarrow> cstr \<Rightarrow> int \<times> cstr) option"

definition zero_unit :: seqs_unit where
  "zero_unit = \<lparr>su_name = [], su_lock_id = 0, su_prefix = [], su_trn_prefix = [], su_base = 0, su_trn_base = 0,
     su_ejfno_max = 0, su_base_increment = 0, su_cycle = 0\<rparr>"

text \<open>A unit of either array.\<close>

datatype unit_ref = Bp nat | Busi nat

fun seq_unit :: "unit_ref \<Rightarrow> seqs_t \<Rightarrow> seqs_unit option" where
  "seq_unit (Bp i) t = (if i < length (bp_trc_array t) then Some (bp_trc_array t ! i) else None)"
| "seq_unit (Busi i) t = (if i < length (busi_trc_array t) then Some (busi_trc_array t ! i) else None)"

fun put_unit :: "unit_ref \<Rightarrow> seqs_unit \<Rightarrow> seqs_t \<Rightarrow> seqs_t" where
  "put_unit (Bp i) u t = t\<lparr>bp_trc_array := (bp_trc_array t)[i := u]\<rparr>"
| "put_unit (Busi i) u t = t\<lparr>busi_trc_array := (busi_trc_array t)[i := u]\<rparr>"

section \<open>Units\<close>

definition set_sequnit_by_seqcfg :: "sw_seqcfg \<Rightarrow> int \<Rightarrow> seqs_unit" where
  "set_sequnit_by_seqcfg c lockid =
     \<lparr>su_name = cstr_cut (SW_NAME_LEN - 1) (sq_name c), su_lock_id = lockid,
      su_prefix = cstr_cut (SQN_LEN - 1) (sq_prefix c), su_trn_prefix = cstr_cut (SQN_LEN - 1) (sq_prefix c),
      su_base = atoll (sq_start c), su_trn_base = atoll (sq_start c), su_ejfno_max = atoll (sq_max c),
      su_base_increment = atoi (sq_step c), su_cycle = sq_cycle c mod 256\<rparr>"

text \<open>The printed number: the prefix, then the counter padded to 12 characters in all.\<close>

definition unit_text :: "seqs_unit \<Rightarrow> cstr" where
  "unit_text u =
     su_trn_prefix u @ fmt_0lld (SW_TRACE_LEN - int (length (su_trn_prefix u))) (su_trn_base u)"

text \<open>The return code, the text stored through \<^verbatim>\<open>trace_no\<close> and the new world.  A unit that
  cycles starts again from its base and asks again: when the base itself is beyond the maximum the C
  function calls itself for ever.\<close>

partial_function (option) get_no_from_unit ::
    "unit_ref \<Rightarrow> 'a seq_world_scheme \<Rightarrow> (int \<times> cstr \<times> 'a seq_world_scheme) option" where
  "get_no_from_unit r w =
     Option.bind (g_shm_seqs w) (\<lambda>t.
     Option.bind (seq_unit r t) (\<lambda>u.
     Option.bind (sem_write_lock (su_lock_id u) w) (\<lambda>lk.
       let w1 = snd lk; trace_no = unit_text u in
       if su_ejfno_max u < su_trn_base u then
         (if su_cycle u = SEQ_CYCLE_ENABLE then
            Option.bind (sem_write_unlock (su_lock_id u)
                (w1\<lparr>g_shm_seqs := Some (put_unit r (u\<lparr>su_trn_base := su_base u\<rparr>) t)\<rparr>)) (\<lambda>ul.
              get_no_from_unit r (snd ul))
          else
            Option.bind (sem_write_unlock (su_lock_id u) w1) (\<lambda>ul.
              Some (if su_cycle u = SEQ_CYCLE_DB_GET then - 2 else - 1, trace_no, snd ul)))
       else
         Option.bind (sem_write_unlock (su_lock_id u)
             (w1\<lparr>g_shm_seqs := Some (put_unit r (u\<lparr>su_trn_base := s64 (su_trn_base u + su_base_increment u)\<rparr>) t)\<rparr>))
           (\<lambda>ul. Some (0, trace_no, snd ul)))))"

section \<open>Creation\<close>

text \<open>The search loops over the units in use: the index of the first with this name, \<open>None\<close> when
  the counter leaves the array.\<close>

definition busi_find :: "seqs_t \<Rightarrow> cstr \<Rightarrow> nat option option" where
  "busi_find t name =
     (if length (busi_trc_array t) < nat (sh_busi_trc_cnt t) then None
      else Some (find_idx (\<lambda>u. su_name u = name) (take (nat (sh_busi_trc_cnt t)) (busi_trc_array t))))"

definition bp_find :: "seqs_t \<Rightarrow> cstr \<Rightarrow> nat option option" where
  "bp_find t name =
     (if length (bp_trc_array t) < nat (sh_bp_trc_cnt t) then None
      else Some (find_idx (\<lambda>u. su_name u = name) (take (nat (sh_bp_trc_cnt t)) (bp_trc_array t))))"

definition seqs_loc_add_business_trace ::
    "sw_seqcfg \<Rightarrow> 'a seq_world_scheme \<Rightarrow> (int \<times> 'a seq_world_scheme) option" where
  "seqs_loc_add_business_trace c w = do {
     t \<leftarrow> g_shm_seqs w;
     (_, w1) \<leftarrow> sem_write_lock (sh_lock_id t) w;
     let i = nat (sh_busi_trc_cnt t);
     if sh_max_seq t < sh_busi_trc_cnt t then do {
       (_, w2) \<leftarrow> sem_write_unlock (sh_lock_id t) w1;
       Some (SW_ERROR, w2)
     } else do {
       found \<leftarrow> busi_find t (sq_name c);
       if found \<noteq> None then do {
         (_, w2) \<leftarrow> sem_write_unlock (sh_lock_id t) w1;
         Some (SW_OK, w2)
       } else do {
         (lockid, w2) \<leftarrow> sem_new_lock_id w1;
         if lockid = - 1 then do {
           (_, w3) \<leftarrow> sem_write_unlock (sh_lock_id t) w2;
           Some (SW_ERROR, w3)
         } else if length (busi_trc_array t) \<le> i then None
         else do {
           let t1 = (put_unit (Busi i) (set_sequnit_by_seqcfg c lockid) t)
                      \<lparr>sh_busi_trc_cnt := s32 (sh_busi_trc_cnt t + 1)\<rparr>;
           (_, w3) \<leftarrow> sem_write_unlock (sh_lock_id t) (w2\<lparr>g_shm_seqs := Some t1\<rparr>);
           Some (SW_OK, w3)
         }
       }
     }
   }"

text \<open>\<open>seqs_add_business_trace\<close>: the remote server is told too, its answer is only logged.\<close>

definition business_cfg :: "cstr \<Rightarrow> int \<Rightarrow> sw_seqcfg" where
  "business_cfg name prefix =
     \<lparr>sq_cycle = 0, sq_name = cstr_cut (SW_NAME_LEN - 1) name,
      sq_start = cstr_cut (SQN_LEN - 1) (fmt_lld prefix @ ''000000001''), sq_step = ''1'',
      sq_max = cstr_cut (SQN_LEN - 1) (fmt_lld prefix @ ''999999999''),
      sq_prefix = cstr_cut (SQN_LEN - 1) (fmt_lld prefix)\<rparr>"

definition seqs_add_business_trace ::
    "cstr \<Rightarrow> int \<Rightarrow> 'a seq_world_scheme \<Rightarrow> (int \<times> 'a seq_world_scheme) option" where
  "seqs_add_business_trace name prefix w = seqs_loc_add_business_trace (business_cfg name prefix) w"

text \<open>One \<^verbatim>\<open>SEQN\<close> element of the configuration: \<open>Inl ()\<close> is the error exit of the loop.\<close>

definition seqn_cfg :: "bool \<Rightarrow> xml_item \<Rightarrow> unit + sw_seqcfg" where
  "seqn_cfg workmode_mp node =
     (case xi_child node ''SQNAME'' of
        None \<Rightarrow> Inl ()
      | Some nm \<Rightarrow>
          if workmode_mp \<and> xi_child node ''SQBUSPREFIX'' = None then Inl ()
          else Inr
            \<lparr>sq_cycle = SEQ_CYCLE_ENABLE, sq_name = cstr_cut (SW_NAME_LEN - 1) nm,
             sq_start = (case xi_child node ''SQSTART'' of
                 Some v \<Rightarrow> cstr_cut (SQN_LEN - 1) (fmt_lld (atoll v)) | None \<Rightarrow> ''1''),
             sq_step = (case xi_child node ''SQSTEP'' of
                 Some v \<Rightarrow> cstr_cut (SQN_LEN - 1) v | None \<Rightarrow> ''1''),
             sq_max = (case xi_child node ''SQMAX'' of
                 Some v \<Rightarrow> cstr_cut (SQN_LEN - 1) (fmt_lld (atoll v)) | None \<Rightarrow> ''99999999''),
             sq_prefix =
               (if workmode_mp then cstr_cut (SQN_LEN - 1) (the (xi_child node ''SQBUSPREFIX''))
                else case xi_child node ''SQPREFIX'' of
                       Some v \<Rightarrow> cstr_cut (SQN_LEN - 1) v | None \<Rightarrow> ''0'')\<rparr>)"

fun seqs_init_items ::
    "bool \<Rightarrow> xml_item list \<Rightarrow> 'a seq_world_scheme \<Rightarrow> (int \<times> 'a seq_world_scheme) option" where
  "seqs_init_items mp [] w = Some (SW_OK, w)"
| "seqs_init_items mp (node # nodes) w =
     (if xi_tag node \<noteq> ''SEQN'' then seqs_init_items mp nodes w
      else case seqn_cfg mp node of
        Inl _ \<Rightarrow> Some (- 1, w)
      | Inr c \<Rightarrow> do {
          (ret, w1) \<leftarrow> seqs_loc_add_business_trace c w;
          if ret \<noteq> SW_OK then Some (SW_ERROR, w1) else seqs_init_items mp nodes w1
        })"

definition default_bp_cfg :: sw_seqcfg where
  "default_bp_cfg =
     \<lparr>sq_cycle = SEQ_CYCLE_ENABLE, sq_name = ''DEFAULT_BP'', sq_start = ''1'', sq_step = ''1'',
      sq_max = ''99999999'', sq_prefix = ''0''\<rparr>"

text \<open>\<open>mem\<close> is the business array the shared memory has room for, as it was; the C code clears
  its first element, for which there must be room, with the head and the platform units.  \<open>today\<close> is the date of the clock and
  \<open>xml\<close> the list of \<^verbatim>\<open>SEQN\<close> elements, \<open>None\<close> when the file cannot be read.\<close>

definition seqs_loc_init ::
    "seqs_unit list \<Rightarrow> cstr \<Rightarrow> bool \<Rightarrow> xml_item list option \<Rightarrow> sw_syscfg \<Rightarrow> 'a seq_world_scheme \<Rightarrow>
     (int \<times> 'a seq_world_scheme) option" where
  "seqs_loc_init mem today workmode_mp xml syscfg w = (if mem = [] then None else do {
     let t0 = \<lparr>sh_date_lock_flag = 0, sh_lock_id = 0, sh_sys_status = 0, sh_status = 0, sh_busi_trc_cnt = 0,
               sh_bp_trc_cnt = 0, sh_max_seq = 0, sh_sys_date = [], sh_vfs_date = [],
               bp_trc_array = replicate MAX_SEQS_CNT zero_unit, busi_trc_array = mem[0 := zero_unit]\<rparr>;
     (lid, w1) \<leftarrow> sem_new_lock_id (w\<lparr>g_shm_seqs := Some t0\<rparr>);
     let t1 = t0\<lparr>sh_lock_id := lid\<rparr>;
     if lid = - 1 then Some (SW_ERROR, w1\<lparr>g_shm_seqs := Some t1\<rparr>)
     else do {
       (sem_lock_id, w2) \<leftarrow> sem_new_lock_id w1;
       if sem_lock_id = - 1 then Some (SW_ERROR, w2\<lparr>g_shm_seqs := Some t1\<rparr>)
       else do {
         let t2 = t1\<lparr>sh_sys_date := cstr_cut (DATE_MAX_LEN - 1) today,
                     sh_vfs_date := cstr_cut (DATE_MAX_LEN - 1) today,
                     sh_date_lock_flag := SEQS_DATE_UNLOCK, sh_sys_status := SEQS_SYS_STAT_RUN,
                     bp_trc_array := (bp_trc_array t1)[0 := set_sequnit_by_seqcfg default_bp_cfg sem_lock_id],
                     sh_busi_trc_cnt := 0, sh_bp_trc_cnt := 1, sh_max_seq := cfg_seq_max syscfg\<rparr>;
         let w3 = w2\<lparr>g_shm_seqs := Some t2\<rparr>;
         (case xml of None \<Rightarrow> Some (SW_ERROR, w3) | Some nodes \<Rightarrow> seqs_init_items workmode_mp nodes w3)
       }
     }
   })"

definition seqs_init ::
    "seqs_unit list \<Rightarrow> cstr \<Rightarrow> bool \<Rightarrow> xml_item list option \<Rightarrow> sw_syscfg \<Rightarrow> 'a seq_world_scheme \<Rightarrow>
     (int \<times> 'a seq_world_scheme) option" where
  "seqs_init mem today workmode_mp xml syscfg w = seqs_loc_init mem today workmode_mp xml syscfg w"

text \<open>Sizes on an LP64 machine: a unit has 136 bytes, the structure with one business unit 60 bytes of head,
  padded to 64, and 21 units.\<close>

abbreviation (input) SEQS_UNIT_SIZE :: int where "SEQS_UNIT_SIZE \<equiv> 136"

definition seqs_get_size :: "sw_syscfg \<Rightarrow> int" where
  "seqs_get_size c = s32 (64 + 21 * SEQS_UNIT_SIZE + (cfg_seq_max c - 1) * SEQS_UNIT_SIZE)"

definition seqs_set_addr :: "seqs_t option \<Rightarrow> 'a seq_world_scheme \<Rightarrow> int \<times> 'a seq_world_scheme" where
  "seqs_set_addr addr w = (SW_OK, w\<lparr>g_shm_seqs := addr\<rparr>)"

section \<open>Requests for numbers\<close>

definition seqs_loc_new_trace_no ::
    "cstr option \<Rightarrow> 'a seq_world_scheme \<Rightarrow> (int \<times> cstr option \<times> 'a seq_world_scheme) option" where
  "seqs_loc_new_trace_no name w =
     (case name of
        None \<Rightarrow> do {
          (ret, trace_no, w1) \<leftarrow> get_no_from_unit (Bp 0) w;
          Some (ret, Some trace_no, w1)
        }
      | Some nm \<Rightarrow> do {
          t \<leftarrow> g_shm_seqs w;
          (_, w1) \<leftarrow> sem_read_lock (sh_lock_id t) w;
          found \<leftarrow> bp_find t nm;
          (_, w2) \<leftarrow> sem_read_unlock (sh_lock_id t) w1;
          (case found of
             None \<Rightarrow> Some (SW_ERROR, None, w2)
           | Some i \<Rightarrow> do {
               (ret, trace_no, w3) \<leftarrow> get_no_from_unit (Bp i) w2;
               Some (ret, Some trace_no, w3)
             })
        })"

text \<open>The caller's buffer has 32 bytes.\<close>

definition seqs_new_trace_no :: "'a seq_world_scheme \<Rightarrow> (int \<times> 'a seq_world_scheme) option" where
  "seqs_new_trace_no w =
     (let own = do {
          (ret, trace_no, w1) \<leftarrow> seqs_loc_new_trace_no None w;
          text \<leftarrow> trace_no;
          if SQN_LEN \<le> length text then None
          else if ret \<noteq> SW_OK then Some (SW_ERROR, w1) else Some (atoll text, w1)
        } in
      case seqs_ares w of
        None \<Rightarrow> own
      | Some f \<Rightarrow>
          let (ret, buf) = f ''SEQS_BP_NEW'' [] in
          if 0 \<le> ret then Some (atoll (cstr_cut (SQN_LEN - 1) buf), w) else own)"

definition seqs_loc_get_trace_no :: "'a seq_world_scheme \<Rightarrow> (cstr \<times> 'a seq_world_scheme) option" where
  "seqs_loc_get_trace_no w = do {
     t \<leftarrow> g_shm_seqs w;
     u \<leftarrow> seq_unit (Bp 0) t;
     (_, w1) \<leftarrow> sem_read_lock (su_lock_id u) w;
     (_, w2) \<leftarrow> sem_read_unlock (su_lock_id u) w1;
     Some (unit_text u, w2)
   }"

definition seqs_get_trace_no :: "'a seq_world_scheme \<Rightarrow> (int \<times> 'a seq_world_scheme) option" where
  "seqs_get_trace_no w =
     (if g_shm_seqs w = None then Some (SW_ERROR, w)
      else do {
        (trace_no, w1) \<leftarrow> seqs_loc_get_trace_no w;
        if SQN_LEN \<le> length trace_no then None else Some (atoll trace_no, w1)
      })"

text \<open>The return code of the unit is not looked at; with a step the counter is put back by one
  increment and moved by the step.\<close>

definition seqs_loc_new_business_no ::
    "cstr option \<Rightarrow> int \<Rightarrow> 'a seq_world_scheme \<Rightarrow> (int \<times> cstr option \<times> 'a seq_world_scheme) option" where
  "seqs_loc_new_business_no name step w =
     (case name of
        None \<Rightarrow> Some (SW_ERROR, None, w)
      | Some nm \<Rightarrow>
          if nm = [] then Some (SW_ERROR, None, w)
          else do {
            t \<leftarrow> g_shm_seqs w;
            (_, w1) \<leftarrow> sem_read_lock (sh_lock_id t) w;
            found \<leftarrow> busi_find t nm;
            (case found of
               None \<Rightarrow> do {
                 (_, w2) \<leftarrow> sem_read_unlock (sh_lock_id t) w1;
                 Some (SW_ERROR, None, w2)
               }
             | Some i \<Rightarrow> do {
                 (_, trace_no, w2) \<leftarrow> get_no_from_unit (Busi i) w1;
                 t2 \<leftarrow> g_shm_seqs w2;
                 u \<leftarrow> seq_unit (Busi i) t2;
                 (_, w3) \<leftarrow> sem_write_lock (su_lock_id u) w2;
                 let u' = (if 0 \<le> step
                           then u\<lparr>su_trn_base := s64 (su_trn_base u - su_base_increment u + step)\<rparr> else u);
                 (_, w4) \<leftarrow> sem_write_unlock (su_lock_id u) (w3\<lparr>g_shm_seqs := Some (put_unit (Busi i) u' t2)\<rparr>);
                 (_, w5) \<leftarrow> sem_read_unlock (sh_lock_id t) w4;
                 Some (0, Some trace_no, w5)
               })
          })"

definition seqs_new_business_no ::
    "cstr option \<Rightarrow> int \<Rightarrow> 'a seq_world_scheme \<Rightarrow> (int \<times> cstr option \<times> 'a seq_world_scheme) option" where
  "seqs_new_business_no name step w =
     (let own = (if g_shm_seqs w = None then Some (SW_ERROR, None, w)
                 else seqs_loc_new_business_no name step w) in
      case seqs_ares w of
        None \<Rightarrow> own
      | Some f \<Rightarrow> do {
          nm \<leftarrow> name;
          let (ret, buf) = f ''SEQS_BUS_NEW'' (cstr_cut 127 (nm @ ''~'' @ fmt_lld step));
          if 0 \<le> ret then Some (SW_OK, Some buf, w) else own
        })"

definition seqs_get_bsn_trace :: "cstr \<Rightarrow> 'a seq_world_scheme \<Rightarrow> (int \<times> cstr option) option" where
  "seqs_get_bsn_trace bsn_name w = do {
     t \<leftarrow> g_shm_seqs w;
     found \<leftarrow> busi_find t bsn_name;
     (case found of
        None \<Rightarrow> Some (0, None)
      | Some i \<Rightarrow> Some (0, Some (unit_text (busi_trc_array t ! i))))
   }"

section \<open>Setting the counters\<close>

definition seqs_set_unit ::
    "unit_ref \<Rightarrow> int \<Rightarrow> 'a seq_world_scheme \<Rightarrow> (int \<times> 'a seq_world_scheme) option" where
  "seqs_set_unit r flwno w = do {
     t \<leftarrow> g_shm_seqs w;
     u \<leftarrow> seq_unit r t;
     (_, w1) \<leftarrow> sem_write_lock (su_lock_id u) w;
     if su_ejfno_max u < flwno then do {
       (_, w2) \<leftarrow> sem_write_unlock (su_lock_id u) w1;
       Some (SW_ERR, w2)
     } else do {
       (_, w2) \<leftarrow> sem_write_unlock (su_lock_id u)
          (w1\<lparr>g_shm_seqs := Some (put_unit r (u\<lparr>su_trn_base := flwno\<rparr>) t)\<rparr>);
       Some (SW_OK, w2)
     }
   }"

text \<open>The address of the unit is computed before the null check, but not followed.\<close>

definition seqs_set_plat_flow_help ::
    "nat \<Rightarrow> int \<Rightarrow> 'a seq_world_scheme \<Rightarrow> (int \<times> 'a seq_world_scheme) option" where
  "seqs_set_plat_flow_help index flwno w =
     (if g_shm_seqs w = None then Some (SW_ERR, w) else seqs_set_unit (Bp index) flwno w)"

definition seqs_set_plat_flow :: "int \<Rightarrow> 'a seq_world_scheme \<Rightarrow> (int \<times> 'a seq_world_scheme) option" where
  "seqs_set_plat_flow flwno w = seqs_set_plat_flow_help 0 flwno w"

definition seqs_set_bp_flow ::
    "cstr \<Rightarrow> int \<Rightarrow> 'a seq_world_scheme \<Rightarrow> (int \<times> 'a seq_world_scheme) option" where
  "seqs_set_bp_flow name flwno w =
     (case g_shm_seqs w of
        None \<Rightarrow> Some (SW_ERR, w)
      | Some t \<Rightarrow> do {
          (_, w1) \<leftarrow> sem_read_lock (sh_lock_id t) w;
          found \<leftarrow> bp_find t name;
          (_, w2) \<leftarrow> sem_read_unlock (sh_lock_id t) w1;
          (case found of
             None \<Rightarrow> Some (SW_ERROR, w2)
           | Some i \<Rightarrow> seqs_set_plat_flow_help i flwno w2)
        })"

definition seqs_set_bsn_flow ::
    "cstr \<Rightarrow> int \<Rightarrow> 'a seq_world_scheme \<Rightarrow> (int \<times> 'a seq_world_scheme) option" where
  "seqs_set_bsn_flow name flwno w = do {
     t \<leftarrow> g_shm_seqs w;
     (_, w1) \<leftarrow> sem_read_lock (sh_lock_id t) w;
     found \<leftarrow> busi_find t name;
     (case found of
        None \<Rightarrow> do {
          (_, w2) \<leftarrow> sem_read_unlock (sh_lock_id t) w1;
          Some (SW_ERR, w2)
        }
      | Some i \<Rightarrow> do {
          (ret, w2) \<leftarrow> seqs_set_unit (Busi i) flwno w1;
          (_, w3) \<leftarrow> sem_read_unlock (sh_lock_id t) w2;
          Some (ret, w3)
        })
   }"

definition seqs_reset_bsn_trace ::
    "sw_seqcfg \<Rightarrow> 'a seq_world_scheme \<Rightarrow> (int \<times> 'a seq_world_scheme) option" where
  "seqs_reset_bsn_trace c w = do {
     t \<leftarrow> g_shm_seqs w;
     (_, w1) \<leftarrow> sem_read_lock (sh_lock_id t) w;
     found \<leftarrow> busi_find t (sq_name c);
     (_, w2) \<leftarrow> sem_read_unlock (sh_lock_id t) w1;
     (case found of
        None \<Rightarrow> Some (SW_ERROR, w2)
      | Some i \<Rightarrow> do {
          u \<leftarrow> seq_unit (Busi i) t;
          (_, w3) \<leftarrow> sem_write_lock (su_lock_id u) w2;
          (_, w4) \<leftarrow> sem_write_unlock (su_lock_id u)
             (w3\<lparr>g_shm_seqs := Some (put_unit (Busi i) (set_sequnit_by_seqcfg c (su_lock_id u)) t)\<rparr>);
          Some (SW_OK, w4)
        })
   }"

section \<open>Status and business date\<close>

definition seqs_get :: "'a seq_world_scheme \<Rightarrow> (int \<times> seqs_head option \<times> 'a seq_world_scheme) option" where
  "seqs_get w =
     (case g_shm_seqs w of
        None \<Rightarrow> Some (SW_ERROR, None, w)
      | Some t \<Rightarrow> do {
          (_, w1) \<leftarrow> sem_read_lock (sh_lock_id t) w;
          (_, w2) \<leftarrow> sem_read_unlock (sh_lock_id t) w1;
          Some (SW_OK, Some (seqs_head.truncate t), w2)
        })"

definition seqs_loc_get_syssts :: "'a seq_world_scheme \<Rightarrow> (int \<times> 'a seq_world_scheme) option" where
  "seqs_loc_get_syssts w =
     (case g_shm_seqs w of
        None \<Rightarrow> Some (SW_ERROR, w)
      | Some t \<Rightarrow> do {
          (_, w1) \<leftarrow> sem_read_lock (sh_lock_id t) w;
          (_, w2) \<leftarrow> sem_read_unlock (sh_lock_id t) w1;
          Some (sh_sys_status t, w2)
        })"

definition seqs_get_syssts :: "'a seq_world_scheme \<Rightarrow> (int \<times> 'a seq_world_scheme) option" where
  "seqs_get_syssts w =
     (case seqs_ares w of
        None \<Rightarrow> seqs_loc_get_syssts w
      | Some f \<Rightarrow>
          let (ret, buf) = f ''SEQS_GET_SYSSTS'' [] in
          if 0 \<le> ret then Some (atoi buf, w) else seqs_loc_get_syssts w)"

definition seqs_loc_set_syssts :: "int \<Rightarrow> 'a seq_world_scheme \<Rightarrow> (int \<times> 'a seq_world_scheme) option" where
  "seqs_loc_set_syssts status w =
     (case g_shm_seqs w of
        None \<Rightarrow> Some (SW_ERROR, w)
      | Some t \<Rightarrow>
          if status \<noteq> SEQS_SYS_STAT_RUN \<and> status \<noteq> SEQS_SYS_STAT_STOP then Some (SW_ERROR, w)
          else do {
            (_, w1) \<leftarrow> sem_write_lock (sh_lock_id t) w;
            (_, w2) \<leftarrow> sem_write_unlock (sh_lock_id t) (w1\<lparr>g_shm_seqs := Some (t\<lparr>sh_sys_status := status\<rparr>)\<rparr>);
            Some (SW_OK, w2)
          })"

definition seqs_set_syssts :: "int \<Rightarrow> 'a seq_world_scheme \<Rightarrow> (int \<times> 'a seq_world_scheme) option" where
  "seqs_set_syssts status w =
     (if g_shm_seqs w = None then Some (SW_ERROR, w) else seqs_loc_set_syssts status w)"

definition seqs_sys_start :: "'a seq_world_scheme \<Rightarrow> (int \<times> 'a seq_world_scheme) option" where
  "seqs_sys_start w = seqs_set_syssts SEQS_SYS_STAT_RUN w"

definition seqs_sys_stop :: "'a seq_world_scheme \<Rightarrow> (int \<times> 'a seq_world_scheme) option" where
  "seqs_sys_stop w = seqs_set_syssts SEQS_SYS_STAT_STOP w"

definition seqs_get_syssts_desc :: "'a seq_world_scheme \<Rightarrow> (cstr \<times> 'a seq_world_scheme) option" where
  "seqs_get_syssts_desc w = do {
     (sys_status, w1) \<leftarrow> seqs_get_syssts w;
     Some (if sys_status = SEQS_SYS_STAT_RUN then ''Running''
           else if sys_status = SEQS_SYS_STAT_STOP then ''Shutdown'' else ''Unkown'', w1)
   }"

text \<open>\<open>dst\<close>: whether the caller passed a buffer; \<open>sz\<close> is its size, at least 1.\<close>

definition seqs_loc_get_sysdate ::
    "bool \<Rightarrow> nat \<Rightarrow> 'a seq_world_scheme \<Rightarrow> (int \<times> cstr option \<times> 'a seq_world_scheme) option" where
  "seqs_loc_get_sysdate dst sz w =
     (case g_shm_seqs w of
        None \<Rightarrow> Some (SW_ERROR, None, w)
      | Some t \<Rightarrow>
          if \<not> dst then Some (SW_ERROR, None, w)
          else if sz = 0 then None
          else do {
            (_, w1) \<leftarrow> sem_read_lock (sh_lock_id t) w;
            (_, w2) \<leftarrow> sem_read_unlock (sh_lock_id t) w1;
            Some (SW_OK, Some (cstr_cut (sz - 1) (sh_sys_date t)), w2)
          })"

definition seqs_get_sysdate ::
    "bool \<Rightarrow> 'a seq_world_scheme \<Rightarrow> (int \<times> cstr option \<times> 'a seq_world_scheme) option" where
  "seqs_get_sysdate dst w =
     (let own = (if g_shm_seqs w = None then Some (SW_ERROR, None, w)
                 else seqs_loc_get_sysdate dst DATE_MAX_LEN w) in
      case seqs_ares w of
        None \<Rightarrow> own
      | Some f \<Rightarrow>
          let (ret, buf) = f ''SEQS_GET_SYSDATE'' [] in
          if 0 \<le> ret then (if dst then Some (SW_OK, Some buf, w) else None) else own)"

definition seqs_get_curdate ::
    "bool \<Rightarrow> 'a seq_world_scheme \<Rightarrow> (int \<times> cstr option \<times> 'a seq_world_scheme) option" where
  "seqs_get_curdate dst w =
     (if g_shm_seqs w = None then Some (SW_ERROR, None, w) else seqs_loc_get_sysdate dst DATE_MAX_LEN w)"

definition seqs_get_date ::
    "bool \<Rightarrow> nat \<Rightarrow> 'a seq_world_scheme \<Rightarrow> (int \<times> cstr option \<times> 'a seq_world_scheme) option" where
  "seqs_get_date dst sz w =
     (case seqs_ares w of
        None \<Rightarrow> seqs_loc_get_sysdate dst sz w
      | Some f \<Rightarrow>
          let (ret, buf) = f ''SEQS_GET_DATE'' [] in
          if 0 \<le> ret then (if dst \<and> 0 < sz then Some (SW_OK, Some (cstr_cut (sz - 1) buf), w) else None)
          else seqs_loc_get_sysdate dst sz w)"

definition seqs_is_date_locked :: "'a seq_world_scheme \<Rightarrow> (int \<times> 'a seq_world_scheme) option" where
  "seqs_is_date_locked w =
     (let own = do {
          t \<leftarrow> g_shm_seqs w;
          (_, w1) \<leftarrow> sem_read_lock (sh_lock_id t) w;
          (_, w2) \<leftarrow> sem_read_unlock (sh_lock_id t) w1;
          Some (if sh_date_lock_flag t = SEQS_DATE_LOCK then 1
                else if sh_date_lock_flag t = SEQS_DATE_UNLOCK then 0 else - 1, w2)
        } in
      case seqs_ares w of
        None \<Rightarrow> own
      | Some f \<Rightarrow>
          let (ret, buf) = f ''SEQS_IS_DATE_LOCKED'' [] in
          if 0 \<le> ret then Some (case buf of [] \<Rightarrow> - 48 | c # _ \<Rightarrow> of_char c - 48, w) else own)"

text \<open>The reset of the counters, one unit after the other under its lock.\<close>

fun reset_units :: "unit_ref list \<Rightarrow> 'a seq_world_scheme \<Rightarrow> 'a seq_world_scheme option" where
  "reset_units [] w = Some w"
| "reset_units (r # rs) w = do {
     t \<leftarrow> g_shm_seqs w;
     u \<leftarrow> seq_unit r t;
     (_, w1) \<leftarrow> sem_write_lock (su_lock_id u) w;
     (_, w2) \<leftarrow> sem_write_unlock (su_lock_id u)
        (w1\<lparr>g_shm_seqs := Some (put_unit r (u\<lparr>su_trn_base := su_base u\<rparr>) t)\<rparr>);
     reset_units rs w2
   }"

definition all_units :: "seqs_t \<Rightarrow> unit_ref list" where
  "all_units t = map Bp [0..<MAX_SEQS_CNT] @ map Busi [0..<nat (sh_busi_trc_cnt t)]"

definition seqs_loc_change_date ::
    "cstr option \<Rightarrow> 'a seq_world_scheme \<Rightarrow> (int \<times> 'a seq_world_scheme) option" where
  "seqs_loc_change_date new_sysdate w =
     (case (g_shm_seqs w, new_sysdate) of
        (Some t, Some d) \<Rightarrow> do {
          (_, w1) \<leftarrow> sem_read_lock (sh_lock_id t) w;
          (_, w2) \<leftarrow> sem_read_unlock (sh_lock_id t) w1;
          if sh_date_lock_flag t = SEQS_DATE_LOCK then Some (SW_ERROR, w2)
          else do {
            (_, w3) \<leftarrow> sem_write_lock (sh_lock_id t) w2;
            w4 \<leftarrow> reset_units (all_units t)
                   (w3\<lparr>g_shm_seqs := Some (t\<lparr>sh_sys_date := cstr_cut (DATE_MAX_LEN - 1) d\<rparr>)\<rparr>);
            (_, w5) \<leftarrow> sem_write_unlock (sh_lock_id t) w4;
            Some (SW_OK, w5)
          }
        }
      | _ \<Rightarrow> Some (SW_ERROR, w))"

definition seqs_change_date ::
    "cstr option \<Rightarrow> 'a seq_world_scheme \<Rightarrow> (int \<times> 'a seq_world_scheme) option" where
  "seqs_change_date new_sysdate w =
     (if g_shm_seqs w = None then Some (SW_ERROR, w) else seqs_loc_change_date new_sysdate w)"

definition seqs_set_date_lock ::
    "cstr option \<Rightarrow> 'a seq_world_scheme \<Rightarrow> (int \<times> 'a seq_world_scheme) option" where
  "seqs_set_date_lock new_date w =
     (if seqs_ares w \<noteq> None \<and> new_date = None then None
      else if g_shm_seqs w = None \<or> new_date = None then Some (SW_ERR, w)
      else do {
        (ret, w1) \<leftarrow> seqs_loc_change_date new_date w;
        if ret \<noteq> SW_OK then Some (SW_ERR, w1)
        else do {
          t \<leftarrow> g_shm_seqs w1;
          (_, w2) \<leftarrow> sem_write_lock (sh_lock_id t) w1;
          (_, w3) \<leftarrow> sem_write_unlock (sh_lock_id t)
             (w2\<lparr>g_shm_seqs := Some (t\<lparr>sh_date_lock_flag := SEQS_DATE_LOCK\<rparr>)\<rparr>);
          Some (SW_OK, w3)
        }
      })"

definition seqs_set_date_unlock :: "'a seq_world_scheme \<Rightarrow> (int \<times> 'a seq_world_scheme) option" where
  "seqs_set_date_unlock w =
     (case g_shm_seqs w of
        None \<Rightarrow> Some (SW_ERR, w)
      | Some t \<Rightarrow> do {
          (_, w1) \<leftarrow> sem_read_lock (sh_lock_id t) w;
          (_, w2) \<leftarrow> sem_read_unlock (sh_lock_id t) w1;
          if sh_date_lock_flag t = SEQS_DATE_UNLOCK then Some (SW_OK, w2)
          else do {
            (_, w3) \<leftarrow> sem_write_lock (sh_lock_id t) w2;
            (_, w4) \<leftarrow> sem_write_unlock (sh_lock_id t)
               (w3\<lparr>g_shm_seqs := Some (t\<lparr>sh_date_lock_flag := SEQS_DATE_UNLOCK\<rparr>)\<rparr>);
            Some (SW_OK, w4)
          }
        })"

text \<open>A number and the date it belongs to, the remote answer being \<^verbatim>\<open>number~date~\<close>.  The result's
  third component is what is stored through the two pointers; the date of a remote answer is copied without
  its NUL.\<close>

definition seqs_get_traceno_and_sysdate ::
    "'a seq_world_scheme \<Rightarrow> (int \<times> (int \<times> cstr) option \<times> 'a seq_world_scheme) option" where
  "seqs_get_traceno_and_sysdate w =
     (let own = (if g_shm_seqs w = None then Some (SW_ERROR, None, w)
        else do {
          (ret, trace, w1) \<leftarrow> seqs_loc_new_trace_no None w;
          text \<leftarrow> trace;
          if 64 \<le> length text then None
          else if ret \<noteq> SW_OK then Some (SW_ERROR, None, w1)
          else do {
            (ret2, date, w2) \<leftarrow> seqs_loc_get_sysdate True DATE_MAX_LEN w1;
            if ret2 \<noteq> SW_OK then Some (SW_ERROR, None, w2)
            else Some (SW_OK, Some (atoll text, the date), w2)
          }
        }) in
      case seqs_ares w of
        None \<Rightarrow> own
      | Some f \<Rightarrow>
          let (ret, buf) = f ''SEQS_BP_TRACE_DATE'' [];
              trace = takeWhile (\<lambda>c. c \<noteq> CHR ''~'') buf;
              rest = drop (Suc (length trace)) buf;
              date = takeWhile (\<lambda>c. c \<noteq> CHR ''~'') rest in
          if ret < 0 \<or> CHR ''~'' \<notin> set buf \<or> (length trace < 64 \<and> CHR ''~'' \<notin> set rest) then own
          else if 64 \<le> length trace then None
          else Some (SW_OK, Some (atoll trace, date), w))"

section \<open>Save and recover\<close>

fun lock_units :: "unit_ref list \<Rightarrow> 'a seq_world_scheme \<Rightarrow> 'a seq_world_scheme option" where
  "lock_units [] w = Some w"
| "lock_units (r # rs) w = do {
     t \<leftarrow> g_shm_seqs w;
     u \<leftarrow> seq_unit r t;
     (_, w1) \<leftarrow> sem_write_lock (su_lock_id u) w;
     lock_units rs w1
   }"

fun unlock_units :: "unit_ref list \<Rightarrow> 'a seq_world_scheme \<Rightarrow> 'a seq_world_scheme option" where
  "unlock_units [] w = Some w"
| "unlock_units (r # rs) w = do {
     t \<leftarrow> g_shm_seqs w;
     u \<leftarrow> seq_unit r t;
     (_, w1) \<leftarrow> sem_write_unlock (su_lock_id u) w;
     unlock_units rs w1
   }"

definition used_units :: "seqs_t \<Rightarrow> unit_ref list" where
  "used_units t = map Bp [0..<nat (sh_bp_trc_cnt t)] @ map Busi [0..<nat (sh_busi_trc_cnt t)]"

text \<open>\<open>swwork\<close> is the environment variable, \<open>opened\<close> and \<open>written\<close> say how \<^verbatim>\<open>fopen\<close> and
  \<^verbatim>\<open>fwrite\<close> end.  The third component is the content of the file: \<open>None\<close> when it was not touched,
  \<open>Some None\<close> when it is not a complete image.\<close>

definition seqs_loc_save ::
    "cstr option \<Rightarrow> bool \<Rightarrow> bool \<Rightarrow> int \<Rightarrow> 'a seq_world_scheme \<Rightarrow>
     (int \<times> seqs_t option option \<times> 'a seq_world_scheme) option" where
  "seqs_loc_save swwork opened written flag w =
     (case (g_shm_seqs w, swwork) of
        (Some t, Some dir) \<Rightarrow>
          if flag \<le> 0 \<or> SEQS_SAVE_STAT_TOTAL \<le> flag \<or> 512 \<le> length dir + 15 \<or> \<not> opened
          then Some (SW_ERROR, None, w)
          else do {
            (_, w1) \<leftarrow> sem_write_lock (sh_lock_id t) w;
            w2 \<leftarrow> lock_units (used_units t) w1;
            let t1 = t\<lparr>sh_status := flag\<rparr>;
            w3 \<leftarrow> unlock_units (used_units t) (w2\<lparr>g_shm_seqs := Some t1\<rparr>);
            (_, w4) \<leftarrow> sem_write_unlock (sh_lock_id t) w3;
            Some (if written then SW_OK else SW_ERROR, Some (if written then Some t1 else None), w4)
          }
      | _ \<Rightarrow> Some (SW_ERROR, None, w))"

definition seqs_save ::
    "cstr option \<Rightarrow> bool \<Rightarrow> bool \<Rightarrow> int \<Rightarrow> 'a seq_world_scheme \<Rightarrow>
     (int \<times> seqs_t option option \<times> 'a seq_world_scheme) option" where
  "seqs_save swwork opened written flag w =
     (if g_shm_seqs w = None then Some (SW_ERROR, None, w)
      else seqs_loc_save swwork opened written flag w)"

text \<open>All counters in use move on by \<open>k\<close>, without locks.\<close>

definition bump_units :: "int \<Rightarrow> seqs_t \<Rightarrow> seqs_t option" where
  "bump_units k t =
     (if length (bp_trc_array t) < nat (sh_bp_trc_cnt t) \<or>
         length (busi_trc_array t) < nat (sh_busi_trc_cnt t) then None
      else
        let inc = (\<lambda>u. u\<lparr>su_trn_base := s64 (su_trn_base u + k)\<rparr>);
            upd = (\<lambda>n us. map inc (take n us) @ drop n us) in
        Some (t\<lparr>bp_trc_array := upd (nat (sh_bp_trc_cnt t)) (bp_trc_array t),
                busi_trc_array := upd (nat (sh_busi_trc_cnt t)) (busi_trc_array t)\<rparr>))"

text \<open>\<open>saved\<close> is what the file holds, \<open>None\<close> when it is missing, empty or cannot be read.  Its size must be
  the one its own \<^verbatim>\<open>max_seq\<close> asks for; it is then copied over the shared memory, which must have
  room for it.\<close>

definition seqs_loc_recover ::
    "seqs_t option \<Rightarrow> 'a seq_world_scheme \<Rightarrow> (int \<times> 'a seq_world_scheme) option" where
  "seqs_loc_recover saved w =
     (case g_shm_seqs w of
        None \<Rightarrow> Some (SW_ERROR, w)
      | Some t \<Rightarrow>
          (case saved of
             Some img \<Rightarrow>
               if int (length (busi_trc_array img)) = sh_max_seq img then
                 (if length (busi_trc_array t) < length (busi_trc_array img) then None
                  else do {
                    let t1 = img\<lparr>busi_trc_array := busi_trc_array img @
                                    drop (length (busi_trc_array img)) (busi_trc_array t)\<rparr>;
                    t2 \<leftarrow> (if sh_status t1 = 1 then bump_units TRACE_INC t1 else Some t1);
                    Some (SW_OK, w\<lparr>g_shm_seqs := Some t2\<rparr>)
                  })
               else do {
                 t1 \<leftarrow> bump_units (1000 * TRACE_INC) t;
                 Some (SW_ERROR, w\<lparr>g_shm_seqs := Some t1\<rparr>)
               }
           | None \<Rightarrow> do {
               t1 \<leftarrow> bump_units (1000 * TRACE_INC) t;
               Some (SW_ERROR, w\<lparr>g_shm_seqs := Some t1\<rparr>)
             }))"

definition seqs_recover ::
    "seqs_t option \<Rightarrow> 'a seq_world_scheme \<Rightarrow> (int \<times> 'a seq_world_scheme) option" where
  "seqs_recover saved w = (if g_shm_seqs w = None then Some (SW_ERROR, w) else seqs_loc_recover saved w)"

section \<open>Locks and frames\<close>

lemma seqs_read_section:
  assumes "sem_free l w"
  shows "sem_read_lock l w = Some (0, sem_took 1 l w)" "sem_read_unlock l (sem_took 1 l w) = Some (0, w)"
  using sem_acquire_free(2) [OF assms] rdlock.held_then_freed [OF assms] by simp_all

lemma seqs_write_section:
  assumes "sem_free l w"
  shows "sem_write_lock l w = Some (0, sem_took SEM_VALUE l w)"
    and "sem_write_unlock l (sem_took SEM_VALUE l w) = Some (0, w)"
    and "sem_write_unlock l ((sem_took SEM_VALUE l w)\<lparr>g_shm_seqs := x\<rparr>) = Some (0, w\<lparr>g_shm_seqs := x\<rparr>)"
  using sem_acquire_free(3) [OF assms] wrlock.held_then_freed [OF assms]
    sem_release_took(3) [OF assms, of "\<lambda>w. w\<lparr>g_shm_seqs := x\<rparr>"]
  by (simp_all add: sem_frame_def)

lemma seqs_took_shm [simp]: "g_shm_seqs (sem_took n l w) = g_shm_seqs w"
  by (auto simp: sem_took_def split: option.splits)

lemma sem_free_shm [simp]: "sem_free l (w\<lparr>g_shm_seqs := x\<rparr>) = sem_free l w"
  by (rule sem_free_cong) simp_all

text \<open>One request to a unit whose lock is free.\<close>

definition unit_with :: "unit_ref \<Rightarrow> seqs_unit \<Rightarrow> 'a seq_world_scheme \<Rightarrow> 'a seq_world_scheme" where
  "unit_with r u w = w\<lparr>g_shm_seqs := map_option (put_unit r u) (g_shm_seqs w)\<rparr>"

definition unit_of :: "unit_ref \<Rightarrow> 'a seq_world_scheme \<Rightarrow> seqs_unit option" where
  "unit_of r w = Option.bind (g_shm_seqs w) (seq_unit r)"

lemma seq_unit_put: "seq_unit r t = Some u \<Longrightarrow> seq_unit r (put_unit r u' t) = Some u'"
  by (cases r) (auto split: if_splits)

lemma put_unit_twice: "put_unit r u (put_unit r u' t) = put_unit r u t"
  by (cases r) auto

lemma unit_of_with [simp]: "unit_of r w = Some u \<Longrightarrow> unit_of r (unit_with r u' w) = Some u'"
  by (auto simp: unit_of_def unit_with_def seq_unit_put bind_eq_Some_conv)

lemma unit_with_twice [simp]: "unit_with r u (unit_with r u' w) = unit_with r u w"
  by (simp add: unit_with_def option.map_comp o_def put_unit_twice)

lemma sem_free_unit_with [simp]: "sem_free l (unit_with r u w) = sem_free l w"
  by (simp add: unit_with_def)

lemma get_no_step:
  assumes "unit_of r w = Some u" and "sem_free (su_lock_id u) w"
  shows "get_no_from_unit r w =
    (if su_ejfno_max u < su_trn_base u
     then if su_cycle u = SEQ_CYCLE_ENABLE
          then get_no_from_unit r (unit_with r (u\<lparr>su_trn_base := su_base u\<rparr>) w)
          else Some (if su_cycle u = SEQ_CYCLE_DB_GET then - 2 else - 1, unit_text u, w)
     else Some (0, unit_text u, unit_with r (u\<lparr>su_trn_base := s64 (su_trn_base u + su_base_increment u)\<rparr>) w))"
proof -
  from assms(1) obtain t where t: "g_shm_seqs w = Some t" "seq_unit r t = Some u"
    by (auto simp: unit_of_def bind_eq_Some_conv)
  show ?thesis
    by (subst get_no_from_unit.simps)
      (simp add: t seqs_write_section [OF assms(2)] unit_with_def Let_def)
qed

section \<open>A cycling unit is a counter\<close>

text \<open>The parameters of a unit: its prefix, increment, base and maximum.  The counter may stand anywhere from the base to
  one increment behind the maximum.\<close>

definition cycling :: "unit_ref \<Rightarrow> cstr \<Rightarrow> int \<Rightarrow> int \<Rightarrow> int \<Rightarrow> 'a seq_world_scheme \<Rightarrow> bool" where
  "cycling r p s lo hi w \<longleftrightarrow>
     (\<exists>u. unit_of r w = Some u \<and> sem_free (su_lock_id u) w \<and> su_cycle u = SEQ_CYCLE_ENABLE \<and>
        su_trn_prefix u = p \<and> su_base u = lo \<and> su_ejfno_max u = hi \<and> su_base_increment u = s \<and> 1 \<le> s \<and>
        0 \<le> lo \<and> lo \<le> hi \<and> hi + s < 9223372036854775808 \<and> lo \<le> su_trn_base u \<and> su_trn_base u \<le> hi + s)"

definition unit_value :: "unit_ref \<Rightarrow> 'a seq_world_scheme \<Rightarrow> int" where
  "unit_value r w =
     (case unit_of r w of
        None \<Rightarrow> 0
      | Some u \<Rightarrow> if su_ejfno_max u < su_trn_base u then su_base u else su_trn_base u)"

definition number_text :: "cstr \<Rightarrow> int \<Rightarrow> cstr" where
  "number_text p v = p @ fmt_0lld (SW_TRACE_LEN - int (length p)) v"

definition draw_unit :: "unit_ref \<Rightarrow> 'a seq_world_scheme \<Rightarrow> ((int \<times> cstr) \<times> 'a seq_world_scheme) option" where
  "draw_unit r w = map_option (\<lambda>(ret, trace_no, w'). ((ret, trace_no), w')) (get_no_from_unit r w)"

lemma cycling_request:
  assumes "cycling r p s lo hi w"
  shows "\<exists>u. unit_of r w = Some u \<and>
    get_no_from_unit r w = Some (0, number_text p (unit_value r w),
      unit_with r (u\<lparr>su_trn_base := unit_value r w + s\<rparr>) w) \<and>
    lo \<le> unit_value r w \<and> unit_value r w \<le> hi"
proof -
  from assms obtain u where u: "unit_of r w = Some u" "sem_free (su_lock_id u) w" "su_cycle u = SEQ_CYCLE_ENABLE"
      "su_trn_prefix u = p" "su_base u = lo" "su_ejfno_max u = hi" "su_base_increment u = s" "1 \<le> s"
      "0 \<le> lo" "lo \<le> hi" "hi + s < 9223372036854775808" "lo \<le> su_trn_base u" "su_trn_base u \<le> hi + s"
    by (auto simp: cycling_def)
  show ?thesis
  proof (cases "hi < su_trn_base u")
    case True
    let ?u = "u\<lparr>su_trn_base := lo\<rparr>"
    have v: "unit_value r w = lo" using True u by (simp add: unit_value_def)
    have "get_no_from_unit r w = get_no_from_unit r (unit_with r ?u w)"
      using get_no_step [OF u(1,2)] True u by simp
    also have "\<dots> = Some (0, unit_text ?u, unit_with r (?u\<lparr>su_trn_base := s64 (lo + s)\<rparr>) (unit_with r ?u w))"
      using get_no_step [of r "unit_with r ?u w" ?u] u by simp
    also have "s64 (lo + s) = lo + s" using u by (intro s64_id) simp_all
    finally show ?thesis using u v by (simp add: unit_text_def number_text_def)
  next
    case False
    have v: "unit_value r w = su_trn_base u" using False u by (simp add: unit_value_def)
    have "s64 (su_trn_base u + s) = su_trn_base u + s" using False u by (intro s64_id) simp_all
    then show ?thesis
      using get_no_step [OF u(1,2)] False u v by (simp add: unit_text_def number_text_def)
  qed
qed

interpretation trace: counter "draw_unit r" "cycling r p s lo hi" "unit_value r" "wrap_next s lo hi"
    "\<lambda>v. (0, number_text p v)" for r p s lo hi
proof unfold_locales
  fix w :: "'a seq_world_scheme"
  assume c: "cycling r p s lo hi w"
  from cycling_request [OF c] obtain u where u: "unit_of r w = Some u"
      "get_no_from_unit r w = Some (0, number_text p (unit_value r w),
        unit_with r (u\<lparr>su_trn_base := unit_value r w + s\<rparr>) w)"
      "lo \<le> unit_value r w" "unit_value r w \<le> hi"
    by blast
  let ?w = "unit_with r (u\<lparr>su_trn_base := unit_value r w + s\<rparr>) w"
  have "cycling r p s lo hi ?w" using c u by (auto simp: cycling_def)
  moreover have "unit_value r ?w = wrap_next s lo hi (unit_value r w)"
    using c u by (auto simp: cycling_def unit_value_def [of r ?w] wrap_next_def)
  ultimately show "\<exists>w'. draw_unit r w = Some ((0, number_text p (unit_value r w)), w') \<and>
      cycling r p s lo hi w' \<and> unit_value r w' = wrap_next s lo hi (unit_value r w)"
    using u by (simp add: draw_unit_def)
qed

lemma number_text_inj:
  "0 \<le> x \<Longrightarrow> 0 \<le> y \<Longrightarrow> number_text p x = number_text p y \<Longrightarrow> x = y"
  by (auto simp: number_text_def intro: fmt_0lld_inj_any)

section \<open>Properties of number requests\<close>

text \<open>C10: A cycling unit counts through its range before it repeats a number.  For any increment from 1 on and any
  number of requests in a row, each request returns success and prints the prefix with a value from base to maximum: the
  first one the value the counter stands at, every further one the value before it plus the increment, or the base again
  when this would be beyond the maximum; and when two of the numbers are equal, the unit has started again
  from its base in between.  (The base is not negative and not above the maximum, the maximum plus the increment fits 63 bits,
  the counter stands between base and maximum plus increment, and the unit's lock is free.)\<close>

theorem numbers_cycle_through_range:
  assumes "cycling r p s lo hi w"
  shows "\<exists>vs w'. draw_many (draw_unit r) k w = Some (map (\<lambda>v. (0, number_text p v)) vs, w') \<and>
    cycling r p s lo hi w' \<and> length vs = k \<and> (\<forall>v \<in> set vs. lo \<le> v \<and> v \<le> hi) \<and>
    (0 < k \<longrightarrow> vs ! 0 = unit_value r w) \<and>
    (\<forall>i. Suc i < k \<longrightarrow> vs ! Suc i = (if vs ! i + s \<le> hi then vs ! i + s else lo)) \<and>
    (\<forall>i j. i < j \<and> j < k \<and> number_text p (vs ! j) = number_text p (vs ! i) \<longrightarrow> (\<exists>m. i < m \<and> m \<le> j \<and> vs ! m = lo))"
proof -
  have v: "lo \<le> unit_value r w" "unit_value r w \<le> hi" "0 \<le> lo" "1 \<le> s"
    using cycling_request [OF assms(1)] assms(1) by (auto simp: cycling_def)
  let ?f = "\<lambda>i. (wrap_next s lo hi ^^ i) (unit_value r w)"
  let ?vs = "map ?f [0..<k]"
  have range: "lo \<le> ?f i \<and> ?f i \<le> hi" for i using wrap_next_range [of s lo "unit_value r w" hi i] v by simp
  obtain w' where w': "draw_many (draw_unit r) k w = Some (map (\<lambda>i. (0, number_text p (?f i))) [0..<k], w')"
      "cycling r p s lo hi w'"
    using trace.draw_many_values [OF assms(1), of k] by blast
  have "\<exists>m. i < m \<and> m \<le> j \<and> ?vs ! m = lo"
    if "i < j" "j < k" "number_text p (?vs ! j) = number_text p (?vs ! i)" for i j
  proof -
    have "?f j = ?f i" using that range v(3) by (intro number_text_inj [of _ _ p]) (auto intro: order_trans [OF v(3)])
    from wrap_next_repeats [OF v(4) that(1) this] that(2) show ?thesis by (metis (no_types, lifting) add_0 le_less_trans length_upt nth_map nth_upt diff_zero)
  qed
  moreover have "\<forall>i. Suc i < k \<longrightarrow> ?vs ! Suc i = (if ?vs ! i + s \<le> hi then ?vs ! i + s else lo)"
    by (simp add: wrap_next_def)
  ultimately show ?thesis
    using w' range by (intro exI [of _ ?vs] exI [of _ w']) (auto simp: comp_def)
qed

text \<open>In steps of 1 the values are those of the whole range, one after the other.\<close>

theorem numbers_cover_range:
  assumes "cycling r p 1 lo hi w"
  shows "\<exists>w'. draw_many (draw_unit r) k w =
    Some (map (\<lambda>i. (0, number_text p (lo + (unit_value r w - lo + int i) mod (hi - lo + 1)))) [0..<k], w')"
proof -
  have v: "lo \<le> unit_value r w" "unit_value r w \<le> hi" using cycling_request [OF assms] by auto
  from trace.draw_many_values [OF assms, of k] show ?thesis by (auto simp: wrap_next_power [OF v])
qed

text \<open>The platform's trace number is the counter itself: on a process that works on its own memory, with the
  default prefix \<^verbatim>\<open>0\<close>, \<open>seqs_new_trace_no\<close> returns the current value of the first platform unit as a number and
  moves it on.\<close>

theorem trace_number_is_counter:
  assumes "cycling (Bp 0) ''0'' s lo hi w" and "seqs_ares w = None" and "hi < 100000000000"
  shows "\<exists>w'. seqs_new_trace_no w = Some (unit_value (Bp 0) w, w') \<and> cycling (Bp 0) ''0'' s lo hi w' \<and>
    unit_value (Bp 0) w' = wrap_next s lo hi (unit_value (Bp 0) w)"
proof -
  let ?v = "unit_value (Bp 0) w"
  from trace.draw_law [OF assms(1)] obtain w' where
    w': "get_no_from_unit (Bp 0) w = Some (0, number_text ''0'' ?v, w')" "cycling (Bp 0) ''0'' s lo hi w'"
      "unit_value (Bp 0) w' = wrap_next s lo hi ?v"
    by (auto simp: draw_unit_def)
  have v: "0 \<le> ?v" "?v < 10 ^ 11"
    using cycling_request [OF assms(1)] assms(1,3) by (auto simp: cycling_def)
  have "length (fmt_0lld (int 11) ?v) = 11" by (rule fmt_0lld_length [OF v]) simp
  then have len: "length (number_text ''0'' ?v) = 12" by (simp add: number_text_def)
  have "\<forall>c \<in> set (number_text ''0'' ?v). c_isdigit c"
    using fmt_0lld_digits [OF v(1), of 11] by (auto simp: number_text_def)
  moreover have "digits_val (number_text ''0'' ?v) = nat ?v"
    using digits_val_zeros [of 1 "fmt_0lld 11 ?v"] fmt_0lld_val [OF v(1), of 11] by (simp add: number_text_def)
  ultimately have "atoll (number_text ''0'' ?v) = sat64 ?v"
    using v(1) len by (subst atoll_digits) (auto simp: number_text_def)
  then have "atoll (number_text ''0'' ?v) = ?v" using v by (simp add: sat64_def)
  with w' len assms(2) show ?thesis by (simp add: seqs_new_trace_no_def seqs_loc_new_trace_no_def)
qed

definition beyond :: "unit_ref \<Rightarrow> 'a seq_world_scheme \<Rightarrow> bool" where
  "beyond r w \<longleftrightarrow> (\<exists>u. unit_of r w = Some u \<and> sem_free (su_lock_id u) w \<and> su_cycle u = SEQ_CYCLE_ENABLE \<and>
     su_ejfno_max u < su_base u \<and> su_ejfno_max u < su_trn_base u)"

text \<open>A request to a cycling unit whose configured start lies beyond its maximum never returns: the function calls
  itself again after every reset to the base.\<close>

theorem start_beyond_max_never_returns:
  fixes w :: "'a seq_world_scheme"
  assumes "beyond r w"
  shows "get_no_from_unit r w = None"
proof -
  have "\<not> beyond r w" if "get_no_from_unit r w = Some res" for r and w :: "'a seq_world_scheme" and res
  proof (rule get_no_from_unit.raw_induct [where P = "\<lambda>r w _. \<not> beyond r w", OF _ that])
    fix get :: "unit_ref \<Rightarrow> 'a seq_world_scheme \<Rightarrow> (int \<times> cstr \<times> 'a seq_world_scheme) option"
      and r :: unit_ref and w :: "'a seq_world_scheme" and res
    assume IH: "\<And>r w y. get r w = Some y \<Longrightarrow> \<not> beyond r w"
      and body: "Option.bind (g_shm_seqs w) (\<lambda>t. Option.bind (seq_unit r t) (\<lambda>u.
        Option.bind (sem_write_lock (su_lock_id u) w) (\<lambda>lk.
          let w1 = snd lk; trace_no = unit_text u in
          if su_ejfno_max u < su_trn_base u then
            (if su_cycle u = SEQ_CYCLE_ENABLE then
               Option.bind (sem_write_unlock (su_lock_id u)
                   (w1\<lparr>g_shm_seqs := Some (put_unit r (u\<lparr>su_trn_base := su_base u\<rparr>) t)\<rparr>)) (\<lambda>ul.
                 get r (snd ul))
             else Option.bind (sem_write_unlock (su_lock_id u) w1) (\<lambda>ul.
                 Some (if su_cycle u = SEQ_CYCLE_DB_GET then - 2 else - 1, trace_no, snd ul)))
          else Option.bind (sem_write_unlock (su_lock_id u)
              (w1\<lparr>g_shm_seqs := Some (put_unit r (u\<lparr>su_trn_base := s64 (su_trn_base u + su_base_increment u)\<rparr>) t)\<rparr>))
              (\<lambda>ul. Some (0, trace_no, snd ul))))) = Some res"
    show "\<not> beyond r w"
    proof
      assume "beyond r w"
      then obtain u where u: "unit_of r w = Some u" "sem_free (su_lock_id u) w" "su_cycle u = SEQ_CYCLE_ENABLE"
          "su_ejfno_max u < su_base u" "su_ejfno_max u < su_trn_base u"
        by (auto simp: beyond_def)
      let ?w = "unit_with r (u\<lparr>su_trn_base := su_base u\<rparr>) w"
      from u(1) obtain t where t: "g_shm_seqs w = Some t" "seq_unit r t = Some u"
        by (auto simp: unit_of_def bind_eq_Some_conv)
      have "get r ?w = Some res"
        using body u(3,5) t by (simp add: seqs_write_section [OF u(2)] unit_with_def Let_def)
      moreover have "beyond r ?w"
        unfolding beyond_def using u by (intro exI [of _ "u\<lparr>su_trn_base := su_base u\<rparr>"]) simp
      ultimately show False using IH by blast
    qed
  qed
  with assms show ?thesis by (cases "get_no_from_unit r w") auto
qed

section \<open>The business day\<close>

text \<open>A table nobody is working on: the head's lock is free, every unit exists, its lock is free and not the head's.\<close>

definition seqs_idle :: "seqs_t \<Rightarrow> 'a seq_world_scheme \<Rightarrow> bool" where
  "seqs_idle t w \<longleftrightarrow> g_shm_seqs w = Some t \<and> sem_free (sh_lock_id t) w \<and>
     (\<forall>r \<in> set (all_units t). \<exists>u. seq_unit r t = Some u \<and> sem_free (su_lock_id u) w \<and>
        su_lock_id u \<noteq> sh_lock_id t)"

lemma seq_unit_put_iff:
  "seq_unit r t = Some u0 \<Longrightarrow> seq_unit r' (put_unit r u t) = (if r' = r then Some u else seq_unit r' t)"
  by (cases r; cases r') (auto split: if_splits)

lemma put_unit_head [simp]:
  "sh_lock_id (put_unit r u t) = sh_lock_id t" "sh_busi_trc_cnt (put_unit r u t) = sh_busi_trc_cnt t"
  "sh_date_lock_flag (put_unit r u t) = sh_date_lock_flag t" "sh_sys_date (put_unit r u t) = sh_sys_date t"
  "sh_bp_trc_cnt (put_unit r u t) = sh_bp_trc_cnt t" "sh_max_seq (put_unit r u t) = sh_max_seq t"
  "seqs_head.truncate (put_unit r u t) = seqs_head.truncate t"
  by (cases r; simp add: seqs_head.defs)+

definition reset_of :: "seqs_unit \<Rightarrow> seqs_unit" where
  "reset_of u = u\<lparr>su_trn_base := su_base u\<rparr>"

lemma reset_of_simps [simp]:
  "su_lock_id (reset_of u) = su_lock_id u" "reset_of (reset_of u) = reset_of u"
  "su_trn_base (reset_of u) = su_base u" "su_base (reset_of u) = su_base u"
  by (simp_all add: reset_of_def)

lemma reset_units_ok:
  assumes "g_shm_seqs w = Some t"
    and "\<forall>r \<in> set rs. \<exists>u. seq_unit r t = Some u \<and> sem_free (su_lock_id u) w"
  shows "\<exists>t'. reset_units rs w = Some (w\<lparr>g_shm_seqs := Some t'\<rparr>) \<and>
    (\<forall>r. seq_unit r t' = (if r \<in> set rs then map_option reset_of (seq_unit r t) else seq_unit r t)) \<and>
    seqs_head.truncate t' = seqs_head.truncate t"
  using assms
proof (induction rs arbitrary: w t)
  case Nil
  then show ?case by (intro exI [of _ t]) auto
next
  case (Cons r rs)
  from Cons.prems obtain u where u: "seq_unit r t = Some u" "sem_free (su_lock_id u) w" by auto
  let ?t = "put_unit r (reset_of u) t"
  let ?w = "w\<lparr>g_shm_seqs := Some ?t\<rparr>"
  have "\<exists>v. seq_unit r' ?t = Some v \<and> sem_free (su_lock_id v) ?w" if "r' \<in> set rs" for r'
    using that Cons.prems u by (cases "r' = r") (auto simp: seq_unit_put_iff [OF u(1)])
  then obtain t' where t': "reset_units rs ?w = Some (?w\<lparr>g_shm_seqs := Some t'\<rparr>)"
      "\<forall>r'. seq_unit r' t' = (if r' \<in> set rs then map_option reset_of (seq_unit r' ?t) else seq_unit r' ?t)"
      "seqs_head.truncate t' = seqs_head.truncate ?t"
    using Cons.IH [of ?w ?t] by auto
  have "reset_units (r # rs) w = reset_units rs ?w"
    using Cons.prems(1) u by (simp add: seqs_write_section [OF u(2)] reset_of_def)
  moreover have "seq_unit r' t' = (if r' \<in> set (r # rs) then map_option reset_of (seq_unit r' t) else seq_unit r' t)" for r'
    using t'(2) u(1) by (simp add: seq_unit_put_iff [OF u(1)])
  ultimately show ?case using t' by (intro exI [of _ t']) simp
qed

lemma seqs_head_truncate_sel:
  "seqs_head.truncate t = seqs_head.truncate t' \<Longrightarrow>
     sh_date_lock_flag t = sh_date_lock_flag t' \<and> sh_lock_id t = sh_lock_id t' \<and>
     sh_sys_date t = sh_sys_date t' \<and> sh_busi_trc_cnt t = sh_busi_trc_cnt t'"
  by (simp add: seqs_head.defs)

lemma change_date_unlocked:
  assumes idle: "seqs_idle t w" and unl: "sh_date_lock_flag t \<noteq> SEQS_DATE_LOCK"
  shows "\<exists>t'. seqs_change_date (Some d) w = Some (SW_OK, w\<lparr>g_shm_seqs := Some t'\<rparr>) \<and>
    seqs_loc_change_date (Some d) w = Some (SW_OK, w\<lparr>g_shm_seqs := Some t'\<rparr>) \<and>
    (\<forall>r. seq_unit r t' = (if r \<in> set (all_units t) then map_option reset_of (seq_unit r t) else seq_unit r t)) \<and>
    seqs_head.truncate t' = seqs_head.truncate (t\<lparr>sh_sys_date := cstr_cut 15 d\<rparr>) \<and>
    seqs_idle t' (w\<lparr>g_shm_seqs := Some t'\<rparr>)"
proof -
  from idle have t: "g_shm_seqs w = Some t" and free: "sem_free (sh_lock_id t) w" by (auto simp: seqs_idle_def)
  let ?t1 = "t\<lparr>sh_sys_date := cstr_cut 15 d\<rparr>"
  let ?w1 = "(sem_took SEM_VALUE (sh_lock_id t) w)\<lparr>g_shm_seqs := Some ?t1\<rparr>"
  have same: "seq_unit r ?t1 = seq_unit r t" for r by (cases r) simp_all
  have units: "\<forall>r \<in> set (all_units t). \<exists>u. seq_unit r ?t1 = Some u \<and> sem_free (su_lock_id u) ?w1"
    unfolding same using idle sem_free_took [OF free] by (auto simp: seqs_idle_def)
  obtain t' where t': "reset_units (all_units t) ?w1 = Some (?w1\<lparr>g_shm_seqs := Some t'\<rparr>)"
      "\<forall>r. seq_unit r t' = (if r \<in> set (all_units t) then map_option reset_of (seq_unit r t) else seq_unit r t)"
      "seqs_head.truncate t' = seqs_head.truncate ?t1"
    using reset_units_ok [OF _ units] by (auto simp: same)
  have "seqs_loc_change_date (Some d) w = Some (SW_OK, w\<lparr>g_shm_seqs := Some t'\<rparr>)"
    using unl t t'(1) by (simp add: seqs_loc_change_date_def seqs_read_section [OF free] seqs_write_section [OF free])
  moreover have "seqs_idle t' (w\<lparr>g_shm_seqs := Some t'\<rparr>)"
  proof -
    from seqs_head_truncate_sel [OF t'(3)] have h: "sh_lock_id t' = sh_lock_id t" "all_units t' = all_units t"
      by (simp_all add: all_units_def)
    show ?thesis
      unfolding seqs_idle_def h
    proof (intro conjI ballI)
      fix r assume r: "r \<in> set (all_units t)"
      with idle obtain u where "seq_unit r t = Some u" "sem_free (su_lock_id u) w" "su_lock_id u \<noteq> sh_lock_id t"
        by (auto simp: seqs_idle_def)
      with r t'(2) show "\<exists>u. seq_unit r t' = Some u \<and> sem_free (su_lock_id u) (w\<lparr>g_shm_seqs := Some t'\<rparr>) \<and>
          su_lock_id u \<noteq> sh_lock_id t" by simp
    qed (use free in simp_all)
  qed
  ultimately show ?thesis using t t'(2,3) by (auto simp: seqs_change_date_def)
qed

text \<open>C26: The change of the business date: on a table on which nobody works (the head's lock and those of all units are
  free, and no unit has the head's lock) and whose date is not locked seqs_change_date succeeds, the new date (cut to 15
  characters) is in force, the counter of every platform unit and of every business unit in use stands at its base again,
  every other field of these units, every other unit, every other field of the head and everything outside the table is
  what it was, and no lock stays held.\<close>

theorem change_date_resets_all:
  assumes "seqs_idle t w" and "sh_date_lock_flag t \<noteq> SEQS_DATE_LOCK"
  shows "\<exists>t'. seqs_change_date (Some d) w = Some (SW_OK, w\<lparr>g_shm_seqs := Some t'\<rparr>) \<and>
    seqs_head.truncate t' = (seqs_head.truncate t)\<lparr>sh_sys_date := cstr_cut 15 d\<rparr> \<and>
    (\<forall>r \<in> set (all_units t). \<exists>u. seq_unit r t = Some u \<and> seq_unit r t' = Some (u\<lparr>su_trn_base := su_base u\<rparr>)) \<and>
    (\<forall>r. r \<notin> set (all_units t) \<longrightarrow> seq_unit r t' = seq_unit r t) \<and>
    seqs_idle t' (w\<lparr>g_shm_seqs := Some t'\<rparr>)"
proof -
  from change_date_unlocked [OF assms, of d] obtain t' where t': "seqs_change_date (Some d) w = Some (SW_OK, w\<lparr>g_shm_seqs := Some t'\<rparr>)"
    "\<forall>r. seq_unit r t' = (if r \<in> set (all_units t) then map_option reset_of (seq_unit r t) else seq_unit r t)"
    "seqs_head.truncate t' = seqs_head.truncate (t\<lparr>sh_sys_date := cstr_cut 15 d\<rparr>)"
    "seqs_idle t' (w\<lparr>g_shm_seqs := Some t'\<rparr>)"
    by blast
  have "\<exists>u. seq_unit r t = Some u \<and> seq_unit r t' = Some (u\<lparr>su_trn_base := su_base u\<rparr>)" if "r \<in> set (all_units t)" for r
    using assms(1) that t'(2) by (auto simp: seqs_idle_def reset_of_def)
  moreover have "seqs_head.truncate t' = (seqs_head.truncate t)\<lparr>sh_sys_date := cstr_cut 15 d\<rparr>"
    using t'(3) by (simp add: seqs_head.defs)
  ultimately show ?thesis using t' by auto
qed

text \<open>The date lock holds until it is lifted: after \<open>seqs_set_date_lock\<close> every change of the date is refused and changes
  nothing; after \<open>seqs_set_date_unlock\<close> it succeeds again.\<close>

theorem date_lock_holds:
  assumes "seqs_idle t w" and "sh_date_lock_flag t \<noteq> SEQS_DATE_LOCK"
  shows "\<exists>w1 w2 w3. seqs_set_date_lock (Some d) w = Some (SW_OK, w1) \<and>
    (\<forall>d'. seqs_change_date (Some d') w1 = Some (SW_ERROR, w1)) \<and>
    seqs_set_date_unlock w1 = Some (SW_OK, w2) \<and> seqs_change_date (Some d') w2 = Some (SW_OK, w3)"
proof -
  from change_date_unlocked [OF assms, of d] obtain t' where t': "seqs_loc_change_date (Some d) w = Some (SW_OK, w\<lparr>g_shm_seqs := Some t'\<rparr>)"
    "seqs_head.truncate t' = seqs_head.truncate (t\<lparr>sh_sys_date := cstr_cut 15 d\<rparr>)"
    "seqs_idle t' (w\<lparr>g_shm_seqs := Some t'\<rparr>)"
    by blast
  have upd: "seqs_idle (t'\<lparr>sh_date_lock_flag := v\<rparr>) (w\<lparr>g_shm_seqs := Some (t'\<lparr>sh_date_lock_flag := v\<rparr>)\<rparr>)" for v
  proof -
    have "seq_unit r (t'\<lparr>sh_date_lock_flag := v\<rparr>) = seq_unit r t'" for r by (cases r) simp_all
    with t'(3) show ?thesis by (simp add: seqs_idle_def all_units_def)
  qed
  let ?t1 = "t'\<lparr>sh_date_lock_flag := SEQS_DATE_LOCK\<rparr>"
  let ?t2 = "t'\<lparr>sh_date_lock_flag := SEQS_DATE_UNLOCK\<rparr>"
  let ?w1 = "w\<lparr>g_shm_seqs := Some ?t1\<rparr>" and ?w2 = "w\<lparr>g_shm_seqs := Some ?t2\<rparr>"
  from assms(1) have g: "g_shm_seqs w \<noteq> None" by (auto simp: seqs_idle_def)
  from t'(3) have free: "sem_free (sh_lock_id t') w" by (simp add: seqs_idle_def)
  then have "sem_free (sh_lock_id t') (w\<lparr>g_shm_seqs := Some t'\<rparr>)" "sem_free (sh_lock_id t') ?w1" by simp_all
  note sec = seqs_write_section [OF this(1)] seqs_write_section [OF this(2)]
    seqs_read_section [OF this(2)] seqs_read_section [OF this(1)]
  have "seqs_set_date_lock (Some d) w = Some (SW_OK, ?w1)"
    using g t'(1) sec by (simp add: seqs_set_date_lock_def)
  moreover have "seqs_change_date (Some d') ?w1 = Some (SW_ERROR, ?w1)" for d'
    using sec by (simp add: seqs_change_date_def seqs_loc_change_date_def)
  moreover have "seqs_set_date_unlock ?w1 = Some (SW_OK, ?w2)"
    using sec by (simp add: seqs_set_date_unlock_def)
  moreover obtain w3 where "seqs_change_date (Some d') ?w2 = Some (SW_OK, w3)"
    using change_date_unlocked [OF upd [of 0], of d'] by auto
  ultimately show ?thesis by blast
qed

section \<open>Business numbers\<close>

text \<open>A business unit in use: found under its name, with its lock and the head's free and different.\<close>

definition business_unit :: "cstr \<Rightarrow> nat \<Rightarrow> seqs_unit \<Rightarrow> seqs_t \<Rightarrow> 'a seq_world_scheme \<Rightarrow> bool" where
  "business_unit nm i u t w \<longleftrightarrow> g_shm_seqs w = Some t \<and> nm \<noteq> [] \<and> busi_find t nm = Some (Some i) \<and>
     seq_unit (Busi i) t = Some u \<and> sem_free (sh_lock_id t) w \<and> sem_free (su_lock_id u) w \<and>
     su_lock_id u \<noteq> sh_lock_id t"

lemma business_unit_put:
  assumes "business_unit nm i u t w" and "su_name u' = su_name u" and "su_lock_id u' = su_lock_id u"
  shows "business_unit nm i u' (put_unit (Busi i) u' t) (w\<lparr>g_shm_seqs := Some (put_unit (Busi i) u' t)\<rparr>)"
proof -
  let ?k = "nat (sh_busi_trc_cnt t)" and ?us = "busi_trc_array t"
  from assms(1) have f: "?k \<le> length ?us" "find_idx (\<lambda>u. su_name u = nm) (take ?k ?us) = Some i"
      and u: "i < length ?us" "?us ! i = u"
    by (auto simp: business_unit_def busi_find_def split: if_splits)
  note first = find_idx_Some [OF f(2)]
  from first f(1) have i: "i < ?k" by simp
  have "find_idx (\<lambda>u. su_name u = nm) (take ?k (?us[i := u'])) = Some i"
  proof (rule find_idx_eqI)
    show "i < length (take ?k (?us[i := u']))" using i f(1) by simp
    show "su_name (take ?k (?us[i := u']) ! i) = nm" using first i u assms(2) by simp
    show "su_name (take ?k (?us[i := u']) ! j) \<noteq> nm" if "j < i" for j
      using first that i by simp
  qed
  with assms(1,3) f(1) u(1) show ?thesis by (simp add: business_unit_def busi_find_def)
qed

lemma business_request:
  assumes bu: "business_unit nm i u t w" and step: "0 \<le> step"
    and inc: "su_trn_base u \<le> su_ejfno_max u \<or> su_cycle u = SEQ_CYCLE_DISABLE"
    and rng: "- 4611686018427387904 \<le> su_trn_base u" "su_trn_base u < 4611686018427387904"
      "0 \<le> su_base_increment u" "su_base_increment u < 2147483648" "step < 2147483648"
  shows "seqs_loc_new_business_no (Some nm) step w =
    Some (0, Some (unit_text u), w\<lparr>g_shm_seqs := Some (put_unit (Busi i) (u\<lparr>su_trn_base :=
      (if su_ejfno_max u < su_trn_base u then su_trn_base u - su_base_increment u + step
       else su_trn_base u + step)\<rparr>) t)\<rparr>)"
proof -
  from bu have t: "g_shm_seqs w = Some t" "nm \<noteq> []" "busi_find t nm = Some (Some i)" "seq_unit (Busi i) t = Some u"
      and free: "sem_free (sh_lock_id t) w" and ufree: "sem_free (su_lock_id u) w"
      and ne: "sh_lock_id t \<noteq> su_lock_id u"
    by (auto simp: business_unit_def)
  let ?w1 = "sem_took 1 (sh_lock_id t) w"
  have f1: "sem_free (su_lock_id u) ?w1" by (simp add: sem_free_took [OF free ne] ufree)
  have f2: "sem_free (su_lock_id u) (?w1\<lparr>g_shm_seqs := x\<rparr>)" for x using f1 by simp
  have of1: "unit_of (Busi i) ?w1 = Some u" using t by (simp add: unit_of_def)
  have rel: "sem_read_unlock (sh_lock_id t) (?w1\<lparr>g_shm_seqs := x\<rparr>) = Some (0, w\<lparr>g_shm_seqs := x\<rparr>)" for x
    by (rule sem_release_took(2) [OF free, of "\<lambda>w. w\<lparr>g_shm_seqs := x\<rparr>"]) (simp add: sem_frame_def)
  have tk: "?w1\<lparr>g_shm_seqs := Some t\<rparr> = ?w1"
  proof -
    obtain K where K: "?w1 = w\<lparr>kernel_sems := K\<rparr>"
      by (cases "?w1 = w") (auto simp: sem_took_def split: option.splits intro: that [of "kernel_sems w"])
    show ?thesis using t(1) unfolding K by (cases w) simp
  qed
  note simps = seqs_loc_new_business_no_def t seqs_read_section(1) [OF free] rel
  show ?thesis
  proof (cases "su_ejfno_max u < su_trn_base u")
    case True
    with inc have "su_cycle u = SEQ_CYCLE_DISABLE" by simp
    with True have g: "get_no_from_unit (Busi i) ?w1 = Some (- 1, unit_text u, ?w1)"
      using get_no_step [OF of1 f1] by simp
    have "s64 (su_trn_base u - su_base_increment u + step) = su_trn_base u - su_base_increment u + step"
      using rng step by (intro s64_id) linarith+
    with True step show ?thesis
      using t(1) rel by (simp add: simps g seqs_write_section [OF f1] del: put_unit.simps seq_unit.simps)
  next
    case False
    have i1: "s64 (su_trn_base u + su_base_increment u) = su_trn_base u + su_base_increment u"
      using rng by (intro s64_id) linarith+
    have i2: "s64 (su_trn_base u + step) = su_trn_base u + step"
      using rng step by (intro s64_id) linarith+
    let ?u1 = "u\<lparr>su_trn_base := su_trn_base u + su_base_increment u\<rparr>"
    have g: "get_no_from_unit (Busi i) ?w1 =
        Some (0, unit_text u, ?w1\<lparr>g_shm_seqs := Some (put_unit (Busi i) ?u1 t)\<rparr>)"
      using get_no_step [OF of1 f1] False t(1) by (simp add: i1 unit_with_def)
    have "seq_unit (Busi i) (put_unit (Busi i) ?u1 t) = Some ?u1" by (rule seq_unit_put [OF t(4)])
    with False step i2 show ?thesis
      by (simp add: simps g seqs_write_section [OF f2] del: put_unit.simps seq_unit.simps)
        (simp add: put_unit_twice del: put_unit.simps)
  qed
qed

text \<open>A business request reserves as many numbers as its step says: two requests in a row answer the current value
  and the value one step further, so the reserved ranges do not overlap, as long as the maximum is not passed.\<close>

theorem business_numbers_reserved:
  assumes "business_unit nm i u t w" and "0 \<le> n" and "0 \<le> n'" and "n < 2147483648" and "n' < 2147483648"
    and "0 \<le> su_trn_base u" and "su_trn_base u + n \<le> su_ejfno_max u" and "su_ejfno_max u < 4611686018427387904"
    and "0 \<le> su_base_increment u" and "su_base_increment u < 2147483648"
  shows "\<exists>w1 w2. seqs_loc_new_business_no (Some nm) n w =
      Some (0, Some (number_text (su_trn_prefix u) (su_trn_base u)), w1) \<and>
    seqs_loc_new_business_no (Some nm) n' w1 =
      Some (0, Some (number_text (su_trn_prefix u) (su_trn_base u + n)), w2)"
proof -
  let ?u = "u\<lparr>su_trn_base := su_trn_base u + n\<rparr>"
  let ?t = "put_unit (Busi i) ?u t"
  have "business_unit nm i ?u ?t (w\<lparr>g_shm_seqs := Some ?t\<rparr>)"
    by (rule business_unit_put [OF assms(1)]) simp_all
  from business_request [OF this assms(3)] business_request [OF assms(1,2)] assms(2-10)
  show ?thesis by (simp add: unit_text_def number_text_def)
qed

text \<open>When a business unit that does not cycle has run out, requests go on succeeding: the return code of the unit is
  dropped, and with the usual step the same number, beyond the maximum, is handed out again and again.\<close>

theorem exhausted_business_number_repeats:
  assumes "business_unit nm i u t w" and "su_cycle u = SEQ_CYCLE_DISABLE" and "su_ejfno_max u < su_trn_base u"
    and "su_base_increment u = 1" and "- 4611686018427387904 \<le> su_trn_base u" and "su_trn_base u < 4611686018427387904"
  shows "\<exists>w1 w2. seqs_loc_new_business_no (Some nm) 1 w =
      Some (0, Some (number_text (su_trn_prefix u) (su_trn_base u)), w1) \<and>
    seqs_loc_new_business_no (Some nm) 1 w1 =
      Some (0, Some (number_text (su_trn_prefix u) (su_trn_base u)), w2)"
proof -
  let ?t = "put_unit (Busi i) u t"
  have "business_unit nm i u ?t (w\<lparr>g_shm_seqs := Some ?t\<rparr>)"
    by (rule business_unit_put [OF assms(1)]) simp_all
  from business_request [OF this, of 1] business_request [OF assms(1), of 1] assms(2-6)
  show ?thesis by (simp add: unit_text_def number_text_def)
qed

text \<open>The business table is filled one past its end: when all \<^verbatim>\<open>max_seq\<close> units are in use the test still lets a new name
  in, and its unit is written behind the array.\<close>

theorem business_table_overrun:
  assumes "g_shm_seqs w = Some t" and "sem_free (sh_lock_id t) w" and "sem_free 1 w" and "sh_lock_id t \<noteq> 1"
    and "g_sem_lock w = Some s" and "0 \<le> sl_lock_cnt s" and "sl_lock_cnt s < sl_sem_num s"
    and "sh_busi_trc_cnt t = sh_max_seq t" and "length (busi_trc_array t) = nat (sh_max_seq t)"
    and "\<forall>u \<in> set (busi_trc_array t). su_name u \<noteq> sq_name c"
  shows "seqs_loc_add_business_trace c w = None"
proof -
  let ?w = "sem_took SEM_VALUE (sh_lock_id t) w"
  have find: "busi_find t (sq_name c) = Some None"
    using assms(8-10) by (auto simp: busi_find_def find_idx_None)
  have g: "g_sem_lock ?w = Some s" using assms(5) by (auto simp: sem_took_def split: option.splits)
  have "sem_free 1 ?w" using assms(3,4) by (simp add: sem_free_took [OF assms(2)])
  from sem_new_lock_id_free [OF this g assms(7)] assms(1,6,8,9) find show ?thesis
    by (simp add: seqs_loc_add_business_trace_def seqs_write_section [OF assms(2)] Let_def)
qed

section \<open>Saving and recovering\<close>

lemma sem_took_commute:
  assumes "sem_free l w" and "sem_free l' w" and "l \<noteq> l'"
  shows "sem_took n l (sem_took n l' w) = sem_took n l' (sem_took n l w)"
proof -
  from assms have "nat l \<noteq> nat l'" by (auto simp: sem_free_def split: option.splits)
  then show ?thesis by (auto simp: sem_took_def list_update_swap split: option.splits)
qed

lemma sem_free_took_set:
  "sem_free l1 w \<Longrightarrow> l1 \<notin> S \<Longrightarrow> \<forall>l \<in> S. sem_free l w \<Longrightarrow> \<forall>l \<in> S. sem_free l (sem_took n l1 w)"
  using sem_free_took by metis

abbreviation (input) took_all :: "int list \<Rightarrow> 'a seq_world_scheme \<Rightarrow> 'a seq_world_scheme" where
  "took_all ls w \<equiv> fold (sem_took SEM_VALUE) ls w"

lemma took_all_free:
  "sem_free l w \<Longrightarrow> \<forall>l' \<in> set ls. sem_free l' w \<Longrightarrow> distinct ls \<Longrightarrow> l \<notin> set ls \<Longrightarrow> sem_free l (took_all ls w)"
proof (induction ls arbitrary: w)
  case Nil
  then show ?case by simp
next
  case (Cons l1 ls)
  have "\<forall>k \<in> insert l (set ls). sem_free k (sem_took SEM_VALUE l1 w)"
    by (rule sem_free_took_set) (use Cons.prems in auto)
  with Cons show ?case by simp
qed

lemma took_all_commute:
  "sem_free l w \<Longrightarrow> \<forall>l' \<in> set ls. sem_free l' w \<Longrightarrow> distinct ls \<Longrightarrow> l \<notin> set ls \<Longrightarrow>
     took_all ls (sem_took SEM_VALUE l w) = sem_took SEM_VALUE l (took_all ls w)"
proof (induction ls arbitrary: w)
  case Nil
  then show ?case by simp
next
  case (Cons l1 ls)
  have free1: "sem_free l1 w" "l1 \<noteq> l" using Cons.prems by auto
  have "\<forall>k \<in> insert l (set ls). sem_free k (sem_took SEM_VALUE l1 w)"
    by (rule sem_free_took_set) (use Cons.prems in auto)
  with Cons.prems have "took_all ls (sem_took SEM_VALUE l (sem_took SEM_VALUE l1 w)) =
      sem_took SEM_VALUE l (took_all ls (sem_took SEM_VALUE l1 w))"
    by (intro Cons.IH) auto
  then show ?case using sem_took_commute [OF free1(1) Cons.prems(1) free1(2)] by simp
qed

lemma took_all_shm [simp]: "g_shm_seqs (took_all ls w) = g_shm_seqs w"
  by (induction ls arbitrary: w) simp_all

text \<open>Every unit of \<open>rs\<close> with its lock.\<close>

definition unit_lock :: "seqs_t \<Rightarrow> unit_ref \<Rightarrow> int" where
  "unit_lock t r = (case seq_unit r t of None \<Rightarrow> - 1 | Some u \<Rightarrow> su_lock_id u)"

lemma lock_units_ok:
  assumes "g_shm_seqs w = Some t" and "\<forall>r \<in> set rs. seq_unit r t \<noteq> None \<and> sem_free (unit_lock t r) w"
    and "distinct (map (unit_lock t) rs)"
  shows "lock_units rs w = Some (took_all (map (unit_lock t) rs) w)"
  using assms
proof (induction rs arbitrary: w)
  case Nil
  then show ?case by simp
next
  case (Cons r rs)
  then obtain u where u: "seq_unit r t = Some u" "unit_lock t r = su_lock_id u" by (auto simp: unit_lock_def)
  have free: "sem_free (su_lock_id u) w" using Cons.prems u by auto
  have "sem_free (unit_lock t r') (sem_took SEM_VALUE (su_lock_id u) w)" if "r' \<in> set rs" for r'
  proof -
    have "su_lock_id u \<noteq> unit_lock t r'" using Cons.prems(3) that u by auto
    with sem_free_took [OF free this] that Cons.prems show ?thesis by simp
  qed
  then have "lock_units rs (sem_took SEM_VALUE (su_lock_id u) w) =
      Some (took_all (map (unit_lock t) rs) (sem_took SEM_VALUE (su_lock_id u) w))"
    using Cons.prems by (intro Cons.IH) auto
  then show ?case using Cons.prems(1) u by (simp add: seqs_write_section [OF free])
qed

lemma unlock_units_ok:
  assumes "\<forall>r \<in> set rs. seq_unit r t \<noteq> None \<and> sem_free (unit_lock t r) w"
    and "distinct (map (unit_lock t) rs)"
  shows "unlock_units rs ((took_all (map (unit_lock t) rs) w)\<lparr>g_shm_seqs := Some t\<rparr>) =
    Some (w\<lparr>g_shm_seqs := Some t\<rparr>)"
  using assms
proof (induction rs)
  case Nil
  then show ?case by simp
next
  case (Cons r rs)
  then obtain u where u: "seq_unit r t = Some u" "unit_lock t r = su_lock_id u" by (auto simp: unit_lock_def)
  let ?ls = "map (unit_lock t) rs"
  have free: "sem_free (su_lock_id u) w" and all: "\<forall>l \<in> set ?ls. sem_free l w" and ls: "distinct ?ls" "su_lock_id u \<notin> set ?ls"
    using Cons.prems u by auto
  have free': "sem_free (su_lock_id u) (took_all ?ls w)" by (rule took_all_free [OF free all ls])
  have "unlock_units (r # rs) ((took_all (map (unit_lock t) (r # rs)) w)\<lparr>g_shm_seqs := Some t\<rparr>) =
      unlock_units rs ((took_all ?ls w)\<lparr>g_shm_seqs := Some t\<rparr>)"
    using u took_all_commute [OF free all ls] by (simp add: seqs_write_section(3) [OF free'])
  with Cons show ?case by simp
qed

lemma unit_lock_status [simp]:
  "unit_lock (t\<lparr>sh_status := v\<rparr>) r = unit_lock t r" "seq_unit r (t\<lparr>sh_status := v\<rparr>) = seq_unit r t"
  by (cases r; simp add: unit_lock_def)+

lemma bump_units_unit:
  assumes "bump_units k t = Some t'" and "r \<in> set (used_units t)" and "seq_unit r t = Some u"
  shows "seq_unit r t' = Some (u\<lparr>su_trn_base := s64 (su_trn_base u + k)\<rparr>)"
  using assms
  by (auto simp: bump_units_def used_units_def Let_def nth_append split: if_splits)

text \<open>Numbers issued after a save are not issued again after a crash, up to a thousand per unit.  On an idle table whose
  units in use have different locks \<open>seqs_save\<close> with the flag for a fixed save writes the whole table and releases every
  lock; when a later process recovers from that file, each unit in use continues 1000 behind its saved counter.\<close>

theorem recover_skips_issued:
  assumes "g_shm_seqs w = Some t" and "length dir < 497"
    and "nat (sh_bp_trc_cnt t) \<le> length (bp_trc_array t)" and "nat (sh_busi_trc_cnt t) \<le> length (busi_trc_array t)"
    and "int (length (busi_trc_array t)) = sh_max_seq t"
    and "sem_free (sh_lock_id t) w" and "\<forall>r \<in> set (used_units t). sem_free (unit_lock t r) w"
    and "distinct (sh_lock_id t # map (unit_lock t) (used_units t))"
    and "g_shm_seqs v = Some tv" and "length (busi_trc_array t) \<le> length (busi_trc_array tv)"
  shows "\<exists>img v' t'. seqs_save (Some dir) True True 1 w = Some (SW_OK, Some (Some img), w\<lparr>g_shm_seqs := Some img\<rparr>) \<and>
    seqs_recover (Some img) v = Some (SW_OK, v') \<and> g_shm_seqs v' = Some t' \<and>
    (\<forall>r \<in> set (used_units t). \<exists>u. seq_unit r t = Some u \<and>
       seq_unit r t' = Some (u\<lparr>su_trn_base := s64 (su_trn_base u + 1000)\<rparr>))"
proof -
  let ?img = "t\<lparr>sh_status := 1\<rparr>"
  let ?us = "used_units t"
  let ?w = "sem_took SEM_VALUE (sh_lock_id t) w"
  have ex: "seq_unit r t \<noteq> None" if "r \<in> set ?us" for r
    using that assms(3,4) by (auto simp: used_units_def)
  have units: "\<forall>r \<in> set ?us. seq_unit r t \<noteq> None \<and> sem_free (unit_lock t r) ?w"
    using ex sem_free_took_set [OF assms(6), of "unit_lock t ` set ?us"] assms(7,8) by auto
  have dis: "distinct (map (unit_lock t) ?us)" using assms(8) by simp
  have lk: "lock_units ?us ?w = Some (took_all (map (unit_lock t) ?us) ?w)"
    using lock_units_ok [OF _ units dis] assms(1) by simp
  have ul: "unlock_units ?us ((took_all (map (unit_lock t) ?us) ?w)\<lparr>g_shm_seqs := Some ?img\<rparr>) =
      Some (?w\<lparr>g_shm_seqs := Some ?img\<rparr>)"
  proof -
    have ml: "map (unit_lock ?img) ?us = map (unit_lock t) ?us" by simp
    show ?thesis using unlock_units_ok [of ?us ?img ?w, unfolded ml] units dis by simp
  qed
  have save: "seqs_save (Some dir) True True 1 w = Some (SW_OK, Some (Some ?img), w\<lparr>g_shm_seqs := Some ?img\<rparr>)"
    using assms(1,2) lk ul by (simp add: seqs_save_def seqs_loc_save_def seqs_write_section [OF assms(6)] Let_def)
  let ?t1 = "?img\<lparr>busi_trc_array := busi_trc_array t @ drop (length (busi_trc_array t)) (busi_trc_array tv)\<rparr>"
  have "bump_units 1000 ?t1 \<noteq> None" using assms(3,4) by (simp add: bump_units_def Let_def)
  then obtain t' where t': "bump_units 1000 ?t1 = Some t'" by blast
  have rec: "seqs_recover (Some ?img) v = Some (SW_OK, v\<lparr>g_shm_seqs := Some t'\<rparr>)"
    using assms(5,9,10) t' by (simp add: seqs_recover_def seqs_loc_recover_def)
  have "\<exists>u. seq_unit r t = Some u \<and> seq_unit r t' = Some (u\<lparr>su_trn_base := s64 (su_trn_base u + 1000)\<rparr>)"
    if r: "r \<in> set ?us" for r
  proof -
    from ex [OF r] obtain u where u: "seq_unit r t = Some u" by blast
    then have "seq_unit r ?t1 = Some u" by (cases r) (auto simp: nth_append split: if_splits)
    moreover have "r \<in> set (used_units ?t1)" using r by (simp add: used_units_def)
    ultimately show ?thesis using bump_units_unit [OF t'] u by blast
  qed
  with save rec show ?thesis by (intro exI conjI) (assumption | simp)+
qed

section \<open>Witnesses\<close>

text \<open>The table as \<open>seqs_loc_init\<close> leaves it with one business unit: the head has lock 2, the first
  platform unit lock 3, the business unit lock 4.\<close>

definition seqs_demo_unit :: "cstr \<Rightarrow> int \<Rightarrow> int \<Rightarrow> int \<Rightarrow> seqs_unit" where
  "seqs_demo_unit nm lock cycle v =
     \<lparr>su_name = nm, su_lock_id = lock, su_prefix = ''0'', su_trn_prefix = ''0'', su_base = 1, su_trn_base = v,
      su_ejfno_max = 9999, su_base_increment = 1, su_cycle = cycle\<rparr>"

definition seqs_demo :: "int \<Rightarrow> int \<Rightarrow> seqs_t" where
  "seqs_demo cycle v =
     \<lparr>sh_date_lock_flag = 0, sh_lock_id = 2, sh_sys_status = 1, sh_status = 0, sh_busi_trc_cnt = 1, sh_bp_trc_cnt = 1,
      sh_max_seq = 1, sh_sys_date = ''20160101'', sh_vfs_date = ''20160101'',
      bp_trc_array = seqs_demo_unit ''DEFAULT_BP'' 3 1 9998 # replicate 19 zero_unit,
      busi_trc_array = [seqs_demo_unit ''BUS'' 4 cycle v]\<rparr>"

definition seq_world0 :: "int \<Rightarrow> int \<Rightarrow> seq_world" where
  "seq_world0 cycle v =
     \<lparr>kernel_sems = [7 \<mapsto> [500, 500, 500, 500, 500, 500, 500]],
      g_sem_lock = Some \<lparr>sl_sem_id = 7, sl_sem_num = 7, sl_lock_cnt = 4, sl_lock_id = 1\<rparr>,
      g_shm_seqs = Some (seqs_demo cycle v), seqs_ares = None\<rparr>"

lemma seqs_demo_free: "0 \<le> l \<Longrightarrow> l < 7 \<Longrightarrow> sem_free l (seq_world0 cycle v)"
proof -
  assume "0 \<le> l" "l < 7"
  then have "nat l \<in> {0, 1, 2, 3, 4, 5, 6}" by auto
  with \<open>0 \<le> l\<close> \<open>l < 7\<close> show ?thesis by (auto simp: sem_free_def seq_world0_def)
qed

lemma seqs_demo_world [simp]:
  "g_shm_seqs (seq_world0 cycle v) = Some (seqs_demo cycle v)" "seqs_ares (seq_world0 cycle v) = None"
  by (simp_all add: seq_world0_def)

lemma seqs_demo_units:
  "seq_unit (Bp 0) (seqs_demo cycle v) = Some (seqs_demo_unit ''DEFAULT_BP'' 3 1 9998)"
  "seq_unit (Busi 0) (seqs_demo cycle v) = Some (seqs_demo_unit ''BUS'' 4 cycle v)"
  "0 < i \<Longrightarrow> i < 20 \<Longrightarrow> seq_unit (Bp i) (seqs_demo cycle v) = Some zero_unit"
  by (simp_all add: seqs_demo_def)

lemma seqs_demo_idle: "seqs_idle (seqs_demo cycle v) (seq_world0 cycle v)"
proof -
  have "\<exists>u. seq_unit r (seqs_demo cycle v) = Some u \<and> 0 \<le> su_lock_id u \<and> su_lock_id u < 7 \<and> su_lock_id u \<noteq> 2"
    if "r \<in> set (all_units (seqs_demo cycle v))" for r
  proof -
    from that have "(\<exists>i < 20. r = Bp i) \<or> r = Busi 0" by (auto simp: all_units_def seqs_demo_def)
    then consider "r = Bp 0" | i where "r = Bp i" "0 < i" "i < 20" | "r = Busi 0" by (metis gr_zeroI)
    then show ?thesis
      by cases (simp_all only: seqs_demo_units, simp_all add: seqs_demo_unit_def zero_unit_def)
  qed
  moreover have "sh_lock_id (seqs_demo cycle v) = 2" by (simp add: seqs_demo_def)
  ultimately show ?thesis unfolding seqs_idle_def using seqs_demo_free by fastforce
qed

lemma seqs_demo_cycling: "cycling (Bp 0) ''0'' 1 1 9999 (seq_world0 cycle v)"
  by (simp add: cycling_def unit_of_def seqs_demo_units del: seq_unit.simps)
    (simp add: seqs_demo_unit_def seqs_demo_free)

lemma seqs_demo_value: "unit_value (Bp 0) (seq_world0 cycle v) = 9998"
  by (simp add: unit_value_def unit_of_def seqs_demo_units del: seq_unit.simps)
    (simp add: seqs_demo_unit_def)

lemma seqs_demo_business:
  "business_unit ''BUS'' 0 (seqs_demo_unit ''BUS'' 4 cycle v) (seqs_demo cycle v) (seq_world0 cycle v)"
proof -
  have "busi_find (seqs_demo cycle v) ''BUS'' = Some (Some 0)"
    by (simp add: busi_find_def seqs_demo_def seqs_demo_unit_def)
  moreover have "sh_lock_id (seqs_demo cycle v) = 2" "su_lock_id (seqs_demo_unit ''BUS'' 4 cycle v) = 4"
    by (simp_all add: seqs_demo_def seqs_demo_unit_def)
  ultimately show ?thesis by (simp add: business_unit_def seqs_demo_units seqs_demo_free del: seq_unit.simps)
qed

theorem numbers_cycle_through_range_witness:
  "\<exists>vs w'. draw_many (draw_unit (Bp 0)) 3 (seq_world0 0 5) = Some (map (\<lambda>v. (0, number_text ''0'' v)) vs, w') \<and>
     length vs = 3 \<and> vs ! 2 = 1"
proof -
  from numbers_cycle_through_range [OF seqs_demo_cycling, of 3 0 5] obtain vs w' where
    "draw_many (draw_unit (Bp 0)) 3 (seq_world0 0 5) = Some (map (\<lambda>v. (0, number_text ''0'' v)) vs, w')" "length vs = 3"
    "vs ! 0 = 9998" and vs: "\<forall>i. Suc i < 3 \<longrightarrow> vs ! Suc i = (if vs ! i + 1 \<le> 9999 then vs ! i + 1 else 1)"
    by (auto simp: seqs_demo_value)
  moreover from vs have "vs ! Suc 0 = (if vs ! 0 + 1 \<le> 9999 then vs ! 0 + 1 else 1)"
    "vs ! Suc (Suc 0) = (if vs ! Suc 0 + 1 \<le> 9999 then vs ! Suc 0 + 1 else 1)" by auto
  ultimately show ?thesis by (intro exI [of _ vs] exI [of _ w']) (simp add: numeral_2_eq_2)
qed

theorem trace_number_is_counter_witness:
  "\<exists>w'. seqs_new_trace_no (seq_world0 0 5) = Some (9998, w') \<and> unit_value (Bp 0) w' = 9999"
  using trace_number_is_counter [OF seqs_demo_cycling, of 0 5] by (auto simp: seqs_demo_value wrap_next_def)

theorem start_beyond_max_never_returns_witness:
  "get_no_from_unit (Busi 0) (unit_with (Busi 0)
     ((seqs_demo_unit ''BUS'' 4 1 10001)\<lparr>su_base := 10001\<rparr>) (seq_world0 1 5)) = None"
proof (rule start_beyond_max_never_returns)
  let ?u = "(seqs_demo_unit ''BUS'' 4 1 10001)\<lparr>su_base := 10001\<rparr>"
  have "unit_of (Busi 0) (unit_with (Busi 0) ?u (seq_world0 1 5)) = Some ?u"
    by (simp add: unit_of_def unit_with_def seqs_demo_def)
  then show "beyond (Busi 0) (unit_with (Busi 0) ?u (seq_world0 1 5))"
    by (simp add: beyond_def seqs_demo_unit_def seqs_demo_free)
qed

theorem change_date_resets_all_witness:
  "\<exists>t'. seqs_change_date (Some ''20160102'') (seq_world0 0 5) =
      Some (SW_OK, (seq_world0 0 5)\<lparr>g_shm_seqs := Some t'\<rparr>) \<and> sh_sys_date t' = ''20160102'' \<and>
     map_option su_trn_base (seq_unit (Busi 0) t') = Some 1"
proof -
  have "Busi 0 \<in> set (all_units (seqs_demo 0 5))" "sh_date_lock_flag (seqs_demo 0 5) \<noteq> 1"
    by (auto simp: all_units_def seqs_demo_def)
  note units = this
  moreover have "sh_sys_date t' = ''20160102''"
    if "seqs_head.truncate t' = (seqs_head.truncate (seqs_demo 0 5))\<lparr>sh_sys_date := cstr_cut 15 ''20160102''\<rparr>" for t'
    using arg_cong [OF that, of sh_sys_date] by (simp add: seqs_head.defs cstr_cut_def)
  ultimately show ?thesis
    using change_date_resets_all [OF seqs_demo_idle units(2), of "''20160102''"]
    by (fastforce simp: seqs_demo_units seqs_demo_unit_def simp del: seq_unit.simps)
qed

theorem date_lock_holds_witness:
  "\<exists>w1 w2 w3. seqs_set_date_lock (Some ''20160102'') (seq_world0 0 5) = Some (SW_OK, w1) \<and>
     seqs_change_date (Some ''20160103'') w1 = Some (SW_ERROR, w1) \<and>
     seqs_set_date_unlock w1 = Some (SW_OK, w2) \<and> seqs_change_date (Some ''20160103'') w2 = Some (SW_OK, w3)"
proof -
  have "sh_date_lock_flag (seqs_demo 0 5) \<noteq> 1" by (simp add: seqs_demo_def)
  from date_lock_holds [OF seqs_demo_idle this, of "''20160102''" "''20160103''"] show ?thesis by blast
qed

theorem business_numbers_reserved_witness:
  "\<exists>w1 w2. seqs_loc_new_business_no (Some ''BUS'') 10 (seq_world0 0 5) = Some (0, Some ''000000000005'', w1) \<and>
     seqs_loc_new_business_no (Some ''BUS'') 1 w1 = Some (0, Some ''000000000015'', w2)"
proof -
  have "number_text ''0'' 5 = ''000000000005''" "number_text ''0'' 15 = ''000000000015''" by code_simp+
  with business_numbers_reserved [OF seqs_demo_business, of 10 1 0 5] show ?thesis
    by (simp add: seqs_demo_unit_def)
qed

theorem exhausted_business_number_repeats_witness:
  "\<exists>w1 w2. seqs_loc_new_business_no (Some ''BUS'') 1 (seq_world0 0 10000) =
      Some (0, Some (number_text ''0'' 10000), w1) \<and>
     seqs_loc_new_business_no (Some ''BUS'') 1 w1 = Some (0, Some (number_text ''0'' 10000), w2)"
  using exhausted_business_number_repeats [OF seqs_demo_business, of 0 10000] by (simp add: seqs_demo_unit_def)

theorem business_table_overrun_witness:
  "seqs_loc_add_business_trace default_bp_cfg (seq_world0 0 5) = None"
proof -
  have "sh_lock_id (seqs_demo 0 5) = 2" by (simp add: seqs_demo_def)
  then have "sem_free (sh_lock_id (seqs_demo 0 5)) (seq_world0 0 5)" by (simp add: seqs_demo_free)
  from business_table_overrun [OF seqs_demo_world(1) this seqs_demo_free, of "\<lparr>sl_sem_id = 7, sl_sem_num = 7, sl_lock_cnt = 4, sl_lock_id = 1\<rparr>"]
  show ?thesis by (simp add: seqs_demo_def seq_world0_def seqs_demo_unit_def default_bp_cfg_def)
qed

theorem recover_skips_issued_witness:
  "\<exists>img v'. seqs_save (Some ''/sw'') True True 1 (seq_world0 0 5) =
      Some (SW_OK, Some (Some img), (seq_world0 0 5)\<lparr>g_shm_seqs := Some img\<rparr>) \<and>
     seqs_recover (Some img) (seq_world0 0 1) = Some (SW_OK, v') \<and>
     map_option su_trn_base (unit_of (Busi 0) v') = Some 1005"
proof -
  let ?t = "seqs_demo 0 5" and ?w = "seq_world0 0 5"
  have cnt: "nat (sh_bp_trc_cnt ?t) \<le> length (bp_trc_array ?t)" "nat (sh_busi_trc_cnt ?t) \<le> length (busi_trc_array ?t)"
    "int (length (busi_trc_array ?t)) = sh_max_seq ?t" "length (busi_trc_array ?t) \<le> length (busi_trc_array (seqs_demo 0 1))"
    "sh_lock_id ?t = 2" and us: "used_units ?t = [Bp 0, Busi 0]"
    by (simp_all add: seqs_demo_def used_units_def)
  have locks: "unit_lock ?t (Bp 0) = 3" "unit_lock ?t (Busi 0) = 4"
    by (simp_all add: unit_lock_def seqs_demo_units seqs_demo_unit_def del: seq_unit.simps)
  have free: "sem_free (sh_lock_id ?t) ?w" "\<forall>r \<in> set (used_units ?t). sem_free (unit_lock ?t r) ?w"
    and dis: "distinct (sh_lock_id ?t # map (unit_lock ?t) (used_units ?t))"
    using cnt(5) us locks by (simp_all add: seqs_demo_free)
  have "Busi 0 \<in> set (used_units ?t)" "s64 1005 = 1005" "length ''/sw'' < 497" using us by (simp_all add: s64_def)
  with recover_skips_issued [OF _ this(3) cnt(1-3) free dis _ cnt(4), of "seq_world0 0 1"] show ?thesis
    by (fastforce simp: unit_of_def seqs_demo_units seqs_demo_unit_def simp del: seq_unit.simps)
qed

end
