(* ===== verification/Pub_Code.thy ===== *)
theory Pub_Code
  imports Prelude "HOL-Library.Word"
begin

unbundle bit_operations_syntax

text \<open>
  Code conversions of \<^verbatim>\<open>core/pub_code.c\<close>: base64, hexadecimal text, network and host order,
  length prefixes.  A byte is an \<open>8 word\<close>; a buffer that is read is the list of the bytes behind the pointer,
  the bytes written from the destination pointer on are a list in the result.
\<close>

type_synonym byte = "8 word"

section \<open>Base64\<close>

definition base64 :: "byte list" where
  "base64 = map word_of_nat ([65..<91] @ [97..<123] @ [48..<58] @ [43, 47])"

text \<open>The inner loops: the four digits of a sum, most significant first.\<close>

fun enc_digits :: "nat \<Rightarrow> nat \<Rightarrow> nat \<Rightarrow> byte list" where
  "enc_digits 0 acc dum = []"
| "enc_digits (Suc n) acc dum = base64 ! (acc div dum) # enc_digits n (acc mod dum) (dum div 64)"

definition bytes_sum :: "byte list \<Rightarrow> nat" where
  "bytes_sum buf = foldl (\<lambda>acc b. acc * 256 + unat b) 0 buf"

text \<open>The outer loop: three bytes at a time, the last ones filled with zeros.\<close>

fun enc_groups :: "byte list \<Rightarrow> byte list" where
  "enc_groups [] = []"
| "enc_groups (b # bs) =
     enc_digits 4 (bytes_sum (take 3 (b # bs @ [0, 0]))) (64 * 64 * 64) @ enc_groups (drop 2 bs)"

text \<open>The return code and the bytes stored, without the final NUL.  The target length is a 32 bit integer.\<close>

definition pub_code_base64_enc :: "byte list option \<Rightarrow> int \<Rightarrow> (int \<times> byte list) option" where
  "pub_code_base64_enc src_code src_len =
     (case src_code of
        None \<Rightarrow> Some (SW_ERROR, [])
      | Some src \<Rightarrow>
          if src_len \<le> 0 then Some (SW_ERROR, [])
          else if int (length src) < src_len then None
          else
            let n = nat src_len;
                tgt_len = (if n mod 3 = 0 then n div 3 * 4 else (n div 3 + 1) * 4);
                tgt_eqlen = (if n mod 3 = 0 then 0 else 3 - n mod 3);
                out = enc_groups (take n src) in
            if 2 ^ 31 \<le> tgt_len then None
            else Some (int tgt_len, take (tgt_len - tgt_eqlen) out @ replicate tgt_eqlen 61))"

definition base64_value :: "byte \<Rightarrow> nat option" where
  "base64_value ch =
     (let c = unat ch in
      if 65 \<le> c \<and> c \<le> 90 then Some (c - 65)
      else if 97 \<le> c \<and> c \<le> 122 then Some (c - 97 + 26)
      else if 48 \<le> c \<and> c \<le> 57 then Some (c - 48 + 52)
      else if c = 43 then Some 62
      else if c = 47 then Some 63
      else if c = 61 then Some 0
      else None)"

fun dec_sum :: "byte list \<Rightarrow> nat \<Rightarrow> nat option" where
  "dec_sum [] acc = Some acc"
| "dec_sum (ch # chs) acc =
     (case base64_value ch of None \<Rightarrow> None | Some v \<Rightarrow> dec_sum chs (acc * 64 + v))"

fun dec_bytes :: "nat \<Rightarrow> nat \<Rightarrow> nat \<Rightarrow> byte list" where
  "dec_bytes 0 acc dum = []"
| "dec_bytes (Suc n) acc dum = word_of_nat (acc div dum) # dec_bytes n (acc mod dum) (dum div 256)"

text \<open>The loop over groups of four characters; \<open>left\<close> is how many bytes are still wanted.\<close>

fun dec_groups :: "byte list \<Rightarrow> nat \<Rightarrow> int \<times> byte list" where
  "dec_groups (c1 # c2 # c3 # c4 # chs) left =
     (case dec_sum [c1, c2, c3, c4] 0 of
        None \<Rightarrow> (SW_ERROR, [])
      | Some acc \<Rightarrow>
          let (ret, out) = dec_groups chs (left - 3) in
          (ret, take left (dec_bytes 3 acc (256 * 256)) @ out))"
| "dec_groups chs left = (SW_OK, [])"

text \<open>The source is the C string, without its NUL; the second component is \<open>dst_len\<close>.\<close>

definition pub_code_base64_dec :: "byte list option \<Rightarrow> int \<times> int option \<times> byte list" where
  "pub_code_base64_dec src_code =
     (case src_code of
        None \<Rightarrow> (SW_ERROR, None, [])
      | Some src \<Rightarrow>
          let n = length src in
          if n = 0 \<or> n mod 4 \<noteq> 0 then (SW_ERROR, None, [])
          else
            let dst_len = (if src ! (n - 2) = 61 then n div 4 * 3 - 2
                           else if src ! (n - 1) = 61 then n div 4 * 3 - 1 else n div 4 * 3);
                (ret, out) = dec_groups src dst_len in
            (ret, Some (int dst_len), out))"

section \<open>Hexadecimal text\<close>

definition hex_value :: "byte \<Rightarrow> byte" where
  "hex_value ch =
     (if 97 \<le> ch \<and> ch \<le> 102 then ch - 97 + 10
      else if 65 \<le> ch \<and> ch \<le> 70 then ch - 65 + 10
      else if 48 \<le> ch \<and> ch \<le> 57 then ch - 48 else ch)"

fun hex_pairs :: "byte list \<Rightarrow> byte list" where
  "hex_pairs (c1 # c2 # cs) = (push_bit 4 (hex_value c1) OR hex_value c2) # hex_pairs cs"
| "hex_pairs cs = []"

definition pub_code_asctobcd :: "byte list option \<Rightarrow> int \<Rightarrow> (int \<times> byte list) option" where
  "pub_code_asctobcd src_code src_len =
     (case src_code of
        None \<Rightarrow> Some (SW_ERROR, [])
      | Some src \<Rightarrow>
          if src_len \<le> 0 then Some (SW_ERROR, [])
          else if int (length src) < src_len div 2 * 2 then None
          else Some (SW_OK, hex_pairs (take (nat (src_len div 2 * 2)) src)))"

definition hex_char :: "byte \<Rightarrow> byte" where
  "hex_char ch = (if 10 \<le> ch then ch - 10 + 65 else ch + 48)"

definition pub_code_bcdtoasc :: "byte list option \<Rightarrow> int \<Rightarrow> (int \<times> byte list) option" where
  "pub_code_bcdtoasc src_code src_len =
     (case src_code of
        None \<Rightarrow> Some (SW_ERROR, [])
      | Some src \<Rightarrow>
          if src_len \<le> 0 then Some (SW_ERROR, [])
          else if int (length src) < src_len then None
          else Some (SW_OK,
            concat (map (\<lambda>b. [hex_char (drop_bit 4 b), hex_char (b AND 15)]) (take (nat src_len) src))))"

text \<open>\<open>dst\<close> is the destination's memory before the call; the bytes at its start are overwritten.\<close>

definition overwrite :: "byte list \<Rightarrow> byte list \<Rightarrow> byte list option" where
  "overwrite bs dst = (if length dst < length bs then None else Some (bs @ drop (length bs) dst))"

definition pub_code_asctobcd_right :: "byte list \<Rightarrow> byte list \<Rightarrow> int \<Rightarrow> (int \<times> byte list) option" where
  "pub_code_asctobcd_right src dst src_len =
     (if src_len mod 2 \<noteq> 0 then
        (case (src, dst) of
           (c # src', d # dst') \<Rightarrow>
             Option.bind (pub_code_asctobcd (Some src') (src_len - 1)) (\<lambda>(_, out).
               map_option (\<lambda>m. (0, (d OR hex_value c) # m)) (overwrite out dst'))
         | _ \<Rightarrow> None)
      else
        Option.bind (pub_code_asctobcd (Some src) src_len) (\<lambda>(_, out).
          map_option (\<lambda>m. (0, m)) (overwrite out dst)))"

definition pub_code_asctobcd_left :: "byte list \<Rightarrow> byte list \<Rightarrow> int \<Rightarrow> (int \<times> byte list) option" where
  "pub_code_asctobcd_left src dst src_len =
     (if src_len mod 2 \<noteq> 0 then
        (if src_len \<le> 0 \<or> int (length dst) < src_len then None
         else Option.bind (pub_code_asctobcd (Some src) (src_len + 1)) (\<lambda>(_, out).
           map_option (\<lambda>m. (0, m)) (overwrite out (dst[nat (src_len - 1) := 48]))))
      else
        Option.bind (pub_code_asctobcd (Some src) src_len) (\<lambda>(_, out).
          map_option (\<lambda>m. (0, m)) (overwrite out dst)))"

section \<open>Binary integers\<close>

text \<open>The bytes of an integer of \<open>n\<close> bytes, most significant first, and back.\<close>

definition be_bytes :: "nat \<Rightarrow> int \<Rightarrow> byte list" where
  "be_bytes n x = map (\<lambda>k. word_of_int (x div 256 ^ k)) (rev [0..<n])"

definition be_value :: "byte list \<Rightarrow> int" where
  "be_value bs = int (bytes_sum bs)"

definition pub_code_numtonet :: "int \<Rightarrow> int \<Rightarrow> int \<times> byte list" where
  "pub_code_numtonet num len =
     (if len = 2 then (SW_OK, be_bytes 2 num) else if len = 4 then (SW_OK, be_bytes 4 num) else (SW_ERROR, []))"

definition pub_code_nettonum :: "byte list \<Rightarrow> int \<Rightarrow> int option" where
  "pub_code_nettonum buf len =
     (if len = 2 then if length buf < 2 then None else Some (s16 (be_value (take 2 buf)))
      else if len = 4 then if length buf < 4 then None else Some (s32 (be_value (take 4 buf)))
      else Some SW_ERROR)"

text \<open>The host order: \<open>little\<close> on a little-endian machine.\<close>

definition host_order :: "bool \<Rightarrow> byte list \<Rightarrow> byte list" where
  "host_order little bs = (if little then rev bs else bs)"

definition pub_code_numtohost :: "bool \<Rightarrow> int \<Rightarrow> int \<Rightarrow> int \<times> byte list" where
  "pub_code_numtohost little num len =
     (if len = 2 then (SW_OK, host_order little (be_bytes 2 num))
      else if len = 4 then (SW_OK, host_order little (be_bytes 4 num)) else (SW_ERROR, []))"

definition pub_code_hosttonum :: "bool \<Rightarrow> byte list \<Rightarrow> int \<Rightarrow> int option" where
  "pub_code_hosttonum little buf len =
     (if len = 2 then if length buf < 2 then None else Some (s16 (be_value (host_order little (take 2 buf))))
      else if len = 4 then if length buf < 4 then None
        else Some (s32 (be_value (host_order little (take 4 buf))))
      else Some SW_ERROR)"

section \<open>Length prefixes\<close>

text \<open>\<^verbatim>\<open>%0*x\<close>: the hexadecimal digits of a 32 bit number, at least \<open>width\<close> of them.\<close>

fun hex_digits :: "nat \<Rightarrow> nat list" where
  "hex_digits n = (if n < 16 then [n] else hex_digits (n div 16) @ [n mod 16])"

declare hex_digits.simps [simp del]

definition fmt_0x :: "nat \<Rightarrow> int \<Rightarrow> nat list" where
  "fmt_0x width value =
     (let ds = hex_digits (nat (value mod 2 ^ 32)) in replicate (width - length ds) 0 @ ds)"

fun nibble_pairs :: "nat list \<Rightarrow> byte list" where
  "nibble_pairs (d1 # d2 # ds) = (push_bit 4 (word_of_nat d1) OR word_of_nat d2) # nibble_pairs ds"
| "nibble_pairs ds = []"

text \<open>The result has room for three bytes, and for one more digit pair than it uses.\<close>

definition pub_code_int2hex :: "int \<Rightarrow> int \<Rightarrow> (int \<times> byte list) option" where
  "pub_code_int2hex value len =
     (if len < 0 \<or> 3 < len then None
      else Some (0, nibble_pairs (take (nat (len * 2)) (fmt_0x (nat (len * 2)) value))))"

text \<open>The inner loop over the nibbles of one byte: \<open>index\<close> counts the digits seen so far.  A shift by 32 bits
  or more is undefined.\<close>

function hex2int_byte :: "byte \<Rightarrow> nat \<Rightarrow> int \<Rightarrow> (nat \<times> int) option" where
  "hex2int_byte b index val =
     (if b = 0 then Some (index, val)
      else if 8 < index then None
      else hex2int_byte (drop_bit 4 b) (Suc index)
        (s32 (val + (if index = 0 then uint (b AND 15) else uint (b AND 15) * (16 * 2 ^ (4 * (index - 1)))))))"
  by pat_completeness auto
termination
proof (relation "measure (\<lambda>(b, _, _). unat b)")
  fix b :: byte and index :: nat and val :: int
  assume "b \<noteq> 0"
  then have "0 < unat b" by (simp add: unat_gt_0)
  then show "((drop_bit 4 b, Suc index, s32 (val + (if index = 0 then uint (b AND 15) else uint (b AND 15) * (16 * 2 ^ (4 * (index - 1)))))), b, index, val)
    \<in> measure (\<lambda>(b, _, _). unat b)"
    by (simp add: unat_drop_bit_eq) (simp add: drop_bit_eq_div)
qed simp

declare hex2int_byte.simps [simp del]

text \<open>The outer loop runs from the last byte to the first; it leaves zeros in the buffer.\<close>

fun hex2int_loop :: "byte list \<Rightarrow> nat \<Rightarrow> int \<Rightarrow> int option" where
  "hex2int_loop [] index val = Some val"
| "hex2int_loop (b # bs) index val =
     (case hex2int_byte b index val of None \<Rightarrow> None | Some (index', val') \<Rightarrow> hex2int_loop bs index' val')"

definition pub_code_hex2int :: "byte list \<Rightarrow> int \<Rightarrow> (int \<times> byte list) option" where
  "pub_code_hex2int ptr len =
     (if int (length ptr) < len then None
      else map_option (\<lambda>val. (val, replicate (nat len) 0 @ drop (nat len) ptr))
        (hex2int_loop (rev (take (nat len) ptr)) 0 0))"


section \<open>Base64 round trip\<close>

lemma base64_nth:
  assumes "k < 64"
  shows "unat (base64 ! k) =
    (if k < 26 then 65 + k else if k < 52 then 71 + k else if k < 62 then k - 4 else if k = 62 then 43 else 47)"
    (is "_ = ?c")
proof -
  let ?tab = "[65..<91] @ [97..<123] @ [48..<58] @ [43, 47]"
  have "?tab ! k = ?c"
    using assms by (simp add: nth_append del: upt_rec_numeral) (auto simp: nth_Cons' less_Suc_eq)
  moreover have "k < length ?tab" using assms by (simp del: upt_rec_numeral)
  ultimately have "base64 ! k = word_of_nat ?c" unfolding base64_def by (simp only: nth_map)
  moreover have "?c < 256" using assms by auto
  ultimately show ?thesis by (simp only: unsigned_of_nat) (simp add: take_bit_nat_eq_self)
qed

lemma base64_value_tab:
  assumes "k < 64"
  shows "base64_value (base64 ! k) = Some k" and "base64 ! k \<noteq> 61" and "base64 ! k \<noteq> 0"
proof -
  note u = base64_nth [OF assms]
  show "base64_value (base64 ! k) = Some k" unfolding base64_value_def Let_def u using assms by auto
  have "unat (base64 ! k) \<noteq> 61 \<and> unat (base64 ! k) \<noteq> 0" unfolding u using assms by auto
  then show "base64 ! k \<noteq> 61" "base64 ! k \<noteq> 0" by auto
qed

lemma base64_value_pad: "base64_value 61 = Some 0"
  by (simp add: base64_value_def)

abbreviation (input) enc_group :: "byte \<Rightarrow> byte \<Rightarrow> byte \<Rightarrow> byte list" where
  "enc_group a b c \<equiv> enc_digits 4 (bytes_sum [a, b, c]) (64 * 64 * 64)"

fun base64_text :: "byte list \<Rightarrow> byte list" where
  "base64_text [] = []"
| "base64_text [a] = take 2 (enc_group a 0 0) @ [61, 61]"
| "base64_text [a, b] = take 3 (enc_group a b 0) @ [61]"
| "base64_text (a # b # c # bs) = enc_group a b c @ base64_text bs"

lemma bytes_sum_3: "bytes_sum [a, b, c] = unat a * 65536 + unat b * 256 + unat c"
  by (simp add: bytes_sum_def)

lemma byte_lt: "unat (b :: byte) < 256"
proof -
  have "unat b < 2 ^ LENGTH(8)" by (rule unsigned_less)
  then show ?thesis by simp
qed

lemma bytes_sum_lt: "bytes_sum [a, b, c] < 16777216"
  unfolding bytes_sum_3 using byte_lt [of a] byte_lt [of b] byte_lt [of c] by linarith

lemma enc_digits_4:
  "enc_digits 4 s (64 * 64 * 64) =
     [base64 ! (s div 262144), base64 ! (s mod 262144 div 4096), base64 ! (s mod 4096 div 64), base64 ! (s mod 64)]"
proof -
  have four: "(4 :: nat) = Suc (Suc (Suc (Suc 0)))" by simp
  show ?thesis unfolding four enc_digits.simps by (simp add: mod_mod_cancel)
qed

lemma join_digits:
  "q1 * 262144 + r1 = s \<Longrightarrow> q2 * 4096 + r2 = r1 \<Longrightarrow> q3 * 64 + r3 = r2 \<Longrightarrow>
     ((q1 * 64 + q2) * 64 + q3) * 64 + r3 = (s :: nat)"
  by auto

lemma div_digit: "r < n \<Longrightarrow> (q * n + r) div n = (q :: nat)" "r < n \<Longrightarrow> (q * n + r) mod n = (r :: nat)"
  by simp_all

lemma dec_sum_digits:
  assumes "s < 16777216"
  shows "dec_sum [base64 ! (s div 262144), base64 ! (s mod 262144 div 4096), base64 ! (s mod 4096 div 64),
    base64 ! (s mod 64)] 0 = Some s"
proof -
  have "s div 262144 < 64" "s mod 262144 div 4096 < 64" "s mod 4096 div 64 < 64" "s mod 64 < 64"
    using assms by (simp_all add: less_mult_imp_div_less)
  moreover have cc: "s mod 262144 mod 4096 = s mod 4096" "s mod 4096 mod 64 = s mod 64"
    by (simp_all add: mod_mod_cancel)
  have "((s div 262144 * 64 + s mod 262144 div 4096) * 64 + s mod 4096 div 64) * 64 + s mod 64 = s"
    using div_mult_mod_eq [of s 262144] div_mult_mod_eq [of "s mod 262144" 4096] div_mult_mod_eq [of "s mod 4096" 64]
    unfolding cc by (rule join_digits)
  ultimately show ?thesis by (simp add: base64_value_tab)
qed

lemma dec_bytes_3: "dec_bytes 3 (bytes_sum [a, b, c]) (256 * 256) = [a, b, c]"
proof -
  let ?s = "bytes_sum [a, b, c]"
  note lt = byte_lt [of a] byte_lt [of b] byte_lt [of c]
  have s: "?s = unat a * 65536 + (unat b * 256 + unat c)" by (simp add: bytes_sum_3)
  have "unat b * 256 + unat c < 65536" using lt by linarith
  note d = div_digit [OF this, of "unat a", folded s] div_digit [OF lt(3), of "unat b"]
  have three: "(3 :: nat) = Suc (Suc (Suc 0))" by simp
  show ?thesis unfolding three dec_bytes.simps using d by simp
qed

lemmas base64_group = enc_digits_4 [simplified]

lemma base64_text_length: "length (base64_text bs) = (length bs + 2) div 3 * 4"
proof (induction bs rule: base64_text.induct)
  case (4 a b c bs)
  have "(length (a # b # c # bs) + 2) div 3 = Suc ((length bs + 2) div 3)" by simp
  with 4 show ?case by (simp add: base64_group)
qed (simp_all add: base64_group)

lemma low_zero:
  "bytes_sum [a, b, 0] mod 64 = 0" "bytes_sum [a, 0, 0] mod 4096 div 64 = 0" "bytes_sum [a, 0, 0] mod 64 = 0"
proof -
  have "bytes_sum [a, b, 0] = 64 * (unat a * 1024 + unat b * 4)" for b by (simp add: bytes_sum_3)
  then show "bytes_sum [a, b, 0] mod 64 = 0" "bytes_sum [a, 0, 0] mod 64 = 0" by (metis mod_mult_self1_is_0)+
  have "bytes_sum [a, 0, 0] = 4096 * (unat a * 16)" by (simp add: bytes_sum_3)
  then show "bytes_sum [a, 0, 0] mod 4096 div 64 = 0" by (metis mod_mult_self1_is_0 div_0)
qed

lemma base64_zero: "base64_value (base64 ! 0) = Some 0"
  by (rule base64_value_tab) simp

lemma dec_sum_pad:
  "dec_sum [c1, c2, 61, base64 ! 0] 0 = dec_sum [c1, c2, base64 ! 0, base64 ! 0] 0"
  "dec_sum [c1, c2, c3, 61] 0 = dec_sum [c1, c2, c3, base64 ! 0] 0"
  by (simp_all add: base64_zero base64_value_pad split: option.split)

lemma dec_groups_text: "dec_groups (base64_text bs) (length bs) = (SW_OK, bs)"
proof (induction bs rule: base64_text.induct)
  case 1
  then show ?case by simp
next
  case (2 a)
  from dec_sum_digits [OF bytes_sum_lt, of a 0 0] show ?case
    unfolding base64_text.simps enc_digits_4 low_zero
    by (simp add: dec_sum_pad dec_bytes_3 dec_bytes_3 [simplified] del: dec_sum.simps)
next
  case (3 a b)
  from dec_sum_digits [OF bytes_sum_lt, of a b 0] show ?case
    unfolding base64_text.simps enc_digits_4 low_zero
    by (simp add: dec_sum_pad dec_bytes_3 dec_bytes_3 [simplified] del: dec_sum.simps)
next
  case (4 a b c bs)
  with dec_sum_digits [OF bytes_sum_lt, of a b c] show ?case
    unfolding base64_text.simps enc_digits_4
    by (simp add: dec_bytes_3 dec_bytes_3 [simplified] del: dec_sum.simps)
qed

definition text_pad :: "nat \<Rightarrow> nat" where
  "text_pad n = (if n mod 3 = 0 then 0 else 3 - n mod 3)"

lemma text_pad_add3: "text_pad (Suc (Suc (Suc n))) = text_pad n"
proof -
  have "Suc (Suc (Suc n)) mod 3 = n mod 3" by presburger
  then show ?thesis by (simp only: text_pad_def)
qed

lemma text_pad_small: "text_pad 0 = 0" "text_pad (Suc 0) = 2" "text_pad (Suc (Suc 0)) = 1"
  by (simp_all add: text_pad_def)

lemma text_pad_le: "text_pad (length bs) \<le> length (base64_text bs)"
  by (induction bs rule: base64_text.induct) (simp_all add: base64_group text_pad_small text_pad_add3)

lemma enc_groups_length: "length (enc_groups bs) = length (base64_text bs)"
  by (induction bs rule: base64_text.induct) (simp_all add: base64_group)

lemma enc_groups_text:
  "take (length (base64_text bs) - text_pad (length bs)) (enc_groups bs) @ replicate (text_pad (length bs)) 61 =
     base64_text bs"
proof (induction bs rule: base64_text.induct)
  case (4 a b c bs)
  have "length (enc_group a b c @ base64_text bs) - text_pad (length bs) =
      length (enc_group a b c) + (length (base64_text bs) - text_pad (length bs))"
    using text_pad_le [of bs] by simp
  with 4 show ?case by (simp add: text_pad_add3 take_append del: take_eq_Nil2)
qed (simp_all add: base64_group text_pad_small numeral_2_eq_2)

lemma base64_char_ends:
  "s < 16777216 \<Longrightarrow> base64 ! (s mod 4096 div 64) \<noteq> 61 \<and> base64 ! (s mod 64) \<noteq> 61 \<and>
     base64 ! (s mod 4096 div 64) \<noteq> 0 \<and> base64 ! (s mod 64) \<noteq> 0 \<and>
     base64 ! (s div 262144) \<noteq> 0 \<and> base64 ! (s mod 262144 div 4096) \<noteq> 0"
  by (intro conjI base64_value_tab) (simp_all add: less_mult_imp_div_less)

lemma base64_text_ends:
  "bs \<noteq> [] \<Longrightarrow> 4 \<le> length (base64_text bs) \<and>
     (base64_text bs ! (length (base64_text bs) - 2) = 61) = (text_pad (length bs) = 2) \<and>
     (base64_text bs ! (length (base64_text bs) - 1) = 61) = (text_pad (length bs) \<noteq> 0)"
proof (induction bs rule: base64_text.induct)
  case (4 a b c bs)
  show ?case
  proof (cases "bs = []")
    case True
    with base64_char_ends [OF bytes_sum_lt, of a b c] show ?thesis
      by (simp add: base64_group text_pad_add3 text_pad_small numeral_2_eq_2)
  next
    case False
    with 4 have IH: "4 \<le> length (base64_text bs)"
      "(base64_text bs ! (length (base64_text bs) - 2) = 61) = (text_pad (length bs) = 2)"
      "(base64_text bs ! (length (base64_text bs) - 1) = 61) = (text_pad (length bs) \<noteq> 0)" by simp_all
    have len: "length (base64_text (a # b # c # bs)) = 4 + length (base64_text bs)" by (simp add: base64_group)
    have idx: "base64_text (a # b # c # bs) ! (4 + n) = base64_text bs ! n" for n
      by (simp add: base64_group)
    have "4 + length (base64_text bs) - 2 = 4 + (length (base64_text bs) - 2)"
      "4 + length (base64_text bs) - 1 = 4 + (length (base64_text bs) - 1)" using IH(1) by linarith+
    with IH show ?thesis unfolding len by (simp only: idx text_pad_add3 list.size add_Suc_right add_0_right) simp
  qed
next
  case (3 a b)
  with base64_char_ends [OF bytes_sum_lt, of a b 0] show ?case
    by (simp add: base64_group text_pad_small numeral_2_eq_2 numeral_3_eq_3)
qed (simp_all add: base64_group text_pad_small numeral_2_eq_2)

lemma base64_text_no_nul: "0 \<notin> set (base64_text bs)"
proof (induction bs rule: base64_text.induct)
  case (2 a)
  with base64_char_ends [OF bytes_sum_lt, of a 0 0] show ?case by (auto simp: base64_group)
next
  case (3 a b)
  with base64_char_ends [OF bytes_sum_lt, of a b 0] show ?case by (auto simp: base64_group)
next
  case (4 a b c bs)
  with base64_char_ends [OF bytes_sum_lt, of a b c] show ?case by (auto simp: base64_group)
qed simp

section \<open>Hexadecimal round trip\<close>

lemma hex_value_char: "x < 16 \<Longrightarrow> hex_value (hex_char x) = x"
proof -
  assume "x < 16"
  then have "unat x < 16" by (simp add: word_less_nat_alt)
  then have "unat x \<in> set [0..<16]" by simp
  moreover have "list_all (\<lambda>k. hex_value (hex_char (word_of_nat k)) = word_of_nat k) [0..<16]" by code_simp
  ultimately have "hex_value (hex_char (word_of_nat (unat x))) = word_of_nat (unat x)" by (simp only: list_all_iff)
  then show ?thesis by simp
qed

lemma fifteen: "(15 :: byte) = mask 4"
  by (simp add: mask_eq_exp_minus_1)

lemma nibbles_join: "push_bit 4 (drop_bit 4 b) OR (b AND 15) = (b :: byte)"
  unfolding fifteen by (rule bit_word_eqI) (auto simp: bit_simps)

lemma nibble_lt: "drop_bit 4 b < (16 :: byte)" "b AND 15 < (16 :: byte)"
proof -
  show "drop_bit 4 b < (16 :: byte)"
    using byte_lt [of b] by (simp add: word_less_nat_alt unat_drop_bit_eq) (simp add: drop_bit_eq_div)
  have "b AND 15 \<le> (15 :: byte)" by (rule word_and_le1)
  also have "\<dots> < 16" by simp
  finally show "b AND 15 < (16 :: byte)" .
qed

lemma hex_pairs_text:
  "hex_pairs (concat (map (\<lambda>b. [hex_char (drop_bit 4 b), hex_char (b AND 15)]) bs)) = bs"
  by (induction bs) (simp_all add: hex_value_char nibble_lt nibbles_join)


section \<open>Integers as bytes\<close>

lemma bytes_sum_Cons: "bytes_sum (b # bs) = unat b * 256 ^ length bs + bytes_sum bs"
proof -
  have "foldl (\<lambda>acc b. acc * 256 + unat b) k bs = k * 256 ^ length bs + foldl (\<lambda>acc b. acc * 256 + unat b) 0 bs"
    for k and bs :: "byte list"
  proof (induction bs arbitrary: k)
    case (Cons b bs)
    from Cons [of "k * 256 + unat b"] Cons [of "unat b"] show ?case by (simp add: algebra_simps)
  qed simp
  from this [of "unat b" bs] show ?thesis by (simp add: bytes_sum_def)
qed

lemma be_bytes_Suc: "be_bytes (Suc n) x = word_of_int (x div 256 ^ n) # be_bytes n x"
  by (simp add: be_bytes_def)

lemma be_value_bytes: "be_value (be_bytes n x) = x mod 256 ^ n"
proof (induction n)
  case 0
  then show ?case by (simp add: be_value_def be_bytes_def bytes_sum_def)
next
  case (Suc n)
  have "int (unat (word_of_int y :: byte)) = y mod 256" for y
    by (simp add: uint_word_of_int flip: uint_nat)
  then have "be_value (be_bytes (Suc n) x) = (x div 256 ^ n) mod 256 * 256 ^ n + x mod 256 ^ n"
    using Suc by (simp add: be_value_def be_bytes_Suc bytes_sum_Cons) (simp add: be_bytes_def)
  also have "\<dots> = x mod 256 ^ Suc n"
    using zmod_zmult2_eq [of "256" x "256 ^ n"] by (simp add: mult.commute)
  finally show ?case .
qed

lemma be_bytes_length [simp]: "length (be_bytes n x) = n"
  by (simp add: be_bytes_def)

lemma narrow_mod: "s16 (x mod 256 ^ 2) = s16 x" "s32 (x mod 256 ^ 4) = s32 x"
proof -
  have "x mod 256 ^ 2 = take_bit 16 x" "x mod 256 ^ 4 = take_bit 32 x" by (simp_all add: take_bit_eq_mod)
  then show "s16 (x mod 256 ^ 2) = s16 x" "s32 (x mod 256 ^ 4) = s32 x"
    by (simp_all add: s16_def s32_def signed_take_bit_take_bit)
qed

section \<open>Length prefixes\<close>

text \<open>The digits the reader sees in a byte, least significant first.\<close>

definition seen_digits :: "byte \<Rightarrow> nat list" where
  "seen_digits b =
     (if b = 0 then [] else if unat b < 16 then [unat b] else [unat b mod 16, unat b div 16])"

fun digits_value :: "nat list \<Rightarrow> nat" where
  "digits_value [] = 0"
| "digits_value (d # ds) = d + 16 * digits_value ds"

lemma digits_value_append: "digits_value (xs @ ys) = digits_value xs + 16 ^ length xs * digits_value ys"
  by (induction xs) (simp_all add: algebra_simps)

lemma seen_digits_bound: "digits_value (seen_digits b) < 16 ^ length (seen_digits b)" "length (seen_digits b) \<le> 2"
  using byte_lt [of b] by (auto simp: seen_digits_def)

lemma nibble_shift: "index \<le> 6 \<Longrightarrow> d < 16 \<Longrightarrow>
  (if index = 0 then d else d * (16 * 2 ^ (4 * (index - 1)))) = d * 16 ^ index" for d :: int
proof (cases index)
  case (Suc k)
  have "(2 :: int) ^ (4 * k) = 16 ^ k" by (simp add: power_mult)
  with Suc show ?thesis by simp
qed simp

lemma nibbles_unat: "uint (b AND 15) = int (unat b mod 16)" "unat (drop_bit 4 b) = unat b div 16" for b :: byte
proof -
  have "unat (b AND 15) = unat b mod 16"
    unfolding fifteen take_bit_eq_mask [symmetric] unsigned_take_bit_eq by (simp add: take_bit_eq_mod)
  then show "uint (b AND 15) = int (unat b mod 16)" by (simp only: uint_nat)
  show "unat (drop_bit 4 b) = unat b div 16" by (simp add: unat_drop_bit_eq) (simp add: drop_bit_eq_div)
qed

lemma shift_in_digit:
  fixes d :: nat
  assumes "val < 16 ^ index" and "d < 16"
  shows "val + 16 ^ index * d < 16 ^ Suc index"
proof -
  have "16 ^ index * d \<le> 16 ^ index * 15" using assms(2) by (intro mult_left_mono) auto
  with assms(1) show ?thesis unfolding power_Suc by linarith
qed

lemma hex2int_byte_step:
  assumes "val < 16 ^ index" and "index < 6" and "b \<noteq> 0"
  shows "hex2int_byte b index (int val) =
    hex2int_byte (drop_bit 4 b) (Suc index) (int (val + 16 ^ index * (unat b mod 16)))"
proof -
  have "(16 :: nat) ^ Suc index \<le> 16 ^ 6" using assms(2) by (intro power_increasing) simp_all
  then have "val + 16 ^ index * (unat b mod 16) < 16777216"
    using shift_in_digit [OF assms(1), of "unat b mod 16"] by simp
  then have "int (val + 16 ^ index * (unat b mod 16)) < 16777216" by (metis of_nat_less_iff of_nat_numeral)
  then have s: "s32 (int (val + 16 ^ index * (unat b mod 16))) = int (val + 16 ^ index * (unat b mod 16))"
    by (intro s32_id) linarith+
  have "int (unat b mod 16) < 16" by simp
  from nibble_shift [OF _ this, of index] assms(2)
  have "int val + (if index = 0 then uint (b AND 15) else uint (b AND 15) * (16 * 2 ^ (4 * (index - 1)))) =
      int (val + 16 ^ index * (unat b mod 16))"
    unfolding nibbles_unat by simp
  with assms(2,3) s show ?thesis by (subst hex2int_byte.simps) simp
qed

lemma hex2int_byte_seen:
  assumes "val < 16 ^ index" and "index + length (seen_digits b) \<le> 6"
  shows "hex2int_byte b index (int val) =
    Some (index + length (seen_digits b), int (val + 16 ^ index * digits_value (seen_digits b)))"
proof (cases "b = 0")
  case True
  then show ?thesis by (subst hex2int_byte.simps) (simp add: seen_digits_def)
next
  case False
  then have i: "index < 6" using assms(2) by (auto simp: seen_digits_def split: if_splits)
  note step = hex2int_byte_step [OF assms(1) i False]
  show ?thesis
  proof (cases "unat b < 16")
    case True
    then have "drop_bit 4 b = 0" using nibbles_unat(2) [of b] by (simp add: unat_eq_0 flip: unat_eq_zero)
    with step True False show ?thesis by (simp add: hex2int_byte.simps [of 0] seen_digits_def)
  next
    case big: False
    let ?b = "drop_bit 4 b" and ?v = "val + 16 ^ index * (unat b mod 16)"
    have u: "unat ?b = unat b div 16" "unat b div 16 < 16" "0 < unat b div 16"
      using nibbles_unat(2) [of b] byte_lt [of b] big by (simp_all add: less_mult_imp_div_less)
    then have "?b \<noteq> 0" by auto
    moreover have "Suc index < 6" using assms(2) big False by (simp add: seen_digits_def)
    ultimately have second: "hex2int_byte ?b (Suc index) (int ?v) =
        hex2int_byte (drop_bit 4 ?b) (Suc (Suc index)) (int (?v + 16 ^ Suc index * (unat ?b mod 16)))"
      using shift_in_digit [OF assms(1), of "unat b mod 16"] by (intro hex2int_byte_step) simp_all
    have rest: "drop_bit 4 ?b = 0" using nibbles_unat(2) [of ?b] u by (simp add: unat_eq_0 flip: unat_eq_zero)
    have both: "?v + 16 ^ Suc index * (unat ?b mod 16) = val + 16 ^ index * digits_value (seen_digits b)"
    proof -
      have "digits_value (seen_digits b) = unat b mod 16 + 16 * (unat b div 16)" "unat ?b mod 16 = unat b div 16"
        using big False u by (simp_all add: seen_digits_def)
      then show ?thesis by (simp only: power_Suc distrib_left add.assoc mult.left_commute mult.assoc)
    qed
    moreover have "length (seen_digits b) = 2" using big False by (simp add: seen_digits_def)
    ultimately show ?thesis unfolding step second rest both by (simp add: hex2int_byte.simps [of 0])
  qed
qed

lemma hex2int_loop_seen:
  "val < 16 ^ index \<Longrightarrow> index + 2 * length bs \<le> 6 \<Longrightarrow>
     hex2int_loop bs index (int val) = Some (int (val + 16 ^ index * digits_value (concat (map seen_digits bs))))"
proof (induction bs arbitrary: index val)
  case Nil
  then show ?case by simp
next
  case (Cons b bs)
  let ?n = "length (seen_digits b)" and ?v = "val + 16 ^ index * digits_value (seen_digits b)"
  have le: "index + ?n \<le> 6" "index + ?n + 2 * length bs \<le> 6"
    using Cons.prems(2) seen_digits_bound(2) [of b] by simp_all
  have "?v < 16 ^ (index + ?n)"
  proof -
    have "Suc (digits_value (seen_digits b)) \<le> 16 ^ ?n" using seen_digits_bound(1) [of b] by simp
    then have "16 ^ index * Suc (digits_value (seen_digits b)) \<le> 16 ^ index * 16 ^ ?n" by (rule mult_le_mono2)
    with Cons.prems(1) show ?thesis by (simp add: power_add)
  qed
  from Cons.IH [OF this le(2)] hex2int_byte_seen [OF Cons.prems(1) le(1)] show ?case
    by (simp add: digits_value_append power_add algebra_simps)
qed


lemma div3_Suc: "Suc (Suc (3 * q)) div 3 = q" "Suc (Suc (3 * q)) mod 3 = 2"
  by presburger+

lemma mod3_cases:
  fixes n :: nat
  obtains q where "n = 3 * q" | q where "n = 3 * q + 1" | q where "n = 3 * q + 2"
proof -
  have "n = 3 * (n div 3) \<or> n = 3 * (n div 3) + 1 \<or> n = 3 * (n div 3) + 2" by presburger
  with that show thesis by blast
qed

lemma hex2int_seen:
  "length bs \<le> 3 \<Longrightarrow> pub_code_hex2int (bs @ rest) (int (length bs)) =
     Some (int (digits_value (concat (map seen_digits (rev bs)))), replicate (length bs) 0 @ rest)"
  using hex2int_loop_seen [of 0 0 "rev bs"] by (simp add: pub_code_hex2int_def)

lemma base64_coding:
  assumes "bs \<noteq> []" and "length bs < 1610612734"
  shows "\<exists>code. pub_code_base64_enc (Some (bs @ rest)) (int (length bs)) = Some (int (length code), code) \<and>
    length code = (length bs + 2) div 3 * 4 \<and> 0 \<notin> set code \<and> pub_code_base64_dec (Some code) = (SW_OK, Some (int (length bs)), bs)"
proof -
  let ?n = "length bs" and ?code = "base64_text bs"
  have tgt: "(if ?n mod 3 = 0 then ?n div 3 * 4 else (?n div 3 + 1) * 4) = length ?code"
    unfolding base64_text_length by (cases rule: mod3_cases [of ?n]) (simp_all add: div3_Suc)
  have "(?n + 2) div 3 < 536870912" using assms(2) by (intro less_mult_imp_div_less) simp
  then have len: "length ?code < 2 ^ 31" unfolding base64_text_length by simp
  have "pub_code_base64_enc (Some (bs @ rest)) (int ?n) = Some (int (length ?code), ?code)"
    using assms(1) len enc_groups_text [of bs] tgt
    by (simp add: pub_code_base64_enc_def Let_def text_pad_def)
  moreover have "pub_code_base64_dec (Some ?code) = (SW_OK, Some (int ?n), bs)"
  proof -
    note ends = base64_text_ends [OF assms(1)]
    have mod4: "length ?code mod 4 = 0" "length ?code div 4 = (?n + 2) div 3" unfolding base64_text_length by simp_all
    have "(if ?code ! (length ?code - 2) = 61 then length ?code div 4 * 3 - 2
        else if ?code ! (length ?code - 1) = 61 then length ?code div 4 * 3 - 1 else length ?code div 4 * 3) = ?n"
    proof -
      have pad: "text_pad ?n = 0 \<Longrightarrow> (?n + 2) div 3 * 3 = ?n" "text_pad ?n = 1 \<Longrightarrow> (?n + 2) div 3 * 3 - 1 = ?n"
        "text_pad ?n = 2 \<Longrightarrow> (?n + 2) div 3 * 3 - 2 = ?n" "text_pad ?n \<le> 2"
        by (cases rule: mod3_cases [of ?n]; simp add: text_pad_def div3_Suc)+
      then have "text_pad ?n = 0 \<or> text_pad ?n = 1 \<or> text_pad ?n = 2" by linarith
      with ends pad(1-3) show ?thesis unfolding mod4 by auto
    qed
    moreover have "?code \<noteq> []" using ends by auto
    ultimately show ?thesis using ends mod4
      by (simp add: pub_code_base64_dec_def Let_def dec_groups_text)
  qed
  ultimately show ?thesis using base64_text_no_nul base64_text_length by blast
qed

lemma hex_coding:
  assumes "bs \<noteq> []"
  shows "\<exists>code. pub_code_bcdtoasc (Some (bs @ rest)) (int (length bs)) = Some (SW_OK, code) \<and>
    length code = 2 * length bs \<and>
    pub_code_asctobcd (Some (code @ rest')) (int (length code)) = Some (SW_OK, bs)"
proof -
  let ?code = "concat (map (\<lambda>b. [hex_char (drop_bit 4 b), hex_char (b AND 15)]) bs)"
  have len: "length ?code = 2 * length bs" by (induction bs) simp_all
  have "pub_code_bcdtoasc (Some (bs @ rest)) (int (length bs)) = Some (SW_OK, ?code)"
    using assms by (simp add: pub_code_bcdtoasc_def)
  moreover have "pub_code_asctobcd (Some (?code @ rest')) (int (length ?code)) = Some (SW_OK, bs)"
  proof -
    have "int (length ?code) div 2 * 2 = int (length ?code)" "0 < int (length ?code)" using assms unfolding len by simp_all
    with hex_pairs_text [of bs] show ?thesis by (simp add: pub_code_asctobcd_def del: length_concat)
  qed
  ultimately show ?thesis using len by blast
qed

section \<open>Properties\<close>

text \<open>C36: Base64 text decodes to the bytes it was made from, for every buffer whose text fits a 32 bit length: the encoder's
  return code is the length of the text, which holds no NUL, and the decoder answers the original length and bytes.\<close>

theorem base64_roundtrip:
  assumes "bs \<noteq> []" and "length bs < 1610612734"
  shows "\<exists>code. pub_code_base64_enc (Some (bs @ rest)) (int (length bs)) = Some (int (length code), code) \<and>
    0 \<notin> set code \<and> pub_code_base64_dec (Some code) = (SW_OK, Some (int (length bs)), bs)"
  using base64_coding [OF assms] by blast

text \<open>Hexadecimal text: two digits for each byte, and reading them gives the bytes back.\<close>

theorem hex_roundtrip:
  assumes "bs \<noteq> []"
  shows "\<exists>code. pub_code_bcdtoasc (Some (bs @ rest)) (int (length bs)) = Some (SW_OK, code) \<and>
    length code = 2 * length bs \<and>
    pub_code_asctobcd (Some (code @ rest')) (int (length code)) = Some (SW_OK, bs)"
  using assms by (rule hex_coding)

text \<open>A number written in network or host order is read back, narrowed to the two or four bytes it was written with,
  whatever the byte order of the machine and whatever follows in the buffer.\<close>

theorem binary_integer_roundtrip:
  "pub_code_nettonum (snd (pub_code_numtonet num 2) @ rest) 2 = Some (s16 num) \<and>
   pub_code_nettonum (snd (pub_code_numtonet num 4) @ rest) 4 = Some (s32 num) \<and>
   pub_code_hosttonum little (snd (pub_code_numtohost little num 2) @ rest) 2 = Some (s16 num) \<and>
   pub_code_hosttonum little (snd (pub_code_numtohost little num 4) @ rest) 4 = Some (s32 num)"
  using narrow_mod
  by (simp add: pub_code_nettonum_def pub_code_numtonet_def pub_code_hosttonum_def pub_code_numtohost_def
      host_order_def be_value_bytes)

text \<open>What the reader of a length prefix computes: it drops every zero byte and the high digit of every byte below 16,
  wherever they stand, and reads the digits that are left as one hexadecimal number.\<close>

theorem length_prefix_reads_seen_digits:
  assumes "length bs \<le> 3"
  shows "pub_code_hex2int (bs @ rest) (int (length bs)) =
    Some (int (digits_value (concat (map seen_digits (rev bs)))), replicate (length bs) 0 @ rest)"
  using assms by (rule hex2int_seen)

text \<open>A two-byte length prefix is misread when the low byte is below 16: the writer stores \<^verbatim>\<open>256 * h + l\<close> as the
  bytes \<^verbatim>\<open>h\<close> and \<^verbatim>\<open>l\<close>, the reader answers \<^verbatim>\<open>16 * h + l\<close>.\<close>

theorem length_prefix_misread:
  assumes "0 < h" and "h < 16" and "0 < l" and "l < 16"
  shows "\<exists>bs. pub_code_int2hex (256 * h + l) 2 = Some (0, bs) \<and> pub_code_hex2int bs 2 = Some (16 * h + l, [0, 0])"
proof -
  define h' l' where "h' = nat h" and "l' = nat l"
  then have h': "h = int h'" "0 < h'" "h' < 16" and l': "l = int l'" "0 < l'" "l' < 16" using assms by simp_all
  let ?n = "256 * h' + l'"
  have n: "?n = 16 * h' * 16 + l'" by simp
  have "?n div 16 = 16 * h'" "?n mod 16 = l'" unfolding n by (rule div_digit [OF l'(3)])+
  moreover have "16 * h' div 16 = h'" "\<not> ?n < 16" "\<not> 16 * h' < 16" using h' by simp_all
  ultimately have digits: "hex_digits ?n = [h', 0, l']"
    using h' by (simp add: hex_digits.simps [of ?n] hex_digits.simps [of "16 * h'"] hex_digits.simps [of h'])
  have "(256 * h + l) mod 2 ^ 32 = int ?n" using h' l' by simp
  then have fmt: "fmt_0x 4 (256 * h + l) = [0, h', 0, l']"
    by (simp only: fmt_0x_def nat_int digits) simp
  have "push_bit 4 (word_of_nat 0) OR word_of_nat k = (word_of_nat k :: byte)" for k by simp
  then have bs: "pub_code_int2hex (256 * h + l) 2 = Some (0, [word_of_nat h', word_of_nat l'])"
    using fmt by (simp add: pub_code_int2hex_def numeral_eq_Suc)
  have small: "unat (word_of_nat k :: byte) = k" if "k < 16" for k
    using that by (simp add: unsigned_of_nat take_bit_nat_eq_self)
  have "seen_digits (word_of_nat k) = [k]" if "0 < k" "k < 16" for k
    using that small [of k] by (cases "(word_of_nat k :: byte) = 0") (auto simp: seen_digits_def)
  with h' l' have "digits_value (concat (map seen_digits (rev [word_of_nat h', word_of_nat l']))) = l' + 16 * h'" by simp
  with bs h' l' hex2int_seen [of "[word_of_nat h', word_of_nat l']" "[]"] show ?thesis by (simp add: numeral_2_eq_2)
qed

section \<open>Witnesses\<close>

theorem base64_roundtrip_witness:
  "\<exists>code. pub_code_base64_enc (Some [83, 87, 51, 46]) 4 = Some (int (length code), code) \<and>
     pub_code_base64_dec (Some code) = (SW_OK, Some 4, [83, 87, 51, 46])"
  using base64_roundtrip [of "[83, 87, 51, 46]" "[]"] by auto

theorem hex_roundtrip_witness:
  "\<exists>code. pub_code_bcdtoasc (Some [18, 171]) 2 = Some (SW_OK, code) \<and> length code = 4 \<and>
     pub_code_asctobcd (Some code) (int (length code)) = Some (SW_OK, [18, 171])"
  using hex_roundtrip [of "[18, 171]" "[]" "[]"] by auto

theorem length_prefix_reads_seen_digits_witness:
  "pub_code_hex2int [1, 0, 2] 3 = Some (18, [0, 0, 0])"
  using length_prefix_reads_seen_digits [of "[1, 0, 2]" "[]"] by (simp add: seen_digits_def numeral_3_eq_3)

theorem length_prefix_misread_witness:
  "\<exists>bs. pub_code_int2hex 261 2 = Some (0, bs) \<and> pub_code_hex2int bs 2 = Some (21, [0, 0])"
  using length_prefix_misread [of 1 5] by simp

end
