(* ===== verification/Pub_Lz.thy ===== *)
theory Pub_Lz
  imports Pub_Code "HOL-Library.Monad_Syntax"
begin

text \<open>
  The LZ77 coder of \<^verbatim>\<open>core/pub_code.c\<close> (\<^verbatim>\<open>pub_code_Compress\<close>,
  \<^verbatim>\<open>pub_code_CompressFast\<close>, \<^verbatim>\<open>pub_code_Uncompress\<close>).  \<open>None\<close> is an access outside a buffer.
  Positions are natural numbers; the C code keeps \<^verbatim>\<open>inpos\<close> and \<^verbatim>\<open>outpos\<close> in 32 bits, which wrap around only
  when the input or the output comes close to 4 GB.  The two compressors differ in how they look for a
  match: the locale \<open>match_finder\<close> states what the main loop needs from the search, both searches interpret it.
\<close>

section \<open>Numbers of variable size\<close>

fun var_bytes :: "nat \<Rightarrow> 32 word \<Rightarrow> nat" where
  "var_bytes num_bytes y =
     (if num_bytes < 2 \<or> y AND 0xfe000000 \<noteq> 0 then num_bytes else var_bytes (num_bytes - 1) (push_bit 7 y))"

declare var_bytes.simps [simp del]

definition LZ_WriteVarSize :: "32 word \<Rightarrow> byte list" where
  "LZ_WriteVarSize x =
     (let num_bytes = var_bytes 5 (drop_bit 3 x) in
      map (\<lambda>i. let b = drop_bit (i * 7) x AND 0x7f in ucast (if 0 < i then b OR 0x80 else b)) (rev [0..<num_bytes]))"

text \<open>The value read and the number of bytes, from the bytes \<open>buf\<close> on.\<close>

fun LZ_ReadVarSize :: "byte list \<Rightarrow> 32 word \<Rightarrow> nat \<Rightarrow> (32 word \<times> nat) option" where
  "LZ_ReadVarSize [] y num_bytes = None"
| "LZ_ReadVarSize (c # buf) y num_bytes =
     (let b = ucast c :: 32 word; y' = push_bit 7 y OR (b AND 0x7f) in
      if b AND 0x80 \<noteq> 0 then LZ_ReadVarSize buf y' (Suc num_bytes) else Some (y', Suc num_bytes))"

section \<open>Searching for a match\<close>

abbreviation (input) LZ_MAX_OFFSET :: nat where "LZ_MAX_OFFSET \<equiv> 100000"

text \<open>A byte of the input buffer.\<close>

definition peek :: "byte list \<Rightarrow> nat \<Rightarrow> byte option" where
  "peek buf i = (if i < length buf then Some (buf ! i) else None)"

function LZ_StringCompare :: "byte list \<Rightarrow> nat \<Rightarrow> nat \<Rightarrow> nat \<Rightarrow> nat \<Rightarrow> nat option" where
  "LZ_StringCompare buf str1 str2 len maxlen =
     (if len < maxlen then do {
        a \<leftarrow> peek buf (str1 + len);
        b \<leftarrow> peek buf (str2 + len);
        if a = b then LZ_StringCompare buf str1 str2 (Suc len) maxlen else Some len
      } else Some len)"
  by pat_completeness auto
termination by (relation "measure (\<lambda>(_, _, _, len, maxlen). maxlen - len)") auto

declare LZ_StringCompare.simps [simp del]

text \<open>The search of \<^verbatim>\<open>pub_code_Compress\<close>: every offset from 3 on; the result is the best length and its
  offset.\<close>

function lz_scan :: "byte list \<Rightarrow> nat \<Rightarrow> nat \<Rightarrow> nat \<Rightarrow> nat \<Rightarrow> nat \<Rightarrow> nat \<Rightarrow> (nat \<times> nat) option" where
  "lz_scan buf inpos bytesleft maxoffset offset bestlength bestoffset =
     (if maxoffset < offset then Some (bestlength, bestoffset)
      else do {
        p \<leftarrow> peek buf inpos;
        q \<leftarrow> peek buf (inpos - offset);
        cand \<leftarrow> (if p = q then do {
                   p' \<leftarrow> peek buf (inpos + bestlength);
                   q' \<leftarrow> peek buf (inpos - offset + bestlength);
                   Some (p' = q')
                 } else Some False);
        if cand then do {
          len \<leftarrow> LZ_StringCompare buf inpos (inpos - offset) 0 (min bytesleft offset);
          if bestlength < len then lz_scan buf inpos bytesleft maxoffset (Suc offset) len offset
          else lz_scan buf inpos bytesleft maxoffset (Suc offset) bestlength bestoffset
        } else lz_scan buf inpos bytesleft maxoffset (Suc offset) bestlength bestoffset
      })"
  by pat_completeness auto
termination by (relation "measure (\<lambda>(_, _, _, maxoffset, offset, _, _). Suc maxoffset - offset)") auto

declare lz_scan.simps [simp del]

definition lz_find :: "byte list \<Rightarrow> nat \<Rightarrow> nat \<Rightarrow> (nat \<times> nat) option" where
  "lz_find buf inpos bytesleft =
     lz_scan buf inpos bytesleft (if LZ_MAX_OFFSET < inpos then LZ_MAX_OFFSET else inpos) 3 3 0"

text \<open>The jump table of \<^verbatim>\<open>pub_code_CompressFast\<close>: for each position the nearest earlier one with the same pair
  of bytes; \<open>None\<close> stands for \<^verbatim>\<open>0xffffffff\<close>.\<close>

fun lz_jumps :: "byte list \<Rightarrow> nat \<Rightarrow> nat \<Rightarrow> (nat \<Rightarrow> nat option) \<Rightarrow> nat option list option" where
  "lz_jumps buf 0 i lastindex = Some [None]"
| "lz_jumps buf (Suc n) i lastindex = do {
     a \<leftarrow> peek buf i;
     b \<leftarrow> peek buf (i + 1);
     let symbols = unat a * 256 + unat b;
     rest \<leftarrow> lz_jumps buf n (Suc i) (lastindex(symbols := Some i));
     Some (lastindex symbols # rest)
   }"

text \<open>The search through the jump table, a loop that could run for ever on a bad table.\<close>

partial_function (option) lz_follow ::
    "byte list \<Rightarrow> nat option list \<Rightarrow> nat \<Rightarrow> nat \<Rightarrow> nat option \<Rightarrow> nat \<Rightarrow> nat \<Rightarrow> (nat \<times> nat) option" where
  "lz_follow buf jumptable inpos bytesleft index bestlength bestoffset =
     (case index of
        None \<Rightarrow> Some (bestlength, bestoffset)
      | Some j \<Rightarrow>
          if LZ_MAX_OFFSET \<le> inpos - j then Some (bestlength, bestoffset)
          else Option.bind (peek buf (j + bestlength)) (\<lambda>q.
               Option.bind (peek buf (inpos + bestlength)) (\<lambda>p.
               Option.bind (if q = p then LZ_StringCompare buf inpos j 2 (min bytesleft (inpos - j)) else Some 0) (\<lambda>len.
               if length jumptable \<le> j then None
               else if bestlength < len
               then lz_follow buf jumptable inpos bytesleft (jumptable ! j) len (inpos - j)
               else lz_follow buf jumptable inpos bytesleft (jumptable ! j) bestlength bestoffset))))"

definition lz_find_fast :: "byte list \<Rightarrow> nat option list \<Rightarrow> nat \<Rightarrow> nat \<Rightarrow> (nat \<times> nat) option" where
  "lz_find_fast buf jumptable inpos bytesleft =
     (if length jumptable \<le> inpos then None
      else lz_follow buf jumptable inpos bytesleft (jumptable ! inpos) 3 0)"

section \<open>Compression\<close>

text \<open>The least common byte of the input, the first one among equals.\<close>

definition lz_marker :: "byte list \<Rightarrow> byte" where
  "lz_marker bs =
     foldl (\<lambda>marker i. if count_list bs i < count_list bs marker then i else marker) 0 (map word_of_nat [1..<256])"

definition lz_good :: "nat \<Rightarrow> nat \<Rightarrow> bool" where
  "lz_good bestlength bestoffset \<longleftrightarrow>
     8 \<le> bestlength \<or> (bestlength = 4 \<and> bestoffset \<le> 0x7f) \<or> (bestlength = 5 \<and> bestoffset \<le> 0x3fff) \<or>
     (bestlength = 6 \<and> bestoffset \<le> 0x1fffff) \<or> (bestlength = 7 \<and> bestoffset \<le> 0xfffffff)"

text \<open>The main loop, a do-loop that runs while more than three bytes are left; \<open>look\<close> is the search.  The result is the
  bytes written and the position reached.\<close>

function lz_loop ::
    "(nat \<Rightarrow> nat \<Rightarrow> (nat \<times> nat) option) \<Rightarrow> byte list \<Rightarrow> byte \<Rightarrow> nat \<Rightarrow> nat \<Rightarrow> (byte list \<times> nat) option" where
  "lz_loop look buf marker inpos bytesleft = do {
     (bestlength, bestoffset) \<leftarrow> look inpos bytesleft;
     (out, k) \<leftarrow>
       (if lz_good bestlength bestoffset then
          Some (marker # LZ_WriteVarSize (word_of_nat bestlength) @ LZ_WriteVarSize (word_of_nat bestoffset), bestlength)
        else do {
          symbol \<leftarrow> peek buf inpos;
          Some (if symbol = marker then [symbol, 0] else [symbol], 1)
        });
     if 3 < bytesleft - k then do {
       (rest, pos) \<leftarrow> lz_loop look buf marker (inpos + k) (bytesleft - k);
       Some (out @ rest, pos)
     } else Some (out, inpos + k)
   }"
  by pat_completeness auto
termination
  by (relation "measure (\<lambda>(_, _, _, _, bytesleft). bytesleft)") (auto simp: lz_good_def split: if_splits bind_splits)

declare lz_loop.simps [simp del]

text \<open>The bytes left over.\<close>

fun lz_tail :: "byte \<Rightarrow> byte list \<Rightarrow> byte list" where
  "lz_tail marker [] = []"
| "lz_tail marker (b # bs) = (if b = marker then [marker, 0] else [b]) @ lz_tail marker bs"

definition pub_code_Compress :: "byte list \<Rightarrow> nat \<Rightarrow> (int \<times> byte list) option" where
  "pub_code_Compress buf insize =
     (if insize < 1 then Some (0, [])
      else if length buf < insize then None
      else do {
        let marker = lz_marker (take insize buf);
        (out, inpos) \<leftarrow> lz_loop (lz_find buf) buf marker 0 insize;
        let res = marker # out @ lz_tail marker (drop inpos (take insize buf));
        Some (s32 (int (length res)), res)
      })"

definition pub_code_CompressFast :: "byte list \<Rightarrow> nat \<Rightarrow> (int \<times> byte list) option" where
  "pub_code_CompressFast buf insize =
     (if insize < 1 then Some (0, [])
      else if length buf < insize then None
      else do {
        jumptable \<leftarrow> lz_jumps buf (insize - 1) 0 (\<lambda>_. None);
        let marker = lz_marker (take insize buf);
        (out, inpos) \<leftarrow> lz_loop (lz_find_fast buf jumptable) buf marker 0 insize;
        let res = marker # out @ lz_tail marker (drop inpos (take insize buf));
        Some (s32 (int (length res)), res)
      })"

section \<open>Decompression\<close>

fun lz_copy :: "byte list \<Rightarrow> nat \<Rightarrow> nat \<Rightarrow> byte list option" where
  "lz_copy out offset 0 = Some out"
| "lz_copy out offset (Suc n) =
     (if offset = 0 \<or> length out < offset then None
      else lz_copy (out @ [out ! (length out - offset)]) offset n)"

text \<open>The main loop, a do-loop over the bytes that are left.\<close>

function lz_decode :: "byte \<Rightarrow> byte list \<Rightarrow> byte list \<Rightarrow> byte list option" where
  "lz_decode marker [] out = None"
| "lz_decode marker (symbol # buf) out = do {
     (buf', out') \<leftarrow>
       (if symbol = marker then
          (case buf of
             [] \<Rightarrow> None
           | c # buf1 \<Rightarrow>
               if c = 0 then Some (buf1, out @ [marker])
               else do {
                 (len, n1) \<leftarrow> LZ_ReadVarSize buf 0 0;
                 (offset, n2) \<leftarrow> LZ_ReadVarSize (drop n1 buf) 0 0;
                 out' \<leftarrow> lz_copy out (unat offset) (unat len);
                 Some (drop n2 (drop n1 buf), out')
               })
        else Some (buf, out @ [symbol]));
     if buf' = [] then Some out' else lz_decode marker buf' out'
   }"
  by pat_completeness auto
termination by (relation "measure (\<lambda>(_, buf, _). length buf)") (auto split: list.splits if_splits bind_splits, linarith)

declare lz_decode.simps(2) [simp del]

text \<open>The buffer holds exactly the compressed bytes; the second component is what is written, when the size is set.\<close>

definition pub_code_Uncompress :: "byte list \<Rightarrow> (int \<times> byte list option) option" where
  "pub_code_Uncompress inb =
     (case inb of
        [] \<Rightarrow> Some (0, None)
      | marker # buf \<Rightarrow> do {
          out \<leftarrow> lz_decode marker buf [];
          Some (0, Some out)
        })"


section \<open>Round trip of numbers\<close>

lemma bit_zero_word: "(w = 0) = (\<forall>n. \<not> bit w n)" for w :: "'a :: len word"
  by (metis bit_0_eq bit_word_eqI bot_apply bot_bool_def)

lemma top_bits: "(y AND 0xfe000000 = 0) = (\<forall>i < 7. \<not> bit y (25 + i))" for y :: "32 word"
proof -
  have m: "(0xfe000000 :: 32 word) = push_bit 25 (mask 7)" by (simp add: mask_eq_exp_minus_1)
  have "bit (y AND 0xfe000000) n = (\<exists>i < 7. n = 25 + i \<and> bit y n)" for n
  proof -
    have "bit (y AND 0xfe000000) n = (25 \<le> n \<and> n - 25 < 7 \<and> bit y n)"
      unfolding m by (auto simp: bit_simps dest: bit_imp_le_length)
    also have "\<dots> = (\<exists>i < 7. n = 25 + i \<and> bit y n)" by (auto intro: exI [of _ "n - 25"])
    finally show ?thesis .
  qed
  then show ?thesis by (auto simp: bit_zero_word)
qed

lemma var_bytes_test:
  fixes x :: "32 word"
  assumes "drop_bit (7 * Suc (Suc n)) x = 0" and "n < 4"
  shows "(push_bit (7 * (3 - n)) (drop_bit 3 x) AND 0xfe000000 = 0) = (drop_bit (7 * Suc n) x = 0)"
proof -
  have high: "\<not> bit x (7 * Suc (Suc n) + i)" for i
    using assms(1) by (auto simp: bit_zero_word bit_drop_bit_eq)
  have "7 * (3 - n) + 7 * n = 21" using assms(2) by (simp add: diff_mult_distrib2)
  then have idx: "25 + i - 7 * (3 - n) + 3 = 7 * Suc n + i" "7 * (3 - n) \<le> 25 + i" for i
    unfolding mult_Suc_right by linarith+
  have "bit (push_bit (7 * (3 - n)) (drop_bit 3 x)) (25 + i) = bit x (7 * Suc n + i)" if "i < 7" for i
    using that idx [of i] by (simp add: bit_push_bit_iff bit_drop_bit_eq add.commute)
  then have "(push_bit (7 * (3 - n)) (drop_bit 3 x) AND 0xfe000000 = 0) = (\<forall>i < 7. \<not> bit x (7 * Suc n + i))"
    unfolding top_bits by auto
  also have "\<dots> = (\<forall>i. \<not> bit x (7 * Suc n + i))"
  proof (intro iffI allI)
    fix i
    assume low: "\<forall>i < 7. \<not> bit x (7 * Suc n + i)"
    show "\<not> bit x (7 * Suc n + i)"
    proof (cases "i < 7")
      case False
      then have "7 * Suc n + i = 7 * Suc (Suc n) + (i - 7)" by simp
      with high show ?thesis by metis
    qed (use low in blast)
  qed simp
  also have "\<dots> = (drop_bit (7 * Suc n) x = 0)"
    by (auto simp: bit_zero_word bit_drop_bit_eq)
  finally show ?thesis .
qed

lemma var_bytes_spec:
  fixes x :: "32 word"
  assumes "drop_bit (7 * Suc n) x = 0" and "n < 5"
  shows "\<exists>m \<le> n. var_bytes (Suc n) (push_bit (7 * (4 - n)) (drop_bit 3 x)) = Suc m \<and>
    drop_bit (7 * Suc m) x = 0 \<and> (m = 0 \<or> drop_bit (7 * m) x \<noteq> 0)"
  using assms
proof (induction n)
  case 0
  then show ?case by (simp add: var_bytes.simps)
next
  case (Suc n)
  let ?y = "push_bit (7 * (4 - Suc n)) (drop_bit 3 x)"
  have test: "(?y AND 0xfe000000 = 0) = (drop_bit (7 * Suc n) x = 0)"
    using var_bytes_test [of n x] Suc.prems by simp
  show ?case
  proof (cases "drop_bit (7 * Suc n) x = 0")
    case True
    have "push_bit 7 ?y = push_bit (7 * (4 - n)) (drop_bit 3 x)"
    proof -
      have "7 + 7 * (4 - Suc n) = 7 * (4 - n)" using Suc.prems(2) by (simp add: diff_mult_distrib2)
      then show ?thesis by (simp only: push_bit_push_bit)
    qed
    then have "var_bytes (Suc (Suc n)) ?y = var_bytes (Suc n) (push_bit (7 * (4 - n)) (drop_bit 3 x))"
      using test True by (subst var_bytes.simps) simp
    with Suc.IH True Suc.prems(2) show ?thesis by (metis Suc_lessD le_SucI)
  next
    case False
    with test have "var_bytes (Suc (Suc n)) ?y = Suc (Suc n)" by (subst var_bytes.simps) simp
    with False Suc.prems(1) show ?thesis by blast
  qed
qed

lemma var_bytes_5:
  fixes x :: "32 word"
  shows "\<exists>m \<le> 4. var_bytes 5 (drop_bit 3 x) = Suc m \<and> drop_bit (7 * Suc m) x = 0 \<and>
    (m = 0 \<or> drop_bit (7 * m) x \<noteq> 0)"
proof -
  have "drop_bit 35 x = 0" by (rule bit_word_eqI) (auto simp: bit_drop_bit_eq dest: bit_imp_le_length)
  with var_bytes_spec [of 4 x] show ?thesis by simp
qed

lemma mask7: "(0x7f :: 32 word) = mask 7" "(0x80 :: 32 word) = push_bit 7 1"
  by (simp_all add: mask_eq_exp_minus_1)

lemma bit_0x80: "bit (0x80 :: 32 word) n = (n = 7)"
proof -
  have "(0x80 :: 32 word) = 2 ^ 7" by simp
  show ?thesis unfolding \<open>(0x80 :: 32 word) = 2 ^ 7\<close> bit_exp_iff by auto
qed

lemma bit_seven:
  fixes b :: "32 word"
  shows "bit (b AND 0x7f) n = (n < 7 \<and> bit b n)" "bit ((b AND 0x7f) OR 0x80) n = (n = 7 \<or> n < 7 \<and> bit b n)"
  unfolding mask7(1) by (simp_all only: bit_or_iff bit_and_iff bit_mask_iff bit_0x80) auto

lemma var_byte:
  fixes b :: "32 word" and c :: bool
  defines "w \<equiv> (if c then (b AND 0x7f) OR 0x80 else b AND 0x7f)"
  shows "ucast (ucast w :: byte) AND (0x7f :: 32 word) = b AND 0x7f"
    and "(ucast (ucast w :: byte) AND (0x80 :: 32 word) \<noteq> 0) = c"
    and "((ucast w :: byte) = 0) = (\<not> c \<and> b AND 0x7f = 0)"
proof -
  have bits: "bit w n = (if n = 7 then c else n < 7 \<and> bit b n)" for n
    by (auto simp: w_def bit_seven simp del: bit_numeral_word_iff)
  show "ucast (ucast w :: byte) AND (0x7f :: 32 word) = b AND 0x7f"
    unfolding mask7 by (rule bit_word_eqI) (auto simp: bit_simps bits)
  have "bit (ucast (ucast w :: byte) AND (0x80 :: 32 word)) n = (n = 7 \<and> c)" for n
    by (simp only: bit_and_iff bit_0x80) (auto simp: bit_unsigned_iff bits)
  then show "(ucast (ucast w :: byte) AND (0x80 :: 32 word) \<noteq> 0) = c" by (auto simp: bit_zero_word)
  have "bit (ucast w :: byte) n = (if n = 7 then c else n < 7 \<and> bit b n)" for n
    by (auto simp: bit_unsigned_iff bits)
  then have "((ucast w :: byte) = 0) = (\<forall>n. \<not> (if n = 7 then c else n < 7 \<and> bit b n))"
    by (simp only: bit_zero_word)
  also have "\<dots> = (\<not> c \<and> (\<forall>n < 7. \<not> bit b n))" by auto
  also have "(\<forall>n < 7. \<not> bit b n) = (b AND 0x7f = 0)" by (simp only: bit_zero_word bit_seven) auto
  finally show "((ucast w :: byte) = 0) = (\<not> c \<and> b AND 0x7f = 0)" .
qed

lemma read_written:
  assumes "drop_bit (7 * n) x = y" and "0 < n"
  shows "LZ_ReadVarSize (map (\<lambda>i. let b = drop_bit (i * 7) x AND 0x7f in
      ucast (if 0 < i then b OR 0x80 else b)) (rev [0..<n]) @ rest) y k = Some (x, k + n)"
  using assms
proof (induction n arbitrary: y k)
  case 0
  then show ?case by simp
next
  case (Suc n)
  let ?b = "drop_bit (n * 7) x"
  have y': "push_bit 7 y OR (?b AND 0x7f) = drop_bit (7 * n) x"
    unfolding Suc.prems(1) [symmetric] mask7
    by (rule bit_word_eqI) (auto simp: bit_simps algebra_simps)
  show ?case
  proof (cases n)
    case 0
    with y' var_byte [of False ?b] show ?thesis by (simp add: Let_def)
  next
    case (Suc n')
    with y' var_byte [of True ?b] Suc.IH [of "drop_bit (7 * n) x" "Suc k"] show ?thesis
      by (simp add: Let_def)
  qed
qed


lemma write_read:
  "LZ_ReadVarSize (LZ_WriteVarSize x @ rest) 0 0 = Some (x, length (LZ_WriteVarSize x))"
proof -
  from var_bytes_5 [of x] obtain m where "var_bytes 5 (drop_bit 3 x) = Suc m" "drop_bit (7 * Suc m) x = 0" by blast
  with read_written [of "Suc m" x 0 rest 0] show ?thesis by (simp add: LZ_WriteVarSize_def del: upt_Suc)
qed

lemma write_nonempty: "LZ_WriteVarSize x \<noteq> []"
  using var_bytes_5 [of x] by (auto simp: LZ_WriteVarSize_def)

lemma write_head: "x \<noteq> 0 \<Longrightarrow> hd (LZ_WriteVarSize x) \<noteq> 0"
proof -
  assume x: "x \<noteq> 0"
  from var_bytes_5 [of x] obtain m where m: "var_bytes 5 (drop_bit 3 x) = Suc m" "drop_bit (7 * Suc m) x = 0" by blast
  let ?b = "drop_bit (m * 7) x"
  have hd: "hd (LZ_WriteVarSize x) = ucast (if 0 < m then (?b AND 0x7f) OR 0x80 else ?b AND 0x7f)"
    using m(1) by (simp add: LZ_WriteVarSize_def Let_def)
  show ?thesis
  proof (cases "m = 0")
    case True
    have "x AND 0x7f = x" using m(2) True unfolding mask7
      by (intro bit_word_eqI) (auto simp: bit_simps bit_zero_word, metis le_add_diff_inverse not_less)
    with x True hd var_byte(3) [of False x] show ?thesis by simp
  next
    case False
    with hd var_byte(3) [of True ?b] show ?thesis by simp
  qed
qed

lemma write_length:
  "length (LZ_WriteVarSize x) \<le> 5" "unat x < 2 ^ (7 * k) \<Longrightarrow> 0 < k \<Longrightarrow> length (LZ_WriteVarSize x) \<le> k"
proof -
  from var_bytes_5 [of x] obtain m where m: "var_bytes 5 (drop_bit 3 x) = Suc m" "m \<le> 4"
      "m = 0 \<or> drop_bit (7 * m) x \<noteq> 0" by blast
  then show "length (LZ_WriteVarSize x) \<le> 5" by (simp add: LZ_WriteVarSize_def)
  assume k: "unat x < 2 ^ (7 * k)" "0 < k"
  have "m < k"
  proof (rule ccontr)
    assume "\<not> m < k"
    then have "(2 :: nat) ^ (7 * k) \<le> 2 ^ (7 * m)" by (intro power_increasing) simp_all
    with k(1) have "unat x < 2 ^ (7 * m)" by (rule less_le_trans)
    then have "unat x div 2 ^ (7 * m) = 0" by (rule div_less)
    then have "unat (drop_bit (7 * m) x) = 0" by (simp add: unat_drop_bit_eq flip: drop_bit_eq_div)
    with m(3) k(2) \<open>\<not> m < k\<close> show False by (simp add: unat_eq_0)
  qed
  with m(1) show "length (LZ_WriteVarSize x) \<le> k" by (simp add: LZ_WriteVarSize_def)
qed

section \<open>Tokens\<close>

text \<open>What a compressed stream says: literal bytes and copies of \<open>len\<close> bytes from \<open>off\<close> bytes back.\<close>

datatype lz_token = Literal byte | Copy nat nat

fun token_ok :: "lz_token \<Rightarrow> byte list \<Rightarrow> bool" where
  "token_ok (Literal b) out = True"
| "token_ok (Copy len off) out = (0 < len \<and> len \<le> off \<and> off \<le> length out \<and> off \<le> LZ_MAX_OFFSET)"

fun token_bytes :: "lz_token \<Rightarrow> byte list \<Rightarrow> byte list" where
  "token_bytes (Literal b) out = [b]"
| "token_bytes (Copy len off) out = take len (drop (length out - off) out)"

fun tokens_ok :: "lz_token list \<Rightarrow> byte list \<Rightarrow> bool" where
  "tokens_ok [] out = True"
| "tokens_ok (t # ts) out = (token_ok t out \<and> tokens_ok ts (out @ token_bytes t out))"

fun expand :: "lz_token list \<Rightarrow> byte list \<Rightarrow> byte list" where
  "expand [] out = out"
| "expand (t # ts) out = expand ts (out @ token_bytes t out)"

fun token_code :: "byte \<Rightarrow> lz_token \<Rightarrow> byte list" where
  "token_code marker (Literal b) = (if b = marker then [marker, 0] else [b])"
| "token_code marker (Copy len off) =
     marker # LZ_WriteVarSize (word_of_nat len) @ LZ_WriteVarSize (word_of_nat off)"

lemma tokens_append:
  "tokens_ok (ts @ us) out = (tokens_ok ts out \<and> tokens_ok us (expand ts out))"
  "expand (ts @ us) out = expand us (expand ts out)"
  by (induction ts arbitrary: out) auto

lemma lz_copy_take:
  "n \<le> off \<Longrightarrow> off \<le> length out \<Longrightarrow> lz_copy out off n = Some (out @ take n (drop (length out - off) out))"
proof (induction n arbitrary: out)
  case 0
  then show ?case by simp
next
  case (Suc n)
  let ?i = "length out - off"
  let ?c = "out ! ?i"
  have i: "?i < length out" using Suc.prems by simp
  have "lz_copy out off (Suc n) = lz_copy (out @ [?c]) off n" using Suc.prems by simp
  also have "\<dots> = Some ((out @ [?c]) @ take n (drop (length (out @ [?c]) - off) (out @ [?c])))"
    using Suc.prems by (intro Suc.IH) simp_all
  also have "drop (length (out @ [?c]) - off) (out @ [?c]) = drop (Suc ?i) out @ [?c]"
    using Suc.prems by (simp add: Suc_diff_le)
  also have "take n (drop (Suc ?i) out @ [?c]) = take n (drop (Suc ?i) out)"
    using Suc.prems by simp
  also have "(out @ [?c]) @ take n (drop (Suc ?i) out) = out @ take (Suc n) (drop ?i out)"
    using i by (simp add: Cons_nth_drop_Suc [symmetric])
  finally show ?case .
qed

lemma word_small: "k \<le> LZ_MAX_OFFSET \<Longrightarrow> unat (word_of_nat k :: 32 word) = k"
  by (simp add: unsigned_of_nat take_bit_nat_eq_self)

lemma decode_token:
  assumes "token_ok t out"
  shows "lz_decode marker (token_code marker t @ buf) out =
    (if buf = [] then Some (out @ token_bytes t out) else lz_decode marker buf (out @ token_bytes t out))"
proof (cases t)
  case (Literal b)
  then show ?thesis by (simp add: lz_decode.simps(2))
next
  case (Copy len off)
  let ?wl = "LZ_WriteVarSize (word_of_nat len)" and ?wo = "LZ_WriteVarSize (word_of_nat off)"
  from assms Copy have ok: "0 < len" "len \<le> off" "off \<le> length out" "off \<le> LZ_MAX_OFFSET" by simp_all
  then have u: "unat (word_of_nat len :: 32 word) = len" "unat (word_of_nat off :: 32 word) = off"
    by (simp_all add: word_small)
  with ok(1) have "(word_of_nat len :: 32 word) \<noteq> 0" by auto
  from write_head [OF this] write_nonempty obtain c wl where wl: "?wl = c # wl" "c \<noteq> 0"
    by (metis list.collapse)
  have r1: "LZ_ReadVarSize (c # wl @ ?wo @ buf) 0 0 = Some (word_of_nat len, Suc (length wl))"
    using write_read [of "word_of_nat len" "?wo @ buf"] unfolding wl(1) by simp
  have cp: "lz_copy out off len = Some (out @ token_bytes t out)" using lz_copy_take [of len off out] ok Copy by simp
  have code: "token_code marker t @ buf = marker # c # wl @ ?wo @ buf" by (simp add: Copy wl(1))
  show ?thesis
    unfolding code lz_decode.simps(2) using wl(2) by (simp add: r1 write_read u cp del: LZ_ReadVarSize.simps)
qed

lemma token_code_nonempty: "token_code marker t \<noteq> []"
  by (cases t) simp_all

lemma decode_tokens:
  "tokens_ok ts out \<Longrightarrow> ts \<noteq> [] \<Longrightarrow>
     lz_decode marker (concat (map (token_code marker) ts)) out = Some (expand ts out)"
proof (induction ts arbitrary: out)
  case (Cons t ts)
  show ?case
  proof (cases "ts = []")
    case True
    with Cons.prems show ?thesis using decode_token [of t out marker "[]"] by simp
  next
    case False
    then have "concat (map (token_code marker) ts) \<noteq> []" by (cases ts) (simp_all add: token_code_nonempty)
    with decode_token [of t out marker "concat (map (token_code marker) ts)"] Cons.prems(1)
    have "lz_decode marker (concat (map (token_code marker) (t # ts))) out =
        lz_decode marker (concat (map (token_code marker) ts)) (out @ token_bytes t out)"
      by (simp only: tokens_ok.simps list.map concat.simps if_False)
    with Cons False show ?thesis by simp
  qed
qed simp


lemma copy_code_length:
  assumes "lz_good len off" and "len \<le> off" and "off \<le> LZ_MAX_OFFSET"
  shows "length (token_code marker (Copy len off)) \<le> len"
proof -
  let ?n = "\<lambda>k. length (LZ_WriteVarSize (word_of_nat k))"
  have u: "unat (word_of_nat len :: 32 word) = len" "unat (word_of_nat off :: 32 word) = off"
    using assms(2,3) by (simp_all add: word_small)
  have n1: "?n k \<le> 1" if "k < 128" for k using that write_length(2) [of "word_of_nat k" 1] by (simp add: word_small)
  have o: "?n off \<le> 2" if "off \<le> 0x3fff" using that write_length(2) [of "word_of_nat off" 2] u by simp
  have o3: "?n off \<le> 3" using assms(3) write_length(2) [of "word_of_nat off" 3] u by simp
  have five: "?n k \<le> 5" for k by (rule write_length(1))
  consider "len < 128" "8 \<le> len" | "128 \<le> len" | "len = 4" "off < 128" | "len = 5" "off \<le> 0x3fff" | "len = 6" | "len = 7"
    using assms(1) unfolding lz_good_def by linarith
  then have "?n len + ?n off < len"
  proof cases
    case 1 then show ?thesis using n1 [of len] o3 by linarith
  next
    case 2 then show ?thesis using five [of len] five [of off] by linarith
  next
    case 3 then show ?thesis using n1 [of 4] n1 [of off] by simp
  next
    case 4 then show ?thesis using n1 [of 5] o by simp
  next
    case 5 then show ?thesis using n1 [of 6] o3 by simp
  next
    case 6 then show ?thesis using n1 [of 7] o3 by simp
  qed
  then show ?thesis by simp
qed

lemma token_code_length:
  "(\<And>len off. t = Copy len off \<Longrightarrow> lz_good len off) \<Longrightarrow> token_ok t out \<Longrightarrow>
     length (token_code marker t) \<le> length (token_bytes t out) + count_list (token_bytes t out) marker"
proof (cases t)
  case (Copy len off)
  assume "\<And>len off. t = Copy len off \<Longrightarrow> lz_good len off" "token_ok t out"
  with Copy copy_code_length [of len off marker] show ?thesis by simp
qed simp

section \<open>The main loop\<close>

text \<open>A match at a position: the bytes it stands for are the next bytes of the input.\<close>

definition match_ok :: "byte list \<Rightarrow> nat \<Rightarrow> nat \<Rightarrow> nat \<Rightarrow> nat \<Rightarrow> bool" where
  "match_ok buf inpos bytesleft len off \<longleftrightarrow>
     len \<le> bytesleft \<and> len \<le> off \<and> off \<le> inpos \<and> off \<le> LZ_MAX_OFFSET \<and>
     (\<forall>k < len. buf ! (inpos - off + k) = buf ! (inpos + k))"

lemma match_bytes:
  assumes "match_ok buf inpos left len off" and "inpos + left \<le> length buf"
  shows "token_bytes (Copy len off) (take inpos buf) = take len (drop inpos buf)"
proof (rule nth_equalityI)
  from assms have le: "len \<le> left" "len \<le> off" "off \<le> inpos" by (simp_all add: match_ok_def)
  have eq: "buf ! (inpos + k - off) = buf ! (inpos + k)" if "k < len" for k
  proof -
    have "buf ! (inpos - off + k) = buf ! (inpos + k)" using assms(1) that unfolding match_ok_def by blast
    moreover have "inpos - off + k = inpos + k - off" using le by simp
    ultimately show ?thesis by simp
  qed
  from le assms(2) show "length (token_bytes (Copy len off) (take inpos buf)) = length (take len (drop inpos buf))" by simp
  fix i assume "i < length (token_bytes (Copy len off) (take inpos buf))"
  with le assms(2) eq show "token_bytes (Copy len off) (take inpos buf) ! i = take len (drop inpos buf) ! i" by simp
qed

locale match_finder =
  fixes look :: "nat \<Rightarrow> nat \<Rightarrow> (nat \<times> nat) option" and buf :: "byte list" and insize :: nat
  assumes room: "insize \<le> length buf"
    and look_sound: "look inpos left = Some (len, off) \<Longrightarrow> inpos + left = insize \<Longrightarrow> 0 < left \<Longrightarrow> 3 < len \<Longrightarrow>
      match_ok buf inpos left len off"
begin

lemma loop_tokens:
  assumes "lz_loop look buf marker inpos left = Some (out, pos)" and "inpos + left = insize" and "0 < left"
  shows "\<exists>ts. ts \<noteq> [] \<and> out = concat (map (token_code marker) ts) \<and> tokens_ok ts (take inpos buf) \<and>
    expand ts (take inpos buf) = take pos buf \<and> inpos \<le> pos \<and> pos \<le> insize \<and>
    length out \<le> pos - inpos + count_list (take (pos - inpos) (drop inpos buf)) marker"
  using assms
proof (induction left arbitrary: inpos out rule: less_induct)
  case (less left)
  from less.prems(1) obtain len off where look: "look inpos left = Some (len, off)"
    by (subst (asm) lz_loop.simps) (auto split: bind_splits)
  define t where "t = (if lz_good len off then Copy len off else Literal (buf ! inpos))"
  define k where "k = (if lz_good len off then len else 1)"
  have in_buf: "inpos < length buf" using less.prems(2,3) room by simp
  have ok: "token_ok t (take inpos buf)" "token_bytes t (take inpos buf) = take k (drop inpos buf)" "0 < k" "k \<le> left"
  proof -
    have "token_ok t (take inpos buf) \<and> token_bytes t (take inpos buf) = take k (drop inpos buf) \<and> 0 < k \<and> k \<le> left"
    proof (cases "lz_good len off")
      case True
      then have "3 < len" by (auto simp: lz_good_def)
      with look_sound [OF look less.prems(2,3)] have m: "match_ok buf inpos left len off" by simp
      with match_bytes [OF this] True less.prems(2) room in_buf \<open>3 < len\<close> show ?thesis
        by (simp add: t_def k_def) (simp add: match_ok_def)
    next
      case False
      with less.prems(3) in_buf show ?thesis by (simp add: t_def k_def take_Suc_conv_app_nth hd_drop_conv_nth take_Suc)
    qed
    then show "token_ok t (take inpos buf)" "token_bytes t (take inpos buf) = take k (drop inpos buf)" "0 < k" "k \<le> left"
      by simp_all
  qed
  have code: "length (token_code marker t) \<le> k + count_list (take k (drop inpos buf)) marker"
  proof -
    have "length (token_bytes t (take inpos buf)) = k" using ok(2,4) less.prems(2) room by simp
    moreover have "lz_good l o'" if "t = Copy l o'" for l o' using that by (simp add: t_def split: if_splits)
    ultimately show ?thesis using token_code_length [OF _ ok(1)] ok(2) by fastforce
  qed
  have grow: "take inpos buf @ take k (drop inpos buf) = take (inpos + k) buf" by (simp add: take_add)
  have "lz_loop look buf marker inpos left =
      (if 3 < left - k then do {
         (rest, pos) \<leftarrow> lz_loop look buf marker (inpos + k) (left - k);
         Some (token_code marker t @ rest, pos)
       } else Some (token_code marker t, inpos + k))"
    using in_buf by (subst lz_loop.simps) (simp add: look t_def k_def peek_def)
  note step = this [unfolded less.prems(1)]
  show ?case
  proof (cases "3 < left - k")
    case False
    with step have "out = token_code marker t" "pos = inpos + k" by simp_all
    with ok code grow less.prems(2) show ?thesis by (intro exI [of _ "[t]"]) simp
  next
    case True
    with step obtain rest where rest: "lz_loop look buf marker (inpos + k) (left - k) = Some (rest, pos)"
        "out = token_code marker t @ rest"
      by (auto split: bind_splits)
    have "\<exists>ts. ts \<noteq> [] \<and> rest = concat (map (token_code marker) ts) \<and> tokens_ok ts (take (inpos + k) buf) \<and>
        expand ts (take (inpos + k) buf) = take pos buf \<and> inpos + k \<le> pos \<and> pos \<le> insize \<and>
        length rest \<le> pos - (inpos + k) + count_list (take (pos - (inpos + k)) (drop (inpos + k) buf)) marker"
      by (rule less.IH [OF _ rest(1)]) (use ok True less.prems in simp_all)
    then obtain ts where ts: "rest = concat (map (token_code marker) ts)" "tokens_ok ts (take (inpos + k) buf)"
        "expand ts (take (inpos + k) buf) = take pos buf" "inpos + k \<le> pos" "pos \<le> insize"
        "length rest \<le> pos - (inpos + k) + count_list (take (pos - (inpos + k)) (drop (inpos + k) buf)) marker"
      by blast
    have "take (pos - inpos) (drop inpos buf) =
        take k (drop inpos buf) @ take (pos - (inpos + k)) (drop (inpos + k) buf)"
      using ts(4) take_add [of k "pos - (inpos + k)" "drop inpos buf"] by (simp add: add.commute)
    with ts ok code grow rest(2) show ?thesis by (intro exI [of _ "t # ts"]) simp
  qed
qed

lemma tail_tokens: "lz_tail marker bs = concat (map (token_code marker) (map Literal bs))"
  by (induction bs) simp_all

lemma literals: "tokens_ok (map Literal bs) out" "expand (map Literal bs) out = out @ bs"
  "length (concat (map (token_code marker) (map Literal bs))) = length bs + count_list bs marker"
  by (induction bs arbitrary: out) simp_all

lemma stream_tokens:
  assumes "lz_loop look buf marker 0 insize = Some (out, pos)" and "0 < insize"
  shows "\<exists>ts. ts \<noteq> [] \<and> out @ lz_tail marker (drop pos (take insize buf)) = concat (map (token_code marker) ts) \<and>
    tokens_ok ts [] \<and> expand ts [] = take insize buf \<and>
    length (concat (map (token_code marker) ts)) \<le> insize + count_list (take insize buf) marker"
proof -
  from loop_tokens [OF assms(1)] assms(2) obtain ts where ts: "ts \<noteq> []" "out = concat (map (token_code marker) ts)"
      "tokens_ok ts []" "expand ts [] = take pos buf" "pos \<le> insize"
      "length out \<le> pos + count_list (take pos buf) marker"
    by auto
  let ?rest = "drop pos (take insize buf)"
  have split: "take pos buf @ ?rest = take insize buf"
    using ts(5) append_take_drop_id [of pos "take insize buf"] by (simp add: min_def)
  have cnt: "count_list (take insize buf) marker = count_list (take pos buf) marker + count_list ?rest marker"
  proof -
    have "count_list (take pos buf @ ?rest) marker = count_list (take pos buf) marker + count_list ?rest marker" by simp
    then show ?thesis by (simp only: split)
  qed
  have "length ?rest = insize - pos" using room by simp
  with ts cnt split show ?thesis
    by (intro exI [of _ "ts @ map Literal ?rest"])
      (simp add: tail_tokens tokens_append literals literals(3) [simplified] del: map_map)
qed

end


text \<open>A search that never leaves the buffer.\<close>

locale total_finder = match_finder +
  assumes look_total: "inpos + left = insize \<Longrightarrow> 0 < left \<Longrightarrow> 3 < left \<or> inpos = 0 \<Longrightarrow> look inpos left \<noteq> None"
begin

lemma loop_total:
  "inpos + left = insize \<Longrightarrow> 0 < left \<Longrightarrow> 3 < left \<or> inpos = 0 \<Longrightarrow>
     lz_loop look buf marker inpos left \<noteq> None"
proof (induction left arbitrary: inpos rule: less_induct)
  case (less left)
  from look_total [OF less.prems] obtain len off where look: "look inpos left = Some (len, off)" by auto
  have in_buf: "inpos < length buf" using less.prems(1,2) room by simp
  have len: "0 < len \<and> len \<le> left" if "lz_good len off"
  proof -
    from that have "3 < len" by (auto simp: lz_good_def)
    with look_sound [OF look less.prems(1,2)] show ?thesis by (simp add: match_ok_def)
  qed
  have more: "lz_loop look buf marker (inpos + k) (left - k) \<noteq> None" if "0 < k" "k \<le> left" "3 < left - k" for k
    using that less.prems(1) by (intro less.IH) simp_all
  show ?case
  proof (cases "lz_good len off")
    case True
    with len more [of len] show ?thesis by (subst lz_loop.simps) (auto simp: look bind_eq_None_conv split: option.splits)
  next
    case False
    with more [of 1] less.prems in_buf show ?thesis
      by (subst lz_loop.simps) (auto simp: look peek_def bind_eq_None_conv split: option.splits)
  qed
qed

end

section \<open>The two searches\<close>

lemma compare_matches:
  assumes "LZ_StringCompare buf p q len maxlen = Some l" and "\<forall>k < len. buf ! (p + k) = buf ! (q + k)"
  shows "(\<forall>k < l. buf ! (p + k) = buf ! (q + k)) \<and> (l \<le> maxlen \<or> l = len)"
  using assms
proof (induction buf p q len maxlen rule: LZ_StringCompare.induct)
  case (1 buf p q len maxlen)
  show ?case
  proof (cases "len < maxlen \<and> p + len < length buf \<and> q + len < length buf \<and> buf ! (p + len) = buf ! (q + len)")
    case True
    have "LZ_StringCompare buf p q (Suc len) maxlen = Some l"
      using "1.prems"(1) True by (subst (asm) LZ_StringCompare.simps) (simp add: peek_def)
    moreover have "\<forall>k < Suc len. buf ! (p + k) = buf ! (q + k)" using True "1.prems"(2) by (simp add: less_Suc_eq)
    ultimately have "(\<forall>k < l. buf ! (p + k) = buf ! (q + k)) \<and> (l \<le> maxlen \<or> l = Suc len)"
      using "1.IH" True by (auto simp: peek_def)
    with True show ?thesis by auto
  next
    case False
    with "1.prems" have "l = len"
      by (subst (asm) LZ_StringCompare.simps) (auto simp: peek_def split: if_splits bind_splits)
    with "1.prems"(2) show ?thesis by simp
  qed
qed

lemma compare_total:
  "p + maxlen \<le> length buf \<Longrightarrow> q + maxlen \<le> length buf \<Longrightarrow> LZ_StringCompare buf p q len maxlen \<noteq> None"
proof (induction buf p q len maxlen rule: LZ_StringCompare.induct)
  case (1 buf p q len maxlen)
  then show ?case by (subst LZ_StringCompare.simps) (auto simp: peek_def)
qed

text \<open>The best match so far, or none: the length is 3 then.\<close>

abbreviation (input) best_ok :: "byte list \<Rightarrow> nat \<Rightarrow> nat \<Rightarrow> nat \<Rightarrow> nat \<Rightarrow> bool" where
  "best_ok buf inpos left len off \<equiv> len = 3 \<or> match_ok buf inpos left len off"

lemma longer_match:
  assumes "LZ_StringCompare buf inpos j m (min left (inpos - j)) = Some len" and "\<forall>k < m. buf ! (inpos + k) = buf ! (j + k)"
    and "best < len" and "m < best" and "j \<le> inpos" and "inpos - j \<le> LZ_MAX_OFFSET"
  shows "match_ok buf inpos left len (inpos - j)"
proof -
  from compare_matches [OF assms(1,2)] have "\<forall>k < len. buf ! (inpos + k) = buf ! (j + k)" "len \<le> min left (inpos - j)"
    using assms(3,4) by auto
  with assms(5,6) show ?thesis by (simp add: match_ok_def)
qed

lemma scan_step:
  assumes "lz_scan buf inpos left mx offset best bo = Some r" and "offset \<le> mx"
  obtains "lz_scan buf inpos left mx (Suc offset) best bo = Some r"
    | len where "LZ_StringCompare buf inpos (inpos - offset) 0 (min left offset) = Some len" "best < len"
        "lz_scan buf inpos left mx (Suc offset) len offset = Some r"
  using assms by (subst (asm) lz_scan.simps) (auto split: bind_splits if_splits)

lemma scan_ok:
  assumes "lz_scan buf inpos left mx offset best bo = Some (len, off)"
    and "best_ok buf inpos left best bo" and "3 \<le> best" and "mx \<le> inpos" and "mx \<le> LZ_MAX_OFFSET"
  shows "best_ok buf inpos left len off"
  using assms
proof (induction "Suc mx - offset" arbitrary: offset best bo)
  case 0
  then show ?case by (subst (asm) lz_scan.simps) auto
next
  case (Suc n)
  then have le: "offset \<le> mx" and n: "n = Suc mx - Suc offset" by simp_all
  from Suc.prems(1) le show ?case
  proof (cases rule: scan_step)
    case 1
    with Suc.hyps(1) [OF n] Suc.prems show ?thesis by blast
  next
    case (2 l)
    have "match_ok buf inpos left l offset"
      using longer_match [of buf inpos "inpos - offset" 0 left l best] 2 le Suc.prems(3-5) by simp
    moreover have "3 \<le> l" using 2(2) Suc.prems(3) by simp
    ultimately show ?thesis using Suc.hyps(1) [OF n 2(3)] Suc.prems(4,5) by blast
  qed
qed

lemma scan_total:
  assumes "best_ok buf inpos left best bo" and "3 \<le> best" and "mx \<le> inpos" and "mx \<le> LZ_MAX_OFFSET"
    and "inpos + left < length buf" and "3 < left"
  shows "lz_scan buf inpos left mx offset best bo \<noteq> None"
  using assms
proof (induction "Suc mx - offset" arbitrary: offset best bo)
  case 0
  then show ?case by (subst lz_scan.simps) simp
next
  case (Suc n)
  then have le: "offset \<le> mx" and n: "n = Suc mx - Suc offset" by simp_all
  have best: "best \<le> left" using Suc.prems(1,6) by (auto simp: match_ok_def)
  have cmp: "LZ_StringCompare buf inpos (inpos - offset) 0 (min left offset) \<noteq> None"
    using Suc.prems(5) by (intro compare_total) simp_all
  have keep: "lz_scan buf inpos left mx (Suc offset) best bo \<noteq> None"
    using Suc.hyps(1) [OF n] Suc.prems by blast
  have better: "lz_scan buf inpos left mx (Suc offset) l offset \<noteq> None"
    if l: "LZ_StringCompare buf inpos (inpos - offset) 0 (min left offset) = Some l" "best < l" for l
  proof -
    have "match_ok buf inpos left l offset"
      using longer_match [of buf inpos "inpos - offset" 0 left l best] l le Suc.prems(2-4) by simp
    moreover have "3 \<le> l" using l(2) Suc.prems(2) by simp
    ultimately show ?thesis using Suc.hyps(1) [OF n] Suc.prems(3-6) by blast
  qed
  show ?case
    by (subst lz_scan.simps)
      (use le best cmp keep better Suc.prems(5) in \<open>auto simp: peek_def bind_eq_None_conv split: option.splits\<close>)
qed

text \<open>Both searches read at most one byte behind the input: the interpretations hold for every input followed by
  another readable byte.\<close>

interpretation brute: total_finder "lz_find (bs @ c # rest)" "bs @ c # rest" "length bs" for bs c rest
proof unfold_locales
  let ?buf = "bs @ c # rest"
  show "length bs \<le> length ?buf" by simp
  fix inpos left len off
  assume "lz_find ?buf inpos left = Some (len, off)" "3 < len"
  then show "match_ok ?buf inpos left len off"
    using scan_ok [of ?buf inpos left _ 3 3 0 len off] by (fastforce simp: lz_find_def split: if_splits)
next
  let ?buf = "bs @ c # rest"
  fix inpos left
  assume "inpos + left = length bs" "3 < left \<or> inpos = 0"
  moreover have "lz_scan ?buf 0 left 0 3 3 0 \<noteq> None" by (subst lz_scan.simps) simp
  ultimately show "lz_find ?buf inpos left \<noteq> None"
    using scan_total [where buf = ?buf and inpos = inpos and left = left and best = 3 and bo = 0 and offset = 3]
    by (auto simp: lz_find_def)
qed

text \<open>The jump table leads back to earlier occurrences of the same two bytes.\<close>

definition same_pair :: "byte list \<Rightarrow> nat \<Rightarrow> nat \<Rightarrow> bool" where
  "same_pair buf i j \<longleftrightarrow> j < i \<and> buf ! j = buf ! i \<and> buf ! (j + 1) = buf ! (i + 1)"

lemma jumps_sound:
  assumes "i + n < length buf"
    and "\<And>x j. li x = Some j \<Longrightarrow> j < i \<and> x = unat (buf ! j) * 256 + unat (buf ! (j + 1))"
  shows "\<exists>jt. lz_jumps buf n i li = Some jt \<and> length jt = Suc n \<and>
    (\<forall>k j. k \<le> n \<and> jt ! k = Some j \<longrightarrow> same_pair buf (i + k) j)"
  using assms
proof (induction n arbitrary: i li)
  case 0
  then show ?case by simp
next
  case (Suc n)
  let ?x = "unat (buf ! i) * 256 + unat (buf ! (i + 1))"
  let ?li = "li(?x := Some i)"
  have "\<exists>jt. lz_jumps buf n (Suc i) ?li = Some jt \<and> length jt = Suc n \<and>
      (\<forall>k j. k \<le> n \<and> jt ! k = Some j \<longrightarrow> same_pair buf (Suc i + k) j)"
    by (rule Suc.IH) (use Suc.prems in \<open>auto split: if_splits intro: less_SucI\<close>)
  then obtain jt where jt: "lz_jumps buf n (Suc i) ?li = Some jt" "length jt = Suc n"
      "\<forall>k j. k \<le> n \<and> jt ! k = Some j \<longrightarrow> same_pair buf (Suc i + k) j"
    by blast
  have pair: "same_pair buf i j" if "li ?x = Some j" for j
  proof -
    from Suc.prems(2) [OF that] have j: "j < i" "unat (buf ! i) * 256 + unat (buf ! (i + 1)) = unat (buf ! j) * 256 + unat (buf ! (j + 1))"
      by simp_all
    have "unat (buf ! i) = unat (buf ! j)" "unat (buf ! (i + 1)) = unat (buf ! (j + 1))"
      using arg_cong [OF j(2), of "\<lambda>x. x div 256"] arg_cong [OF j(2), of "\<lambda>x. x mod 256"]
      by (simp_all only: div_digit [OF byte_lt])
    with j(1) show ?thesis by (simp add: same_pair_def word_eq_iff_unsigned [where 'a = nat])
  qed
  have "lz_jumps buf (Suc n) i li = Some (li ?x # jt)"
    using Suc.prems(1) jt(1) by (simp add: peek_def Let_def)
  moreover have "same_pair buf (i + k) j" if "k \<le> Suc n" "(li ?x # jt) ! k = Some j" for k j
    using that pair jt(3) by (cases k) auto
  ultimately show ?case using jt(2) by auto
qed

definition table_ok :: "byte list \<Rightarrow> nat \<Rightarrow> nat option list \<Rightarrow> bool" where
  "table_ok buf insize jt \<longleftrightarrow> length jt = insize \<and> (\<forall>i j. i < insize \<and> jt ! i = Some j \<longrightarrow> same_pair buf i j)"

lemma same_pair_match: "same_pair buf i j \<Longrightarrow> \<forall>k < 2. buf ! (i + k) = buf ! (j + k)"
  by (auto simp: same_pair_def less_2_cases_iff)

lemma same_pair_trans: "same_pair buf i j \<Longrightarrow> same_pair buf j k \<Longrightarrow> same_pair buf i k"
  by (auto simp: same_pair_def)

lemma follow_sound:
  assumes "table_ok buf insize jt" and "inpos + left = insize" and "0 < left"
    and "\<And>j. index = Some j \<Longrightarrow> same_pair buf inpos j" and "3 \<le> best" and "best_ok buf inpos left best bo"
  shows "(\<forall>len off. lz_follow buf jt inpos left index best bo = Some (len, off) \<longrightarrow> best_ok buf inpos left len off) \<and>
    (insize < length buf \<and> 3 < left \<longrightarrow> lz_follow buf jt inpos left index best bo \<noteq> None)"
  using assms(4-6)
proof (induction "case index of None \<Rightarrow> 0 | Some j \<Rightarrow> Suc j" arbitrary: index best bo rule: less_induct)
  case less
  show ?case
  proof (cases index)
    case None
    with less.prems show ?thesis by (auto simp: lz_follow.simps)
  next
    case (Some j)
    from less.prems(1) [OF Some] have pair: "same_pair buf inpos j" .
    then have j: "j < inpos" "j < length jt" using assms(1-3) by (auto simp: same_pair_def table_ok_def)
    have nxt: "same_pair buf inpos j'" "Suc j' < Suc j" if "jt ! j = Some j'" for j'
    proof -
      have "same_pair buf j j'" using assms(1) j(2) that by (auto simp: table_ok_def)
      then show "same_pair buf inpos j'" "Suc j' < Suc j" using same_pair_trans [OF pair] by (auto simp: same_pair_def)
    qed
    have keep: "(\<forall>len off. lz_follow buf jt inpos left (jt ! j) b o' = Some (len, off) \<longrightarrow> best_ok buf inpos left len off) \<and>
        (insize < length buf \<and> 3 < left \<longrightarrow> lz_follow buf jt inpos left (jt ! j) b o' \<noteq> None)"
      if "3 \<le> b" "best_ok buf inpos left b o'" for b o'
      by (rule less.hyps) (use that nxt Some in \<open>auto split: option.splits\<close>)
    have better: "match_ok buf inpos left l (inpos - j)"
      if "LZ_StringCompare buf inpos j 2 (min left (inpos - j)) = Some l" "best < l" "inpos - j < LZ_MAX_OFFSET" for l
      using longer_match [OF that(1) same_pair_match [OF pair] that(2)] less.prems(2) j(1) that(3) by simp
    have kept: "lz_follow buf jt inpos left (jt ! j) best bo = Some (len, off) \<Longrightarrow> best_ok buf inpos left len off"
        "insize < length buf \<Longrightarrow> 3 < left \<Longrightarrow> lz_follow buf jt inpos left (jt ! j) best bo \<noteq> None" for len off
      using keep [OF less.prems(2,3)] by blast+
    have improved: "lz_follow buf jt inpos left (jt ! j) l (inpos - j) = Some (len, off) \<Longrightarrow> best_ok buf inpos left len off"
        "insize < length buf \<Longrightarrow> 3 < left \<Longrightarrow> lz_follow buf jt inpos left (jt ! j) l (inpos - j) \<noteq> None"
      if "LZ_StringCompare buf inpos j 2 (min left (inpos - j)) = Some l" "best < l" "inpos - j < LZ_MAX_OFFSET" for l len off
      using keep [OF _ disjI2 [OF better [OF that]]] that(2) less.prems(2) by simp_all
    have eqn: "lz_follow buf jt inpos left index best bo =
        (if LZ_MAX_OFFSET \<le> inpos - j then Some (best, bo)
         else Option.bind (peek buf (j + best)) (\<lambda>q. Option.bind (peek buf (inpos + best)) (\<lambda>p.
           Option.bind (if q = p then LZ_StringCompare buf inpos j 2 (min left (inpos - j)) else Some 0) (\<lambda>l.
             if best < l then lz_follow buf jt inpos left (jt ! j) l (inpos - j)
             else lz_follow buf jt inpos left (jt ! j) best bo))))"
      using Some j(2) by (subst lz_follow.simps) simp
    show ?thesis
    proof (intro conjI allI impI)
      fix len off
      assume "lz_follow buf jt inpos left index best bo = Some (len, off)"
      then show "best_ok buf inpos left len off"
        unfolding eqn using kept improved less.prems(2,3)
        by (auto split: bind_splits if_splits)
    next
      assume slack: "insize < length buf \<and> 3 < left"
      then have "best \<le> left" using less.prems(3) by (auto simp: match_ok_def)
      moreover have "LZ_StringCompare buf inpos j 2 (min left (inpos - j)) \<noteq> None"
        using slack assms(2) j(1) by (intro compare_total) linarith+
      ultimately show "lz_follow buf jt inpos left index best bo \<noteq> None"
        unfolding eqn using slack kept(2) improved(2) assms(2) j(1)
        by (auto simp: peek_def bind_eq_None_conv split: option.splits)
    qed
  qed
qed


text \<open>The table of an input, as \<^verbatim>\<open>pub_code_CompressFast\<close> builds it.\<close>

definition table_of :: "byte list \<Rightarrow> nat \<Rightarrow> nat option list" where
  "table_of buf insize = the (lz_jumps buf (insize - 1) 0 (\<lambda>_. None))"

lemma table_of_ok:
  assumes "0 < insize" and "insize \<le> length buf"
  shows "lz_jumps buf (insize - 1) 0 (\<lambda>_. None) = Some (table_of buf insize)" and "table_ok buf insize (table_of buf insize)"
proof -
  have "0 + (insize - 1) < length buf" using assms by linarith
  from jumps_sound [OF this, of "\<lambda>_. None"] obtain jt where jt: "lz_jumps buf (insize - 1) 0 (\<lambda>_. None) = Some jt" "length jt = Suc (insize - 1)"
      "\<forall>k j. k \<le> insize - 1 \<and> jt ! k = Some j \<longrightarrow> same_pair buf (0 + k) j"
    by auto
  then show "lz_jumps buf (insize - 1) 0 (\<lambda>_. None) = Some (table_of buf insize)" by (simp add: table_of_def)
  show "table_ok buf insize (table_of buf insize)"
    using jt assms(1) by (auto simp: table_of_def table_ok_def)
qed

interpretation jumping: total_finder "lz_find_fast (bs @ c # rest) (table_of (bs @ c # rest) (length bs))"
    "bs @ c # rest" "length bs" for bs c rest
proof unfold_locales
  let ?buf = "bs @ c # rest"
  let ?jt = "table_of ?buf (length bs)"
  have follow: "lz_find_fast ?buf ?jt inpos left = lz_follow ?buf ?jt inpos left (?jt ! inpos) 3 0"
      "table_ok ?buf (length bs) ?jt" "\<And>j. ?jt ! inpos = Some j \<Longrightarrow> same_pair ?buf inpos j"
    if "inpos + left = length bs" "0 < left" for inpos left
  proof -
    show ok: "table_ok ?buf (length bs) ?jt" using that by (intro table_of_ok) (cases bs; simp)+
    with that show "lz_find_fast ?buf ?jt inpos left = lz_follow ?buf ?jt inpos left (?jt ! inpos) 3 0"
      by (simp add: lz_find_fast_def table_ok_def)
    show "same_pair ?buf inpos j" if "?jt ! inpos = Some j" for j
      using ok that \<open>inpos + left = length bs\<close> \<open>0 < left\<close> by (simp add: table_ok_def)
  qed
  show "length bs \<le> length ?buf" by simp
  {
    fix inpos left len off
    assume a: "lz_find_fast ?buf ?jt inpos left = Some (len, off)" "inpos + left = length bs" "0 < left" "3 < len"
    note f = follow [OF a(2,3)]
    from follow_sound [OF f(2) a(2,3) f(3), where best = 3 and bo = 0] a(1,4) f(1) show "match_ok ?buf inpos left len off" by auto
  }
  fix inpos left
  assume a: "inpos + left = length bs" "0 < left" "3 < left \<or> inpos = 0"
  note f = follow [OF a(1,2)]
  show "lz_find_fast ?buf ?jt inpos left \<noteq> None"
  proof (cases "?jt ! inpos")
    case None
    then show ?thesis using f(1) by (simp add: lz_follow.simps)
  next
    case (Some j)
    with f(3) have "inpos \<noteq> 0" by (auto simp: same_pair_def)
    with a(3) follow_sound [OF f(2) a(1,2) f(3), where best = 3 and bo = 0] f(1) show ?thesis by simp
  qed
qed


section \<open>Properties\<close>

lemma least_step:
  "count_list bs (foldl (\<lambda>m i. if count_list bs i < count_list bs m then i else m) a xs) \<le> count_list bs a \<and>
   (\<forall>x \<in> set xs. count_list bs (foldl (\<lambda>m i. if count_list bs i < count_list bs m then i else m) a xs) \<le> count_list bs x)"
proof (induction xs arbitrary: a)
  case (Cons x xs)
  from Cons [of "if count_list bs x < count_list bs a then x else a"] show ?case by (auto split: if_splits)
qed simp

lemma marker_least: "count_list bs (lz_marker bs) \<le> count_list bs b"
proof (cases "b = 0")
  case False
  have "unat b \<in> set [1..<256]" using False unsigned_less [of b] by (simp add: unat_gt_0 Suc_le_eq)
  moreover have "b = word_of_nat (unat b)" by simp
  ultimately have "b \<in> set (map word_of_nat [1..<256])" by (metis image_eqI set_map)
  with least_step [of bs 0 "map word_of_nat [1..<256]"] show ?thesis unfolding lz_marker_def by blast
qed (use least_step [of bs 0 "map word_of_nat [1..<256]"] in \<open>simp add: lz_marker_def\<close>)

lemma count_all: "length bs = (\<Sum>b \<in> (UNIV :: byte set). count_list bs b)"
proof -
  have "(\<Sum>b \<in> (UNIV :: byte set). count_list bs b) = (\<Sum>b \<in> set bs. count_list bs b)"
    by (rule sum.mono_neutral_right) (auto simp: count_list_0_iff)
  then show ?thesis by (simp add: sum_count_set)
qed

lemma marker_rare: "256 * count_list bs (lz_marker bs) \<le> length bs"
proof -
  have "256 * count_list bs (lz_marker bs) = (\<Sum>b \<in> (UNIV :: byte set). count_list bs (lz_marker bs))"
    by (simp add: card_word)
  also have "\<dots> \<le> (\<Sum>b \<in> (UNIV :: byte set). count_list bs b)" by (rule sum_mono) (rule marker_least)
  finally show ?thesis by (simp add: count_all [symmetric])
qed

lemma take_self: "take (length bs) (bs @ r) = bs"
  by simp

text \<open>What both compressors write decodes to the input and stays within the documented bound.\<close>

definition lz_faithful :: "byte list \<Rightarrow> (int \<times> byte list) option \<Rightarrow> bool" where
  "lz_faithful bs r =
     (case r of
        None \<Rightarrow> False
      | Some (n, code) \<Rightarrow> n = s32 (int (length code)) \<and> pub_code_Uncompress code = Some (0, Some bs) \<and>
          length code \<le> 1 + length bs + length bs div 256)"

context total_finder
begin

lemma compressed:
  assumes "0 < insize"
  defines "marker \<equiv> lz_marker (take insize buf)"
  obtains out pos where "lz_loop look buf marker 0 insize = Some (out, pos)"
    and "lz_faithful (take insize buf)
      (Some (s32 (int (length (marker # out @ lz_tail marker (drop pos (take insize buf))))),
        marker # out @ lz_tail marker (drop pos (take insize buf))))"
proof -
  from loop_total [of 0 insize marker] assms(1) obtain out pos
    where run: "lz_loop look buf marker 0 insize = Some (out, pos)" by auto
  from stream_tokens [OF this assms(1)] obtain ts where ts: "ts \<noteq> []"
      "out @ lz_tail marker (drop pos (take insize buf)) = concat (map (token_code marker) ts)"
      "tokens_ok ts []" "expand ts [] = take insize buf"
      "length (concat (map (token_code marker) ts)) \<le> insize + count_list (take insize buf) marker"
    by blast
  have "256 * count_list (take insize buf) marker \<le> insize"
    using marker_rare [of "take insize buf"] room by (simp add: marker_def)
  then have "count_list (take insize buf) marker \<le> insize div 256" by linarith
  with ts(5) have "length (out @ lz_tail marker (drop pos (take insize buf))) \<le> insize + insize div 256"
    unfolding ts(2) by linarith
  with ts(2,4) decode_tokens [OF ts(3,1), of marker] room have "lz_faithful (take insize buf)
      (Some (s32 (int (length (marker # out @ lz_tail marker (drop pos (take insize buf))))),
        marker # out @ lz_tail marker (drop pos (take insize buf))))"
    by (simp add: lz_faithful_def pub_code_Uncompress_def)
  with run show ?thesis by (rule that)
qed

end

text \<open>C35: Compression of a non-empty buffer, with at least one readable byte after it, never leaves the buffer; what it
  writes decompresses to the input, and is at most 1/256 longer than the input plus one byte, as the comment promises
  (0.4 per cent).\<close>

theorem compress_roundtrip:
  assumes "bs \<noteq> []"
  shows "lz_faithful bs (pub_code_Compress (bs @ c # rest) (length bs))"
proof -
  from assms have "0 < length bs" by simp
  from brute.compressed [OF this, of c rest] obtain out pos
    where run: "lz_loop (lz_find (bs @ c # rest)) (bs @ c # rest) (lz_marker bs) 0 (length bs) = Some (out, pos)"
      and ok: "lz_faithful bs (Some (s32 (int (length (lz_marker bs # out @ lz_tail (lz_marker bs) (drop pos bs)))),
        lz_marker bs # out @ lz_tail (lz_marker bs) (drop pos bs)))"
    by (simp only: take_self) blast
  with assms show ?thesis by (simp add: pub_code_Compress_def Let_def Suc_le_eq del: length_Cons)
qed

theorem compress_roundtrip_witness: "lz_faithful [7, 0] (pub_code_Compress ([7, 0] @ [1]) (length [7, 0 :: byte]))"
  by (rule compress_roundtrip) simp

text \<open>The same for the search through the jump table, which is also shown to end.\<close>

theorem compress_fast_roundtrip:
  assumes "bs \<noteq> []"
  shows "lz_faithful bs (pub_code_CompressFast (bs @ c # rest) (length bs))"
proof -
  have "lz_jumps (bs @ c # rest) (length bs - 1) 0 (\<lambda>_. None) = Some (table_of (bs @ c # rest) (length bs))"
    using assms by (intro table_of_ok(1)) simp_all
  moreover from assms have "0 < length bs" by simp
  from jumping.compressed [OF this, of c rest] obtain out pos where
      "lz_loop (lz_find_fast (bs @ c # rest) (table_of (bs @ c # rest) (length bs))) (bs @ c # rest) (lz_marker bs)
         0 (length bs) = Some (out, pos)"
      "lz_faithful bs (Some (s32 (int (length (lz_marker bs # out @ lz_tail (lz_marker bs) (drop pos bs)))),
        lz_marker bs # out @ lz_tail (lz_marker bs) (drop pos bs)))"
    by (simp only: take_self) blast
  ultimately show ?thesis using assms by (simp add: pub_code_CompressFast_def Let_def Suc_le_eq del: length_Cons)
qed

theorem compress_fast_roundtrip_witness:
  "lz_faithful [7, 0] (pub_code_CompressFast ([7, 0] @ [1]) (length [7, 0 :: byte]))"
  by (rule compress_fast_roundtrip) simp

lemma marker_example: "lz_marker [1, 2, 3, 4, 1, 2, 3, 4, 1, 2, 3, 4] = 0"
  by code_simp

lemma jumps_example: "lz_jumps [1, 2, 3, 4, 1, 2, 3, 4, 1, 2, 3, 4] 11 0 (\<lambda>_. None) =
    Some [None, None, None, None, Some 0, Some 1, Some 2, Some 3, Some 4, Some 5, Some 6, None]"
  by code_simp

lemma searches_example:
  "lz_find [1, 2, 3, 4, 1, 2, 3, 4, 1, 2, 3, 4] 0 12 = Some (3, 0)"
  "lz_find [1, 2, 3, 4, 1, 2, 3, 4, 1, 2, 3, 4] 1 11 = Some (3, 0)"
  "lz_find [1, 2, 3, 4, 1, 2, 3, 4, 1, 2, 3, 4] 2 10 = Some (3, 0)"
  "lz_find [1, 2, 3, 4, 1, 2, 3, 4, 1, 2, 3, 4] 3 9 = Some (3, 0)"
  "lz_find [1, 2, 3, 4, 1, 2, 3, 4, 1, 2, 3, 4] 4 8 = Some (4, 4)"
  "lz_find [1, 2, 3, 4, 1, 2, 3, 4, 1, 2, 3, 4] 8 4 = None"
       apply (simp add: lz_find_def lz_scan.simps)
      apply (simp add: lz_find_def lz_scan.simps)
     apply (simp add: lz_find_def lz_scan.simps)
    apply (simp add: lz_find_def lz_scan.simps peek_def)
   apply (simp add: lz_find_def lz_scan.simps peek_def LZ_StringCompare.simps)
  apply (simp add: lz_find_def lz_scan.simps peek_def LZ_StringCompare.simps)
  done

lemma fast_searches_example:
  defines "jt \<equiv> [None, None, None, None, Some 0, Some 1, Some 2, Some 3, Some 4, Some 5, Some 6, None]"
  shows "lz_find_fast [1, 2, 3, 4, 1, 2, 3, 4, 1, 2, 3, 4] jt 0 12 = Some (3, 0)"
  "lz_find_fast [1, 2, 3, 4, 1, 2, 3, 4, 1, 2, 3, 4] jt 1 11 = Some (3, 0)"
  "lz_find_fast [1, 2, 3, 4, 1, 2, 3, 4, 1, 2, 3, 4] jt 2 10 = Some (3, 0)"
  "lz_find_fast [1, 2, 3, 4, 1, 2, 3, 4, 1, 2, 3, 4] jt 3 9 = Some (3, 0)"
  "lz_find_fast [1, 2, 3, 4, 1, 2, 3, 4, 1, 2, 3, 4] jt 4 8 = Some (4, 4)"
  "lz_find_fast [1, 2, 3, 4, 1, 2, 3, 4, 1, 2, 3, 4] jt 8 4 = None"
       apply (simp add: jt_def lz_find_fast_def lz_follow.simps)
      apply (simp add: jt_def lz_find_fast_def lz_follow.simps)
     apply (simp add: jt_def lz_find_fast_def lz_follow.simps)
    apply (simp add: jt_def lz_find_fast_def lz_follow.simps)
   apply (simp add: jt_def lz_find_fast_def lz_follow.simps peek_def LZ_StringCompare.simps)
  apply (simp add: jt_def lz_find_fast_def lz_follow.simps peek_def LZ_StringCompare.simps)
  done

text \<open>A loop step on a literal and on a match.\<close>

lemma loop_literal:
  assumes "look inpos left = Some (3, 0)" and "inpos < length buf" and "4 < left"
    and "lz_loop look buf marker (inpos + 1) (left - 1) = None"
  shows "lz_loop look buf marker inpos left = None"
  using assms by (subst lz_loop.simps) (simp add: lz_good_def peek_def)

lemma loop_match:
  assumes "look inpos left = Some (4, 4)" and "7 < left" and "lz_loop look buf marker (inpos + 4) (left - 4) = None"
  shows "lz_loop look buf marker inpos left = None"
  using assms by (subst lz_loop.simps) (simp add: lz_good_def)

lemma loop_stuck: "look inpos left = None \<Longrightarrow> lz_loop look buf marker inpos left = None"
  by (subst lz_loop.simps) simp

text \<open>Without a readable byte after the input both searches read one byte past it when the input ends in a
  repetition.\<close>

theorem compress_reads_past:
  "pub_code_Compress [1, 2, 3, 4, 1, 2, 3, 4, 1, 2, 3, 4] 12 = None \<and>
   pub_code_CompressFast [1, 2, 3, 4, 1, 2, 3, 4, 1, 2, 3, 4] 12 = None"
proof -
  let ?buf = "[1, 2, 3, 4, 1, 2, 3, 4, 1, 2, 3, 4] :: byte list"
  have loop: "lz_loop look ?buf m 0 12 = None"
    if "look 0 12 = Some (3, 0)" "look 1 11 = Some (3, 0)" "look 2 10 = Some (3, 0)" "look 3 9 = Some (3, 0)"
      "look 4 8 = Some (4, 4)" "look 8 4 = None" for look m
  proof -
    have "lz_loop look ?buf m 8 4 = None" using that(6) by (rule loop_stuck)
    then have "lz_loop look ?buf m 4 8 = None" using loop_match [of look 4 8 ?buf m] that(5) by simp
    then have "lz_loop look ?buf m 3 9 = None" using loop_literal [of look 3 9 ?buf m] that(4) by simp
    then have "lz_loop look ?buf m 2 10 = None" using loop_literal [of look 2 10 ?buf m] that(3) by simp
    then have "lz_loop look ?buf m 1 11 = None" using loop_literal [of look 1 11 ?buf m] that(2) by (simp add: numeral_2_eq_2)
    then show ?thesis using loop_literal [of look 0 12 ?buf m] that(1) by simp
  qed
  have "lz_loop (lz_find ?buf) ?buf 0 0 12 = None" by (rule loop) (rule searches_example)+
  moreover have "lz_loop (lz_find_fast ?buf (the (lz_jumps ?buf 11 0 (\<lambda>_. None)))) ?buf 0 0 12 = None"
    by (rule loop; simp only: jumps_example option.sel; rule fast_searches_example)
  ultimately show ?thesis
    by (simp add: pub_code_Compress_def pub_code_CompressFast_def marker_example jumps_example)
qed

end
