(* ===== verification/Des3.thy ===== *)
theory Des3
  imports Pub_Code
begin

text \<open>
  DES and triple DES of \<^verbatim>\<open>core/des3.c\<close>: the key schedules, the block function, the buffer loops and the text
  interfaces \<^verbatim>\<open>pub_des3_enc\<close> and \<^verbatim>\<open>pub_des3_dec\<close>.  An \<^verbatim>\<open>unsigned long\<close> has 64 bits, of
  which the code uses the low 32.  \<open>None\<close> is a read past the input.
\<close>

type_synonym ulong = "64 word"

section \<open>Tables\<close>

definition SB1 :: "ulong list" where
  "SB1 = [
    0x01010400, 0x00000000, 0x00010000, 0x01010404, 0x01010004, 0x00010404, 0x00000004, 0x00010000,
    0x00000400, 0x01010400, 0x01010404, 0x00000400, 0x01000404, 0x01010004, 0x01000000, 0x00000004,
    0x00000404, 0x01000400, 0x01000400, 0x00010400, 0x00010400, 0x01010000, 0x01010000, 0x01000404,
    0x00010004, 0x01000004, 0x01000004, 0x00010004, 0x00000000, 0x00000404, 0x00010404, 0x01000000,
    0x00010000, 0x01010404, 0x00000004, 0x01010000, 0x01010400, 0x01000000, 0x01000000, 0x00000400,
    0x01010004, 0x00010000, 0x00010400, 0x01000004, 0x00000400, 0x00000004, 0x01000404, 0x00010404,
    0x01010404, 0x00010004, 0x01010000, 0x01000404, 0x01000004, 0x00000404, 0x00010404, 0x01010400,
    0x00000404, 0x01000400, 0x01000400, 0x00000000, 0x00010004, 0x00010400, 0x00000000, 0x01010004]"

definition SB2 :: "ulong list" where
  "SB2 = [
    0x80108020, 0x80008000, 0x00008000, 0x00108020, 0x00100000, 0x00000020, 0x80100020, 0x80008020,
    0x80000020, 0x80108020, 0x80108000, 0x80000000, 0x80008000, 0x00100000, 0x00000020, 0x80100020,
    0x00108000, 0x00100020, 0x80008020, 0x00000000, 0x80000000, 0x00008000, 0x00108020, 0x80100000,
    0x00100020, 0x80000020, 0x00000000, 0x00108000, 0x00008020, 0x80108000, 0x80100000, 0x00008020,
    0x00000000, 0x00108020, 0x80100020, 0x00100000, 0x80008020, 0x80100000, 0x80108000, 0x00008000,
    0x80100000, 0x80008000, 0x00000020, 0x80108020, 0x00108020, 0x00000020, 0x00008000, 0x80000000,
    0x00008020, 0x80108000, 0x00100000, 0x80000020, 0x00100020, 0x80008020, 0x80000020, 0x00100020,
    0x00108000, 0x00000000, 0x80008000, 0x00008020, 0x80000000, 0x80100020, 0x80108020, 0x00108000]"

definition SB3 :: "ulong list" where
  "SB3 = [
    0x00000208, 0x08020200, 0x00000000, 0x08020008, 0x08000200, 0x00000000, 0x00020208, 0x08000200,
    0x00020008, 0x08000008, 0x08000008, 0x00020000, 0x08020208, 0x00020008, 0x08020000, 0x00000208,
    0x08000000, 0x00000008, 0x08020200, 0x00000200, 0x00020200, 0x08020000, 0x08020008, 0x00020208,
    0x08000208, 0x00020200, 0x00020000, 0x08000208, 0x00000008, 0x08020208, 0x00000200, 0x08000000,
    0x08020200, 0x08000000, 0x00020008, 0x00000208, 0x00020000, 0x08020200, 0x08000200, 0x00000000,
    0x00000200, 0x00020008, 0x08020208, 0x08000200, 0x08000008, 0x00000200, 0x00000000, 0x08020008,
    0x08000208, 0x00020000, 0x08000000, 0x08020208, 0x00000008, 0x00020208, 0x00020200, 0x08000008,
    0x08020000, 0x08000208, 0x00000208, 0x08020000, 0x00020208, 0x00000008, 0x08020008, 0x00020200]"

definition SB4 :: "ulong list" where
  "SB4 = [
    0x00802001, 0x00002081, 0x00002081, 0x00000080, 0x00802080, 0x00800081, 0x00800001, 0x00002001,
    0x00000000, 0x00802000, 0x00802000, 0x00802081, 0x00000081, 0x00000000, 0x00800080, 0x00800001,
    0x00000001, 0x00002000, 0x00800000, 0x00802001, 0x00000080, 0x00800000, 0x00002001, 0x00002080,
    0x00800081, 0x00000001, 0x00002080, 0x00800080, 0x00002000, 0x00802080, 0x00802081, 0x00000081,
    0x00800080, 0x00800001, 0x00802000, 0x00802081, 0x00000081, 0x00000000, 0x00000000, 0x00802000,
    0x00002080, 0x00800080, 0x00800081, 0x00000001, 0x00802001, 0x00002081, 0x00002081, 0x00000080,
    0x00802081, 0x00000081, 0x00000001, 0x00002000, 0x00800001, 0x00002001, 0x00802080, 0x00800081,
    0x00002001, 0x00002080, 0x00800000, 0x00802001, 0x00000080, 0x00800000, 0x00002000, 0x00802080]"

definition SB5 :: "ulong list" where
  "SB5 = [
    0x00000100, 0x02080100, 0x02080000, 0x42000100, 0x00080000, 0x00000100, 0x40000000, 0x02080000,
    0x40080100, 0x00080000, 0x02000100, 0x40080100, 0x42000100, 0x42080000, 0x00080100, 0x40000000,
    0x02000000, 0x40080000, 0x40080000, 0x00000000, 0x40000100, 0x42080100, 0x42080100, 0x02000100,
    0x42080000, 0x40000100, 0x00000000, 0x42000000, 0x02080100, 0x02000000, 0x42000000, 0x00080100,
    0x00080000, 0x42000100, 0x00000100, 0x02000000, 0x40000000, 0x02080000, 0x42000100, 0x40080100,
    0x02000100, 0x40000000, 0x42080000, 0x02080100, 0x40080100, 0x00000100, 0x02000000, 0x42080000,
    0x42080100, 0x00080100, 0x42000000, 0x42080100, 0x02080000, 0x00000000, 0x40080000, 0x42000000,
    0x00080100, 0x02000100, 0x40000100, 0x00080000, 0x00000000, 0x40080000, 0x02080100, 0x40000100]"

definition SB6 :: "ulong list" where
  "SB6 = [
    0x20000010, 0x20400000, 0x00004000, 0x20404010, 0x20400000, 0x00000010, 0x20404010, 0x00400000,
    0x20004000, 0x00404010, 0x00400000, 0x20000010, 0x00400010, 0x20004000, 0x20000000, 0x00004010,
    0x00000000, 0x00400010, 0x20004010, 0x00004000, 0x00404000, 0x20004010, 0x00000010, 0x20400010,
    0x20400010, 0x00000000, 0x00404010, 0x20404000, 0x00004010, 0x00404000, 0x20404000, 0x20000000,
    0x20004000, 0x00000010, 0x20400010, 0x00404000, 0x20404010, 0x00400000, 0x00004010, 0x20000010,
    0x00400000, 0x20004000, 0x20000000, 0x00004010, 0x20000010, 0x20404010, 0x00404000, 0x20400000,
    0x00404010, 0x20404000, 0x00000000, 0x20400010, 0x00000010, 0x00004000, 0x20400000, 0x00404010,
    0x00004000, 0x00400010, 0x20004010, 0x00000000, 0x20404000, 0x20000000, 0x00400010, 0x20004010]"

definition SB7 :: "ulong list" where
  "SB7 = [
    0x00200000, 0x04200002, 0x04000802, 0x00000000, 0x00000800, 0x04000802, 0x00200802, 0x04200800,
    0x04200802, 0x00200000, 0x00000000, 0x04000002, 0x00000002, 0x04000000, 0x04200002, 0x00000802,
    0x04000800, 0x00200802, 0x00200002, 0x04000800, 0x04000002, 0x04200000, 0x04200800, 0x00200002,
    0x04200000, 0x00000800, 0x00000802, 0x04200802, 0x00200800, 0x00000002, 0x04000000, 0x00200800,
    0x04000000, 0x00200800, 0x00200000, 0x04000802, 0x04000802, 0x04200002, 0x04200002, 0x00000002,
    0x00200002, 0x04000000, 0x04000800, 0x00200000, 0x04200800, 0x00000802, 0x00200802, 0x04200800,
    0x00000802, 0x04000002, 0x04200802, 0x04200000, 0x00200800, 0x00000000, 0x00000002, 0x04200802,
    0x00000000, 0x00200802, 0x04200000, 0x00000800, 0x04000002, 0x04000800, 0x00000800, 0x00200002]"

definition SB8 :: "ulong list" where
  "SB8 = [
    0x10001040, 0x00001000, 0x00040000, 0x10041040, 0x10000000, 0x10001040, 0x00000040, 0x10000000,
    0x00040040, 0x10040000, 0x10041040, 0x00041000, 0x10041000, 0x00041040, 0x00001000, 0x00000040,
    0x10040000, 0x10000040, 0x10001000, 0x00001040, 0x00041000, 0x00040040, 0x10040040, 0x10041000,
    0x00001040, 0x00000000, 0x00000000, 0x10040040, 0x10000040, 0x10001000, 0x00041040, 0x00040000,
    0x00041040, 0x00040000, 0x10041000, 0x00001000, 0x00000040, 0x10040040, 0x00001000, 0x00041040,
    0x10001000, 0x00000040, 0x10000040, 0x10040000, 0x10040040, 0x10000000, 0x00040000, 0x10001040,
    0x00000000, 0x10041040, 0x00040040, 0x10000040, 0x10040000, 0x10001000, 0x10001040, 0x00000000,
    0x10041040, 0x00041000, 0x00041000, 0x00001040, 0x00001040, 0x00040040, 0x10000000, 0x10041000]"

definition LHs :: "ulong list" where
  "LHs = [
    0x00000000, 0x00000001, 0x00000100, 0x00000101, 0x00010000, 0x00010001, 0x00010100, 0x00010101,
    0x01000000, 0x01000001, 0x01000100, 0x01000101, 0x01010000, 0x01010001, 0x01010100, 0x01010101]"

definition RHs :: "ulong list" where
  "RHs = [
    0x00000000, 0x01000000, 0x00010000, 0x01010000, 0x00000100, 0x01000100, 0x00010100, 0x01010100,
    0x00000001, 0x01000001, 0x00010001, 0x01010001, 0x00000101, 0x01000101, 0x00010101, 0x01010101]"

section \<open>Permutations\<close>

definition GET_UINT32_BE :: "byte list \<Rightarrow> nat \<Rightarrow> ulong" where
  "GET_UINT32_BE b i =
     push_bit 24 (ucast (b ! i)) OR push_bit 16 (ucast (b ! (i + 1))) OR push_bit 8 (ucast (b ! (i + 2))) OR
     ucast (b ! (i + 3))"

definition PUT_UINT32_BE :: "ulong \<Rightarrow> byte list" where
  "PUT_UINT32_BE n = [ucast (drop_bit 24 n), ucast (drop_bit 16 n), ucast (drop_bit 8 n), ucast n]"

text \<open>The statement \<^verbatim>\<open>T = ((X >> s) ^ Y) & m; Y ^= T; X ^= (T << s)\<close>.\<close>

definition des_swap :: "nat \<Rightarrow> ulong \<Rightarrow> ulong \<times> ulong \<Rightarrow> ulong \<times> ulong" where
  "des_swap s m = (\<lambda>(X, Y). let T = (drop_bit s X XOR Y) AND m in (X XOR push_bit s T, Y XOR T))"

definition DES_IP :: "ulong \<times> ulong \<Rightarrow> ulong \<times> ulong" where
  "DES_IP = (\<lambda>(X, Y).
     let (X, Y) = des_swap 4 0x0F0F0F0F (X, Y);
         (X, Y) = des_swap 16 0x0000FFFF (X, Y);
         (Y, X) = des_swap 2 0x33333333 (Y, X);
         (Y, X) = des_swap 8 0x00FF00FF (Y, X);
         Y = (push_bit 1 Y OR drop_bit 31 Y) AND 0xFFFFFFFF;
         (X, Y) = des_swap 0 0xAAAAAAAA (X, Y);
         X = (push_bit 1 X OR drop_bit 31 X) AND 0xFFFFFFFF
     in (X, Y))"

definition DES_FP :: "ulong \<times> ulong \<Rightarrow> ulong \<times> ulong" where
  "DES_FP = (\<lambda>(X, Y).
     let X = (push_bit 31 X OR drop_bit 1 X) AND 0xFFFFFFFF;
         (X, Y) = des_swap 0 0xAAAAAAAA (X, Y);
         Y = (push_bit 31 Y OR drop_bit 1 Y) AND 0xFFFFFFFF;
         (Y, X) = des_swap 8 0x00FF00FF (Y, X);
         (Y, X) = des_swap 2 0x33333333 (Y, X);
         (X, Y) = des_swap 16 0x0000FFFF (X, Y);
         (X, Y) = des_swap 4 0x0F0F0F0F (X, Y)
     in (X, Y))"

section \<open>Rounds\<close>

definition sbox :: "ulong list \<Rightarrow> ulong \<Rightarrow> ulong" where
  "sbox SB i = SB ! unat (i AND 0x3F)"

text \<open>\<^verbatim>\<open>DES_ROUND(X,Y)\<close> xors this to \<^verbatim>\<open>Y\<close>.\<close>

definition des_f :: "ulong \<Rightarrow> ulong \<Rightarrow> ulong \<Rightarrow> ulong" where
  "des_f k1 k2 X =
     (let T = k1 XOR X;
          T' = k2 XOR (push_bit 28 X OR drop_bit 4 X) in
      (sbox SB8 T XOR sbox SB6 (drop_bit 8 T) XOR sbox SB4 (drop_bit 16 T) XOR sbox SB2 (drop_bit 24 T)) XOR
      (sbox SB7 T' XOR sbox SB5 (drop_bit 8 T') XOR sbox SB3 (drop_bit 16 T') XOR sbox SB1 (drop_bit 24 T')))"

text \<open>The lines \<^verbatim>\<open>DES_ROUND(Y,X); DES_ROUND(X,Y)\<close>, until the subkeys are used up.\<close>

fun des_rounds :: "ulong list \<Rightarrow> ulong \<times> ulong \<Rightarrow> ulong \<times> ulong" where
  "des_rounds (k1 # k2 # k3 # k4 # SK) (X, Y) =
     (let X = X XOR des_f k1 k2 Y;
          Y = Y XOR des_f k3 k4 X in
      des_rounds SK (X, Y))"
| "des_rounds SK (X, Y) = (X, Y)"

section \<open>Key schedule\<close>

definition subkey1 :: "ulong \<Rightarrow> ulong \<Rightarrow> ulong" where
  "subkey1 X Y =
     (push_bit 4 X AND 0x24000000) OR (push_bit 28 X AND 0x10000000) OR (push_bit 14 X AND 0x08000000) OR
     (push_bit 18 X AND 0x02080000) OR (push_bit 6 X AND 0x01000000) OR (push_bit 9 X AND 0x00200000) OR
     (drop_bit 1 X AND 0x00100000) OR (push_bit 10 X AND 0x00040000) OR (push_bit 2 X AND 0x00020000) OR
     (drop_bit 10 X AND 0x00010000) OR (drop_bit 13 Y AND 0x00002000) OR (drop_bit 4 Y AND 0x00001000) OR
     (push_bit 6 Y AND 0x00000800) OR (drop_bit 1 Y AND 0x00000400) OR (drop_bit 14 Y AND 0x00000200) OR
     (Y AND 0x00000100) OR (drop_bit 5 Y AND 0x00000020) OR (drop_bit 10 Y AND 0x00000010) OR
     (drop_bit 3 Y AND 0x00000008) OR (drop_bit 18 Y AND 0x00000004) OR (drop_bit 26 Y AND 0x00000002) OR
     (drop_bit 24 Y AND 0x00000001)"

definition subkey2 :: "ulong \<Rightarrow> ulong \<Rightarrow> ulong" where
  "subkey2 X Y =
     (push_bit 15 X AND 0x20000000) OR (push_bit 17 X AND 0x10000000) OR (push_bit 10 X AND 0x08000000) OR
     (push_bit 22 X AND 0x04000000) OR (drop_bit 2 X AND 0x02000000) OR (push_bit 1 X AND 0x01000000) OR
     (push_bit 16 X AND 0x00200000) OR (push_bit 11 X AND 0x00100000) OR (push_bit 3 X AND 0x00080000) OR
     (drop_bit 6 X AND 0x00040000) OR (push_bit 15 X AND 0x00020000) OR (drop_bit 4 X AND 0x00010000) OR
     (drop_bit 2 Y AND 0x00002000) OR (push_bit 8 Y AND 0x00001000) OR (drop_bit 14 Y AND 0x00000808) OR
     (drop_bit 9 Y AND 0x00000400) OR (Y AND 0x00000200) OR (push_bit 7 Y AND 0x00000100) OR
     (drop_bit 7 Y AND 0x00000020) OR (drop_bit 3 Y AND 0x00000011) OR (push_bit 2 Y AND 0x00000004) OR
     (drop_bit 21 Y AND 0x00000002)"

text \<open>The loop over the rounds, \<open>n\<close> of them left.\<close>

fun des_subkeys :: "nat \<Rightarrow> nat \<Rightarrow> ulong \<Rightarrow> ulong \<Rightarrow> ulong list" where
  "des_subkeys 0 i X Y = []"
| "des_subkeys (Suc n) i X Y =
     (let s = (if i < 2 \<or> i = 8 \<or> i = 15 then 1 else 2);
          X = (push_bit s X OR drop_bit (28 - s) X) AND 0x0FFFFFFF;
          Y = (push_bit s Y OR drop_bit (28 - s) Y) AND 0x0FFFFFFF in
      subkey1 X Y # subkey2 X Y # des_subkeys n (Suc i) X Y)"

definition des_main_ks :: "byte list \<Rightarrow> ulong list" where
  "des_main_ks key =
     (let X = GET_UINT32_BE key 0;
          Y = GET_UINT32_BE key 4;
          (Y, X) = des_swap 4 0x0F0F0F0F (Y, X);
          (Y, X) = des_swap 0 0x10101010 (Y, X);
          X = push_bit 3 (LHs ! unat (X AND 0xF)) OR push_bit 2 (LHs ! unat (drop_bit 8 X AND 0xF)) OR
              push_bit 1 (LHs ! unat (drop_bit 16 X AND 0xF)) OR (LHs ! unat (drop_bit 24 X AND 0xF)) OR
              push_bit 7 (LHs ! unat (drop_bit 5 X AND 0xF)) OR push_bit 6 (LHs ! unat (drop_bit 13 X AND 0xF)) OR
              push_bit 5 (LHs ! unat (drop_bit 21 X AND 0xF)) OR push_bit 4 (LHs ! unat (drop_bit 29 X AND 0xF));
          Y = push_bit 3 (RHs ! unat (drop_bit 1 Y AND 0xF)) OR push_bit 2 (RHs ! unat (drop_bit 9 Y AND 0xF)) OR
              push_bit 1 (RHs ! unat (drop_bit 17 Y AND 0xF)) OR (RHs ! unat (drop_bit 25 Y AND 0xF)) OR
              push_bit 7 (RHs ! unat (drop_bit 4 Y AND 0xF)) OR push_bit 6 (RHs ! unat (drop_bit 12 Y AND 0xF)) OR
              push_bit 5 (RHs ! unat (drop_bit 20 Y AND 0xF)) OR push_bit 4 (RHs ! unat (drop_bit 28 Y AND 0xF));
          X = X AND 0x0FFFFFFF;
          Y = Y AND 0x0FFFFFFF in
      des_subkeys 16 0 X Y)"

record des_context =
  dc_esk :: "ulong list"
  dc_dsk :: "ulong list"

text \<open>The loops over \<^verbatim>\<open>i = 0, 2, .., 30\<close> that copy subkeys.\<close>

definition my_des_set_key :: "des_context \<Rightarrow> byte list \<Rightarrow> des_context" where
  "my_des_set_key ctx key =
     foldl (\<lambda>ctx j. let i = 2 * j in
         ctx\<lparr>dc_dsk := (dc_dsk ctx)[i := dc_esk ctx ! (30 - i), i + 1 := dc_esk ctx ! (31 - i)]\<rparr>)
       (ctx\<lparr>dc_esk := des_main_ks key\<rparr>) [0..<16]"

definition des3_set_2keys :: "des_context \<Rightarrow> byte list \<Rightarrow> des_context" where
  "des3_set_2keys ctx key =
     foldl (\<lambda>ctx j. let i = 2 * j;
           ctx = ctx\<lparr>dc_dsk := (dc_dsk ctx)[i := dc_esk ctx ! (30 - i), i + 1 := dc_esk ctx ! (31 - i)]\<rparr>;
           ctx = ctx\<lparr>dc_esk := (dc_esk ctx)[i + 32 := dc_dsk ctx ! (62 - i), i + 33 := dc_dsk ctx ! (63 - i)]\<rparr>;
           ctx = ctx\<lparr>dc_esk := (dc_esk ctx)[i + 64 := dc_esk ctx ! i, i + 65 := dc_esk ctx ! (1 + i)]\<rparr> in
         ctx\<lparr>dc_dsk := (dc_dsk ctx)[i + 64 := dc_dsk ctx ! i, i + 65 := dc_dsk ctx ! (1 + i)]\<rparr>)
       (ctx\<lparr>dc_esk := des_main_ks (take 8 key) @ drop 32 (dc_esk ctx),
            dc_dsk := take 32 (dc_dsk ctx) @ des_main_ks (take 8 (drop 8 key)) @ drop 64 (dc_dsk ctx)\<rparr>) [0..<16]"

definition des3_set_3keys :: "des_context \<Rightarrow> byte list \<Rightarrow> des_context" where
  "des3_set_3keys ctx key =
     foldl (\<lambda>ctx j. let i = 2 * j;
           ctx = ctx\<lparr>dc_dsk := (dc_dsk ctx)[i := dc_esk ctx ! (94 - i), i + 1 := dc_esk ctx ! (95 - i)]\<rparr>;
           ctx = ctx\<lparr>dc_esk := (dc_esk ctx)[i + 32 := dc_dsk ctx ! (62 - i), i + 33 := dc_dsk ctx ! (63 - i)]\<rparr> in
         ctx\<lparr>dc_dsk := (dc_dsk ctx)[i + 64 := dc_esk ctx ! (30 - i), i + 65 := dc_esk ctx ! (31 - i)]\<rparr>)
       (ctx\<lparr>dc_esk := des_main_ks (take 8 key) @ take 32 (drop 32 (dc_esk ctx)) @ des_main_ks (take 8 (drop 16 key)),
            dc_dsk := take 32 (dc_dsk ctx) @ des_main_ks (take 8 (drop 8 key)) @ drop 64 (dc_dsk ctx)\<rparr>) [0..<16]"


section \<open>Block functions\<close>

definition des_crypt :: "ulong list \<Rightarrow> byte list \<Rightarrow> byte list" where
  "des_crypt SK input =
     (let X = GET_UINT32_BE input 0;
          Y = GET_UINT32_BE input 4;
          (X, Y) = DES_IP (X, Y);
          (X, Y) = des_rounds (take 32 SK) (X, Y);
          (Y, X) = DES_FP (Y, X) in
      PUT_UINT32_BE Y @ PUT_UINT32_BE X)"

definition des_encrypt :: "des_context \<Rightarrow> byte list \<Rightarrow> byte list" where
  "des_encrypt ctx input = des_crypt (dc_esk ctx) input"

definition des_decrypt :: "des_context \<Rightarrow> byte list \<Rightarrow> byte list" where
  "des_decrypt ctx input = des_crypt (dc_dsk ctx) input"

definition des3_crypt :: "ulong list \<Rightarrow> byte list \<Rightarrow> byte list" where
  "des3_crypt SK input =
     (let X = GET_UINT32_BE input 0;
          Y = GET_UINT32_BE input 4;
          (X, Y) = DES_IP (X, Y);
          (X, Y) = des_rounds (take 32 SK) (X, Y);
          (Y, X) = des_rounds (take 32 (drop 32 SK)) (Y, X);
          (X, Y) = des_rounds (take 32 (drop 64 SK)) (X, Y);
          (Y, X) = DES_FP (Y, X) in
      PUT_UINT32_BE Y @ PUT_UINT32_BE X)"

definition des3_encrypt :: "des_context \<Rightarrow> byte list \<Rightarrow> byte list" where
  "des3_encrypt ctx input = des3_crypt (dc_esk ctx) input"

definition des3_decrypt :: "des_context \<Rightarrow> byte list \<Rightarrow> byte list" where
  "des3_decrypt ctx input = des3_crypt (dc_dsk ctx) input"

section \<open>Buffers\<close>

definition xor_bytes :: "byte list \<Rightarrow> byte list \<Rightarrow> byte list" where
  "xor_bytes = map2 (\<lambda>a b. a XOR b)"

text \<open>The loops of the buffer functions; \<open>chain\<close> says whether the new block becomes the initialization vector: it does
  for DES, for triple DES the statement is commented out.  The results are the output and the vector left.\<close>

function cbc_encrypt_loop ::
    "(byte list \<Rightarrow> byte list) \<Rightarrow> bool \<Rightarrow> byte list \<Rightarrow> byte list \<Rightarrow> int \<Rightarrow> (byte list \<times> byte list) option" where
  "cbc_encrypt_loop crypt chain iv input len =
     (if len \<le> 0 then Some ([], iv)
      else if length input < 8 then None
      else let output = crypt (xor_bytes (take 8 input) iv) in
        map_option (\<lambda>(out, iv'). (output @ out, iv'))
          (cbc_encrypt_loop crypt chain (if chain then output else iv) (drop 8 input) (len - 8)))"
  by pat_completeness auto
termination by (relation "measure (\<lambda>(_, _, _, _, len). nat len)") auto

function cbc_decrypt_loop ::
    "(byte list \<Rightarrow> byte list) \<Rightarrow> bool \<Rightarrow> byte list \<Rightarrow> byte list \<Rightarrow> int \<Rightarrow> (byte list \<times> byte list) option" where
  "cbc_decrypt_loop crypt chain iv input len =
     (if len \<le> 0 then Some ([], iv)
      else if length input < 8 then None
      else let output = xor_bytes (crypt (take 8 input)) iv in
        map_option (\<lambda>(out, iv'). (output @ out, iv'))
          (cbc_decrypt_loop crypt chain (if chain then take 8 input else iv) (drop 8 input) (len - 8)))"
  by pat_completeness auto
termination by (relation "measure (\<lambda>(_, _, _, _, len). nat len)") auto

declare cbc_encrypt_loop.simps [simp del] cbc_decrypt_loop.simps [simp del]

definition my_des_cbc_encrypt ::
    "des_context \<Rightarrow> byte list \<Rightarrow> byte list \<Rightarrow> int \<Rightarrow> (byte list \<times> byte list) option" where
  "my_des_cbc_encrypt ctx iv input len = cbc_encrypt_loop (des_crypt (dc_esk ctx)) True iv input len"

definition my_des_cbc_decrypt ::
    "des_context \<Rightarrow> byte list \<Rightarrow> byte list \<Rightarrow> int \<Rightarrow> (byte list \<times> byte list) option" where
  "my_des_cbc_decrypt ctx iv input len = cbc_decrypt_loop (des_crypt (dc_dsk ctx)) True iv input len"

definition des3_cbc_encrypt ::
    "des_context \<Rightarrow> byte list \<Rightarrow> byte list \<Rightarrow> int \<Rightarrow> (byte list \<times> byte list) option" where
  "des3_cbc_encrypt ctx iv input len = cbc_encrypt_loop (des3_crypt (dc_esk ctx)) False iv input len"

definition des3_cbc_decrypt ::
    "des_context \<Rightarrow> byte list \<Rightarrow> byte list \<Rightarrow> int \<Rightarrow> (byte list \<times> byte list) option" where
  "des3_cbc_decrypt ctx iv input len = cbc_decrypt_loop (des3_crypt (dc_dsk ctx)) False iv input len"


section \<open>Text interfaces\<close>

definition des_iv :: "byte list" where
  "des_iv = replicate 8 0"

definition des3_key :: "byte list" where
  "des3_key = map of_char ''donghuaruanjianjinrongbu'' @ replicate 8 0"

text \<open>The key the caller gives, as a C string without its NUL, or the built-in one.\<close>

definition des3_use_key :: "byte list option \<Rightarrow> byte list" where
  "des3_use_key key =
     (case key of None \<Rightarrow> des3_key
      | Some k \<Rightarrow> if k = [] then des3_key else take 31 k @ replicate (32 - length (take 31 k)) 0)"

text \<open>A context on the stack; the key schedules overwrite all of it.\<close>

definition des3_ctx :: des_context where
  "des3_ctx = \<lparr>dc_esk = replicate 96 0, dc_dsk = replicate 96 0\<rparr>"

definition des3_enc :: "byte list \<Rightarrow> int \<Rightarrow> (int \<times> byte list) option" where
  "des3_enc input len =
     map_option (\<lambda>(out, iv). (0, out))
       (des3_cbc_encrypt (des3_set_3keys des3_ctx (map of_char ''asdfghjklzxcvbnmqwertyui'' @ replicate 8 0)) des_iv input len)"

definition des3_dec :: "byte list \<Rightarrow> int \<Rightarrow> (int \<times> byte list) option" where
  "des3_dec input len =
     map_option (\<lambda>(out, iv). (0, out))
       (des3_cbc_decrypt (des3_set_3keys des3_ctx (map of_char ''asdfghjklzxcvbnmqwertyui'' @ replicate 8 0)) des_iv input len)"

text \<open>The scratch buffer \<^verbatim>\<open>data\<close>: zeros with \<open>bytes\<close> stored at its start.  \<open>mem\<close> tells whether
  \<^verbatim>\<open>malloc\<close> succeeds, \<open>outp\<close> whether the output pointer is given.\<close>

definition des_data :: "int \<Rightarrow> byte list \<Rightarrow> byte list option" where
  "des_data len bytes = overwrite bytes (replicate (nat (len + 8)) 0)"

definition pub_des3_enc :: "bool \<Rightarrow> byte list option \<Rightarrow> bool \<Rightarrow> int \<Rightarrow> byte list option \<Rightarrow> (int \<times> byte list) option" where
  "pub_des3_enc mem input outp len key =
     (case input of
        None \<Rightarrow> Some (- 1, [])
      | Some src \<Rightarrow>
          if \<not> outp \<or> len \<le> 0 then Some (- 1, [])
          else if 2 ^ 31 \<le> len + 8 then None
          else if 1024 < len \<and> \<not> mem then Some (- 1, [])
          else
            let ctx = des3_set_3keys des3_ctx (des3_use_key key) in
            Option.bind (des3_cbc_encrypt ctx des_iv src len) (\<lambda>(out, iv).
            Option.bind (des_data len out) (\<lambda>data.
            let datalen = (if len mod 8 \<noteq> 0 then (len div 8 + 1) * 8 else len) in
            Option.bind (pub_code_bcdtoasc (Some data) datalen) (\<lambda>(_, text). Some (0, text)))))"

definition pub_des3_dec :: "bool \<Rightarrow> byte list option \<Rightarrow> bool \<Rightarrow> int \<Rightarrow> byte list option \<Rightarrow> (int \<times> byte list) option" where
  "pub_des3_dec mem input outp len key =
     (case input of
        None \<Rightarrow> Some (- 1, [])
      | Some src \<Rightarrow>
          if \<not> outp \<or> len \<le> 0 then Some (- 1, [])
          else
            let datalen = len div 2 in
            if 1024 < datalen \<and> \<not> mem then Some (- 1, [])
            else
              Option.bind (pub_code_asctobcd (Some src) len) (\<lambda>(_, bcd).
              Option.bind (des_data datalen bcd) (\<lambda>data.
              let ctx = des3_set_3keys des3_ctx (des3_use_key key) in
              Option.bind (des3_cbc_decrypt ctx des_iv data datalen) (\<lambda>(out, iv). Some (0, out)))))"

definition des3_set_key :: "int \<Rightarrow> byte list \<Rightarrow> des_context" where
  "des3_set_key keylen key =
     (if keylen = 16 then des3_set_2keys des3_ctx key
      else if keylen = 24 then des3_set_3keys des3_ctx key else des3_ctx)"

definition pub_des3_enc_base64 ::
    "bool \<Rightarrow> byte list option \<Rightarrow> bool \<Rightarrow> int \<Rightarrow> byte list option \<Rightarrow> int \<Rightarrow> (int \<times> byte list) option" where
  "pub_des3_enc_base64 mem input outp len key keylen =
     (case input of
        None \<Rightarrow> Some (- 1, [])
      | Some src \<Rightarrow>
          if \<not> outp \<or> len \<le> 0 \<or> keylen \<noteq> 16 \<and> keylen \<noteq> 24 then Some (- 1, [])
          else if 2 ^ 31 \<le> len + 8 then None
          else if 1024 < len \<and> \<not> mem then Some (- 1, [])
          else
            let ctx = des3_set_key keylen (des3_use_key key) in
            Option.bind (des3_cbc_encrypt ctx des_iv src len) (\<lambda>(out, iv).
            Option.bind (des_data len out) (\<lambda>data.
            let datalen = (if len mod 8 \<noteq> 0 then (len div 8 + 1) * 8 else len) in
            Option.bind (pub_code_base64_enc (Some data) datalen) (\<lambda>(_, text). Some (0, text)))))"

text \<open>The text is a C string, given without its NUL; its length is not \<^verbatim>\<open>len\<close>, which is only tested.\<close>

definition pub_des3_dec_base64 ::
    "bool \<Rightarrow> byte list option \<Rightarrow> bool \<Rightarrow> int \<Rightarrow> byte list option \<Rightarrow> int \<Rightarrow> (int \<times> byte list) option" where
  "pub_des3_dec_base64 mem input outp len key keylen =
     (case input of
        None \<Rightarrow> Some (- 1, [])
      | Some src \<Rightarrow>
          if \<not> outp \<or> len \<le> 0 \<or> keylen \<noteq> 16 \<and> keylen \<noteq> 24 then Some (- 1, [])
          else
            let room = s32 (int (length src) * 3 div 4) in
            if 1024 < room \<and> \<not> mem then Some (- 1, [])
            else
              case pub_code_base64_dec (Some src) of
                (ret, dst_len, out) \<Rightarrow>
                  if ret < 0 then Some (- 1, [])
                  else
                    Option.bind (des_data room out) (\<lambda>data.
                    let datalen = (case dst_len of None \<Rightarrow> room | Some n \<Rightarrow> n);
                        ctx = des3_set_key keylen (des3_use_key key) in
                    Option.bind (des3_cbc_decrypt ctx des_iv data datalen) (\<lambda>(out, iv). Some (0, out))))"

section \<open>Permutations are inverse\<close>

abbreviation (input) w32 :: "ulong \<Rightarrow> bool" where "w32 x \<equiv> take_bit 32 x = x"

lemma bit_small: "take_bit k x = x \<Longrightarrow> bit x n \<Longrightarrow> n < k" for x :: ulong
  by (metis bit_take_bit_iff)

lemma w32_bit: "w32 x \<longleftrightarrow> (\<forall>n. bit x n \<longrightarrow> n < 32)"
  by (metis bit_small bit_word_eqI bit_take_bit_iff)

lemma des_swap_swap:
  assumes "take_bit (32 - s) m = m" and "s \<le> 32"
  shows "des_swap s m (des_swap s m (X, Y)) = (X, Y)"
proof -
  define T where "T = (drop_bit s X XOR Y) AND m"
  have again: "(drop_bit s (X XOR push_bit s T) XOR (Y XOR T)) AND m = T"
    using bit_small [OF assms(1)] assms(2) unfolding T_def by (intro bit_word_eqI) (force simp: bit_simps)
  have "des_swap s m (X, Y) = (X XOR push_bit s T, Y XOR T)" by (simp add: des_swap_def T_def)
  moreover have "des_swap s m (X XOR push_bit s T, Y XOR T) = ((X XOR push_bit s T) XOR push_bit s T, (Y XOR T) XOR T)"
    unfolding des_swap_def Let_def by (simp only: again prod.case)
  ultimately show ?thesis by (simp add: xor.assoc)
qed

lemma des_swap_w32:
  assumes "take_bit (32 - s) m = m" and "s \<le> 32" and "w32 X" and "w32 Y"
  shows "w32 (fst (des_swap s m (X, Y)))" and "w32 (snd (des_swap s m (X, Y)))"
proof -
  have "w32 (push_bit s ((drop_bit s X XOR Y) AND m))"
    using bit_small [OF assms(1)] assms(2) unfolding w32_bit by (force simp: bit_simps)
  then show "w32 (fst (des_swap s m (X, Y)))"
    using assms(3) by (simp add: des_swap_def Let_def take_bit_xor)
  show "w32 (snd (des_swap s m (X, Y)))"
    using assms(3,4) bit_small [OF assms(1)] assms(2) unfolding w32_bit
    by (force simp: des_swap_def Let_def bit_simps)
qed

definition rol1 :: "ulong \<Rightarrow> ulong" where "rol1 X = (push_bit 1 X OR drop_bit 31 X) AND 0xFFFFFFFF"
definition ror1 :: "ulong \<Rightarrow> ulong" where "ror1 X = (push_bit 31 X OR drop_bit 1 X) AND 0xFFFFFFFF"

lemma ones32: "(0xFFFFFFFF :: ulong) = mask 32"
  by (simp add: mask_eq_exp_minus_1)

lemma bit_rol1: "w32 X \<Longrightarrow> bit (rol1 X) n = (n < 32 \<and> (if n = 0 then bit X 31 else bit X (n - 1)))"
  unfolding rol1_def ones32 bit_and_iff bit_or_iff bit_push_bit_iff bit_drop_bit_eq bit_mask_iff
  by (auto simp: w32_bit)

lemma bit_ror1: "w32 X \<Longrightarrow> bit (ror1 X) n = (n < 32 \<and> (if n = 31 then bit X 0 else bit X (n + 1)))"
  unfolding ror1_def ones32 bit_and_iff bit_or_iff bit_push_bit_iff bit_drop_bit_eq bit_mask_iff
  by (auto simp: w32_bit)

lemma rot_w32: "w32 (rol1 X)" "w32 (ror1 X)"
  unfolding rol1_def ror1_def ones32 by (simp_all add: take_bit_eq_mask [symmetric])

lemma rot_inverse:
  assumes "w32 X"
  shows "rol1 (ror1 X) = X" and "ror1 (rol1 X) = X"
proof -
  have le: "bit X n \<Longrightarrow> n < 32" for n using assms by (simp add: w32_bit)
  show "rol1 (ror1 X) = X"
  proof (rule bit_word_eqI)
    fix n show "bit (rol1 (ror1 X)) n = bit X n"
      using le [of n] by (cases n) (auto simp: bit_rol1 [OF rot_w32(2)] bit_ror1 [OF assms])
  qed
  show "ror1 (rol1 X) = X"
  proof (rule bit_word_eqI)
    fix n show "bit (ror1 (rol1 X)) n = bit X n"
      using le [of n] by (auto simp: bit_ror1 [OF rot_w32(1)] bit_rol1 [OF assms])
  qed
qed


lemma des_swap_simps:
  "des_swap 4 0x0F0F0F0F (des_swap 4 0x0F0F0F0F p) = p" "des_swap 16 0x0000FFFF (des_swap 16 0x0000FFFF p) = p"
  "des_swap 2 0x33333333 (des_swap 2 0x33333333 p) = p" "des_swap 8 0x00FF00FF (des_swap 8 0x00FF00FF p) = p"
  "des_swap 0 0xAAAAAAAA (des_swap 0 0xAAAAAAAA p) = p"
  by (cases p, simp add: des_swap_swap)+

lemma DES_FP_alt:
  "DES_FP p = des_swap 4 0x0F0F0F0F (des_swap 16 0x0000FFFF (prod.swap (des_swap 2 0x33333333 (des_swap 8 0x00FF00FF
     (prod.swap (map_prod id ror1 (des_swap 0 0xAAAAAAAA (map_prod ror1 id p))))))))"
  by (simp add: DES_FP_def ror1_def Let_def split: prod.splits)

lemma DES_IP_alt:
  "DES_IP p = map_prod rol1 id (des_swap 0 0xAAAAAAAA (map_prod id rol1 (prod.swap (des_swap 8 0x00FF00FF
     (des_swap 2 0x33333333 (prod.swap (des_swap 16 0x0000FFFF (des_swap 4 0x0F0F0F0F p))))))))"
  by (simp add: DES_IP_def rol1_def Let_def split: prod.splits)

abbreviation (input) w32s :: "ulong \<times> ulong \<Rightarrow> bool" where "w32s p \<equiv> w32 (fst p) \<and> w32 (snd p)"

lemma swap_w32s:
  "w32s p \<Longrightarrow> w32s (des_swap 4 0x0F0F0F0F p)" "w32s p \<Longrightarrow> w32s (des_swap 16 0x0000FFFF p)"
  "w32s p \<Longrightarrow> w32s (des_swap 2 0x33333333 p)" "w32s p \<Longrightarrow> w32s (des_swap 8 0x00FF00FF p)"
  "w32s p \<Longrightarrow> w32s (des_swap 0 0xAAAAAAAA p)"
  by (cases p, simp add: des_swap_w32)+

lemma rot_pair:
  "w32s p \<Longrightarrow> map_prod rol1 id (map_prod ror1 id p) = p" "w32s p \<Longrightarrow> map_prod id rol1 (map_prod id ror1 p) = p"
  "w32s p \<Longrightarrow> map_prod ror1 id (map_prod rol1 id p) = p" "w32s p \<Longrightarrow> map_prod id ror1 (map_prod id rol1 p) = p"
  "w32s p \<Longrightarrow> w32s (map_prod rol1 id p)" "w32s p \<Longrightarrow> w32s (map_prod ror1 id p)"
  "w32s p \<Longrightarrow> w32s (map_prod id rol1 p)" "w32s p \<Longrightarrow> w32s (map_prod id ror1 p)"
  "w32s p \<Longrightarrow> w32s (prod.swap p)"
  by (cases p, simp add: rot_inverse rot_w32)+

lemma permutations_inverse:
  assumes "w32s p"
  shows "DES_FP (DES_IP p) = p" and "DES_IP (DES_FP p) = p"
  unfolding DES_FP_alt DES_IP_alt
   by (simp_all only: assms rot_pair swap_w32s des_swap_simps swap_swap)

lemma permutations_w32:
  assumes "w32s p"
  shows "w32s (DES_FP p)" and "w32s (DES_IP p)"
  unfolding DES_FP_alt DES_IP_alt by (intro swap_w32s rot_pair assms)+


section \<open>Rounds backwards\<close>

lemma table_w32:
  "list_all (\<lambda>x. take_bit 32 x = x) SB1" "list_all (\<lambda>x. take_bit 32 x = x) SB2"
  "list_all (\<lambda>x. take_bit 32 x = x) SB3" "list_all (\<lambda>x. take_bit 32 x = x) SB4"
  "list_all (\<lambda>x. take_bit 32 x = x) SB5" "list_all (\<lambda>x. take_bit 32 x = x) SB6"
  "list_all (\<lambda>x. take_bit 32 x = x) SB7" "list_all (\<lambda>x. take_bit 32 x = x) SB8"
  by (simp add: SB1_def, simp add: SB2_def, simp add: SB3_def, simp add: SB4_def, simp add: SB5_def, simp add: SB6_def,
      simp add: SB7_def, simp add: SB8_def)

lemma sbox_index: "unat (i AND 0x3F) < 64" for i :: ulong
proof -
  have "(0x3F :: ulong) = mask 6" by (simp add: mask_eq_exp_minus_1)
  then have "unat (i AND 0x3F) = take_bit 6 (unat i)" by (simp only: take_bit_eq_mask [symmetric] unsigned_take_bit_eq)
  then show ?thesis by (simp add: take_bit_nat_def)
qed

lemma sbox_w32: "list_all (\<lambda>x. take_bit 32 x = x) SB \<Longrightarrow> length SB = 64 \<Longrightarrow> w32 (sbox SB i)"
  by (simp add: sbox_def list_all_length sbox_index)

lemma des_f_w32: "w32 (des_f k1 k2 X)"
proof -
  have "w32 (sbox SB1 i)" "w32 (sbox SB2 i)" "w32 (sbox SB3 i)" "w32 (sbox SB4 i)"
    "w32 (sbox SB5 i)" "w32 (sbox SB6 i)" "w32 (sbox SB7 i)" "w32 (sbox SB8 i)" for i
    by (rule sbox_w32 [OF table_w32(1)], simp add: SB1_def, rule sbox_w32 [OF table_w32(2)], simp add: SB2_def,
        rule sbox_w32 [OF table_w32(3)], simp add: SB3_def, rule sbox_w32 [OF table_w32(4)], simp add: SB4_def,
        rule sbox_w32 [OF table_w32(5)], simp add: SB5_def, rule sbox_w32 [OF table_w32(6)], simp add: SB6_def,
        rule sbox_w32 [OF table_w32(7)], simp add: SB7_def, rule sbox_w32 [OF table_w32(8)], simp add: SB8_def)
  then show ?thesis by (simp add: des_f_def Let_def take_bit_xor)
qed

text \<open>One round on the halves \<open>(L, R)\<close>, and the subkeys in pairs.\<close>

definition feistel :: "ulong \<times> ulong \<Rightarrow> ulong \<times> ulong \<Rightarrow> ulong \<times> ulong" where
  "feistel = (\<lambda>(L, R) (a, b). (R, L XOR des_f a b R))"

fun key_pairs :: "ulong list \<Rightarrow> (ulong \<times> ulong) list" where
  "key_pairs (a # b # SK) = (a, b) # key_pairs SK"
| "key_pairs SK = []"

lemma des_rounds_feistel: "length SK mod 4 = 0 \<Longrightarrow> des_rounds SK p = foldl feistel p (key_pairs SK)"
proof (induction SK p rule: des_rounds.induct)
  case (1 k1 k2 k3 k4 SK X Y)
  then have "length SK mod 4 = 0" by simp
  with 1 show ?case by (simp add: feistel_def Let_def)
qed simp_all

lemma feistel_back: "feistel (prod.swap (feistel p k)) k = prod.swap p"
  by (cases p; cases k) (simp add: feistel_def xor.assoc)

lemma feistel_inverse: "foldl feistel (prod.swap (foldl feistel p ks)) (rev ks) = prod.swap p"
proof (induction ks arbitrary: p)
  case (Cons k ks)
  from Cons [of "feistel p k"] have "foldl feistel (prod.swap (foldl feistel p (k # ks))) (rev (k # ks)) =
      feistel (prod.swap (feistel p k)) k" by simp
  then show ?case by (simp add: feistel_back)
qed simp

lemma feistel_w32: "w32s p \<Longrightarrow> w32s (foldl feistel p ks)"
proof (induction ks arbitrary: p)
  case (Cons k ks)
  have "w32s (feistel p k)"
    using Cons.prems by (cases p; cases k) (simp add: feistel_def take_bit_xor des_f_w32)
  then show ?case using Cons.IH by simp
qed simp


section \<open>Blocks\<close>

text \<open>Both block functions without the byte order: the halves in, the halves out.\<close>

definition block_words :: "byte list \<Rightarrow> ulong \<times> ulong" where
  "block_words input = (GET_UINT32_BE input 0, GET_UINT32_BE input 4)"

definition block_bytes :: "ulong \<times> ulong \<Rightarrow> byte list" where
  "block_bytes = (\<lambda>(Y, X). PUT_UINT32_BE Y @ PUT_UINT32_BE X)"

lemma get_w32: "w32 (GET_UINT32_BE b i)"
proof -
  have "bit (ucast (x :: byte) :: ulong) n \<Longrightarrow> n < 8" for x n
    by (auto simp: bit_ucast_iff dest: bit_imp_le_length)
  then show ?thesis
    unfolding w32_bit GET_UINT32_BE_def bit_or_iff bit_push_bit_iff by fastforce
qed

lemma bit_byte_high: "8 \<le> n \<Longrightarrow> \<not> bit (x :: byte) n"
  by (auto dest: bit_imp_le_length)

lemma word_put_get:
  assumes "length b = 8"
  shows "block_bytes (block_words b) = b"
proof -
  from assms obtain b0 b1 b2 b3 b4 b5 b6 b7 where b: "b = [b0, b1, b2, b3, b4, b5, b6, b7]"
    by (auto simp: numeral_eq_Suc length_Suc_conv)
  have "PUT_UINT32_BE (push_bit 24 (ucast w) OR push_bit 16 (ucast x) OR push_bit 8 (ucast y) OR ucast z) = [w, x, y, z]"
    for w x y z :: byte
    unfolding PUT_UINT32_BE_def
    by (auto intro!: bit_word_eqI simp: bit_ucast_iff bit_or_iff bit_push_bit_iff bit_drop_bit_eq bit_byte_high)
  then show ?thesis by (simp add: block_bytes_def block_words_def GET_UINT32_BE_def b)
qed

lemma word_get_put:
  assumes "w32s p"
  shows "block_words (block_bytes p) = p"
proof -
  have "push_bit 24 (ucast (ucast (drop_bit 24 n) :: byte)) OR push_bit 16 (ucast (ucast (drop_bit 16 n) :: byte)) OR
      push_bit 8 (ucast (ucast (drop_bit 8 n) :: byte)) OR ucast (ucast n :: byte) = n" (is "?l = n") if "w32 n" for n :: ulong
  proof (rule bit_word_eqI)
    fix k
    have le: "bit n k \<Longrightarrow> k < 32" using that by (simp add: w32_bit)
    consider "k < 8" | "8 \<le> k \<and> k < 16" | "16 \<le> k \<and> k < 24" | "24 \<le> k" by linarith
    then show "bit ?l k = bit n k"
      using le
      by cases (auto simp: bit_ucast_iff bit_or_iff bit_push_bit_iff bit_drop_bit_eq dest: bit_imp_le_length)
  qed
  with assms show ?thesis
    by (cases p) (simp add: block_bytes_def block_words_def GET_UINT32_BE_def PUT_UINT32_BE_def)
qed

lemma bytes_length: "length (block_bytes p) = 8"
  by (cases p) (simp add: block_bytes_def PUT_UINT32_BE_def)

lemma words_w32: "w32s (block_words b)"
  by (simp add: block_words_def get_w32)

lemma des_crypt_alt:
  "length SK = 32 \<Longrightarrow> des_crypt SK input =
     block_bytes (DES_FP (prod.swap (foldl feistel (DES_IP (block_words input)) (key_pairs SK))))"
  by (simp add: des_crypt_def des_rounds_feistel [symmetric] block_words_def block_bytes_def Let_def split: prod.splits)

lemma des3_crypt_alt:
  assumes "length SK1 = 32" and "length SK2 = 32" and "length SK3 = 32"
  shows "des3_crypt (SK1 @ SK2 @ SK3) input =
     block_bytes (DES_FP (prod.swap (foldl feistel (prod.swap (foldl feistel (prod.swap
       (foldl feistel (DES_IP (block_words input)) (key_pairs SK1))) (key_pairs SK2))) (key_pairs SK3))))"
  using assms
  by (simp add: des3_crypt_def des_rounds_feistel [symmetric] block_words_def block_bytes_def Let_def split: prod.splits)

text \<open>One block function, for any list of subkeys.\<close>

definition des_core :: "(ulong \<times> ulong) list \<Rightarrow> ulong \<times> ulong \<Rightarrow> ulong \<times> ulong" where
  "des_core ks p = prod.swap (foldl feistel p ks)"

lemma des_core_inverse: "des_core (rev ks) (des_core ks p) = p"
  by (simp add: des_core_def feistel_inverse)

lemma des_core_w32: "w32s p \<Longrightarrow> w32s (des_core ks p)"
  unfolding des_core_def by (rule rot_pair) (rule feistel_w32)

lemma des_inverse:
  assumes "length e = 32" and "length d = 32" and "key_pairs d = rev (key_pairs e)" and "length b = 8"
  shows "des_crypt d (des_crypt e b) = b"
  using assms
  by (simp add: des_crypt_alt des_core_def [symmetric] word_get_put permutations_w32 permutations_inverse des_core_w32 words_w32
      des_core_inverse word_put_get)

lemma des3_inverse:
  assumes "length e1 = 32" "length e2 = 32" "length e3 = 32" "length d1 = 32" "length d2 = 32" "length d3 = 32"
    and "key_pairs d1 = rev (key_pairs e3)" "key_pairs d2 = rev (key_pairs e2)" "key_pairs d3 = rev (key_pairs e1)"
    and "length b = 8"
  shows "des3_crypt (d1 @ d2 @ d3) (des3_crypt (e1 @ e2 @ e3) b) = b"
  using assms
  by (simp add: des3_crypt_alt des_core_def [symmetric] word_get_put permutations_w32 permutations_inverse des_core_w32 words_w32
      des_core_inverse word_put_get)


section \<open>Key schedules\<close>

lemma subkeys_length [simp]: "length (des_subkeys n i X Y) = 2 * n"
  by (induction n i X Y rule: des_subkeys.induct) (simp_all add: Let_def)

lemma main_ks_length [simp]: "length (des_main_ks key) = 32"
  by (simp add: des_main_ks_def Let_def split: prod.splits)

lemma key_pairs_length: "length (key_pairs l) = length l div 2"
  by (induction l rule: key_pairs.induct) simp_all

lemma key_pairs_nth: "2 * j + 1 < length l \<Longrightarrow> key_pairs l ! j = (l ! (2 * j), l ! (2 * j + 1))"
proof (induction l arbitrary: j rule: key_pairs.induct)
  case (1 a b l)
  then show ?case by (cases j) simp_all
qed simp_all

text \<open>Two runs of 32 subkeys, one in the order of use of the other backwards.\<close>

lemma key_pairs_rev:
  assumes "length d = 32" and "length e = 32"
    and "\<And>j. j < 16 \<Longrightarrow> d ! (2 * j) = e ! (30 - 2 * j) \<and> d ! (2 * j + 1) = e ! (31 - 2 * j)"
  shows "key_pairs d = rev (key_pairs e)"
proof (rule nth_equalityI)
  fix j assume "j < length (key_pairs d)"
  then have j: "j < 16" using assms(1) by (simp add: key_pairs_length)
  then have "2 * (15 - j) = 30 - 2 * j" "2 * (15 - j) + 1 = 31 - 2 * j" by auto
  then show "key_pairs d ! j = rev (key_pairs e) ! j"
    using j assms by (simp add: key_pairs_nth key_pairs_length rev_nth)
qed (use assms in \<open>simp add: key_pairs_length\<close>)

text \<open>A context whose arrays have their length.\<close>

definition ctx_size :: "nat \<Rightarrow> des_context \<Rightarrow> bool" where
  "ctx_size n ctx \<longleftrightarrow> length (dc_esk ctx) = n \<and> length (dc_dsk ctx) = n"

lemma set_key_spec:
  assumes "ctx_size 32 ctx"
  shows "dc_esk (my_des_set_key ctx key) = des_main_ks key \<and> length (dc_dsk (my_des_set_key ctx key)) = 32 \<and>
    (\<forall>j < 16. dc_dsk (my_des_set_key ctx key) ! (2 * j) = des_main_ks key ! (30 - 2 * j) \<and>
      dc_dsk (my_des_set_key ctx key) ! (2 * j + 1) = des_main_ks key ! (31 - 2 * j))"
proof -
  let ?step = "\<lambda>ctx j. let i = 2 * j in
         ctx\<lparr>dc_dsk := (dc_dsk ctx)[i := dc_esk ctx ! (30 - i), i + 1 := dc_esk ctx ! (31 - i)]\<rparr>"
  let ?c = "\<lambda>n. foldl ?step (ctx\<lparr>dc_esk := des_main_ks key\<rparr>) [0..<n]"
  have "dc_esk (?c n) = des_main_ks key \<and> length (dc_dsk (?c n)) = 32 \<and>
    (\<forall>j < n. dc_dsk (?c n) ! (2 * j) = des_main_ks key ! (30 - 2 * j) \<and>
      dc_dsk (?c n) ! (2 * j + 1) = des_main_ks key ! (31 - 2 * j))" if "n \<le> 16" for n
    using that
  proof (induction n)
    case 0
    then show ?case using assms by (simp add: ctx_size_def)
  next
    case (Suc n)
    then show ?case by (auto simp: Let_def nth_list_update less_Suc_eq)
  qed
  from this [of 16] show ?thesis by (simp add: my_des_set_key_def)
qed


text \<open>The contexts of the triple DES key loops after \<open>n\<close> turns.\<close>

definition keys2 :: "ulong list \<Rightarrow> ulong list \<Rightarrow> nat \<Rightarrow> des_context \<Rightarrow> bool" where
  "keys2 a b n c \<longleftrightarrow> ctx_size 96 c \<and> (\<forall>k < 32. dc_esk c ! k = a ! k \<and> dc_dsk c ! (k + 32) = b ! k) \<and>
    (\<forall>j < n. dc_dsk c ! (2 * j) = a ! (30 - 2 * j) \<and> dc_dsk c ! (2 * j + 1) = a ! (31 - 2 * j) \<and>
      dc_esk c ! (2 * j + 32) = b ! (30 - 2 * j) \<and> dc_esk c ! (2 * j + 33) = b ! (31 - 2 * j) \<and>
      dc_esk c ! (2 * j + 64) = a ! (2 * j) \<and> dc_esk c ! (2 * j + 65) = a ! (2 * j + 1) \<and>
      dc_dsk c ! (2 * j + 64) = a ! (30 - 2 * j) \<and> dc_dsk c ! (2 * j + 65) = a ! (31 - 2 * j))"

definition keys3 :: "ulong list \<Rightarrow> ulong list \<Rightarrow> ulong list \<Rightarrow> nat \<Rightarrow> des_context \<Rightarrow> bool" where
  "keys3 a b d n c \<longleftrightarrow> ctx_size 96 c \<and>
    (\<forall>k < 32. dc_esk c ! k = a ! k \<and> dc_dsk c ! (k + 32) = b ! k \<and> dc_esk c ! (k + 64) = d ! k) \<and>
    (\<forall>j < n. dc_dsk c ! (2 * j) = d ! (30 - 2 * j) \<and> dc_dsk c ! (2 * j + 1) = d ! (31 - 2 * j) \<and>
      dc_esk c ! (2 * j + 32) = b ! (30 - 2 * j) \<and> dc_esk c ! (2 * j + 33) = b ! (31 - 2 * j) \<and>
      dc_dsk c ! (2 * j + 64) = a ! (30 - 2 * j) \<and> dc_dsk c ! (2 * j + 65) = a ! (31 - 2 * j))"

lemma turn_indices:
  assumes "n < 16"
  shows "(30 - 2 * n) + 32 = 62 - 2 * n" "(31 - 2 * n) + 32 = 63 - 2 * n" "(30 - 2 * n) + 64 = 94 - 2 * n"
    "(31 - 2 * n) + 64 = 95 - 2 * n" "30 - 2 * n < 32" "31 - 2 * n < (32 :: nat)"
  using assms by auto

lemma loop_upto: "P 0 c \<Longrightarrow> (\<And>n c. n < m \<Longrightarrow> P n c \<Longrightarrow> P (Suc n) (step c n)) \<Longrightarrow> P m (foldl step c [0..<m])"
proof -
  assume "P 0 c" and step: "\<And>n c. n < m \<Longrightarrow> P n c \<Longrightarrow> P (Suc n) (step c n)"
  then have "k \<le> m \<Longrightarrow> P k (foldl step c [0..<k])" for k by (induction k) simp_all
  then show ?thesis by simp
qed

lemma set_2keys_spec:
  assumes "ctx_size 96 ctx"
  shows "keys2 (des_main_ks (take 8 key)) (des_main_ks (take 8 (drop 8 key))) 16 (des3_set_2keys ctx key)"
  unfolding des3_set_2keys_def
proof (rule loop_upto)
  fix n c
  assume n: "n < 16" and k: "keys2 (des_main_ks (take 8 key)) (des_main_ks (take 8 (drop 8 key))) n c"
  let ?a = "des_main_ks (take 8 key)" and ?b = "des_main_ks (take 8 (drop 8 key))"
  have "dc_dsk c ! (62 - 2 * n) = ?b ! (30 - 2 * n)" "dc_dsk c ! (63 - 2 * n) = ?b ! (31 - 2 * n)"
    using k turn_indices [OF n] unfolding keys2_def by metis+
  with k n show "keys2 ?a ?b (Suc n)
      (let i = 2 * n;
           ctx = c\<lparr>dc_dsk := (dc_dsk c)[i := dc_esk c ! (30 - i), i + 1 := dc_esk c ! (31 - i)]\<rparr>;
           ctx = ctx\<lparr>dc_esk := (dc_esk ctx)[i + 32 := dc_dsk ctx ! (62 - i), i + 33 := dc_dsk ctx ! (63 - i)]\<rparr>;
           ctx = ctx\<lparr>dc_esk := (dc_esk ctx)[i + 64 := dc_esk ctx ! i, i + 65 := dc_esk ctx ! (1 + i)]\<rparr> in
         ctx\<lparr>dc_dsk := (dc_dsk ctx)[i + 64 := dc_dsk ctx ! i, i + 65 := dc_dsk ctx ! (1 + i)]\<rparr>)"
    by (auto simp: keys2_def ctx_size_def Let_def nth_list_update less_Suc_eq)
qed (use assms in \<open>simp add: keys2_def ctx_size_def nth_append\<close>)

lemma set_3keys_spec:
  assumes "ctx_size 96 ctx"
  shows "keys3 (des_main_ks (take 8 key)) (des_main_ks (take 8 (drop 8 key))) (des_main_ks (take 8 (drop 16 key))) 16
    (des3_set_3keys ctx key)"
  unfolding des3_set_3keys_def
proof (rule loop_upto [where P = "keys3 (des_main_ks (take 8 key)) (des_main_ks (take 8 (drop 8 key)))
    (des_main_ks (take 8 (drop 16 key)))"])
  let ?a = "des_main_ks (take 8 key)" and ?b = "des_main_ks (take 8 (drop 8 key))"
    and ?d = "des_main_ks (take 8 (drop 16 key))"
  fix n c
  assume n: "n < 16" and k: "keys3 ?a ?b ?d n c"
  have "dc_dsk c ! (62 - 2 * n) = ?b ! (30 - 2 * n)" "dc_dsk c ! (63 - 2 * n) = ?b ! (31 - 2 * n)"
    "dc_esk c ! (94 - 2 * n) = ?d ! (30 - 2 * n)" "dc_esk c ! (95 - 2 * n) = ?d ! (31 - 2 * n)"
    using k turn_indices [OF n] unfolding keys3_def by metis+
  with k n show "keys3 ?a ?b ?d (Suc n)
      (let i = 2 * n;
           ctx = c\<lparr>dc_dsk := (dc_dsk c)[i := dc_esk c ! (94 - i), i + 1 := dc_esk c ! (95 - i)]\<rparr>;
           ctx = ctx\<lparr>dc_esk := (dc_esk ctx)[i + 32 := dc_dsk ctx ! (62 - i), i + 33 := dc_dsk ctx ! (63 - i)]\<rparr> in
         ctx\<lparr>dc_dsk := (dc_dsk ctx)[i + 64 := dc_esk ctx ! (30 - i), i + 65 := dc_esk ctx ! (31 - i)]\<rparr>)"
    by (auto simp: keys3_def ctx_size_def Let_def nth_list_update less_Suc_eq)
qed (use assms in \<open>simp add: keys3_def ctx_size_def nth_append\<close>)


text \<open>The three runs of subkeys of a triple DES array.\<close>

abbreviation (input) key_run :: "nat \<Rightarrow> ulong list \<Rightarrow> ulong list" where "key_run r SK \<equiv> take 32 (drop (32 * r) SK)"

definition runs_reversed :: "nat \<Rightarrow> ulong list \<Rightarrow> nat \<Rightarrow> ulong list \<Rightarrow> bool" where
  "runs_reversed r d q e \<longleftrightarrow> (\<forall>j < 16. d ! (2 * j + 32 * r) = e ! (30 - 2 * j + 32 * q) \<and>
     d ! (2 * j + 1 + 32 * r) = e ! (31 - 2 * j + 32 * q))"

lemma reversed_runs:
  assumes "length d = 96" "length e = 96" "r < 3" "q < 3" "runs_reversed r d q e"
  shows "key_pairs (key_run r d) = rev (key_pairs (key_run q e))"
proof (rule key_pairs_rev)
  fix j :: nat assume "j < 16"
  then show "key_run r d ! (2 * j) = key_run q e ! (30 - 2 * j) \<and> key_run r d ! (2 * j + 1) = key_run q e ! (31 - 2 * j)"
    using assms by (simp add: runs_reversed_def add.commute)
qed (use assms in simp_all)

lemma des3_inverse_runs:
  assumes "length d = 96" "length e = 96" "runs_reversed 0 d 2 e" "runs_reversed 1 d 1 e" "runs_reversed 2 d 0 e" "length b = 8"
  shows "des3_crypt d (des3_crypt e b) = b"
proof -
  have split: "SK = key_run 0 SK @ key_run 1 SK @ key_run 2 SK" if "length SK = 96" for SK :: "ulong list"
  proof -
    have "SK = take 32 SK @ take 32 (drop 32 SK) @ drop 32 (drop 32 SK)" by (simp del: drop_drop)
    then show ?thesis using that by simp
  qed
  have "key_pairs (key_run 0 d) = rev (key_pairs (key_run 2 e))" "key_pairs (key_run 1 d) = rev (key_pairs (key_run 1 e))"
    "key_pairs (key_run 2 d) = rev (key_pairs (key_run 0 e))"
    using assms by (intro reversed_runs; simp)+
  then have "des3_crypt (key_run 0 d @ key_run 1 d @ key_run 2 d) (des3_crypt (key_run 0 e @ key_run 1 e @ key_run 2 e) b) = b"
    using assms by (intro des3_inverse) simp_all
  then show ?thesis using split [OF assms(1)] split [OF assms(2)] by simp
qed

lemma set_key_inverse:
  assumes "ctx_size 32 ctx" and "length b = 8"
  shows "des_decrypt (my_des_set_key ctx key) (des_encrypt (my_des_set_key ctx key) b) = b"
proof -
  from set_key_spec [OF assms(1), of key] have "key_pairs (dc_dsk (my_des_set_key ctx key)) = rev (key_pairs (des_main_ks key))"
    by (intro key_pairs_rev) simp_all
  with set_key_spec [OF assms(1), of key] assms(2) show ?thesis
    by (simp add: des_encrypt_def des_decrypt_def des_inverse)
qed

lemma reversedI:
  assumes "\<And>j j'. j < 16 \<Longrightarrow> 2 * j' = 30 - 2 * j \<Longrightarrow> 2 * j' + 1 = 31 - 2 * j \<Longrightarrow> 30 - 2 * j' = 2 * j \<Longrightarrow>
    31 - 2 * j' = 2 * j + 1 \<Longrightarrow> j' < 16 \<Longrightarrow>
    d ! (2 * j + 32 * r) = e ! (2 * j' + 32 * q) \<and> d ! (2 * j + 1 + 32 * r) = e ! (2 * j' + 1 + 32 * q)"
  shows "runs_reversed r d q e"
proof -
  have "2 * (15 - j) = 30 - 2 * j \<and> 2 * (15 - j) + 1 = 31 - 2 * j \<and> 30 - 2 * (15 - j) = 2 * j \<and>
      31 - 2 * (15 - j) = 2 * j + 1 \<and> 15 - j < 16" if "j < 16" for j :: nat
    using that by auto
  with assms show ?thesis unfolding runs_reversed_def by metis
qed

lemma keys2_inverse:
  assumes "keys2 a b 16 c" and "length x = 8"
  shows "des3_decrypt c (des3_encrypt c x) = x"
proof -
  have k:
    "dc_dsk c ! (2 * j) = a ! (30 - 2 * j)" "dc_dsk c ! (2 * j + 1) = a ! (31 - 2 * j)"
    "dc_dsk c ! (2 * j + 32) = b ! (2 * j)" "dc_dsk c ! (2 * j + 33) = b ! (2 * j + 1)"
    "dc_esk c ! (2 * j) = a ! (2 * j)" "dc_esk c ! (2 * j + 1) = a ! (2 * j + 1)"
    "dc_esk c ! (2 * j + 32) = b ! (30 - 2 * j)" "dc_esk c ! (2 * j + 33) = b ! (31 - 2 * j)"
    "dc_esk c ! (2 * j + 64) = a ! (2 * j)" "dc_esk c ! (2 * j + 65) = a ! (2 * j + 1)"
    "dc_dsk c ! (2 * j + 64) = a ! (30 - 2 * j)" "dc_dsk c ! (2 * j + 65) = a ! (31 - 2 * j)"
    if "j < 16" for j
    using that assms(1) [unfolded keys2_def, THEN conjunct2, THEN conjunct1, THEN spec, of "2 * j + 1"]
      assms(1) [unfolded keys2_def, THEN conjunct2, THEN conjunct1, THEN spec, of "2 * j"]
      assms(1) [unfolded keys2_def, THEN conjunct2, THEN conjunct2]
    by (simp_all add: add.commute)
  have "length (dc_dsk c) = 96" "length (dc_esk c) = 96" using assms(1) by (simp_all add: keys2_def ctx_size_def)
  moreover have "runs_reversed 0 (dc_dsk c) 2 (dc_esk c)"
  proof (rule reversedI)
    fix j j' :: nat
    assume "j < 16" "2 * j' = 30 - 2 * j" "2 * j' + 1 = 31 - 2 * j" "30 - 2 * j' = 2 * j" "31 - 2 * j' = 2 * j + 1" "j' < 16"
    with k [of j] k [of j'] show "dc_dsk c ! (2 * j + 32 * 0) = dc_esk c ! (2 * j' + 32 * 2) \<and>
      dc_dsk c ! (2 * j + 1 + 32 * 0) = dc_esk c ! (2 * j' + 1 + 32 * 2)" by (simp add: add.assoc add.commute [of 33] add.commute [of 65])
  qed
  moreover have "runs_reversed 1 (dc_dsk c) 1 (dc_esk c)"
  proof (rule reversedI)
    fix j j' :: nat
    assume "j < 16" "2 * j' = 30 - 2 * j" "2 * j' + 1 = 31 - 2 * j" "30 - 2 * j' = 2 * j" "31 - 2 * j' = 2 * j + 1" "j' < 16"
    with k [of j] k [of j'] show "dc_dsk c ! (2 * j + 32 * 1) = dc_esk c ! (2 * j' + 32 * 1) \<and>
      dc_dsk c ! (2 * j + 1 + 32 * 1) = dc_esk c ! (2 * j' + 1 + 32 * 1)" by (simp add: add.assoc add.commute [of 33] add.commute [of 65])
  qed
  moreover have "runs_reversed 2 (dc_dsk c) 0 (dc_esk c)"
  proof (rule reversedI)
    fix j j' :: nat
    assume "j < 16" "2 * j' = 30 - 2 * j" "2 * j' + 1 = 31 - 2 * j" "30 - 2 * j' = 2 * j" "31 - 2 * j' = 2 * j + 1" "j' < 16"
    with k [of j] k [of j'] show "dc_dsk c ! (2 * j + 32 * 2) = dc_esk c ! (2 * j' + 32 * 0) \<and>
      dc_dsk c ! (2 * j + 1 + 32 * 2) = dc_esk c ! (2 * j' + 1 + 32 * 0)" by (simp add: add.assoc add.commute [of 33] add.commute [of 65])
  qed
  ultimately show ?thesis using assms(2) by (simp add: des3_encrypt_def des3_decrypt_def des3_inverse_runs)
qed

lemma keys3_inverse:
  assumes "keys3 a b d 16 c" and "length x = 8"
  shows "des3_decrypt c (des3_encrypt c x) = x"
proof -
  have k:
    "dc_dsk c ! (2 * j) = d ! (30 - 2 * j)" "dc_dsk c ! (2 * j + 1) = d ! (31 - 2 * j)"
    "dc_dsk c ! (2 * j + 32) = b ! (2 * j)" "dc_dsk c ! (2 * j + 33) = b ! (2 * j + 1)"
    "dc_esk c ! (2 * j) = a ! (2 * j)" "dc_esk c ! (2 * j + 1) = a ! (2 * j + 1)"
    "dc_esk c ! (2 * j + 32) = b ! (30 - 2 * j)" "dc_esk c ! (2 * j + 33) = b ! (31 - 2 * j)"
    "dc_esk c ! (2 * j + 64) = d ! (2 * j)" "dc_esk c ! (2 * j + 65) = d ! (2 * j + 1)"
    "dc_dsk c ! (2 * j + 64) = a ! (30 - 2 * j)" "dc_dsk c ! (2 * j + 65) = a ! (31 - 2 * j)"
    if "j < 16" for j
    using that assms(1) [unfolded keys3_def, THEN conjunct2, THEN conjunct1, THEN spec, of "2 * j + 1"]
      assms(1) [unfolded keys3_def, THEN conjunct2, THEN conjunct1, THEN spec, of "2 * j"]
      assms(1) [unfolded keys3_def, THEN conjunct2, THEN conjunct2]
    by (simp_all add: add.commute)
  have "length (dc_dsk c) = 96" "length (dc_esk c) = 96" using assms(1) by (simp_all add: keys3_def ctx_size_def)
  moreover have "runs_reversed 0 (dc_dsk c) 2 (dc_esk c)"
  proof (rule reversedI)
    fix j j' :: nat
    assume "j < 16" "2 * j' = 30 - 2 * j" "2 * j' + 1 = 31 - 2 * j" "30 - 2 * j' = 2 * j" "31 - 2 * j' = 2 * j + 1" "j' < 16"
    with k [of j] k [of j'] show "dc_dsk c ! (2 * j + 32 * 0) = dc_esk c ! (2 * j' + 32 * 2) \<and>
      dc_dsk c ! (2 * j + 1 + 32 * 0) = dc_esk c ! (2 * j' + 1 + 32 * 2)" by (simp add: add.assoc add.commute [of 33] add.commute [of 65])
  qed
  moreover have "runs_reversed 1 (dc_dsk c) 1 (dc_esk c)"
  proof (rule reversedI)
    fix j j' :: nat
    assume "j < 16" "2 * j' = 30 - 2 * j" "2 * j' + 1 = 31 - 2 * j" "30 - 2 * j' = 2 * j" "31 - 2 * j' = 2 * j + 1" "j' < 16"
    with k [of j] k [of j'] show "dc_dsk c ! (2 * j + 32 * 1) = dc_esk c ! (2 * j' + 32 * 1) \<and>
      dc_dsk c ! (2 * j + 1 + 32 * 1) = dc_esk c ! (2 * j' + 1 + 32 * 1)" by (simp add: add.assoc add.commute [of 33] add.commute [of 65])
  qed
  moreover have "runs_reversed 2 (dc_dsk c) 0 (dc_esk c)"
  proof (rule reversedI)
    fix j j' :: nat
    assume "j < 16" "2 * j' = 30 - 2 * j" "2 * j' + 1 = 31 - 2 * j" "30 - 2 * j' = 2 * j" "31 - 2 * j' = 2 * j + 1" "j' < 16"
    with k [of j] k [of j'] show "dc_dsk c ! (2 * j + 32 * 2) = dc_esk c ! (2 * j' + 32 * 0) \<and>
      dc_dsk c ! (2 * j + 1 + 32 * 2) = dc_esk c ! (2 * j' + 1 + 32 * 0)" by (simp add: add.assoc add.commute [of 33] add.commute [of 65])
  qed
  ultimately show ?thesis using assms(2) by (simp add: des3_encrypt_def des3_decrypt_def des3_inverse_runs)
qed


section \<open>Buffers\<close>

lemma xor_bytes_twice: "length a = length b \<Longrightarrow> xor_bytes (xor_bytes a b) b = a"
  by (induction a b rule: list_induct2) (simp_all add: xor_bytes_def xor.assoc)

lemma xor_bytes_length [simp]: "length (xor_bytes a b) = min (length a) (length b)"
  by (simp add: xor_bytes_def)

text \<open>The interface of a block cipher; the buffer functions are proved over it.\<close>

locale block_cipher =
  fixes enc dec :: "byte list \<Rightarrow> byte list"
  assumes enc_length: "length b = 8 \<Longrightarrow> length (enc b) = 8"
    and dec_enc: "length b = 8 \<Longrightarrow> dec (enc b) = b"
begin

lemma cbc_roundtrip:
  assumes "8 * int n - 8 < len" "len \<le> 8 * int n" "8 * int n - 8 < len'" "len' \<le> 8 * int n"
    and "8 * n \<le> length input" and "length iv = 8"
  shows "\<exists>out iv'. cbc_encrypt_loop enc chain iv input len = Some (out, iv') \<and> length out = 8 * n \<and>
    cbc_decrypt_loop dec chain iv (out @ rest) len' = Some (take (8 * n) input, iv')"
  using assms
proof (induction n arbitrary: len len' input iv)
  case 0
  then show ?case by (simp add: cbc_encrypt_loop.simps cbc_decrypt_loop.simps)
next
  case (Suc n)
  let ?x = "xor_bytes (take 8 input) iv"
  let ?iv = "if chain then enc ?x else iv"
  have x: "length ?x = 8" using Suc.prems by simp
  have "\<exists>out iv'. cbc_encrypt_loop enc chain ?iv (drop 8 input) (len - 8) = Some (out, iv') \<and> length out = 8 * n \<and>
      cbc_decrypt_loop dec chain ?iv (out @ rest) (len' - 8) = Some (take (8 * n) (drop 8 input), iv')"
    by (rule Suc.IH) (use Suc.prems enc_length [OF x] in auto)
  then obtain out iv' where ih: "cbc_encrypt_loop enc chain ?iv (drop 8 input) (len - 8) = Some (out, iv')"
    "length out = 8 * n" "cbc_decrypt_loop dec chain ?iv (out @ rest) (len' - 8) = Some (take (8 * n) (drop 8 input), iv')"
    by blast
  have pos: "0 < len" "0 < len'" "8 \<le> length input" using Suc.prems by simp_all
  have "cbc_encrypt_loop enc chain iv input len = Some (enc ?x @ out, iv')"
    using pos ih(1) by (subst cbc_encrypt_loop.simps) (simp add: Let_def)
  moreover have "cbc_decrypt_loop dec chain iv ((enc ?x @ out) @ rest) len' = Some (take (8 * Suc n) input, iv')"
  proof -
    have "xor_bytes (dec (enc ?x)) iv = take 8 input"
      using dec_enc [OF x] xor_bytes_twice [of "take 8 input" iv] Suc.prems by simp
    then show ?thesis
      using pos ih(3) enc_length [OF x] by (subst cbc_decrypt_loop.simps) (cases chain; simp add: Let_def take_add)
  qed
  ultimately show ?case using ih(2) enc_length [OF x] by auto
qed

end

text \<open>Every block on its own: the electronic codebook.\<close>

definition ecb :: "(byte list \<Rightarrow> byte list) \<Rightarrow> nat \<Rightarrow> byte list \<Rightarrow> byte list" where
  "ecb crypt n input = concat (map (\<lambda>i. crypt (take 8 (drop (8 * i) input))) [0..<n])"

lemma ecb_Suc: "ecb crypt (Suc n) input = crypt (take 8 input) @ ecb crypt n (drop 8 input)"
proof -
  have "[0..<Suc n] = 0 # map Suc [0..<n]" by (simp only: upt_conv_Cons map_Suc_upt zero_less_Suc)
  then show ?thesis by (simp add: ecb_def comp_def add.commute del: upt_Suc)
qed

lemma unchained_is_ecb:
  assumes "8 * int n - 8 < len" "len \<le> 8 * int n" and "8 * n \<le> length input"
  shows "cbc_encrypt_loop crypt False iv input len = Some (ecb (\<lambda>b. crypt (xor_bytes b iv)) n input, iv)"
  using assms
proof (induction n arbitrary: len input)
  case 0
  then show ?case by (simp add: cbc_encrypt_loop.simps ecb_def)
next
  case (Suc n)
  have "cbc_encrypt_loop crypt False iv (drop 8 input) (len - 8) =
      Some (ecb (\<lambda>b. crypt (xor_bytes b iv)) n (drop 8 input), iv)"
    by (rule Suc.IH) (use Suc.prems in auto)
  then show ?case using Suc.prems by (subst cbc_encrypt_loop.simps) (simp add: Let_def ecb_Suc)
qed


lemma feistel_cipher_length: "length (des_crypt SK b) = 8" "length (des3_crypt SK b) = 8"
  by (simp_all add: des_crypt_def des3_crypt_def PUT_UINT32_BE_def Let_def split: prod.splits)

interpretation des: block_cipher "des_crypt (dc_esk (my_des_set_key \<lparr>dc_esk = replicate 32 0, dc_dsk = replicate 32 0\<rparr> key))"
    "des_crypt (dc_dsk (my_des_set_key \<lparr>dc_esk = replicate 32 0, dc_dsk = replicate 32 0\<rparr> key))" for key
proof
  fix b :: "byte list"
  assume "length b = 8"
  moreover have "ctx_size 32 \<lparr>dc_esk = replicate 32 0, dc_dsk = replicate 32 0\<rparr>" by (simp add: ctx_size_def)
  ultimately show "des_crypt (dc_dsk (my_des_set_key \<lparr>dc_esk = replicate 32 0, dc_dsk = replicate 32 0\<rparr> key))
      (des_crypt (dc_esk (my_des_set_key \<lparr>dc_esk = replicate 32 0, dc_dsk = replicate 32 0\<rparr> key)) b) = b"
    using set_key_inverse by (simp add: des_encrypt_def des_decrypt_def)
qed (simp add: feistel_cipher_length)

lemma ctx_size_ctx: "ctx_size 96 des3_ctx"
  by (simp add: ctx_size_def des3_ctx_def)

interpretation des3_16: block_cipher "des3_crypt (dc_esk (des3_set_2keys des3_ctx key))"
    "des3_crypt (dc_dsk (des3_set_2keys des3_ctx key))" for key
proof
  fix b :: "byte list"
  assume "length b = 8"
  with keys2_inverse [OF set_2keys_spec [OF ctx_size_ctx]]
  show "des3_crypt (dc_dsk (des3_set_2keys des3_ctx key)) (des3_crypt (dc_esk (des3_set_2keys des3_ctx key)) b) = b"
    by (simp add: des3_encrypt_def des3_decrypt_def)
qed (simp add: feistel_cipher_length)

interpretation des3_24: block_cipher "des3_crypt (dc_esk (des3_set_3keys des3_ctx key))"
    "des3_crypt (dc_dsk (des3_set_3keys des3_ctx key))" for key
proof
  fix b :: "byte list"
  assume "length b = 8"
  with keys3_inverse [OF set_3keys_spec [OF ctx_size_ctx]]
  show "des3_crypt (dc_dsk (des3_set_3keys des3_ctx key)) (des3_crypt (dc_esk (des3_set_3keys des3_ctx key)) b) = b"
    by (simp add: des3_encrypt_def des3_decrypt_def)
qed (simp add: feistel_cipher_length)

section \<open>Properties\<close>

lemma pad8: "8 * ((L + 7) div 8) = (if L mod 8 \<noteq> 0 then (L div 8 + 1) * 8 else L)" for L :: int
proof -
  have "(L + 7) div 8 = (L mod 8 + 7 + L div 8 * 8) div 8" by (simp add: algebra_simps)
  also have "\<dots> = L div 8 + (L mod 8 + 7) div 8" by (rule div_mult_self1) simp
  finally have eq: "(L + 7) div 8 = L div 8 + (L mod 8 + 7) div 8" .
  have "0 \<le> L mod 8" "L mod 8 < 8" by simp_all
  then have r: "(L mod 8 + 7) div 8 = (if L mod 8 \<noteq> 0 then 1 else 0)" by (auto intro: int_div_pos_eq [where r = "L mod 8 - 1"])
  have d: "8 * (L div 8) + L mod 8 = L" by simp
  show ?thesis unfolding eq r
  proof (cases "L mod 8 = 0")
    case True
    with d have "8 * (L div 8) = L" by linarith
    with True show "8 * (L div 8 + (if L mod 8 \<noteq> 0 then 1 else 0)) = (if L mod 8 \<noteq> 0 then (L div 8 + 1) * 8 else L)"
      by simp
  qed simp
qed

text \<open>The number of blocks for a buffer of \<open>n\<close> bytes.\<close>

abbreviation (input) des_blocks :: "nat \<Rightarrow> nat" where "des_blocks n \<equiv> (n + 7) div 8"

lemma blocks_int: "int (des_blocks n) = (int n + 7) div 8"
  by (simp add: zdiv_int)

lemma blocks_bounds: "8 * int (des_blocks n) - 8 < int n" "int n \<le> 8 * int (des_blocks n)"
  unfolding blocks_int by linarith+

lemma blocks_padded: "int (8 * des_blocks n) = (if int n mod 8 \<noteq> 0 then (int n div 8 + 1) * 8 else int n)"
  by (simp only: of_nat_mult blocks_int of_nat_numeral pad8)

lemma data_room:
  assumes "length bytes \<le> n + 8"
  shows "des_data (int n) bytes = Some (bytes @ replicate (n + 8 - length bytes) 0)"
proof -
  have "nat (int n + 8) = n + 8" by linarith
  with assms show ?thesis by (simp add: des_data_def overwrite_def)
qed

lemma xor_iv: "length b = 8 \<Longrightarrow> xor_bytes b des_iv = b"
  by (rule nth_equalityI) (simp_all add: xor_bytes_def des_iv_def)

lemma short_input: "8 * int n - 8 < len \<Longrightarrow> len \<le> 8 * int n \<Longrightarrow> length input < 8 * n \<Longrightarrow>
    cbc_encrypt_loop crypt chain iv input len = None"
proof (induction n arbitrary: len input iv)
  case (Suc n)
  show ?case
  proof (cases "length input < 8")
    case False
    then have "cbc_encrypt_loop crypt chain iv' (drop 8 input) (len - 8) = None" for iv'
      using Suc.prems by (intro Suc.IH) auto
    then show ?thesis by (subst cbc_encrypt_loop.simps) (use Suc.prems False in \<open>simp add: Let_def\<close>)
  qed (use Suc.prems in \<open>subst cbc_encrypt_loop.simps, simp\<close>)
qed simp

lemma padded_size: "8 * des_blocks n \<le> n + 8"
  by linarith

lemma des3_hex_roundtrip:
  assumes "bs \<noteq> []" and "8 * des_blocks (length bs) \<le> length (bs @ rest)" and "length bs < 2 ^ 30"
  shows "\<exists>code. pub_des3_enc True (Some (bs @ rest)) True (int (length bs)) key = Some (0, code) \<and>
    length code = 16 * des_blocks (length bs) \<and>
    pub_des3_dec True (Some code) True (int (length code)) key = Some (0, take (8 * des_blocks (length bs)) (bs @ rest))"
proof -
  let ?n = "des_blocks (length bs)" and ?ctx = "des3_set_3keys des3_ctx (des3_use_key key)" and ?l = "length bs"
  have n0: "0 < ?n" using assms(1) by (cases bs) simp_all
  from des3_24.cbc_roundtrip [OF blocks_bounds [of ?l], of "int (8 * ?n)" "bs @ rest" des_iv "des3_use_key key" False
      "replicate 8 0"] assms(2)
  obtain out where out: "des3_cbc_encrypt ?ctx des_iv (bs @ rest) (int ?l) = Some (out, des_iv)" "length out = 8 * ?n"
    "des3_cbc_decrypt ?ctx des_iv (out @ replicate 8 0) (int (8 * ?n)) = Some (take (8 * ?n) (bs @ rest), des_iv)"
    using unchained_is_ecb [OF blocks_bounds [of ?l], of "bs @ rest"]
    by (auto simp: des3_cbc_encrypt_def des3_cbc_decrypt_def des_iv_def)
  have ne: "out \<noteq> []" using out(2) n0 by auto
  have data: "des_data (int ?l) out = Some (out @ replicate (?l + 8 - length out) 0)"
    using out(2) padded_size [of ?l] by (intro data_room) simp
  from hex_coding [OF ne, of "replicate (?l + 8 - length out) 0" "[]"] obtain code where code:
    "pub_code_bcdtoasc (Some (out @ replicate (?l + 8 - length out) 0)) (int (8 * ?n)) = Some (SW_OK, code)"
    "length code = 2 * length out" "pub_code_asctobcd (Some code) (int (length code)) = Some (SW_OK, out)"
    using out(2) by auto
  have "pub_des3_enc True (Some (bs @ rest)) True (int ?l) key = Some (0, code)"
    using assms(1,3) out(1) data code(1) blocks_padded [of ?l] by (simp add: pub_des3_enc_def Let_def)
  moreover have "pub_des3_dec True (Some code) True (int (length code)) key = Some (0, take (8 * ?n) (bs @ rest))"
  proof -
    have half: "int (length code) div 2 = int (8 * ?n)" "0 < int (length code)" using code(2) out(2) n0 by simp_all
    have "des_data (int (8 * ?n)) out = Some (out @ replicate 8 0)" using data_room [of out "8 * ?n"] out(2) by simp
    then show ?thesis using half out(3) code(3) by (simp add: pub_des3_dec_def Let_def)
  qed
  ultimately show ?thesis using code(2) out(2) by auto
qed

lemma des3_base64_roundtrip:
  assumes "bs \<noteq> []" and "8 * des_blocks (length bs) \<le> length (bs @ rest)" and "length bs < 2 ^ 30"
    and "keylen = 16 \<or> keylen = 24" and "0 < len"
  shows "\<exists>code. pub_des3_enc_base64 True (Some (bs @ rest)) True (int (length bs)) key keylen = Some (0, code) \<and>
    pub_des3_dec_base64 True (Some code) True len key keylen = Some (0, take (8 * des_blocks (length bs)) (bs @ rest))"
proof -
  let ?n = "des_blocks (length bs)" and ?ctx = "des3_set_key keylen (des3_use_key key)" and ?l = "length bs"
  have n0: "0 < ?n" using assms(1) by (cases bs) simp_all
  have "\<exists>out iv'. cbc_encrypt_loop (des3_crypt (dc_esk ?ctx)) False des_iv (bs @ rest) (int ?l) = Some (out, iv') \<and>
      length out = 8 * ?n \<and> cbc_decrypt_loop (des3_crypt (dc_dsk ?ctx)) False des_iv (out @ tail) (int (8 * ?n)) =
        Some (take (8 * ?n) (bs @ rest), iv')" for tail
    using assms(2,4)
      des3_16.cbc_roundtrip [OF blocks_bounds [of ?l], of "int (8 * ?n)" "bs @ rest" des_iv "des3_use_key key" False tail]
      des3_24.cbc_roundtrip [OF blocks_bounds [of ?l], of "int (8 * ?n)" "bs @ rest" des_iv "des3_use_key key" False tail]
    by (simp add: des3_set_key_def des_iv_def del: take_append split del: if_split) auto
  then obtain out where out: "des3_cbc_encrypt ?ctx des_iv (bs @ rest) (int ?l) = Some (out, des_iv)" "length out = 8 * ?n"
    "\<And>tail. des3_cbc_decrypt ?ctx des_iv (out @ tail) (int (8 * ?n)) = Some (take (8 * ?n) (bs @ rest), des_iv)"
    using unchained_is_ecb [OF blocks_bounds [of ?l], of "bs @ rest"] assms(2)
    by (auto simp: des3_cbc_encrypt_def des3_cbc_decrypt_def)
  have ne: "out \<noteq> []" using out(2) n0 by auto
  have data: "des_data (int ?l) out = Some (out @ replicate (?l + 8 - length out) 0)"
    using out(2) padded_size [of ?l] by (intro data_room) simp
  have "length out < 1610612734" using out(2) padded_size [of ?l] assms(3) by simp
  from base64_coding [OF ne this, of "replicate (?l + 8 - length out) 0"] obtain code where code:
    "pub_code_base64_enc (Some (out @ replicate (?l + 8 - length out) 0)) (int (8 * ?n)) = Some (int (length code), code)"
    "pub_code_base64_dec (Some code) = (SW_OK, Some (int (8 * ?n)), out)"
    "length code = (length out + 2) div 3 * 4"
    using out(2) by auto
  have "pub_des3_enc_base64 True (Some (bs @ rest)) True (int ?l) key keylen = Some (0, code)"
    using assms(1,3,4) out(1) data code(1) blocks_padded [of ?l] by (auto simp: pub_des3_enc_base64_def Let_def)
  moreover have "pub_des3_dec_base64 True (Some code) True len key keylen = Some (0, take (8 * ?n) (bs @ rest))"
  proof -
    have "\<exists>tail. des_data (s32 (int (length code) * 3 div 4)) out = Some (out @ tail)"
    proof -
      have "length out \<le> length code * 3 div 4" "length code * 3 div 4 < 2 ^ 31" 
        using code(3) out(2) padded_size [of ?l] assms(3) by simp_all
      then have "s32 (int (length code) * 3 div 4) = int (length code * 3 div 4)" by (simp add: zdiv_int)
      then show ?thesis using data_room [of out "length code * 3 div 4"] \<open>length out \<le> _\<close> by simp
    qed
    then show ?thesis using assms(4,5) out(3) code(2) by (auto simp: pub_des3_dec_base64_def Let_def)
  qed
  ultimately show ?thesis by blast
qed

text \<open>C33: What DES encrypts it decrypts: under every key schedule of the code, for every block.\<close>

theorem des_block_roundtrip:
  assumes "length block = 8" and "ctx_size 32 ctx" and "ctx_size 96 ctx3"
  shows "des_decrypt (my_des_set_key ctx key) (des_encrypt (my_des_set_key ctx key) block) = block \<and>
    des3_decrypt (des3_set_2keys ctx3 key) (des3_encrypt (des3_set_2keys ctx3 key) block) = block \<and>
    des3_decrypt (des3_set_3keys ctx3 key) (des3_encrypt (des3_set_3keys ctx3 key) block) = block"
  using assms set_key_inverse keys2_inverse [OF set_2keys_spec] keys3_inverse [OF set_3keys_spec] by simp

theorem des_block_roundtrip_witness:
  defines "c \<equiv> des3_set_3keys \<lparr>dc_esk = replicate 96 0, dc_dsk = replicate 96 0\<rparr> (replicate 24 7)"
  shows "des3_decrypt c (des3_encrypt c [1, 2, 3, 4, 5, 6, 7, 8]) = [1, 2, 3, 4, 5, 6, 7, 8]"
  using des_block_roundtrip [of "[1, 2, 3, 4, 5, 6, 7, 8]" "\<lparr>dc_esk = replicate 32 0, dc_dsk = replicate 32 0\<rparr>"
      "\<lparr>dc_esk = replicate 96 0, dc_dsk = replicate 96 0\<rparr>" "replicate 24 7"]
  by (simp add: c_def ctx_size_def)


text \<open>C34: Encrypted text decrypts to what was encrypted, with any key the caller gives or with the built-in one, as
  hexadecimal digits and as base64 with 16 and 24 byte keys.  When the length is no multiple of eight, the bytes behind the
  buffer up to the next block are encrypted with it and come back after it.\<close>

theorem des3_text_roundtrip:
  assumes "bs \<noteq> []" and "(length bs + 7) div 8 * 8 \<le> length (bs @ rest)" and "length bs < 2 ^ 30"
    and "keylen = 16 \<or> keylen = 24" and "0 < len"
  defines "padded \<equiv> take ((length bs + 7) div 8 * 8) (bs @ rest)"
  shows "(\<exists>code. pub_des3_enc True (Some (bs @ rest)) True (int (length bs)) key = Some (0, code) \<and>
      length code = 2 * length padded \<and>
      pub_des3_dec True (Some code) True (int (length code)) key = Some (0, padded)) \<and>
    (\<exists>code. pub_des3_enc_base64 True (Some (bs @ rest)) True (int (length bs)) key keylen = Some (0, code) \<and>
      pub_des3_dec_base64 True (Some code) True len key keylen = Some (0, padded))"
  using des3_hex_roundtrip [of bs rest key] des3_base64_roundtrip [of bs rest keylen len key] assms
  by (simp add: mult.commute)

theorem des3_text_roundtrip_witness:
  "\<exists>code. pub_des3_enc True (Some ([1, 2, 3] @ [0, 0, 0, 0, 0])) True (int (length [1, 2, 3 :: byte])) (Some [65]) = Some (0, code) \<and>
    pub_des3_dec True (Some code) True (int (length code)) (Some [65]) = Some (0, [1, 2, 3, 0, 0, 0, 0, 0])"
  using des3_text_roundtrip [of "[1, 2, 3]" "[0, 0, 0, 0, 0]" 16 1 "Some [65]"] by auto

text \<open>The triple DES buffer functions named after cipher block chaining do not chain: whatever the buffer, every block is
  encrypted on its own, so equal blocks give equal ciphertext, and the initialization vector is left as it was, contrary to
  their description.\<close>

theorem des3_cbc_is_codebook:
  assumes "8 * int n - 8 < len" and "len \<le> 8 * int n" and "8 * n \<le> length input" and "length iv = 8"
  shows "des3_cbc_encrypt ctx iv input len = Some (ecb (\<lambda>b. des3_encrypt ctx (xor_bytes b iv)) n input, iv) \<and>
    des3_cbc_encrypt ctx des_iv input len = Some (ecb (des3_encrypt ctx) n input, des_iv)"
proof
  show any: "des3_cbc_encrypt ctx iv input len = Some (ecb (\<lambda>b. des3_encrypt ctx (xor_bytes b iv)) n input, iv)" for iv
    unfolding des3_cbc_encrypt_def des3_encrypt_def by (rule unchained_is_ecb) (fact assms)+
  have "ecb (\<lambda>b. des3_encrypt ctx (xor_bytes b des_iv)) n input = ecb (des3_encrypt ctx) n input"
    unfolding ecb_def using assms(3) by (intro arg_cong [where f = concat] map_cong) (simp_all add: xor_iv)
  with any show "des3_cbc_encrypt ctx des_iv input len = Some (ecb (des3_encrypt ctx) n input, des_iv)" by simp
qed

theorem des3_cbc_is_codebook_witness:
  "des3_cbc_encrypt des3_ctx (replicate 8 5) (replicate 16 1) 16 =
     Some (ecb (\<lambda>b. des3_encrypt des3_ctx (xor_bytes b (replicate 8 5))) 2 (replicate 16 1), replicate 8 5)"
  using des3_cbc_is_codebook [of 2 16 "replicate 16 1" "replicate 8 5" des3_ctx] by simp

text \<open>A length that is no multiple of eight makes the encryption read past a buffer that ends with the data.\<close>

lemma pub_des3_enc_reads_past:
  assumes "length bs mod 8 \<noteq> 0" and "length bs < 2 ^ 30"
  shows "pub_des3_enc True (Some bs) True (int (length bs)) key = None"
proof -
  have "length bs < 8 * des_blocks (length bs)" using assms(1) by presburger
  with short_input [OF blocks_bounds [of "length bs"]] assms show ?thesis
    by (auto simp: pub_des3_enc_def des3_cbc_encrypt_def Let_def)
qed

end
