(* ===== verification/Procs.thy ===== *)
theory Procs
  imports Prelude Sem_Lock
begin

text \<open>
  The process table, \<^verbatim>\<open>core/procs.c\<close>: the system processes, the service groups and the processes of the groups
  register here, and a message is dispatched to the process of a group that \<open>procs_get_dst_proc\<close> chooses.  The shared
  memory behind the header holds three arrays; a group addresses its run of the last one by a byte offset.  \<open>alive\<close>
  stands for \<^verbatim>\<open>kill(pid, 0)\<close>, \<open>now\<close> for the clock.
\<close>

section \<open>State\<close>

abbreviation (input) PROC_S_BUSYING :: int where "PROC_S_BUSYING \<equiv> 1"
abbreviation (input) PROC_S_IDLE :: int where "PROC_S_IDLE \<equiv> 2"
abbreviation (input) SW_S_START :: int where "SW_S_START \<equiv> 100"
abbreviation (input) SW_S_EXITING :: int where "SW_S_EXITING \<equiv> 106"
abbreviation (input) SW_MSG_REQ :: int where "SW_MSG_REQ \<equiv> 1002"
abbreviation (input) ND_LSN_RCV :: int where "ND_LSN_RCV \<equiv> 103"
abbreviation (input) SW_ALL_STOP :: int where "SW_ALL_STOP \<equiv> 2001"
abbreviation (input) SW_ABORT :: int where "SW_ABORT \<equiv> - 6"
abbreviation (input) MAX_RESTART_CNT :: int where "MAX_RESTART_CNT \<equiv> 3"
abbreviation (input) SW_MAX_TASK_CNT :: int where "SW_MAX_TASK_CNT \<equiv> 0x7fffffff - 10000"

record sw_proc_info =
  pi_name :: cstr
  pi_svr_name :: cstr
  pi_prdt_name :: cstr
  pi_pid :: int
  pi_status :: int
  pi_type :: int
  pi_mqid :: int
  pi_shmid :: int
  pi_curr_cnt :: int
  pi_task_cnt :: int
  pi_proc_cnt :: int
  pi_group_index :: int
  pi_comtype :: int
  pi_sendtype :: int
  pi_proc_index :: int
  pi_restart_cnt :: int
  pi_restart_flag :: int
  pi_restart_type :: int
  pi_lockid :: int
  pi_busy_flag :: int
  pi_mqids :: "int list"
  pi_starttime :: int

record sw_svr_grp =
  sg_lock_id :: int
  sg_offset :: int
  sg_svc_max :: int
  sg_svc_curr :: int
  sg_svrname :: cstr
  sg_prdtname :: cstr

text \<open>The header, and the three arrays as long as the memory behind it.\<close>

record sw_procs_head =
  ph_lock_id :: int
  ph_count :: int
  ph_sw_work_stat :: int
  ph_sys_porc_offset :: int
  ph_sys_proc_use :: int
  ph_sys_procs_max :: int
  ph_svr_grp_offset :: int
  ph_svr_grp_max :: int
  ph_svr_grp_use :: int
  ph_app_porc_offset :: int
  ph_app_proc_max :: int
  ph_app_proc_use :: int
  ph_grps :: "sw_svr_grp list"
  ph_sys :: "sw_proc_info list"
  ph_apps :: "sw_proc_info list"

record procs_world = sem_world +
  g_procs_head :: "sw_procs_head option"

record procs_cfg = sw_syscfg +
  cfg_svr_max :: int
  cfg_processe_max :: int

text \<open>Sizes in bytes of the header, a group and a process (on an LP64 machine).\<close>

abbreviation (input) PROCS_HEAD_SIZE :: int where "PROCS_HEAD_SIZE \<equiv> 48"
abbreviation (input) SVR_GRP_SIZE :: int where "SVR_GRP_SIZE \<equiv> 80"
abbreviation (input) PROC_INFO_SIZE :: int where "PROC_INFO_SIZE \<equiv> 208"

section \<open>Creation\<close>

text \<open>\<open>addr\<close> is the memory as it was: the call writes the header only.\<close>

definition procs_init ::
    "sw_procs_head option \<Rightarrow> procs_cfg option \<Rightarrow> 'a procs_world_scheme \<Rightarrow> (int \<times> 'a procs_world_scheme) option" where
  "procs_init addr sys_cfg w =
     (case (addr, sys_cfg) of
        (Some h, Some c) \<Rightarrow> do {
          (lock_id, w1) \<leftarrow> sem_new_lock_id w;
          if lock_id = - 1 then Some (SW_ERR, w1)
          else do {
            (_, w2) \<leftarrow> sem_write_lock lock_id w1;
            let grp_max = s32 (cfg_lsn_max c + cfg_svr_max c);
            let sys_max = s32 (cfg_lsn_max c + cfg_prdt_max c);
            let sys_off = s32 (PROCS_HEAD_SIZE + grp_max * SVR_GRP_SIZE);
            let h1 = h\<lparr>ph_lock_id := lock_id, ph_count := 0, ph_sw_work_stat := SW_ALL_STOP,
              ph_svr_grp_use := 0, ph_svr_grp_max := grp_max, ph_svr_grp_offset := PROCS_HEAD_SIZE,
              ph_sys_proc_use := 0, ph_sys_procs_max := sys_max, ph_sys_porc_offset := sys_off,
              ph_app_proc_use := 0, ph_app_proc_max := cfg_processe_max c,
              ph_app_porc_offset := s32 (sys_off + PROC_INFO_SIZE * sys_max)\<rparr>;
            (_, w3) \<leftarrow> sem_write_unlock lock_id (w2\<lparr>g_procs_head := Some h1\<rparr>);
            Some (SW_OK, w3)
          }
        }
      | _ \<Rightarrow> Some (SW_ERR, w))"

definition procs_get_head :: "bool \<Rightarrow> 'a procs_world_scheme \<Rightarrow> (int \<times> sw_procs_head option \<times> 'a procs_world_scheme) option" where
  "procs_get_head outp w =
     (case g_procs_head w of
        None \<Rightarrow> Some (SW_ERR, None, w)
      | Some h \<Rightarrow>
          if \<not> outp then Some (SW_ERR, None, w)
          else do {
            (_, w1) \<leftarrow> sem_read_lock (ph_lock_id h) w;
            (_, w2) \<leftarrow> sem_read_unlock (ph_lock_id h) w1;
            Some (SW_OK, Some h, w2)
          })"

definition procs_set_addr :: "sw_procs_head option \<Rightarrow> 'a procs_world_scheme \<Rightarrow> int \<times> 'a procs_world_scheme" where
  "procs_set_addr addr w = (if addr = None then (SW_ERR, w) else (SW_OK, w\<lparr>g_procs_head := addr\<rparr>))"

definition procs_get_size :: "procs_cfg option \<Rightarrow> int" where
  "procs_get_size sys_cfg =
     (case sys_cfg of
        None \<Rightarrow> SW_ERR
      | Some c \<Rightarrow> s32 (PROCS_HEAD_SIZE + SVR_GRP_SIZE * (cfg_lsn_max c + cfg_svr_max c)
          + PROC_INFO_SIZE * (cfg_lsn_max c + cfg_prdt_max c) + cfg_processe_max c * PROC_INFO_SIZE))"

section \<open>Service groups\<close>

text \<open>The scan for a group: the product is compared only when it is given.  \<open>Some None\<close> is the null pointer, \<open>None\<close> a
  scan that leaves the array.\<close>

definition procs_get_svr_by_name ::
    "cstr option \<Rightarrow> cstr option \<Rightarrow> 'a procs_world_scheme \<Rightarrow> nat option option" where
  "procs_get_svr_by_name name prdt w =
     (case (g_procs_head w, name) of
        (Some h, Some n) \<Rightarrow>
          if n = [] then Some None
          else
            (case find_idx (\<lambda>g. (case prdt of None \<Rightarrow> True | Some p \<Rightarrow> p = [] \<or> sg_prdtname g = p) \<and> sg_svrname g = n)
                (take (nat (ph_svr_grp_use h)) (ph_grps h)) of
               Some i \<Rightarrow> Some (Some i)
             | None \<Rightarrow> if ph_svr_grp_use h \<le> int (length (ph_grps h)) then Some None else None)
      | _ \<Rightarrow> Some None)"

definition procs_get_svr_by_index :: "int \<Rightarrow> 'a procs_world_scheme \<Rightarrow> nat option option" where
  "procs_get_svr_by_index index w =
     (case g_procs_head w of
        None \<Rightarrow> Some None
      | Some h \<Rightarrow>
          if index < 0 then Some None
          else if ph_svr_grp_max h \<le> index then Some None
          else if int (length (ph_grps h)) \<le> index then None
          else if sg_svrname (ph_grps h ! nat index) = [] then Some None
          else Some (Some (nat index)))"

text \<open>A new group takes the first empty slot and the processes behind those in use.  The answer of
  \<open>sem_new_lock_id\<close> is stored before it is tested, and when it is \<open>- 1\<close> the call returns without unlocking.\<close>

definition procs_svr_alloc :: "sw_svr_grp option \<Rightarrow> 'a procs_world_scheme \<Rightarrow> (int \<times> 'a procs_world_scheme) option" where
  "procs_svr_alloc grp w =
     (case (g_procs_head w, grp) of
        (Some h, Some g) \<Rightarrow>
          if sg_svrname g = [] then Some (SW_ERR, w)
          else do {
            found \<leftarrow> procs_get_svr_by_name (Some (sg_svrname g)) (Some (sg_prdtname g)) w;
            (case found of
               Some i \<Rightarrow>
                 if sg_svc_max (ph_grps h ! i) \<noteq> sg_svc_max g then Some (SW_ERR, w) else Some (SW_OK, w)
             | None \<Rightarrow> do {
                 (_, w1) \<leftarrow> sem_write_lock (ph_lock_id h) w;
                 (case find_idx (\<lambda>g. sg_svrname g = []) (take (nat (ph_svr_grp_max h)) (ph_grps h)) of
                    None \<Rightarrow>
                      if int (length (ph_grps h)) < ph_svr_grp_max h then None
                      else do {
                        (_, w2) \<leftarrow> sem_write_unlock (ph_lock_id h) w1;
                        Some (SW_ERR, w2)
                      }
                  | Some index \<Rightarrow> do {
                      let curr = s32 (ph_app_proc_use h + sg_svc_max g);
                      if ph_app_proc_max h \<le> curr then do {
                        (_, w2) \<leftarrow> sem_write_unlock (ph_lock_id h) w1;
                        Some (SW_ERR, w2)
                      } else do {
                        (lid, w2) \<leftarrow> sem_new_lock_id w1;
                        let g1 = g\<lparr>sg_svc_curr := 0, sg_lock_id := lid,
                          sg_offset := s32 (ph_app_porc_offset h + ph_app_proc_use h * PROC_INFO_SIZE)\<rparr>;
                        let h1 = h\<lparr>ph_grps := (ph_grps h)[index := g1]\<rparr>;
                        if lid = - 1 then Some (SW_ERR, w2\<lparr>g_procs_head := Some h1\<rparr>)
                        else do {
                          let h2 = h1\<lparr>ph_app_proc_use := curr, ph_svr_grp_use := s32 (ph_svr_grp_use h + 1)\<rparr>;
                          (_, w3) \<leftarrow> sem_write_unlock (ph_lock_id h) (w2\<lparr>g_procs_head := Some h2\<rparr>);
                          Some (SW_OK, w3)
                        }
                      }
                    })
               })
          }
      | _ \<Rightarrow> Some (SW_ERR, w))"


section \<open>Processes\<close>

text \<open>The array a registration works on: the system processes, or the run of the group with this index.\<close>

datatype proc_area = Sys | Grp nat

definition grp_base :: "sw_procs_head \<Rightarrow> sw_svr_grp \<Rightarrow> nat" where
  "grp_base h g = nat ((sg_offset g - ph_app_porc_offset h) div PROC_INFO_SIZE)"

definition area_procs :: "proc_area \<Rightarrow> sw_procs_head \<Rightarrow> sw_proc_info list" where
  "area_procs a h = (case a of Sys \<Rightarrow> ph_sys h | Grp i \<Rightarrow> drop (grp_base h (ph_grps h ! i)) (ph_apps h))"

definition area_use :: "proc_area \<Rightarrow> sw_procs_head \<Rightarrow> int" where
  "area_use a h = (case a of Sys \<Rightarrow> ph_sys_proc_use h | Grp i \<Rightarrow> sg_svc_curr (ph_grps h ! i))"

definition area_max :: "proc_area \<Rightarrow> sw_procs_head \<Rightarrow> int" where
  "area_max a h = (case a of Sys \<Rightarrow> ph_sys_procs_max h | Grp i \<Rightarrow> sg_svc_max (ph_grps h ! i))"

definition set_use :: "proc_area \<Rightarrow> int \<Rightarrow> sw_procs_head \<Rightarrow> sw_procs_head" where
  "set_use a n h =
     (case a of Sys \<Rightarrow> h\<lparr>ph_sys_proc_use := n\<rparr>
      | Grp i \<Rightarrow> h\<lparr>ph_grps := (ph_grps h)[i := (ph_grps h ! i)\<lparr>sg_svc_curr := n\<rparr>]\<rparr>)"

definition put_proc :: "proc_area \<Rightarrow> nat \<Rightarrow> sw_proc_info \<Rightarrow> sw_procs_head \<Rightarrow> sw_procs_head" where
  "put_proc a k p h =
     (case a of Sys \<Rightarrow> h\<lparr>ph_sys := (ph_sys h)[k := p]\<rparr>
      | Grp i \<Rightarrow> h\<lparr>ph_apps := (ph_apps h)[grp_base h (ph_grps h ! i) + k := p]\<rparr>)"

text \<open>Where the process goes: the entry of its name and its task count, or the first empty entry from \<open>use\<close> on.\<close>

definition proc_slot :: "cstr \<Rightarrow> int \<Rightarrow> int \<Rightarrow> sw_proc_info list \<Rightarrow> (nat \<times> int \<times> bool) option option" where
  "proc_slot nm mx use procs =
     (case find_idx (\<lambda>p. pi_name p = nm) (take (nat mx) procs) of
        Some i \<Rightarrow> Some (Some (i, pi_task_cnt (procs ! i), False))
      | None \<Rightarrow>
          if int (length procs) < mx then None
          else
            (case find_idx (\<lambda>p. pi_name p = []) (drop (nat use) (take (nat mx) procs)) of
               Some k \<Rightarrow> Some (Some (nat use + k, 0, True))
             | None \<Rightarrow> Some None))"

definition procs_register ::
    "int \<Rightarrow> proc_area \<Rightarrow> int \<Rightarrow> sw_proc_info option \<Rightarrow> 'a procs_world_scheme \<Rightarrow> (int \<times> 'a procs_world_scheme) option" where
  "procs_register now a lock_id proc_info w =
     (case (g_procs_head w, proc_info) of
        (Some h, Some info) \<Rightarrow>
          if lock_id \<le> 0 \<or> area_use a h < 0 \<or> area_max a h < area_use a h then Some (SW_ERR, w)
          else if pi_name info = [] then Some (SW_ERR, w)
          else do {
            (_, w1) \<leftarrow> sem_write_lock lock_id w;
            slot \<leftarrow> proc_slot (pi_name info) (area_max a h) (area_use a h) (area_procs a h);
            (case slot of
               None \<Rightarrow> do {
                 (_, w2) \<leftarrow> sem_write_unlock lock_id w1;
                 Some (SW_ERR, w2)
               }
             | Some (k, cnt, first) \<Rightarrow> do {
                 let p = info\<lparr>pi_task_cnt := cnt, pi_busy_flag := PROC_S_IDLE, pi_starttime := now,
                   pi_restart_cnt := if first then MAX_RESTART_CNT else pi_restart_cnt info\<rparr>;
                 let h1 = (if first then set_use a (s32 (area_use a h + 1)) h else h);
                 (_, w2) \<leftarrow> sem_write_unlock lock_id (w1\<lparr>g_procs_head := Some (put_proc a k p h1)\<rparr>);
                 Some (SW_OK, w2)
               })
          }
      | _ \<Rightarrow> Some (SW_ERR, w))"

definition procs_lsn_register ::
    "int \<Rightarrow> sw_proc_info option \<Rightarrow> 'a procs_world_scheme \<Rightarrow> (int \<times> 'a procs_world_scheme) option" where
  "procs_lsn_register now proc_info w =
     (case (g_procs_head w, proc_info) of
        (Some h, Some info) \<Rightarrow>
          if pi_name info = [] \<or> pi_svr_name info = [] then Some (SW_ERR, w)
          else do {
            found \<leftarrow> procs_get_svr_by_name (Some (pi_svr_name info)) None w;
            (case found of
               None \<Rightarrow> Some (SW_ERR, w)
             | Some i \<Rightarrow> do {
                 (ret, w1) \<leftarrow> procs_register now (Grp i) (ph_lock_id h) proc_info w;
                 if ret \<noteq> SW_OK then Some (SW_ERR, w1) else Some (SW_OK, w1)
               })
          }
      | _ \<Rightarrow> Some (SW_ERR, w))"

definition procs_svr_register ::
    "int \<Rightarrow> sw_proc_info option \<Rightarrow> 'a procs_world_scheme \<Rightarrow> (int \<times> 'a procs_world_scheme) option" where
  "procs_svr_register now proc_info w =
     (case (g_procs_head w, proc_info) of
        (Some h, Some info) \<Rightarrow>
          if pi_name info = [] \<or> pi_svr_name info = [] \<or> pi_prdt_name info = [] then Some (SW_ERR, w)
          else do {
            found \<leftarrow> procs_get_svr_by_name (Some (pi_svr_name info)) (Some (pi_prdt_name info)) w;
            (case found of
               None \<Rightarrow> Some (SW_ERR, w)
             | Some i \<Rightarrow> do {
                 (ret, w1) \<leftarrow> procs_register now (Grp i) (ph_lock_id h) proc_info w;
                 if ret \<noteq> SW_OK then Some (SW_ERR, w1) else Some (SW_OK, w1)
               })
          }
      | _ \<Rightarrow> Some (SW_ERR, w))"

definition procs_sys_register ::
    "int \<Rightarrow> sw_proc_info option \<Rightarrow> 'a procs_world_scheme \<Rightarrow> (int \<times> 'a procs_world_scheme) option" where
  "procs_sys_register now proc_info w =
     (case (g_procs_head w, proc_info) of
        (Some h, Some info) \<Rightarrow>
          if pi_name info = [] then Some (SW_ERR, w)
          else if ph_sys_procs_max h < s32 (ph_sys_proc_use h + 1) then Some (SW_ERR, w)
          else do {
            (ret, w1) \<leftarrow> procs_register now Sys (ph_lock_id h) proc_info w;
            if ret \<noteq> SW_OK then Some (SW_ERR, w1) else Some (SW_OK, w1)
          }
      | _ \<Rightarrow> Some (SW_ERR, w))"

section \<open>System processes\<close>

definition procs_get_sys_by_index ::
    "int \<Rightarrow> bool \<Rightarrow> 'a procs_world_scheme \<Rightarrow> (int \<times> sw_proc_info option \<times> 'a procs_world_scheme) option" where
  "procs_get_sys_by_index index outp w =
     (case g_procs_head w of
        None \<Rightarrow> Some (SW_ERR, None, w)
      | Some h \<Rightarrow>
          if \<not> outp \<or> index < 0 \<or> ph_sys_procs_max h \<le> index then Some (SW_ERR, None, w)
          else if int (length (ph_sys h)) \<le> index then None
          else if pi_name (ph_sys h ! nat index) = [] then Some (SW_ERR, None, w)
          else do {
            (_, w1) \<leftarrow> sem_read_lock (ph_lock_id h) w;
            (_, w2) \<leftarrow> sem_read_unlock (ph_lock_id h) w1;
            Some (SW_OK, Some (ph_sys h ! nat index), w2)
          })"

text \<open>With a null header the error message of the C code reads through it.\<close>

definition procs_set_sys_by_index ::
    "int \<Rightarrow> sw_proc_info option \<Rightarrow> 'a procs_world_scheme \<Rightarrow> (int \<times> 'a procs_world_scheme) option" where
  "procs_set_sys_by_index index info w =
     (case g_procs_head w of
        None \<Rightarrow> None
      | Some h \<Rightarrow>
          (case info of
             None \<Rightarrow> Some (SW_ERR, w)
           | Some p \<Rightarrow>
               if index < 0 \<or> ph_sys_procs_max h \<le> index then Some (SW_ERR, w)
               else if int (length (ph_sys h)) \<le> index then None
               else if pi_name (ph_sys h ! nat index) = [] then Some (SW_ERR, w)
               else do {
                 (_, w1) \<leftarrow> sem_write_lock (ph_lock_id h) w;
                 (_, w2) \<leftarrow> sem_write_unlock (ph_lock_id h) (w1\<lparr>g_procs_head := Some (put_proc Sys (nat index) p h)\<rparr>);
                 Some (SW_OK, w2)
               }))"

definition procs_sys_isexist_by_index :: "int \<Rightarrow> 'a procs_world_scheme \<Rightarrow> bool option" where
  "procs_sys_isexist_by_index index w =
     (if index < 0 then Some False
      else
        (case g_procs_head w of
           None \<Rightarrow> None
         | Some h \<Rightarrow>
             if ph_sys_procs_max h \<le> index then Some False
             else if int (length (ph_sys h)) \<le> index then None
             else Some (pi_name (ph_sys h ! nat index) \<noteq> [])))"

definition sys_scan :: "cstr \<Rightarrow> sw_procs_head \<Rightarrow> nat option option" where
  "sys_scan nm h =
     (case find_idx (\<lambda>p. pi_name p = nm) (take (nat (ph_sys_proc_use h)) (ph_sys h)) of
        Some i \<Rightarrow> Some (Some i)
      | None \<Rightarrow> if ph_sys_proc_use h \<le> int (length (ph_sys h)) then Some None else None)"

definition procs_get_sys_by_name ::
    "cstr option \<Rightarrow> bool \<Rightarrow> 'a procs_world_scheme \<Rightarrow> (int \<times> sw_proc_info option \<times> 'a procs_world_scheme) option" where
  "procs_get_sys_by_name name outp w =
     (case (g_procs_head w, name) of
        (Some h, Some n) \<Rightarrow>
          if \<not> outp \<or> n = [] then Some (SW_ERR, None, w)
          else do {
            found \<leftarrow> sys_scan n h;
            (case found of
               None \<Rightarrow> Some (SW_ERR, None, w)
             | Some i \<Rightarrow> do {
                 (_, w1) \<leftarrow> sem_read_lock (ph_lock_id h) w;
                 (_, w2) \<leftarrow> sem_read_unlock (ph_lock_id h) w1;
                 Some (SW_OK, Some (ph_sys h ! i), w2)
               })
          }
      | _ \<Rightarrow> Some (SW_ERR, None, w))"

definition procs_set_sys_by_name ::
    "cstr option \<Rightarrow> sw_proc_info option \<Rightarrow> 'a procs_world_scheme \<Rightarrow> (int \<times> 'a procs_world_scheme) option" where
  "procs_set_sys_by_name name info w =
     (case (g_procs_head w, name, info) of
        (Some h, Some n, Some p) \<Rightarrow>
          if n = [] then Some (SW_ERR, w)
          else do {
            found \<leftarrow> sys_scan n h;
            (case found of
               None \<Rightarrow> Some (SW_ERR, w)
             | Some i \<Rightarrow> do {
                 (_, w1) \<leftarrow> sem_write_lock (ph_lock_id h) w;
                 (_, w2) \<leftarrow> sem_write_unlock (ph_lock_id h) (w1\<lparr>g_procs_head := Some (put_proc Sys i p h)\<rparr>);
                 Some (SW_OK, w2)
               })
          }
      | _ \<Rightarrow> Some (SW_ERR, w))"

definition pub_proc_checkpid :: "(int \<Rightarrow> bool) \<Rightarrow> int \<Rightarrow> int" where
  "pub_proc_checkpid alive pid = (if pid \<le> 0 then SW_ERROR else if alive pid then SW_OK else SW_ERROR)"

definition procs_is_sys_exist :: "(int \<Rightarrow> bool) \<Rightarrow> cstr \<Rightarrow> 'a procs_world_scheme \<Rightarrow> bool option" where
  "procs_is_sys_exist alive name w = do {
     h \<leftarrow> g_procs_head w;
     found \<leftarrow> sys_scan name h;
     (case found of
        None \<Rightarrow> Some False
      | Some i \<Rightarrow> Some (pub_proc_checkpid alive (pi_pid (ph_sys h ! i)) = SW_OK))
   }"

definition procs_get_sys_status :: "cstr option \<Rightarrow> 'a procs_world_scheme \<Rightarrow> (int \<times> 'a procs_world_scheme) option" where
  "procs_get_sys_status sysname w = do {
     (ret, info, w1) \<leftarrow> procs_get_sys_by_name sysname True w;
     Some (if ret < 0 then SW_ERROR else (case info of None \<Rightarrow> 0 | Some p \<Rightarrow> pi_status p), w1)
   }"


section \<open>Processes of a group\<close>

definition grp_scan :: "cstr \<Rightarrow> nat \<Rightarrow> sw_procs_head \<Rightarrow> nat option option" where
  "grp_scan nm g h =
     (let procs = area_procs (Grp g) h; curr = area_use (Grp g) h in
      (case find_idx (\<lambda>p. pi_name p = nm) (take (nat curr) procs) of
         Some i \<Rightarrow> Some (Some i)
       | None \<Rightarrow> if curr \<le> int (length procs) then Some None else None))"

text \<open>The process is copied out and marked busy, under a read lock.\<close>

definition procs_get_proces_by_name ::
    "nat option \<Rightarrow> cstr option \<Rightarrow> bool \<Rightarrow> 'a procs_world_scheme \<Rightarrow> (int \<times> sw_proc_info option \<times> 'a procs_world_scheme) option" where
  "procs_get_proces_by_name svr_grp name outp w =
     (case (g_procs_head w, svr_grp, name) of
        (Some h, Some g, Some n) \<Rightarrow>
          if \<not> outp \<or> n = [] then Some (SW_ERR, None, w)
          else do {
            found \<leftarrow> grp_scan n g h;
            (case found of
               None \<Rightarrow> Some (SW_ERR, None, w)
             | Some i \<Rightarrow> do {
                 let lock_id = sg_lock_id (ph_grps h ! g);
                 let p = area_procs (Grp g) h ! i;
                 (_, w1) \<leftarrow> sem_read_lock lock_id w;
                 (_, w2) \<leftarrow> sem_read_unlock lock_id
                   (w1\<lparr>g_procs_head := Some (put_proc (Grp g) i (p\<lparr>pi_busy_flag := PROC_S_BUSYING\<rparr>) h)\<rparr>);
                 Some (SW_OK, Some p, w2)
               })
          }
      | _ \<Rightarrow> Some (SW_ERR, None, w))"

definition procs_get_proces_by_index ::
    "nat option \<Rightarrow> int \<Rightarrow> bool \<Rightarrow> 'a procs_world_scheme \<Rightarrow> (int \<times> sw_proc_info option \<times> 'a procs_world_scheme) option" where
  "procs_get_proces_by_index svr_grp index outp w =
     (case (g_procs_head w, svr_grp) of
        (Some h, Some g) \<Rightarrow>
          if index < 0 \<or> \<not> outp then Some (SW_ERR, None, w)
          else if area_max (Grp g) h < index then Some (SW_ABORT, None, w)
          else if int (length (area_procs (Grp g) h)) \<le> index then None
          else do {
            (_, w1) \<leftarrow> sem_read_lock (ph_lock_id h) w;
            (_, w2) \<leftarrow> sem_read_unlock (ph_lock_id h) w1;
            Some (SW_OK, Some (area_procs (Grp g) h ! nat index), w2)
          }
      | _ \<Rightarrow> Some (SW_ERR, None, w))"

definition procs_get_proces_info ::
    "cstr option \<Rightarrow> cstr option \<Rightarrow> cstr option \<Rightarrow> bool \<Rightarrow> 'a procs_world_scheme
     \<Rightarrow> (int \<times> sw_proc_info option \<times> 'a procs_world_scheme) option" where
  "procs_get_proces_info prdt svr svc outp w =
     (if svr = None \<or> svr = Some [] \<or> svc = None \<or> svc = Some [] \<or> \<not> outp then Some (SW_ERR, None, w)
      else do {
        found \<leftarrow> procs_get_svr_by_name svr prdt w;
        (case found of
           None \<Rightarrow> Some (SW_ERR, None, w)
         | Some g \<Rightarrow> do {
             (ret, p, w1) \<leftarrow> procs_get_proces_by_name (Some g) svc outp w;
             if ret \<noteq> SW_OK then Some (SW_ERR, p, w1) else Some (SW_OK, p, w1)
           })
      })"

text \<open>The flag is stored without a lock.\<close>

definition procs_update_process_busystatus_by_name ::
    "nat option \<Rightarrow> cstr option \<Rightarrow> int \<Rightarrow> 'a procs_world_scheme \<Rightarrow> (int \<times> 'a procs_world_scheme) option" where
  "procs_update_process_busystatus_by_name svr_grp name busy_flag w =
     (case (g_procs_head w, svr_grp, name) of
        (Some h, Some g, Some n) \<Rightarrow>
          if n = [] then Some (SW_ERR, w)
          else do {
            found \<leftarrow> grp_scan n g h;
            (case found of
               None \<Rightarrow> Some (SW_ERR, w)
             | Some i \<Rightarrow> Some (SW_OK, w\<lparr>g_procs_head :=
                 Some (put_proc (Grp g) i ((area_procs (Grp g) h ! i)\<lparr>pi_busy_flag := busy_flag\<rparr>) h)\<rparr>))
          }
      | _ \<Rightarrow> Some (SW_ERR, w))"

definition procs_update_process_busystatus ::
    "cstr option \<Rightarrow> cstr option \<Rightarrow> cstr option \<Rightarrow> int \<Rightarrow> 'a procs_world_scheme \<Rightarrow> (int \<times> 'a procs_world_scheme) option" where
  "procs_update_process_busystatus prdt svr svc busy_flag w =
     (if svr = None \<or> svr = Some [] \<or> svc = None \<or> svc = Some [] then Some (SW_ERR, w)
      else do {
        found \<leftarrow> procs_get_svr_by_name svr prdt w;
        (case found of
           None \<Rightarrow> Some (SW_ERR, w)
         | Some g \<Rightarrow> do {
             (ret, w1) \<leftarrow> procs_update_process_busystatus_by_name (Some g) svc busy_flag w;
             if ret \<noteq> SW_OK then Some (SW_ERR, w1) else Some (SW_OK, w1)
           })
      })"

text \<open>The loop of the status check, \<open>n\<close> processes left; \<open>svc_curr\<close> is read again in every turn but does not change.\<close>

fun status_loop :: "nat \<Rightarrow> nat \<Rightarrow> int \<Rightarrow> int \<Rightarrow> 'a procs_world_scheme \<Rightarrow> (int \<times> 'a procs_world_scheme) option" where
  "status_loop g 0 i errcnt w = Some (errcnt, w)"
| "status_loop g (Suc n) i errcnt w = do {
     (ret, p, w1) \<leftarrow> procs_get_proces_by_index (Some g) i True w;
     if ret \<noteq> SW_OK then Some (errcnt, w1)
     else status_loop g n (i + 1)
       (case p of None \<Rightarrow> errcnt | Some q \<Rightarrow> if pi_status q \<noteq> SW_S_START then errcnt + 1 else errcnt) w1
   }"

definition procs_check_svr_status ::
    "cstr option \<Rightarrow> cstr option \<Rightarrow> 'a procs_world_scheme \<Rightarrow> (int \<times> 'a procs_world_scheme) option" where
  "procs_check_svr_status svrname prdtname w = do {
     found \<leftarrow> procs_get_svr_by_name svrname prdtname w;
     (case (found, g_procs_head w) of
        (Some g, Some h) \<Rightarrow>
          let curr = area_use (Grp g) h in
          if curr \<le> 0 then Some (SW_ERROR, w)
          else do {
            (errcnt, w1) \<leftarrow> status_loop g (nat curr) 0 0 w;
            Some (if errcnt = curr then SW_ERROR else SW_OK, w1)
          }
      | _ \<Rightarrow> Some (SW_ERROR, w))
   }"

section \<open>Dispatch\<close>

text \<open>Whether a process can take the message.\<close>

definition can_take :: "(int \<Rightarrow> bool) \<Rightarrow> int \<Rightarrow> sw_proc_info \<Rightarrow> bool" where
  "can_take alive msg_type p \<longleftrightarrow>
     0 < pi_pid p \<and> (pi_status p = SW_S_START \<or> pi_status p = SW_S_EXITING \<and> msg_type = SW_MSG_REQ) \<and>
     pub_proc_checkpid alive (pi_pid p) = SW_OK \<and> pi_type p \<noteq> ND_LSN_RCV"

text \<open>The search: \<open>best\<close> is \<^verbatim>\<open>(min, index)\<close>, \<open>None\<close> while no process was found; an idle process ends it.\<close>

fun dst_scan :: "(int \<Rightarrow> bool) \<Rightarrow> int \<Rightarrow> nat \<Rightarrow> (int \<times> nat) option \<Rightarrow> sw_proc_info list \<Rightarrow> (int \<times> nat) option" where
  "dst_scan alive msg_type i best [] = best"
| "dst_scan alive msg_type i best (p # procs) =
     (if can_take alive msg_type p then
        let best1 = (case best of None \<Rightarrow> (pi_task_cnt p, i) | Some b \<Rightarrow> b);
            best2 = (if pi_task_cnt p < fst best1 then (pi_task_cnt p, i) else best1) in
        if pi_busy_flag p = PROC_S_IDLE then Some (fst best2, i)
        else dst_scan alive msg_type (Suc i) (Some best2) procs
      else dst_scan alive msg_type (Suc i) best procs)"

text \<open>The second loop, over the first \<open>n\<close> processes.\<close>

definition lower_counts :: "nat \<Rightarrow> sw_proc_info list \<Rightarrow> sw_proc_info list" where
  "lower_counts n procs =
     map (\<lambda>p. if SW_MAX_TASK_CNT < pi_task_cnt p then p\<lparr>pi_task_cnt := pi_task_cnt p - SW_MAX_TASK_CNT\<rparr> else p)
       (take n procs) @ drop n procs"

definition put_procs :: "nat \<Rightarrow> sw_proc_info list \<Rightarrow> sw_procs_head \<Rightarrow> sw_procs_head" where
  "put_procs g procs h = h\<lparr>ph_apps := take (grp_base h (ph_grps h ! g)) (ph_apps h) @ procs\<rparr>"

text \<open>The counter is unsigned, of 32 bits, and counted up after the lock is released.\<close>

definition procs_get_dst_proc ::
    "(int \<Rightarrow> bool) \<Rightarrow> cstr option \<Rightarrow> cstr option \<Rightarrow> int \<Rightarrow> bool \<Rightarrow> 'a procs_world_scheme
     \<Rightarrow> (int \<times> sw_proc_info option \<times> 'a procs_world_scheme) option" where
  "procs_get_dst_proc alive svr prdt msg_type outp w =
     (case g_procs_head w of
        None \<Rightarrow> Some (SW_ERR, None, w)
      | Some h \<Rightarrow>
          if svr = None \<or> svr = Some [] then Some (SW_ERR, None, w)
          else do {
            found \<leftarrow> procs_get_svr_by_name svr prdt w;
            (case found of
               None \<Rightarrow> Some (SW_ERR, None, w)
             | Some g \<Rightarrow> do {
                 let lock_id = sg_lock_id (ph_grps h ! g);
                 let procs = area_procs (Grp g) h;
                 let curr = area_use (Grp g) h;
                 (_, w1) \<leftarrow> sem_read_lock lock_id w;
                 if int (length procs) < curr then None
                 else
                   (case dst_scan alive msg_type 0 None (take (nat curr) procs) of
                      None \<Rightarrow> do {
                        (_, w2) \<leftarrow> sem_read_unlock lock_id w1;
                        Some (SW_ERR, None, w2)
                      }
                    | Some (mn, index) \<Rightarrow>
                        if area_max (Grp g) h < int index then do {
                          (_, w2) \<leftarrow> sem_read_unlock lock_id w1;
                          Some (SW_ERR, None, w2)
                        }
                        else if \<not> outp then None
                        else do {
                          let p = (procs ! index)\<lparr>pi_busy_flag :=
                            if pi_busy_flag (procs ! index) = PROC_S_IDLE then PROC_S_BUSYING
                            else pi_busy_flag (procs ! index)\<rparr>;
                          let h1 = put_proc (Grp g) index p h;
                          (_, w2) \<leftarrow> sem_read_unlock lock_id (w1\<lparr>g_procs_head := Some h1\<rparr>);
                          let p1 = p\<lparr>pi_task_cnt := (pi_task_cnt p + 1) mod 2 ^ 32\<rparr>;
                          let h2 = put_proc (Grp g) index p1 h1;
                          if SW_MAX_TASK_CNT < mn then do {
                            (_, w3) \<leftarrow> sem_write_lock lock_id (w2\<lparr>g_procs_head := Some h2\<rparr>);
                            let h3 = put_procs g (lower_counts (nat curr) (area_procs (Grp g) h2)) h2;
                            (_, w4) \<leftarrow> sem_write_unlock lock_id (w3\<lparr>g_procs_head := Some h3\<rparr>);
                            Some (SW_OK, Some p, w4)
                          }
                          else Some (SW_OK, Some p, w2\<lparr>g_procs_head := Some h2\<rparr>)
                        })
               })
          })"

section \<open>Descriptions\<close>

definition g_proc_stat_desc :: "(int \<times> cstr) list" where
  "g_proc_stat_desc =
     [(100, ''NORMAL''), (101, ''STOPED''), (104, ''STOPPING''), (108, ''ABORTED''), (102, ''KILLED''),
      (999, ''ABNORMAL''), (900, ''NOT RUNNING''), (103, ''NOT REACHABLE''), (1, ''NORMAL(ON)''), (0, ''NORMAL(OFF)'')]"

definition g_proc_type_desc :: "(int \<times> cstr) list" where
  "g_proc_type_desc =
     [(101, ''LSN''), (500, ''SVC''), (30, ''TASK''), (40, ''SVR''), (41, ''DO''), (60, ''SAF''), (61, ''LOG''),
      (62, ''POL''), (64, ''RES''), (65, ''JOB''), (70, ''ADM''), (80, ''ALERT'')]"

definition procs_get_stat_desc :: "int \<Rightarrow> cstr option" where
  "procs_get_stat_desc status = map_of g_proc_stat_desc status"

definition procs_get_type_desc :: "int \<Rightarrow> cstr option" where
  "procs_get_type_desc typ = map_of g_proc_type_desc typ"

section \<open>The search for a process\<close>

text \<open>The processes of a list that can take a message, and those of them that are idle.\<close>

definition takers :: "(int \<Rightarrow> bool) \<Rightarrow> int \<Rightarrow> sw_proc_info list \<Rightarrow> nat set" where
  "takers alive msg_type procs = {k. k < length procs \<and> can_take alive msg_type (procs ! k)}"

definition idle_takers :: "(int \<Rightarrow> bool) \<Rightarrow> int \<Rightarrow> sw_proc_info list \<Rightarrow> nat set" where
  "idle_takers alive msg_type procs = {k \<in> takers alive msg_type procs. pi_busy_flag (procs ! k) = PROC_S_IDLE}"

text \<open>\<open>chosen\<close>: the first idle one, or, when none is idle, one with the smallest task count.\<close>

definition chosen :: "(int \<Rightarrow> bool) \<Rightarrow> int \<Rightarrow> sw_proc_info list \<Rightarrow> nat \<Rightarrow> bool" where
  "chosen alive msg_type procs k \<longleftrightarrow>
     (if idle_takers alive msg_type procs = {}
      then k \<in> takers alive msg_type procs \<and>
        (\<forall>j \<in> takers alive msg_type procs. pi_task_cnt (procs ! k) \<le> pi_task_cnt (procs ! j))
      else k \<in> idle_takers alive msg_type procs \<and> (\<forall>j \<in> idle_takers alive msg_type procs. k \<le> j))"

lemma takers_snoc:
  "takers alive mt (ps @ [p]) = (if can_take alive mt p then insert (length ps) (takers alive mt ps) else takers alive mt ps)"
  by (auto simp: takers_def nth_append less_Suc_eq)

lemma idle_takers_snoc:
  "idle_takers alive mt (ps @ [p]) =
     (if can_take alive mt p \<and> pi_busy_flag p = PROC_S_IDLE then insert (length ps) (idle_takers alive mt ps)
      else idle_takers alive mt ps)"
  by (auto simp: idle_takers_def takers_snoc takers_def nth_append)

text \<open>The state of the search after the processes \<open>ps\<close>.\<close>

definition searched :: "(int \<Rightarrow> bool) \<Rightarrow> int \<Rightarrow> sw_proc_info list \<Rightarrow> (int \<times> nat) option \<Rightarrow> bool" where
  "searched alive mt ps best \<longleftrightarrow> idle_takers alive mt ps = {} \<and>
     (case best of None \<Rightarrow> takers alive mt ps = {}
      | Some (m, k) \<Rightarrow> k \<in> takers alive mt ps \<and> m = pi_task_cnt (ps ! k) \<and>
          (\<forall>j \<in> takers alive mt ps. m \<le> pi_task_cnt (ps ! j)))"

text \<open>The processes the search has looked at: all that can take the message, up to the first idle one.\<close>

definition seen :: "(int \<Rightarrow> bool) \<Rightarrow> int \<Rightarrow> sw_proc_info list \<Rightarrow> nat \<Rightarrow> nat set" where
  "seen alive msg_type procs k =
     {j \<in> takers alive msg_type procs. idle_takers alive msg_type procs \<noteq> {} \<longrightarrow> j \<le> k}"

lemma dst_scan_spec:
  assumes "searched alive mt ps best"
  shows "(case dst_scan alive mt (length ps) best qs of
      None \<Rightarrow> takers alive mt (ps @ qs) = {}
    | Some (m, k) \<Rightarrow> chosen alive mt (ps @ qs) k \<and> (\<exists>j \<in> seen alive mt (ps @ qs) k. m = pi_task_cnt ((ps @ qs) ! j)) \<and>
        (\<forall>j \<in> seen alive mt (ps @ qs) k. m \<le> pi_task_cnt ((ps @ qs) ! j)))"
  using assms
proof (induction qs arbitrary: ps best)
  case Nil
  then show ?case by (auto simp: searched_def chosen_def seen_def split: option.splits)
next
  case (Cons p qs)
  note none = Cons.prems [unfolded searched_def, THEN conjunct1]
  show ?case
  proof (cases "can_take alive mt p")
    case False
    then have "searched alive mt (ps @ [p]) best"
      using Cons.prems by (auto simp: searched_def takers_snoc idle_takers_snoc takers_def nth_append split: option.splits)
    from Cons.IH [OF this, unfolded append_assoc append_Cons append_Nil] False show ?thesis by simp
  next
    case True
    define best1 where "best1 = (case best of None \<Rightarrow> (pi_task_cnt p, length ps) | Some b \<Rightarrow> b)"
    define best2 where "best2 = (if pi_task_cnt p < fst best1 then (pi_task_cnt p, length ps) else best1)"
    have best2: "snd best2 \<in> takers alive mt (ps @ [p]) \<and> fst best2 = pi_task_cnt ((ps @ [p]) ! snd best2) \<and>
        (\<forall>j \<in> takers alive mt (ps @ [p]). fst best2 \<le> pi_task_cnt ((ps @ [p]) ! j))"
      using True Cons.prems
      by (auto simp: best2_def best1_def searched_def takers_snoc takers_def nth_append split: option.splits)
    have eqn: "dst_scan alive mt (length ps) best (p # qs) =
        (if pi_busy_flag p = PROC_S_IDLE then Some (fst best2, length ps)
         else dst_scan alive mt (Suc (length ps)) (Some best2) qs)"
      using True by (simp add: best1_def best2_def Let_def)
    show ?thesis
    proof (cases "pi_busy_flag p = PROC_S_IDLE")
      case idle: True
      have mem: "length ps \<in> idle_takers alive mt (ps @ p # qs)"
        using True idle by (simp add: idle_takers_def takers_def)
      moreover have "\<forall>j \<in> idle_takers alive mt (ps @ p # qs). length ps \<le> j"
        using none by (auto simp: idle_takers_def takers_def nth_append not_le split: if_splits)
      ultimately have "chosen alive mt (ps @ p # qs) (length ps)" by (auto simp: chosen_def)
      moreover have sn: "seen alive mt (ps @ p # qs) (length ps) = takers alive mt (ps @ [p])"
        using mem by (auto simp: seen_def takers_def nth_append nth_Cons' less_Suc_eq le_less split: if_splits)
      have same: "(ps @ p # qs) ! j = (ps @ [p]) ! j" if "j \<in> takers alive mt (ps @ [p])" for j
        using that by (auto simp: takers_def nth_append nth_Cons' less_Suc_eq)
      ultimately show ?thesis
        unfolding eqn sn if_P [OF idle] option.case prod.case using best2 by (metis same)
    next
      case busy: False
      then have "searched alive mt (ps @ [p]) (Some best2)"
        using best2 none by (auto simp: searched_def idle_takers_snoc split: prod.splits)
      from Cons.IH [OF this, unfolded append_assoc append_Cons append_Nil] show ?thesis unfolding eqn using busy by simp
    qed
  qed
qed


section \<open>Dispatch\<close>

lemma frame_procs: "sem_frame (\<lambda>w. w\<lparr>g_procs_head := x\<rparr>)"
  by (rule sem_frameI) simp_all

lemmas read_release = rdlock.release_took [OF _ frame_procs, simplified]
lemmas write_release = wrlock.release_took [OF _ frame_procs, simplified]

lemma put_proc_twice: "put_proc a k p (put_proc a k q h) = put_proc a k p h"
  by (cases a) (simp_all add: put_proc_def grp_base_def)

lemma area_put_same:
  "k < length (area_procs a h) \<Longrightarrow> area_procs a (put_proc a k p h) = (area_procs a h)[k := p]"
  by (cases a) (simp_all add: area_procs_def put_proc_def grp_base_def drop_update_swap)

lemma svr_found_name: "procs_get_svr_by_name svr prdt w = Some (Some g) \<Longrightarrow> svr \<noteq> None \<and> svr \<noteq> Some []"
  by (auto simp: procs_get_svr_by_name_def split: option.splits if_splits)

text \<open>The table a dispatch leaves: the chosen process counts one task more, and when every process that was looked at
  has more than \<^verbatim>\<open>SW_MAX_TASK_CNT\<close> of them, all counts of the group above it are lowered.\<close>

definition dispatched :: "(int \<Rightarrow> bool) \<Rightarrow> int \<Rightarrow> nat \<Rightarrow> nat \<Rightarrow> sw_proc_info \<Rightarrow> sw_procs_head \<Rightarrow> sw_procs_head" where
  "dispatched alive mt g k p h =
     (let n = nat (area_use (Grp g) h); procs = take n (area_procs (Grp g) h);
          h1 = put_proc (Grp g) k (p\<lparr>pi_task_cnt := (pi_task_cnt p + 1) mod 2 ^ 32\<rparr>) h in
      if \<forall>j \<in> seen alive mt procs k. SW_MAX_TASK_CNT < pi_task_cnt (procs ! j)
      then put_procs g (lower_counts n (area_procs (Grp g) h1)) h1 else h1)"

lemma dispatch:
  assumes h: "g_procs_head w = Some h" and found: "procs_get_svr_by_name svr prdt w = Some (Some g)"
    and free: "sem_free (sg_lock_id (ph_grps h ! g)) w"
    and fits: "area_use (Grp g) h \<le> area_max (Grp g) h" "area_use (Grp g) h \<le> int (length (area_procs (Grp g) h))"
  defines "procs \<equiv> take (nat (area_use (Grp g) h)) (area_procs (Grp g) h)"
  shows "if takers alive mt procs = {} then procs_get_dst_proc alive svr prdt mt True w = Some (SW_ERR, None, w)
    else \<exists>k p. chosen alive mt procs k \<and>
      p = (procs ! k)\<lparr>pi_busy_flag :=
        if pi_busy_flag (procs ! k) = PROC_S_IDLE then PROC_S_BUSYING else pi_busy_flag (procs ! k)\<rparr> \<and>
      procs_get_dst_proc alive svr prdt mt True w = Some (SW_OK, Some p, w\<lparr>g_procs_head := Some (dispatched alive mt g k p h)\<rparr>)"
proof -
  let ?lid = "sg_lock_id (ph_grps h ! g)"
  have "searched alive mt [] None" by (simp add: searched_def idle_takers_def takers_def)
  from dst_scan_spec [OF this, of procs, unfolded append_Nil list.size(3)] have scan:
    "case dst_scan alive mt 0 None procs of None \<Rightarrow> takers alive mt procs = {}
     | Some (m, k) \<Rightarrow> chosen alive mt procs k \<and> (\<exists>j \<in> seen alive mt procs k. m = pi_task_cnt (procs ! j)) \<and>
         (\<forall>j \<in> seen alive mt procs k. m \<le> pi_task_cnt (procs ! j))" .
  note lock = sem_acquire_free(2) [OF free]
  have unlocked: "sem_read_unlock ?lid (sem_took 1 ?lid w) = Some (0, w)" by (rule rdlock.held_then_freed [OF free])
  show ?thesis
  proof (cases "dst_scan alive mt 0 None procs")
    case None
    have "procs_get_dst_proc alive svr prdt mt True w = Some (SW_ERR, None, w)"
      using h found svr_found_name [OF found] lock fits(2) unlocked None
      by (auto simp: procs_get_dst_proc_def procs_def Let_def)
    with None scan show ?thesis by simp
  next
    case (Some mk)
    then obtain mn k where mk: "dst_scan alive mt 0 None procs = Some (mn, k)" by (cases mk) simp
    with scan have k: "chosen alive mt procs k"
      and mn: "\<exists>j \<in> seen alive mt procs k. mn = pi_task_cnt (procs ! j)" "\<forall>j \<in> seen alive mt procs k. mn \<le> pi_task_cnt (procs ! j)"
      by simp_all
    then have taker: "k \<in> takers alive mt procs" by (auto simp: chosen_def idle_takers_def split: if_splits)
    then have kl: "k < length (area_procs (Grp g) h)" "int k < area_use (Grp g) h" "procs ! k = area_procs (Grp g) h ! k"
      using fits by (auto simp: takers_def procs_def)
    have big: "SW_MAX_TASK_CNT < mn \<longleftrightarrow> (\<forall>j \<in> seen alive mt procs k. SW_MAX_TASK_CNT < pi_task_cnt (procs ! j))"
      using mn by fastforce
    define q where "q = procs ! k"
    define p where "p = q\<lparr>pi_busy_flag := if pi_busy_flag q = PROC_S_IDLE then PROC_S_BUSYING else pi_busy_flag q\<rparr>"
    have q: "area_procs (Grp g) h ! k = q" using kl(3) by (simp add: q_def)
    have max: "\<not> area_max (Grp g) h < int k" using kl(2) fits(1) by linarith
    define h2 where "h2 = put_proc (Grp g) k (p\<lparr>pi_task_cnt := (pi_task_cnt p + 1) mod 2 ^ 32\<rparr>) h"
    have free2: "sem_free ?lid (w\<lparr>g_procs_head := Some h2\<rparr>)" using free by (rule sem_free_cong [THEN iffD2, rotated 2]) simp_all
    note lock2 = sem_acquire_free(3) [OF free2] write_release [OF free2]
    have "procs_get_dst_proc alive svr prdt mt True w = Some (SW_OK, Some p, w\<lparr>g_procs_head := Some (dispatched alive mt g k p h)\<rparr>)"
    proof (cases "SW_MAX_TASK_CNT < mn")
      case True
      have d: "dispatched alive mt g k p h = put_procs g (lower_counts (nat (area_use (Grp g) h)) (area_procs (Grp g) h2)) h2"
        using True big by (simp add: dispatched_def procs_def [symmetric] h2_def Let_def)
      show ?thesis unfolding d
        using h found svr_found_name [OF found] lock fits(2) mk max read_release [OF free] True lock2 [unfolded h2_def p_def]
        unfolding h2_def p_def
        by (cases "pi_busy_flag q = PROC_S_IDLE")
          (simp_all add: procs_get_dst_proc_def procs_def [symmetric] Let_def q put_proc_twice)
    next
      case False
      have d: "dispatched alive mt g k p h = h2"
        using False big by (auto simp add: dispatched_def procs_def [symmetric] h2_def Let_def)
      show ?thesis unfolding d
        using h found svr_found_name [OF found] lock fits(2) mk max read_release [OF free] False
        unfolding h2_def p_def
        by (cases "pi_busy_flag q = PROC_S_IDLE")
          (simp_all add: procs_get_dst_proc_def procs_def [symmetric] Let_def q put_proc_twice)
    qed
    then show ?thesis using taker k unfolding p_def q_def by auto
  qed
qed


end
