(* ===== verification/Procs_Table.thy ===== *)
theory Procs_Table
  imports Procs
begin

text \<open>
  The process table as a whole: each area is a directory from names to processes, the runs of the groups stay apart under
  every sequence of calls, and a registration is a map update.  The last sections hold what the code does at its limits,
  and the witnesses.
\<close>

section \<open>The directory\<close>

text \<open>The processes registered in an area, by name.\<close>

definition dir :: "proc_area \<Rightarrow> sw_procs_head \<Rightarrow> cstr \<Rightarrow> sw_proc_info option" where
  "dir a h = map_of (map (\<lambda>p. (pi_name p, p)) (take (nat (area_use a h)) (area_procs a h)))"

definition area_wf :: "proc_area \<Rightarrow> sw_procs_head \<Rightarrow> bool" where
  "area_wf a h \<longleftrightarrow> 0 \<le> area_use a h \<and> area_use a h \<le> area_max a h \<and> area_max a h < 2 ^ 31 \<and>
     area_max a h \<le> int (length (area_procs a h)) \<and>
     distinct (map pi_name (take (nat (area_use a h)) (area_procs a h))) \<and>
     (\<forall>k. k < nat (area_use a h) \<longrightarrow> pi_name (area_procs a h ! k) \<noteq> []) \<and>
     (\<forall>k. nat (area_use a h) \<le> k \<and> k < nat (area_max a h) \<longrightarrow> pi_name (area_procs a h ! k) = [])"

lemma map_of_update:
  assumes "k < length ps" and "pi_name (ps ! k) = pi_name p" and "distinct (map pi_name ps)"
  shows "map_of (map (\<lambda>p. (pi_name p, p)) (ps[k := p])) = (map_of (map (\<lambda>p. (pi_name p, p)) ps))(pi_name p \<mapsto> p)"
  using assms
proof (induction ps arbitrary: k)
  case (Cons q ps)
  show ?case
  proof (cases k)
    case 0
    with Cons.prems show ?thesis by (auto simp: fun_eq_iff)
  next
    case (Suc j)
    have "pi_name q \<noteq> pi_name p"
      using Cons.prems Suc by (metis (no_types, lifting) distinct.simps(2) length_Cons list.map(2) nth_Cons_Suc not_less_eq length_map nth_map nth_mem)
    with Cons.IH [of j] Cons.prems Suc show ?thesis by (auto simp: fun_eq_iff)
  qed
qed simp

lemma map_of_snoc:
  assumes "pi_name p \<notin> pi_name ` set ps"
  shows "map_of (map (\<lambda>p. (pi_name p, p)) (ps @ [p])) = (map_of (map (\<lambda>p. (pi_name p, p)) ps))(pi_name p \<mapsto> p)"
  using assms by (induction ps) (auto simp: fun_upd_twist)

lemma find_idx_dir:
  "find_idx (\<lambda>p. pi_name p = n) ps = None \<Longrightarrow> map_of (map (\<lambda>p. (pi_name p, p)) ps) n = None"
  "find_idx (\<lambda>p. pi_name p = n) ps = Some k \<Longrightarrow> map_of (map (\<lambda>p. (pi_name p, p)) ps) n = Some (ps ! k)"
  by (induction ps arbitrary: k) (auto split: if_splits)

lemma area_simps [simp]:
  "area_use b (put_proc a k p h) = area_use b h" "area_max b (put_proc a k p h) = area_max b h"
  by (cases a; cases b; simp add: area_use_def area_max_def put_proc_def)+

lemma area_set_use [simp]:
  "area_max a (set_use a n h) = area_max a h" "area_procs a (set_use a n h) = area_procs a h"
proof -
  have same: "f ((xs[i := (xs ! i)\<lparr>sg_svc_curr := n\<rparr>]) ! i) = f (xs ! i)"
    if "\<And>g. f (g\<lparr>sg_svc_curr := n\<rparr>) = f g" for f :: "sw_svr_grp \<Rightarrow> int" and xs i
    using that by (cases "i < length xs") (simp_all add: not_less list_update_beyond)
  show "area_max a (set_use a n h) = area_max a h"
    by (cases a) (simp_all add: area_max_def set_use_def same)
  show "area_procs a (set_use a n h) = area_procs a h"
    by (cases a) (simp_all add: area_procs_def set_use_def grp_base_def same)
qed

definition area_there :: "proc_area \<Rightarrow> sw_procs_head \<Rightarrow> bool" where
  "area_there a h \<longleftrightarrow> (case a of Sys \<Rightarrow> True | Grp g \<Rightarrow> g < length (ph_grps h))"

lemma area_use_set: "area_there a h \<Longrightarrow> area_use a (set_use a n h) = n"
  by (cases a) (simp_all add: area_use_def set_use_def area_there_def)

text \<open>What a registration stores: a process that comes back keeps its task count, a new one starts with the full number
  of restarts.\<close>

definition registered :: "int \<Rightarrow> sw_proc_info option \<Rightarrow> sw_proc_info \<Rightarrow> sw_proc_info" where
  "registered now old info =
     (case old of
        Some p \<Rightarrow> info\<lparr>pi_task_cnt := pi_task_cnt p, pi_busy_flag := PROC_S_IDLE, pi_starttime := now\<rparr>
      | None \<Rightarrow> info\<lparr>pi_task_cnt := 0, pi_busy_flag := PROC_S_IDLE, pi_starttime := now,
          pi_restart_cnt := MAX_RESTART_CNT\<rparr>)"

text \<open>Under the invariant the search of \<open>procs_register\<close> is a look-up in the directory.\<close>

lemma slot_spec:
  assumes wf: "area_wf a h" and nm: "nm \<noteq> []"
  shows "proc_slot nm (area_max a h) (area_use a h) (area_procs a h) =
    (case find_idx (\<lambda>p. pi_name p = nm) (take (nat (area_use a h)) (area_procs a h)) of
       Some i \<Rightarrow> Some (Some (i, pi_task_cnt (area_procs a h ! i), False))
     | None \<Rightarrow> if area_use a h = area_max a h then Some None else Some (Some (nat (area_use a h), 0, True)))"
proof -
  let ?procs = "area_procs a h" and ?u = "nat (area_use a h)" and ?m = "nat (area_max a h)"
  have le: "?u \<le> ?m" "?m \<le> length ?procs" "\<not> int (length ?procs) < area_max a h"
    using wf by (auto simp: area_wf_def)
  have blank: "pi_name (?procs ! k) = []" if "?u \<le> k" "k < ?m" for k
    using wf that by (auto simp: area_wf_def)
  show ?thesis
  proof (cases "find_idx (\<lambda>p. pi_name p = nm) (take ?u ?procs)")
    case (Some i)
    then have i: "i < ?u" "pi_name (?procs ! i) = nm" "\<And>j. j < i \<Longrightarrow> pi_name (?procs ! j) \<noteq> nm"
      using find_idx_Some [OF Some] by auto
    then have "find_idx (\<lambda>p. pi_name p = nm) (take ?m ?procs) = Some i"
      using le by (intro find_idx_eqI) auto
    with Some show ?thesis by (simp add: proc_slot_def)
  next
    case None
    have none: "find_idx (\<lambda>p. pi_name p = nm) (take ?m ?procs) = None"
      unfolding find_idx_None
    proof
      fix p
      assume "p \<in> set (take ?m ?procs)"
      then obtain k where k: "k < ?m" "p = ?procs ! k" using le(2) by (auto simp: in_set_conv_nth)
      show "pi_name p \<noteq> nm"
      proof (cases "k < ?u")
        case True
        then have "p \<in> set (take ?u ?procs)" using k le by (auto simp: in_set_conv_nth intro!: exI [of _ k])
        then show ?thesis using None by (simp add: find_idx_None)
      next
        case False
        then show ?thesis using blank [of k] k nm by simp
      qed
    qed
    have "find_idx (\<lambda>p. pi_name p = []) (drop ?u (take ?m ?procs)) = (if ?u = ?m then None else Some 0)"
    proof (cases "?u = ?m")
      case False
      then have lt: "?u < ?m" using le(1) by (rule le_neq_implies_less [rotated])
      then have "pi_name (take ?m ?procs ! ?u) = []" unfolding nth_take [OF lt] by (rule blank [OF order.refl])
      then show ?thesis using le False lt by (auto intro!: find_idx_eqI)
    qed (use le in simp)
    moreover have "?u = ?m \<longleftrightarrow> area_use a h = area_max a h" using wf by (auto simp: area_wf_def)
    ultimately show ?thesis using None none le(3) by (simp add: proc_slot_def)
  qed
qed

text \<open>A process with the name of the entry it replaces changes this name only.\<close>

lemma put_known:
  assumes wf: "area_wf a h" and k: "k < nat (area_use a h)" and nm: "pi_name (area_procs a h ! k) = pi_name p"
  shows "area_wf a (put_proc a k p h) \<and> dir a (put_proc a k p h) = (dir a h)(pi_name p \<mapsto> p)"
proof -
  let ?procs = "area_procs a h" and ?u = "nat (area_use a h)"
  have le: "?u \<le> length ?procs" using wf by (auto simp: area_wf_def)
  have put: "area_procs a (put_proc a k p h) = ?procs[k := p]" using k le by (simp add: area_put_same)
  have names: "map pi_name (take ?u (?procs[k := p])) = map pi_name (take ?u ?procs)"
    using k le nm by (auto intro!: nth_equalityI simp: nth_list_update)
  have "area_wf a (put_proc a k p h)"
    using wf k le nm unfolding area_wf_def put area_simps names by (auto simp: nth_list_update)
  moreover have "dir a (put_proc a k p h) = (dir a h)(pi_name p \<mapsto> p)"
    unfolding dir_def put area_simps take_update_swap
    using k le nm wf by (intro map_of_update) (auto simp: area_wf_def)
  ultimately show ?thesis ..
qed

text \<open>A process with a new name takes the entry behind those in use.\<close>

lemma put_new:
  assumes wf: "area_wf a h" and there: "area_there a h" and nm: "pi_name p \<noteq> []" "dir a h (pi_name p) = None"
    and room: "area_use a h < area_max a h"
  defines "h' \<equiv> put_proc a (nat (area_use a h)) p (set_use a (area_use a h + 1) h)"
  shows "area_wf a h' \<and> dir a h' = (dir a h)(pi_name p \<mapsto> p)"
proof -
  let ?procs = "area_procs a h" and ?u = "nat (area_use a h)"
  have le: "?u < length ?procs" using wf room by (auto simp: area_wf_def)
  have use': "area_use a h' = area_use a h + 1" using there by (simp add: h'_def area_use_set)
  have nat_use: "nat (area_use a h + 1) = Suc ?u" using wf by (auto simp: area_wf_def)
  have procs': "area_procs a h' = ?procs[?u := p]" using le by (simp add: h'_def area_put_same)
  have max': "area_max a h' = area_max a h" by (simp add: h'_def)
  have tk: "take (Suc ?u) (?procs[?u := p]) = take ?u ?procs @ [p]"
    using le by (simp add: take_Suc_conv_app_nth)
  have fresh: "pi_name p \<notin> pi_name ` set (take ?u ?procs)"
    using nm(2) by (auto simp: dir_def map_of_eq_None_iff image_image)
  have "area_wf a h'"
    using wf room nm(1) fresh le unfolding area_wf_def use' max' procs' nat_use tk
    by (auto simp: nth_list_update less_Suc_eq)
  moreover have "dir a h' = (dir a h)(pi_name p \<mapsto> p)"
    unfolding dir_def use' procs' nat_use tk using fresh by (rule map_of_snoc)
  ultimately show ?thesis ..
qed

section \<open>The table as a whole\<close>

definition group_live :: "nat \<Rightarrow> sw_procs_head \<Rightarrow> bool" where
  "group_live i h \<longleftrightarrow> i < nat (ph_svr_grp_use h)"

definition area_live :: "proc_area \<Rightarrow> sw_procs_head \<Rightarrow> bool" where
  "area_live a h \<longleftrightarrow> (case a of Sys \<Rightarrow> True | Grp i \<Rightarrow> group_live i h)"

text \<open>The run of a group in the array of the processes.\<close>

definition run_first :: "sw_procs_head \<Rightarrow> nat \<Rightarrow> nat" where
  "run_first h i = grp_base h (ph_grps h ! i)"

definition run_end :: "sw_procs_head \<Rightarrow> nat \<Rightarrow> nat" where
  "run_end h i = run_first h i + nat (sg_svc_max (ph_grps h ! i))"

text \<open>The table is well-formed; of its first \<open>m\<close> group slots, those behind the groups in use have no name.\<close>

definition table_wf :: "nat \<Rightarrow> sw_procs_head \<Rightarrow> bool" where
  "table_wf m h \<longleftrightarrow>
     0 \<le> ph_svr_grp_use h \<and> ph_svr_grp_use h \<le> ph_svr_grp_max h \<and> ph_svr_grp_max h < 2 ^ 31 \<and>
     ph_svr_grp_max h \<le> int (length (ph_grps h)) \<and>
     0 \<le> ph_app_proc_use h \<and> ph_app_proc_use h \<le> ph_app_proc_max h \<and>
     ph_app_proc_max h \<le> int (length (ph_apps h)) \<and>
     0 \<le> ph_app_porc_offset h \<and> ph_app_porc_offset h + ph_app_proc_max h * PROC_INFO_SIZE < 2 ^ 31 \<and>
     (\<forall>i < m. sg_svrname (ph_grps h ! i) = [] \<longleftrightarrow> \<not> group_live i h) \<and>
     (\<forall>i. group_live i h \<longrightarrow> run_end h i \<le> nat (ph_app_proc_use h)) \<and>
     (\<forall>i j. i < j \<and> group_live j h \<longrightarrow> run_end h i \<le> run_first h j) \<and>
     (\<forall>k. nat (ph_app_proc_use h) \<le> k \<and> k < length (ph_apps h) \<longrightarrow> pi_name (ph_apps h ! k) = []) \<and>
     (\<forall>a. area_live a h \<longrightarrow> area_wf a h)"

abbreviation procs_wf :: "sw_procs_head \<Rightarrow> bool" where
  "procs_wf h \<equiv> table_wf (nat (ph_svr_grp_max h)) h"

lemma live_there: "table_wf m h \<Longrightarrow> area_live a h \<Longrightarrow> area_there a h"
  by (auto simp: table_wf_def area_live_def area_there_def group_live_def split: proc_area.splits)

text \<open>An area is well-formed by its counters and the names in it.\<close>

definition names_ok :: "int \<Rightarrow> int \<Rightarrow> cstr list \<Rightarrow> bool" where
  "names_ok n mx names \<longleftrightarrow> 0 \<le> n \<and> n \<le> mx \<and> mx < 2 ^ 31 \<and> mx \<le> int (length names) \<and>
     distinct (take (nat n) names) \<and> (\<forall>k. k < nat n \<longrightarrow> names ! k \<noteq> []) \<and>
     (\<forall>k. nat n \<le> k \<and> k < nat mx \<longrightarrow> names ! k = [])"

lemma area_wf_names: "area_wf a h \<longleftrightarrow> names_ok (area_use a h) (area_max a h) (map pi_name (area_procs a h))"
proof (cases "0 \<le> area_use a h \<and> area_use a h \<le> area_max a h \<and> area_max a h \<le> int (length (area_procs a h))")
  case True
  then have "nat (area_use a h) \<le> length (area_procs a h)" "nat (area_max a h) \<le> length (area_procs a h)" by auto
  then show ?thesis unfolding area_wf_def names_ok_def take_map length_map by auto
qed (auto simp: area_wf_def names_ok_def)

text \<open>Calls that rewrite entries without changing a name.\<close>

definition same_names :: "sw_procs_head \<Rightarrow> sw_procs_head \<Rightarrow> bool" where
  "same_names h h' \<longleftrightarrow> (\<exists>xs ys. h' = h\<lparr>ph_sys := xs, ph_apps := ys\<rparr> \<and>
     map pi_name xs = map pi_name (ph_sys h) \<and> map pi_name ys = map pi_name (ph_apps h))"

lemma same_names_wf:
  assumes "same_names h h'" and "table_wf m h"
  shows "table_wf m h'"
proof -
  obtain xs ys where h': "h' = h\<lparr>ph_sys := xs, ph_apps := ys\<rparr>"
    and xs: "map pi_name xs = map pi_name (ph_sys h)" and ys: "map pi_name ys = map pi_name (ph_apps h)"
    using assms(1) by (auto simp: same_names_def)
  have area: "area_wf a h' = area_wf a h" for a
    unfolding area_wf_names
    by (cases a) (simp_all add: h' area_use_def area_max_def area_procs_def grp_base_def xs ys drop_map [symmetric])
  have len: "length ys = length (ph_apps h)" using ys by (metis length_map)
  have nth: "pi_name (ys ! k) = pi_name (ph_apps h ! k)" if "k < length (ph_apps h)" for k
    using ys that len by (metis nth_map)
  have keep: "run_first h' i = run_first h i" "run_end h' i = run_end h i" "group_live i h' = group_live i h"
    "area_live a h' = area_live a h" for i a
    by (cases a; simp add: h' run_first_def run_end_def group_live_def area_live_def grp_base_def)+
  from assms(2) show ?thesis
    unfolding table_wf_def keep area by (simp add: h' len nth)
qed

lemma same_namesI:
  "map pi_name xs = map pi_name (ph_sys h) \<Longrightarrow> map pi_name ys = map pi_name (ph_apps h) \<Longrightarrow>
     same_names h (h\<lparr>ph_sys := xs, ph_apps := ys\<rparr>)"
  unfolding same_names_def by blast

lemma update_same_name:
  "(k < length ps \<Longrightarrow> pi_name p = pi_name (ps ! k)) \<Longrightarrow> map pi_name (ps[k := p]) = map pi_name ps"
  by (cases "k < length ps") (simp_all add: map_update list_update_same_conv list_update_beyond)

lemma same_names_put:
  assumes "k < length (area_procs a h) \<Longrightarrow> pi_name p = pi_name (area_procs a h ! k)"
  shows "same_names h (put_proc a k p h)"
proof (cases a)
  case Sys
  with assms same_namesI [of "(ph_sys h)[k := p]" h "ph_apps h"] update_same_name [of k "ph_sys h" p]
  show ?thesis by (simp add: area_procs_def put_proc_def)
next
  case (Grp g)
  let ?i = "grp_base h (ph_grps h ! g) + k"
  have "?i < length (ph_apps h) \<Longrightarrow> pi_name p = pi_name (ph_apps h ! ?i)"
    using assms Grp by (simp add: area_procs_def less_diff_conv add.commute)
  with Grp same_namesI [of "ph_sys h" h "(ph_apps h)[?i := p]"] update_same_name [of ?i "ph_apps h" p]
  show ?thesis by (simp add: put_proc_def)
qed

lemma same_names_refl: "same_names h h"
  using same_namesI [of "ph_sys h" h "ph_apps h"] by simp

lemma same_names_trans: "same_names h h1 \<Longrightarrow> same_names h1 h2 \<Longrightarrow> same_names h h2"
  using same_namesI by (fastforce simp: same_names_def)

text \<open>The system calls on the locks leave the table alone.\<close>

lemma sem_keeps_head:
  "sem_read_lock l w = Some (r, w1) \<Longrightarrow> g_procs_head w1 = g_procs_head w"
  "sem_read_unlock l w = Some (r, w1) \<Longrightarrow> g_procs_head w1 = g_procs_head w"
  "sem_write_lock l w = Some (r, w1) \<Longrightarrow> g_procs_head w1 = g_procs_head w"
  "sem_write_unlock l w = Some (r, w1) \<Longrightarrow> g_procs_head w1 = g_procs_head w"
  "sem_new_lock_id w = Some (r, w1) \<Longrightarrow> g_procs_head w1 = g_procs_head w"
  by (auto simp: sem_call_defs semop_def sem_new_lock_id_def sem_loc_new_lock_id_def
      split: option.splits if_splits Option.bind_splits prod.splits)

lemma grp_field_set_use:
  assumes "\<And>g. f (g\<lparr>sg_svc_curr := n\<rparr>) = f g"
  shows "f (ph_grps (set_use a n h) ! i) = f (ph_grps h ! i)"
proof (cases a)
  case (Grp j)
  then show ?thesis using assms
    by (cases "j < length (ph_grps h)"; cases "i = j") (simp_all add: set_use_def list_update_beyond not_less)
qed (simp add: set_use_def)

lemma set_use_fields [simp]:
  "ph_svr_grp_use (set_use a n h) = ph_svr_grp_use h" "ph_svr_grp_max (set_use a n h) = ph_svr_grp_max h"
  "length (ph_grps (set_use a n h)) = length (ph_grps h)" "ph_apps (set_use a n h) = ph_apps h"
  "ph_app_proc_use (set_use a n h) = ph_app_proc_use h" "ph_app_proc_max (set_use a n h) = ph_app_proc_max h"
  "ph_app_porc_offset (set_use a n h) = ph_app_porc_offset h" "ph_sys (set_use a n h) = ph_sys h"
  by (cases a; simp add: set_use_def)+

lemma put_proc_fields [simp]:
  "ph_svr_grp_use (put_proc a k p h) = ph_svr_grp_use h" "ph_svr_grp_max (put_proc a k p h) = ph_svr_grp_max h"
  "ph_grps (put_proc a k p h) = ph_grps h" "length (ph_apps (put_proc a k p h)) = length (ph_apps h)"
  "ph_app_proc_use (put_proc a k p h) = ph_app_proc_use h" "ph_app_proc_max (put_proc a k p h) = ph_app_proc_max h"
  "ph_app_porc_offset (put_proc a k p h) = ph_app_porc_offset h" "length (ph_sys (put_proc a k p h)) = length (ph_sys h)"
  by (cases a; simp add: put_proc_def)+

lemma runs_fixed [simp]:
  "group_live i (set_use a n h) = group_live i h" "group_live i (put_proc a k p h) = group_live i h"
  "area_live b (set_use a n h) = area_live b h" "area_live b (put_proc a k p h) = area_live b h"
  "run_first (set_use a n h) i = run_first h i" "run_first (put_proc a k p h) i = run_first h i"
  "run_end (set_use a n h) i = run_end h i" "run_end (put_proc a k p h) i = run_end h i"
  by (cases b; simp add: group_live_def area_live_def run_first_def run_end_def grp_base_def grp_field_set_use)+

lemma area_use_other: "a \<noteq> b \<Longrightarrow> area_use b (set_use a n h) = area_use b h"
  by (cases a; cases b) (simp_all add: area_use_def set_use_def)

lemma area_max_set_use [simp]: "area_max b (set_use a n h) = area_max b h"
  by (cases b) (simp_all add: area_max_def grp_field_set_use, simp add: set_use_def split: proc_area.split)

lemma area_procs_set_use [simp]: "area_procs b (set_use a n h) = area_procs b h"
  by (cases b) (simp_all add: area_procs_def grp_base_def grp_field_set_use)

text \<open>The runs of two areas do not meet: a process put into one is not seen in the other.\<close>

lemma area_frame:
  assumes wf: "table_wf m h" and live: "area_live a h" "area_live b h" "a \<noteq> b" and k: "k < nat (area_max a h)"
  shows "take (nat (area_max b h)) (area_procs b (put_proc a k p h)) = take (nat (area_max b h)) (area_procs b h)"
proof (cases "(a, b)")
  case (Pair a' b')
  show ?thesis
  proof (cases a; cases b)
    fix i j
    assume ab: "a = Grp i" "b = Grp j"
    with live(3) have "i < j \<or> j < i" by auto
    then have apart: "run_end h i \<le> run_first h j \<or> run_end h j \<le> run_first h i"
      using wf live ab by (auto simp: table_wf_def area_live_def)
    have k': "run_first h i + k < run_end h i" using k ab by (simp add: run_end_def area_max_def)
    show ?thesis unfolding ab
    proof (rule nth_equalityI)
      fix l
      assume "l < length (take (nat (area_max (Grp j) h)) (area_procs (Grp j) (put_proc (Grp i) k p h)))"
      then have l: "l < nat (area_max (Grp j) h)" "run_first h j + l < length (ph_apps h)"
        by (auto simp: area_procs_def put_proc_def grp_base_def run_first_def)
      then have "run_first h i + k \<noteq> run_first h j + l"
        using apart k' by (auto simp: run_end_def area_max_def)
      then show "take (nat (area_max (Grp j) h)) (area_procs (Grp j) (put_proc (Grp i) k p h)) ! l =
          take (nat (area_max (Grp j) h)) (area_procs (Grp j) h) ! l"
        using l by (simp add: area_procs_def put_proc_def run_first_def [symmetric] grp_base_def nth_list_update)
          (simp add: run_first_def grp_base_def)
    qed (simp add: area_procs_def put_proc_def grp_base_def)
  qed (use live(3) in \<open>simp_all add: area_procs_def put_proc_def grp_base_def\<close>)
qed

lemma area_wf_cong:
  assumes wf: "area_wf b h" and same: "area_use b h' = area_use b h" "area_max b h' = area_max b h"
    and long: "area_max b h \<le> int (length (area_procs b h'))"
    and procs: "take (nat (area_max b h)) (area_procs b h') = take (nat (area_max b h)) (area_procs b h)"
  shows "area_wf b h' \<and> dir b h' = dir b h"
proof -
  let ?u = "nat (area_use b h)" and ?m = "nat (area_max b h)"
  have um: "?u \<le> ?m" using wf by (auto simp: area_wf_def)
  have tk: "take ?u (area_procs b h') = take ?u (area_procs b h)"
    using arg_cong [OF procs, of "take ?u"] um by (simp add: min_absorb1)
  have nth: "area_procs b h' ! k = area_procs b h ! k" if "k < ?m" for k
    using arg_cong [OF procs, of "\<lambda>xs. xs ! k"] that by simp
  have "area_wf b h'"
    using wf long um unfolding area_wf_def same tk by (auto simp: nth)
  moreover have "dir b h' = dir b h" unfolding dir_def same tk ..
  ultimately show ?thesis ..
qed

text \<open>A new process keeps the table well-formed and leaves the other areas as they were.\<close>

lemma put_new_wf:
  assumes wf: "table_wf m h" and live: "area_live a h"
    and nm: "pi_name p \<noteq> []" "dir a h (pi_name p) = None" and room: "area_use a h < area_max a h"
  defines "h' \<equiv> put_proc a (nat (area_use a h)) p (set_use a (area_use a h + 1) h)"
  shows "table_wf m h' \<and> dir a h' = (dir a h)(pi_name p \<mapsto> p) \<and> (\<forall>b. area_live b h \<and> b \<noteq> a \<longrightarrow> dir b h' = dir b h)"
proof -
  have awf: "area_wf b h" if "area_live b h" for b using wf that by (auto simp: table_wf_def)
  let ?h1 = "set_use a (area_use a h + 1) h" and ?u = "nat (area_use a h)"
  have put_set: "area_procs b h' = area_procs b (put_proc a ?u p h)" for b
    by (cases a; cases b) (simp_all add: h'_def area_procs_def put_proc_def grp_base_def grp_field_set_use)
  have u: "?u < nat (area_max a h)" using room awf [OF live] by (auto simp: area_wf_def)
  have own: "area_wf a h' \<and> dir a h' = (dir a h)(pi_name p \<mapsto> p)"
    unfolding h'_def by (rule put_new [OF awf [OF live] live_there [OF wf live] nm room])
  have len: "length (area_procs b (put_proc a ?u p h)) = length (area_procs b h)" for b
    by (cases a; cases b) (simp_all add: area_procs_def put_proc_def grp_base_def)
  have other: "area_wf b h' \<and> dir b h' = dir b h" if b: "area_live b h" "b \<noteq> a" for b
  proof (rule area_wf_cong [OF awf [OF b(1)]])
    show "area_use b h' = area_use b h" unfolding h'_def area_simps by (rule area_use_other) (use b(2) in auto)
    show "area_max b h' = area_max b h" by (simp add: h'_def)
    show "area_max b h \<le> int (length (area_procs b h'))"
      using awf [OF b(1)] by (simp add: put_set len area_wf_def)
    show "take (nat (area_max b h)) (area_procs b h') = take (nat (area_max b h)) (area_procs b h)"
      unfolding put_set by (rule area_frame [OF wf live b(1) _ u]) (use b(2) in auto)
  qed
  have blank: "pi_name (ph_apps h' ! k) = []" if k: "nat (ph_app_proc_use h) \<le> k" "k < length (ph_apps h)" for k
  proof -
    have old: "pi_name (ph_apps h ! k) = []" using wf k by (auto simp: table_wf_def)
    show ?thesis
    proof (cases a)
      case (Grp i)
      then have "run_first h i + ?u < run_end h i" using u by (simp add: run_end_def area_max_def)
      moreover have "run_end h i \<le> nat (ph_app_proc_use h)" using wf live Grp by (auto simp: table_wf_def area_live_def)
      ultimately have "k \<noteq> grp_base h (ph_grps h ! i) + ?u" using k by (simp add: run_first_def)
      then show ?thesis using old
        by (simp add: h'_def Grp put_proc_def grp_base_def grp_field_set_use)
    qed (simp add: h'_def put_proc_def old)
  qed
  have "table_wf m h'"
    using wf own other blank unfolding table_wf_def h'_def
    by (auto simp: grp_field_set_use)
  with own other show ?thesis by blast
qed

text \<open>A process that comes back changes its own entry only.\<close>

lemma put_known_wf:
  assumes wf: "table_wf m h" and live: "area_live a h" and k: "k < nat (area_use a h)"
    and nm: "pi_name (area_procs a h ! k) = pi_name p"
  defines "h' \<equiv> put_proc a k p h"
  shows "table_wf m h' \<and> dir a h' = (dir a h)(pi_name p \<mapsto> p) \<and> (\<forall>b. area_live b h \<and> b \<noteq> a \<longrightarrow> dir b h' = dir b h)"
proof -
  have awf: "area_wf b h" if "area_live b h" for b using wf that by (auto simp: table_wf_def)
  have len: "length (area_procs b (put_proc a k p h)) = length (area_procs b h)" for b
    by (cases a; cases b) (simp_all add: area_procs_def put_proc_def grp_base_def)
  have km: "k < nat (area_max a h)" using k awf [OF live] by (auto simp: area_wf_def)
  have "table_wf m h'" unfolding h'_def using nm by (intro same_names_wf [OF same_names_put wf]) simp
  moreover have "dir a h' = (dir a h)(pi_name p \<mapsto> p)"
    unfolding h'_def using put_known [OF awf [OF live] k nm] by blast
  moreover have "dir b h' = dir b h" if b: "area_live b h" "b \<noteq> a" for b
    unfolding h'_def using awf [OF b(1)] area_frame [OF wf live b(1) _ km, of p] b(2)
    by (intro area_wf_cong [THEN conjunct2]) (auto simp: len area_wf_def)
  ultimately show ?thesis by blast
qed

text \<open>The groups are found as before.\<close>

definition grp_key :: "sw_svr_grp \<Rightarrow> cstr \<times> cstr \<times> int" where
  "grp_key g = (sg_svrname g, sg_prdtname g, sg_lock_id g)"

definition svr_table_same :: "sw_procs_head \<Rightarrow> sw_procs_head \<Rightarrow> bool" where
  "svr_table_same h h' \<longleftrightarrow> ph_lock_id h' = ph_lock_id h \<and> ph_svr_grp_use h' = ph_svr_grp_use h \<and>
     map grp_key (ph_grps h') = map grp_key (ph_grps h)"

lemma find_idx_map: "find_idx P (map f xs) = find_idx (\<lambda>x. P (f x)) xs"
  by (induction xs) simp_all

lemma svr_lookup_same:
  assumes "svr_table_same h h'" and "g_procs_head w = Some h" and "g_procs_head w' = Some h'"
  shows "procs_get_svr_by_name n p w' = procs_get_svr_by_name n p w"
proof -
  have "find_idx (\<lambda>g. Q (sg_prdtname g) (sg_svrname g)) (take m (ph_grps h')) =
      find_idx (\<lambda>g. Q (sg_prdtname g) (sg_svrname g)) (take m (ph_grps h))" for Q m
  proof -
    have "find_idx (\<lambda>(s, p, l). Q p s) (take m (map grp_key (ph_grps h'))) =
        find_idx (\<lambda>(s, p, l). Q p s) (take m (map grp_key (ph_grps h)))"
      using assms(1) by (simp add: svr_table_same_def)
    then show ?thesis unfolding take_map find_idx_map by (simp add: grp_key_def)
  qed
  from this [of "\<lambda>q s. (case p of None \<Rightarrow> True | Some p \<Rightarrow> p = [] \<or> q = p) \<and> s = the n"]
  have scan: "find_idx (\<lambda>g. (case p of None \<Rightarrow> True | Some p \<Rightarrow> p = [] \<or> sg_prdtname g = p) \<and> sg_svrname g = the n)
        (take m (ph_grps h')) =
      find_idx (\<lambda>g. (case p of None \<Rightarrow> True | Some p \<Rightarrow> p = [] \<or> sg_prdtname g = p) \<and> sg_svrname g = the n)
        (take m (ph_grps h))" for m .
  have len: "length (ph_grps h') = length (ph_grps h)"
    using assms(1) by (metis svr_table_same_def length_map)
  show ?thesis
  proof (cases n)
    case (Some x)
    show ?thesis using assms scan [unfolded Some option.sel] len
      by (simp add: procs_get_svr_by_name_def svr_table_same_def Some del: take_map)
  qed (simp add: procs_get_svr_by_name_def split: option.split)
qed

lemma svr_table_same_put: "svr_table_same h (put_proc a k p h)"
  by (cases a) (simp_all add: svr_table_same_def put_proc_def)

lemma svr_table_same_use: "svr_table_same h (set_use a n h)"
proof (cases a)
  case (Grp i)
  have "map grp_key ((ph_grps h)[i := (ph_grps h ! i)\<lparr>sg_svc_curr := n\<rparr>]) = map grp_key (ph_grps h)"
    by (cases "i < length (ph_grps h)")
      (simp_all add: map_update list_update_same_conv list_update_beyond grp_key_def)
  with Grp show ?thesis by (simp add: svr_table_same_def set_use_def)
qed (simp add: svr_table_same_def set_use_def)

lemma svr_table_same_trans: "svr_table_same h h1 \<Longrightarrow> svr_table_same h1 h2 \<Longrightarrow> svr_table_same h h2"
  by (simp add: svr_table_same_def)

lemma svr_table_same_lock:
  assumes "svr_table_same h h'" and "i < length (ph_grps h)"
  shows "sg_lock_id (ph_grps h' ! i) = sg_lock_id (ph_grps h ! i)"
proof -
  have maps: "map grp_key (ph_grps h') = map grp_key (ph_grps h)" using assms(1) by (simp add: svr_table_same_def)
  have "length (ph_grps h') = length (ph_grps h)" using arg_cong [OF maps, of length] by simp
  then show ?thesis using arg_cong [OF maps, of "\<lambda>xs. xs ! i"] assms(2) by (simp add: grp_key_def)
qed

lemma register_spec:
  assumes h: "g_procs_head w = Some h" and wf: "procs_wf h" and live: "area_live a h"
    and free: "0 < lock_id" "sem_free lock_id w" and nm: "pi_name info \<noteq> []"
  shows "if dir a h (pi_name info) = None \<and> area_use a h = area_max a h
    then procs_register now a lock_id (Some info) w = Some (SW_ERR, w)
    else \<exists>h'. procs_register now a lock_id (Some info) w = Some (SW_OK, w\<lparr>g_procs_head := Some h'\<rparr>) \<and>
      procs_wf h' \<and> svr_table_same h h' \<and>
      dir a h' = (dir a h)(pi_name info \<mapsto> registered now (dir a h (pi_name info)) info) \<and>
      (\<forall>b. area_live b h \<and> b \<noteq> a \<longrightarrow> dir b h' = dir b h) \<and>
      (\<exists>k. k < nat (area_max a h) \<and> h' = put_proc a k (registered now (dir a h (pi_name info)) info)
        (if dir a h (pi_name info) = None then set_use a (area_use a h + 1) h else h))"
proof -
  let ?procs = "area_procs a h" and ?u = "nat (area_use a h)"
  have awf: "area_wf a h" using wf live by (simp add: table_wf_def)
  have in_area: "k < nat (area_max a h)" if "k < ?u" for k using that awf by (auto simp: area_wf_def)
  have range: "\<not> (lock_id \<le> 0 \<or> area_use a h < 0 \<or> area_max a h < area_use a h)"
    using awf free(1) by (auto simp: area_wf_def)
  note lock = sem_acquire_free(3) [OF free(2)]
  have unlocked: "sem_write_unlock lock_id (sem_took SEM_VALUE lock_id w) = Some (0, w)"
    by (rule wrlock.held_then_freed [OF free(2)])
  show ?thesis
  proof (cases "find_idx (\<lambda>p. pi_name p = pi_name info) (take ?u ?procs)")
    case (Some i)
    then have i: "i < ?u" "pi_name (?procs ! i) = pi_name info" using find_idx_Some [OF Some] by auto
    have known: "dir a h (pi_name info) = Some (?procs ! i)"
      using find_idx_dir(2) [OF Some] i(1) by (simp add: dir_def)
    define p where "p = registered now (dir a h (pi_name info)) info"
    have pn: "pi_name p = pi_name info" by (simp add: p_def registered_def split: option.split)
    have "procs_register now a lock_id (Some info) w = Some (SW_OK, w\<lparr>g_procs_head := Some (put_proc a i p h)\<rparr>)"
      using h range nm lock write_release [OF free(2)]
      by (simp add: procs_register_def slot_spec [OF awf nm] Some p_def known registered_def Let_def)
    with put_known_wf [OF wf live i(1), of p] i(2) pn known svr_table_same_put in_area [OF i(1)] show ?thesis
      unfolding p_def by auto
  next
    case None
    then have new: "dir a h (pi_name info) = None" by (simp add: dir_def find_idx_dir(1))
    show ?thesis
    proof (cases "area_use a h = area_max a h")
      case True
      have "proc_slot (pi_name info) (area_max a h) (area_use a h) (area_procs a h) = Some None"
        using slot_spec [OF awf nm] None True by simp
      with True show ?thesis using h range nm lock unlocked new by (simp add: procs_register_def)
    next
      case False
      then have room: "area_use a h < area_max a h" using range by linarith
      define p where "p = registered now (dir a h (pi_name info)) info"
      have pn: "pi_name p = pi_name info" by (simp add: p_def registered_def split: option.split)
      have s: "s32 (area_use a h + 1) = area_use a h + 1"
        using awf room by (intro s32_id) (auto simp: area_wf_def)
      have k: "?u < nat (area_max a h)" using room awf by (auto simp: area_wf_def)
      have "procs_register now a lock_id (Some info) w = Some (SW_OK, w\<lparr>g_procs_head :=
          Some (put_proc a ?u p (set_use a (area_use a h + 1) h))\<rparr>)"
        using h range nm lock write_release [OF free(2)] False
        by (simp add: procs_register_def slot_spec [OF awf nm] None p_def new registered_def Let_def s)
      moreover have "\<exists>k' < nat (area_max a h). put_proc a ?u p (set_use a (area_use a h + 1) h) =
          put_proc a k' p (set_use a (area_use a h + 1) h)" using k by blast
      moreover have "svr_table_same h (put_proc a ?u p (set_use a (area_use a h + 1) h))"
        by (rule svr_table_same_trans [OF svr_table_same_use svr_table_same_put])
      ultimately show ?thesis using put_new_wf [OF wf live _ _ room, of p] nm pn new False
        unfolding p_def [symmetric]
        by (simp, intro exI [of _ "put_proc a ?u p (set_use a (area_use a h + 1) h)"]) simp
    qed
  qed
qed

lemma svr_found_live:
  assumes "procs_get_svr_by_name name prdt w = Some (Some i)" and "g_procs_head w = Some h"
  shows "group_live i h"
  using assms find_idx_Some
  by (fastforce simp: procs_get_svr_by_name_def group_live_def split: option.splits if_splits)

text \<open>A new group.\<close>

lemma add_group_wf:
  fixes lid :: int
  assumes wf: "procs_wf h" and nm: "sg_svrname g \<noteq> []" and size: "0 \<le> sg_svc_max g"
    and idx: "find_idx (\<lambda>g. sg_svrname g = []) (take (nat (ph_svr_grp_max h)) (ph_grps h)) = Some n"
    and room: "ph_app_proc_use h + sg_svc_max g < ph_app_proc_max h"
  defines "g' \<equiv> g\<lparr>sg_svc_curr := 0, sg_lock_id := lid, sg_offset := ph_app_porc_offset h + ph_app_proc_use h * PROC_INFO_SIZE\<rparr>"
  defines "h' \<equiv> h\<lparr>ph_grps := (ph_grps h)[n := g'], ph_app_proc_use := ph_app_proc_use h + sg_svc_max g,
    ph_svr_grp_use := ph_svr_grp_use h + 1\<rparr>"
  shows "procs_wf h' \<and> int n = ph_svr_grp_use h \<and> ph_svr_grp_use h < ph_svr_grp_max h \<and>
    (\<forall>a. area_live a h \<longrightarrow> dir a h' = dir a h)"
proof -
  let ?G = "nat (ph_svr_grp_max h)"
  have bounds: "0 \<le> ph_svr_grp_use h" "?G \<le> length (ph_grps h)" "0 \<le> ph_app_proc_use h"
    "ph_app_proc_max h \<le> int (length (ph_apps h))" "0 \<le> ph_svr_grp_max h"
    using wf by (auto simp: table_wf_def)
  have slots: "sg_svrname (ph_grps h ! i) = [] \<longleftrightarrow> \<not> group_live i h" if "i < ?G" for i
    using wf that by (simp add: table_wf_def)
  have n: "n < ?G" "\<not> group_live n h" "\<And>j. j < n \<Longrightarrow> group_live j h"
    using find_idx_Some [OF idx] slots by auto
  then have n_use: "int n = ph_svr_grp_use h"
    using bounds(1) n(3) [of "nat (ph_svr_grp_use h)"] by (cases "nat (ph_svr_grp_use h) < n") (auto simp: group_live_def)
  have live': "group_live i h' \<longleftrightarrow> group_live i h \<or> i = n" for i
    using n_use by (auto simp: group_live_def h'_def)
  have old: "ph_grps h' ! i = ph_grps h ! i" if "i \<noteq> n" for i using that by (simp add: h'_def)
  have new: "ph_grps h' ! n = g'" using n(1) bounds(2) by (simp add: h'_def)
  have base: "grp_base h' = grp_base h" by (simp add: grp_base_def h'_def fun_eq_iff)
  have base_new: "grp_base h g' = nat (ph_app_proc_use h)" by (simp add: grp_base_def g'_def)
  have use': "ph_app_proc_use h' = ph_app_proc_use h + sg_svc_max g" by (simp add: h'_def)
  have gmax: "sg_svc_max g' = sg_svc_max g" by (simp add: g'_def)
  have runs: "run_first h' i = run_first h i" "run_end h' i = run_end h i" if "i \<noteq> n" for i
    using that by (simp_all add: run_first_def run_end_def base old)
  have run_new: "run_first h' n = nat (ph_app_proc_use h)" "run_end h' n = nat (ph_app_proc_use h + sg_svc_max g)"
    using bounds(3) size by (simp_all add: run_first_def run_end_def base new base_new gmax nat_add_distrib)
  have run_le: "run_end h i \<le> nat (ph_app_proc_use h)" if "group_live i h" for i using wf that by (simp add: table_wf_def)
  have before: "run_end h i \<le> run_first h j" if "i < j" "group_live j h" for i j using wf that by (auto simp: table_wf_def)
  have area_old: "area_use a h' = area_use a h \<and> area_max a h' = area_max a h \<and> area_procs a h' = area_procs a h"
    if "area_live a h" for a
  proof (cases a)
    case (Grp i)
    then have "i \<noteq> n" using that n(2) by (auto simp: area_live_def)
    then show ?thesis by (simp add: Grp area_use_def area_max_def area_procs_def base old) (simp add: h'_def)
  qed (simp add: area_use_def area_max_def area_procs_def h'_def)
  have area_old_wf: "area_wf a h' \<and> dir a h' = dir a h" if "area_live a h" for a
    using wf that area_old [OF that] by (intro area_wf_cong) (auto simp: table_wf_def area_wf_def)
  have area_new: "area_wf (Grp n) h'"
  proof -
    have procs: "area_procs (Grp n) h' = drop (nat (ph_app_proc_use h)) (ph_apps h)"
      by (simp add: area_procs_def new base base_new) (simp add: h'_def)
    have counts: "area_use (Grp n) h' = 0" "area_max (Grp n) h' = sg_svc_max g"
      by (simp_all add: area_use_def area_max_def new g'_def)
    have "pi_name (ph_apps h ! (nat (ph_app_proc_use h) + k)) = []" if "k < nat (sg_svc_max g)" for k
      using wf that room bounds by (auto simp: table_wf_def)
    moreover have "sg_svc_max g < 2 ^ 31" using wf room bounds by (auto simp: table_wf_def)
    moreover have "sg_svc_max g \<le> int (length (drop (nat (ph_app_proc_use h)) (ph_apps h)))"
      using room bounds by auto
    ultimately show ?thesis unfolding area_wf_def counts procs using size room bounds by auto
  qed
  have "area_wf a h'" if "area_live a h'" for a
    using that area_old_wf [of a] area_new live' by (cases a) (auto simp: area_live_def)
  moreover have "run_end h' i \<le> nat (ph_app_proc_use h')" if "group_live i h'" for i
  proof (cases "i = n")
    case False
    then have "run_end h i \<le> nat (ph_app_proc_use h)" using that live' run_le by simp
    then show ?thesis using False size by (simp add: runs) (simp add: h'_def)
  qed (simp add: run_new use')
  moreover have "run_end h' i \<le> run_first h' j" if "i < j" "group_live j h'" for i j
  proof (cases "j = n")
    case True
    then show ?thesis using n(3) [of i] run_le [of i] that(1) by (simp add: runs run_new)
  next
    case False
    then have "group_live j h" using that(2) live' by simp
    moreover from this n_use that(1) have "i \<noteq> n" by (auto simp: group_live_def)
    ultimately show ?thesis using before [OF that(1)] False by (simp add: runs)
  qed
  moreover have "sg_svrname (ph_grps h' ! i) = [] \<longleftrightarrow> \<not> group_live i h'" if "i < ?G" for i
    using slots [OF that] live' new old nm by (cases "i = n") (simp_all add: g'_def)
  moreover have "pi_name (ph_apps h' ! k) = []" if "nat (ph_app_proc_use h') \<le> k" "k < length (ph_apps h')" for k
    using wf that size bounds(3) by (auto simp: table_wf_def h'_def)
  moreover have "ph_svr_grp_use h < ph_svr_grp_max h" using n(1) n_use by linarith
  moreover have "0 \<le> ph_svr_grp_use h' \<and> ph_svr_grp_use h' \<le> ph_svr_grp_max h' \<and> ph_svr_grp_max h' < 2 ^ 31 \<and>
     ph_svr_grp_max h' \<le> int (length (ph_grps h')) \<and>
     0 \<le> ph_app_proc_use h' \<and> ph_app_proc_use h' \<le> ph_app_proc_max h' \<and>
     ph_app_proc_max h' \<le> int (length (ph_apps h')) \<and>
     0 \<le> ph_app_porc_offset h' \<and> ph_app_porc_offset h' + ph_app_proc_max h' * PROC_INFO_SIZE < 2 ^ 31"
    using wf \<open>ph_svr_grp_use h < ph_svr_grp_max h\<close> size room by (simp add: table_wf_def h'_def)
  moreover have "ph_svr_grp_max h' = ph_svr_grp_max h" by (simp add: h'_def)
  ultimately show ?thesis using n_use area_old_wf unfolding table_wf_def by simp
qed

lemma svr_alloc_wf:
  assumes run: "procs_svr_alloc (Some g) w = Some (SW_OK, w')" and h: "g_procs_head w = Some h" and wf: "procs_wf h"
    and size: "0 \<le> sg_svc_max g" "sg_svc_max g < 2 ^ 30"
  shows "\<exists>h'. g_procs_head w' = Some h' \<and> procs_wf h' \<and> (\<forall>a. area_live a h \<longrightarrow> area_live a h' \<and> dir a h' = dir a h)"
proof -
  have nm: "sg_svrname g \<noteq> []" using run h by (auto simp: procs_svr_alloc_def)
  obtain found where found: "procs_get_svr_by_name (Some (sg_svrname g)) (Some (sg_prdtname g)) w = Some found"
    using run h nm by (cases "procs_get_svr_by_name (Some (sg_svrname g)) (Some (sg_prdtname g)) w")
      (auto simp: procs_svr_alloc_def)
  show ?thesis
  proof (cases found)
    case (Some i)
    with run h nm found have "w' = w" by (auto simp: procs_svr_alloc_def split: if_splits)
    with h wf show ?thesis by auto
  next
    case None
    have bounds: "0 \<le> ph_app_proc_use h" "ph_app_proc_use h \<le> ph_app_proc_max h" "0 \<le> ph_app_porc_offset h"
      "ph_app_porc_offset h + ph_app_proc_max h * PROC_INFO_SIZE < 2 ^ 31" "0 \<le> ph_svr_grp_use h"
      "ph_svr_grp_max h < 2 ^ 31"
      using wf by (auto simp: table_wf_def)
    have curr: "s32 (ph_app_proc_use h + sg_svc_max g) = ph_app_proc_use h + sg_svc_max g"
      and off: "s32 (ph_app_porc_offset h + ph_app_proc_use h * PROC_INFO_SIZE) =
          ph_app_porc_offset h + ph_app_proc_use h * PROC_INFO_SIZE"
      using bounds size by (auto intro!: s32_id)
    obtain n lid w3 r where idx: "find_idx (\<lambda>g. sg_svrname g = []) (take (nat (ph_svr_grp_max h)) (ph_grps h)) = Some n"
      and room: "ph_app_proc_use h + sg_svc_max g < ph_app_proc_max h"
      and out: "sem_write_unlock (ph_lock_id h) w3 = Some (r, w')"
      and head: "g_procs_head w3 = Some (h\<lparr>ph_grps := (ph_grps h)[n := g\<lparr>sg_svc_curr := 0, sg_lock_id := lid,
          sg_offset := ph_app_porc_offset h + ph_app_proc_use h * PROC_INFO_SIZE\<rparr>],
        ph_app_proc_use := ph_app_proc_use h + sg_svc_max g, ph_svr_grp_use := s32 (ph_svr_grp_use h + 1)\<rparr>)"
      using run h nm found None
      by (auto simp: procs_svr_alloc_def Let_def curr off not_le split: option.splits if_splits Option.bind_splits)
    note grown = add_group_wf [OF wf nm size(1) idx room, of lid]
    have "s32 (ph_svr_grp_use h + 1) = ph_svr_grp_use h + 1" using grown bounds by (intro s32_id) auto
    with sem_keeps_head(4) [OF out] head have head': "g_procs_head w' = Some (h\<lparr>ph_grps := (ph_grps h)[n := g\<lparr>sg_svc_curr := 0, sg_lock_id := lid,
          sg_offset := ph_app_porc_offset h + ph_app_proc_use h * PROC_INFO_SIZE\<rparr>],
        ph_app_proc_use := ph_app_proc_use h + sg_svc_max g, ph_svr_grp_use := ph_svr_grp_use h + 1\<rparr>)" by simp
    show ?thesis
      by (rule exI, rule conjI [OF head'])
        (use grown in \<open>auto simp: area_live_def group_live_def split: proc_area.splits\<close>)
  qed
qed

lemma register_wf:
  assumes run: "procs_register now a l info w = Some (r, w')" and h: "g_procs_head w = Some h" and wf: "table_wf m h"
    and live: "area_live a h"
  shows "\<exists>h'. g_procs_head w' = Some h' \<and> table_wf m h' \<and> ph_svr_grp_max h' = ph_svr_grp_max h"
proof (cases "g_procs_head w' = g_procs_head w")
  case False
  have awf: "area_wf a h" using wf live by (simp add: table_wf_def)
  from False run h obtain i nm where info: "info = Some i" "pi_name i = nm" "nm \<noteq> []"
    by (auto simp: procs_register_def split: option.splits if_splits)
  let ?procs = "area_procs a h"
  have u: "nat (area_use a h) \<le> length ?procs" using awf by (auto simp: area_wf_def)
  show ?thesis
  proof (cases "find_idx (\<lambda>p. pi_name p = nm) (take (nat (area_use a h)) ?procs)")
    case (Some k)
    then have k: "pi_name (?procs ! k) = nm" using find_idx_Some [OF Some] by auto
    obtain p where "g_procs_head w' = Some (put_proc a k p h)" "pi_name p = nm"
      using run h False info
      by (auto simp: procs_register_def slot_spec [OF awf] Some Let_def
          dest!: sem_keeps_head split: if_splits Option.bind_splits)
    with same_names_wf [OF same_names_put wf] k show ?thesis by auto
  next
    case None
    let ?p = "i\<lparr>pi_task_cnt := 0, pi_busy_flag := PROC_S_IDLE, pi_starttime := now, pi_restart_cnt := MAX_RESTART_CNT\<rparr>"
    have room: "area_use a h < area_max a h \<and>
        g_procs_head w' = Some (put_proc a (nat (area_use a h)) ?p (set_use a (s32 (area_use a h + 1)) h))"
      using run h False info
      by (auto simp: procs_register_def slot_spec [OF awf] None Let_def
          dest!: sem_keeps_head split: if_splits Option.bind_splits)
    have "s32 (area_use a h + 1) = area_use a h + 1"
      using room awf by (intro s32_id) (auto simp: area_wf_def)
    moreover have "dir a h nm = None" using None by (simp add: dir_def find_idx_dir(1))
    ultimately show ?thesis using put_new_wf [OF wf live, of ?p] info room by simp
  qed
qed (use h wf in simp)

text \<open>The other calls change no name.\<close>

lemma lower_counts_names: "map pi_name (lower_counts n ps) = map pi_name ps"
proof -
  have "map pi_name (take n ps) @ map pi_name (drop n ps) = map pi_name ps"
    unfolding map_append [symmetric] append_take_drop_id ..
  then show ?thesis by (simp add: lower_counts_def comp_def if_distrib [of pi_name] cong: if_cong)
qed

lemma put_procs_names:
  assumes "map pi_name ps = map pi_name (area_procs (Grp g) h)"
  shows "same_names h (put_procs g ps h)"
proof -
  let ?b = "grp_base h (ph_grps h ! g)"
  have "map pi_name (take ?b (ph_apps h) @ ps) = map pi_name (take ?b (ph_apps h)) @ map pi_name (drop ?b (ph_apps h))"
    using assms by (simp add: area_procs_def)
  also have "\<dots> = map pi_name (ph_apps h)" unfolding map_append [symmetric] append_take_drop_id ..
  finally show ?thesis using same_namesI [of "ph_sys h" h] by (simp add: put_procs_def)
qed

definition names_kept :: "'a procs_world_scheme \<Rightarrow> 'a procs_world_scheme \<Rightarrow> bool" where
  "names_kept w w' \<longleftrightarrow> (\<forall>h. g_procs_head w = Some h \<longrightarrow> (\<exists>h'. g_procs_head w' = Some h' \<and> same_names h h'))"

lemma names_kept_same: "g_procs_head w' = g_procs_head w \<Longrightarrow> names_kept w w'"
  using same_names_refl by (auto simp: names_kept_def)

lemma names_kept_busy_by_name:
  assumes "procs_update_process_busystatus_by_name grp svc flag w = Some (r, w')"
  shows "names_kept w w'"
proof -
  have "same_names h (put_proc (Grp g) i ((area_procs (Grp g) h ! i)\<lparr>pi_busy_flag := flag\<rparr>) h)" for g i h
    by (rule same_names_put) simp
  then show ?thesis using assms same_names_refl
    by (auto simp: procs_update_process_busystatus_by_name_def names_kept_def
        split: if_splits Option.bind_splits option.splits)
qed

lemma names_kept_busy:
  assumes "procs_update_process_busystatus prdt svr svc flag w = Some (r, w')"
  shows "names_kept w w'"
  using assms names_kept_same names_kept_busy_by_name
  by (fastforce simp: procs_update_process_busystatus_def split: if_splits Option.bind_splits option.splits)

lemma names_kept_by_name:
  assumes "procs_get_proces_by_name grp svc outp w = Some (r, p, w')"
  shows "names_kept w w'"
proof -
  have "same_names h (put_proc (Grp g) i ((area_procs (Grp g) h ! i)\<lparr>pi_busy_flag := flag\<rparr>) h)" for g i h flag
    by (rule same_names_put) simp
  then show ?thesis using assms same_names_refl
    by (auto simp: procs_get_proces_by_name_def names_kept_def Let_def
        dest!: sem_keeps_head split: if_splits Option.bind_splits option.splits)
qed

lemma names_kept_info:
  assumes "procs_get_proces_info prdt svr svc outp w = Some (r, p, w')"
  shows "names_kept w w'"
  using assms names_kept_same names_kept_by_name
  by (fastforce simp: procs_get_proces_info_def split: if_splits Option.bind_splits option.splits)

lemma names_kept_dispatch:
  assumes "procs_get_dst_proc alive svr prdt mt outp w = Some (r, p, w')"
  shows "names_kept w w'"
proof (cases "g_procs_head w")
  case (Some h)
  have put: "same_names h (put_proc (Grp g) k ((area_procs (Grp g) h ! k)\<lparr>pi_busy_flag := flag\<rparr>) h)" for g k flag
    by (rule same_names_put) simp
  have put2: "same_names h (put_proc (Grp g) k ((area_procs (Grp g) h ! k)\<lparr>pi_busy_flag := flag, pi_task_cnt := n\<rparr>) h)"
    for g k flag n by (rule same_names_put) simp
  have put3: "same_names h (put_proc (Grp g) k ((area_procs (Grp g) h ! k)\<lparr>pi_task_cnt := n\<rparr>) h)"
    for g k n by (rule same_names_put) simp
  have low: "same_names h (put_procs g (lower_counts n (area_procs (Grp g) h2)) h2)" if "same_names h h2" for g n h2
    by (rule same_names_trans [OF that put_procs_names]) (rule lower_counts_names)
  show ?thesis using assms Some same_names_refl [of h] put put2 put3 low [OF put2] low [OF put3]
    by (auto simp: procs_get_dst_proc_def names_kept_def Let_def put_proc_twice
        dest!: sem_keeps_head split: if_splits Option.bind_splits option.splits)
qed (simp add: names_kept_def)

section \<open>Every sequence of calls\<close>

text \<open>The calls of the processes that share the table, one after the other.  A record that is stored over a system process
  has the name of the entry it replaces.  \<open>other\<close> is whatever else happens, the calls that only read and the refused
  allocations that leave the table alone included.\<close>

inductive table_step :: "'a procs_world_scheme \<Rightarrow> 'a procs_world_scheme \<Rightarrow> bool" where
  sys_register: "procs_sys_register now info w = Some (r, w') \<Longrightarrow> table_step w w'"
| lsn_register: "procs_lsn_register now info w = Some (r, w') \<Longrightarrow> table_step w w'"
| svr_register: "procs_svr_register now info w = Some (r, w') \<Longrightarrow> table_step w w'"
| set_sys_name: "procs_set_sys_by_name (Some n) (Some p) w = Some (r, w') \<Longrightarrow> pi_name p = n \<Longrightarrow> table_step w w'"
| set_sys_index: "procs_set_sys_by_index i (Some p) w = Some (r, w') \<Longrightarrow> g_procs_head w = Some h \<Longrightarrow>
    pi_name p = pi_name (ph_sys h ! nat i) \<Longrightarrow> table_step w w'"
| get_by_name: "procs_get_proces_by_name grp svc outp w = Some (r, p, w') \<Longrightarrow> table_step w w'"
| get_info: "procs_get_proces_info prdt svr svc outp w = Some (r, p, w') \<Longrightarrow> table_step w w'"
| busy_by_name: "procs_update_process_busystatus_by_name grp svc flag w = Some (r, w') \<Longrightarrow> table_step w w'"
| busystatus: "procs_update_process_busystatus prdt svr svc flag w = Some (r, w') \<Longrightarrow> table_step w w'"
| get_dst: "procs_get_dst_proc alive svr prdt mt outp w = Some (r, p, w') \<Longrightarrow> table_step w w'"
| other: "g_procs_head w' = g_procs_head w \<Longrightarrow> table_step w w'"

text \<open>Memory of the size the call asks for, all zero, and arrays whose byte offsets fit into 32 bits.\<close>

definition procs_memory :: "procs_cfg \<Rightarrow> sw_procs_head \<Rightarrow> bool" where
  "procs_memory c h \<longleftrightarrow>
     0 \<le> cfg_lsn_max c \<and> 0 \<le> cfg_svr_max c \<and> 0 \<le> cfg_prdt_max c \<and> 0 \<le> cfg_processe_max c \<and>
     PROCS_HEAD_SIZE + SVR_GRP_SIZE * (cfg_lsn_max c + cfg_svr_max c) +
       PROC_INFO_SIZE * (cfg_lsn_max c + cfg_prdt_max c) + cfg_processe_max c * PROC_INFO_SIZE < 2 ^ 31 \<and>
     int (length (ph_grps h)) = cfg_lsn_max c + cfg_svr_max c \<and>
     int (length (ph_sys h)) = cfg_lsn_max c + cfg_prdt_max c \<and>
     int (length (ph_apps h)) = cfg_processe_max c \<and>
     (\<forall>g \<in> set (ph_grps h). sg_svrname g = []) \<and>
     (\<forall>p \<in> set (ph_sys h) \<union> set (ph_apps h). pi_name p = [])"

text \<open>The tables the calls lead to.  An allocation that finds no lock identifier left has already written the group into its
  slot, and keeps the lock of the table; \<open>procs_half_made\<close> are the tables after it, where no later call allocates.\<close>

inductive procs_reachable :: "'a procs_world_scheme \<Rightarrow> bool" where
  start: "procs_memory c h \<Longrightarrow> procs_init (Some h) (Some c) w0 = Some (SW_OK, w) \<Longrightarrow> procs_reachable w"
| svr_alloc: "procs_reachable w \<Longrightarrow> procs_svr_alloc (Some g) w = Some (SW_OK, w') \<Longrightarrow> 0 \<le> sg_svc_max g \<Longrightarrow>
    sg_svc_max g < 2 ^ 30 \<Longrightarrow> procs_reachable w'"
| step: "procs_reachable w \<Longrightarrow> table_step w w' \<Longrightarrow> procs_reachable w'"

inductive procs_half_made :: "'a procs_world_scheme \<Rightarrow> bool" where
  no_lock_left: "procs_reachable w \<Longrightarrow> procs_svr_alloc (Some g) w = Some (SW_ERR, w') \<Longrightarrow> procs_half_made w'"
| step: "procs_half_made w \<Longrightarrow> table_step w w' \<Longrightarrow> procs_half_made w'"

lemma procs_init_wf:
  assumes mem: "procs_memory c h" and run: "procs_init (Some h) (Some c) w0 = Some (SW_OK, w)"
  shows "\<exists>h'. g_procs_head w = Some h' \<and> procs_wf h'"
proof -
  have bounds: "0 \<le> cfg_lsn_max c" "0 \<le> cfg_svr_max c" "0 \<le> cfg_prdt_max c" "0 \<le> cfg_processe_max c"
    "PROCS_HEAD_SIZE + SVR_GRP_SIZE * (cfg_lsn_max c + cfg_svr_max c) +
       PROC_INFO_SIZE * (cfg_lsn_max c + cfg_prdt_max c) + cfg_processe_max c * PROC_INFO_SIZE < 2 ^ 31"
    using mem by (simp_all add: procs_memory_def)
  have small: "s32 (cfg_lsn_max c + cfg_svr_max c) = cfg_lsn_max c + cfg_svr_max c"
    "s32 (cfg_lsn_max c + cfg_prdt_max c) = cfg_lsn_max c + cfg_prdt_max c"
    "s32 (PROCS_HEAD_SIZE + (cfg_lsn_max c + cfg_svr_max c) * SVR_GRP_SIZE) =
       PROCS_HEAD_SIZE + (cfg_lsn_max c + cfg_svr_max c) * SVR_GRP_SIZE"
    "s32 (PROCS_HEAD_SIZE + (cfg_lsn_max c + cfg_svr_max c) * SVR_GRP_SIZE + PROC_INFO_SIZE * (cfg_lsn_max c + cfg_prdt_max c)) =
       PROCS_HEAD_SIZE + (cfg_lsn_max c + cfg_svr_max c) * SVR_GRP_SIZE + PROC_INFO_SIZE * (cfg_lsn_max c + cfg_prdt_max c)"
    using bounds by (auto intro!: s32_id)
  obtain l where "g_procs_head w = Some (h\<lparr>ph_lock_id := l, ph_count := 0, ph_sw_work_stat := SW_ALL_STOP,
      ph_svr_grp_use := 0, ph_svr_grp_max := cfg_lsn_max c + cfg_svr_max c, ph_svr_grp_offset := PROCS_HEAD_SIZE,
      ph_sys_proc_use := 0, ph_sys_procs_max := cfg_lsn_max c + cfg_prdt_max c,
      ph_sys_porc_offset := PROCS_HEAD_SIZE + (cfg_lsn_max c + cfg_svr_max c) * SVR_GRP_SIZE,
      ph_app_proc_use := 0, ph_app_proc_max := cfg_processe_max c,
      ph_app_porc_offset := PROCS_HEAD_SIZE + (cfg_lsn_max c + cfg_svr_max c) * SVR_GRP_SIZE +
        PROC_INFO_SIZE * (cfg_lsn_max c + cfg_prdt_max c)\<rparr>)" (is "_ = Some ?h")
    using run small by (auto simp: procs_init_def Let_def dest!: sem_keeps_head(4) split: Option.bind_splits if_splits)
  moreover have "procs_wf ?h"
    using mem unfolding table_wf_def procs_memory_def
    by (auto simp: group_live_def area_live_def area_wf_def area_use_def area_max_def area_procs_def
        split: proc_area.splits)
  ultimately show ?thesis by blast
qed

text \<open>Each call keeps the invariant, whatever slots are known to be blank.\<close>

lemma table_step_wf:
  assumes "table_step w w'" and h: "g_procs_head w = Some h" and wf: "table_wf m h"
  shows "\<exists>h'. g_procs_head w' = Some h' \<and> table_wf m h' \<and> ph_svr_grp_max h' = ph_svr_grp_max h"
proof -
  have keep: ?thesis if "same_names h h'" "g_procs_head w' = Some h'" for h'
    using that same_names_wf [OF that(1) wf] by (auto simp: same_names_def)
  have names: ?thesis if "names_kept w w'" using that h keep by (auto simp: names_kept_def)
  have same: ?thesis if "g_procs_head w' = g_procs_head w" using that h wf by simp
  have reg: ?thesis if "procs_register now a l info w = Some (r, w')" "area_live a h" for now a l info r
    using that register_wf [OF _ h wf] by blast
  have set: ?thesis if "same_names h h1" "g_procs_head w' = Some h1 \<or> g_procs_head w' = Some h" for h1
    using that keep same h by auto
  from assms(1) show ?thesis
  proof cases
    case (sys_register now info r)
    then have "w' = w \<or> (\<exists>l r. procs_register now Sys l info w = Some (r, w'))"
      using h by (auto simp: procs_sys_register_def split: if_splits option.splits Option.bind_splits)
    then show ?thesis using reg same by (auto simp: area_live_def)
  next
    case (lsn_register now info r)
    then have "w' = w \<or> (\<exists>i l r n p. procs_get_svr_by_name n p w = Some (Some i) \<and> procs_register now (Grp i) l info w = Some (r, w'))"
      using h by (fastforce simp: procs_lsn_register_def split: if_splits option.splits Option.bind_splits)
    then show ?thesis using reg same svr_found_live [OF _ h] by (fastforce simp: area_live_def)
  next
    case (svr_register now info r)
    then have "w' = w \<or> (\<exists>i l r n p. procs_get_svr_by_name n p w = Some (Some i) \<and> procs_register now (Grp i) l info w = Some (r, w'))"
      using h by (fastforce simp: procs_svr_register_def split: if_splits option.splits Option.bind_splits)
    then show ?thesis using reg same svr_found_live [OF _ h] by (fastforce simp: area_live_def)
  next
    case (set_sys_name n p r)
    have "same_names h (put_proc Sys i p h)" if "sys_scan n h = Some (Some i)" for i
      using find_idx_Some [of "\<lambda>p. pi_name p = n"] that set_sys_name(2)
      by (intro same_names_put) (fastforce simp: sys_scan_def area_procs_def split: option.splits if_splits)
    then have "names_kept w w'" using set_sys_name(1) h same_names_refl
      by (auto simp: procs_set_sys_by_name_def names_kept_def dest!: sem_keeps_head
          split: if_splits Option.bind_splits option.splits)
    then show ?thesis by (rule names)
  next
    case (set_sys_index i p r h0)
    have "same_names h (put_proc Sys (nat i) p h)"
      using set_sys_index(2,3) h by (intro same_names_put) (simp add: area_procs_def)
    then show ?thesis
      by (rule set) (use set_sys_index(1) h in \<open>auto simp: procs_set_sys_by_index_def dest!: sem_keeps_head
          split: if_splits Option.bind_splits option.splits\<close>)
  next
    case get_by_name
    then show ?thesis by (intro names names_kept_by_name)
  next
    case get_info
    then show ?thesis by (intro names names_kept_info)
  next
    case busy_by_name
    then show ?thesis by (intro names names_kept_busy_by_name)
  next
    case busystatus
    then show ?thesis by (intro names names_kept_busy)
  next
    case get_dst
    then show ?thesis by (intro names names_kept_dispatch)
  next
    case other
    then show ?thesis by (rule same)
  qed
qed

lemma procs_reachable_wf: "procs_reachable w \<Longrightarrow> \<exists>h. g_procs_head w = Some h \<and> procs_wf h"
proof (induction rule: procs_reachable.induct)
  case (start c h w0 w)
  then show ?case by (rule procs_init_wf)
next
  case (svr_alloc w g w')
  then show ?case using svr_alloc_wf by blast
next
  case (step w w')
  then show ?case using table_step_wf by fastforce
qed

text \<open>The allocation that fails writes behind the groups in use, if anything.\<close>

lemma table_wf_less: "table_wf m h \<Longrightarrow> k \<le> m \<Longrightarrow> table_wf k h"
  by (simp add: table_wf_def)

lemma half_made_wf:
  assumes run: "procs_svr_alloc (Some g) w = Some (SW_ERR, w')" and h: "g_procs_head w = Some h" and wf: "procs_wf h"
  shows "\<exists>h'. g_procs_head w' = Some h' \<and> table_wf 0 h'"
proof -
  have behind: "table_wf 0 (h\<lparr>ph_grps := (ph_grps h)[n := g']\<rparr>)" (is "table_wf 0 ?h'")
    if idx: "find_idx (\<lambda>g. sg_svrname g = []) (take (nat (ph_svr_grp_max h)) (ph_grps h)) = Some n" for n g'
  proof -
    have n: "\<not> group_live n h" using find_idx_Some [OF idx] wf by (auto simp: table_wf_def)
    have same: "ph_grps ?h' ! i = ph_grps h ! i" if "i < nat (ph_svr_grp_use h)" for i
      using that n by (auto simp: group_live_def nth_list_update)
    have live: "group_live i ?h' \<longleftrightarrow> group_live i h" for i by (simp add: group_live_def)
    have runs: "run_first ?h' i = run_first h i" "run_end ?h' i = run_end h i" if "group_live i h" for i
      using same [of i] that by (simp_all add: run_first_def run_end_def grp_base_def group_live_def)
    have area: "area_wf a ?h' \<longleftrightarrow> area_wf a h" if "area_live a h" for a
      using that same unfolding area_wf_def
      by (cases a) (simp_all add: area_use_def area_max_def area_procs_def grp_base_def area_live_def group_live_def)
    have "area_live a ?h' \<longleftrightarrow> area_live a h" for a by (simp add: area_live_def group_live_def split: proc_area.split)
    moreover have "run_end ?h' i \<le> run_first ?h' j" if "i < j" "group_live j h" for i j
    proof -
      have "group_live i h" using that by (simp add: group_live_def)
      then show ?thesis using that wf by (simp add: runs table_wf_def)
    qed
    ultimately show ?thesis using wf area runs unfolding table_wf_def live by simp
  qed
  have "table_wf 0 h" "\<not> int (length (ph_grps h)) < ph_svr_grp_max h"
    using table_wf_less [OF wf] wf by (simp_all add: table_wf_def)
  then show ?thesis using run h
    by (auto simp: procs_svr_alloc_def Let_def dest!: sem_keeps_head
        split: if_splits Option.bind_splits option.splits) (rule behind, assumption)+
qed

lemma procs_half_made_wf: "procs_half_made w \<Longrightarrow> \<exists>h. g_procs_head w = Some h \<and> table_wf 0 h"
proof (induction rule: procs_half_made.induct)
  case (no_lock_left w g w')
  then show ?case using half_made_wf procs_reachable_wf by blast
next
  case (step w w')
  then show ?case using table_step_wf by fastforce
qed

section \<open>Properties\<close>

text \<open>C11: Whatever the calls on the process table and their order, one after another, the runs of two groups never share a
  process entry and end inside the shared memory, no area holds two processes of the same name, and its counter stays
  within its maximum.  The calls are the allocations of groups (of at most 2^30 - 1 processes), the three registrations,
  the look-ups that mark a process busy, the changes of the busy flag, the choice of a destination, and the two calls
  that store a record over a system process, with the name of the entry they replace.  It also holds after an allocation
  that finds no lock identifier left and leaves its group half made (it keeps the lock of the table), for the calls
  after it that do not allocate.\<close>

theorem process_runs_disjoint:
  assumes "procs_reachable w \<or> procs_half_made w"
  shows "\<exists>h. g_procs_head w = Some h \<and>
    (\<forall>i j. group_live i h \<and> group_live j h \<and> i \<noteq> j \<longrightarrow>
       {run_first h i..<run_end h i} \<inter> {run_first h j..<run_end h j} = {}) \<and>
    (\<forall>i. group_live i h \<longrightarrow> run_end h i \<le> length (ph_apps h)) \<and>
    (\<forall>a. area_live a h \<longrightarrow> 0 \<le> area_use a h \<and> area_use a h \<le> area_max a h \<and>
       distinct (map pi_name (take (nat (area_use a h)) (area_procs a h))))"
proof -
  obtain h where h: "g_procs_head w = Some h" and wf: "table_wf 0 h"
    using assms procs_reachable_wf procs_half_made_wf table_wf_less by blast
  have "{run_first h i..<run_end h i} \<inter> {run_first h j..<run_end h j} = {}"
    if live: "group_live i h" "group_live j h" "i \<noteq> j" for i j
  proof -
    from live(3) consider "i < j" | "j < i" by linarith
    then have "run_end h i \<le> run_first h j \<or> run_end h j \<le> run_first h i"
      using wf live(1,2) by cases (simp_all add: table_wf_def)
    then show ?thesis by auto
  qed
  moreover have "run_end h i \<le> length (ph_apps h)" if "group_live i h" for i
  proof -
    have "run_end h i \<le> nat (ph_app_proc_use h)" using wf that by (simp add: table_wf_def)
    moreover have "nat (ph_app_proc_use h) \<le> length (ph_apps h)" using wf by (auto simp: table_wf_def)
    ultimately show ?thesis by linarith
  qed
  moreover have "area_wf a h" if "area_live a h" for a using wf that by (simp add: table_wf_def)
  ultimately show ?thesis using h by (auto simp: area_wf_def)
qed

text \<open>What a registration leaves alone: the head outside the arrays and the counter of the system processes, each group but
  for its counter, the counters of the other areas and the entries of the other areas.\<close>

definition rest_kept :: "proc_area \<Rightarrow> sw_procs_head \<Rightarrow> sw_procs_head \<Rightarrow> bool" where
  "rest_kept a h h' \<longleftrightarrow>
     h' = h\<lparr>ph_grps := ph_grps h', ph_sys := ph_sys h', ph_apps := ph_apps h', ph_sys_proc_use := ph_sys_proc_use h'\<rparr> \<and>
     length (ph_grps h') = length (ph_grps h) \<and>
     (\<forall>i. ph_grps h' ! i = (ph_grps h ! i)\<lparr>sg_svc_curr := sg_svc_curr (ph_grps h' ! i)\<rparr>) \<and>
     (\<forall>b. b \<noteq> a \<longrightarrow> area_use b h' = area_use b h) \<and>
     (\<forall>b. area_live b h \<and> b \<noteq> a \<longrightarrow>
       take (nat (area_max b h)) (area_procs b h') = take (nat (area_max b h)) (area_procs b h))"

lemma put_rest_kept:
  assumes wf: "procs_wf h" and live: "area_live a h" and k: "k < nat (area_max a h)"
  shows "rest_kept a h (put_proc a k p (if new then set_use a n h else h))"
proof -
  let ?h' = "put_proc a k p (if new then set_use a n h else h)"
  have procs: "area_procs b ?h' = area_procs b (put_proc a k p h)" for b
    by (cases a; cases b) (simp_all add: area_procs_def put_proc_def grp_base_def grp_field_set_use)
  have grps: "ph_grps (set_use a n h) ! i = (ph_grps h ! i)\<lparr>sg_svc_curr := sg_svc_curr (ph_grps (set_use a n h) ! i)\<rparr>" for i
    by (cases "case a of Grp j \<Rightarrow> j < length (ph_grps h) | _ \<Rightarrow> True"; cases a)
      (auto simp: set_use_def nth_list_update not_less list_update_beyond)
  have "?h' = h\<lparr>ph_grps := ph_grps ?h', ph_sys := ph_sys ?h', ph_apps := ph_apps ?h', ph_sys_proc_use := ph_sys_proc_use ?h'\<rparr>"
    by (cases a) (simp_all add: set_use_def put_proc_def)
  moreover have "area_use b ?h' = area_use b h" if "b \<noteq> a" for b
    using that area_use_other [of a b n h] by simp
  ultimately show ?thesis
    unfolding rest_kept_def procs using area_frame [OF wf live _ _ k] grps by (cases new) auto
qed

text \<open>C12: On a well-formed table, with its lock free and a name that is not empty, \<^verbatim>\<open>procs_register\<close> is a map update: seen
  as directories from names to processes, the area gets the new entry under its name (a process that comes back keeps
  its task count, a new one starts with the full number of restarts, \<^verbatim>\<open>MAX_RESTART_CNT\<close>), the counter of the area goes
  up by one for a new name and stays for a known one, and everything else is left as it was: the directories, the
  counters and the entries of the other areas, every group but for that counter, and the rest of the head.  The call is
  refused, with no effect, only when a new name meets a full area.\<close>

theorem registration_updates_directory:
  assumes "g_procs_head w = Some h" and "procs_wf h" and "area_live a h"
    and "0 < lock_id" and "sem_free lock_id w" and "pi_name info \<noteq> []"
  shows "if dir a h (pi_name info) = None \<and> area_use a h = area_max a h
    then procs_register now a lock_id (Some info) w = Some (SW_ERR, w)
    else \<exists>h'. procs_register now a lock_id (Some info) w = Some (SW_OK, w\<lparr>g_procs_head := Some h'\<rparr>) \<and>
      procs_wf h' \<and>
      (\<forall>b. area_live b h \<longrightarrow>
        dir b h' = (if b = a then (dir a h)(pi_name info \<mapsto> registered now (dir a h (pi_name info)) info) else dir b h)) \<and>
      area_use a h' = area_use a h + (if dir a h (pi_name info) = None then 1 else 0) \<and> rest_kept a h h'"
proof (cases "dir a h (pi_name info) = None \<and> area_use a h = area_max a h")
  case False
  then obtain h' k where h': "procs_register now a lock_id (Some info) w = Some (SW_OK, w\<lparr>g_procs_head := Some h'\<rparr>)"
      "procs_wf h'" "dir a h' = (dir a h)(pi_name info \<mapsto> registered now (dir a h (pi_name info)) info)"
      "\<And>b. area_live b h \<Longrightarrow> b \<noteq> a \<Longrightarrow> dir b h' = dir b h" "k < nat (area_max a h)"
      "h' = put_proc a k (registered now (dir a h (pi_name info)) info)
        (if dir a h (pi_name info) = None then set_use a (area_use a h + 1) h else h)"
    using register_spec [OF assms, of now] by auto
  moreover have "rest_kept a h h'" unfolding h'(6) by (rule put_rest_kept [OF assms(2,3) h'(5)])
  moreover have "area_use a h' = area_use a h + (if dir a h (pi_name info) = None then 1 else 0)"
    using area_use_set [OF live_there [OF assms(2,3)]] by (simp add: h'(6))
  ultimately show ?thesis using False by auto
qed (use register_spec [OF assms, of now] in simp)

text \<open>C13: A message goes to the first idle process of the group that can take it, or, when none is idle, to one with the
  smallest task count (the group within its bounds, its lock free and room for the answer).  The chosen process is
  marked busy and its 32-bit count goes up by one; no other entry changes, unless every process the search looked at has
  more than \<^verbatim>\<open>SW_MAX_TASK_CNT\<close> tasks: then this number is taken off every count of the group above it.  The lock of the
  group is free again.  The call fails, with no effect, only when no process can take the message.\<close>

theorem dispatch_choice:
  assumes "g_procs_head w = Some h" and "procs_get_svr_by_name svr prdt w = Some (Some g)"
    and "sem_free (sg_lock_id (ph_grps h ! g)) w"
    and "area_use (Grp g) h \<le> area_max (Grp g) h" "area_use (Grp g) h \<le> int (length (area_procs (Grp g) h))"
    and "procs = take (nat (area_use (Grp g) h)) (area_procs (Grp g) h)"
  shows "if takers alive mt procs = {} then procs_get_dst_proc alive svr prdt mt True w = Some (SW_ERR, None, w)
    else \<exists>k p h1. chosen alive mt procs k \<and>
      p = (procs ! k)\<lparr>pi_busy_flag :=
        if pi_busy_flag (procs ! k) = PROC_S_IDLE then PROC_S_BUSYING else pi_busy_flag (procs ! k)\<rparr> \<and>
      h1 = put_proc (Grp g) k (p\<lparr>pi_task_cnt := (pi_task_cnt p + 1) mod 2 ^ 32\<rparr>) h \<and>
      procs_get_dst_proc alive svr prdt mt True w = Some (SW_OK, Some p, w\<lparr>g_procs_head := Some
        (if \<forall>j \<in> seen alive mt procs k. SW_MAX_TASK_CNT < pi_task_cnt (procs ! j)
         then put_procs g (lower_counts (length procs) (area_procs (Grp g) h1)) h1 else h1)\<rparr>)"
proof -
  have "length procs = nat (area_use (Grp g) h)" using assms(5,6) by auto
  then show ?thesis using dispatch [OF assms(1-5), of alive mt]
    by (auto simp add: assms(6) [symmetric] dispatched_def Let_def split: if_splits)
qed

lemma grp_scan_dir:
  assumes wf: "area_wf (Grp g) h" and p: "dir (Grp g) h n = Some p"
  shows "\<exists>i. grp_scan n g h = Some (Some i) \<and> area_procs (Grp g) h ! i = p"
proof -
  let ?ps = "take (nat (area_use (Grp g) h)) (area_procs (Grp g) h)"
  obtain i where i: "find_idx (\<lambda>p. pi_name p = n) ?ps = Some i"
    using p find_idx_dir(1) [of n ?ps] by (cases "find_idx (\<lambda>p. pi_name p = n) ?ps") (auto simp: dir_def)
  moreover have "area_procs (Grp g) h ! i = p"
    using find_idx_dir(2) [OF i] p find_idx_Some [OF i] by (simp add: dir_def)
  ultimately show ?thesis by (simp add: grp_scan_def Let_def)
qed

text \<open>C14: A process a service registers is found again under its product, service and name, with what was registered,
  and is then marked busy.\<close>

theorem registered_process_is_found:
  assumes h: "g_procs_head w = Some h" and wf: "procs_wf h"
    and locks: "0 < ph_lock_id h" "sem_free (ph_lock_id h) w" "sem_free (sg_lock_id (ph_grps h ! g)) w"
    and names: "pi_name info \<noteq> []" "pi_svr_name info \<noteq> []" "pi_prdt_name info \<noteq> []"
    and found: "procs_get_svr_by_name (Some (pi_svr_name info)) (Some (pi_prdt_name info)) w = Some (Some g)"
    and room: "dir (Grp g) h (pi_name info) \<noteq> None \<or> area_use (Grp g) h < area_max (Grp g) h"
  shows "\<exists>w1 w2. procs_svr_register now (Some info) w = Some (SW_OK, w1) \<and>
    procs_get_proces_info (Some (pi_prdt_name info)) (Some (pi_svr_name info)) (Some (pi_name info)) True w1 =
      Some (SW_OK, Some (registered now (dir (Grp g) h (pi_name info)) info), w2) \<and>
    (\<exists>h2. g_procs_head w2 = Some h2 \<and>
      dir (Grp g) h2 (pi_name info) = Some ((registered now (dir (Grp g) h (pi_name info)) info)\<lparr>pi_busy_flag := PROC_S_BUSYING\<rparr>))"
proof -
  have live: "area_live (Grp g) h" using svr_found_live [OF found h] by (simp add: area_live_def)
  have there: "g < length (ph_grps h)" using live_there [OF wf live] by (simp add: area_there_def)
  define p where "p = registered now (dir (Grp g) h (pi_name info)) info"
  have pn: "pi_name p = pi_name info" by (simp add: p_def registered_def split: option.split)
  obtain h1 where run: "procs_register now (Grp g) (ph_lock_id h) (Some info) w = Some (SW_OK, w\<lparr>g_procs_head := Some h1\<rparr>)"
    and wf1: "procs_wf h1" and same: "svr_table_same h h1" and dir1: "dir (Grp g) h1 = (dir (Grp g) h)(pi_name info \<mapsto> p)"
    using register_spec [OF h wf live locks(1,2) names(1), of now] room by (auto simp: p_def split: if_splits)
  let ?w1 = "w\<lparr>g_procs_head := Some h1\<rparr>"
  have reg: "procs_svr_register now (Some info) w = Some (SW_OK, ?w1)"
    using h names found run by (simp add: procs_svr_register_def)
  have found1: "procs_get_svr_by_name (Some (pi_svr_name info)) (Some (pi_prdt_name info)) ?w1 = Some (Some g)"
    using svr_lookup_same [OF same h, of ?w1] found by simp
  have live1: "area_live (Grp g) h1" using svr_found_live [OF found1] by (simp add: area_live_def)
  have awf1: "area_wf (Grp g) h1" using wf1 live1 by (simp add: table_wf_def)
  obtain i where i: "grp_scan (pi_name info) g h1 = Some (Some i)" "area_procs (Grp g) h1 ! i = p"
    using grp_scan_dir [OF awf1, of "pi_name info" p] dir1 by auto
  have "find_idx (\<lambda>p. pi_name p = pi_name info) (take (nat (area_use (Grp g) h1)) (area_procs (Grp g) h1)) = Some i"
    using i(1) by (auto simp: grp_scan_def Let_def split: option.splits if_splits)
  from find_idx_Some [OF this] have i_use: "i < nat (area_use (Grp g) h1)" "pi_name (area_procs (Grp g) h1 ! i) = pi_name info"
    by auto
  let ?busy = "p\<lparr>pi_busy_flag := PROC_S_BUSYING\<rparr>"
  let ?h2 = "put_proc (Grp g) i ?busy h1"
  have lid: "sg_lock_id (ph_grps h1 ! g) = sg_lock_id (ph_grps h ! g)" by (rule svr_table_same_lock [OF same there])
  have free1: "sem_free (sg_lock_id (ph_grps h1 ! g)) ?w1"
    unfolding lid by (rule sem_free_cong [THEN iffD2, OF _ _ locks(3)]) simp_all
  have "procs_get_proces_info (Some (pi_prdt_name info)) (Some (pi_svr_name info)) (Some (pi_name info)) True ?w1 =
      Some (SW_OK, Some p, w\<lparr>g_procs_head := Some ?h2\<rparr>)"
    using names found1 i sem_acquire_free(2) [OF free1] read_release [OF free1]
    by (simp add: procs_get_proces_info_def procs_get_proces_by_name_def Let_def)
  moreover have "dir (Grp g) ?h2 (pi_name info) = Some ?busy"
    using put_known [OF awf1 i_use(1), of ?busy] i_use(2) pn by simp
  ultimately show ?thesis using reg unfolding p_def by auto
qed

text \<open>A system process that is already in a full table cannot register again, although its entry is there:
  \<^verbatim>\<open>procs_sys_register\<close> tests for room before it knows that none is needed.\<close>

theorem full_table_refuses_known:
  assumes "g_procs_head w = Some h" and "procs_wf h"
    and full: "area_use Sys h = area_max Sys h" "area_max Sys h < 2 ^ 31 - 1"
    and lock: "0 < ph_lock_id h" "sem_free (ph_lock_id h) w"
    and known: "dir Sys h (pi_name info) \<noteq> None" and nm: "pi_name info \<noteq> []"
  shows "procs_sys_register now (Some info) w = Some (SW_ERR, w) \<and>
    (\<exists>h'. procs_register now Sys (ph_lock_id h) (Some info) w = Some (SW_OK, w\<lparr>g_procs_head := Some h'\<rparr>))"
proof -
  have live: "area_live Sys h" by (simp add: area_live_def)
  have awf: "area_wf Sys h" using assms(2) live by (simp add: table_wf_def)
  have "s32 (ph_sys_proc_use h + 1) = ph_sys_proc_use h + 1"
    using awf full by (intro s32_id) (auto simp: area_wf_def area_use_def area_max_def)
  then have "procs_sys_register now (Some info) w = Some (SW_ERR, w)"
    using assms(1) nm full by (simp add: procs_sys_register_def area_use_def area_max_def)
  with register_spec [OF assms(1,2) live lock nm, of now] known show ?thesis by auto
qed

text \<open>The bound of \<^verbatim>\<open>procs_get_proces_by_index\<close> is one too large: with the maximum of a group as index it answers with
  the first process of the next group.\<close>

theorem index_reads_next_group:
  assumes h: "g_procs_head w = Some h" and wf: "procs_wf h" and live: "group_live g h" "group_live g' h"
    and adjacent: "run_first h g' = run_end h g" "0 < area_max (Grp g') h"
    and lock: "sem_free (ph_lock_id h) w"
  shows "procs_get_proces_by_index (Some g) (area_max (Grp g) h) True w =
    Some (SW_OK, Some (area_procs (Grp g') h ! 0), w)"
proof -
  have awf: "area_wf (Grp g) h" "area_wf (Grp g') h" using wf live by (simp_all add: table_wf_def area_live_def)
  have m: "0 \<le> area_max (Grp g) h" using awf(1) by (auto simp: area_wf_def)
  have len: "0 < length (area_procs (Grp g') h)" using awf(2) adjacent(2) by (auto simp: area_wf_def)
  have last: "run_end h g = run_first h g + nat (area_max (Grp g) h)" by (simp add: run_end_def area_max_def)
  have procs: "area_procs (Grp i) h = drop (run_first h i) (ph_apps h)" for i
    by (simp add: area_procs_def run_first_def)
  have in_mem: "run_first h g + nat (area_max (Grp g) h) < length (ph_apps h)"
    using len adjacent(1) by (simp add: procs last)
  then have "area_procs (Grp g) h ! nat (area_max (Grp g) h) = area_procs (Grp g') h ! 0"
    using adjacent(1) by (simp add: procs last)
  moreover have "\<not> int (length (area_procs (Grp g) h)) \<le> area_max (Grp g) h"
    using in_mem m by (simp add: procs)
  ultimately show ?thesis
    using h m sem_acquire_free(2) [OF lock] rdlock.held_then_freed [OF lock]
    by (simp add: procs_get_proces_by_index_def)
qed

lemma sem_new_lock_id_none_left:
  assumes free: "sem_free 1 w" and s: "g_sem_lock w = Some s" and full: "sl_sem_num s \<le> sl_lock_cnt s"
  shows "sem_new_lock_id w = Some (- 1, w)"
proof -
  have "w\<lparr>g_sem_lock := Some s\<rparr> = w" using s [symmetric] by simp
  then show ?thesis
    using sem_loc_bracket_free(1) [OF free s refl refl] sem_loc_bracket_free(2) [OF free s, of s] s full
    by (simp add: sem_new_lock_id_def sem_loc_new_lock_id_def)
qed

lemma taken_blocks:
  assumes "sem_free l w"
  shows "sem_write_lock l ((sem_took SEM_VALUE l w)\<lparr>g_procs_head := x\<rparr>) = None"
  using assms by (auto simp: sem_call_defs semop_def sem_free_def sem_took_def split: option.splits)

text \<open>When no lock id is left, \<^verbatim>\<open>procs_svr_alloc\<close> fails and returns with the lock of the table still taken: from then
  on every registration blocks.\<close>

theorem failed_alloc_keeps_lock:
  assumes h: "g_procs_head w = Some h" and wf: "procs_wf h" and s: "g_sem_lock w = Some s"
    and full: "sl_sem_num s \<le> sl_lock_cnt s"
    and locks: "1 < ph_lock_id h" "sem_free (ph_lock_id h) w" "sem_free 1 w"
    and new: "sg_svrname g \<noteq> []" "procs_get_svr_by_name (Some (sg_svrname g)) (Some (sg_prdtname g)) w = Some None"
    and room: "ph_svr_grp_use h < ph_svr_grp_max h" "0 \<le> sg_svc_max g" "ph_app_proc_use h + sg_svc_max g < ph_app_proc_max h"
    and sys: "area_use Sys h < area_max Sys h" "pi_name info \<noteq> []"
  shows "\<exists>w1. procs_svr_alloc (Some g) w = Some (SW_ERR, w1) \<and> procs_sys_register now (Some info) w1 = None"
proof -
  let ?l = "ph_lock_id h" and ?n = "nat (ph_svr_grp_use h)"
  have bounds: "0 \<le> ph_svr_grp_use h" "ph_svr_grp_max h \<le> int (length (ph_grps h))"
    "ph_app_proc_max h * PROC_INFO_SIZE < 2 ^ 31" "0 \<le> ph_app_proc_use h"
    using wf by (auto simp: table_wf_def)
  have n: "?n < nat (ph_svr_grp_max h)" using room(1) bounds(1) by linarith
  have slots: "sg_svrname (ph_grps h ! i) = [] \<longleftrightarrow> \<not> group_live i h" if "i < nat (ph_svr_grp_max h)" for i
    using wf that by (simp add: table_wf_def)
  have idx: "find_idx (\<lambda>g. sg_svrname g = []) (take (nat (ph_svr_grp_max h)) (ph_grps h)) = Some ?n"
    using n bounds(2) slots by (intro find_idx_eqI) (auto simp: group_live_def)
  have curr: "s32 (ph_app_proc_use h + sg_svc_max g) = ph_app_proc_use h + sg_svc_max g"
    using room bounds by (intro s32_id) auto
  let ?w1 = "sem_took SEM_VALUE ?l w"
  have g: "g_sem_lock ?w1 = Some s" "sem_free 1 ?w1" using s locks sem_free_took [OF locks(2), of 1]
    by (auto simp: sem_took_def split: option.splits)
  have "sem_new_lock_id ?w1 = Some (- 1, ?w1)" by (rule sem_new_lock_id_none_left [OF g(2,1) full])
  then obtain h1 where run: "procs_svr_alloc (Some g) w = Some (SW_ERR, ?w1\<lparr>g_procs_head := Some h1\<rparr>)"
    and h1: "ph_lock_id h1 = ?l" "ph_sys_procs_max h1 = ph_sys_procs_max h" "ph_sys_proc_use h1 = ph_sys_proc_use h"
    using h new sem_acquire_free(3) [OF locks(2)] idx curr room(3) by (simp add: procs_svr_alloc_def Let_def)
  have awf: "area_wf Sys h" using wf by (simp add: table_wf_def area_live_def)
  have "s32 (ph_sys_proc_use h + 1) = ph_sys_proc_use h + 1"
    using awf sys(1) by (intro s32_id) (auto simp: area_wf_def area_use_def area_max_def)
  then have "procs_sys_register now (Some info) (?w1\<lparr>g_procs_head := Some h1\<rparr>) = None"
    using sys h1 locks(1) awf taken_blocks [OF locks(2)]
    by (simp add: procs_sys_register_def procs_register_def area_use_def area_max_def area_wf_def)
  with run show ?thesis by blast
qed

section \<open>Witnesses\<close>

definition proc0 :: sw_proc_info where
  "proc0 = \<lparr>pi_name = [], pi_svr_name = [], pi_prdt_name = [], pi_pid = 0, pi_status = 0, pi_type = 0, pi_mqid = 0,
     pi_shmid = 0, pi_curr_cnt = 0, pi_task_cnt = 0, pi_proc_cnt = 0, pi_group_index = 0, pi_comtype = 0, pi_sendtype = 0,
     pi_proc_index = 0, pi_restart_cnt = 0, pi_restart_flag = 0, pi_restart_type = 0, pi_lockid = 0, pi_busy_flag = 0,
     pi_mqids = [], pi_starttime = 0\<rparr>"

definition grp0 :: sw_svr_grp where
  "grp0 = \<lparr>sg_lock_id = 0, sg_offset = 0, sg_svc_max = 0, sg_svc_curr = 0, sg_svrname = [], sg_prdtname = []\<rparr>"

definition procs_cfg0 :: procs_cfg where
  "procs_cfg0 = \<lparr>cfg_session_max = 0, cfg_prdt_max = 1, cfg_lsn_max = 0, cfg_seq_max = 0, cfg_svr_max = 2, cfg_processe_max = 4\<rparr>"

definition procs_head0 :: sw_procs_head where
  "procs_head0 = \<lparr>ph_lock_id = 0, ph_count = 0, ph_sw_work_stat = 0, ph_sys_porc_offset = 0, ph_sys_proc_use = 0,
     ph_sys_procs_max = 0, ph_svr_grp_offset = 0, ph_svr_grp_max = 0, ph_svr_grp_use = 0, ph_app_porc_offset = 0,
     ph_app_proc_max = 0, ph_app_proc_use = 0, ph_grps = [grp0, grp0], ph_sys = [proc0], ph_apps = [proc0, proc0, proc0, proc0]\<rparr>"

definition procs_world0 :: procs_world where
  "procs_world0 =
     \<lparr>kernel_sems = [7 \<mapsto> [500, 500, 500, 500, 500, 500]],
      g_sem_lock = Some \<lparr>sl_sem_id = 7, sl_sem_num = 6, sl_lock_cnt = 1, sl_lock_id = 1\<rparr>, g_procs_head = None\<rparr>"

text \<open>A table with the group \<open>S\<close>, whose process \<open>P\<close> is registered, the empty group \<open>T\<close> and the system process \<open>Y\<close>.\<close>

definition grp_S :: sw_svr_grp where "grp_S = grp0\<lparr>sg_svrname := ''S'', sg_prdtname := ''A'', sg_svc_max := 2\<rparr>"
definition grp_T :: sw_svr_grp where "grp_T = grp0\<lparr>sg_svrname := ''T'', sg_prdtname := ''A'', sg_svc_max := 1\<rparr>"

definition proc_P :: sw_proc_info where
  "proc_P = proc0\<lparr>pi_name := ''P'', pi_svr_name := ''S'', pi_prdt_name := ''A'', pi_pid := 9, pi_status := SW_S_START,
     pi_busy_flag := PROC_S_IDLE, pi_restart_cnt := 3\<rparr>"
definition proc_Y :: sw_proc_info where
  "proc_Y = proc0\<lparr>pi_name := ''Y'', pi_pid := 8, pi_busy_flag := PROC_S_IDLE, pi_restart_cnt := 3\<rparr>"

definition procs_head1 :: sw_procs_head where
  "procs_head1 = procs_head0\<lparr>ph_lock_id := 2, ph_sw_work_stat := SW_ALL_STOP, ph_sys_porc_offset := 208, ph_sys_proc_use := 1,
     ph_sys_procs_max := 1, ph_svr_grp_offset := 48, ph_svr_grp_max := 2, ph_svr_grp_use := 2, ph_app_porc_offset := 416,
     ph_app_proc_max := 4, ph_app_proc_use := 3,
     ph_grps := [grp_S\<lparr>sg_lock_id := 3, sg_offset := 416, sg_svc_curr := 1\<rparr>, grp_T\<lparr>sg_lock_id := 4, sg_offset := 832\<rparr>],
     ph_sys := [proc_Y], ph_apps := [proc_P, proc0, proc0, proc0]\<rparr>"

text \<open>The table after its creation.\<close>

definition procs_head2 :: sw_procs_head where
  "procs_head2 = procs_head1\<lparr>ph_sys_proc_use := 0, ph_svr_grp_use := 0, ph_app_proc_use := 0, ph_grps := [grp0, grp0],
     ph_sys := [proc0], ph_apps := [proc0, proc0, proc0, proc0]\<rparr>"

definition procs_world1 :: procs_world where
  "procs_world1 = procs_world0\<lparr>g_sem_lock := Some \<lparr>sl_sem_id = 7, sl_sem_num = 6, sl_lock_cnt = 4, sl_lock_id = 1\<rparr>,
     g_procs_head := Some procs_head1\<rparr>"

lemmas procs_world_defs = procs_world0_def procs_world1_def procs_head0_def procs_head1_def procs_head2_def procs_cfg0_def
  grp0_def grp_S_def grp_T_def proc0_def proc_P_def proc_Y_def

lemma procs_created:
  "procs_init (Some procs_head0) (Some procs_cfg0) procs_world0 =
     Some (SW_OK, procs_world0\<lparr>g_sem_lock := Some \<lparr>sl_sem_id = 7, sl_sem_num = 6, sl_lock_cnt = 2, sl_lock_id = 1\<rparr>,
       g_procs_head := Some procs_head2\<rparr>)" (is "?init = Some (_, ?w)")
  by (simp add: procs_init_def procs_world_defs sem_call_defs semop_def sem_new_lock_id_def sem_loc_new_lock_id_def fun_upd_idem)

lemma procs_memory0: "procs_memory procs_cfg0 procs_head0"
  by (simp add: procs_memory_def procs_world_defs)

lemma procs_wf2: "procs_wf procs_head2"
  using procs_init_wf [OF procs_memory0 procs_created] by simp

lemma procs_world1_reachable: "procs_reachable procs_world1"
proof -
  let ?lock = "\<lambda>n. Some \<lparr>sl_sem_id = 7, sl_sem_num = 6, sl_lock_cnt = n, sl_lock_id = 1\<rparr>"
  let ?wi = "procs_world0\<lparr>g_sem_lock := ?lock 2, g_procs_head := Some procs_head2\<rparr>"
  let ?hs = "procs_head2\<lparr>ph_svr_grp_use := 1, ph_app_proc_use := 2, ph_grps := [grp_S\<lparr>sg_lock_id := 3, sg_offset := 416\<rparr>, grp0]\<rparr>"
  let ?ws = "procs_world1\<lparr>g_sem_lock := ?lock 3, g_procs_head := Some ?hs\<rparr>"
  let ?ht = "procs_head1\<lparr>ph_sys_proc_use := 0, ph_sys := [proc0], ph_apps := [proc0, proc0, proc0, proc0],
    ph_grps := [grp_S\<lparr>sg_lock_id := 3, sg_offset := 416\<rparr>, grp_T\<lparr>sg_lock_id := 4, sg_offset := 832\<rparr>]\<rparr>"
  let ?wt = "procs_world1\<lparr>g_procs_head := Some ?ht\<rparr>"
  let ?wy = "procs_world1\<lparr>g_procs_head := Some (?ht\<lparr>ph_sys_proc_use := 1, ph_sys := [proc_Y]\<rparr>)\<rparr>"
  note eval = procs_world_defs sem_call_defs semop_def sem_new_lock_id_def sem_loc_new_lock_id_def fun_upd_idem
  have "procs_reachable ?wi"
    by (rule procs_reachable.start [OF procs_memory0 procs_created])
  moreover have "procs_reachable ?ws" if "procs_reachable ?wi"
    by (rule procs_reachable.svr_alloc [OF that, where g = grp_S]) (simp_all add: procs_svr_alloc_def procs_get_svr_by_name_def eval numeral_2_eq_2)
  moreover have "procs_reachable ?wt" if "procs_reachable ?ws"
    by (rule procs_reachable.svr_alloc [OF that, where g = grp_T]) (simp_all add: procs_svr_alloc_def procs_get_svr_by_name_def eval numeral_2_eq_2)
  moreover have "table_step ?wt ?wy"
    by (rule table_step.sys_register [where now = 0 and info = "Some proc_Y" and r = 0])
      (simp add: procs_sys_register_def procs_register_def proc_slot_def area_use_def area_max_def area_procs_def
        set_use_def put_proc_def eval)
  moreover have "table_step ?wy procs_world1"
    by (rule table_step.svr_register [where now = 0 and info = "Some proc_P" and r = 0])
      (simp add: procs_svr_register_def procs_get_svr_by_name_def procs_register_def proc_slot_def area_use_def area_max_def area_procs_def
        set_use_def put_proc_def grp_base_def eval numeral_2_eq_2)
  ultimately show ?thesis by (blast intro: procs_reachable.step)
qed

text \<open>A table with a half-made group.\<close>

lemma procs_half_made_exists: "\<exists>w :: procs_world. procs_half_made w \<and> g_procs_head w \<noteq> Some procs_head2"
proof -
  let ?wi = "procs_world0\<lparr>g_sem_lock := Some \<lparr>sl_sem_id = 7, sl_sem_num = 6, sl_lock_cnt = 2, sl_lock_id = 1\<rparr>,
    g_procs_head := Some procs_head2\<rparr>"
  let ?wf = "?wi\<lparr>g_sem_lock := Some \<lparr>sl_sem_id = 7, sl_sem_num = 6, sl_lock_cnt = 6, sl_lock_id = 1\<rparr>\<rparr>"
  have "procs_reachable ?wi" by (rule procs_reachable.start [OF procs_memory0 procs_created])
  then have "procs_reachable ?wf" by (rule procs_reachable.step) (rule table_step.other, simp)
  moreover obtain w' where "procs_svr_alloc (Some grp_S) ?wf = Some (SW_ERR, w')" "g_procs_head w' \<noteq> Some procs_head2"
    by (simp add: procs_svr_alloc_def procs_get_svr_by_name_def procs_world_defs sem_call_defs semop_def
        sem_new_lock_id_def sem_loc_new_lock_id_def numeral_2_eq_2)
  ultimately show ?thesis by (blast intro: procs_half_made.no_lock_left)
qed

lemma procs_wf1: "procs_wf procs_head1"
  using procs_reachable_wf [OF procs_world1_reachable] by (simp add: procs_world1_def)

lemma procs_world1_head: "g_procs_head procs_world1 = Some procs_head1" by (simp add: procs_world1_def)

lemma procs_world1_free: "sem_free 2 procs_world1" "sem_free 3 procs_world1"
  by (simp_all add: sem_free_def procs_world_defs)

lemma procs_live1: "group_live 0 procs_head1" "group_live 1 procs_head1" "area_live Sys procs_head1" "area_live (Grp 0) procs_head1"
  by (simp_all add: group_live_def area_live_def procs_world_defs)

theorem process_runs_disjoint_witness:
  "\<exists>h. g_procs_head procs_world1 = Some h \<and> run_end h 0 = 2 \<and>
     {run_first h 0..<run_end h 0} \<inter> {run_first h 1..<run_end h 1} = {}"
  using process_runs_disjoint [OF disjI1 [OF procs_world1_reachable]] procs_live1
  by (auto simp: procs_world1_head) (simp add: run_end_def run_first_def grp_base_def procs_world_defs)

theorem registration_updates_directory_witness:
  "\<exists>h'. procs_register 5 (Grp 0) 2 (Some (proc_P\<lparr>pi_name := ''Q''\<rparr>)) procs_world1 = Some (SW_OK, procs_world1\<lparr>g_procs_head := Some h'\<rparr>) \<and>
     dir (Grp 0) h' ''Q'' \<noteq> None \<and> dir (Grp 0) h' ''P'' = Some proc_P"
proof -
  have "dir (Grp 0) procs_head1 = [''P'' \<mapsto> proc_P]" "area_use (Grp 0) procs_head1 \<noteq> area_max (Grp 0) procs_head1"
    by (auto simp: dir_def area_use_def area_max_def area_procs_def grp_base_def procs_world_defs)
  with registration_updates_directory [OF procs_world1_head procs_wf1 procs_live1(4), of 2 "proc_P\<lparr>pi_name := ''Q''\<rparr>" 5]
    procs_world1_free procs_live1(4)
  show ?thesis by auto
qed

theorem registered_process_is_found_witness:
  "\<exists>w1 w2 p. procs_svr_register 5 (Some (proc_P\<lparr>pi_name := ''Q''\<rparr>)) procs_world1 = Some (SW_OK, w1) \<and>
     procs_get_proces_info (Some ''A'') (Some ''S'') (Some ''Q'') True w1 = Some (SW_OK, Some p, w2)"
proof -
  have "procs_get_svr_by_name (Some ''S'') (Some ''A'') procs_world1 = Some (Some 0)"
    by (simp add: procs_get_svr_by_name_def procs_world_defs)
  moreover have "area_use (Grp 0) procs_head1 < area_max (Grp 0) procs_head1" "ph_lock_id procs_head1 = 2"
      "sg_lock_id (ph_grps procs_head1 ! 0) = 3" "pi_svr_name proc_P = ''S''" "pi_prdt_name proc_P = ''A''"
    by (simp_all add: area_use_def area_max_def procs_world_defs)
  ultimately show ?thesis
    using registered_process_is_found [OF procs_world1_head procs_wf1, of 0 "proc_P\<lparr>pi_name := ''Q''\<rparr>" 5] procs_world1_free
    by fastforce
qed

theorem dispatch_choice_witness:
  "\<exists>p w'. procs_get_dst_proc (\<lambda>_. True) (Some ''S'') (Some ''A'') SW_MSG_REQ True procs_world1 = Some (SW_OK, Some p, w')"
proof -
  have "procs_get_svr_by_name (Some ''S'') (Some ''A'') procs_world1 = Some (Some 0)"
    by (simp add: procs_get_svr_by_name_def procs_world_defs)
  moreover have "area_use (Grp 0) procs_head1 = 1" "area_max (Grp 0) procs_head1 = 2"
      "area_procs (Grp 0) procs_head1 = [proc_P, proc0, proc0, proc0]" "sg_lock_id (ph_grps procs_head1 ! 0) = 3"
    by (simp_all add: area_use_def area_max_def area_procs_def grp_base_def procs_world_defs)
  moreover have "pi_task_cnt proc_P = 0" "pi_task_cnt proc0 = 0" by (simp_all add: procs_world_defs)
  moreover have "0 \<in> takers (\<lambda>_. True) SW_MSG_REQ [proc_P]"
    by (simp add: takers_def can_take_def pub_proc_checkpid_def procs_world_defs)
  ultimately show ?thesis
    using dispatch_choice [OF procs_world1_head, of "Some ''S''" "Some ''A''" 0 "[proc_P]" "\<lambda>_. True" SW_MSG_REQ] procs_world1_free
    by (auto split: if_splits)
qed

theorem full_table_refuses_known_witness:
  "procs_sys_register 5 (Some proc_Y) procs_world1 = Some (SW_ERR, procs_world1)"
proof -
  have "area_use Sys procs_head1 = 1" "area_max Sys procs_head1 = 1" "ph_lock_id procs_head1 = 2" "pi_name proc_Y \<noteq> []"
      "dir Sys procs_head1 (pi_name proc_Y) \<noteq> None"
    by (simp_all add: area_use_def area_max_def area_procs_def dir_def procs_world_defs)
  with full_table_refuses_known [OF procs_world1_head procs_wf1, of proc_Y 5] procs_world1_free show ?thesis by simp
qed

theorem index_reads_next_group_witness:
  "procs_get_proces_by_index (Some 0) 2 True procs_world1 = Some (SW_OK, Some (area_procs (Grp 1) procs_head1 ! 0), procs_world1)"
proof -
  have "area_max (Grp 0) procs_head1 = 2" "area_max (Grp 1) procs_head1 = 1" "ph_lock_id procs_head1 = 2"
      "run_first procs_head1 1 = run_end procs_head1 0"
    by (simp_all add: area_max_def run_end_def run_first_def grp_base_def procs_world_defs)
  with index_reads_next_group [OF procs_world1_head procs_wf1 procs_live1(1,2)] procs_world1_free show ?thesis by simp
qed

theorem failed_alloc_keeps_lock_witness:
  "\<exists>(w::procs_world) w1. procs_svr_alloc (Some grp_S) w = Some (SW_ERR, w1) \<and> procs_sys_register 5 (Some proc_Y) w1 = None"
proof -
  let ?s = "\<lparr>sl_sem_id = 7, sl_sem_num = 6, sl_lock_cnt = 6, sl_lock_id = 1\<rparr>"
  let ?w = "procs_world0\<lparr>g_sem_lock := Some ?s, g_procs_head := Some procs_head2\<rparr>"
  have "\<exists>w1. procs_svr_alloc (Some grp_S) ?w = Some (SW_ERR, w1) \<and> procs_sys_register 5 (Some proc_Y) w1 = None"
    by (rule failed_alloc_keeps_lock [OF _ procs_wf2, of _ ?s])
      (simp_all add: procs_get_svr_by_name_def sem_free_def area_use_def area_max_def procs_world_defs)
  then show ?thesis by blast
qed

end
