(* ===== verification/Alias_Pool.thy ===== *)
theory Alias_Pool
  imports Prelude "HOL-Library.Word"
begin

text \<open>
  The alias pool, \<^verbatim>\<open>core/alias_pool.c\<close>: a hash table of 301 buckets from names to values.  A bucket is the list of its
  nodes, the head embedded in the table; a node's value is a buffer of its own.  Whether the slab allocator has memory is
  an argument of the operations (\<open>node_ok\<close>, \<open>value_ok\<close>); it hands out cleared memory.
\<close>

section \<open>State\<close>

abbreviation (input) ALIAS_NODE_NUM :: nat where "ALIAS_NODE_NUM \<equiv> 301"

record alias_node =
  an_name :: cstr
  an_value :: "char list option"
  an_type :: int
  an_length :: int
  an_size :: int

definition zero_alias_node :: alias_node where
  "zero_alias_node = \<lparr>an_name = [], an_value = None, an_type = 0, an_length = 0, an_size = 0\<rparr>"

type_synonym alias_pool = "alias_node list list"

section \<open>Operations\<close>

text \<open>\<open>link_ret\<close> is the answer of \<^verbatim>\<open>slab_link_init\<close>.\<close>

definition alias_init :: "int \<Rightarrow> int \<times> alias_pool" where
  "alias_init link_ret = (if link_ret \<noteq> 0 then - 1 else 0, replicate ALIAS_NODE_NUM [zero_alias_node])"

definition alias_destory :: "alias_pool \<Rightarrow> alias_pool" where
  "alias_destory ap = replicate ALIAS_NODE_NUM [zero_alias_node]"

text \<open>\<^verbatim>\<open>char\<close> is signed; the sum is one of 32 bit words.\<close>

fun alias_hash_from :: "32 word \<Rightarrow> cstr \<Rightarrow> 32 word" where
  "alias_hash_from hash [] = hash"
| "alias_hash_from hash (c # cs) =
     alias_hash_from (hash + (push_bit 5 hash + word_of_int (signed_take_bit 7 (of_char c)))) cs"

definition alias_hash :: "cstr \<Rightarrow> 32 word" where
  "alias_hash str = and (alias_hash_from 5381 str) 0x7FFFFFFF"

definition alias_get_index :: "cstr \<Rightarrow> nat" where
  "alias_get_index name = unat (alias_hash name) mod ALIAS_NODE_NUM"

text \<open>\<^verbatim>\<open>strcasecmp\<close> in the C locale.\<close>

definition c_tolower :: "char \<Rightarrow> nat" where
  "c_tolower c = (let n = of_char c in if 65 \<le> n \<and> n \<le> 90 then n + 32 else n)"

definition strcasecmp0 :: "cstr \<Rightarrow> cstr \<Rightarrow> bool" where
  "strcasecmp0 s t \<longleftrightarrow> map c_tolower s = map c_tolower t"

text \<open>The node \<^verbatim>\<open>alias_set\<close> stores into: the first that is unused or has the name, or a new one at the end.\<close>

definition alias_slot :: "bool \<Rightarrow> cstr \<Rightarrow> alias_node list \<Rightarrow> (nat \<times> alias_node list) option" where
  "alias_slot node_ok name chain =
     (case find_idx (\<lambda>n. an_name n = [] \<or> strcasecmp0 (an_name n) name) chain of
        Some i \<Rightarrow> Some (i, chain)
      | None \<Rightarrow> if node_ok then Some (length chain, chain @ [zero_alias_node]) else None)"

text \<open>Growing the buffer.  When no memory is left the value is gone and the old sz stays.\<close>

definition alias_grow :: "bool \<Rightarrow> int \<Rightarrow> alias_node \<Rightarrow> int \<times> alias_node" where
  "alias_grow value_ok sz n =
     (if an_size n < sz then
        if value_ok then (0, n\<lparr>an_value := Some (replicate (nat sz) CHR 0x00), an_size := sz\<rparr>)
        else (- 1, n\<lparr>an_value := None\<rparr>)
      else (0, n))"

text \<open>\<open>value\<close> is the memory behind the pointer; \<^verbatim>\<open>memcpy\<close> reads one byte more than \<open>length\<close>.\<close>

definition alias_set :: "bool \<Rightarrow> bool \<Rightarrow> alias_pool \<Rightarrow> cstr \<Rightarrow> char list \<Rightarrow> int \<Rightarrow> (int \<times> alias_pool) option" where
  "alias_set node_ok value_ok ap name mem len =
     (let sz = (len + 1) mod 2 ^ 64; idx = alias_get_index name in
      if name = [] then Some (- 1, ap)
      else
        (case alias_slot node_ok name (ap ! idx) of
           None \<Rightarrow> Some (- 1, ap)
         | Some (i, chain) \<Rightarrow>
             let (ret, n) = alias_grow value_ok sz (chain ! i) in
             if ret \<noteq> 0 then Some (- 1, ap[idx := chain[i := n]])
             else
               (case an_value n of
                  None \<Rightarrow> None
                | Some buf \<Rightarrow>
                    if int (length mem) < sz then None
                    else Some (0, ap[idx := chain[i := n\<lparr>an_name := cstr_cut 31 name,
                      an_value := Some (take (nat sz) mem @ replicate (nat (an_size n - sz)) CHR 0x00),
                      an_length := len\<rparr>]]))))"

text \<open>The walk of \<^verbatim>\<open>alias_get\<close>: an unused node ends it, unless it is the head.\<close>

fun alias_walk :: "cstr \<Rightarrow> alias_node list \<Rightarrow> char list option" where
  "alias_walk name [] = None"
| "alias_walk name (n # ns) =
     (if an_name n = [] then None
      else if strcasecmp0 (an_name n) name then an_value n
      else alias_walk name ns)"

definition alias_get :: "alias_pool \<Rightarrow> cstr \<Rightarrow> char list option" where
  "alias_get ap name =
     (case ap ! alias_get_index name of
        [] \<Rightarrow> None
      | m # ns \<Rightarrow> if strcasecmp0 (an_name m) name then an_value m else alias_walk name ns)"

definition alias_delete :: "alias_pool \<Rightarrow> cstr \<Rightarrow> int \<times> alias_pool" where
  "alias_delete ap name =
     (let idx = alias_get_index name; chain = ap ! idx in
      (case find_idx (\<lambda>n. an_name n = [] \<or> strcasecmp0 (an_name n) name) chain of
         None \<Rightarrow> (0, ap)
       | Some i \<Rightarrow>
           if an_name (chain ! i) = [] then (0, ap)
           else if i = 0 then
             (0, ap[idx := chain[0 := (chain ! 0)\<lparr>an_name := [], an_value := None, an_size := 0, an_length := 0\<rparr>]])
           else (0, ap[idx := take i chain @ drop (Suc i) chain])))"

text \<open>A bucket whose head is used loses every node (those behind an unused one are not even freed); one whose head is
  unused is not visited.\<close>

definition alias_clear :: "alias_node list \<Rightarrow> alias_node list" where
  "alias_clear chain = (if chain = [] \<or> an_name (hd chain) = [] then chain else [zero_alias_node])"

definition alias_delete_all :: "alias_pool \<Rightarrow> int \<times> alias_pool" where
  "alias_delete_all ap = (0, map alias_clear ap)"

section \<open>Chains\<close>

lemma strcasecmp0_refl [simp]: "strcasecmp0 s s" by (simp add: strcasecmp0_def)

lemma strcasecmp0_sym: "strcasecmp0 s t \<Longrightarrow> strcasecmp0 t s" by (simp add: strcasecmp0_def)

lemma strcasecmp0_Nil [simp]: "strcasecmp0 [] t \<longleftrightarrow> t = []" "strcasecmp0 s [] \<longleftrightarrow> s = []"
  by (auto simp: strcasecmp0_def)

text \<open>No unused node but a head without followers, no name twice, and a node without a buffer has no size.\<close>

definition chain_ok :: "alias_node list \<Rightarrow> bool" where
  "chain_ok chain \<longleftrightarrow> (\<exists>n. chain = [n] \<and> an_name n = [] \<and> an_value n = None \<and> an_size n \<le> 0) \<or>
     chain \<noteq> [] \<and> (\<forall>n \<in> set chain. an_name n \<noteq> [] \<and> (an_value n = None \<longrightarrow> an_size n \<le> 0)) \<and>
     distinct (map (\<lambda>n. map c_tolower (an_name n)) chain)"

definition pool_ok :: "alias_pool \<Rightarrow> bool" where
  "pool_ok ap \<longleftrightarrow> length ap = ALIAS_NODE_NUM \<and> (\<forall>chain \<in> set ap. chain_ok chain)"

lemma alias_index_less [simp]: "alias_get_index name < ALIAS_NODE_NUM"
  by (simp add: alias_get_index_def)

lemma pool_ok_chain: "pool_ok ap \<Longrightarrow> chain_ok (ap ! alias_get_index name)"
  by (simp add: pool_ok_def)

lemma pool_ok_upd: "pool_ok ap \<Longrightarrow> chain_ok chain \<Longrightarrow> pool_ok (ap[i := chain])"
  by (auto simp: pool_ok_def dest: set_update_subset_insert [THEN subsetD])

lemma alias_get_walk:
  assumes "chain_ok (ap ! alias_get_index name)" and "name \<noteq> []"
  shows "alias_get ap name = alias_walk name (ap ! alias_get_index name)"
  using assms by (auto simp: alias_get_def chain_ok_def split: list.split)

lemma walk_update:
  assumes "\<forall>n \<in> set chain. an_name n \<noteq> []" and "an_name n' = name" "name \<noteq> []"
    and "find_idx (\<lambda>n. an_name n = [] \<or> strcasecmp0 (an_name n) name) chain = Some i"
  shows "alias_walk j (chain[i := n']) = (if strcasecmp0 name j then an_value n' else alias_walk j chain)"
  using assms
proof (induction chain arbitrary: i)
  case (Cons m chain)
  show ?case
  proof (cases "strcasecmp0 (an_name m) name")
    case True
    with Cons.prems show ?thesis by (auto simp: strcasecmp0_def)
  next
    case False
    with Cons.prems obtain k where "find_idx (\<lambda>n. an_name n = [] \<or> strcasecmp0 (an_name n) name) chain = Some k" "i = Suc k"
      by auto
    with Cons.IH [of k] Cons.prems False show ?thesis by (auto simp: strcasecmp0_def)
  qed
qed simp

lemma walk_snoc:
  assumes "\<forall>n \<in> set chain. an_name n \<noteq> []" and "an_name n' = name" "name \<noteq> []"
    and "find_idx (\<lambda>n. an_name n = [] \<or> strcasecmp0 (an_name n) name) chain = None"
  shows "alias_walk j (chain @ [n']) = (if strcasecmp0 name j then an_value n' else alias_walk j chain)"
  using assms(1) assms(4) [unfolded find_idx_None] assms(2,3) by (induction chain) (auto simp: strcasecmp0_def)

text \<open>What a set does to a chain, the memory given.\<close>

lemma alias_slot_ok:
  assumes ok: "chain_ok chain" and nm: "name \<noteq> []"
  obtains i chain1 where "alias_slot True name chain = Some (i, chain1)" and "i < length chain1"
    and "an_value (chain1 ! i) = None \<Longrightarrow> an_size (chain1 ! i) \<le> 0"
    and "\<And>n'. an_name n' = name \<Longrightarrow> (an_value n' = None \<Longrightarrow> an_size n' \<le> 0) \<Longrightarrow> chain_ok (chain1[i := n'])"
    and "\<And>n' j. an_name n' = name \<Longrightarrow> j \<noteq> [] \<Longrightarrow>
      alias_walk j (chain1[i := n']) = (if strcasecmp0 name j then an_value n' else alias_walk j chain)"
proof (cases "\<exists>m. chain = [m] \<and> an_name m = []")
  case True
  then obtain m where m: "chain = [m]" "an_name m = []" by blast
  show ?thesis
    by (rule that [of 0 chain]) (use m nm ok in \<open>auto simp: alias_slot_def chain_ok_def\<close>)
next
  case False
  then have all: "chain \<noteq> []" "\<forall>n \<in> set chain. an_name n \<noteq> [] \<and> (an_value n = None \<longrightarrow> an_size n \<le> 0)"
      "distinct (map (\<lambda>n. map c_tolower (an_name n)) chain)"
    using ok by (auto simp: chain_ok_def)
  let ?f = "find_idx (\<lambda>n. an_name n = [] \<or> strcasecmp0 (an_name n) name) chain"
  show ?thesis
  proof (cases ?f)
    case (Some i)
    then have i: "i < length chain" "map c_tolower (an_name (chain ! i)) = map c_tolower name"
      using find_idx_Some [OF Some] all(2) by (auto simp: strcasecmp0_def)
    show ?thesis
    proof (rule that [of i chain])
      fix n' :: alias_node assume n': "an_name n' = name" "an_value n' = None \<Longrightarrow> an_size n' \<le> 0"
      have "map (\<lambda>n. map c_tolower (an_name n)) (chain[i := n']) = map (\<lambda>n. map c_tolower (an_name n)) chain"
        using i n'(1) by (simp add: map_update list_update_same_conv)
      then show "chain_ok (chain[i := n'])"
        using all nm n' unfolding chain_ok_def
        by (auto dest: set_update_subset_insert [THEN subsetD])
    qed (use Some i all walk_update [OF _ _ nm Some] in \<open>auto simp: alias_slot_def\<close>)
  next
    case None
    show ?thesis
    proof (rule that [of "length chain" "chain @ [zero_alias_node]"])
      fix n' :: alias_node assume n': "an_name n' = name" "an_value n' = None \<Longrightarrow> an_size n' \<le> 0"
      have "map c_tolower name \<notin> (\<lambda>n. map c_tolower (an_name n)) ` set chain"
        using None by (auto simp: find_idx_None strcasecmp0_def)
      then show "chain_ok ((chain @ [zero_alias_node])[length chain := n'])"
        using all nm n' by (auto simp: chain_ok_def)
    qed (use None all walk_snoc [OF _ _ nm None] in \<open>auto simp: alias_slot_def zero_alias_node_def\<close>)
  qed
qed

section \<open>The pool as a store\<close>

text \<open>Strings as values: what the caller passes and what it reads back.\<close>

definition alias_put :: "cstr \<Rightarrow> cstr \<Rightarrow> alias_pool \<Rightarrow> (int \<times> alias_pool) option" where
  "alias_put name v ap = alias_set True True ap name (v @ [CHR 0x00]) (int (length v))"

definition alias_text :: "cstr \<Rightarrow> alias_pool \<Rightarrow> cstr option" where
  "alias_text name ap = map_option (takeWhile (\<lambda>c. c \<noteq> CHR 0x00)) (alias_get ap name)"

definition alias_key_ok :: "cstr \<Rightarrow> bool" where "alias_key_ok k \<longleftrightarrow> k \<noteq> [] \<and> length k < 32"

definition alias_val_ok :: "cstr \<Rightarrow> bool" where "alias_val_ok v \<longleftrightarrow> CHR 0x00 \<notin> set v \<and> int (length v) < 2 ^ 31"

definition alias_same :: "cstr \<Rightarrow> cstr \<Rightarrow> bool" where
  "alias_same k j \<longleftrightarrow> alias_get_index k = alias_get_index j \<and> strcasecmp0 k j"

lemma takeWhile_text: "CHR 0x00 \<notin> set v \<Longrightarrow> takeWhile (\<lambda>c. c \<noteq> CHR 0x00) (v @ CHR 0x00 # zs) = v"
  by (induction v) auto

lemma alias_put_spec:
  assumes ok: "pool_ok ap" and key: "alias_key_ok k" and v: "alias_val_ok v"
  shows "\<exists>ap'. alias_put k v ap = Some (0, ap') \<and> pool_ok ap' \<and>
    (\<forall>j. alias_key_ok j \<longrightarrow> alias_text j ap' = (if alias_same k j then Some v else alias_text j ap))"
proof -
  let ?idx = "alias_get_index k"
  have nm: "k \<noteq> []" "cstr_cut 31 k = k" using key by (auto simp: alias_key_ok_def)
  obtain i chain1 where slot: "alias_slot True k (ap ! ?idx) = Some (i, chain1)" and i: "i < length chain1"
    and buf: "an_value (chain1 ! i) = None \<Longrightarrow> an_size (chain1 ! i) \<le> 0"
    and keep: "\<And>n'. an_name n' = k \<Longrightarrow> (an_value n' = None \<Longrightarrow> an_size n' \<le> 0) \<Longrightarrow> chain_ok (chain1[i := n'])"
    and walk: "\<And>n' j. an_name n' = k \<Longrightarrow> j \<noteq> [] \<Longrightarrow>
      alias_walk j (chain1[i := n']) = (if strcasecmp0 k j then an_value n' else alias_walk j (ap ! ?idx))"
    using alias_slot_ok [OF pool_ok_chain [OF ok] nm(1)] by metis
  have sz: "(int (length v) + 1) mod 2 ^ 64 = int (length v) + 1"
    using v by (simp add: alias_val_ok_def)
  obtain n where n: "alias_grow True (int (length v) + 1) (chain1 ! i) = (0, n)" "an_value n \<noteq> None"
    using buf by (cases "an_size (chain1 ! i) < int (length v) + 1") (auto simp: alias_grow_def)
  define n' where "n' = n\<lparr>an_name := k, an_value := Some (v @ CHR 0x00 # replicate (nat (an_size n - (int (length v) + 1))) CHR 0x00),
      an_length := int (length v)\<rparr>"
  let ?ap = "ap[?idx := chain1[i := n']]"
  have run: "alias_put k v ap = Some (0, ?ap)"
    using nm slot n sz by (auto simp: alias_put_def alias_set_def Let_def n'_def nat_add_distrib)
  have ok': "pool_ok ?ap" by (rule pool_ok_upd [OF ok keep]) (simp_all add: n'_def)
  have get: "alias_text j ?ap = (if alias_same k j then Some v else alias_text j ap)" if j: "alias_key_ok j" for j
  proof -
    have jn: "j \<noteq> []" using j by (simp add: alias_key_ok_def)
    have len: "length ap = ALIAS_NODE_NUM" using ok by (simp add: pool_ok_def)
    show ?thesis
    proof (cases "alias_get_index j = ?idx")
      case True
      then have "alias_get ?ap j = (if strcasecmp0 k j then an_value n' else alias_get ap j)"
        using alias_get_walk [OF pool_ok_chain [OF ok'] jn] alias_get_walk [OF pool_ok_chain [OF ok] jn] walk [of n' j] jn len
        by (simp add: n'_def)
      then show ?thesis using True v
        by (simp add: alias_text_def alias_same_def n'_def alias_val_ok_def takeWhile_text)
    next
      case False
      then have "?ap ! alias_get_index j = ap ! alias_get_index j" by simp
      then have "alias_get ?ap j = alias_get ap j" by (simp add: alias_get_def)
      then show ?thesis using False by (simp add: alias_text_def alias_same_def)
    qed
  qed
  show ?thesis using run ok' get by blast
qed

interpretation alias_store: kv_store alias_put alias_text pool_ok alias_key_ok alias_val_ok alias_same True
proof unfold_locales
  fix s k v
  assume "pool_ok s" "alias_key_ok k" "alias_val_ok v"
  from alias_put_spec [OF this]
  show "\<exists>r s'. alias_put k v s = Some (r, s') \<and> pool_ok s' \<and> (r = SW_OK \<longleftrightarrow> True \<or> alias_text k s = None) \<and>
      (\<forall>j. alias_key_ok j \<longrightarrow> alias_text j s' = (if r = SW_OK \<and> alias_same k j then Some v else alias_text j s))"
    by auto
qed (auto simp: alias_same_def strcasecmp0_sym)

section \<open>Deletion\<close>

lemma alias_text_walk:
  "pool_ok ap \<Longrightarrow> alias_key_ok j \<Longrightarrow>
     alias_text j ap = map_option (takeWhile (\<lambda>c. c \<noteq> CHR 0x00)) (alias_walk j (ap ! alias_get_index j))"
  by (simp add: alias_text_def alias_get_walk pool_ok_chain alias_key_ok_def)

lemma walk_none: "\<forall>n \<in> set chain. \<not> strcasecmp0 (an_name n) j \<Longrightarrow> alias_walk j chain = None"
  by (induction chain) auto

lemma walk_remove:
  assumes "\<forall>n \<in> set chain. an_name n \<noteq> []" and "distinct (map (\<lambda>n. map c_tolower (an_name n)) chain)"
    and "i < length chain" "strcasecmp0 (an_name (chain ! i)) name"
  shows "alias_walk j (take i chain @ drop (Suc i) chain) = (if strcasecmp0 name j then None else alias_walk j chain)"
  using assms
proof (induction chain arbitrary: i)
  case (Cons m chain)
  show ?case
  proof (cases i)
    case 0
    with Cons.prems have "\<forall>n \<in> set chain. \<not> strcasecmp0 (an_name n) name" by (force simp: strcasecmp0_def)
    then have "alias_walk j chain = None" if "strcasecmp0 name j" using that by (intro walk_none) (auto simp: strcasecmp0_def)
    then show ?thesis using 0 Cons.prems by (auto simp: strcasecmp0_def)
  next
    case (Suc k)
    have "chain ! k \<in> set chain" using Cons.prems(3) Suc by simp
    then have "map c_tolower (an_name (chain ! k)) \<in> (\<lambda>n. map c_tolower (an_name n)) ` set chain" by (rule imageI)
    then have "\<not> strcasecmp0 (an_name m) name"
      using Cons.prems(2,4) Suc by (auto simp: strcasecmp0_def)
    with Cons.IH [of k] Cons.prems Suc show ?thesis by (auto simp: strcasecmp0_def)
  qed
qed simp

lemma distinct_remove: "distinct (map f xs) \<Longrightarrow> distinct (map f (take i xs @ drop (Suc i) xs))"
  by (induction xs arbitrary: i) (auto simp: take_Cons drop_Cons split: nat.split dest: in_set_takeD in_set_dropD)

text \<open>The chain after a deletion that does not open a hole.\<close>

lemma alias_delete_spec:
  assumes ok: "pool_ok ap" and key: "alias_key_ok name"
    and no_hole: "strcasecmp0 (an_name (hd (ap ! alias_get_index name))) name \<Longrightarrow> tl (ap ! alias_get_index name) = []"
  shows "\<exists>ap'. alias_delete ap name = (0, ap') \<and> pool_ok ap' \<and>
    (\<forall>j. alias_key_ok j \<longrightarrow> alias_text j ap' = (if alias_same name j then None else alias_text j ap))"
proof -
  let ?idx = "alias_get_index name" and ?P = "\<lambda>n. an_name n = [] \<or> strcasecmp0 (an_name n) name"
  let ?chain = "ap ! ?idx"
  have nm: "name \<noteq> []" using key by (simp add: alias_key_ok_def)
  have chain: "chain_ok ?chain" by (rule pool_ok_chain [OF ok])
  have len: "length ap = ALIAS_NODE_NUM" using ok by (simp add: pool_ok_def)
  have by_chain: "\<exists>ap'. alias_delete ap name = (0, ap') \<and> pool_ok ap' \<and>
      (\<forall>j. alias_key_ok j \<longrightarrow> alias_text j ap' = (if alias_same name j then None else alias_text j ap))"
    if run: "alias_delete ap name = (0, ap[?idx := c])" and c: "chain_ok c"
      and walk: "\<And>j. j \<noteq> [] \<Longrightarrow> alias_walk j c = (if strcasecmp0 name j then None else alias_walk j ?chain)" for c
  proof -
    let ?ap = "ap[?idx := c]"
    have ok': "pool_ok ?ap" by (rule pool_ok_upd [OF ok c])
    have "alias_text j ?ap = (if alias_same name j then None else alias_text j ap)" if j: "alias_key_ok j" for j
    proof (cases "alias_get_index j = ?idx")
      case True
      have "j \<noteq> []" using j by (simp add: alias_key_ok_def)
      with True walk [of j] len show ?thesis
        by (simp add: alias_text_walk [OF ok' j] alias_text_walk [OF ok j] alias_same_def)
    next
      case False
      then show ?thesis
        by (simp add: alias_text_walk [OF ok' j] alias_text_walk [OF ok j] alias_same_def)
    qed
    then show ?thesis using run ok' by blast
  qed
  show ?thesis
  proof (cases "find_idx ?P ?chain")
    case None
    then have run: "alias_delete ap name = (0, ap[?idx := ?chain])" by (simp add: alias_delete_def Let_def)
    have "\<forall>n \<in> set ?chain. \<not> strcasecmp0 (an_name n) name" using None by (auto simp: find_idx_None)
    then have "alias_walk j ?chain = None" if "strcasecmp0 name j" for j
      using that by (intro walk_none) (auto simp: strcasecmp0_def)
    then show ?thesis by (intro by_chain [OF run chain]) simp
  next
    case (Some i)
    note f = find_idx_Some [OF Some]
    show ?thesis
    proof (cases "an_name (?chain ! i) = []")
      case True
      then have run: "alias_delete ap name = (0, ap[?idx := ?chain])" using Some by (simp add: alias_delete_def Let_def)
      have "\<exists>m. ?chain = [m] \<and> an_name m = []" using True f chain nth_mem [of i ?chain] by (auto simp: chain_ok_def)
      then have "alias_walk j ?chain = None" for j by auto
      then show ?thesis by (intro by_chain [OF run chain]) simp
    next
      case False
      then have same: "strcasecmp0 (an_name (?chain ! i)) name" using f by blast
      have all: "?chain \<noteq> []" "\<forall>n \<in> set ?chain. an_name n \<noteq> [] \<and> (an_value n = None \<longrightarrow> an_size n \<le> 0)"
          "distinct (map (\<lambda>n. map c_tolower (an_name n)) ?chain)"
        using chain False f by (auto simp: chain_ok_def)
      show ?thesis
      proof (cases i)
        case 0
        with no_hole same all(1) obtain m where m: "?chain = [m]" by (cases ?chain) auto
        let ?m = "m\<lparr>an_name := [], an_value := None, an_size := 0, an_length := 0\<rparr>"
        have run: "alias_delete ap name = (0, ap[?idx := [?m]])"
          using Some False 0 by (simp add: alias_delete_def Let_def m)
        have "chain_ok [?m]" by (simp add: chain_ok_def)
        then show ?thesis
          by (rule by_chain [OF run]) (use same 0 False in \<open>auto simp: m strcasecmp0_def\<close>)
      next
        case (Suc k)
        let ?c = "take i ?chain @ drop (Suc i) ?chain"
        have run: "alias_delete ap name = (0, ap[?idx := ?c])"
          using Some False Suc by (simp add: alias_delete_def Let_def)
        have "?c \<noteq> []" using Suc all(1) by simp
        moreover have "set ?c \<subseteq> set ?chain" using set_take_subset set_drop_subset by fastforce
        ultimately have "chain_ok ?c" using all(2) distinct_remove [OF all(3), of i] unfolding chain_ok_def by blast
        then show ?thesis
          by (rule by_chain [OF run]) (use walk_remove [OF _ all(3) _ same] f all(2) in blast)
      qed
    qed
  qed
qed

section \<open>Properties\<close>

text \<open>The pool is a store: from any well-formed pool, strings set under names that differ (as the pool compares them)
  are all read back, whatever shared buckets and buffers they went through, and every other name keeps its value.\<close>

theorem alias_sets_stored:
  assumes "pool_ok ap" and "\<forall>(k, v) \<in> set kvs. alias_key_ok k \<and> alias_val_ok v"
    and "sorted_wrt (\<lambda>(k, _) (j, _). \<not> alias_same k j) kvs"
  shows "\<exists>ap'. put_all alias_put kvs ap = Some ap' \<and> pool_ok ap' \<and>
    (\<forall>(k, v) \<in> set kvs. alias_text k ap' = Some v) \<and>
    (\<forall>j. alias_key_ok j \<and> (\<forall>(k, _) \<in> set kvs. \<not> alias_same k j) \<longrightarrow> alias_text j ap' = alias_text j ap)"
  using alias_store.put_all_get [OF assms(1) _ assms(3)] assms(2) by auto

text \<open>Deleting a name removes it and nothing else, unless the name is the head of a bucket with more nodes.\<close>

theorem alias_delete_removes:
  assumes "pool_ok ap" and "alias_key_ok name"
    and "strcasecmp0 (an_name (hd (ap ! alias_get_index name))) name \<Longrightarrow> tl (ap ! alias_get_index name) = []"
  shows "\<exists>ap'. alias_delete ap name = (0, ap') \<and> pool_ok ap' \<and>
    (\<forall>j. alias_key_ok j \<longrightarrow> alias_text j ap' = (if alias_same name j then None else alias_text j ap))"
  by (rule alias_delete_spec [OF assms])

lemma hole_run:
  assumes idx: "alias_get_index b = i" and b: "b \<noteq> []" and i: "i < length ap1"
    and chain: "ap1 ! i = h # n2 # rest" and h: "an_name h = []"
    and n2: "an_name n2 = b"
  shows "alias_delete ap1 b = (0, ap1)" and "alias_get ap1 b = an_value n2"
    and "alias_get (snd (alias_delete_all ap1)) b = an_value n2"
  using assms by (simp_all add: alias_delete_def alias_get_def alias_delete_all_def alias_clear_def Let_def)

text \<open>When the head of a bucket with more nodes is deleted, the next name can no longer be: the call answers success and
  the value stays, also after the deletion of all names; and after a set under the name a deletion brings the old value
  back.\<close>

theorem deleted_head_hides_chain:
  assumes ok: "pool_ok ap" and chain: "ap ! alias_get_index a = n1 # n2 # rest"
    and names: "an_name n1 = a" "an_name n2 = b" "alias_get_index b = alias_get_index a" "length b < 32"
    and v: "alias_val_ok v"
  shows "\<exists>ap1 ap2. alias_delete ap a = (0, ap1) \<and>
    alias_delete ap1 b = (0, ap1) \<and> alias_get ap1 b = an_value n2 \<and>
    alias_get (snd (alias_delete_all ap1)) b = an_value n2 \<and>
    alias_put b v ap1 = Some (0, ap2) \<and> alias_text b ap2 = Some v \<and>
    alias_get (snd (alias_delete ap2 b)) b = an_value n2"
proof -
  let ?i = "alias_get_index a"
  let ?h = "n1\<lparr>an_name := [], an_value := None, an_size := 0, an_length := 0\<rparr>"
  have nm: "a \<noteq> []" "b \<noteq> []" and diff: "\<not> strcasecmp0 a b"
    using pool_ok_chain [OF ok, of a] chain names by (auto simp: chain_ok_def strcasecmp0_def)
  have i: "?i < length ap" using ok by (simp add: pool_ok_def)
  let ?ap1 = "ap[?i := ?h # n2 # rest]"
  have del: "alias_delete ap a = (0, ?ap1)" using chain names nm by (simp add: alias_delete_def Let_def)
  have ap1: "?ap1 ! ?i = ?h # n2 # rest" using i by simp
  note hole = hole_run [OF names(3) nm(2) _ ap1 _ names(2)]
  have sz: "(int (length v) + 1) mod 2 ^ 64 = int (length v) + 1" using v by (simp add: alias_val_ok_def)
  define h' where "h' = ?h\<lparr>an_size := int (length v) + 1, an_name := b, an_value := Some (v @ [CHR 0x00]), an_length := int (length v)\<rparr>"
  let ?ap2 = "ap[?i := h' # n2 # rest]"
  have put: "alias_put b v ?ap1 = Some (0, ?ap2)"
    using names nm i sz
    by (simp add: alias_put_def alias_set_def alias_slot_def alias_grow_def Let_def h'_def nat_add_distrib)
  have ap2: "?ap2 ! ?i = h' # n2 # rest" using i by simp
  have stored: "alias_text b ?ap2 = Some v"
    using names(3) ap2 v takeWhile_text [of v "[]"] by (simp add: alias_text_def alias_get_def h'_def alias_val_ok_def)
  have "alias_get (snd (alias_delete ?ap2 b)) b = an_value n2"
    using names nm i by (simp add: alias_delete_def alias_get_def Let_def h'_def)
  with del hole i put stored show ?thesis by (intro exI [of _ ?ap1] exI [of _ ?ap2]) simp
qed

text \<open>A name of 32 characters or more is stored cut to 31, so it is never found again, and every set of it adds a node.\<close>

theorem long_alias_lost:
  assumes ok: "pool_ok ap" and short: "\<forall>chain \<in> set ap. \<forall>n \<in> set chain. length (an_name n) < 32"
    and long: "32 \<le> length name" and v: "alias_val_ok v"
  shows "\<exists>ap'. alias_put name v ap = Some (0, ap') \<and> alias_get ap' name = None"
proof -
  let ?i = "alias_get_index name" and ?k = "take 31 name"
  let ?chain = "ap ! ?i"
  have i: "?i < length ap" using ok by (simp add: pool_ok_def)
  have nm: "name \<noteq> []" "length ?k < 32" using long by auto
  have sz: "(int (length v) + 1) mod 2 ^ 64 = int (length v) + 1" using v by (simp add: alias_val_ok_def)
  have differ: "\<not> strcasecmp0 s name" if "length s < 32" for s
    using that long by (auto simp: strcasecmp0_def dest: map_eq_imp_length_eq)
  have others: "\<not> strcasecmp0 (an_name n) name" if "n \<in> set ?chain" for n
    using short i that by (intro differ) auto
  define fresh where "fresh m = m\<lparr>an_size := int (length v) + 1, an_name := ?k, an_value := Some (v @ [CHR 0x00]), an_length := int (length v)\<rparr>"
    for m :: alias_node
  obtain c where run: "alias_put name v ap = Some (0, ap[?i := c])" and c: "\<forall>n \<in> set c. \<not> strcasecmp0 (an_name n) name" "c \<noteq> []"
  proof (cases "\<exists>m. ?chain = [m] \<and> an_name m = []")
    case True
    then obtain m where m: "?chain = [m]" "an_name m = []" by blast
    then have "an_size m \<le> 0" using pool_ok_chain [OF ok, of name] by (auto simp: chain_ok_def)
    then have "alias_put name v ap = Some (0, ap[?i := [fresh m]])"
      using m nm sz by (simp add: alias_put_def alias_set_def alias_slot_def alias_grow_def Let_def fresh_def cstr_cut_def nat_add_distrib)
    then show thesis by (rule that) (use differ [OF nm(2)] in \<open>simp_all add: fresh_def\<close>)
  next
    case False
    then have "\<forall>n \<in> set ?chain. an_name n \<noteq> []" using pool_ok_chain [OF ok, of name] by (auto simp: chain_ok_def)
    then have "find_idx (\<lambda>n. an_name n = [] \<or> strcasecmp0 (an_name n) name) ?chain = None"
      using others by (simp add: find_idx_None)
    then have "alias_put name v ap = Some (0, ap[?i := ?chain @ [fresh zero_alias_node]])"
      using nm sz by (simp add: alias_put_def alias_set_def alias_slot_def alias_grow_def Let_def fresh_def
          cstr_cut_def zero_alias_node_def nat_add_distrib)
    then show thesis by (rule that) (use differ [OF nm(2)] others in \<open>auto simp: fresh_def\<close>)
  qed
  have "alias_get (ap[?i := c]) name = None"
    using c i walk_none [of "tl c" name] by (cases c) (auto simp: alias_get_def)
  with run show ?thesis by blast
qed

section \<open>Witnesses\<close>

lemma pool_ok_init: "pool_ok (snd (alias_init 0))"
  by (simp add: alias_init_def pool_ok_def chain_ok_def zero_alias_node_def)

text \<open>Two names that share a bucket.\<close>

lemma alias_collision: "alias_get_index ''b!'' = alias_get_index ''aB''"
  by (simp add: alias_get_index_def alias_hash_def)

definition alias_node1 :: "cstr \<Rightarrow> char list \<Rightarrow> alias_node" where
  "alias_node1 name buf = \<lparr>an_name = name, an_value = Some buf, an_type = 0, an_length = int (length buf) - 1, an_size = int (length buf)\<rparr>"

definition alias_pool1 :: alias_pool where
  "alias_pool1 = (snd (alias_init 0))[alias_get_index ''aB'' := [alias_node1 ''aB'' [CHR ''x'', CHR 0x00], alias_node1 ''b!'' [CHR ''y'', CHR 0x00]]]"

lemma pool_ok1: "pool_ok alias_pool1"
  unfolding alias_pool1_def
  by (rule pool_ok_upd [OF pool_ok_init]) (simp add: chain_ok_def alias_node1_def c_tolower_def)

lemma alias_chain1:
  "alias_pool1 ! alias_get_index ''aB'' = [alias_node1 ''aB'' [CHR ''x'', CHR 0x00], alias_node1 ''b!'' [CHR ''y'', CHR 0x00]]"
  by (simp add: alias_pool1_def alias_init_def)

lemma alias_keys: "alias_key_ok ''aB''" "alias_key_ok ''b!''" "alias_val_ok ''x''" "alias_val_ok ''y''"
    "\<not> alias_same ''aB'' ''b!''" "\<not> strcasecmp0 ''aB'' ''b!''"
  by (simp_all add: alias_key_ok_def alias_val_ok_def alias_same_def strcasecmp0_def c_tolower_def)

theorem alias_sets_stored_witness:
  "\<exists>ap'. put_all alias_put [(''aB'', ''x''), (''b!'', ''y'')] (snd (alias_init 0)) = Some ap' \<and>
     alias_text ''aB'' ap' = Some ''x'' \<and> alias_text ''b!'' ap' = Some ''y''"
  using alias_sets_stored [OF pool_ok_init, of "[(''aB'', ''x''), (''b!'', ''y'')]"] alias_keys by auto

theorem alias_delete_removes_witness:
  "\<exists>ap'. alias_delete alias_pool1 ''b!'' = (0, ap') \<and> alias_text ''b!'' ap' = None"
  using alias_delete_removes [OF pool_ok1 alias_keys(2)] alias_chain1 alias_keys alias_store.same_refl
  by (auto simp: alias_collision alias_node1_def)

theorem deleted_head_hides_chain_witness:
  "\<exists>ap1. alias_delete alias_pool1 ''aB'' = (0, ap1) \<and> alias_delete ap1 ''b!'' = (0, ap1) \<and> alias_get ap1 ''b!'' = Some [CHR ''y'', CHR 0x00]"
  using deleted_head_hides_chain [OF pool_ok1 alias_chain1 _ _ alias_collision, of "''x''"] alias_keys
  by (auto simp: alias_node1_def)

theorem long_alias_lost_witness:
  "\<exists>ap'. alias_put (replicate 40 (CHR ''n'')) ''x'' (snd (alias_init 0)) = Some (0, ap') \<and> alias_get ap' (replicate 40 (CHR ''n'')) = None"
  by (rule long_alias_lost [OF pool_ok_init]) (simp_all add: alias_init_def zero_alias_node_def alias_val_ok_def)

end
