(* ===== verification/Pub_Hash.thy ===== *)
theory Pub_Hash
  imports Prelude
begin

text \<open>
  The generic hash table, \<^verbatim>\<open>core/pub_hash.c\<close>: an array of chains of nodes, each with a copy of its key (\<^verbatim>\<open>key_size\<close>
  bytes) and of its value.  The hash function is the caller's.  A chain is the list of its nodes; new nodes come first.
\<close>

section \<open>State\<close>

record 'v hash_node =
  hn_key :: "char list"
  hn_value :: 'v

record 'v hash_t =
  ht_buckets :: nat
  ht_key_size :: nat
  ht_hash_func :: "nat \<Rightarrow> cstr \<Rightarrow> nat"
  ht_nodes :: "'v hash_node list list"

section \<open>Operations\<close>

text \<open>\<open>ok1\<close> and \<open>ok2\<close>: whether \<^verbatim>\<open>calloc\<close> has memory.\<close>

definition hash_alloc :: "bool \<Rightarrow> bool \<Rightarrow> nat \<Rightarrow> nat \<Rightarrow> (nat \<Rightarrow> cstr \<Rightarrow> nat) \<Rightarrow> 'v hash_t option" where
  "hash_alloc ok1 ok2 buckets key_size hash_func =
     (if ok1 \<and> ok2 then
        Some \<lparr>ht_buckets = buckets, ht_key_size = key_size, ht_hash_func = hash_func, ht_nodes = replicate buckets []\<rparr>
      else None)"

text \<open>The C string at the start of a piece of memory.\<close>

definition c_str :: "char list \<Rightarrow> cstr" where
  "c_str mem = takeWhile (\<lambda>c. c \<noteq> CHR 0x00) mem"

text \<open>\<open>strcmp(a, b) == 0\<close>, \<open>None\<close> when a string runs out of its memory undecided.\<close>

fun strcmp_eq :: "char list \<Rightarrow> char list \<Rightarrow> bool option" where
  "strcmp_eq (a # as) (b # bs) = (if a \<noteq> b then Some False else if a = CHR 0x00 then Some True else strcmp_eq as bs)"
| "strcmp_eq _ _ = None"

definition hash_get_bucket :: "'v hash_t \<Rightarrow> char list \<Rightarrow> nat option" where
  "hash_get_bucket h key =
     (let bucket = ht_hash_func h (ht_buckets h) (c_str key) in if ht_buckets h \<le> bucket then None else Some bucket)"

fun hash_walk :: "char list \<Rightarrow> 'v hash_node list \<Rightarrow> nat option option" where
  "hash_walk key [] = Some None"
| "hash_walk key (n # ns) =
     (case strcmp_eq key (hn_key n) of
        None \<Rightarrow> None
      | Some True \<Rightarrow> Some (Some 0)
      | Some False \<Rightarrow> map_option (map_option Suc) (hash_walk key ns))"

definition hash_get_node_by_key :: "'v hash_t \<Rightarrow> char list \<Rightarrow> (nat \<times> nat) option option" where
  "hash_get_node_by_key h key =
     (case hash_get_bucket h key of
        None \<Rightarrow> Some None
      | Some b \<Rightarrow> map_option (map_option (Pair b)) (hash_walk key (ht_nodes h ! b)))"

definition hash_lookup_entry :: "'v hash_t \<Rightarrow> char list \<Rightarrow> 'v option option" where
  "hash_lookup_entry h key =
     map_option (map_option (\<lambda>(b, i). hn_value (ht_nodes h ! b ! i))) (hash_get_node_by_key h key)"

text \<open>\<open>mem\<close> is the memory at the key: \<^verbatim>\<open>key_size\<close> bytes of it are copied.\<close>

definition hash_add_entry :: "bool \<Rightarrow> bool \<Rightarrow> bool \<Rightarrow> 'v hash_t \<Rightarrow> char list \<Rightarrow> 'v \<Rightarrow> (int \<times> 'v hash_t) option" where
  "hash_add_entry node_ok key_ok value_ok h mem v =
     (case hash_lookup_entry h mem of
        None \<Rightarrow> None
      | Some (Some _) \<Rightarrow> Some (- 1, h)
      | Some None \<Rightarrow>
          (case hash_get_bucket h mem of
             None \<Rightarrow> Some (- 1, h)
           | Some b \<Rightarrow>
               if \<not> node_ok \<or> \<not> key_ok then Some (- 1, h)
               else if length mem < ht_key_size h then None
               else if \<not> value_ok then Some (- 1, h)
               else Some (0, h\<lparr>ht_nodes := (ht_nodes h)[b :=
                 \<lparr>hn_key = take (ht_key_size h) mem, hn_value = v\<rparr> # ht_nodes h ! b]\<rparr>)))"

definition hash_free_entry :: "'v hash_t \<Rightarrow> char list \<Rightarrow> (int \<times> 'v hash_t) option" where
  "hash_free_entry h key =
     (case hash_get_node_by_key h key of
        None \<Rightarrow> None
      | Some None \<Rightarrow> Some (- 1, h)
      | Some (Some (b, i)) \<Rightarrow>
          Some (0, h\<lparr>ht_nodes := (ht_nodes h)[b := take i (ht_nodes h ! b) @ drop (Suc i) (ht_nodes h ! b)]\<rparr>))"

text \<open>The table is gone; only the answer is left.\<close>

definition hash_free_hash :: "'v hash_t option \<Rightarrow> int" where
  "hash_free_hash h = (if h = None then - 1 else 0)"

section \<open>Keys\<close>

lemma c_str_text [simp]: "CHR 0x00 \<notin> set k \<Longrightarrow> c_str (k @ CHR 0x00 # zs) = k"
  unfolding c_str_def by (induction k) auto

lemma strcmp_eq_text:
  "CHR 0x00 \<notin> set k \<Longrightarrow> CHR 0x00 \<notin> set j \<Longrightarrow> strcmp_eq (k @ CHR 0x00 # zs) (j @ CHR 0x00 # ys) = Some (k = j)"
proof (induction k arbitrary: j)
  case Nil
  then show ?case by (cases j) auto
next
  case (Cons c k)
  then show ?case by (cases j) auto
qed

text \<open>A well-formed table: the hash function stays below the number of buckets, every key is terminated inside its copy,
  stands in the bucket of its hash and nowhere twice.\<close>

definition key_ok :: "nat \<Rightarrow> cstr \<Rightarrow> bool" where
  "key_ok ks k \<longleftrightarrow> CHR 0x00 \<notin> set k \<and> length k < ks"

definition chain_keys :: "'v hash_node list \<Rightarrow> cstr list" where
  "chain_keys chain = map (\<lambda>n. c_str (hn_key n)) chain"

definition hash_ok :: "nat \<Rightarrow> 'v hash_t \<Rightarrow> bool" where
  "hash_ok ks h \<longleftrightarrow> ht_key_size h = ks \<and> length (ht_nodes h) = ht_buckets h \<and>
     (\<forall>k. ht_hash_func h (ht_buckets h) k < ht_buckets h) \<and>
     (\<forall>chain \<in> set (ht_nodes h). (\<forall>n \<in> set chain. CHR 0x00 \<in> set (hn_key n)) \<and> distinct (chain_keys chain))"

lemma terminated: "CHR 0x00 \<in> set mem \<Longrightarrow> \<exists>zs. mem = c_str mem @ CHR 0x00 # zs \<and> CHR 0x00 \<notin> set (c_str mem)"
  unfolding c_str_def by (induction mem) auto

lemma hash_walk_spec:
  assumes "\<forall>n \<in> set chain. CHR 0x00 \<in> set (hn_key n)" and "CHR 0x00 \<notin> set k"
  shows "hash_walk (k @ CHR 0x00 # zs) chain = Some (find_idx (\<lambda>n. c_str (hn_key n) = k) chain)"
  using assms
proof (induction chain)
  case (Cons n chain)
  obtain ys where "hn_key n = c_str (hn_key n) @ CHR 0x00 # ys" "CHR 0x00 \<notin> set (c_str (hn_key n))"
    using terminated Cons.prems(1) by auto
  with strcmp_eq_text [OF Cons.prems(2), of "c_str (hn_key n)" zs ys] have
    "strcmp_eq (k @ CHR 0x00 # zs) (hn_key n) = Some (k = c_str (hn_key n))" by simp
  with Cons show ?case by (auto split: bool.split)
qed simp

text \<open>The bucket of a key, searched.\<close>

definition hash_chain :: "cstr \<Rightarrow> 'v hash_t \<Rightarrow> 'v hash_node list" where
  "hash_chain k h = ht_nodes h ! ht_hash_func h (ht_buckets h) k"

lemma hash_ok_chain:
  assumes "hash_ok ks h"
  shows "hash_chain k h \<in> set (ht_nodes h)" "\<forall>n \<in> set (hash_chain k h). CHR 0x00 \<in> set (hn_key n)"
    "distinct (chain_keys (hash_chain k h))"
proof -
  show "hash_chain k h \<in> set (ht_nodes h)" using assms by (simp add: hash_ok_def hash_chain_def)
  then show "\<forall>n \<in> set (hash_chain k h). CHR 0x00 \<in> set (hn_key n)" "distinct (chain_keys (hash_chain k h))"
    using assms by (auto simp: hash_ok_def)
qed

lemma hash_bucket_ok:
  "hash_ok ks h \<Longrightarrow> CHR 0x00 \<notin> set k \<Longrightarrow>
     hash_get_bucket h (k @ CHR 0x00 # zs) = Some (ht_hash_func h (ht_buckets h) k)"
  by (simp add: hash_get_bucket_def hash_ok_def Let_def not_le)

lemma hash_node_ok:
  assumes "hash_ok ks h" and "CHR 0x00 \<notin> set k"
  shows "hash_get_node_by_key h (k @ CHR 0x00 # zs) =
    Some (map_option (Pair (ht_hash_func h (ht_buckets h) k)) (find_idx (\<lambda>n. c_str (hn_key n) = k) (hash_chain k h)))"
  using hash_walk_spec [OF hash_ok_chain(2) [OF assms(1)] assms(2)]
  by (simp add: hash_get_node_by_key_def hash_bucket_ok [OF assms] hash_chain_def)

definition hash_find :: "cstr \<Rightarrow> 'v hash_t \<Rightarrow> 'v option" where
  "hash_find k h = map_option (\<lambda>i. hn_value (hash_chain k h ! i)) (find_idx (\<lambda>n. c_str (hn_key n) = k) (hash_chain k h))"

lemma hash_lookup_ok:
  assumes "hash_ok ks h" and "CHR 0x00 \<notin> set k"
  shows "hash_lookup_entry h (k @ CHR 0x00 # zs) = Some (hash_find k h)"
  by (simp add: hash_lookup_entry_def hash_node_ok [OF assms] hash_find_def hash_chain_def option.map_comp comp_def)

section \<open>The table as a store\<close>

text \<open>A key as the callers pass it: in a buffer of at least \<^verbatim>\<open>key_size\<close> bytes, filled up with zeros.\<close>

definition key_mem :: "nat \<Rightarrow> cstr \<Rightarrow> char list" where
  "key_mem ks k = k @ replicate (Suc (ks - length k)) CHR 0x00"

definition hash_put :: "cstr \<Rightarrow> 'v \<Rightarrow> 'v hash_t \<Rightarrow> (int \<times> 'v hash_t) option" where
  "hash_put k v h = hash_add_entry True True True h (key_mem (ht_key_size h) k) v"

lemma key_mem_Cons: "key_mem ks k = k @ CHR 0x00 # replicate (ks - length k) CHR 0x00"
  by (simp add: key_mem_def)

lemma c_str_key: "key_ok ks k \<Longrightarrow> c_str (take ks (key_mem ks k)) = k"
proof -
  assume ok: "key_ok ks k"
  then obtain m where "ks - length k = Suc m" by (cases "ks - length k") (auto simp: key_ok_def)
  with ok show ?thesis by (simp add: key_mem_def key_ok_def)
qed

lemma key_terminated: "key_ok ks k \<Longrightarrow> CHR 0x00 \<in> set (take ks (key_mem ks k))"
  by (cases "ks - length k") (auto simp: key_mem_def key_ok_def)

lemma hash_chain_upd:
  assumes "hash_ok ks h"
  shows "hash_chain j (h\<lparr>ht_nodes := (ht_nodes h)[ht_hash_func h (ht_buckets h) k := c]\<rparr>) =
    (if ht_hash_func h (ht_buckets h) j = ht_hash_func h (ht_buckets h) k then c else hash_chain j h)"
  using assms by (simp add: hash_chain_def hash_ok_def)

lemma hash_ok_upd:
  assumes "hash_ok ks h" and "\<forall>n \<in> set c. CHR 0x00 \<in> set (hn_key n)" and "distinct (chain_keys c)"
  shows "hash_ok ks (h\<lparr>ht_nodes := (ht_nodes h)[b := c]\<rparr>)"
  using assms by (auto simp: hash_ok_def dest!: set_update_subset_insert [THEN subsetD])

lemma hash_put_new:
  assumes ok: "hash_ok ks h" and nul: "CHR 0x00 \<notin> set k" and new: "hash_find k h = None"
  shows "hash_put k v h = Some (0, h\<lparr>ht_nodes := (ht_nodes h)[ht_hash_func h (ht_buckets h) k :=
    \<lparr>hn_key = take ks (key_mem ks k), hn_value = v\<rparr> # hash_chain k h]\<rparr>)"
proof -
  have ks: "ht_key_size h = ks" using ok by (simp add: hash_ok_def)
  have "hash_lookup_entry h (key_mem ks k) = Some None"
    unfolding key_mem_Cons new [symmetric] by (rule hash_lookup_ok [OF ok nul])
  moreover have "hash_get_bucket h (key_mem ks k) = Some (ht_hash_func h (ht_buckets h) k)"
    unfolding key_mem_Cons by (rule hash_bucket_ok [OF ok nul])
  moreover have "\<not> length (key_mem ks k) < ks" by (simp add: key_mem_def)
  ultimately show ?thesis using ks by (simp add: hash_put_def hash_add_entry_def hash_chain_def)
qed

lemma hash_put_spec:
  assumes ok: "hash_ok ks h" and key: "key_ok ks k"
  shows "\<exists>r h'. hash_put k v h = Some (r, h') \<and> hash_ok ks h' \<and> (r = 0 \<longleftrightarrow> hash_find k h = None) \<and>
    ht_hash_func h' = ht_hash_func h \<and> ht_buckets h' = ht_buckets h \<and>
    (\<forall>j. hash_find j h' = (if r = 0 \<and> k = j then Some v else hash_find j h))"
proof -
  have nul: "CHR 0x00 \<notin> set k" using key by (simp add: key_ok_def)
  have ks: "ht_key_size h = ks" using ok by (simp add: hash_ok_def)
  have lookup: "hash_lookup_entry h (key_mem ks k) = Some (hash_find k h)"
    unfolding key_mem_Cons by (rule hash_lookup_ok [OF ok nul])
  show ?thesis
  proof (cases "hash_find k h")
    case (Some u)
    then show ?thesis using lookup ok ks by (auto simp: hash_put_def hash_add_entry_def)
  next
    case None
    let ?b = "ht_hash_func h (ht_buckets h) k"
    let ?n = "\<lparr>hn_key = take ks (key_mem ks k), hn_value = v\<rparr>"
    let ?h = "h\<lparr>ht_nodes := (ht_nodes h)[?b := ?n # hash_chain k h]\<rparr>"
    note run = hash_put_new [OF ok nul None, of v]
    have new: "k \<notin> set (chain_keys (hash_chain k h))"
      using None by (auto simp: hash_find_def find_idx_None chain_keys_def)
    then have ok': "hash_ok ks ?h"
      using hash_ok_chain [OF ok, of k] key_terminated [OF key]
      by (intro hash_ok_upd [OF ok]) (auto simp: chain_keys_def c_str_key [OF key])
    have "hash_find j ?h = (if k = j then Some v else hash_find j h)" for j
    proof (cases "ht_hash_func h (ht_buckets h) j = ?b")
      case True
      then have "hash_chain j h = hash_chain k h" by (simp add: hash_chain_def)
      then have "hash_chain j ?h = ?n # hash_chain j h" using hash_chain_upd [OF ok, of j k "?n # hash_chain k h"] True by simp
      then show ?thesis using c_str_key [OF key]
        by (cases "k = j") (simp_all add: hash_find_def option.map_comp comp_def)
    next
      case False
      then have "hash_chain j ?h = hash_chain j h" using hash_chain_upd [OF ok, of j k "?n # hash_chain k h"] by simp
      then show ?thesis using False by (auto simp: hash_find_def)
    qed
    with run ok' None show ?thesis by auto
  qed
qed

interpretation hash_store: kv_store hash_put hash_find "hash_ok ks" "key_ok ks" "\<lambda>_. True" "(=)" False
  for ks :: nat
proof unfold_locales
  fix s :: "'a hash_t" and k v
  assume "hash_ok ks s" "key_ok ks k"
  from hash_put_spec [OF this, of v]
  show "\<exists>r s'. hash_put k v s = Some (r, s') \<and> hash_ok ks s' \<and> (r = SW_OK \<longleftrightarrow> False \<or> hash_find k s = None) \<and>
      (\<forall>j. key_ok ks j \<longrightarrow> hash_find j s' = (if r = SW_OK \<and> k = j then Some v else hash_find j s))"
    by auto
qed auto

section \<open>Removal\<close>

lemma find_idx_map_of:
  "map_option (\<lambda>i. g (xs ! i)) (find_idx (\<lambda>x. f x = k) xs) = map_of (map (\<lambda>x. (f x, g x)) xs) k"
  by (induction xs) (auto simp: option.map_comp comp_def)

lemma hash_find_map_of: "hash_find k h = map_of (map (\<lambda>n. (c_str (hn_key n), hn_value n)) (hash_chain k h)) k"
  unfolding hash_find_def by (rule find_idx_map_of)

lemma map_of_remove:
  assumes "distinct (map f xs)" and "i < length xs"
  shows "map_of (map (\<lambda>x. (f x, g x)) (take i xs @ drop (Suc i) xs)) = (map_of (map (\<lambda>x. (f x, g x)) xs))(f (xs ! i) := None)"
  using assms
proof (induction xs arbitrary: i)
  case (Cons x xs)
  show ?case
  proof (cases i)
    case 0
    have "map_of (map (\<lambda>x. (f x, g x)) xs) (f x) = None"
      using Cons.prems by (auto simp: map_of_eq_None_iff image_image)
    with 0 show ?thesis by (auto simp: fun_eq_iff)
  next
    case (Suc j)
    then have "f (xs ! j) \<in> f ` set xs" using Cons.prems(2) by simp
    then have "f (xs ! j) \<noteq> f x" using Cons.prems(1) by auto
    with Suc Cons show ?thesis by (auto simp: fun_eq_iff)
  qed
qed simp

lemma hash_free_spec:
  assumes ok: "hash_ok ks h" and nul: "CHR 0x00 \<notin> set k"
  shows "\<exists>h'. hash_free_entry h (k @ CHR 0x00 # zs) = Some (if hash_find k h = None then - 1 else 0, h') \<and> hash_ok ks h' \<and>
    (\<forall>j. hash_find j h' = (if j = k then None else hash_find j h))"
proof (cases "find_idx (\<lambda>n. c_str (hn_key n) = k) (hash_chain k h)")
  case None
  then have "hash_find k h = None" by (simp add: hash_find_def)
  moreover have "hash_free_entry h (k @ CHR 0x00 # zs) = Some (- 1, h)"
    using None by (simp add: hash_free_entry_def hash_node_ok [OF ok nul])
  ultimately show ?thesis using ok by auto
next
  case (Some i)
  let ?b = "ht_hash_func h (ht_buckets h) k" and ?chain = "hash_chain k h"
  let ?c = "take i ?chain @ drop (Suc i) ?chain"
  let ?h = "h\<lparr>ht_nodes := (ht_nodes h)[?b := ?c]\<rparr>"
  note f = find_idx_Some [OF Some] and chain = hash_ok_chain [OF ok, of k]
  have run: "hash_free_entry h (k @ CHR 0x00 # zs) = Some (0, ?h)"
    using Some by (simp add: hash_free_entry_def hash_node_ok [OF ok nul] hash_chain_def)
  have found: "hash_find k h \<noteq> None" using Some by (simp add: hash_find_def)
  have "set ?c \<subseteq> set ?chain" by (auto dest: in_set_takeD in_set_dropD)
  moreover have "distinct (chain_keys ?c)"
  proof -
    have "distinct (take i (chain_keys ?chain) @ drop (Suc i) (chain_keys ?chain))"
      using chain(3) by (auto simp: set_take_disj_set_drop_if_distinct)
    then show ?thesis by (simp add: chain_keys_def take_map drop_map)
  qed
  ultimately have ok': "hash_ok ks ?h" using chain(2) by (intro hash_ok_upd [OF ok]) auto
  have "hash_find j ?h = (if j = k then None else hash_find j h)" for j
  proof (cases "ht_hash_func h (ht_buckets h) j = ?b")
    case True
    then have "hash_chain j h = ?chain" by (simp add: hash_chain_def)
    moreover have "hash_chain j ?h = ?c" using hash_chain_upd [OF ok, of j k ?c] True by simp
    ultimately show ?thesis
      unfolding hash_find_map_of using f map_of_remove [OF chain(3) [unfolded chain_keys_def], of i hn_value] by simp
  next
    case False
    then have "hash_chain j ?h = hash_chain j h" using hash_chain_upd [OF ok, of j k ?c] by simp
    then show ?thesis using False by (auto simp: hash_find_def)
  qed
  with run found ok' show ?thesis by auto
qed

lemma hash_alloc_ok:
  assumes "\<And>k. hash_func b k < b" and "hash_alloc True True b ks hash_func = Some h"
  shows "hash_ok ks h \<and> (\<forall>k. hash_find k h = None)"
  using assms by (auto simp: hash_alloc_def hash_ok_def hash_find_def hash_chain_def chain_keys_def)

section \<open>Properties\<close>

text \<open>C31: The table is a map: entries added under different keys that are not in it are all found, with their values; a
  second entry under a key is refused; an entry that is freed is gone; and nothing else changes.  Keys have fewer
  characters than \<^verbatim>\<open>key_size\<close> and stand in buffers of more than \<^verbatim>\<open>key_size\<close> bytes, the hash function may be any that
  answers numbers below the count of buckets (the table refuses an entry otherwise), and allocations succeed.\<close>

theorem hash_table_is_map:
  assumes "hash_ok ks h" and "\<forall>(k, v) \<in> set kvs. key_ok ks k \<and> hash_find k h = None" and "distinct (map fst kvs)"
    and "key_ok ks k" and "key_ok ks j"
  shows "\<exists>h'. put_all hash_put kvs h = Some h' \<and> hash_ok ks h' \<and>
    (\<forall>k. key_ok ks k \<longrightarrow> hash_lookup_entry h' (key_mem ks k) =
       Some (if k \<in> fst ` set kvs then map_of kvs k else hash_find k h)) \<and>
    (hash_find k h' \<noteq> None \<longrightarrow> (\<exists>r h2. hash_put k u h' = Some (r, h2) \<and> r \<noteq> 0 \<and> (\<forall>i. key_ok ks i \<longrightarrow> hash_find i h2 = hash_find i h'))) \<and>
    (\<exists>r h2. hash_free_entry h' (key_mem ks k) = Some (r, h2) \<and> hash_find k h2 = None \<and>
       (j \<noteq> k \<longrightarrow> hash_find j h2 = hash_find j h'))"
proof -
  from distinct_keys_apart [OF assms(3)] obtain h' where h': "put_all hash_put kvs h = Some h'" "hash_ok ks h'" "\<forall>(k, v) \<in> set kvs. hash_find k h' = Some v"
      and rest: "\<And>j. key_ok ks j \<Longrightarrow> \<forall>(k, _) \<in> set kvs. \<not> k = j \<Longrightarrow> hash_find j h' = hash_find j h"
    using hash_store.put_all_get [OF assms(1), of kvs] assms(2) by auto
  have "hash_lookup_entry h' (key_mem ks k) = Some (if k \<in> fst ` set kvs then map_of kvs k else hash_find k h)"
    if k: "key_ok ks k" for k
  proof -
    have "hash_lookup_entry h' (key_mem ks k) = Some (hash_find k h')"
      unfolding key_mem_Cons using k by (intro hash_lookup_ok [OF h'(2)]) (simp add: key_ok_def)
    moreover have "hash_find k h' = map_of kvs k" if "k \<in> fst ` set kvs"
      using that h'(3) assms(3) by (auto simp: map_of_eq_Some_iff)
    moreover have "hash_find k h' = hash_find k h" if "k \<notin> fst ` set kvs"
      using that by (intro rest [OF k]) force
    ultimately show ?thesis by auto
  qed
  moreover have "\<exists>r h2. hash_put k u h' = Some (r, h2) \<and> r \<noteq> 0 \<and> (\<forall>i. key_ok ks i \<longrightarrow> hash_find i h2 = hash_find i h')"
    if "hash_find k h' \<noteq> None"
    using hash_store.put_refused [OF h'(2) assms(4)] that by auto
  moreover have "\<exists>r h2. hash_free_entry h' (key_mem ks k) = Some (r, h2) \<and> hash_find k h2 = None \<and>
      (j \<noteq> k \<longrightarrow> hash_find j h2 = hash_find j h')"
  proof -
    have "CHR 0x00 \<notin> set k" using assms(4) by (simp add: key_ok_def)
    from hash_free_spec [OF h'(2) this] show ?thesis unfolding key_mem_Cons by metis
  qed
  ultimately show ?thesis using h'(1,2) by blast
qed

section \<open>Witnesses\<close>

definition hash_demo :: "int hash_t" where
  "hash_demo = the (hash_alloc True True 2 8 (\<lambda>b k. length k mod b))"

lemma hash_demo_ok: "hash_ok 8 hash_demo \<and> (\<forall>k. hash_find k hash_demo = None)"
  by (rule hash_alloc_ok [of "\<lambda>b k. length k mod b" 2]) (simp_all add: hash_demo_def hash_alloc_def)

theorem hash_table_is_map_witness:
  "\<exists>h'. put_all hash_put [(''a'', 1), (''b'', 2)] hash_demo = Some h' \<and> hash_lookup_entry h' (key_mem 8 ''b'') = Some (Some (2::int))"
proof -
  have ok: "key_ok 8 ''a''" "key_ok 8 ''b''" by (simp_all add: key_ok_def)
  have "\<forall>(k, v) \<in> set [(''a'', 1), (''b'', 2 :: int)]. key_ok 8 k \<and> hash_find k hash_demo = None"
    "distinct (map fst [(''a'', 1), (''b'', 2 :: int)])"
    using ok hash_demo_ok by simp_all
  from hash_table_is_map [OF hash_demo_ok [THEN conjunct1] this ok]
  obtain h' where "put_all hash_put [(''a'', 1), (''b'', 2)] hash_demo = Some h'"
    and "\<forall>k. key_ok 8 k \<longrightarrow> hash_lookup_entry h' (key_mem 8 k) =
       Some (if k \<in> fst ` set [(''a'', 1), (''b'', 2 :: int)] then map_of [(''a'', 1), (''b'', 2)] k else hash_find k hash_demo)"
    by blast
  then show ?thesis using ok by (intro exI [of _ h']) (simp del: put_all.simps)
qed

end
