(* ===== verification/Pub_Filter.thy ===== *)
theory Pub_Filter
  imports Pub_Hash
begin

text \<open>
  The filter of variable names, \<^verbatim>\<open>core/pub_filter.c\<close>: a file with one name per line is read into a hash table, and
  \<open>pub_is_filter\<close> asks whether a name is in it.  The content of the file is an argument.
\<close>

section \<open>State\<close>

abbreviation (input) MAX_NAME_LEN :: nat where "MAX_NAME_LEN \<equiv> 64"
abbreviation (input) MAX_DISTINCT_ITEM :: nat where "MAX_DISTINCT_ITEM \<equiv> 512"

record filter_node =
  fn_length :: int
  fn_name :: "char list"

text \<open>The pointer to the table is not reset when the table is freed.\<close>

datatype 'a table_ptr = Null | Valid 'a | Freed

record filter_world =
  g_filter :: int
  g_filter_bucket :: "filter_node hash_t table_ptr"

section \<open>Operations\<close>

definition filter_var_key :: "nat \<Rightarrow> cstr \<Rightarrow> nat" where
  "filter_var_key buckets key = (sum_list (map of_char key) mod 2 ^ 32) mod buckets"

definition filter_push :: "char list \<Rightarrow> filter_node hash_t \<Rightarrow> (int \<times> filter_node hash_t) option" where
  "filter_push mem h =
     (case hash_lookup_entry h mem of
        None \<Rightarrow> None
      | Some (Some _) \<Rightarrow> Some (0, h)
      | Some None \<Rightarrow>
          if length mem < MAX_NAME_LEN - 1 then None
          else
            (case hash_add_entry True True True h mem
                \<lparr>fn_length = 0, fn_name = take (MAX_NAME_LEN - 1) mem @ [CHR 0x00]\<rparr> of
               None \<Rightarrow> None
             | Some (ret, h1) \<Rightarrow> Some (if ret \<noteq> 0 then - 1 else 0, h1)))"

text \<open>\<^verbatim>\<open>fgets\<close> with room for \<open>n\<close> characters.\<close>

fun fgets :: "nat \<Rightarrow> char list \<Rightarrow> char list \<times> char list" where
  "fgets 0 cs = ([], cs)"
| "fgets (Suc n) [] = ([], [])"
| "fgets (Suc n) (c # cs) = (if c = CHR 0x0A then ([c], cs) else (let (l, rest) = fgets n cs in (c # l, rest)))"

lemma fgets_length: "length (snd (fgets n cs)) \<le> length cs"
  by (induction n cs rule: fgets.induct) (auto simp: Let_def split: prod.splits)

lemma fgets_255: "fgets 255 (c # cs) = (if c = CHR 0x0A then ([c], cs) else (let (l, rest) = fgets 254 cs in (c # l, rest)))"
proof -
  have "(255 :: nat) = Suc 254" by simp
  then show ?thesis by (simp only: fgets.simps)
qed

lemma fgets_shorter: "(l, rest) = fgets 255 cs \<Longrightarrow> cs \<noteq> [] \<Longrightarrow> length rest < length cs"
  using fgets_length [of 254 "tl cs"]
  by (cases cs) (auto simp: fgets_255 Let_def less_Suc_eq_le split: prod.splits if_splits)

text \<open>The loop over the lines; a line ends at its first newline or \<open>r\<close> if that is its last character.\<close>

function filter_lines :: "char list \<Rightarrow> filter_node hash_t \<Rightarrow> filter_node hash_t option" where
  "filter_lines cs h =
     (if cs = [] then Some h
      else
        let (l, rest) = fgets 255 cs;
            line = l @ replicate (256 - length l) CHR 0x00;
            len = length (c_str line) in
        if len = 0 then None
        else
          let line1 = (if line ! (len - 1) = CHR 0x0A \<or> line ! (len - 1) = CHR ''r'' then line[len - 1 := CHR 0x00] else line) in
          (case filter_push line1 h of
             None \<Rightarrow> None
           | Some (_, h1) \<Rightarrow> filter_lines rest h1))"
  by pat_completeness auto

termination
  by (relation "measure (\<lambda>(cs, h). length cs)") (auto dest: fgets_shorter)

declare filter_lines.simps [simp del]

text \<open>\<open>content\<close> is what the file holds: the outer option whether it is there, the inner whether it can be opened.\<close>

definition pub_filter_init :: "bool \<Rightarrow> char list option option \<Rightarrow> filter_world \<Rightarrow> (int \<times> filter_world) option" where
  "pub_filter_init mem_ok content w =
     (case content of
        None \<Rightarrow> Some (0, w)
      | Some file \<Rightarrow>
          (case hash_alloc mem_ok mem_ok MAX_DISTINCT_ITEM MAX_NAME_LEN filter_var_key of
             None \<Rightarrow> Some (- 1, w\<lparr>g_filter_bucket := Null\<rparr>)
           | Some h \<Rightarrow>
               (case file of
                  None \<Rightarrow> Some (- 1, w\<lparr>g_filter_bucket := Valid h\<rparr>)
                | Some cs \<Rightarrow>
                    (case filter_lines cs h of
                       None \<Rightarrow> None
                     | Some h1 \<Rightarrow> Some (0, w\<lparr>g_filter := 1, g_filter_bucket := Valid h1\<rparr>)))))"

definition pub_filter_free :: "filter_world \<Rightarrow> (int \<times> filter_world) option" where
  "pub_filter_free w =
     (case g_filter_bucket w of
        Null \<Rightarrow> Some (- 1, w)
      | Freed \<Rightarrow> None
      | Valid _ \<Rightarrow> Some (0, w\<lparr>g_filter_bucket := Freed\<rparr>))"

definition pub_is_filter :: "cstr \<Rightarrow> filter_world \<Rightarrow> int option" where
  "pub_is_filter name w =
     (if g_filter w = 0 then Some 0
      else
        (case g_filter_bucket w of
           Null \<Rightarrow> Some 0
         | Freed \<Rightarrow> None
         | Valid h \<Rightarrow>
             map_option (\<lambda>found. if found = None then 0 else 1) (hash_lookup_entry h (name @ [CHR 0x00]))))"

section \<open>What the file means\<close>

text \<open>A name that can be filtered, and the line that holds it.\<close>

definition filter_name :: "cstr \<Rightarrow> bool" where
  "filter_name n \<longleftrightarrow> CHR 0x00 \<notin> set n \<and> CHR 0x0A \<notin> set n \<and> length n < MAX_NAME_LEN"

lemma fgets_line:
  "CHR 0x0A \<notin> set n \<Longrightarrow> length n < m \<Longrightarrow> fgets m (n @ CHR 0x0A # rest) = (n @ [CHR 0x0A], rest)"
proof (induction n arbitrary: m)
  case Nil
  then show ?case by (cases m) auto
next
  case (Cons c n)
  then show ?case by (cases m) auto
qed

lemma fgets_last: "CHR 0x0A \<notin> set n \<Longrightarrow> length n \<le> m \<Longrightarrow> fgets m n = (n, [])"
proof (induction n arbitrary: m)
  case Nil
  then show ?case by (cases m) auto
next
  case (Cons c n)
  then show ?case by (cases m) auto
qed

definition filtered :: "filter_node hash_t \<Rightarrow> cstr set" where
  "filtered h = {n. hash_find n h \<noteq> None}"

text \<open>The memory of a line after it was cut.\<close>

lemma hash_add_pad:
  assumes ok: "hash_ok ks h" and key: "key_ok ks n" and pad: "ks \<le> length n + k"
  shows "hash_add_entry True True True h (n @ replicate k CHR 0x00) v = hash_put n v h"
proof -
  have nul: "CHR 0x00 \<notin> set n" and less: "length n < ks" using key by (simp_all add: key_ok_def)
  then obtain m where m: "k = Suc m" using pad by (cases k) auto
  have ks: "ht_key_size h = ks" using ok by (simp add: hash_ok_def)
  have "take ks (n @ replicate k CHR 0x00) = take ks (key_mem ks n)"
    using less pad by (simp add: key_mem_def min_def del: replicate_Suc)
  moreover have "n @ replicate k CHR 0x00 = n @ CHR 0x00 # replicate m CHR 0x00" by (simp add: m)
  moreover have "\<not> length (n @ replicate k CHR 0x00) < ks" "\<not> length (key_mem ks n) < ks"
    using pad by (simp_all add: key_mem_def)
  moreover have "hash_lookup_entry h (key_mem ks n) = Some (hash_find n h)"
    "hash_get_bucket h (key_mem ks n) = Some (ht_hash_func h (ht_buckets h) n)"
    unfolding key_mem_Cons by (rule hash_lookup_ok [OF ok nul], rule hash_bucket_ok [OF ok nul])
  ultimately show ?thesis
    unfolding hash_put_def hash_add_entry_def ks
    by (simp only: hash_lookup_ok [OF ok nul] hash_bucket_ok [OF ok nul])
qed

lemma filter_push_spec:
  assumes ok: "hash_ok MAX_NAME_LEN h" and nm: "filter_name n" and pad: "MAX_NAME_LEN \<le> length n + k"
  shows "\<exists>h' r. filter_push (n @ replicate k CHR 0x00) h = Some (r, h') \<and> hash_ok MAX_NAME_LEN h' \<and>
    filtered h' = insert n (filtered h)"
proof -
  have key: "key_ok MAX_NAME_LEN n" and nul: "CHR 0x00 \<notin> set n" using nm by (simp_all add: filter_name_def key_ok_def)
  obtain m where m: "k = Suc m" using pad nm by (cases k) (auto simp: filter_name_def)
  have lookup: "hash_lookup_entry h (n @ replicate k CHR 0x00) = Some (hash_find n h)"
    using hash_lookup_ok [OF ok nul] by (simp add: m)
  show ?thesis
  proof (cases "hash_find n h")
    case None
    let ?v = "\<lparr>fn_length = 0, fn_name = take (MAX_NAME_LEN - 1) (n @ replicate k CHR 0x00) @ [CHR 0x00]\<rparr>"
    obtain h' where put: "hash_put n ?v h = Some (0, h')" "hash_ok MAX_NAME_LEN h'"
        "\<And>j. hash_find j h' = (if n = j then Some ?v else hash_find j h)"
      using hash_put_spec [OF ok key, of ?v] None by auto
    have "filter_push (n @ replicate k CHR 0x00) h = Some (0, h')"
      using lookup None put(1) pad hash_add_pad [OF ok key pad, of ?v] by (simp add: filter_push_def)
    with put(2,3) show ?thesis by (auto simp: filtered_def)
  next
    case (Some u)
    then show ?thesis using lookup ok by (auto simp: filter_push_def filtered_def)
  qed
qed

lemma filter_line:
  assumes ok: "hash_ok MAX_NAME_LEN h" and nm: "filter_name n"
  shows "\<exists>h'. filter_lines (n @ CHR 0x0A # cs) h = filter_lines cs h' \<and> hash_ok MAX_NAME_LEN h' \<and>
    filtered h' = insert n (filtered h)"
proof -
  have n: "CHR 0x00 \<notin> set n" "CHR 0x0A \<notin> set n" "length n < 64" using nm by (simp_all add: filter_name_def)
  let ?line = "(n @ [CHR 0x0A]) @ replicate (256 - length (n @ [CHR 0x0A])) CHR 0x00"
  obtain m where m: "256 - length (n @ [CHR 0x0A]) = Suc m" using n(3) by (cases "256 - length (n @ [CHR 0x0A])") auto
  have c: "c_str ?line = n @ [CHR 0x0A]" using n(1) c_str_text [of "n @ [CHR 0x0A]"] unfolding m by simp
  have cut: "?line[length n := CHR 0x00] = n @ replicate (256 - length n) CHR 0x00"
    using n(3) m by (simp add: list_update_append Suc_diff_Suc [symmetric]) 
  obtain h' r where "filter_push (n @ replicate (256 - length n) CHR 0x00) h = Some (r, h')" "hash_ok MAX_NAME_LEN h'"
      "filtered h' = insert n (filtered h)"
    using filter_push_spec [OF ok nm, of "256 - length n"] n(3) by auto
  moreover have "filter_lines (n @ CHR 0x0A # cs) h = filter_lines cs h'"
    if "filter_push (n @ replicate (256 - length n) CHR 0x00) h = Some (r, h')"
    using that fgets_line [OF n(2), of 255 cs] n(3) c cut
    by (subst filter_lines.simps) (simp add: Let_def nth_append)
  ultimately show ?thesis by blast
qed

lemma filter_lines_names:
  assumes "hash_ok MAX_NAME_LEN h" and "\<forall>n \<in> set names. filter_name n"
  shows "\<exists>h'. filter_lines (concat (map (\<lambda>n. n @ [CHR 0x0A]) names) @ rest) h = filter_lines rest h' \<and>
    hash_ok MAX_NAME_LEN h' \<and> filtered h' = set names \<union> filtered h"
  using assms
proof (induction names arbitrary: h)
  case (Cons n names)
  let ?cs = "concat (map (\<lambda>n. n @ [CHR 0x0A]) names) @ rest"
  obtain h1 where h1: "filter_lines (n @ CHR 0x0A # ?cs) h = filter_lines ?cs h1" "hash_ok MAX_NAME_LEN h1"
      "filtered h1 = insert n (filtered h)"
    using filter_line [OF Cons.prems(1), of n ?cs] Cons.prems(2) by auto
  obtain h2 where "filter_lines ?cs h1 = filter_lines rest h2" "hash_ok MAX_NAME_LEN h2" "filtered h2 = set names \<union> filtered h1"
    using Cons.IH [OF h1(2)] Cons.prems(2) by auto
  with h1 show ?case by auto
qed auto

lemma filter_alloc:
  assumes "hash_alloc True True MAX_DISTINCT_ITEM MAX_NAME_LEN filter_var_key = Some h"
  shows "hash_ok MAX_NAME_LEN h \<and> filtered h = {}"
  using hash_alloc_ok [of filter_var_key MAX_DISTINCT_ITEM, OF _ assms] by (simp add: filtered_def filter_var_key_def)

section \<open>Properties\<close>

text \<open>After the filter file is read, exactly the names on its lines are filtered.\<close>

theorem filter_file_names:
  assumes "\<forall>n \<in> set names. filter_name n" and "CHR 0x00 \<notin> set name"
  shows "\<exists>w1. pub_filter_init True (Some (Some (concat (map (\<lambda>n. n @ [CHR 0x0A]) names)))) w = Some (0, w1) \<and>
    pub_is_filter name w1 = Some (if name \<in> set names then 1 else 0)"
proof -
  obtain h :: "filter_node hash_t" where h: "hash_alloc True True MAX_DISTINCT_ITEM MAX_NAME_LEN filter_var_key = Some h"
    by (simp add: hash_alloc_def)
  obtain h' where h': "filter_lines (concat (map (\<lambda>n. n @ [CHR 0x0A]) names)) h = Some h'" "hash_ok MAX_NAME_LEN h'"
      "filtered h' = set names"
    using filter_lines_names [OF _ assms(1), of h "[]"] filter_alloc [OF h] by (auto simp: filter_lines.simps [of "[]"])
  have "hash_lookup_entry h' (name @ [CHR 0x00]) = Some (hash_find name h')"
    using hash_lookup_ok [OF h'(2) assms(2), of "[]"] .
  moreover have "hash_find name h' = None \<longleftrightarrow> name \<notin> set names" unfolding h'(3) [symmetric] by (simp add: filtered_def)
  ultimately show ?thesis using h h'(1) by (auto simp: pub_filter_init_def pub_is_filter_def)
qed

text \<open>The loop tests for the letter \<open>r\<close> where a carriage return is meant: a last line that ends in \<open>r\<close> without a
  newline loses it, so the name is not filtered and the shorter one is.\<close>

theorem filter_last_r_lost:
  assumes "filter_name (n @ ''r'')"
  shows "\<exists>w1. pub_filter_init True (Some (Some (n @ ''r''))) w = Some (0, w1) \<and>
    pub_is_filter (n @ ''r'') w1 = Some 0 \<and> pub_is_filter n w1 = Some 1"
proof -
  have n: "CHR 0x00 \<notin> set n" "CHR 0x0A \<notin> set n" "length n < 63" "filter_name n" using assms by (auto simp: filter_name_def)
  obtain h :: "filter_node hash_t" where h: "hash_alloc True True MAX_DISTINCT_ITEM MAX_NAME_LEN filter_var_key = Some h"
    by (simp add: hash_alloc_def)
  note h_ok = filter_alloc [OF h]
  let ?line = "(n @ ''r'') @ replicate (256 - length (n @ ''r'')) CHR 0x00"
  obtain m where m: "256 - length (n @ ''r'') = Suc m" using n(3) by (cases "256 - length (n @ ''r'')") auto
  have c: "c_str ?line = n @ ''r''" using n(1) c_str_text [of "n @ ''r''"] unfolding m by simp
  have cut: "?line[length n := CHR 0x00] = n @ replicate (256 - length n) CHR 0x00"
    using n(3) m by (simp add: list_update_append Suc_diff_Suc [symmetric])
  obtain h' r where push: "filter_push (n @ replicate (256 - length n) CHR 0x00) h = Some (r, h')" and
      h': "hash_ok MAX_NAME_LEN h'" "filtered h' = insert n (filtered h)"
    using filter_push_spec [of h n "256 - length n"] h_ok n(3,4) by auto
  have "fgets 255 (n @ ''r'') = (n @ ''r'', [])" using n by (intro fgets_last) auto
  then have "filter_lines (n @ ''r'') h = Some h'"
    using c cut push by (subst filter_lines.simps) (simp add: Let_def nth_append filter_lines.simps [of "[]"])
  moreover have "hash_lookup_entry h' (n @ [CHR 0x00]) = Some (hash_find n h')"
    using hash_lookup_ok [OF h'(1) n(1), of "[]"] .
  moreover have "hash_lookup_entry h' ((n @ ''r'') @ [CHR 0x00]) = Some (hash_find (n @ ''r'') h')"
    using hash_lookup_ok [OF h'(1), of "n @ ''r''" "[]"] n(1) by simp
  moreover have "hash_find n h' \<noteq> None" "hash_find (n @ ''r'') h' = None"
    using h'(2) h_ok by (auto simp: filtered_def)
  ultimately show ?thesis using h by (auto simp: pub_filter_init_def pub_is_filter_def)
qed

theorem filter_file_names_witness:
  "\<exists>w1. pub_filter_init True (Some (Some (concat (map (\<lambda>n. n @ [CHR 0x0A]) [''pin'', ''track'']))))
      \<lparr>g_filter = 0, g_filter_bucket = Null\<rparr> = Some (0, w1) \<and> pub_is_filter ''pin'' w1 = Some 1"
  using filter_file_names [of "[''pin'', ''track'']" "''pin''" "\<lparr>g_filter = 0, g_filter_bucket = Null\<rparr>"]
  by (simp add: filter_name_def)

theorem filter_last_r_lost_witness:
  "\<exists>w1. pub_filter_init True (Some (Some ''user'')) \<lparr>g_filter = 0, g_filter_bucket = Null\<rparr> = Some (0, w1) \<and>
     pub_is_filter ''user'' w1 = Some 0"
  using filter_last_r_lost [of "''use''" "\<lparr>g_filter = 0, g_filter_bucket = Null\<rparr>"] by (auto simp: filter_name_def)

end
