(* ===== verification/Pub_Queue.thy ===== *)
theory Pub_Queue
  imports Prelude "HOL-Library.Multiset"
begin

text \<open>
  The intrusive queue, \<^verbatim>\<open>incl_pub/pub_queue.h\<close> and \<^verbatim>\<open>core/pub_queue.c\<close>: a circular doubly linked list through the
  nodes of the caller, with a sentinel.  The memory is a pair of maps from nodes to nodes; nothing is allocated.  The
  loops of the C code run until they meet a pointer, so they are partial here and their return is proved.
\<close>

section \<open>State and macros\<close>

type_synonym addr = nat

record qheap =
  q_prev :: "addr \<Rightarrow> addr"
  q_next :: "addr \<Rightarrow> addr"

definition set_prev :: "addr \<Rightarrow> addr \<Rightarrow> qheap \<Rightarrow> qheap" where
  "set_prev x y h = h\<lparr>q_prev := (q_prev h)(x := y)\<rparr>"

definition set_next :: "addr \<Rightarrow> addr \<Rightarrow> qheap \<Rightarrow> qheap" where
  "set_next x y h = h\<lparr>q_next := (q_next h)(x := y)\<rparr>"

definition pub_queue_init :: "addr \<Rightarrow> qheap \<Rightarrow> qheap" where
  "pub_queue_init q h = set_next q q (set_prev q q h)"

definition pub_queue_empty :: "addr \<Rightarrow> qheap \<Rightarrow> bool" where
  "pub_queue_empty q h \<longleftrightarrow> q = q_prev h q"

definition pub_queue_insert_head :: "addr \<Rightarrow> addr \<Rightarrow> qheap \<Rightarrow> qheap" where
  "pub_queue_insert_head q x h =
     (let h1 = set_next x (q_next h q) h;
          h2 = set_prev (q_next h1 x) x h1;
          h3 = set_prev x q h2 in
      set_next q x h3)"

definition pub_queue_insert_tail :: "addr \<Rightarrow> addr \<Rightarrow> qheap \<Rightarrow> qheap" where
  "pub_queue_insert_tail q x h =
     (let h1 = set_prev x (q_prev h q) h;
          h2 = set_next (q_prev h1 x) x h1;
          h3 = set_next x q h2 in
      set_prev q x h3)"

definition pub_queue_remove :: "addr \<Rightarrow> qheap \<Rightarrow> qheap" where
  "pub_queue_remove x h =
     (let h1 = set_prev (q_next h x) (q_prev h x) h in
      set_next (q_prev h1 x) (q_next h1 x) h1)"

definition pub_queue_split :: "addr \<Rightarrow> addr \<Rightarrow> addr \<Rightarrow> qheap \<Rightarrow> qheap" where
  "pub_queue_split q x n h =
     (let h1 = set_prev n (q_prev h q) h;
          h2 = set_next (q_prev h1 n) n h1;
          h3 = set_next n x h2;
          h4 = set_prev q (q_prev h3 x) h3;
          h5 = set_next (q_prev h4 q) q h4 in
      set_prev x n h5)"

definition pub_queue_add :: "addr \<Rightarrow> addr \<Rightarrow> qheap \<Rightarrow> qheap" where
  "pub_queue_add q n h =
     (let h1 = set_next (q_prev h q) (q_next h n) h;
          h2 = set_prev (q_next h1 n) (q_prev h1 q) h1;
          h3 = set_prev q (q_prev h2 n) h2 in
      set_next (q_prev h3 q) q h3)"

section \<open>Loops\<close>

partial_function (option) middle_loop :: "qheap \<Rightarrow> addr \<Rightarrow> addr \<Rightarrow> addr \<Rightarrow> addr option" where
  "middle_loop h q middle nxt =
     (let middle = q_next h middle; nxt = q_next h nxt in
      if nxt = q_prev h q then Some middle
      else
        let nxt = q_next h nxt in
        if nxt = q_prev h q then Some middle else middle_loop h q middle nxt)"

definition pub_queue_middle :: "addr \<Rightarrow> qheap \<Rightarrow> addr option" where
  "pub_queue_middle q h =
     (let middle = q_next h q in
      if middle = q_prev h q then Some middle else middle_loop h q middle (q_next h q))"

text \<open>The inner loop of the sort: the node after which \<open>x\<close> goes.\<close>

partial_function (option) sort_place :: "(addr \<Rightarrow> addr \<Rightarrow> int) \<Rightarrow> qheap \<Rightarrow> addr \<Rightarrow> addr \<Rightarrow> addr \<Rightarrow> addr option" where
  "sort_place cmp h q x prv =
     (if cmp prv x \<le> 0 then Some prv
      else
        let prv = q_prev h prv in
        if prv \<noteq> q then sort_place cmp h q x prv else Some prv)"

partial_function (option) sort_loop :: "(addr \<Rightarrow> addr \<Rightarrow> int) \<Rightarrow> addr \<Rightarrow> addr \<Rightarrow> qheap \<Rightarrow> qheap option" where
  "sort_loop cmp q x h =
     (if x = q then Some h
      else
        let prv = q_prev h x; nxt = q_next h x; h1 = pub_queue_remove x h in
        do {
          p \<leftarrow> sort_place cmp h1 q x prv;
          sort_loop cmp q nxt (pub_queue_insert_head p x h1)
        })"

definition pub_queue_sort :: "(addr \<Rightarrow> addr \<Rightarrow> int) \<Rightarrow> addr \<Rightarrow> qheap \<Rightarrow> qheap option" where
  "pub_queue_sort cmp q h =
     (let x = q_next h q in
      if x = q_prev h q then Some h else sort_loop cmp q (q_next h x) h)"

section \<open>The list of a queue\<close>

text \<open>\<open>path h xs\<close>: each node of \<open>xs\<close> is linked to the next one, both ways.\<close>

fun path :: "qheap \<Rightarrow> addr list \<Rightarrow> bool" where
  "path h (x # y # ys) \<longleftrightarrow> q_next h x = y \<and> q_prev h y = x \<and> path h (y # ys)"
| "path h _ \<longleftrightarrow> True"

definition is_queue :: "qheap \<Rightarrow> addr \<Rightarrow> addr list \<Rightarrow> bool" where
  "is_queue h q xs \<longleftrightarrow> distinct (q # xs) \<and> path h (q # xs @ [q])"

lemma path_append: "path h (xs @ y # ys) \<longleftrightarrow> path h (xs @ [y]) \<and> path h (y # ys)"
proof (induction xs)
  case (Cons x xs)
  then show ?case by (cases xs) auto
qed simp

lemma path_frame:
  assumes "\<And>x. x \<in> set (butlast xs) \<Longrightarrow> q_next h' x = q_next h x" and "\<And>x. x \<in> set (tl xs) \<Longrightarrow> q_prev h' x = q_prev h x"
  shows "path h' xs = path h xs"
  using assms
proof (induction xs rule: path.induct)
  case (1 h x y ys)
  then show ?case by (auto split: if_splits)
qed auto

lemma path_join:
  "xs \<noteq> [] \<Longrightarrow> ys \<noteq> [] \<Longrightarrow>
     path h (xs @ ys) \<longleftrightarrow> path h xs \<and> path h ys \<and> q_next h (last xs) = hd ys \<and> q_prev h (hd ys) = last xs"
proof (induction xs)
  case (Cons x xs)
  then show ?case by (cases xs; cases ys) auto
qed simp

lemma queue_join:
  "is_queue h q (ys @ zs) \<longleftrightarrow> distinct (q # ys @ zs) \<and> path h (q # ys) \<and> path h (zs @ [q]) \<and>
     q_next h (last (q # ys)) = hd (zs @ [q]) \<and> q_prev h (hd (zs @ [q])) = last (q # ys)"
  using path_join [of "q # ys" "zs @ [q]" h] by (auto simp: is_queue_def)

lemma heap_ops:
  "q_next (set_prev x y h) = q_next h" "q_prev (set_next x y h) = q_prev h"
  "q_next (set_next x y h) = (q_next h)(x := y)" "q_prev (set_prev x y h) = (q_prev h)(x := y)"
  by (simp_all add: set_prev_def set_next_def)

lemma init_queue: "is_queue (pub_queue_init q h) q []"
  by (simp add: is_queue_def pub_queue_init_def heap_ops)

lemma empty_queue: "is_queue h q xs \<Longrightarrow> pub_queue_empty q h \<longleftrightarrow> xs = []"
  using queue_join [of h q xs "[]"] by (auto simp: pub_queue_empty_def split: if_splits)

lemma queue_last: "is_queue h q xs \<Longrightarrow> q_prev h q = last (q # xs)"
  using queue_join [of h q xs "[]"] by simp

lemma queue_head: "is_queue h q xs \<Longrightarrow> q_next h q = hd (xs @ [q])"
  using queue_join [of h q "[]" xs] by simp

lemma butlast_not_last: "distinct xs \<Longrightarrow> u \<in> set (butlast xs) \<Longrightarrow> u \<noteq> last xs"
  by (induction xs) (auto split: if_splits)

text \<open>The neighbours of a place between \<open>ys\<close> and \<open>zs\<close>.\<close>

lemma remove_queue:
  assumes "is_queue h q (ys @ x # zs)"
  shows "is_queue (pub_queue_remove x h) q (ys @ zs)"
proof -
  let ?a = "last (q # ys)" and ?b = "hd (zs @ [q])"
  have d: "distinct (q # ys @ x # zs)" using assms by (simp add: is_queue_def)
  have left: "path h (q # ys)" "q_prev h x = ?a" using assms queue_join [of h q ys "x # zs"] by simp_all
  have right: "path h (zs @ [q])" "q_next h x = ?b" using assms queue_join [of h q "ys @ [x]" zs] by simp_all
  have mem: "?a \<in> insert q (set ys)" "?b \<in> insert q (set zs)" by (cases zs; auto)+
  have xb: "x \<noteq> ?b" using d mem(2) by auto
  let ?h = "pub_queue_remove x h"
  have links: "q_next ?h = (q_next h)(?a := ?b)" "q_prev ?h = (q_prev h)(?b := ?a)"
    using left right xb by (simp_all add: pub_queue_remove_def Let_def heap_ops)
  have "path ?h (q # ys) = path h (q # ys)"
  proof (rule path_frame)
    show "q_next ?h u = q_next h u" if "u \<in> set (butlast (q # ys))" for u
    proof -
      have "u \<noteq> ?a" by (rule butlast_not_last [OF _ that]) (use d in auto)
      then show ?thesis by (simp add: links)
    qed
    show "q_prev ?h u = q_prev h u" if "u \<in> set (tl (q # ys))" for u
      using that d mem(2) by (auto simp: links)
  qed
  moreover have "path ?h (zs @ [q]) = path h (zs @ [q])"
  proof (rule path_frame)
    show "q_next ?h u = q_next h u" if "u \<in> set (butlast (zs @ [q]))" for u
      using that d mem(1) by (auto simp: links)
    show "q_prev ?h u = q_prev h u" if "u \<in> set (tl (zs @ [q]))" for u
      using that d by (cases zs) (auto simp: links)
  qed
  ultimately show ?thesis using left(1) right(1) d unfolding queue_join by (simp add: links del: last.simps)
qed

lemma insert_queue:
  assumes "is_queue h q (ys @ zs)" and new: "x \<notin> set (q # ys @ zs)" and p: "p = last (q # ys)"
  shows "is_queue (pub_queue_insert_head p x h) q (ys @ x # zs)"
proof -
  let ?b = "hd (zs @ [q])"
  note old = assms(1) [unfolded queue_join]
  have mem: "p \<in> insert q (set ys)" "?b \<in> insert q (set zs)" unfolding p by (cases zs; auto)+
  have apart: "x \<noteq> p" "x \<noteq> ?b" using new mem by auto
  have b: "q_next h p = ?b" using old p by blast
  let ?h = "pub_queue_insert_head p x h"
  have links: "q_next ?h = (q_next h)(x := ?b, p := x)" "q_prev ?h = (q_prev h)(?b := x, x := p)"
    using b apart by (simp_all add: pub_queue_insert_head_def Let_def heap_ops)
  have "path ?h (q # ys) = path h (q # ys)"
  proof (rule path_frame)
    show "q_next ?h u = q_next h u" if "u \<in> set (butlast (q # ys))" for u
    proof -
      have "u \<noteq> p" unfolding p by (rule butlast_not_last [OF _ that]) (use old in auto)
      moreover have "u \<noteq> x" using that new in_set_butlastD [of u "q # ys"] by auto
      ultimately show ?thesis by (simp add: links)
    qed
    show "q_prev ?h u = q_prev h u" if "u \<in> set (tl (q # ys))" for u
      using that old new mem(2) by (auto simp: links)
  qed
  moreover have "path ?h (zs @ [q]) = path h (zs @ [q])"
  proof (rule path_frame)
    show "q_next ?h u = q_next h u" if "u \<in> set (butlast (zs @ [q]))" for u
      using that old new mem(1) by (auto simp: links)
    show "q_prev ?h u = q_prev h u" if "u \<in> set (tl (zs @ [q]))" for u
      using that old new by (cases zs) (auto simp: links)
  qed
  moreover have "path ?h (x # zs @ [q]) \<longleftrightarrow> path ?h (zs @ [q])"
    using path_join [of "[x]" "zs @ [q]" ?h] apart by (simp add: links)
  ultimately show ?thesis
    using old new apart p [symmetric] unfolding queue_join by (simp add: links del: last.simps)
qed

lemma insert_tail_queue:
  assumes "is_queue h q xs" and "x \<notin> set (q # xs)"
  shows "is_queue (pub_queue_insert_tail q x h) q (xs @ [x])"
proof -
  let ?p = "last (q # xs)"
  have p: "q_prev h q = ?p" "q_next h ?p = q" using assms(1) queue_join [of h q xs "[]"] by simp_all
  have "?p \<in> set (q # xs)" by simp
  then have "x \<noteq> ?p" "x \<noteq> q" using assms(2) by auto
  then have "pub_queue_insert_tail q x h = pub_queue_insert_head ?p x h"
    using p by (simp add: pub_queue_insert_tail_def pub_queue_insert_head_def Let_def set_prev_def set_next_def fun_upd_twist del: last.simps)
  with insert_queue [of h q xs "[]" x ?p] assms show ?thesis by simp
qed

lemma split_queue:
  assumes old: "is_queue h q (ys @ x # zs)" and new: "n \<notin> set (q # ys @ x # zs)"
  shows "is_queue (pub_queue_split q x n h) q ys \<and> is_queue (pub_queue_split q x n h) n (x # zs)"
proof -
  let ?a = "last (q # ys)" and ?e = "last (x # zs)"
  have d: "distinct (q # ys @ x # zs)" using old by (simp add: is_queue_def)
  have left: "path h (q # ys)" "q_prev h x = ?a" using old queue_join [of h q ys "x # zs"] by simp_all
  have right: "path h ((x # zs) @ [q])" using old queue_join [of h q ys "x # zs"] by simp
  then have tail: "path h (x # zs)" "q_prev h q = ?e" using path_join [of "x # zs" "[q]" h] by simp_all
  have mem: "?a \<in> insert q (set ys)" "?e \<in> set (x # zs)" by auto
  let ?h = "pub_queue_split q x n h"
  have links: "q_next ?h = (q_next h)(?e := n, n := x, ?a := q)" "q_prev ?h = (q_prev h)(n := ?e, q := ?a, x := n)"
    using left(2) tail(2) d new by (auto simp: pub_queue_split_def Let_def heap_ops simp del: last.simps)
  have "path ?h (q # ys) = path h (q # ys)"
  proof (rule path_frame)
    show "q_next ?h u = q_next h u" if u: "u \<in> set (butlast (q # ys))" for u
    proof -
      have "u \<noteq> ?a" by (rule butlast_not_last [OF _ u]) (use d in auto)
      moreover have "u \<in> set (q # ys)" using u by (rule in_set_butlastD)
      ultimately show ?thesis using d new mem(2) by (auto simp: links simp del: last.simps)
    qed
    show "q_prev ?h u = q_prev h u" if "u \<in> set (tl (q # ys))" for u
      using that d new by (auto simp: links)
  qed
  moreover have "path ?h (x # zs) = path h (x # zs)"
  proof (rule path_frame)
    show "q_next ?h u = q_next h u" if u: "u \<in> set (butlast (x # zs))" for u
    proof -
      have "u \<noteq> ?e" by (rule butlast_not_last [OF _ u]) (use d in auto)
      moreover have "u \<in> set (x # zs)" using u by (rule in_set_butlastD)
      ultimately show ?thesis using d new mem(1) by (auto simp: links simp del: last.simps)
    qed
    show "q_prev ?h u = q_prev h u" if "u \<in> set (tl (x # zs))" for u
      using that d new by (auto simp: links)
  qed
  moreover have "?e \<noteq> ?a" "n \<noteq> ?a" "n \<noteq> ?e" using d new mem by (auto simp del: last.simps)
  ultimately have "is_queue ?h q ys" "is_queue ?h n (x # zs)"
    using left(1) tail(1) d new queue_join [of ?h q ys "[]"] queue_join [of ?h n "x # zs" "[]"] last_ConsR [of "x # zs" n]
    by (auto simp: links simp del: last.simps split: if_splits)
  then show ?thesis ..
qed

lemma add_queue:
  assumes q: "is_queue h q xs" and n: "is_queue h n ys" and d: "distinct (q # n # xs @ ys)"
  shows "is_queue (pub_queue_add q n h) q (xs @ ys)"
proof -
  let ?a = "last (q # xs)" and ?b = "hd (ys @ [n])" and ?e = "last (n # ys)"
  have left: "path h (q # xs)" "q_prev h q = ?a" using q queue_join [of h q xs "[]"] by simp_all
  have right: "path h (n # ys)" "q_prev h n = ?e" "q_next h n = ?b" "path h (ys @ [n])"
    using n queue_join [of h n ys "[]"] queue_join [of h n "[]" ys] by simp_all
  let ?h = "pub_queue_add q n h"
  show ?thesis
  proof (cases ys)
    case Nil
    have "?a \<in> set (q # xs)" by simp
    then have links: "q_next ?h = (q_next h)(?a := q)" "q_prev ?h = (q_prev h)(n := ?a, q := ?a)"
      using left(2) right Nil d by (simp_all add: pub_queue_add_def Let_def heap_ops del: last.simps)
    have "path ?h (q # xs) = path h (q # xs)"
    proof (rule path_frame)
      show "q_next ?h u = q_next h u" if u: "u \<in> set (butlast (q # xs))" for u
      proof -
        have "u \<noteq> ?a" by (rule butlast_not_last [OF _ u]) (use d in auto)
        then show ?thesis by (simp add: links)
      qed
      show "q_prev ?h u = q_prev h u" if "u \<in> set (tl (q # xs))" for u
        using that d by (auto simp: links)
    qed
    then show ?thesis using left(1) d Nil queue_join [of ?h q xs "[]"] by (auto simp: links simp del: last.simps)
  next
    case (Cons y zs)
    have e: "?e = last ys" "?e \<in> set ys" "?b = y" by (simp_all add: Cons)
    have a: "?a \<in> set (q # xs)" by simp
    have links: "q_next ?h = (q_next h)(?a := y, ?e := q)" "q_prev ?h = (q_prev h)(y := ?a, q := ?e)"
      using left(2) right d a e by (auto simp: pub_queue_add_def Let_def heap_ops Cons simp del: last.simps)
    have "path ?h (q # xs) = path h (q # xs)"
    proof (rule path_frame)
      show "q_next ?h u = q_next h u" if u: "u \<in> set (butlast (q # xs))" for u
      proof -
        have "u \<noteq> ?a" by (rule butlast_not_last [OF _ u]) (use d in auto)
        moreover have "u \<noteq> ?e" using in_set_butlastD [OF u] d e(2) by auto
        ultimately show ?thesis by (simp add: links)
      qed
      show "q_prev ?h u = q_prev h u" if "u \<in> set (tl (q # xs))" for u
        using that d by (auto simp: links Cons)
    qed
    moreover have "path ?h ys = path h ys"
    proof (rule path_frame)
      show "q_next ?h u = q_next h u" if u: "u \<in> set (butlast ys)" for u
      proof -
        have "u \<noteq> last ys" by (rule butlast_not_last [OF _ u]) (use d in auto)
        moreover have "u \<noteq> ?a" using in_set_butlastD [OF u] d a by auto
        ultimately show ?thesis by (simp add: links e(1) del: last.simps)
      qed
      show "q_prev ?h u = q_prev h u" if "u \<in> set (tl ys)" for u
        using that d by (auto simp: links Cons)
    qed
    moreover have "path h ys" using right(1) path_join [of "[n]" ys h] Cons by simp
    moreover have "path ?h (ys @ [q]) \<longleftrightarrow> path ?h ys" using path_join [of ys "[q]" ?h] d e Cons by (auto simp: links)
    moreover have "?a \<noteq> ?e" using a e(2) d by auto
    ultimately show ?thesis
      using left(1) d a e queue_join [of ?h q xs ys] Cons by (auto simp: links simp del: last.simps)
  qed
qed

section \<open>The middle\<close>

lemma middle_loop_spec:
  assumes q: "is_queue h q xs" and i: "2 * i + 1 < length xs"
  shows "middle_loop h q (xs ! i) (xs ! (2 * i)) = Some (xs ! (length xs div 2))"
  using i
proof (induction "length xs - 2 * i" arbitrary: i rule: less_induct)
  case less
  have nxt: "q_next h (xs ! k) = xs ! Suc k" if "Suc k < length xs" for k
  proof -
    have "xs = take (Suc k) xs @ drop (Suc k) xs" by simp
    then have "is_queue h q (take (Suc k) xs @ drop (Suc k) xs)" using q by simp
    from this [unfolded queue_join] have "q_next h (last (q # take (Suc k) xs)) = hd (drop (Suc k) xs @ [q])" by blast
    then show ?thesis using that by (simp add: take_Suc_conv_app_nth hd_drop_conv_nth)
  qed
  have d: "distinct xs" and ne: "xs \<noteq> []" using q less.prems by (auto simp: is_queue_def)
  have lst: "q_prev h q = xs ! (length xs - 1)" using queue_last [OF q] ne by (simp add: last_conv_nth)
  have eq: "xs ! k = q_prev h q \<longleftrightarrow> k = length xs - 1" if "k < length xs" for k
    using that d ne by (simp add: lst nth_eq_iff_index_eq)
  show ?case
  proof (cases "Suc (2 * i) = length xs - 1")
    case True
    then have "length xs div 2 = Suc i" using less.prems by linarith
    then show ?thesis using less.prems True nxt [of i] nxt [of "2 * i"] eq [of "Suc (2 * i)"]
      by (subst middle_loop.simps) (simp add: Let_def)
  next
    case False
    then have room: "Suc (Suc (2 * i)) < length xs" using less.prems by linarith
    show ?thesis
    proof (cases "Suc (Suc (2 * i)) = length xs - 1")
      case True
      then have "length xs div 2 = Suc i" using less.prems by linarith
      then show ?thesis using less.prems True False room nxt [of i] nxt [of "2 * i"] nxt [of "Suc (2 * i)"]
          eq [of "Suc (2 * i)"] eq [of "Suc (Suc (2 * i))"]
        by (subst middle_loop.simps) (simp add: Let_def)
    next
      case False2: False
      then have "2 * Suc i + 1 < length xs" using room by simp
      then have "middle_loop h q (xs ! Suc i) (xs ! (2 * Suc i)) = Some (xs ! (length xs div 2))"
        by (intro less.hyps) simp_all
      then show ?thesis using less.prems False False2 room nxt [of i] nxt [of "2 * i"] nxt [of "Suc (2 * i)"]
          eq [of "Suc (2 * i)"] eq [of "Suc (Suc (2 * i))"]
        by (subst middle_loop.simps) (simp add: Let_def)
    qed
  qed
qed

section \<open>The sort\<close>

text \<open>One insertion, on lists: \<open>x\<close> goes behind the last element that is not greater.\<close>

definition kept :: "(addr \<Rightarrow> addr \<Rightarrow> int) \<Rightarrow> addr \<Rightarrow> addr list \<Rightarrow> addr list" where
  "kept cmp x ys = rev (dropWhile (\<lambda>p. 0 < cmp p x) (rev ys))"

definition passed :: "(addr \<Rightarrow> addr \<Rightarrow> int) \<Rightarrow> addr \<Rightarrow> addr list \<Rightarrow> addr list" where
  "passed cmp x ys = rev (takeWhile (\<lambda>p. 0 < cmp p x) (rev ys))"

definition ins :: "(addr \<Rightarrow> addr \<Rightarrow> int) \<Rightarrow> addr list \<Rightarrow> addr \<Rightarrow> addr list" where
  "ins cmp ys x = kept cmp x ys @ x # passed cmp x ys"

lemma kept_passed: "kept cmp x ys @ passed cmp x ys = ys"
  by (simp add: kept_def passed_def flip: rev_append)

lemma kept_snoc:
  "kept cmp x (ys @ [p]) = (if 0 < cmp p x then kept cmp x ys else ys @ [p])"
  by (simp add: kept_def)

lemma sort_place_spec:
  assumes "is_queue h q (ys @ zs)" and "ys \<noteq> []"
  shows "sort_place cmp h q x (last (q # ys)) = Some (last (q # kept cmp x ys))"
  using assms
proof (induction ys arbitrary: zs rule: rev_induct)
  case (snoc p ys)
  have prv: "q_prev h p = last (q # ys)"
    using snoc.prems(1) queue_join [of h q ys "p # zs"] by simp
  have step: "sort_place cmp h q x p =
      (if cmp p x \<le> 0 then Some p else if last (q # ys) \<noteq> q then sort_place cmp h q x (last (q # ys)) else Some q)"
    by (subst sort_place.simps) (simp add: prv Let_def)
  show ?case
  proof (cases "cmp p x \<le> 0")
    case True
    then show ?thesis using step by (simp add: kept_snoc)
  next
    case False
    show ?thesis
    proof (cases "ys = []")
      case True
      then show ?thesis using step False by (simp add: kept_def)
    next
      case ne: False
      then have "last (q # ys) \<in> set ys" by simp
      then have "last (q # ys) \<noteq> q" using snoc.prems(1) by (auto simp: is_queue_def simp del: last.simps)
      moreover have "sort_place cmp h q x (last (q # ys)) = Some (last (q # kept cmp x ys))"
        using snoc.IH [of "p # zs"] snoc.prems(1) ne by simp
      ultimately show ?thesis using step False by (simp add: kept_snoc del: last.simps) (simp add: last_ConsR)
    qed
  qed
qed simp

lemma ins_nonempty: "ins cmp ys x \<noteq> []" by (simp add: ins_def)

lemma sort_loop_spec:
  assumes "is_queue h q (ys @ zs)" and "ys \<noteq> []"
  shows "\<exists>h'. sort_loop cmp q (hd (zs @ [q])) h = Some h' \<and> is_queue h' q (foldl (ins cmp) ys zs)"
  using assms
proof (induction zs arbitrary: ys h)
  case Nil
  then show ?case by (subst sort_loop.simps) simp
next
  case (Cons x zs)
  have d: "distinct (q # ys @ x # zs)" using Cons.prems(1) by (simp add: is_queue_def)
  have around: "q_prev h x = last (q # ys)" "q_next h x = hd (zs @ [q])"
    using Cons.prems(1) queue_join [of h q ys "x # zs"] queue_join [of h q "ys @ [x]" zs] by simp_all
  let ?h1 = "pub_queue_remove x h" and ?p = "last (q # kept cmp x ys)"
  have q1: "is_queue ?h1 q (ys @ zs)" by (rule remove_queue [OF Cons.prems(1)])
  have place: "sort_place cmp ?h1 q x (last (q # ys)) = Some ?p" by (rule sort_place_spec [OF q1 Cons.prems(2)])
  have q2: "is_queue (pub_queue_insert_head ?p x ?h1) q (ins cmp ys x @ zs)"
  proof -
    have eq: "ys @ zs = kept cmp x ys @ passed cmp x ys @ zs" by (simp add: kept_passed flip: append_assoc)
    have "x \<notin> set (q # ys @ zs)" using d by auto
    then have "is_queue (pub_queue_insert_head ?p x ?h1) q (kept cmp x ys @ x # passed cmp x ys @ zs)"
      using q1 unfolding eq by (intro insert_queue) simp_all
    then show ?thesis by (simp add: ins_def)
  qed
  have "sort_loop cmp q x h = sort_loop cmp q (hd (zs @ [q])) (pub_queue_insert_head ?p x ?h1)"
    using place d by (subst sort_loop.simps) (simp add: Let_def around del: last.simps)
  then show ?case using Cons.IH [OF q2 ins_nonempty] by simp
qed

lemma queue_sort_spec:
  assumes "is_queue h q xs"
  shows "\<exists>h'. pub_queue_sort cmp q h = Some h' \<and> is_queue h' q (foldl (ins cmp) (take 1 xs) (drop 1 xs))"
proof (cases xs)
  case Nil
  then show ?thesis using assms by (auto simp: pub_queue_sort_def Let_def is_queue_def)
next
  case (Cons x zs)
  have hd: "q_next h q = x" using queue_head [OF assms] Cons by simp
  have lst: "q_prev h q = last (x # zs)" using queue_last [OF assms] Cons by simp
  show ?thesis
  proof (cases zs)
    case Nil
    then show ?thesis using assms hd lst Cons by (auto simp: pub_queue_sort_def Let_def)
  next
    case zs: (Cons y us)
    have "x \<noteq> last (x # zs)" using assms Cons zs by (auto simp: is_queue_def)
    moreover have "q_next h x = hd (zs @ [q])" using assms Cons queue_join [of h q "[x]" zs] by simp
    moreover obtain h' where "sort_loop cmp q (hd (zs @ [q])) h = Some h'" "is_queue h' q (foldl (ins cmp) [x] zs)"
      using sort_loop_spec [of h q "[x]" zs cmp] assms Cons by auto
    ultimately show ?thesis using hd lst Cons by (auto simp: pub_queue_sort_def Let_def)
  qed
qed

text \<open>With a comparison by a key, insertion keeps the list sorted and equal keys in order.\<close>

lemma ins_mset: "mset (ins cmp ys x) = mset ys + {#x#}"
proof -
  have "mset (kept cmp x ys) + mset (passed cmp x ys) = mset ys"
    unfolding mset_append [symmetric] kept_passed ..
  then show ?thesis by (simp add: ins_def)
qed

lemma passed_all: "p \<in> set (passed cmp x ys) \<Longrightarrow> 0 < cmp p x"
  by (auto simp: passed_def dest: set_takeWhileD)

lemma kept_last: "kept cmp x ys \<noteq> [] \<Longrightarrow> cmp (last (kept cmp x ys)) x \<le> 0"
  using hd_dropWhile [of "\<lambda>p. 0 < cmp p x" "rev ys"] by (auto simp: kept_def last_rev)

lemma ins_sorted:
  fixes f :: "addr \<Rightarrow> 'k::linorder"
  assumes cmp: "\<And>a b. cmp a b \<le> 0 \<longleftrightarrow> f a \<le> f b" and sorted: "sorted (map f ys)"
  shows "sorted (map f (ins cmp ys x))"
proof -
  have "sorted (map f (kept cmp x ys @ passed cmp x ys))" using sorted by (simp only: kept_passed)
  then have parts: "sorted (map f (kept cmp x ys))" "sorted (map f (passed cmp x ys))"
      "\<forall>a \<in> set (kept cmp x ys). \<forall>b \<in> set (passed cmp x ys). f a \<le> f b"
    by (auto simp: sorted_append)
  have "f a \<le> f x" if "a \<in> set (kept cmp x ys)" for a
  proof -
    have ne: "kept cmp x ys \<noteq> []" using that by auto
    have "f a \<le> f (last (kept cmp x ys))"
    proof -
      have split: "butlast (kept cmp x ys) @ [last (kept cmp x ys)] = kept cmp x ys" by (rule append_butlast_last_id [OF ne])
      have "a \<in> set (butlast (kept cmp x ys) @ [last (kept cmp x ys)])"
        "sorted (map f (butlast (kept cmp x ys) @ [last (kept cmp x ys)]))"
        unfolding split using that parts(1) .
      then show ?thesis by (auto simp: sorted_append)
    qed
    also have "\<dots> \<le> f x" using kept_last [OF ne] cmp by blast
    finally show ?thesis .
  qed
  moreover have "f x \<le> f b" if "b \<in> set (passed cmp x ys)" for b
    using passed_all [OF that] cmp [of b x] by (simp add: not_le [symmetric])
  ultimately show ?thesis using parts by (auto simp: ins_def sorted_append)
qed

lemma ins_stable:
  fixes f :: "addr \<Rightarrow> 'k::linorder"
  assumes cmp: "\<And>a b. cmp a b \<le> 0 \<longleftrightarrow> f a \<le> f b"
  shows "filter (\<lambda>a. f a = k) (ins cmp ys x) = filter (\<lambda>a. f a = k) (ys @ [x])"
proof -
  have "f p \<noteq> f x" if "p \<in> set (passed cmp x ys)" for p
    using passed_all [OF that] cmp [of p x] by auto
  then have "filter (\<lambda>a. f a = k) (passed cmp x ys) = []" if "f x = k"
    using that by (auto simp: filter_empty_conv)
  moreover have "filter (\<lambda>a. f a = k) ys = filter (\<lambda>a. f a = k) (kept cmp x ys) @ filter (\<lambda>a. f a = k) (passed cmp x ys)"
    unfolding filter_append [symmetric] kept_passed ..
  ultimately show ?thesis by (simp add: ins_def)
qed

lemma foldl_ins:
  fixes f :: "addr \<Rightarrow> 'k::linorder"
  assumes cmp: "\<And>a b. cmp a b \<le> 0 \<longleftrightarrow> f a \<le> f b" and "sorted (map f ys)"
  shows "sorted (map f (foldl (ins cmp) ys zs)) \<and> mset (foldl (ins cmp) ys zs) = mset (ys @ zs) \<and>
    (\<forall>k. filter (\<lambda>a. f a = k) (foldl (ins cmp) ys zs) = filter (\<lambda>a. f a = k) (ys @ zs))"
  using assms(2)
proof (induction zs arbitrary: ys)
  case (Cons x zs)
  from Cons.IH [OF ins_sorted [of cmp f, OF cmp Cons.prems, of x]] show ?case
    by (simp add: ins_mset ins_stable [of cmp f, OF cmp])
qed simp

section \<open>Properties\<close>

text \<open>C29: \<^verbatim>\<open>pub_queue_sort\<close> returns, and leaves a queue of the same nodes in the order of HOL's stable \<open>sort_key\<close>, for every
  comparison that orders the nodes by a key.\<close>

theorem queue_sort_is_sort_key:
  fixes f :: "addr \<Rightarrow> int"
  assumes "is_queue h q xs" and cmp: "\<And>a b. cmp a b \<le> 0 \<longleftrightarrow> f a \<le> f b"
  shows "\<exists>h'. pub_queue_sort cmp q h = Some h' \<and> is_queue h' q (sort_key f xs)"
proof -
  let ?ys = "foldl (ins cmp) (take 1 xs) (drop 1 xs)"
  have "sorted (map f (take 1 xs))" by (cases xs) auto
  then have ys: "sorted (map f ?ys)" "mset ?ys = mset xs" "\<And>k. filter (\<lambda>a. f a = k) ?ys = filter (\<lambda>a. f a = k) xs"
    using foldl_ins [of cmp f "take 1 xs" "drop 1 xs", OF cmp] by simp_all
  have "sort_key f xs = ?ys"
  proof (rule properties_for_sort_key)
    show "mset ?ys = mset xs" by (rule ys(2))
    show "filter (\<lambda>x. f k = f x) ?ys = filter (\<lambda>x. f k = f x) xs" for k
      using ys(3) [of "f k"] by (simp only: eq_commute [of "f k"])
    show "sorted (map f ?ys)" by (rule ys(1))
  qed
  then show ?thesis using queue_sort_spec [OF assms(1), of cmp] by simp
qed

text \<open>\<^verbatim>\<open>pub_queue_middle\<close> returns the node in the middle: of an even number of nodes the first of the second half, of an
  empty queue the sentinel.\<close>

theorem queue_middle_is_middle:
  assumes "is_queue h q xs"
  shows "pub_queue_middle q h = Some (if xs = [] then q else xs ! (length xs div 2))"
proof (cases "length xs \<le> 1")
  case True
  then consider "xs = []" | x where "xs = [x]" by (cases xs) auto
  then show ?thesis using queue_head [OF assms] queue_last [OF assms] by cases (simp_all add: pub_queue_middle_def Let_def)
next
  case False
  then obtain x ys where xs: "xs = x # ys" "ys \<noteq> []" by (cases xs) auto
  have "x \<noteq> last ys" using assms xs by (auto simp: is_queue_def)
  then show ?thesis using middle_loop_spec [OF assms, of 0] queue_head [OF assms] queue_last [OF assms] xs
    by (cases ys) (simp_all add: pub_queue_middle_def Let_def)
qed

lemma init_other:
  assumes q: "is_queue h q xs" and n: "n \<notin> set (q # xs)"
  shows "is_queue (pub_queue_init n h) q xs"
proof -
  have "path (pub_queue_init n h) (q # xs @ [q]) = path h (q # xs @ [q])"
    by (rule path_frame) (use n in \<open>auto simp: pub_queue_init_def heap_ops dest!: in_set_butlastD\<close>)
  then show ?thesis using q by (simp add: is_queue_def)
qed

text \<open>C30: The link macros do to the lists of nodes what their names say.  For any queue, the empty one included, and a node
  \<open>n\<close> that is not in it: \<open>n\<close> can be made an empty queue of its own, the test for emptiness is right, and \<open>n\<close> can be
  inserted at the head or at the tail; at any node of the queue \<open>n\<close> can be inserted behind it, the node can be removed, and
  the queue can be split before it, \<open>n\<close> being the head of the new queue; and any queue with the head \<open>n\<close> and other nodes,
  an empty one included, can be joined to its end.\<close>

theorem queue_macros_refine_lists:
  assumes q: "is_queue h q xs" and n: "n \<notin> set (q # xs)"
  shows "is_queue (pub_queue_init n h) n [] \<and> is_queue (pub_queue_init n h) q xs \<and> (pub_queue_empty q h \<longleftrightarrow> xs = []) \<and>
    is_queue (pub_queue_insert_head q n h) q (n # xs) \<and> is_queue (pub_queue_insert_tail q n h) q (xs @ [n]) \<and>
    (\<forall>ys x zs. xs = ys @ x # zs \<longrightarrow>
       is_queue (pub_queue_insert_head x n h) q (ys @ x # n # zs) \<and> is_queue (pub_queue_remove x h) q (ys @ zs) \<and>
       is_queue (pub_queue_split q x n h) q ys \<and> is_queue (pub_queue_split q x n h) n (x # zs)) \<and>
    (\<forall>ws. is_queue h n ws \<and> set ws \<inter> set (q # xs) = {} \<longrightarrow> is_queue (pub_queue_add q n h) q (xs @ ws))"
proof -
  have "is_queue (pub_queue_insert_head q n h) q (n # xs)"
    using insert_queue [of h q "[]" xs n q] q n by simp
  moreover have "is_queue (pub_queue_insert_head x n h) q (ys @ x # n # zs)" if "xs = ys @ x # zs" for ys x zs
    using insert_queue [of h q "ys @ [x]" zs n x] q n that by simp
  moreover have "is_queue (pub_queue_split q x n h) q ys \<and> is_queue (pub_queue_split q x n h) n (x # zs)"
    if "xs = ys @ x # zs" for ys x zs using split_queue q n that by simp
  moreover have "is_queue (pub_queue_add q n h) q (xs @ ws)" if "is_queue h n ws" "set ws \<inter> set (q # xs) = {}" for ws
    using that q n by (intro add_queue) (auto simp: is_queue_def)
  moreover have "is_queue (pub_queue_remove x h) q (ys @ zs)" if "xs = ys @ x # zs" for ys x zs
    using remove_queue q that by simp
  ultimately show ?thesis
    using init_queue [of n h] init_other [OF q n] empty_queue [OF q] insert_tail_queue [OF q n] by blast
qed

section \<open>Witnesses\<close>

definition queue_demo :: qheap where
  "queue_demo = pub_queue_insert_tail 0 4 (pub_queue_insert_tail 0 3 (pub_queue_insert_tail 0 5
     (pub_queue_init 0 \<lparr>q_prev = id, q_next = id\<rparr>)))"

lemma queue_demo: "is_queue queue_demo 0 [5, 3, 4]"
proof -
  have "is_queue (pub_queue_insert_tail 0 5 (pub_queue_init 0 \<lparr>q_prev = id, q_next = id\<rparr>)) 0 ([] @ [5])"
    by (rule insert_tail_queue [OF init_queue]) simp
  then have "is_queue (pub_queue_insert_tail 0 3 (pub_queue_insert_tail 0 5
     (pub_queue_init 0 \<lparr>q_prev = id, q_next = id\<rparr>))) 0 ([5] @ [3])"
    by (intro insert_tail_queue) simp_all
  then have "is_queue queue_demo 0 ([5, 3] @ [4])"
    unfolding queue_demo_def by (intro insert_tail_queue) simp_all
  then show ?thesis by simp
qed

theorem queue_sort_is_sort_key_witness:
  "\<exists>h'. pub_queue_sort (\<lambda>a b. int a - int b) 0 queue_demo = Some h' \<and> is_queue h' 0 [3, 4, 5]"
  using queue_sort_is_sort_key [OF queue_demo, of "\<lambda>a b. int a - int b" int] by simp

theorem queue_middle_is_middle_witness: "pub_queue_middle 0 queue_demo = Some 3"
  using queue_middle_is_middle [OF queue_demo] by simp

theorem queue_macros_refine_lists_witness:
  "is_queue (pub_queue_remove 3 queue_demo) 0 ([5] @ [4])"
proof -
  have "9 \<notin> set [0, 5, 3, 4 :: addr]" by simp
  note macros = queue_macros_refine_lists [OF queue_demo this]
  have "[5, 3, 4] = [5] @ 3 # [4 :: addr]" by simp
  then show ?thesis using macros by blast
qed

end
