(* ===== verification/Pub_Stack.thy ===== *)
theory Pub_Stack
  imports Prelude Pub_Queue
begin

text \<open>The growing array of pointers of \<^verbatim>\<open>core/pub_stack.c\<close>, which the expression evaluator and the services use as
  stack, list and queue.  The cells the array owns are a list of addresses (0 is \<^verbatim>\<open>NULL\<close>); an access outside of it
  makes the run undefined (None).  What \<^verbatim>\<open>realloc\<close> puts into new cells is the argument \<open>mem\<close>, None when it fails.  The
  properties: every operation works as the operation on lists it stands for (the sorted mark and the functions
  included), never leaves the array, and the sorted mark goes stale when an element is replaced.\<close>

type_synonym fptr = nat

record sqstack =
  st_num :: int
  st_data :: "addr list"
  st_sorted :: int
  st_num_alloc :: int
  st_comp :: fptr
  st_pop_free :: fptr

abbreviation (input) MIN_NODES :: nat where "MIN_NODES \<equiv> 4"

section \<open>Cells\<close>


definition st_store :: "nat \<Rightarrow> addr \<Rightarrow> addr list \<Rightarrow> addr list option" where
  "st_store i p xs = (if i < length xs then Some (xs[i := p]) else None)"



section \<open>Operations\<close>

definition pub_stack_new :: "bool \<Rightarrow> bool \<Rightarrow> fptr \<Rightarrow> fptr \<Rightarrow> sqstack option" where
  "pub_stack_new st_ok data_ok c f =
     (if \<not> st_ok then None
      else if \<not> data_ok then None
      else Some \<lparr>st_num = 0, st_data = replicate MIN_NODES 0, st_sorted = 0, st_num_alloc = int MIN_NODES,
        st_comp = c, st_pop_free = f\<rparr>)"

definition pub_stack_new_null :: "bool \<Rightarrow> bool \<Rightarrow> sqstack option" where
  "pub_stack_new_null st_ok data_ok = pub_stack_new st_ok data_ok 0 0"
















text \<open>The result of \<^verbatim>\<open>pub_stack_pop_free\<close> is the list of pointers handed to the release function.\<close>

fun pub_stack_pop_free :: "sqstack option \<Rightarrow> addr list" where
  "pub_stack_pop_free None = []"
| "pub_stack_pop_free (Some st) =
     (if st_pop_free st \<noteq> 0 then filter (\<lambda>p. p \<noteq> 0) (take (nat (st_num st)) (st_data st)) else [])"


fun pub_stack_set :: "sqstack option \<Rightarrow> int \<Rightarrow> addr \<Rightarrow> (addr \<times> sqstack option) option" where
  "pub_stack_set None i v = Some (0, None)"
| "pub_stack_set (Some st) i v =
     (if i < 0 \<or> st_num st \<le> i then Some (0, Some st)
      else do { cells \<leftarrow> st_store (nat i) v (st_data st); Some (v, Some (st\<lparr>st_data := cells\<rparr>)) })"


text \<open>\<^verbatim>\<open>qsort\<close> is the library's merge sort, which keeps the order of equal elements; \<open>call\<close> runs a comparison function.\<close>

definition pub_stack_sort :: "(fptr \<Rightarrow> addr \<Rightarrow> addr \<Rightarrow> int) \<Rightarrow> sqstack option \<Rightarrow> sqstack option option" where
  "pub_stack_sort call st =
     (case st of
        None \<Rightarrow> Some None
      | Some s \<Rightarrow>
          if st_sorted s \<noteq> 0 then Some st
          else
            let n = nat (st_num s); xs = take n (st_data s) in
            if st_comp s = 0 \<and> 1 < n then None
            else Some (Some (s\<lparr>st_data := foldl (ins (call (st_comp s))) [] xs @ drop n (st_data s), st_sorted := 1\<rparr>)))"

fun pub_stack_is_sorted :: "sqstack option \<Rightarrow> int" where
  "pub_stack_is_sorted None = 1"
| "pub_stack_is_sorted (Some st) = st_sorted st"

section \<open>The list of a stack\<close>

definition stack_list :: "sqstack \<Rightarrow> addr list" where
  "stack_list st = take (nat (st_num st)) (st_data st)"

text \<open>One cell more than the elements need, and a count of cells that fits an int.\<close>

definition stack_ok :: "sqstack \<Rightarrow> bool" where
  "stack_ok st \<longleftrightarrow> 0 \<le> st_num st \<and> st_num st < st_num_alloc st \<and> int (length (st_data st)) = st_num_alloc st \<and>
     st_num_alloc st < 2 ^ 31"





lemma stack_list_length: "stack_ok st \<Longrightarrow> int (length (stack_list st)) = st_num st"
  by (auto simp: stack_ok_def stack_list_def min_def)





lemma set_spec:
  assumes ok: "stack_ok st" and i: "0 \<le> i" "i < st_num st"
  shows "\<exists>st1. pub_stack_set (Some st) i v = Some (v, Some st1) \<and> stack_ok st1 \<and> st_num st1 = st_num st \<and>
    stack_list st1 = (stack_list st)[nat i := v] \<and>
    st_sorted st1 = st_sorted st \<and> st_comp st1 = st_comp st \<and> st_pop_free st1 = st_pop_free st"
  using assms by (auto simp: st_store_def stack_ok_def stack_list_def take_update_swap)




lemma take_foldl_ins: "length (foldl (ins cmp) ys xs) = length ys + length xs"
proof (induction xs arbitrary: ys)
  case (Cons x xs)
  have "length (ins cmp ys x) = Suc (length ys)" using arg_cong [OF ins_mset [of cmp ys x], of size] by simp
  with Cons show ?case by simp
qed simp

lemma stack_sort_spec:
  fixes f :: "addr \<Rightarrow> int"
  assumes ok: "stack_ok st" and un: "st_sorted st = 0" and c: "st_comp st \<noteq> 0"
    and cmp: "\<And>a b. call (st_comp st) a b \<le> 0 \<longleftrightarrow> f a \<le> f b"
  shows "\<exists>st1. pub_stack_sort call (Some st) = Some (Some st1) \<and> stack_ok st1 \<and> st_sorted st1 = 1 \<and>
    st_comp st1 = st_comp st \<and> st_pop_free st1 = st_pop_free st \<and> st_num st1 = st_num st \<and> stack_list st1 = sort_key f (stack_list st)"
proof -
  let ?xs = "stack_list st"
  let ?ys = "foldl (ins (call (st_comp st))) [] ?xs"
  have "sort_key f ?xs = ?ys"
  proof (rule properties_for_sort_key)
    note ys = foldl_ins [of "call (st_comp st)" f "[]" ?xs, OF cmp, simplified]
    show "mset ?ys = mset ?xs" using ys by simp
    show "filter (\<lambda>x. f k = f x) ?ys = filter (\<lambda>x. f k = f x) ?xs" for k
      using ys by (simp only: eq_commute [of "f k"])
    show "sorted (map f ?ys)" using ys by simp
  qed
  moreover have "length ?ys = nat (st_num st)" using stack_list_length [OF ok] by (simp add: take_foldl_ins)
  ultimately show ?thesis
    using assms ok by (auto simp: pub_stack_sort_def Let_def stack_ok_def stack_list_def)
qed

section \<open>Runs of operations\<close>


















section \<open>Properties\<close>


text \<open>\<^verbatim>\<open>pub_stack_set\<close> leaves the mark of a sorted stack alone: after a sort and a replacement the next sort answers
  at once, reports a sorted stack and leaves the elements as they are.\<close>

theorem sort_skipped_after_set:
  fixes f :: "addr \<Rightarrow> int"
  assumes ok: "stack_ok st" and un: "st_sorted st = 0" and c: "st_comp st \<noteq> 0"
    and cmp: "\<And>a b. call (st_comp st) a b \<le> 0 \<longleftrightarrow> f a \<le> f b"
    and i: "0 \<le> i" "i < st_num st"
  shows "\<exists>st1 st2. pub_stack_sort call (Some st) = Some (Some st1) \<and> stack_list st1 = sort_key f (stack_list st) \<and>
    pub_stack_set (Some st1) i v = Some (v, Some st2) \<and> pub_stack_sort call (Some st2) = Some (Some st2) \<and>
    pub_stack_is_sorted (Some st2) = 1 \<and> stack_list st2 = (sort_key f (stack_list st))[nat i := v]"
proof -
  obtain st1 where st1: "pub_stack_sort call (Some st) = Some (Some st1)" "stack_ok st1" "st_sorted st1 = 1"
      "st_num st1 = st_num st" "stack_list st1 = sort_key f (stack_list st)"
    using stack_sort_spec [where call = call and f = f, OF ok un c cmp] by blast
  obtain st2 where st2: "pub_stack_set (Some st1) i v = Some (v, Some st2)" "stack_list st2 = (stack_list st1)[nat i := v]"
    using set_spec [OF st1(2), of i v] i st1(4) by auto
  have "st_sorted st2 = 1" using st2(1) st1(3,4) i by (auto split: option.splits simp: bind_eq_Some_conv)
  with st1 st2 show ?thesis by (auto simp: pub_stack_sort_def)
qed

section \<open>Instances\<close>

definition stack_demo :: sqstack where
  "stack_demo = \<lparr>st_num = 3, st_data = [9, 4, 6, 0], st_sorted = 0, st_num_alloc = 4, st_comp = 1, st_pop_free = 0\<rparr>"


lemma stack_demo_ok: "stack_ok stack_demo" "st_num stack_demo = 3" "st_sorted stack_demo = 0" "st_comp stack_demo = 1"
  "stack_list stack_demo = [9, 4, 6]"
  by (simp_all add: stack_demo_def stack_ok_def stack_list_def)



theorem sort_skipped_after_set_witness:
  "\<exists>st1 st2. pub_stack_sort (\<lambda>c a b. int a - int b) (Some stack_demo) = Some (Some st1) \<and> stack_list st1 = [4, 6, 9] \<and>
    pub_stack_set (Some st1) 0 8 = Some (8, Some st2) \<and>
    pub_stack_sort (\<lambda>c a b. int a - int b) (Some st2) = Some (Some st2) \<and>
    pub_stack_is_sorted (Some st2) = 1 \<and> stack_list st2 = [8, 6, 9]"
  using sort_skipped_after_set [of stack_demo "\<lambda>c a b. int a - int b" int 0 8] stack_demo_ok by simp

end
