(* ===== verification/Pub_Computexp.thy ===== *)
theory Pub_Computexp
  imports Pub_Minifun
begin

text \<open>
  The expression evaluator of the message formats, \<^verbatim>\<open>core/pub_computexp.c\<close>: it cuts a text into words, keeps
  operands and operators on two stacks and computes an operator when a weaker one or a bracket follows.  The stacks are
  lists with the top first: by \<^verbatim>\<open>Pub_Stack\<close> that is what the pushes and pops of \<^verbatim>\<open>core/pub_stack.c\<close> amount to.
  Allocations succeed.  Variables come from the function pointer \<^verbatim>\<open>get_var\<close> of the caller, functions that are not in
  the table from a shared library; both are fields of the environment.  None is a run that leaves a buffer, divides by
  zero or calls a function that does.
\<close>

record 'd exp_env = "'d dbl_ops" +
  get_var :: "cstr \<Rightarrow> int \<times> cstr"
  udf_lib :: "cstr \<Rightarrow> mini_fun option"

section \<open>Operands\<close>

datatype 'd node = Str cstr | Num int | Dbl 'd

definition chr_at :: "nat \<Rightarrow> cstr \<Rightarrow> nat" where
  "chr_at i s = (if i < length s then of_char (s ! i) else 0)"

definition is_digit_at :: "nat \<Rightarrow> cstr \<Rightarrow> bool" where
  "is_digit_at i s \<longleftrightarrow> 48 \<le> chr_at i s \<and> chr_at i s \<le> 57"

text \<open>\<open>sz\<close> is the size of the caller's buffer; a failed lookup counts as an empty value.  The evaluator asks for no xml
  variables, so that case is left.\<close>

definition loc_get_data_len :: "'d exp_env \<Rightarrow> nat \<Rightarrow> cstr \<Rightarrow> (int \<times> cstr) option" where
  "loc_get_data_len env sz name =
     (if name = [] then Some (- 1, [])
      else if chr_at 0 name = 35 \<or> chr_at 0 name = 36 then
        let (len, buf) = get_var env name in
        if sz \<le> length buf then None
        else if len < 0 then Some (0, buf) else Some (len, buf)
      else Some (0, []))"

text \<open>The test for a number also takes a first character that is no digit, but not below one, when a digit follows.\<close>

definition is_number :: "cstr \<Rightarrow> bool" where
  "is_number s \<longleftrightarrow> is_digit_at 0 s \<or> (48 \<le> chr_at 0 s \<and> chr_at 0 s < 128 \<and> is_digit_at 1 s)"

definition push_data :: "'d exp_env \<Rightarrow> cstr \<Rightarrow> 'd node list \<Rightarrow> (int \<times> 'd node list) option" where
  "push_data env s ds =
     (if is_number s then
        if 32 < length s then Some (- 1, ds)
        else if CHR ''.'' \<notin> set s then Some (0, Num (atoll s) # ds)
        else Some (0, Dbl (strtod env s) # ds)
      else if chr_at 0 s = 35 \<or> chr_at 0 s = 36 then
        if 31 < length s then Some (- 1, ds)
        else
          (case loc_get_data_len env 2048 s of
             None \<Rightarrow> None
           | Some (len, buf) \<Rightarrow> if len < 0 then None else Some (0, Str (take (nat len) buf) # ds))
      else if chr_at 0 s = 39 then
        if length s < 2 then None else Some (0, Str (take (length s - 2) (tl s)) # ds)
      else Some (- 1, ds))"

definition push_oper :: "cstr \<Rightarrow> cstr list \<Rightarrow> int \<times> cstr list" where
  "push_oper s os = (0, s # os)"

text \<open>How every operator leaves its result: the code of \<^verbatim>\<open>push_data\<close> is dropped.\<close>

definition push_result :: "'d exp_env \<Rightarrow> cstr \<Rightarrow> 'd node list \<Rightarrow> (int \<times> 'd node list) option" where
  "push_result env s ds = map_option (\<lambda>(_, ds1). (0, ds1)) (push_data env s ds)"

text \<open>\<^verbatim>\<open>sprintf\<close> into the 128 bytes of \<^verbatim>\<open>buf\<close>.\<close>

definition push_print :: "'d exp_env \<Rightarrow> cstr \<Rightarrow> 'd node list \<Rightarrow> (int \<times> 'd node list) option" where
  "push_print env s ds = (if length s < 128 then push_result env s ds else None)"

definition push_int :: "'d exp_env \<Rightarrow> int \<Rightarrow> 'd node list \<Rightarrow> (int \<times> 'd node list) option" where
  "push_int env x ds = push_print env (fmt_lld x) ds"

definition push_dbl :: "'d exp_env \<Rightarrow> 'd \<Rightarrow> 'd node list \<Rightarrow> (int \<times> 'd node list) option" where
  "push_dbl env x ds = push_print env (fmt_dbl env 6 x) ds"

definition push_flag :: "'d exp_env \<Rightarrow> bool \<Rightarrow> 'd node list \<Rightarrow> (int \<times> 'd node list) option" where
  "push_flag env b ds = push_print env (if b then ''1'' else ''0'') ds"

section \<open>Operators\<close>

definition comp_dbl :: "'d exp_env \<Rightarrow> 'd \<Rightarrow> 'd \<Rightarrow> int" where
  "comp_dbl env d1 d2 =
     (let d = dbl_sub env d1 d2 in
      if dbl_less env (dbl_neg env (dbl_prec env)) d \<and> dbl_less env d (dbl_prec env) then 0
      else if dbl_less env (dbl_prec env) d then 1
      else - 1)"

fun strcmp :: "cstr \<Rightarrow> cstr \<Rightarrow> int" where
  "strcmp [] [] = 0"
| "strcmp [] (d # ds) = - 1"
| "strcmp (c # cs) [] = 1"
| "strcmp (c # cs) (d # ds) =
     (if (of_char c :: nat) < of_char d then - 1 else if (of_char d :: nat) < of_char c then 1 else strcmp cs ds)"

fun compute_add :: "'d exp_env \<Rightarrow> 'd node \<Rightarrow> 'd node \<Rightarrow> 'd node list \<Rightarrow> (int \<times> 'd node list) option" where
  "compute_add env (Str a) (Str b) ds = push_result env (CHR 0x27 # a @ b @ [CHR 0x27]) ds"
| "compute_add env (Dbl a) (Dbl b) ds = push_dbl env (dbl_add env a b) ds"
| "compute_add env (Num a) (Num b) ds = push_int env (s64 (a + b)) ds"
| "compute_add env (Num a) (Dbl b) ds = push_dbl env (dbl_add env (dbl_of_int env a) b) ds"
| "compute_add env (Dbl a) (Num b) ds = push_dbl env (dbl_add env a (dbl_of_int env b)) ds"
| "compute_add env _ _ ds = Some (- 1, ds)"

fun compute_sub :: "'d exp_env \<Rightarrow> 'd node \<Rightarrow> 'd node \<Rightarrow> 'd node list \<Rightarrow> (int \<times> 'd node list) option" where
  "compute_sub env (Dbl a) (Dbl b) ds = push_dbl env (dbl_sub env a b) ds"
| "compute_sub env (Num a) (Num b) ds = push_int env (s64 (a - b)) ds"
| "compute_sub env (Num a) (Dbl b) ds = push_dbl env (dbl_sub env (dbl_of_int env a) b) ds"
| "compute_sub env (Dbl a) (Num b) ds = push_dbl env (dbl_sub env a (dbl_of_int env b)) ds"
| "compute_sub env _ _ ds = Some (- 1, ds)"

fun compute_mul :: "'d exp_env \<Rightarrow> 'd node \<Rightarrow> 'd node \<Rightarrow> 'd node list \<Rightarrow> (int \<times> 'd node list) option" where
  "compute_mul env (Dbl a) (Dbl b) ds = push_dbl env (dbl_mul env a b) ds"
| "compute_mul env (Num a) (Num b) ds = push_int env (s64 (a * b)) ds"
| "compute_mul env (Num a) (Dbl b) ds = push_dbl env (dbl_mul env (dbl_of_int env a) b) ds"
| "compute_mul env (Dbl a) (Num b) ds = push_dbl env (dbl_mul env a (dbl_of_int env b)) ds"
| "compute_mul env _ _ ds = Some (- 1, ds)"

text \<open>Only two floating point operands are tested for a zero divisor.\<close>

fun compute_div :: "'d exp_env \<Rightarrow> 'd node \<Rightarrow> 'd node \<Rightarrow> 'd node list \<Rightarrow> (int \<times> 'd node list) option" where
  "compute_div env (Dbl a) (Dbl b) ds =
     (if comp_dbl env b (dbl_of_int env 0) = 0 then Some (- 1, ds) else push_dbl env (dbl_div env a b) ds)"
| "compute_div env (Num a) (Num b) ds = (if b = 0 then None else push_int env (s64 (c_div a b)) ds)"
| "compute_div env (Num a) (Dbl b) ds = push_dbl env (dbl_div env (dbl_of_int env a) b) ds"
| "compute_div env (Dbl a) (Num b) ds = push_dbl env (dbl_div env a (dbl_of_int env b)) ds"
| "compute_div env _ _ ds = Some (- 1, ds)"

fun compute_not :: "'d exp_env \<Rightarrow> 'd node \<Rightarrow> 'd node list \<Rightarrow> (int \<times> 'd node list) option" where
  "compute_not env (Num a) ds = push_flag env (a = 0) ds"
| "compute_not env (Dbl a) ds = push_flag env (comp_dbl env a (dbl_of_int env 0) = 0) ds"
| "compute_not env (Str a) ds = push_flag env (a = []) ds"

text \<open>The common shape of the six comparisons: the test on integers, and the tests of the answers of \<^verbatim>\<open>comp_dbl\<close> and
  \<^verbatim>\<open>strcmp\<close>.\<close>

fun compute_rel :: "'d exp_env \<Rightarrow> (int \<Rightarrow> int \<Rightarrow> bool) \<Rightarrow> (int \<Rightarrow> bool) \<Rightarrow> (int \<Rightarrow> bool) \<Rightarrow> 'd node \<Rightarrow> 'd node \<Rightarrow> 'd node list
    \<Rightarrow> (int \<times> 'd node list) option" where
  "compute_rel env ri rd rs (Num a) (Num b) ds = push_flag env (ri a b) ds"
| "compute_rel env ri rd rs (Dbl a) (Dbl b) ds = push_flag env (rd (comp_dbl env (dbl_sub env a b) (dbl_of_int env 0))) ds"
| "compute_rel env ri rd rs (Num a) (Dbl b) ds = push_flag env (rd (comp_dbl env (dbl_of_int env a) b)) ds"
| "compute_rel env ri rd rs (Dbl a) (Num b) ds = push_flag env (rd (comp_dbl env a (dbl_of_int env b))) ds"
| "compute_rel env ri rd rs (Str a) (Str b) ds = push_flag env (rs (strcmp a b)) ds"
| "compute_rel env ri rd rs _ _ ds = Some (- 1, ds)"

definition compute_ne :: "'d exp_env \<Rightarrow> 'd node \<Rightarrow> 'd node \<Rightarrow> 'd node list \<Rightarrow> (int \<times> 'd node list) option" where
  "compute_ne env = compute_rel env (\<lambda>a b. a \<noteq> b) (\<lambda>c. c \<noteq> 0) (\<lambda>c. c \<noteq> 0)"

definition compute_eq :: "'d exp_env \<Rightarrow> 'd node \<Rightarrow> 'd node \<Rightarrow> 'd node list \<Rightarrow> (int \<times> 'd node list) option" where
  "compute_eq env = compute_rel env (\<lambda>a b. a = b) (\<lambda>c. c = 0) (\<lambda>c. c = 0)"

definition compute_gt :: "'d exp_env \<Rightarrow> 'd node \<Rightarrow> 'd node \<Rightarrow> 'd node list \<Rightarrow> (int \<times> 'd node list) option" where
  "compute_gt env = compute_rel env (\<lambda>a b. a > b) (\<lambda>c. c > 0) (\<lambda>c. c > 0)"

text \<open>On strings the answers are swapped.\<close>

definition compute_lt :: "'d exp_env \<Rightarrow> 'd node \<Rightarrow> 'd node \<Rightarrow> 'd node list \<Rightarrow> (int \<times> 'd node list) option" where
  "compute_lt env = compute_rel env (\<lambda>a b. a < b) (\<lambda>c. c < 0) (\<lambda>c. \<not> c < 0)"

definition compute_ge :: "'d exp_env \<Rightarrow> 'd node \<Rightarrow> 'd node \<Rightarrow> 'd node list \<Rightarrow> (int \<times> 'd node list) option" where
  "compute_ge env = compute_rel env (\<lambda>a b. a \<ge> b) (\<lambda>c. c \<ge> 0) (\<lambda>c. c \<ge> 0)"

definition compute_le :: "'d exp_env \<Rightarrow> 'd node \<Rightarrow> 'd node \<Rightarrow> 'd node list \<Rightarrow> (int \<times> 'd node list) option" where
  "compute_le env = compute_rel env (\<lambda>a b. a \<le> b) (\<lambda>c. c \<le> 0) (\<lambda>c. c \<le> 0)"

text \<open>A mixed pair of string and number passes every test of \<^verbatim>\<open>compute_and\<close> and \<^verbatim>\<open>compute_or\<close> by, so the empty buffer
  is pushed.\<close>

fun truth :: "'d exp_env \<Rightarrow> 'd node \<Rightarrow> bool" where
  "truth env (Num a) \<longleftrightarrow> a \<noteq> 0"
| "truth env (Dbl a) \<longleftrightarrow> comp_dbl env a (dbl_of_int env 0) \<noteq> 0"
| "truth env (Str a) \<longleftrightarrow> a \<noteq> []"

fun is_str :: "'d node \<Rightarrow> bool" where
  "is_str (Str a) \<longleftrightarrow> True"
| "is_str _ \<longleftrightarrow> False"

definition compute_and :: "'d exp_env \<Rightarrow> 'd node \<Rightarrow> 'd node \<Rightarrow> 'd node list \<Rightarrow> (int \<times> 'd node list) option" where
  "compute_and env a b ds =
     (if is_str a = is_str b then push_flag env (truth env a \<and> truth env b) ds else push_print env [] ds)"

definition compute_or :: "'d exp_env \<Rightarrow> 'd node \<Rightarrow> 'd node \<Rightarrow> 'd node list \<Rightarrow> (int \<times> 'd node list) option" where
  "compute_or env a b ds =
     (if is_str a = is_str b then push_flag env (truth env a \<or> truth env b) ds else push_print env [] ds)"

definition compute_base :: "'d exp_env \<Rightarrow> cstr \<Rightarrow> 'd node list \<Rightarrow> (int \<times> 'd node list) option" where
  "compute_base env oper ds =
     (if oper = [] \<or> List.hd oper \<notin> set ''+-*/!=><&|'' then Some (- 1, ds)
      else
        (case ds of
           [] \<Rightarrow> Some (- 1, [])
         | b # ds1 \<Rightarrow>
             if oper = ''!'' then compute_not env b ds1
             else
               (case ds1 of
                  [] \<Rightarrow> Some (- 1, [])
                | a # ds2 \<Rightarrow>
                    if List.hd oper = CHR ''+'' then compute_add env a b ds2
                    else if List.hd oper = CHR ''-'' then compute_sub env a b ds2
                    else if List.hd oper = CHR ''*'' then compute_mul env a b ds2
                    else if List.hd oper = CHR ''/'' then compute_div env a b ds2
                    else if oper = ''=='' then compute_eq env a b ds2
                    else if oper = ''!='' then compute_ne env a b ds2
                    else if oper = ''>'' then compute_gt env a b ds2
                    else if oper = ''<'' then compute_lt env a b ds2
                    else if oper = ''>='' then compute_ge env a b ds2
                    else if oper = ''<='' then compute_le env a b ds2
                    else if oper = ''&&'' then compute_and env a b ds2
                    else if oper = ''||'' then compute_or env a b ds2
                    else Some (- 1, ds2))))"

definition priorcmp :: "cstr \<Rightarrow> cstr \<Rightarrow> int" where
  "priorcmp op1 op2 =
     (let opc1 = chr_at 0 op1; opc2 = chr_at 0 op2;
          logic = op2 = ''||'' \<or> op2 = ''&&'' \<or> op2 = ''!'';
          rel = opc2 = of_char (CHR ''>'') \<or> opc2 = of_char (CHR ''<'') \<or> opc2 = of_char (CHR ''!'') \<or> opc2 = of_char (CHR ''='');
          add = opc2 = of_char (CHR ''+'') \<or> opc2 = of_char (CHR ''-'');
          mul = opc2 = of_char (CHR ''*'') \<or> opc2 = of_char (CHR ''/'') in
      if op1 = ''('' then 1
      else if op2 = ''('' then 1
      else if op1 = ''['' then 1
      else if op2 = ''['' then 1
      else if op1 = ''||'' then (if op2 = ''||'' then 0 else - 1)
      else if op1 = ''&&'' then (if op2 = ''||'' then 1 else if op2 = ''&&'' then 0 else - 1)
      else if op1 = ''!'' then (if op2 = ''||'' \<or> op2 = ''&&'' then 1 else if op2 = ''!'' then 0 else - 1)
      else if opc1 = of_char (CHR ''>'') \<or> opc1 = of_char (CHR ''<'') \<or> opc1 = of_char (CHR ''='') \<or> opc1 = of_char (CHR ''!'') then
        (if logic then 1 else if rel then 0 else - 1)
      else if opc1 = of_char (CHR ''+'') \<or> opc1 = of_char (CHR ''-'') then
        (if logic \<or> rel then 1 else if add then 0 else - 1)
      else if opc1 = of_char (CHR ''*'') \<or> opc1 = of_char (CHR ''/'') then
        (if logic \<or> rel \<or> add then 1 else if mul then 0 else - 1)
      else if opc1 = of_char (CHR ''('') \<or> opc1 = of_char (CHR ''['') then 1
      else - 1)"

section \<open>Words\<close>

definition is_letter :: "char \<Rightarrow> bool" where
  "is_letter c \<longleftrightarrow> (97 \<le> (of_char c :: nat) \<and> (of_char c :: nat) \<le> 122) \<or> (65 \<le> (of_char c :: nat) \<and> (of_char c :: nat) \<le> 90)"

definition is_var_start :: "char \<Rightarrow> bool" where
  "is_var_start c \<longleftrightarrow> c = CHR ''#'' \<or> c = CHR ''$''"

definition name_char :: "char \<Rightarrow> bool" where
  "name_char c \<longleftrightarrow> is_letter c \<or> c_isdigit c \<or> c = CHR ''_'' \<or> c = CHR ''.''"

text \<open>The loop over a name: the first character is taken, then the next one decides.  In the name of a variable
  (\<open>var\<close>) one pair of brackets may stand; the last component is false when a second one opens inside it.\<close>

fun name_word :: "bool \<Rightarrow> bool \<Rightarrow> cstr \<Rightarrow> cstr \<times> cstr \<times> bool" where
  "name_word var block [] = ([], [], True)"
| "name_word var block [c] = ([c], [], True)"
| "name_word var block (c # d # cs) =
     (if var \<and> d = CHR ''('' then
        if block then ([c], d # cs, False) else apfst (Cons c) (name_word var True (d # cs))
      else if var \<and> d = CHR '')'' then
        if \<not> block then ([c], d # cs, True) else apfst (Cons c) (name_word var False (d # cs))
      else if \<not> name_char d then ([c], d # cs, True)
      else apfst (Cons c) (name_word var block (d # cs)))"

text \<open>A word has to fit the 1024 bytes it is copied to, with its terminator.\<close>

definition word_of :: "cstr \<times> cstr \<Rightarrow> (cstr \<times> cstr) option option" where
  "word_of wr = (if length (fst wr) < 1024 then Some (Some wr) else None)"

text \<open>One or two characters, as the operators that may be doubled or followed by an equals sign.\<close>

definition two_chars :: "char \<Rightarrow> char \<Rightarrow> cstr \<Rightarrow> cstr \<times> cstr" where
  "two_chars c d cs = (if cs \<noteq> [] \<and> List.hd cs = d then ([c, d], tl cs) else ([c], cs))"

definition get_one_word :: "cstr \<Rightarrow> (cstr \<times> cstr) option option" where
  "get_one_word exp =
     (case dropWhile (\<lambda>c. c = CHR '' '') exp of
        [] \<Rightarrow> Some None
      | c # cs \<Rightarrow>
          if is_letter c \<or> is_var_start c then
            let (w, rest, good) = name_word (is_var_start c) False (c # cs) in
            if good then word_of (w, rest) else if length w \<le> 1024 then Some None else None
          else if c \<in> set ''()+-/*,'' then Some (Some ([c], cs))
          else if c \<in> set ''=><!'' then Some (Some (two_chars c (CHR ''='') cs))
          else if c = CHR ''&'' then Some (Some (two_chars c (CHR ''&'') cs))
          else if c = CHR ''|'' then Some (Some (two_chars c (CHR ''|'') cs))
          else if c_isdigit c then
            word_of (c # takeWhile (\<lambda>d. c_isdigit d \<or> d = CHR ''.'') cs, dropWhile (\<lambda>d. c_isdigit d \<or> d = CHR ''.'') cs)
          else if c = CHR 0x27 then
            let body = takeWhile (\<lambda>d. d \<noteq> CHR 0x27) cs; rest = dropWhile (\<lambda>d. d \<noteq> CHR 0x27) cs in
            if rest = [] then if length body < 1024 then Some None else None
            else word_of (c # body @ [CHR 0x27], tl rest)
          else Some None)"

lemma name_word_rest: "length (fst (snd (name_word var block (c # cs)))) \<le> length cs"
proof (induction cs arbitrary: c block)
  case (Cons d cs)
  have le: "length (fst (snd (name_word v b (e # cs)))) \<le> Suc (length cs)" if "v = var" for v b e
    using Cons.IH [of b e] that by simp
  show ?case by (cases var) (auto simp: le)
qed simp

lemma two_chars_rest: "length (snd (two_chars c d cs)) \<le> length cs"
  by (cases cs) (auto simp: two_chars_def)

lemma length_dropWhile_less: "dropWhile p xs = y # ys \<Longrightarrow> length ys < length xs"
  using length_dropWhile_le [of p xs] by simp

lemma get_one_word_shorter: "get_one_word exp = Some (Some (w, rest)) \<Longrightarrow> length rest < length exp"
proof -
  assume w: "get_one_word exp = Some (Some (w, rest))"
  obtain c cs where cs: "dropWhile (\<lambda>c. c = CHR '' '') exp = c # cs"
    using w by (cases "dropWhile (\<lambda>c. c = CHR '' '') exp") (simp_all add: get_one_word_def)
  have "length rest \<le> length cs"
    using w cs name_word_rest [of "is_var_start c" False c cs] two_chars_rest [of c "CHR ''=''" cs]
      two_chars_rest [of c "CHR ''&''" cs] two_chars_rest [of c "CHR ''|''" cs]
      length_dropWhile_le [of "\<lambda>d. c_isdigit d \<or> d = CHR ''.''" cs] length_dropWhile_le [of "\<lambda>d. d \<noteq> CHR 0x27" cs]
    by (auto simp: get_one_word_def word_of_def Let_def split: if_splits prod.splits)
  then show "length rest < length exp" using length_dropWhile_less [OF cs] by simp
qed

section \<open>Functions in expressions\<close>

text \<open>\<^verbatim>\<open>check_exp\<close> collects the words up to the closing bracket behind the name of the function, in a buffer of 512
  bytes; \<open>cnt\<close> counts the open brackets.\<close>

definition check_start :: "char \<Rightarrow> bool" where
  "check_start c \<longleftrightarrow> is_var_start c \<or> c = CHR 0x27 \<or> c_isdigit c \<or> c \<in> set ''+-*/.,'' \<or> is_letter c"

function check_words :: "nat \<Rightarrow> cstr \<Rightarrow> cstr \<Rightarrow> (int \<times> cstr \<times> cstr) option" where
  "check_words cnt sent rest =
     (if cnt = 0 then Some (0, sent, rest)
      else
        (case get_one_word rest of
           None \<Rightarrow> None
         | Some None \<Rightarrow> Some (- 1, sent, rest)
         | Some (Some (w, rest1)) \<Rightarrow>
             if 512 \<le> length sent + length w then None
             else if check_start (List.hd w) then check_words cnt (sent @ w) rest1
             else if List.hd w = CHR ''('' then check_words (Suc cnt) (sent @ w) rest1
             else if List.hd w = CHR '')'' then check_words (cnt - 1) (sent @ w) rest1
             else Some (- 1, sent, rest1)))"
  by pat_completeness auto

termination
  by (relation "measure (\<lambda>(cnt, sent, rest). length rest)") (auto dest: get_one_word_shorter)

declare check_words.simps [simp del]

definition check_exp :: "cstr \<Rightarrow> cstr \<Rightarrow> (int \<times> cstr \<times> cstr) option" where
  "check_exp sent rest =
     (case get_one_word rest of
        None \<Rightarrow> None
      | Some None \<Rightarrow> Some (- 1, sent, rest)
      | Some (Some (w, rest1)) \<Rightarrow>
          if List.hd w \<noteq> CHR ''('' then Some (- 1, sent, rest1)
          else if 512 \<le> length sent + length w then None
          else check_words 1 (sent @ w) rest1)"

lemma check_words_rest: "check_words cnt sent rest = Some (r, s, rest1) \<Longrightarrow> length rest1 \<le> length rest"
proof (induction cnt sent rest rule: check_words.induct)
  case (1 cnt sent rest)
  show ?case
  proof (cases "cnt = 0")
    case True
    then show ?thesis using "1.prems" by (simp add: check_words.simps [of 0])
  next
    case False
    show ?thesis
    proof (cases "get_one_word rest")
      case None
      then show ?thesis using "1.prems" False by (simp add: check_words.simps [of cnt])
    next
      case (Some wo)
      show ?thesis
      proof (cases wo)
        case None
        then show ?thesis using "1.prems" False Some by (simp add: check_words.simps [of cnt])
      next
        case (Some wr)
        obtain w rest2 where wr: "wr = (w, rest2)" by (cases wr)
        have word: "get_one_word rest = Some (Some (w, rest2))" using \<open>get_one_word rest = Some wo\<close> Some wr by simp
        note shorter = get_one_word_shorter [OF word]
        show ?thesis
          using "1.prems" False word shorter "1.IH" [OF False word] wr Some \<open>get_one_word rest = Some wo\<close>
          by (force simp: check_words.simps [of cnt] split: if_splits)
      qed
    qed
  qed
qed

text \<open>The value of an argument: a variable is looked up, with a buffer of 512 bytes, anything else stands for itself.\<close>

definition arg_value :: "'d exp_env \<Rightarrow> cstr \<Rightarrow> cstr option" where
  "arg_value env a =
     (if a \<noteq> [] \<and> is_var_start (List.hd a) then
        map_option (\<lambda>(len, buf). take (nat len) buf) (loc_get_data_len env 512 a)
      else Some a)"

definition add_arg :: "'d exp_env \<Rightarrow> cstr \<Rightarrow> cstr list \<Rightarrow> cstr list option" where
  "add_arg env a args =
     (if 10 \<le> length args then None else map_option (\<lambda>v. args @ [v]) (arg_value env a))"

text \<open>The loop over the text behind the first bracket: \<open>argv\<close> is the argument being read, in 128 bytes.\<close>

function args_loop :: "'d exp_env \<Rightarrow> bool \<Rightarrow> bool \<Rightarrow> cstr \<Rightarrow> cstr list \<Rightarrow> cstr \<Rightarrow> cstr list option" where
  "args_loop env quto block argv args [] = Some args"
| "args_loop env quto block argv args (c # cs) =
     (if c = CHR 0x27 then args_loop env (\<not> quto) block argv args cs
      else if c = CHR '','' \<and> \<not> quto then
        (case add_arg env argv args of
           None \<Rightarrow> None
         | Some args1 \<Rightarrow> args_loop env quto block [] args1 (dropWhile (\<lambda>d. d = CHR '' '') cs))
      else if c = CHR '')'' \<and> \<not> quto \<and> \<not> block then add_arg env argv args
      else if c = CHR ''('' \<and> block \<and> argv \<noteq> [] \<and> is_var_start (List.hd argv) then Some args
      else if 127 \<le> length argv then None
      else if c = CHR ''('' \<and> argv \<noteq> [] \<and> is_var_start (List.hd argv) then args_loop env quto True (argv @ [c]) args cs
      else if c = CHR '')'' \<and> argv \<noteq> [] \<and> is_var_start (List.hd argv) then args_loop env quto False (argv @ [c]) args cs
      else args_loop env quto block (argv @ [c]) args cs)"
  by pat_completeness auto

termination
  by (relation "measure (\<lambda>(env, quto, block, argv, args, cs). length cs)") (auto simp: le_imp_less_Suc length_dropWhile_le)

text \<open>Its code is not looked at; what counts are the arguments found.\<close>

definition get_args :: "'d exp_env \<Rightarrow> cstr \<Rightarrow> cstr list option" where
  "get_args env exp =
     (case dropWhile (\<lambda>c. c \<noteq> CHR ''('') exp of
        [] \<Rightarrow> Some []
      | c # cs \<Rightarrow> if cs \<noteq> [] \<and> List.hd cs = CHR '')'' then Some [] else args_loop env False False [] [] cs)"

text \<open>The table of functions: its entries in use, of at most 50.  A function of the library is entered when it is found.\<close>

record fun_world =
  g_fun_table :: "(cstr \<times> mini_fun) list"
  run_first :: bool

definition get_fun_from_lib :: "'d exp_env \<Rightarrow> cstr \<Rightarrow> fun_world \<Rightarrow> (int \<times> fun_world) option" where
  "get_fun_from_lib env funname w =
     (case udf_lib env funname of
        None \<Rightarrow> Some (- 1, w)
      | Some f \<Rightarrow>
          if 50 \<le> length (g_fun_table w) then None
          else Some (int (length (g_fun_table w)), w\<lparr>g_fun_table := g_fun_table w @ [(funname, f)]\<rparr>))"

text \<open>\<open>set_fun_table\<close> is called by the first run.  The code of the function itself is dropped.\<close>

definition run :: "'d exp_env \<Rightarrow> cstr list \<Rightarrow> cstr \<Rightarrow> fun_vars \<Rightarrow> fun_world \<Rightarrow> (int \<times> fun_vars \<times> fun_world) option" where
  "run env args funname v w =
     (let w1 = (if run_first w then w\<lparr>g_fun_table := set_fun_table env, run_first := False\<rparr> else w) in
      do {
        (i, w2) \<leftarrow>
          (case find_idx (\<lambda>e. fst e = funname) (g_fun_table w1) of
             Some i \<Rightarrow> Some (int i, w1)
           | None \<Rightarrow> get_fun_from_lib env funname w1);
        if i < 0 then Some (- 1, v, w2)
        else do {
          (_, v1) \<leftarrow> snd (g_fun_table w2 ! nat i) args v;
          Some (0, v1, w2)
        }
      })"

definition run_fun :: "'d exp_env \<Rightarrow> cstr \<Rightarrow> cstr \<Rightarrow> fun_vars \<Rightarrow> fun_world \<Rightarrow> (int \<times> fun_vars \<times> fun_world \<times> cstr) option" where
  "run_fun env fname rest v w =
     (if fname = [] then Some (- 1, v, w, rest)
      else do {
        (ret, exp, rest1) \<leftarrow> check_exp fname rest;
        if ret < 0 then Some (- 1, v, w, rest1)
        else do {
          args \<leftarrow> get_args env exp;
          (ret2, v1, w1) \<leftarrow> run env args fname v w;
          Some (if ret2 < 0 then - 1 else 0, v1, w1, rest1)
        }
      })"

section \<open>The evaluator\<close>

record 'd exp_state =
  data_stack :: "'d node list"
  oper_stack :: "cstr list"
  exp_funs :: fun_world

text \<open>Operators are popped and computed while \<open>p\<close> holds; the third component is the stack that is left.\<close>

fun pop_while :: "'d exp_env \<Rightarrow> (cstr \<Rightarrow> bool) \<Rightarrow> 'd node list \<Rightarrow> cstr list \<Rightarrow> (int \<times> 'd node list \<times> cstr list) option" where
  "pop_while env p ds [] = Some (0, ds, [])"
| "pop_while env p ds (oper # os) =
     (if \<not> p oper then Some (0, ds, oper # os)
      else
        (case compute_base env oper ds of
           None \<Rightarrow> None
         | Some (ret, ds1) \<Rightarrow> if ret < 0 then Some (- 1, ds1, oper # os) else pop_while env p ds1 os))"

definition rel_words :: "cstr list" where
  "rel_words = [''!='', ''=='', ''>'', ''>='', ''<'', ''<='', ''!'', ''&&'', ''||'']"

text \<open>What the word \<open>w\<close> pops: additions and subtractions everything up to a bracket, multiplications and divisions their
  like, the others what does not bind less.\<close>

definition pops :: "cstr \<Rightarrow> cstr \<Rightarrow> bool" where
  "pops w oper \<longleftrightarrow>
     (if chr_at 0 w = of_char (CHR ''+'') \<or> chr_at 0 w = of_char (CHR ''-'') then chr_at 0 oper \<noteq> of_char (CHR ''('')
      else if chr_at 0 w = of_char (CHR ''*'') \<or> chr_at 0 w = of_char (CHR ''/'') then
        chr_at 0 oper = of_char (CHR ''*'') \<or> chr_at 0 oper = of_char (CHR ''/'')
      else \<not> 0 < priorcmp w oper)"

text \<open>An operator: pop, then push it.\<close>

definition exp_operator :: "'d exp_env \<Rightarrow> cstr \<Rightarrow> 'd exp_state \<Rightarrow> (int \<times> 'd exp_state) option" where
  "exp_operator env w st =
     map_option (\<lambda>(ret, ds, os).
        if ret < 0 then (- 1, st\<lparr>data_stack := ds, oper_stack := os\<rparr>)
        else (0, st\<lparr>data_stack := ds, oper_stack := snd (push_oper w os)\<rparr>))
      (pop_while env (pops w) (data_stack st) (oper_stack st))"

text \<open>A closing bracket: pop to the opening one.\<close>

definition exp_close :: "'d exp_env \<Rightarrow> 'd exp_state \<Rightarrow> (int \<times> 'd exp_state) option" where
  "exp_close env st =
     map_option (\<lambda>(ret, ds, os).
        if ret < 0 \<or> os = [] then (- 1, st\<lparr>data_stack := ds, oper_stack := os\<rparr>)
        else (0, st\<lparr>data_stack := ds, oper_stack := tl os\<rparr>))
      (pop_while env (\<lambda>oper. chr_at 0 oper \<noteq> of_char (CHR ''('')) (data_stack st) (oper_stack st))"

definition exp_operand :: "'d exp_env \<Rightarrow> cstr \<Rightarrow> 'd exp_state \<Rightarrow> (int \<times> 'd exp_state) option" where
  "exp_operand env w st = map_option (\<lambda>(ret, ds). (0, st\<lparr>data_stack := ds\<rparr>)) (push_data env w (data_stack st))"

text \<open>A call: its result is pushed as the text of a number if the function left an integer, as a string otherwise.\<close>

definition exp_call :: "'d exp_env \<Rightarrow> cstr \<Rightarrow> cstr \<Rightarrow> 'd exp_state \<Rightarrow> (int \<times> 'd exp_state \<times> cstr) option" where
  "exp_call env w rest st =
     (if 32 \<le> length w then None
      else do {
        (ret, v, fw, rest1) \<leftarrow> run_fun env w rest zero_vars (exp_funs st);
        let st1 = st\<lparr>exp_funs := fw\<rparr> in
        if ret < 0 then Some (- 1, st1, rest1)
        else
          map_option (\<lambda>(ret, st2). (ret, st2, rest1))
            (exp_operand env (if fv_type v = TYPE_INT then fv_value v else CHR 0x27 # fv_value v @ [CHR 0x27]) st1)
      })"

definition exp_step :: "'d exp_env \<Rightarrow> cstr \<Rightarrow> cstr \<Rightarrow> 'd exp_state \<Rightarrow> (int \<times> 'd exp_state \<times> cstr) option" where
  "exp_step env w rest st =
     (let keep = map_option (\<lambda>(ret, st1). (ret, st1, rest)) in
      if is_var_start (List.hd w) then keep (exp_operand env w st)
      else if c_isdigit (List.hd w) \<or> List.hd w = CHR 0x27 then keep (exp_operand env w st)
      else if is_letter (List.hd w) then exp_call env w rest st
      else if List.hd w = CHR ''('' then Some (0, st\<lparr>oper_stack := snd (push_oper w (oper_stack st))\<rparr>, rest)
      else if List.hd w = CHR '')'' then keep (exp_close env st)
      else if List.hd w \<in> set ''+-*/'' then keep (exp_operator env w st)
      else if w \<in> set rel_words then keep (exp_operator env w st)
      else if w = ''='' then Some (- 1, st, rest)
      else Some (0, st, rest))"

lemma check_exp_rest: "check_exp sent rest = Some (r, s, rest1) \<Longrightarrow> length rest1 \<le> length rest"
proof -
  assume c: "check_exp sent rest = Some (r, s, rest1)"
  show ?thesis
  proof (cases "\<exists>w rest2. get_one_word rest = Some (Some (w, rest2))")
    case True
    then obtain w rest2 where w: "get_one_word rest = Some (Some (w, rest2))" by blast
    then show ?thesis
      using c get_one_word_shorter [OF w] check_words_rest [of 1 "sent @ w" rest2 r s rest1]
      by (simp add: check_exp_def split: if_splits)
  next
    case False
    then show ?thesis using c by (auto simp: check_exp_def split: option.splits)
  qed
qed

lemma run_fun_rest: "run_fun env f rest v w = Some (r, v1, w1, rest1) \<Longrightarrow> length rest1 \<le> length rest"
  by (auto simp: run_fun_def bind_eq_Some_conv dest: check_exp_rest split: if_splits)

lemma exp_call_rest: "exp_call env w rest st = Some (r, st1, rest1) \<Longrightarrow> length rest1 \<le> length rest"
  by (auto simp: exp_call_def Let_def bind_eq_Some_conv dest: run_fun_rest split: if_splits)

lemma exp_step_rest: "exp_step env w rest st = Some (r, st1, rest1) \<Longrightarrow> length rest1 \<le> length rest"
  by (auto simp: exp_step_def Let_def split: if_splits dest: exp_call_rest)

text \<open>The loop over the words; a text that goes on with no word ends it like the end of the text.\<close>

function exp_loop :: "'d exp_env \<Rightarrow> cstr \<Rightarrow> 'd exp_state \<Rightarrow> (int \<times> 'd exp_state) option" where
  "exp_loop env rest st =
     (case get_one_word rest of
        None \<Rightarrow> None
      | Some None \<Rightarrow> Some (0, st)
      | Some (Some (w, rest1)) \<Rightarrow>
          (case exp_step env w rest1 st of
             None \<Rightarrow> None
           | Some (ret, st1, rest2) \<Rightarrow> if ret < 0 then Some (- 1, st1) else exp_loop env rest2 st1))"
  by pat_completeness auto

termination
proof (relation "measure (\<lambda>(env, rest, st). length rest)", goal_cases)
  case (2 env rest st wo wr w rest1 step ret z st1 rest2)
  then have "get_one_word rest = Some (Some (w, rest1))" "exp_step env w rest1 st = Some (ret, st1, rest2)"
    by simp_all
  then show ?case using get_one_word_shorter exp_step_rest by fastforce
qed simp

declare exp_loop.simps [simp del]

text \<open>The value of the expression as text.\<close>

fun node_text :: "'d exp_env \<Rightarrow> 'd node \<Rightarrow> cstr" where
  "node_text env (Dbl x) = fmt_dbl env 5 x"
| "node_text env (Num x) = fmt_lld x"
| "node_text env (Str s) = s"

definition init_exp_env :: "fun_world \<Rightarrow> 'd exp_state" where
  "init_exp_env fw = \<lparr>data_stack = [], oper_stack = [], exp_funs = fw\<rparr>"

definition compute_exp :: "'d exp_env \<Rightarrow> cstr \<Rightarrow> fun_world \<Rightarrow> (int \<times> cstr option \<times> fun_world) option" where
  "compute_exp env str fw =
     do {
       (ret, st) \<leftarrow> exp_loop env str (init_exp_env fw);
       if ret < 0 then Some (- 1, None, exp_funs st)
       else do {
         (ret2, ds, os) \<leftarrow> pop_while env (\<lambda>oper. True) (data_stack st) (oper_stack st);
         if ret2 < 0 then Some (- 1, None, exp_funs st)
         else
           (case ds of
              [] \<Rightarrow> Some (- 1, None, exp_funs st)
            | d # ds1 \<Rightarrow> Some (0, Some (node_text env d), exp_funs st))
       }
     }"

end
