(* ===== verification/Exp_Value.thy ===== *)
theory Exp_Value
  imports Pub_Computexp
begin

text \<open>
  What \<^verbatim>\<open>compute_exp\<close> of \<^verbatim>\<open>core/pub_computexp.c\<close> computes: expressions as trees, their text with any number of blanks
  between the words, and a recursive evaluator.  An expression \<open>parses\<close> when every operator is popped by what follows
  its operands and pops nothing of what stands before; then the stacks compute the value of the tree.  The properties
  say for which expressions that is so, and what becomes of others.
\<close>

section \<open>Expressions\<close>

datatype binop = Add | Sub | Mul | Div | Eq | Ne | Gt | Lt | Ge | Le | And | Or

fun op_word :: "binop \<Rightarrow> cstr" where
  "op_word Add = ''+''" | "op_word Sub = ''-''" | "op_word Mul = ''*''" | "op_word Div = ''/''"
| "op_word Eq = ''==''" | "op_word Ne = ''!=''" | "op_word Gt = ''>''" | "op_word Lt = ''<''"
| "op_word Ge = ''>=''" | "op_word Le = ''<=''" | "op_word And = ''&&''" | "op_word Or = ''||''"

datatype expr = Const cstr | Quoted cstr | Var cstr | Not expr | Bin binop expr expr | Paren expr

definition const_ok :: "cstr \<Rightarrow> bool" where
  "const_ok w \<longleftrightarrow> w \<noteq> [] \<and> c_isdigit (List.hd w) \<and> (\<forall>c \<in> set w. c_isdigit c \<or> c = CHR ''.'') \<and> length w \<le> 32"

definition var_ok :: "'d exp_env \<Rightarrow> cstr \<Rightarrow> bool" where
  "var_ok env w \<longleftrightarrow> w \<noteq> [] \<and> is_var_start (List.hd w) \<and> (\<forall>c \<in> set (tl w). name_char c) \<and> length w \<le> 31 \<and>
     length (snd (get_var env w)) < 2048"

fun expr_ok :: "'d exp_env \<Rightarrow> expr \<Rightarrow> bool" where
  "expr_ok env (Const w) \<longleftrightarrow> const_ok w"
| "expr_ok env (Quoted s) \<longleftrightarrow> CHR 0x27 \<notin> set s \<and> length s < 1022"
| "expr_ok env (Var w) \<longleftrightarrow> var_ok env w"
| "expr_ok env (Not e) \<longleftrightarrow> expr_ok env e"
| "expr_ok env (Bin p a b) \<longleftrightarrow> expr_ok env a \<and> expr_ok env b"
| "expr_ok env (Paren e) \<longleftrightarrow> expr_ok env e"

fun expr_words :: "expr \<Rightarrow> cstr list" where
  "expr_words (Const w) = [w]"
| "expr_words (Quoted s) = [CHR 0x27 # s @ [CHR 0x27]]"
| "expr_words (Var w) = [w]"
| "expr_words (Not e) = ''!'' # expr_words e"
| "expr_words (Bin p a b) = expr_words a @ op_word p # expr_words b"
| "expr_words (Paren e) = ''('' # expr_words e @ ['')'']"

definition spread :: "nat \<Rightarrow> cstr list \<Rightarrow> cstr" where
  "spread n ws = concat (map (\<lambda>w. replicate n (CHR '' '') @ w) ws)"

definition expr_text :: "nat \<Rightarrow> expr \<Rightarrow> cstr" where
  "expr_text n e = spread n (expr_words e)"

section \<open>Their values\<close>

definition flag :: "bool \<Rightarrow> 'd node" where
  "flag b = Num (if b then 1 else 0)"

text \<open>A negative number does not come back from its text.\<close>

definition int_result :: "int \<Rightarrow> 'd node option" where
  "int_result x = (if 0 \<le> x then Some (Num x) else None)"

definition dbl_result :: "'d exp_env \<Rightarrow> 'd \<Rightarrow> 'd node option" where
  "dbl_result env x =
     (let s = fmt_dbl env 6 x in
      if is_number s \<and> length s \<le> 32 then
        Some (if CHR ''.'' \<in> set s then Dbl (strtod env s) else Num (atoll s))
      else None)"

text \<open>Two numbers of which at least one is a floating point number, both as such.\<close>

fun as_dbls :: "'d exp_env \<Rightarrow> 'd node \<Rightarrow> 'd node \<Rightarrow> ('d \<times> 'd) option" where
  "as_dbls env (Dbl a) (Dbl b) = Some (a, b)"
| "as_dbls env (Num a) (Dbl b) = Some (dbl_of_int env a, b)"
| "as_dbls env (Dbl a) (Num b) = Some (a, dbl_of_int env b)"
| "as_dbls env _ _ = None"

fun rel_of :: "binop \<Rightarrow> int \<Rightarrow> int \<Rightarrow> bool" where
  "rel_of Eq a b \<longleftrightarrow> a = b"
| "rel_of Ne a b \<longleftrightarrow> a \<noteq> b"
| "rel_of Gt a b \<longleftrightarrow> a > b"
| "rel_of Lt a b \<longleftrightarrow> a < b"
| "rel_of Ge a b \<longleftrightarrow> a \<ge> b"
| "rel_of Le a b \<longleftrightarrow> a \<le> b"
| "rel_of _ a b \<longleftrightarrow> False"

text \<open>Strings compare as their bytes do, but for \<open>Lt\<close>.\<close>

definition str_rel :: "binop \<Rightarrow> cstr \<Rightarrow> cstr \<Rightarrow> bool" where
  "str_rel p a b \<longleftrightarrow> (if p = Lt then \<not> rel_of Lt (strcmp a b) 0 else rel_of p (strcmp a b) 0)"

definition dbl_diff :: "'d exp_env \<Rightarrow> 'd node \<Rightarrow> 'd node \<Rightarrow> int" where
  "dbl_diff env v w =
     (case (v, w) of
        (Dbl a, Dbl b) \<Rightarrow> comp_dbl env (dbl_sub env a b) (dbl_of_int env 0)
      | _ \<Rightarrow> (case as_dbls env v w of Some (a, b) \<Rightarrow> comp_dbl env a b | None \<Rightarrow> 0))"

fun arith :: "'d exp_env \<Rightarrow> (int \<Rightarrow> int \<Rightarrow> int) \<Rightarrow> ('d \<Rightarrow> 'd \<Rightarrow> 'd) \<Rightarrow> 'd node \<Rightarrow> 'd node \<Rightarrow> 'd node option" where
  "arith env fi fd (Num a) (Num b) = int_result (s64 (fi a b))"
| "arith env fi fd v w = (case as_dbls env v w of Some (a, b) \<Rightarrow> dbl_result env (fd a b) | None \<Rightarrow> None)"

fun zero_divisor :: "'d exp_env \<Rightarrow> 'd node \<Rightarrow> 'd node \<Rightarrow> bool" where
  "zero_divisor env (Num a) (Num b) \<longleftrightarrow> b = 0"
| "zero_divisor env (Dbl a) (Dbl b) \<longleftrightarrow> comp_dbl env b (dbl_of_int env 0) = 0"
| "zero_divisor env v w \<longleftrightarrow> False"

fun compare :: "'d exp_env \<Rightarrow> binop \<Rightarrow> 'd node \<Rightarrow> 'd node \<Rightarrow> 'd node option" where
  "compare env p (Num a) (Num b) = Some (flag (rel_of p a b))"
| "compare env p (Str a) (Str b) = Some (flag (str_rel p a b))"
| "compare env p v w = (if is_str v \<or> is_str w then None else Some (flag (rel_of p (dbl_diff env v w) 0)))"

fun join :: "'d node \<Rightarrow> 'd node \<Rightarrow> 'd node option" where
  "join (Str a) (Str b) = Some (Str (a @ b))"
| "join v w = None"

definition apply_op :: "'d exp_env \<Rightarrow> binop \<Rightarrow> 'd node \<Rightarrow> 'd node \<Rightarrow> 'd node option" where
  "apply_op env p v w =
     (case p of
        Add \<Rightarrow> if is_str v then join v w else arith env (+) (dbl_add env) v w
      | Sub \<Rightarrow> arith env (-) (dbl_sub env) v w
      | Mul \<Rightarrow> arith env (*) (dbl_mul env) v w
      | Div \<Rightarrow> if zero_divisor env v w then None else arith env c_div (dbl_div env) v w
      | And \<Rightarrow> if is_str v = is_str w then Some (flag (truth env v \<and> truth env w)) else None
      | Or \<Rightarrow> if is_str v = is_str w then Some (flag (truth env v \<or> truth env w)) else None
      | _ \<Rightarrow> compare env p v w)"

fun eval :: "'d exp_env \<Rightarrow> expr \<Rightarrow> 'd node option" where
  "eval env (Const w) = Some (if CHR ''.'' \<in> set w then Dbl (strtod env w) else Num (atoll w))"
| "eval env (Quoted s) = Some (Str s)"
| "eval env (Var w) = Some (Str (take (nat (fst (get_var env w))) (snd (get_var env w))))"
| "eval env (Not e) = map_option (\<lambda>v. flag (\<not> truth env v)) (eval env e)"
| "eval env (Bin p a b) = do { v \<leftarrow> eval env a; w \<leftarrow> eval env b; apply_op env p v w }"
| "eval env (Paren e) = eval env e"

section \<open>Which texts have that structure\<close>

text \<open>\<open>t\<close> is the word behind the expression (None at the end of the text), \<open>os\<close> the operators waiting before it.\<close>

definition closes :: "cstr option \<Rightarrow> cstr \<Rightarrow> bool" where
  "closes t oper \<longleftrightarrow> (case t of None \<Rightarrow> True | Some w \<Rightarrow> if w = '')'' then oper \<noteq> ''('' else pops w oper)"

definition lets :: "cstr list \<Rightarrow> cstr \<Rightarrow> bool" where
  "lets os w \<longleftrightarrow> os = [] \<or> \<not> pops w (List.hd os)"

fun parses :: "cstr list \<Rightarrow> expr \<Rightarrow> cstr option \<Rightarrow> bool" where
  "parses os (Paren e) t \<longleftrightarrow> parses (''('' # os) e (Some '')'')"
| "parses os (Not e) t \<longleftrightarrow> lets os ''!'' \<and> parses (''!'' # os) e t \<and> closes t ''!''"
| "parses os (Bin p a b) t \<longleftrightarrow> parses os a (Some (op_word p)) \<and> lets os (op_word p) \<and>
     parses (op_word p # os) b t \<and> closes t (op_word p)"
| "parses os e t \<longleftrightarrow> True"

section \<open>Words\<close>

definition op_words :: "cstr list" where
  "op_words = [''+'', ''-'', ''*'', ''/'', ''=='', ''!='', ''>'', ''<'', ''>='', ''<='', ''&&'', ''||'', ''!'']"

definition word_ok :: "cstr \<Rightarrow> bool" where
  "word_ok w \<longleftrightarrow> w \<in> set op_words \<or> w = ''('' \<or> w = '')'' \<or> const_ok w \<or>
     (\<exists>s. w = CHR 0x27 # s @ [CHR 0x27] \<and> CHR 0x27 \<notin> set s \<and> length s < 1022) \<or>
     (w \<noteq> [] \<and> is_var_start (List.hd w) \<and> (\<forall>c \<in> set (tl w). name_char c) \<and> length w \<le> 31)"

text \<open>The characters that may follow a word without a blank.\<close>

definition follow :: "cstr \<Rightarrow> char \<Rightarrow> bool" where
  "follow w c \<longleftrightarrow>
     (if is_var_start (List.hd w) then \<not> name_char c \<and> c \<noteq> CHR ''(''
      else if c_isdigit (List.hd w) then \<not> c_isdigit c \<and> c \<noteq> CHR ''.''
      else w \<in> set [''>'', ''<'', ''!''] \<longrightarrow> c \<noteq> CHR ''='')"

fun words_ok :: "nat \<Rightarrow> cstr list \<Rightarrow> bool" where
  "words_ok n [] \<longleftrightarrow> True"
| "words_ok n (w # ws) \<longleftrightarrow> word_ok w \<and> (n = 0 \<and> ws \<noteq> [] \<longrightarrow> follow w (List.hd (List.hd ws))) \<and> words_ok n ws"

section \<open>The operators\<close>

lemma is_number_digit: "c_isdigit c \<Longrightarrow> is_number (c # cs)"
  by (simp add: is_number_def is_digit_at_def chr_at_def c_isdigit_def)

lemma push_flag_ok: "push_flag env b ds = Some (0, flag b # ds)"
proof -
  have "atoll ''1'' = 1" "atoll ''0'' = 0"
    by (simp_all add: atoll_digits c_isdigit_def sat64_def digits_val_def c_digit_def)
  then show ?thesis
    by (auto simp: push_flag_def push_print_def push_result_def push_data_def is_number_digit c_isdigit_def flag_def)
qed

lemma push_int_ok: "0 \<le> x \<Longrightarrow> x < 2 ^ 63 \<Longrightarrow> push_int env x ds = Some (0, Num x # ds)"
proof -
  assume x: "0 \<le> x" "x < 2 ^ 63"
  obtain c cs where ds: "nat_digits (nat x) = c # cs" by (cases "nat_digits (nat x)") auto
  have digits: "\<forall>d \<in> set (c # cs). c_isdigit d" using nat_digits_isdigit [of "nat x"] ds by simp
  have "nat x < 10 ^ 19" using x by simp
  then have "length (c # cs) \<le> 19" using nat_digits_length [of 19 "nat x"] ds by simp
  moreover have "atoll (c # cs) = x"
    using x digits atoll_digits [of "c # cs"] digits_val_nat_digits [of "nat x"] ds by (simp add: sat64_def)
  moreover have "CHR ''.'' \<notin> set (c # cs)" using digits by (auto simp: c_isdigit_def)
  ultimately show ?thesis
    using x ds digits by (simp add: push_int_def fmt_lld_def push_print_def push_result_def push_data_def is_number_digit)
qed

lemma push_int_result: "int_result (s64 x) = Some v \<Longrightarrow> push_int env (s64 x) ds = Some (0, v # ds)"
proof -
  have "s64 x < 2 ^ 63" using signed_take_bit_int_less_exp [of 63 x] by (simp add: s64_def)
  then show "int_result (s64 x) = Some v \<Longrightarrow> push_int env (s64 x) ds = Some (0, v # ds)"
    using push_int_ok by (auto simp: int_result_def split: if_splits)
qed

lemma push_dbl_result: "dbl_result env x = Some v \<Longrightarrow> push_dbl env x ds = Some (0, v # ds)"
  by (auto simp: dbl_result_def push_dbl_def push_print_def push_result_def push_data_def Let_def split: if_splits)

lemma push_quoted: "push_data env (CHR 0x27 # s @ [CHR 0x27]) ds = Some (0, Str s # ds)"
  by (simp add: push_data_def is_number_def is_digit_at_def chr_at_def)

lemma push_joined: "push_data env (CHR 0x27 # a @ b @ [CHR 0x27]) ds = Some (0, Str (a @ b) # ds)"
  using push_quoted [of env "a @ b"] by simp

lemma compute_op:
  assumes "apply_op env p v w = Some x"
  shows "compute_base env (op_word p) (w # v # ds) = Some (0, x # ds)"
  using assms
  by (cases p; cases v; cases w)
    (auto simp: apply_op_def compute_base_def push_int_result push_dbl_result push_flag_ok push_result_def push_joined
      compute_eq_def compute_ne_def compute_gt_def compute_lt_def compute_ge_def compute_le_def compute_and_def compute_or_def
      str_rel_def dbl_diff_def split: if_splits)

lemma compute_not_ok: "compute_base env ''!'' (v # ds) = Some (0, flag (\<not> truth env v) # ds)"
  by (cases v) (simp_all add: compute_base_def push_flag_ok)

section \<open>The words of a text\<close>

lemma dropWhile_blanks:
  "c \<noteq> CHR '' '' \<Longrightarrow> dropWhile (\<lambda>c. c = CHR '' '') (replicate n (CHR '' '') @ c # cs) = c # cs"
  by (induction n) auto

lemma get_one_word_blanks: "w \<noteq> [] \<Longrightarrow> List.hd w \<noteq> CHR '' '' \<Longrightarrow>
    get_one_word (replicate n (CHR '' '') @ w @ rest) = get_one_word (w @ rest)"
  by (cases w) (simp_all add: get_one_word_def dropWhile_blanks)

lemma name_word_whole:
  "(\<forall>d \<in> set cs. name_char d) \<Longrightarrow> (rest = [] \<or> (\<not> name_char (List.hd rest) \<and> List.hd rest \<noteq> CHR ''('')) \<Longrightarrow>
    name_word True False (c # cs @ rest) = (c # cs, rest, True)"
proof (induction cs arbitrary: c)
  case Nil
  then show ?case by (cases rest) auto
next
  case (Cons d cs)
  have "d \<noteq> CHR ''(''" "d \<noteq> CHR '')''"
    using Cons.prems by (auto simp: name_char_def is_letter_def c_isdigit_def)
  with Cons show ?case by simp
qed

lemma span_whole:
  "(\<forall>d \<in> set cs. p d) \<Longrightarrow> rest = [] \<or> \<not> p (List.hd rest) \<Longrightarrow> takeWhile p (cs @ rest) = cs \<and> dropWhile p (cs @ rest) = rest"
  by (cases rest) auto

lemma quote_whole:
  "CHR 0x27 \<notin> set s \<Longrightarrow> takeWhile (\<lambda>d. d \<noteq> CHR 0x27) (s @ CHR 0x27 # rest) = s \<and>
    dropWhile (\<lambda>d. d \<noteq> CHR 0x27) (s @ CHR 0x27 # rest) = CHR 0x27 # rest"
  by (induction s) auto

text \<open>Which kind of word a character starts.\<close>

lemma start_chars:
  "c_isdigit c \<Longrightarrow> \<not> is_letter c \<and> \<not> is_var_start c \<and> c \<notin> set ''()+-*/,'' \<and> c \<notin> set ''=><!'' \<and> c \<noteq> CHR ''&'' \<and>
    c \<noteq> CHR ''|'' \<and> c \<noteq> CHR '' ''"
  "is_var_start c \<Longrightarrow> c \<noteq> CHR '' ''"
  by (auto simp: is_letter_def is_var_start_def c_isdigit_def)

lemma get_operator:
  "w \<in> set op_words \<Longrightarrow> rest = [] \<or> follow w (List.hd rest) \<Longrightarrow> get_one_word (w @ rest) = Some (Some (w, rest))"
  by (cases rest) (auto simp: op_words_def get_one_word_def two_chars_def is_letter_def is_var_start_def c_isdigit_def follow_def)

lemma get_const:
  assumes "const_ok w" and f: "rest = [] \<or> follow w (List.hd rest)"
  shows "get_one_word (w @ rest) = Some (Some (w, rest))"
proof -
  obtain c cs where w: "w = c # cs" "c_isdigit c" "\<forall>d \<in> set cs. c_isdigit d \<or> d = CHR ''.''" "length cs \<le> 31"
    using assms(1) by (cases w) (auto simp: const_ok_def)
  have "rest = [] \<or> \<not> (c_isdigit (List.hd rest) \<or> List.hd rest = CHR ''.'')"
    using f w start_chars(1) [OF w(2)] by (auto simp: follow_def)
  then show ?thesis
    using w start_chars(1) [OF w(2)] span_whole [of cs "\<lambda>d. c_isdigit d \<or> d = CHR ''.''" rest]
    by (simp add: get_one_word_def word_of_def)
qed

lemma get_name:
  assumes w: "w \<noteq> []" "is_var_start (List.hd w)" "\<forall>c \<in> set (tl w). name_char c" "length w \<le> 31"
    and f: "rest = [] \<or> follow w (List.hd rest)"
  shows "get_one_word (w @ rest) = Some (Some (w, rest))"
proof -
  obtain c cs where cs: "w = c # cs" using w(1) by (cases w) auto
  have "rest = [] \<or> (\<not> name_char (List.hd rest) \<and> List.hd rest \<noteq> CHR ''('')"
    using f w cs by (auto simp: follow_def)
  then show ?thesis
    using w cs start_chars(2) [of c] name_word_whole [of cs rest c] by (simp add: get_one_word_def word_of_def)
qed

lemma get_one_word_ok:
  assumes "word_ok w" and "rest = [] \<or> follow w (List.hd rest)"
  shows "get_one_word (w @ rest) = Some (Some (w, rest))"
  using assms(1) unfolding word_ok_def
proof (elim disjE exE conjE)
  show ?thesis if "w \<in> set op_words" using get_operator [OF that assms(2)] .
  show ?thesis if "const_ok w" using get_const [OF that assms(2)] .
  show ?thesis if "w = ''(''" using that by (simp add: get_one_word_def is_letter_def is_var_start_def)
  show ?thesis if "w = '')''" using that by (simp add: get_one_word_def is_letter_def is_var_start_def)
  show ?thesis if "w = CHR 0x27 # s @ [CHR 0x27]" "CHR 0x27 \<notin> set s" "length s < 1022" for s
    using that quote_whole [OF that(2), of rest]
    by (simp add: get_one_word_def is_letter_def is_var_start_def c_isdigit_def word_of_def)
  show ?thesis if "w \<noteq> []" "is_var_start (List.hd w)" "\<forall>c \<in> set (tl w). name_char c" "length w \<le> 31"
    using get_name [OF that assms(2)] .
qed

lemma word_ok_start: "word_ok w \<Longrightarrow> w \<noteq> [] \<and> List.hd w \<noteq> CHR '' '' \<and> \<not> is_letter (List.hd w)"
  by (auto simp: word_ok_def op_words_def const_ok_def is_letter_def is_var_start_def c_isdigit_def)

section \<open>Runs over words\<close>

text \<open>The loop with the words cut already, and with the computation of what is left at the end.\<close>

fun exp_words :: "'d exp_env \<Rightarrow> cstr list \<Rightarrow> 'd exp_state \<Rightarrow> (int \<times> 'd exp_state) option" where
  "exp_words env [] st = Some (0, st)"
| "exp_words env (w # ws) st =
     (case exp_step env w [] st of
        None \<Rightarrow> None
      | Some (ret, st1, _) \<Rightarrow> if ret < 0 then Some (- 1, st1) else exp_words env ws st1)"

definition exp_flush :: "'d exp_env \<Rightarrow> fun_world \<Rightarrow> 'd node list \<Rightarrow> cstr list \<Rightarrow> (int \<times> cstr option \<times> fun_world) option" where
  "exp_flush env fw ds os =
     do {
       (ret2, ds1, os1) \<leftarrow> pop_while env (\<lambda>oper. True) ds os;
       if ret2 < 0 then Some (- 1, None, fw)
       else (case ds1 of [] \<Rightarrow> Some (- 1, None, fw) | d # ds2 \<Rightarrow> Some (0, Some (node_text env d), fw))
     }"

definition exp_finish :: "'d exp_env \<Rightarrow> (int \<times> 'd exp_state) option \<Rightarrow> (int \<times> cstr option \<times> fun_world) option" where
  "exp_finish env res =
     do {
       (ret, st) \<leftarrow> res;
       if ret < 0 then Some (- 1, None, exp_funs st) else exp_flush env (exp_funs st) (data_stack st) (oper_stack st)
     }"

lemma compute_exp_finish: "compute_exp env str fw = exp_finish env (exp_loop env str (init_exp_env fw))"
  unfolding compute_exp_def exp_finish_def exp_flush_def ..

lemma exp_flush_pop:
  "compute_base env oper ds = Some (0, ds1) \<Longrightarrow> exp_flush env fw ds (oper # os) = exp_flush env fw ds1 os"
  by (simp add: exp_flush_def)

lemma map_option_rest:
  "map_option (\<lambda>(ret, st1, _). (ret, st1, rest)) (map_option (\<lambda>(ret, st1). (ret, st1, z)) x) =
    map_option (\<lambda>(ret, st1). (ret, st1, rest)) x"
  by (cases x) auto

lemma exp_step_rest_free:
  "\<not> is_letter (List.hd w) \<Longrightarrow> exp_step env w rest st = map_option (\<lambda>(ret, st1, _). (ret, st1, rest)) (exp_step env w [] st)"
  unfolding exp_step_def Let_def
  by (simp add: if_distrib [where f = "map_option (\<lambda>(ret, st1, _). (ret, st1, rest))"] map_option_rest split del: if_split
      cong: if_cong)

lemma spread_Cons: "spread n (w # ws) = replicate n (CHR '' '') @ w @ spread n ws"
  by (simp add: spread_def)

lemma exp_loop_words: "words_ok n ws \<Longrightarrow> exp_loop env (spread n ws) st = exp_words env ws st"
proof (induction ws arbitrary: st)
  case Nil
  then show ?case by (subst exp_loop.simps) (simp add: spread_def get_one_word_def)
next
  case (Cons w ws)
  have w: "w \<noteq> []" "List.hd w \<noteq> CHR '' ''" "\<not> is_letter (List.hd w)" using word_ok_start [of w] Cons.prems by auto
  have blank: "follow w (CHR '' '')"
    using Cons.prems by (auto simp: follow_def name_char_def is_letter_def c_isdigit_def)
  have "spread n ws = [] \<or> follow w (List.hd (spread n ws))"
  proof (cases ws)
    case Nil
    then show ?thesis by (simp add: spread_def)
  next
    case (Cons v vs)
    then have "v \<noteq> []" using Cons.prems word_ok_start [of v] by auto
    then show ?thesis using Cons Cons.prems blank by (cases n) (auto simp: spread_Cons hd_append)
  qed
  then have "get_one_word (spread n (w # ws)) = Some (Some (w, spread n ws))"
    using Cons.prems w get_one_word_ok [of w "spread n ws"] by (simp add: spread_Cons get_one_word_blanks)
  then show ?case
    using Cons.IH Cons.prems exp_step_rest_free [OF w(3), of env "spread n ws" st]
    by (subst exp_loop.simps) (auto split: option.splits)
qed

subsection \<open>The words of an expression\<close>

definition operand_start :: "char \<Rightarrow> bool" where
  "operand_start c \<longleftrightarrow> c_isdigit c \<or> is_var_start c \<or> c = CHR 0x27 \<or> c = CHR ''('' \<or> c = CHR ''!''"

definition closers :: "cstr set" where
  "closers = insert '')'' (set op_words - {''!''})"

lemma op_word_closer: "op_word p \<in> closers" by (cases p) (simp_all add: closers_def op_words_def)

lemma op_word_ok: "op_word p \<in> set op_words" by (cases p) (simp_all add: op_words_def)

lemma expr_start: "expr_ok env e \<Longrightarrow> expr_words e \<noteq> [] \<and> operand_start (List.hd (List.hd (expr_words e)))"
proof (induction e)
  case (Bin p a b)
  then show ?case by (cases "expr_words a") auto
qed (auto simp: operand_start_def const_ok_def var_ok_def)

lemma follow_op:
  assumes "w \<in> set op_words" and "operand_start c"
  shows "follow w c"
proof -
  have "\<forall>w \<in> set op_words. \<not> is_var_start (List.hd w) \<and> \<not> c_isdigit (List.hd w)"
    by (simp add: op_words_def is_var_start_def c_isdigit_def)
  moreover have "c \<noteq> CHR ''=''" using assms(2) by (auto simp: operand_start_def is_var_start_def c_isdigit_def)
  ultimately show ?thesis using assms(1) by (simp add: follow_def)
qed

lemma closer_start: "v \<in> closers \<Longrightarrow> \<not> name_char (List.hd v) \<and> List.hd v \<noteq> CHR ''('' \<and> v \<noteq> []"
proof -
  assume "v \<in> closers"
  then have "v \<noteq> [] \<and> List.hd v \<in> set '')+-*/=!><&|''" by (auto simp: closers_def op_words_def)
  then show ?thesis by (auto simp: name_char_def is_letter_def c_isdigit_def)
qed

lemma follow_closer:
  assumes "v \<in> closers" and "w \<notin> set [''>'', ''<'', ''!'']"
  shows "follow w (List.hd v)"
  using closer_start [OF assms(1)] assms(2) by (simp add: follow_def name_char_def)

lemma operand_words_ok:
  assumes "word_ok w" "w \<notin> set op_words" "words_ok n ws" "ws = [] \<or> List.hd ws \<in> closers"
  shows "words_ok n (w # ws)"
  using assms follow_closer [of "List.hd ws" w] by (auto simp: op_words_def)

lemma operator_words_ok:
  assumes "w \<in> set op_words" "words_ok n ws" "ws \<noteq> []" "operand_start (List.hd (List.hd ws))"
  shows "words_ok n (w # ws)"
  using assms follow_op by (auto simp: word_ok_def)

lemma expr_words_ok:
  "expr_ok env e \<Longrightarrow> words_ok n ws \<Longrightarrow> ws = [] \<or> List.hd ws \<in> closers \<Longrightarrow> words_ok n (expr_words e @ ws)"
proof (induction e arbitrary: ws)
  case (Const w)
  have "w \<notin> set op_words" using Const.prems(1) by (auto simp: const_ok_def op_words_def c_isdigit_def)
  then show ?case using operand_words_ok [of w] Const.prems by (simp add: word_ok_def)
next
  case (Quoted s)
  let ?w = "CHR 0x27 # s @ [CHR 0x27]"
  have "?w \<notin> set op_words" by (simp add: op_words_def)
  moreover have "word_ok ?w" using Quoted.prems(1) by (auto simp: word_ok_def)
  ultimately show ?case using operand_words_ok [of ?w] Quoted.prems by simp
next
  case (Var w)
  have "w \<notin> set op_words" using Var.prems(1) by (auto simp: var_ok_def op_words_def is_var_start_def)
  then show ?case using operand_words_ok [of w] Var.prems by (simp add: word_ok_def var_ok_def)
next
  case (Not e)
  have "words_ok n (expr_words e @ ws)" using Not by simp
  then show ?case
    using operator_words_ok [of "''!''" n "expr_words e @ ws"] expr_start [of env e] Not.prems(1) by (simp add: op_words_def)
next
  case (Bin p a b)
  have b: "words_ok n (expr_words b @ ws)" using Bin by simp
  have "words_ok n (op_word p # expr_words b @ ws)"
    using operator_words_ok [OF op_word_ok b] expr_start [of env b] Bin.prems(1) by simp
  then show ?case using Bin.IH(1) [of "op_word p # expr_words b @ ws"] Bin.prems(1) op_word_closer by simp
next
  case (Paren e)
  have close: "words_ok n ('')'' # ws)"
    using operand_words_ok [of "'')''" n ws] Paren.prems by (simp add: word_ok_def op_words_def)
  have "words_ok n (expr_words e @ '')'' # ws)"
    using Paren.IH [of "'')'' # ws"] Paren.prems close by (simp add: closers_def)
  moreover have "follow ''(''  c" for c by (simp add: follow_def is_var_start_def c_isdigit_def)
  ultimately show ?case by (simp add: word_ok_def)
qed

section \<open>The stacks compute the tree\<close>

definition exp_run :: "'d exp_env \<Rightarrow> cstr list \<Rightarrow> 'd exp_state \<Rightarrow> (int \<times> cstr option \<times> fun_world) option" where
  "exp_run env ws st = exp_finish env (exp_words env ws st)"

definition goes_on :: "cstr option \<Rightarrow> cstr list \<Rightarrow> bool" where
  "goes_on t ws \<longleftrightarrow> (case t of None \<Rightarrow> ws = [] | Some w \<Rightarrow> w \<in> closers \<and> ws \<noteq> [] \<and> List.hd ws = w)"

lemma exp_run_Cons:
  "exp_step env w [] st = Some (0, st1, r) \<Longrightarrow> exp_run env (w # ws) st = exp_run env ws st1"
  by (simp add: exp_run_def)

lemma exp_run_same:
  "exp_step env w [] st = exp_step env w [] st1 \<Longrightarrow> exp_run env (w # ws) st = exp_run env (w # ws) st1"
  by (simp add: exp_run_def)

lemma op_char:
  assumes "c \<in> set ''+-*/=!><&|''"
  shows "\<not> is_var_start c \<and> \<not> c_isdigit c \<and> c \<noteq> CHR 0x27 \<and> \<not> is_letter c \<and> c \<noteq> CHR ''('' \<and> c \<noteq> CHR '')''"
proof -
  have "\<forall>c \<in> set ''+-*/=!><&|''. \<not> is_var_start c \<and> \<not> c_isdigit c \<and> c \<noteq> CHR 0x27 \<and> \<not> is_letter c \<and> c \<noteq> CHR ''('' \<and>
      c \<noteq> CHR '')''"
    by (simp add: is_var_start_def c_isdigit_def is_letter_def)
  then show ?thesis using assms by blast
qed

lemma step_operator:
  assumes "w \<in> set op_words"
  shows "exp_step env w [] st = map_option (\<lambda>(ret, st1). (ret, st1, [])) (exp_operator env w st)"
proof -
  have "List.hd w \<in> set ''+-*/=!><&|''" using assms by (auto simp: op_words_def)
  from op_char [OF this] have c: "\<not> is_var_start (List.hd w)" "\<not> c_isdigit (List.hd w)" "List.hd w \<noteq> CHR 0x27"
      "\<not> is_letter (List.hd w)" "List.hd w \<noteq> CHR ''(''" "List.hd w \<noteq> CHR '')''"
    by simp_all
  show ?thesis
  proof (cases "List.hd w \<in> set ''+-*/''")
    case True
    then show ?thesis by (simp only: exp_step_def Let_def c if_True if_False simp_thms)
  next
    case False
    have "\<forall>w \<in> set op_words. List.hd w \<in> set ''+-*/'' \<or> w \<in> set rel_words" by (simp add: op_words_def rel_words_def)
    then have "w \<in> set rel_words" using assms False by blast
    moreover have "\<not> (c_isdigit (List.hd w) \<or> List.hd w = CHR 0x27)" using c by blast
    ultimately show ?thesis unfolding exp_step_def Let_def by (simp only: c False if_True if_False not_False_eq_True)
  qed
qed

lemma step_close: "exp_step env '')'' [] st = map_option (\<lambda>(ret, st1). (ret, st1, [])) (exp_close env st)"
  by (simp add: exp_step_def Let_def is_var_start_def c_isdigit_def is_letter_def)

lemma run_pop:
  assumes t: "goes_on t ws" and c: "closes t oper" and oper: "oper \<in> set op_words"
    and base: "compute_base env oper ds = Some (0, ds1)"
  shows "exp_run env ws (st\<lparr>data_stack := ds, oper_stack := oper # os\<rparr>) =
    exp_run env ws (st\<lparr>data_stack := ds1, oper_stack := os\<rparr>)"
proof (cases t)
  case None
  then show ?thesis using t exp_flush_pop [OF base] by (simp add: goes_on_def exp_run_def exp_finish_def)
next
  case (Some w)
  then obtain ws1 where ws: "ws = w # ws1" using t by (cases ws) (auto simp: goes_on_def)
  show ?thesis
  proof (cases "w = '')''")
    case True
    have "chr_at 0 oper \<noteq> 40" using oper by (auto simp: op_words_def chr_at_def)
    then have "exp_step env w [] (st\<lparr>data_stack := ds, oper_stack := oper # os\<rparr>) =
        exp_step env w [] (st\<lparr>data_stack := ds1, oper_stack := os\<rparr>)"
      using True base
      by (cases "pop_while env (\<lambda>oper. chr_at 0 oper \<noteq> 40) ds1 os") (auto simp: step_close exp_close_def)
    then show ?thesis unfolding ws by (rule exp_run_same)
  next
    case False
    then have "w \<in> set op_words" using Some t by (auto simp: goes_on_def closers_def)
    then have "exp_step env w [] (st\<lparr>data_stack := ds, oper_stack := oper # os\<rparr>) =
        exp_step env w [] (st\<lparr>data_stack := ds1, oper_stack := os\<rparr>)"
      using Some False c base
      by (cases "pop_while env (pops w) ds1 os") (auto simp: step_operator exp_operator_def closes_def)
    then show ?thesis unfolding ws by (rule exp_run_same)
  qed
qed

lemma run_push:
  assumes "w \<in> set op_words" and "lets (oper_stack st) w"
  shows "exp_run env (w # ws) st = exp_run env ws (st\<lparr>oper_stack := w # oper_stack st\<rparr>)"
proof -
  have "pop_while env (pops w) (data_stack st) (oper_stack st) = Some (0, data_stack st, oper_stack st)"
    using assms(2) by (cases "oper_stack st") (simp_all add: lets_def)
  then show ?thesis using assms(1) by (intro exp_run_Cons) (simp add: step_operator exp_operator_def push_oper_def)
qed

lemma run_open: "exp_run env (''('' # ws) st = exp_run env ws (st\<lparr>oper_stack := ''('' # oper_stack st\<rparr>)"
  by (rule exp_run_Cons) (simp add: exp_step_def Let_def is_var_start_def c_isdigit_def is_letter_def push_oper_def)

lemma run_close: "oper_stack st = ''('' # os \<Longrightarrow> exp_run env ('')'' # ws) st = exp_run env ws (st\<lparr>oper_stack := os\<rparr>)"
  by (rule exp_run_Cons) (simp add: step_close exp_close_def chr_at_def)

lemma run_operand:
  assumes "is_var_start (List.hd w) \<or> c_isdigit (List.hd w) \<or> List.hd w = CHR 0x27"
    and "push_data env w (data_stack st) = Some (0, v # data_stack st)"
  shows "exp_run env (w # ws) st = exp_run env ws (st\<lparr>data_stack := v # data_stack st\<rparr>)"
  using assms by (intro exp_run_Cons) (auto simp: exp_step_def Let_def exp_operand_def)

lemma push_const:
  assumes "const_ok w"
  shows "push_data env w ds = Some (0, (if CHR ''.'' \<in> set w then Dbl (strtod env w) else Num (atoll w)) # ds)"
proof -
  obtain c cs where "w = c # cs" "c_isdigit c" using assms by (cases w) (auto simp: const_ok_def)
  then show ?thesis using assms is_number_digit [of c cs] by (simp add: push_data_def const_ok_def)
qed

lemma push_var:
  assumes "var_ok env w"
  shows "push_data env w ds = Some (0, Str (take (nat (fst (get_var env w))) (snd (get_var env w))) # ds)"
proof -
  obtain c cs where w: "w = c # cs" "c = CHR ''#'' \<or> c = CHR ''$''"
    using assms by (cases w) (auto simp: var_ok_def is_var_start_def)
  then show ?thesis
    using assms by (auto simp: push_data_def is_number_def is_digit_at_def chr_at_def loc_get_data_len_def var_ok_def
        Let_def case_prod_beta)
qed

lemma exp_run_tree:
  "parses (oper_stack st) e t \<Longrightarrow> expr_ok env e \<Longrightarrow> eval env e = Some v \<Longrightarrow> goes_on t ws \<Longrightarrow>
    exp_run env (expr_words e @ ws) st = exp_run env ws (st\<lparr>data_stack := v # data_stack st\<rparr>)"
proof (induction e arbitrary: st t v ws)
  case (Const w)
  then show ?case using run_operand [of w env st v ws] push_const [of w] by (auto simp: const_ok_def)
next
  case (Quoted s)
  then show ?case using run_operand [of "CHR 0x27 # s @ [CHR 0x27]" env st v ws] push_quoted by auto
next
  case (Var w)
  then show ?case using run_operand [of w env st v ws] push_var [of env w] by (auto simp: var_ok_def)
next
  case (Not e)
  obtain x where x: "eval env e = Some x" "v = flag (\<not> truth env x)" using Not.prems(3) by auto
  let ?st = "st\<lparr>oper_stack := ''!'' # oper_stack st\<rparr>"
  have nt: "''!'' \<in> set op_words" by (simp add: op_words_def)
  have "exp_run env (expr_words (Not e) @ ws) st = exp_run env (expr_words e @ ws) ?st"
    using run_push [OF nt, of st env "expr_words e @ ws"] Not.prems(1) by simp
  also have "\<dots> = exp_run env ws (?st\<lparr>data_stack := x # data_stack ?st\<rparr>)"
    using Not.IH [of ?st t x ws] Not.prems x by simp
  also have "\<dots> = exp_run env ws (st\<lparr>data_stack := x # data_stack st, oper_stack := ''!'' # oper_stack st\<rparr>)" by (cases st) simp
  also have "\<dots> = exp_run env ws (st\<lparr>data_stack := v # data_stack st, oper_stack := oper_stack st\<rparr>)"
    unfolding x(2) using Not.prems(1) by (intro run_pop [OF Not.prems(4) _ nt compute_not_ok]) simp
  finally show ?case by simp
next
  case (Bin p a b)
  obtain x y where xy: "eval env a = Some x" "eval env b = Some y" "apply_op env p x y = Some v"
    using Bin.prems(3) by (auto simp: bind_eq_Some_conv)
  let ?w = "op_word p"
  let ?st1 = "st\<lparr>data_stack := x # data_stack st\<rparr>"
  let ?st2 = "?st1\<lparr>oper_stack := ?w # oper_stack st\<rparr>"
  have "exp_run env (expr_words (Bin p a b) @ ws) st = exp_run env (?w # expr_words b @ ws) ?st1"
    using Bin.IH(1) [of st "Some ?w" x "?w # expr_words b @ ws"] Bin.prems xy op_word_closer by (simp add: goes_on_def)
  also have "\<dots> = exp_run env (expr_words b @ ws) ?st2"
    using run_push [OF op_word_ok, of ?st1 p env "expr_words b @ ws"] Bin.prems(1) by simp
  also have "\<dots> = exp_run env ws (?st2\<lparr>data_stack := y # data_stack ?st2\<rparr>)"
    using Bin.IH(2) [of ?st2 t y ws] Bin.prems xy by simp
  also have "\<dots> = exp_run env ws (st\<lparr>data_stack := y # x # data_stack st, oper_stack := ?w # oper_stack st\<rparr>)" by (cases st) simp
  also have "\<dots> = exp_run env ws (st\<lparr>data_stack := v # data_stack st, oper_stack := oper_stack st\<rparr>)"
    using Bin.prems(1) by (intro run_pop [OF Bin.prems(4) _ op_word_ok compute_op [OF xy(3)]]) simp
  finally show ?case by simp
next
  case (Paren e)
  let ?st = "st\<lparr>oper_stack := ''('' # oper_stack st\<rparr>"
  have "exp_run env (expr_words (Paren e) @ ws) st = exp_run env (expr_words e @ '')'' # ws) ?st"
    by (simp add: run_open)
  also have "\<dots> = exp_run env ('')'' # ws) (?st\<lparr>data_stack := v # data_stack ?st\<rparr>)"
    using Paren.IH [of ?st "Some '')''" v "'')'' # ws"] Paren.prems by (simp add: goes_on_def closers_def)
  also have "\<dots> = exp_run env ws (st\<lparr>data_stack := v # data_stack st\<rparr>)"
    using run_close [of "?st\<lparr>data_stack := v # data_stack ?st\<rparr>" "oper_stack st"] by simp
  finally show ?case .
qed

lemma tree_value:
  assumes "parses [] e None" and "expr_ok env e" and "eval env e = Some v"
  shows "compute_exp env (expr_text n e) fw = Some (0, Some (node_text env v), fw)"
proof -
  have "words_ok n (expr_words e)" using expr_words_ok [of env e n "[]"] assms(2) by simp
  then have "compute_exp env (expr_text n e) fw = exp_run env (expr_words e) (init_exp_env fw)"
    by (simp add: compute_exp_finish expr_text_def exp_loop_words exp_run_def)
  also have "\<dots> = exp_run env [] ((init_exp_env fw)\<lparr>data_stack := [v]\<rparr>)"
    using exp_run_tree [of "init_exp_env fw" e None env v "[]"] assms by (simp add: goes_on_def init_exp_env_def)
  also have "\<dots> = Some (0, Some (node_text env v), fw)"
    by (simp add: exp_run_def exp_finish_def exp_flush_def init_exp_env_def)
  finally show ?thesis .
qed

end
