(* ===== verification/Exp_Props.thy ===== *)
theory Exp_Props
  imports Exp_Value
begin

text \<open>
  The properties of the evaluator \<^verbatim>\<open>compute_exp\<close>: bracketed expressions, sums of products and conditions have the
  values their structure says; operands keep to the types of the operators; and the expressions that are computed
  differently from what they mean.
\<close>

section \<open>Brackets everywhere\<close>

fun brackets :: "expr \<Rightarrow> expr" where
  "brackets (Bin p a b) = Paren (Bin p (brackets a) (brackets b))"
| "brackets (Not e) = Paren (Not (brackets e))"
| "brackets (Paren e) = Paren (brackets e)"
| "brackets e = e"

lemma brackets_ok [simp]: "expr_ok env (brackets e) \<longleftrightarrow> expr_ok env e"
  by (induction e) auto

lemma brackets_eval [simp]: "eval env (brackets e) = eval env e"
  by (induction e) auto

lemma lets_bracket: "lets (''('' # os) (op_word p)" "lets (''('' # os) ''!''"
  by (cases p) (simp_all add: lets_def pops_def priorcmp_def chr_at_def)

lemma closes_bracket: "closes (Some '')'') (op_word p)" "closes (Some '')'') ''!''"
  by (cases p) (simp_all add: closes_def)

lemma brackets_parse: "parses os (brackets e) t"
  by (induction e arbitrary: os t) (auto simp: lets_bracket closes_bracket)

section \<open>What an expression means\<close>

text \<open>The value of a tree by the usual rules, without the limits of the code: integers are unbounded and may be negative,
  strings compare in the order of their bytes, floating point numbers are added and so on by the operations of \<open>env\<close> and
  compared by \<open>comp_dbl\<close>, that is, up to \<open>dbl_prec\<close>.\<close>

definition is_rel :: "binop \<Rightarrow> bool" where
  "is_rel p \<longleftrightarrow> p \<in> {Eq, Ne, Gt, Lt, Ge, Le}"

definition int_op :: "binop \<Rightarrow> int \<Rightarrow> int \<Rightarrow> int" where
  "int_op p a b = (case p of Add \<Rightarrow> a + b | Sub \<Rightarrow> a - b | Mul \<Rightarrow> a * b | _ \<Rightarrow> a div b)"

definition dbl_op :: "'d exp_env \<Rightarrow> binop \<Rightarrow> 'd \<Rightarrow> 'd \<Rightarrow> 'd" where
  "dbl_op env p = (case p of Add \<Rightarrow> dbl_add env | Sub \<Rightarrow> dbl_sub env | Mul \<Rightarrow> dbl_mul env | _ \<Rightarrow> dbl_div env)"

fun rel_holds :: "'d exp_env \<Rightarrow> binop \<Rightarrow> 'd node \<Rightarrow> 'd node \<Rightarrow> bool" where
  "rel_holds env p (Num a) (Num b) \<longleftrightarrow> rel_of p a b"
| "rel_holds env p (Str a) (Str b) \<longleftrightarrow> rel_of p (strcmp a b) 0"
| "rel_holds env p v w \<longleftrightarrow> rel_of p (dbl_diff env v w) 0"

fun op_value :: "'d exp_env \<Rightarrow> binop \<Rightarrow> 'd node \<Rightarrow> 'd node \<Rightarrow> 'd node option" where
  "op_value env p (Num a) (Num b) = (if p = Div \<and> b = 0 then None else Some (Num (int_op p a b)))"
| "op_value env p (Str a) (Str b) = (if p = Add then Some (Str (a @ b)) else None)"
| "op_value env p v w = map_option (\<lambda>(a, b). Dbl (dbl_op env p a b)) (as_dbls env v w)"

fun meaning :: "'d exp_env \<Rightarrow> expr \<Rightarrow> 'd node option" where
  "meaning env (Const w) = Some (if CHR ''.'' \<in> set w then Dbl (strtod env w) else Num (int (digits_val w)))"
| "meaning env (Quoted s) = Some (Str s)"
| "meaning env (Var w) = Some (Str (take (nat (fst (get_var env w))) (snd (get_var env w))))"
| "meaning env (Not e) = map_option (\<lambda>v. flag (\<not> truth env v)) (meaning env e)"
| "meaning env (Bin p a b) =
     do {
       v \<leftarrow> meaning env a;
       w \<leftarrow> meaning env b;
       (if p = And then Some (flag (truth env v \<and> truth env w))
        else if p = Or then Some (flag (truth env v \<or> truth env w))
        else if is_rel p then Some (flag (rel_holds env p v w))
        else op_value env p v w)
     }"
| "meaning env (Paren e) = meaning env e"

text \<open>The expressions that stay within the limits of the code: each integer in it, the intermediate results included, lies
  between 0 and the largest 64-bit integer, each floating point result comes back unchanged from its text with six
  decimals (a negative one does not), no floating point number is divided by one that compares equal to zero, comparisons
  and connectives do not mix a string with a number, and no two strings are compared with \<open><\<close>.\<close>

definition long_range :: "int \<Rightarrow> bool" where
  "long_range x \<longleftrightarrow> 0 \<le> x \<and> x < 2 ^ 63"

definition within :: "'d exp_env \<Rightarrow> binop \<Rightarrow> 'd node \<Rightarrow> 'd node \<Rightarrow> bool" where
  "within env p v w \<longleftrightarrow>
     (if p = And \<or> p = Or \<or> is_rel p then is_str v = is_str w \<and> \<not> (p = Lt \<and> is_str v)
      else \<not> (p = Div \<and> zero_divisor env v w) \<and>
        (case op_value env p v w of
           Some (Num x) \<Rightarrow> long_range x
         | Some (Dbl x) \<Rightarrow> dbl_result env x = Some (Dbl x)
         | _ \<Rightarrow> True))"

fun plain :: "'d exp_env \<Rightarrow> expr \<Rightarrow> bool" where
  "plain env (Const w) \<longleftrightarrow> (CHR ''.'' \<notin> set w \<longrightarrow> long_range (int (digits_val w)))"
| "plain env (Not e) \<longleftrightarrow> plain env e"
| "plain env (Paren e) \<longleftrightarrow> plain env e"
| "plain env (Bin p a b) \<longleftrightarrow> plain env a \<and> plain env b \<and>
     (\<forall>v w. meaning env a = Some v \<longrightarrow> meaning env b = Some w \<longrightarrow> within env p v w)"
| "plain env e \<longleftrightarrow> True"

lemma s64_long: "long_range x \<Longrightarrow> s64 x = x"
  by (simp add: long_range_def)

lemma int_result_long: "long_range x \<Longrightarrow> int_result (s64 x) = Some (Num x)"
  by (simp add: s64_long) (simp add: int_result_def long_range_def)

lemma is_str_flag [simp]: "\<not> is_str (flag b)" by (simp add: flag_def)

lemma arith_plain:
  assumes "p \<in> {Add, Sub, Mul, Div}" and "\<forall>a b. v = Num a \<and> w = Num b \<longrightarrow> 0 \<le> a \<and> 0 \<le> b"
    and "op_value env p v w = Some x" and "within env p v w"
  shows "apply_op env p v w = Some x"
proof (cases v; cases w)
  fix a b
  assume vw: "v = Num a" "w = Num b"
  with assms have "x = Num (int_op p a b)" "p = Div \<longrightarrow> b \<noteq> 0" by (auto split: if_splits)
  moreover from this assms(4) vw assms(1) have "long_range (int_op p a b)" by (auto simp: within_def is_rel_def)
  ultimately show ?thesis using assms(1,2) vw
    by (cases "b = 0") (auto simp: apply_op_def int_op_def int_result_long, simp add: int_result_def)
qed (use assms in \<open>auto simp: apply_op_def within_def is_rel_def dbl_op_def split: if_splits\<close>)

lemma rel_plain:
  assumes "is_rel p" and "within env p v w"
  shows "apply_op env p v w = Some (flag (rel_holds env p v w))"
proof -
  have "compare env p v w = Some (flag (rel_holds env p v w))"
    using assms by (cases v; cases w) (auto simp: within_def str_rel_def)
  then show ?thesis using assms(1) by (auto simp: apply_op_def is_rel_def)
qed

text \<open>Within the limits the code computes what an expression means.\<close>

lemma plain_eval:
  "expr_ok env e \<Longrightarrow> plain env e \<Longrightarrow> meaning env e = Some v \<Longrightarrow> eval env e = Some v \<and> (\<forall>x. v = Num x \<longrightarrow> long_range x)"
proof (induction e arbitrary: v)
  case (Const w)
  show ?case
  proof (cases "CHR ''.'' \<in> set w")
    case False
    then have "w \<noteq> []" "\<forall>c \<in> set w. c_isdigit c" using Const.prems(1) by (auto simp: const_ok_def)
    then have "atoll w = int (digits_val w)"
      using False Const.prems(2) atoll_digits [of w] by (simp add: sat64_def long_range_def)
    then show ?thesis using False Const.prems by auto
  qed (use Const.prems in auto)
next
  case (Not e)
  then show ?case by (auto simp: flag_def long_range_def)
next
  case (Bin p a b)
  obtain u w where u: "meaning env a = Some u" and w: "meaning env b = Some w" using Bin.prems(3) by (auto simp: bind_eq_Some_conv)
  have ev: "eval env a = Some u" "eval env b = Some w" "\<forall>x. u = Num x \<longrightarrow> long_range x" "\<forall>x. w = Num x \<longrightarrow> long_range x"
    using Bin.IH(1) [OF _ _ u] Bin.IH(2) [OF _ _ w] Bin.prems by auto
  have in_lim: "within env p u w" using Bin.prems(2) u w by simp
  consider "p = And \<or> p = Or" | "is_rel p" | "p \<in> {Add, Sub, Mul, Div}" by (cases p) (auto simp: is_rel_def)
  then have "apply_op env p u w = Some v \<and> (\<forall>x. v = Num x \<longrightarrow> long_range x)"
  proof cases
    case 1
    then show ?thesis using Bin.prems(3) u w in_lim by (auto simp: apply_op_def within_def flag_def long_range_def)
  next
    case 2
    then have "p \<noteq> And" "p \<noteq> Or" by (auto simp: is_rel_def)
    then show ?thesis using 2 Bin.prems(3) u w rel_plain [OF 2 in_lim] by (auto simp: flag_def long_range_def)
  next
    case 3
    then have p: "p \<noteq> And" "p \<noteq> Or" "\<not> is_rel p" by (auto simp: is_rel_def)
    then have val: "op_value env p u w = Some v" using Bin.prems(3) u w by simp
    have "\<forall>x. v = Num x \<longrightarrow> long_range x" using in_lim p val by (auto simp: within_def)
    then show ?thesis using arith_plain [OF 3 _ val in_lim] ev(3,4) by (auto simp: long_range_def)
  qed
  then show ?case using ev by simp
qed auto

section \<open>Sums of products\<close>

text \<open>Multiplication binds closer than addition, both to the left.\<close>

fun level :: "expr \<Rightarrow> nat" where
  "level (Bin p a b) = (if p = Mul \<or> p = Div then 1 else 0)"
| "level e = 2"

fun arithmetic :: "expr \<Rightarrow> bool" where
  "arithmetic (Const w) \<longleftrightarrow> True"
| "arithmetic (Paren e) \<longleftrightarrow> arithmetic e"
| "arithmetic (Bin p a b) \<longleftrightarrow> arithmetic a \<and> arithmetic b \<and>
     ((p = Add \<or> p = Sub) \<and> 1 \<le> level b \<or> (p = Mul \<or> p = Div) \<and> 1 \<le> level a \<and> 2 \<le> level b)"
| "arithmetic e \<longleftrightarrow> False"

fun int_value :: "expr \<Rightarrow> int" where
  "int_value (Const w) = int (digits_val w)"
| "int_value (Paren e) = int_value e"
| "int_value (Bin Add a b) = int_value a + int_value b"
| "int_value (Bin Sub a b) = int_value a - int_value b"
| "int_value (Bin Mul a b) = int_value a * int_value b"
| "int_value (Bin Div a b) = int_value a div int_value b"
| "int_value e = 0"

text \<open>No part of the expression is negative or too large, and nothing is divided by zero.\<close>

fun fits :: "expr \<Rightarrow> bool" where
  "fits (Const w) \<longleftrightarrow> w \<noteq> [] \<and> (\<forall>c \<in> set w. c_isdigit c) \<and> length w \<le> 32 \<and> long_range (int_value (Const w))"
| "fits (Paren e) \<longleftrightarrow> fits e"
| "fits (Bin p a b) \<longleftrightarrow> fits a \<and> fits b \<and> long_range (int_value (Bin p a b)) \<and> (p = Div \<longrightarrow> int_value b \<noteq> 0)"
| "fits e \<longleftrightarrow> False"

lemma fits_range: "fits e \<Longrightarrow> long_range (int_value e)"
  by (induction e rule: fits.induct) auto

lemma fits_ok: "fits e \<Longrightarrow> expr_ok env e"
  by (induction e rule: fits.induct) (auto simp: const_ok_def)

lemma fits_eval: "arithmetic e \<Longrightarrow> fits e \<Longrightarrow> eval env e = Some (Num (int_value e))"
proof (induction e)
  case (Const w)
  have "CHR ''.'' \<notin> set w" using Const.prems by (auto simp: c_isdigit_def)
  moreover have "atoll w = int (digits_val w)"
    using Const.prems atoll_digits [of w] by (simp add: sat64_def long_range_def)
  ultimately show ?case by simp
next
  case (Bin p a b)
  then have range: "long_range (int_value a)" "long_range (int_value b)" "long_range (int_value (Bin p a b))"
    by (auto intro: fits_range)
  then have "int_value b \<noteq> 0 \<Longrightarrow> c_div (int_value a) (int_value b) = int_value a div int_value b"
    by (simp add: long_range_def)
  then show ?case using Bin range by (cases p) (auto simp: apply_op_def int_result_long)
qed auto

text \<open>Where an expression of a level may stand.\<close>

definition before_ok :: "nat \<Rightarrow> cstr list \<Rightarrow> bool" where
  "before_ok m os \<longleftrightarrow> 2 \<le> m \<or> os = [] \<or> List.hd os = ''('' \<or> (m = 1 \<and> List.hd os \<in> {''+'', ''-''})"

definition after_ok :: "nat \<Rightarrow> cstr option \<Rightarrow> bool" where
  "after_ok m t \<longleftrightarrow> t \<in> {None, Some '')'', Some ''+'', Some ''-''} \<or> 1 \<le> m \<and> t \<in> {Some ''*'', Some ''/''}"

lemma pops_arith:
  "pops ''+'' oper \<longleftrightarrow> chr_at 0 oper \<noteq> 40" "pops ''-'' oper \<longleftrightarrow> chr_at 0 oper \<noteq> 40"
  "pops ''*'' oper \<longleftrightarrow> chr_at 0 oper = 42 \<or> chr_at 0 oper = 47" "pops ''/'' oper \<longleftrightarrow> chr_at 0 oper = 42 \<or> chr_at 0 oper = 47"
  by (simp_all add: pops_def chr_at_def [of 0 "''+''"] chr_at_def [of 0 "''-''"] chr_at_def [of 0 "''*''"] chr_at_def [of 0 "''/''"])

lemma chr_ops:
  "chr_at 0 ''+'' = 43" "chr_at 0 ''-'' = 45" "chr_at 0 ''*'' = 42" "chr_at 0 ''/'' = 47" "chr_at 0 ''('' = 40"
  by (simp_all add: chr_at_def)

lemma lets_arith:
  assumes "p = Add \<or> p = Sub \<and> m = 0 \<or> (p = Mul \<or> p = Div) \<and> m = 1" "p = Add \<or> p = Sub \<Longrightarrow> m = 0" "before_ok m os"
  shows "lets os (op_word p)"
proof (cases "os = []")
  case False
  have "List.hd os \<in> (if p = Add \<or> p = Sub then {''(''} else {''('', ''+'', ''-''})"
    using assms False by (auto simp: before_ok_def)
  then have "\<not> pops (op_word p) (List.hd os)" using assms(1) by (auto simp: pops_arith chr_ops)
  then show ?thesis by (simp add: lets_def)
qed (simp add: lets_def)

lemma closes_arith:
  assumes "p = Add \<or> p = Sub \<or> p = Mul \<or> p = Div" "p = Add \<or> p = Sub \<Longrightarrow> m = 0" "after_ok m t"
  shows "closes t (op_word p)"
proof (cases t)
  case (Some w)
  have w: "w \<in> (if p = Add \<or> p = Sub then {'')'', ''+'', ''-''} else {'')'', ''+'', ''-'', ''*'', ''/''})"
    using assms Some by (auto simp: after_ok_def)
  then show ?thesis
    using assms(1) Some by (auto simp: closes_def pops_arith chr_ops)
qed (simp add: closes_def)

lemma arithmetic_parses: "arithmetic e \<Longrightarrow> before_ok (level e) os \<Longrightarrow> after_ok (level e) t \<Longrightarrow> parses os e t"
proof (induction e arbitrary: os t)
  case (Bin p a b)
  have p: "p = Add \<or> p = Sub \<or> p = Mul \<or> p = Div" using Bin.prems(1) by auto
  have "before_ok (level a) os" "after_ok (level a) (Some (op_word p))"
    using Bin.prems p by (auto simp: before_ok_def after_ok_def)
  moreover have "before_ok (level b) (op_word p # os)" "after_ok (level b) t"
    using Bin.prems p by (auto simp: before_ok_def after_ok_def)
  moreover have "lets os (op_word p)" "closes t (op_word p)"
    using Bin.prems(2,3) p lets_arith [of p "level (Bin p a b)" os] closes_arith [of p "level (Bin p a b)" t] by auto
  ultimately show ?case using Bin by simp
next
  case (Paren e)
  have "before_ok (level e) (''('' # os)" "after_ok (level e) (Some '')'')" by (simp_all add: before_ok_def after_ok_def)
  then show ?case using Paren by simp
qed auto

section \<open>Types\<close>

datatype ty = TStr | TInt | TDbl

fun type_of :: "'d node \<Rightarrow> ty" where
  "type_of (Str s) = TStr"
| "type_of (Num n) = TInt"
| "type_of (Dbl x) = TDbl"

definition op_type :: "binop \<Rightarrow> ty \<Rightarrow> ty \<Rightarrow> ty option" where
  "op_type p s t =
     (if p \<in> {Add, Sub, Mul, Div} then
        if s = TStr \<or> t = TStr then (if p = Add \<and> s = t then Some TStr else None)
        else Some (if s = TInt \<and> t = TInt then TInt else TDbl)
      else if (s = TStr) = (t = TStr) then Some TInt else None)"

text \<open>What \<^verbatim>\<open>%f\<close> prints: a number with a point, or a text that starts with a sign or a letter.\<close>

definition point_format :: "'d exp_env \<Rightarrow> bool" where
  "point_format env \<longleftrightarrow>
     (\<forall>x. chr_at 0 (fmt_dbl env 6 x) \<notin> {35, 36, 39} \<and> (is_number (fmt_dbl env 6 x) \<longrightarrow> CHR ''.'' \<in> set (fmt_dbl env 6 x)))"

text \<open>What an operator leaves on the stack: nothing, or one result of its type that is not negative.\<close>

definition typed_push :: "ty option \<Rightarrow> 'd node list \<Rightarrow> 'd node list \<Rightarrow> bool" where
  "typed_push t ds ds1 \<longleftrightarrow> ds1 = ds \<or> (\<exists>x. ds1 = x # ds \<and> t = Some (type_of x) \<and> (\<forall>n. x = Num n \<longrightarrow> 0 \<le> n))"

lemma typed_push_same [simp]: "typed_push t ds ds" by (simp add: typed_push_def)

lemma push_negative: "x < 0 \<Longrightarrow> push_int env x ds = (if length (fmt_lld x) < 128 then Some (0, ds) else None)"
  by (simp add: push_int_def push_print_def push_result_def push_data_def is_number_def is_digit_at_def chr_at_def fmt_lld_def)

lemma push_int_typed: "push_int env (s64 x) ds = Some (r, ds1) \<Longrightarrow> typed_push (Some TInt) ds ds1"
proof (cases "0 \<le> s64 x")
  case True
  moreover have "s64 x < 2 ^ 63" using signed_take_bit_int_less_exp [of 63 x] by (simp add: s64_def)
  ultimately show "push_int env (s64 x) ds = Some (r, ds1) \<Longrightarrow> ?thesis"
    using push_int_ok [of "s64 x" env ds] by (auto simp: typed_push_def)
next
  case False
  then show "push_int env (s64 x) ds = Some (r, ds1) \<Longrightarrow> ?thesis"
    using push_negative [of "s64 x" env ds] by (simp split: if_splits)
qed

lemma push_dbl_typed: "point_format env \<Longrightarrow> push_dbl env x ds = Some (r, ds1) \<Longrightarrow> typed_push (Some TDbl) ds ds1"
  by (auto simp: point_format_def push_dbl_def push_print_def push_result_def push_data_def typed_push_def split: if_splits)

lemma push_flag_typed: "push_flag env b ds = Some (r, ds1) \<Longrightarrow> typed_push (Some TInt) ds ds1"
  by (auto simp: push_flag_ok flag_def typed_push_def)

lemma push_empty: "push_print env [] ds = Some (0, ds)"
  by (simp add: push_print_def push_result_def push_data_def is_number_def is_digit_at_def chr_at_def)

lemma typed_push_str [simp]: "typed_push (Some TStr) ds (Str s # ds)"
  by (simp add: typed_push_def)

lemma arith_typed:
  assumes "point_format env"
  shows "compute_add env v w ds = Some (r, ds1) \<Longrightarrow> typed_push (op_type Add (type_of v) (type_of w)) ds ds1"
    and "compute_sub env v w ds = Some (r, ds1) \<Longrightarrow> typed_push (op_type Sub (type_of v) (type_of w)) ds ds1"
    and "compute_mul env v w ds = Some (r, ds1) \<Longrightarrow> typed_push (op_type Mul (type_of v) (type_of w)) ds ds1"
    and "compute_div env v w ds = Some (r, ds1) \<Longrightarrow> typed_push (op_type Div (type_of v) (type_of w)) ds ds1"
  by (cases v; cases w; simp add: op_type_def push_int_typed push_dbl_typed [OF assms] push_result_def push_joined
      split: if_splits; force)+

lemma rel_typed:
  "p \<notin> {Add, Sub, Mul, Div} \<Longrightarrow> compute_rel env ri rd rs v w ds = Some (r, ds1) \<Longrightarrow>
    typed_push (op_type p (type_of v) (type_of w)) ds ds1"
  by (cases v; cases w) (simp_all add: op_type_def push_flag_typed)

lemma connective_typed:
  shows "p \<notin> {Add, Sub, Mul, Div} \<Longrightarrow> compute_and env v w ds = Some (r, ds1) \<Longrightarrow>
      typed_push (op_type p (type_of v) (type_of w)) ds ds1"
    and "p \<notin> {Add, Sub, Mul, Div} \<Longrightarrow> compute_or env v w ds = Some (r, ds1) \<Longrightarrow>
      typed_push (op_type p (type_of v) (type_of w)) ds ds1"
  by (cases v; cases w; simp add: compute_and_def compute_or_def op_type_def push_flag_typed push_empty)+

lemma rel_truth:
  "compute_rel env ri rd rs v w ds = Some (r, ds1) \<Longrightarrow> ds1 = ds \<or> ds1 = Num 0 # ds \<or> ds1 = Num 1 # ds"
  by (cases v; cases w) (auto simp: push_flag_ok flag_def split: if_splits)

lemma connective_truth:
  "compute_and env v w ds = Some (r, ds1) \<Longrightarrow> ds1 = ds \<or> ds1 = Num 0 # ds \<or> ds1 = Num 1 # ds"
  "compute_or env v w ds = Some (r, ds1) \<Longrightarrow> ds1 = ds \<or> ds1 = Num 0 # ds \<or> ds1 = Num 1 # ds"
  by (auto simp: compute_and_def compute_or_def push_flag_ok push_empty flag_def split: if_splits)

text \<open>C27: Whatever \<^verbatim>\<open>compute_base\<close> does with two operands, it leaves the stack below them as it is, and if it pushes a
  result this has the type the operator gives for the types of the operands and is not a negative integer: integers of two
  integers, floating point numbers as soon as one is involved, strings only by joining strings, 0 or 1 from comparisons
  and connectives, nothing from a mixed pair.  (For a \<^verbatim>\<open>%f\<close> that prints a number with a point, or else a text that starts
  with a sign or a letter.)\<close>

theorem operator_types:
  assumes format: "point_format env" and run: "compute_base env (op_word p) (w # v # ds) = Some (r, ds1)"
  shows "typed_push (op_type p (type_of v) (type_of w)) ds ds1 \<and>
    (p \<notin> {Add, Sub, Mul, Div} \<longrightarrow> ds1 = ds \<or> ds1 = Num 0 # ds \<or> ds1 = Num 1 # ds)"
proof
  show "typed_push (op_type p (type_of v) (type_of w)) ds ds1"
    using run
    by (cases p)
      (simp_all add: compute_base_def arith_typed [OF format] rel_typed connective_typed
        compute_eq_def compute_ne_def compute_gt_def compute_lt_def compute_ge_def compute_le_def)
  show "p \<notin> {Add, Sub, Mul, Div} \<longrightarrow> ds1 = ds \<or> ds1 = Num 0 # ds \<or> ds1 = Num 1 # ds"
    using run
    by (cases p)
      (simp_all add: compute_base_def rel_truth connective_truth
        compute_eq_def compute_ne_def compute_gt_def compute_lt_def compute_ge_def compute_le_def)
qed

section \<open>Conditions\<close>

text \<open>The order of the connectives: or, and, not, comparisons; brackets and operands bind closest.\<close>

fun rank :: "expr \<Rightarrow> nat" where
  "rank (Bin p a b) = (case p of Or \<Rightarrow> 1 | And \<Rightarrow> 2 | _ \<Rightarrow> 4)"
| "rank (Not e) = 3"
| "rank e = 5"

definition word_rank :: "cstr \<Rightarrow> nat" where
  "word_rank w = (if w = ''('' then 0 else if w = ''||'' then 1 else if w = ''&&'' then 2 else if w = ''!'' then 3 else 4)"

fun logical :: "expr \<Rightarrow> bool" where
  "logical (Bin p a b) \<longleftrightarrow> logical a \<and> logical b \<and>
     (p = Or \<and> 2 \<le> rank b \<or> p = And \<and> 2 \<le> rank a \<and> 3 \<le> rank b \<or> is_rel p \<and> 4 \<le> rank a \<and> 5 \<le> rank b)"
| "logical (Not e) \<longleftrightarrow> logical e \<and> 4 \<le> rank e"
| "logical (Paren e) \<longleftrightarrow> logical e"
| "logical e \<longleftrightarrow> True"

lemma pops_rank: "w \<in> set rel_words \<Longrightarrow> oper = ''('' \<or> oper \<in> set rel_words \<Longrightarrow> pops w oper \<longleftrightarrow> word_rank w \<le> word_rank oper"
proof -
  have "\<forall>w \<in> set rel_words. \<forall>oper \<in> set (''('' # rel_words). pops w oper \<longleftrightarrow> word_rank w \<le> word_rank oper"
    by (simp add: rel_words_def pops_def priorcmp_def chr_at_def word_rank_def)
  then show "w \<in> set rel_words \<Longrightarrow> oper = ''('' \<or> oper \<in> set rel_words \<Longrightarrow> pops w oper \<longleftrightarrow> word_rank w \<le> word_rank oper"
    by auto
qed

lemma logic_word: "p = Or \<or> p = And \<or> is_rel p \<Longrightarrow> op_word p \<in> set rel_words \<and> word_rank (op_word p) = rank (Bin p a b)"
  by (cases p) (auto simp: is_rel_def rel_words_def word_rank_def)

lemma not_word: "''!'' \<in> set rel_words" "word_rank ''!'' = 3" by (simp_all add: rel_words_def word_rank_def)

lemma rank_pos: "1 \<le> rank e"
  by (cases e) (simp_all split: binop.split)

lemma logical_parses:
  "logical e \<Longrightarrow> os = [] \<or> ((List.hd os = ''('' \<or> List.hd os \<in> set rel_words) \<and> word_rank (List.hd os) < rank e) \<Longrightarrow>
    t = None \<or> t = Some '')'' \<or> (\<exists>w \<in> set rel_words. t = Some w \<and> word_rank w \<le> rank e) \<Longrightarrow> parses os e t"
proof (induction e arbitrary: os t)
  case (Bin p a b)
  let ?w = "op_word p" and ?e = "Bin p a b"
  have w: "?w \<in> set rel_words" "word_rank ?w = rank ?e" using Bin.prems(1) logic_word [of p a b] by auto
  have ranks: "rank ?e \<le> rank a" "rank ?e < rank b"
    using Bin.prems(1) rank_pos [of a] by (cases p; simp add: is_rel_def)+
  have ends: "?w \<noteq> ''(''" using w(1) by (auto simp: rel_words_def)
  have "parses os a (Some ?w)" using Bin.IH(1) [of os "Some ?w"] Bin.prems ranks w by auto
  moreover have "parses (?w # os) b t" using Bin.IH(2) [of "?w # os" t] Bin.prems ranks w by auto
  moreover have "lets os ?w" using Bin.prems(2) w pops_rank [OF w(1), of "List.hd os"] by (auto simp: lets_def)
  moreover have "closes t ?w" using Bin.prems(3) w ends pops_rank [of _ ?w] by (auto simp: closes_def)
  ultimately show ?case by simp
next
  case (Not e)
  have "parses (''!'' # os) e t" using Not.IH [of "''!'' # os" t] Not.prems not_word by auto
  moreover have "lets os ''!''" using Not.prems(2) not_word pops_rank [OF not_word(1), of "List.hd os"] by (auto simp: lets_def)
  moreover have "closes t ''!''" using Not.prems(3) not_word pops_rank [of _ "''!''"] by (auto simp: closes_def)
  ultimately show ?case by simp
next
  case (Paren e)
  have "parses (''('' # os) e (Some '')'')" using Paren.IH [of "''('' # os" "Some '')''"] Paren.prems rank_pos [of e] by (simp add: word_rank_def)
  then show ?case by simp
qed auto

fun cond_type :: "expr \<Rightarrow> ty option" where
  "cond_type (Const w) = Some (if CHR ''.'' \<in> set w then TDbl else TInt)"
| "cond_type (Quoted s) = Some TStr"
| "cond_type (Var w) = Some TStr"
| "cond_type (Not e) = map_option (\<lambda>_. TInt) (cond_type e)"
| "cond_type (Bin p a b) = do { s \<leftarrow> cond_type a; t \<leftarrow> cond_type b; op_type p s t }"
| "cond_type (Paren e) = cond_type e"

text \<open>What a condition says: connectives of the truth of its parts, which are comparisons of what the operands mean, or
  operands by themselves (a number that is not zero, a string that is not empty).\<close>

fun holds :: "'d exp_env \<Rightarrow> expr \<Rightarrow> bool" where
  "holds env (Not e) \<longleftrightarrow> \<not> holds env e"
| "holds env (Paren e) \<longleftrightarrow> holds env e"
| "holds env (Bin p a b) \<longleftrightarrow>
     (case p of
        And \<Rightarrow> holds env a \<and> holds env b
      | Or \<Rightarrow> holds env a \<or> holds env b
      | _ \<Rightarrow> (case (meaning env a, meaning env b) of (Some v, Some w) \<Rightarrow> rel_holds env p v w | _ \<Rightarrow> False))"
| "holds env e \<longleftrightarrow> (case meaning env e of Some v \<Rightarrow> truth env v | None \<Rightarrow> False)"

lemma digit_chars: "digit_char 0 = CHR ''0''" "digit_char 1 = CHR ''1''"
  by code_simp+

lemma truth_flag [simp]: "truth env (flag b) = b" and flag_type [simp]: "type_of (flag b) = TInt"
    and flag_text: "node_text env (flag b) = (if b then ''1'' else ''0'')"
  by (simp_all add: flag_def fmt_lld_def nat_digits.simps digit_chars digit_chars(2) [simplified])

lemma is_str_type: "is_str v \<longleftrightarrow> type_of v = TStr" by (cases v) simp_all

lemma cond_value:
  "logical e \<Longrightarrow> cond_type e = Some t \<Longrightarrow>
    \<exists>v. meaning env e = Some v \<and> type_of v = t \<and> truth env v = holds env e \<and> (rank e < 5 \<longrightarrow> v = flag (holds env e))"
proof (induction e arbitrary: t)
  case (Bin p a b)
  obtain ta tb where types: "cond_type a = Some ta" "cond_type b = Some tb" "op_type p ta tb = Some t"
    using Bin.prems(2) by (auto simp: bind_eq_Some_conv)
  obtain v w where v: "meaning env a = Some v" "type_of v = ta" "truth env v = holds env a"
      and w: "meaning env b = Some w" "type_of w = tb" "truth env w = holds env b"
    using Bin.IH(1) [OF _ types(1)] Bin.IH(2) [OF _ types(2)] Bin.prems(1) by auto
  have p: "p = Or \<or> p = And \<or> is_rel p" using Bin.prems(1) by auto
  then have "t = TInt" using types(3) by (auto simp: op_type_def is_rel_def split: if_splits)
  then show ?case using p v w by (cases p) (auto simp: is_rel_def)
qed auto

text \<open>C20: A condition is computed without an error, to 1 if it holds and to 0 if not.  Conditions are comparisons of
  constants, strings and variables, joined by not, and, or, with or without brackets, in which comparisons bind closer
  than not, not closer than and, and and closer than or; they hold by what their operands mean: integers and strings
  compare as such, numbers of which one has a point up to \<open>dbl_prec\<close>, and an operand by itself holds when it is not zero
  or not empty.  The operands of each comparison and connective are both strings or both numbers, integers are below
  2^63, and no two strings are compared with \<open><\<close>, of which the code answers the opposite.\<close>

theorem conditions_decide:
  assumes "logical e" and "rank e < 5" and "expr_ok env e" and "cond_type e = Some t" and "plain env e"
  shows "compute_exp env (expr_text n e) fw = Some (0, Some (if holds env e then ''1'' else ''0''), fw)"
proof -
  have "parses [] e None" using logical_parses [of e "[]" None] assms(1) by simp
  moreover have "meaning env e = Some (flag (holds env e))" using cond_value [OF assms(1,4), of env] assms(2) by auto
  then have "eval env e = Some (flag (holds env e))" using plain_eval [OF assms(3,5)] by blast
  ultimately show ?thesis using tree_value [OF _ assms(3)] by (simp add: flag_text)
qed

section \<open>Values\<close>

text \<open>C19: An expression that is written with brackets around every operation is computed to what it means, with any number
  of blanks between the words, provided that it stays within the limits of the code: every integer in it, the
  intermediate results included, lies between 0 and 2^63 - 1, every floating point result is one that its text with six
  decimals gives back, nothing is divided by zero, comparisons and connectives do not mix strings with numbers, and no
  two strings are compared with \<open><\<close>.  (Words have at most 32 characters, quoted strings less than 1022 and the values
  of variables less than 2048.)\<close>

theorem bracketed_expressions_evaluate:
  assumes "expr_ok env e" and "plain env e" and "meaning env e = Some v"
  shows "compute_exp env (expr_text n (brackets e)) fw = Some (0, Some (node_text env v), fw)"
  using assms plain_eval [OF assms] by (intro tree_value) (simp_all add: brackets_parse)

text \<open>C21: A sum of products of integers, brackets only where they are needed, is computed to its value: multiplication and
  division before addition and subtraction, each from the left, as long as no part of it is negative or beyond 63 bits.\<close>

theorem sums_of_products:
  assumes "arithmetic e" and "fits e"
  shows "compute_exp env (expr_text n e) fw = Some (0, Some (nat_digits (nat (int_value e))), fw)"
proof -
  have "parses [] e None" using arithmetic_parses [OF assms(1), of "[]" None] by (simp add: before_ok_def after_ok_def)
  then have "compute_exp env (expr_text n e) fw = Some (0, Some (node_text env (Num (int_value e))), fw)"
    using tree_value [of e env "Num (int_value e)" n fw] fits_ok [OF assms(2)] fits_eval [OF assms] by blast
  moreover have "0 \<le> int_value e" using fits_range [OF assms(2)] by (simp add: long_range_def)
  ultimately show ?thesis by (simp add: fmt_lld_def)
qed

lemma const_number:
  assumes "0 \<le> x" "x < 2 ^ 63"
  shows "const_ok (fmt_lld x)" "eval env (Const (fmt_lld x)) = Some (Num x)"
proof -
  have "nat x < 10 ^ 19" using assms by simp
  then have len: "length (nat_digits (nat x)) \<le> 19" using nat_digits_length [of 19 "nat x"] by simp
  note digits = nat_digits_isdigit [of "nat x"]
  show "const_ok (fmt_lld x)"
    using assms len digits hd_in_set [OF nat_digits_nonempty [of "nat x"]] by (simp add: const_ok_def fmt_lld_def)
  have "CHR ''.'' \<notin> set (nat_digits (nat x))" using digits by (auto simp: c_isdigit_def)
  then show "eval env (Const (fmt_lld x)) = Some (Num x)"
    using assms digits by (simp add: fmt_lld_def atoll_digits sat64_def)
qed

section \<open>Computed differently\<close>

text \<open>An addition pops every operator before it, also those that bind less: \<open>a == b + c\<close> is computed as \<open>(a == b) + c\<close>,
  for all numbers and all comparisons.\<close>

theorem plus_takes_comparison:
  assumes "is_rel p" and range: "0 \<le> a" "a < 2 ^ 63" "0 \<le> b" "b < 2 ^ 63" "0 \<le> c" "c < 2 ^ 62"
  shows "compute_exp env (fmt_lld a @ op_word p @ fmt_lld b @ ''+'' @ fmt_lld c) fw =
    Some (0, Some (fmt_lld ((if rel_of p a b then 1 else 0) + c)), fw)"
proof -
  let ?e = "Bin Add (Bin p (Const (fmt_lld a)) (Const (fmt_lld b))) (Const (fmt_lld c))"
  have "lets [] w" for w by (simp add: lets_def)
  moreover have "closes (Some ''+'') (op_word p)" using assms(1) by (auto simp: closes_def pops_arith is_rel_def chr_at_def)
  moreover have "closes None w" for w by (simp add: closes_def)
  ultimately have "parses [] ?e None" by simp
  moreover have "expr_ok env ?e" using const_number(1) [of a] const_number(1) [of b] const_number(1) [of c] range by simp
  moreover have "apply_op env p (Num a) (Num b) = Some (flag (rel_of p a b))"
    using assms(1) by (auto simp: apply_op_def is_rel_def)
  then have "eval env ?e = Some (Num ((if rel_of p a b then 1 else 0) + c))"
    using const_number(2) [of a env] const_number(2) [of b env] const_number(2) [of c env] range
    by (simp add: apply_op_def flag_def int_result_def)
  ultimately have "compute_exp env (expr_text 0 ?e) fw = Some (0, Some (fmt_lld ((if rel_of p a b then 1 else 0) + c)), fw)"
    using tree_value [of ?e env] by simp
  then show ?thesis by (simp add: expr_text_def spread_def)
qed

text \<open>A difference below zero is an error: its text starts with a sign, which \<^verbatim>\<open>push_data\<close> does not take for a number, so
  nothing is left on the stack.\<close>

theorem negative_difference_fails:
  assumes range: "0 \<le> a" "a < b" "b < 2 ^ 63"
  shows "compute_exp env (fmt_lld a @ ''-'' @ fmt_lld b) fw = Some (- 1, None, fw)"
proof -
  let ?e = "Bin Sub (Const (fmt_lld a)) (Const (fmt_lld b))"
  have ok: "const_ok (fmt_lld a)" "const_ok (fmt_lld b)"
      and num: "eval env (Const (fmt_lld a)) = Some (Num a)" "eval env (Const (fmt_lld b)) = Some (Num b)"
    using const_number [of a] const_number [of b] range by auto
  have push: "exp_run env (fmt_lld x # ws) st = exp_run env ws (st\<lparr>data_stack := Num x # data_stack st\<rparr>)"
    if "const_ok (fmt_lld x)" "eval env (Const (fmt_lld x)) = Some (Num x)" for x ws and st :: "'a exp_state"
  proof -
    have "(if CHR ''.'' \<in> set (fmt_lld x) then Dbl (strtod env (fmt_lld x)) else Num (atoll (fmt_lld x))) = Num x"
      using that(2) by simp
    then have "push_data env (fmt_lld x) (data_stack st) = Some (0, Num x # data_stack st)"
      using push_const [OF that(1), of env "data_stack st"] by (simp only:)
    then show ?thesis using run_operand [of "fmt_lld x" env st "Num x" ws] that(1) by (simp add: const_ok_def)
  qed
  have minus: "''-'' \<in> set op_words" by (simp add: op_words_def)
  have "s64 (a - b) = a - b" using range by simp
  moreover have "nat (b - a) < 10 ^ 19" using range by simp
  then have "length (fmt_lld (a - b)) < 128"
    using range nat_digits_length [of 19 "nat (b - a)"] by (simp add: fmt_lld_def)
  ultimately have base: "compute_base env ''-'' [Num b, Num a] = Some (0, [])"
    using range push_negative [of "a - b" env "[]"] by (simp add: compute_base_def)
  have "words_ok 0 (expr_words ?e)" using expr_words_ok [of env ?e 0 "[]"] ok by simp
  then have "compute_exp env (expr_text 0 ?e) fw = exp_run env [fmt_lld a, ''-'', fmt_lld b] (init_exp_env fw)"
    by (simp add: compute_exp_finish expr_text_def exp_loop_words exp_run_def)
  also have "\<dots> = Some (- 1, None, fw)"
    using push [OF ok(1) num(1)] push [OF ok(2) num(2)] run_push [OF minus, of _ env] exp_flush_pop [OF base]
    by (simp add: init_exp_env_def lets_def exp_run_def exp_finish_def) (simp add: exp_flush_def)
  finally show ?thesis by (simp add: expr_text_def spread_def)
qed

lemma strcmp_less: "strcmp a b < 0 \<longleftrightarrow> (map (of_char :: char \<Rightarrow> nat) a, map of_char b) \<in> lexord {(x, y). x < y}"
  by (induction a b rule: strcmp.induct) (auto simp: not_less)

text \<open>Of two strings the comparison \<open><\<close> answers 1 exactly when the first is not before the second in the order of their
  bytes: the answers are swapped, and a string is less than itself.\<close>

theorem string_less_swapped:
  assumes "CHR 0x27 \<notin> set a" "length a < 1022" "CHR 0x27 \<notin> set b" "length b < 1022"
  shows "compute_exp env (expr_text n (Bin Lt (Quoted a) (Quoted b))) fw =
    Some (0, Some (if (map (of_char :: char \<Rightarrow> nat) a, map of_char b) \<in> lexord {(x, y). x < y} then ''0'' else ''1''), fw)"
proof -
  have "parses [] (Bin Lt (Quoted a) (Quoted b)) None" by (simp add: lets_def closes_def)
  then show ?thesis
    using tree_value [of "Bin Lt (Quoted a) (Quoted b)" env] assms
    by (simp add: apply_op_def str_rel_def flag_text strcmp_less)
qed

section \<open>Calls\<close>

lemma get_number: "const_ok w \<Longrightarrow> rest = [] \<or> \<not> c_isdigit (List.hd rest) \<and> List.hd rest \<noteq> CHR ''.'' \<Longrightarrow>
    get_one_word (w @ rest) = Some (Some (w, rest))"
  using start_chars(1) [of "List.hd w"] by (intro get_const) (auto simp: follow_def const_ok_def)

lemma args_digits:
  "\<forall>c \<in> set ds. c_isdigit c \<Longrightarrow> length argv + length ds \<le> 127 \<Longrightarrow>
    args_loop env False False argv args (ds @ rest) = args_loop env False False (argv @ ds) args rest"
proof (induction ds arbitrary: argv)
  case (Cons c ds)
  then have "c \<noteq> CHR 0x27" "c \<noteq> CHR '',''" "c \<noteq> CHR ''(''" "c \<noteq> CHR '')''" by (auto simp: c_isdigit_def)
  then show ?case using Cons by simp
qed simp

lemma add_arg_number: "const_ok w \<Longrightarrow> length args < 10 \<Longrightarrow> add_arg env w args = Some (args @ [w])"
  using start_chars(1) [of "List.hd w"] by (auto simp: add_arg_def arg_value_def const_ok_def)

lemma number_digits: "0 \<le> x \<Longrightarrow> \<forall>c \<in> set (fmt_lld x). c_isdigit c"
  using nat_digits_isdigit by (simp add: fmt_lld_def)

lemma number_length: "0 \<le> x \<Longrightarrow> x < 2 ^ 63 \<Longrightarrow> length (fmt_lld x) \<le> 32"
  using const_number(1) [of x] by (simp add: const_ok_def)

lemma atoi_number: "0 \<le> x \<Longrightarrow> x < 2 ^ 31 \<Longrightarrow> atoi (fmt_lld x) = x"
  using nat_digits_isdigit [of "nat x"] by (simp add: atoi_def fmt_lld_def atoll_digits sat64_def)

lemma max_args:
  assumes "0 \<le> a" "a < 2 ^ 31" "0 \<le> b" "b < 2 ^ 31"
  shows "get_args env (''max('' @ fmt_lld a @ '','' @ fmt_lld b @ '')'') = Some [fmt_lld a, fmt_lld b]"
proof -
  have ok: "const_ok (fmt_lld a)" "const_ok (fmt_lld b)" using const_number(1) assms by auto
  have len: "length (fmt_lld a) \<le> 32" "length (fmt_lld b) \<le> 32" using ok by (simp_all add: const_ok_def)
  obtain c cs where a: "fmt_lld a = c # cs" using ok(1) by (cases "fmt_lld a") (auto simp: const_ok_def)
  have c: "c \<noteq> CHR '')''" using ok(1) a by (auto simp: const_ok_def c_isdigit_def)
  have "b_blank = dropWhile (\<lambda>d. d = CHR '' '') (fmt_lld b @ '')'') \<Longrightarrow> b_blank = fmt_lld b @ '')''" for b_blank
    using ok(2) by (cases "fmt_lld b") (auto simp: const_ok_def c_isdigit_def)
  then have "args_loop env False False [] [] (fmt_lld a @ '','' @ fmt_lld b @ '')'') = Some [fmt_lld a, fmt_lld b]"
    using args_digits [OF number_digits [OF assms(1)], of "[]" env "[]" "'','' @ fmt_lld b @ '')''"]
      args_digits [OF number_digits [OF assms(3)], of "[]" env "[fmt_lld a]" "'')''"] len ok
    by (simp add: add_arg_number)
  then show ?thesis using a c by (simp add: get_args_def)
qed

lemma max_check:
  assumes "0 \<le> a" "a < 2 ^ 31" "0 \<le> b" "b < 2 ^ 31"
  shows "check_exp ''max'' (''('' @ fmt_lld a @ '','' @ fmt_lld b @ '')'') =
    Some (0, ''max('' @ fmt_lld a @ '','' @ fmt_lld b @ '')'', [])"
proof -
  have ok: "const_ok (fmt_lld a)" "const_ok (fmt_lld b)" using const_number(1) assms by auto
  then have digit: "c_isdigit (List.hd (fmt_lld a))" "c_isdigit (List.hd (fmt_lld b))"
    and len: "length (fmt_lld a) \<le> 32" "length (fmt_lld b) \<le> 32" by (simp_all add: const_ok_def)
  have open1: "get_one_word (CHR ''('' # r) = Some (Some (''('', r))" for r
    by (simp add: get_one_word_def is_letter_def is_var_start_def)
  have comma: "get_one_word (CHR '','' # r) = Some (Some ('','', r))" for r
    by (simp add: get_one_word_def is_letter_def is_var_start_def)
  have close: "get_one_word '')'' = Some (Some ('')'', []))"
    by (simp add: get_one_word_def is_letter_def is_var_start_def)
  have wa: "get_one_word (fmt_lld a @ CHR '','' # r) = Some (Some (fmt_lld a, CHR '','' # r))" for r
    using get_number [OF ok(1), of "CHR '','' # r"] by (simp add: c_isdigit_def)
  have wb: "get_one_word (fmt_lld b @ '')'') = Some (Some (fmt_lld b, '')''))"
    using get_number [OF ok(2), of "'')''"] by (simp add: c_isdigit_def)
  have starts: "check_start (List.hd (fmt_lld a))" "check_start (List.hd (fmt_lld b))" "check_start (CHR '','')"
      "\<not> check_start (CHR '')'')"
    using digit by (simp_all add: check_start_def is_letter_def is_var_start_def c_isdigit_def)
  have "check_words (Suc 0) ''max('' (fmt_lld a @ '','' @ fmt_lld b @ '')'') =
      Some (0, ''max('' @ fmt_lld a @ '','' @ fmt_lld b @ '')'', [])"
    using starts len
    by (simp add: check_words.simps [of "Suc 0"] check_words.simps [of 0] wa comma wb close)
  then show ?thesis by (simp add: check_exp_def open1)
qed

text \<open>A call in an expression: \<open>max(a,b)\<close> is cut into its arguments, the function is found in the table that the first call
  fills, and its result is the value, for numbers in the range of an int.\<close>

theorem max_call_value:
  assumes range: "0 \<le> a" "a < 2 ^ 31" "0 \<le> b" "b < 2 ^ 31" and first: "run_first fw"
  shows "compute_exp env (''max('' @ fmt_lld a @ '','' @ fmt_lld b @ '')'') fw =
    Some (0, Some (fmt_lld (max a b)), fw\<lparr>g_fun_table := set_fun_table env, run_first := False\<rparr>)"
proof -
  let ?m = "max a b" and ?fw = "fw\<lparr>g_fun_table := set_fun_table env, run_first := False\<rparr>"
  let ?rest = "''('' @ fmt_lld a @ '','' @ fmt_lld b @ '')''"
  have m: "0 \<le> ?m" "?m < 2 ^ 63" using range by auto
  have word: "get_one_word (''max'' @ ?rest) = Some (Some (''max'', ?rest))"
    by (simp add: get_one_word_def is_letter_def is_var_start_def name_char_def c_isdigit_def word_of_def)
  have "run env [fmt_lld a, fmt_lld b] ''max'' zero_vars fw =
      Some (0, \<lparr>fv_type = TYPE_INT, fv_value = fmt_lld ?m\<rparr>, ?fw)"
    using range first number_length [OF m]
    by (auto simp: run_def set_fun_table_def max_fun_def atoi_number fun_result_def copy_to_def zero_vars_def max_def)
  then have call: "exp_call env ''max'' ?rest (init_exp_env fw) =
      Some (0, (init_exp_env fw)\<lparr>exp_funs := ?fw, data_stack := [Num ?m]\<rparr>, [])"
    using max_check [OF range] max_args [OF range, of env] push_const [OF const_number(1) [OF m], of env "[]"]
      const_number(2) [OF m, of env]
    by (simp add: exp_call_def run_fun_def exp_operand_def init_exp_env_def)
  have "exp_loop env (''max'' @ ?rest) (init_exp_env fw) = Some (0, (init_exp_env fw)\<lparr>exp_funs := ?fw, data_stack := [Num ?m]\<rparr>)"
    using word call
    by (subst exp_loop.simps) (simp add: exp_step_def is_letter_def is_var_start_def c_isdigit_def exp_loop.simps [of env "[]"]
        get_one_word_def [of "[]"])
  then show ?thesis by (simp add: compute_exp_finish exp_finish_def exp_flush_def init_exp_env_def)
qed

section \<open>Instances\<close>

definition exp_env0 :: "int exp_env" where
  "exp_env0 =
     \<lparr>dbl_add = (+), dbl_sub = (-), dbl_mul = (*), dbl_div = (div), dbl_neg = uminus, dbl_less = (<),
      dbl_of_int = (\<lambda>x. 1000000 * x), dbl_prec = 5000, strtod = (\<lambda>s. 1000000 * int (digits_val (takeWhile c_isdigit s))),
      fmt_dbl = (\<lambda>n x. fmt_lld (x div 1000000) @ ''.'' @ replicate n (CHR ''0'')),
      get_var = (\<lambda>name. if name = ''#a'' then (2, ''xy'') else (- 1, [])), udf_lib = (\<lambda>name. None)\<rparr>"

definition fun_world0 :: fun_world where
  "fun_world0 = \<lparr>g_fun_table = [], run_first = True\<rparr>"

lemma small_numbers:
  "fmt_lld 2 = ''2''" "fmt_lld 3 = ''3''" "fmt_lld 4 = ''4''" "fmt_lld 5 = ''5''" "fmt_lld 12 = ''12''" "fmt_lld 42 = ''42''"
  "nat_digits 7 = ''7''" "digits_val ''1'' = 1" "digits_val ''2'' = 2" "digits_val ''3'' = 3" "atoll ''6'' = 6" "atoll ''3'' = 3"
  "atoll ''4'' = 4" "digits_val ''6'' = 6" "digits_val ''4'' = 4"
  by code_simp+

lemma fmt_lld_start: "45 \<le> chr_at 0 (fmt_lld x @ s)"
proof -
  obtain c cs where c: "nat_digits (nat \<bar>x\<bar>) = c # cs" by (cases "nat_digits (nat \<bar>x\<bar>)") auto
  then have "c_isdigit c" using nat_digits_isdigit [of "nat \<bar>x\<bar>"] by simp
  then have c45: "45 \<le> (of_char c :: nat)" by (simp add: c_isdigit_def)
  show ?thesis
  proof (cases "x < 0")
    case False
    then have "nat \<bar>x\<bar> = nat x" by simp
    then show ?thesis using c c45 False by (simp add: fmt_lld_def chr_at_def)
  qed (simp add: fmt_lld_def chr_at_def)
qed

lemma point_format0: "point_format exp_env0"
proof -
  have "chr_at 0 (fmt_dbl exp_env0 6 x) \<notin> {35, 36, 39} \<and> CHR ''.'' \<in> set (fmt_dbl exp_env0 6 x)" for x
    using fmt_lld_start [of "x div 1000000" "''.'' @ replicate 6 (CHR ''0'')"] by (auto simp: exp_env0_def)
  then show ?thesis by (simp add: point_format_def)
qed

theorem operator_types_witness:
  "typed_push (op_type Mul TInt TInt) [Str ''x''] [Num 12, Str ''x'' :: int node]"
proof -
  have "compute_base exp_env0 (op_word Mul) [Num 4, Num 3, Str ''x''] = Some (0, [Num 12, Str ''x''])"
    by (simp add: compute_base_def push_int_ok)
  then show ?thesis using operator_types [OF point_format0, of Mul "Num 4" "Num 3" "[Str ''x'']" 0] by simp
qed

definition cond_demo :: expr where
  "cond_demo = Bin And (Bin Eq (Var ''#a'') (Quoted ''xy'')) (Not (Bin Gt (Const ''3'') (Const ''4'')))"

theorem conditions_decide_witness:
  "compute_exp exp_env0 (expr_text 1 cond_demo) fun_world0 = Some (0, Some ''1'', fun_world0)"
proof -
  have "holds exp_env0 cond_demo"
    by (simp add: cond_demo_def small_numbers exp_env0_def)
  moreover have "expr_ok exp_env0 cond_demo"
    by (simp add: cond_demo_def var_ok_def const_ok_def is_var_start_def name_char_def is_letter_def c_isdigit_def exp_env0_def)
  moreover have "plain exp_env0 cond_demo"
    by (simp add: cond_demo_def within_def is_rel_def long_range_def small_numbers)
  moreover have "logical cond_demo" "rank cond_demo < 5" "cond_type cond_demo = Some TInt"
    by (simp_all add: cond_demo_def is_rel_def op_type_def)
  ultimately show ?thesis using conditions_decide [of cond_demo exp_env0 TInt 1 fun_world0] by simp
qed

theorem bracketed_expressions_evaluate_witness:
  "compute_exp exp_env0 ''(6*(3+4))'' fun_world0 = Some (0, Some ''42'', fun_world0)"
proof -
  let ?e = "Bin Mul (Const ''6'') (Bin Add (Const ''3'') (Const ''4''))"
  have "meaning exp_env0 ?e = Some (Num 42)" "plain exp_env0 ?e"
    by (simp_all add: small_numbers int_op_def is_rel_def within_def long_range_def)
  moreover have "expr_text 0 (brackets ?e) = ''(6*(3+4))''" by (simp add: expr_text_def spread_def)
  moreover have "expr_ok exp_env0 ?e" by (simp add: const_ok_def c_isdigit_def)
  ultimately show ?thesis
    using bracketed_expressions_evaluate [of exp_env0 ?e "Num 42" 0 fun_world0] by (simp add: small_numbers)
qed

theorem sums_of_products_witness: "compute_exp exp_env0 ''1+2*3'' fun_world0 = Some (0, Some ''7'', fun_world0)"
proof -
  let ?e = "Bin Add (Const ''1'') (Bin Mul (Const ''2'') (Const ''3''))"
  have "fits ?e" by (simp add: c_isdigit_def long_range_def small_numbers)
  moreover have "expr_text 0 ?e = ''1+2*3''" by (simp add: expr_text_def spread_def)
  ultimately show ?thesis using sums_of_products [of ?e exp_env0 0 fun_world0] by (simp add: small_numbers)
qed

theorem plus_takes_comparison_witness: "compute_exp exp_env0 ''2==2+3'' fun_world0 = Some (0, Some ''4'', fun_world0)"
  using plus_takes_comparison [of Eq 2 2 3 exp_env0 fun_world0] by (simp add: is_rel_def small_numbers)

theorem negative_difference_fails_witness: "compute_exp exp_env0 ''3-5'' fun_world0 = Some (- 1, None, fun_world0)"
  using negative_difference_fails [of 3 5 exp_env0 fun_world0] by (simp add: small_numbers)

theorem string_less_swapped_witness:
  "compute_exp exp_env0 (expr_text 0 (Bin Lt (Quoted ''a'') (Quoted ''b''))) fun_world0 = Some (0, Some ''0'', fun_world0)"
  using string_less_swapped [of "''a''" "''b''" exp_env0 0 fun_world0] by simp

theorem max_call_value_witness:
  "compute_exp exp_env0 ''max(3,12)'' fun_world0 =
    Some (0, Some ''12'', \<lparr>g_fun_table = set_fun_table exp_env0, run_first = False\<rparr>)"
  using max_call_value [of 3 12 fun_world0 exp_env0] by (simp add: fun_world0_def small_numbers)

end
