(* ===== verification/Pub_Regex.thy ===== *)
theory Pub_Regex
  imports Prelude
begin

text \<open>
  The pattern matcher \<^verbatim>\<open>core/pub_regex.c\<close>, with which the listeners and services select messages.  A pattern is first
  translated (an escape becomes one control character), then read unit by unit - a character or a set in square
  brackets, with a quantifier - while the text is consumed without ever going back.  None is a run that leaves a buffer:
  a brace that is not closed.  The properties: the matcher is exact on the patterns that can be followed without going back;
  on the other patterns without braces it accepts only texts of the language as long as no \<^verbatim>\<open>+\<close> is left behind a
  repetition at the end of the text; and what it accepts wrongly there.
\<close>

section \<open>Patterns\<close>

abbreviation (input) SPCHAR_NUMBER :: char where "SPCHAR_NUMBER \<equiv> CHR 0x01"
abbreviation (input) SPCHAR_LOWCHAR :: char where "SPCHAR_LOWCHAR \<equiv> CHR 0x02"
abbreviation (input) SPCHAR_HIGHCHAR :: char where "SPCHAR_HIGHCHAR \<equiv> CHR 0x03"
abbreviation (input) SPCHAR_ALLCHAR :: char where "SPCHAR_ALLCHAR \<equiv> CHR 0x04"
abbreviation (input) SPCHAR_DOT :: char where "SPCHAR_DOT \<equiv> CHR 0x05"
abbreviation (input) SPCHAR_STAR :: char where "SPCHAR_STAR \<equiv> CHR 0x06"
abbreviation (input) SPCHAR_PLUS :: char where "SPCHAR_PLUS \<equiv> CHR 0x07"
abbreviation (input) SPCHAR_QUESTION :: char where "SPCHAR_QUESTION \<equiv> CHR 0x08"
abbreviation (input) SPCHAR_SLASH :: char where "SPCHAR_SLASH \<equiv> CHR 0x0A"
abbreviation (input) SPCHAR_LBROKE :: char where "SPCHAR_LBROKE \<equiv> CHR 0x0B"
abbreviation (input) SPCHAR_RBROKE :: char where "SPCHAR_RBROKE \<equiv> CHR 0x0C"

text \<open>The character an escape stands for.\<close>

definition escape_char :: "char \<Rightarrow> char option" where
  "escape_char c =
     (if c = CHR ''d'' then Some SPCHAR_NUMBER
      else if c = CHR ''a'' then Some SPCHAR_LOWCHAR
      else if c = CHR ''A'' then Some SPCHAR_HIGHCHAR
      else if c = CHR ''.'' then Some SPCHAR_DOT
      else if c = CHR ''*'' then Some SPCHAR_STAR
      else if c = CHR ''+'' then Some SPCHAR_PLUS
      else if c = CHR ''?'' then Some SPCHAR_QUESTION
      else if c = CHR 0x5C then Some SPCHAR_SLASH
      else if c = CHR ''{'' then Some SPCHAR_LBROKE
      else if c = CHR ''}'' then Some SPCHAR_RBROKE
      else None)"

definition plain_char :: "char \<Rightarrow> char" where
  "plain_char c = (if c = CHR ''.'' then SPCHAR_ALLCHAR else c)"

text \<open>The first half of \<^verbatim>\<open>iGetPatternUnit\<close>: the translation.\<close>

fun translate :: "cstr \<Rightarrow> cstr" where
  "translate [] = []"
| "translate [c] = [plain_char c]"
| "translate (c # d # cs) =
     (if c = CHR 0x5C then
        (case escape_char d of Some e \<Rightarrow> e # translate cs | None \<Rightarrow> c # translate (d # cs))
      else plain_char c # translate (d # cs))"

text \<open>The second half: the next unit and the rest of the translated pattern.  A set that is not closed ends the pattern.\<close>

definition take_quantifier :: "cstr \<Rightarrow> cstr \<Rightarrow> (cstr \<times> cstr) option" where
  "take_quantifier u rest =
     (case rest of
        [] \<Rightarrow> Some (u, [])
      | q # r \<Rightarrow>
          if q \<in> {CHR ''?'', CHR ''+'', CHR ''*''} then Some (u @ [q], r)
          else if q = CHR ''{'' then
            (case dropWhile (\<lambda>c. c \<noteq> CHR ''}'') r of
               [] \<Rightarrow> None
             | _ # r2 \<Rightarrow> Some (u @ q # takeWhile (\<lambda>c. c \<noteq> CHR ''}'') r @ [CHR ''}''], r2))
          else Some (u, rest))"

definition iGetPatternUnit :: "cstr \<Rightarrow> (cstr \<times> cstr) option" where
  "iGetPatternUnit pat =
     (case pat of
        [] \<Rightarrow> Some ([], [])
      | c # cs \<Rightarrow>
          if c = CHR ''['' then
            (case dropWhile (\<lambda>c. c \<noteq> CHR '']'') cs of
               [] \<Rightarrow> Some ([], [])
             | _ # r \<Rightarrow> take_quantifier (c # takeWhile (\<lambda>c. c \<noteq> CHR '']'') cs @ [CHR '']'']) r)
          else take_quantifier [c] cs)"

section \<open>Characters\<close>

definition in_range :: "char \<Rightarrow> char \<Rightarrow> char \<Rightarrow> bool" where
  "in_range lo hi c \<longleftrightarrow> (of_char lo :: nat) \<le> of_char c \<and> (of_char c :: nat) \<le> of_char hi"

definition char_accepts :: "char \<Rightarrow> char \<Rightarrow> bool" where
  "char_accepts ch pat \<longleftrightarrow>
     (if pat = SPCHAR_NUMBER then in_range (CHR ''0'') (CHR ''9'') ch
      else if pat = SPCHAR_LOWCHAR then in_range (CHR ''a'') (CHR ''z'') ch
      else if pat = SPCHAR_HIGHCHAR then in_range (CHR ''A'') (CHR ''Z'') ch
      else if pat = SPCHAR_ALLCHAR then True
      else if pat = SPCHAR_DOT then ch = CHR ''.''
      else if pat = SPCHAR_STAR then ch = CHR ''*''
      else if pat = SPCHAR_PLUS then ch = CHR ''+''
      else if pat = SPCHAR_QUESTION then ch = CHR ''?''
      else if pat = SPCHAR_SLASH then ch = CHR 0x5C
      else pat = ch)"

definition nCharMatch :: "char \<Rightarrow> char \<Rightarrow> int" where
  "nCharMatch ch pat = (if char_accepts ch pat then 0 else - 1)"

text \<open>The alternatives of a set, from the second character on; a set without any keeps the answer of the unit before it.\<close>

fun set_match :: "int \<Rightarrow> char \<Rightarrow> cstr \<Rightarrow> int option" where
  "set_match ret ch [] = None"
| "set_match ret ch (c # cs) =
     (if c = CHR ''['' \<or> c = CHR ''|'' then set_match ret ch cs
      else if c = CHR '']'' then Some ret
      else if nCharMatch ch c = 0 then Some 0
      else if cs = [] then Some (- 1)
      else set_match (- 1) ch cs)"

definition unit_match :: "int \<Rightarrow> char \<Rightarrow> cstr \<Rightarrow> int option" where
  "unit_match ret ch u = (if List.hd u = CHR ''['' then (if tl u = [] then Some ret else set_match ret ch (tl u)) else Some (nCharMatch ch (List.hd u)))"

section \<open>Matching\<close>

text \<open>The numbers between the braces: least and greatest count.\<close>

fun brace_scan :: "bool \<Rightarrow> int \<Rightarrow> int \<Rightarrow> cstr \<Rightarrow> (int \<times> int) option" where
  "brace_scan nxt lo hi [] = None"
| "brace_scan nxt lo hi (c # cs) =
     (if c = CHR ''}'' then Some (lo, if nxt then hi else lo)
      else if c_isdigit c then
        (if \<not> nxt then brace_scan nxt (s32 (lo * 10 + int (c_digit c))) hi cs
         else brace_scan nxt lo (s32 (hi * 10 + int (c_digit c))) cs)
      else if c = CHR '','' then brace_scan True lo hi cs
      else None)"

text \<open>The text behind the last opening brace, or behind the first character when there is none.\<close>

definition brace_text :: "cstr \<Rightarrow> cstr" where
  "brace_text u = rev (takeWhile (\<lambda>c. c \<noteq> CHR ''{'') (rev (tl u)))"

text \<open>What one character does: refuse with a code, stay at the unit with a new count, or go on to the next unit, with
  or without the character.\<close>

datatype unit_action = Refuse int | Again int | Advance bool

definition unit_step :: "cstr \<Rightarrow> int \<Rightarrow> int \<Rightarrow> unit_action" where
  "unit_step u cnt ret =
     (let q = List.last u in
      if q = CHR ''?'' then Advance (ret = 0)
      else if q = CHR ''+'' then
        (if ret = 0 then Again cnt else if cnt \<le> 1 then Refuse (- 1) else Advance False)
      else if q = CHR ''*'' then (if ret = 0 then Again 0 else Advance False)
      else if q = CHR ''}'' then
        (case brace_scan False 0 0 (brace_text u) of
           None \<Rightarrow> Refuse (- 1)
         | Some (lo, hi) \<Rightarrow>
             if ret = 0 then (if hi \<le> cnt then Advance True else Again cnt)
             else if lo < cnt \<and> cnt \<le> s32 (hi + 1) then Advance False
             else Refuse (- 1))
      else if ret \<noteq> 0 then Refuse ret
      else Advance True)"

lemma dropWhile_tail: "dropWhile p xs = y # ys \<Longrightarrow> length ys < length xs"
  using length_dropWhile_le [of p xs] by simp

lemma take_quantifier_rest: "take_quantifier u rest = Some (w, r) \<Longrightarrow> length r \<le> length rest"
proof (cases rest)
  case (Cons q cs)
  assume t: "take_quantifier u rest = Some (w, r)"
  show ?thesis
  proof (cases "dropWhile (\<lambda>c. c \<noteq> CHR ''}'') cs")
    case Nil
    then show ?thesis using t Cons by (auto simp: take_quantifier_def simp del: dropWhile_eq_Nil_conv split: if_splits)
  next
    case (Cons y ys)
    then show ?thesis
      using t \<open>rest = q # cs\<close> dropWhile_tail [OF Cons] by (auto simp: take_quantifier_def split: if_splits)
  qed
qed (simp add: take_quantifier_def)

lemma unit_rest: "iGetPatternUnit (c # cs) = Some (u, r) \<Longrightarrow> length r \<le> length cs"
proof (cases "c = CHR ''[''")
  case True
  assume u: "iGetPatternUnit (c # cs) = Some (u, r)"
  show ?thesis
  proof (cases "dropWhile (\<lambda>c. c \<noteq> CHR '']'') cs")
    case Nil
    then show ?thesis using u True by (simp only: iGetPatternUnit_def list.case if_True) simp
  next
    case (Cons y ys)
    then have "take_quantifier (c # takeWhile (\<lambda>c. c \<noteq> CHR '']'') cs @ [CHR '']'']) ys = Some (u, r)"
      using u True by (simp add: iGetPatternUnit_def)
    from take_quantifier_rest [OF this] show ?thesis using dropWhile_tail [OF Cons] by simp
  qed
next
  case False
  assume "iGetPatternUnit (c # cs) = Some (u, r)"
  then have "take_quantifier [c] cs = Some (u, r)" using False by (simp add: iGetPatternUnit_def)
  then show ?thesis by (rule take_quantifier_rest)
qed

lemma unit_nil: "iGetPatternUnit [] = Some ([], [])" by (simp add: iGetPatternUnit_def)

text \<open>How much pattern is ahead, the current unit included.\<close>

definition ahead :: "cstr \<Rightarrow> cstr \<Rightarrow> nat" where
  "ahead u rest = length rest + (if u = [] then 0 else 1)"

lemma unit_ahead: "iGetPatternUnit rest = Some (u, r) \<Longrightarrow> v \<noteq> [] \<Longrightarrow> ahead u r < ahead v rest"
proof (cases rest)
  case (Cons c cs)
  assume "iGetPatternUnit rest = Some (u, r)" "v \<noteq> []"
  then show ?thesis using unit_rest [of c cs u r] Cons by (simp add: ahead_def)
qed (simp add: unit_nil ahead_def)

text \<open>The end of the text: the units that are left must be such that may be missing.  \<open>first\<close> is false while the current
  unit has matched already, and it stays as it is for all units that are left.  The scan of the braces starts at the
  closing one.\<close>

function end_loop :: "cstr \<Rightarrow> cstr \<Rightarrow> int \<Rightarrow> bool \<Rightarrow> int \<Rightarrow> int option" where
  "end_loop u rest cnt first ret =
     (if u = [] then Some ret
      else
        let q = List.last u in
        if \<not> first \<and> q \<noteq> CHR ''+'' \<and> q \<noteq> CHR ''*'' \<and> q \<noteq> CHR ''}'' then Some (- 1)
        else if first \<and> q \<noteq> CHR ''?'' \<and> q \<noteq> CHR ''*'' \<and> q \<noteq> CHR ''}'' then Some (- 1)
        else
          (case (if q = CHR ''}'' then brace_scan False 0 0 [q] else Some (cnt, cnt)) of
             None \<Rightarrow> Some (- 1)
           | Some (lo, hi) \<Rightarrow>
               if \<not> (lo \<le> cnt \<and> cnt \<le> hi) then Some (- 1)
               else
                 (case iGetPatternUnit rest of
                    None \<Rightarrow> None
                  | Some (v, r) \<Rightarrow> end_loop v r (if q = CHR ''}'' then 0 else cnt) first ret)))"
  by pat_completeness auto

termination
  by (relation "measure (\<lambda>(u, rest, cnt, first, ret). ahead u rest)") (auto simp: unit_ahead)

declare end_loop.simps [simp del]

function match_loop :: "cstr \<Rightarrow> cstr \<Rightarrow> cstr \<Rightarrow> int \<Rightarrow> bool \<Rightarrow> int \<Rightarrow> int option" where
  "match_loop str u rest cnt first ret =
     (if u = [] then Some (if str \<noteq> [] then - 1 else ret)
      else
        (case str of
           [] \<Rightarrow> end_loop u rest cnt first ret
         | ch # cs \<Rightarrow>
             (case unit_match ret ch u of
                None \<Rightarrow> Some (- 1)
              | Some ret1 \<Rightarrow>
                  (case unit_step u (cnt + 1) ret1 of
                     Refuse r \<Rightarrow> Some r
                   | Again cnt1 \<Rightarrow> match_loop cs u rest cnt1 False ret1
                   | Advance consume \<Rightarrow>
                       (case iGetPatternUnit rest of
                          None \<Rightarrow> None
                        | Some (v, r) \<Rightarrow> match_loop (if consume then cs else str) v r 0 True ret1)))))"
  by pat_completeness auto

termination
  by (relation "measure (\<lambda>(str, u, rest, cnt, first, ret). length str + ahead u rest)")
    (auto dest: unit_ahead intro: add_le_less_mono)

declare match_loop.simps [simp del]

definition nStringMatch_a :: "cstr \<Rightarrow> cstr \<Rightarrow> int option" where
  "nStringMatch_a str pat =
     (case iGetPatternUnit (translate pat) of
        None \<Rightarrow> None
      | Some (u, rest) \<Rightarrow> match_loop str u rest 0 True (- 1))"

definition pub_regex_match :: "cstr option \<Rightarrow> cstr option \<Rightarrow> int option" where
  "pub_regex_match str pat =
     (case (str, pat) of
        (Some s, Some p) \<Rightarrow>
          if p \<noteq> [] \<and> List.hd p = CHR ''~'' then
            if length p = 1 \<or> p ! 1 \<noteq> CHR ''('' \<or> List.last p \<noteq> CHR '')'' then Some (- 1)
            else map_option (\<lambda>ret. if ret = 0 then - 1 else 0) (nStringMatch_a s (drop 2 (butlast p)))
          else nStringMatch_a s p
      | _ \<Rightarrow> Some (- 1))"

section \<open>The language of a pattern\<close>

text \<open>The patterns the documentation of the services describes, without braces: an item, a character class or a set of
  classes, with a quantifier.\<close>

datatype atom = Lit char | Digit | Lower | Upper | Any

datatype item = Single atom | OneOf "atom list"

datatype quant = Once | Opt | Star | Plus

type_synonym unit_spec = "item \<times> quant"

fun atom_matches :: "atom \<Rightarrow> char \<Rightarrow> bool" where
  "atom_matches (Lit d) c \<longleftrightarrow> c = d"
| "atom_matches Digit c \<longleftrightarrow> in_range (CHR ''0'') (CHR ''9'') c"
| "atom_matches Lower c \<longleftrightarrow> in_range (CHR ''a'') (CHR ''z'') c"
| "atom_matches Upper c \<longleftrightarrow> in_range (CHR ''A'') (CHR ''Z'') c"
| "atom_matches Any c \<longleftrightarrow> True"

fun item_matches :: "item \<Rightarrow> char \<Rightarrow> bool" where
  "item_matches (Single a) c \<longleftrightarrow> atom_matches a c"
| "item_matches (OneOf as) c \<longleftrightarrow> list_ex (\<lambda>a. atom_matches a c) as"

inductive matches :: "unit_spec list \<Rightarrow> cstr \<Rightarrow> bool" where
  matches_nil [intro]: "matches [] []"
| matches_once [intro]: "item_matches i c \<Longrightarrow> matches us cs \<Longrightarrow> matches ((i, Once) # us) (c # cs)"
| matches_skip [intro]: "matches us cs \<Longrightarrow> matches ((i, Opt) # us) cs"
| matches_take [intro]: "item_matches i c \<Longrightarrow> matches us cs \<Longrightarrow> matches ((i, Opt) # us) (c # cs)"
| matches_stop [intro]: "matches us cs \<Longrightarrow> matches ((i, Star) # us) cs"
| matches_more [intro]: "item_matches i c \<Longrightarrow> matches ((i, Star) # us) cs \<Longrightarrow> matches ((i, Star) # us) (c # cs)"
| matches_plus [intro]: "item_matches i c \<Longrightarrow> matches ((i, Star) # us) cs \<Longrightarrow> matches ((i, Plus) # us) (c # cs)"

inductive_cases matches_nilE: "matches [] cs"
inductive_cases matches_onceE: "matches ((i, Once) # us) cs"
inductive_cases matches_plusE: "matches ((i, Plus) # us) cs"
inductive_cases matches_starE: "matches ((i, Star) # us) cs"

text \<open>How such a pattern is written, and what its translation is.\<close>

definition special_chars :: "char list" where
  "special_chars = [CHR ''.'', CHR ''*'', CHR ''+'', CHR ''?'', CHR 0x5C]"

definition atom_ok :: "atom \<Rightarrow> bool" where
  "atom_ok a \<longleftrightarrow> (case a of Lit c \<Rightarrow> 12 < (of_char c :: nat) \<and> c \<notin> set ''[]|{}~'' | _ \<Rightarrow> True)"

definition atom_text :: "atom \<Rightarrow> cstr" where
  "atom_text a =
     (case a of
        Lit c \<Rightarrow> (if c \<in> set special_chars then [CHR 0x5C, c] else [c])
      | Digit \<Rightarrow> [CHR 0x5C, CHR ''d''] | Lower \<Rightarrow> [CHR 0x5C, CHR ''a''] | Upper \<Rightarrow> [CHR 0x5C, CHR ''A''] | Any \<Rightarrow> ''.'')"

definition lit_code :: "char \<Rightarrow> char" where
  "lit_code c =
     (if c = CHR ''.'' then SPCHAR_DOT else if c = CHR ''*'' then SPCHAR_STAR else if c = CHR ''+'' then SPCHAR_PLUS
      else if c = CHR ''?'' then SPCHAR_QUESTION else if c = CHR 0x5C then SPCHAR_SLASH else c)"

definition atom_code :: "atom \<Rightarrow> char" where
  "atom_code a =
     (case a of Lit c \<Rightarrow> lit_code c | Digit \<Rightarrow> SPCHAR_NUMBER | Lower \<Rightarrow> SPCHAR_LOWCHAR | Upper \<Rightarrow> SPCHAR_HIGHCHAR
      | Any \<Rightarrow> SPCHAR_ALLCHAR)"

fun alt_text :: "(atom \<Rightarrow> cstr) \<Rightarrow> atom list \<Rightarrow> cstr" where
  "alt_text f [] = []"
| "alt_text f [a] = f a"
| "alt_text f (a # b # as) = f a @ CHR ''|'' # alt_text f (b # as)"

fun item_ok :: "item \<Rightarrow> bool" where
  "item_ok (Single a) \<longleftrightarrow> atom_ok a"
| "item_ok (OneOf as) \<longleftrightarrow> as \<noteq> [] \<and> list_all atom_ok as"

fun item_text :: "(atom \<Rightarrow> cstr) \<Rightarrow> item \<Rightarrow> cstr" where
  "item_text f (Single a) = f a"
| "item_text f (OneOf as) = CHR ''['' # alt_text f as @ '']''"

fun quant_text :: "quant \<Rightarrow> cstr" where
  "quant_text Once = []"
| "quant_text Opt = ''?''"
| "quant_text Star = ''*''"
| "quant_text Plus = ''+''"

definition pat_unit_text :: "(atom \<Rightarrow> cstr) \<Rightarrow> unit_spec \<Rightarrow> cstr" where
  "pat_unit_text f u = item_text f (fst u) @ quant_text (snd u)"

definition units_text :: "(atom \<Rightarrow> cstr) \<Rightarrow> unit_spec list \<Rightarrow> cstr" where
  "units_text f us = concat (map (pat_unit_text f) us)"

abbreviation pattern_text :: "unit_spec list \<Rightarrow> cstr" where "pattern_text \<equiv> units_text atom_text"
abbreviation unit_code :: "unit_spec \<Rightarrow> cstr" where "unit_code \<equiv> pat_unit_text (\<lambda>a. [atom_code a])"
abbreviation pattern_code :: "unit_spec list \<Rightarrow> cstr" where "pattern_code \<equiv> units_text (\<lambda>a. [atom_code a])"

definition unit_ok :: "unit_spec \<Rightarrow> bool" where "unit_ok u \<longleftrightarrow> item_ok (fst u)"

section \<open>Reading a pattern\<close>

lemma translate_plain: "c \<noteq> CHR 0x5C \<Longrightarrow> translate (c # cs) = plain_char c # translate cs"
  by (cases cs) auto

lemma translate_escape: "escape_char d = Some e \<Longrightarrow> translate (CHR 0x5C # d # cs) = e # translate cs"
  by simp

lemma translate_atom: "translate (atom_text a @ cs) = atom_code a # translate cs"
  by (cases a)
    (auto simp: atom_text_def atom_code_def lit_code_def special_chars_def translate_plain translate_escape escape_char_def
      plain_char_def)

lemma translate_alt: "as \<noteq> [] \<Longrightarrow> translate (alt_text atom_text as @ cs) = alt_text (\<lambda>a. [atom_code a]) as @ translate cs"
  by (induction "\<lambda>a. [atom_code a]" as rule: alt_text.induct) (auto simp: translate_atom translate_plain plain_char_def)

lemma translate_unit: "unit_ok u \<Longrightarrow> translate (pat_unit_text atom_text u @ cs) = unit_code u @ translate cs"
proof -
  assume u: "unit_ok u"
  have q: "translate (quant_text k @ cs) = quant_text k @ translate cs" for k
    by (cases k) (auto simp: translate_plain plain_char_def)
  show ?thesis
    using u by (cases "fst u") (auto simp: unit_ok_def pat_unit_text_def translate_atom translate_alt translate_plain plain_char_def q)
qed

lemma translate_pattern: "list_all unit_ok us \<Longrightarrow> translate (pattern_text us) = pattern_code us"
  by (induction us) (auto simp: units_text_def translate_unit)

lemma atom_code_plain: "atom_ok a \<Longrightarrow> atom_code a \<notin> set ''[]|{}?*+''"
  by (cases a) (auto simp: atom_ok_def atom_code_def lit_code_def)

lemma accepts_literal:
  assumes "12 < (of_char d :: nat)"
  shows "char_accepts c d = (c = d)"
proof -
  have "d \<noteq> SPCHAR_NUMBER" "d \<noteq> SPCHAR_LOWCHAR" "d \<noteq> SPCHAR_HIGHCHAR" "d \<noteq> SPCHAR_ALLCHAR" "d \<noteq> SPCHAR_DOT"
    "d \<noteq> SPCHAR_STAR" "d \<noteq> SPCHAR_PLUS" "d \<noteq> SPCHAR_QUESTION" "d \<noteq> SPCHAR_SLASH"
    using assms by auto
  then show ?thesis by (simp only: char_accepts_def if_False) blast
qed

lemma accepts_special: "char_accepts c SPCHAR_DOT = (c = CHR ''.'')" "char_accepts c SPCHAR_STAR = (c = CHR ''*'')"
  "char_accepts c SPCHAR_PLUS = (c = CHR ''+'')" "char_accepts c SPCHAR_QUESTION = (c = CHR ''?'')"
  "char_accepts c SPCHAR_SLASH = (c = CHR 0x5C)"
  by (simp_all add: char_accepts_def)

lemma accepts_lit: "12 < (of_char d :: nat) \<Longrightarrow> char_accepts c (lit_code d) = (c = d)"
  by (cases "d \<in> set special_chars") (auto simp: lit_code_def special_chars_def accepts_special accepts_literal)

lemma accepts_code: "atom_ok a \<Longrightarrow> char_accepts c (atom_code a) = atom_matches a c"
proof (cases a)
  case (Lit d)
  assume "atom_ok a"
  then show ?thesis using Lit by (simp add: atom_ok_def atom_code_def accepts_lit)
qed (simp_all add: atom_code_def char_accepts_def)

lemma alt_code_plain: "list_all atom_ok as \<Longrightarrow> \<forall>c \<in> set (alt_text (\<lambda>a. [atom_code a]) as). c \<noteq> CHR ''['' \<and> c \<noteq> CHR '']''"
proof (induction "\<lambda>a. [atom_code a]" as rule: alt_text.induct)
  case (2 a)
  then show ?case using atom_code_plain [of a] by auto
next
  case (3 a b as)
  then show ?case using atom_code_plain [of a] by auto
qed simp

lemma set_match_code:
  "as \<noteq> [] \<Longrightarrow> list_all atom_ok as \<Longrightarrow>
   set_match ret ch (alt_text (\<lambda>a. [atom_code a]) as @ CHR '']'' # q) = Some (if list_ex (\<lambda>a. atom_matches a ch) as then 0 else - 1)"
proof (induction "\<lambda>a. [atom_code a]" as arbitrary: ret rule: alt_text.induct)
  case (2 a)
  then show ?case using atom_code_plain [of a] by (auto simp: nCharMatch_def accepts_code)
next
  case (3 a b as)
  then show ?case using atom_code_plain [of a] by (auto simp: nCharMatch_def accepts_code)
qed simp

lemma unit_match_code: "unit_ok u \<Longrightarrow> unit_match ret ch (unit_code u) = Some (if item_matches (fst u) ch then 0 else - 1)"
proof (cases "fst u")
  case (Single a)
  assume "unit_ok u"
  then show ?thesis using Single atom_code_plain [of a]
    by (auto simp: unit_ok_def pat_unit_text_def unit_match_def nCharMatch_def accepts_code)
next
  case (OneOf as)
  assume "unit_ok u"
  then show ?thesis using OneOf
    by (cases as) (auto simp: unit_ok_def pat_unit_text_def unit_match_def set_match_code)
qed

definition quant_char :: "char \<Rightarrow> bool" where "quant_char c \<longleftrightarrow> c \<in> {CHR ''?'', CHR ''+'', CHR ''*'', CHR ''{''}"

lemma unit_code_start: "unit_ok u \<Longrightarrow> \<exists>c cs. unit_code u = c # cs \<and> \<not> quant_char c"
proof (cases "fst u")
  case (Single a)
  assume "unit_ok u"
  then show ?thesis using Single atom_code_plain [of a] by (auto simp: unit_ok_def pat_unit_text_def quant_char_def)
qed (simp add: pat_unit_text_def quant_char_def)

lemma pattern_code_start: "list_all unit_ok us \<Longrightarrow> pattern_code us = [] \<or> (\<exists>c cs. pattern_code us = c # cs \<and> \<not> quant_char c)"
  by (cases us) (auto simp: units_text_def dest: unit_code_start)

lemma take_quantifier_code:
  "list_all unit_ok us \<Longrightarrow> take_quantifier w (quant_text k @ pattern_code us) = Some (w @ quant_text k, pattern_code us)"
  using pattern_code_start [of us] by (cases k) (auto simp: take_quantifier_def quant_char_def)

lemma unit_read:
  assumes u: "unit_ok u" and us: "list_all unit_ok us"
  shows "iGetPatternUnit (unit_code u @ pattern_code us) = Some (unit_code u, pattern_code us)"
proof (cases "fst u")
  case (Single a)
  then show ?thesis using u us atom_code_plain [of a]
    by (auto simp: unit_ok_def pat_unit_text_def iGetPatternUnit_def take_quantifier_code)
next
  case (OneOf as)
  let ?A = "alt_text (\<lambda>a. [atom_code a]) as"
  let ?r = "quant_text (snd u) @ pattern_code us"
  have "list_all atom_ok as" using u OneOf by (simp add: unit_ok_def)
  from alt_code_plain [OF this] have p: "\<forall>c \<in> set ?A. c \<noteq> CHR '']''" by blast
  then have d: "dropWhile (\<lambda>c. c \<noteq> CHR '']'') (?A @ CHR '']'' # ?r) = CHR '']'' # ?r" by (subst dropWhile_append2) auto
  from p have t: "takeWhile (\<lambda>c. c \<noteq> CHR '']'') (?A @ CHR '']'' # ?r) = ?A" by (subst takeWhile_append2) auto
  show ?thesis
    using us OneOf by (simp add: pat_unit_text_def iGetPatternUnit_def d t take_quantifier_code)
qed

lemma next_unit:
  "list_all unit_ok us \<Longrightarrow>
   iGetPatternUnit (pattern_code us) = (case us of [] \<Rightarrow> Some ([], []) | v # vs \<Rightarrow> Some (unit_code v, pattern_code vs))"
  by (cases us) (simp_all add: units_text_def unit_nil unit_read [unfolded units_text_def])

lemma unit_code_some: "unit_ok u \<Longrightarrow> unit_code u \<noteq> []"
  using unit_code_start [of u] by auto

lemma unit_code_last:
  "unit_ok u \<Longrightarrow> (List.last (unit_code u) = CHR ''?'' \<longleftrightarrow> snd u = Opt) \<and> (List.last (unit_code u) = CHR ''+'' \<longleftrightarrow> snd u = Plus)
     \<and> (List.last (unit_code u) = CHR ''*'' \<longleftrightarrow> snd u = Star) \<and> List.last (unit_code u) \<noteq> CHR ''}''"
proof (cases "fst u")
  case (Single a)
  assume "unit_ok u"
  then show ?thesis using Single atom_code_plain [of a] by (cases "snd u") (auto simp: unit_ok_def pat_unit_text_def)
next
  case (OneOf as)
  then show ?thesis by (cases "snd u") (auto simp: pat_unit_text_def)
qed

lemma unit_step_code:
  "unit_ok u \<Longrightarrow>
   unit_step (unit_code u) cnt ret =
     (case snd u of
        Once \<Rightarrow> if ret = 0 then Advance True else Refuse ret
      | Opt \<Rightarrow> Advance (ret = 0)
      | Star \<Rightarrow> if ret = 0 then Again 0 else Advance False
      | Plus \<Rightarrow> if ret = 0 then Again cnt else if cnt \<le> 1 then Refuse (- 1) else Advance False)"
  using unit_code_last [of u] by (cases "snd u") (simp_all add: unit_step_def)

section \<open>Running a pattern\<close>

definition run_units :: "unit_spec list \<Rightarrow> cstr \<Rightarrow> int \<Rightarrow> int option" where
  "run_units us str ret =
     (case us of
        [] \<Rightarrow> Some (if str \<noteq> [] then - 1 else ret)
      | u # vs \<Rightarrow> match_loop str (unit_code u) (pattern_code vs) 0 True ret)"

definition may_stay :: "unit_spec \<Rightarrow> bool" where "may_stay u \<longleftrightarrow> snd u \<in> {Star, Plus}"
definition may_miss :: "unit_spec \<Rightarrow> bool" where "may_miss u \<longleftrightarrow> snd u \<in> {Star, Opt}"

lemma end_loop_empty: "end_loop [] rest cnt first ret = Some ret"
  by (subst end_loop.simps) simp

lemma end_loop_code:
  "list_all unit_ok (u # us) \<Longrightarrow>
   end_loop (unit_code u) (pattern_code us) cnt first ret =
     Some (if list_all (if first then may_miss else may_stay) (u # us) then ret else - 1)"
proof (induction us arbitrary: u)
  case Nil
  then show ?case using unit_code_last [of u] unit_code_some [of u]
    by (subst end_loop.simps) (cases "snd u"; auto simp: Let_def next_unit may_miss_def may_stay_def end_loop_empty)
next
  case (Cons v vs)
  have o: "unit_ok u" "list_all unit_ok (v # vs)" using Cons.prems by auto
  show ?case using unit_code_last [OF o(1)] unit_code_some [OF o(1)] Cons.IH [OF o(2)] next_unit [OF o(2)]
    by (subst end_loop.simps) (cases "snd u"; auto simp: Let_def may_miss_def may_stay_def)
qed

lemma match_loop_empty: "match_loop str [] rest cnt first ret = Some (if str \<noteq> [] then - 1 else ret)"
  by (subst match_loop.simps) simp

lemma match_end:
  "list_all unit_ok (u # us) \<Longrightarrow>
   match_loop [] (unit_code u) (pattern_code us) cnt first ret =
     Some (if list_all (if first then may_miss else may_stay) (u # us) then ret else - 1)"
  using unit_code_some [of u] by (subst match_loop.simps) (simp add: end_loop_code)

lemma match_char:
  assumes o: "list_all unit_ok (u # us)" and m: "ret1 = (if item_matches (fst u) c then 0 else - 1)"
  shows "match_loop (c # cs) (unit_code u) (pattern_code us) cnt first ret =
     (case unit_step (unit_code u) (cnt + 1) ret1 of
        Refuse r \<Rightarrow> Some r
      | Again cnt1 \<Rightarrow> match_loop cs (unit_code u) (pattern_code us) cnt1 False ret1
      | Advance consume \<Rightarrow> run_units us (if consume then cs else c # cs) ret1)"
proof -
  have "(case iGetPatternUnit (pattern_code us) of None \<Rightarrow> None
         | Some (v, r) \<Rightarrow> match_loop str v r 0 True w) = run_units us str w" for str w
    using o by (cases us) (simp_all add: next_unit run_units_def match_loop_empty)
  then show ?thesis
    using o unit_code_some [of u] m
    by (subst match_loop.simps) (cases "unit_step (unit_code u) (cnt + 1) ret1"; simp add: unit_match_code)
qed

lemma run_end:
  "list_all unit_ok us \<Longrightarrow> run_units us [] ret = Some (if list_all may_miss us then ret else - 1)"
  by (cases us) (simp_all add: run_units_def match_end)

lemma run_once:
  "list_all unit_ok ((i, Once) # us) \<Longrightarrow>
   run_units ((i, Once) # us) (c # cs) ret = (if item_matches i c then run_units us cs 0 else Some (- 1))"
  using match_char [OF _ refl, of "(i, Once)" us c cs 0 True ret] by (simp add: run_units_def unit_step_code)

lemma run_opt:
  "list_all unit_ok ((i, Opt) # us) \<Longrightarrow>
   run_units ((i, Opt) # us) (c # cs) ret = (if item_matches i c then run_units us cs 0 else run_units us (c # cs) (- 1))"
  using match_char [OF _ refl, of "(i, Opt)" us c cs 0 True ret] by (simp add: run_units_def unit_step_code)

lemma star_step:
  "list_all unit_ok ((i, Star) # us) \<Longrightarrow>
   match_loop (c # cs) (unit_code (i, Star)) (pattern_code us) cnt first ret =
     (if item_matches i c then match_loop cs (unit_code (i, Star)) (pattern_code us) 0 False 0 else run_units us (c # cs) (- 1))"
  using match_char [OF _ refl, of "(i, Star)" us c cs cnt first ret] by (simp add: unit_step_code)

lemma plus_step:
  "list_all unit_ok ((i, Plus) # us) \<Longrightarrow>
   match_loop (c # cs) (unit_code (i, Plus)) (pattern_code us) cnt first ret =
     (if item_matches i c then match_loop cs (unit_code (i, Plus)) (pattern_code us) (cnt + 1) False 0
      else if cnt \<le> 0 then Some (- 1) else run_units us (c # cs) (- 1))"
  using match_char [OF _ refl, of "(i, Plus)" us c cs cnt first ret] by (simp add: unit_step_code)

lemma string_match_run:
  "list_all unit_ok us \<Longrightarrow> nStringMatch_a str (pattern_text us) = run_units us str (- 1)"
  by (cases us) (simp_all add: nStringMatch_a_def translate_pattern next_unit run_units_def match_loop_empty)

section \<open>Accepted texts\<close>

lemma may_miss_matches: "list_all may_miss us \<Longrightarrow> matches us []"
  by (induction us) (auto simp: may_miss_def)

lemma matches_empty: "matches us [] = list_all may_miss us"
proof
  show "matches us [] \<Longrightarrow> list_all may_miss us"
    by (induction us "[] :: cstr" rule: matches.induct) (auto simp: may_miss_def)
qed (rule may_miss_matches)

text \<open>What lies behind a repetition must not be taken for repeated units only: at the end of the text the flag of the
  repetition is kept for all units behind it.\<close>

fun plus_safe :: "unit_spec list \<Rightarrow> bool" where
  "plus_safe [] \<longleftrightarrow> True"
| "plus_safe (u # us) \<longleftrightarrow> plus_safe us \<and> (may_stay u \<longrightarrow> list_all may_stay us \<longrightarrow> list_all may_miss us)"

lemma star_sound:
  assumes o: "list_all unit_ok ((i, Star) # us)" and p: "plus_safe ((i, Star) # us)"
    and us: "\<And>str ret. run_units us str ret = Some 0 \<Longrightarrow> matches us str"
  shows "match_loop str (unit_code (i, Star)) (pattern_code us) cnt first ret = Some 0 \<Longrightarrow> matches ((i, Star) # us) str"
proof (induction str arbitrary: cnt first ret)
  case Nil
  then have "list_all may_miss us"
    using p by (cases first) (auto simp: match_end [OF o] may_stay_def split: if_splits)
  then show ?case by (auto intro: may_miss_matches)
next
  case (Cons c cs)
  then show ?case by (auto simp: star_step [OF o] split: if_splits dest: us)
qed

lemma plus_sound:
  assumes o: "list_all unit_ok ((i, Plus) # us)" and p: "plus_safe ((i, Plus) # us)"
    and us: "\<And>str ret. run_units us str ret = Some 0 \<Longrightarrow> matches us str"
  shows "match_loop str (unit_code (i, Plus)) (pattern_code us) cnt False ret = Some 0 \<Longrightarrow> matches ((i, Star) # us) str"
proof (induction str arbitrary: cnt ret)
  case Nil
  then have "list_all may_miss us"
    using p by (auto simp: match_end [OF o] may_stay_def split: if_splits)
  then show ?case by (auto intro: may_miss_matches)
next
  case (Cons c cs)
  then show ?case by (auto simp: plus_step [OF o] split: if_splits dest: us)
qed

lemma run_sound: "list_all unit_ok us \<Longrightarrow> plus_safe us \<Longrightarrow> run_units us str ret = Some 0 \<Longrightarrow> matches us str"
proof (induction us arbitrary: str ret)
  case Nil
  then show ?case by (auto simp: run_units_def split: if_splits)
next
  case (Cons u us)
  obtain i q where u: "u = (i, q)" by (cases u)
  have us: "\<And>str ret. run_units us str ret = Some 0 \<Longrightarrow> matches us str" using Cons by auto
  show ?case
  proof (cases str)
    case Nil
    then show ?thesis using Cons.prems run_end [OF Cons.prems(1)] by (auto intro: may_miss_matches split: if_splits)
  next
    case (Cons c cs)
    show ?thesis
    proof (cases q)
      case Star
      then show ?thesis using star_sound [of i us] Cons.prems us u by (auto simp: run_units_def)
    next
      case Plus
      have o: "list_all unit_ok ((i, Plus) # us)" using Cons.prems u Plus by simp
      have p: "plus_safe ((i, Plus) # us)" using Cons.prems u Plus by simp
      have "item_matches i c \<and> match_loop cs (unit_code (i, Plus)) (pattern_code us) 1 False 0 = Some 0"
        using Cons.prems(3) u Plus \<open>str = c # cs\<close> by (auto simp: run_units_def plus_step [OF o] split: if_splits)
      moreover from this have "matches ((i, Star) # us) cs"
        by (intro plus_sound [OF o p, where cnt = 1 and ret = 0]) (auto dest: us)
      ultimately show ?thesis using u Plus \<open>str = c # cs\<close> by auto
    qed (use Cons.prems u us \<open>str = c # cs\<close> in \<open>auto simp: run_once run_opt split: if_splits\<close>)
  qed
qed

text \<open>A pattern the matcher can follow without going back: what an optional or repeated unit matches cannot start what is
  behind it, and the flag at the end of the text is right for all units behind a repetition.\<close>

fun may_start :: "unit_spec list \<Rightarrow> char \<Rightarrow> bool" where
  "may_start [] c \<longleftrightarrow> False"
| "may_start (u # us) c \<longleftrightarrow> item_matches (fst u) c \<or> may_miss u \<and> may_start us c"

fun deterministic :: "unit_spec list \<Rightarrow> bool" where
  "deterministic [] \<longleftrightarrow> True"
| "deterministic (u # us) \<longleftrightarrow>
     deterministic us
     \<and> (snd u \<noteq> Once \<longrightarrow> (\<forall>c. item_matches (fst u) c \<longrightarrow> \<not> may_start us c))
     \<and> (may_stay u \<longrightarrow> list_all may_stay us = list_all may_miss us)"

lemma deterministic_safe: "deterministic us \<Longrightarrow> plus_safe us"
  by (induction us) auto

lemma matches_start: "matches us str \<Longrightarrow> str = c # cs \<Longrightarrow> may_start us c"
  by (induction arbitrary: c cs rule: matches.induct) (auto simp: may_miss_def)

lemma star_complete:
  assumes o: "list_all unit_ok ((i, Star) # us)" and d: "deterministic ((i, Star) # us)"
    and us: "\<And>c cs ret. matches us (c # cs) \<Longrightarrow> run_units us (c # cs) ret = Some 0"
  shows "matches ((i, Star) # us) str \<Longrightarrow> (str = [] \<longrightarrow> ret = 0) \<Longrightarrow>
    match_loop str (unit_code (i, Star)) (pattern_code us) cnt first ret = Some 0"
proof (induction str arbitrary: cnt first ret)
  case Nil
  then have "list_all may_miss ((i, Star) # us)" by (simp only: matches_empty)
  then show ?case using Nil d by (auto simp: match_end [OF o] may_stay_def may_miss_def)
next
  case (Cons c cs)
  show ?case
  proof (cases "item_matches i c")
    case True
    then have "\<not> matches us (c # cs)" using d matches_start [of us "c # cs"] by auto
    then have "matches ((i, Star) # us) cs" using Cons.prems(1) by (auto elim: matches_starE)
    then show ?thesis using Cons.IH True by (simp add: star_step [OF o])
  next
    case False
    then have "matches us (c # cs)" using Cons.prems(1) by (auto elim: matches_starE)
    then show ?thesis using False us by (simp add: star_step [OF o])
  qed
qed

lemma plus_complete:
  assumes o: "list_all unit_ok ((i, Plus) # us)" and d: "deterministic ((i, Plus) # us)"
    and us: "\<And>c cs ret. matches us (c # cs) \<Longrightarrow> run_units us (c # cs) ret = Some 0"
  shows "matches ((i, Star) # us) str \<Longrightarrow> 0 < cnt \<Longrightarrow>
    match_loop str (unit_code (i, Plus)) (pattern_code us) cnt False 0 = Some 0"
proof (induction str arbitrary: cnt)
  case Nil
  then have "list_all may_miss ((i, Star) # us)" by (simp only: matches_empty)
  then show ?case using d by (auto simp: match_end [OF o] may_stay_def may_miss_def)
next
  case (Cons c cs)
  show ?case
  proof (cases "item_matches i c")
    case True
    then have "\<not> matches us (c # cs)" using d matches_start [of us "c # cs"] by auto
    then have "matches ((i, Star) # us) cs" using Cons.prems(1) by (auto elim: matches_starE)
    then show ?thesis using Cons True by (simp add: plus_step [OF o])
  next
    case False
    then have "matches us (c # cs)" using Cons.prems(1) by (auto elim: matches_starE)
    then show ?thesis using False us Cons.prems(2) by (simp add: plus_step [OF o])
  qed
qed

inductive_cases matches_optE: "matches ((i, Opt) # us) cs"

lemma run_complete:
  "list_all unit_ok us \<Longrightarrow> deterministic us \<Longrightarrow> matches us str \<Longrightarrow> (str = [] \<longrightarrow> ret = 0) \<Longrightarrow> run_units us str ret = Some 0"
proof (induction us arbitrary: str ret)
  case Nil
  then show ?case by (auto simp: run_units_def elim: matches_nilE)
next
  case (Cons u us)
  obtain i q where u: "u = (i, q)" by (cases u)
  have us: "run_units us cs ret = Some 0" if "matches us cs" "cs = [] \<longrightarrow> ret = 0" for cs ret using Cons that by auto
  show ?case
  proof (cases str)
    case Nil
    then show ?thesis using Cons.prems run_end [OF Cons.prems(1)] by (auto simp: matches_empty)
  next
    case (Cons c cs)
    have m: "matches (u # us) (c # cs)" using Cons.prems(3) \<open>str = c # cs\<close> by simp
    show ?thesis
    proof (cases q)
      case Once
      then have "item_matches i c \<and> matches us cs" using m u by (auto elim: matches_onceE)
      then show ?thesis using run_once [of i us c cs ret] Once u \<open>str = c # cs\<close> Cons.prems(1) us [of cs 0] by simp
    next
      case Opt
      have o: "list_all unit_ok ((i, Opt) # us)" using Cons.prems u Opt by simp
      show ?thesis
      proof (cases "item_matches i c")
        case True
        then have "\<not> matches us (c # cs)" using Cons.prems(2) u Opt matches_start [of us "c # cs"] by auto
        then have "matches us cs" using m u Opt by (auto elim: matches_optE)
        then show ?thesis using True us [of cs 0] u Opt \<open>str = c # cs\<close> by (simp add: run_opt [OF o])
      next
        case False
        then have "matches us (c # cs)" using m u Opt by (auto elim: matches_optE)
        then show ?thesis using False us [of "c # cs"] u Opt \<open>str = c # cs\<close> by (simp add: run_opt [OF o])
      qed
    next
      case Star
      then show ?thesis using star_complete [of i us "c # cs" ret] Cons.prems u m us \<open>str = c # cs\<close> by (simp add: run_units_def)
    next
      case Plus
      have o: "list_all unit_ok ((i, Plus) # us)" using Cons.prems u Plus by simp
      have "item_matches i c \<and> matches ((i, Star) # us) cs" using m u Plus by (auto elim: matches_plusE)
      then show ?thesis
        using plus_complete [of i us cs 1] Cons.prems u Plus us \<open>str = c # cs\<close> by (simp add: run_units_def plus_step [OF o])
    qed
  qed
qed

lemma pattern_head: "list_all unit_ok us \<Longrightarrow> pattern_text us = [] \<or> List.hd (pattern_text us) \<noteq> CHR ''~''"
proof (cases us)
  case (Cons u vs)
  assume "list_all unit_ok us"
  then show ?thesis using Cons
    by (cases "fst u"; cases "case fst u of Single a \<Rightarrow> a | OneOf as \<Rightarrow> Any")
      (auto simp: units_text_def pat_unit_text_def unit_ok_def atom_ok_def atom_text_def)
qed (simp add: units_text_def)

lemma regex_match_run:
  "list_all unit_ok us \<Longrightarrow> pub_regex_match (Some str) (Some (pattern_text us)) = run_units us str (- 1)"
  using pattern_head [of us] by (auto simp: pub_regex_match_def string_match_run)

lemma unit_result:
  assumes o: "list_all unit_ok (u # us)" and us: "\<And>str ret. ret \<in> {0, - 1} \<Longrightarrow> run_units us str ret \<in> {Some 0, Some (- 1)}"
  shows "ret \<in> {0, - 1} \<Longrightarrow> match_loop str (unit_code u) (pattern_code us) cnt first ret \<in> {Some 0, Some (- 1)}"
proof (induction str arbitrary: cnt first ret)
  case Nil
  then show ?case by (auto simp: match_end [OF o])
next
  case (Cons c cs)
  have "unit_ok u" using o by simp
  show ?case
    using us [of 0 cs] us [of "- 1" "c # cs"] Cons.IH [of 0]
    by (cases "snd u"; cases "item_matches (fst u) c")
      (simp_all add: match_char [OF o refl] unit_step_code [OF \<open>unit_ok u\<close>])
qed

lemma run_result: "list_all unit_ok us \<Longrightarrow> ret \<in> {0, - 1} \<Longrightarrow> run_units us str ret \<in> {Some 0, Some (- 1)}"
proof (induction us arbitrary: str ret)
  case Nil
  then show ?case by (auto simp: run_units_def)
next
  case (Cons u us)
  show ?case
    using unit_result [OF Cons.prems(1), of ret str 0 True] Cons.IH Cons.prems by (simp add: run_units_def)
qed

section \<open>What the matcher decides\<close>

text \<open>C17: The pattern matcher decides the patterns that it can follow without going back.  Such a pattern is a sequence of
  units; a unit is a character (escaped where it is special; not one of the brackets, braces, the bar and the tilde, nor
  a control character), one of the classes for digits, small and capital letters, the dot, or a set of these in square
  brackets, and stands alone or has one of the quantifiers \<^verbatim>\<open>?\<close>, \<^verbatim>\<open>*\<close> and \<^verbatim>\<open>+\<close> (counts in braces and the negation are
  not among them).  Two conditions make it deterministic: no character that a unit with a quantifier accepts can start
  what follows the unit, and the units behind one with \<^verbatim>\<open>*\<close> or \<^verbatim>\<open>+\<close> all have \<^verbatim>\<open>*\<close> or \<^verbatim>\<open>+\<close> exactly when they all have
  \<^verbatim>\<open>*\<close> or \<^verbatim>\<open>?\<close>.  For these patterns, on a text that is not empty, the matcher returns 0 when the text is in the
  language of the pattern and -1 when it is not.\<close>

theorem matcher_decides:
  assumes "list_all unit_ok us" and "deterministic us" and "str \<noteq> []"
  shows "pub_regex_match (Some str) (Some (pattern_text us)) = Some (if matches us str then 0 else - 1)"
proof -
  have "matches us str \<longleftrightarrow> run_units us str (- 1) = Some 0"
    using run_complete [OF assms(1,2), of str "- 1"] run_sound [OF assms(1) deterministic_safe [OF assms(2)]] assms(3) by blast
  then show ?thesis using run_result [OF assms(1), of "- 1" str] assms(1) by (auto simp: regex_match_run)
qed

definition number_pattern :: "unit_spec list" where
  "number_pattern = [(OneOf [Lit (CHR ''-''), Lit (CHR ''+'')], Opt), (Single Digit, Plus), (Single (Lit (CHR ''.'')), Once), (Single Digit, Star)]"

lemma number_ok: "list_all unit_ok number_pattern"
  by (simp add: number_pattern_def unit_ok_def atom_ok_def)

lemma number_deterministic: "deterministic number_pattern"
  by (auto simp: number_pattern_def may_stay_def may_miss_def in_range_def)

lemma number_text: "pattern_text number_pattern = ''[-|'' @ CHR 0x5C # ''+]?'' @ CHR 0x5C # ''d+'' @ CHR 0x5C # ''.'' @ CHR 0x5C # ''d*''"
  by (simp add: number_pattern_def units_text_def pat_unit_text_def atom_text_def special_chars_def)

lemma number_matches: "matches number_pattern ''+12.5''"
  by (simp add: number_pattern_def) (rule matches_take, simp, rule matches_plus, simp add: in_range_def,
    rule matches_more, simp add: in_range_def, rule matches_stop, rule matches_once, simp, rule matches_more, simp add: in_range_def,
    rule matches_stop, rule matches_nil)

theorem matcher_decides_witness:
  "pub_regex_match (Some ''+12.5'') (Some (pattern_text number_pattern)) = Some 0"
  using matcher_decides [OF number_ok number_deterministic, of "''+12.5''"] number_matches by simp

text \<open>C18: What the matcher accepts is in the language of the pattern, for all sequences of units as in the property before
  (so without counts in braces), also those it cannot follow exactly, as long as no unit with \<^verbatim>\<open>*\<close> or \<^verbatim>\<open>+\<close> is followed
  by units with \<^verbatim>\<open>*\<close> or \<^verbatim>\<open>+\<close> only among which there is a \<^verbatim>\<open>+\<close>: \<^verbatim>\<open>a*ab\<close> may be refused for \<^verbatim>\<open>aab\<close>, but nothing is
  accepted that does not fit.\<close>

theorem accepted_fits:
  assumes "list_all unit_ok us" and "plus_safe us" and "pub_regex_match (Some str) (Some (pattern_text us)) = Some 0"
  shows "matches us str"
  using run_sound [OF assms(1,2), of str "- 1"] assms(1,3) by (simp add: regex_match_run)

theorem accepted_fits_witness: "matches [(Single (Lit (CHR ''a'')), Star), (Single Any, Once)] ''aab''"
proof -
  let ?us = "[(Single (Lit (CHR ''a'')), Star), (Single Any, Once)]"
  have o: "list_all unit_ok ?us" by (simp add: unit_ok_def atom_ok_def)
  have "run_units ?us ''aab'' (- 1) = Some 0"
    using o by (simp add: run_units_def [of ?us] star_step run_once) (simp add: run_units_def)
  then show ?thesis
    by (intro accepted_fits [OF o]) (simp_all only: regex_match_run [OF o], simp add: may_stay_def)
qed

text \<open>Where it is wrong: behind a repetition that reaches the end of the text a \<^verbatim>\<open>+\<close> counts as present.\<close>

theorem repeated_plus_missing:
  assumes i: "item_ok i" "item_ok j" and str: "str \<noteq> []" "\<forall>c \<in> set str. item_matches i c \<and> \<not> item_matches j c"
  shows "pub_regex_match (Some str) (Some (pattern_text [(i, Star), (j, Plus)])) = Some 0
    \<and> \<not> matches [(i, Star), (j, Plus)] str"
proof -
  let ?us = "[(i, Star), (j, Plus)]"
  have o: "list_all unit_ok ?us" using i by (simp add: unit_ok_def)
  have run_units: "\<forall>c \<in> set s. item_matches i c \<Longrightarrow>
    match_loop s (unit_code (i, Star)) (pattern_code [(j, Plus)]) cnt False 0 = Some 0" for s cnt
    by (induction s arbitrary: cnt) (simp_all add: match_end [OF o] star_step [OF o] may_stay_def)
  obtain c cs where s: "str = c # cs" using str(1) by (cases str) auto
  have "run_units ?us str (- 1) = Some 0"
    using run_units [of cs 0] str(2) s by (simp add: run_units_def [of ?us] star_step [OF o])
  moreover have "\<not> matches ?us t" if "\<forall>c \<in> set t. \<not> item_matches j c" for t
    using that by (induction t) (auto elim!: matches_starE matches_plusE)
  ultimately show ?thesis using str(2) by (simp add: regex_match_run [OF o])
qed

text \<open>The empty text: only the code the search started with is left, so even a pattern that may be missing refuses it.\<close>

lemma empty_text_refused: "list_all unit_ok us \<Longrightarrow> pub_regex_match (Some []) (Some (pattern_text us)) = Some (- 1)"
  by (simp add: regex_match_run run_end)

text \<open>Counts in braces are not looked at once the text has ended: only a count that starts with it is refused.\<close>

lemma braces_at_end: "pub_regex_match (Some ''a'') (Some ''ab{2}'') = Some 0"
  by code_simp

lemma braces_unfinished: "pub_regex_match (Some ''ab'') (Some ''ab{1,2}'') = Some (- 1)"
  by code_simp

lemma braces_counted: "pub_regex_match (Some ''abbb'') (Some ''ab{2,3}'') = Some 0"
  by code_simp

lemma escaped_brace_refused: "pub_regex_match (Some ''{'') (Some (CHR 0x5C # ''{'')) = Some (- 1)"
  by code_simp

text \<open>The negation: the answer of the pattern in the parentheses is turned round.\<close>

lemma negation_turns:
  assumes us: "list_all unit_ok us" "deterministic us" and str: "str \<noteq> []"
  shows "pub_regex_match (Some str) (Some (''~('' @ pattern_text us @ '')'')) = Some (if matches us str then - 1 else 0)"
proof -
  have "matches us str \<longleftrightarrow> run_units us str (- 1) = Some 0"
    using run_complete [OF us, of str "- 1"] run_sound [OF us(1) deterministic_safe [OF us(2)]] str by blast
  then show ?thesis
    using run_result [OF us(1), of "- 1" str]
    by (auto simp: pub_regex_match_def string_match_run [OF us(1)] butlast_append simp del: map_option_eq_Some)
qed

end
