(* ===== verification/Pub_Route.thy ===== *)
theory Pub_Route
  imports Prelude Sem_Lock Mtype_Limit Mtype Procs Procs_Table Msg_Trans
begin

text \<open>
  The routing of messages, \<^verbatim>\<open>core/pub_route.c\<close>: every session keeps a stack of the requests that wait for an
  answer, in the variable \<^verbatim>\<open>$$REOUTE\<close> that travels with it.  A request is put on the stack and sent to a process of
  its destination; a response takes the last request off and goes back to where that request came from.  The file rests
  on the process table (\<open>Procs\<close>), the session table (\<open>Mtype\<close>) and the message queues (\<open>Msg_Trans\<close>).  The properties:
  responses return in the order of nested calls, and a message that is sent lies in the mailbox of its session in the
  queue of the chosen process.
\<close>

section \<open>The stack of requests\<close>

abbreviation (input) SW_MAX_CMD :: nat where "SW_MAX_CMD \<equiv> 20"
abbreviation (input) SW_MSG_RES :: int where "SW_MSG_RES \<equiv> 1001"
abbreviation (input) SW_STORE :: int where "SW_STORE \<equiv> 1003"
abbreviation (input) SW_FORGET :: int where "SW_FORGET \<equiv> 1004"
abbreviation (input) SW_DEL :: int where "SW_DEL \<equiv> 1005"
abbreviation (input) SW_TASKREQ :: int where "SW_TASKREQ \<equiv> 605"
abbreviation (input) SW_TASKRES :: int where "SW_TASKRES \<equiv> 606"
abbreviation (input) SW_CALLREQ :: int where "SW_CALLREQ \<equiv> 607"
abbreviation (input) SW_CALLRES :: int where "SW_CALLRES \<equiv> 608"
abbreviation (input) SW_POSTREQ :: int where "SW_POSTREQ \<equiv> 609"
abbreviation (input) SW_POSTRES :: int where "SW_POSTRES \<equiv> 610"
abbreviation (input) SW_CALLLSNREQ :: int where "SW_CALLLSNREQ \<equiv> 612"
abbreviation (input) SW_CALLLSNRES :: int where "SW_CALLLSNRES \<equiv> 613"
abbreviation (input) SW_LINKLSNREQ :: int where "SW_LINKLSNREQ \<equiv> 614"
abbreviation (input) SW_LINKLSNRES :: int where "SW_LINKLSNRES \<equiv> 615"
abbreviation (input) SW_POSTLSNREQ :: int where "SW_POSTLSNREQ \<equiv> 616"
abbreviation (input) SW_POSTLSNRES :: int where "SW_POSTLSNRES \<equiv> 617"
abbreviation (input) SW_LINKNULL :: int where "SW_LINKNULL \<equiv> 618"
abbreviation (input) ND_LSN :: int where "ND_LSN \<equiv> 101"
abbreviation (input) ND_SVC :: int where "ND_SVC \<equiv> 500"
abbreviation (input) ND_SAF :: int where "ND_SAF \<equiv> 60"

record sw_task_hd =
  th_task_max :: int
  th_task_curr :: int
  th_cmd :: "sw_cmd list"

definition zero_cmd :: sw_cmd where
  "zero_cmd = \<lparr>cm_trace_no = 0, cm_mtype = 0, cm_timeout = 0, cm_start_line = 0, cm_dst_type = 0, cm_ori_type = 0,
     cm_msg_type = 0, cm_task_flg = 0, cm_type = 0, cm_level = 0, cm_status = 0, cm_ori_def = [], cm_lsn_name = [],
     cm_def_name = [], cm_dst_prdt = [], cm_dst_svr = [], cm_dst_svc = [], cm_ori_prdt = [], cm_ori_svr = [],
     cm_ori_svc = [], cm_sys_date = [], cm_udp_name = []\<rparr>"

text \<open>What the routing uses of a session's variables: the stack, the communication type, whether they still exist, and
  what was written back for the next process.\<close>

record route_vars =
  rv_tasks :: "sw_task_hd option"
  rv_comtype :: cstr
  rv_destroyed :: bool
  rv_stored :: "sw_task_hd option"

definition route_alloc :: "bool \<Rightarrow> route_vars option \<Rightarrow> int \<times> sw_task_hd option \<times> route_vars option" where
  "route_alloc room var =
     (case var of
        None \<Rightarrow> (SW_ERR, None, None)
      | Some v \<Rightarrow>
          (case rv_tasks v of
             Some h \<Rightarrow> (SW_OK, Some h, var)
           | None \<Rightarrow>
               if \<not> room then (SW_ERR, None, var)
               else
                 let h = \<lparr>th_task_max = int SW_MAX_CMD, th_task_curr = 0, th_cmd = replicate SW_MAX_CMD zero_cmd\<rparr> in
                 (SW_OK, Some h, Some (v\<lparr>rv_tasks := Some h\<rparr>))))"

definition cmd_at :: "int \<Rightarrow> sw_task_hd \<Rightarrow> sw_cmd option" where
  "cmd_at i h = (if 0 \<le> i \<and> nat i < length (th_cmd h) then Some (th_cmd h ! nat i) else None)"

definition put_cmd :: "int \<Rightarrow> sw_cmd \<Rightarrow> sw_task_hd \<Rightarrow> sw_task_hd option" where
  "put_cmd i c h = (if 0 \<le> i \<and> nat i < length (th_cmd h) then Some (h\<lparr>th_cmd := (th_cmd h)[nat i := c]\<rparr>) else None)"

definition route_add_cmd :: "sw_task_hd option \<Rightarrow> sw_cmd option \<Rightarrow> (int \<times> sw_task_hd option) option" where
  "route_add_cmd head cmd =
     (case (head, cmd) of
        (Some h, Some c) \<Rightarrow>
          if th_task_max h \<le> th_task_curr h then Some (SW_ERR, head)
          else do {
            h1 \<leftarrow> put_cmd (th_task_curr h) c h;
            Some (SW_OK, Some (h1\<lparr>th_task_curr := s32 (th_task_curr h + 1)\<rparr>))
          }
      | _ \<Rightarrow> Some (SW_ERR, head))"

definition route_del_cur_cmd :: "sw_task_hd option \<Rightarrow> (int \<times> sw_task_hd option) option" where
  "route_del_cur_cmd head =
     (case head of
        None \<Rightarrow> Some (SW_ERR, head)
      | Some h \<Rightarrow>
          if th_task_curr h \<le> 0 then Some (SW_ERR, head)
          else do {
            h1 \<leftarrow> put_cmd (th_task_curr h - 1) zero_cmd (h\<lparr>th_task_curr := th_task_curr h - 1\<rparr>);
            Some (SW_OK, Some h1)
          })"

text \<open>The response takes over the addresses of the last request, turned round, its type and line, and the flow of the
  request below it.\<close>

definition turned :: "sw_cmd \<Rightarrow> sw_cmd \<Rightarrow> sw_cmd" where
  "turned req c = c\<lparr>cm_dst_prdt := cm_ori_prdt req, cm_dst_svc := cm_ori_svc req, cm_dst_svr := cm_ori_svr req,
     cm_ori_prdt := cm_dst_prdt req, cm_ori_svc := cm_dst_svc req, cm_ori_svr := cm_dst_svr req, cm_type := cm_type req\<rparr>"

definition route_recov_cmd :: "sw_task_hd option \<Rightarrow> sw_cmd option \<Rightarrow> (int \<times> sw_cmd option \<times> sw_task_hd option) option" where
  "route_recov_cmd head cmd =
     (case cmd of
        None \<Rightarrow> Some (SW_ERR, cmd, head)
      | Some c \<Rightarrow> do {
          h \<leftarrow> head;
          let curr = th_task_curr h;
          (if curr < 1 then Some (SW_ERR, cmd, head)
           else if cm_msg_type c \<noteq> SW_MSG_RES then Some (SW_OK, cmd, head)
           else do {
             req \<leftarrow> cmd_at (curr - 1) h;
             let c1 = turned req c;
             c2 \<leftarrow> (if 2 \<le> curr then do {
                      below \<leftarrow> cmd_at (curr - 2) h;
                      Some (c1\<lparr>cm_def_name := cm_def_name below\<rparr>)
                    } else Some c1);
             let c3 = (if curr = 1 \<and> cm_task_flg req = SW_DEL then c2\<lparr>cm_task_flg := SW_DEL\<rparr> else c2);
             let c4 = c3\<lparr>cm_dst_type := cm_ori_type req, cm_start_line := cm_start_line req\<rparr>;
             (_, head1) \<leftarrow> route_del_cur_cmd head;
             Some (SW_OK, Some c4, head1)
           })
        })"

definition route_cmd_tpye_change :: "sw_cmd option \<Rightarrow> int \<times> sw_cmd option" where
  "route_cmd_tpye_change cmd =
     (case cmd of
        None \<Rightarrow> (SW_ERR, None)
      | Some c \<Rightarrow>
          let t = cm_type c in
          (SW_OK, Some (c\<lparr>cm_type :=
             if t = SW_TASKREQ then SW_TASKRES
             else if t = SW_CALLLSNREQ then SW_CALLLSNRES
             else if t = SW_CALLREQ then SW_CALLRES
             else if t = SW_POSTLSNREQ then SW_POSTLSNRES
             else if t = SW_POSTREQ then SW_POSTRES
             else if t = SW_LINKLSNREQ then SW_LINKLSNRES
             else t\<rparr>)))"

definition route_free :: "route_vars option \<Rightarrow> int \<times> route_vars option" where
  "route_free var = (case var of None \<Rightarrow> (SW_ERR, None) | Some v \<Rightarrow> (SW_OK, Some (v\<lparr>rv_tasks := None\<rparr>)))"

section \<open>Sending to the destination\<close>

text \<open>The tables the routing works on; the semaphores are the same for both tables.\<close>

record route_world =
  rt_procs :: procs_world
  rt_mtypes :: mtype_world
  rt_ipc :: ipc_world
  rt_self :: msg_proc
  rt_vars :: "route_vars option"

definition put_procs_world :: "procs_world \<Rightarrow> route_world \<Rightarrow> route_world" where
  "put_procs_world pw w =
     w\<lparr>rt_procs := pw, rt_mtypes := (rt_mtypes w)\<lparr>kernel_sems := kernel_sems pw, g_sem_lock := g_sem_lock pw\<rparr>\<rparr>"

definition put_mtype_world :: "mtype_world \<Rightarrow> route_world \<Rightarrow> route_world" where
  "put_mtype_world mw w =
     w\<lparr>rt_mtypes := mw, rt_procs := (rt_procs w)\<lparr>kernel_sems := kernel_sems mw, g_sem_lock := g_sem_lock mw\<rparr>\<rparr>"

definition put_tasks :: "sw_task_hd option \<Rightarrow> route_world \<Rightarrow> route_world" where
  "put_tasks head w = w\<lparr>rt_vars := map_option (\<lambda>v. v\<lparr>rv_tasks := head\<rparr>) (rt_vars w)\<rparr>"

type_synonym route_answer = "int \<times> sw_cmd \<times> route_world"

text \<open>The process a message goes to: the forwarding daemon by its name, an idle process of a group, or for a response to
  a listener the process that asked.\<close>

definition route_choose :: "(int \<Rightarrow> bool) \<Rightarrow> sw_cmd \<Rightarrow> route_world \<Rightarrow> (int \<times> sw_proc_info option \<times> sw_cmd \<times> route_world) option" where
  "route_choose alive c w =
     (if cm_msg_type c = SW_MSG_REQ \<or> cm_dst_type c \<noteq> ND_LSN then do {
        (r, proc, pw) \<leftarrow>
          (if cm_dst_type c = ND_SAF then procs_get_sys_by_name (Some (cm_dst_svr c)) True (rt_procs w)
           else procs_get_dst_proc alive (Some (cm_dst_svr c)) (Some (cm_dst_prdt c)) (cm_msg_type c) True (rt_procs w));
        (if r \<noteq> SW_OK then Some (SW_ERR, proc, c, put_procs_world pw w)
         else do {
           p \<leftarrow> proc;
           Some (SW_OK, proc, c\<lparr>cm_dst_svc := cstr_cut 31 (pi_name p)\<rparr>, put_procs_world pw w)
         })
      }
      else do {
        (r, proc, pw) \<leftarrow> procs_get_proces_info (Some (cm_dst_prdt c)) (Some (cm_dst_svr c)) (Some (cm_dst_svc c)) True (rt_procs w);
        Some (if r \<noteq> SW_OK then SW_ERR else SW_OK, proc, c, put_procs_world pw w)
      })"

text \<open>Any process of the destination.\<close>

definition route_any :: "(int \<Rightarrow> bool) \<Rightarrow> sw_cmd \<Rightarrow> route_world \<Rightarrow> (int \<times> sw_proc_info option \<times> sw_cmd \<times> route_world) option" where
  "route_any alive c w =
     do {
       (r, proc, pw) \<leftarrow> procs_get_dst_proc alive (Some (cm_dst_svr c)) (Some (cm_dst_prdt c)) (cm_msg_type c) True (rt_procs w);
       (if r \<noteq> SW_OK then Some (SW_ERR, proc, c, put_procs_world pw w)
        else do {
          p \<leftarrow> proc;
          Some (SW_OK, proc, c\<lparr>cm_dst_svc := cstr_cut 31 (pi_name p)\<rparr>, put_procs_world pw w)
        })
     }"

text \<open>A receiving process of a listener does not send: its sending partner takes over, or another process.\<close>

definition route_partner :: "(int \<Rightarrow> bool) \<Rightarrow> sw_proc_info \<Rightarrow> sw_cmd \<Rightarrow> route_world \<Rightarrow> (int \<times> sw_proc_info option \<times> sw_cmd \<times> route_world) option" where
  "route_partner alive proc c w =
     (if pi_type proc \<noteq> ND_LSN_RCV then Some (SW_OK, Some proc, c, w)
      else
        (case rt_vars w of
           None \<Rightarrow> None
         | Some v \<Rightarrow>
             if rv_comtype v \<noteq> [] \<and> take 5 (rv_comtype v) = ''TCPLA'' then
               (if length (cm_dst_svr c) < 6 then None
                else do {
                  let svcname = cstr_cut 63 (drop 6 (cm_dst_svr c) @ ''_'' @ fmt_lld (pi_proc_index proc) @ ''_snd'');
                  (r, proc1, pw) \<leftarrow> procs_get_proces_info (Some (cm_dst_prdt c)) (Some (cm_dst_svr c)) (Some svcname) True (rt_procs w);
                  (if r \<noteq> SW_OK then Some (SW_ERR, proc1, c, put_procs_world pw w)
                   else do {
                     p \<leftarrow> proc1;
                     (if pi_status p \<noteq> SW_S_START \<or> pi_pid p \<le> 0 \<or> pub_proc_checkpid alive (pi_pid p) \<noteq> SW_OK
                      then route_any alive c (put_procs_world pw w)
                      else Some (SW_OK, proc1, c, put_procs_world pw w))
                   })
                })
             else route_any alive c w))"

text \<open>The queue of the process: one per level for services.\<close>

definition route_mqid :: "int \<Rightarrow> sw_proc_info \<Rightarrow> int option" where
  "route_mqid level p =
     (if 0 < level \<and> pi_type p = ND_SVC then
        (if length (pi_mqids p) < nat level then None
         else Some (if 0 < pi_mqids p ! nat (level - 1) then pi_mqids p ! nat (level - 1) else pi_mqid p))
      else Some (pi_mqid p))"

text \<open>The descriptor of the queue is looked up, or the pipe opened; then the variables are written back and the message
  goes out.  \<open>img\<close> is the memory of a command.\<close>

definition route_out :: "(sw_cmd \<Rightarrow> cstr) \<Rightarrow> bool \<Rightarrow> cstr option \<Rightarrow> int \<Rightarrow> sw_proc_info \<Rightarrow> sw_cmd \<Rightarrow> route_world \<Rightarrow> route_answer option" where
  "route_out img file_ok path level proc c w =
     do {
       mqid \<leftarrow> route_mqid level proc;
       let fd0 = msg_load_fd_by_mqid mqid (rt_self w);
       (fd, self, ipc) \<leftarrow> (if fd0 < 0 then msg_trans_open path mqid (rt_self w) (rt_ipc w) else Some (fd0, rt_self w, rt_ipc w));
       let w1 = w\<lparr>rt_self := self, rt_ipc := ipc\<rparr>;
       (if fd < 0 then Some (SW_ERR, c, w1)
        else do {
          let w2 = w1\<lparr>rt_vars := map_option (\<lambda>v. v\<lparr>rv_stored := rv_tasks v\<rparr>) (rt_vars w1)\<rparr>;
          (r, ipc2) \<leftarrow> msg_trans_send file_ok fd (Some (img c)) (cm_mtype c) (int (length (img c))) (rt_self w2) (rt_ipc w2);
          Some (if r < 0 then SW_ERR else SW_OK, c, w2\<lparr>rt_ipc := ipc2\<rparr>)
        })
     }"

text \<open>A response takes the last request off the stack first; the answer is 1 when the message still has to be sent.\<close>

definition route_response :: "sw_task_hd option \<Rightarrow> sw_cmd \<Rightarrow> route_world \<Rightarrow> route_answer option" where
  "route_response head c w =
     (if cm_msg_type c \<noteq> SW_MSG_RES then Some (1, c, w)
      else do {
        (r, c1, head1) \<leftarrow> route_recov_cmd head (Some c);
        let w1 = put_tasks head1 w;
        c2 \<leftarrow> c1;
        (if r \<noteq> SW_OK then Some (SW_ERR, c2, w1)
         else do {
           let c3 = (if cm_type c = SW_LINKNULL then c2\<lparr>cm_type := cm_type c\<rparr> else c2);
           (if cm_task_flg c3 = SW_DEL then do {
              let w2 = w1\<lparr>rt_vars := map_option (\<lambda>v. v\<lparr>rv_destroyed := True\<rparr>) (rt_vars w1)\<rparr>;
              (_, mw) \<leftarrow> mtype_delete (cm_mtype c3) 0 (rt_mtypes w2);
              Some (SW_OK, c3, put_mtype_world mw w2)
            }
            else do {
              c4 \<leftarrow> snd (route_cmd_tpye_change (Some c3));
              Some (1, c4, w1)
            })
         })
      })"

definition route_store :: "sw_cmd \<Rightarrow> route_world \<Rightarrow> (int \<times> route_world) option" where
  "route_store c w =
     (if cm_task_flg c = SW_STORE \<or> cm_type c = SW_POSTREQ then do {
        v \<leftarrow> rt_vars w;
        (r, head) \<leftarrow> route_add_cmd (rv_tasks v) (Some c);
        Some (if r \<noteq> SW_OK then SW_ERR else SW_OK, put_tasks head w)
      }
      else Some (SW_OK, w))"

definition route_snd_dst ::
    "(sw_cmd \<Rightarrow> cstr) \<Rightarrow> (int \<Rightarrow> bool) \<Rightarrow> bool \<Rightarrow> bool \<Rightarrow> cstr option \<Rightarrow> sw_cmd \<Rightarrow> route_world \<Rightarrow> route_answer option" where
  "route_snd_dst img alive room file_ok path c w =
     (if cm_msg_type c \<noteq> SW_MSG_REQ \<and> cm_msg_type c \<noteq> SW_MSG_RES then Some (SW_ERR, c, w)
      else
        let (r, head, var) = route_alloc room (rt_vars w);
            w0 = w\<lparr>rt_vars := var\<rparr> in
        if r \<noteq> SW_OK \<or> head = None then Some (SW_ERR, c, w0)
        else do {
          (r1, c1, w1) \<leftarrow> route_response head c w0;
          (if r1 \<noteq> 1 then Some (r1, c1, w1)
           else do {
             (r2, proc, c2, w2) \<leftarrow> route_choose alive c1 w1;
             (if r2 \<noteq> SW_OK then Some (SW_ERR, c2, w2)
              else do {
                (r3, w3) \<leftarrow> route_store c2 w2;
                (if r3 \<noteq> SW_OK then Some (SW_ERR, c2, w3)
                 else do {
                   p \<leftarrow> proc;
                   (r4, proc1, c3, w4) \<leftarrow> route_partner alive p c2 w3;
                   (if r4 \<noteq> SW_OK then Some (SW_ERR, c3, w4)
                    else do {
                      p1 \<leftarrow> proc1;
                      route_out img file_ok path (cm_level c) p1 c3 w4
                    })
                 })
              })
           })
        })"

section \<open>Nested calls\<close>

definition tasks_ok :: "sw_task_hd \<Rightarrow> bool" where
  "tasks_ok h \<longleftrightarrow> th_task_max h = int SW_MAX_CMD \<and> length (th_cmd h) = SW_MAX_CMD \<and> 0 \<le> th_task_curr h
     \<and> th_task_curr h \<le> int SW_MAX_CMD \<and> (\<forall>i < SW_MAX_CMD. th_task_curr h \<le> int i \<longrightarrow> th_cmd h ! i = zero_cmd)"

lemma route_alloc_ok:
  "route_alloc room var = (SW_OK, Some h, var') \<Longrightarrow> (\<And>v h. var = Some v \<Longrightarrow> rv_tasks v = Some h \<Longrightarrow> tasks_ok h) \<Longrightarrow> tasks_ok h"
  by (auto simp: route_alloc_def tasks_ok_def Let_def split: option.splits if_splits)

lemma add_cmd_ok:
  assumes "tasks_ok h" and "th_task_curr h < int SW_MAX_CMD"
  shows "route_add_cmd (Some h) (Some c)
    = Some (SW_OK, Some (h\<lparr>th_cmd := (th_cmd h)[nat (th_task_curr h) := c], th_task_curr := th_task_curr h + 1\<rparr>))"
proof -
  have "s32 (th_task_curr h + 1) = th_task_curr h + 1" using assms by (auto simp: tasks_ok_def)
  then show ?thesis using assms by (simp add: route_add_cmd_def put_cmd_def tasks_ok_def)
qed

lemma add_cmd_room: "tasks_ok h \<Longrightarrow> route_add_cmd (Some h) (Some c) = Some (SW_OK, h1) \<Longrightarrow> th_task_curr h < int SW_MAX_CMD"
  by (auto simp: route_add_cmd_def tasks_ok_def split: if_splits)

lemma add_cmd_tasks:
  assumes "tasks_ok h" and "route_add_cmd (Some h) (Some c) = Some (SW_OK, Some h1)"
  shows "tasks_ok h1" and "th_task_curr h1 = th_task_curr h + 1" and "cmd_at (th_task_curr h) h1 = Some c"
    and "\<And>i. i < th_task_curr h \<Longrightarrow> cmd_at i h1 = cmd_at i h"
    and "h1\<lparr>th_cmd := (th_cmd h1)[nat (th_task_curr h) := zero_cmd], th_task_curr := th_task_curr h\<rparr> = h"
proof -
  note r = add_cmd_room [OF assms]
  have h1: "h1 = h\<lparr>th_cmd := (th_cmd h)[nat (th_task_curr h) := c], th_task_curr := th_task_curr h + 1\<rparr>"
    using add_cmd_ok [OF assms(1) r, of c] assms(2) by simp
  show "tasks_ok h1" using assms(1) r unfolding h1 by (auto simp: tasks_ok_def nth_list_update)
  show "th_task_curr h1 = th_task_curr h + 1" by (simp add: h1)
  show "cmd_at (th_task_curr h) h1 = Some c" using assms(1) r by (auto simp: h1 cmd_at_def tasks_ok_def)
  show "\<And>i. i < th_task_curr h \<Longrightarrow> cmd_at i h1 = cmd_at i h" by (auto simp: h1 cmd_at_def)
  have "(th_cmd h)[nat (th_task_curr h) := zero_cmd] = th_cmd h"
    using assms(1) r by (intro list_update_same_conv [THEN iffD2]) (auto simp: tasks_ok_def)
  then show "h1\<lparr>th_cmd := (th_cmd h1)[nat (th_task_curr h) := zero_cmd], th_task_curr := th_task_curr h\<rparr> = h"
    unfolding h1 by (cases h) simp
qed

text \<open>What a response gets from the stack.\<close>

definition answered :: "sw_task_hd \<Rightarrow> sw_cmd \<Rightarrow> sw_cmd \<Rightarrow> sw_cmd" where
  "answered h req c =
     (let c1 = (if 0 < th_task_curr h then (turned req c)\<lparr>cm_def_name := cm_def_name (th_cmd h ! nat (th_task_curr h - 1))\<rparr>
                else turned req c);
          c2 = (if th_task_curr h = 0 \<and> cm_task_flg req = SW_DEL then c1\<lparr>cm_task_flg := SW_DEL\<rparr> else c1) in
      c2\<lparr>cm_dst_type := cm_ori_type req, cm_start_line := cm_start_line req\<rparr>)"

lemma recov_after_add:
  assumes "tasks_ok h" and a: "route_add_cmd (Some h) (Some req) = Some (SW_OK, Some h1)" and "cm_msg_type c = SW_MSG_RES"
  shows "route_recov_cmd (Some h1) (Some c) = Some (SW_OK, Some (answered h req c), Some h)"
proof -
  note t = add_cmd_tasks [OF assms(1) a]
  have c: "0 \<le> th_task_curr h" using assms(1) by (simp add: tasks_ok_def)
  have l: "nat (th_task_curr h) < length (th_cmd h1)" using t(3) by (simp add: cmd_at_def split: if_splits)
  have below: "0 < th_task_curr h \<Longrightarrow> cmd_at (th_task_curr h - 1) h1 = Some (th_cmd h ! nat (th_task_curr h - 1))"
    using t(4) [of "th_task_curr h - 1"] assms(1) by (auto simp: cmd_at_def tasks_ok_def)
  have d: "route_del_cur_cmd (Some h1) = Some (SW_OK, Some h)"
    using t(2,5) c l by (cases h1) (simp add: route_del_cur_cmd_def put_cmd_def)
  show ?thesis
    using t(2,3) c below d assms(3) by (cases "th_task_curr h = 0") (simp_all add: route_recov_cmd_def answered_def Let_def)
qed

text \<open>The calls a service makes before it answers: each is put on the stack and answered, one behind the other.\<close>

inductive nested :: "sw_task_hd \<Rightarrow> sw_task_hd \<Rightarrow> bool" where
  nested_none: "nested h h"
| nested_call: "route_add_cmd (Some h) (Some req) = Some (SW_OK, Some h1) \<Longrightarrow> nested h1 h2 \<Longrightarrow>
    cm_msg_type res = SW_MSG_RES \<Longrightarrow> route_recov_cmd (Some h2) (Some res) = Some (SW_OK, Some res', Some h3) \<Longrightarrow>
    nested h3 h4 \<Longrightarrow> nested h h4"

lemma nested_same: "nested h h' \<Longrightarrow> tasks_ok h \<Longrightarrow> h' = h"
proof (induction rule: nested.induct)
  case (nested_call h req h1 h2 res res' h3 h4)
  have "h2 = h1" using nested_call add_cmd_tasks(1) by blast
  then have "h3 = h" using recov_after_add [OF nested_call.prems nested_call.hyps(1,3)] nested_call.hyps(4) by simp
  then show ?case using nested_call by blast
qed simp

text \<open>C8: Responses return like calls: however many calls are made and answered in between, the response to a request is
  addressed to where the request came from, with its type and line and the flow of the request below it, and the stack is
  what it was before the request.\<close>

theorem response_returns_to_caller:
  assumes "tasks_ok h" and "route_add_cmd (Some h) (Some req) = Some (SW_OK, Some h1)" and "nested h1 h2"
    and "cm_msg_type c = SW_MSG_RES"
  shows "\<exists>c'. route_recov_cmd (Some h2) (Some c) = Some (SW_OK, Some c', Some h)
    \<and> cm_dst_prdt c' = cm_ori_prdt req \<and> cm_dst_svr c' = cm_ori_svr req \<and> cm_dst_svc c' = cm_ori_svc req
    \<and> cm_ori_prdt c' = cm_dst_prdt req \<and> cm_ori_svr c' = cm_dst_svr req \<and> cm_ori_svc c' = cm_dst_svc req
    \<and> cm_dst_type c' = cm_ori_type req \<and> cm_type c' = cm_type req \<and> cm_start_line c' = cm_start_line req
    \<and> cm_def_name c' = (if th_task_curr h = 0 then cm_def_name c else cm_def_name (th_cmd h ! nat (th_task_curr h - 1)))"
proof -
  have "h2 = h1" using nested_same [OF assms(3) add_cmd_tasks(1) [OF assms(1,2)]] .
  moreover have "0 \<le> th_task_curr h" using assms(1) by (simp add: tasks_ok_def)
  ultimately show ?thesis
    using recov_after_add [OF assms(1,2,4)] by (simp add: answered_def turned_def Let_def)
qed

definition empty_tasks :: sw_task_hd where
  "empty_tasks = \<lparr>th_task_max = int SW_MAX_CMD, th_task_curr = 0, th_cmd = replicate SW_MAX_CMD zero_cmd\<rparr>"

definition demo_req :: "cstr \<Rightarrow> cstr \<Rightarrow> sw_cmd" where
  "demo_req ori dst = zero_cmd\<lparr>cm_msg_type := SW_MSG_REQ, cm_ori_svr := ori, cm_dst_svr := dst\<rparr>"

lemma empty_tasks_ok: "tasks_ok empty_tasks"
  by (simp add: tasks_ok_def empty_tasks_def)

theorem response_returns_to_caller_witness:
  "\<exists>h1 h2 c'. route_add_cmd (Some empty_tasks) (Some (demo_req ''A'' ''B'')) = Some (SW_OK, Some h1)
    \<and> route_add_cmd (Some h1) (Some (demo_req ''B'' ''C'')) = Some (SW_OK, Some h2)
    \<and> route_recov_cmd (Some h1) (Some (zero_cmd\<lparr>cm_msg_type := SW_MSG_RES\<rparr>)) = Some (SW_OK, Some c', Some empty_tasks)
    \<and> cm_dst_svr c' = ''A''"
proof -
  let ?r = "zero_cmd\<lparr>cm_msg_type := SW_MSG_RES\<rparr>"
  obtain h1 where h1: "route_add_cmd (Some empty_tasks) (Some (demo_req ''A'' ''B'')) = Some (SW_OK, Some h1)"
    using add_cmd_ok [OF empty_tasks_ok] by (simp add: empty_tasks_def)
  note t = add_cmd_tasks [OF empty_tasks_ok h1]
  obtain h2 where h2: "route_add_cmd (Some h1) (Some (demo_req ''B'' ''C'')) = Some (SW_OK, Some h2)"
    using add_cmd_ok [OF t(1)] t(2) by (simp add: empty_tasks_def)
  have "nested h1 h1"
    by (rule nested_call [OF h2 nested_none _ recov_after_add [OF t(1) h2, of ?r]]) (simp_all add: nested_none)
  from response_returns_to_caller [OF empty_tasks_ok h1 this, of ?r] show ?thesis using h1 h2 by (auto simp: demo_req_def)
qed

section \<open>Messages on their way\<close>

lemma open_boxes:
  "msg_trans_open path mqid p w = Some (fd, p', w') \<Longrightarrow> ip_queues w' = ip_queues w \<and> (0 \<le> fd \<longrightarrow> key_at fd p' = Some mqid)"
  by (auto simp: msg_trans_open_def pub_fifo_open_def fs_open_def put_key_def key_at_def Let_def
      split: option.splits if_splits bind_splits)

lemma load_key: "0 \<le> msg_load_fd_by_mqid mqid p \<Longrightarrow> key_at (msg_load_fd_by_mqid mqid p) p = Some mqid"
  by (auto simp: msg_load_fd_by_mqid_def key_at_def dest: find_idx_Some split: option.splits)

lemma send_linked:
  "msg_trans_send fo fd buf t len p w = Some (r, w') \<Longrightarrow> r = SW_OK \<Longrightarrow> key_at fd p = Some q \<Longrightarrow> \<exists>n. linked p fd q n"
  by (auto simp: msg_trans_send_def linked_def pub_fifo_put_def split_beta split: option.splits fd_entry.splits if_splits bind_splits)

lemma queues_box: "ip_queues w' = ip_queues w \<Longrightarrow> box w' = box w \<and> boxes_ok w' = boxes_ok w"
  by (simp add: box_def boxes_ok_def queue_of_def fun_eq_iff)

lemma send_result: "msg_trans_send fo fd buf t len p w = Some (r, w') \<Longrightarrow> \<not> r < 0 \<Longrightarrow> r = SW_OK"
  by (auto simp: msg_trans_send_def split: prod.splits if_splits bind_splits)

lemma route_out_sends:
  assumes r: "route_out img fo path level proc c w = Some (SW_OK, c', w')" and ok: "boxes_ok (rt_ipc w)"
    and m: "msg_ok (cm_mtype c) (img c)"
  shows "c' = c \<and> (\<exists>q. route_mqid level proc = Some q
    \<and> box (rt_ipc w') = (box (rt_ipc w))(q := (box (rt_ipc w) q)(cm_mtype c \<mapsto> img c)))
    \<and> rt_vars w' = map_option (\<lambda>v. v\<lparr>rv_stored := rv_tasks v\<rparr>) (rt_vars w)"
proof -
  obtain q fd self ipc where q: "route_mqid level proc = Some q"
    and fd: "(if msg_load_fd_by_mqid q (rt_self w) < 0 then msg_trans_open path q (rt_self w) (rt_ipc w)
       else Some (msg_load_fd_by_mqid q (rt_self w), rt_self w, rt_ipc w)) = Some (fd, self, ipc)"
    and r1: "0 \<le> fd"
    using r by (auto simp: route_out_def Let_def split: bind_splits if_splits)
  have k: "key_at fd self = Some q" "ip_queues ipc = ip_queues (rt_ipc w)"
    using fd r1 open_boxes load_key [of q "rt_self w"] by (auto split: if_splits)
  obtain r2 ipc2 where s: "msg_trans_send fo fd (Some (img c)) (cm_mtype c) (int (length (img c))) self ipc = Some (r2, ipc2)" "\<not> r2 < 0"
    "w' = w\<lparr>rt_self := self, rt_ipc := ipc2, rt_vars := map_option (\<lambda>v. v\<lparr>rv_stored := rv_tasks v\<rparr>) (rt_vars w)\<rparr>" "c' = c"
    using r q fd r1 by (auto simp: route_out_def Let_def split: bind_splits if_splits)
  have s0: "msg_trans_send fo fd (Some (img c)) (cm_mtype c) (int (length (img c))) self ipc = Some (SW_OK, ipc2)"
    using s(1) send_result [OF s(1,2)] by simp
  obtain n where n: "linked self fd q n" using send_linked [OF s0 refl k(1)] by blast
  note b = queues_box [OF k(2)]
  have "box ipc2 = (box ipc)(q := (box ipc q)(cm_mtype c \<mapsto> img c))" using send_boxes [OF s0 m n] b ok by blast
  then show ?thesis using q s(3,4) b by (simp only: route_world.simps) auto
qed

lemma put_procs_frame [simp]:
  "rt_ipc (put_procs_world pw w) = rt_ipc w" "rt_vars (put_procs_world pw w) = rt_vars w"
  "rt_procs (put_procs_world pw w) = pw"
  by (simp_all add: put_procs_world_def)

lemma route_any_frame:
  assumes "route_any alive c w = Some (r, proc, c', w')"
  shows "rt_ipc w' = rt_ipc w \<and> rt_vars w' = rt_vars w \<and> cm_mtype c' = cm_mtype c"
  using assms by (auto simp: route_any_def split: bind_splits if_splits)

lemma route_partner_frame:
  assumes "route_partner alive p c w = Some (r, proc, c', w')"
  shows "rt_ipc w' = rt_ipc w \<and> rt_vars w' = rt_vars w \<and> cm_mtype c' = cm_mtype c"
proof (cases "pi_type p \<noteq> ND_LSN_RCV")
  case True
  with assms show ?thesis by (simp add: route_partner_def)
next
  case False
  then obtain v where v: "rt_vars w = Some v" using assms by (auto simp: route_partner_def split: option.splits)
  show ?thesis
  proof (cases "rv_comtype v \<noteq> [] \<and> take 5 (rv_comtype v) = ''TCPLA''")
    case True
    with assms False v show ?thesis
      by (auto simp: route_partner_def split: bind_splits if_splits dest!: route_any_frame)
  next
    case False
    with assms \<open>\<not> pi_type p \<noteq> ND_LSN_RCV\<close> v show ?thesis by (auto simp: route_partner_def dest!: route_any_frame)
  qed
qed

text \<open>C9: A request goes out: when route_snd_dst answers success for a request, the dispatch has chosen a process (for a
  forwarding daemon by its name, otherwise one of the destination's), and the command, which names it, lies in the
  mailbox of its session in the queue of this process or, when it is the receiving process of a listener, of the
  process that route_partner puts in its place; every other mailbox is untouched, and a request that wants an answer
  is on top of the stack that is written back for the next process.  (At the start every queue holds at most one
  message of a session and the stack of requests is well formed; the session id is in 1..2^31-1, and the memory image of
  a command has at most 131072 bytes.)\<close>

theorem request_reaches_process:
  assumes r: "route_snd_dst img alive room fo path c w = Some (SW_OK, c', w')"
    and req: "cm_msg_type c = SW_MSG_REQ"
    and ok: "boxes_ok (rt_ipc w)" "\<And>x. msg_ok (cm_mtype c) (img x)"
    and t: "\<forall>v h. rt_vars w = Some v \<longrightarrow> rv_tasks v = Some h \<longrightarrow> tasks_ok h"
  shows "\<exists>p pw p1 q.
    (if cm_dst_type c = ND_SAF then procs_get_sys_by_name (Some (cm_dst_svr c)) True (rt_procs w)
     else procs_get_dst_proc alive (Some (cm_dst_svr c)) (Some (cm_dst_prdt c)) SW_MSG_REQ True (rt_procs w))
      = Some (SW_OK, Some p, pw) \<and>
    (let c1 = c\<lparr>cm_dst_svc := cstr_cut 31 (pi_name p)\<rparr> in
      (if pi_type p \<noteq> ND_LSN_RCV then p1 = p \<and> c' = c1
       else \<exists>w3 w4. rt_procs w3 = pw \<and> route_partner alive p c1 w3 = Some (SW_OK, Some p1, c', w4)) \<and>
      route_mqid (cm_level c) p1 = Some q \<and>
      box (rt_ipc w') = (box (rt_ipc w))(q := (box (rt_ipc w) q)(cm_mtype c \<mapsto> img c')) \<and>
      (cm_task_flg c = SW_STORE \<or> cm_type c = SW_POSTREQ \<longrightarrow>
        (\<exists>v h. rt_vars w' = Some v \<and> rv_tasks v = Some h \<and> rv_stored v = Some h \<and> cmd_at (th_task_curr h - 1) h = Some c1)))"
proof -
  obtain r0 head var where a: "route_alloc room (rt_vars w) = (r0, head, var)" by (metis prod_cases3)
  obtain h where h: "r0 = SW_OK" "head = Some h" using r a req by (auto simp: route_snd_dst_def Let_def split: if_splits)
  have var: "\<exists>v. var = Some v \<and> rv_tasks v = Some h"
    using a h by (auto simp: route_alloc_def Let_def split: option.splits if_splits) metis
  have th: "tasks_ok h" using route_alloc_ok [of room "rt_vars w" h var] a h t by auto
  obtain proc c1 w2 where ch: "route_choose alive c (w\<lparr>rt_vars := var\<rparr>) = Some (SW_OK, proc, c1, w2)"
    and rest: "\<exists>w3 p p1 c3 w4. route_store c1 w2 = Some (SW_OK, w3) \<and> proc = Some p \<and>
      route_partner alive p c1 w3 = Some (SW_OK, Some p1, c3, w4) \<and>
      route_out img fo path (cm_level c) p1 c3 w4 = Some (SW_OK, c', w')"
    using r a h req
    by (auto simp: route_snd_dst_def Let_def route_response_def split: bind_splits if_splits)
  then obtain p w3 p1 c3 w4 where proc: "proc = Some p" and st: "route_store c1 w2 = Some (SW_OK, w3)"
    and pa: "route_partner alive p c1 w3 = Some (SW_OK, Some p1, c3, w4)"
    and out: "route_out img fo path (cm_level c) p1 c3 w4 = Some (SW_OK, c', w')" by blast
  obtain pw where d: "(if cm_dst_type c = ND_SAF then procs_get_sys_by_name (Some (cm_dst_svr c)) True (rt_procs w)
       else procs_get_dst_proc alive (Some (cm_dst_svr c)) (Some (cm_dst_prdt c)) SW_MSG_REQ True (rt_procs w))
        = Some (SW_OK, Some p, pw)"
    and c1: "c1 = c\<lparr>cm_dst_svc := cstr_cut 31 (pi_name p)\<rparr>" and w2: "w2 = put_procs_world pw (w\<lparr>rt_vars := var\<rparr>)"
    using ch proc req by (auto simp: route_choose_def split: bind_splits if_splits)
  have w3: "rt_ipc w3 = rt_ipc w" "rt_procs w3 = pw"
    using st by (auto simp: w2 route_store_def put_tasks_def split: bind_splits if_splits)
  note fr = route_partner_frame [OF pa]
  have mt: "cm_mtype c3 = cm_mtype c" using fr c1 by simp
  have o: "c' = c3 \<and> (\<exists>q. route_mqid (cm_level c) p1 = Some q
      \<and> box (rt_ipc w') = (box (rt_ipc w4))(q := (box (rt_ipc w4) q)(cm_mtype c3 \<mapsto> img c3)))
    \<and> rt_vars w' = map_option (\<lambda>v. v\<lparr>rv_stored := rv_tasks v\<rparr>) (rt_vars w4)"
    using route_out_sends [OF out] ok fr w3 mt by simp
  then obtain q where q: "c' = c3" "route_mqid (cm_level c) p1 = Some q"
      "box (rt_ipc w') = (box (rt_ipc w))(q := (box (rt_ipc w) q)(cm_mtype c \<mapsto> img c'))"
      "rt_vars w' = map_option (\<lambda>v. v\<lparr>rv_stored := rv_tasks v\<rparr>) (rt_vars w3)"
    using fr w3 mt by auto
  have top: "\<exists>v h. rt_vars w' = Some v \<and> rv_tasks v = Some h \<and> rv_stored v = Some h \<and> cmd_at (th_task_curr h - 1) h = Some c1"
    if s: "cm_task_flg c = SW_STORE \<or> cm_type c = SW_POSTREQ"
  proof -
    obtain v where v: "var = Some v" "rv_tasks v = Some h" using var by blast
    have "\<exists>h1. route_add_cmd (Some h) (Some c1) = Some (SW_OK, h1) \<and> rt_vars w3 = Some (v\<lparr>rv_tasks := h1\<rparr>)"
      using st s v c1 by (auto simp: w2 route_store_def put_tasks_def split: bind_splits if_splits)
    then obtain h1 where h1: "route_add_cmd (Some h) (Some c1) = Some (SW_OK, h1)" "rt_vars w3 = Some (v\<lparr>rv_tasks := h1\<rparr>)" by blast
    have "\<exists>k. h1 = Some k" using h1(1) by (auto simp: route_add_cmd_def split: if_splits bind_splits)
    then obtain k where k: "h1 = Some k" by blast
    note tk = add_cmd_tasks [OF th h1(1) [unfolded k]]
    show ?thesis using q(4) h1(2) k tk(2,3) by simp
  qed
  have part: "if pi_type p \<noteq> ND_LSN_RCV then p1 = p \<and> c' = c1
       else \<exists>w3 w4. rt_procs w3 = pw \<and> route_partner alive p c1 w3 = Some (SW_OK, Some p1, c', w4)"
  proof (cases "pi_type p \<noteq> ND_LSN_RCV")
    case True
    then show ?thesis using pa q(1) by (simp add: route_partner_def)
  next
    case False
    then show ?thesis unfolding if_not_P [OF False] using pa q(1) w3(2) by blast
  qed
  from top have top': "cm_task_flg c = SW_STORE \<or> cm_type c = SW_POSTREQ \<longrightarrow>
      (\<exists>v h. rt_vars w' = Some v \<and> rv_tasks v = Some h \<and> rv_stored v = Some h \<and> cmd_at (th_task_curr h - 1) h = Some c1)" by blast
  show ?thesis
    unfolding Let_def
    using d part [unfolded c1] q(2,3) top' [unfolded c1]
    by (intro exI [of _ p] exI [of _ pw] exI [of _ p1] exI [of _ q] conjI) assumption+
qed

definition route_demo :: route_world where
  "route_demo = \<lparr>rt_procs = procs_world1\<lparr>g_procs_head := Some (procs_head1\<lparr>ph_apps := [proc_P\<lparr>pi_mqid := 65\<rparr>, proc0, proc0, proc0]\<rparr>)\<rparr>,
     rt_mtypes = mtype_world0, rt_ipc = ipc_demo, rt_self = msg_sender,
     rt_vars = Some \<lparr>rv_tasks = None, rv_comtype = [], rv_destroyed = False, rv_stored = None\<rparr>\<rparr>"

definition route_req :: sw_cmd where
  "route_req = zero_cmd\<lparr>cm_mtype := 7, cm_msg_type := SW_MSG_REQ, cm_task_flg := SW_STORE, cm_dst_svr := ''S'', cm_dst_prdt := ''A''\<rparr>"

text \<open>A memory image for the example: the name of the process.\<close>

definition route_img :: "sw_cmd \<Rightarrow> cstr" where
  "route_img c = take 31 (cm_dst_svc c @ ''.'')"

lemma route_demo_sent:
  "map_option fst (route_snd_dst route_img (\<lambda>_. True) True True None route_req route_demo) = Some SW_OK"
  by code_simp

lemma route_demo_dst:
  "map_option (\<lambda>(r, p, _). (r, map_option (\<lambda>p. (pi_name p, pi_type p, pi_mqid p)) p))
     (procs_get_dst_proc (\<lambda>_. True) (Some ''S'') (Some ''A'') SW_MSG_REQ True (rt_procs route_demo)) = Some (SW_OK, Some (''P'', 0, 65))"
  by code_simp

theorem request_reaches_process_witness:
  "\<exists>c' w'. route_snd_dst route_img (\<lambda>_. True) True True None route_req route_demo = Some (SW_OK, c', w')
    \<and> box (rt_ipc w') 65 7 = Some ''P.''"
proof -
  obtain c' w' where r: "route_snd_dst route_img (\<lambda>_. True) True True None route_req route_demo = Some (SW_OK, c', w')"
    using route_demo_sent by auto
  obtain p pw where p: "procs_get_dst_proc (\<lambda>_. True) (Some ''S'') (Some ''A'') SW_MSG_REQ True (rt_procs route_demo) = Some (SW_OK, Some p, pw)"
    "pi_name p = ''P''" "pi_type p = 0" "pi_mqid p = 65"
    using route_demo_dst by auto
  have f: "cm_msg_type route_req = SW_MSG_REQ" "cm_dst_type route_req \<noteq> ND_SAF" "cm_dst_svr route_req = ''S''" "cm_dst_prdt route_req = ''A''"
    "cm_mtype route_req = 7" "cm_level route_req = 0" "rt_ipc route_demo = ipc_demo"
    "\<forall>v h. rt_vars route_demo = Some v \<longrightarrow> rv_tasks v = Some h \<longrightarrow> tasks_ok h"
    by (auto simp: route_req_def zero_cmd_def route_demo_def)
  have m: "msg_ok (cm_mtype route_req) (route_img x)" for x using f by (auto simp: msg_ok_def route_img_def)
  have o: "boxes_ok (rt_ipc route_demo)" using demo_boxes(1) f(7) by simp
  from request_reaches_process [OF r f(1) o m f(8)] show ?thesis
    using r p f by (auto simp: route_mqid_def Let_def route_img_def)
qed

text \<open>C15: The response to a one-way request (posted with \<^verbatim>\<open>SW_DEL\<close> at the bottom of the stack) ends the session: it is
  deleted from the session table, its variables are destroyed and no message is sent.\<close>

theorem posted_response_ends_session:
  assumes v: "rt_vars w = Some v" "rv_tasks v = Some h" and h: "tasks_ok h" "th_task_curr h = 1" "cm_task_flg (th_cmd h ! 0) = SW_DEL"
    and c: "cm_msg_type c = SW_MSG_RES"
    and m: "mtype_inv (rt_mtypes w)" "g_shm_mtype (rt_mtypes w) = Some t" "1 \<le> cm_mtype c" "cm_mtype c \<le> int (length (mt_items t))"
      "cm_mtype c \<in> mtype_live t"
  shows "\<exists>c' w' t' v'. route_snd_dst img alive room fo path c w = Some (SW_OK, c', w') \<and> rt_ipc w' = rt_ipc w
    \<and> rt_vars w' = Some v' \<and> rv_destroyed v'
    \<and> g_shm_mtype (rt_mtypes w') = Some t' \<and> mtype_inv (rt_mtypes w') \<and> mtype_live t' = mtype_live t - {cm_mtype c}"
proof -
  let ?req = "th_cmd h ! 0"
  let ?c1 = "(turned ?req c)\<lparr>cm_task_flg := SW_DEL, cm_dst_type := cm_ori_type ?req, cm_start_line := cm_start_line ?req\<rparr>"
  have l: "length (th_cmd h) = SW_MAX_CMD" using h(1) by (simp add: tasks_ok_def)
  obtain head where r: "route_recov_cmd (Some h) (Some c) = Some (SW_OK, Some ?c1, head)"
    using h(2,3) c l by (auto simp: route_recov_cmd_def cmd_at_def route_del_cur_cmd_def put_cmd_def)
  obtain rc mw t' where d: "mtype_delete (cm_mtype c) 0 (rt_mtypes w) = Some (rc, mw)" "g_shm_mtype mw = Some t'" "mtype_inv mw"
      "mtype_live t' = mtype_live t - {cm_mtype c}"
    using mtype_delete_summary [OF m(1-4), of 0] m(5) by auto
  have m1: "cm_mtype (if b then ?c1\<lparr>cm_type := k\<rparr> else ?c1) = cm_mtype c"
    "cm_task_flg (if b then ?c1\<lparr>cm_type := k\<rparr> else ?c1) = SW_DEL" for b k
    by (auto simp: turned_def)
  show ?thesis
    using r d v c m1
    by (simp add: route_snd_dst_def route_alloc_def route_response_def put_tasks_def put_mtype_world_def)
qed

lemma posted_demo:
  "tasks_ok (empty_tasks\<lparr>th_task_curr := 1, th_cmd := (zero_cmd\<lparr>cm_task_flg := SW_DEL\<rparr>) # replicate 19 zero_cmd\<rparr>)"
  by (auto simp: tasks_ok_def empty_tasks_def nth_Cons split: nat.splits)

theorem posted_response_ends_session_witness:
  "\<exists>c' w' t'. route_snd_dst cm_dst_svc (\<lambda>_. True) True True None (zero_cmd\<lparr>cm_mtype := 1, cm_msg_type := SW_MSG_RES\<rparr>)
      (route_demo\<lparr>rt_vars := Some \<lparr>rv_tasks = Some (empty_tasks\<lparr>th_task_curr := 1,
         th_cmd := (zero_cmd\<lparr>cm_task_flg := SW_DEL\<rparr>) # replicate 19 zero_cmd\<rparr>),
         rv_comtype = [], rv_destroyed = False, rv_stored = None\<rparr>\<rparr>) = Some (SW_OK, c', w')
    \<and> g_shm_mtype (rt_mtypes w') = Some t' \<and> mtype_live t' = {}"
proof -
  have m: "rt_mtypes route_demo = mtype_world0" by (simp add: route_demo_def)
  show ?thesis
    using posted_response_ends_session [OF _ _ posted_demo,
        where w = "route_demo\<lparr>rt_vars := Some \<lparr>rv_tasks = Some (empty_tasks\<lparr>th_task_curr := 1,
          th_cmd := (zero_cmd\<lparr>cm_task_flg := SW_DEL\<rparr>) # replicate 19 zero_cmd\<rparr>),
          rv_comtype = [], rv_destroyed = False, rv_stored = None\<rparr>\<rparr>"
        and c = "zero_cmd\<lparr>cm_mtype := 1, cm_msg_type := SW_MSG_RES\<rparr>" and t = demo_table] demo_inv demo_world(1)
    by (force simp: m demo_live demo_world)
qed

end
