(* ===== verification/Pub_Buf.thy ===== *)
theory Pub_Buf
  imports Prelude
begin

text \<open>The growing text buffers of \<^verbatim>\<open>core/pub_buf.c\<close>.  The bytes a buffer owns are a list, None for \<^verbatim>\<open>NULL\<close>; a copy that
  leaves them, or reads past the end of its source, makes the run undefined (None).  An argument \<open>ok\<close> says whether an
  allocation succeeds, an argument \<open>mem\<close> what \<^verbatim>\<open>realloc\<close> finds in new bytes, None when it fails.  The properties: appends
  concatenate and a buffer stays large enough for its text, the check for room makes room, and exactly when
  \<^verbatim>\<open>buf_update_string\<close> writes one byte too far.\<close>

record sw_buf =
  bf_len :: int
  bf_size :: int
  bf_index :: int
  bf_data :: "char list option"

abbreviation (input) BUF_MAXLEN :: nat where "BUF_MAXLEN \<equiv> 128 * 1024"
abbreviation (input) SW_BUFF_INCR_SIZE :: nat where "SW_BUFF_INCR_SIZE \<equiv> 2048"

section \<open>Memory\<close>

definition zeros :: "nat \<Rightarrow> char list" where
  "zeros n = replicate n CHR 0x00"

text \<open>\<^verbatim>\<open>memcpy(mem + off, src, n)\<close>.\<close>

definition mem_copy :: "nat \<Rightarrow> char list \<Rightarrow> nat \<Rightarrow> char list \<Rightarrow> char list option" where
  "mem_copy off src n mem =
     (if length src < n \<or> length mem < off + n then None
      else Some (take off mem @ take n src @ drop (off + n) mem))"

definition resize :: "(nat \<Rightarrow> char) \<Rightarrow> nat \<Rightarrow> char list \<Rightarrow> char list" where
  "resize junk n mem = take n mem @ map junk [length mem..<n]"

lemma length_zeros [simp]: "length (zeros n) = n"
  by (simp add: zeros_def)

lemma length_resize [simp]: "length (resize junk n mem) = n"
  by (simp add: resize_def min_def)

lemma take_resize: "k \<le> n \<Longrightarrow> k \<le> length mem \<Longrightarrow> take k (resize junk n mem) = take k mem"
  by (simp add: resize_def)

lemma mem_copy_spec:
  "n \<le> length src \<Longrightarrow> off + n \<le> length mem \<Longrightarrow>
   \<exists>mem'. mem_copy off src n mem = Some mem' \<and> length mem' = length mem \<and> take off mem' = take off mem \<and>
     take (off + n) mem' = take off mem @ take n src"
  by (auto simp: mem_copy_def)

section \<open>Operations\<close>

fun pub_buf_init :: "bool \<Rightarrow> sw_buf option \<Rightarrow> int \<times> sw_buf option" where
  "pub_buf_init ok None = (- 1, None)"
| "pub_buf_init ok (Some b) =
     (if ok then (0, Some \<lparr>bf_len = 0, bf_size = int BUF_MAXLEN, bf_index = 0, bf_data = Some (zeros BUF_MAXLEN)\<rparr>)
      else (- 1, Some \<lparr>bf_len = 0, bf_size = int BUF_MAXLEN, bf_index = 0, bf_data = None\<rparr>))"

text \<open>\<^verbatim>\<open>malloc\<close> refuses a negative size, which is more than any memory.\<close>

fun pub_buf_update :: "bool \<Rightarrow> sw_buf option \<Rightarrow> int \<Rightarrow> int \<times> sw_buf option" where
  "pub_buf_update ok None iSize = (- 1, None)"
| "pub_buf_update ok (Some b) iSize =
     (let size = (if iSize \<le> 0 then s32 (bf_size b * 2 + 8) else s32 (iSize + 2)) in
      if ok \<and> 0 \<le> size then (0, Some (b\<lparr>bf_size := size, bf_data := Some (zeros (nat size))\<rparr>))
      else (- 1, Some (b\<lparr>bf_size := size, bf_data := None\<rparr>)))"

text \<open>\<open>ok1\<close>: the copy of the text, \<open>ok2\<close>: the new bytes.\<close>

definition pub_buf_chksize :: "bool \<Rightarrow> bool \<Rightarrow> sw_buf \<Rightarrow> nat \<Rightarrow> (int \<times> sw_buf) option" where
  "pub_buf_chksize ok1 ok2 b sz =
     (if bf_len b < 0 then Some (SW_ERR, b)
      else
        let orilen = nat (bf_len b);
            left = to_size (bf_size b - bf_len b)
        in
        if left \<le> sz then
          let block = (if left \<le> sz mod SW_BUFF_INCR_SIZE then sz div SW_BUFF_INCR_SIZE + 1 else sz div SW_BUFF_INCR_SIZE);
              b1 = b\<lparr>bf_size := s32 (bf_size b + int (block * SW_BUFF_INCR_SIZE))\<rparr>
          in
          if \<not> ok1 then Some (SW_ERR, b1)
          else do {
            saved \<leftarrow> (case bf_data b of
                None \<Rightarrow> if orilen = 0 then Some [] else None
              | Some d \<Rightarrow> mem_copy 0 d orilen (zeros (orilen + 1)));
            (case pub_buf_update ok2 (Some b1) (bf_size b1) of
               (ret, None) \<Rightarrow> None
             | (ret, Some b2) \<Rightarrow>
                 if ret < 0 then Some (SW_ERR, b2)
                 else do {
                   d \<leftarrow> bf_data b2;
                   d' \<leftarrow> mem_copy 0 saved orilen d;
                   Some (SW_OK, b2\<lparr>bf_data := Some d', bf_len := int orilen\<rparr>)
                 })
          }
        else Some (SW_OK, b))"

fun pub_buf_clear :: "sw_buf option \<Rightarrow> int \<times> sw_buf option" where
  "pub_buf_clear None = (- 1, None)"
| "pub_buf_clear (Some b) = (0, Some (b\<lparr>bf_data := None, bf_len := 0, bf_size := int BUF_MAXLEN\<rparr>))"

text \<open>The doubling loops; a shift that loses the bit leaves 0, and the loop never ends.\<close>

partial_function (option) expand_loop :: "nat \<Rightarrow> nat \<Rightarrow> nat option" where
  "expand_loop msize nsize =
     (if msize < nsize then expand_loop ((2 * msize) mod 18446744073709551616) nsize else Some msize)"

partial_function (option) string_loop :: "int \<Rightarrow> int \<Rightarrow> int option" where
  "string_loop size' len = (if size' < len then string_loop (s32 (2 * size')) len else Some size')"

declare expand_loop.simps [code] string_loop.simps [code]

definition buf_expand :: "(nat \<Rightarrow> char) option \<Rightarrow> sw_buf \<Rightarrow> nat \<Rightarrow> (int \<times> sw_buf) option" where
  "buf_expand mem b nsize =
     do {
       msize \<leftarrow> expand_loop BUF_MAXLEN nsize;
       (case mem of
          None \<Rightarrow> Some (- 1, b)
        | Some junk \<Rightarrow>
            Some (0, b\<lparr>bf_data := Some (resize junk msize (case bf_data b of None \<Rightarrow> [] | Some d \<Rightarrow> d)),
              bf_size := s32 (int msize)\<rparr>))
     }"

definition buf_new :: "bool \<Rightarrow> bool \<Rightarrow> sw_buf option" where
  "buf_new ok1 ok2 =
     (if ok1 \<and> ok2 then Some \<lparr>bf_len = 0, bf_size = int BUF_MAXLEN, bf_index = 0, bf_data = Some (zeros BUF_MAXLEN)\<rparr>
      else None)"

text \<open>The answer is an option of its own: \<open>Some None\<close> is the null pointer of a failed allocation.\<close>

definition buf_new_string :: "bool \<Rightarrow> bool \<Rightarrow> char list \<Rightarrow> int \<Rightarrow> sw_buf option option" where
  "buf_new_string ok1 ok2 data len =
     do {
       size' \<leftarrow> string_loop (int BUF_MAXLEN) len;
       if ok1 \<and> ok2 then
         do {
           d \<leftarrow> mem_copy 0 data (to_size len) (zeros (nat size'));
           Some (Some \<lparr>bf_len = len, bf_size = size', bf_index = 0, bf_data = Some d\<rparr>)
         }
       else Some None
     }"

definition buf_refresh :: "(nat \<Rightarrow> char) option \<Rightarrow> sw_buf \<Rightarrow> (int \<times> sw_buf) option" where
  "buf_refresh mem b =
     do {
       (ret, b1) \<leftarrow> (if int BUF_MAXLEN < bf_size b then buf_expand mem b BUF_MAXLEN else Some (0, b));
       if ret \<noteq> 0 then Some (- 1, b1)
       else do {
         d \<leftarrow> bf_data b1;
         if length d < to_size (bf_size b1) then None
         else Some (0, b1\<lparr>bf_len := 0, bf_data := Some (zeros (nat (bf_size b1)) @ drop (nat (bf_size b1)) d)\<rparr>)
       }
     }"

definition buf_checksize :: "(nat \<Rightarrow> char) option \<Rightarrow> sw_buf \<Rightarrow> int \<Rightarrow> (int \<times> sw_buf) option" where
  "buf_checksize mem b len =
     (if s32 (bf_size b - bf_len b) \<le> len then
        do {
          (ret, b1) \<leftarrow> buf_expand mem b (to_size (s32 (bf_size b + len)));
          Some (if ret \<noteq> 0 then - 1 else 0, b1)
        }
      else Some (0, b))"

definition buf_append :: "(nat \<Rightarrow> char) option \<Rightarrow> sw_buf \<Rightarrow> char list \<Rightarrow> int \<Rightarrow> (int \<times> sw_buf) option" where
  "buf_append mem b data len =
     do {
       (ret, b1) \<leftarrow>
         (if s32 (bf_size b - bf_len b) \<le> len then buf_expand mem b (to_size (s32 (bf_size b + len))) else Some (0, b));
       if ret \<noteq> 0 then Some (- 1, b1)
       else do {
         d \<leftarrow> bf_data b1;
         d' \<leftarrow> (if bf_len b1 < 0 then None else mem_copy (nat (bf_len b1)) data (to_size len) d);
         Some (0, b1\<lparr>bf_data := Some d', bf_len := s32 (bf_len b1 + len)\<rparr>)
       }
     }"

text \<open>\<open>printed\<close> is what the format gives: \<^verbatim>\<open>vsnprintf\<close> keeps 8191 characters of it, and \<^verbatim>\<open>strlen\<close> finds the first NUL.\<close>

definition buf_format_append :: "(nat \<Rightarrow> char) option \<Rightarrow> sw_buf \<Rightarrow> char list \<Rightarrow> (int \<times> sw_buf) option" where
  "buf_format_append mem b printed =
     (let bufer = takeWhile (\<lambda>c. c \<noteq> CHR 0x00) (take 8191 printed) in
      do {
        (ret, b1) \<leftarrow> buf_append mem b bufer (int (length bufer));
        Some (if ret \<noteq> 0 then - 1 else 0, b1)
      })"

definition buf_update_string :: "(nat \<Rightarrow> char) option \<Rightarrow> sw_buf \<Rightarrow> char list \<Rightarrow> int \<Rightarrow> (int \<times> sw_buf) option" where
  "buf_update_string mem b data len =
     do {
       (ret, b1) \<leftarrow>
         (if bf_size b \<le> len \<or> len < bf_size b div 2 then buf_expand mem b (to_size len) else Some (0, b));
       if ret \<noteq> 0 then Some (- 1, b1)
       else do {
         d \<leftarrow> bf_data b1;
         d1 \<leftarrow> mem_copy 0 data (to_size len) d;
         d2 \<leftarrow> mem_copy (to_size len) [CHR 0x00] 1 d1;
         Some (0, b1\<lparr>bf_data := Some d2, bf_len := len\<rparr>)
       }
     }"

definition buf_string :: "sw_buf \<Rightarrow> char list option" where
  "buf_string b = bf_data b"

definition buf_length :: "sw_buf \<Rightarrow> int" where
  "buf_length b = bf_len b"

section \<open>The doubling loop\<close>

text \<open>The size asked for, rounded up to the next of the sizes \<open>131072 * 2 ^ k\<close>.\<close>

definition buf_unit :: "nat \<Rightarrow> nat" where
  "buf_unit k = BUF_MAXLEN * 2 ^ k"

lemma buf_unit_Suc: "buf_unit (Suc k) = 2 * buf_unit k"
  by (simp add: buf_unit_def)

lemma buf_unit_pos [simp]: "0 < buf_unit k"
  by (simp add: buf_unit_def)

lemma buf_unit_mono: "j \<le> k \<Longrightarrow> buf_unit j \<le> buf_unit k"
  by (simp add: buf_unit_def)

lemma buf_unit_less: "buf_unit j < buf_unit k \<longleftrightarrow> j < k"
  by (simp add: buf_unit_def)

lemma buf_unit_inj [simp]: "buf_unit j = buf_unit k \<longleftrightarrow> j = k"
  by (simp add: buf_unit_def)

lemma buf_unit_13: "buf_unit 13 = 1073741824"
  by (simp add: buf_unit_def)

lemma expand_loop_spec:
  assumes "nsize \<le> buf_unit 13" and "k \<le> 13"
  shows "\<exists>j. k \<le> j \<and> j \<le> 13 \<and> expand_loop (buf_unit k) nsize = Some (buf_unit j) \<and> nsize \<le> buf_unit j \<and>
    (j = k \<or> buf_unit (j - 1) < nsize)"
  using assms(2)
proof (induction "13 - k" arbitrary: k)
  case 0
  then have "k = 13" by simp
  then show ?case using assms(1) by (subst expand_loop.simps) auto
next
  case (Suc d)
  show ?case
  proof (cases "buf_unit k < nsize")
    case False
    then show ?thesis using Suc.prems by (subst expand_loop.simps) auto
  next
    case True
    from Suc obtain j where j: "Suc k \<le> j" "j \<le> 13" "expand_loop (buf_unit (Suc k)) nsize = Some (buf_unit j)" "nsize \<le> buf_unit j"
        "j = Suc k \<or> buf_unit (j - 1) < nsize"
      using Suc.hyps(1) [of "Suc k"] by (metis Suc_diff_Suc Suc_inject Suc_leI diff_is_0_eq' nat.distinct(1) not_less)
    have "buf_unit (Suc k) \<le> buf_unit 13" using Suc.hyps(2) by (intro buf_unit_mono) simp
    then have "2 * buf_unit k mod 18446744073709551616 = buf_unit (Suc k)" by (simp add: buf_unit_13 buf_unit_Suc)
    then have "expand_loop (buf_unit k) nsize = Some (buf_unit j)" using True j(3) by (subst expand_loop.simps) simp
    then show ?thesis using j True by (intro exI [of _ j]) auto
  qed
qed

lemma expand_from_start:
  assumes "nsize \<le> buf_unit 13"
  obtains j where "j \<le> 13" "expand_loop BUF_MAXLEN nsize = Some (buf_unit j)" "nsize \<le> buf_unit j" "j = 0 \<or> buf_unit (j - 1) < nsize"
  using expand_loop_spec [OF assms, of 0] by (auto simp: buf_unit_def [of 0])

section \<open>Well-formed buffers\<close>

definition buf_ok :: "sw_buf \<Rightarrow> bool" where
  "buf_ok b \<longleftrightarrow> (\<exists>k \<le> 13. bf_size b = int (buf_unit k)) \<and> 0 \<le> bf_len b \<and> bf_len b \<le> bf_size b \<and>
     (case bf_data b of None \<Rightarrow> False | Some d \<Rightarrow> int (length d) = bf_size b)"

text \<open>The text of a buffer.\<close>

definition buf_content :: "sw_buf \<Rightarrow> char list" where
  "buf_content b = (case bf_data b of None \<Rightarrow> [] | Some d \<Rightarrow> take (nat (bf_len b)) d)"

lemma buf_okE:
  assumes "buf_ok b"
  obtains k d where "k \<le> 13" "bf_size b = int (buf_unit k)" "bf_data b = Some d" "length d = buf_unit k" "0 \<le> bf_len b"
    "nat (bf_len b) \<le> buf_unit k" "bf_len b = int (length (buf_content b))" "buf_content b = take (nat (bf_len b)) d"
    "bf_len b \<le> bf_size b" "bf_size b \<le> 1073741824"
proof -
  from assms obtain k d where k: "k \<le> 13" "bf_size b = int (buf_unit k)" "bf_data b = Some d" "int (length d) = bf_size b"
      "0 \<le> bf_len b" "bf_len b \<le> bf_size b"
    by (auto simp: buf_ok_def split: option.splits)
  moreover have "bf_size b \<le> 1073741824" using k(1,2) buf_unit_mono [of k 13] by (simp add: buf_unit_13)
  ultimately show ?thesis by (intro that [of k d]) (auto simp: buf_content_def)
qed

lemma expand_spec:
  assumes ok: "buf_ok b" and n: "nat (bf_len b) \<le> n" "n \<le> buf_unit 13"
  shows "\<exists>j b'. j \<le> 13 \<and> n \<le> buf_unit j \<and> buf_expand (Some junk) b n = Some (0, b') \<and> buf_ok b' \<and>
    buf_content b' = buf_content b \<and> bf_len b' = bf_len b \<and> bf_size b' = int (buf_unit j)"
proof -
  obtain k d where b: "k \<le> 13" "bf_size b = int (buf_unit k)" "bf_data b = Some d" "length d = buf_unit k" "0 \<le> bf_len b"
    "nat (bf_len b) \<le> buf_unit k" "buf_content b = take (nat (bf_len b)) d"
    using ok by (rule buf_okE)
  obtain j where j: "j \<le> 13" "expand_loop BUF_MAXLEN n = Some (buf_unit j)" "n \<le> buf_unit j"
    using expand_from_start [OF n(2)] by blast
  have small: "s32 (int (buf_unit j)) = int (buf_unit j)"
    using j(1) buf_unit_mono [of j 13] by (simp add: buf_unit_13)
  let ?b = "b\<lparr>bf_data := Some (resize junk (buf_unit j) d), bf_size := int (buf_unit j)\<rparr>"
  have "buf_expand (Some junk) b n = Some (0, ?b)"
    using j(2) b(3) small by (simp add: buf_expand_def)
  moreover have "buf_ok ?b" using b j n(1) by (auto simp: buf_ok_def)
  moreover have "buf_content ?b = buf_content b" using b j n(1) by (simp add: buf_content_def take_resize)
  ultimately show ?thesis using j by (intro exI [of _ j] exI [of _ ?b]) simp
qed

abbreviation (input) text_limit :: nat where "text_limit \<equiv> 536870912"

text \<open>Copying at the end of the text of a buffer with enough room.\<close>

lemma copy_end:
  assumes ok: "buf_ok b" and room: "nat (bf_len b) + length t \<le> nat (bf_size b)"
  shows "\<exists>d d'. bf_data b = Some d \<and> mem_copy (nat (bf_len b)) t (length t) d = Some d' \<and>
    buf_ok (b\<lparr>bf_data := Some d', bf_len := bf_len b + int (length t)\<rparr>) \<and>
    buf_content (b\<lparr>bf_data := Some d', bf_len := bf_len b + int (length t)\<rparr>) = buf_content b @ t"
proof -
  obtain k d where b: "k \<le> 13" "bf_size b = int (buf_unit k)" "bf_data b = Some d" "length d = buf_unit k" "0 \<le> bf_len b"
    "buf_content b = take (nat (bf_len b)) d"
    using ok by (rule buf_okE)
  have "nat (bf_len b) + length t \<le> length d" using room b by simp
  then obtain d' where d': "mem_copy (nat (bf_len b)) t (length t) d = Some d'" "length d' = length d"
      "take (nat (bf_len b) + length t) d' = take (nat (bf_len b)) d @ t"
    using mem_copy_spec [of "length t" t "nat (bf_len b)" d] by auto
  have "nat (bf_len b + int (length t)) = nat (bf_len b) + length t" using b(5) by simp
  with d' b room show ?thesis by (auto simp: buf_ok_def buf_content_def)
qed

lemma append_spec:
  assumes ok: "buf_ok b" and small: "length (buf_content b) + length t < text_limit"
  shows "\<exists>b'. buf_append (Some junk) b t (int (length t)) = Some (0, b') \<and> buf_ok b' \<and> buf_content b' = buf_content b @ t"
proof -
  obtain k where b: "k \<le> 13" "bf_size b = int (buf_unit k)" "0 \<le> bf_len b" "bf_len b = int (length (buf_content b))"
    "bf_len b \<le> bf_size b" "bf_size b \<le> 1073741824"
    using ok by (rule buf_okE)
  have diff: "s32 (bf_size b - bf_len b) = bf_size b - bf_len b" using b by simp
  have "\<exists>b1. (if s32 (bf_size b - bf_len b) \<le> int (length t)
      then buf_expand (Some junk) b (to_size (s32 (bf_size b + int (length t)))) else Some (0, b)) = Some (0, b1) \<and>
      buf_ok b1 \<and> buf_content b1 = buf_content b \<and> bf_len b1 = bf_len b \<and> nat (bf_len b) + length t \<le> nat (bf_size b1)"
  proof (cases "bf_size b - bf_len b \<le> int (length t)")
    case False
    then show ?thesis using ok diff b by auto
  next
    case True
    then have "int (buf_unit k) < 536870912" using b small by simp
    then have "buf_unit k < buf_unit 12" by (simp add: buf_unit_def [of 12])
    then have "k \<le> 11" by (simp add: buf_unit_less)
    then have k: "buf_unit k \<le> 268435456" using buf_unit_mono [of k 11] by (simp add: buf_unit_def [of 11])
    let ?n = "buf_unit k + length t"
    have n: "to_size (s32 (bf_size b + int (length t))) = ?n" using k small b(2) by (simp add: nat_add_distrib)
    have "nat (bf_len b) \<le> ?n" "?n \<le> buf_unit 13" using b k small by (simp_all add: buf_unit_13)
    from expand_spec [OF ok this, of junk] obtain b1 j where b1: "?n \<le> buf_unit j" "buf_expand (Some junk) b ?n = Some (0, b1)"
        "buf_ok b1" "buf_content b1 = buf_content b" "bf_len b1 = bf_len b" "bf_size b1 = int (buf_unit j)"
      by blast
    then show ?thesis using True diff n b by (intro exI [of _ b1]) auto
  qed
  then obtain b1 where b1: "(if s32 (bf_size b - bf_len b) \<le> int (length t)
      then buf_expand (Some junk) b (to_size (s32 (bf_size b + int (length t)))) else Some (0, b)) = Some (0, b1)"
      "buf_ok b1" "buf_content b1 = buf_content b" "bf_len b1 = bf_len b" "nat (bf_len b1) + length t \<le> nat (bf_size b1)"
    by auto
  from copy_end [OF b1(2,5)] obtain d d' where d: "bf_data b1 = Some d" "mem_copy (nat (bf_len b1)) t (length t) d = Some d'"
      "buf_ok (b1\<lparr>bf_data := Some d', bf_len := bf_len b1 + int (length t)\<rparr>)"
      "buf_content (b1\<lparr>bf_data := Some d', bf_len := bf_len b1 + int (length t)\<rparr>) = buf_content b1 @ t"
    by blast
  have "s32 (bf_len b1 + int (length t)) = bf_len b1 + int (length t)" "to_size (int (length t)) = length t" "\<not> bf_len b1 < 0"
    using b b1(4) small by simp_all
  then show ?thesis using b1(1,3) d by (simp add: buf_append_def)
qed

section \<open>The buffer as a sink of text\<close>

text \<open>What the callers rely on: text put into the sink comes after the text that is there.\<close>

fun sink_all :: "('t \<Rightarrow> 's \<Rightarrow> (int \<times> 's) option) \<Rightarrow> 't list \<Rightarrow> 's \<Rightarrow> (int list \<times> 's) option" where
  "sink_all app [] s = Some ([], s)"
| "sink_all app (t # ts) s = do {
     (r, s1) \<leftarrow> app t s;
     (rs, s2) \<leftarrow> sink_all app ts s1;
     Some (r # rs, s2)
   }"

locale text_sink =
  fixes app :: "char list \<Rightarrow> 's \<Rightarrow> (int \<times> 's) option"
    and content :: "'s \<Rightarrow> char list"
    and inv :: "'s \<Rightarrow> bool"
    and text_ok :: "char list \<Rightarrow> bool"
    and limit :: nat
  assumes app_law: "inv s \<Longrightarrow> text_ok t \<Longrightarrow> length (content s) + length t < limit \<Longrightarrow>
    \<exists>s'. app t s = Some (0, s') \<and> inv s' \<and> content s' = content s @ t"
begin

lemma app_all:
  "inv s \<Longrightarrow> \<forall>t \<in> set ts. text_ok t \<Longrightarrow> length (content s) + length (concat ts) < limit \<Longrightarrow>
   \<exists>s'. sink_all app ts s = Some (replicate (length ts) 0, s') \<and> inv s' \<and> content s' = content s @ concat ts"
proof (induction ts arbitrary: s)
  case (Cons t ts)
  obtain s1 where s1: "app t s = Some (0, s1)" "inv s1" "content s1 = content s @ t"
    using app_law [OF Cons.prems(1), of t] Cons.prems(2,3) by auto
  from Cons.IH [OF s1(2)] Cons.prems s1(3) obtain s2 where
    "sink_all app ts s1 = Some (replicate (length ts) 0, s2)" "inv s2" "content s2 = content s1 @ concat ts"
    by auto
  with s1 show ?case by simp
qed simp

end

interpretation buf_sink: text_sink "\<lambda>t b. buf_append (Some junk) b t (int (length t))" buf_content buf_ok "\<lambda>t. True" text_limit
  for junk
  by unfold_locales (rule append_spec)

lemma format_text: "CHR 0x00 \<notin> set t \<Longrightarrow> length t \<le> 8191 \<Longrightarrow> takeWhile (\<lambda>c. c \<noteq> CHR 0x00) (take 8191 t) = t"
  by (auto simp: takeWhile_eq_all_conv)

interpretation buf_format_sink: text_sink "\<lambda>t b. buf_format_append (Some junk) b t" buf_content buf_ok
    "\<lambda>t. CHR 0x00 \<notin> set t \<and> length t \<le> 8191" text_limit
  for junk
proof unfold_locales
  fix b t
  assume ok: "buf_ok b" and t: "CHR 0x00 \<notin> set t \<and> length t \<le> 8191" and small: "length (buf_content b) + length t < text_limit"
  from t have cut: "takeWhile (\<lambda>c. c \<noteq> CHR 0x00) (take 8191 t) = t" by (intro format_text) blast+
  from append_spec [OF ok small, of junk] obtain b' where
    "buf_append (Some junk) b t (int (length t)) = Some (0, b')" "buf_ok b'" "buf_content b' = buf_content b @ t"
    by blast
  then show "\<exists>b'. buf_format_append (Some junk) b t = Some (0, b') \<and> buf_ok b' \<and> buf_content b' = buf_content b @ t"
    unfolding buf_format_append_def Let_def cut by (intro exI [of _ b']) simp
qed

section \<open>The other operations\<close>

lemma checksize_spec:
  assumes ok: "buf_ok b" and small: "length (buf_content b) + n < text_limit"
  shows "\<exists>b'. buf_checksize (Some junk) b (int n) = Some (0, b') \<and> buf_ok b' \<and> buf_content b' = buf_content b \<and>
    length (buf_content b) + n \<le> nat (bf_size b')"
proof -
  obtain k where b: "k \<le> 13" "bf_size b = int (buf_unit k)" "0 \<le> bf_len b" "bf_len b = int (length (buf_content b))"
    "bf_len b \<le> bf_size b" "bf_size b \<le> 1073741824"
    using ok by (rule buf_okE)
  have diff: "s32 (bf_size b - bf_len b) = bf_size b - bf_len b" using b by simp
  show ?thesis
  proof (cases "bf_size b - bf_len b \<le> int n")
    case False
    then show ?thesis using ok diff b by (auto simp: buf_checksize_def)
  next
    case True
    then have "int (buf_unit k) < 536870912" using b small by simp
    then have "buf_unit k < buf_unit 12" by (simp add: buf_unit_def [of 12])
    then have "k \<le> 11" by (simp add: buf_unit_less)
    then have k: "buf_unit k \<le> 268435456" using buf_unit_mono [of k 11] by (simp add: buf_unit_def [of 11])
    let ?n = "buf_unit k + n"
    have n: "to_size (s32 (bf_size b + int n)) = ?n" using k small b(2) by (simp add: nat_add_distrib)
    have "nat (bf_len b) \<le> ?n" "?n \<le> buf_unit 13" using b k small by (simp_all add: buf_unit_13)
    from expand_spec [OF ok this, of junk] obtain b1 j where "?n \<le> buf_unit j" "buf_expand (Some junk) b ?n = Some (0, b1)"
        "buf_ok b1" "buf_content b1 = buf_content b" "bf_size b1 = int (buf_unit j)"
      by blast
    then show ?thesis using True diff n b by (simp add: buf_checksize_def)
  qed
qed

lemma refresh_spec:
  assumes ok: "buf_ok b"
  shows "\<exists>b'. buf_refresh (Some junk) b = Some (0, b') \<and> buf_ok b' \<and> buf_content b' = [] \<and> bf_size b' = int BUF_MAXLEN"
proof -
  obtain k d where b: "k \<le> 13" "bf_size b = int (buf_unit k)" and d: "bf_data b = Some d" "length d = buf_unit k"
    using ok by (rule buf_okE)
  have unit0: "BUF_MAXLEN = buf_unit 0" by (simp add: buf_unit_def)
  have loop: "expand_loop BUF_MAXLEN BUF_MAXLEN = Some (buf_unit 0)"
    by (subst expand_loop.simps) (simp add: buf_unit_def)
  have "\<exists>b1 d1. (if int BUF_MAXLEN < bf_size b then buf_expand (Some junk) b BUF_MAXLEN else Some (0, b)) = Some (0, b1) \<and>
      bf_data b1 = Some d1 \<and> length d1 = BUF_MAXLEN \<and> bf_size b1 = int BUF_MAXLEN"
  proof (cases "int BUF_MAXLEN < bf_size b")
    case True
    then show ?thesis using loop d by (simp add: buf_expand_def buf_unit_def)
  next
    case False
    then have "buf_unit k = BUF_MAXLEN" using b(2) buf_unit_mono [of 0 k] unit0 by simp
    then show ?thesis using False b d by simp
  qed
  then obtain b1 d1 where b1: "(if int BUF_MAXLEN < bf_size b then buf_expand (Some junk) b BUF_MAXLEN else Some (0, b)) = Some (0, b1)"
      "bf_data b1 = Some d1" "length d1 = BUF_MAXLEN" "bf_size b1 = int BUF_MAXLEN"
    by blast
  let ?b = "b1\<lparr>bf_len := 0, bf_data := Some (zeros (nat (bf_size b1)) @ drop (nat (bf_size b1)) d1)\<rparr>"
  have "buf_refresh (Some junk) b = Some (0, ?b)" using b1 by (simp add: buf_refresh_def)
  moreover have "buf_ok ?b" using b1 unit0 by (auto simp: buf_ok_def intro!: exI [of _ 0])
  ultimately show ?thesis using b1(4) by (intro exI [of _ ?b]) (simp add: buf_content_def)
qed

text \<open>The length of a replacement text that leaves no room for its terminator: the buffer is resized to exactly this
  length.\<close>

definition unit_length :: "nat \<Rightarrow> bool" where
  "unit_length n \<longleftrightarrow> (\<exists>k \<le> 13. n = buf_unit k)"

definition resizes :: "sw_buf \<Rightarrow> nat \<Rightarrow> bool" where
  "resizes b n \<longleftrightarrow> bf_size b \<le> int n \<or> int n < bf_size b div 2"

lemma update_spec:
  assumes ok: "buf_ok b" and small: "length t < text_limit"
  shows "(resizes b (length t) \<and> unit_length (length t) \<and> buf_update_string (Some junk) b t (int (length t)) = None) \<or>
    (\<not> (resizes b (length t) \<and> unit_length (length t)) \<and>
     (\<exists>b'. buf_update_string (Some junk) b t (int (length t)) = Some (0, b') \<and> buf_ok b' \<and> buf_content b' = t))"
proof -
  obtain k d where b: "k \<le> 13" "bf_size b = int (buf_unit k)" "bf_data b = Some d" "length d = buf_unit k"
    using ok by (rule buf_okE)
  let ?n = "length t"
  have big: "?n \<le> buf_unit 13" using small by (simp add: buf_unit_13)
  have n: "to_size (int ?n) = ?n" using small by simp
  obtain j where j: "j \<le> 13" "expand_loop BUF_MAXLEN ?n = Some (buf_unit j)" "?n \<le> buf_unit j" "j = 0 \<or> buf_unit (j - 1) < ?n"
    using expand_from_start [OF big] by blast
  have s: "s32 (int (buf_unit j)) = int (buf_unit j)"
    using j(1) buf_unit_mono [of j 13] by (simp add: buf_unit_13)
  let ?m = "if resizes b ?n then j else k" and ?d = "if resizes b ?n then resize junk (buf_unit j) d else d"
  let ?b1 = "b\<lparr>bf_data := Some ?d, bf_size := int (buf_unit ?m)\<rparr>"
  have "b\<lparr>bf_data := Some d, bf_size := int (buf_unit k)\<rparr> = b" using b by (cases b) simp
  then have run: "(if bf_size b \<le> int ?n \<or> int ?n < bf_size b div 2 then buf_expand (Some junk) b (to_size (int ?n)) else Some (0, b)) = Some (0, ?b1)"
    using b j(2) n s by (simp add: buf_expand_def resizes_def)
  have len: "length ?d = buf_unit ?m" "?m \<le> 13" "?n \<le> buf_unit ?m" using b j by (auto simp: resizes_def)
  obtain d1 where d1: "mem_copy 0 t ?n ?d = Some d1" "length d1 = buf_unit ?m" "take ?n d1 = t"
    using mem_copy_spec [of ?n t 0 ?d] len by auto
  have step: "buf_update_string (Some junk) b t (int ?n) =
      map_option (\<lambda>d2. (0, ?b1\<lparr>bf_data := Some d2, bf_len := int ?n\<rparr>)) (mem_copy ?n [CHR 0x00] 1 d1)"
    unfolding buf_update_string_def run using n d1(1) by (cases "mem_copy ?n [CHR 0x00] 1 d1") simp_all
  have exact: "?n = buf_unit ?m \<longleftrightarrow> resizes b ?n \<and> unit_length ?n"
  proof (cases "resizes b ?n")
    case False
    then show ?thesis using b by (simp add: resizes_def)
  next
    case True
    have "?n = buf_unit j" if "?n = buf_unit i" for i
    proof (rule ccontr)
      assume "?n \<noteq> buf_unit j"
      then have "buf_unit i < buf_unit j" using that j(3) by linarith
      then have "i < j" by (simp add: buf_unit_less)
      then have "buf_unit i \<le> buf_unit (j - 1)" by (intro buf_unit_mono) simp
      then show False using that j(4) \<open>i < j\<close> by simp
    qed
    then show ?thesis using True j(1) by (auto simp: unit_length_def)
  qed
  show ?thesis
  proof (cases "?n = buf_unit ?m")
    case True
    then have "mem_copy ?n [CHR 0x00] 1 d1 = None" using d1(2) by (simp add: mem_copy_def)
    then show ?thesis using step True exact by simp
  next
    case False
    then have "?n + 1 \<le> length d1" using len(3) d1(2) by simp
    then obtain d2 where d2: "mem_copy ?n [CHR 0x00] 1 d1 = Some d2" "length d2 = buf_unit ?m" "take ?n d2 = t"
      using mem_copy_spec [of 1 "[CHR 0x00]" ?n d1] d1 by auto
    let ?b2 = "?b1\<lparr>bf_data := Some d2, bf_len := int ?n\<rparr>"
    have "buf_ok ?b2" using d2 len by (auto simp: buf_ok_def)
    moreover have "buf_content ?b2 = t" using d2 by (simp add: buf_content_def)
    moreover have "buf_update_string (Some junk) b t (int ?n) = Some (0, ?b2)" using step d2(1) by simp
    ultimately show ?thesis using False exact by blast
  qed
qed

section \<open>Runs of operations\<close>

datatype buf_op = Append "char list" | Format "char list" | Reserve nat | Refresh | Replace "char list"

fun buf_call :: "(nat \<Rightarrow> char) \<Rightarrow> buf_op \<Rightarrow> sw_buf \<Rightarrow> (int \<times> sw_buf) option" where
  "buf_call junk (Append t) b = buf_append (Some junk) b t (int (length t))"
| "buf_call junk (Format t) b = buf_format_append (Some junk) b t"
| "buf_call junk (Reserve n) b = buf_checksize (Some junk) b (int n)"
| "buf_call junk Refresh b = buf_refresh (Some junk) b"
| "buf_call junk (Replace t) b = buf_update_string (Some junk) b t (int (length t))"

fun text_call :: "buf_op \<Rightarrow> char list \<Rightarrow> char list" where
  "text_call (Append t) u = u @ t"
| "text_call (Format t) u = u @ t"
| "text_call (Reserve n) u = u"
| "text_call Refresh u = []"
| "text_call (Replace t) u = t"

fun op_fits :: "buf_op \<Rightarrow> char list \<Rightarrow> bool" where
  "op_fits (Append t) u = (length u + length t < text_limit)"
| "op_fits (Format t) u = (CHR 0x00 \<notin> set t \<and> length t \<le> 8191 \<and> length u + length t < text_limit)"
| "op_fits (Reserve n) u = (length u + n < text_limit)"
| "op_fits Refresh u = True"
| "op_fits (Replace t) u = (length t < text_limit \<and> \<not> unit_length (length t))"

fun ops_fit :: "buf_op list \<Rightarrow> char list \<Rightarrow> bool" where
  "ops_fit [] u = True"
| "ops_fit (c # cs) u = (op_fits c u \<and> ops_fit cs (text_call c u))"

lemma buf_call_spec:
  assumes "buf_ok b" and "op_fits c (buf_content b)"
  shows "\<exists>b'. buf_call junk c b = Some (0, b') \<and> buf_ok b' \<and> buf_content b' = text_call c (buf_content b)"
proof (cases c)
  case (Append t)
  then show ?thesis using append_spec [OF assms(1)] assms(2) by simp
next
  case (Format t)
  then show ?thesis using buf_format_sink.app_law [OF assms(1)] assms(2) by simp
next
  case (Reserve n)
  then show ?thesis using checksize_spec [OF assms(1), of n junk] assms(2) by auto
next
  case Refresh
  then show ?thesis using refresh_spec [OF assms(1), of junk] by auto
next
  case (Replace t)
  then show ?thesis using update_spec [OF assms(1), of t junk] assms(2) by auto
qed

lemma buf_ok_len: "buf_ok b \<Longrightarrow> bf_len b = int (length (buf_content b))"
  by (erule buf_okE)

section \<open>Properties\<close>

text \<open>C25: Every sequence of appends, formatted appends, reservations, refreshes and replacements on a well-formed buffer
  answers 0 each time, never leaves the memory of the buffer, and leaves the text that the same operations make of the text
  as a list; \<^verbatim>\<open>buf_length\<close> is its length.  This holds while the text stays below 512 MB and allocations succeed, for
  formatted texts of at most 8191 characters (longer ones are cut) without NUL, and for replacements whose length is not
  131072 times a power of two (the code then may store the terminator one byte behind the memory).\<close>

theorem buffer_runs_as_text:
  assumes "buf_ok b" and "ops_fit ops (buf_content b)"
  shows "\<exists>b'. sink_all (buf_call junk) ops b = Some (replicate (length ops) 0, b') \<and> buf_ok b' \<and>
    buf_content b' = fold text_call ops (buf_content b) \<and> buf_length b' = int (length (fold text_call ops (buf_content b)))"
  using assms
proof (induction ops arbitrary: b)
  case Nil
  then show ?case by (simp add: buf_length_def buf_ok_len)
next
  case (Cons c cs)
  obtain b1 where "buf_call junk c b = Some (0, b1)" "buf_ok b1" "buf_content b1 = text_call c (buf_content b)"
    using buf_call_spec [OF Cons.prems(1)] Cons.prems(2) by auto
  with Cons.IH [of b1] Cons.prems(2) show ?case by auto
qed

text \<open>\<^verbatim>\<open>buf_update_string\<close> leaves the memory of the buffer exactly when it resizes it and the new text has the length of one
  of the sizes \<open>131072 * 2 ^ k\<close>: the buffer then has no byte for the terminator.\<close>

theorem update_string_overruns:
  assumes "buf_ok b" and "length t < 536870912"
  shows "buf_update_string (Some junk) b t (int (length t)) = None \<longleftrightarrow>
    (bf_size b \<le> int (length t) \<or> int (length t) < bf_size b div 2) \<and> (\<exists>k \<le> 13. length t = 131072 * 2 ^ k)"
  using update_spec [OF assms, of junk] by (auto simp: resizes_def unit_length_def buf_unit_def)

section \<open>The check for room\<close>

text \<open>A buffer of any size, as \<^verbatim>\<open>pub_buf_update\<close> makes them.\<close>

definition buf_sound :: "sw_buf \<Rightarrow> bool" where
  "buf_sound b \<longleftrightarrow> 0 \<le> bf_len b \<and> bf_len b \<le> bf_size b \<and>
     (case bf_data b of None \<Rightarrow> False | Some d \<Rightarrow> int (length d) = bf_size b)"

lemma chksize_left:
  "buf_sound b \<Longrightarrow> bf_size b < 1073741824 \<Longrightarrow> to_size (bf_size b - bf_len b) = nat (bf_size b - bf_len b)"
  by (simp add: buf_sound_def)

text \<open>The block added is more than what is missing.\<close>

definition chk_block :: "sw_buf \<Rightarrow> nat \<Rightarrow> nat" where
  "chk_block b sz =
     (if nat (bf_size b - bf_len b) \<le> sz mod SW_BUFF_INCR_SIZE then sz div SW_BUFF_INCR_SIZE + 1 else sz div SW_BUFF_INCR_SIZE) *
     SW_BUFF_INCR_SIZE"

lemma block_bounds:
  assumes "n = q * 2048 + m" and "m < (2048 :: nat)"
  shows "n < l + (if l \<le> m then q + 1 else q) * 2048 \<and> (if l \<le> m then q + 1 else q) * 2048 \<le> n + 2048"
  using assms by (cases "l \<le> m") simp_all

lemma chk_block_room: "sz < nat (bf_size b - bf_len b) + chk_block b sz"
  using block_bounds [of sz "sz div 2048" "sz mod 2048" "nat (bf_size b - bf_len b)"] unfolding chk_block_def by simp_all

lemma chk_block_le: "chk_block b sz \<le> sz + 2048"
  using block_bounds [of sz "sz div 2048" "sz mod 2048" "nat (bf_size b - bf_len b)"] unfolding chk_block_def by simp

lemma chksize_run:
  assumes "buf_sound b" and "bf_size b < 1073741824" and "sz < 1073739000"
  shows "pub_buf_chksize ok1 ok2 b sz =
    (if nat (bf_size b - bf_len b) \<le> sz then
       if ok1 \<and> ok2 then Some (SW_OK, b\<lparr>bf_size := bf_size b + int (chk_block b sz) + 2,
         bf_data := Some (buf_content b @ zeros (nat (bf_size b + int (chk_block b sz) + 2) - length (buf_content b)))\<rparr>)
       else if ok1 then Some (SW_ERR, b\<lparr>bf_size := bf_size b + int (chk_block b sz) + 2, bf_data := None\<rparr>)
       else Some (SW_ERR, b\<lparr>bf_size := bf_size b + int (chk_block b sz)\<rparr>)
     else Some (SW_OK, b))"
proof -
  obtain d where d: "bf_data b = Some d" "int (length d) = bf_size b" "0 \<le> bf_len b" "bf_len b \<le> bf_size b"
    using assms(1) by (auto simp: buf_sound_def split: option.splits)
  let ?s = "bf_size b + int (chk_block b sz)" and ?n = "nat (bf_len b)"
  have n: "?n \<le> length d" using d by simp
  have t: "buf_content b = take ?n d" "length (take ?n d) = ?n" using d by (simp_all add: buf_content_def)
  have small: "?s < 2147483600" using chk_block_le [of b sz] assms(2,3) by linarith
  then have s: "s32 ?s = ?s" "s32 (?s + 2) = ?s + 2" using d by simp_all
  show ?thesis
  proof (cases "nat (bf_size b - bf_len b) \<le> sz")
    case False
    then show ?thesis using d chksize_left [OF assms(1,2)] by (simp add: pub_buf_chksize_def)
  next
    case True
    then have "0 < chk_block b sz" using chk_block_room [of sz b] by linarith
    then have pos: "\<not> ?s \<le> 0" "0 \<le> ?s + 2" using d by linarith+
    have block: "int ((if nat (bf_size b - bf_len b) \<le> sz mod 2048 then sz div 2048 + 1 else sz div 2048) * 2048) = int (chk_block b sz)"
      by (simp add: chk_block_def)
    have upd: "pub_buf_update ok2 (Some (b\<lparr>bf_size := ?s\<rparr>)) ?s =
        (if ok2 then (0, Some (b\<lparr>bf_size := ?s + 2, bf_data := Some (zeros (nat (?s + 2)))\<rparr>))
         else (- 1, Some (b\<lparr>bf_size := ?s + 2, bf_data := None\<rparr>)))"
      using pos s by (simp add: Let_def)
    have saved: "mem_copy 0 d ?n (zeros (?n + 1)) = Some (take ?n d @ zeros 1)"
    proof -
      have "drop ?n (zeros (?n + 1)) = zeros 1" unfolding zeros_def drop_replicate by simp
      then show ?thesis using n by (simp add: mem_copy_def)
    qed
    have le: "?n \<le> nat (?s + 2)" using d by linarith
    have copy: "mem_copy 0 (take ?n d @ zeros 1) ?n (zeros m) = Some (take ?n d @ zeros (m - ?n))" if "?n \<le> m" for m
      using that n by (simp add: mem_copy_def zeros_def)
    note restored = copy [OF le]
    have same: "b\<lparr>bf_size := x, bf_data := y, bf_len := bf_len b\<rparr> = b\<lparr>bf_size := x, bf_data := y\<rparr>" for x y
      by (cases b) simp
    have "\<not> bf_len b < 0" "int ?n = bf_len b" using d by simp_all
    then show ?thesis
      unfolding pub_buf_chksize_def Let_def chksize_left [OF assms(1,2)] block s(1)
      using True d(1,3) upd saved restored t same
      by (cases ok1; cases ok2) (simp_all del: pub_buf_update.simps)
  qed
qed

theorem chksize_makes_room:
  assumes "buf_sound b" and "bf_size b < 1073741824" and "sz < 1073739000"
  shows "\<exists>b'. pub_buf_chksize True True b sz = Some (SW_OK, b') \<and> buf_sound b' \<and> buf_content b' = buf_content b \<and>
    bf_len b + int sz < bf_size b'"
proof (cases "nat (bf_size b - bf_len b) \<le> sz")
  case False
  then show ?thesis using chksize_run [OF assms, of True True] assms(1) by simp
next
  case True
  have b: "0 \<le> bf_len b" "bf_len b \<le> bf_size b" "length (buf_content b) = nat (bf_len b)"
    using assms(1) by (auto simp: buf_sound_def buf_content_def split: option.splits)
  have "bf_len b + int sz < bf_size b + int (chk_block b sz) + 2" using chk_block_room [of sz b] b by linarith
  then show ?thesis
    using chksize_run [OF assms, of True True] True b by (auto simp: buf_sound_def buf_content_def [of "_\<lparr>bf_data := _\<rparr>"])
qed

text \<open>When the copy of the text cannot be allocated, the size is already raised: the buffer then takes a text it has no bytes
  for.\<close>

theorem failed_chksize_overstates:
  assumes "buf_sound b" and "bf_size b < 1073741824" and "sz < 1073739000" and "nat (bf_size b - bf_len b) \<le> sz"
  shows "\<exists>b'. pub_buf_chksize False ok2 b sz = Some (SW_ERR, b') \<and> bf_size b < bf_size b' \<and>
    (\<forall>t. bf_size b < bf_len b + int (length t) \<and> bf_len b + int (length t) < bf_size b' \<longrightarrow>
       buf_append mem b' t (int (length t)) = None)"
proof -
  obtain d where d: "bf_data b = Some d" "int (length d) = bf_size b" "0 \<le> bf_len b" "bf_len b \<le> bf_size b"
    using assms(1) by (auto simp: buf_sound_def split: option.splits)
  let ?b = "b\<lparr>bf_size := bf_size b + int (chk_block b sz)\<rparr>"
  have run: "pub_buf_chksize False ok2 b sz = Some (SW_ERR, ?b)" using chksize_run [OF assms(1-3)] assms(4) by simp
  have "0 < chk_block b sz" using chk_block_room [of sz b] assms(4) by linarith
  moreover have "buf_append mem ?b t (int (length t)) = None"
    if t: "bf_size b < bf_len b + int (length t)" "bf_len b + int (length t) < bf_size b + int (chk_block b sz)" for t
  proof -
    have small: "bf_size b + int (chk_block b sz) < 2147483600" using chk_block_le [of b sz] assms(2,3) by linarith
    have "s32 (bf_size b + int (chk_block b sz) - bf_len b) = bf_size b + int (chk_block b sz) - bf_len b"
      using small d by simp
    then have "\<not> s32 (bf_size ?b - bf_len ?b) \<le> int (length t)" using t by simp
    moreover have "to_size (int (length t)) = length t" using t small d by simp
    moreover have "mem_copy (nat (bf_len b)) t (length t) d = None" using t d by (simp add: mem_copy_def)
    ultimately show ?thesis using d by (simp add: buf_append_def)
  qed
  ultimately show ?thesis using run by (intro exI [of _ ?b]) simp
qed

section \<open>Witnesses\<close>

lemma buf_new_ok: "buf_new True True = Some b \<Longrightarrow> buf_ok b \<and> buf_content b = [] \<and> bf_size b = 131072"
  by (auto simp: buf_new_def buf_ok_def buf_content_def buf_unit_def intro!: exI [of _ 0])

lemma short_not_unit: "n < BUF_MAXLEN \<Longrightarrow> \<not> unit_length n"
proof
  assume "unit_length n"
  then obtain k where "n = buf_unit k" by (auto simp: unit_length_def)
  moreover have "buf_unit 0 \<le> buf_unit k" by (rule buf_unit_mono) simp
  moreover assume "n < BUF_MAXLEN"
  ultimately show False by (simp add: buf_unit_def [of 0])
qed

theorem buffer_runs_as_text_witness:
  "\<exists>b b'. buf_new True True = Some b \<and>
     sink_all (buf_call (\<lambda>_. CHR ''?'')) [Append ''ab'', Reserve 7, Format ''c'', Replace ''xy'', Append ''z''] b =
       Some ([0, 0, 0, 0, 0], b') \<and> buf_content b' = ''xyz''"
proof -
  obtain b where b: "buf_new True True = Some b" by (simp add: buf_new_def)
  note ok = buf_new_ok [OF b]
  let ?ops = "[Append ''ab'', Reserve 7, Format ''c'', Replace ''xy'', Append ''z'']"
  have "ops_fit ?ops (buf_content b)" using ok short_not_unit [of "Suc (Suc 0)"] by simp
  from buffer_runs_as_text [OF _ this, of "\<lambda>_. CHR ''?''"] ok obtain b' where
    "sink_all (buf_call (\<lambda>_. CHR ''?'')) ?ops b = Some (replicate (length ?ops) 0, b')"
    "buf_content b' = fold text_call ?ops (buf_content b)"
    by blast
  with b show ?thesis by (intro exI [of _ b] exI [of _ b']) (simp del: sink_all.simps buf_call.simps)
qed

theorem update_string_overruns_witness:
  "\<exists>b. buf_new True True = Some b \<and> buf_update_string (Some (\<lambda>_. CHR ''?'')) b (replicate 131072 CHR ''x'') 131072 = None"
proof -
  obtain b where b: "buf_new True True = Some b" by (simp add: buf_new_def)
  note ok = buf_new_ok [OF b]
  have "length (replicate 131072 (CHR ''x'')) = 131072 * 2 ^ 0" "length (replicate 131072 (CHR ''x'')) < 536870912"
    "bf_size b \<le> int (length (replicate 131072 (CHR ''x'')))"
    using ok by simp_all
  then have "buf_update_string (Some (\<lambda>_. CHR ''?'')) b (replicate 131072 CHR ''x'') (int (length (replicate 131072 (CHR ''x'')))) = None"
    using update_string_overruns [of b "replicate 131072 (CHR ''x'')" "\<lambda>_. CHR ''?''"] ok by blast
  with b show ?thesis by simp
qed

end
