(* ===== verification/Pub_Hvar.thy ===== *)
theory Pub_Hvar
  imports Prelude Pub_Hash Pub_Buf
begin

text \<open>The variables of a session, \<^verbatim>\<open>core/pub_hvar.c\<close>: a hash table of named values, and their text form, in which they
  travel from process to process.  The variables that start with a dot live in an XML tree, whose type is the parameter
  \<open>'t\<close> and whose functions are arguments.  A pointer that may be null is an option; the memory at a pointer is a list of
  characters, and an access outside of it makes the run undefined (None).  The properties: what is set is read back, and
  variables that are written as text and read again are the same variables, but for their type.\<close>

record var_node =
  vn_name :: "char list"
  vn_value :: "char list option"
  vn_type :: char
  vn_length :: nat

record 't sw_hvar =
  hv_comvar :: "var_node hash_t option"
  hv_tree :: "'t option"

abbreviation (input) MAX_DISTINCT_ITEM :: nat where "MAX_DISTINCT_ITEM \<equiv> 512"
abbreviation (input) MAX_VARNAME_LEN :: nat where "MAX_VARNAME_LEN \<equiv> 64"

section \<open>Memory\<close>

text \<open>Which of the four allocations of a new variable succeed: its value, its hash node, the key and the copy of the node.\<close>

record var_mem =
  vm_value :: bool
  vm_node :: bool
  vm_key :: bool
  vm_copy :: bool

definition mem_read :: "nat \<Rightarrow> nat \<Rightarrow> char list \<Rightarrow> char list option" where
  "mem_read off n mem = (if off + n \<le> length mem then Some (take n (drop off mem)) else None)"

definition c_strlen :: "char list \<Rightarrow> nat option" where
  "c_strlen mem = (if CHR 0x00 \<in> set mem then Some (length (c_str mem)) else None)"

text \<open>\<^verbatim>\<open>calloc(1, n + 1)\<close> for a value; no memory holds more than half of the addresses.\<close>

definition value_alloc :: "bool \<Rightarrow> nat \<Rightarrow> bool" where
  "value_alloc ok n \<longleftrightarrow> ok \<and> n < 9223372036854775808"

section \<open>Variables\<close>

definition var_key :: "nat \<Rightarrow> cstr \<Rightarrow> nat" where
  "var_key buckets s = sum_list (map of_char s) mod 4294967296 mod buckets"

text \<open>The node at a place of the table, changed where it is.\<close>

definition hash_modify :: "(nat \<times> nat) \<Rightarrow> ('v \<Rightarrow> 'v) \<Rightarrow> 'v hash_t \<Rightarrow> 'v hash_t" where
  "hash_modify p f h =
     (let chain = ht_nodes h ! fst p; n = chain ! snd p in
      h\<lparr>ht_nodes := (ht_nodes h)[fst p := chain[snd p := n\<lparr>hn_value := f (hn_value n)\<rparr>]]\<rparr>)"

definition node_at :: "(nat \<times> nat) \<Rightarrow> 'v hash_t \<Rightarrow> 'v" where
  "node_at p h = hn_value (ht_nodes h ! fst p ! snd p)"

definition comvar_init :: "bool \<Rightarrow> bool \<Rightarrow> 't sw_hvar \<Rightarrow> int \<times> 't sw_hvar" where
  "comvar_init ok1 ok2 vars =
     (let h = hash_alloc ok1 ok2 MAX_DISTINCT_ITEM MAX_VARNAME_LEN var_key in
      (if h = None then - 1 else 0, vars\<lparr>hv_comvar := h\<rparr>))"

definition comvar_free :: "'t sw_hvar option \<Rightarrow> char list \<Rightarrow> (int \<times> 't sw_hvar option) option" where
  "comvar_free vars name =
     (case vars of
        None \<Rightarrow> Some (- 1, vars)
      | Some vs \<Rightarrow>
          (case hv_comvar vs of
             None \<Rightarrow> Some (- 1, vars)
           | Some h \<Rightarrow> map_option (\<lambda>(r, h'). (0, Some (vs\<lparr>hv_comvar := Some h'\<rparr>))) (hash_free_entry h name)))"

definition comvar_clear :: "'t sw_hvar option \<Rightarrow> int \<times> 't sw_hvar option" where
  "comvar_clear vars =
     (case vars of
        None \<Rightarrow> (- 1, None)
      | Some vs \<Rightarrow> if hv_comvar vs = None then (- 1, vars) else (0, Some (vs\<lparr>hv_comvar := None\<rparr>)))"

text \<open>The test of a name: null, empty, or not one of \<^verbatim>\<open>$\<close> and \<^verbatim>\<open>#\<close> at its start.\<close>

definition bad_name :: "char list option \<Rightarrow> bool option" where
  "bad_name name =
     (case name of
        None \<Rightarrow> Some True
      | Some [] \<Rightarrow> None
      | Some (c # _) \<Rightarrow> Some (c = CHR 0x00 \<or> c \<noteq> CHR ''$'' \<and> c \<noteq> CHR ''#''))"

text \<open>What \<^verbatim>\<open>comvar_set_value\<close> and \<^verbatim>\<open>comvar_get_null\<close> do with the table: \<open>bytes\<close> are the new contents.\<close>

definition put_var :: "var_mem \<Rightarrow> char list \<Rightarrow> char list option \<Rightarrow> nat \<Rightarrow> char \<Rightarrow> var_node hash_t \<Rightarrow> (int \<times> var_node hash_t) option" where
  "put_var mem name bytes n type h =
     do {
       found \<leftarrow> hash_get_node_by_key h name;
       (case found of
          Some p \<Rightarrow>
            if \<not> value_alloc (vm_value mem) n then Some (- 1, hash_modify p (\<lambda>nd. nd\<lparr>vn_value := None\<rparr>) h)
            else do {
              bs \<leftarrow> bytes;
              Some (0, hash_modify p (\<lambda>nd. nd\<lparr>vn_value := Some (bs @ [CHR 0x00]), vn_length := n, vn_type := type\<rparr>) h)
            }
        | None \<Rightarrow> do {
            copied \<leftarrow> mem_read 0 (MAX_VARNAME_LEN - 1) name;
            if \<not> value_alloc (vm_value mem) n then Some (- 1, h)
            else do {
              bs \<leftarrow> bytes;
              (ret, h') \<leftarrow> hash_add_entry (vm_node mem) (vm_key mem) (vm_copy mem) h name
                \<lparr>vn_name = copied @ [CHR 0x00], vn_value = Some (bs @ [CHR 0x00]), vn_type = type, vn_length = n\<rparr>;
              Some (if ret \<noteq> 0 then - 1 else 0, h')
            }
          })
     }"

definition comvar_set_value :: "var_mem \<Rightarrow> 't sw_hvar option \<Rightarrow> char list option \<Rightarrow> char list \<Rightarrow> nat \<Rightarrow> char \<Rightarrow> (int \<times> 't sw_hvar option) option" where
  "comvar_set_value mem vars name val sz type =
     (case vars of
        None \<Rightarrow> Some (- 1, vars)
      | Some vs \<Rightarrow>
          (case hv_comvar vs of
             None \<Rightarrow> Some (- 1, vars)
           | Some h \<Rightarrow>
               do {
                 bad \<leftarrow> bad_name name;
                 if bad then Some (- 1, vars)
                 else do {
                   nm \<leftarrow> name;
                   n \<leftarrow> (if type = CHR ''a'' \<or> type = CHR ''A'' then c_strlen val else Some sz);
                   (ret, h') \<leftarrow> put_var mem nm (mem_read 0 n val) n type h;
                   Some (ret, Some (vs\<lparr>hv_comvar := Some h'\<rparr>))
                 }
               }))"

text \<open>The answer is the pointer to the fresh bytes, None for \<^verbatim>\<open>NULL\<close>.\<close>

definition comvar_get_null :: "var_mem \<Rightarrow> 't sw_hvar option \<Rightarrow> char list option \<Rightarrow> nat \<Rightarrow> (char list option \<times> 't sw_hvar option) option" where
  "comvar_get_null mem vars name sz =
     (case vars of
        None \<Rightarrow> Some (None, vars)
      | Some vs \<Rightarrow>
          (case hv_comvar vs of
             None \<Rightarrow> Some (None, vars)
           | Some h \<Rightarrow>
               do {
                 bad \<leftarrow> bad_name name;
                 if bad then Some (None, vars)
                 else do {
                   nm \<leftarrow> name;
                   (ret, h') \<leftarrow> put_var mem nm (Some (zeros sz)) sz (CHR ''b'') h;
                   Some (if ret = 0 then Some (zeros (sz + 1)) else None, Some (vs\<lparr>hv_comvar := Some h'\<rparr>))
                 }
               }))"

text \<open>A lookup through the pointers: the node, \<open>Some None\<close> for no such variable; the outer None of the three is the error
  answer.\<close>

definition find_var :: "'t sw_hvar option \<Rightarrow> char list \<Rightarrow> var_node option option option" where
  "find_var vars name =
     (case vars of
        None \<Rightarrow> Some None
      | Some vs \<Rightarrow> (case hv_comvar vs of None \<Rightarrow> Some None | Some h \<Rightarrow> map_option Some (hash_lookup_entry h name)))"

abbreviation (input) SIZE_MINUS_1 :: nat where "SIZE_MINUS_1 \<equiv> 18446744073709551615"

text \<open>\<open>out\<close> is the memory at \<^verbatim>\<open>value\<close>.\<close>

definition comvar_get_value :: "'t sw_hvar option \<Rightarrow> char list \<Rightarrow> char list \<Rightarrow> (nat \<times> char list) option" where
  "comvar_get_value vars name out =
     do {
       answer \<leftarrow> find_var vars name;
       (case answer of
          None \<Rightarrow> Some (SIZE_MINUS_1, out)
        | Some None \<Rightarrow> map_option (Pair SIZE_MINUS_1) (mem_copy 0 [CHR 0x00] 1 out)
        | Some (Some nd) \<Rightarrow>
            map_option (Pair (vn_length nd))
              (mem_copy 0 (case vn_value nd of None \<Rightarrow> [] | Some bs \<Rightarrow> bs) (vn_length nd) out))
     }"

definition comvar_get_field_len :: "'t sw_hvar option \<Rightarrow> char list \<Rightarrow> nat option" where
  "comvar_get_field_len vars name =
     map_option (\<lambda>answer. case answer of None \<Rightarrow> SIZE_MINUS_1 | Some None \<Rightarrow> 0 | Some (Some nd) \<Rightarrow> vn_length nd) (find_var vars name)"

text \<open>The pointer and what is stored at \<^verbatim>\<open>len\<close>, if anything.\<close>

definition comvar_get_var_addr :: "'t sw_hvar option \<Rightarrow> char list \<Rightarrow> (char list option \<times> int option) option" where
  "comvar_get_var_addr vars name =
     map_option (\<lambda>answer. case answer of None \<Rightarrow> (None, None) | Some None \<Rightarrow> (None, None)
       | Some (Some nd) \<Rightarrow> (vn_value nd, Some (s32 (int (vn_length nd))))) (find_var vars name)"

section \<open>Text form\<close>

text \<open>\<^verbatim>\<open>"!%02d%s%c%04d"\<close>.\<close>

definition node_header :: "var_node \<Rightarrow> char list" where
  "node_header nd =
     CHR ''!'' # fmt_0lld 2 (int (length (c_str (vn_name nd)))) @ c_str (vn_name nd) @ [vn_type nd] @ fmt_0lld 4 (s32 (int (vn_length nd)))"

text \<open>The loop over the buckets and their nodes; the answers of the appends are not looked at.  \<open>mem i\<close> is the memory the
  \<open>i\<close>th append finds.\<close>

fun ser_nodes :: "(nat \<Rightarrow> (nat \<Rightarrow> char) option) \<Rightarrow> nat \<Rightarrow> var_node hash_node list \<Rightarrow> sw_buf \<Rightarrow> sw_buf option" where
  "ser_nodes mem i [] b = Some b"
| "ser_nodes mem i (n # ns) b =
     do {
       (_, b1) \<leftarrow> buf_format_append (mem i) b (node_header (hn_value n));
       (_, b2) \<leftarrow> buf_append (mem (i + 1)) b1 (case vn_value (hn_value n) of None \<Rightarrow> [] | Some bs \<Rightarrow> bs)
         (s32 (int (vn_length (hn_value n))));
       ser_nodes mem (i + 2) ns b2
     }"

definition comvar_serialize :: "(nat \<Rightarrow> (nat \<Rightarrow> char) option) \<Rightarrow> 't sw_hvar option \<Rightarrow> sw_buf \<Rightarrow> (int \<times> sw_buf) option" where
  "comvar_serialize mem vars buf =
     (case vars of
        None \<Rightarrow> Some (- 1, buf)
      | Some vs \<Rightarrow>
          (case hv_comvar vs of
             None \<Rightarrow> Some (- 1, buf)
           | Some h \<Rightarrow>
               do {
                 (_, b1) \<leftarrow> buf_append (mem 0) buf ''00000000'' 8;
                 b2 \<leftarrow> ser_nodes mem 1 (concat (ht_nodes h)) b1;
                 d \<leftarrow> bf_data b2;
                 d' \<leftarrow> mem_copy (to_size (bf_len buf)) (fmt_0lld 8 (bf_len b2 - bf_len buf)) 8 d;
                 Some (0, b2\<lparr>bf_data := Some d'\<rparr>)
               }))"

text \<open>One piece of a record; a negative length is a huge \<^verbatim>\<open>size_t\<close>, and the offset may then run backwards.\<close>

definition read_at :: "char list \<Rightarrow> int \<Rightarrow> int \<Rightarrow> char list option" where
  "read_at str off n = (if off < 0 \<or> n < 0 then None else mem_read (nat off) (nat n) str)"

definition number_at :: "char list \<Rightarrow> int \<Rightarrow> int \<Rightarrow> int option" where
  "number_at str off n = map_option (\<lambda>bs. atoi (c_str (bs @ [CHR 0x00]))) (read_at str off n)"

text \<open>The array of 64 bytes for the name: a longer name leaves it, one of 64 bytes is not terminated.\<close>

definition name_array :: "char list \<Rightarrow> char list option" where
  "name_array bs = (if length bs < MAX_VARNAME_LEN then Some (bs @ zeros (MAX_VARNAME_LEN - length bs)) else None)"

partial_function (option) unser_loop ::
    "(nat \<Rightarrow> var_mem) \<Rightarrow> nat \<Rightarrow> int \<Rightarrow> char list \<Rightarrow> int \<Rightarrow> 't sw_hvar option \<Rightarrow> (int \<times> 't sw_hvar option) option" where
  "unser_loop mem i total' str off vars =
     (if off < total' then
        do {
          nlen \<leftarrow> number_at str (off + 1) 2;
          bs \<leftarrow> read_at str (off + 3) nlen;
          name \<leftarrow> name_array bs;
          let off1 = off + 3 + nlen;
          (if name ! 0 \<noteq> CHR ''$'' \<and> name ! 0 \<noteq> CHR ''#'' then Some (- 1, vars)
           else do {
             _ \<leftarrow> read_at str off1 1;
             vlen \<leftarrow> number_at str (off1 + 1) 4;
             (_, vars1) \<leftarrow> comvar_set_value (mem i) vars (Some name) (drop (nat (off1 + 5)) str) (to_size vlen) (CHR ''b'');
             unser_loop mem (i + 1) total' str (off1 + 5 + vlen) vars1
           })
        }
      else Some (off, vars))"

declare unser_loop.simps [code]

definition comvar_unserialize :: "(nat \<Rightarrow> var_mem) \<Rightarrow> 't sw_hvar option \<Rightarrow> char list \<Rightarrow> (int \<times> 't sw_hvar option) option" where
  "comvar_unserialize mem vars str =
     (case vars of
        None \<Rightarrow> Some (- 1, vars)
      | Some vs \<Rightarrow>
          if hv_comvar vs = None then Some (- 1, vars)
          else do {
            bs \<leftarrow> read_at str 0 8;
            (off, vars1) \<leftarrow> unser_loop mem 0 (atoll (c_str (bs @ [CHR 0x00]))) str 8 vars;
            Some (s32 off, vars1)
          })"

section \<open>The interface\<close>

definition extvar_clear :: "'t sw_hvar \<Rightarrow> int \<times> 't sw_hvar" where
  "extvar_clear vs = (0, vs\<lparr>hv_tree := None\<rparr>)"

definition hvar_init :: "bool \<Rightarrow> bool \<Rightarrow> 't sw_hvar \<Rightarrow> int \<times> 't sw_hvar" where
  "hvar_init ok1 ok2 vs =
     (case comvar_init ok1 ok2 vs of (ret, vs1) \<Rightarrow> if ret < 0 then (- 1, vs1) else (0, vs1\<lparr>hv_tree := None\<rparr>))"

definition hvar_clear :: "'t sw_hvar option \<Rightarrow> int \<times> 't sw_hvar option" where
  "hvar_clear vars =
     (case vars of
        None \<Rightarrow> (- 1, None)
      | Some vs \<Rightarrow> (0, map_option (snd \<circ> extvar_clear) (snd (comvar_clear vars))))"

text \<open>The test at the start of the functions that take a name: the parameters are there and the name is not empty.\<close>

definition no_param :: "'t sw_hvar option \<Rightarrow> char list option \<Rightarrow> bool option" where
  "no_param vars name =
     (case vars of
        None \<Rightarrow> Some True
      | Some _ \<Rightarrow> (case name of None \<Rightarrow> Some True | Some [] \<Rightarrow> None | Some (c # _) \<Rightarrow> Some (c = CHR 0x00)))"

text \<open>\<open>ext\<close>: what \<^verbatim>\<open>extvar_set_value\<close> makes of the variables; both answers are dropped.\<close>

definition hvar_set_value ::
    "('t sw_hvar option \<Rightarrow> char list \<Rightarrow> char list \<Rightarrow> 't sw_hvar option option) \<Rightarrow> var_mem \<Rightarrow> 't sw_hvar option \<Rightarrow> char list option \<Rightarrow>
     char list \<Rightarrow> nat \<Rightarrow> char \<Rightarrow> (int \<times> 't sw_hvar option) option" where
  "hvar_set_value ext mem vars name val sz type =
     do {
       none \<leftarrow> no_param vars name;
       if none then Some (- 1, vars)
       else do {
         nm \<leftarrow> name;
         if nm ! 0 = CHR ''$'' \<or> nm ! 0 = CHR ''#'' then
           map_option (\<lambda>(_, vars'). (0, vars')) (comvar_set_value mem vars name val sz type)
         else if nm ! 0 = CHR ''.'' then map_option (Pair 0) (ext vars nm val)
         else Some (- 1, vars)
       }
     }"

text \<open>\<open>ext\<close>: what \<^verbatim>\<open>extvar_get_value\<close> leaves at \<^verbatim>\<open>value\<close>.\<close>

definition hvar_get_value ::
    "('t sw_hvar option \<Rightarrow> char list \<Rightarrow> char list \<Rightarrow> char list option) \<Rightarrow> 't sw_hvar option \<Rightarrow> char list option \<Rightarrow> char list \<Rightarrow>
     (nat \<times> char list) option" where
  "hvar_get_value ext vars name out =
     do {
       none \<leftarrow> no_param vars name;
       if none then Some (SIZE_MINUS_1, out)
       else do {
         nm \<leftarrow> name;
         if nm ! 0 = CHR ''$'' \<or> nm ! 0 = CHR ''#'' then comvar_get_value vars nm out
         else if nm ! 0 = CHR ''.'' then do {
           out' \<leftarrow> ext vars nm out;
           n \<leftarrow> c_strlen out';
           Some (n, out')
         }
         else Some (0, out)
       }
     }"

definition hvar_remove :: "'t sw_hvar option \<Rightarrow> char list option \<Rightarrow> (int \<times> 't sw_hvar option) option" where
  "hvar_remove vars name =
     do {
       none \<leftarrow> no_param vars name;
       if none then Some (- 1, vars)
       else do {
         nm \<leftarrow> name;
         if nm ! 0 = CHR ''#'' \<or> nm ! 0 = CHR ''$'' then comvar_free vars nm else Some (- 1, vars)
       }
     }"

text \<open>\<open>ext_ser\<close> and \<open>ext_unser\<close> stand for the writer and the reader of the XML tree.\<close>

definition hvar_serialize ::
    "('t sw_hvar \<Rightarrow> sw_buf \<Rightarrow> (int \<times> sw_buf) option) \<Rightarrow> (nat \<Rightarrow> (nat \<Rightarrow> char) option) \<Rightarrow> 't sw_hvar option \<Rightarrow> sw_buf \<Rightarrow>
     (int \<times> sw_buf) option" where
  "hvar_serialize ext_ser mem vars buf =
     (case vars of
        None \<Rightarrow> Some (- 1, buf)
      | Some vs \<Rightarrow> do {
          (ret, b1) \<leftarrow> comvar_serialize mem vars buf;
          if ret < 0 then Some (- 1, b1)
          else do {
            (ret2, b2) \<leftarrow> ext_ser vs b1;
            Some (if ret2 < 0 then - 1 else 0, b2)
          }
        })"

definition hvar_unserialize ::
    "('t sw_hvar option \<Rightarrow> char list \<Rightarrow> (int \<times> 't sw_hvar option) option) \<Rightarrow> (nat \<Rightarrow> var_mem) \<Rightarrow> 't sw_hvar option \<Rightarrow> char list \<Rightarrow>
     (int \<times> 't sw_hvar option) option" where
  "hvar_unserialize ext_unser mem vars str =
     do {
       (off, vars1) \<leftarrow> comvar_unserialize mem vars str;
       if off < 0 then Some (- 1, vars1)
       else do {
         (ret, vars2) \<leftarrow> ext_unser vars1 (drop (nat off) str);
         Some (if ret < 0 then - 1 else 0, vars2)
       }
     }"

definition hvar_get_field_len :: "'t sw_hvar option \<Rightarrow> char list \<Rightarrow> int option" where
  "hvar_get_field_len vars name = map_option (\<lambda>n. s32 (int n)) (comvar_get_field_len vars name)"

definition hvar_get_var_addr :: "'t sw_hvar option \<Rightarrow> char list \<Rightarrow> (char list option \<times> int option) option" where
  "hvar_get_var_addr vars name = comvar_get_var_addr vars name"

definition hvar_get_null :: "var_mem \<Rightarrow> 't sw_hvar option \<Rightarrow> char list option \<Rightarrow> int \<Rightarrow> (char list option \<times> 't sw_hvar option) option" where
  "hvar_get_null mem vars name len = comvar_get_null mem vars name (to_size len)"

section \<open>Chains apart\<close>

text \<open>Lists of lists whose elements know the list they are in.\<close>

lemma in_concatE:
  assumes "x \<in> set (concat xss)"
  obtains j where "j < length xss" "x \<in> set (xss ! j)"
  using assms by (auto simp: in_set_conv_nth [of _ xss])

lemma map_of_concat:
  assumes "\<And>i x. i < length xss \<Longrightarrow> x \<in> set (xss ! i) \<Longrightarrow> f (fst x) = i + m" and "i < length xss" and "f k = i + m"
  shows "map_of (concat xss) k = map_of (xss ! i) k"
  using assms
proof (induction xss arbitrary: i m)
  case (Cons xs xss)
  have rest: "f (fst x) = j + Suc m" if "j < length xss" "x \<in> set (xss ! j)" for j x
    using Cons.prems(1) [of "Suc j" x] that by simp
  have first: "f (fst x) = m" if "x \<in> set xs" for x using Cons.prems(1) [of 0 x] that by simp
  show ?case
  proof (cases i)
    case 0
    then have fk: "f k = m" using Cons.prems(3) by simp
    have "map_of (concat xss) k = None"
    proof (rule ccontr)
      assume "map_of (concat xss) k \<noteq> None"
      then obtain v where "(k, v) \<in> set (concat xss)" by (auto dest: map_of_SomeD)
      then obtain j where "j < length xss" "(k, v) \<in> set (xss ! j)" by (rule in_concatE)
      from rest [OF this] fk show False by simp
    qed
    with 0 show ?thesis by (simp add: map_add_def split: option.split)
  next
    case (Suc j)
    then have "map_of xs k = None" using first Cons.prems(3) by (auto simp: map_of_eq_None_iff)
    then show ?thesis using Cons.IH [of "Suc m" j] rest Cons.prems(2,3) Suc by (simp add: map_add_def)
  qed
qed simp

lemma distinct_concat_keys:
  assumes "\<And>i x. i < length xss \<Longrightarrow> x \<in> set (xss ! i) \<Longrightarrow> f (g x) = i + m" and "\<And>xs. xs \<in> set xss \<Longrightarrow> distinct (map g xs)"
  shows "distinct (map g (concat xss))"
  using assms
proof (induction xss arbitrary: m)
  case (Cons xs xss)
  have rest: "f (g x) = j + Suc m" if "j < length xss" "x \<in> set (xss ! j)" for j x
    using Cons.prems(1) [of "Suc j" x] that by simp
  have first: "f (g x) = m" if "x \<in> set xs" for x using Cons.prems(1) [of 0 x] that by simp
  have "g x \<noteq> g y" if "x \<in> set xs" "y \<in> set (concat xss)" for x y
  proof -
    from that(2) obtain j where "j < length xss" "y \<in> set (xss ! j)" by (rule in_concatE)
    from rest [OF this] first [OF that(1)] show ?thesis by auto
  qed
  then have "g ` set xs \<inter> g ` set (concat xss) = {}" by blast
  moreover have "distinct (map g (concat xss))" using Cons.IH [of "Suc m"] rest Cons.prems(2) by auto
  moreover have "distinct (map g xs)" using Cons.prems(2) by simp
  ultimately show ?case by (simp add: image_Un)
qed simp

section \<open>Well-formed variables\<close>

definition var_name_ok :: "cstr \<Rightarrow> bool" where
  "var_name_ok k \<longleftrightarrow> key_ok MAX_VARNAME_LEN k \<and> k \<noteq> [] \<and> (k ! 0 = CHR ''$'' \<or> k ! 0 = CHR ''#'')"

definition bytes_of :: "var_node \<Rightarrow> char list" where
  "bytes_of nd = (case vn_value nd of None \<Rightarrow> [] | Some bs \<Rightarrow> take (vn_length nd) bs)"

definition node_ok :: "var_node hash_node \<Rightarrow> bool" where
  "node_ok n \<longleftrightarrow> var_name_ok (c_str (hn_key n)) \<and> c_str (vn_name (hn_value n)) = c_str (hn_key n) \<and>
     vn_type (hn_value n) \<noteq> CHR 0x00 \<and> (case vn_value (hn_value n) of
        None \<Rightarrow> False | Some bs \<Rightarrow> length bs = vn_length (hn_value n) + 1 \<and> last bs = CHR 0x00)"

definition var_table_ok :: "var_node hash_t \<Rightarrow> bool" where
  "var_table_ok h \<longleftrightarrow> hash_ok MAX_VARNAME_LEN h \<and> ht_buckets h = MAX_DISTINCT_ITEM \<and> ht_hash_func h = var_key \<and>
     (\<forall>b < MAX_DISTINCT_ITEM. \<forall>n \<in> set (ht_nodes h ! b). var_key MAX_DISTINCT_ITEM (c_str (hn_key n)) = b \<and> node_ok n)"

definition hvar_ok :: "'t sw_hvar \<Rightarrow> bool" where
  "hvar_ok vs \<longleftrightarrow> (case hv_comvar vs of None \<Rightarrow> False | Some h \<Rightarrow> var_table_ok h)"

definition entries :: "var_node hash_t \<Rightarrow> (cstr \<times> var_node) list" where
  "entries h = map (\<lambda>n. (c_str (hn_key n), hn_value n)) (concat (ht_nodes h))"

lemma var_table_okD:
  assumes "var_table_ok h"
  shows "hash_ok 64 h" "ht_buckets h = 512" "ht_hash_func h = var_key" "length (ht_nodes h) = 512" "ht_key_size h = 64"
    "\<And>b n. b < 512 \<Longrightarrow> n \<in> set (ht_nodes h ! b) \<Longrightarrow> var_key 512 (c_str (hn_key n)) = b \<and> node_ok n"
  using assms by (auto simp: var_table_ok_def hash_ok_def)

lemma var_key_less: "var_key 512 k < 512"
  by (simp add: var_key_def)

lemma find_entries:
  assumes "var_table_ok h"
  shows "hash_find k h = map_of (entries h) k"
proof -
  let ?f = "\<lambda>n. (c_str (hn_key n), hn_value n)"
  have "map_of (concat (map (map ?f) (ht_nodes h))) k = map_of (map (map ?f) (ht_nodes h) ! var_key 512 k) k"
    using var_table_okD [OF assms] var_key_less by (intro map_of_concat [where f = "var_key 512" and m = 0]) auto
  then show ?thesis using var_table_okD [OF assms] var_key_less [of k]
    by (simp add: hash_find_map_of hash_chain_def entries_def map_concat)
qed

lemma entries_distinct:
  assumes "var_table_ok h"
  shows "distinct (map fst (entries h))"
proof -
  have "distinct (map (\<lambda>n. c_str (hn_key n)) (concat (ht_nodes h)))"
    using var_table_okD [OF assms]
    by (intro distinct_concat_keys [where f = "var_key 512" and m = 0]) (auto simp: hash_ok_def chain_keys_def)
  then show ?thesis by (simp add: entries_def comp_def)
qed

lemma entries_ok:
  assumes "var_table_ok h" and "n \<in> set (concat (ht_nodes h))"
  shows "node_ok n"
proof -
  from assms(2) obtain b where "b < length (ht_nodes h)" "n \<in> set (ht_nodes h ! b)" by (rule in_concatE)
  then show ?thesis using var_table_okD [OF assms(1)] by simp
qed

section \<open>Setting a variable\<close>

lemma map_of_list_update:
  assumes "distinct (map f xs)" and "i < length xs" and "f y = f (xs ! i)"
  shows "map_of (map (\<lambda>x. (f x, g x)) (xs[i := y])) = (map_of (map (\<lambda>x. (f x, g x)) xs))(f y \<mapsto> g y)"
  using assms
proof (induction xs arbitrary: i)
  case (Cons x xs)
  show ?case
  proof (cases i)
    case 0
    with Cons.prems show ?thesis by (auto simp: fun_eq_iff)
  next
    case (Suc j)
    then have "f (xs ! j) \<in> f ` set xs" using Cons.prems(2) by simp
    then have "f y \<noteq> f x" using Cons.prems(1,3) Suc by auto
    with Suc Cons show ?thesis by (auto simp: fun_eq_iff)
  qed
qed simp

definition all_mem :: var_mem where
  "all_mem = \<lparr>vm_value = True, vm_node = True, vm_key = True, vm_copy = True\<rparr>"

definition view :: "var_node \<Rightarrow> char list \<times> char" where
  "view nd = (bytes_of nd, vn_type nd)"

lemma var_table_ok_upd:
  assumes ok: "var_table_ok h" and b: "b < 512"
    and c: "\<And>n. n \<in> set c \<Longrightarrow> node_ok n \<and> CHR 0x00 \<in> set (hn_key n) \<and> var_key 512 (c_str (hn_key n)) = b" "distinct (chain_keys c)"
  shows "var_table_ok (h\<lparr>ht_nodes := (ht_nodes h)[b := c]\<rparr>)"
proof -
  note t = var_table_okD [OF ok]
  have "hash_ok 64 (h\<lparr>ht_nodes := (ht_nodes h)[b := c]\<rparr>)" using c by (intro hash_ok_upd [OF t(1)]) auto
  moreover have "var_key 512 (c_str (hn_key n)) = i \<and> node_ok n" if "i < 512" "n \<in> set ((ht_nodes h)[b := c] ! i)" for i n
    using that t(4) t(6) [OF that(1)] c(1) by (cases "i = b") auto
  ultimately show ?thesis using t(2,3) by (simp add: var_table_ok_def)
qed

lemma put_var_spec:
  assumes ok: "var_table_ok h" and k: "var_name_ok k" and n: "length bs < 9223372036854775808" and ty: "ty \<noteq> CHR 0x00"
  shows "\<exists>h'. put_var all_mem (key_mem 64 k) (Some bs) (length bs) ty h = Some (0, h') \<and> var_table_ok h' \<and>
    (\<forall>j. map_option view (hash_find j h') = (if j = k then Some (bs, ty) else map_option view (hash_find j h)))"
proof -
  note t = var_table_okD [OF ok]
  have key: "key_ok 64 k" "CHR 0x00 \<notin> set k" using k by (simp_all add: var_name_ok_def key_ok_def)
  have alloc: "value_alloc (vm_value all_mem) (length bs)" using n by (simp add: value_alloc_def all_mem_def)
  let ?b = "var_key 512 k" and ?chain = "hash_chain k h"
  have b: "?b < 512" by (rule var_key_less)
  have chain: "ht_nodes h ! ?b = ?chain" using t by (simp add: hash_chain_def)
  have node: "hash_get_node_by_key h (key_mem 64 k) = Some (map_option (Pair ?b) (find_idx (\<lambda>n. c_str (hn_key n) = k) ?chain))"
    using hash_node_ok [OF t(1) key(2)] t by (simp add: key_mem_Cons)
  note C = hash_ok_chain [OF t(1), of k]
  have in_chain: "var_key 512 (c_str (hn_key n)) = ?b \<and> node_ok n" if "n \<in> set ?chain" for n
    using t(6) [OF b] that chain by simp
  show ?thesis
  proof (cases "find_idx (\<lambda>n. c_str (hn_key n) = k) ?chain")
    case (Some i)
    note i = find_idx_Some [OF Some]
    let ?f = "\<lambda>nd. nd\<lparr>vn_value := Some (bs @ [CHR 0x00]), vn_length := length bs, vn_type := ty\<rparr>"
    let ?n = "(?chain ! i)\<lparr>hn_value := ?f (hn_value (?chain ! i))\<rparr>"
    let ?c = "?chain[i := ?n]"
    let ?h = "h\<lparr>ht_nodes := (ht_nodes h)[?b := ?c]\<rparr>"
    have run: "put_var all_mem (key_mem 64 k) (Some bs) (length bs) ty h = Some (0, ?h)"
      using node Some alloc chain by (simp add: put_var_def hash_modify_def Let_def)
    have ni: "node_ok (?chain ! i)" "CHR 0x00 \<in> set (hn_key (?chain ! i))" using in_chain C(2) i by simp_all
    then have "node_ok ?n" using ty by (simp add: node_ok_def)
    then have "node_ok n \<and> CHR 0x00 \<in> set (hn_key n) \<and> var_key 512 (c_str (hn_key n)) = ?b" if "n \<in> set ?c" for n
      using that ni i in_chain C(2) set_update_subset_insert [of ?chain i ?n] by (cases "n = ?n") auto
    moreover have "chain_keys ?c = chain_keys ?chain" using i by (simp add: chain_keys_def map_update list_update_same_conv)
    ultimately have ok': "var_table_ok ?h" using C(3) by (intro var_table_ok_upd [OF ok b]) auto
    have "map_option view (hash_find j ?h) = (if j = k then Some (bs, ty) else map_option view (hash_find j h))" for j
    proof (cases "var_key 512 j = ?b")
      case True
      then have "hash_chain j h = ?chain" using t by (simp add: hash_chain_def)
      moreover have "hash_chain j ?h = ?c" using hash_chain_upd [OF t(1), of j k ?c] True t by simp
      moreover have "map_of (map (\<lambda>n. (c_str (hn_key n), hn_value n)) ?c) =
          (map_of (map (\<lambda>n. (c_str (hn_key n), hn_value n)) ?chain))(k \<mapsto> hn_value ?n)"
        using map_of_list_update [OF C(3) [unfolded chain_keys_def], of i ?n hn_value] i by simp
      ultimately show ?thesis unfolding hash_find_map_of by (simp add: view_def bytes_of_def)
    next
      case False
      then have "hash_chain j ?h = hash_chain j h" using hash_chain_upd [OF t(1), of j k ?c] t by simp
      then show ?thesis using False by (auto simp: hash_find_def)
    qed
    with run ok' show ?thesis by blast
  next
    case None
    then have new: "hash_find k h = None" by (simp add: hash_find_def)
    let ?nd = "\<lparr>vn_name = take 63 (key_mem 64 k) @ [CHR 0x00], vn_value = Some (bs @ [CHR 0x00]), vn_type = ty, vn_length = length bs\<rparr>"
    let ?n = "\<lparr>hn_key = take 64 (key_mem 64 k), hn_value = ?nd\<rparr>"
    let ?h = "h\<lparr>ht_nodes := (ht_nodes h)[?b := ?n # ?chain]\<rparr>"
    have "hash_put k ?nd h = Some (0, ?h)" using hash_put_new [OF t(1) key(2) new, of ?nd] t by simp
    then have add: "hash_add_entry True True True h (key_mem 64 k) ?nd = Some (0, ?h)" using t by (simp add: hash_put_def)
    have "mem_read 0 63 (key_mem 64 k) = Some (take 63 (key_mem 64 k))" using key by (simp add: mem_read_def key_mem_def key_ok_def)
    then have run: "put_var all_mem (key_mem 64 k) (Some bs) (length bs) ty h = Some (0, ?h)"
      using node None alloc add by (simp add: put_var_def all_mem_def)
    have "c_str (take 63 (key_mem 64 k) @ [CHR 0x00]) = k"
    proof -
      have "63 - length k \<le> Suc (64 - length k)" by simp
      then have "take 63 (key_mem 64 k) = k @ zeros (63 - length k)" using key by (simp add: key_mem_def key_ok_def zeros_def min_def del: replicate.simps)
      then show ?thesis using key by (cases "63 - length k") (simp_all add: zeros_def)
    qed
    then have n: "node_ok ?n" using k ty c_str_key [OF key(1)] by (simp add: node_ok_def)
    have "k \<notin> set (chain_keys ?chain)" using None by (auto simp: find_idx_None chain_keys_def)
    then have ok': "var_table_ok ?h"
      using C n in_chain key_terminated [OF key(1)] c_str_key [OF key(1)]
      by (intro var_table_ok_upd [OF ok b]) (auto simp: chain_keys_def)
    have "hash_find j ?h = (if j = k then Some ?nd else hash_find j h)" for j
    proof -
      from hash_put_spec [OF t(1) key(1), of ?nd] \<open>hash_put k ?nd h = Some (0, ?h)\<close>
      have "\<forall>j. hash_find j ?h = (if k = j then Some ?nd else hash_find j h)" by simp
      then show ?thesis by auto
    qed
    then have "map_option view (hash_find j ?h) = (if j = k then Some (bs, ty) else map_option view (hash_find j h))" for j
      by (simp add: view_def bytes_of_def)
    with run ok' show ?thesis by blast
  qed
qed

section \<open>The variables as a store\<close>

definition get_var :: "cstr \<Rightarrow> 't sw_hvar \<Rightarrow> (char list \<times> char) option" where
  "get_var k vs = (case hv_comvar vs of None \<Rightarrow> None | Some h \<Rightarrow> map_option view (hash_find k h))"

definition set_var :: "cstr \<Rightarrow> (char list \<times> char) \<Rightarrow> 't sw_hvar \<Rightarrow> (int \<times> 't sw_hvar) option" where
  "set_var k v vs =
     (case comvar_set_value all_mem (Some vs) (Some (key_mem MAX_VARNAME_LEN k)) (fst v @ [CHR 0x00]) (length (fst v)) (snd v) of
        Some (r, Some vs') \<Rightarrow> Some (r, vs')
      | _ \<Rightarrow> None)"

definition var_val_ok :: "(char list \<times> char) \<Rightarrow> bool" where
  "var_val_ok v \<longleftrightarrow> length (fst v) < 9223372036854775808 \<and> snd v \<noteq> CHR 0x00 \<and>
     (snd v = CHR ''a'' \<or> snd v = CHR ''A'' \<longrightarrow> CHR 0x00 \<notin> set (fst v))"

lemma bad_name_ok: "var_name_ok k \<Longrightarrow> bad_name (Some (k @ zs)) = Some False"
  by (cases k) (auto simp: var_name_ok_def bad_name_def)

lemma mem_read_prefix: "mem_read 0 (length bs) (bs @ zs) = Some bs"
  by (simp add: mem_read_def)

lemma set_value_run:
  assumes "hv_comvar vs = Some h" and "var_name_ok k" and "ty \<noteq> CHR ''a''" "ty \<noteq> CHR ''A''"
  shows "comvar_set_value mem (Some vs) (Some (k @ zs)) (bs @ ys) (length bs) ty =
    map_option (\<lambda>(r, h'). (r, Some (vs\<lparr>hv_comvar := Some h'\<rparr>))) (put_var mem (k @ zs) (Some bs) (length bs) ty h)"
  using assms bad_name_ok [OF assms(2), of zs]
  by (cases "put_var mem (k @ zs) (Some bs) (length bs) ty h") (auto simp: comvar_set_value_def mem_read_prefix)

lemma set_string_run:
  assumes "hv_comvar vs = Some h" and "var_name_ok k" and "CHR 0x00 \<notin> set bs"
  shows "comvar_set_value mem (Some vs) (Some (k @ zs)) (bs @ [CHR 0x00]) (length bs) ty =
    map_option (\<lambda>(r, h'). (r, Some (vs\<lparr>hv_comvar := Some h'\<rparr>))) (put_var mem (k @ zs) (Some bs) (length bs) ty h)"
  using assms bad_name_ok [OF assms(2), of zs]
  by (cases "put_var mem (k @ zs) (Some bs) (length bs) ty h") (auto simp: comvar_set_value_def mem_read_prefix c_strlen_def)

lemma set_var_run:
  assumes "hv_comvar vs = Some h" and "var_name_ok k" and "var_val_ok v"
  shows "set_var k v vs =
    map_option (\<lambda>(r, h'). (r, vs\<lparr>hv_comvar := Some h'\<rparr>)) (put_var all_mem (key_mem MAX_VARNAME_LEN k) (Some (fst v)) (length (fst v)) (snd v) h)"
proof -
  have "comvar_set_value all_mem (Some vs) (Some (key_mem MAX_VARNAME_LEN k)) (fst v @ [CHR 0x00]) (length (fst v)) (snd v) =
      map_option (\<lambda>(r, h'). (r, Some (vs\<lparr>hv_comvar := Some h'\<rparr>)))
        (put_var all_mem (key_mem MAX_VARNAME_LEN k) (Some (fst v)) (length (fst v)) (snd v) h)"
  proof (cases "snd v = CHR ''a'' \<or> snd v = CHR ''A''")
    case True
    then show ?thesis using assms unfolding key_mem_Cons by (intro set_string_run) (auto simp: var_val_ok_def)
  next
    case False
    then show ?thesis using assms unfolding key_mem_Cons by (intro set_value_run) auto
  qed
  then show ?thesis
    by (cases "put_var all_mem (key_mem MAX_VARNAME_LEN k) (Some (fst v)) (length (fst v)) (snd v) h") (auto simp: set_var_def)
qed

lemma set_var_spec:
  assumes ok: "hvar_ok vs" and k: "var_name_ok k" and v: "var_val_ok v"
  shows "\<exists>vs'. set_var k v vs = Some (0, vs') \<and> hvar_ok vs' \<and> (\<forall>j. get_var j vs' = (if j = k then Some v else get_var j vs))"
proof -
  from ok obtain h where h: "hv_comvar vs = Some h" "var_table_ok h" by (auto simp: hvar_ok_def split: option.splits)
  have len: "length (fst v) < 9223372036854775808" "snd v \<noteq> CHR 0x00" using v by (simp_all add: var_val_ok_def)
  from put_var_spec [OF h(2) k len] obtain h' where h':
    "put_var all_mem (key_mem 64 k) (Some (fst v)) (length (fst v)) (snd v) h = Some (0, h')" "var_table_ok h'"
    "\<forall>j. map_option view (hash_find j h') = (if j = k then Some (fst v, snd v) else map_option view (hash_find j h))"
    by blast
  let ?vs = "vs\<lparr>hv_comvar := Some h'\<rparr>"
  have "set_var k v vs = Some (0, ?vs)" using set_var_run [OF h(1) k v] h'(1) by simp
  moreover have "hvar_ok ?vs" using h'(2) by (simp add: hvar_ok_def)
  moreover have "\<forall>j. get_var j ?vs = (if j = k then Some v else get_var j vs)" using h'(3) h(1) by (simp add: get_var_def)
  ultimately show ?thesis by blast
qed

interpretation var_store: kv_store set_var get_var hvar_ok var_name_ok var_val_ok "(=)" True
proof unfold_locales
  fix vs :: "'a sw_hvar" and k v
  assume "hvar_ok vs" "var_name_ok k" "var_val_ok v"
  from set_var_spec [OF this]
  show "\<exists>r vs'. set_var k v vs = Some (r, vs') \<and> hvar_ok vs' \<and> (r = SW_OK \<longleftrightarrow> True \<or> get_var k vs = None) \<and>
      (\<forall>j. var_name_ok j \<longrightarrow> get_var j vs' = (if r = SW_OK \<and> k = j then Some v else get_var j vs))"
    by (metis (full_types))
qed auto

lemma find_var_run:
  assumes "hvar_ok vs" and "var_name_ok k"
  obtains h where "hv_comvar vs = Some h" "var_table_ok h" "find_var (Some vs) (key_mem 64 k) = Some (Some (hash_find k h))"
proof -
  from assms(1) obtain h where h: "hv_comvar vs = Some h" "var_table_ok h" by (auto simp: hvar_ok_def split: option.splits)
  have "CHR 0x00 \<notin> set k" using assms(2) by (simp add: var_name_ok_def key_ok_def)
  from hash_lookup_ok [OF var_table_okD(1) [OF h(2)] this] h show ?thesis
    by (intro that [of h]) (simp_all add: find_var_def key_mem_Cons)
qed

lemma found_node:
  assumes "var_table_ok h" and "hash_find k h = Some nd"
  obtains n where "n \<in> set (concat (ht_nodes h))" "nd = hn_value n" "k = c_str (hn_key n)" "node_ok n"
proof -
  have "(k, nd) \<in> set (entries h)" using assms find_entries [OF assms(1)] by (simp add: map_of_SomeD)
  then obtain n where "n \<in> set (concat (ht_nodes h))" "nd = hn_value n" "k = c_str (hn_key n)" by (auto simp: entries_def)
  with entries_ok [OF assms(1)] show ?thesis by (intro that) auto
qed

lemma get_value_spec:
  assumes ok: "hvar_ok vs" and k: "var_name_ok k" and out: "out \<noteq> []" and len: "\<And>bs ty. get_var k vs = Some (bs, ty) \<Longrightarrow> length bs \<le> length out"
  shows "comvar_get_value (Some vs) (key_mem 64 k) out =
    Some (case get_var k vs of None \<Rightarrow> (SIZE_MINUS_1, out[0 := CHR 0x00]) | Some (bs, ty) \<Rightarrow> (length bs, bs @ drop (length bs) out))"
proof -
  obtain h where h: "hv_comvar vs = Some h" "var_table_ok h" "find_var (Some vs) (key_mem 64 k) = Some (Some (hash_find k h))"
    using find_var_run [OF ok k] .
  show ?thesis
  proof (cases "hash_find k h")
    case None
    obtain c cs where "out = c # cs" using out by (cases out) auto
    then show ?thesis using h None by (simp add: comvar_get_value_def get_var_def mem_copy_def)
  next
    case (Some nd)
    then obtain n where "nd = hn_value n" "node_ok n" by (rule found_node [OF h(2)])
    then obtain bs where bs: "vn_value nd = Some bs" "length bs = vn_length nd + 1" by (auto simp: node_ok_def split: option.splits)
    then have v: "get_var k vs = Some (take (vn_length nd) bs, vn_type nd)" using h Some by (simp add: get_var_def view_def bytes_of_def)
    from len [OF v] bs have "vn_length nd \<le> length out" by simp
    then show ?thesis using h Some bs v by (simp add: comvar_get_value_def mem_copy_def)
  qed
qed

lemma free_spec:
  assumes ok: "hvar_ok vs" and k: "var_name_ok k"
  shows "\<exists>vs'. comvar_free (Some vs) (key_mem 64 k) = Some (0, Some vs') \<and> (\<forall>j. get_var j vs' = (if j = k then None else get_var j vs))"
proof -
  from ok obtain h where h: "hv_comvar vs = Some h" "var_table_ok h" by (auto simp: hvar_ok_def split: option.splits)
  have "CHR 0x00 \<notin> set k" using k by (simp add: var_name_ok_def key_ok_def)
  from hash_free_spec [OF var_table_okD(1) [OF h(2)] this, of "replicate (64 - length k) CHR 0x00"] obtain h' r where
    "hash_free_entry h (key_mem 64 k) = Some (r, h')" "\<forall>j. hash_find j h' = (if j = k then None else hash_find j h)"
    unfolding key_mem_Cons by blast
  with h show ?thesis by (intro exI [of _ "vs\<lparr>hv_comvar := Some h'\<rparr>"]) (simp add: comvar_free_def get_var_def)
qed

section \<open>Writing\<close>

definition rec_text :: "cstr \<times> char list \<times> char \<Rightarrow> char list" where
  "rec_text e =
     (case e of (k, bs, ty) \<Rightarrow>
        CHR ''!'' # fmt_0lld 2 (int (length k)) @ k @ [ty] @ fmt_0lld 4 (int (length bs)) @ bs)"

definition body_text :: "var_node hash_t \<Rightarrow> char list" where
  "body_text h = concat (map rec_text (map (\<lambda>(k, nd). (k, view nd)) (entries h)))"

definition var_text :: "var_node hash_t \<Rightarrow> char list" where
  "var_text h = fmt_0lld 8 (int (8 + length (body_text h))) @ body_text h"

text \<open>The values the format has room for.\<close>

definition values_fit :: "var_node hash_t \<Rightarrow> bool" where
  "values_fit h \<longleftrightarrow> (\<forall>(k, nd) \<in> set (entries h). vn_length nd \<le> 9999)"

lemma fmt_2: "n < 100 \<Longrightarrow> length (fmt_0lld 2 (int n)) = 2"
  using fmt_0lld_length [of "int n" 2] by simp

lemma fmt_4: "n < 10000 \<Longrightarrow> length (fmt_0lld 4 (int n)) = 4"
  using fmt_0lld_length [of "int n" 4] by simp

lemma fmt_8: "n < 100000000 \<Longrightarrow> length (fmt_0lld 8 (int n)) = 8"
  using fmt_0lld_length [of "int n" 8] by simp

lemma digits_no_nul: "0 \<le> x \<Longrightarrow> 0 \<le> w \<Longrightarrow> CHR 0x00 \<notin> set (fmt_0lld w x)"
  using fmt_0lld_digits by (force simp: c_isdigit_def)

lemma append_excess:
  "length t < 18446744073709551616 \<Longrightarrow> buf_append mem b (t @ zs) (int (length t)) = buf_append mem b t (int (length t))"
  by (simp add: buf_append_def mem_copy_def cong: if_cong)

lemma node_record:
  assumes "node_ok n" and "vn_length (hn_value n) \<le> 9999"
  obtains bs where "vn_value (hn_value n) = Some (bs @ [CHR 0x00])" "length bs = vn_length (hn_value n)"
    "node_header (hn_value n) @ bs = rec_text (c_str (hn_key n), view (hn_value n))"
    "CHR 0x00 \<notin> set (node_header (hn_value n))" "length (node_header (hn_value n)) \<le> 8191"
proof -
  let ?k = "c_str (hn_key n)" and ?nd = "hn_value n"
  from assms(1) obtain ws where ws: "vn_value ?nd = Some ws" "length ws = vn_length ?nd + 1"
      and nd: "c_str (vn_name ?nd) = ?k" "vn_type ?nd \<noteq> CHR 0x00" "CHR 0x00 \<notin> set ?k" "length ?k < 64"
    by (auto simp: node_ok_def var_name_ok_def key_ok_def split: option.splits)
  let ?bs = "take (vn_length ?nd) ws"
  have t: "last ws = CHR 0x00" using assms(1) ws by (simp add: node_ok_def)
  have "ws \<noteq> []" using ws(2) by auto
  then have "ws = ?bs @ [CHR 0x00]" using append_butlast_last_id [of ws] t ws(2) by (simp add: butlast_conv_take)
  moreover have len: "length ?bs = vn_length ?nd" using ws(2) by simp
  moreover have head: "node_header ?nd = CHR ''!'' # fmt_0lld 2 (int (length ?k)) @ ?k @ [vn_type ?nd] @ fmt_0lld 4 (int (vn_length ?nd))"
    using nd(1) assms(2) by (simp add: node_header_def)
  moreover have "CHR 0x00 \<notin> set (node_header ?nd)"
    using nd digits_no_nul [of "int (length ?k)" 2] digits_no_nul [of "int (vn_length ?nd)" 4] unfolding head by auto
  moreover have "length (node_header ?nd) \<le> 8191"
    using fmt_2 [of "length ?k"] fmt_4 [of "vn_length ?nd"] nd(4) assms(2) unfolding head by simp
  moreover have "node_header ?nd @ ?bs = rec_text (?k, view ?nd)"
    using ws(1) len unfolding head by (simp add: rec_text_def view_def bytes_of_def)
  ultimately show ?thesis using ws(1) by (intro that [of ?bs]) auto
qed

lemma ser_nodes_spec:
  assumes "\<forall>n \<in> set ns. node_ok n \<and> vn_length (hn_value n) \<le> 9999" and "buf_ok b"
    and "length (buf_content b) + length (concat (map (\<lambda>n. rec_text (c_str (hn_key n), view (hn_value n))) ns)) < 536870912"
  shows "\<exists>b'. ser_nodes (\<lambda>i. Some (junk i)) i ns b = Some b' \<and> buf_ok b' \<and>
    buf_content b' = buf_content b @ concat (map (\<lambda>n. rec_text (c_str (hn_key n), view (hn_value n))) ns)"
  using assms
proof (induction ns arbitrary: i b)
  case (Cons n ns)
  let ?r = "\<lambda>n. rec_text (c_str (hn_key n), view (hn_value n))" and ?h = "node_header (hn_value n)"
  from Cons.prems(1) have n: "node_ok n" "vn_length (hn_value n) \<le> 9999" by simp_all
  obtain bs where bs: "vn_value (hn_value n) = Some (bs @ [CHR 0x00])" "length bs = vn_length (hn_value n)" "?h @ bs = ?r n"
    "CHR 0x00 \<notin> set ?h" "length ?h \<le> 8191"
    using node_record [OF n] .
  have len: "length ?h + length bs = length (?r n)" unfolding bs(3) [symmetric] by simp
  have "length (buf_content b) + length ?h < 536870912" using Cons.prems(3) len by simp
  from buf_format_sink.app_law [OF Cons.prems(2) _ this, of "junk i"] bs(4,5) obtain b1 where
    b1: "buf_format_append (Some (junk i)) b ?h = Some (0, b1)" "buf_ok b1" "buf_content b1 = buf_content b @ ?h"
    by blast
  have "length (buf_content b1) + length bs < 536870912" using Cons.prems(3) len b1(3) by simp
  from append_spec [OF b1(2) this, of "junk (i + 1)"] obtain b2 where
    b2: "buf_append (Some (junk (i + 1))) b1 bs (int (length bs)) = Some (0, b2)" "buf_ok b2" "buf_content b2 = buf_content b1 @ bs"
    by blast
  have text2: "buf_content b2 = buf_content b @ ?r n" using b1(3) b2(3) bs(3) by simp
  have small: "s32 (int (vn_length (hn_value n))) = int (length bs)" using n(2) bs(2) by simp
  have excess: "buf_append (Some (junk (i + 1))) b1 (bs @ [CHR 0x00]) (int (length bs)) = Some (0, b2)"
    using append_excess [of bs] b2(1) n(2) bs(2) by simp
  have room: "length (buf_content b2) + length (concat (map ?r ns)) < 536870912" using Cons.prems(3) text2 by simp
  from Cons.IH [OF _ b2(2) room, of "i + 2"] Cons.prems(1) obtain b3 where
    "ser_nodes (\<lambda>i. Some (junk i)) (i + 2) ns b2 = Some b3" "buf_ok b3" "buf_content b3 = buf_content b2 @ concat (map ?r ns)"
    by auto
  then show ?case using b1(1) excess bs(1) small text2 by simp
qed simp

lemma body_text_nodes:
  "body_text h = concat (map (\<lambda>n. rec_text (c_str (hn_key n), view (hn_value n))) (concat (ht_nodes h)))"
  by (simp add: body_text_def entries_def comp_def)

lemma serialize_spec:
  assumes h: "hv_comvar vs = Some h" "var_table_ok h" and fit: "values_fit h"
    and b: "buf_ok b" and small: "8 + length (body_text h) < 100000000" "length (buf_content b) + 8 + length (body_text h) < 536870912"
  shows "\<exists>b'. comvar_serialize (\<lambda>i. Some (junk i)) (Some vs) b = Some (0, b') \<and> buf_ok b' \<and> buf_content b' = buf_content b @ var_text h"
proof -
  have nodes: "\<forall>n \<in> set (concat (ht_nodes h)). node_ok n \<and> vn_length (hn_value n) \<le> 9999"
    using entries_ok [OF h(2)] fit by (auto simp: values_fit_def entries_def)
  have "length (buf_content b) + length ''00000000'' < 536870912" using small by simp
  from append_spec [OF b this, of "junk 0"] obtain b1 where
    b1: "buf_append (Some (junk 0)) b ''00000000'' 8 = Some (0, b1)" "buf_ok b1" "buf_content b1 = buf_content b @ ''00000000''"
    by auto
  from ser_nodes_spec [OF nodes b1(2), of junk 1] small b1(3) obtain b2 where
    b2: "ser_nodes (\<lambda>i. Some (junk i)) 1 (concat (ht_nodes h)) b1 = Some b2" "buf_ok b2"
      "buf_content b2 = buf_content b @ ''00000000'' @ body_text h"
    by (auto simp: body_text_nodes)
  obtain k d where d: "bf_data b2 = Some d" "length d = buf_unit k" "nat (bf_len b2) \<le> buf_unit k" "buf_content b2 = take (nat (bf_len b2)) d"
      "0 \<le> bf_len b2"
    using b2(2) by (rule buf_okE)
  have len2: "bf_len b2 = int (length (buf_content b)) + 8 + int (length (body_text h))"
    using buf_ok_len [OF b2(2)] b2(3) by simp
  have off: "to_size (bf_len b) = length (buf_content b)" using buf_ok_len [OF b] small by simp
  let ?n = "length (buf_content b)" and ?t = "fmt_0lld 8 (int (8 + length (body_text h)))"
  have hdr: "bf_len b2 - bf_len b = int (8 + length (body_text h))" using len2 buf_ok_len [OF b] by simp
  have t8: "length ?t = 8" using small(1) by (intro fmt_8)
  have room: "?n + 8 \<le> nat (bf_len b2)" using len2 by linarith
  then have le: "?n + 8 \<le> length d" using d by simp
  let ?d = "take ?n d @ ?t @ drop (?n + 8) d"
  have copied: "mem_copy ?n ?t 8 d = Some ?d" using le t8 by (simp add: mem_copy_def)
  let ?b = "b2\<lparr>bf_data := Some ?d\<rparr>"
  have run: "comvar_serialize (\<lambda>i. Some (junk i)) (Some vs) b = Some (0, ?b)"
    using h(1) b1(1) b2(1) d(1) copied off hdr by (simp add: comvar_serialize_def)
  have "length ?d = length d" using le t8 by simp
  then have ok: "buf_ok ?b" using b2(2) d(1) by (simp add: buf_ok_def)
  have "take (nat (bf_len b2)) ?d = take ?n (take (nat (bf_len b2)) d) @ ?t @ drop (?n + 8) (take (nat (bf_len b2)) d)"
    using room le t8 by (simp add: min_def drop_take)
  then have "buf_content ?b = take ?n (buf_content b2) @ ?t @ drop (?n + 8) (buf_content b2)"
    unfolding d(4) by (simp add: buf_content_def)
  also have "\<dots> = buf_content b @ var_text h" unfolding b2(3) by (simp add: var_text_def)
  finally show ?thesis using run ok by blast
qed

section \<open>Reading\<close>

lemma read_at_mid:
  assumes "off = int (length a)" and "n = int (length b)"
  shows "read_at (a @ b @ c) off n = Some b"
  using assms by (simp add: read_at_def mem_read_def)

lemma c_str_digits: "CHR 0x00 \<notin> set ds \<Longrightarrow> c_str (ds @ [CHR 0x00]) = ds"
  by simp

lemma number_at_mid:
  assumes "off = int (length a)" and "n = int (length (fmt_0lld w (int x)))" and "x < 100000000" and "0 \<le> w"
  shows "number_at (a @ fmt_0lld w (int x) @ c) off n = Some (int x)"
proof -
  have dig: "\<forall>c \<in> set (fmt_0lld w (int x)). c_isdigit c" using assms(4) by (intro fmt_0lld_digits) simp_all
  have ne: "fmt_0lld w (int x) \<noteq> []" using assms(4) by (simp add: fmt_0lld_pos)
  have "atoi (fmt_0lld w (int x)) = int x"
    using atoll_digits [OF dig ne] assms(3,4) by (simp add: atoi_def fmt_0lld_val sat64_def)
  then show ?thesis
    using read_at_mid [OF assms(1,2)] digits_no_nul [of "int x" w] assms(4) by (simp add: number_at_def)
qed

text \<open>The key memory of the reader, an array of 64 bytes, and that of the other callers are the same for the table.\<close>

lemma add_entry_pad:
  assumes "hash_ok 64 h" and "CHR 0x00 \<notin> set k" and "64 \<le> length (k @ CHR 0x00 # zs)" "64 \<le> length (k @ CHR 0x00 # ys)"
    and "take 64 (k @ CHR 0x00 # zs) = take 64 (k @ CHR 0x00 # ys)"
  shows "hash_add_entry a b c h (k @ CHR 0x00 # zs) v = hash_add_entry a b c h (k @ CHR 0x00 # ys) v"
proof -
  have ks: "ht_key_size h = 64" using assms(1) by (simp add: hash_ok_def)
  have long: "\<not> length (k @ CHR 0x00 # zs) < 64" "\<not> length (k @ CHR 0x00 # ys) < 64" using assms(3,4) by linarith+
  show ?thesis
    unfolding hash_add_entry_def hash_lookup_ok [OF assms(1,2)] hash_bucket_ok [OF assms(1,2)] ks assms(5)
      long [THEN if_not_P] option.case ..
qed

lemma put_var_pad:
  assumes "hash_ok 64 h" and "CHR 0x00 \<notin> set k" and "64 \<le> length (k @ CHR 0x00 # zs)" "64 \<le> length (k @ CHR 0x00 # ys)"
    and "take 64 (k @ CHR 0x00 # zs) = take 64 (k @ CHR 0x00 # ys)"
  shows "put_var mem (k @ CHR 0x00 # zs) bs n ty h = put_var mem (k @ CHR 0x00 # ys) bs n ty h"
proof -
  have "take 63 (take 64 (k @ CHR 0x00 # zs)) = take 63 (take 64 (k @ CHR 0x00 # ys))" by (simp only: assms(5))
  then have "take 63 (k @ CHR 0x00 # zs) = take 63 (k @ CHR 0x00 # ys)" unfolding take_take by simp
  then have "mem_read 0 63 (k @ CHR 0x00 # zs) = mem_read 0 63 (k @ CHR 0x00 # ys)" using assms(3,4) by (simp add: mem_read_def)
  then show ?thesis
    unfolding put_var_def hash_node_ok [OF assms(1,2)] add_entry_pad [OF assms] by simp
qed

lemma name_array_mem:
  assumes "length k < 64"
  obtains zs where "k @ zeros (64 - length k) = k @ CHR 0x00 # zs" "64 \<le> length (k @ CHR 0x00 # zs)"
    "take 64 (k @ CHR 0x00 # zs) = take 64 (key_mem 64 k)"
proof -
  obtain m where m: "64 - length k = Suc m" using assms by (cases "64 - length k") auto
  have z: "zeros (64 - length k) = CHR 0x00 # replicate m CHR 0x00" by (simp add: zeros_def m)
  have "take 64 (key_mem 64 k) = k @ zeros (64 - length k)"
    using assms by (simp add: key_mem_def zeros_def min_def del: replicate.simps)
  moreover have "length (k @ CHR 0x00 # replicate m CHR 0x00) = 64" using m assms by simp
  ultimately show ?thesis using z by (intro that [of "replicate m CHR 0x00"]) simp_all
qed

definition entry_fits :: "cstr \<times> char list \<times> char \<Rightarrow> bool" where
  "entry_fits e \<longleftrightarrow> var_name_ok (fst e) \<and> length (fst (snd e)) \<le> 9999"

lemma unser_iter:
  assumes "off < total'" and "number_at str (off + 1) 2 = Some nlen" and "read_at str (off + 3) nlen = Some bs"
    and "name_array bs = Some name" and "name ! 0 = CHR ''$'' \<or> name ! 0 = CHR ''#''"
    and "read_at str (off + 3 + nlen) 1 = Some t" and "number_at str (off + 3 + nlen + 1) 4 = Some vlen"
    and "comvar_set_value (mem i) vars (Some name) (drop (nat (off + 3 + nlen + 5)) str) (to_size vlen) (CHR ''b'') = Some (r, vars1)"
  shows "unser_loop mem i total' str off vars = unser_loop mem (i + 1) total' str (off + 3 + nlen + 5 + vlen) vars1"
  apply (subst unser_loop.simps)
  using assms by (auto simp: Let_def)

lemma unser_step:
  assumes ok: "hvar_ok vs" and e: "entry_fits (k, bs, ty)" and off: "off = int (length pre)" "off < total'"
    and set: "set_var k (bs, CHR ''b'') vs = Some (r, vs')"
  shows "unser_loop (\<lambda>_. all_mem) i total' (pre @ rec_text (k, bs, ty) @ rest) off (Some vs) =
    unser_loop (\<lambda>_. all_mem) (i + 1) total' (pre @ rec_text (k, bs, ty) @ rest) (off + int (length (rec_text (k, bs, ty)))) (Some vs')"
proof -
  let ?a = "fmt_0lld 2 (int (length k))" and ?b = "fmt_0lld 4 (int (length bs))"
  let ?str = "pre @ rec_text (k, bs, ty) @ rest"
  have k: "var_name_ok k" "length k < 64" "CHR 0x00 \<notin> set k" and len: "length bs \<le> 9999"
    using e by (auto simp: entry_fits_def var_name_ok_def key_ok_def)
  have a: "length ?a = 2" and b: "length ?b = 4" using fmt_2 [of "length k"] fmt_4 [of "length bs"] k(2) len by simp_all
  have rec: "length (rec_text (k, bs, ty)) = 8 + length k + length bs" using a b by (simp add: rec_text_def)
  have "number_at ((pre @ ''!'') @ ?a @ (k @ [ty] @ ?b @ bs @ rest)) (off + 1) 2 = Some (int (length k))"
    using off a k(2) by (intro number_at_mid) simp_all
  then have r1: "number_at ?str (off + 1) 2 = Some (int (length k))" by (simp add: rec_text_def)
  have "read_at ((pre @ ''!'' @ ?a) @ k @ ([ty] @ ?b @ bs @ rest)) (off + 3) (int (length k)) = Some k"
    using off a by (intro read_at_mid) simp_all
  then have r2: "read_at ?str (off + 3) (int (length k)) = Some k" by (simp add: rec_text_def)
  have "read_at ((pre @ ''!'' @ ?a @ k) @ [ty] @ (?b @ bs @ rest)) (off + 3 + int (length k)) 1 = Some [ty]"
    using off a by (intro read_at_mid) simp_all
  then have r3: "read_at ?str (off + 3 + int (length k)) 1 = Some [ty]" by (simp add: rec_text_def)
  have "number_at ((pre @ ''!'' @ ?a @ k @ [ty]) @ ?b @ (bs @ rest)) (off + 3 + int (length k) + 1) 4 = Some (int (length bs))"
    using off a b len by (intro number_at_mid) simp_all
  then have r4: "number_at ?str (off + 3 + int (length k) + 1) 4 = Some (int (length bs))" by (simp add: rec_text_def)
  have "nat (off + 3 + int (length k) + 5) = length (pre @ ''!'' @ ?a @ k @ [ty] @ ?b)" using off a b by simp
  moreover have "?str = (pre @ ''!'' @ ?a @ k @ [ty] @ ?b) @ (bs @ rest)" by (simp add: rec_text_def)
  ultimately have r5: "drop (nat (off + 3 + int (length k) + 5)) ?str = bs @ rest" by (metis append_eq_conv_conj)
  have nm: "name_array k = Some (k @ zeros (64 - length k))" using k(2) by (simp add: name_array_def)
  have n0: "(k @ zeros (64 - length k)) ! 0 = CHR ''$'' \<or> (k @ zeros (64 - length k)) ! 0 = CHR ''#''"
    using k(1) by (auto simp: var_name_ok_def nth_append)
  obtain h where h: "hv_comvar vs = Some h" "var_table_ok h" using ok by (auto simp: hvar_ok_def split: option.splits)
  obtain zs where zs: "k @ zeros (64 - length k) = k @ CHR 0x00 # zs" "64 \<le> length (k @ CHR 0x00 # zs)"
    "take 64 (k @ CHR 0x00 # zs) = take 64 (key_mem 64 k)" using name_array_mem [OF k(2)] .
  have pad: "put_var all_mem (k @ CHR 0x00 # zs) (Some bs) (length bs) (CHR ''b'') h =
      put_var all_mem (key_mem 64 k) (Some bs) (length bs) (CHR ''b'') h"
    using zs(2,3) var_table_okD(1) [OF h(2)] k(3) unfolding key_mem_Cons by (intro put_var_pad) (simp_all add: key_mem_def)
  have val: "var_val_ok (bs, CHR ''b'')" using len by (simp add: var_val_ok_def)
  have set1: "comvar_set_value all_mem (Some vs) (Some (k @ zeros (64 - length k))) (bs @ rest) (length bs) (CHR ''b'') =
      Some (r, Some vs')"
    unfolding zs(1) using set_value_run [OF h(1) k(1), of "CHR ''b''" all_mem "CHR 0x00 # zs" bs rest] pad set_var_run [OF h(1) k(1) val] set
    by (cases "put_var all_mem (key_mem 64 k) (Some bs) (length bs) (CHR ''b'') h") auto
  have size: "to_size (int (length bs)) = length bs" using len by simp
  have next_off: "off + 3 + int (length k) + 5 + int (length bs) = off + int (length (rec_text (k, bs, ty)))" using rec by simp
  show ?thesis
    using unser_iter [OF off(2) r1 r2 nm n0 r3 r4, of "\<lambda>_. all_mem" i "Some vs" r "Some vs'"] set1
    unfolding r5 size next_off by blast
qed

lemma unser_all:
  assumes "hvar_ok vs" and "\<forall>e \<in> set es. entry_fits e" and "total' = int (length pre + length (concat (map rec_text es)))"
  shows "\<exists>vs'. put_all set_var (map (\<lambda>(k, bs, ty). (k, bs, CHR ''b'')) es) vs = Some vs' \<and>
    unser_loop (\<lambda>_. all_mem) i total' (pre @ concat (map rec_text es) @ rest) (int (length pre)) (Some vs) = Some (total', Some vs')"
  using assms
proof (induction es arbitrary: pre vs i)
  case Nil
  then show ?case by (subst unser_loop.simps) simp
next
  case (Cons e es)
  obtain k bs ty where e: "e = (k, bs, ty)" by (cases e)
  have fits: "entry_fits (k, bs, ty)" using Cons.prems(2) e by simp
  then have "var_name_ok k" "var_val_ok (bs, CHR ''b'')" by (simp_all add: entry_fits_def var_val_ok_def)
  from set_var_spec [OF Cons.prems(1) this] obtain vs1 where vs1: "set_var k (bs, CHR ''b'') vs = Some (0, vs1)" "hvar_ok vs1" by blast
  have pos: "0 < length (rec_text (k, bs, ty))" by (simp add: rec_text_def)
  then have less: "int (length pre) < total'" unfolding Cons.prems(3) e by (simp del: length_greater_0_conv)
  have shift: "int (length pre) + int (length (rec_text (k, bs, ty))) = int (length (pre @ rec_text e))" using e by simp
  have step: "unser_loop (\<lambda>_. all_mem) i total' (pre @ concat (map rec_text (e # es)) @ rest) (int (length pre)) (Some vs) =
      unser_loop (\<lambda>_. all_mem) (i + 1) total' ((pre @ rec_text e) @ concat (map rec_text es) @ rest) (int (length (pre @ rec_text e))) (Some vs1)"
    using unser_step [OF Cons.prems(1) fits refl less vs1(1), of i "concat (map rec_text es) @ rest"]
    unfolding shift e by simp
  have "total' = int (length (pre @ rec_text e) + length (concat (map rec_text es)))" using Cons.prems(3) by simp
  from Cons.IH [OF vs1(2) _ this, of "i + 1"] Cons.prems(2) obtain vs' where
    "put_all set_var (map (\<lambda>(k, bs, ty). (k, bs, CHR ''b'')) es) vs1 = Some vs'"
    "unser_loop (\<lambda>_. all_mem) (i + 1) total' ((pre @ rec_text e) @ concat (map rec_text es) @ rest)
       (int (length (pre @ rec_text e))) (Some vs1) = Some (total', Some vs')"
    by auto
  moreover have "put_all set_var (map (\<lambda>(k, bs, ty). (k, bs, CHR ''b'')) (e # es)) vs =
      put_all set_var (map (\<lambda>(k, bs, ty). (k, bs, CHR ''b'')) es) vs1"
    using vs1(1) e by simp
  ultimately show ?case unfolding step by (intro exI [of _ vs']) (simp only: simp_thms)
qed

lemma entries_fit:
  assumes "var_table_ok h" and "values_fit h" and "e \<in> set (map (\<lambda>(k, nd). (k, view nd)) (entries h))"
  shows "entry_fits e"
proof -
  from assms(3) obtain n where n: "n \<in> set (concat (ht_nodes h))" "e = (c_str (hn_key n), view (hn_value n))" by (auto simp: entries_def)
  from entries_ok [OF assms(1) n(1)] have "node_ok n" .
  moreover have "vn_length (hn_value n) \<le> 9999" using assms(2) n(1) by (auto simp: values_fit_def entries_def)
  ultimately show ?thesis using n(2) by (auto simp: entry_fits_def view_def bytes_of_def node_ok_def split: option.splits)
qed

text \<open>Reading what was written: every variable of the table is set, as binary data.\<close>

lemma unserialize_spec:
  assumes h: "var_table_ok h" "values_fit h" and small: "8 + length (body_text h) < 100000000" and ok: "hvar_ok vs2"
  shows "\<exists>vs'. comvar_unserialize (\<lambda>_. all_mem) (Some vs2) (var_text h @ rest) = Some (int (length (var_text h)), Some vs') \<and>
    hvar_ok vs' \<and> (\<forall>k. var_name_ok k \<longrightarrow>
      get_var k vs' = (case hash_find k h of None \<Rightarrow> get_var k vs2 | Some nd \<Rightarrow> Some (bytes_of nd, CHR ''b'')))"
proof -
  let ?es = "map (\<lambda>(k, nd). (k, view nd)) (entries h)" and ?bin = "\<lambda>(k, bs, ty :: char). (k, bs, CHR ''b'')"
  let ?t = "fmt_0lld 8 (int (8 + length (body_text h)))"
  have t8: "length ?t = 8" using small by (intro fmt_8)
  have body: "body_text h = concat (map rec_text ?es)" by (simp add: body_text_def)
  have fits: "\<forall>e \<in> set ?es. entry_fits e" using entries_fit [OF h] by blast
  have total_eq: "int (8 + length (body_text h)) = int (length ?t + length (concat (map rec_text ?es)))" using t8 body by simp
  from unser_all [OF ok fits total_eq, of 0 rest] obtain vs' where
    put: "put_all set_var (map ?bin ?es) vs2 = Some vs'"
    and run: "unser_loop (\<lambda>_. all_mem) 0 (int (8 + length (body_text h))) (?t @ body_text h @ rest) (int (length ?t)) (Some vs2) =
      Some (int (8 + length (body_text h)), Some vs')"
    unfolding body by blast
  have n: "number_at ([] @ ?t @ (body_text h @ rest)) 0 8 = Some (int (8 + length (body_text h)))"
    using t8 small by (intro number_at_mid) simp_all
  have "read_at ([] @ ?t @ (body_text h @ rest)) 0 8 = Some ?t" using t8 by (intro read_at_mid) simp_all
  then have r: "read_at (?t @ body_text h @ rest) 0 8 = Some ?t" by simp
  have dig: "\<forall>c \<in> set ?t. c_isdigit c" by (rule fmt_0lld_digits) simp_all
  have "atoll ?t = int (8 + length (body_text h))"
  proof -
    have "?t \<noteq> []" using t8 by (metis length_0_conv zero_neq_numeral)
    from atoll_digits [OF dig this] show ?thesis using small by (simp add: fmt_0lld_val sat64_def)
  qed
  then have a: "atoll (c_str (?t @ [CHR 0x00])) = int (8 + length (body_text h))" using digits_no_nul by simp
  have s: "s32 (int (8 + length (body_text h))) = int (8 + length (body_text h))" using small by simp
  obtain h2 where h2: "hv_comvar vs2 = Some h2" using ok by (auto simp: hvar_ok_def split: option.splits)
  have "comvar_unserialize (\<lambda>_. all_mem) (Some vs2) (var_text h @ rest) = Some (int (length (var_text h)), Some vs')"
    using r run t8 h2 s a by (simp add: comvar_unserialize_def var_text_def)
  moreover have "distinct (map fst (map ?bin ?es))" using entries_distinct [OF h(1)] by (simp add: comp_def split_beta)
  note apart = distinct_keys_apart [OF this]
  have oks: "\<forall>(k, v) \<in> set (map ?bin ?es). var_name_ok k \<and> var_val_ok v \<and> (True \<or> get_var k vs2 = None)"
  proof clarify
    fix k bs ty
    assume "(k, bs, ty) \<in> set (map ?bin ?es)"
    then have "(k, bs, ty) \<in> ?bin ` set ?es" by (simp only: set_map)
    then obtain e where e: "(k, bs, ty) = ?bin e" "e \<in> set ?es" by (rule imageE)
    with fits have "entry_fits e" by blast
    with e(1) show "var_name_ok k \<and> var_val_ok (bs, ty) \<and> (True \<or> get_var k vs2 = None)"
      by (cases e) (auto simp: entry_fits_def var_val_ok_def)
  qed
  have stored: "hvar_ok vs'" "\<forall>(k, v) \<in> set (map ?bin ?es). get_var k vs' = Some v"
    "\<And>j. var_name_ok j \<Longrightarrow> \<forall>(k, _) \<in> set (map ?bin ?es). \<not> k = j \<Longrightarrow> get_var j vs' = get_var j vs2"
    using var_store.put_all_get [OF ok oks apart] put by auto
  moreover have "get_var k vs' = (case hash_find k h of None \<Rightarrow> get_var k vs2 | Some nd \<Rightarrow> Some (bytes_of nd, CHR ''b''))"
    if k: "var_name_ok k" for k
  proof (cases "hash_find k h")
    case None
    then have "k \<notin> fst ` set (entries h)" by (simp add: find_entries [OF h(1)] map_of_eq_None_iff)
    then have "k \<notin> fst ` set (map ?bin ?es)" by (simp add: image_image split_beta)
    then have "\<forall>(j, _) \<in> set (map ?bin ?es). \<not> j = k" unfolding split_beta by blast
    with None show ?thesis using stored(3) [OF k] by simp
  next
    case (Some nd)
    then have "(k, nd) \<in> set (entries h)" by (simp add: find_entries [OF h(1)] map_of_SomeD)
    then have "(k, bytes_of nd, CHR ''b'') \<in> set (map ?bin ?es)" by (force simp: view_def)
    with Some show ?thesis using stored(2) by fastforce
  qed
  ultimately show ?thesis by blast
qed

section \<open>Properties\<close>

text \<open>C23: Variables are a store: what is set under a name is what \<^verbatim>\<open>comvar_get_value\<close> copies out afterwards, whether the
  variable was there before or not, other variables keep their values, and a variable that is freed is gone and changes no
  other.  The names start with a dollar or a hash sign, have fewer than 64 characters and stand in a buffer of at least
  64 bytes that is filled up with zeros; the values are of any length below 2^63 (without a NUL when the type is text),
  the buffer they are copied into is at least as long as the value and not empty, and allocations succeed.\<close>

theorem stored_variables_read_back:
  assumes "hvar_ok vs" and "\<forall>(k, v) \<in> set kvs. var_name_ok k \<and> var_val_ok v" and "distinct (map fst kvs)"
    and "(k, v) \<in> set kvs" and "length (fst v) \<le> length out" and "out \<noteq> []" and "var_name_ok j" and "j \<notin> fst ` set kvs"
  shows "\<exists>vs' vs2. put_all set_var kvs vs = Some vs' \<and> hvar_ok vs' \<and>
    comvar_get_value (Some vs') (key_mem 64 k) out = Some (length (fst v), fst v @ drop (length (fst v)) out) \<and>
    get_var j vs' = get_var j vs \<and>
    comvar_free (Some vs') (key_mem 64 k) = Some (0, Some vs2) \<and> get_var k vs2 = None \<and> get_var j vs2 = get_var j vs"
proof -
  have "\<forall>(k, v) \<in> set kvs. var_name_ok k \<and> var_val_ok v \<and> (True \<or> get_var k vs = None)" using assms(2) by auto
  from var_store.put_all_get [OF assms(1) this distinct_keys_apart [OF assms(3)]] obtain vs' where
    vs': "put_all set_var kvs vs = Some vs'" "hvar_ok vs'" "\<forall>(k, v) \<in> set kvs. get_var k vs' = Some v"
    and rest: "\<And>j. var_name_ok j \<Longrightarrow> \<forall>(k, _) \<in> set kvs. \<not> k = j \<Longrightarrow> get_var j vs' = get_var j vs"
    by blast
  have k: "var_name_ok k" "get_var k vs' = Some (fst v, snd v)" using assms(2,4) vs'(3) by auto
  have j: "get_var j vs' = get_var j vs" using assms(8) by (intro rest [OF assms(7)]) force
  have "comvar_get_value (Some vs') (key_mem 64 k) out = Some (length (fst v), fst v @ drop (length (fst v)) out)"
    using get_value_spec [OF vs'(2) k(1) assms(6)] k(2) assms(5) by (cases v) simp
  moreover obtain vs2 where "comvar_free (Some vs') (key_mem 64 k) = Some (0, Some vs2)"
      "\<forall>j. get_var j vs2 = (if j = k then None else get_var j vs')"
    using free_spec [OF vs'(2) k(1)] by blast
  moreover have "j \<noteq> k" using assms(4,8) by force
  ultimately show ?thesis using vs'(1,2) j by auto
qed

text \<open>C22: Variables that are written into a buffer and read from there into another table are all there afterwards, with the
  same bytes, and no other variable changes; but all of them are of the binary type now.  Each value has at most 9999
  bytes (its length is written with four digits), their text with its header is shorter than 10^8 bytes (eight digits) and
  together with what the buffer holds below 512 MB, and allocations succeed.\<close>

theorem variables_travel:
  assumes "hvar_ok vs" and "hv_comvar vs = Some h" and "values_fit h" and "length (body_text h) < 99999992"
    and "buf_ok buf" and "length (buf_content buf) + length (body_text h) < 536870904" and "hvar_ok vs2"
  shows "\<exists>buf' vs'. comvar_serialize (\<lambda>i. Some (junk i)) (Some vs) buf = Some (0, buf') \<and>
    comvar_unserialize (\<lambda>_. all_mem) (Some vs2) (drop (length (buf_content buf)) (buf_content buf')) =
      Some (int (length (buf_content buf') - length (buf_content buf)), Some vs') \<and> hvar_ok vs' \<and>
    (\<forall>k. var_name_ok k \<longrightarrow> get_var k vs' =
      (case get_var k vs of None \<Rightarrow> get_var k vs2 | Some (bs, ty) \<Rightarrow> Some (bs, CHR ''b'')))"
proof -
  have h: "var_table_ok h" using assms(1,2) by (simp add: hvar_ok_def)
  have small: "8 + length (body_text h) < 100000000" "length (buf_content buf) + 8 + length (body_text h) < 536870912"
    using assms(4,6) by simp_all
  from serialize_spec [OF assms(2) h assms(3,5) small, of junk] obtain buf' where
    b: "comvar_serialize (\<lambda>i. Some (junk i)) (Some vs) buf = Some (0, buf')" "buf_content buf' = buf_content buf @ var_text h"
    by blast
  from unserialize_spec [OF h assms(3) small(1) assms(7), of "[]"] obtain vs' where
    v: "comvar_unserialize (\<lambda>_. all_mem) (Some vs2) (var_text h) = Some (int (length (var_text h)), Some vs')" "hvar_ok vs'"
      "\<forall>k. var_name_ok k \<longrightarrow> get_var k vs' = (case hash_find k h of None \<Rightarrow> get_var k vs2 | Some nd \<Rightarrow> Some (bytes_of nd, CHR ''b''))"
    by auto
  have "get_var k vs = map_option view (hash_find k h)" for k using assms(2) by (simp add: get_var_def)
  then have "(case hash_find k h of None \<Rightarrow> get_var k vs2 | Some nd \<Rightarrow> Some (bytes_of nd, CHR ''b'')) =
      (case get_var k vs of None \<Rightarrow> get_var k vs2 | Some (bs, ty) \<Rightarrow> Some (bs, CHR ''b''))" for k
    by (simp add: view_def split: option.split)
  with b v show ?thesis by auto
qed

section \<open>A message that is never read to its end\<close>

text \<open>The length of the value is \<open>-010\<close>: the record ends where it starts.\<close>

definition looping_text :: "char list" where
  "looping_text = ''00000018!02$ab-010''"

lemma looping_reads:
  "number_at looping_text 9 2 = Some 2" "read_at looping_text 11 2 = Some ''$a''" "read_at looping_text 13 1 = Some ''b''"
  "number_at looping_text 14 4 = Some (- 10)" "read_at looping_text 0 8 = Some ''00000018''" "atoll ''00000018'' = 18"
  by (simp_all add: looping_text_def number_at_def read_at_def mem_read_def c_str_def atoi_def atoll_def c_isspace_def c_isdigit_def
    digits_val_def c_digit_def sat64_def)

lemma looping_set:
  assumes ok: "hvar_ok vs" and new: "get_var ''$a'' vs = None"
  shows "comvar_set_value mem (Some vs) (Some (''$a'' @ zeros 62)) val (to_size (- 10)) (CHR ''b'') = Some (- 1, Some vs)"
proof -
  obtain h where h: "hv_comvar vs = Some h" "var_table_ok h" using ok by (auto simp: hvar_ok_def split: option.splits)
  have z: "zeros 62 = CHR 0x00 # zeros 61" by (simp add: zeros_def flip: replicate_Suc)
  have "find_idx (\<lambda>n. c_str (hn_key n) = ''$a'') (hash_chain ''$a'' h) = None"
    using new h(1) by (simp add: get_var_def hash_find_def)
  then have "hash_get_node_by_key h (''$a'' @ zeros 62) = Some None"
    unfolding z using hash_node_ok [OF var_table_okD(1) [OF h(2)], of "''$a''" "zeros 61"] by simp
  moreover have "\<not> value_alloc ok (to_size (- 10))" for ok by (simp add: value_alloc_def to_size_def)
  moreover have "\<exists>c. mem_read 0 63 (''$a'' @ zeros 62) = Some c" by (simp add: mem_read_def)
  moreover have "bad_name (Some (''$a'' @ zeros 62)) = Some False" by (simp add: bad_name_def)
  moreover have "vs\<lparr>hv_comvar := Some h\<rparr> = vs" using h(1) by (cases vs) simp
  ultimately show ?thesis using h(1) by (auto simp: comvar_set_value_def put_var_def)
qed

definition at_loop :: "'t sw_hvar \<Rightarrow> int \<Rightarrow> char list \<Rightarrow> int \<Rightarrow> 't sw_hvar option \<Rightarrow> bool" where
  "at_loop vs total' str off vars \<longleftrightarrow> total' = 18 \<and> str = looping_text \<and> off = 8 \<and> vars = Some vs"

lemma looping_loop:
  assumes ok: "hvar_ok vs" and new: "get_var ''$a'' vs = None" and run: "unser_loop mem i total' str off vars = Some y"
  shows "\<not> at_loop vs total' str off vars"
  using run
proof (rule unser_loop.raw_induct [where P = "\<lambda>mem i total' str off vars y. \<not> at_loop vs total' str off vars", rotated])
  fix loop mem i total' str off vars y
  assume IH: "\<And>mem i total' str off vars y. loop mem i total' str off vars = Some y \<Longrightarrow> \<not> at_loop vs total' str off vars"
    and body: "(if off < total' then do {
          nlen \<leftarrow> number_at str (off + 1) 2;
          bs \<leftarrow> read_at str (off + 3) nlen;
          name \<leftarrow> name_array bs;
          let off1 = off + 3 + nlen;
          (if name ! 0 \<noteq> CHR ''$'' \<and> name ! 0 \<noteq> CHR ''#'' then Some (- 1, vars)
           else do {
             _ \<leftarrow> read_at str off1 1;
             vlen \<leftarrow> number_at str (off1 + 1) 4;
             (_, vars1) \<leftarrow> comvar_set_value (mem i) vars (Some name) (drop (nat (off1 + 5)) str) (to_size vlen) (CHR ''b'');
             loop mem (i + 1) total' str (off1 + 5 + vlen) vars1
           })
        }
      else Some (off, vars)) = Some y"
  show "\<not> at_loop vs total' str off vars"
  proof
    assume "at_loop vs total' str off vars"
    then have eqs: "total' = 18" "str = looping_text" "off = 8" "vars = Some vs" by (simp_all add: at_loop_def)
    have nm: "name_array ''$a'' = Some (''$a'' @ zeros 62)" by (simp add: name_array_def)
    have "loop mem (i + 1) 18 looping_text 8 (Some vs) = Some y"
      using body looping_reads looping_set [OF ok new] nm by (simp add: eqs Let_def)
    from IH [OF this] show False by (simp add: at_loop_def)
  qed
qed

text \<open>A message whose record gives a negative length for its value is never read to its end: \<^verbatim>\<open>comvar_unserialize\<close> comes
  back to the same record again and again, whatever the allocations do.\<close>

theorem negative_length_never_ends:
  assumes "hvar_ok vs" and "get_var ''$a'' vs = None"
  shows "comvar_unserialize mem (Some vs) ''00000018!02$ab-010'' = None"
proof -
  obtain h where h: "hv_comvar vs = Some h" using assms(1) by (auto simp: hvar_ok_def split: option.splits)
  have "unser_loop mem 0 18 looping_text 8 (Some vs) = None"
  proof (rule ccontr)
    assume "unser_loop mem 0 18 looping_text 8 (Some vs) \<noteq> None"
    then obtain y where "unser_loop mem 0 18 looping_text 8 (Some vs) = Some y" by blast
    from looping_loop [OF assms this] show False by (simp add: at_loop_def)
  qed
  moreover have "c_str (''00000018'' @ [CHR 0x00]) = ''00000018''" by (simp add: c_str_def)
  ultimately show ?thesis using looping_reads(5,6) h unfolding looping_text_def [symmetric] by (simp add: comvar_unserialize_def)
qed

section \<open>Witnesses\<close>

definition hvar_demo :: "unit sw_hvar" where
  "hvar_demo = snd (hvar_init True True \<lparr>hv_comvar = None, hv_tree = None\<rparr>)"

lemma hvar_demo_ok: "hvar_ok hvar_demo \<and> get_var k hvar_demo = None"
proof -
  obtain h :: "var_node hash_t" where h: "hash_alloc True True 512 64 var_key = Some h" by (simp add: hash_alloc_def)
  from hash_alloc_ok [OF var_key_less h] have "hash_ok 64 h \<and> (\<forall>k. hash_find k h = None)" .
  moreover have "ht_buckets h = 512 \<and> ht_hash_func h = var_key \<and> (\<forall>b < 512. ht_nodes h ! b = [])"
    using h by (auto simp: hash_alloc_def)
  ultimately show ?thesis
    using h by (simp add: hvar_demo_def hvar_init_def comvar_init_def Let_def hvar_ok_def var_table_ok_def get_var_def)
qed

lemma demo_names: "var_name_ok ''$a''" "var_name_ok ''#n''" "var_name_ok ''$z''"
  by (simp_all add: var_name_ok_def key_ok_def)

theorem stored_variables_read_back_witness:
  "\<exists>vs' vs2. put_all set_var [(''$a'', ''xy'', CHR ''a''), (''#n'', ''7'', CHR ''b'')] hvar_demo = Some vs' \<and>
     comvar_get_value (Some vs') (key_mem 64 ''$a'') ''....'' = Some (2, ''xy..'') \<and>
     comvar_free (Some vs') (key_mem 64 ''$a'') = Some (0, Some vs2) \<and> get_var ''$a'' vs2 = None"
proof -
  let ?kvs = "[(''$a'', ''xy'', CHR ''a''), (''#n'', ''7'', CHR ''b'')]"
  have "\<forall>(k, v) \<in> set ?kvs. var_name_ok k \<and> var_val_ok v" "distinct (map fst ?kvs)" "(''$a'', ''xy'', CHR ''a'') \<in> set ?kvs"
    "''$z'' \<notin> fst ` set ?kvs"
    using demo_names by (simp_all add: var_val_ok_def)
  from stored_variables_read_back [OF hvar_demo_ok [THEN conjunct1] this(1-3) _ _ demo_names(3) this(4), of "''....''"]
  show ?thesis by (auto simp del: put_all.simps)
qed

theorem negative_length_never_ends_witness: "comvar_unserialize (\<lambda>_. all_mem) (Some hvar_demo) ''00000018!02$ab-010'' = None"
  by (rule negative_length_never_ends) (simp_all add: hvar_demo_ok)

text \<open>A table with one variable.\<close>

lemma one_variable:
  assumes "var_table_ok h" and "\<And>j. map_option view (hash_find j h) = (if j = k then Some v else None)"
  obtains nd where "entries h = [(k, nd)]" "view nd = v" "vn_length nd = length (fst v)"
proof -
  obtain nd where nd: "hash_find k h = Some nd" "view nd = v" using assms(2) [of k] by auto
  have only: "j = k" if "(j, u) \<in> set (entries h)" for j u
  proof (rule ccontr)
    assume "j \<noteq> k"
    then have "map_of (entries h) j = None" using assms(2) [of j] find_entries [OF assms(1), of j] by simp
    with that show False by (force simp: map_of_eq_None_iff)
  qed
  have dist: "distinct (map fst (entries h))" by (rule entries_distinct [OF assms(1)])
  have mem: "(k, nd) \<in> set (entries h)" using nd(1) find_entries [OF assms(1)] by (simp add: map_of_SomeD)
  have "entries h = [(k, nd)]"
  proof (cases "entries h")
    case Nil
    with mem show ?thesis by simp
  next
    case (Cons e es)
    have "es = []"
    proof (rule ccontr)
      assume "es \<noteq> []"
      then obtain e' es' where "es = e' # es'" by (cases es) auto
      then have "fst e = k" "fst e' = k" using only [of "fst e" "snd e"] only [of "fst e'" "snd e'"] Cons by simp_all
      with dist Cons \<open>es = e' # es'\<close> show False by simp
    qed
    with Cons mem show ?thesis by simp
  qed
  moreover have "vn_length nd = length (fst v)"
  proof -
    obtain n where "nd = hn_value n" "node_ok n" using found_node [OF assms(1) nd(1)] by blast
    then show ?thesis using nd(2) by (auto simp: node_ok_def view_def bytes_of_def split: option.splits)
  qed
  ultimately show ?thesis using nd(2) by (intro that)
qed

theorem variables_travel_witness:
  "\<exists>vs buf buf' vs'. set_var ''$a'' (''xy'', CHR ''a'') hvar_demo = Some (0, vs) \<and> buf_new True True = Some buf \<and>
     comvar_serialize (\<lambda>i. Some (\<lambda>_. CHR ''?'')) (Some vs) buf = Some (0, buf') \<and>
     comvar_unserialize (\<lambda>_. all_mem) (Some hvar_demo) (buf_content buf') = Some (int (length (buf_content buf')), Some vs') \<and>
     get_var ''$a'' vs' = Some (''xy'', CHR ''b'')"
proof -
  have "var_val_ok (''xy'', CHR ''a'')" by (simp add: var_val_ok_def)
  from set_var_spec [OF hvar_demo_ok [THEN conjunct1] demo_names(1) this] obtain vs where
    vs: "set_var ''$a'' (''xy'', CHR ''a'') hvar_demo = Some (0, vs)" "hvar_ok vs"
      "\<And>j. get_var j vs = (if j = ''$a'' then Some (''xy'', CHR ''a'') else None)"
    using hvar_demo_ok by auto
  obtain h where h: "hv_comvar vs = Some h" "var_table_ok h" using vs(2) by (auto simp: hvar_ok_def split: option.splits)
  have "map_option view (hash_find j h) = (if j = ''$a'' then Some (''xy'', CHR ''a'') else None)" for j
    using vs(3) [of j] h(1) by (simp add: get_var_def)
  from one_variable [OF h(2) this] obtain nd where nd0: "entries h = [(''$a'', nd)]" "view nd = (''xy'', CHR ''a'')"
    "vn_length nd = length (fst (''xy'', CHR ''a''))" .
  from nd0(3) have "vn_length nd = 2" by simp
  note nd = nd0(1,2) this
  have fit: "values_fit h" using nd by (simp add: values_fit_def)
  have "length (rec_text (''$a'', ''xy'', CHR ''a'')) = 12"
    using fmt_2 [of 2] fmt_4 [of 2] by (simp add: rec_text_def)
  then have body: "length (body_text h) = 12" using nd by (simp add: body_text_def)
  obtain buf where buf: "buf_new True True = Some buf" by (simp add: buf_new_def)
  note b = buf_new_ok [OF buf]
  have "length (body_text h) < 99999992" "length (buf_content buf) + length (body_text h) < 536870904" using body b by simp_all
  from variables_travel [OF vs(2) h(1) fit this(1) b [THEN conjunct1] this(2) hvar_demo_ok [THEN conjunct1], of "\<lambda>i _. CHR ''?''"]
  obtain buf' vs' where r: "comvar_serialize (\<lambda>i. Some (\<lambda>_. CHR ''?'')) (Some vs) buf = Some (0, buf')"
    "comvar_unserialize (\<lambda>_. all_mem) (Some hvar_demo) (drop (length (buf_content buf)) (buf_content buf')) =
       Some (int (length (buf_content buf') - length (buf_content buf)), Some vs')"
    "\<forall>k. var_name_ok k \<longrightarrow> get_var k vs' = (case get_var k vs of None \<Rightarrow> get_var k hvar_demo | Some (bs, ty) \<Rightarrow> Some (bs, CHR ''b''))"
    by (elim exE conjE) (rule that)
  have "comvar_unserialize (\<lambda>_. all_mem) (Some hvar_demo) (buf_content buf') = Some (int (length (buf_content buf')), Some vs')"
    using r(2) unfolding b [THEN conjunct2, THEN conjunct1] list.size drop_0 diff_zero .
  moreover have "get_var ''$a'' vs' = Some (''xy'', CHR ''b'')" using r(3) demo_names(1) vs(3) by simp
  ultimately show ?thesis using vs(1) buf r(1) by blast
qed

end
