(* ===== verification/Shm_Slab.thy ===== *)
theory Shm_Slab
  imports Prelude
begin

text \<open>The allocator of the shared memory segments, \<^verbatim>\<open>core/shm_slab.c\<close>: pages of 4096 bytes, handed out as runs of pages or,
  cut into equal chunks, through slots of one chunk size each.  Addresses are byte offsets from the start of the pool.
  A bitmap in a page descriptor is the list of its 32 bits; the extended bitmaps stand in the first bytes of a page, and
  the memory of the pool is addressed by bits (bit \<open>i\<close> of the byte at \<open>a\<close> is \<open>8 * a + i\<close>, which on a little-endian machine
  is also bit \<open>i\<close> of the integer at \<open>a\<close>).  \<open>w\<close> says whether \<^verbatim>\<open>uintptr_t\<close> has 64 bits or 32.  None: the code leaves its
  arrays or never ends.  The properties: without releases, allocations never overlap; with releases they do, in two ways.\<close>

section \<open>State\<close>

datatype alloc_type = ALLOC_UNKNOWN | ALLOC_SMALL | ALLOC_EXACT | ALLOC_LARGE | ALLOC_PAGES

record shm_slab_page =
  sp_index :: nat
  sp_pages :: nat
  sp_shift :: nat
  sp_type :: alloc_type
  sp_bitmap :: "bool list"
  sp_rbitmap :: "bool list"
  sp_next :: int
  sp_prev :: int

record shm_slab_pool =
  sl_pool_size :: nat
  sl_min_size :: nat
  sl_min_shift :: nat
  sl_data_offset :: nat
  sl_end_offset :: nat
  sl_slot_offset :: nat
  sl_page_offset :: nat
  sl_free_pages :: nat
  sl_free_next :: int
  sl_free_prev :: int
  sl_slots :: "int list"
  sl_pages :: "shm_slab_page list"
  sl_mem :: "nat \<Rightarrow> bool"

abbreviation (input) PAGE_SIZE :: nat where "PAGE_SIZE \<equiv> 4096"
abbreviation (input) PAGE_SHIFT :: nat where "PAGE_SHIFT \<equiv> 12"
abbreviation (input) MAX_SIZE :: nat where "MAX_SIZE \<equiv> 2048"
abbreviation (input) EXACT_SIZE :: nat where "EXACT_SIZE \<equiv> 128"
abbreviation (input) MIN_SHIFT :: nat where "MIN_SHIFT \<equiv> 3"
abbreviation (input) NULL_PAGE :: int where "NULL_PAGE \<equiv> - 1"
abbreviation (input) FREE_PAGE :: int where "FREE_PAGE \<equiv> - 2"
abbreviation (input) SLOT_NUM :: nat where "SLOT_NUM \<equiv> 9"
abbreviation (input) SIZEOF_PAGE :: nat where "SIZEOF_PAGE \<equiv> 28"

text \<open>The structure of a pool: eight words and a page descriptor, rounded up to a word.\<close>

definition sizeof_pool :: "bool \<Rightarrow> nat" where
  "sizeof_pool w = (if w then 96 else 60)"

definition size_mod :: "bool \<Rightarrow> nat" where
  "size_mod w = (if w then 18446744073709551616 else 4294967296)"

section \<open>Sizes\<close>

text \<open>\<^verbatim>\<open>for (shift = 0; size >>= 1; shift++)\<close>.\<close>

fun shift_loop :: "nat \<Rightarrow> nat" where
  "shift_loop size' = (if size' div 2 = 0 then 0 else Suc (shift_loop (size' div 2)))"

declare shift_loop.simps [simp del]

record slab_param =
  pm_page_size :: nat
  pm_page_shift :: nat
  pm_max_size :: nat
  pm_max_shift :: nat
  pm_exact_size :: nat
  pm_exact_shift :: nat

definition shm_slab_init_param :: "slab_param \<Rightarrow> slab_param" where
  "shm_slab_init_param g =
     (if pm_page_size g = 0 then
        (let p = PAGE_SIZE; m = p div 2; e = p div (8 * 4) in
         \<lparr>pm_page_size = p, pm_page_shift = shift_loop p, pm_max_size = m, pm_max_shift = shift_loop m,
           pm_exact_size = e, pm_exact_shift = shift_loop e\<rparr>)
      else g)"

definition shm_slab_get_alloc_type :: "nat \<Rightarrow> alloc_type" where
  "shm_slab_get_alloc_type sz =
     (if sz < EXACT_SIZE then ALLOC_SMALL
      else if sz = EXACT_SIZE then ALLOC_EXACT
      else if EXACT_SIZE < sz \<and> sz < MAX_SIZE then ALLOC_LARGE
      else ALLOC_PAGES)"

section \<open>Memory\<close>

text \<open>\<^verbatim>\<open>memset(p, 0, n)\<close>; past the end of the pool there is no memory.\<close>

definition mem_zero :: "nat \<Rightarrow> nat \<Rightarrow> shm_slab_pool \<Rightarrow> shm_slab_pool option" where
  "mem_zero off n pool =
     (if sl_pool_size pool < off + n then None
      else Some (pool\<lparr>sl_mem := (\<lambda>a. if 8 * off \<le> a \<and> a < 8 * (off + n) then False else sl_mem pool a)\<rparr>))"

text \<open>The links: an index that is no page leaves the array.\<close>

definition page_at :: "shm_slab_pool \<Rightarrow> int \<Rightarrow> shm_slab_page option" where
  "page_at pool i = (if 0 \<le> i \<and> i < int (length (sl_pages pool)) then Some (sl_pages pool ! nat i) else None)"

definition set_page :: "int \<Rightarrow> (shm_slab_page \<Rightarrow> shm_slab_page) \<Rightarrow> shm_slab_pool \<Rightarrow> shm_slab_pool option" where
  "set_page i f pool =
     (case page_at pool i of None \<Rightarrow> None | Some pg \<Rightarrow> Some (pool\<lparr>sl_pages := (sl_pages pool)[nat i := f pg]\<rparr>))"

text \<open>\<open>prev->next_idx = v\<close>, where \<open>prev\<close> is the head of the free list or a page.  The descriptor at index -1 lies in front of
  the array, in bytes that are reserved for the slots (28 for each) and not used by them (8 for each): the store has no effect.\<close>

definition set_next_of :: "int \<Rightarrow> int \<Rightarrow> shm_slab_pool \<Rightarrow> shm_slab_pool option" where
  "set_next_of prev v pool =
     (if prev = FREE_PAGE then Some (pool\<lparr>sl_free_next := v\<rparr>)
      else if prev = NULL_PAGE then Some pool
      else set_page prev (\<lambda>pg. pg\<lparr>sp_next := v\<rparr>) pool)"

section \<open>Creation\<close>

text \<open>\<open>raw\<close> is what the memory held_by where the page descriptors are.\<close>

definition shm_slab_init :: "bool \<Rightarrow> (nat \<Rightarrow> shm_slab_page) \<Rightarrow> shm_slab_pool \<Rightarrow> int \<times> shm_slab_pool" where
  "shm_slab_init w raw pool =
     (let min_size = sizeof_pool w + SLOT_NUM * SIZEOF_PAGE in
      if sl_pool_size pool < min_size then (- 1, pool)
      else
        let page_off = sizeof_pool w + SLOT_NUM * SIZEOF_PAGE;
            pool1 = pool\<lparr>sl_min_size := 8, sl_min_shift := MIN_SHIFT, sl_slot_offset := sizeof_pool w, sl_page_offset := page_off,
              sl_end_offset := sl_pool_size pool, sl_slots := replicate SLOT_NUM NULL_PAGE\<rparr>;
            page_num = (sl_pool_size pool - page_off) div (PAGE_SIZE + SIZEOF_PAGE)
        in
        if page_num = 0 then (- 1, pool1)
        else
          let pages = map (\<lambda>i. (raw i)\<lparr>sp_index := i, sp_shift := PAGE_SHIFT, sp_type := ALLOC_UNKNOWN\<rparr>) [0..<page_num];
              first = (pages ! 0)\<lparr>sp_pages := page_num, sp_bitmap := replicate 32 False, sp_next := NULL_PAGE, sp_prev := FREE_PAGE\<rparr>
          in
          (0, pool1\<lparr>sl_pages := pages[0 := first], sl_free_pages := page_num, sl_free_prev := NULL_PAGE, sl_free_next := 0,
             sl_data_offset := page_off + page_num * SIZEOF_PAGE\<rparr>))"

section \<open>Runs of pages\<close>

text \<open>The search of the free list: the first run that is long enough.\<close>

partial_function (option) free_scan :: "shm_slab_pool \<Rightarrow> nat \<Rightarrow> int \<Rightarrow> int option option" where
  "free_scan pool n i =
     (if i = NULL_PAGE then Some None
      else do {
        pg \<leftarrow> page_at pool i;
        if n \<le> sp_pages pg then Some (Some i) else free_scan pool n (sp_next pg)
      })"

declare free_scan.simps [code]

text \<open>The two branches for the run that is found: cut from its front, or taken whole.  The page descriptor behind the cut is
  \<open>i + n\<close>; nothing tells the next run of the list that its predecessor has changed.\<close>

definition cut_run :: "nat \<Rightarrow> int \<Rightarrow> shm_slab_pool \<Rightarrow> shm_slab_pool option" where
  "cut_run n i pool =
     do {
       pg \<leftarrow> page_at pool i;
       p1 \<leftarrow> set_page (i + int n) (\<lambda>nx. nx\<lparr>sp_pages := sp_pages pg - n\<rparr>) pool;
       p2 \<leftarrow> set_page (i + int n) (\<lambda>nx. nx\<lparr>sp_prev := sp_prev pg, sp_next := sp_next pg\<rparr>) p1;
       p3 \<leftarrow> set_next_of (sp_prev pg) (i + int n) p2;
       set_page i (\<lambda>p. p\<lparr>sp_pages := n, sp_shift := PAGE_SHIFT, sp_type := ALLOC_PAGES, sp_next := NULL_PAGE, sp_prev := NULL_PAGE\<rparr>) p3
     }"

definition take_run :: "int \<Rightarrow> shm_slab_pool \<Rightarrow> shm_slab_pool option" where
  "take_run i pool =
     do {
       pg \<leftarrow> page_at pool i;
       p2 \<leftarrow>
         (if sp_next pg = NULL_PAGE then set_next_of (sp_prev pg) NULL_PAGE pool
          else do {
            p1 \<leftarrow> set_next_of (sp_prev pg) (sp_next pg) pool;
            set_page (sp_next pg) (\<lambda>nx. nx\<lparr>sp_prev := sp_prev pg\<rparr>) p1
          });
       set_page i (\<lambda>p. p\<lparr>sp_type := ALLOC_PAGES, sp_next := NULL_PAGE, sp_prev := NULL_PAGE\<rparr>) p2
     }"

definition shm_slab_alloc_pages :: "nat \<Rightarrow> shm_slab_pool \<Rightarrow> (int option \<times> shm_slab_pool) option" where
  "shm_slab_alloc_pages n pool =
     do {
       found \<leftarrow> free_scan pool n (sl_free_next pool);
       (case found of
          None \<Rightarrow> Some (None, pool)
        | Some i \<Rightarrow> do {
            pg \<leftarrow> page_at pool i;
            pool' \<leftarrow> (if n < sp_pages pg then cut_run n i pool else take_run i pool);
            Some (Some i, pool')
          })
     }"

section \<open>Chunks\<close>

definition slot_bits :: "nat \<Rightarrow> nat" where
  "slot_bits shift = PAGE_SIZE div 2 ^ shift"

text \<open>How many extended bitmaps a page needs; the C variable is negative for large chunks.\<close>

definition exp_bitmaps :: "nat \<Rightarrow> nat" where
  "exp_bitmaps shift = slot_bits shift div 32 - 1"

text \<open>The bits that are set from the start: the chunks the extended bitmaps stand in, or the chunks a page has not.\<close>

definition init_bitmap :: "nat \<Rightarrow> bool list \<Rightarrow> bool list" where
  "init_bitmap shift bm =
     (if 0 < exp_bitmaps shift then map (\<lambda>i. bm ! i \<or> i < exp_bitmaps shift) [0..<32]
      else map (\<lambda>i. bm ! i \<or> slot_bits shift \<le> i) [0..<32])"

text \<open>The entry \<open>k\<close> of the extended bitmaps as \<^verbatim>\<open>_shm_slab_alloc_slot\<close> takes them: integers of the size of a pointer.  With 64
  bits \<^verbatim>\<open>1 << 31\<close> is negative and sets the upper half as well, and an entry is never equal to \<^verbatim>\<open>0xffffffff\<close> then.\<close>

definition entry_bit :: "bool \<Rightarrow> nat \<Rightarrow> nat \<Rightarrow> nat" where
  "entry_bit w start k = 8 * start + (if w then 64 else 32) * k"

definition entry_busy :: "bool \<Rightarrow> nat \<Rightarrow> nat \<Rightarrow> shm_slab_pool \<Rightarrow> bool" where
  "entry_busy w start k pool \<longleftrightarrow>
     (\<forall>i < 32. sl_mem pool (entry_bit w start k + i)) \<and> (w \<longrightarrow> (\<forall>i < 32. \<not> sl_mem pool (entry_bit w start k + 32 + i)))"

definition entry_set :: "bool \<Rightarrow> nat \<Rightarrow> nat \<Rightarrow> nat \<Rightarrow> shm_slab_pool \<Rightarrow> shm_slab_pool" where
  "entry_set w start k i pool =
     pool\<lparr>sl_mem := (\<lambda>a. if a = entry_bit w start k + i \<or> w \<and> i = 31 \<and> entry_bit w start k + 32 \<le> a \<and> a < entry_bit w start k + 64
        then True else sl_mem pool a)\<rparr>"

definition clear_bit_of :: "nat \<Rightarrow> nat \<Rightarrow> shm_slab_pool \<Rightarrow> nat option" where
  "clear_bit_of base from pool = find_idx (\<lambda>i. \<not> sl_mem pool (base + i)) [from..<32]"

text \<open>The entries in turn: the first bit that is clear, with its entry.\<close>

fun exp_scan :: "bool \<Rightarrow> nat \<Rightarrow> nat \<Rightarrow> nat list \<Rightarrow> shm_slab_pool \<Rightarrow> (nat \<times> nat) option" where
  "exp_scan w start e [] pool = None"
| "exp_scan w start e (k # ks) pool =
     (if entry_busy w start k pool then exp_scan w start e ks pool
      else (case clear_bit_of (entry_bit w start k) 0 pool of
              Some i \<Rightarrow> Some (k, i)
            | None \<Rightarrow> exp_scan w start e ks pool))"

text \<open>The address of a page: the index is an \<^verbatim>\<open>unsigned int\<close> and is shifted as one, so its bytes wrap around at 4 GB.\<close>

definition page_off :: "shm_slab_pool \<Rightarrow> nat \<Rightarrow> nat" where
  "page_off pool i = sl_data_offset pool + i * PAGE_SIZE mod 4294967296"

text \<open>One page of the chain: the address of the chunk it gives, or None.\<close>

definition try_page :: "bool \<Rightarrow> nat \<Rightarrow> int \<Rightarrow> shm_slab_pool \<Rightarrow> (nat option \<times> shm_slab_pool) option" where
  "try_page w shift i pool =
     do {
       pg \<leftarrow> page_at pool i;
       let e = exp_bitmaps shift;
       let start = page_off pool (sp_index pg);
       (if sp_bitmap pg \<noteq> replicate 32 True then
          (case find_idx (\<lambda>j. \<not> sp_bitmap pg ! j) [e..<32] of
             None \<Rightarrow> Some (None, pool)
           | Some j \<Rightarrow> do {
               pool' \<leftarrow> set_page i (\<lambda>p. p\<lparr>sp_bitmap := (sp_bitmap p)[e + j := True]\<rparr>) pool;
               Some (Some (start + (e + j) * 2 ^ shift), pool')
             })
        else
          (case exp_scan w start e [0..<e] pool of
             None \<Rightarrow> Some (None, pool)
           | Some (k, j) \<Rightarrow> Some (Some (start + ((k + 1) * 32 + j) * 2 ^ shift), entry_set w start k j pool)))
     }"

text \<open>A page that has just been taken becomes a page of chunks.\<close>

definition open_page :: "alloc_type \<Rightarrow> nat \<Rightarrow> int \<Rightarrow> shm_slab_pool \<Rightarrow> shm_slab_pool option" where
  "open_page ty shift i pool =
     set_page i (\<lambda>p. p\<lparr>sp_type := ty, sp_shift := shift, sp_bitmap := init_bitmap shift (sp_bitmap p),
       sp_rbitmap := map Not (init_bitmap shift (sp_bitmap p))\<rparr>) pool"

partial_function (option) slot_loop :: "bool \<Rightarrow> alloc_type \<Rightarrow> nat \<Rightarrow> int \<Rightarrow> shm_slab_pool \<Rightarrow> (nat option \<times> shm_slab_pool) option" where
  "slot_loop w ty shift i pool =
     do {
       (found, pool1) \<leftarrow> try_page w shift i pool;
       if found \<noteq> None then Some (found, pool1)
       else do {
         pg \<leftarrow> page_at pool1 i;
         if sp_next pg = NULL_PAGE then do {
           (new, pool2) \<leftarrow> shm_slab_alloc_pages 1 pool1;
           (case new of
              None \<Rightarrow> Some (None, pool2)
            | Some k \<Rightarrow> do {
                pool3 \<leftarrow> set_page i (\<lambda>p. p\<lparr>sp_next := k\<rparr>) pool2;
                pool4 \<leftarrow> set_page k (\<lambda>p. p\<lparr>sp_prev := i\<rparr>) pool3;
                pool5 \<leftarrow> open_page ty shift k pool4;
                slot_loop w ty shift k pool5
              })
         }
         else slot_loop w ty shift (sp_next pg) pool1
       }
     }"

declare slot_loop.simps [code]

definition shm_slab_alloc_slot_in :: "bool \<Rightarrow> nat \<Rightarrow> alloc_type \<Rightarrow> shm_slab_pool \<Rightarrow> (nat option \<times> shm_slab_pool) option" where
  "shm_slab_alloc_slot_in w slot ty pool =
     (let shift = slot + sl_min_shift pool in
      if length (sl_slots pool) \<le> slot then None
      else if sl_slots pool ! slot = NULL_PAGE then do {
        (new, pool1) \<leftarrow> shm_slab_alloc_pages 1 pool;
        (case new of
           None \<Rightarrow> Some (None, pool1)
         | Some k \<Rightarrow> do {
             pool2 \<leftarrow> open_page ty shift k pool1;
             slot_loop w ty shift k (pool2\<lparr>sl_slots := (sl_slots pool2)[slot := k]\<rparr>)
           })
      }
      else slot_loop w ty shift (sl_slots pool ! slot) pool)"

text \<open>The slot of a size: \<^verbatim>\<open>for (s = size - 1, shift = 1; s >>= 1; shift++)\<close>.\<close>

definition slot_of :: "shm_slab_pool \<Rightarrow> nat \<Rightarrow> nat" where
  "slot_of pool sz = (if sl_min_size pool < sz then Suc (shift_loop (sz - 1)) - sl_min_shift pool else 0)"

definition shm_slab_alloc_slot :: "bool \<Rightarrow> nat \<Rightarrow> shm_slab_pool \<Rightarrow> (nat option \<times> shm_slab_pool) option" where
  "shm_slab_alloc_slot w sz pool =
     (let sz1 = max sz (sl_min_size pool) in
      do {
        (p, pool1) \<leftarrow> shm_slab_alloc_slot_in w (slot_of pool sz) (shm_slab_get_alloc_type sz1) pool;
        (case p of
           None \<Rightarrow> Some (None, pool1)
         | Some off \<Rightarrow> map_option (Pair (Some off)) (mem_zero off sz1 pool1))
      })"

text \<open>The answer is the offset of the memory, None for \<^verbatim>\<open>NULL\<close>.\<close>

definition shm_slab_alloc :: "bool \<Rightarrow> nat \<Rightarrow> shm_slab_pool \<Rightarrow> (nat option \<times> shm_slab_pool) option" where
  "shm_slab_alloc w sz pool =
     (if sz = 0 then Some (None, pool)
      else if MAX_SIZE \<le> sz then do {
        let n = to_size (s32 (int ((sz + PAGE_SIZE - 1) mod size_mod w div PAGE_SIZE)));
        (new, pool1) \<leftarrow> shm_slab_alloc_pages n pool;
        (case new of
           None \<Rightarrow> Some (None, pool1)
         | Some i \<Rightarrow> do {
             pg \<leftarrow> page_at pool1 i;
             let off = page_off pool1 (sp_index pg);
             map_option (Pair (Some off)) (mem_zero off sz pool1)
           })
      }
      else shm_slab_alloc_slot w sz pool)"

section \<open>Release\<close>

text \<open>Here the index is an \<^verbatim>\<open>int\<close>, shifted with its sign: from 2 GB on it is negative, and the address lies before the data.
  None: it lies before the pool.\<close>

definition page_addr :: "shm_slab_pool \<Rightarrow> int \<Rightarrow> nat option" where
  "page_addr pool i =
     (let a = int (sl_data_offset pool) + s32 (i * int PAGE_SIZE) in if a < 0 then None else Some (nat a))"

definition shm_slab_free_pages :: "int \<Rightarrow> shm_slab_pool \<Rightarrow> (int \<times> shm_slab_pool) option" where
  "shm_slab_free_pages i pool =
     do {
       p1 \<leftarrow> set_page i (\<lambda>p. p\<lparr>sp_bitmap := replicate 32 False\<rparr>) pool;
       start \<leftarrow> page_addr pool i;
       p2 \<leftarrow> mem_zero start PAGE_SIZE p1;
       if sl_free_next p2 = NULL_PAGE then
         map_option (Pair 0) (set_page i (\<lambda>p. p\<lparr>sp_prev := FREE_PAGE\<rparr>) (p2\<lparr>sl_free_next := i\<rparr>))
       else do {
         nx \<leftarrow> page_at p2 (sl_free_next p2);
         p3 \<leftarrow> set_page i (\<lambda>p. p\<lparr>sp_shift := PAGE_SHIFT, sp_type := ALLOC_UNKNOWN, sp_next := sl_free_next p2,
           sp_prev := sp_prev nx\<rparr>) p2;
         p4 \<leftarrow> set_page (sl_free_next p2) (\<lambda>p. p\<lparr>sp_prev := i\<rparr>) p3;
         Some (0, p4\<lparr>sl_free_next := i\<rparr>)
       }
     }"

text \<open>Nothing calls this function.\<close>

definition shm_slab_slot_add_page :: "nat \<Rightarrow> int \<Rightarrow> shm_slab_pool \<Rightarrow> (int \<times> shm_slab_pool) option" where
  "shm_slab_slot_add_page slot i pool =
     (if sl_slots pool ! slot = NULL_PAGE then Some (0, pool\<lparr>sl_slots := (sl_slots pool)[slot := i]\<rparr>)
      else do {
        let first = sl_slots pool ! slot;
        p1 \<leftarrow> set_page i (\<lambda>p. p\<lparr>sp_next := first\<rparr>) pool;
        p2 \<leftarrow> set_page first (\<lambda>p. p\<lparr>sp_prev := i\<rparr>) p1;
        Some (0, p2\<lparr>sl_slots := (sl_slots p2)[slot := i]\<rparr>)
      })"

text \<open>The walk along the chain of a slot to the page before \<open>i\<close>; \<open>Some None\<close> when \<open>i\<close> is not in it.\<close>

partial_function (option) chain_before :: "shm_slab_pool \<Rightarrow> int \<Rightarrow> int \<Rightarrow> int option option" where
  "chain_before pool i prev =
     do {
       pg \<leftarrow> page_at pool prev;
       if sp_next pg = NULL_PAGE then Some None
       else if sp_next pg = i then Some (Some prev)
       else chain_before pool i (sp_next pg)
     }"

declare chain_before.simps [code]

definition shm_slab_slot_remove_page :: "nat \<Rightarrow> int \<Rightarrow> shm_slab_pool \<Rightarrow> (int \<times> shm_slab_pool) option" where
  "shm_slab_slot_remove_page slot i pool =
     (if sl_slots pool ! slot = NULL_PAGE then Some (- 1, pool)
      else do {
        pg \<leftarrow> page_at pool i;
        let relink = (\<lambda>p. if sp_next pg = NULL_PAGE then Some p else set_page (sp_next pg) (\<lambda>nx. nx\<lparr>sp_prev := sp_prev pg\<rparr>) p);
        (if sl_slots pool ! slot = i then do {
           p1 \<leftarrow> relink (pool\<lparr>sl_slots := (sl_slots pool)[slot := sp_next pg]\<rparr>);
           map_option (Pair 0) (set_page i (\<lambda>p. p\<lparr>sp_prev := NULL_PAGE, sp_next := NULL_PAGE\<rparr>) p1)
         }
         else do {
           before \<leftarrow> chain_before pool i (sl_slots pool ! slot);
           (case before of
              None \<Rightarrow> Some (- 1, pool)
            | Some prev \<Rightarrow> do {
                p1 \<leftarrow> relink pool;
                p2 \<leftarrow> set_page prev (\<lambda>p. p\<lparr>sp_next := sp_next pg\<rparr>) p1;
                map_option (Pair 0) (set_page i (\<lambda>p. p\<lparr>sp_prev := NULL_PAGE, sp_next := NULL_PAGE\<rparr>) p2)
              })
         })
      })"

text \<open>A page without chunks in use goes back to the free list.\<close>

definition release_page :: "int \<Rightarrow> shm_slab_pool \<Rightarrow> (int \<times> shm_slab_pool) option" where
  "release_page i pool =
     do {
       pg \<leftarrow> page_at pool i;
       if sp_shift pg < sl_min_shift pool \<or> length (sl_slots pool) \<le> sp_shift pg - sl_min_shift pool then None
       else do {
         (ret, pool1) \<leftarrow> shm_slab_slot_remove_page (sp_shift pg - sl_min_shift pool) i pool;
         if ret < 0 then Some (- 1, pool1) else shm_slab_free_pages i pool1
       }
     }"

definition bits_meet :: "bool list \<Rightarrow> bool list \<Rightarrow> bool" where
  "bits_meet a b \<longleftrightarrow> (\<exists>(x, y) \<in> set (zip a b). x \<and> y)"

text \<open>Here the extended bitmaps are an array of \<^verbatim>\<open>int\<close>: entry \<open>k\<close> starts at bit \<open>32 * k\<close>, whatever the size of a pointer.  The
  shift count \<^verbatim>\<open>bit_idx\<close> counts modulo 32, as the processors do it.\<close>

definition int_clear :: "nat \<Rightarrow> nat \<Rightarrow> nat \<Rightarrow> shm_slab_pool \<Rightarrow> shm_slab_pool" where
  "int_clear start k j pool = pool\<lparr>sl_mem := (sl_mem pool)(8 * start + 32 * k + j := False)\<rparr>"

definition int_zero :: "nat \<Rightarrow> shm_slab_pool \<Rightarrow> nat \<Rightarrow> bool" where
  "int_zero start pool k \<longleftrightarrow> (\<forall>j < 32. \<not> sl_mem pool (8 * start + 32 * k + j))"

definition free_small :: "int \<Rightarrow> nat \<Rightarrow> shm_slab_pool \<Rightarrow> (int \<times> shm_slab_pool) option" where
  "free_small i p pool =
     do {
       pg \<leftarrow> page_at pool i;
       start \<leftarrow> page_addr pool i;
       let bit_idx = (p - start) div 2 ^ sp_shift pg;
       let bitmap_idx = bit_idx div 32;
       p1 \<leftarrow> mem_zero p (2 ^ sp_shift pg) pool;
       p2 \<leftarrow> (if bitmap_idx = 0 then set_page i (\<lambda>q. q\<lparr>sp_bitmap := (sp_bitmap q)[bit_idx mod 32 := False]\<rparr>) p1
              else Some (int_clear start (bitmap_idx - 1) (bit_idx mod 32) p1));
       pg2 \<leftarrow> page_at p2 i;
       if (\<forall>k < exp_bitmaps (sp_shift pg). int_zero start p2 k) \<and> \<not> bits_meet (sp_bitmap pg2) (sp_rbitmap pg2)
       then release_page i p2
       else Some (0, p2)
     }"

definition free_chunk :: "int \<Rightarrow> nat \<Rightarrow> shm_slab_pool \<Rightarrow> (int \<times> shm_slab_pool) option" where
  "free_chunk i p pool =
     do {
       pg \<leftarrow> page_at pool i;
       start \<leftarrow> page_addr pool i;
       let bit_idx = (p - start) div 2 ^ sp_shift pg;
       p1 \<leftarrow> mem_zero p (2 ^ sp_shift pg) pool;
       p2 \<leftarrow> set_page i (\<lambda>q. q\<lparr>sp_bitmap := (sp_bitmap q)[bit_idx mod 32 := False]\<rparr>) p1;
       pg2 \<leftarrow> page_at p2 i;
       if \<not> bits_meet (sp_bitmap pg2) (sp_rbitmap pg2) then release_page i p2 else Some (0, p2)
     }"

definition shm_slab_free :: "nat \<Rightarrow> shm_slab_pool \<Rightarrow> (int \<times> shm_slab_pool) option" where
  "shm_slab_free off pool =
     (if off < sl_data_offset pool \<or> sl_end_offset pool < off then Some (- 1, pool)
      else do {
        let i = int ((off - sl_data_offset pool) div PAGE_SIZE);
        pg \<leftarrow> page_at pool i;
        (case sp_type pg of
           ALLOC_SMALL \<Rightarrow> free_small i off pool
         | ALLOC_EXACT \<Rightarrow> free_chunk i off pool
         | ALLOC_LARGE \<Rightarrow> free_chunk i off pool
         | ALLOC_PAGES \<Rightarrow> shm_slab_free_pages i pool
         | ALLOC_UNKNOWN \<Rightarrow> Some (- 1, pool))
      })"

definition shm_slab_head_size :: "bool \<Rightarrow> nat \<Rightarrow> nat" where
  "shm_slab_head_size w sz = sizeof_pool w + (11 - MIN_SHIFT) * 8 + sz div PAGE_SIZE * SIZEOF_PAGE"

section \<open>Owners\<close>

text \<open>What an allocation hands out: a run of pages, or chunk \<open>k\<close> of page \<open>i\<close>, which belongs to slot \<open>s\<close>.\<close>

datatype owner = Run nat nat | Chunk nat nat nat

text \<open>Where page \<open>i\<close> stands; the code computes it right for the pages below 4 GB.\<close>

definition page_start :: "shm_slab_pool \<Rightarrow> nat \<Rightarrow> nat" where
  "page_start pool i = sl_data_offset pool + i * PAGE_SIZE"

lemma page_off_start: "i < 1048576 \<Longrightarrow> page_off pool i = page_start pool i"
  by (simp add: page_off_def page_start_def)

lemma page_addr_start: "i < 524288 \<Longrightarrow> page_addr pool (int i) = Some (page_start pool i)"
  using s32_id [of "int i * 4096"] by (simp add: page_addr_def page_start_def nat_add_distrib nat_mult_distrib)

fun owner_bytes :: "shm_slab_pool \<Rightarrow> owner \<Rightarrow> nat \<times> nat" where
  "owner_bytes pool (Run i n) = (page_start pool i, n * PAGE_SIZE)"
| "owner_bytes pool (Chunk s i k) = (page_start pool i + k * 2 ^ (s + 3), 2 ^ (s + 3))"

definition chunk_used :: "bool \<Rightarrow> shm_slab_pool \<Rightarrow> nat \<Rightarrow> nat \<Rightarrow> bool" where
  "chunk_used w pool i k =
     (if k < 32 then sp_bitmap (sl_pages pool ! i) ! k
      else sl_mem pool (entry_bit w (page_start pool i) (k div 32 - 1) + k mod 32))"

fun owner_ok :: "bool \<Rightarrow> nat \<Rightarrow> (nat \<Rightarrow> nat list) \<Rightarrow> shm_slab_pool \<Rightarrow> owner \<Rightarrow> bool" where
  "owner_ok w f ch pool (Run i n) = (0 < n \<and> i + n \<le> f \<and> (\<forall>s < 9. \<forall>j \<in> set (ch s). j < i \<or> i + n \<le> j))"
| "owner_ok w f ch pool (Chunk s i k) =
     (s < 9 \<and> i \<in> set (ch s) \<and> exp_bitmaps (s + 3) \<le> k \<and> k < slot_bits (s + 3) \<and> chunk_used w pool i k)"

fun apart :: "owner \<Rightarrow> owner \<Rightarrow> bool" where
  "apart (Run i n) (Run j m) = (i + n \<le> j \<or> j + m \<le> i)"
| "apart (Chunk s i k) (Chunk t j l) = (i \<noteq> j \<or> k \<noteq> l)"
| "apart _ _ = True"

text \<open>The chain of pages of a slot.\<close>

fun page_chain :: "shm_slab_page list \<Rightarrow> int \<Rightarrow> nat list \<Rightarrow> bool" where
  "page_chain pgs x [] = (x = NULL_PAGE)"
| "page_chain pgs x (i # is) = (x = int i \<and> i < length pgs \<and> page_chain pgs (sp_next (pgs ! i)) is)"

definition reserved_set :: "nat \<Rightarrow> bool list \<Rightarrow> bool" where
  "reserved_set shift bm \<longleftrightarrow> exp_bitmaps shift = 0 \<longrightarrow> (\<forall>j < 32. slot_bits shift \<le> j \<longrightarrow> bm ! j)"

text \<open>The pool while nothing has been released: the pages from \<open>f\<close> on are one free run.\<close>

definition slab_frame :: "nat \<Rightarrow> shm_slab_pool \<Rightarrow> bool" where
  "slab_frame f pool \<longleftrightarrow> sl_min_size pool = 8 \<and> sl_min_shift pool = 3 \<and> length (sl_slots pool) = 9 \<and>
     sl_data_offset pool + length (sl_pages pool) * PAGE_SIZE \<le> sl_pool_size pool \<and> sl_pool_size pool \<le> 4294967296 \<and>
     (\<forall>i < length (sl_pages pool). sp_index (sl_pages pool ! i) = i \<and> length (sp_bitmap (sl_pages pool ! i)) = 32) \<and>
     f \<le> length (sl_pages pool) \<and>
     (if f < length (sl_pages pool) then sl_free_next pool = int f \<and> sp_pages (sl_pages pool ! f) = length (sl_pages pool) - f \<and>
        sp_next (sl_pages pool ! f) = NULL_PAGE \<and> sp_prev (sl_pages pool ! f) = FREE_PAGE
      else sl_free_next pool = NULL_PAGE)"

definition chains_ok :: "nat \<Rightarrow> (nat \<Rightarrow> nat list) \<Rightarrow> shm_slab_pool \<Rightarrow> bool" where
  "chains_ok f ch pool \<longleftrightarrow>
     (\<forall>s < 9. page_chain (sl_pages pool) (sl_slots pool ! s) (ch s) \<and> distinct (ch s) \<and>
        (\<forall>i \<in> set (ch s). i < f \<and> reserved_set (s + 3) (sp_bitmap (sl_pages pool ! i)))) \<and>
     (\<forall>s < 9. \<forall>t < 9. s \<noteq> t \<longrightarrow> set (ch s) \<inter> set (ch t) = {})"

definition slab_inv :: "bool \<Rightarrow> nat \<Rightarrow> (nat \<Rightarrow> nat list) \<Rightarrow> owner list \<Rightarrow> shm_slab_pool \<Rightarrow> bool" where
  "slab_inv w f ch ds pool \<longleftrightarrow> slab_frame f pool \<and> chains_ok f ch pool \<and>
     (\<forall>d \<in> set ds. owner_ok w f ch pool d) \<and> sorted_wrt apart ds"

lemma chain_page:
  assumes "chains_ok f ch pool" and "s < 9" and "i \<in> set (ch s)"
  shows "i < f" "reserved_set (s + 3) (sp_bitmap (sl_pages pool ! i))"
  using assms by (simp_all add: chains_ok_def)

lemma chain_unique:
  assumes "chains_ok f ch pool" and "s < 9" and "t < 9" and "i \<in> set (ch s)" and "i \<in> set (ch t)"
  shows "s = t"
proof (rule ccontr)
  assume "s \<noteq> t"
  then have "set (ch s) \<inter> set (ch t) = {}" using assms(1-3) by (simp add: chains_ok_def)
  then show False using assms(4,5) by blast
qed

lemma frame_le: "slab_frame f pool \<Longrightarrow> f \<le> length (sl_pages pool)"
  by (simp add: slab_frame_def)

lemma frame_off: "slab_frame f pool \<Longrightarrow> i < length (sl_pages pool) \<Longrightarrow> page_off pool i = page_start pool i"
  by (rule page_off_start) (simp add: slab_frame_def)

section \<open>Arithmetic of chunks\<close>

lemma slot_bits_values:
  "s < 9 \<Longrightarrow> slot_bits (s + 3) * 2 ^ (s + 3) = 4096 \<and> 2 \<le> slot_bits (s + 3) \<and>
     (exp_bitmaps (s + 3) = 0 \<and> slot_bits (s + 3) \<le> 32 \<or> slot_bits (s + 3) = 32 * (exp_bitmaps (s + 3) + 1) \<and> exp_bitmaps (s + 3) < 16)"
proof -
  assume "s < 9"
  then have "s \<in> {0, 1, 2, 3, 4, 5, 6, 7, 8}" by auto
  then show ?thesis by (auto simp: slot_bits_def exp_bitmaps_def)
qed

lemma chunk_in_page:
  assumes "s < 9" and "k < slot_bits (s + 3)"
  shows "k * 2 ^ (s + 3) + 2 ^ (s + 3) \<le> 4096"
proof -
  have "(k + 1) * 2 ^ (s + 3) \<le> slot_bits (s + 3) * 2 ^ (s + 3)" using assms(2) by (intro mult_right_mono) simp_all
  then show ?thesis using slot_bits_values [OF assms(1)] by simp
qed

lemma chunks_apart:
  assumes "k \<noteq> (l :: nat)"
  shows "k * n + n \<le> l * n \<or> l * n + n \<le> k * n"
proof -
  have "(k + 1) * n \<le> l * n \<or> (l + 1) * n \<le> k * n"
  proof (cases "k < l")
    case True
    then have "(k + 1) * n \<le> l * n" by (intro mult_right_mono) simp_all
    then show ?thesis ..
  next
    case False
    then have "(l + 1) * n \<le> k * n" using assms by (intro mult_right_mono) simp_all
    then show ?thesis ..
  qed
  then show ?thesis by (simp add: algebra_simps)
qed

definition bytes_apart :: "nat \<times> nat \<Rightarrow> nat \<times> nat \<Rightarrow> bool" where
  "bytes_apart a b \<longleftrightarrow> fst a + snd a \<le> fst b \<or> fst b + snd b \<le> fst a"

lemma pages_apart:
  assumes "i \<noteq> j" and "a + la \<le> 4096" and "b + lb \<le> (4096 :: nat)"
  shows "bytes_apart (page_start pool i + a, la) (page_start pool j + b, lb)"
proof -
  have "i * 4096 + 4096 \<le> j * 4096 \<or> j * 4096 + 4096 \<le> i * 4096" using chunks_apart [OF assms(1)] .
  then show ?thesis using assms(2,3) by (auto simp: bytes_apart_def page_start_def)
qed

lemma owners_apart:
  assumes d: "owner_ok w f ch pool d" "owner_ok w f ch pool e" and ch: "chains_ok f ch pool" and "apart d e"
  shows "bytes_apart (owner_bytes pool d) (owner_bytes pool e)"
proof (cases d; cases e)
  fix i n j m assume [simp]: "d = Run i n" "e = Run j m"
  have "(i + n) * 4096 \<le> j * 4096 \<or> (j + m) * 4096 \<le> i * 4096" using assms(4) by (auto intro: mult_right_mono)
  then show ?thesis by (auto simp: bytes_apart_def page_start_def algebra_simps)
next
  fix i n s j k assume [simp]: "d = Run i n" "e = Chunk s j k"
  have k: "k * 2 ^ (s + 3) + 2 ^ (s + 3) \<le> 4096" using d(2) by (intro chunk_in_page) auto
  have "j < i \<or> i + n \<le> j" using d by auto
  then have "(j + 1) * 4096 \<le> i * 4096 \<or> (i + n) * 4096 \<le> j * 4096" by (auto intro: mult_right_mono)
  then show ?thesis using k by (auto simp: bytes_apart_def page_start_def algebra_simps)
next
  fix i n s j k assume [simp]: "e = Run i n" "d = Chunk s j k"
  have k: "k * 2 ^ (s + 3) + 2 ^ (s + 3) \<le> 4096" using d(1) by (intro chunk_in_page) auto
  have "j < i \<or> i + n \<le> j" using d by auto
  then have "(j + 1) * 4096 \<le> i * 4096 \<or> (i + n) * 4096 \<le> j * 4096" by (auto intro: mult_right_mono)
  then show ?thesis using k by (auto simp: bytes_apart_def page_start_def algebra_simps)
next
  fix s i k t j l assume [simp]: "d = Chunk s i k" "e = Chunk t j l"
  have kl: "k * 2 ^ (s + 3) + 2 ^ (s + 3) \<le> 4096" "l * 2 ^ (t + 3) + 2 ^ (t + 3) \<le> 4096"
    using d chunk_in_page [of s k] chunk_in_page [of t l] by auto
  show ?thesis
  proof (cases "i = j")
    case False
    then show ?thesis using pages_apart [OF False kl] by simp
  next
    case True
    then have "s = t" using d chain_unique [OF ch, of s t i] by simp
    then show ?thesis using True assms(4) chunks_apart [of k l "2 ^ (t + 3)"] by (auto simp: bytes_apart_def)
  qed
qed

lemma owner_inside:
  assumes "owner_ok w f ch pool d" and "slab_frame f pool" and "chains_ok f ch pool"
  shows "sl_data_offset pool \<le> fst (owner_bytes pool d) \<and> fst (owner_bytes pool d) + snd (owner_bytes pool d) \<le> sl_pool_size pool"
proof -
  let ?n = "length (sl_pages pool)"
  have end_le: "sl_data_offset pool + i * 4096 \<le> sl_pool_size pool" if "i \<le> ?n" for i
  proof -
    have "i * 4096 \<le> ?n * 4096" using that by (intro mult_right_mono) simp_all
    then show ?thesis using assms(2) by (simp add: slab_frame_def)
  qed
  show ?thesis
  proof (cases d)
    case (Run i n)
    then have "i + n \<le> ?n" using assms(1,2) by (simp add: slab_frame_def)
    from end_le [OF this] Run show ?thesis by (simp add: page_start_def algebra_simps)
  next
    case (Chunk s i k)
    then have k: "k * 2 ^ (s + 3) + 2 ^ (s + 3) \<le> 4096" using assms(1) by (intro chunk_in_page) auto
    have "i + 1 \<le> ?n" using Chunk assms(1) chain_page(1) [OF assms(3), of s i] frame_le [OF assms(2)] by simp
    from end_le [OF this] Chunk k show ?thesis by (simp add: page_start_def algebra_simps)
  qed
qed

section \<open>What leaves the invariant alone\<close>

lemma page_chain_cong:
  "(\<And>i. i \<in> set is \<Longrightarrow> sp_next (pgs' ! i) = sp_next (pgs ! i)) \<Longrightarrow> length pgs' = length pgs \<Longrightarrow>
   page_chain pgs' x is = page_chain pgs x is"
  by (induction "is" arbitrary: x) auto

lemma page_chain_less: "page_chain pgs x is \<Longrightarrow> i \<in> set is \<Longrightarrow> i < length pgs"
  by (induction "is" arbitrary: x) auto

lemma page_chain_extend:
  assumes "page_chain pgs x is" and "is \<noteq> []" and "distinct is" and "f \<notin> set is" and "f < length pgs'" and "length pgs' = length pgs"
    and "\<And>j. j \<in> set is \<Longrightarrow> j \<noteq> last is \<Longrightarrow> sp_next (pgs' ! j) = sp_next (pgs ! j)"
    and "sp_next (pgs' ! last is) = int f" and "sp_next (pgs' ! f) = NULL_PAGE"
  shows "page_chain pgs' x (is @ [f])"
  using assms
proof (induction "is" arbitrary: x)
  case (Cons i "is")
  show ?case
  proof (cases "is = []")
    case True
    with Cons.prems show ?thesis by simp
  next
    case False
    then have "i \<noteq> last is" using Cons.prems(3) by auto
    then have "sp_next (pgs' ! i) = sp_next (pgs ! i)" using Cons.prems(7) [of i] False by simp
    moreover have "page_chain pgs' (sp_next (pgs ! i)) (is @ [f])"
      using Cons.prems False by (intro Cons.IH) auto
    ultimately show ?thesis using Cons.prems(1,6) by simp
  qed
qed simp

lemma page_chain_mid:
  "page_chain pgs x (pre @ i # post) \<Longrightarrow> i < length pgs \<and> sp_next (pgs ! i) = (case post of [] \<Rightarrow> NULL_PAGE | j # _ \<Rightarrow> int j)"
  by (induction pre arbitrary: x) (auto split: list.split)

lemma page_start_simps [simp]:
  "page_start (pool\<lparr>sl_mem := m\<rparr>) i = page_start pool i"
  "page_start (pool\<lparr>sl_pages := pgs\<rparr>) i = page_start pool i"
  "page_start (pool\<lparr>sl_slots := sl\<rparr>) i = page_start pool i"
  by (simp_all add: page_start_def)

lemma inv_pages:
  assumes inv: "slab_inv w f ch ds pool" and frame: "slab_frame f' pool'" and ch': "chains_ok f' ch' pool'" and f: "f \<le> f'"
    and sets: "\<And>s. s < 9 \<Longrightarrow> set (ch s) \<subseteq> set (ch' s)" "\<And>s j. s < 9 \<Longrightarrow> j \<in> set (ch' s) \<Longrightarrow> j \<in> set (ch s) \<or> f \<le> j"
    and bm: "\<And>i. i < f \<Longrightarrow> sp_bitmap (sl_pages pool' ! i) = sp_bitmap (sl_pages pool ! i)"
    and mem: "sl_mem pool' = sl_mem pool" "sl_data_offset pool' = sl_data_offset pool"
  shows "slab_inv w f' ch' ds pool'"
proof -
  have "owner_ok w f' ch' pool' d" if d: "d \<in> set ds" for d
  proof (cases d)
    case (Run i n)
    have "owner_ok w f ch pool (Run i n)" using inv d unfolding Run slab_inv_def by blast
    then have "0 < n" "i + n \<le> f" "\<And>s j. s < 9 \<Longrightarrow> j \<in> set (ch s) \<Longrightarrow> j < i \<or> i + n \<le> j" by simp_all
    then show ?thesis using Run f sets(2) by fastforce
  next
    case (Chunk s i k)
    then have c: "s < 9" "i \<in> set (ch s)" "exp_bitmaps (s + 3) \<le> k" "k < slot_bits (s + 3)" "chunk_used w pool i k"
      using inv d by (auto simp: slab_inv_def)
    then have "i < f" using inv by (auto simp: slab_inv_def dest: chain_page(1))
    then have "chunk_used w pool' i k" using c(5) bm mem by (cases "k < 32") (simp_all add: chunk_used_def page_start_def)
    then show ?thesis using Chunk c sets(1) [OF c(1)] by auto
  qed
  then show ?thesis using inv frame ch' by (simp add: slab_inv_def)
qed

text \<open>Writing into the bytes of an owner touches no bitmap, and setting a bit of a bitmap touches no owner.\<close>

lemma bitmap_outside:
  assumes s: "s < 9" "i \<in> set (ch s)" and x: "8 * page_start pool i \<le> x" "x < 8 * (page_start pool i + 8 * exp_bitmaps (s + 3))"
    and d: "owner_ok w f ch pool d" and ch: "chains_ok f ch pool"
  shows "x < 8 * fst (owner_bytes pool d) \<or> 8 * (fst (owner_bytes pool d) + snd (owner_bytes pool d)) \<le> x"
proof -
  let ?e = "exp_bitmaps (s + 3)"
  have e: "8 * ?e \<le> 4096" using slot_bits_values [OF s(1)] by auto
  show ?thesis
  proof (cases d)
    case (Run j n)
    then have "i < j \<or> j + n \<le> i" using d s by auto
    then have "(i + 1) * 4096 \<le> j * 4096 \<or> (j + n) * 4096 \<le> i * 4096" by (auto intro: mult_right_mono)
    then show ?thesis using x e Run by (auto simp: page_start_def algebra_simps)
  next
    case (Chunk t j l)
    then have t: "t < 9" "j \<in> set (ch t)" "exp_bitmaps (t + 3) \<le> l" "l < slot_bits (t + 3)" using d by simp_all
    show ?thesis
    proof (cases "i = j")
      case True
      then have "s = t" using chain_unique [OF ch s(1) t(1)] s t by simp
      have "?e * 8 \<le> l * 2 ^ (t + 3)" using t(3) \<open>s = t\<close> by (intro mult_mono) (simp_all add: power_add)
      then show ?thesis using x(2) Chunk True by simp
    next
      case False
      have "0 + 8 * ?e \<le> 4096" using e by simp
      from pages_apart [OF False this chunk_in_page [OF t(1,4)], of pool] show ?thesis
        using x Chunk by (auto simp: bytes_apart_def)
    qed
  qed
qed

lemma entry_in_bitmap:
  assumes "k < e"
  shows "8 * start \<le> entry_bit w start k" "entry_bit w start k + (if w then 64 else 32) \<le> 8 * (start + 8 * e)"
proof -
  have "k * 64 + 64 \<le> e * 64" using assms by simp
  then show "8 * start \<le> entry_bit w start k" "entry_bit w start k + (if w then 64 else 32) \<le> 8 * (start + 8 * e)"
    by (simp_all add: entry_bit_def)
qed

lemma entry_outside:
  assumes c: "owner_ok w f ch pool (Chunk s i k)" and d: "owner_ok w f ch pool d" and ch: "chains_ok f ch pool" and k: "32 \<le> k"
  shows "entry_bit w (page_start pool i) (k div 32 - 1) + k mod 32 < 8 * fst (owner_bytes pool d) \<or>
    8 * (fst (owner_bytes pool d) + snd (owner_bytes pool d)) \<le> entry_bit w (page_start pool i) (k div 32 - 1) + k mod 32"
proof -
  let ?e = "exp_bitmaps (s + 3)"
  have s: "s < 9" "i \<in> set (ch s)" "k < slot_bits (s + 3)" using c by simp_all
  have "k < (?e + 1) * 32" using slot_bits_values [OF s(1)] s(3) k by auto
  then have "k div 32 < ?e + 1" by (rule less_mult_imp_div_less)
  then have "k div 32 - 1 < ?e" using k by simp
  note in_map = entry_in_bitmap [OF this, where start = "page_start pool i" and w = w]
  have "k mod 32 < 32" by simp
  then show ?thesis using in_map by (intro bitmap_outside [OF s(1,2) _ _ d ch]) (simp_all split: if_splits)
qed

lemma inv_mem:
  assumes inv: "slab_inv w f ch ds pool" and d: "owner_ok w f ch pool d"
    and same: "\<And>a. a < 8 * fst (owner_bytes pool d) \<or> 8 * (fst (owner_bytes pool d) + snd (owner_bytes pool d)) \<le> a \<Longrightarrow> m a = sl_mem pool a"
  shows "slab_inv w f ch ds (pool\<lparr>sl_mem := m\<rparr>)"
proof -
  have ch: "chains_ok f ch pool" using inv by (simp add: slab_inv_def)
  have "owner_ok w f ch (pool\<lparr>sl_mem := m\<rparr>) e" if e: "owner_ok w f ch pool e" for e
  proof (cases e)
    case (Chunk s i k)
    show ?thesis
    proof (cases "k < 32")
      case False
      then have "m (entry_bit w (page_start pool i) (k div 32 - 1) + k mod 32) = sl_mem pool (entry_bit w (page_start pool i) (k div 32 - 1) + k mod 32)"
        using entry_outside [of w f ch pool s i k d] e d ch Chunk by (intro same) auto
      then show ?thesis using e Chunk False by (simp add: chunk_used_def)
    qed (use e Chunk in \<open>simp add: chunk_used_def\<close>)
  qed (use e in simp)
  then show ?thesis using inv by (auto simp: slab_inv_def slab_frame_def chains_ok_def)
qed

text \<open>Setting more bits of the memory keeps every chunk in use.\<close>

lemma inv_more_bits:
  assumes inv: "slab_inv w f ch ds pool" and more: "\<And>a. sl_mem pool a \<Longrightarrow> m a"
  shows "slab_inv w f ch ds (pool\<lparr>sl_mem := m\<rparr>)"
proof -
  have "owner_ok w f ch (pool\<lparr>sl_mem := m\<rparr>) e" if "owner_ok w f ch pool e" for e
    using that more by (cases e) (auto simp: chunk_used_def split: if_splits)
  then show ?thesis using inv by (auto simp: slab_inv_def slab_frame_def chains_ok_def)
qed

section \<open>Taking pages\<close>

lemma page_at_nat: "i < length (sl_pages pool) \<Longrightarrow> page_at pool (int i) = Some (sl_pages pool ! i)"
  by (simp add: page_at_def)

lemma set_page_nat:
  "i < length (sl_pages pool) \<Longrightarrow>
   set_page (int i) g pool = Some (pool\<lparr>sl_pages := (sl_pages pool)[i := g (sl_pages pool ! i)]\<rparr>)"
  by (simp add: set_page_def page_at_nat)

text \<open>The pages after a run of \<open>n\<close> has been taken from the front of the free pages.\<close>

definition taken_pages :: "nat \<Rightarrow> nat \<Rightarrow> shm_slab_page list \<Rightarrow> shm_slab_page list" where
  "taken_pages f n pgs =
     (if n < length pgs - f then
        pgs[f + n := (pgs ! (f + n))\<lparr>sp_pages := length pgs - f - n, sp_prev := FREE_PAGE, sp_next := NULL_PAGE\<rparr>,
            f := (pgs ! f)\<lparr>sp_pages := n, sp_shift := PAGE_SHIFT, sp_type := ALLOC_PAGES, sp_next := NULL_PAGE, sp_prev := NULL_PAGE\<rparr>]
      else pgs[f := (pgs ! f)\<lparr>sp_type := ALLOC_PAGES, sp_next := NULL_PAGE, sp_prev := NULL_PAGE\<rparr>])"

definition taken_pool :: "nat \<Rightarrow> nat \<Rightarrow> shm_slab_pool \<Rightarrow> shm_slab_pool" where
  "taken_pool f n pool =
     pool\<lparr>sl_pages := taken_pages f n (sl_pages pool),
       sl_free_next := (if n < length (sl_pages pool) - f then int (f + n) else NULL_PAGE)\<rparr>"

lemma taken_pages_simps:
  "length (taken_pages f n pgs) = length pgs"
  "i < f \<Longrightarrow> taken_pages f n pgs ! i = pgs ! i"
  "f < length pgs \<Longrightarrow> 0 < n \<Longrightarrow> sp_next (taken_pages f n pgs ! f) = NULL_PAGE"
  "i < length pgs \<Longrightarrow> sp_bitmap (taken_pages f n pgs ! i) = sp_bitmap (pgs ! i)"
  "i < length pgs \<Longrightarrow> sp_index (taken_pages f n pgs ! i) = sp_index (pgs ! i)"
  by (auto simp: taken_pages_def nth_list_update)

lemma alloc_pages_run:
  assumes frame: "slab_frame f pool" and n: "0 < n"
  shows "shm_slab_alloc_pages n pool =
    (if f + n \<le> length (sl_pages pool) then Some (Some (int f), taken_pool f n pool) else Some (None, pool))"
proof (cases "f < length (sl_pages pool)")
  case False
  then have "sl_free_next pool = NULL_PAGE" "f = length (sl_pages pool)" using frame by (auto simp: slab_frame_def)
  then show ?thesis using n by (simp add: shm_slab_alloc_pages_def free_scan.simps)
next
  case True
  let ?pgs = "sl_pages pool"
  have pf: "sl_free_next pool = int f" "sp_pages (?pgs ! f) = length ?pgs - f" "sp_next (?pgs ! f) = NULL_PAGE" "sp_prev (?pgs ! f) = FREE_PAGE"
    using frame True by (simp_all add: slab_frame_def)
  have scan: "free_scan pool n (int f) = Some (if n \<le> length ?pgs - f then Some (int f) else None)"
    using True pf by (subst free_scan.simps) (simp add: page_at_nat free_scan.simps [of _ _ "- 1"])
  show ?thesis
  proof (cases "n \<le> length ?pgs - f")
    case False
    then show ?thesis using scan pf(1) by (simp add: shm_slab_alloc_pages_def)
  next
    case n_le: True
    show ?thesis
    proof (cases "n < length ?pgs - f")
      case cut: True
      have g: "f + n < length ?pgs" "f + n \<noteq> f" using cut n by simp_all
      have i: "int f + int n = int (f + n)" by simp
      have "cut_run n (int f) pool = Some (taken_pool f n pool)"
        unfolding cut_run_def i using True g pf cut
        by (cases pool) (simp add: page_at_nat set_page_nat set_next_of_def taken_pool_def taken_pages_def del: of_nat_add)
      then show ?thesis using scan pf cut True by (simp add: shm_slab_alloc_pages_def page_at_nat)
    next
      case whole: False
      then have "n = length ?pgs - f" using n_le by simp
      then have "take_run (int f) pool = Some (taken_pool f n pool)"
        using True pf by (cases pool) (simp add: take_run_def page_at_nat set_page_nat set_next_of_def taken_pool_def taken_pages_def)
      then show ?thesis using scan pf whole n_le True by (simp add: shm_slab_alloc_pages_def page_at_nat)
    qed
  qed
qed

lemma taken_frame:
  assumes "slab_frame f pool" and "0 < n" and "f + n \<le> length (sl_pages pool)"
  shows "slab_frame (f + n) (taken_pool f n pool)"
proof -
  have "f < length (sl_pages pool)" using assms by simp
  then show ?thesis
    using assms by (auto simp: slab_frame_def taken_pool_def taken_pages_simps) (simp_all add: taken_pages_def nth_list_update)
qed

lemma taken_simps [simp]:
  "sl_slots (taken_pool f n pool) = sl_slots pool" "sl_mem (taken_pool f n pool) = sl_mem pool"
  "sl_data_offset (taken_pool f n pool) = sl_data_offset pool" "sl_pool_size (taken_pool f n pool) = sl_pool_size pool"
  "sl_min_shift (taken_pool f n pool) = sl_min_shift pool" "sl_min_size (taken_pool f n pool) = sl_min_size pool"
  "sl_pages (taken_pool f n pool) = taken_pages f n (sl_pages pool)" "page_start (taken_pool f n pool) i = page_start pool i"
  by (simp_all add: taken_pool_def page_start_def)

lemma chain_cong_below:
  assumes "chains_ok f ch pool" and "s < 9" and "length pgs' = length (sl_pages pool)"
    and "\<And>i. i < f \<Longrightarrow> sp_next (pgs' ! i) = sp_next (sl_pages pool ! i)"
  shows "page_chain pgs' (sl_slots pool ! s) (ch s)"
proof -
  have "page_chain pgs' (sl_slots pool ! s) (ch s) = page_chain (sl_pages pool) (sl_slots pool ! s) (ch s)"
    using assms chain_page(1) [OF assms(1,2)] by (intro page_chain_cong) auto
  then show ?thesis using assms(1,2) by (simp add: chains_ok_def)
qed

lemma taken_chains:
  assumes ch: "chains_ok f ch pool" and f: "f \<le> f'" "f \<le> length (sl_pages pool)"
  shows "chains_ok f' ch (taken_pool f n pool)"
proof -
  have "page_chain (taken_pages f n (sl_pages pool)) (sl_slots pool ! s) (ch s)" if "s < 9" for s
    by (rule chain_cong_below [OF ch that]) (simp_all add: taken_pages_simps)
  moreover have "i < f' \<and> reserved_set (s + 3) (sp_bitmap (taken_pages f n (sl_pages pool) ! i))" if "s < 9" "i \<in> set (ch s)" for s i
    using chain_page [OF ch that] f by (simp add: taken_pages_simps)
  ultimately show ?thesis using ch by (simp add: chains_ok_def)
qed

lemma inv_frame: "slab_inv w f ch ds pool \<Longrightarrow> slab_frame f pool"
  by (simp add: slab_inv_def)

lemma inv_chains: "slab_inv w f ch ds pool \<Longrightarrow> chains_ok f ch pool"
  by (simp add: slab_inv_def)

lemma apart_run:
  assumes "owner_ok w f ch pool d"
  shows "apart d (Run f n)"
  using assms by (cases d) simp_all

lemma taken_inv:
  assumes inv: "slab_inv w f ch ds pool" and n: "0 < n" "f + n \<le> length (sl_pages pool)"
  shows "slab_inv w (f + n) ch (ds @ [Run f n]) (taken_pool f n pool)"
proof -
  note frame = inv_frame [OF inv] and ch = inv_chains [OF inv]
  have "slab_inv w (f + n) ch ds (taken_pool f n pool)"
    by (rule inv_pages [OF inv taken_frame [OF frame n] taken_chains [OF ch]])
      (use n in \<open>auto simp: taken_pages_simps\<close>)
  moreover have "owner_ok w (f + n) ch (taken_pool f n pool) (Run f n)"
    using n chain_page(1) [OF ch] by auto
  moreover have "\<forall>d \<in> set ds. apart d (Run f n)" using inv apart_run by (auto simp: slab_inv_def)
  ultimately show ?thesis by (auto simp: slab_inv_def sorted_wrt_append)
qed

text \<open>The bytes of all owners are as they were.\<close>

definition kept :: "owner list \<Rightarrow> shm_slab_pool \<Rightarrow> shm_slab_pool \<Rightarrow> bool" where
  "kept ds pool pool' \<longleftrightarrow> sl_data_offset pool' = sl_data_offset pool \<and> sl_pool_size pool' = sl_pool_size pool \<and>
     (\<forall>d \<in> set ds. \<forall>x. 8 * fst (owner_bytes pool d) \<le> x \<and> x < 8 * (fst (owner_bytes pool d) + snd (owner_bytes pool d)) \<longrightarrow>
        sl_mem pool' x = sl_mem pool x)"

lemma owner_bytes_cong: "sl_data_offset pool' = sl_data_offset pool \<Longrightarrow> owner_bytes pool' d = owner_bytes pool d"
  by (cases d) (simp_all add: page_start_def)

lemma kept_same:
  "sl_data_offset pool' = sl_data_offset pool \<Longrightarrow> sl_pool_size pool' = sl_pool_size pool \<Longrightarrow> sl_mem pool' = sl_mem pool \<Longrightarrow> kept ds pool pool'"
  by (simp add: kept_def)

lemma kept_trans: "kept ds pool pool1 \<Longrightarrow> kept ds pool1 pool2 \<Longrightarrow> kept ds pool pool2"
  unfolding kept_def using owner_bytes_cong [of pool1 pool] by simp

section \<open>Opening pages\<close>

lemma frame_set:
  assumes "slab_frame f pool" and "i < f" and "sp_index pg = i" and "length (sp_bitmap pg) = 32"
  shows "slab_frame f (pool\<lparr>sl_pages := (sl_pages pool)[i := pg]\<rparr>)"
  using assms by (auto simp: slab_frame_def nth_list_update)

lemma frame_slots: "slab_frame f pool \<Longrightarrow> length sl = 9 \<Longrightarrow> slab_frame f (pool\<lparr>sl_slots := sl\<rparr>)"
  by (simp add: slab_frame_def)

lemma init_bitmap_spec: "length (init_bitmap shift bm) = 32 \<and> reserved_set shift (init_bitmap shift bm)"
  by (simp add: init_bitmap_def reserved_set_def)

text \<open>The page the loop opens: linked behind \<open>i\<close>, or first of its slot.\<close>

definition opened :: "alloc_type \<Rightarrow> nat \<Rightarrow> shm_slab_page \<Rightarrow> shm_slab_page" where
  "opened ty shift p = p\<lparr>sp_type := ty, sp_shift := shift, sp_bitmap := init_bitmap shift (sp_bitmap p),
     sp_rbitmap := map Not (init_bitmap shift (sp_bitmap p))\<rparr>"

lemma open_page_run:
  "i < length (sl_pages pool) \<Longrightarrow>
   open_page ty shift (int i) pool = Some (pool\<lparr>sl_pages := (sl_pages pool)[i := opened ty shift (sl_pages pool ! i)]\<rparr>)"
  by (simp add: open_page_def set_page_nat opened_def)

lemma opened_simps [simp]:
  "sp_next (opened ty shift p) = sp_next p" "sp_index (opened ty shift p) = sp_index p" "length (sp_bitmap (opened ty shift p)) = 32"
  "reserved_set shift (sp_bitmap (opened ty shift p))"
  using init_bitmap_spec [of shift "sp_bitmap p"] by (simp_all add: opened_def)

text \<open>A pool with one more page in the chain of slot \<open>s\<close>.\<close>

lemma extend_inv:
  assumes inv: "slab_inv w f ch ds pool" and s: "s < 9" and frame: "slab_frame (f + 1) pool'"
    and chain: "page_chain (sl_pages pool') (sl_slots pool' ! s) (ch s @ [f])"
    and others: "\<And>t. t < 9 \<Longrightarrow> t \<noteq> s \<Longrightarrow> sl_slots pool' ! t = sl_slots pool ! t"
    and len: "length (sl_pages pool') = length (sl_pages pool)"
    and next_same: "\<And>i. i < f \<Longrightarrow> i \<notin> set (ch s) \<Longrightarrow> sp_next (sl_pages pool' ! i) = sp_next (sl_pages pool ! i)"
    and bm: "\<And>i. i < f \<Longrightarrow> sp_bitmap (sl_pages pool' ! i) = sp_bitmap (sl_pages pool ! i)"
    and res: "reserved_set (s + 3) (sp_bitmap (sl_pages pool' ! f))"
    and mem: "sl_mem pool' = sl_mem pool" "sl_data_offset pool' = sl_data_offset pool"
  shows "slab_inv w (f + 1) (ch(s := ch s @ [f])) ds pool'"
proof -
  let ?ch = "ch(s := ch s @ [f])"
  note ch = inv_chains [OF inv]
  have less: "i < f" if "t < 9" "i \<in> set (ch t)" for t i using chain_page(1) [OF ch that] .
  have "page_chain (sl_pages pool') (sl_slots pool' ! t) (?ch t) \<and> distinct (?ch t)" if t: "t < 9" for t
  proof (cases "t = s")
    case True
    then show ?thesis using chain ch s less [OF s] by (auto simp: chains_ok_def)
  next
    case False
    have "page_chain (sl_pages pool') (sl_slots pool ! t) (ch t) = page_chain (sl_pages pool) (sl_slots pool ! t) (ch t)"
      using len by (intro page_chain_cong) (metis False chain_unique [OF ch t s] less next_same t)
    then show ?thesis using False ch t others [OF t] by (simp add: chains_ok_def)
  qed
  moreover have "i < f + 1 \<and> reserved_set (t + 3) (sp_bitmap (sl_pages pool' ! i))" if t: "t < 9" and i: "i \<in> set (?ch t)" for t i
  proof (cases "i = f")
    case True
    then have "t = s" using i less [OF t] by (auto split: if_splits)
    then show ?thesis using res True by simp
  next
    case False
    then have mem_t: "i \<in> set (ch t)" using i by (auto split: if_splits)
    from chain_page [OF ch t this] show ?thesis using bm by simp
  qed
  moreover have "set (?ch t) \<inter> set (?ch u) = {}" if "t < 9" "u < 9" "t \<noteq> u" for t u
  proof -
    have "set (ch t) \<inter> set (ch u) = {}" using ch that by (simp add: chains_ok_def)
    then show ?thesis using less [OF that(1)] less [OF that(2)] that(3) by auto
  qed
  ultimately have ch': "chains_ok (f + 1) ?ch pool'" by (simp add: chains_ok_def)
  show ?thesis by (rule inv_pages [OF inv frame ch']) (use bm mem in \<open>auto split: if_splits\<close>)
qed

lemma open_first:
  assumes inv: "slab_inv w f ch ds pool" and s: "s < 9" "ch s = []" and n: "f < length (sl_pages pool)"
  shows "\<exists>pool'. open_page ty (s + 3) (int f) (taken_pool f 1 pool) = Some pool' \<and>
    slab_inv w (f + 1) (ch(s := [f])) ds (pool'\<lparr>sl_slots := (sl_slots pool')[s := int f]\<rparr>) \<and>
    length (sl_pages pool') = length (sl_pages pool) \<and> sl_data_offset pool' = sl_data_offset pool \<and> sl_pool_size pool' = sl_pool_size pool \<and> sl_mem pool' = sl_mem pool"
proof -
  let ?t = "taken_pages f 1 (sl_pages pool)"
  let ?pgs = "?t[f := opened ty (s + 3) (?t ! f)]"
  let ?p = "(taken_pool f 1 pool)\<lparr>sl_pages := ?pgs\<rparr>" and ?q = "(taken_pool f 1 pool)\<lparr>sl_pages := ?pgs, sl_slots := (sl_slots pool)[s := int f]\<rparr>"
  note frame = inv_frame [OF inv]
  have run: "open_page ty (s + 3) (int f) (taken_pool f 1 pool) = Some ?p"
    using n open_page_run [of f "taken_pool f 1 pool"] by (simp add: taken_pages_simps)
  have idx: "sp_index (?t ! f) = f" using frame n by (simp add: taken_pages_simps slab_frame_def)
  have "slab_frame (f + 1) ?p"
    using frame_set [OF taken_frame [OF frame, of 1], of f "opened ty (s + 3) (?t ! f)"] n idx by simp
  from frame_slots [OF this, of "(sl_slots pool)[s := int f]"] frame have frame': "slab_frame (f + 1) ?q"
    by (simp add: slab_frame_def [of f])
  have "slab_inv w (f + 1) (ch(s := ch s @ [f])) ds ?q"
  proof (rule extend_inv [OF inv s(1) frame'])
    show "page_chain (sl_pages ?q) (sl_slots ?q ! s) (ch s @ [f])"
      using s frame n by (simp add: slab_frame_def taken_pages_simps)
  qed (use s n in \<open>simp_all add: taken_pages_simps\<close>)
  then show ?thesis using run s(2) by (simp add: taken_pages_simps)
qed

lemma open_next:
  assumes inv: "slab_inv w f ch ds pool" and s: "s < 9" "ch s = pre @ [i]" and n: "f < length (sl_pages pool)"
  shows "\<exists>p3 p4 p5. set_page (int i) (\<lambda>p. p\<lparr>sp_next := int f\<rparr>) (taken_pool f 1 pool) = Some p3 \<and>
    set_page (int f) (\<lambda>p. p\<lparr>sp_prev := int i\<rparr>) p3 = Some p4 \<and> open_page ty (s + 3) (int f) p4 = Some p5 \<and>
    slab_inv w (f + 1) (ch(s := ch s @ [f])) ds p5 \<and>
    length (sl_pages p5) = length (sl_pages pool) \<and> sl_data_offset p5 = sl_data_offset pool \<and> sl_pool_size p5 = sl_pool_size pool \<and>
    sl_mem p5 = sl_mem pool"
proof -
  note frame = inv_frame [OF inv] and ch = inv_chains [OF inv]
  let ?t = "taken_pages f 1 (sl_pages pool)"
  have i: "i < f" using chain_page(1) [OF ch s(1)] s(2) by simp
  then have il: "i < length (sl_pages pool)" "i \<noteq> f" using n by simp_all
  let ?pi = "(sl_pages pool ! i)\<lparr>sp_next := int f\<rparr>" and ?pf = "(?t ! f)\<lparr>sp_prev := int i\<rparr>"
  let ?pgs3 = "?t[i := ?pi]" and ?pgs4 = "?t[i := ?pi, f := ?pf]" and ?pgs5 = "?t[i := ?pi, f := opened ty (s + 3) ?pf]"
  let ?p3 = "(taken_pool f 1 pool)\<lparr>sl_pages := ?pgs3\<rparr>" and ?p4 = "(taken_pool f 1 pool)\<lparr>sl_pages := ?pgs4\<rparr>"
    and ?p5 = "(taken_pool f 1 pool)\<lparr>sl_pages := ?pgs5\<rparr>"
  have r3: "set_page (int i) (\<lambda>p. p\<lparr>sp_next := int f\<rparr>) (taken_pool f 1 pool) = Some ?p3"
    using il i set_page_nat [of i "taken_pool f 1 pool"] by (simp add: taken_pages_simps)
  have r4: "set_page (int f) (\<lambda>p. p\<lparr>sp_prev := int i\<rparr>) ?p3 = Some ?p4"
    using n il set_page_nat [of f ?p3] by (simp add: taken_pages_simps)
  have r5: "open_page ty (s + 3) (int f) ?p4 = Some ?p5"
    using n il open_page_run [of f ?p4] by (simp add: taken_pages_simps)
  have idx: "sp_index (?t ! f) = f" "sp_index (sl_pages pool ! i) = i" "length (sp_bitmap (sl_pages pool ! i)) = 32"
    using frame n il by (simp_all add: taken_pages_simps slab_frame_def)
  have "slab_frame (f + 1) ?p3"
    using frame_set [OF taken_frame [OF frame, of 1], of i ?pi] n idx i by simp
  from frame_set [OF this, of f "opened ty (s + 3) ?pf"] idx have frame': "slab_frame (f + 1) ?p5" by simp
  have chain: "page_chain (sl_pages pool) (sl_slots pool ! s) (ch s)" "distinct (ch s)" using ch s(1) by (simp_all add: chains_ok_def)
  have less: "j < f" if "j \<in> set (ch s)" for j using chain_page(1) [OF ch s(1) that] .
  have "slab_inv w (f + 1) (ch(s := ch s @ [f])) ds ?p5"
  proof (rule extend_inv [OF inv s(1) frame'])
    have "page_chain ?pgs5 (sl_slots pool ! s) (ch s @ [f])"
    proof (rule page_chain_extend [OF chain(1) _ chain(2)])
      show "f \<notin> set (ch s)" using less by blast
      show "sp_next (?pgs5 ! j) = sp_next (sl_pages pool ! j)" if "j \<in> set (ch s)" "j \<noteq> last (ch s)" for j
        using that less [of j] s(2) by (simp add: taken_pages_simps nth_list_update)
    qed (use s n il i in \<open>simp_all add: taken_pages_simps nth_list_update\<close>)
    then show "page_chain (sl_pages ?p5) (sl_slots ?p5 ! s) (ch s @ [f])" by simp
    show "sp_next (sl_pages ?p5 ! j) = sp_next (sl_pages pool ! j)" if "j < f" "j \<notin> set (ch s)" for j
      using that s(2) by (auto simp: taken_pages_simps nth_list_update)
    show "sp_bitmap (sl_pages ?p5 ! j) = sp_bitmap (sl_pages pool ! j)" if "j < f" for j
      using that il(1) by (cases "j = i") (simp_all add: taken_pages_simps)
    show "reserved_set (s + 3) (sp_bitmap (sl_pages ?p5 ! f))" using n by (simp add: taken_pages_simps)
  qed (simp_all add: taken_pages_simps)
  then show ?thesis using r3 r4 r5 by (intro exI [of _ ?p3] exI [of _ ?p4] exI [of _ ?p5]) (simp add: taken_pages_simps)
qed

section \<open>Taking chunks\<close>

lemma apart_chunk:
  assumes ok: "owner_ok w f ch pool d" and s: "s < 9" and ch: "chains_ok f ch pool" and i: "i \<in> set (ch s)" and free: "\<not> chunk_used w pool i k"
  shows "apart d (Chunk s i k)"
  using assms by (cases d) auto

lemma add_chunk:
  assumes inv: "slab_inv w f ch ds pool" and inv': "slab_inv w f ch ds pool'" and s: "s < 9" "i \<in> set (ch s)"
    and k: "exp_bitmaps (s + 3) \<le> k" "k < slot_bits (s + 3)" "\<not> chunk_used w pool i k" "chunk_used w pool' i k"
  shows "slab_inv w f ch (ds @ [Chunk s i k]) pool'"
proof -
  have "\<forall>d \<in> set ds. apart d (Chunk s i k)"
    using inv apart_chunk [OF _ s(1) inv_chains [OF inv] s(2) k(3)] by (auto simp: slab_inv_def)
  then show ?thesis using inv' s k by (auto simp: slab_inv_def sorted_wrt_append)
qed

text \<open>Setting a bit of the bitmap of a chain page.\<close>

lemma set_bit_inv:
  assumes inv: "slab_inv w f ch ds pool" and s: "s < 9" "i \<in> set (ch s)" and k: "k < 32"
  shows "slab_inv w f ch ds (pool\<lparr>sl_pages := (sl_pages pool)[i := (sl_pages pool ! i)\<lparr>sp_bitmap := (sp_bitmap (sl_pages pool ! i))[k := True]\<rparr>]\<rparr>)"
    (is "slab_inv w f ch ds ?p")
proof -
  note frame = inv_frame [OF inv] and ch = inv_chains [OF inv]
  have i: "i < f" using chain_page(1) [OF ch s] .
  then have il: "i < length (sl_pages pool)" using frame by (simp add: slab_frame_def)
  have len: "length (sp_bitmap (sl_pages pool ! i)) = 32" "sp_index (sl_pages pool ! i) = i" using frame il by (simp_all add: slab_frame_def)
  have frame': "slab_frame f ?p" using frame_set [OF frame i] len by simp
  have bits: "sp_bitmap (sl_pages ?p ! j) ! l = (sp_bitmap (sl_pages pool ! j) ! l \<or> j = i \<and> l = k)" if "l < 32" for j l
    using il len k that by (cases "j = i"; cases "l = k") simp_all
  have "page_chain (sl_pages ?p) (sl_slots pool ! t) (ch t)" if "t < 9" for t
    by (rule chain_cong_below [OF ch that]) (use il in \<open>simp_all add: nth_list_update\<close>)
  moreover have "j < f \<and> reserved_set (t + 3) (sp_bitmap (sl_pages ?p ! j))" if "t < 9" "j \<in> set (ch t)" for t j
    using chain_page [OF ch that] bits by (auto simp: reserved_set_def)
  ultimately have ch': "chains_ok f ch ?p" using ch by (simp add: chains_ok_def)
  have "owner_ok w f ch ?p d" if "owner_ok w f ch pool d" for d
    using that bits by (cases d) (auto simp: chunk_used_def split: if_splits)
  then show ?thesis using inv frame' ch' by (simp add: slab_inv_def)
qed

lemma exp_scan_Some:
  "exp_scan w start e ks pool = Some (k, j) \<Longrightarrow> k \<in> set ks \<and> j < 32 \<and> \<not> sl_mem pool (entry_bit w start k + j)"
  by (induction ks) (auto split: if_splits option.splits dest!: find_idx_Some simp: clear_bit_of_def)

lemma kept_entry:
  assumes inv: "slab_inv w f ch ds pool" and s: "s < 9" "i \<in> set (ch s)" and k: "k < exp_bitmaps (s + 3)" "j < 32"
  shows "kept ds pool (entry_set w (page_start pool i) k j pool)"
proof -
  note in_map = entry_in_bitmap [OF k(1), where start = "page_start pool i" and w = w]
  have "sl_mem (entry_set w (page_start pool i) k j pool) x = sl_mem pool x"
    if d: "d \<in> set ds" and x: "8 * fst (owner_bytes pool d) \<le> x" "x < 8 * (fst (owner_bytes pool d) + snd (owner_bytes pool d))" for d x
  proof -
    have "owner_ok w f ch pool d" using inv d by (simp add: slab_inv_def)
    from bitmap_outside [OF s _ _ this inv_chains [OF inv], of x] x
    have "\<not> (8 * page_start pool i \<le> x \<and> x < 8 * (page_start pool i + 8 * exp_bitmaps (s + 3)))" by linarith
    then show ?thesis using in_map k(2) by (auto simp: entry_set_def split: if_splits)
  qed
  then show ?thesis by (simp add: kept_def entry_set_def)
qed

lemma try_page_spec:
  assumes inv: "slab_inv w f ch ds pool" and s: "s < 9" "i \<in> set (ch s)"
  shows "try_page w (s + 3) (int i) pool = Some (None, pool) \<or>
    (\<exists>k pool'. try_page w (s + 3) (int i) pool = Some (Some (page_start pool i + k * 2 ^ (s + 3)), pool') \<and>
       slab_inv w f ch (ds @ [Chunk s i k]) pool' \<and> kept ds pool pool')"
proof -
  note frame = inv_frame [OF inv] and ch = inv_chains [OF inv]
  let ?e = "exp_bitmaps (s + 3)" and ?pg = "sl_pages pool ! i"
  have i: "i < f" "reserved_set (s + 3) (sp_bitmap ?pg)" using chain_page [OF ch s] .
  then have il: "i < length (sl_pages pool)" using frame by (simp add: slab_frame_def)
  have pg: "sp_index ?pg = i" "length (sp_bitmap ?pg) = 32" using frame il by (simp_all add: slab_frame_def)
  note sb = slot_bits_values [OF s(1)] and po = frame_off [OF frame il]
  show ?thesis
  proof (cases "sp_bitmap ?pg = replicate 32 True")
    case False
    show ?thesis
    proof (cases "find_idx (\<lambda>j. \<not> sp_bitmap ?pg ! j) [?e..<32]")
      case None
      then show ?thesis using False il pg by (simp add: try_page_def page_at_nat)
    next
      case (Some j)
      from find_idx_Some [OF this] have j: "?e + j < 32" "\<not> sp_bitmap ?pg ! (?e + j)" by auto
      let ?p = "pool\<lparr>sl_pages := (sl_pages pool)[i := ?pg\<lparr>sp_bitmap := (sp_bitmap ?pg)[?e + j := True]\<rparr>]\<rparr>"
      have run: "try_page w (s + 3) (int i) pool = Some (Some (page_start pool i + (?e + j) * 2 ^ (s + 3)), ?p)"
        using False Some il pg by (simp add: try_page_def page_at_nat set_page_nat Let_def po)
      have "?e + j < slot_bits (s + 3)" using i(2) j sb by (auto simp: reserved_set_def not_le)
      moreover have "chunk_used w ?p i (?e + j)" using j il pg by (simp add: chunk_used_def)
      moreover have "\<not> chunk_used w pool i (?e + j)" using j by (simp add: chunk_used_def)
      ultimately have "slab_inv w f ch (ds @ [Chunk s i (?e + j)]) ?p"
        using add_chunk [OF inv set_bit_inv [OF inv s j(1)] s] by simp
      then show ?thesis using run kept_same [of ?p pool] by (intro disjI2 exI [of _ "?e + j"] exI [of _ ?p]) simp
    qed
  next
    case True
    show ?thesis
    proof (cases "exp_scan w (page_start pool i) ?e [0..<?e] pool")
      case None
      then show ?thesis using True il pg by (simp add: try_page_def page_at_nat po)
    next
      case (Some kj)
      obtain k j where kj: "kj = (k, j)" by (cases kj)
      let ?c = "(k + 1) * 32 + j" and ?p = "entry_set w (page_start pool i) k j pool"
      from exp_scan_Some [OF Some [unfolded kj]] have k: "k < ?e" "j < 32" "\<not> sl_mem pool (entry_bit w (page_start pool i) k + j)" by auto
      have run: "try_page w (s + 3) (int i) pool = Some (Some (page_start pool i + ?c * 2 ^ (s + 3)), ?p)"
        using True Some kj il pg by (simp add: try_page_def page_at_nat Let_def po)
      have "?c mod 32 = j" using k(2) by (simp only: mod_mult_self3 mod_less)
      then have dm: "?c div 32 - 1 = k" "?c mod 32 = j" "\<not> ?c < 32" using k(2) by simp_all
      have bits: "slot_bits (s + 3) = 32 * (?e + 1)" using sb k(1) by auto
      have "?c < slot_bits (s + 3)" "?e \<le> ?c" using k sb unfolding bits by auto
      moreover have "chunk_used w ?p i ?c" "\<not> chunk_used w pool i ?c"
        unfolding chunk_used_def dm using dm(3) k(3) by (simp_all add: entry_set_def)
      moreover have "slab_inv w f ch ds ?p" unfolding entry_set_def by (rule inv_more_bits [OF inv]) simp
      ultimately have "slab_inv w f ch (ds @ [Chunk s i ?c]) ?p" using add_chunk [OF inv _ s] by blast
      moreover have "kept ds pool ?p" using kept_entry [OF inv s k(1,2)] .
      ultimately show ?thesis using run by (intro disjI2 exI [of _ ?c] exI [of _ ?p]) simp
    qed
  qed
qed

text \<open>What a call that serves slot \<open>s\<close> leaves behind: the invariant, with the new chunk when there is one.\<close>

definition served :: "bool \<Rightarrow> nat \<Rightarrow> owner list \<Rightarrow> shm_slab_pool \<Rightarrow> nat option \<Rightarrow> shm_slab_pool \<Rightarrow> bool" where
  "served w s ds pool res pool' \<longleftrightarrow> kept ds pool pool' \<and>
     (\<exists>f ch. case res of
        None \<Rightarrow> slab_inv w f ch ds pool'
      | Some off \<Rightarrow> \<exists>i k. off = page_start pool' i + k * 2 ^ (s + 3) \<and> slab_inv w f ch (ds @ [Chunk s i k]) pool')"

lemma served_trans: "served w s ds pool1 res pool' \<Longrightarrow> kept ds pool pool1 \<Longrightarrow> served w s ds pool res pool'"
  using kept_trans by (auto simp: served_def)

lemma served_nothing: "slab_inv w f ch ds pool \<Longrightarrow> served w s ds pool None pool"
  by (auto simp: served_def kept_same)

lemma served_chunk:
  assumes "slab_inv w f ch (ds @ [Chunk s i k]) pool'" and "kept ds pool pool'"
  shows "served w s ds pool (Some (page_start pool i + k * 2 ^ (s + 3))) pool'"
  using assms by (auto simp: served_def kept_def page_start_def)

lemma slot_loop_spec:
  assumes "slab_inv w f ch ds pool" and "s < 9" and "ch s = pre @ i # post"
  shows "\<exists>res pool'. slot_loop w ty (s + 3) (int i) pool = Some (res, pool') \<and> served w s ds pool res pool'"
  using assms
proof (induction "length (sl_pages pool) - f" arbitrary: f ch pool pre i post rule: less_induct)
  case less
  note outer = less.hyps
  show ?case
    using less.prems(3)
  proof (induction post arbitrary: pre i)
    case Nil
    note inv = less.prems(1) and s = less.prems(2)
    note frame = inv_frame [OF inv] and ch = inv_chains [OF inv]
    have i: "i \<in> set (ch s)" using Nil by simp
    have "page_chain (sl_pages pool) (sl_slots pool ! s) (ch s)" using ch s by (simp add: chains_ok_def)
    then have chain: "page_chain (sl_pages pool) (sl_slots pool ! s) (pre @ i # [])" unfolding Nil .
    note mid = page_chain_mid [OF chain]
    from try_page_spec [OF inv s i] show ?case
    proof
      assume none: "try_page w (s + 3) (int i) pool = Some (None, pool)"
      have loop: "slot_loop w ty (s + 3) (int i) pool =
          do {
            (new, pool2) \<leftarrow> shm_slab_alloc_pages 1 pool;
            (case new of
               None \<Rightarrow> Some (None, pool2)
             | Some k \<Rightarrow> do {
                 pool3 \<leftarrow> set_page (int i) (\<lambda>p. p\<lparr>sp_next := k\<rparr>) pool2;
                 pool4 \<leftarrow> set_page k (\<lambda>p. p\<lparr>sp_prev := int i\<rparr>) pool3;
                 pool5 \<leftarrow> open_page ty (s + 3) k pool4;
                 slot_loop w ty (s + 3) k pool5
               })
          }"
        using none mid by (subst slot_loop.simps) (simp add: page_at_nat)
      show ?case
      proof (cases "f < length (sl_pages pool)")
        case False
        then have "shm_slab_alloc_pages 1 pool = Some (None, pool)" using alloc_pages_run [OF frame, of 1] by simp
        then show ?thesis using loop served_nothing [OF inv] by auto
      next
        case True
        then have alloc: "shm_slab_alloc_pages 1 pool = Some (Some (int f), taken_pool f 1 pool)"
          using alloc_pages_run [OF frame, of 1] by simp
        from open_next [OF inv s Nil True, of ty] obtain p3 p4 p5 where
          r: "set_page (int i) (\<lambda>p. p\<lparr>sp_next := int f\<rparr>) (taken_pool f 1 pool) = Some p3"
            "set_page (int f) (\<lambda>p. p\<lparr>sp_prev := int i\<rparr>) p3 = Some p4" "open_page ty (s + 3) (int f) p4 = Some p5"
          and p5: "slab_inv w (f + 1) (ch(s := ch s @ [f])) ds p5" "length (sl_pages p5) = length (sl_pages pool)"
            "sl_data_offset p5 = sl_data_offset pool" "sl_pool_size p5 = sl_pool_size pool" "sl_mem p5 = sl_mem pool"
          by blast
        have "length (sl_pages p5) - (f + 1) < length (sl_pages pool) - f" using True p5(2) by simp
        from outer [OF this p5(1) s, of "ch s" f "[]"] obtain res pool' where
          "slot_loop w ty (s + 3) (int f) p5 = Some (res, pool')" "served w s ds p5 res pool'"
          by auto
        then show ?thesis using loop alloc r served_trans [OF _ kept_same [OF p5(3-5)]] by simp
      qed
    next
      assume "\<exists>k pool'. try_page w (s + 3) (int i) pool = Some (Some (page_start pool i + k * 2 ^ (s + 3)), pool') \<and>
         slab_inv w f ch (ds @ [Chunk s i k]) pool' \<and> kept ds pool pool'"
      then obtain k pool' where k: "try_page w (s + 3) (int i) pool = Some (Some (page_start pool i + k * 2 ^ (s + 3)), pool')"
          "slab_inv w f ch (ds @ [Chunk s i k]) pool'" "kept ds pool pool'"
        by blast
      have "slot_loop w ty (s + 3) (int i) pool = Some (Some (page_start pool i + k * 2 ^ (s + 3)), pool')"
        using k(1) by (subst slot_loop.simps) simp
      then show ?case using served_chunk [OF k(2,3)] by auto
    qed
  next
    case (Cons j post)
    note inv = less.prems(1) and s = less.prems(2)
    note ch = inv_chains [OF inv]
    have i: "i \<in> set (ch s)" using Cons.prems by simp
    have "page_chain (sl_pages pool) (sl_slots pool ! s) (ch s)" using ch s by (simp add: chains_ok_def)
    then have chain: "page_chain (sl_pages pool) (sl_slots pool ! s) (pre @ i # j # post)" unfolding Cons.prems .
    note mid = page_chain_mid [OF chain]
    from try_page_spec [OF inv s i] show ?case
    proof
      assume none: "try_page w (s + 3) (int i) pool = Some (None, pool)"
      have "slot_loop w ty (s + 3) (int i) pool = slot_loop w ty (s + 3) (int j) pool"
        using none mid by (subst slot_loop.simps) (simp add: page_at_nat)
      then show ?case using Cons.IH [of "pre @ [i]" j] Cons.prems by simp
    next
      assume "\<exists>k pool'. try_page w (s + 3) (int i) pool = Some (Some (page_start pool i + k * 2 ^ (s + 3)), pool') \<and>
         slab_inv w f ch (ds @ [Chunk s i k]) pool' \<and> kept ds pool pool'"
      then obtain k pool' where k: "try_page w (s + 3) (int i) pool = Some (Some (page_start pool i + k * 2 ^ (s + 3)), pool')"
          "slab_inv w f ch (ds @ [Chunk s i k]) pool'" "kept ds pool pool'"
        by blast
      have "slot_loop w ty (s + 3) (int i) pool = Some (Some (page_start pool i + k * 2 ^ (s + 3)), pool')"
        using k(1) by (subst slot_loop.simps) simp
      then show ?case using served_chunk [OF k(2,3)] by auto
    qed
  qed
qed

lemma slot_in_spec:
  assumes inv: "slab_inv w f ch ds pool" and s: "s < 9"
  shows "\<exists>res pool'. shm_slab_alloc_slot_in w s ty pool = Some (res, pool') \<and> served w s ds pool res pool'"
proof -
  note frame = inv_frame [OF inv] and ch = inv_chains [OF inv]
  have chain: "page_chain (sl_pages pool) (sl_slots pool ! s) (ch s)" using ch s by (simp add: chains_ok_def)
  have hd: "sl_min_shift pool = 3" "length (sl_slots pool) = 9" using frame by (simp_all add: slab_frame_def)
  show ?thesis
  proof (cases "ch s")
    case (Cons i js)
    then have "sl_slots pool ! s = int i" using chain by simp
    then have "shm_slab_alloc_slot_in w s ty pool = slot_loop w ty (s + 3) (int i) pool"
      using hd s by (simp add: shm_slab_alloc_slot_in_def)
    then show ?thesis using slot_loop_spec [OF inv s, of "[]" i js ty] Cons by simp
  next
    case Nil
    then have none: "sl_slots pool ! s = NULL_PAGE" using chain by simp
    show ?thesis
    proof (cases "f < length (sl_pages pool)")
      case False
      then have "shm_slab_alloc_pages 1 pool = Some (None, pool)" using alloc_pages_run [OF frame, of 1] by simp
      then show ?thesis using none hd s served_nothing [OF inv] by (auto simp: shm_slab_alloc_slot_in_def)
    next
      case True
      then have alloc: "shm_slab_alloc_pages 1 pool = Some (Some (int f), taken_pool f 1 pool)"
        using alloc_pages_run [OF frame, of 1] by simp
      from open_first [OF inv s Nil True, of ty] obtain p2 where p2: "open_page ty (s + 3) (int f) (taken_pool f 1 pool) = Some p2"
          "slab_inv w (f + 1) (ch(s := [f])) ds (p2\<lparr>sl_slots := (sl_slots p2)[s := int f]\<rparr>)"
          "sl_data_offset p2 = sl_data_offset pool" "sl_pool_size p2 = sl_pool_size pool" "sl_mem p2 = sl_mem pool"
        by blast
      from slot_loop_spec [OF p2(2) s, of "[]" f "[]" ty] obtain res pool' where
        "slot_loop w ty (s + 3) (int f) (p2\<lparr>sl_slots := (sl_slots p2)[s := int f]\<rparr>) = Some (res, pool')"
        "served w s ds (p2\<lparr>sl_slots := (sl_slots p2)[s := int f]\<rparr>) res pool'"
        by auto
      moreover have "kept ds pool (p2\<lparr>sl_slots := (sl_slots p2)[s := int f]\<rparr>)" using p2(3-5) by (intro kept_same) simp_all
      ultimately show ?thesis using none hd s alloc p2(1) served_trans by (simp add: shm_slab_alloc_slot_in_def)
    qed
  qed
qed

section \<open>An allocation\<close>

text \<open>What \<^verbatim>\<open>shm_slab_alloc\<close> leaves behind: nothing new, or an owner that starts at the answer and is large enough.\<close>

definition granted :: "bool \<Rightarrow> nat \<Rightarrow> owner list \<Rightarrow> shm_slab_pool \<Rightarrow> nat option \<Rightarrow> shm_slab_pool \<Rightarrow> bool" where
  "granted w sz ds pool res pool' \<longleftrightarrow> kept ds pool pool' \<and>
     (\<exists>f ch. case res of
        None \<Rightarrow> slab_inv w f ch ds pool'
      | Some off \<Rightarrow> \<exists>d. off = fst (owner_bytes pool' d) \<and> sz \<le> snd (owner_bytes pool' d) \<and> slab_inv w f ch (ds @ [d]) pool' \<and>
          (\<forall>x. 8 * off \<le> x \<and> x < 8 * (off + sz) \<longrightarrow> \<not> sl_mem pool' x))"

lemma owner_bytes_mem [simp]: "owner_bytes (pool\<lparr>sl_mem := m\<rparr>) d = owner_bytes pool d"
  by (cases d) simp_all

lemma kept_zero:
  assumes inv: "slab_inv w f ch (ds @ [d]) pool" and n: "n \<le> snd (owner_bytes pool d)"
  shows "kept ds pool (pool\<lparr>sl_mem := (\<lambda>a. if 8 * fst (owner_bytes pool d) \<le> a \<and> a < 8 * (fst (owner_bytes pool d) + n)
    then False else sl_mem pool a)\<rparr>)"
proof -
  have "bytes_apart (owner_bytes pool e) (owner_bytes pool d)" if "e \<in> set ds" for e
    using inv that by (intro owners_apart [OF _ _ inv_chains [OF inv]]) (auto simp: slab_inv_def sorted_wrt_append)
  then show ?thesis using n by (fastforce simp: kept_def bytes_apart_def)
qed

lemma zero_granted:
  assumes inv: "slab_inv w f ch (ds @ [d]) pool'" and n: "n \<le> snd (owner_bytes pool' d)" and sz: "sz \<le> n"
    and same: "kept ds pool pool'"
  shows "\<exists>pool2. mem_zero (fst (owner_bytes pool' d)) n pool' = Some pool2 \<and>
    granted w sz ds pool (Some (fst (owner_bytes pool' d))) pool2"
proof -
  have d: "owner_ok w f ch pool' d" using inv by (simp add: slab_inv_def)
  from owner_inside [OF d inv_frame [OF inv] inv_chains [OF inv]]
  have fits: "fst (owner_bytes pool' d) + n \<le> sl_pool_size pool'" using n by simp
  define m where "m = (\<lambda>a. if 8 * fst (owner_bytes pool' d) \<le> a \<and> a < 8 * (fst (owner_bytes pool' d) + n)
    then False else sl_mem pool' a)"
  have zero: "\<not> m x" if "8 * fst (owner_bytes pool' d) \<le> x" "x < 8 * (fst (owner_bytes pool' d) + sz)" for x
    using that sz by (simp add: m_def)
  have "slab_inv w f ch (ds @ [d]) (pool'\<lparr>sl_mem := m\<rparr>)"
    by (rule inv_mem [OF inv d]) (use n in \<open>auto simp: m_def\<close>)
  moreover have "kept ds pool' (pool'\<lparr>sl_mem := m\<rparr>)" unfolding m_def using inv n by (rule kept_zero)
  ultimately have "granted w sz ds pool (Some (fst (owner_bytes pool' d))) (pool'\<lparr>sl_mem := m\<rparr>)"
    using n sz kept_trans [OF same] zero by (auto simp: granted_def intro!: exI [of _ f] exI [of _ ch] exI [of _ d])
  moreover have "mem_zero (fst (owner_bytes pool' d)) n pool' = Some (pool'\<lparr>sl_mem := m\<rparr>)"
    using fits by (simp add: mem_zero_def m_def)
  ultimately show ?thesis by blast
qed

lemma shift_loop_bounds:
  "n < 2 ^ Suc (shift_loop n)" "n < 2 ^ Suc k \<Longrightarrow> shift_loop n \<le> k"
proof -
  show "n < 2 ^ Suc (shift_loop n)"
  proof (induction n rule: shift_loop.induct)
    case (1 n)
    show ?case
    proof (cases "n div 2 = 0")
      case False
      from 1 [OF False] have "n < 2 * 2 ^ Suc (shift_loop (n div 2))" by simp
      then show ?thesis using False by (subst shift_loop.simps) simp
    qed (simp add: shift_loop.simps [of n])
  qed
  show "shift_loop n \<le> k" if "n < 2 ^ Suc k"
    using that
  proof (induction k arbitrary: n)
    case 0
    then show ?case by (simp add: shift_loop.simps [of n])
  next
    case (Suc k)
    then have "shift_loop (n div 2) \<le> k" by (intro Suc.IH) simp
    then show ?case by (subst shift_loop.simps) simp
  qed
qed

lemma slot_of_fits:
  assumes "slab_frame f pool" and "sz < 2048"
  shows "slot_of pool sz < 9" "max sz (sl_min_size pool) \<le> 2 ^ (slot_of pool sz + 3)"
proof -
  have hd: "sl_min_size pool = 8" "sl_min_shift pool = 3" using assms(1) by (simp_all add: slab_frame_def)
  have "shift_loop (sz - 1) \<le> 10" using assms(2) by (intro shift_loop_bounds(2)) simp
  then have "Suc (shift_loop (sz - 1)) - 3 \<le> 8" by simp
  then show "slot_of pool sz < 9" unfolding slot_of_def hd by (simp del: One_nat_def)
  show "max sz (sl_min_size pool) \<le> 2 ^ (slot_of pool sz + 3)"
  proof (cases "8 < sz")
    case False
    then show ?thesis using hd by (simp add: slot_of_def)
  next
    case True
    have lt: "sz - 1 < 2 ^ Suc (shift_loop (sz - 1))" by (rule shift_loop_bounds(1))
    have "3 \<le> Suc (shift_loop (sz - 1))"
    proof (rule ccontr)
      assume "\<not> ?thesis"
      then have "(2 :: nat) ^ Suc (shift_loop (sz - 1)) \<le> 2 ^ 2" by (intro power_increasing) simp_all
      then show False using lt True by simp
    qed
    then have "slot_of pool sz + 3 = Suc (shift_loop (sz - 1))" using True hd by (simp add: slot_of_def)
    then have "sz \<le> 2 ^ (slot_of pool sz + 3)" using lt by (simp only:)
    then show ?thesis using True hd(1) by simp
  qed
qed

lemma alloc_slot_spec:
  assumes inv: "slab_inv w f ch ds pool" and sz: "sz < 2048"
  shows "\<exists>res pool'. shm_slab_alloc_slot w sz pool = Some (res, pool') \<and> granted w sz ds pool res pool'"
proof -
  note fits = slot_of_fits [OF inv_frame [OF inv] sz]
  let ?s = "slot_of pool sz" and ?n = "max sz (sl_min_size pool)"
  from slot_in_spec [OF inv fits(1), of "shm_slab_get_alloc_type ?n"] obtain res pool1 where
    r: "shm_slab_alloc_slot_in w ?s (shm_slab_get_alloc_type ?n) pool = Some (res, pool1)" "served w ?s ds pool res pool1"
    by blast
  show ?thesis
  proof (cases res)
    case None
    then show ?thesis using r by (auto simp: shm_slab_alloc_slot_def served_def granted_def Let_def)
  next
    case (Some off)
    then obtain f' ch' i k where off: "off = page_start pool1 i + k * 2 ^ (?s + 3)"
        and inv1: "slab_inv w f' ch' (ds @ [Chunk ?s i k]) pool1"
        and same: "kept ds pool pool1"
      using r(2) by (auto simp: served_def)
    have "?n \<le> snd (owner_bytes pool1 (Chunk ?s i k))" using fits(2) by simp
    from zero_granted [OF inv1 this _ same, of sz] show ?thesis
      using r(1) Some off by (auto simp: shm_slab_alloc_slot_def Let_def)
  qed
qed

lemma page_count:
  assumes "0 < sz" and "sz < 4294963200"
    and n_def: "n = to_size (s32 (int ((sz + 4096 - 1) mod size_mod w div 4096)))"
  shows "0 < n" "sz \<le> n * 4096"
proof -
  let ?q = "(sz + 4096 - 1) div 4096"
  have "(sz + 4096 - 1) mod size_mod w = sz + 4096 - 1" using assms(2) by (intro mod_less) (simp add: size_mod_def)
  moreover have "?q < 2147483648" using assms(2) by (intro less_mult_imp_div_less) simp
  ultimately have n: "n = ?q" unfolding n_def by (simp add: s32_id to_size_id)
  show "0 < n" unfolding n using assms(1) by (simp add: div_greater_zero_iff)
  show "sz \<le> n * 4096"
    using div_mult_mod_eq [of "sz + 4096 - 1" 4096] mod_less_divisor [of 4096 "sz + 4096 - 1"] unfolding n by linarith
qed

lemma alloc_spec:
  assumes inv: "slab_inv w f ch ds pool" and sz: "sz < 4294963200"
  shows "\<exists>res pool'. shm_slab_alloc w sz pool = Some (res, pool') \<and> granted w sz ds pool res pool'"
proof -
  have refused: "granted w sz ds pool None pool" using inv by (auto simp: granted_def kept_same)
  consider "sz = 0" | "2048 \<le> sz" | "0 < sz" "sz < 2048" by linarith
  then show ?thesis
  proof cases
    case 1
    then have "shm_slab_alloc w sz pool = Some (None, pool)" by (simp add: shm_slab_alloc_def)
    with refused show ?thesis by (intro exI conjI)
  next
    case 3
    then show ?thesis using alloc_slot_spec [OF inv] by (simp add: shm_slab_alloc_def)
  next
    case 2
    define n where "n = to_size (s32 (int ((sz + 4096 - 1) mod size_mod w div 4096)))"
    have n: "0 < n" "sz \<le> n * 4096" using page_count [of sz n w] 2 sz by (simp_all add: n_def)
    have alloc: "shm_slab_alloc w sz pool =
        do {
          (new, pool1) \<leftarrow> shm_slab_alloc_pages n pool;
          (case new of
             None \<Rightarrow> Some (None, pool1)
           | Some i \<Rightarrow> do {
               pg \<leftarrow> page_at pool1 i;
               let off = page_off pool1 (sp_index pg);
               map_option (Pair (Some off)) (mem_zero off sz pool1)
             })
        }"
      using 2 by (simp add: shm_slab_alloc_def n_def)
    note run = alloc_pages_run [OF inv_frame [OF inv] n(1)]
    show ?thesis
    proof (cases "f + n \<le> length (sl_pages pool)")
      case False
      then show ?thesis using refused run alloc by simp
    next
      case True
      let ?p = "taken_pool f n pool"
      have f: "f < length (sl_pages pool)" using True n(1) by simp
      have at: "page_at ?p (int f) = Some (sl_pages ?p ! f)" using f by (intro page_at_nat) (simp add: taken_pages_simps)
      have ix: "sp_index (sl_pages ?p ! f) = f"
        using f inv_frame [OF inv] by (simp add: taken_pages_simps slab_frame_def)
      have "kept ds pool ?p" by (rule kept_same) simp_all
      with zero_granted [OF taken_inv [OF inv n(1) True], of sz sz pool] n(2) obtain pool2 where
        "mem_zero (page_start ?p f) sz ?p = Some pool2" "granted w sz ds pool (Some (page_start ?p f)) pool2"
        by auto
      moreover have "page_off ?p f = page_start ?p f"
        using frame_off [OF inv_frame [OF inv] f] by (simp add: page_off_def page_start_def taken_pool_def)
      ultimately show ?thesis using alloc run True at ix by (auto simp: page_start_def)
    qed
  qed
qed

section \<open>Sequences of allocations\<close>

text \<open>Calls of a program that releases refused: it allocates, and it writes into the memory it was given (\<open>Store a v\<close> writes
  bit \<open>a\<close> of the pool).  The state is the list of the regions it held_by, each an offset and a size, and the pool.\<close>

datatype slab_op = Alloc nat | Store nat bool

fun slab_step :: "bool \<Rightarrow> slab_op \<Rightarrow> (nat \<times> nat) list \<times> shm_slab_pool \<Rightarrow> ((nat \<times> nat) list \<times> shm_slab_pool) option" where
  "slab_step w (Alloc sz) (rs, pool) =
     do {
       (p, pool') \<leftarrow> shm_slab_alloc w sz pool;
       Some (case p of None \<Rightarrow> rs | Some off \<Rightarrow> rs @ [(off, sz)], pool')
     }"
| "slab_step w (Store a v) (rs, pool) =
     (if \<exists>(off, n) \<in> set rs. 8 * off \<le> a \<and> a < 8 * (off + n) then Some (rs, pool\<lparr>sl_mem := (sl_mem pool)(a := v)\<rparr>)
      else Some (rs, pool))"

fun slab_run :: "bool \<Rightarrow> slab_op list \<Rightarrow> (nat \<times> nat) list \<times> shm_slab_pool \<Rightarrow> ((nat \<times> nat) list \<times> shm_slab_pool) option" where
  "slab_run w [] st = Some st"
| "slab_run w (x # xs) st = do { st' \<leftarrow> slab_step w x st; slab_run w xs st' }"

fun slab_op_fits :: "slab_op \<Rightarrow> bool" where
  "slab_op_fits (Alloc sz) \<longleftrightarrow> sz < 4294963200"
| "slab_op_fits (Store a v) \<longleftrightarrow> True"

definition held_by :: "shm_slab_pool \<Rightarrow> nat \<times> nat \<Rightarrow> owner \<Rightarrow> bool" where
  "held_by pool r d \<longleftrightarrow> fst r = fst (owner_bytes pool d) \<and> snd r \<le> snd (owner_bytes pool d)"

definition regions_ok :: "bool \<Rightarrow> (nat \<times> nat) list \<times> shm_slab_pool \<Rightarrow> bool" where
  "regions_ok w st \<longleftrightarrow> (\<exists>f ch ds. slab_inv w f ch ds (snd st) \<and> list_all2 (held_by (snd st)) (fst st) ds)"

lemma held_by_cong: "sl_data_offset pool' = sl_data_offset pool \<Longrightarrow> held_by pool' = held_by pool"
  by (intro ext) (simp add: held_by_def owner_bytes_cong [of pool' pool])

lemma list_all2_left: "list_all2 P xs ys \<Longrightarrow> x \<in> set xs \<Longrightarrow> \<exists>y \<in> set ys. P x y"
  by (induction rule: list_all2_induct) auto

lemma regions_alloc:
  assumes ok: "regions_ok w (rs, pool)" and sz: "sz < 4294963200"
  shows "\<exists>res pool'. shm_slab_alloc w sz pool = Some (res, pool') \<and>
    regions_ok w (case res of None \<Rightarrow> rs | Some off \<Rightarrow> rs @ [(off, sz)], pool') \<and>
    sl_data_offset pool' = sl_data_offset pool \<and> sl_pool_size pool' = sl_pool_size pool \<and>
    (\<forall>(off, n) \<in> set rs. \<forall>x. 8 * off \<le> x \<and> x < 8 * (off + n) \<longrightarrow> sl_mem pool' x = sl_mem pool x) \<and>
    (\<forall>off. res = Some off \<longrightarrow> (\<forall>x. 8 * off \<le> x \<and> x < 8 * (off + sz) \<longrightarrow> \<not> sl_mem pool' x))"
proof -
  from ok obtain f ch ds where inv: "slab_inv w f ch ds pool" and rs: "list_all2 (held_by pool) rs ds"
    unfolding regions_ok_def by auto
  from alloc_spec [OF inv sz] obtain res pool' where
    r: "shm_slab_alloc w sz pool = Some (res, pool')" "granted w sz ds pool res pool'" by blast
  have kept: "kept ds pool pool'" using r(2) by (simp add: granted_def)
  then have same: "sl_data_offset pool' = sl_data_offset pool" "sl_pool_size pool' = sl_pool_size pool" by (simp_all add: kept_def)
  note rs' = rs [folded held_by_cong [OF same(1)]]
  have "sl_mem pool' x = sl_mem pool x" if "(off, n) \<in> set rs" "8 * off \<le> x" "x < 8 * (off + n)" for off n x
  proof -
    from list_all2_left [OF rs that(1)] obtain d where "d \<in> set ds" "held_by pool (off, n) d" by blast
    then show ?thesis using kept that(2,3) by (auto simp: kept_def held_by_def)
  qed
  moreover have "regions_ok w (case res of None \<Rightarrow> rs | Some off \<Rightarrow> rs @ [(off, sz)], pool')"
  proof (cases res)
    case None
    then show ?thesis using r(2) rs' by (auto simp: granted_def regions_ok_def)
  next
    case (Some off)
    then obtain f' ch' d where "held_by pool' (off, sz) d" "slab_inv w f' ch' (ds @ [d]) pool'"
      using r(2) by (auto simp: granted_def held_by_def)
    then show ?thesis using Some rs' by (auto simp: regions_ok_def intro!: exI [of _ "ds @ [d]"] list_all2_appendI)
  qed
  ultimately show ?thesis using r same by (auto simp: granted_def)
qed

lemma regions_write:
  assumes ok: "regions_ok w (rs, pool)" and mem: "(off, n) \<in> set rs"
    and same: "\<And>x. x < 8 * off \<or> 8 * (off + n) \<le> x \<Longrightarrow> m x = sl_mem pool x"
  shows "regions_ok w (rs, pool\<lparr>sl_mem := m\<rparr>)"
proof -
  from ok obtain f ch ds where inv: "slab_inv w f ch ds pool" and rs: "list_all2 (held_by pool) rs ds"
    unfolding regions_ok_def by auto
  obtain d where d: "d \<in> set ds" "held_by pool (off, n) d" using list_all2_left [OF rs mem] by blast
  then have "owner_ok w f ch pool d" using inv by (simp add: slab_inv_def)
  then have "slab_inv w f ch ds (pool\<lparr>sl_mem := m\<rparr>)"
    by (rule inv_mem [OF inv]) (use d(2) same in \<open>auto simp: held_by_def\<close>)
  moreover have "list_all2 (held_by (pool\<lparr>sl_mem := m\<rparr>)) rs ds" using rs by (subst held_by_cong [of _ pool]) simp_all
  ultimately show ?thesis by (auto simp: regions_ok_def)
qed

lemma step_ok:
  assumes ok: "regions_ok w st" and x: "slab_op_fits x"
  shows "\<exists>st'. slab_step w x st = Some st' \<and> regions_ok w st' \<and>
    sl_data_offset (snd st') = sl_data_offset (snd st) \<and> sl_pool_size (snd st') = sl_pool_size (snd st)"
proof -
  obtain rs pool where st: "st = (rs, pool)" by (cases st)
  show ?thesis
  proof (cases x)
    case (Alloc sz)
    with x regions_alloc [OF ok [unfolded st], of sz] st show ?thesis by auto
  next
    case (Store a v)
    show ?thesis
    proof (cases "\<exists>(off, n) \<in> set rs. 8 * off \<le> a \<and> a < 8 * (off + n)")
      case True
      then obtain off n where mem: "(off, n) \<in> set rs" "8 * off \<le> a" "a < 8 * (off + n)" by auto
      have "regions_ok w (rs, pool\<lparr>sl_mem := (sl_mem pool)(a := v)\<rparr>)"
        by (rule regions_write [OF ok [unfolded st] mem(1)]) (use mem(2,3) in auto)
      then show ?thesis using Store st True by auto
    next
      case False
      then show ?thesis using Store st ok by simp
    qed
  qed
qed

lemma run_ok:
  "regions_ok w st \<Longrightarrow> \<forall>x \<in> set xs. slab_op_fits x \<Longrightarrow>
   \<exists>st'. slab_run w xs st = Some st' \<and> regions_ok w st' \<and>
     sl_data_offset (snd st') = sl_data_offset (snd st) \<and> sl_pool_size (snd st') = sl_pool_size (snd st)"
proof (induction xs arbitrary: st)
  case (Cons x xs)
  from step_ok [OF Cons.prems(1), of x] Cons.prems(2) obtain st1 where
    st1: "slab_step w x st = Some st1" "regions_ok w st1"
      "sl_data_offset (snd st1) = sl_data_offset (snd st)" "sl_pool_size (snd st1) = sl_pool_size (snd st)"
    by auto
  from Cons.IH [OF st1(2)] Cons.prems(2) show ?case using st1 by auto
qed simp

lemma regions_apart:
  assumes "regions_ok w (rs, pool)"
  shows "sorted_wrt bytes_apart rs \<and> (\<forall>(off, n) \<in> set rs. sl_data_offset pool \<le> off \<and> off + n \<le> sl_pool_size pool)"
proof -
  from assms obtain f ch ds where inv: "slab_inv w f ch ds pool" and rs: "list_all2 (held_by pool) rs ds"
    by (auto simp: regions_ok_def)
  have ok: "owner_ok w f ch pool d" if "d \<in> set ds" for d using inv that by (simp add: slab_inv_def)
  have len: "length rs = length ds" using rs by (rule list_all2_lengthD)
  have nth: "held_by pool (rs ! i) (ds ! i)" if "i < length rs" for i using rs that by (rule list_all2_nthD)
  have "bytes_apart (rs ! i) (rs ! j)" if "i < j" "j < length rs" for i j
  proof -
    have "apart (ds ! i) (ds ! j)" using inv that len by (simp add: slab_inv_def sorted_wrt_iff_nth_less)
    from owners_apart [OF ok ok inv_chains [OF inv] this] that len nth [of i] nth [of j]
    show ?thesis by (auto simp: bytes_apart_def held_by_def)
  qed
  moreover have "sl_data_offset pool \<le> fst (rs ! i) \<and> fst (rs ! i) + snd (rs ! i) \<le> sl_pool_size pool" if "i < length rs" for i
    using owner_inside [OF ok inv_frame [OF inv] inv_chains [OF inv], of "ds ! i"] nth [OF that] that len by (auto simp: held_by_def)
  ultimately show ?thesis by (fastforce simp: sorted_wrt_iff_nth_less in_set_conv_nth)
qed

lemma init_ok:
  assumes "shm_slab_init w raw pool0 = (0, pool)" and "\<And>i. length (sp_bitmap (raw i)) = 32" and "sl_pool_size pool0 \<le> 4294967296"
  shows "regions_ok w ([], pool)"
proof -
  let ?off = "sizeof_pool w + SLOT_NUM * SIZEOF_PAGE" and ?size = "sl_pool_size pool0"
  define n where "n = (?size - ?off) div (PAGE_SIZE + SIZEOF_PAGE)"
  have ok: "\<not> ?size < ?off" "n \<noteq> 0" using assms(1) by (auto simp: shm_slab_init_def Let_def n_def split: if_splits)
  have "n * (PAGE_SIZE + SIZEOF_PAGE) \<le> ?size - ?off" unfolding n_def by (rule div_times_less_eq_dividend)
  then have fits: "?off + n * SIZEOF_PAGE + n * PAGE_SIZE \<le> ?size" using ok(1) by simp
  have pool: "sl_min_size pool = 8" "sl_min_shift pool = 3" "sl_slots pool = replicate 9 NULL_PAGE" "sl_pool_size pool = ?size"
      "sl_data_offset pool = ?off + n * SIZEOF_PAGE" "sl_free_next pool = 0" "length (sl_pages pool) = n"
    and pages: "sp_pages (sl_pages pool ! 0) = n" "sp_next (sl_pages pool ! 0) = NULL_PAGE" "sp_prev (sl_pages pool ! 0) = FREE_PAGE"
      "\<And>i. i < n \<Longrightarrow> sp_index (sl_pages pool ! i) = i \<and> length (sp_bitmap (sl_pages pool ! i)) = 32"
    using assms ok unfolding shm_slab_init_def Let_def n_def [symmetric] by (auto simp: nth_list_update)
  have "slab_frame 0 pool" unfolding slab_frame_def using pool pages fits ok(2) assms(3) by simp
  moreover have "chains_ok 0 (\<lambda>s. []) pool" by (simp add: chains_ok_def pool(3))
  ultimately have "slab_inv w 0 (\<lambda>s. []) [] pool" by (simp add: slab_inv_def)
  then show ?thesis by (auto simp: regions_ok_def)
qed

section \<open>Properties\<close>

text \<open>C16: In a pool of at most 4 GB, while nothing is released, the calls always answer, and the regions they hand out, one for
  every allocation that does not answer NULL, lie in the data area of the pool and are pairwise disjoint, whatever the
  program writes into its own regions in between: no write into a region can damage the bitmaps that stand in the first
  bytes of a page.  The sizes asked for are below 4 GB less a page, so that neither the rounding to pages nor the page
  count in an \<^verbatim>\<open>int\<close> wraps around; in a larger pool the 32-bit offset of a page does.\<close>

theorem allocations_disjoint:
  assumes "shm_slab_init w raw pool0 = (0, pool)" and "\<And>i. length (sp_bitmap (raw i)) = 32" and "sl_pool_size pool0 \<le> 4294967296"
    and "\<forall>x \<in> set xs. slab_op_fits x"
  shows "\<exists>rs pool'. slab_run w xs ([], pool) = Some (rs, pool') \<and> sorted_wrt bytes_apart rs \<and>
    (\<forall>(off, n) \<in> set rs. sl_data_offset pool \<le> off \<and> off + n \<le> sl_pool_size pool)"
proof -
  from run_ok [OF init_ok [OF assms(1-3)] assms(4)] obtain rs pool' where
    "slab_run w xs ([], pool) = Some (rs, pool')" "regions_ok w (rs, pool')"
    "sl_data_offset pool' = sl_data_offset pool" "sl_pool_size pool' = sl_pool_size pool"
    by auto
  with regions_apart [of w rs pool'] show ?thesis by auto
qed

text \<open>In a larger pool the first page and the page 4 GB behind it have the same address.\<close>

theorem page_offset_wraps: "page_off pool 1048576 = page_off pool 0 \<and> page_start pool 1048576 = page_start pool 0 + 4294967296"
  by (simp add: page_off_def page_start_def)

definition raw_page :: "nat \<Rightarrow> shm_slab_page" where
  "raw_page i = \<lparr>sp_index = 0, sp_pages = 0, sp_shift = 0, sp_type = ALLOC_UNKNOWN, sp_bitmap = replicate 32 False,
     sp_rbitmap = replicate 32 False, sp_next = 0, sp_prev = 0\<rparr>"

definition raw_pool :: "nat \<Rightarrow> shm_slab_pool" where
  "raw_pool n = \<lparr>sl_pool_size = n, sl_min_size = 0, sl_min_shift = 0, sl_data_offset = 0, sl_end_offset = 0, sl_slot_offset = 0,
     sl_page_offset = 0, sl_free_pages = 0, sl_free_next = 0, sl_free_prev = 0, sl_slots = [], sl_pages = [], sl_mem = (\<lambda>a. False)\<rparr>"

theorem allocations_disjoint_witness:
  "\<exists>rs pool'. slab_run True [Alloc 8192, Alloc 20, Store 5000 True, Alloc 24] ([], snd (shm_slab_init True raw_page (raw_pool 33340))) = Some (rs, pool') \<and>
     sorted_wrt bytes_apart rs \<and>
     (\<forall>(off, n) \<in> set rs. sl_data_offset (snd (shm_slab_init True raw_page (raw_pool 33340))) \<le> off \<and>
        off + n \<le> sl_pool_size (snd (shm_slab_init True raw_page (raw_pool 33340))))"
proof (rule allocations_disjoint [of _ raw_page "raw_pool 33340"])
  show "shm_slab_init True raw_page (raw_pool 33340) = (0, snd (shm_slab_init True raw_page (raw_pool 33340)))"
    by (simp add: shm_slab_init_def raw_pool_def sizeof_pool_def Let_def)
qed (simp_all add: raw_page_def raw_pool_def)

text \<open>C24: With releases the pages of a run are handed out twice.  Run \<open>b\<close> of \<open>m'\<close> pages is the only free run, run \<open>a\<close> of \<open>m\<close>
  pages before it is released (the address the release computes for it lies in the pool), and a part of it is allocated again: the rest of it takes its place at the front of the free
  list, but \<open>b\<close> still names \<open>a\<close> as its predecessor.  When \<open>b\<close> is allocated, it is taken off the list at \<open>a\<close> and stays on it: the
  next allocation of \<open>m'\<close> pages answers \<open>b\<close> again.\<close>

theorem run_handed_out_twice:
  assumes a: "a + m \<le> b" "b < length (sl_pages pool)" "sp_pages (sl_pages pool ! a) = m"
    and b: "sl_free_next pool = int b" "sp_pages (sl_pages pool ! b) = m'" "sp_next (sl_pages pool ! b) = NULL_PAGE"
      "sp_prev (sl_pages pool ! b) = FREE_PAGE"
    and n: "0 < n" "n < m" "m < m'" and fits: "page_addr pool (int a) = Some start" "start + PAGE_SIZE \<le> sl_pool_size pool"
  shows "\<exists>p0 p1 p2 p3. shm_slab_free_pages (int a) pool = Some (0, p0) \<and> shm_slab_alloc_pages n p0 = Some (Some (int a), p1) \<and>
    shm_slab_alloc_pages m' p1 = Some (Some (int b), p2) \<and> shm_slab_alloc_pages m' p2 = Some (Some (int b), p3)"
proof -
  have lt: "a < length (sl_pages pool)" "a + n < length (sl_pages pool)" "a \<noteq> b" "a + n \<noteq> b" "a + n \<noteq> a" "a < a + n"
    using a n by simp_all
  have i: "int a + int n = int (a + n)" by simp
  define p0 where "p0 = pool\<lparr>sl_mem := (\<lambda>x. if 8 * start \<le> x \<and> x < 8 * (start + PAGE_SIZE) then False else sl_mem pool x),
    sl_pages := (sl_pages pool)[a := (sl_pages pool ! a)\<lparr>sp_bitmap := replicate 32 False, sp_shift := PAGE_SHIFT,
      sp_type := ALLOC_UNKNOWN, sp_next := int b, sp_prev := FREE_PAGE\<rparr>, b := (sl_pages pool ! b)\<lparr>sp_prev := int a\<rparr>],
    sl_free_next := int a\<rparr>"
  have free: "shm_slab_free_pages (int a) pool = Some (0, p0)"
    using lt a b fits by (cases pool)
      (simp add: shm_slab_free_pages_def set_page_nat mem_zero_def page_at_nat p0_def list_update_swap)
  have p0: "sl_free_next p0 = int a" "length (sl_pages p0) = length (sl_pages pool)"
      "sp_pages (sl_pages p0 ! a) = m" "sp_next (sl_pages p0 ! a) = int b" "sp_prev (sl_pages p0 ! a) = FREE_PAGE"
      "sp_pages (sl_pages p0 ! b) = m'" "sp_next (sl_pages p0 ! b) = NULL_PAGE" "sp_prev (sl_pages p0 ! b) = int a"
    using lt a b by (simp_all add: p0_def)
  have scan0: "free_scan p0 n (int a) = Some (Some (int a))"
    using p0 lt n by (subst free_scan.simps) (simp add: page_at_nat)
  have "\<exists>p1. cut_run n (int a) p0 = Some p1 \<and> sl_free_next p1 = int (a + n) \<and> length (sl_pages p1) = length (sl_pages pool) \<and>
      sp_pages (sl_pages p1 ! (a + n)) = m - n \<and> sp_next (sl_pages p1 ! (a + n)) = int b \<and>
      sl_pages p1 ! b = sl_pages p0 ! b"
    unfolding cut_run_def i using p0 lt by (simp add: page_at_nat set_page_nat set_next_of_def del: of_nat_add)
  then obtain p1 where cut: "cut_run n (int a) p0 = Some p1" and p1: "sl_free_next p1 = int (a + n)"
      "length (sl_pages p1) = length (sl_pages pool)" "sp_pages (sl_pages p1 ! (a + n)) = m - n" "sp_next (sl_pages p1 ! (a + n)) = int b"
      "sl_pages p1 ! b = sl_pages p0 ! b"
    by blast
  have alloc1: "shm_slab_alloc_pages n p0 = Some (Some (int a), p1)"
    using p0 scan0 cut lt n by (simp add: shm_slab_alloc_pages_def page_at_nat)
  have scan: "free_scan p m' (int (a + n)) = Some (Some (int b))"
    if "length (sl_pages p) = length (sl_pages pool)" "sp_pages (sl_pages p ! (a + n)) = m - n"
      "sp_next (sl_pages p ! (a + n)) = int b" "sp_pages (sl_pages p ! b) = m'" for p
    using that lt a n by (subst free_scan.simps) (simp add: page_at_nat free_scan.simps [of p m' "int b"] del: of_nat_add)
  have "\<exists>p2. take_run (int b) p1 = Some p2 \<and> sl_free_next p2 = int (a + n) \<and> length (sl_pages p2) = length (sl_pages pool) \<and>
      sl_pages p2 ! (a + n) = sl_pages p1 ! (a + n) \<and> sp_pages (sl_pages p2 ! b) = m' \<and> sp_next (sl_pages p2 ! b) = NULL_PAGE \<and>
      sp_prev (sl_pages p2 ! b) = NULL_PAGE"
    unfolding take_run_def using p0 p1 lt a by (simp add: page_at_nat set_page_nat set_next_of_def del: of_nat_add)
  then obtain p2 where take: "take_run (int b) p1 = Some p2" and p2: "sl_free_next p2 = int (a + n)"
      "length (sl_pages p2) = length (sl_pages pool)" "sl_pages p2 ! (a + n) = sl_pages p1 ! (a + n)"
      "sp_pages (sl_pages p2 ! b) = m'" "sp_next (sl_pages p2 ! b) = NULL_PAGE" "sp_prev (sl_pages p2 ! b) = NULL_PAGE"
    by blast
  have alloc2: "shm_slab_alloc_pages m' p1 = Some (Some (int b), p2)"
    using scan [of p1] p0 p1 take a by (simp add: shm_slab_alloc_pages_def page_at_nat)
  have "\<exists>p3. take_run (int b) p2 = Some p3"
    unfolding take_run_def using p2 lt a by (simp add: page_at_nat set_page_nat set_next_of_def)
  then have "\<exists>p3. shm_slab_alloc_pages m' p2 = Some (Some (int b), p3)"
    using scan [of p2] p1 p2 a by (auto simp: shm_slab_alloc_pages_def page_at_nat)
  then show ?thesis using free alloc1 alloc2 by blast
qed

text \<open>A pool of eight pages: run 0 of 2 pages and run 2 of 3 pages are in use, run 5 of 3 pages is free.\<close>

definition example_pool :: shm_slab_pool where
  "example_pool = (raw_pool 40000)\<lparr>sl_min_shift := 3, sl_data_offset := 572, sl_end_offset := 40000, sl_free_next := 5, sl_slots := replicate 9 NULL_PAGE,
     sl_pages := map (\<lambda>i. (raw_page i)\<lparr>sp_index := i, sp_pages := (if i = 0 then 2 else 3), sp_next := NULL_PAGE, sp_prev := FREE_PAGE\<rparr>) [0..<8]\<rparr>"

theorem run_handed_out_twice_witness:
  "\<exists>p0 p1 p2 p3. shm_slab_free_pages (int 0) example_pool = Some (0, p0) \<and> shm_slab_alloc_pages 1 p0 = Some (Some (int 0), p1) \<and>
    shm_slab_alloc_pages 3 p1 = Some (Some (int 5), p2) \<and> shm_slab_alloc_pages 3 p2 = Some (Some (int 5), p3)"
  by (rule run_handed_out_twice [where m = 2 and start = 572]) (simp_all add: example_pool_def raw_pool_def page_addr_def)

text \<open>With pointers of 64 bits a release of a chunk marks another one as free: the extended bitmaps are 64 bits apart for the
  allocation and 32 bits apart for the release.  Releasing chunk \<open>96 + j\<close> of a page of 32-byte chunks leaves that chunk
  marked, and clears the mark of chunk \<open>64 + j\<close>, which an allocation then hands out a second time.\<close>

theorem release_frees_another_chunk:
  assumes i: "i < length (sl_pages pool)" "i < 524288" and page: "sp_type (sl_pages pool ! i) = ALLOC_SMALL" "sp_shift (sl_pages pool ! i) = 5"
    and j: "j < 32" and off: "off = page_start pool i + (96 + j) * 32" "off + 32 \<le> sl_pool_size pool" "off \<le> sl_end_offset pool"
    and used: "chunk_used True pool i (96 + j)" "chunk_used True pool i (64 + j)" "chunk_used True pool i 32"
  shows "\<exists>pool'. shm_slab_free off pool = Some (0, pool') \<and> chunk_used True pool' i (96 + j) \<and> \<not> chunk_used True pool' i (64 + j)"
proof -
  have rem: "(96 + j) * 32 < 4096" using j by simp
  have ix: "(off - sl_data_offset pool) div 4096 = i" using off(1) rem by (simp add: page_start_def)
  have bit: "(off - page_start pool i) div 2 ^ 5 = 96 + j" using off(1) by simp
  have q: "(96 + j) div 32 = 3" "(96 + j) mod 32 = j" "(64 + j) div 32 = 2" "(64 + j) mod 32 = j"
    using j div_mult_self3 [of 32 3 j] mod_mult_self3 [of 3 32 j] div_mult_self3 [of 32 2 j] mod_mult_self3 [of 2 32 j] by simp_all
  let ?m = "\<lambda>a. if 8 * off \<le> a \<and> a < 8 * (off + 32) then False else sl_mem pool a"
  let ?s = "8 * page_start pool i"
  define p where "p = pool\<lparr>sl_mem := ?m(?s + 32 * 2 + j := False)\<rparr>"
  have below: "\<not> 8 * off \<le> ?s + k" if "k < 256" for k using that off(1) by simp
  have bits: "sl_mem pool (?s + 128 + j)" "sl_mem pool (?s + 64 + j)" "sl_mem pool ?s"
    using used q by (simp_all add: chunk_used_def entry_bit_def)
  have nz: "\<not> int_zero (page_start pool i) p 0"
    using bits(3) below [of 0] unfolding int_zero_def p_def by (auto intro!: exI [of _ 0])
  have "0 < exp_bitmaps 5" by (simp add: exp_bitmaps_def slot_bits_def)
  then have keep: "\<not> (\<forall>k < exp_bitmaps 5. int_zero (page_start pool i) p k)" using nz by blast
  have at: "page_at pool (int i) = Some (sl_pages pool ! i)" using i(1) by (rule page_at_nat)
  have "free_small (int i) off pool = Some (0, p)"
  proof -
    have "mem_zero off (2 ^ 5) pool = Some (pool\<lparr>sl_mem := ?m\<rparr>)" using off(2) by (simp add: mem_zero_def)
    moreover have "int_clear (page_start pool i) 2 j (pool\<lparr>sl_mem := ?m\<rparr>) = p" by (simp add: int_clear_def p_def)
    moreover have "page_at p (int i) = Some (sl_pages pool ! i)" using at i by (simp add: page_at_def p_def)
    ultimately show ?thesis using at page bit q keep page_addr_start [OF i(2)] by (auto simp: free_small_def Let_def)
  qed
  moreover have "sl_data_offset pool \<le> off" using off(1) by (simp add: page_start_def)
  ultimately have "shm_slab_free off pool = Some (0, p)"
    using at page(1) ix off(3) by (simp add: shm_slab_free_def Let_def)
  moreover have "chunk_used True p i (96 + j)"
    using bits(1) below [of "128 + j"] j q by (simp add: chunk_used_def entry_bit_def p_def)
  moreover have "\<not> chunk_used True p i (64 + j)"
    using q by (simp add: chunk_used_def entry_bit_def p_def)
  ultimately show ?thesis by blast
qed

end
