(* ===== verification/Pub_Str.thy ===== *)
theory Pub_Str
  imports Prelude Pub_Code Pub_Minifun
begin

text \<open>
  The string helpers, \<^verbatim>\<open>core/pub_string.c\<close>, which every part of the switch uses.  A C string is the list of its characters; a
  function that reads a given number of bytes takes the list of the bytes that can be read.  What a function writes from
  its destination on is a list in the result; where the size of the destination matters it is an argument.  None is an
  access outside of a buffer (\<open>pub_str_replaceall\<close> tells it from a loop that does not end).  The properties: which words
  the two list searches find, what the check for half characters accepts, when replacing everything ends, what comes of
  numbers that are read or printed, and the comparison without case.
\<close>

section \<open>Characters\<close>

text \<open>A \<^verbatim>\<open>char\<close> as an \<^verbatim>\<open>int\<close>: it is signed.\<close>

definition c_int :: "char \<Rightarrow> int" where
  "c_int c = (let n = of_char c in if n < 128 then n else n - 256)"

definition c_blank :: "char \<Rightarrow> bool" where
  "c_blank c \<longleftrightarrow> c = CHR '' '' \<or> c = CHR 0x09"

abbreviation (input) NUL :: char where "NUL \<equiv> CHR 0x00"

definition pub_str_tolower :: "char \<Rightarrow> char" where
  "pub_str_tolower c = (if 65 \<le> c_int c \<and> c_int c \<le> 90 then char_of (of_char c + 32 :: int) else c)"

definition pub_str_toupper :: "char \<Rightarrow> char" where
  "pub_str_toupper c = (if 97 \<le> c_int c \<and> c_int c \<le> 122 then char_of (of_char c - 32 :: int) else c)"

section \<open>Removing characters\<close>

definition pub_str_ziphlspace :: "cstr option \<Rightarrow> int \<times> cstr" where
  "pub_str_ziphlspace str =
     (case str of
        None \<Rightarrow> (SW_ERROR, [])
      | Some s \<Rightarrow> (SW_OK, (case dropWhile c_blank s of [] \<Rightarrow> [] | c # cs \<Rightarrow> c # rev (dropWhile (\<lambda>x. x = CHR '' '') (rev cs)))))"

definition pub_str_zip0a09 :: "cstr \<Rightarrow> int \<Rightarrow> (int \<times> cstr) option" where
  "pub_str_zip0a09 s begin' =
     (if begin' < 0 then Some (- 9, s)
      else if length s < nat begin' then None
      else let t = take (nat begin') s @ filter (\<lambda>c. c \<noteq> CHR 0x09 \<and> c \<noteq> CHR 0x0A) (drop (nat begin') s) in
        Some (int (length t), t))"

text \<open>The text with its escapes \<^verbatim>\<open>\xNN\<close> replaced; an escape that is cut off is read past the end of the string.\<close>

fun escapes :: "cstr \<Rightarrow> char list option" where
  "escapes [] = Some []"
| "escapes (c # cs) =
     (if c = CHR 0x5C \<and> cs \<noteq> [] \<and> hd cs = CHR ''x'' then
        (case cs of
           x # a # b # rest \<Rightarrow>
             (case pub_code_asctobcd (Some [of_char a, of_char b]) 2 of
                Some (ret, d # ds) \<Rightarrow> map_option ((#) (char_of (unat d))) (escapes rest)
              | _ \<Rightarrow> None)
         | _ \<Rightarrow> None)
      else map_option ((#) c) (escapes cs))"

definition pub_str_cpyext :: "cstr \<Rightarrow> (int \<times> char list) option" where
  "pub_str_cpyext s = map_option (\<lambda>t. (int (length t), t)) (escapes s)"

definition pub_str_strcpy_ext :: "cstr \<Rightarrow> (int \<times> char list) option" where
  "pub_str_strcpy_ext s = map_option (\<lambda>t. (int (length t), t)) (escapes s)"

definition pub_str_ltrim :: "cstr \<Rightarrow> int \<times> cstr" where
  "pub_str_ltrim s = (0, dropWhile c_blank s)"

text \<open>The loop looks at \<open>src[index]\<close> before it tests the index.\<close>

definition pub_str_rtrim :: "cstr \<Rightarrow> (int \<times> cstr) option" where
  "pub_str_rtrim s = (if \<forall>c \<in> set s. c_blank c then None else Some (0, rev (dropWhile c_blank (rev s))))"

definition pub_str_trim :: "cstr \<Rightarrow> (int \<times> cstr) option" where
  "pub_str_trim s =
     (case pub_str_ltrim s of (_, s1) \<Rightarrow> do { (_, s2) \<leftarrow> pub_str_rtrim s1; Some (0, s2) })"

section \<open>Copying\<close>

definition pub_str_strlow :: "char list \<Rightarrow> nat \<Rightarrow> (int \<times> char list) option" where
  "pub_str_strlow src n = (if length src < n then None else Some (0, map pub_str_tolower (take n src)))"

text \<open>The bytes that are written, and the offset of the pointer that is returned.\<close>

fun cpystrn_loop :: "cstr \<Rightarrow> nat \<Rightarrow> char list \<times> nat" where
  "cpystrn_loop s 0 = ([NUL], 0)"
| "cpystrn_loop [] (Suc n) = ([NUL], 0)"
| "cpystrn_loop (c # cs) (Suc n) = (case cpystrn_loop cs n of (out, k) \<Rightarrow> (c # out, Suc k))"

definition pub_str_cpystrn :: "cstr \<Rightarrow> nat \<Rightarrow> char list \<times> nat" where
  "pub_str_cpystrn s n = (if n = 0 then ([], 0) else cpystrn_loop s n)"

definition pub_str_substring :: "cstr \<Rightarrow> nat \<Rightarrow> nat \<Rightarrow> int \<times> cstr option" where
  "pub_str_substring s start end' =
     (if length s < start then (- 1, None)
      else (0, Some (take (min end' (length s) - start) (drop start s))))"

definition pub_str_charat :: "cstr \<Rightarrow> nat \<Rightarrow> char" where
  "pub_str_charat s index = (if length s < index then NUL else if index = length s then NUL else s ! index)"

text \<open>\<^verbatim>\<open>hex[*src >> 4]\<close>: a negative character leaves the table.\<close>

definition hex_table :: "char list" where
  "hex_table = ''0123456789abcdef''"

definition hex_table_upper :: "char list" where
  "hex_table_upper = ''0123456789ABCDEF''"

fun pub_str_hex_dump :: "char list \<Rightarrow> nat \<Rightarrow> char list option" where
  "pub_str_hex_dump src 0 = Some []"
| "pub_str_hex_dump [] (Suc n) = None"
| "pub_str_hex_dump (c # cs) (Suc n) =
     (if c_int c < 0 then None
      else map_option (\<lambda>t. hex_table ! (of_char c div 16) # hex_table ! (of_char c mod 16) # t) (pub_str_hex_dump cs n))"

section \<open>Comparison\<close>

definition lower_int :: "char \<Rightarrow> int" where
  "lower_int c = (if 65 \<le> c_int c \<and> c_int c \<le> 90 then c_int c + 32 else c_int c)"

text \<open>A NUL in a list ends the string in it; a list that ends does too.\<close>

fun pub_str_strcasecmp :: "cstr \<Rightarrow> cstr \<Rightarrow> int" where
  "pub_str_strcasecmp [] [] = 0"
| "pub_str_strcasecmp [] (d # ds) = - lower_int d"
| "pub_str_strcasecmp (c # cs) [] = lower_int c"
| "pub_str_strcasecmp (c # cs) (d # ds) =
     (if lower_int c = lower_int d then (if c = NUL then 0 else pub_str_strcasecmp cs ds) else lower_int c - lower_int d)"

fun pub_str_strncasecmp :: "cstr \<Rightarrow> cstr \<Rightarrow> nat \<Rightarrow> int" where
  "pub_str_strncasecmp s t 0 = 0"
| "pub_str_strncasecmp [] [] (Suc n) = 0"
| "pub_str_strncasecmp [] (d # ds) (Suc n) = - lower_int d"
| "pub_str_strncasecmp (c # cs) [] (Suc n) = lower_int c"
| "pub_str_strncasecmp (c # cs) (d # ds) (Suc n) =
     (if lower_int c = lower_int d then (if c = NUL then 0 else pub_str_strncasecmp cs ds n) else lower_int c - lower_int d)"

text \<open>The characters that are left to compare when the strings are read from their ends.\<close>

fun suffix_left :: "cstr \<Rightarrow> cstr \<Rightarrow> nat \<Rightarrow> nat" where
  "suffix_left (p # ps) (q # qs) (Suc n) = (if p = q then suffix_left ps qs n else Suc n)"
| "suffix_left ps qs n = n"

definition pub_str_strrncmp :: "cstr option \<Rightarrow> cstr option \<Rightarrow> nat \<Rightarrow> int" where
  "pub_str_strrncmp s1 s2 n =
     (case (s1, s2) of
        (None, None) \<Rightarrow> 0
      | (Some a, Some b) \<Rightarrow> if suffix_left (rev a) (rev b) n = 0 then 0 else - 1
      | _ \<Rightarrow> - 1)"

definition pub_str_rstrncmp :: "cstr option \<Rightarrow> cstr option \<Rightarrow> nat \<Rightarrow> int" where
  "pub_str_rstrncmp s1 s2 n =
     (if n = 0 then 0
      else (case (s1, s2) of
        (None, None) \<Rightarrow> 0
      | (Some a, Some b) \<Rightarrow> if suffix_left (rev a) (rev b) n = 0 then 0 else - 1
      | _ \<Rightarrow> - 1))"

definition upper_int :: "char \<Rightarrow> int" where
  "upper_int c = (if 97 \<le> c_int c \<and> c_int c \<le> 122 then c_int c - 32 else c_int c)"

fun rstrncase_loop :: "char list \<Rightarrow> char list \<Rightarrow> nat \<Rightarrow> int" where
  "rstrncase_loop s t 0 = 0"
| "rstrncase_loop s t (Suc n) = (if upper_int (s ! n) \<noteq> upper_int (t ! n) then upper_int (s ! n) - upper_int (t ! n) else rstrncase_loop s t n)"

definition pub_str_rstrncasecmp :: "char list \<Rightarrow> char list \<Rightarrow> nat \<Rightarrow> int option" where
  "pub_str_rstrncasecmp s t n = (if length s < n \<or> length t < n then None else Some (rstrncase_loop s t n))"

text \<open>\<^verbatim>\<open>memcmp\<close> promises only the sign of its answer.\<close>

fun memcmp :: "char list \<Rightarrow> char list \<Rightarrow> int" where
  "memcmp (c # cs) (d # ds) = (if c = d then memcmp cs ds else if (of_char c :: nat) < of_char d then - 1 else 1)"
| "memcmp _ _ = 0"

definition pub_str_memn2cmp :: "char list \<Rightarrow> char list \<Rightarrow> nat \<Rightarrow> nat \<Rightarrow> int option" where
  "pub_str_memn2cmp s1 s2 n1 n2 =
     (let (n, z) = (if n1 \<le> n2 then (n1, - 1) else (n2, 1)) in
      if length s1 < n \<or> length s2 < n then None
      else let m = memcmp (take n s1) (take n s2) in
        Some (if m \<noteq> 0 \<or> n1 = n2 then m else z))"

section \<open>Search\<close>

text \<open>A pointer into the text is an offset, None the null pointer.\<close>

definition strstr :: "cstr \<Rightarrow> cstr \<Rightarrow> nat option" where
  "strstr s d = find_idx (\<lambda>i. take (length d) (drop i s) = d) [0..<Suc (length s)]"

fun pub_str_strlchr :: "char list \<Rightarrow> nat \<Rightarrow> char \<Rightarrow> nat option option" where
  "pub_str_strlchr src 0 c = Some None"
| "pub_str_strlchr [] (Suc n) c = None"
| "pub_str_strlchr (x # xs) (Suc n) c = (if x = c then Some (Some 0) else map_option (map_option Suc) (pub_str_strlchr xs n c))"

fun strnstr_loop :: "char \<Rightarrow> cstr \<Rightarrow> cstr \<Rightarrow> nat \<Rightarrow> nat option" where
  "strnstr_loop c2 ds cs 0 = None"
| "strnstr_loop c2 ds [] (Suc len) = None"
| "strnstr_loop c2 ds (c # cs) (Suc len) =
     (if c = c2 then
        (if len < length ds then None
         else if take (length ds) cs = ds then Some 0
         else map_option Suc (strnstr_loop c2 ds cs len))
      else map_option Suc (strnstr_loop c2 ds cs len))"

text \<open>With an empty \<open>s2\<close> the length of what follows its terminator is asked for.\<close>

definition pub_str_strnstr :: "cstr \<Rightarrow> cstr \<Rightarrow> nat \<Rightarrow> nat option option" where
  "pub_str_strnstr s1 s2 len = (case s2 of [] \<Rightarrow> None | c2 # ds \<Rightarrow> Some (strnstr_loop c2 ds s1 len))"

fun strstrn_loop :: "char \<Rightarrow> cstr \<Rightarrow> nat \<Rightarrow> cstr \<Rightarrow> nat option" where
  "strstrn_loop c2 ds n [] = None"
| "strstrn_loop c2 ds n (c # cs) = (if c = c2 \<and> take n cs = take n ds then Some 0 else map_option Suc (strstrn_loop c2 ds n cs))"

definition pub_str_strstrn :: "cstr \<Rightarrow> cstr \<Rightarrow> nat \<Rightarrow> nat option" where
  "pub_str_strstrn s1 s2 n = (case s2 of [] \<Rightarrow> None | c2 # ds \<Rightarrow> strstrn_loop c2 ds n s1)"

fun strcasestrn_loop :: "int \<Rightarrow> cstr \<Rightarrow> nat \<Rightarrow> cstr \<Rightarrow> nat option" where
  "strcasestrn_loop c2 ds n [] = None"
| "strcasestrn_loop c2 ds n (c # cs) =
     (if lower_int c = c2 \<and> pub_str_strncasecmp cs ds n = 0 then Some 0 else map_option Suc (strcasestrn_loop c2 ds n cs))"

definition pub_str_strcasestrn :: "cstr \<Rightarrow> cstr \<Rightarrow> nat \<Rightarrow> nat option" where
  "pub_str_strcasestrn s1 s2 n = (case s2 of [] \<Rightarrow> None | c2 # ds \<Rightarrow> strcasestrn_loop (lower_int c2) ds n s1)"

text \<open>\<open>left\<close> is the distance to \<open>last - n\<close>.\<close>

fun strlcase_loop :: "int \<Rightarrow> cstr \<Rightarrow> nat \<Rightarrow> char list \<Rightarrow> nat \<Rightarrow> nat option option" where
  "strlcase_loop c2 ds n cs 0 = Some None"
| "strlcase_loop c2 ds n [] (Suc left') = None"
| "strlcase_loop c2 ds n (c # cs) (Suc left') =
     (if lower_int c = c2 \<and> pub_str_strncasecmp cs ds n = 0 then Some (Some 0)
      else map_option (map_option Suc) (strlcase_loop c2 ds n cs left'))"

definition pub_str_strlcasestrn :: "char list \<Rightarrow> nat \<Rightarrow> cstr \<Rightarrow> nat \<Rightarrow> nat option option" where
  "pub_str_strlcasestrn s1 last' s2 n =
     (case s2 of
        [] \<Rightarrow> strlcase_loop 0 [] n s1 (last' - n)
      | c2 # ds \<Rightarrow> strlcase_loop (lower_int c2) ds n s1 (last' - n))"

definition pub_str_indexof :: "cstr \<Rightarrow> cstr \<Rightarrow> int" where
  "pub_str_indexof s d = (case strstr s d of None \<Rightarrow> - 1 | Some p \<Rightarrow> s32 (int p))"

text \<open>The search goes on behind the match it has found, so matches that overlap it are missed, and with an empty \<open>d\<close> it
  never ends.\<close>

partial_function (option) last_match :: "cstr \<Rightarrow> cstr \<Rightarrow> nat \<Rightarrow> nat option" where
  "last_match s d p =
     (case strstr (drop (p + length d) s) d of None \<Rightarrow> Some p | Some k \<Rightarrow> last_match s d (p + length d + k))"

declare last_match.simps [code]

definition pub_str_lastindexof :: "cstr \<Rightarrow> cstr \<Rightarrow> int option" where
  "pub_str_lastindexof s d =
     (case strstr s d of None \<Rightarrow> Some (- 1) | Some p \<Rightarrow> map_option (\<lambda>q. s32 (int q)) (last_match s d p))"

section \<open>Replacing\<close>

text \<open>\<open>cap\<close> is the size of the array behind \<open>str1\<close>, \<open>ok\<close> whether \<^verbatim>\<open>calloc\<close> has memory for the copy.\<close>

definition pub_str_replace :: "bool \<Rightarrow> nat \<Rightarrow> cstr \<Rightarrow> cstr \<Rightarrow> cstr \<Rightarrow> (int \<times> cstr) option" where
  "pub_str_replace ok cap str1 str2 str3 =
     (if \<not> ok then Some (- 1, str1)
      else (case strstr str1 str2 of
              None \<Rightarrow> Some (0, str1)
            | Some len \<Rightarrow>
                let t = take len str1 @ str3 @ drop (len + length str2) str1 in
                if cap \<le> length t then None else Some (0, t)))"

text \<open>Each round asks for a copy of its own: \<open>ok i\<close> says whether the \<open>i\<close>-th \<^verbatim>\<open>calloc\<close> succeeds.  A round whose copy
  fails changes nothing, and the loop goes on, as the return code is not looked at.  None is a loop that does not end,
  \<open>Some None\<close> an access outside of the array.\<close>

partial_function (option) pub_str_replaceall ::
    "(nat \<Rightarrow> bool) \<Rightarrow> nat \<Rightarrow> cstr \<Rightarrow> cstr \<Rightarrow> cstr \<Rightarrow> (int \<times> cstr) option option" where
  "pub_str_replaceall ok cap str1 str2 str3 =
     (case strstr str1 str2 of
        None \<Rightarrow> Some (Some (0, str1))
      | Some p \<Rightarrow>
          (case pub_str_replace (ok 0) cap str1 str2 str3 of
             None \<Rightarrow> Some None
           | Some (ret, str1') \<Rightarrow> pub_str_replaceall (\<lambda>i. ok (Suc i)) cap str1' str2 str3))"

declare pub_str_replaceall.simps [code]

section \<open>Numbers\<close>

text \<open>The loop of the four readers, which differ in the width of \<open>value\<close>; a C string ends with its NUL, which is no digit.\<close>

fun ato_loop :: "(int \<Rightarrow> int) \<Rightarrow> char list \<Rightarrow> nat \<Rightarrow> int \<Rightarrow> int option" where
  "ato_loop wrap src 0 val = Some (if val < 0 then - 1 else val)"
| "ato_loop wrap [] (Suc n) val = None"
| "ato_loop wrap (c # cs) (Suc n) val =
     (if \<not> c_isdigit c then Some (- 1) else ato_loop wrap cs n (wrap (val * 10 + int (c_digit c))))"

definition pub_str_atoi :: "char list \<Rightarrow> nat \<Rightarrow> int option" where
  "pub_str_atoi src n = (if n = 0 then Some (- 1) else ato_loop s32 src n 0)"

definition pub_str_atosz :: "char list \<Rightarrow> nat \<Rightarrow> int option" where
  "pub_str_atosz src n = (if n = 0 then Some (- 1) else ato_loop s64 src n 0)"

definition pub_str_atotm :: "char list \<Rightarrow> nat \<Rightarrow> int option" where
  "pub_str_atotm src n = (if n = 0 then Some (- 1) else ato_loop s64 src n 0)"

definition pub_str_atoof :: "char list \<Rightarrow> nat \<Rightarrow> int option" where
  "pub_str_atoof src n = (if n = 0 then Some (- 1) else ato_loop s64 src n 0)"

definition hex_digit_value :: "char \<Rightarrow> int option" where
  "hex_digit_value ch =
     (let n = of_char ch :: nat in
      if c_isdigit ch then Some (int (c_digit ch))
      else if 97 \<le> n \<and> n \<le> 102 then Some (int n - 97 + 10)
      else if 65 \<le> n \<and> n \<le> 70 then Some (int n - 65 + 10)
      else None)"

fun hextoi_loop :: "char list \<Rightarrow> nat \<Rightarrow> int \<Rightarrow> int option" where
  "hextoi_loop src 0 val = Some (if val < 0 then - 1 else val)"
| "hextoi_loop [] (Suc n) val = None"
| "hextoi_loop (c # cs) (Suc n) val =
     (case hex_digit_value c of None \<Rightarrow> Some (- 1) | Some d \<Rightarrow> hextoi_loop cs n (s32 (val * 16 + d)))"

definition pub_str_hextoi :: "char list \<Rightarrow> nat \<Rightarrow> int option" where
  "pub_str_hextoi src n = (if n = 0 then Some (- 1) else hextoi_loop src n 0)"

text \<open>The loop over the characters always looks at the first one.\<close>

definition str_isdigit :: "cstr \<Rightarrow> bool" where
  "str_isdigit str = (str \<noteq> [] \<and> (\<forall>idx < length str. c_isdigit (hd str)))"

section \<open>Lists of words\<close>

text \<open>\<open>val\<close> holds 32 bytes in the one function and 512 in the other; the last word is not looked at in the first.\<close>

fun checkincl_loop :: "cstr \<Rightarrow> cstr \<Rightarrow> cstr \<Rightarrow> int option" where
  "checkincl_loop str [] val = Some SW_ERR"
| "checkincl_loop str (c # cs) val =
     (if 32 \<le> length val then None
      else if c \<noteq> CHR '' '' then checkincl_loop str cs (val @ [c])
      else if str = val then Some SW_OK
      else checkincl_loop str cs [])"

definition pub_str_checkincl :: "cstr \<Rightarrow> cstr \<Rightarrow> int option" where
  "pub_str_checkincl include str = checkincl_loop str include []"

fun include_loop :: "cstr \<Rightarrow> cstr \<Rightarrow> cstr \<Rightarrow> int option" where
  "include_loop var [] val = (if 512 \<le> length val then None else Some (if val = var then 0 else - 1))"
| "include_loop var (c # cs) val =
     (if 512 \<le> length val then None
      else if c = CHR '' '' then (if val = var then Some 0 else include_loop var cs [])
      else include_loop var cs (val @ [c]))"

definition pub_str_include :: "cstr \<Rightarrow> cstr \<Rightarrow> int option" where
  "pub_str_include var str = include_loop var str []"

text \<open>The bytes that are copied to \<open>outstr\<close>, without a NUL behind them, and where to go on.  \<^verbatim>\<open>memcmp\<close> over the length
  of \<open>instr\<close> finds a difference at the NUL of a shorter \<open>delimiter\<close>.\<close>

definition pub_str_msstrtok :: "cstr \<Rightarrow> cstr \<Rightarrow> char list \<times> cstr option" where
  "pub_str_msstrtok instr delimiter =
     (if take (length instr) delimiter = instr then ([], None)
      else (case strstr instr delimiter of
              Some k \<Rightarrow> (take k instr, Some (drop (k + length delimiter) instr))
            | None \<Rightarrow> (instr, None)))"

section \<open>Chinese characters\<close>

datatype estat = DCODE | SCODE | DSCODE

fun chkhalf_loop :: "estat \<Rightarrow> char list \<Rightarrow> int" where
  "chkhalf_loop st [] = SW_OK"
| "chkhalf_loop DCODE (c # cs) = chkhalf_loop (if c_int c < 0 then DSCODE else SCODE) cs"
| "chkhalf_loop SCODE (c # cs) = chkhalf_loop (if c_int c < 0 then DSCODE else SCODE) cs"
| "chkhalf_loop DSCODE (c # cs) = (if c_int c < 0 then chkhalf_loop DCODE cs else SW_ERROR)"

definition pub_str_chkhalf :: "char list \<Rightarrow> nat \<Rightarrow> int option" where
  "pub_str_chkhalf buf len = (if length buf < len then None else Some (chkhalf_loop SCODE (take len buf)))"

text \<open>The characters that are replaced, with the two bytes (in GBK) they become.\<close>

definition chinese_table :: "(char \<times> char list) list" where
  "chinese_table =
     [(CHR '':'', [CHR 0xA3, CHR 0xBA]), (CHR 0x27, ''  ''), (CHR 0x22, ''  ''), (CHR 0x5C, ''  ''),
      (CHR ''%'', [CHR 0xA3, CHR 0xA5]), (CHR ''{'', [CHR 0xA3, CHR 0xFB]), (CHR ''}'', [CHR 0xA3, CHR 0xFD]),
      (CHR ''['', [CHR 0xA3, CHR 0xDB]), (CHR '']'', [CHR 0xA3, CHR 0xDD]), (CHR ''('', [CHR 0xA3, CHR 0xA8]),
      (CHR '')'', [CHR 0xA3, CHR 0xA9]), (CHR ''<'', [CHR 0xA1, CHR 0xB6]), (CHR ''>'', [CHR 0xA1, CHR 0xB7])]"

definition chinese_text :: "cstr \<Rightarrow> char list" where
  "chinese_text s = concat (map (\<lambda>c. case map_of chinese_table c of None \<Rightarrow> [c] | Some t \<Rightarrow> t) s)"

definition pub_str_chkchinese :: "cstr \<Rightarrow> (int \<times> cstr) option" where
  "pub_str_chkchinese str =
     (if chkhalf_loop SCODE str \<noteq> 0 then Some (SW_ERROR, str)
      else let buf = chinese_text str in
        if 256 < length buf then None
        else if length str < length buf then Some (SW_ERROR, str)
        else Some (SW_OK, buf))"

section \<open>Printing\<close>

text \<open>The cells from \<open>buf\<close> on are a list; a store outside of them is None.\<close>

definition put_at :: "nat \<Rightarrow> char list \<Rightarrow> char list \<Rightarrow> char list option" where
  "put_at pos cs mem = (if length mem < pos + length cs then None else Some (take pos mem @ cs @ drop (pos + length cs) mem))"

fun hex_text :: "char list \<Rightarrow> nat \<Rightarrow> cstr" where
  "hex_text tab n = (if n < 16 then [tab ! n] else hex_text tab (n div 16) @ [tab ! (n mod 16)])"

declare hex_text.simps [simp del]

text \<open>The pointer that is returned is the one \<^verbatim>\<open>memcpy\<close> returns: the start of the digits, not their end.\<close>

definition pub_str_sprintf_num :: "nat \<Rightarrow> nat \<Rightarrow> char \<Rightarrow> nat \<Rightarrow> nat \<Rightarrow> char list \<times> nat \<Rightarrow> (char list \<times> nat) option" where
  "pub_str_sprintf_num last' ui64 zero hexadecimal width st =
     (case st of (mem, pos) \<Rightarrow>
       let ds = (if hexadecimal = 0 then nat_digits ui64 else if hexadecimal = 1 then hex_text hex_table ui64 else hex_text hex_table_upper ui64);
           pad = min (width - length ds) (last' - pos);
           len = (if last' < pos + pad + length ds then last' - (pos + pad) else length ds)
       in do {
         mem1 \<leftarrow> put_at pos (replicate pad zero) mem;
         mem2 \<leftarrow> put_at (pos + pad) (take len ds) mem1;
         Some (mem2, pos + pad)
       })"

text \<open>The arguments: integers, floating point numbers, the bytes at a pointer, and counted strings.\<close>

datatype 'd fmt_arg = IntArg int | DblArg 'd | StrArg "char list" | BlobArg nat "char list"

record 'd fmt_ops = "'d dbl_ops" +
  dbl_trunc :: "'d \<Rightarrow> int"
  dbl_half :: 'd

definition size_max :: nat where
  "size_max = 2 ^ 64 - 1"

definition u32 :: "int \<Rightarrow> nat" where
  "u32 x = nat (x mod 2 ^ 32)"

definition u64 :: "int \<Rightarrow> nat" where
  "u64 x = nat (x mod 2 ^ 64)"

record fmt_spec =
  fs_zero :: char
  fs_width :: nat
  fs_sign :: bool
  fs_hex :: nat
  fs_max_width :: bool
  fs_frac :: nat
  fs_slen :: nat

definition scan_number :: "cstr \<Rightarrow> nat \<times> cstr" where
  "scan_number s = (foldl (\<lambda>a c. (a * 10 + c_digit c) mod 2 ^ 32) 0 (takeWhile c_isdigit s), dropWhile c_isdigit s)"

fun fmt_flags :: "cstr \<Rightarrow> fmt_spec \<Rightarrow> 'd fmt_arg list \<Rightarrow> (cstr \<times> fmt_spec \<times> 'd fmt_arg list) option" where
  "fmt_flags [] sp args = Some ([], sp, args)"
| "fmt_flags (c # cs) sp args =
     (if c = CHR ''u'' then fmt_flags cs (sp\<lparr>fs_sign := False\<rparr>) args
      else if c = CHR ''m'' then fmt_flags cs (sp\<lparr>fs_max_width := True\<rparr>) args
      else if c = CHR ''X'' then fmt_flags cs (sp\<lparr>fs_hex := 2, fs_sign := False\<rparr>) args
      else if c = CHR ''x'' then fmt_flags cs (sp\<lparr>fs_hex := 1, fs_sign := False\<rparr>) args
      else if c = CHR ''.'' then Some (snd (scan_number cs), sp\<lparr>fs_frac := fst (scan_number cs)\<rparr>, args)
      else if c = CHR ''*'' then
        (case args of IntArg n # as \<Rightarrow> fmt_flags cs (sp\<lparr>fs_slen := u64 n\<rparr>) as | _ \<Rightarrow> None)
      else Some (c # cs, sp, args))"

text \<open>\<^verbatim>\<open>%s\<close>: the copy stops at a NUL or at \<open>last'\<close>.\<close>

fun copy_string :: "nat \<Rightarrow> char list \<Rightarrow> char list \<times> nat \<Rightarrow> (char list \<times> nat) option" where
  "copy_string last' [] st = None"
| "copy_string last' (c # cs) (mem, pos) =
     (if c = NUL \<or> last' \<le> pos then Some (mem, pos)
      else do { mem' \<leftarrow> put_at pos [c] mem; copy_string last' cs (mem', pos + 1) })"

text \<open>\<^verbatim>\<open>buf = memcpy(buf, p, len)\<close>: the position stays where it is.\<close>

definition copy_counted :: "nat \<Rightarrow> nat \<Rightarrow> char list \<Rightarrow> char list \<times> nat \<Rightarrow> (char list \<times> nat) option" where
  "copy_counted last' len bytes st =
     (case st of (mem, pos) \<Rightarrow>
       let n = min (last' - pos) len in
       if length bytes < n then None else map_option (\<lambda>m. (m, pos)) (put_at pos (take n bytes) mem))"

text \<open>How the integer conversions take their argument: the value as \<open>i64\<close> when the conversion is signed, as \<open>ui64\<close> else.\<close>

definition int_conv :: "char \<Rightarrow> fmt_spec \<Rightarrow> int \<Rightarrow> (fmt_spec \<times> int) option" where
  "int_conv c sp x =
     (if c = CHR ''O'' \<or> c = CHR ''T'' \<or> c = CHR ''r'' then Some (sp\<lparr>fs_sign := True\<rparr>, s64 x)
      else if c = CHR ''P'' then Some (sp\<lparr>fs_sign := True\<rparr>, s32 x)
      else if c = CHR ''M'' then
        (if s32 x = - 1 then Some (sp\<lparr>fs_sign := True\<rparr>, - 1) else Some (sp\<lparr>fs_sign := False\<rparr>, int (u64 (s32 x))))
      else if c = CHR ''z'' \<or> c = CHR ''l'' \<or> c = CHR ''L'' then Some (sp, if fs_sign sp then s64 x else int (u64 x))
      else if c = CHR ''i'' then
        Some (if fs_max_width sp then sp\<lparr>fs_width := 11\<rparr> else sp, if fs_sign sp then s32 x else int (u64 (s32 x)))
      else if c = CHR ''d'' \<or> c = CHR ''D'' then Some (sp, if fs_sign sp then s32 x else int (u32 x))
      else if c = CHR ''p'' then
        Some (sp\<lparr>fs_hex := 2, fs_sign := False, fs_zero := CHR ''0'', fs_width := 8\<rparr>, int (u64 x))
      else None)"

definition print_int :: "nat \<Rightarrow> fmt_spec \<Rightarrow> int \<Rightarrow> char list \<times> nat \<Rightarrow> (char list \<times> nat) option" where
  "print_int last' sp x st =
     (if fs_sign sp \<and> x < 0 then do {
        mem \<leftarrow> put_at (snd st) ''-'' (fst st);
        pub_str_sprintf_num last' (nat (- x)) (fs_zero sp) (fs_hex sp) (fs_width sp) (mem, snd st + 1)
      }
      else pub_str_sprintf_num last' (nat x) (fs_zero sp) (fs_hex sp) (fs_width sp) st)"

definition print_dbl :: "('d, 'm) fmt_ops_scheme \<Rightarrow> nat \<Rightarrow> fmt_spec \<Rightarrow> 'd \<Rightarrow> char list \<times> nat \<Rightarrow> (char list \<times> nat) option" where
  "print_dbl fo last' sp f st =
     do {
       let neg = dbl_less fo f (dbl_of_int fo 0);
       let g = (if neg then dbl_neg fo f else f);
       st1 \<leftarrow> (if neg then map_option (\<lambda>m. (m, snd st + 1)) (put_at (snd st) ''-'' (fst st)) else Some st);
       let ui = u64 (dbl_trunc fo g);
       st2 \<leftarrow> pub_str_sprintf_num last' ui (fs_zero sp) 0 (fs_width sp) st1;
       (if fs_frac sp = 0 then Some st2
        else do {
          st3 \<leftarrow> (if snd st2 < last' then map_option (\<lambda>m. (m, snd st2 + 1)) (put_at (snd st2) ''.'' (fst st2)) else Some st2);
          let scale = ((\<lambda>s. dbl_mul fo s (dbl_of_int fo 10)) ^^ fs_frac sp) (dbl_of_int fo 1);
          let ui2 = u64 (dbl_trunc fo (dbl_add fo (dbl_mul fo (dbl_sub fo g (dbl_of_int fo (s64 (int ui)))) scale) (dbl_half fo)));
          pub_str_sprintf_num last' ui2 (CHR ''0'') 0 (fs_frac sp) st3
        })
     }"

text \<open>One conversion: what is left of the arguments, and the state.\<close>

definition fmt_conv :: "('d, 'm) fmt_ops_scheme \<Rightarrow> nat \<Rightarrow> char \<Rightarrow> fmt_spec \<Rightarrow> 'd fmt_arg list \<Rightarrow> char list \<times> nat \<Rightarrow>
    ('d fmt_arg list \<times> (char list \<times> nat)) option" where
  "fmt_conv fo last' c sp args st =
     (if c = CHR ''V'' \<or> c = CHR ''v'' then
        (case args of BlobArg n bytes # as \<Rightarrow> map_option (Pair as) (copy_counted last' n bytes st) | _ \<Rightarrow> None)
      else if c = CHR ''s'' then
        (case args of
           StrArg bytes # as \<Rightarrow>
             map_option (Pair as)
               (if fs_slen sp = size_max then copy_string last' bytes st else copy_counted last' (fs_slen sp) bytes st)
         | _ \<Rightarrow> None)
      else if c = CHR ''f'' then
        (case args of DblArg f # as \<Rightarrow> map_option (Pair as) (print_dbl fo last' sp f st) | _ \<Rightarrow> None)
      else if c = CHR ''c'' then
        (case args of
           IntArg d # as \<Rightarrow> map_option (\<lambda>m. (as, (m, snd st + 1))) (put_at (snd st) [char_of (nat (d mod 256))] (fst st))
         | _ \<Rightarrow> None)
      else if c \<in> set ''OPTMzidlDLrp'' then
        (case args of
           IntArg x # as \<Rightarrow> do {
             (sp', y) \<leftarrow> int_conv c sp x;
             map_option (Pair as) (print_int last' sp' y st)
           }
         | _ \<Rightarrow> None)
      else
        let out = (if c = CHR ''Z'' then NUL else if c = CHR ''N'' then CHR 0x0A else c) in
        map_option (\<lambda>m. (args, (m, snd st + 1))) (put_at (snd st) [out] (fst st)))"

text \<open>What stands behind a \<^verbatim>\<open>%\<close>: the rest of the format, of the arguments, and the state.  A format that ends
  within a conversion is read past its end.\<close>

definition fmt_one :: "('d, 'm) fmt_ops_scheme \<Rightarrow> nat \<Rightarrow> cstr \<Rightarrow> 'd fmt_arg list \<Rightarrow> char list \<times> nat \<Rightarrow>
    (cstr \<times> 'd fmt_arg list \<times> (char list \<times> nat)) option" where
  "fmt_one fo last' fmt args st =
     do {
       let zero = (if fmt \<noteq> [] \<and> hd fmt = CHR ''0'' then CHR ''0'' else CHR '' '');
       let sp0 = \<lparr>fs_zero = zero, fs_width = fst (scan_number fmt), fs_sign = True, fs_hex = 0, fs_max_width = False, fs_frac = 0,
         fs_slen = size_max\<rparr>;
       (cs, sp, as) \<leftarrow> fmt_flags (snd (scan_number fmt)) sp0 args;
       (case cs of [] \<Rightarrow> None | c # cs' \<Rightarrow> map_option (Pair cs') (fmt_conv fo last' c sp as st))
     }"

lemma length_dropWhile: "length (dropWhile P xs) \<le> length xs"
  by (induction xs) simp_all

lemma fmt_flags_shorter: "fmt_flags fmt sp args = Some (cs, sp', as) \<Longrightarrow> length cs \<le> length fmt"
  by (induction fmt sp args rule: fmt_flags.induct)
    (auto simp: scan_number_def length_dropWhile le_SucI split: if_splits list.splits fmt_arg.splits)

lemma fmt_one_shorter:
  assumes "fmt_one fo last' fmt args st = Some (cs, as, st')"
  shows "length cs \<le> length fmt"
proof -
  have "length (snd (scan_number fmt)) \<le> length fmt" by (simp add: scan_number_def length_dropWhile)
  then show ?thesis using assms
    by (auto simp: fmt_one_def Let_def bind_eq_Some_conv neq_Nil_conv split: list.splits dest!: fmt_flags_shorter)
qed

function fmt_loop :: "('d, 'm) fmt_ops_scheme \<Rightarrow> nat \<Rightarrow> cstr \<Rightarrow> 'd fmt_arg list \<Rightarrow> char list \<times> nat \<Rightarrow> (char list \<times> nat) option" where
  "fmt_loop fo last' [] args st = Some st"
| "fmt_loop fo last' (c # cs) args st =
     (if last' \<le> snd st then Some st
      else if c = CHR ''%'' then do {
        (cs', args', st') \<leftarrow> fmt_one fo last' cs args st;
        fmt_loop fo last' cs' args' st'
      }
      else do {
        m \<leftarrow> put_at (snd st) [c] (fst st);
        fmt_loop fo last' cs args (m, snd st + 1)
      })"
  by pat_completeness auto
termination
  by (relation "measure (\<lambda>(fo, last', fmt, args, st). length fmt)") (auto dest: fmt_one_shorter simp: less_Suc_eq_le)

text \<open>The answer is the position behind what has been written; no NUL is written there.\<close>

definition pub_str_vslprintf :: "('d, 'm) fmt_ops_scheme \<Rightarrow> char list \<Rightarrow> nat \<Rightarrow> cstr \<Rightarrow> 'd fmt_arg list \<Rightarrow> (char list \<times> nat) option" where
  "pub_str_vslprintf fo buf last' fmt args = fmt_loop fo last' fmt args (buf, 0)"

definition pub_str_slprintf :: "('d, 'm) fmt_ops_scheme \<Rightarrow> char list \<Rightarrow> nat \<Rightarrow> cstr \<Rightarrow> 'd fmt_arg list \<Rightarrow> (char list \<times> nat) option" where
  "pub_str_slprintf fo buf last' fmt args = pub_str_vslprintf fo buf last' fmt args"

definition pub_str_snprintf :: "('d, 'm) fmt_ops_scheme \<Rightarrow> char list \<Rightarrow> nat \<Rightarrow> cstr \<Rightarrow> 'd fmt_arg list \<Rightarrow> (char list \<times> nat) option" where
  "pub_str_snprintf fo buf max' fmt args = pub_str_vslprintf fo buf max' fmt args"

definition pub_str_sprintf :: "('d, 'm) fmt_ops_scheme \<Rightarrow> char list \<Rightarrow> cstr \<Rightarrow> 'd fmt_arg list \<Rightarrow> (char list \<times> nat) option" where
  "pub_str_sprintf fo buf fmt args = pub_str_vslprintf fo buf size_max fmt args"

section \<open>Word lists\<close>

fun blank_words :: "cstr \<Rightarrow> cstr list" where
  "blank_words [] = [[]]"
| "blank_words (c # cs) =
     (if c = CHR '' '' then [] # blank_words cs else (c # hd (blank_words cs)) # tl (blank_words cs))"

definition words_from :: "cstr \<Rightarrow> cstr \<Rightarrow> cstr list" where
  "words_from val s = (val @ hd (blank_words s)) # tl (blank_words s)"

lemma blank_words_nonempty [simp]: "blank_words s \<noteq> []"
  by (cases s) simp_all

lemma words_from_simps:
  "words_from val [] = [val]"
  "words_from val (CHR '' '' # cs) = val # words_from [] cs"
  "c \<noteq> CHR '' '' \<Longrightarrow> words_from val (c # cs) = words_from (val @ [c]) cs"
  by (simp_all add: words_from_def)

lemma words_from_nonempty [simp]: "words_from val s \<noteq> []"
  by (simp add: words_from_def)

lemma words_from_nil: "words_from [] s = blank_words s"
  by (simp add: words_from_def)

lemma words_from_length: "w \<in> set (words_from val s) \<Longrightarrow> \<forall>w \<in> set (words_from val s). length w < n \<Longrightarrow> length val < n"
  by (auto simp: words_from_def)

lemma include_loop_words:
  "\<forall>w \<in> set (words_from val s). length w < 512 \<Longrightarrow>
   include_loop v s val = Some (if v \<in> set (words_from val s) then 0 else - 1)"
proof (induction v s val rule: include_loop.induct)
  case (2 v c cs val)
  have "length val < 512" using 2(3) by (auto simp: words_from_def)
  then show ?case using 2 by (cases "c = CHR '' ''") (auto simp: words_from_simps)
qed (simp add: words_from_simps)

lemma checkincl_loop_words:
  "\<forall>w \<in> set (words_from val s). length w < 32 \<Longrightarrow>
   checkincl_loop v s val = Some (if v \<in> set (butlast (words_from val s)) then 0 else - 1)"
proof (induction v s val rule: checkincl_loop.induct)
  case (2 v c cs val)
  have "length val < 32" using 2(3) by (auto simp: words_from_def)
  then show ?case using 2 by (cases "c = CHR '' ''") (auto simp: words_from_simps)
qed (simp add: words_from_simps)

section \<open>Half characters\<close>

definition high :: "char \<Rightarrow> bool" where
  "high c \<longleftrightarrow> c_int c < 0"

definition gbk_unit :: "char list \<Rightarrow> bool" where
  "gbk_unit u \<longleftrightarrow> (\<exists>c. u = [c] \<and> \<not> high c) \<or> (\<exists>c d. u = [c, d] \<and> high c \<and> high d)"

definition whole_text :: "char list \<Rightarrow> bool" where
  "whole_text s \<longleftrightarrow> (\<exists>us. s = concat us \<and> (\<forall>u \<in> set us. gbk_unit u))"

lemma whole_text_nil [simp]: "whole_text []"
  unfolding whole_text_def by (rule exI [of _ "[]"]) simp

lemma whole_text_low [simp]: "\<not> high c \<Longrightarrow> whole_text (c # cs) \<longleftrightarrow> whole_text cs"
proof
  assume c: "\<not> high c"
  show "whole_text cs" if "whole_text (c # cs)"
  proof -
    from that obtain us where us: "c # cs = concat us" "\<forall>u \<in> set us. gbk_unit u" by (auto simp: whole_text_def)
    obtain u vs where "us = u # vs" using us(1) by (cases us) auto
    then show ?thesis using us c by (auto simp: gbk_unit_def whole_text_def)
  qed
  show "whole_text (c # cs)" if "whole_text cs"
  proof -
    from that obtain us where "cs = concat us" "\<forall>u \<in> set us. gbk_unit u" by (auto simp: whole_text_def)
    then show ?thesis using c by (auto simp: whole_text_def gbk_unit_def intro!: exI [of _ "[c] # us"])
  qed
qed

lemma whole_text_high:
  "high c \<Longrightarrow> whole_text (c # cs) \<longleftrightarrow> (case cs of [] \<Rightarrow> False | d # ds \<Rightarrow> high d \<and> whole_text ds)"
proof
  assume c: "high c"
  show "case cs of [] \<Rightarrow> False | d # ds \<Rightarrow> high d \<and> whole_text ds" if "whole_text (c # cs)"
  proof -
    from that obtain us where us: "c # cs = concat us" "\<forall>u \<in> set us. gbk_unit u" by (auto simp: whole_text_def)
    obtain u vs where "us = u # vs" using us(1) by (cases us) auto
    then show ?thesis using us c by (auto simp: gbk_unit_def whole_text_def)
  qed
  show "whole_text (c # cs)" if "case cs of [] \<Rightarrow> False | d # ds \<Rightarrow> high d \<and> whole_text ds"
  proof -
    from that obtain d us where "cs = d # concat us" "high d" "\<forall>u \<in> set us. gbk_unit u"
      by (auto simp: whole_text_def split: list.splits)
    then show ?thesis using c by (auto simp: whole_text_def gbk_unit_def intro!: exI [of _ "[c, d] # us"])
  qed
qed

lemma chkhalf_whole:
  "(chkhalf_loop st s = 0) =
     (if st = DSCODE then (case s of [] \<Rightarrow> True | d # ds \<Rightarrow> high d \<and> (whole_text ds \<or> (\<exists>t c. ds = t @ [c] \<and> whole_text t \<and> high c)))
      else whole_text s \<or> (\<exists>t c. s = t @ [c] \<and> whole_text t \<and> high c))"
proof (induction s arbitrary: st)
  case (Cons d ds)
  have tail: "(\<exists>t c. d # ds = t @ [c] \<and> whole_text t \<and> high c) \<longleftrightarrow>
      (if high d then ds = [] \<or> (\<exists>e es. ds = e # es \<and> high e \<and> (\<exists>t c. es = t @ [c] \<and> whole_text t \<and> high c))
       else (\<exists>t c. ds = t @ [c] \<and> whole_text t \<and> high c))"
    by (auto simp: Cons_eq_append_conv whole_text_high split: list.splits)
  show ?case
    unfolding tail by (cases st) (auto simp: Cons high_def [symmetric] whole_text_high split: list.splits)
qed (cases st; simp)

section \<open>Replacing everything\<close>

lemma strstr_Some:
  assumes "strstr s d = Some k"
  shows "k \<le> length s" "take (length d) (drop k s) = d" "s = take k s @ d @ drop (k + length d) s"
proof -
  from find_idx_Some [OF assms [unfolded strstr_def]] show k: "k \<le> length s" "take (length d) (drop k s) = d"
    by (auto simp del: upt_Suc)
  have "s = take k s @ take (length d) (drop k s) @ drop (length d) (drop k s)" by (simp del: drop_drop)
  then show "s = take k s @ d @ drop (k + length d) s" unfolding k(2) by (simp add: add.commute)
qed

lemma strstr_found: "strstr (a @ d @ b) d \<noteq> None"
proof
  assume "strstr (a @ d @ b) d = None"
  then have "\<forall>i \<in> set [0..<Suc (length (a @ d @ b))]. take (length d) (drop i (a @ d @ b)) \<noteq> d"
    unfolding strstr_def find_idx_None .
  from bspec [OF this, of "length a"] show False by simp
qed

lemma strstr_inside: "strstr s d \<noteq> None \<Longrightarrow> strstr (a @ s @ b) d \<noteq> None"
  using strstr_Some(3) [of s d] strstr_found [of "a @ take k s" d "drop (k + length d) s @ b" for k]
  by (metis append.assoc option.exhaust)

lemma replaceall_none: "strstr s d = None \<Longrightarrow> pub_str_replaceall ok cap s d e = Some (Some (0, s))"
  by (subst pub_str_replaceall.simps) simp

lemma replace_inside:
  assumes "strstr e d \<noteq> None" and "strstr s d \<noteq> None" and "pub_str_replace ok cap s d e = Some (ret, t)"
  shows "strstr t d \<noteq> None"
  using assms strstr_inside [OF assms(1)] by (auto simp: pub_str_replace_def Let_def split: if_splits)

lemma replaceall_result:
  assumes "pub_str_replaceall ok cap s d e = Some (Some r)"
  shows "fst r = 0 \<and> strstr (snd r) d = None \<and> (strstr e d \<noteq> None \<longrightarrow> strstr s d = None)"
proof -
  let ?P = "\<lambda>ok cap s d e r. \<forall>q. r = Some q \<longrightarrow>
    fst q = 0 \<and> strstr (snd q) d = None \<and> (strstr e d \<noteq> None \<longrightarrow> strstr s d = None)"
  have "?P ok cap s d e (Some r)"
  proof (rule pub_str_replaceall.raw_induct [where P = ?P, OF _ assms])
    fix f ok cap s d e r
    assume IH: "\<And>ok cap s d e r. f ok cap s d e = Some r \<Longrightarrow> ?P ok cap s d e r"
      and body: "(case strstr s d of None \<Rightarrow> Some (Some (0, s))
        | Some p \<Rightarrow> (case pub_str_replace (ok 0) cap s d e of None \<Rightarrow> Some None
            | Some (ret, str1') \<Rightarrow> f (\<lambda>i. ok (Suc i)) cap str1' d e)) = Some r"
    show "?P ok cap s d e r"
    proof (cases "strstr s d")
      case None
      then show ?thesis using body by auto
    next
      case (Some k)
      show ?thesis
      proof (intro allI impI)
        fix q
        assume q: "r = Some q"
        then obtain ret t where t: "pub_str_replace (ok 0) cap s d e = Some (ret, t)"
            "f (\<lambda>i. ok (Suc i)) cap t d e = Some r"
          using body Some by (auto split: option.splits)
        with IH [OF t(2)] q replace_inside [of e d s "ok 0" cap ret t] Some
        show "fst q = 0 \<and> strstr (snd q) d = None \<and> (strstr e d \<noteq> None \<longrightarrow> strstr s d = None)" by auto
      qed
    qed
  qed
  then show ?thesis by simp
qed

lemma replaceall_step:
  assumes ok: "ok 0" and lt: "length e < length d" and fits: "length s < cap" and often: "\<forall>n. \<exists>i \<ge> n. ok i"
    and IH: "\<And>t ok. length t < length s \<Longrightarrow> length t < cap \<Longrightarrow> \<forall>n. \<exists>i \<ge> n. ok i \<Longrightarrow>
      \<exists>u. pub_str_replaceall ok cap t d e = Some (Some (0, u))"
  shows "\<exists>u. pub_str_replaceall ok cap s d e = Some (Some (0, u))"
proof (cases "strstr s d")
  case None
  then show ?thesis using replaceall_none by blast
next
  case (Some k)
  let ?t = "take k s @ e @ drop (k + length d) s"
  have often': "\<forall>n. \<exists>i \<ge> n. ok (Suc i)" using often by (metis Suc_le_D Suc_le_mono)
  have "length s = length (take k s @ d @ drop (k + length d) s)" using strstr_Some(3) [OF Some] by simp
  then have shorter: "length ?t < length s" using lt by simp
  then have "pub_str_replace True cap s d e = Some (0, ?t)" using Some fits by (simp add: pub_str_replace_def Let_def)
  then have "pub_str_replaceall ok cap s d e = pub_str_replaceall (\<lambda>i. ok (Suc i)) cap ?t d e"
    using Some ok by (subst pub_str_replaceall.simps) simp
  then show ?thesis using IH [OF shorter _ often'] shorter fits by simp
qed

lemma replaceall_ends:
  assumes "length e < length d" and "length s < cap" and "\<forall>n. \<exists>i \<ge> n. ok i"
  shows "\<exists>t. pub_str_replaceall ok cap s d e = Some (Some (0, t))"
  using assms(2,3)
proof (induction "length s" arbitrary: s ok rule: less_induct)
  case less
  note shorter = less.hyps
  obtain i where "ok i" using less.prems(2) by blast
  then show ?case using less.prems(2)
  proof (induction i arbitrary: ok)
    case (Suc i)
    have often: "\<forall>n. \<exists>i \<ge> n. ok (Suc i)" using Suc.prems(2) by (metis Suc_le_D Suc_le_mono)
    show ?case
    proof (cases "ok 0 \<or> strstr s d = None")
      case False
      then have "pub_str_replaceall ok cap s d e = pub_str_replaceall (\<lambda>i. ok (Suc i)) cap s d e"
        by (subst pub_str_replaceall.simps) (auto simp: pub_str_replace_def)
      then show ?thesis using Suc.IH [of "\<lambda>i. ok (Suc i)"] Suc.prems(1) often by simp
    next
      case True
      then show ?thesis using replaceall_step [OF _ assms(1) less.prems(1) Suc.prems(2) shorter] replaceall_none by blast
    qed
  next
    case 0
    then show ?case using replaceall_step [OF _ assms(1) less.prems(1) 0(2) shorter] by blast
  qed
qed

text \<open>C37: Replacing everything ends, with no occurrence left, when the new text is shorter than the old one, the text fits
  its array, and the allocation of the copy does not fail for ever; it never returns, whatever the allocations do (it goes
  on for ever or leaves the array), when the new text contains the old one and there is something to replace.\<close>

theorem replaceall_returns_or_not:
  assumes "length s < cap"
  shows "(length e < length d \<longrightarrow> (\<forall>n. \<exists>i \<ge> n. ok i) \<longrightarrow>
      (\<exists>t. pub_str_replaceall ok cap s d e = Some (Some (0, t)) \<and> strstr t d = None)) \<and>
    (strstr e d \<noteq> None \<longrightarrow> strstr s d \<noteq> None \<longrightarrow> (\<forall>r. pub_str_replaceall ok cap s d e \<noteq> Some (Some r)))"
  using replaceall_ends [of e d s cap ok] assms replaceall_result [of ok cap s d e]
  by (metis snd_conv)

theorem replaceall_returns_or_not_witness:
  "\<exists>t. pub_str_replaceall (\<lambda>i. 0 < i) 9 ''cabab'' ''ab'' ''x'' = Some (Some (0, t)) \<and> strstr t ''ab'' = None"
proof -
  have "\<forall>n. \<exists>i \<ge> n. (0::nat) < i" by (metis lessI less_Suc_eq_le nat_le_linear not_less0 gr0I)
  then show ?thesis using replaceall_returns_or_not [of "''cabab''" 9 "''x''" "''ab''" "\<lambda>i. 0 < i"] by simp
qed

section \<open>Properties\<close>

text \<open>C38: In a list of words separated by blanks, each of fewer than 32 characters, \<^verbatim>\<open>pub_str_include\<close> finds exactly the
  words of the list, and \<^verbatim>\<open>pub_str_checkincl\<close> finds exactly the words but the last one, which is what stands behind
  the last blank.  (From 32 characters on
  \<^verbatim>\<open>pub_str_checkincl\<close> writes behind its array, from 512 on \<^verbatim>\<open>pub_str_include\<close> too.)\<close>

theorem word_lists_searched:
  assumes "\<forall>w \<in> set (blank_words s). length w < 32"
  shows "pub_str_include v s = Some (if v \<in> set (blank_words s) then 0 else - 1) \<and>
    pub_str_checkincl s v = Some (if v \<in> set (butlast (blank_words s)) then 0 else - 1)"
proof -
  have "\<forall>w \<in> set (blank_words s). length w < 512" using assms by (auto dest: bspec)
  then show ?thesis
    using assms include_loop_words [of "[]" s v] checkincl_loop_words [of "[]" s v]
    by (simp add: words_from_nil pub_str_include_def pub_str_checkincl_def)
qed

theorem word_lists_searched_witness:
  "pub_str_include ''yz'' ''x yz'' = Some (if ''yz'' \<in> set (blank_words ''x yz'') then 0 else - 1) \<and>
    pub_str_checkincl ''x yz'' ''yz'' = Some (if ''yz'' \<in> set (butlast (blank_words ''x yz'')) then 0 else - 1)"
  by (rule word_lists_searched) simp

text \<open>The check for half characters accepts a text exactly when it is made of single characters below 128 and of pairs
  from 128 on, but for one half character at its end, which it does not see.\<close>

theorem half_characters:
  assumes "len \<le> length buf"
  shows "pub_str_chkhalf buf len =
    Some (if whole_text (take len buf) \<or> (\<exists>t c. take len buf = t @ [c] \<and> whole_text t \<and> high c) then 0 else - 1)"
proof -
  have "chkhalf_loop st s \<in> {0, - 1}" for st s by (induction st s rule: chkhalf_loop.induct) auto
  then show ?thesis using assms chkhalf_whole [of SCODE "take len buf"] by (auto simp: pub_str_chkhalf_def)
qed

theorem half_characters_witness:
  "pub_str_chkhalf [CHR 0xA3, CHR 0xBA, CHR ''a''] 2 =
    Some (if whole_text (take 2 [CHR 0xA3, CHR 0xBA, CHR ''a'']) \<or>
      (\<exists>t c. take 2 [CHR 0xA3, CHR 0xBA, CHR ''a''] = t @ [c] \<and> whole_text t \<and> high c) then 0 else - 1)"
  by (rule half_characters) simp

text \<open>Reading digits: the value is reduced to the width of the variable, and only a negative result is noticed.\<close>

lemma s32_digit: "s32 (s32 v * 10 + d) = s32 (v * 10 + d)"
proof -
  have "s32 v mod 2 ^ 32 = v mod 2 ^ 32"
    using take_bit_signed_take_bit [of 32 31 v] by (simp add: s32_def take_bit_eq_mod)
  then have "(s32 v * 10 + d) mod 2 ^ 32 = (v * 10 + d) mod 2 ^ 32" by (intro mod_add_cong mod_mult_cong) simp_all
  then show ?thesis by (simp add: s32_def signed_take_bit_eq_iff_take_bit_eq take_bit_eq_mod)
qed

lemma ato_loop_digits:
  "\<forall>c \<in> set ds. c_isdigit c \<Longrightarrow>
   ato_loop s32 (ds @ rest) (length ds) (s32 v) =
     Some (let r = s32 (foldl (\<lambda>a c. a * 10 + int (c_digit c)) v ds) in if r < 0 then - 1 else r)"
proof (induction ds arbitrary: v)
  case (Cons d ds)
  then show ?case using Cons.IH [of "v * 10 + int (c_digit d)"] by (simp add: s32_digit)
qed (simp add: Let_def)

lemma foldl_digits: "foldl (\<lambda>a c. a * 10 + int (c_digit c)) (int v) ds = int (foldl (\<lambda>a c. 10 * a + c_digit c) v ds)"
proof (induction ds arbitrary: v)
  case (Cons d ds)
  then show ?case using Cons.IH [of "10 * v + c_digit d"] by (simp add: mult.commute)
qed simp

text \<open>C39: \<^verbatim>\<open>pub_str_atoi\<close> reads any digits; it answers their value only below 2 ^ 31, and beyond that whatever the low 32
  bits give, or -1 when these are negative.\<close>

theorem decimal_value_wraps:
  assumes "\<forall>c \<in> set ds. c_isdigit c" and "ds \<noteq> []"
  shows "pub_str_atoi (ds @ rest) (length ds) =
    Some (if s32 (int (digits_val ds)) < 0 then - 1 else s32 (int (digits_val ds)))"
  using ato_loop_digits [OF assms(1), of rest 0] foldl_digits [of 0 ds] assms(2)
  by (simp add: pub_str_atoi_def digits_val_def Let_def)

theorem decimal_value_wraps_witness:
  "pub_str_atoi (''42'' @ ''x'') (length ''42'') =
    Some (if s32 (int (digits_val ''42'')) < 0 then - 1 else s32 (int (digits_val ''42'')))"
  by (rule decimal_value_wraps) (simp_all add: c_isdigit_def)

section \<open>Printed numbers\<close>

lemma put_at_fits:
  "pos + length cs \<le> length mem \<Longrightarrow> put_at pos cs mem = Some (take pos mem @ cs @ drop (pos + length cs) mem)"
  by (simp add: put_at_def)

text \<open>Characters of a format that are no conversion are copied.\<close>

lemma fmt_loop_plain:
  "CHR ''%'' \<notin> set fmt \<Longrightarrow> pos + length fmt \<le> last' \<Longrightarrow> pos + length fmt \<le> length mem \<Longrightarrow>
   fmt_loop fo last' (fmt @ rest) args (mem, pos) =
     fmt_loop fo last' rest args (take pos mem @ fmt @ drop (pos + length fmt) mem, pos + length fmt)"
proof (induction fmt arbitrary: mem pos)
  case (Cons c cs)
  have put: "put_at pos [c] mem = Some (take pos mem @ [c] @ drop (pos + 1) mem)" using Cons.prems put_at_fits [of pos "[c]" mem] by simp
  have "fmt_loop fo last' ((c # cs) @ rest) args (mem, pos) =
      fmt_loop fo last' (cs @ rest) args (take pos mem @ [c] @ drop (pos + 1) mem, pos + 1)"
  proof -
    have "c \<noteq> CHR ''%''" using Cons.prems(1) by auto
    then show ?thesis using Cons.prems put by simp
  qed
  also have "\<dots> = fmt_loop fo last' rest args (take (pos + 1) (take pos mem @ [c] @ drop (pos + 1) mem) @ cs @
      drop (pos + 1 + length cs) (take pos mem @ [c] @ drop (pos + 1) mem), pos + 1 + length cs)"
    using Cons.prems by (intro Cons.IH) simp_all
  finally show ?case using Cons.prems by (simp add: drop_drop add.commute add.left_commute)
qed simp

lemma int_d:
  "0 \<le> x \<Longrightarrow> x < 2147483648 \<Longrightarrow> pos + length (nat_digits (nat x)) \<le> last' \<Longrightarrow> last' \<le> length mem \<Longrightarrow>
   fmt_one fo last' (CHR ''d'' # rest) (IntArg x # args) (mem, pos) =
     Some (rest, args, (take pos mem @ nat_digits (nat x) @ drop (pos + length (nat_digits (nat x))) mem, pos))"
  by (simp add: fmt_one_def scan_number_def c_isdigit_def fmt_conv_def int_conv_def print_int_def pub_str_sprintf_num_def put_at_fits Let_def)

text \<open>C40: A number that is printed is overwritten by what is printed behind it: the position stays at its first digit, so
  the text up to the position that is returned does not hold the number, and less is counted than was written.\<close>

theorem number_overwritten:
  assumes "CHR ''%'' \<notin> set pre" and "CHR ''%'' \<notin> set post" and "0 \<le> x" and "x < 2147483648"
    and "length pre + length (nat_digits (nat x)) \<le> n" and "length pre + length post \<le> n" and "n \<le> length buf"
  shows "\<exists>mem. pub_str_snprintf fo buf n (pre @ ''%d'' @ post) [IntArg x] = Some (mem, length pre + length post) \<and>
    take (length pre + length post) mem = pre @ post"
proof -
  let ?ds = "nat_digits (nat x)"
  let ?m1 = "pre @ drop (length pre) buf"
  let ?m2 = "pre @ ?ds @ drop (length pre + length ?ds) buf"
  have lt: "length pre < n" using assms(5) nat_digits_nonempty [of "nat x"] by (metis add_less_cancel_left length_greater_0_conv less_le_trans nat_arith.rule0)
  have "fmt_loop fo n (pre @ ''%d'' @ post) [IntArg x] (buf, 0) = fmt_loop fo n (''%d'' @ post) [IntArg x] (?m1, length pre)"
    using assms fmt_loop_plain [of pre 0 n buf fo "''%d'' @ post" "[IntArg x]"] by simp
  also have "\<dots> = fmt_loop fo n post [] (?m2, length pre)"
    using lt assms int_d [of x "length pre" n ?m1 fo post "[]"] by (simp add: add.commute)
  also have "\<dots> = fmt_loop fo n (post @ []) [] (?m2, length pre)" by simp
  also have "\<dots> = Some (take (length pre) ?m2 @ post @ drop (length pre + length post) ?m2, length pre + length post)"
    using assms by (subst fmt_loop_plain) simp_all
  finally show ?thesis by (simp add: pub_str_snprintf_def pub_str_vslprintf_def)
qed

definition no_float :: "unit fmt_ops" where
  "no_float = \<lparr>dbl_add = \<lambda>_ _. (), dbl_sub = \<lambda>_ _. (), dbl_mul = \<lambda>_ _. (), dbl_div = \<lambda>_ _. (), dbl_neg = \<lambda>_. (), dbl_less = \<lambda>_ _. False,
     dbl_of_int = \<lambda>_. (), dbl_prec = (), strtod = \<lambda>_. (), fmt_dbl = \<lambda>_ _. [], dbl_trunc = \<lambda>_. 0, dbl_half = ()\<rparr>"

theorem number_overwritten_witness:
  "\<exists>mem. pub_str_snprintf no_float (replicate 20 NUL) 10 (''a='' @ ''%d'' @ '';'') [IntArg 7] = Some (mem, length ''a='' + length '';'') \<and>
    take (length ''a='' + length '';'') mem = ''a='' @ '';''"
  by (rule number_overwritten) (simp_all add: nat_digits.simps)

section \<open>Other helpers\<close>

text \<open>The comparison without case is the comparison of the texts in lower case.\<close>

lemma of_char_range: "0 \<le> (of_char c :: int) \<and> (of_char c :: int) < 256"
  using pos_mod_bound [of 256 "of_char c"] pos_mod_sign [of 256 "of_char c"] by simp

lemma c_int_inj: "c_int c = c_int d \<longleftrightarrow> c = d"
proof
  assume eq: "c_int c = c_int d"
  have "(of_char c :: int) = of_char d" using eq of_char_range [of c] of_char_range [of d] by (auto simp: c_int_def Let_def split: if_splits)
  then show "c = d" by simp
qed simp

lemma lower_int_inj: "lower_int c = lower_int d \<longleftrightarrow> pub_str_tolower c = pub_str_tolower d"
proof -
  have "c_int (pub_str_tolower c) = lower_int c" for c
  proof (cases "65 \<le> c_int c \<and> c_int c \<le> 90")
    case True
    then have "c_int c = of_char c" using of_char_range [of c] by (auto simp: c_int_def Let_def split: if_splits)
    then show ?thesis using True by (simp add: pub_str_tolower_def lower_int_def) (simp add: c_int_def Let_def)
  qed (auto simp: pub_str_tolower_def lower_int_def)
  then show ?thesis by (metis c_int_inj)
qed

lemma lower_int_zero: "lower_int c = 0 \<longleftrightarrow> c = NUL"
proof -
  have "lower_int c = 0 \<longleftrightarrow> c_int c = c_int NUL" by (auto simp: lower_int_def c_int_def [of NUL])
  then show ?thesis by (simp add: c_int_inj)
qed

theorem strcasecmp_lower:
  assumes "NUL \<notin> set s" and "NUL \<notin> set t"
  shows "pub_str_strcasecmp s t = 0 \<longleftrightarrow> map pub_str_tolower s = map pub_str_tolower t"
  using assms by (induction s t rule: pub_str_strcasecmp.induct) (auto simp: lower_int_zero lower_int_inj [symmetric])

text \<open>The comparison of the ends answers 0 exactly when both strings have \<open>n\<close> characters and end with the same ones.\<close>

lemma suffix_left_zero:
  "suffix_left ps qs n = 0 \<longleftrightarrow> n \<le> length ps \<and> n \<le> length qs \<and> take n ps = take n qs"
  by (induction ps qs n rule: suffix_left.induct) auto

theorem ends_compared:
  "pub_str_strrncmp (Some s) (Some t) n = 0 \<longleftrightarrow>
     n \<le> length s \<and> n \<le> length t \<and> drop (length s - n) s = drop (length t - n) t"
  by (auto simp: pub_str_strrncmp_def suffix_left_zero take_rev)

text \<open>Trimming a text that has a character which is no blank removes the blanks around it; a text of blanks, also the
  empty one, is read in front of its start.\<close>

theorem trim_removes_blanks:
  assumes "\<forall>c \<in> set a. c_blank c" and "\<forall>c \<in> set b. c_blank c" and "\<not> c_blank (hd s)" and "\<not> c_blank (List.last s)" and "s \<noteq> []"
  shows "pub_str_trim (a @ s @ b) = Some (0, s)"
proof -
  have "dropWhile c_blank (a @ s @ b) = s @ b" using assms(1,3,5) by (cases s) (simp_all add: dropWhile_append2)
  moreover have "rev (dropWhile c_blank (rev (s @ b))) = s"
    using assms(2,4,5) dropWhile_append2 [of "rev b" c_blank "rev s"] by (cases s rule: rev_cases) simp_all
  moreover have "\<exists>c \<in> set (s @ b). \<not> c_blank c" using assms(3,5) by (cases s) auto
  ultimately show ?thesis by (simp add: pub_str_trim_def pub_str_ltrim_def pub_str_rtrim_def)
qed

theorem trim_blank_text:
  "\<forall>c \<in> set s. c_blank c \<Longrightarrow> pub_str_trim s = None"
  by (auto simp: pub_str_trim_def pub_str_ltrim_def pub_str_rtrim_def dest: set_dropWhileD)

text \<open>The check of Chinese characters answers success only when there is nothing to replace: a text becomes longer with
  the first character that is replaced, and then it fails.\<close>

lemma chinese_text_length:
  "length s \<le> length (chinese_text s) \<and> (length (chinese_text s) \<le> length s \<longrightarrow> chinese_text s = s \<and> (\<forall>c \<in> set s. map_of chinese_table c = None))"
proof (induction s)
  case (Cons c s)
  have "length t = 2" if "map_of chinese_table c = Some t" for t
    using that by (auto simp: chinese_table_def split: if_splits)
  then show ?case using Cons by (cases "map_of chinese_table c") (auto simp: chinese_text_def)
qed (simp add: chinese_text_def)

theorem chkchinese_replaces_nothing:
  "pub_str_chkchinese s = Some (0, t) \<Longrightarrow> t = s \<and> (\<forall>c \<in> set s. map_of chinese_table c = None)"
proof -
  assume ok: "pub_str_chkchinese s = Some (0, t)"
  then have "length (chinese_text s) \<le> length s" "t = chinese_text s"
    by (auto simp: pub_str_chkchinese_def Let_def split: if_splits)
  then show ?thesis using chinese_text_length [of s] by blast
qed

text \<open>Only the first character is tested.\<close>

theorem isdigit_first:
  "str_isdigit s \<longleftrightarrow> s \<noteq> [] \<and> c_isdigit (hd s)"
  by (auto simp: str_isdigit_def)

text \<open>The last occurrence is missed when it overlaps the one before it.\<close>

theorem lastindexof_overlap:
  "pub_str_lastindexof ''aaa'' ''aa'' = Some 0"
  by (simp add: pub_str_lastindexof_def strstr_def last_match.simps [of "''aaa''" "''aa''" 0])

text \<open>The empty string is looked for without end.\<close>

theorem lastindexof_empty:
  "pub_str_lastindexof s [] = None"
proof -
  have some: "strstr t [] = Some 0" for t by (simp add: strstr_def upt_rec del: upt_Suc)
  have "False" if "last_match s [] p = Some q" for p q
    by (rule last_match.raw_induct [where P = "\<lambda>s d p q. d \<noteq> []", OF _ that, simplified]) (intro notI, simp add: some, blast)
  then show ?thesis using some by (cases "last_match s [] 0") (auto simp: pub_str_lastindexof_def)
qed

end
