(* ===== verification/Spec2Isabelle.thy ===== *)
theory Spec2Isabelle
  imports Prelude Sem_Lock Mtype_Limit Pub_Time Mtype Mtype_Info Seqs Pub_Code Pub_Lz Des3 Procs Procs_Table
    Alias_Pool Pub_Hash Pub_Filter Pub_Queue Pub_Stack Pub_Minifun Pub_Computexp Exp_Value Exp_Props Pub_Regex Msg_Trans Pub_Route Pub_Buf Pub_Hvar Shm_Slab Pub_Str
begin

text \<open>
  A model of the run-time core of the SW message switch (\<^verbatim>\<open>src/v3.3/src/core\<close>, C) and the theorems
  that make it correct.

  \<^bold>\<open>The program.\<close>  A switch node is a set of processes (listeners, dispatchers, services) that work on tables in
  shared memory.  Every access is bracketed by locks that live in one System V semaphore set.  A listener that
  receives a message allocates a session (\<^verbatim>\<open>mtype_new\<close>), subject to the quota of its product and listener
  (\<^verbatim>\<open>mtype_limit_check\<close>), stores link, product, flow and error data in the session's node while the message
  travels, draws sequence numbers for it (\<^verbatim>\<open>seqs_new_trace_no\<close>, \<^verbatim>\<open>seqs_new_business_no\<close>)
  and ends the session (\<^verbatim>\<open>mtype_delete\<close>), which gives the quota back.  Processes find each other in the
  process table (\<^verbatim>\<open>procs_get_dst_proc\<close>) and pass the message on through queues (\<^verbatim>\<open>route_snd_dst\<close>,
  \<^verbatim>\<open>msg_trans.c\<close>), with the variables of the session as text; formats and services compute expressions on them.

  \<^bold>\<open>Theories and sources.\<close>
    \<^item> \<open>Prelude\<close>: return codes, C integers of 16, 32 and 64 bits, C strings, the conversions of
      \<^verbatim>\<open>printf\<close> and \<^verbatim>\<open>atoll\<close> with their round trips, and four interfaces:
      \<open>id_source\<close> (calls that hand out identifiers), \<open>id_pool\<close> (identifiers that can be given back),
      \<open>counter\<close> (requests that return successive values) and \<open>kv_store\<close> (values stored under keys).
    \<^item> \<open>Sem_Lock\<close>: \<^verbatim>\<open>core/sem_lock.c\<close> over \<^verbatim>\<open>os/unix/pub_sem.c\<close>.  A semaphore set is a list of values,
      a lock an index into it: a mutex or a writer takes 500 units, a reader takes one.  The locale
      \<open>lock_service\<close> is interpreted three times, for mutexes, readers and writers; the step relation
      \<open>rw_step\<close> interleaves any number of processes.
    \<^item> \<open>Mtype_Limit\<close>: \<^verbatim>\<open>core/mtype_limit.c\<close>, the product and listener quotas, their registration from
      the configuration, the check on entry (its test \<open>limit_test\<close> and its increment \<open>limit_take\<close>, between which the
      code holds no lock) and the release on exit; \<open>admission\<close> is the history of entries and exits.
    \<^item> \<open>Pub_Time\<close>: the part of \<^verbatim>\<open>core/pub_time.c\<close> the session table prints with.
    \<^item> \<open>Mtype\<close>: the session table of \<^verbatim>\<open>core/mtype.c\<close>: creation, allocation with its scan for an idle
      node and the reclaim of stale ones, deletion.  \<open>mtype_inv\<close> is its invariant; the table is an
      instance of \<open>id_pool\<close>.
    \<^item> \<open>Mtype_Info\<close>: the accessors of a session's node in the same file; \<open>info_op\<close> lists every call that
      stores into a node, and the call that stores the start time of the table.
    \<^item> \<open>Seqs\<close>: \<^verbatim>\<open>core/seqs.c\<close>: the sequence numbers and the business date, with save and recovery; a cycling
      unit is an instance of \<open>counter\<close>.
    \<^item> \<open>Procs\<close>, \<open>Procs_Table\<close>: \<^verbatim>\<open>core/procs.c\<close>, the table of the processes: the operations, and the table as a whole,
      an area of which is a directory from names to processes; \<open>table_step\<close> is any call that allocates nothing,
      \<open>procs_reachable\<close> what start, allocations and such calls lead to.
    \<^item> \<open>Msg_Trans\<close>: \<^verbatim>\<open>core/msg_trans.c\<close> over \<^verbatim>\<open>os/unix/pub_msq.c\<close> and \<^verbatim>\<open>os/unix/pub_fifo.c\<close>: the message
      queues of the processes and the pipes beside them.
    \<^item> \<open>Pub_Route\<close>: \<^verbatim>\<open>core/pub_route.c\<close>, the stack of requests and \<^verbatim>\<open>route_snd_dst\<close>, which works on the session
      table, the process table and the message queues together.
    \<^item> \<open>Shm_Slab\<close>: \<^verbatim>\<open>core/shm_slab.c\<close>, the allocator of the shared memory, over memory that is addressed by bits.
    \<^item> \<open>Alias_Pool\<close>, \<open>Pub_Hash\<close>, \<open>Pub_Filter\<close>, \<open>Pub_Queue\<close>, \<open>Pub_Stack\<close>, \<open>Pub_Buf\<close>, \<open>Pub_Hvar\<close>, \<open>Pub_Str\<close>:
      the containers and helpers \<^verbatim>\<open>core/alias_pool.c\<close>, \<^verbatim>\<open>core/pub_hash.c\<close>, \<^verbatim>\<open>core/pub_filter.c\<close>,
      \<^verbatim>\<open>core/pub_queue.c\<close> (with the macros of its header), \<^verbatim>\<open>core/pub_stack.c\<close>, \<^verbatim>\<open>core/pub_buf.c\<close>,
      \<^verbatim>\<open>core/pub_hvar.c\<close> and \<^verbatim>\<open>core/pub_string.c\<close>.  The alias pool, the hash table and the variables are
      instances of \<open>kv_store\<close>; appending to a buffer is one of \<open>text_sink\<close>.
    \<^item> \<open>Pub_Minifun\<close>, \<open>Pub_Computexp\<close>: \<^verbatim>\<open>core/pub_minifun.c\<close> and \<^verbatim>\<open>core/pub_computexp.c\<close>, the functions and
      the evaluator of expressions; \<open>Exp_Value\<close> gives expressions as trees, their text and what the code computes of
      them (\<open>eval\<close>); \<open>Exp_Props\<close> holds what they mean (\<open>meaning\<close>) and the properties.
    \<^item> \<open>Pub_Regex\<close>: \<^verbatim>\<open>core/pub_regex.c\<close>, the pattern matcher.
    \<^item> \<open>Pub_Code\<close>, \<open>Pub_Lz\<close>, \<open>Des3\<close>: the code conversions and the LZ77 compressors of \<^verbatim>\<open>core/pub_code.c\<close> (locale
      \<open>match_finder\<close>), and DES and triple DES of \<^verbatim>\<open>core/des3.c\<close> (locale \<open>block_cipher\<close>).

  \<^bold>\<open>Correspondence.\<close>  A C function is a definition of the same name.  A struct is a record with a short prefix on
  its fields, an array inside shared memory a list.  The global pointers into shared memory (\<^verbatim>\<open>g_shm_mtype\<close>,
  \<^verbatim>\<open>g_shm_seqs\<close>, \<dots>) are fields of a world record of type \<open>option\<close>; the worlds extend each other in the
  order of the calls (\<open>sem_world\<close>, \<open>limit_world\<close>, \<open>mtype_world\<close>; \<open>seq_world\<close> extends \<open>sem_world\<close>),
  and the lower functions are polymorphic in the extension.  A function returns its return code, what it stores
  through its pointers, and the new world.  \<open>None\<close> means that the C function does not return in a defined way:
  it blocks, never ends, follows a null pointer or leaves an array.  What the code reads from outside (time, the
  local calendar, the parsed configuration, the answers of the remote resource server, the result of file
  operations, whether an allocation succeeds, floating point arithmetic) is an argument.  Log calls are dropped.

  \<^bold>\<open>What the theorems show.\<close>
    \<^item> Locks: identifiers are fresh and usable up to the last one, which locks nothing; a writer is alone and at most
      500 readers are in at once, in every interleaving; whoever is inside can leave, and everybody can get in again.
    \<^item> Quotas: when the calls follow one another, in every history the counters equal the live sessions and stay within
      the limits; a full product is refused; a full listener crashes the caller; two checks that overlap exceed the limit.
    \<^item> Sessions: every allocation returns an idle or stale node within the table, cleared and filled in, or fails only
      when the table is full; an identifier is not handed out twice before it is deleted or too old; deletion ends
      exactly its session and a session just created can be deleted; every setter keeps the invariant.
    \<^item> Session data: what is stored is read back, a session is found by its key, the first error is kept.
    \<^item> Numbers: a cycling unit runs through its whole range, with any increment, before it repeats; reserved ranges do
      not overlap; a change of the date resets every unit and nothing else, and is refused while the date is locked; a
      recovery skips numbers that may have been issued after the save.
    \<^item> Processes and messages: the runs of the groups stay apart and names unique under every sequence of calls; a
      registration is a map update; the dispatch takes an idle process or one with the fewest tasks; a queue holds one
      message per session; a request that is sent lies in the queue of the process chosen for it; nested calls return to
      their callers.
    \<^item> Memory: in a pool of at most 4 GB regions never overlap while nothing is released; releases make them overlap.
    \<^item> Containers and text: the hash table and the variables are maps, the stack and the queue lists, a buffer a text;
      sorting a queue is a stable sort; variables survive their text form.
    \<^item> Expressions and patterns: within the limits stated, brackets, sums of products and conditions have the value they
      mean; the matcher decides the patterns that can be followed without going back.
    \<^item> Codes: base64, compression and encryption are undone by their inverses.
    \<^item> Limits of the code, as theorems of what happens: a table of more than 32767 sessions, the last lock, tables
      filled past their end, fields that are too short for what is printed into them, a unit whose start lies
      beyond its maximum (its request is \<open>None\<close>, by induction over the computation), a full pipe, strings compared
      with \<open><\<close>, a pool beyond 4 GB, a replacement that never ends.

  \<^bold>\<open>Bounds.\<close>  Integers are unbounded with the narrowing of C written out at each store (\<open>s16\<close>, \<open>s32\<close>,
  \<open>s64\<close>, \<open>s8\<close>), or words in the codes and ciphers; where a length cannot come near its width it is a natural number, and
  the theory says so.  The sizes of records are those of an LP64 machine.  Loops over an array recurse on the number of
  nodes left, loops over a text on the text.  Loops that may run for ever (\<open>get_no_from_unit\<close>, the walks along the
  pointers of a queue, \<open>pub_str_replaceall\<close>) are partial functions, and the theorems say when they return.

  \<^bold>\<open>Not modelled.\<close>  The printing functions of the modelled files.  The interleaving inside a call: apart from the
  readers and writers locks and the races shown for quotas and sends, calls run one after another.  The parameter
  tables, the shared variables and the variables in XML trees (each over a store of pointers of its own, filled from XML
  documents), the XML parser, the configuration readers, the red-black tree and the pools taken over from nginx,
  operating system wrappers, logging, jobs, the listeners, services and plugins, the packing of formats, the
  communication library, the branch agent and the operator commands.
\<close>

end
